(* ===== verification/Scr_Prelude.thy ===== *)
theory Scr_Prelude
  imports "HOL-Library.Word"
begin

text \<open>
  Shared vocabulary of the development: the machine integers of the C code, the chains of
  indices that ihash and ilist2 use in place of pointers, little-endian byte encodings,
  and the generic list lemmas that several components need.
\<close>

unbundle bit_operations_syntax

section \<open>Machine integers\<close>

type_synonym u8 = "8 word"
type_synonym u16 = "16 word"
type_synonym u32 = "32 word"
type_synonym u64 = "64 word"
type_synonym i16 = "16 word"
type_synonym i32 = "32 word"
type_synonym i64 = "64 word"

text \<open>
  Signed types are the same words read with \<open>sint\<close>; C's comparison of two signed values
  is \<open>sint a < sint b\<close>.
\<close>

abbreviation slt :: "'a::len word \<Rightarrow> 'a word \<Rightarrow> bool" where
  "slt a b \<equiv> sint a < sint b"

abbreviation sle :: "'a::len word \<Rightarrow> 'a word \<Rightarrow> bool" where
  "sle a b \<equiv> sint a \<le> sint b"

named_theorems rep_simps \<open>unfolding rules for the representation invariants\<close>
named_theorems rep_intros \<open>introduction rules for the representation invariants\<close>

section \<open>Chains of indices\<close>

text \<open>
  The C code links array slots by index, with -1 (IHASH_UNDEF, ILIST2_UNDEF) as the null
  link. \<open>idx_path nx n i xs j\<close> says: starting at link \<open>i\<close> and following
  \<open>nx\<close>, the slots visited are exactly \<open>xs\<close> (all below \<open>n\<close>), and the link
  after the last one is \<open>j\<close>.
\<close>

definition IDX_UNDEF :: int where
  "IDX_UNDEF = -1"

lemma IDX_UNDEF_neq_int [simp]: "IDX_UNDEF \<noteq> int n" "int n \<noteq> IDX_UNDEF"
  by (auto simp: IDX_UNDEF_def)

primrec idx_path :: "(nat \<Rightarrow> int) \<Rightarrow> nat \<Rightarrow> int \<Rightarrow> nat list \<Rightarrow> int \<Rightarrow> bool" where
  "idx_path nx n i [] j \<longleftrightarrow> i = j"
| "idx_path nx n i (x # xs) j \<longleftrightarrow> i = int x \<and> x < n \<and> idx_path nx n (nx x) xs j"

lemma idx_path_append:
  "idx_path nx n i (xs @ ys) j \<longleftrightarrow> (\<exists>k. idx_path nx n i xs k \<and> idx_path nx n k ys j)"
  by (induction xs arbitrary: i) auto

lemma idx_path_cong:
  assumes "\<And>x. x \<in> set xs \<Longrightarrow> nx x = ny x"
  shows "idx_path nx n i xs j \<longleftrightarrow> idx_path ny n i xs j"
  using assms by (induction xs arbitrary: i) auto

lemma idx_path_transfer:
  "idx_path nx n i xs j \<Longrightarrow> \<forall>x \<in> set xs. nx x = ny x \<Longrightarrow> idx_path ny n i xs j"
  using idx_path_cong[of xs nx ny n i j] by blast

lemma idx_path_upd [simp]:
  "x \<notin> set xs \<Longrightarrow> idx_path (nx(x := v)) n i xs j \<longleftrightarrow> idx_path nx n i xs j"
  by (rule idx_path_cong) auto

lemma idx_path_bound: "idx_path nx n i xs j \<Longrightarrow> x \<in> set xs \<Longrightarrow> x < n"
  by (induction xs arbitrary: i) auto

lemma idx_path_UNDEF [simp]: "idx_path nx n IDX_UNDEF xs IDX_UNDEF \<longleftrightarrow> xs = []"
  by (cases xs) auto

lemma idx_path_int: "idx_path nx n (int x) xs IDX_UNDEF \<Longrightarrow>
    \<exists>ys. xs = x # ys \<and> x < n \<and> idx_path nx n (nx x) ys IDX_UNDEF"
  by (cases xs) auto

lemma idx_path_unique:
  "idx_path nx n i xs IDX_UNDEF \<Longrightarrow> idx_path nx n i ys IDX_UNDEF \<Longrightarrow> xs = ys"
proof (induction xs arbitrary: i ys)
  case Nil
  then show ?case by (cases ys) auto
next
  case (Cons x xs)
  then show ?case by (cases ys) auto
qed

lemma idx_path_cases:
  assumes "idx_path nx n i xs IDX_UNDEF"
  obtains "i = IDX_UNDEF" "xs = []"
  | x ys where "i = int x" "x < n" "xs = x # ys" "idx_path nx n (nx x) ys IDX_UNDEF"
  using assms by (cases xs) auto

text \<open>Following a chain with a bound on the number of steps: executable.\<close>

primrec idx_walk :: "(nat \<Rightarrow> int) \<Rightarrow> nat \<Rightarrow> int \<Rightarrow> nat list" where
  "idx_walk nx 0 i = []"
| "idx_walk nx (Suc fuel) i =
     (if i = IDX_UNDEF then [] else nat i # idx_walk nx fuel (nx (nat i)))"

lemma idx_walk_path:
  "idx_path nx n i xs IDX_UNDEF \<Longrightarrow> length xs \<le> fuel \<Longrightarrow> idx_walk nx fuel i = xs"
proof (induction xs arbitrary: i fuel)
  case Nil
  then show ?case by (cases fuel) auto
next
  case (Cons x xs)
  then show ?case by (cases fuel) auto
qed

lemma idx_walk_cong:
  assumes "idx_path nx n i xs IDX_UNDEF" "length xs \<le> fuel" "\<And>x. x \<in> set xs \<Longrightarrow> nx x = ny x"
  shows "idx_walk ny fuel i = xs"
proof (rule idx_walk_path)
  show "idx_path ny n i xs IDX_UNDEF"
    using assms idx_path_cong[of xs nx ny] by blast
qed (fact assms)

text \<open>Appending a slot at the end of a chain, and unlinking one behind a predecessor.\<close>

lemma idx_path_snoc:
  assumes "idx_path nx n i xs IDX_UNDEF" "xs \<noteq> []" "distinct xs" "m \<notin> set xs" "m < n"
  shows "idx_path (nx(last xs := int m, m := IDX_UNDEF)) n i (xs @ [m]) IDX_UNDEF"
proof -
  obtain ys x where xs: "xs = ys @ [x]" using assms(2) by (cases xs rule: rev_cases) auto
  have p: "idx_path nx n i ys (int x)" "x < n" using assms(1) xs by (auto simp: idx_path_append)
  have "idx_path (nx(x := int m, m := IDX_UNDEF)) n i ys (int x)"
    by (rule idx_path_transfer[OF p(1)]) (use assms(3,4) xs in auto)
  then show ?thesis using assms(3,4,5) xs p(2) by (auto simp: idx_path_append)
qed

lemma idx_path_unlink:
  assumes "idx_path nx n i (ys @ c # zs) IDX_UNDEF" "ys \<noteq> []" "distinct (ys @ c # zs)"
  shows "idx_path (nx(last ys := nx c, c := j)) n i (ys @ zs) IDX_UNDEF"
proof -
  obtain us x where ys: "ys = us @ [x]" using assms(2) by (cases ys rule: rev_cases) auto
  have p: "idx_path nx n i us (int x)" "x < n" "idx_path nx n (nx c) zs IDX_UNDEF"
    using assms(1) ys by (auto simp: idx_path_append)
  let ?nx = "nx(x := nx c, c := j)"
  have "idx_path ?nx n i us (int x)"
    by (rule idx_path_transfer[OF p(1)]) (use assms(3) ys in auto)
  moreover have "idx_path ?nx n (nx c) zs IDX_UNDEF"
    by (rule idx_path_transfer[OF p(3)]) (use assms(3) ys in auto)
  ultimately show ?thesis using p(2) assms(3) ys by (auto simp: idx_path_append)
qed

lemma idx_path_drop_head:
  "idx_path nx n i (c # zs) IDX_UNDEF \<Longrightarrow> i = int c \<and> c < n \<and> idx_path nx n (nx c) zs IDX_UNDEF"
  by simp

text \<open>Reading an array after a write, in or out of range.\<close>

lemma nth_upd: "xs[i := v] ! j = (if i = j \<and> i < length xs then v else xs ! j)"
  by (cases "i < length xs") (auto simp: nth_list_update not_less list_update_beyond)

lemma map_of_snoc:
  "k \<notin> set (map fst kv) \<Longrightarrow> map_of (kv @ [(k, v)]) = (map_of kv)(k \<mapsto> v)"
  by (induction kv) (auto simp: fun_eq_iff)

lemma map_of_replace:
  "map_of kv k = None \<Longrightarrow> map_of (kv @ [(k, v)] @ r) = (map_of (kv @ [(k, w)] @ r))(k \<mapsto> v)"
  by (induction kv) (auto simp: fun_eq_iff split: if_splits)

text \<open>A distinct list of numbers below \<open>n\<close> has at most \<open>n\<close> elements.\<close>

lemma distinct_below_length:
  "distinct xs \<Longrightarrow> (\<And>x. x \<in> set xs \<Longrightarrow> x < n) \<Longrightarrow> length xs \<le> n"
proof -
  assume d: "distinct xs" and b: "\<And>x. x \<in> set xs \<Longrightarrow> x < n"
  have "length xs = card (set xs)" using d by (simp add: distinct_card)
  also have "\<dots> \<le> card {..<n}" using b by (intro card_mono) auto
  finally show "length xs \<le> n" by simp
qed

text \<open>The free list after initialisation: every slot points to its successor.\<close>

lemma idx_path_succ:
  assumes "\<And>x. x + 1 < n \<Longrightarrow> nx x = int x + 1" and "0 < n \<Longrightarrow> nx (n - 1) = IDX_UNDEF"
    and "k < n"
  shows "idx_path nx n (int k) [k..<n] IDX_UNDEF"
  using assms(3)
proof (induction "n - k" arbitrary: k)
  case 0
  then show ?case by simp
next
  case (Suc m)
  have upt: "[k..<n] = k # [Suc k..<n]" using Suc.prems by (simp add: upt_conv_Cons)
  show ?case
  proof (cases "Suc k < n")
    case True
    have "idx_path nx n (int (Suc k)) [Suc k..<n] IDX_UNDEF"
      by (rule Suc.hyps(1)) (use Suc.hyps True in auto)
    moreover have "nx k = int (Suc k)" using assms(1)[of k] True by simp
    ultimately show ?thesis using Suc.prems by (simp add: upt)
  next
    case False
    then have k: "n - 1 = k" using Suc.prems by simp
    from False have "[Suc k..<n] = []" by simp
    moreover have "nx k = IDX_UNDEF" using assms(2) Suc.prems unfolding k by simp
    ultimately show ?thesis using Suc.prems by (simp only: upt idx_path.simps)
  qed
qed

section \<open>Little-endian byte encodings\<close>

text \<open>
  A cell of a row is read and written through a typed pointer, so a value of \<open>n\<close> bytes
  occupies \<open>n\<close> consecutive bytes, least significant first (the code runs on
  little-endian machines; gid2hex relies on it).
\<close>

definition le_bytes :: "nat \<Rightarrow> 'a::len word \<Rightarrow> u8 list" where
  "le_bytes n w = map (\<lambda>i. ucast (drop_bit (8 * i) w)) [0..<n]"

primrec le_word :: "u8 list \<Rightarrow> 'a::len word" where
  "le_word [] = 0"
| "le_word (b # bs) = ucast b OR push_bit 8 (le_word bs)"

lemma length_le_bytes [simp]: "length (le_bytes n w) = n"
  by (simp add: le_bytes_def)

lemma le_bytes_Suc: "le_bytes (Suc n) w = ucast w # le_bytes n (drop_bit 8 w)"
  by (simp add: le_bytes_def upt_conv_Cons map_Suc_upt[symmetric] drop_bit_drop_bit
      add.commute del: upt_Suc map_Suc_upt)

lemma le_word_le_bytes:
  "le_word (le_bytes n w) = (take_bit (8 * n) w :: 'a::len word)"
proof (induction n arbitrary: w)
  case 0
  then show ?case by (simp add: le_bytes_def)
next
  case (Suc n)
  show ?case
    by (rule bit_eqI)
      (auto simp: le_bytes_Suc Suc bit_simps possible_bit_word less_diff_conv)
qed

lemma le_word_le_bytes_full [simp]:
  "LENGTH('a) = 8 * n \<Longrightarrow> le_word (le_bytes n (w :: 'a::len word)) = w"
proof -
  assume "LENGTH('a) = 8 * n"
  then have "take_bit (8 * n) w = w" by (metis take_bit_word_eq_self order_refl)
  then show ?thesis by (simp add: le_word_le_bytes)
qed

section \<open>Blocks inside byte arrays\<close>

text \<open>
  The page size, the global of \<^verbatim>\<open>lib/core/src/grid.c\<close> at its default. The
  server sets it once, before anything uses it, to the block size of the file system.
\<close>

definition PAGESZ :: nat where
  "PAGESZ = 4096"

text \<open>
  \<open>read_at\<close> and \<open>write_at\<close> are memcpy from and to an offset of an array of bytes.
\<close>

definition read_at :: "'b list \<Rightarrow> nat \<Rightarrow> nat \<Rightarrow> 'b list" where
  "read_at bs off n = take n (drop off bs)"

definition write_at :: "'b list \<Rightarrow> nat \<Rightarrow> 'b list \<Rightarrow> 'b list" where
  "write_at bs off vs = take off bs @ vs @ drop (off + length vs) bs"

lemma length_write_at [simp]:
  "off + length vs \<le> length bs \<Longrightarrow> length (write_at bs off vs) = length bs"
  by (simp add: write_at_def)

lemma read_write_same [simp]:
  "off \<le> length bs \<Longrightarrow> n = length vs \<Longrightarrow> read_at (write_at bs off vs) off n = vs"
  by (simp add: read_at_def write_at_def)

lemma read_write_before:
  "off' + n \<le> off \<Longrightarrow> off \<le> length bs \<Longrightarrow> read_at (write_at bs off vs) off' n = read_at bs off' n"
proof -
  assume "off' + n \<le> off" "off \<le> length bs"
  then have "n \<le> off - off'" and len: "length (take off bs) = off" by auto
  then have "take n (drop off' (take off bs @ r)) = take n (drop off' bs)" for r
    by (simp add: drop_take min_absorb1)
  then show ?thesis by (simp only: read_at_def write_at_def)
qed

lemma read_write_after:
  assumes "off + length vs \<le> off'" "off + length vs \<le> length bs"
  shows "read_at (write_at bs off vs) off' n = read_at bs off' n"
proof -
  have "drop off' (take off bs @ vs @ drop (off + length vs) bs) = drop off' bs"
    using assms by (simp add: add.commute)
  then show ?thesis by (simp add: read_at_def write_at_def)
qed

lemma read_write_disjoint:
  "off' + n \<le> off \<or> off + length vs \<le> off' \<Longrightarrow> off + length vs \<le> length bs \<Longrightarrow>
   read_at (write_at bs off vs) off' n = read_at bs off' n"
  by (auto simp: read_write_before read_write_after)

end
