(* ===== verification/Scr_Align.thy ===== *)
theory Scr_Align
  imports Scr_Prelude
begin

text \<open>
  \<^verbatim>\<open>lib/core/src/align.c\<close>: rounding sizes up. The size is a size_t (64 bits), the
  alignment an int (32 bits) that C sign-extends before the addition and the mask. The
  lemmas say what the result is for a power of two (the documented case), and that for any
  positive alignment, as hgrid_add_column passes for CHAR(n) columns, the result still lies
  between the size and the size plus the alignment.
\<close>

definition MAX_ALIGN :: "i32" where
  "MAX_ALIGN = 16"

definition align_up :: "u64 \<Rightarrow> i32 \<Rightarrow> u64" where
  "align_up sz align = (sz + scast align - 1) AND scast (NOT (align - 1))"

definition align_max :: "u64 \<Rightarrow> u64" where
  "align_max sz = align_up sz MAX_ALIGN"

section \<open>The mask\<close>

lemma scast_NOT: "scast (NOT (a :: i32)) = (NOT (scast a) :: u64)"
  by (rule bit_eqI) (auto simp: bit_simps)

lemma and_NOT_eq_diff: "(x :: 'a::len word) AND NOT a = x - (x AND a)"
proof -
  have "NOT x AND (x AND a) = 0" by (rule bit_eqI) (auto simp: bit_simps)
  then have "x - (x AND a) = x AND NOT (x AND a)" by (rule disjunctive_diff_eq_and_not)
  also have "\<dots> = x AND NOT a" by (rule bit_eqI) (auto simp: bit_simps)
  finally show ?thesis by simp
qed

lemma unat_and_le_right: "unat ((x :: 'a::len word) AND a) \<le> unat a"
  by (metis word_and_le1 word_le_nat_alt)

lemma unat_and_le_left: "unat ((x :: 'a::len word) AND a) \<le> unat x"
  by (metis word_and_le2 word_le_nat_alt)

lemma unat_and_NOT:
  "unat ((x :: 'a::len word) AND NOT a) = unat x - unat (x AND a)"
  by (simp add: and_NOT_eq_diff unat_sub word_and_le2)

text \<open>A positive int is widened without change.\<close>

lemma scast_pos:
  assumes "0 < sint (a :: i32)"
  shows "unat (scast a :: u64) = nat (sint a)"
    and "scast (a - 1) = (scast a - 1 :: u64)"
proof -
  have lt: "sint a < 2 ^ 31" using sint_lt [of a] by simp
  have "uint (word_of_int (sint a) :: u64) = sint a"
    unfolding uint_word_of_int_eq by (rule take_bit_int_eq_self) (use assms lt in auto)
  then show "unat (scast a :: u64) = nat (sint a)"
    by (simp only: scast_eq unat_eq_nat_uint)
  have "a - 1 = word_of_int (sint a - 1)"
    by (metis of_int_sint scast_id wi_hom_sub word_1_wi)
  then have "sint (a - 1) = signed_take_bit 31 (sint a - 1)"
    by (simp only: sint_sbintrunc') simp
  also have "\<dots> = sint a - 1"
    by (rule signed_take_bit_int_eq_self) (use assms lt in auto)
  finally have "sint (a - 1) = sint a - 1" .
  then show "scast (a - 1) = (scast a - 1 :: u64)"
    by (simp only: scast_eq) (metis wi_hom_sub word_1_wi)
qed

lemma align_up_alt:
  assumes "0 < sint align" and "unat sz + nat (sint align) - 1 < 2 ^ 64"
  shows "unat (align_up sz align) =
    (unat sz + nat (sint align) - 1) -
    unat ((sz + (scast align - 1)) AND (scast align - 1 :: u64))"
proof -
  let ?a = "scast align - 1 :: u64"
  have un: "unat ?a = nat (sint align) - 1"
    using assms(1) scast_pos(1)[OF assms(1)] by (simp add: unat_sub word_le_nat_alt)
  have "align_up sz align = (sz + ?a) AND NOT ?a"
    by (simp add: align_up_def scast_NOT scast_pos(2)[OF assms(1)] add_diff_eq)
  moreover have "unat (sz + ?a) = unat sz + nat (sint align) - 1"
    using assms un by (subst unat_add_lem[THEN iffD1]) auto
  ultimately show ?thesis by (simp add: unat_and_NOT)
qed

section \<open>Bounds for any positive alignment\<close>

lemma align_up_bounds:
  assumes "0 < sint align" and "unat sz + nat (sint align) - 1 < 2 ^ 64"
  shows "unat sz \<le> unat (align_up sz align)"
    and "unat (align_up sz align) < unat sz + nat (sint align)"
proof -
  let ?a = "scast align - 1 :: u64"
  have un: "unat ?a = nat (sint align) - 1"
    using assms(1) scast_pos(1)[OF assms(1)] by (simp add: unat_sub word_le_nat_alt)
  have "unat ((sz + ?a) AND ?a) \<le> nat (sint align) - 1"
    using unat_and_le_right[of "sz + ?a" ?a] un by simp
  then show "unat sz \<le> unat (align_up sz align)"
    and "unat (align_up sz align) < unat sz + nat (sint align)"
    using assms(1) by (simp_all add: align_up_alt[OF assms])
qed

section \<open>Powers of two\<close>

lemma unat_and_mask: "unat ((x :: u64) AND mask k) = unat x mod 2 ^ k"
  by (simp flip: take_bit_eq_mask add: unsigned_take_bit_eq) (simp add: take_bit_eq_mod)

lemma align_up_pow2:
  assumes "scast align = (2 ^ k :: u64)" and "0 < sint align"
    and "unat sz + nat (sint align) - 1 < 2 ^ 64"
  shows "unat (align_up sz align) =
    (unat sz + nat (sint align) - 1) div nat (sint align) * nat (sint align)"
proof -
  let ?n = "unat sz + nat (sint align) - 1"
  have k: "nat (sint align) = 2 ^ k"
  proof -
    have "k < 64"
    proof (rule ccontr)
      assume "\<not> k < 64"
      then have "unat (2 ^ k :: u64) = 0" by (simp only: exp_eq_zero_iff unat_0_iff) simp
      then show False using assms(1,2) scast_pos(1)[OF assms(2)] by simp
    qed
    then have "unat (of_nat (2 ^ k) :: u64) = 2 ^ k"
      by (intro of_nat_inverse[OF refl] power_strict_increasing) simp_all
    then have "unat (2 ^ k :: u64) = 2 ^ k" by simp
    then show ?thesis using assms(1) scast_pos(1)[OF assms(2)] by simp
  qed
  have m: "scast align - 1 = (mask k :: u64)" using assms(1) by (simp add: mask_eq_decr_exp)
  have un: "unat (scast align - 1 :: u64) = nat (sint align) - 1"
    using assms(2) scast_pos(1)[OF assms(2)] by (simp add: unat_sub word_le_nat_alt)
  have "unat (sz + (scast align - 1)) = ?n"
    using assms(2,3) un by (subst unat_add_lem[THEN iffD1]) auto
  then have "unat (align_up sz align) = ?n - ?n mod 2 ^ k"
    using align_up_alt[OF assms(2,3)] unat_and_mask by (simp add: m)
  then show ?thesis by (simp only: k minus_mod_eq_div_mult)
qed

lemma align_max_eq:
  assumes "unat sz + 15 < 2 ^ 64"
  shows "unat (align_max sz) = (unat sz + 15) div 16 * 16"
  using align_up_pow2[of 16 4 sz] assms by (simp add: align_max_def MAX_ALIGN_def)

lemma align_max_wraps: "align_max (- 1) = 0"
  by (simp add: align_max_def align_up_def MAX_ALIGN_def)

lemma align_up_0_align: "align_up sz 0 = 0"
  by (simp add: align_up_def)

section \<open>Properties\<close>

text \<open>
  Unless rounding would wrap around at 2^64, align_max gives the least multiple of the
  maximal alignment that is not smaller than the size, and is idempotent.
\<close>

lemma align_max_least_multiple:
  assumes "unat sz + 15 < 2 ^ 64"
  shows "16 dvd unat (align_max sz) \<and> unat sz \<le> unat (align_max sz) \<and>
    (\<forall>m. 16 dvd m \<and> unat sz \<le> m \<longrightarrow> unat (align_max sz) \<le> m) \<and> align_max (align_max sz) = align_max sz"
proof -
  define s where "s = unat sz"
  have e: "unat (align_max sz) = (s + 15) div 16 * 16" using align_max_eq[OF assms] by (simp add: s_def)
  have "(s + 15) div 16 * 16 + 15 < 2 ^ 64"
  proof -
    have "(s + 15) div 16 < 2 ^ 60" using assms by (simp add: s_def div_less_iff_less_mult)
    then show ?thesis by simp
  qed
  then have "unat (align_max (align_max sz)) = ((s + 15) div 16 * 16 + 15) div 16 * 16"
    using align_max_eq[of "align_max sz"] e by simp
  also have "\<dots> = (s + 15) div 16 * 16" by simp
  finally have "align_max (align_max sz) = align_max sz" using e by (metis word_unat_eq_iff)
  moreover have "(s + 15) div 16 * 16 \<le> m" if m: "16 dvd m" "s \<le> m" for m
  proof -
    obtain k where "m = 16 * k" using m(1) by blast
    then have "s + 15 < 16 * (k + 1)" using m(2) by simp
    then have "(s + 15) div 16 < k + 1" by (simp add: div_less_iff_less_mult)
    then show ?thesis using \<open>m = 16 * k\<close> by simp
  qed
  moreover have "s \<le> (s + 15) div 16 * 16" by presburger
  ultimately show ?thesis unfolding e s_def by simp
qed

lemma align_max_least_multiple_example:
  "16 dvd unat (align_max 33) \<and> unat (33 :: u64) \<le> unat (align_max 33) \<and> align_max (align_max 33) = align_max 33"
proof -
  have "unat (33 :: u64) + 15 < 2 ^ 64" by simp
  from align_max_least_multiple[OF this] show ?thesis by blast
qed

end
