(* ===== verification/Scr_Gid.thy ===== *)
theory Scr_Gid
  imports Scr_Prelude
begin

text \<open>
  \<^verbatim>\<open>lib/core/src/gid.h\<close> and \<^verbatim>\<open>gid.c\<close>: a global page id is a 64-bit union,
  the low 40 bits the file id and the high 24 bits the page number in that file. gid2hex
  turns the file id into the name of the file that holds the page. The lemmas show that the
  two views of the union agree and that the name determines the file id, so that two files
  never share a name.
\<close>

section \<open>The union\<close>

type_synonym gid = u64

definition GID_FILEIDBITS :: nat where "GID_FILEIDBITS = 40"
definition GID_PAGEBITS :: nat where "GID_PAGEBITS = 24"
definition GID_OCTETBITS :: nat where "GID_OCTETBITS = 8"
definition GID_MAXPAGE :: u64 where "GID_MAXPAGE = 0xFFFFFF"
definition GID_UNDEF :: gid where "GID_UNDEF = 0"

text \<open>Reading \<open>parts.file_id\<close> and \<open>parts.page\<close>, and the initialiser \<open>{ .parts = { f, p } }\<close>.\<close>

definition gid_file_id :: "gid \<Rightarrow> u64" where
  "gid_file_id g = take_bit GID_FILEIDBITS g"

definition gid_page :: "gid \<Rightarrow> u64" where
  "gid_page g = drop_bit GID_FILEIDBITS g"

definition gid_parts :: "u64 \<Rightarrow> u64 \<Rightarrow> gid" where
  "gid_parts f p = take_bit GID_FILEIDBITS f OR push_bit GID_FILEIDBITS (take_bit GID_PAGEBITS p)"

record gid_pair =
  gp_header :: gid
  gp_data :: gid

lemma gid_file_id_parts [simp]: "gid_file_id (gid_parts f p) = take_bit GID_FILEIDBITS f"
  by (rule bit_eqI) (auto simp: gid_file_id_def gid_parts_def GID_FILEIDBITS_def bit_simps)

lemma gid_page_parts [simp]: "gid_page (gid_parts f p) = take_bit GID_PAGEBITS p"
  by (rule bit_eqI)
    (auto simp: gid_page_def gid_parts_def GID_FILEIDBITS_def GID_PAGEBITS_def bit_simps)

lemma gid_parts_split: "gid_parts (gid_file_id g) (gid_page g) = g"
  by (rule bit_eqI)
    (auto simp: gid_page_def gid_file_id_def gid_parts_def GID_FILEIDBITS_def GID_PAGEBITS_def
      bit_simps)

lemma gid_eq_iff: "g = g' \<longleftrightarrow> gid_file_id g = gid_file_id g' \<and> gid_page g = gid_page g'"
  by (metis gid_parts_split)

text \<open>A gid of page 0 is its file id: the number stored in the system tables.\<close>

lemma gid_parts_page0: "gid_parts f 0 = take_bit GID_FILEIDBITS f"
  by (simp add: gid_parts_def)

section \<open>gid2hex\<close>

definition char2hex :: "u8 \<Rightarrow> u8" where
  "char2hex c = (let c = c AND 0xf in if c > 9 then 65 + c - 10 else 48 + c)"

text \<open>\<open>c[i]\<close>, byte \<open>i\<close> of the union in memory (little-endian).\<close>

definition gid_byte :: "gid \<Rightarrow> nat \<Rightarrow> u8" where
  "gid_byte g i = ucast (drop_bit (8 * i) g)"

text \<open>The characters written before the terminating zero.\<close>

definition gid2hex :: "gid \<Rightarrow> u8 list" where
  "gid2hex g = concat (map (\<lambda>i. [char2hex (drop_bit 4 (gid_byte g i)), char2hex (gid_byte g i)])
     (rev [0..<GID_FILEIDBITS div GID_OCTETBITS]))"

text \<open>The inverse of one digit, for the statement that digits can be read back.\<close>

definition hex_digit :: "u8 \<Rightarrow> u8" where
  "hex_digit d = (if d < 58 then d - 48 else d - 55)"

lemma hex_digit_char2hex: "hex_digit (char2hex c) = c AND 0xf"
proof -
  have "unat (c AND 0xf) \<le> unat (0xf :: u8)"
    by (metis word_and_le1 word_le_nat_alt)
  then have "unat (c AND 0xf) < 16" by simp
  then obtain n where n: "c AND 0xf = (of_nat n :: u8)" "n < 16"
    by (metis of_nat_unat ucast_id)

  have "n \<in> set [0, 1, 2, 3, 4, 5, 6, 7, 8, 9, 10, 11, 12, 13, 14, 15]" unfolding list.set using n(2) by simp arith
  then show ?thesis
    unfolding char2hex_def hex_digit_def Let_def n(1) list.set by (elim insertE emptyE) simp_all
qed

lemma char2hex_eq_iff: "char2hex c = char2hex d \<longleftrightarrow> c AND 0xf = d AND 0xf"
  by (metis char2hex_def hex_digit_char2hex)

text \<open>Reading a string of digits back, most significant first.\<close>

definition hex_value :: "u8 list \<Rightarrow> u64" where
  "hex_value = foldl (\<lambda>a d. push_bit 4 a OR ucast (hex_digit d)) 0"

lemma hex_value_Nil [simp]: "hex_value [] = 0"
  by (simp add: hex_value_def)

lemma hex_value_byte:
  "hex_value (ds @ [char2hex (drop_bit 4 c), char2hex c]) = push_bit 8 (hex_value ds) OR ucast c"
proof -
  have "push_bit 4 (push_bit 4 a OR ucast (drop_bit 4 c AND 15)) OR ucast (c AND 15) =
      push_bit 8 a OR (ucast c :: u64)" for a
  proof -
    have m: "(15 :: u8) = mask 4" by (simp add: mask_eq_decr_exp)
    show ?thesis unfolding m
    proof (rule bit_eqI)
      fix n :: nat
      consider "n < 4" | k where "n = k + 4" "k < 4" | k where "n = k + 8"
        using that(1) that(2)[of "n - 4"] that(3)[of "n - 8"] by fastforce
      then show "bit (push_bit 4 (push_bit 4 a OR ucast (drop_bit 4 c AND mask 4)) OR
          ucast (c AND mask 4)) n = bit (push_bit 8 a OR (ucast c :: u64)) n"
        by cases (auto simp: bit_simps add.commute dest: bit_imp_le_length)
    qed
  qed
  then show ?thesis by (simp add: hex_value_def hex_digit_char2hex)
qed

lemma hex_value_bytes:
  "hex_value (concat (map (\<lambda>c. [char2hex (drop_bit 4 c), char2hex c]) (rev bs))) = le_word bs"
  by (induction bs) (simp_all add: hex_value_byte or.commute)

lemma gid2hex_bytes:
  "gid2hex g = concat (map (\<lambda>c. [char2hex (drop_bit 4 c), char2hex c]) (rev (le_bytes 5 g)))"
  by (simp add: gid2hex_def le_bytes_def rev_map gid_byte_def GID_FILEIDBITS_def
      GID_OCTETBITS_def comp_def)

lemma hex_value_gid2hex: "hex_value (gid2hex g) = gid_file_id g"
  by (simp add: gid2hex_bytes hex_value_bytes le_word_le_bytes gid_file_id_def GID_FILEIDBITS_def)

text \<open>Two gids name the same file exactly when they have the same file id.\<close>

lemma gid2hex_eq_iff: "gid2hex g = gid2hex g' \<longleftrightarrow> gid_file_id g = gid_file_id g'"
proof
  assume "gid2hex g = gid2hex g'"
  then show "gid_file_id g = gid_file_id g'" by (metis hex_value_gid2hex)
next
  assume *: "gid_file_id g = gid_file_id g'"
  have "le_bytes 5 g = le_bytes 5 g'"
  proof (unfold le_bytes_def, rule map_cong[OF refl])
    fix i assume "i \<in> set [0..<5]"
    then have i: "8 * i + 8 \<le> 40" by simp
    have "ucast (drop_bit (8 * i) h) = (ucast (drop_bit (8 * i) (gid_file_id h)) :: u8)" for h
      using i by (intro bit_eqI) (auto simp: bit_simps gid_file_id_def GID_FILEIDBITS_def)
    then show "ucast (drop_bit (8 * i) g) = (ucast (drop_bit (8 * i) g') :: u8)"
      using * by metis
  qed
  then show "gid2hex g = gid2hex g'"
    by (simp only: gid2hex_bytes)
qed

lemma gid2hex_alt:
  "gid2hex g = [
     char2hex (drop_bit 4 (gid_byte g 4)), char2hex (gid_byte g 4),
     char2hex (drop_bit 4 (gid_byte g 3)), char2hex (gid_byte g 3),
     char2hex (drop_bit 4 (gid_byte g 2)), char2hex (gid_byte g 2),
     char2hex (drop_bit 4 (gid_byte g 1)), char2hex (gid_byte g 1),
     char2hex (drop_bit 4 (gid_byte g 0)), char2hex (gid_byte g 0)]"
proof -
  have "[0..<5] = [0, 1, 2, 3, 4 :: nat]" by code_simp
  then show ?thesis by (simp add: gid2hex_def GID_FILEIDBITS_def GID_OCTETBITS_def)
qed

lemma length_gid2hex: "length (gid2hex g) = 10"
  by (simp add: gid2hex_alt)

section \<open>Properties\<close>

text \<open>
  C40: A global identifier is exactly its 40 bit file id and its 24 bit page, in both
  directions, and gid2hex names files by ten hexadecimal digits so that two pages share a name
  exactly when they share the file id.
\<close>

theorem gid_addresses_pages:
  "gid_parts (gid_file_id g) (gid_page g) = g \<and>
   gid_file_id (gid_parts f p) = take_bit 40 f \<and> gid_page (gid_parts f p) = take_bit 24 p \<and>
   hex_value (gid2hex g) = gid_file_id g \<and> length (gid2hex g) = 10 \<and>
   (gid2hex g = gid2hex g' \<longleftrightarrow> gid_file_id g = gid_file_id g') \<and>
   (g = g' \<longleftrightarrow> gid2hex g = gid2hex g' \<and> gid_page g = gid_page g')"
  using gid_parts_split hex_value_gid2hex gid2hex_eq_iff[of g g'] length_gid2hex gid_eq_iff[of g g']
  by (simp add: GID_FILEIDBITS_def GID_PAGEBITS_def)

end
