(* ===== verification/Scr_Type.thy ===== *)
theory Scr_Type
  imports Scr_Prelude "HOL-Library.Signed_Division"
begin

text \<open>
  \<^verbatim>\<open>lib/core/src/type.h\<close>, \<^verbatim>\<open>type.c\<close> and
  \<^verbatim>\<open>cell.c\<close>: SQL values (Datum), their conversion to a base type, comparison,
  arithmetic and concatenation. A failed assert, a division trap and a read past the end of
  a string are the value \<open>None\<close>. 64-bit additions, subtractions and multiplications
  wrap, as the compiled code does.
\<close>

section \<open>Types and values\<close>

datatype type_group = TG_UNKNOWN | TG_INTEGER | TG_CHARACTER | TG_MAX

datatype sql_type = T_UNKNOWN | T_NAME | T_SMALLINT | T_INTEGER | T_BIGINT | T_CHAR
  | T_VARCHAR | T_MAX

datatype size_meaning = SM_TYPESZ | SM_COLUMNSZ

text \<open>
  The union of a Datum: \<open>dt_int\<close> is its eight bytes read as an integer (a smaller
  member is its low bytes), \<open>dt_chars\<close> the bytes behind the pointer when it holds one
  (\<open>None\<close> for NULL).
\<close>

record datum =
  dt_type :: sql_type
  dt_size :: nat
  dt_int :: i64
  dt_chars :: "u8 list option"

definition dt_smallint :: "datum \<Rightarrow> i16" where
  "dt_smallint d = ucast (dt_int d)"

definition dt_integer :: "datum \<Rightarrow> i32" where
  "dt_integer d = ucast (dt_int d)"

abbreviation dt_bigint :: "datum \<Rightarrow> i64" where
  "dt_bigint d \<equiv> dt_int d"

definition dt_bytes :: "datum \<Rightarrow> u8 list" where
  "dt_bytes d = (case dt_chars d of None \<Rightarrow> [] | Some cs \<Rightarrow> cs)"

text \<open>The string a character datum stands for.\<close>

definition dt_str :: "datum \<Rightarrow> u8 list" where
  "dt_str d = take (dt_size d) (dt_bytes d)"

definition dt_readable :: "datum \<Rightarrow> bool" where
  "dt_readable d \<longleftrightarrow> dt_size d \<le> length (dt_bytes d)"

section \<open>Making values\<close>

definition make_name :: "u8 list \<Rightarrow> datum" where
  "make_name v = \<lparr>dt_type = T_NAME, dt_size = length v, dt_int = 0, dt_chars = Some v\<rparr>"

definition make_smallint :: "i16 \<Rightarrow> datum" where
  "make_smallint v = \<lparr>dt_type = T_SMALLINT, dt_size = 2, dt_int = ucast v, dt_chars = None\<rparr>"

definition make_integer :: "i32 \<Rightarrow> datum" where
  "make_integer v = \<lparr>dt_type = T_INTEGER, dt_size = 4, dt_int = ucast v, dt_chars = None\<rparr>"

definition make_bigint :: "i64 \<Rightarrow> datum" where
  "make_bigint v = \<lparr>dt_type = T_BIGINT, dt_size = 8, dt_int = v, dt_chars = None\<rparr>"

text \<open>The argument is the string up to its terminating zero, so \<open>strlen\<close> is its length.\<close>

definition make_char :: "u8 list \<Rightarrow> datum" where
  "make_char v = \<lparr>dt_type = T_CHAR, dt_size = length v, dt_int = 0, dt_chars = Some v\<rparr>"

definition make_varchar :: "u8 list \<Rightarrow> datum" where
  "make_varchar v = \<lparr>dt_type = T_VARCHAR, dt_size = length v, dt_int = 0, dt_chars = Some v\<rparr>"

section \<open>Conversion to the base type of a group\<close>

definition smallint2bigint :: "datum \<Rightarrow> datum option" where
  "smallint2bigint src = (if dt_type src = T_SMALLINT
     then Some (src\<lparr>dt_type := T_BIGINT, dt_size := 8, dt_int := scast (dt_smallint src)\<rparr>)
     else None)"

definition integer2bigint :: "datum \<Rightarrow> datum option" where
  "integer2bigint src = (if dt_type src = T_INTEGER
     then Some (src\<lparr>dt_type := T_BIGINT, dt_size := 8, dt_int := scast (dt_integer src)\<rparr>)
     else None)"

text \<open>The loop \<open>while (size && s[size - 1] == ' ') --size\<close>.\<close>

fun trim_size :: "u8 list \<Rightarrow> nat \<Rightarrow> nat" where
  "trim_size cs 0 = 0"
| "trim_size cs (Suc n) = (if cs ! n = 32 then trim_size cs n else Suc n)"

definition char2varchar :: "datum \<Rightarrow> datum option" where
  "char2varchar src = (if dt_type src = T_CHAR \<and> dt_readable src
     then Some (src\<lparr>dt_type := T_VARCHAR, dt_size := trim_size (dt_bytes src) (dt_size src)\<rparr>)
     else None)"

record s_type =
  st_type :: sql_type
  st_group :: type_group
  st_size_meaning :: size_meaning
  st_size :: nat
  st_to_base :: "(datum \<Rightarrow> datum option) option"

fun g_types :: "sql_type \<Rightarrow> s_type" where
  "g_types T_UNKNOWN = \<lparr>st_type = T_UNKNOWN, st_group = TG_UNKNOWN,
     st_size_meaning = SM_TYPESZ, st_size = 0, st_to_base = None\<rparr>"
| "g_types T_NAME = \<lparr>st_type = T_NAME, st_group = TG_UNKNOWN,
     st_size_meaning = SM_TYPESZ, st_size = 0, st_to_base = None\<rparr>"
| "g_types T_SMALLINT = \<lparr>st_type = T_SMALLINT, st_group = TG_INTEGER,
     st_size_meaning = SM_TYPESZ, st_size = 2, st_to_base = Some smallint2bigint\<rparr>"
| "g_types T_INTEGER = \<lparr>st_type = T_INTEGER, st_group = TG_INTEGER,
     st_size_meaning = SM_TYPESZ, st_size = 4, st_to_base = Some integer2bigint\<rparr>"
| "g_types T_BIGINT = \<lparr>st_type = T_BIGINT, st_group = TG_INTEGER,
     st_size_meaning = SM_TYPESZ, st_size = 8, st_to_base = None\<rparr>"
| "g_types T_CHAR = \<lparr>st_type = T_CHAR, st_group = TG_CHARACTER,
     st_size_meaning = SM_COLUMNSZ, st_size = 0, st_to_base = Some char2varchar\<rparr>"
| "g_types T_VARCHAR = \<lparr>st_type = T_VARCHAR, st_group = TG_CHARACTER,
     st_size_meaning = SM_TYPESZ, st_size = 2, st_to_base = None\<rparr>"
| "g_types T_MAX = \<lparr>st_type = T_MAX, st_group = TG_MAX,
     st_size_meaning = SM_TYPESZ, st_size = 0, st_to_base = None\<rparr>"

text \<open>
  The table has no entry \<open>T_MAX\<close> (it is the number of types); the last equation
  only makes the function total, with a group no guard accepts.
\<close>

definition get_type_group :: "sql_type \<Rightarrow> type_group" where
  "get_type_group t = st_group (g_types t)"

fun g_type_groups :: "type_group \<Rightarrow> sql_type option" where
  "g_type_groups TG_UNKNOWN = Some T_UNKNOWN"
| "g_type_groups TG_INTEGER = Some T_BIGINT"
| "g_type_groups TG_CHARACTER = Some T_VARCHAR"
| "g_type_groups TG_MAX = None"

definition to_base_type :: "datum \<Rightarrow> datum option" where
  "to_base_type src = (case st_to_base (g_types (dt_type src)) of
     None \<Rightarrow> Some src | Some convert \<Rightarrow> convert src)"

section \<open>Predicates on pairs\<close>

definition data_arithmetical :: "datum \<Rightarrow> datum \<Rightarrow> bool" where
  "data_arithmetical d1 d2 \<longleftrightarrow>
     get_type_group (dt_type d1) = TG_INTEGER \<and> get_type_group (dt_type d2) = TG_INTEGER"

definition data_lexical :: "datum \<Rightarrow> datum \<Rightarrow> bool" where
  "data_lexical d1 d2 \<longleftrightarrow>
     get_type_group (dt_type d1) = TG_CHARACTER \<and> get_type_group (dt_type d2) = TG_CHARACTER"

definition data_comparable :: "datum \<Rightarrow> datum \<Rightarrow> bool" where
  "data_comparable d1 d2 \<longleftrightarrow> get_type_group (dt_type d1) = get_type_group (dt_type d2) \<and>
     get_type_group (dt_type d1) \<noteq> TG_UNKNOWN"

definition datum_zeroed :: "datum \<Rightarrow> bool option" where
  "datum_zeroed d = (case dt_type d of
     T_UNKNOWN \<Rightarrow> None
   | T_SMALLINT \<Rightarrow> Some (dt_smallint d = 0)
   | T_INTEGER \<Rightarrow> Some (dt_integer d = 0)
   | T_BIGINT \<Rightarrow> Some (dt_bigint d = 0)
   | T_MAX \<Rightarrow> None
   | _ \<Rightarrow> (case dt_chars d of None \<Rightarrow> Some True
          | Some [] \<Rightarrow> None
          | Some (c # _) \<Rightarrow> Some (c = 0)))"

section \<open>Comparison\<close>

text \<open>The guard of an assert, in the option monad.\<close>

definition assert_that :: "bool \<Rightarrow> 'a option \<Rightarrow> 'a option" where
  "assert_that b m = (if b then m else None)"

definition cmp_integer :: "datum \<Rightarrow> datum \<Rightarrow> i64 option" where
  "cmp_integer d1 d2 =
     assert_that (get_type_group (dt_type d1) = TG_INTEGER)
     (assert_that (get_type_group (dt_type d2) = TG_INTEGER)
     (Option.bind (to_base_type d1) (\<lambda>d1. Option.bind (to_base_type d2) (\<lambda>d2.
        Some (dt_bigint d1 - dt_bigint d2)))))"

text \<open>memcmp: the difference of the first bytes that differ, 0 if none does.\<close>

fun memcmp :: "u8 list \<Rightarrow> u8 list \<Rightarrow> int" where
  "memcmp (a # as) (b # bs) = (if a = b then memcmp as bs else uint a - uint b)"
| "memcmp _ _ = 0"

definition cmp_character :: "datum \<Rightarrow> datum \<Rightarrow> i64 option" where
  "cmp_character d1 d2 =
     assert_that (get_type_group (dt_type d1) = TG_CHARACTER)
     (assert_that (get_type_group (dt_type d2) = TG_CHARACTER)
     (Option.bind (to_base_type d1) (\<lambda>d1. Option.bind (to_base_type d2) (\<lambda>d2.
        assert_that (dt_readable d1 \<and> dt_readable d2)
        (let n = (if dt_size d1 < dt_size d2 then dt_size d1 else dt_size d2);
             ret = memcmp (take n (dt_bytes d1)) (take n (dt_bytes d2))
         in Some (if ret = 0
              then (if dt_size d1 < dt_size d2 then -1
                    else if dt_size d2 < dt_size d1 then 1 else 0)
              else word_of_int ret))))))"

definition cmp_data :: "datum \<Rightarrow> datum \<Rightarrow> i64 option" where
  "cmp_data d1 d2 = (if data_comparable d1 d2 then
     (case get_type_group (dt_type d1) of
        TG_UNKNOWN \<Rightarrow> None
      | TG_INTEGER \<Rightarrow> cmp_integer d1 d2
      | TG_CHARACTER \<Rightarrow> cmp_character d1 d2
      | TG_MAX \<Rightarrow> None)
     else Some 0)"

definition eq_data :: "datum \<Rightarrow> datum \<Rightarrow> bool option" where
  "eq_data d1 d2 = map_option (\<lambda>c. c = 0) (cmp_data d1 d2)"

definition ne_data :: "datum \<Rightarrow> datum \<Rightarrow> bool option" where
  "ne_data d1 d2 = map_option (\<lambda>c. c \<noteq> 0) (cmp_data d1 d2)"

definition lt_data :: "datum \<Rightarrow> datum \<Rightarrow> bool option" where
  "lt_data d1 d2 = map_option (\<lambda>c. sint c < 0) (cmp_data d1 d2)"

definition le_data :: "datum \<Rightarrow> datum \<Rightarrow> bool option" where
  "le_data d1 d2 = map_option (\<lambda>c. sint c \<le> 0) (cmp_data d1 d2)"

definition gt_data :: "datum \<Rightarrow> datum \<Rightarrow> bool option" where
  "gt_data d1 d2 = map_option (\<lambda>c. 0 < sint c) (cmp_data d1 d2)"

definition ge_data :: "datum \<Rightarrow> datum \<Rightarrow> bool option" where
  "ge_data d1 d2 = map_option (\<lambda>c. 0 \<le> sint c) (cmp_data d1 d2)"

definition eq_character :: "datum \<Rightarrow> datum \<Rightarrow> bool option" where
  "eq_character d1 d2 = map_option (\<lambda>c. c = 0) (cmp_character d1 d2)"

section \<open>Arithmetic\<close>

definition INT64_MIN :: i64 where "INT64_MIN = word_of_int (- (2 ^ 63))"
definition INT64_MAX :: i64 where "INT64_MAX = word_of_int (2 ^ 63 - 1)"

text \<open>Both operands are converted, then the first one is updated in place.\<close>

definition with_base :: "datum \<Rightarrow> datum \<Rightarrow> (i64 \<Rightarrow> i64 \<Rightarrow> i64 option) \<Rightarrow> datum option" where
  "with_base d1 d2 f =
     Option.bind (to_base_type d1) (\<lambda>d1. Option.bind (to_base_type d2) (\<lambda>d2.
       map_option (\<lambda>v. d1\<lparr>dt_int := v\<rparr>) (f (dt_bigint d1) (dt_bigint d2))))"

definition add_integer :: "datum \<Rightarrow> datum \<Rightarrow> datum option" where
  "add_integer d1 d2 = with_base d1 d2 (\<lambda>a b. Some (a + b))"

definition sub_integer :: "datum \<Rightarrow> datum \<Rightarrow> datum option" where
  "sub_integer d1 d2 = with_base d1 d2 (\<lambda>a b. Some (a - b))"

definition mul_integer :: "datum \<Rightarrow> datum \<Rightarrow> datum option" where
  "mul_integer d1 d2 = with_base d1 d2 (\<lambda>a b. Some (a * b))"

text \<open>Signed division traps on a zero divisor and on INT64_MIN / -1.\<close>

definition div_traps :: "i64 \<Rightarrow> i64 \<Rightarrow> bool" where
  "div_traps a b \<longleftrightarrow> b = 0 \<or> (a = INT64_MIN \<and> b = -1)"

definition div_integer :: "datum \<Rightarrow> datum \<Rightarrow> datum option" where
  "div_integer d1 d2 = with_base d1 d2
     (\<lambda>a b. if div_traps a b then None else Some (word_of_int (sint a sdiv sint b)))"

definition mod_integer :: "datum \<Rightarrow> datum \<Rightarrow> datum option" where
  "mod_integer d1 d2 = with_base d1 d2
     (\<lambda>a b. if div_traps a b then None else Some (word_of_int (sint a smod sint b)))"

definition arith_data ::
    "(datum \<Rightarrow> datum \<Rightarrow> datum option) \<Rightarrow> datum \<Rightarrow> datum \<Rightarrow> datum option" where
  "arith_data op d1 d2 =
     (if data_comparable d1 d2 \<and> get_type_group (dt_type d1) = TG_INTEGER then op d1 d2 else None)"

definition add_data :: "datum \<Rightarrow> datum \<Rightarrow> datum option" where
  "add_data = arith_data add_integer"

definition sub_data :: "datum \<Rightarrow> datum \<Rightarrow> datum option" where
  "sub_data = arith_data sub_integer"

definition mul_data :: "datum \<Rightarrow> datum \<Rightarrow> datum option" where
  "mul_data = arith_data mul_integer"

definition div_data :: "datum \<Rightarrow> datum \<Rightarrow> datum option" where
  "div_data = arith_data div_integer"

definition mod_data :: "datum \<Rightarrow> datum \<Rightarrow> datum option" where
  "mod_data = arith_data mod_integer"

definition cat_data :: "datum \<Rightarrow> datum \<Rightarrow> datum option" where
  "cat_data d1 d2 =
     assert_that (data_lexical d1 d2 \<and> dt_readable d1 \<and> dt_readable d2)
       (Some \<lparr>dt_type = T_CHAR, dt_size = dt_size d1 + dt_size d2, dt_int = 0,
              dt_chars = Some (take (dt_size d1) (dt_bytes d1) @ take (dt_size d2) (dt_bytes d2))\<rparr>)"

section \<open>Printing\<close>

function dec_count :: "int \<Rightarrow> nat \<Rightarrow> nat" where
  "dec_count v cnt = (let v' = v sdiv 10 in if v' = 0 then cnt else dec_count v' (cnt + 1))"
  by pat_completeness auto
termination
  by (relation "measure (\<lambda>(v, cnt). nat \<bar>v\<bar>)")
    (auto simp: signed_divide_int_def abs_mult sgn_if split: if_splits)

declare dec_count.simps [simp del]

fun dec_fill :: "nat \<Rightarrow> int \<Rightarrow> u8 list \<Rightarrow> u8 list" where
  "dec_fill 0 v acc = acc"
| "dec_fill (Suc cnt) v acc = dec_fill cnt (v sdiv 10) ((48 + word_of_int (v smod 10)) # acc)"

text \<open>The integer branch of datum_sdup: the characters before the terminating zero.\<close>

definition datum_sdup_int :: "i64 \<Rightarrow> u8 list" where
  "datum_sdup_int v = dec_fill (dec_count (sint v) 1) (sint v) []"

definition ascii :: "string \<Rightarrow> u8 list" where
  "ascii s = map (\<lambda>c. of_nat (of_char c)) s"

definition datum_sdup :: "datum \<Rightarrow> u8 list option" where
  "datum_sdup src = (case dt_type src of
     T_UNKNOWN \<Rightarrow> Some (ascii ''<Unknown type>'')
   | T_CHAR \<Rightarrow> Option.bind (to_base_type src) (\<lambda>src.
        Some (take (dt_size src) (dt_bytes src)))
   | T_VARCHAR \<Rightarrow> Some (ascii ''<varchar type not implemented>'')
   | T_MAX \<Rightarrow> Some (ascii ''<Out of range type>'')
   | T_NAME \<Rightarrow> Some (ascii ''<Not implemented type>'')
   | _ \<Rightarrow> Option.bind (to_base_type src) (\<lambda>src. Some (datum_sdup_int (dt_bigint src))))"

section \<open>Cells\<close>

definition put_smallint :: "i16 \<Rightarrow> u8 list" where "put_smallint v = le_bytes 2 v"
definition put_integer :: "i32 \<Rightarrow> u8 list" where "put_integer v = le_bytes 4 v"
definition put_bigint :: "i64 \<Rightarrow> u8 list" where "put_bigint v = le_bytes 8 v"
definition get_smallint :: "u8 list \<Rightarrow> i16" where "get_smallint bs = le_word bs"
definition get_integer :: "u8 list \<Rightarrow> i32" where "get_integer bs = le_word bs"
definition get_bigint :: "u8 list \<Rightarrow> i64" where "get_bigint bs = le_word bs"

text \<open>The dsize bytes put_char leaves at its destination, for the bytes readable at \<open>src\<close>.\<close>

definition strnlen :: "u8 list \<Rightarrow> nat \<Rightarrow> nat" where
  "strnlen src n = length (takeWhile (\<lambda>c. c \<noteq> 0) (take n src))"

definition put_char :: "u8 list \<Rightarrow> nat \<Rightarrow> u8 list" where
  "put_char src dsize =
     (let dlen = strnlen src dsize in take dlen src @ replicate (dsize - dlen) 32)"

section \<open>Facts about conversion\<close>

text \<open>Trailing spaces removed, as a specification of char2varchar's loop.\<close>

definition rtrim :: "u8 list \<Rightarrow> u8 list" where
  "rtrim s = rev (dropWhile (\<lambda>c. c = 32) (rev s))"

lemma rtrim_snoc [simp]: "rtrim (xs @ [x]) = (if x = 32 then rtrim xs else xs @ [x])"
  by (simp add: rtrim_def)

lemma rtrim_Nil [simp]: "rtrim [] = []"
  by (simp add: rtrim_def)

lemma rtrim_append_spaces [simp]: "rtrim (xs @ replicate n 32) = rtrim xs"
proof (induction n)
  case (Suc n)
  have "xs @ replicate (Suc n) 32 = (xs @ replicate n 32) @ [32]"
    by (simp add: replicate_append_same)
  then show ?case using Suc rtrim_snoc[of "xs @ replicate n 32" 32] by simp
qed simp

lemma length_rtrim_le: "length (rtrim s) \<le> length s"
  by (simp add: rtrim_def) (metis length_dropWhile_le length_rev)

lemma trim_size_le: "trim_size cs n \<le> n"
  by (induction n) (auto simp: le_Suc_eq)

lemma take_trim_size: "n \<le> length cs \<Longrightarrow> take (trim_size cs n) cs = rtrim (take n cs)"
  by (induction n) (auto simp: take_Suc_conv_app_nth)

text \<open>The integer a datum of the integer group stands for.\<close>

definition dt_ival :: "datum \<Rightarrow> int" where
  "dt_ival d = (case dt_type d of T_SMALLINT \<Rightarrow> sint (dt_smallint d)
     | T_INTEGER \<Rightarrow> sint (dt_integer d) | _ \<Rightarrow> sint (dt_bigint d))"

text \<open>The string by which a character datum is compared.\<close>

definition dt_key :: "datum \<Rightarrow> u8 list" where
  "dt_key d = (if dt_type d = T_CHAR then rtrim (dt_str d) else dt_str d)"

lemma integer_group_iff:
  "get_type_group t = TG_INTEGER \<longleftrightarrow> t = T_SMALLINT \<or> t = T_INTEGER \<or> t = T_BIGINT"
  by (cases t) (auto simp: get_type_group_def)

lemma character_group_iff:
  "get_type_group t = TG_CHARACTER \<longleftrightarrow> t = T_CHAR \<or> t = T_VARCHAR"
  by (cases t) (auto simp: get_type_group_def)

lemma to_base_type_integer:
  assumes "get_type_group (dt_type d) = TG_INTEGER"
  shows "\<exists>d'. to_base_type d = Some d' \<and> dt_type d' = T_BIGINT \<and>
    dt_bigint d' = word_of_int (dt_ival d)"
proof -
  consider "dt_type d = T_SMALLINT" | "dt_type d = T_INTEGER" | "dt_type d = T_BIGINT"
    using assms by (auto simp: integer_group_iff)
  then show ?thesis
  proof cases
    case 1
    then show ?thesis
      by (simp add: to_base_type_def smallint2bigint_def dt_ival_def)
  next
    case 2
    then show ?thesis
      by (simp add: to_base_type_def integer2bigint_def dt_ival_def)
  next
    case 3
    then show ?thesis by (simp add: to_base_type_def dt_ival_def)
  qed
qed

lemma to_base_type_character:
  assumes "get_type_group (dt_type d) = TG_CHARACTER" and "dt_readable d"
  shows "\<exists>d'. to_base_type d = Some d' \<and> dt_type d' = T_VARCHAR \<and> dt_readable d' \<and>
    dt_bytes d' = dt_bytes d \<and> dt_str d' = dt_key d"
proof (cases "dt_type d = T_CHAR")
  case True
  have "trim_size (dt_bytes d) (dt_size d) \<le> length (dt_bytes d)"
    using trim_size_le[of "dt_bytes d" "dt_size d"] assms(2) by (simp add: dt_readable_def)
  then show ?thesis using True assms(2)
    by (auto simp: to_base_type_def char2varchar_def dt_readable_def dt_str_def dt_key_def
        dt_bytes_def take_trim_size split: option.splits)
next
  case False
  then show ?thesis using assms by (auto simp: character_group_iff to_base_type_def dt_key_def)
qed

section \<open>Comparison is the order of the values\<close>

lemma cmp_integer_eq:
  assumes "get_type_group (dt_type d1) = TG_INTEGER" "get_type_group (dt_type d2) = TG_INTEGER"
  shows "cmp_integer d1 d2 = Some (word_of_int (dt_ival d1 - dt_ival d2))"
proof -
  obtain b1 b2 where "to_base_type d1 = Some b1" "dt_bigint b1 = word_of_int (dt_ival d1)"
    "to_base_type d2 = Some b2" "dt_bigint b2 = word_of_int (dt_ival d2)"
    using to_base_type_integer[OF assms(1)] to_base_type_integer[OF assms(2)] by blast
  moreover from this have "dt_bigint b1 - dt_bigint b2 = word_of_int (dt_ival d1 - dt_ival d2)"
    by (simp only: wi_hom_sub)
  ultimately show ?thesis
    using assms unfolding cmp_integer_def assert_that_def by (simp only: simp_thms if_True bind.bind_lunit)
qed

lemma sint_word_of_int_id:
  "- (2 ^ 63) \<le> k \<Longrightarrow> k < 2 ^ 63 \<Longrightarrow> sint (word_of_int k :: i64) = k"
  unfolding sint_sbintrunc' by (intro signed_take_bit_int_eq_self) auto

lemma cmp_integer_sign:
  assumes "get_type_group (dt_type d1) = TG_INTEGER" "get_type_group (dt_type d2) = TG_INTEGER"
    and "- (2 ^ 63) \<le> dt_ival d1 - dt_ival d2" "dt_ival d1 - dt_ival d2 < 2 ^ 63"
  shows "\<exists>c. cmp_integer d1 d2 = Some c \<and> sint c = dt_ival d1 - dt_ival d2"
  using cmp_integer_eq[OF assms(1,2)] sint_word_of_int_id[OF assms(3,4)] by blast

lemma memcmp_take: "memcmp (take (min (length xs) (length ys)) xs)
    (take (min (length xs) (length ys)) ys) = memcmp xs ys"
  by (induction xs ys rule: memcmp.induct) auto

lemma memcmp_bounds: "- 256 < memcmp xs ys \<and> memcmp xs ys < 256"
proof (induction xs ys rule: memcmp.induct)
  case (1 a as b bs)
  have "0 \<le> uint a" "uint a < 256" "0 \<le> uint b" "uint b < 256"
    using uint_bounded[of a] uint_bounded[of b] by simp_all
  then have "- 256 < uint a - uint b" "uint a - uint b < 256" by linarith+
  then show ?case using 1 by (cases "a = b") (simp_all only: memcmp.simps simp_thms if_True if_False)
qed auto

lemma memcmp_lexordp:
  "ord_class.lexordp xs ys \<longleftrightarrow> memcmp xs ys < 0 \<or> (memcmp xs ys = 0 \<and> length xs < length ys)"
proof (induction xs arbitrary: ys)
  case Nil
  show ?case by (cases ys) auto
next
  case (Cons a as)
  show ?case
  proof (cases ys)
    case Nil
    then show ?thesis by simp
  next
    case (Cons b bs)
    then show ?thesis using Cons.IH[of bs]
      by (cases "a = b") (auto simp: word_less_alt, (simp add: word_uint_eq_iff)+)
  qed
qed

lemma memcmp_0_eq: "memcmp xs ys = 0 \<Longrightarrow> length xs = length ys \<Longrightarrow> xs = ys"
  by (induction xs ys rule: memcmp.induct) (auto split: if_splits simp: word_uint_eq_iff)

lemma memcmp_same [simp]: "memcmp xs xs = 0"
  by (induction xs) auto

lemma cmp_character_sign:
  assumes "get_type_group (dt_type d1) = TG_CHARACTER" "get_type_group (dt_type d2) = TG_CHARACTER"
    and "dt_readable d1" "dt_readable d2"
  shows "\<exists>c. cmp_character d1 d2 = Some c \<and>
    (c = 0 \<longleftrightarrow> dt_key d1 = dt_key d2) \<and>
    (sint c < 0 \<longleftrightarrow> ord_class.lexordp (dt_key d1) (dt_key d2))"
proof -
  obtain b1 b2 where b: "to_base_type d1 = Some b1" "dt_readable b1" "dt_str b1 = dt_key d1"
    "to_base_type d2 = Some b2" "dt_readable b2" "dt_str b2 = dt_key d2"
    using to_base_type_character[OF assms(1,3)] to_base_type_character[OF assms(2,4)] by blast
  define x where "x = dt_key d1"
  define y where "y = dt_key d2"
  have len: "length x = dt_size b1" "length y = dt_size b2"
    unfolding x_def y_def b(3,6)[symmetric] using b(2,5) by (simp_all add: dt_readable_def dt_str_def)
  let ?n = "min (dt_size b1) (dt_size b2)"
  have tk: "take ?n (dt_bytes b1) = take ?n x" "take ?n (dt_bytes b2) = take ?n y"
    unfolding x_def y_def b(3,6)[symmetric] dt_str_def by (simp_all add: min.commute)
  let ?r = "memcmp x y"
  define c :: i64 where "c = (if ?r = 0 then (if length x < length y then -1
       else if length y < length x then 1 else 0) else word_of_int ?r)"
  have "cmp_character d1 d2 = Some c"
    using b assms(1,2) memcmp_take[of x y] unfolding cmp_character_def c_def
    by (simp add: assert_that_def Let_def len flip: tk) (auto simp: min_def)
  moreover have si: "sint (word_of_int ?r :: i64) = ?r"
    using memcmp_bounds[of x y] by (intro sint_word_of_int_id) auto
  then have "(word_of_int ?r :: i64) = 0 \<Longrightarrow> ?r = 0" by (metis signed_0)
  then have "c = 0 \<longleftrightarrow> x = y"
    using memcmp_0_eq[of x y] unfolding c_def by auto
  moreover have "sint c < 0 \<longleftrightarrow> ord_class.lexordp x y"
    using si memcmp_lexordp[of x y] unfolding c_def by auto
  ultimately show ?thesis unfolding x_def y_def by blast
qed

section \<open>Arithmetic is exact within 64 bits\<close>

lemma to_base_pair:
  assumes "data_arithmetical d1 d2"
  obtains b1 b2 where "to_base_type d1 = Some b1" "dt_type b1 = T_BIGINT"
    "dt_bigint b1 = word_of_int (dt_ival d1)"
    "to_base_type d2 = Some b2" "dt_bigint b2 = word_of_int (dt_ival d2)"
  using assms to_base_type_integer[of d1] to_base_type_integer[of d2]
  unfolding data_arithmetical_def by blast

lemma dt_ival_bounds: "- (2 ^ 63) \<le> dt_ival d" "dt_ival d < 2 ^ 63"
proof -
  have "- (2 ^ 63) \<le> sint (w :: i64)" "sint w < 2 ^ 63" for w
    using sint_ge[of w] sint_lt[of w] by simp_all
  moreover have "- (2 ^ 63) \<le> sint (w :: i32)" "sint w < 2 ^ 63" for w
    using sint_ge[of w] sint_lt[of w] by simp_all
  moreover have "- (2 ^ 63) \<le> sint (w :: i16)" "sint w < 2 ^ 63" for w
    using sint_ge[of w] sint_lt[of w] by simp_all
  ultimately show "- (2 ^ 63) \<le> dt_ival d" "dt_ival d < 2 ^ 63"
    unfolding dt_ival_def by (simp_all split: sql_type.split)
qed

lemma arith_data_eq:
  assumes "data_arithmetical d1 d2"
  shows "arith_data op d1 d2 = op d1 d2"
  using assms by (simp add: arith_data_def data_arithmetical_def data_comparable_def)

lemma with_base_exact:
  assumes "data_arithmetical d1 d2"
    and "f (word_of_int (dt_ival d1)) (word_of_int (dt_ival d2)) = Some (word_of_int r)"
  shows "\<exists>d. with_base d1 d2 f = Some d \<and> dt_type d = T_BIGINT \<and> dt_bigint d = word_of_int r"
  by (rule to_base_pair[OF assms(1)]) (simp add: with_base_def assms(2))

lemma add_data_value:
  assumes "data_arithmetical d1 d2"
  shows "\<exists>d. add_data d1 d2 = Some d \<and> dt_type d = T_BIGINT \<and>
    dt_bigint d = word_of_int (dt_ival d1 + dt_ival d2)"
  unfolding add_data_def arith_data_eq[OF assms] add_integer_def
  by (rule with_base_exact[OF assms]) (simp only: wi_hom_add)

lemma sub_data_value:
  assumes "data_arithmetical d1 d2"
  shows "\<exists>d. sub_data d1 d2 = Some d \<and> dt_type d = T_BIGINT \<and>
    dt_bigint d = word_of_int (dt_ival d1 - dt_ival d2)"
  unfolding sub_data_def arith_data_eq[OF assms] sub_integer_def
  by (rule with_base_exact[OF assms]) (simp only: wi_hom_sub)

lemma mul_data_value:
  assumes "data_arithmetical d1 d2"
  shows "\<exists>d. mul_data d1 d2 = Some d \<and> dt_type d = T_BIGINT \<and>
    dt_bigint d = word_of_int (dt_ival d1 * dt_ival d2)"
  unfolding mul_data_def arith_data_eq[OF assms] mul_integer_def
  by (rule with_base_exact[OF assms]) (simp only: wi_hom_mult)

lemma sint_ival: "sint (word_of_int (dt_ival d) :: i64) = dt_ival d"
  using dt_ival_bounds by (intro sint_word_of_int_id)

lemma div_traps_ival:
  "div_traps (word_of_int (dt_ival d1)) (word_of_int (dt_ival d2)) \<longleftrightarrow>
     dt_ival d2 = 0 \<or> (dt_ival d1 = - (2 ^ 63) \<and> dt_ival d2 = -1)"
proof -
  have "(word_of_int (dt_ival d2) :: i64) = 0 \<longleftrightarrow> dt_ival d2 = 0"
    by (metis sint_ival signed_0 word_of_int_0)
  moreover have "(word_of_int (dt_ival d2) :: i64) = -1 \<longleftrightarrow> dt_ival d2 = -1"
    by (metis sint_ival sint_n1 word_of_int_neg_1)
  moreover have "word_of_int (dt_ival d1) = INT64_MIN \<longleftrightarrow> dt_ival d1 = - (2 ^ 63)"
  proof -
    have "sint INT64_MIN = - (2 ^ 63)"
      unfolding INT64_MIN_def by (rule sint_word_of_int_id) simp_all
    then show ?thesis by (metis INT64_MIN_def sint_ival)
  qed
  ultimately show ?thesis by (simp add: div_traps_def)
qed

lemma sdiv_smod_bounds:
  fixes a b :: int
  assumes "- (2 ^ 63) \<le> a" "a < 2 ^ 63" "- (2 ^ 63) \<le> b" "b < 2 ^ 63"
    and "\<not> (b = 0 \<or> (a = - (2 ^ 63) \<and> b = -1))"
  shows "- (2 ^ 63) \<le> a sdiv b \<and> a sdiv b < 2 ^ 63 \<and> - (2 ^ 63) \<le> a smod b \<and> a smod b < 2 ^ 63"
proof -
  have q: "a sdiv b = sgn a * sgn b * (\<bar>a\<bar> div \<bar>b\<bar>)"
    by (simp add: signed_divide_int_def)
  have r: "a smod b = sgn a * (\<bar>a\<bar> mod \<bar>b\<bar>)"
    by (simp add: signed_modulo_int_def q signed_divide_int_def)
  have le: "0 \<le> \<bar>a\<bar> div \<bar>b\<bar>" "\<bar>a\<bar> div \<bar>b\<bar> \<le> \<bar>a\<bar>" "0 \<le> \<bar>a\<bar> mod \<bar>b\<bar>" "\<bar>a\<bar> mod \<bar>b\<bar> < \<bar>b\<bar>"
    using assms(5) zdiv_mono2[of "\<bar>a\<bar>" 1 "\<bar>b\<bar>"] by (auto simp: pos_imp_zdiv_nonneg_iff)
  have aq: "\<bar>a sdiv b\<bar> \<le> \<bar>a\<bar> div \<bar>b\<bar>" and ar: "\<bar>a smod b\<bar> \<le> \<bar>a\<bar> mod \<bar>b\<bar>"
    using le unfolding q r by (auto simp: abs_mult sgn_if)
  have "a smod b < 2 ^ 63" "- (2 ^ 63) \<le> a smod b" using ar le assms(3,4) by linarith+
  moreover have "- (2 ^ 63) \<le> a sdiv b" using aq le assms(1,2) by linarith
  moreover have "a sdiv b < 2 ^ 63"
  proof (cases "\<bar>b\<bar> = 1 \<and> a = - (2 ^ 63)")
    case True
    then have "b = 1" using assms(5) by linarith
    then show ?thesis using True unfolding q by simp
  next
    case False
    have "\<bar>a\<bar> div \<bar>b\<bar> < 2 ^ 63"
    proof (cases "\<bar>a\<bar> < 2 ^ 63")
      case True
      then show ?thesis using le(2) by linarith
    next
      case big: False
      then have "2 \<le> \<bar>b\<bar>" using False assms by linarith
      then have "\<bar>a\<bar> div \<bar>b\<bar> \<le> \<bar>a\<bar> div 2" by (intro zdiv_mono2) simp_all
      then show ?thesis using assms(1,2) by linarith
    qed
    then show ?thesis using aq by linarith
  qed
  ultimately show ?thesis by blast
qed

lemma div_mod_data_value:
  assumes "data_arithmetical d1 d2"
  shows "dt_ival d2 = 0 \<or> (dt_ival d1 = - (2 ^ 63) \<and> dt_ival d2 = -1) \<Longrightarrow>
      div_data d1 d2 = None \<and> mod_data d1 d2 = None"
    and "\<not> (dt_ival d2 = 0 \<or> (dt_ival d1 = - (2 ^ 63) \<and> dt_ival d2 = -1)) \<Longrightarrow>
      \<exists>q r. div_data d1 d2 = Some q \<and> mod_data d1 d2 = Some r \<and>
        dt_type q = T_BIGINT \<and> dt_type r = T_BIGINT \<and>
        dt_bigint q = word_of_int (dt_ival d1 sdiv dt_ival d2) \<and>
        dt_bigint r = word_of_int (dt_ival d1 smod dt_ival d2)"
proof -
  note defs = div_data_def mod_data_def arith_data_eq[OF assms] div_integer_def mod_integer_def
  show "div_data d1 d2 = None \<and> mod_data d1 d2 = None"
    if "dt_ival d2 = 0 \<or> (dt_ival d1 = - (2 ^ 63) \<and> dt_ival d2 = -1)"
    by (rule to_base_pair[OF assms]) (use that in \<open>simp add: defs with_base_def div_traps_ival\<close>)
  show "\<exists>q r. div_data d1 d2 = Some q \<and> mod_data d1 d2 = Some r \<and>
        dt_type q = T_BIGINT \<and> dt_type r = T_BIGINT \<and>
        dt_bigint q = word_of_int (dt_ival d1 sdiv dt_ival d2) \<and>
        dt_bigint r = word_of_int (dt_ival d1 smod dt_ival d2)"
    if "\<not> (dt_ival d2 = 0 \<or> (dt_ival d1 = - (2 ^ 63) \<and> dt_ival d2 = -1))"
    by (rule to_base_pair[OF assms])
      (use that in \<open>simp add: defs with_base_def div_traps_ival sint_ival\<close>)
qed

section \<open>Printing a non-negative integer\<close>

definition dec_value :: "u8 list \<Rightarrow> int" where
  "dec_value = foldl (\<lambda>a d. 10 * a + (uint d - 48)) 0"

lemma uint_digit: "0 \<le> k \<Longrightarrow> k < 10 \<Longrightarrow> uint (48 + word_of_int k :: u8) = 48 + k"
proof -
  assume k: "0 \<le> k" "k < 10"
  have "(48 + word_of_int k :: u8) = word_of_int (48 + k)" using wi_hom_add[of 48 k, where ?'a = 8] by simp
  moreover have "uint (word_of_int (48 + k) :: u8) = 48 + k"
    unfolding uint_word_of_int_eq by (rule take_bit_int_eq_self) (use k in auto)
  ultimately show ?thesis by metis
qed

lemma sdiv_smod_10: "0 \<le> v \<Longrightarrow> v sdiv 10 = v div 10 \<and> v smod 10 = (v :: int) mod 10"
  by (auto simp: signed_divide_int_def signed_modulo_int_def sgn_if minus_div_mult_eq_mod)

lemma dec_fill_value:
  "0 \<le> v \<Longrightarrow> foldl (\<lambda>a d. 10 * a + (uint d - 48)) a (dec_fill cnt v acc) =
    foldl (\<lambda>a d. 10 * a + (uint d - 48)) (a * 10 ^ cnt + v mod 10 ^ cnt) acc"
proof (induction cnt arbitrary: v acc)
  case (Suc cnt)
  have "v mod 10 ^ Suc cnt = 10 * (v div 10 mod 10 ^ cnt) + v mod 10"
    by (simp add: zmod_zmult2_eq)
  then show ?case using Suc sdiv_smod_10[of v]
    by (simp add: uint_digit pos_imp_zdiv_nonneg_iff algebra_simps)
qed simp

lemma dec_count_enough: "0 \<le> v \<Longrightarrow> 0 < cnt \<Longrightarrow> cnt \<le> dec_count v cnt \<and>
    v < 10 ^ (dec_count v cnt - cnt + 1)"
proof (induction v cnt rule: dec_count.induct)
  case (1 v cnt)
  have d: "v sdiv 10 = v div 10" "0 \<le> v div 10" using 1(2) sdiv_smod_10 by simp_all
  show ?case
  proof (cases "v div 10 = 0")
    case True
    then show ?thesis using d 1(2) by (subst (1 2) dec_count.simps) (simp add: Let_def)
  next
    case False
    let ?c = "dec_count (v div 10) (cnt + 1)"
    have "cnt + 1 \<le> ?c \<and> v div 10 < 10 ^ (?c - (cnt + 1) + 1)"
      using 1(1)[OF refl] False d by simp
    then have le: "cnt + 1 \<le> ?c" and lt: "v div 10 < 10 ^ (?c - (cnt + 1) + 1)" by blast+
    obtain m where m: "?c = cnt + 1 + m" using le_Suc_ex[OF le] by blast
    have "v < 10 ^ (?c - cnt + 1)" using lt m by simp
    moreover have "cnt \<le> ?c" using le by simp
    ultimately have "cnt \<le> ?c \<and> v < 10 ^ (?c - cnt + 1)" by simp
    then show ?thesis using False d by (subst (1 2) dec_count.simps) (simp add: Let_def)
  qed
qed

lemma datum_sdup_int_value:
  assumes "0 \<le> sint v"
  shows "dec_value (datum_sdup_int v) = sint v"
proof -
  let ?c = "dec_count (sint v) 1"
  have c: "1 \<le> ?c" and lt: "sint v < 10 ^ (?c - 1 + 1)"
    using dec_count_enough[OF assms zero_less_one] by blast+
  have "?c - 1 + 1 = ?c" using c by simp
  then have "sint v < 10 ^ ?c" using lt by simp
  then have "sint v mod 10 ^ ?c = sint v" using assms by (rule mod_pos_pos_trivial[rotated])
  then show ?thesis
    using dec_fill_value[OF assms, of 0 ?c "[]"]
    by (simp only: datum_sdup_int_def dec_value_def Let_def) simp
qed

section \<open>Cells\<close>

lemma get_put_bigint [simp]: "get_bigint (put_bigint v) = v"
  by (simp add: get_bigint_def put_bigint_def)

lemma get_put_integer [simp]: "get_integer (put_integer v) = v"
  by (simp add: get_integer_def put_integer_def)

lemma get_put_smallint [simp]: "get_smallint (put_smallint v) = v"
  by (simp add: get_smallint_def put_smallint_def)

lemma length_put [simp]: "length (put_bigint v) = 8" "length (put_integer w) = 4"
    "length (put_smallint x) = 2"
  by (simp_all add: put_bigint_def put_integer_def put_smallint_def)

lemma strnlen_le: "strnlen src n \<le> n"
  unfolding strnlen_def by (rule order_trans[OF length_takeWhile_le]) simp

lemma length_put_char [simp]: "length (put_char src n) = n"
proof -
  have "strnlen src n \<le> length src"
    unfolding strnlen_def by (rule order_trans[OF length_takeWhile_le]) simp
  then show ?thesis using strnlen_le[of src n] by (simp add: put_char_def Let_def)
qed

lemma put_char_no_zero:
  assumes "0 \<notin> set src"
  shows "put_char src n = take n src @ replicate (n - length src) 32"
proof -
  have eq: "takeWhile (\<lambda>c. c \<noteq> 0) (take n src) = take n src"
    using assms by (auto simp: takeWhile_eq_all_conv dest: in_set_takeD)
  show ?thesis
    unfolding put_char_def strnlen_def Let_def eq by (cases "n \<le> length src") simp_all
qed

lemma rtrim_put_char: "0 \<notin> set src \<Longrightarrow> rtrim (put_char src n) = rtrim (take n src)"
  by (simp add: put_char_no_zero)

end
