(* ===== verification/Scr_Type_Order.thy ===== *)
theory Scr_Type_Order
  imports Scr_Type "HOL-Library.List_Lexorder"
begin

text \<open>
  The order that the comparison predicates of \<^verbatim>\<open>type.c\<close> implement: a value of the
  integer group is its integer, a value of the character group its string (without the
  trailing spaces of a CHAR), ordered as numbers and lexicographically. The properties of the
  type component stand here.
\<close>

section \<open>The keys and their linear order\<close>

datatype dkey = KInt int | KStr "u8 list"

instantiation dkey :: linorder
begin

definition less_eq_dkey :: "dkey \<Rightarrow> dkey \<Rightarrow> bool" where
  "less_eq_dkey a b = (case (a, b) of (KInt i, KInt j) \<Rightarrow> i \<le> j | (KInt _, KStr _) \<Rightarrow> True
     | (KStr _, KInt _) \<Rightarrow> False | (KStr s, KStr t) \<Rightarrow> s \<le> t)"

definition less_dkey :: "dkey \<Rightarrow> dkey \<Rightarrow> bool" where
  "less_dkey a b = (case (a, b) of (KInt i, KInt j) \<Rightarrow> i < j | (KInt _, KStr _) \<Rightarrow> True
     | (KStr _, KInt _) \<Rightarrow> False | (KStr s, KStr t) \<Rightarrow> s < t)"

instance
  by standard (auto simp: less_eq_dkey_def less_dkey_def split: dkey.splits)

end

definition dt_dkey :: "datum \<Rightarrow> dkey" where
  "dt_dkey d = (if get_type_group (dt_type d) = TG_INTEGER then KInt (dt_ival d) else KStr (dt_key d))"

lemma lexordp_less: "ord_class.lexordp xs ys \<longleftrightarrow> xs < (ys :: u8 list)"
proof (induction xs arbitrary: ys)
  case Nil
  then show ?case by (cases ys) auto
next
  case (Cons x xs)
  show ?case
  proof (cases ys)
    case (Cons y ys')
    show ?thesis
      by (simp only: Cons ord_class.lexordp_simps Cons_less_Cons Cons.IH) (metis not_less_iff_gr_or_eq)
  qed simp
qed

text \<open>
  Two values the predicates can compare: of one group, readable strings, and integers whose
  difference fits 64 bits.
\<close>

definition cmp_ok :: "datum \<Rightarrow> datum \<Rightarrow> bool" where
  "cmp_ok d1 d2 \<longleftrightarrow>
     (data_arithmetical d1 d2 \<and> - (2 ^ 63) \<le> dt_ival d1 - dt_ival d2 \<and> dt_ival d1 - dt_ival d2 < 2 ^ 63) \<or>
     (data_lexical d1 d2 \<and> dt_readable d1 \<and> dt_readable d2)"

lemma cmp_data_key:
  assumes "cmp_ok d1 d2"
  shows "\<exists>c. cmp_data d1 d2 = Some c \<and> (c = 0 \<longleftrightarrow> dt_dkey d1 = dt_dkey d2) \<and>
    (sint c < 0 \<longleftrightarrow> dt_dkey d1 < dt_dkey d2)"
  using assms unfolding cmp_ok_def
proof
  assume a: "data_arithmetical d1 d2 \<and> - (2 ^ 63) \<le> dt_ival d1 - dt_ival d2 \<and> dt_ival d1 - dt_ival d2 < 2 ^ 63"
  then have g: "get_type_group (dt_type d1) = TG_INTEGER" "get_type_group (dt_type d2) = TG_INTEGER"
    by (simp_all add: data_arithmetical_def)
  obtain c where c: "cmp_integer d1 d2 = Some c" "sint c = dt_ival d1 - dt_ival d2"
    using cmp_integer_sign[OF g] a by blast
  then have "c = 0 \<longleftrightarrow> dt_ival d1 = dt_ival d2"
    by (metis eq_iff_diff_eq_0 signed_0 signed_eq_0_iff)
  then show ?thesis using c g
    by (simp add: cmp_data_def data_comparable_def dt_dkey_def less_dkey_def)
next
  assume a: "data_lexical d1 d2 \<and> dt_readable d1 \<and> dt_readable d2"
  then have g: "get_type_group (dt_type d1) = TG_CHARACTER" "get_type_group (dt_type d2) = TG_CHARACTER"
    by (simp_all add: data_lexical_def)
  then show ?thesis using cmp_character_sign[OF g] a
    by (auto simp: cmp_data_def data_comparable_def dt_dkey_def less_dkey_def lexordp_less)
qed

section \<open>Properties\<close>

text \<open>
  C38: On data whose values can be compared without overflow the six comparison operators
  compute the linear order of the values: integers numerically whatever their width, character
  data lexicographically by unsigned bytes with the blanks that pad CHAR removed.
\<close>

theorem comparison_is_order:
  assumes "cmp_ok d1 d2"
  shows "lt_data d1 d2 = Some (dt_dkey d1 < dt_dkey d2) \<and> le_data d1 d2 = Some (dt_dkey d1 \<le> dt_dkey d2) \<and>
    gt_data d1 d2 = Some (dt_dkey d1 > dt_dkey d2) \<and> ge_data d1 d2 = Some (dt_dkey d1 \<ge> dt_dkey d2) \<and>
    eq_data d1 d2 = Some (dt_dkey d1 = dt_dkey d2) \<and> ne_data d1 d2 = Some (dt_dkey d1 \<noteq> dt_dkey d2)"
proof -
  obtain c where c: "cmp_data d1 d2 = Some c" "c = 0 \<longleftrightarrow> dt_dkey d1 = dt_dkey d2"
    "sint c < 0 \<longleftrightarrow> dt_dkey d1 < dt_dkey d2"
    using cmp_data_key[OF assms] by blast
  have z: "sint c = 0 \<longleftrightarrow> c = 0" by (metis signed_0 signed_eq_0_iff)
  have gt: "0 < sint c \<longleftrightarrow> dt_dkey d2 < dt_dkey d1"
    using c(2,3) z by (metis not_less_iff_gr_or_eq)
  have le: "sint c \<le> 0 \<longleftrightarrow> dt_dkey d1 \<le> dt_dkey d2" and ge: "0 \<le> sint c \<longleftrightarrow> dt_dkey d2 \<le> dt_dkey d1"
    using gt c(3) by (metis not_less)+
  show ?thesis
    by (simp only: lt_data_def le_data_def gt_data_def ge_data_def eq_data_def ne_data_def c gt le ge
        option.map simp_thms)
qed

theorem comparison_is_order_witness:
  "lt_data (make_char [97, 98, 32, 32]) (make_varchar [97, 99]) = Some True \<and>
   eq_data (make_smallint (-3)) (make_bigint (-3)) = Some True"
proof -
  have a: "cmp_ok (make_char [97, 98, 32, 32]) (make_varchar [97, 99])" by code_simp
  have b: "cmp_ok (make_smallint (-3)) (make_bigint (-3))" by code_simp
  have "dt_dkey (make_char [97, 98, 32, 32]) < dt_dkey (make_varchar [97, 99])" by code_simp
  moreover have "dt_dkey (make_smallint (-3)) = dt_dkey (make_bigint (-3))" by code_simp
  ultimately show ?thesis using comparison_is_order[OF a] comparison_is_order[OF b] by simp
qed

text \<open>
  Comparing INT64_MAX with -1 overflows the subtraction in cmp_integer, so that INT64_MAX
  is reported as the lesser one.
\<close>

lemma comparison_overflows:
  "data_arithmetical (make_bigint INT64_MAX) (make_bigint (-1)) \<and>
   dt_ival (make_bigint INT64_MAX) > dt_ival (make_bigint (-1)) \<and>
   lt_data (make_bigint INT64_MAX) (make_bigint (-1)) = Some True \<and>
   gt_data (make_bigint INT64_MAX) (make_bigint (-1)) = Some False"
  by code_simp

text \<open>
  C39: Adding, subtracting and multiplying integer data of any widths gives the BIGINT of the
  exact result when it fits in 64 bits; division and modulo truncate toward zero, and trap
  exactly for a zero divisor and for INT64_MIN / -1.
\<close>

theorem arithmetic_exact:
  assumes "data_arithmetical d1 d2"
  defines "a \<equiv> dt_ival d1" and "b \<equiv> dt_ival d2"
  shows "(\<exists>d. add_data d1 d2 = Some d \<and> dt_type d = T_BIGINT \<and>
      (- (2 ^ 63) \<le> a + b \<and> a + b < 2 ^ 63 \<longrightarrow> dt_ival d = a + b)) \<and>
    (\<exists>d. sub_data d1 d2 = Some d \<and> dt_type d = T_BIGINT \<and>
      (- (2 ^ 63) \<le> a - b \<and> a - b < 2 ^ 63 \<longrightarrow> dt_ival d = a - b)) \<and>
    (\<exists>d. mul_data d1 d2 = Some d \<and> dt_type d = T_BIGINT \<and>
      (- (2 ^ 63) \<le> a * b \<and> a * b < 2 ^ 63 \<longrightarrow> dt_ival d = a * b)) \<and>
    (if b = 0 \<or> (a = - (2 ^ 63) \<and> b = -1) then div_data d1 d2 = None \<and> mod_data d1 d2 = None
     else \<exists>q r. div_data d1 d2 = Some q \<and> mod_data d1 d2 = Some r \<and>
       dt_ival q = a sdiv b \<and> dt_ival r = a smod b)"
proof (intro conjI)
  have val: "dt_ival d = r" if "dt_type d = T_BIGINT" "dt_bigint d = word_of_int r"
    "- (2 ^ 63) \<le> r" "r < 2 ^ 63" for d r
    using that sint_word_of_int_id[of r] by (simp add: dt_ival_def)
  show "\<exists>d. add_data d1 d2 = Some d \<and> dt_type d = T_BIGINT \<and>
      (- (2 ^ 63) \<le> a + b \<and> a + b < 2 ^ 63 \<longrightarrow> dt_ival d = a + b)"
    using add_data_value[OF assms(1)] val unfolding a_def b_def by blast
  show "\<exists>d. sub_data d1 d2 = Some d \<and> dt_type d = T_BIGINT \<and>
      (- (2 ^ 63) \<le> a - b \<and> a - b < 2 ^ 63 \<longrightarrow> dt_ival d = a - b)"
    using sub_data_value[OF assms(1)] val unfolding a_def b_def by blast
  show "\<exists>d. mul_data d1 d2 = Some d \<and> dt_type d = T_BIGINT \<and>
      (- (2 ^ 63) \<le> a * b \<and> a * b < 2 ^ 63 \<longrightarrow> dt_ival d = a * b)"
    using mul_data_value[OF assms(1)] val unfolding a_def b_def by blast
  show "if b = 0 \<or> (a = - (2 ^ 63) \<and> b = -1) then div_data d1 d2 = None \<and> mod_data d1 d2 = None
     else \<exists>q r. div_data d1 d2 = Some q \<and> mod_data d1 d2 = Some r \<and>
       dt_ival q = a sdiv b \<and> dt_ival r = a smod b"
  proof (cases "b = 0 \<or> (a = - (2 ^ 63) \<and> b = -1)")
    case True
    then show ?thesis using div_mod_data_value(1)[OF assms(1)] unfolding a_def b_def by simp
  next
    case False
    have bnd: "- (2 ^ 63) \<le> a" "a < 2 ^ 63" "- (2 ^ 63) \<le> b" "b < 2 ^ 63"
      using dt_ival_bounds unfolding a_def b_def by blast+
    have q: "- (2 ^ 63) \<le> a sdiv b" "a sdiv b < 2 ^ 63" "- (2 ^ 63) \<le> a smod b" "a smod b < 2 ^ 63"
      using sdiv_smod_bounds[OF bnd] False by blast+
    obtain q r where "div_data d1 d2 = Some q" "mod_data d1 d2 = Some r" "dt_type q = T_BIGINT"
      "dt_type r = T_BIGINT" "dt_bigint q = word_of_int (a sdiv b)" "dt_bigint r = word_of_int (a smod b)"
      using div_mod_data_value(2)[OF assms(1)] False unfolding a_def b_def by blast
    then show ?thesis using False val q by auto
  qed
qed

theorem arithmetic_exact_witness:
  "\<exists>d. add_data (make_integer 2147483647) (make_smallint 1) = Some d \<and> dt_ival d = 2147483648"
proof -
  have a: "data_arithmetical (make_integer 2147483647) (make_smallint 1)" by code_simp
  have "dt_ival (make_integer 2147483647) = 2147483647" "dt_ival (make_smallint 1) = 1" by code_simp+
  then show ?thesis using conjunct1[OF arithmetic_exact[OF a]] by auto
qed

text \<open>
  A string that fits is stored in a CHAR cell of exactly the column's width, and the
  datum read back compares equal to the string.
\<close>

lemma char_cell_roundtrip:
  assumes "0 \<notin> set s" "length s \<le> n"
  shows "length (put_char s n) = n \<and>
    eq_data \<lparr>dt_type = T_CHAR, dt_size = n, dt_int = 0, dt_chars = Some (put_char s n)\<rparr> (make_char s) = Some True"
proof -
  let ?d = "\<lparr>dt_type = T_CHAR, dt_size = n, dt_int = 0, dt_chars = Some (put_char s n)\<rparr>"
  have "cmp_ok ?d (make_char s)"
    by (simp add: cmp_ok_def data_lexical_def get_type_group_def make_char_def dt_readable_def dt_bytes_def)
  moreover have "dt_key ?d = dt_key (make_char s)"
    using rtrim_put_char[OF assms(1), of n] assms(2)
    by (simp add: dt_key_def dt_str_def make_char_def dt_bytes_def)
  ultimately show ?thesis using cmp_data_key[of ?d "make_char s"]
    by (auto simp: eq_data_def dt_dkey_def get_type_group_def make_char_def)
qed

lemma char_cell_roundtrip_example:
  "length (put_char [104, 105] 5) = 5 \<and>
    eq_data \<lparr>dt_type = T_CHAR, dt_size = 5, dt_int = 0, dt_chars = Some (put_char [104, 105] 5)\<rparr>
      (make_char [104, 105]) = Some True"
  by (rule char_cell_roundtrip) simp_all

text \<open>
  datum_sdup prints a non-negative BIGINT as the decimal digits of its value.
\<close>

lemma printing_is_decimal:
  assumes "0 \<le> sint v"
  shows "\<exists>s. datum_sdup (make_bigint v) = Some s \<and> dec_value s = sint v"
  using datum_sdup_int_value[OF assms]
  by (simp add: datum_sdup_def make_bigint_def to_base_type_def)

lemma printing_is_decimal_example:
  "\<exists>s. datum_sdup (make_bigint 305) = Some s \<and> dec_value s = 305"
  using printing_is_decimal[of 305] by simp

text \<open>
  datum_sdup of a negative number has neither a sign nor digits: -5 prints as a plus sign
  and -12 as a slash and a dot.
\<close>

lemma printing_negative_garbled:
  "datum_sdup (make_bigint (-5)) = Some [43] \<and> datum_sdup (make_integer (-12)) = Some [47, 46]"
  by code_simp

end
