(* ===== verification/Scr_Like.thy ===== *)
theory Scr_Like
  imports Scr_Type
begin

text \<open>
  \<^verbatim>\<open>lib/core/src/type.c\<close>: SQL LIKE. The loop keeps two cursors and the last
  \<open>%\<close> seen, to which it falls back. The property is that it always ends, with the
  answer of the declarative matching relation below.
\<close>

section \<open>The code\<close>

definition PERCENT :: u8 where "PERCENT = 37"
definition UNDERSCORE :: u8 where "UNDERSCORE = 95"

text \<open>\<open>while (pi < pat_len && pattern[pi] == '%') ++pi; return pi == pat_len\<close>.\<close>

function like_tail :: "u8 list \<Rightarrow> nat \<Rightarrow> bool" where
  "like_tail pat pi =
     (if pi < length pat \<and> pat ! pi = PERCENT then like_tail pat (pi + 1) else pi = length pat)"
  by pat_completeness auto
termination by (relation "measure (\<lambda>(pat, pi). length pat - pi)") auto

declare like_tail.simps [simp del]

text \<open>\<open>star\<close> is SIZE_MAX in the code while no \<open>%\<close> was seen.\<close>

partial_function (option) like_loop ::
    "u8 list \<Rightarrow> u8 list \<Rightarrow> nat \<Rightarrow> nat \<Rightarrow> nat option \<Rightarrow> nat \<Rightarrow> bool option" where
  "like_loop src pat si pi star ss =
     (if si < length src then
        (if pi < length pat \<and> pat ! pi = PERCENT then like_loop src pat si (pi + 1) (Some pi) si
         else if pi < length pat \<and> (pat ! pi = UNDERSCORE \<or> pat ! pi = src ! si)
         then like_loop src pat (si + 1) (pi + 1) star ss
         else (case star of
             Some st \<Rightarrow> like_loop src pat (ss + 1) (st + 1) star (ss + 1)
           | None \<Rightarrow> Some False))
      else Some (like_tail pat pi))"

declare like_loop.simps [code]

definition like :: "u8 list \<Rightarrow> u8 list \<Rightarrow> bool option" where
  "like src pat = like_loop src pat 0 0 None 0"

definition like_data :: "datum \<Rightarrow> datum \<Rightarrow> bool option" where
  "like_data d1 d2 = assert_that (data_lexical d1 d2)
     (Option.bind (to_base_type d1) (\<lambda>d1. Option.bind (to_base_type d2) (\<lambda>d2.
       assert_that (dt_readable d1 \<and> dt_readable d2)
         (like (take (dt_size d1) (dt_bytes d1)) (take (dt_size d2) (dt_bytes d2))))))"

section \<open>The specification\<close>

text \<open>
  \<open>%\<close> matches any string, \<open>_\<close> any one character, another character itself.
\<close>

fun like_spec :: "u8 list \<Rightarrow> u8 list \<Rightarrow> bool" where
  "like_spec s [] \<longleftrightarrow> s = []"
| "like_spec s (p # ps) \<longleftrightarrow>
     (if p = PERCENT then \<exists>k \<le> length s. like_spec (drop k s) ps
      else s \<noteq> [] \<and> (p = UNDERSCORE \<or> p = hd s) \<and> like_spec (tl s) ps)"

lemma like_tail_spec: "pi \<le> length pat \<Longrightarrow> like_tail pat pi \<longleftrightarrow> like_spec [] (drop pi pat)"
proof (induction pat pi rule: like_tail.induct)
  case (1 pat pi)
  show ?case
  proof (cases "pi < length pat")
    case True
    then have "drop pi pat = pat ! pi # drop (pi + 1) pat" by (simp add: Cons_nth_drop_Suc)
    then show ?thesis using 1 True by (subst like_tail.simps) simp
  next
    case False
    then show ?thesis using 1(2) by (subst like_tail.simps) simp
  qed
qed

text \<open>
  A segment without \<open>%\<close> that matched a prefix of the text consumes as many characters
  as it has.
\<close>

definition seg_match :: "u8 list \<Rightarrow> u8 list \<Rightarrow> nat \<Rightarrow> nat \<Rightarrow> nat \<Rightarrow> nat \<Rightarrow> bool" where
  "seg_match src pat a b i j \<longleftrightarrow> b \<le> length pat \<and> j \<le> length src \<and> a \<le> b \<and> b - a = j - i \<and> i \<le> j \<and>
     (\<forall>n < b - a. pat ! (a + n) \<noteq> PERCENT \<and> (pat ! (a + n) = UNDERSCORE \<or> pat ! (a + n) = src ! (i + n)))"

lemma seg_match_step:
  assumes "seg_match src pat a b i j" "a < b"
  shows "seg_match src pat (Suc a) b (Suc i) j" "pat ! a \<noteq> PERCENT" "pat ! a = UNDERSCORE \<or> pat ! a = src ! i"
    "i < j" "i < length src" "a < length pat"
proof -
  have d: "b \<le> length pat" "j \<le> length src" "b - a = j - i" "i \<le> j"
    and all: "\<And>n. n < b - a \<Longrightarrow> pat ! (a + n) \<noteq> PERCENT \<and> (pat ! (a + n) = UNDERSCORE \<or> pat ! (a + n) = src ! (i + n))"
    using assms(1) by (auto simp: seg_match_def)
  show lt: "i < j" "i < length src" "a < length pat" using d assms(2) by auto
  show "pat ! a \<noteq> PERCENT" "pat ! a = UNDERSCORE \<or> pat ! a = src ! i" using all[of 0] assms(2) by auto
  have "pat ! (Suc a + n) \<noteq> PERCENT \<and> (pat ! (Suc a + n) = UNDERSCORE \<or> pat ! (Suc a + n) = src ! (Suc i + n))"
    if "n < b - Suc a" for n
    using all[of "Suc n"] that by simp
  then show "seg_match src pat (Suc a) b (Suc i) j" using d lt assms(2) unfolding seg_match_def by auto
qed

lemma like_spec_seg_conv:
  assumes "seg_match src pat a b i j"
  shows "like_spec (drop i src) (drop a pat) \<longleftrightarrow> like_spec (drop j src) (drop b pat)"
  using assms
proof (induction "b - a" arbitrary: a i)
  case 0
  then have "a = b" "i = j" by (auto simp: seg_match_def)
  then show ?case by simp
next
  case (Suc n)
  then have "a < b" by simp
  note st = seg_match_step[OF Suc.prems this]
  have "like_spec (drop (Suc i) src) (drop (Suc a) pat) \<longleftrightarrow> like_spec (drop j src) (drop b pat)"
    using Suc.hyps st(1) by auto
  then show ?case using st(2-) by (simp add: Cons_nth_drop_Suc[symmetric])
qed

text \<open>A part of the pattern without \<open>%\<close> consumes exactly its length.\<close>

lemma like_spec_plain:
  "PERCENT \<notin> set seg \<Longrightarrow> like_spec t (seg @ rest) \<Longrightarrow>
   length seg \<le> length t \<and> like_spec (drop (length seg) t) rest"
proof (induction seg arbitrary: t)
  case (Cons p seg)
  then have t: "t \<noteq> []" "like_spec (tl t) (seg @ rest)" by auto
  have "length seg \<le> length (tl t) \<and> like_spec (drop (length seg) (tl t)) rest"
    by (rule Cons.IH) (use Cons.prems(1) t(2) in auto)
  then show ?case using t(1) by (cases t) auto
qed simp

definition like_from :: "u8 list \<Rightarrow> u8 list \<Rightarrow> nat \<Rightarrow> nat \<Rightarrow> bool" where
  "like_from src pat ss p \<longleftrightarrow> (\<exists>k \<ge> ss. k \<le> length src \<and> like_spec (drop k src) (drop p pat))"

lemma like_spec_percent:
  assumes "p < length pat" "pat ! p = PERCENT" "i \<le> length src"
  shows "like_spec (drop i src) (drop p pat) \<longleftrightarrow> like_from src pat i (p + 1)"
proof -
  have "drop p pat = PERCENT # drop (p + 1) pat" using assms(1,2) by (metis Cons_nth_drop_Suc Suc_eq_plus1)
  then have "like_spec (drop i src) (drop p pat) \<longleftrightarrow>
      (\<exists>k \<le> length src - i. like_spec (drop (k + i) src) (drop (p + 1) pat))"
    by simp
  also have "\<dots> \<longleftrightarrow> like_from src pat i (p + 1)"
  proof
    assume "\<exists>k \<le> length src - i. like_spec (drop (k + i) src) (drop (p + 1) pat)"
    then obtain k where "k \<le> length src - i" "like_spec (drop (k + i) src) (drop (p + 1) pat)" by blast
    then show "like_from src pat i (p + 1)"
      using assms(3) unfolding like_from_def by (intro exI[of _ "k + i"]) simp
  next
    assume "like_from src pat i (p + 1)"
    then obtain k where "i \<le> k" "k \<le> length src" "like_spec (drop k src) (drop (p + 1) pat)"
      unfolding like_from_def by blast
    then show "\<exists>k \<le> length src - i. like_spec (drop (k + i) src) (drop (p + 1) pat)"
      by (intro exI[of _ "k - i"]) simp
  qed
  finally show ?thesis .
qed

text \<open>Segments of the pattern as lists.\<close>

lemma seg_split:
  assumes "seg_match src pat a b i j"
  shows "drop a pat = take (b - a) (drop a pat) @ drop b pat" "PERCENT \<notin> set (take (b - a) (drop a pat))"
    "length (take (b - a) (drop a pat)) = b - a"
proof -
  have ab: "a \<le> b" "b \<le> length pat" using assms by (auto simp: seg_match_def)
  then have "drop b pat = drop (b - a) (drop a pat)" by simp
  then show "drop a pat = take (b - a) (drop a pat) @ drop b pat" by (metis append_take_drop_id)
  show "length (take (b - a) (drop a pat)) = b - a" using ab by simp
  show "PERCENT \<notin> set (take (b - a) (drop a pat))"
  proof
    assume "PERCENT \<in> set (take (b - a) (drop a pat))"
    then obtain n where "n < b - a" "pat ! (a + n) = PERCENT" using ab by (auto simp: in_set_conv_nth)
    then show False using assms by (auto simp: seg_match_def)
  qed
qed

text \<open>A new \<open>%\<close>: matching the old segment earlier is never needed.\<close>

lemma like_from_new_star:
  assumes seg: "seg_match src pat a b i j" and p: "b < length pat" "pat ! b = PERCENT"
  shows "like_from src pat i a \<longleftrightarrow> like_from src pat j (b + 1)"
proof
  have len: "i \<le> j" "j \<le> length src" "b - a = j - i" using seg by (auto simp: seg_match_def)
  show "like_from src pat j (b + 1) \<Longrightarrow> like_from src pat i a"
  proof -
    assume "like_from src pat j (b + 1)"
    then have "like_spec (drop j src) (drop b pat)" using like_spec_percent[OF p len(2)] by simp
    then have "like_spec (drop i src) (drop a pat)" using like_spec_seg_conv[OF seg] by simp
    then show ?thesis using len unfolding like_from_def by (intro exI[of _ i]) simp
  qed
  assume "like_from src pat i a"
  then obtain k where k: "i \<le> k" "k \<le> length src" "like_spec (drop k src) (drop a pat)"
    unfolding like_from_def by blast
  have "b - a \<le> length (drop k src) \<and> like_spec (drop (b - a) (drop k src)) (drop b pat)"
    using like_spec_plain[OF seg_split(2)[OF seg], of "drop k src" "drop b pat"] k(3)
    by (simp only: seg_split(1)[OF seg, symmetric] seg_split(3)[OF seg])
  then have m: "k + (b - a) \<le> length src" "like_spec (drop (k + (b - a)) src) (drop b pat)"
    using k(2) by (auto simp: add.commute)
  then have "like_from src pat (k + (b - a)) (b + 1)" using like_spec_percent[OF p] by simp
  then obtain q where "k + (b - a) \<le> q" "q \<le> length src" "like_spec (drop q src) (drop (b + 1) pat)"
    unfolding like_from_def by blast
  then show "like_from src pat j (b + 1)"
    using k(1) len unfolding like_from_def by (intro exI[of _ q]) linarith
qed

section \<open>The loop\<close>

text \<open>
  The segment of the pattern after the last \<open>%\<close> (or from the start) has matched
  the text from \<open>ss\<close> (or from the start) up to the cursors, and the whole question is
  whether the pattern after that \<open>%\<close> matches from \<open>ss\<close> on.
\<close>

definition like_inv :: "u8 list \<Rightarrow> u8 list \<Rightarrow> nat \<Rightarrow> nat \<Rightarrow> nat option \<Rightarrow> nat \<Rightarrow> bool \<Rightarrow> bool" where
  "like_inv src pat si pi star ss R \<longleftrightarrow> (case star of
       None \<Rightarrow> ss = 0 \<and> seg_match src pat 0 pi 0 si \<and> R = like_spec src pat
     | Some st \<Rightarrow> seg_match src pat (st + 1) pi ss si \<and> R = like_from src pat ss (st + 1))"

definition like_measure :: "u8 list \<Rightarrow> u8 list \<Rightarrow> nat \<Rightarrow> nat \<Rightarrow> nat" where
  "like_measure src pat pi ss = (length src - ss) * (length pat + 1) + (length pat - pi)"

lemma like_measure_ss: "ss < ss' \<Longrightarrow> ss' \<le> length src \<Longrightarrow>
    like_measure src pat pi' ss' < like_measure src pat pi ss"
proof -
  assume a: "ss < ss'" "ss' \<le> length src"
  have "(length src - ss') * (length pat + 1) + (length pat + 1) \<le> (length src - ss) * (length pat + 1)"
  proof -
    have "Suc (length src - ss') \<le> length src - ss" using a by simp
    then have "Suc (length src - ss') * (length pat + 1) \<le> (length src - ss) * (length pat + 1)"
      by (rule mult_le_mono1)
    then show ?thesis by simp
  qed
  then show ?thesis unfolding like_measure_def by linarith
qed

lemma like_measure_pi: "ss \<le> ss' \<Longrightarrow> ss' \<le> length src \<Longrightarrow> pi < length pat \<Longrightarrow>
    like_measure src pat (pi + 1) ss' < like_measure src pat pi ss"
  using like_measure_ss[of ss ss' src pat "pi + 1" pi] by (cases "ss = ss'") (auto simp: like_measure_def)

text \<open>Segments grow by a matching character.\<close>

lemma seg_match_grow:
  assumes "seg_match src pat a b i j" "j < length src" "b < length pat" "pat ! b \<noteq> PERCENT"
    "pat ! b = UNDERSCORE \<or> pat ! b = src ! j"
  shows "seg_match src pat a (b + 1) i (j + 1)"
proof -
  have d: "a \<le> b" "i \<le> j" "b - a = j - i" using assms(1) by (auto simp: seg_match_def)
  have "pat ! (a + n) \<noteq> PERCENT \<and> (pat ! (a + n) = UNDERSCORE \<or> pat ! (a + n) = src ! (i + n))"
    if "n < b + 1 - a" for n
  proof (cases "n < b - a")
    case True
    then show ?thesis using assms(1) by (simp add: seg_match_def)
  next
    case False
    then have "a + n = b" "i + n = j" using that d by auto
    then show ?thesis using assms(4,5) by simp
  qed
  then show ?thesis using assms(2,3) d unfolding seg_match_def by auto
qed

lemma seg_match_empty: "b \<le> length pat \<Longrightarrow> j \<le> length src \<Longrightarrow> seg_match src pat b b j j"
  by (simp add: seg_match_def)

text \<open>Both cursors stuck: the pattern does not match here.\<close>

lemma like_spec_stuck:
  assumes "si < length src" "\<not> (pi < length pat \<and> pat ! pi = PERCENT)"
    "\<not> (pi < length pat \<and> (pat ! pi = UNDERSCORE \<or> pat ! pi = src ! si))"
  shows "\<not> like_spec (drop si src) (drop pi pat)"
proof (cases "pi < length pat")
  case True
  then have "drop pi pat = pat ! pi # drop (pi + 1) pat" "drop si src = src ! si # drop (si + 1) src"
    using assms(1) by (simp_all add: Cons_nth_drop_Suc)
  then show ?thesis using assms(2,3) True by simp
next
  case False
  then show ?thesis using assms(1) by simp
qed

lemma like_from_Suc:
  assumes "\<not> like_spec (drop ss src) (drop p pat)"
  shows "like_from src pat ss p \<longleftrightarrow> like_from src pat (ss + 1) p"
proof
  assume "like_from src pat ss p"
  then obtain k where k: "ss \<le> k" "k \<le> length src" "like_spec (drop k src) (drop p pat)"
    unfolding like_from_def by blast
  then have "k \<noteq> ss" using assms by blast
  then show "like_from src pat (ss + 1) p" using k unfolding like_from_def by (intro exI[of _ k]) simp
next
  assume "like_from src pat (ss + 1) p"
  then obtain k where "ss + 1 \<le> k" "k \<le> length src" "like_spec (drop k src) (drop p pat)"
    unfolding like_from_def by blast
  then show "like_from src pat ss p" unfolding like_from_def by (intro exI[of _ k]) simp
qed

lemma like_end:
  assumes "like_inv src pat si pi star ss R" "\<not> si < length src"
  shows "like_tail pat pi = R"
proof (cases star)
  case None
  then have s: "seg_match src pat 0 pi 0 si" "R = like_spec src pat" using assms(1) by (simp_all add: like_inv_def)
  have "pi \<le> length pat" using s by (simp add: seg_match_def)
  then show ?thesis using like_spec_seg_conv[OF s(1)] like_tail_spec[of pi pat] assms(2) s(2) by simp
next
  case (Some st)
  then have s: "seg_match src pat (st + 1) pi ss si" "R = like_from src pat ss (st + 1)"
    using assms(1) by (simp_all add: like_inv_def)
  have d: "pi \<le> length pat" "si = length src" "pi - (st + 1) = si - ss" "ss \<le> si" "si \<le> length src"
    using s(1) assms(2) by (auto simp: seg_match_def)
  have here: "like_tail pat pi \<longleftrightarrow> like_spec (drop ss src) (drop (st + 1) pat)"
    using like_spec_seg_conv[OF s(1)] like_tail_spec[OF d(1)] d(2) by simp
  have "k = ss" if k: "ss \<le> k" "k \<le> length src" "like_spec (drop k src) (drop (st + 1) pat)" for k
  proof -
    have "pi - (st + 1) \<le> length (drop k src)"
      using like_spec_plain[OF seg_split(2)[OF s(1)], of "drop k src" "drop pi pat"] k(3)
      by (simp only: seg_split(1)[OF s(1), symmetric] seg_split(3)[OF s(1)])
    then show ?thesis using d k by simp
  qed
  then have "like_from src pat ss (st + 1) \<longleftrightarrow> like_spec (drop ss src) (drop (st + 1) pat)"
    using d unfolding like_from_def by (metis order_refl)
  then show ?thesis using here s(2) by simp
qed

lemma like_loop_ok:
  "like_inv src pat si pi star ss R \<Longrightarrow> like_loop src pat si pi star ss = Some R"
proof (induction "like_measure src pat pi ss" arbitrary: si pi star ss rule: less_induct)
  case less
  note inv = less.prems
  show ?case
  proof (cases "si < length src")
    case False
    then show ?thesis using like_end[OF inv] by (subst like_loop.simps) simp
  next
    case si: True
    define a where "a = (case star of None \<Rightarrow> 0 | Some st \<Rightarrow> st + 1)"
    have seg: "seg_match src pat a pi ss si" using inv by (auto simp: like_inv_def a_def split: option.splits)
    then have d: "ss \<le> si" "pi \<le> length pat" "si \<le> length src" by (auto simp: seg_match_def)
    show ?thesis
    proof (cases "pi < length pat \<and> pat ! pi = PERCENT")
      case True
      have "R = like_from src pat si (pi + 1)"
      proof (cases star)
        case None
        then show ?thesis using inv like_spec_seg_conv[OF seg] like_spec_percent[of pi pat si src] True d(3)
          by (simp add: like_inv_def a_def)
      next
        case (Some st)
        then show ?thesis using inv like_from_new_star[OF seg] True by (simp add: like_inv_def a_def)
      qed
      then have "like_inv src pat si (pi + 1) (Some pi) si R"
        using True d(3) seg_match_empty[of "pi + 1" pat si src] by (simp add: like_inv_def)
      then have "like_loop src pat si (pi + 1) (Some pi) si = Some R"
        using less.hyps like_measure_pi[OF d(1,3)] True by blast
      then show ?thesis using si True by (subst like_loop.simps) simp
    next
      case np: False
      show ?thesis
      proof (cases "pi < length pat \<and> (pat ! pi = UNDERSCORE \<or> pat ! pi = src ! si)")
        case True
        have "seg_match src pat a (pi + 1) ss (si + 1)" using seg_match_grow[OF seg si] True np by blast
        then have "like_inv src pat (si + 1) (pi + 1) star ss R"
          using inv by (auto simp: like_inv_def a_def split: option.splits)
        then have "like_loop src pat (si + 1) (pi + 1) star ss = Some R"
          using less.hyps like_measure_pi[of ss ss src pi pat] d True by simp
        then show ?thesis using si np True by (subst like_loop.simps) simp
      next
        case False
        note stuck = like_spec_stuck[OF si np False]
        then have no: "\<not> like_spec (drop ss src) (drop a pat)" using like_spec_seg_conv[OF seg] by simp
        show ?thesis
        proof (cases star)
          case None
          then have "R = False" using inv no by (simp add: like_inv_def a_def)
          then show ?thesis using si np False None by (subst like_loop.simps) auto
        next
          case (Some st)
          have "st + 1 \<le> length pat" using seg Some by (auto simp: seg_match_def a_def)
          then have "like_inv src pat (ss + 1) (st + 1) star (ss + 1) R"
            using inv no Some d si like_from_Suc[of ss src "st + 1" pat]
              seg_match_empty[of "st + 1" pat "ss + 1" src] by (simp add: like_inv_def a_def)
          then have "like_loop src pat (ss + 1) (st + 1) star (ss + 1) = Some R"
            using less.hyps like_measure_ss[of ss "ss + 1" src pat "st + 1" pi] d si by simp
          then show ?thesis using si np False Some by (subst like_loop.simps) auto
        qed
      qed
    qed
  qed
qed

lemma like_ok: "like src pat = Some (like_spec src pat)"
  unfolding like_def
  by (rule like_loop_ok) (simp add: like_inv_def seg_match_def)

section \<open>LIKE on data\<close>

lemma like_data_spec:
  assumes "data_lexical d1 d2" "dt_readable d1" "dt_readable d2"
  shows "like_data d1 d2 = Some (like_spec (dt_key d1) (dt_key d2))"
proof -
  have g: "get_type_group (dt_type d1) = TG_CHARACTER" "get_type_group (dt_type d2) = TG_CHARACTER"
    using assms(1) by (simp_all add: data_lexical_def)
  obtain b1 b2 where "to_base_type d1 = Some b1" "dt_readable b1" "dt_str b1 = dt_key d1"
    "to_base_type d2 = Some b2" "dt_readable b2" "dt_str b2 = dt_key d2"
    using to_base_type_character[OF g(1) assms(2)] to_base_type_character[OF g(2) assms(3)] by blast
  then show ?thesis using assms(1) by (simp add: like_data_def assert_that_def dt_str_def like_ok)
qed

section \<open>Properties\<close>

text \<open>
  C37: like_data terminates on all character data and its backtracking loop decides SQL LIKE:
  the result is the recursive specification of percent and underscore on the two strings,
  trailing blanks of CHAR data removed.
\<close>

theorem like_data_decides:
  assumes "data_lexical d1 d2" "dt_readable d1" "dt_readable d2"
  shows "like_data d1 d2 = Some (like_spec (dt_key d1) (dt_key d2))"
  using assms by (rule like_data_spec)

theorem like_data_decides_witness:
  "like_data (make_char [97, 98, 99, 98, 100, 32]) (make_varchar [97, 37, 98, 95]) = Some True"
proof -
  have a: "data_lexical (make_char [97, 98, 99, 98, 100, 32]) (make_varchar [97, 37, 98, 95])"
    "dt_readable (make_char [97, 98, 99, 98, 100, 32])" "dt_readable (make_varchar [97, 37, 98, 95])"
    by code_simp+
  have "like_spec (dt_key (make_char [97, 98, 99, 98, 100, 32])) (dt_key (make_varchar [97, 37, 98, 95]))"
    by code_simp
  then show ?thesis using like_data_decides[OF a] by simp
qed

end
