(* ===== verification/Scr_Contracts.thy ===== *)
theory Scr_Contracts
  imports Scr_Prelude "HOL-Library.Sublist"
begin

text \<open>
  The interfaces between the components, as locales: what a client of the hash table, of the
  index list and of a cache may rely on. The lemmas inside each locale are proved once from
  the promised laws; the component that provides the operations discharges the laws by an
  interpretation in its own theory.
\<close>

section \<open>A map of bounded capacity\<close>

datatype ('k, 'v) map_op = Op_put 'k 'v | Op_get 'k | Op_erase 'k

datatype 'v map_out = Out_put bool | Out_get "'v option" | Out_erase bool

text \<open>A sequence of calls, each call's answer recorded.\<close>

fun map_run :: "('h \<Rightarrow> 'k \<Rightarrow> 'v \<Rightarrow> ('h \<times> bool) option) \<Rightarrow> ('h \<Rightarrow> 'k \<Rightarrow> 'v option option) \<Rightarrow>
    ('h \<Rightarrow> 'k \<Rightarrow> ('h \<times> bool) option) \<Rightarrow> 'h \<Rightarrow> ('k, 'v) map_op list \<Rightarrow> ('h \<times> 'v map_out list) option" where
  "map_run put get erase h [] = Some (h, [])"
| "map_run put get erase h (Op_put k v # ops) = Option.bind (put h k v) (\<lambda>(h', b).
     map_option (apsnd ((#) (Out_put b))) (map_run put get erase h' ops))"
| "map_run put get erase h (Op_get k # ops) = Option.bind (get h k) (\<lambda>r.
     map_option (apsnd ((#) (Out_get r))) (map_run put get erase h ops))"
| "map_run put get erase h (Op_erase k # ops) = Option.bind (erase h k) (\<lambda>(h', b).
     map_option (apsnd ((#) (Out_erase b))) (map_run put get erase h' ops))"

text \<open>The same calls on a partial map: the reference.\<close>

fun map_spec :: "('k \<Rightarrow> 'v option) \<Rightarrow> ('k, 'v) map_op list \<Rightarrow> ('k \<Rightarrow> 'v option) \<times> 'v map_out list" where
  "map_spec m [] = (m, [])"
| "map_spec m (Op_put k v # ops) = apsnd ((#) (Out_put True)) (map_spec (m(k \<mapsto> v)) ops)"
| "map_spec m (Op_get k # ops) = apsnd ((#) (Out_get (m k))) (map_spec m ops)"
| "map_spec m (Op_erase k # ops) = apsnd ((#) (Out_erase (m k \<noteq> None))) (map_spec (m(k := None)) ops)"

fun op_key :: "('k, 'v) map_op \<Rightarrow> 'k" where
  "op_key (Op_put k v) = k"
| "op_key (Op_get k) = k"
| "op_key (Op_erase k) = k"

locale bounded_map =
  fixes inv :: "'h \<Rightarrow> bool" and look :: "'h \<Rightarrow> 'k \<Rightarrow> 'v option" and key_ok :: "'k \<Rightarrow> bool"
    and room :: "'h \<Rightarrow> nat"
    and put :: "'h \<Rightarrow> 'k \<Rightarrow> 'v \<Rightarrow> ('h \<times> bool) option" and get :: "'h \<Rightarrow> 'k \<Rightarrow> 'v option option"
    and erase :: "'h \<Rightarrow> 'k \<Rightarrow> ('h \<times> bool) option"
  assumes get_law: "inv h \<Longrightarrow> get h k = Some (look h k)"
    and put_law: "inv h \<Longrightarrow> key_ok k \<Longrightarrow> \<exists>h' b. put h k v = Some (h', b) \<and> inv h' \<and> room h' = room h \<and>
      (if b then look h' = (look h)(k \<mapsto> v)
       else h' = h \<and> look h k = None \<and> room h < card (dom (look h)))"
    and erase_law: "inv h \<Longrightarrow> \<exists>h'. erase h k = Some (h', look h k \<noteq> None) \<and> inv h' \<and>
      room h' = room h \<and> look h' = (look h)(k := None)"
begin

text \<open>With at most \<open>room\<close> keys in play no put fails.\<close>

lemma put_room:
  assumes "inv h" "key_ok k" "dom (look h) \<subseteq> K" "finite K" "card K \<le> room h"
  shows "\<exists>h'. put h k v = Some (h', True) \<and> inv h' \<and> room h' = room h \<and> look h' = (look h)(k \<mapsto> v)"
proof -
  have "card (dom (look h)) \<le> room h" using card_mono[OF assms(4,3)] assms(5) by simp
  then show ?thesis using put_law[OF assms(1,2), of v] by (auto split: if_splits)
qed

lemma run_refines:
  assumes "inv h" "dom (look h) \<subseteq> K" "finite K" "card K \<le> room h"
    and "op_key ` set ops \<subseteq> K" "\<forall>k \<in> K. key_ok k"
  shows "\<exists>h'. map_run put get erase h ops = Some (h', snd (map_spec (look h) ops)) \<and> inv h' \<and>
    look h' = fst (map_spec (look h) ops)"
  using assms
proof (induction ops arbitrary: h)
  case (Cons a ops)
  show ?case
  proof (cases a)
    case (Op_put k v)
    then have "k \<in> K" "key_ok k" using Cons.prems by auto
    obtain h' where h': "put h k v = Some (h', True)" "inv h'" "room h' = room h"
      "look h' = (look h)(k \<mapsto> v)"
      using put_room[OF Cons.prems(1) \<open>key_ok k\<close> Cons.prems(2,3,4), of v] by blast
    have "\<exists>h2. map_run put get erase h' ops = Some (h2, snd (map_spec (look h') ops)) \<and> inv h2 \<and>
        look h2 = fst (map_spec (look h') ops)"
    proof (rule Cons.IH)
      show "dom (look h') \<subseteq> K" using h'(4) Cons.prems(2) \<open>k \<in> K\<close> by simp
    qed (use h' Cons.prems in auto)
    then show ?thesis using Op_put h' by (auto simp: apsnd_def map_prod_def split: prod.split)
  next
    case (Op_get k)
    have "\<exists>h2. map_run put get erase h ops = Some (h2, snd (map_spec (look h) ops)) \<and> inv h2 \<and>
        look h2 = fst (map_spec (look h) ops)"
      by (rule Cons.IH) (use Cons.prems in auto)
    then show ?thesis using Op_get get_law[OF Cons.prems(1)] by auto
  next
    case (Op_erase k)
    obtain h' where h': "erase h k = Some (h', look h k \<noteq> None)" "inv h'" "room h' = room h"
      "look h' = (look h)(k := None)"
      using erase_law[OF Cons.prems(1), of k] by blast
    have "\<exists>h2. map_run put get erase h' ops = Some (h2, snd (map_spec (look h') ops)) \<and> inv h2 \<and>
        look h2 = fst (map_spec (look h') ops)"
      by (rule Cons.IH) (use h' Cons.prems in \<open>auto split: if_splits\<close>)
    then show ?thesis using Op_erase h' by auto
  qed
qed simp

end

section \<open>A list of slots with stable indices\<close>

text \<open>
  One end of a doubly linked list: pushing and popping there, popping at the far end, and
  moving a slot there by its index. The same contract is met by both ends.
\<close>

fun push_all :: "('l \<Rightarrow> 'v \<Rightarrow> ('l \<times> nat option) option) \<Rightarrow> 'l \<Rightarrow> 'v list \<Rightarrow> 'l option" where
  "push_all push l [] = Some l"
| "push_all push l (v # vs) = Option.bind (push l v) (\<lambda>(l', r). push_all push l' vs)"

fun pop_all :: "('l \<Rightarrow> ('l \<times> 'v) option) \<Rightarrow> nat \<Rightarrow> 'l \<Rightarrow> ('l \<times> 'v list) option" where
  "pop_all pop 0 l = Some (l, [])"
| "pop_all pop (Suc n) l = Option.bind (pop l) (\<lambda>(l', v). map_option (apsnd ((#) v)) (pop_all pop n l'))"

locale index_list =
  fixes inv :: "'l \<Rightarrow> bool" and view :: "'l \<Rightarrow> (nat \<times> 'v) list" and cap :: "'l \<Rightarrow> nat"
    and push :: "'l \<Rightarrow> 'v \<Rightarrow> ('l \<times> nat option) option" and pop :: "'l \<Rightarrow> ('l \<times> 'v) option"
    and pop_far :: "'l \<Rightarrow> ('l \<times> 'v) option" and move :: "'l \<Rightarrow> int \<Rightarrow> 'l option"
  assumes view_law: "inv l \<Longrightarrow> distinct (map fst (view l)) \<and> length (view l) \<le> cap l"
    and push_law: "inv l \<Longrightarrow> length (view l) < cap l \<Longrightarrow>
      \<exists>l' i. push l v = Some (l', Some i) \<and> inv l' \<and> cap l' = cap l \<and> view l' = (i, v) # view l"
    and push_full_law: "inv l \<Longrightarrow> length (view l) = cap l \<Longrightarrow> push l v = Some (l, None)"
    and pop_law: "inv l \<Longrightarrow> view l = (i, v) # xs \<Longrightarrow>
      \<exists>l'. pop l = Some (l', v) \<and> inv l' \<and> cap l' = cap l \<and> view l' = xs"
    and pop_far_law: "inv l \<Longrightarrow> view l = xs @ [(i, v)] \<Longrightarrow>
      \<exists>l'. pop_far l = Some (l', v) \<and> inv l' \<and> cap l' = cap l \<and> view l' = xs"
    and move_law: "inv l \<Longrightarrow> view l = ys @ (i, v) # zs \<Longrightarrow>
      \<exists>l'. move l (int i) = Some l' \<and> inv l' \<and> cap l' = cap l \<and> view l' = (i, v) # ys @ zs"
begin

lemma push_all_law:
  assumes "inv l" "length (view l) + length vs \<le> cap l"
  shows "\<exists>l' xs. push_all push l vs = Some l' \<and> inv l' \<and> cap l' = cap l \<and>
    view l' = xs @ view l \<and> map snd xs = rev vs"
  using assms
proof (induction vs arbitrary: l)
  case (Cons v vs)
  have "length (view l) < cap l" using Cons.prems by simp
  from push_law[OF Cons.prems(1) this, of v] obtain l1 i where l1: "push l v = Some (l1, Some i)"
    "inv l1" "cap l1 = cap l" "view l1 = (i, v) # view l" by blast
  have "\<exists>l' xs. push_all push l1 vs = Some l' \<and> inv l' \<and> cap l' = cap l1 \<and>
    view l' = xs @ view l1 \<and> map snd xs = rev vs"
    by (rule Cons.IH) (use l1 Cons.prems in simp_all)
  then obtain l' xs where "push_all push l1 vs = Some l'" "inv l'" "cap l' = cap l1"
    "view l' = xs @ view l1" "map snd xs = rev vs" by blast
  then show ?case using l1 by (intro exI[of _ l'] exI[of _ "xs @ [(i, v)]"]) simp
qed simp

lemma pop_all_law:
  assumes "inv l" "view l = xs @ ys"
  shows "\<exists>l'. pop_all pop (length xs) l = Some (l', map snd xs) \<and> inv l' \<and> cap l' = cap l \<and> view l' = ys"
  using assms
proof (induction xs arbitrary: l)
  case (Cons x xs)
  from pop_law[OF Cons.prems(1), of "fst x" "snd x" "xs @ ys"] Cons.prems(2)
  obtain l1 where l1: "pop l = Some (l1, snd x)" "inv l1" "cap l1 = cap l" "view l1 = xs @ ys" by auto
  with Cons.IH[OF l1(2,4)] show ?case by auto
qed simp

lemma pop_far_all_law:
  assumes "inv l" "view l = ys @ xs"
  shows "\<exists>l'. pop_all pop_far (length xs) l = Some (l', rev (map snd xs)) \<and> inv l' \<and> cap l' = cap l \<and>
    view l' = ys"
  using assms
proof (induction xs arbitrary: l rule: rev_induct)
  case (snoc x xs)
  from pop_far_law[OF snoc.prems(1), of "ys @ xs" "fst x" "snd x"] snoc.prems(2)
  obtain l1 where l1: "pop_far l = Some (l1, snd x)" "inv l1" "cap l1 = cap l" "view l1 = ys @ xs" by auto
  with snoc.IH[OF l1(2,4)] show ?case by auto
qed simp

text \<open>Last in, first out at the same end.\<close>

lemma lifo:
  assumes "inv l" "length (view l) + length vs \<le> cap l"
  shows "\<exists>l1 l2. push_all push l vs = Some l1 \<and> pop_all pop (length vs) l1 = Some (l2, rev vs) \<and>
    inv l2 \<and> view l2 = view l"
proof -
  obtain l1 xs where l1: "push_all push l vs = Some l1" "inv l1" "view l1 = xs @ view l" "map snd xs = rev vs"
    using push_all_law[OF assms] by blast
  have "length xs = length vs" using l1(4) by (metis length_map length_rev)
  then show ?thesis using pop_all_law[OF l1(2,3)] l1 by auto
qed

text \<open>First in, first out through an empty list.\<close>

lemma fifo:
  assumes "inv l" "view l = []" "length vs \<le> cap l"
  shows "\<exists>l1 l2. push_all push l vs = Some l1 \<and> pop_all pop_far (length vs) l1 = Some (l2, vs) \<and>
    inv l2 \<and> view l2 = []"
proof -
  obtain l1 xs where l1: "push_all push l vs = Some l1" "inv l1" "view l1 = [] @ xs" "map snd xs = rev vs"
    using push_all_law[OF assms(1), of vs] assms(2,3) by auto
  have "length xs = length vs" "rev (map snd xs) = vs"
    using l1(4) by (metis length_map length_rev, simp)
  then show ?thesis using pop_far_all_law[OF l1(2,3)] l1(1) by auto
qed

end

section \<open>A cache that evicts the least recently used key\<close>

text \<open>
  \<open>keys\<close> lists the resident keys, most recently used first. A hit moves the key to
  the front. A miss adds it, at most one least recently used key being dropped for it, or
  fails after dropping that key. With at most \<open>room\<close> resident keys nothing is dropped.
\<close>

definition lru_step :: "'k list \<Rightarrow> 'k \<Rightarrow> bool \<Rightarrow> 'k list \<Rightarrow> bool" where
  "lru_step ks k b ks' \<longleftrightarrow>
     (if k \<in> set ks then b \<and> ks' = k # removeAll k ks
      else if b then ks' = k # ks \<or> (ks \<noteq> [] \<and> ks' = k # butlast ks)
      else ks \<noteq> [] \<and> ks' = butlast ks)"

text \<open>The unbounded recency list: every key ever touched, latest first.\<close>

definition recency :: "'k list \<Rightarrow> 'k list \<Rightarrow> 'k list" where
  "recency ks0 ks = fold (\<lambda>k xs. k # removeAll k xs) ks ks0"

fun touch_all :: "('c \<Rightarrow> 'k \<Rightarrow> ('c \<times> bool) option) \<Rightarrow> 'c \<Rightarrow> 'k list \<Rightarrow> ('c \<times> bool list) option" where
  "touch_all touch c [] = Some (c, [])"
| "touch_all touch c (k # ks) = Option.bind (touch c k) (\<lambda>(c', b).
     map_option (apsnd ((#) b)) (touch_all touch c' ks))"

lemma lru_step_prefix:
  assumes "lru_step ks k True ks'" "prefix ks xs"
  shows "prefix ks' (k # removeAll k xs)"
proof -
  have f: "prefix (removeAll k ks) (removeAll k xs)"
    using assms(2) by (auto simp: prefix_def removeAll_append)
  have "prefix (butlast ks) ks" by (cases ks rule: rev_cases) auto
  moreover have "removeAll k ks = ks" if "k \<notin> set ks" using that by (rule removeAll_id)
  ultimately show ?thesis using assms(1) f
    by (auto simp: lru_step_def split: if_splits intro: prefix_order.trans)
qed

locale lru_cache =
  fixes inv :: "'c \<Rightarrow> bool" and keys :: "'c \<Rightarrow> 'k list" and key_ok :: "'k \<Rightarrow> bool"
    and room :: "'c \<Rightarrow> nat" and touch :: "'c \<Rightarrow> 'k \<Rightarrow> ('c \<times> bool) option"
  assumes keys_distinct: "inv c \<Longrightarrow> distinct (keys c)"
    and touch_law: "inv c \<Longrightarrow> key_ok k \<Longrightarrow> \<exists>c' b. touch c k = Some (c', b) \<and> inv c' \<and> room c' = room c \<and>
      lru_step (keys c) k b (keys c') \<and>
      (k \<notin> set (keys c) \<and> length (keys c) \<le> room c \<longrightarrow> b \<and> keys c' = k # keys c)"
begin

lemma touch_all_total:
  assumes "inv c" "\<forall>k \<in> set ks. key_ok k"
  shows "\<exists>c' bs. touch_all touch c ks = Some (c', bs) \<and> inv c' \<and> room c' = room c \<and>
    length bs = length ks \<and>
    (False \<notin> set bs \<longrightarrow> prefix (keys c') (recency (keys c) ks) \<and> (ks \<noteq> [] \<longrightarrow> hd (keys c') = last ks))"
proof -
  have "\<exists>c' bs. touch_all touch c ks = Some (c', bs) \<and> inv c' \<and> room c' = room c \<and>
    length bs = length ks \<and> (False \<notin> set bs \<longrightarrow> prefix (keys c') (recency xs ks) \<and>
    (ks \<noteq> [] \<longrightarrow> keys c' \<noteq> [] \<and> hd (keys c') = last ks))" if "prefix (keys c) xs" for xs
    using assms that
  proof (induction ks arbitrary: c xs)
    case (Cons k ks)
    obtain c1 b where c1: "touch c k = Some (c1, b)" "inv c1" "room c1 = room c"
      "lru_step (keys c) k b (keys c1)"
      using touch_law[OF Cons.prems(1)] Cons.prems(2) by (meson list.set_intros(1))
    let ?xs = "if b then k # removeAll k xs else keys c1"
    have "prefix (keys c1) ?xs" using lru_step_prefix[of "keys c" k "keys c1" xs] c1(4) Cons.prems(3)
      by (cases b) simp_all
    then obtain c2 bs where c2: "touch_all touch c1 ks = Some (c2, bs)" "inv c2" "room c2 = room c1"
      "length bs = length ks" "False \<notin> set bs \<longrightarrow> prefix (keys c2) (recency ?xs ks) \<and>
        (ks \<noteq> [] \<longrightarrow> keys c2 \<noteq> [] \<and> hd (keys c2) = last ks)"
      using Cons.IH[OF c1(2), of ?xs] Cons.prems(2) by auto
    have "keys c2 \<noteq> [] \<and> hd (keys c2) = k" if "b" "ks = []"
      using c1(4) that c2(1) by (auto simp: lru_step_def split: if_splits)
    then show ?case using c1 c2 by (auto simp: recency_def)
  qed (auto simp: recency_def)
  from this[of "keys c"] show ?thesis by auto
qed

text \<open>With no more than \<open>room + 1\<close> keys in play every key touched stays resident.\<close>

lemma no_eviction:
  assumes "inv c" "\<forall>k \<in> K. key_ok k" "set (keys c) \<subseteq> K" "set ks \<subseteq> K" "finite K" "card K \<le> Suc (room c)"
  shows "\<exists>c'. touch_all touch c ks = Some (c', replicate (length ks) True) \<and> inv c' \<and>
    keys c' = recency (keys c) ks"
  using assms
proof (induction ks arbitrary: c)
  case Nil
  then show ?case by (simp add: recency_def)
next
  case (Cons k ks)
  have k: "k \<in> K" "key_ok k" using Cons.prems by auto
  obtain c1 b where c1: "touch c k = Some (c1, b)" "inv c1" "room c1 = room c"
      "lru_step (keys c) k b (keys c1)"
      "k \<notin> set (keys c) \<and> length (keys c) \<le> room c \<longrightarrow> b \<and> keys c1 = k # keys c"
    using touch_law[OF Cons.prems(1) k(2)] by blast
  have "b \<and> keys c1 = k # removeAll k (keys c)"
  proof (cases "k \<in> set (keys c)")
    case True
    then show ?thesis using c1(4) by (simp add: lru_step_def)
  next
    case False
    then have "set (keys c) \<subset> K" using Cons.prems(3) k(1) by blast
    then have "card (set (keys c)) < card K" using Cons.prems(5) by (rule psubset_card_mono[rotated])
    then have "length (keys c) \<le> room c"
      using Cons.prems(6) distinct_card[OF keys_distinct[OF Cons.prems(1)]] by simp
    then show ?thesis using c1(5) False by simp
  qed
  then have b: "b" "keys c1 = k # removeAll k (keys c)" by simp_all
  have "\<exists>c'. touch_all touch c1 ks = Some (c', replicate (length ks) True) \<and> inv c' \<and>
    keys c' = recency (keys c1) ks"
    by (rule Cons.IH) (use c1 b Cons.prems k in auto)
  then show ?case using c1(1) b by (auto simp: recency_def)
qed

end

end
