(* ===== verification/Scr_Ihash.thy ===== *)
theory Scr_Ihash
  imports Scr_Contracts
begin

text \<open>
  \<^verbatim>\<open>lib/core/src/ihash.h\<close> and \<^verbatim>\<open>ihash.c\<close>: the hash
  table whose nodes are linked by indices. The bytes of a node are a record of its key, its
  next index and the user's value; a node is addressed by its location, a bucket or a slot of
  the chain pool. The loops of the code may run forever on a cyclic chain and may leave the
  pool through a wild index: both are the outer \<open>None\<close> of the operations below, and
  the theorems show it never occurs on a table kept by the operations. The inner
  \<open>None\<close> is the code's NULL.
\<close>

section \<open>Data\<close>

record 'v hnode =
  hkey :: i64
  hnext :: int
  hval :: 'v

record 'v ihash =
  bucketsz :: nat
  chainsz :: nat
  chain_head :: int
  keyoffs :: nat
  nodesz :: nat
  hash_fn :: "u64 \<Rightarrow> u64"
  buckets :: "'v hnode list"
  chains :: "'v hnode list"

datatype hloc = Bucket nat | Chain nat

record ihash_iterator =
  bucket_idx :: nat
  it_datum :: "hloc option"

definition IHASH_UNDEF :: i64 where
  "IHASH_UNDEF = -1"

definition ihash_default_hash_fn :: "u64 \<Rightarrow> u64" where
  "ihash_default_hash_fn key = key"

text \<open>\<open>sizeof(ihash)\<close> is 48 and \<open>sizeof(ihash_idx_t)\<close> 8.\<close>

definition ihash_get_required_memory_size :: "u64 \<Rightarrow> u64 \<Rightarrow> u64 \<Rightarrow> u64" where
  "ihash_get_required_memory_size bsz csz usersz = 48 + (usersz + 8) * (bsz + csz)"

section \<open>Nodes and locations\<close>

fun ihash_node :: "'v ihash \<Rightarrow> hloc \<Rightarrow> 'v hnode" where
  "ihash_node h (Bucket b) = buckets h ! b"
| "ihash_node h (Chain c) = chains h ! c"

fun ihash_upd :: "'v ihash \<Rightarrow> hloc \<Rightarrow> ('v hnode \<Rightarrow> 'v hnode) \<Rightarrow> 'v ihash" where
  "ihash_upd h (Bucket b) f = h\<lparr>buckets := (buckets h)[b := f (buckets h ! b)]\<rparr>"
| "ihash_upd h (Chain c) f = h\<lparr>chains := (chains h)[c := f (chains h ! c)]\<rparr>"

text \<open>\<open>chains + i * nodesz\<close>, which must stay inside the pool.\<close>

definition chain_ref :: "'v ihash \<Rightarrow> int \<Rightarrow> hloc option" where
  "chain_ref h i = (if 0 \<le> i \<and> i < int (length (chains h)) then Some (Chain (nat i)) else None)"

text \<open>\<open>hash_fn(key) % bucketsz\<close>: the key's word is converted to size_t.\<close>

definition ihash_idx :: "'v ihash \<Rightarrow> i64 \<Rightarrow> nat" where
  "ihash_idx h key = unat (hash_fn h key) mod bucketsz h"

section \<open>Creation\<close>

definition ihash_clear :: "'v ihash \<Rightarrow> (u64 \<Rightarrow> u64) option \<Rightarrow> 'v ihash" where
  "ihash_clear h fn = h\<lparr>
     hash_fn := (case fn of None \<Rightarrow> ihash_default_hash_fn | Some f \<Rightarrow> f),
     buckets := map (\<lambda>n. n\<lparr>hkey := IHASH_UNDEF, hnext := IDX_UNDEF\<rparr>) (buckets h),
     chains := map (\<lambda>i. (chains h ! i)\<lparr>hkey := IHASH_UNDEF,
                 hnext := if i + 1 = chainsz h then IDX_UNDEF else int i + 1\<rparr>) [0..<chainsz h],
     chain_head := if 0 < chainsz h then 0 else IDX_UNDEF\<rparr>"

text \<open>
  The memory handed to init holds \<open>bucketsz + chainsz\<close> nodes with arbitrary contents,
  the arguments \<open>bs\<close> and \<open>cs\<close>.
\<close>

definition ihash_init_fn :: "'v hnode list \<Rightarrow> 'v hnode list \<Rightarrow> nat \<Rightarrow> nat \<Rightarrow> nat \<Rightarrow> nat \<Rightarrow>
    (u64 \<Rightarrow> u64) option \<Rightarrow> 'v ihash option" where
  "ihash_init_fn bs cs bsz csz koffs usersz fn =
     (if bsz = 0 then None
      else Some (ihash_clear \<lparr>bucketsz = bsz, chainsz = csz, chain_head = 0, keyoffs = koffs,
             nodesz = usersz + 8, hash_fn = ihash_default_hash_fn,
             buckets = bs, chains = cs\<rparr> fn))"

text \<open>\<open>mem\<close> is what malloc returns: the uninitialised nodes, or nothing.\<close>

definition ihash_create_fn :: "('v hnode list \<times> 'v hnode list) option \<Rightarrow> nat \<Rightarrow> nat \<Rightarrow> nat \<Rightarrow> nat \<Rightarrow>
    (u64 \<Rightarrow> u64) option \<Rightarrow> 'v ihash option" where
  "ihash_create_fn mem bsz csz koffs usersz fn =
     (if bsz = 0 then None
      else case mem of None \<Rightarrow> None
           | Some (bs, cs) \<Rightarrow> ihash_init_fn bs cs bsz csz koffs usersz fn)"

section \<open>Lookup\<close>

partial_function (option) ihash_find :: "'v ihash \<Rightarrow> i64 \<Rightarrow> hloc \<Rightarrow> hloc option option" where
  "ihash_find h key e =
     (let n = ihash_node h e in
      if key = hkey n then Some (Some e)
      else if hnext n = IDX_UNDEF then Some None
      else Option.bind (chain_ref h (hnext n)) (ihash_find h key))"

definition ihash_get_fn :: "'v ihash \<Rightarrow> i64 \<Rightarrow> hloc option option" where
  "ihash_get_fn h key =
     (let e = Bucket (ihash_idx h key) in
      if hkey (ihash_node h e) = IHASH_UNDEF then Some None else ihash_find h key e)"

definition ihash_exists :: "'v ihash \<Rightarrow> i64 \<Rightarrow> bool option" where
  "ihash_exists h key = map_option (\<lambda>r. r \<noteq> None) (ihash_get_fn h key)"

text \<open>The macro ihash_get_value: the member, or the zero of its type.\<close>

definition ihash_get_value :: "'v \<Rightarrow> 'v ihash \<Rightarrow> i64 \<Rightarrow> 'v option" where
  "ihash_get_value zero h key = map_option
     (\<lambda>r. case r of None \<Rightarrow> zero | Some e \<Rightarrow> hval (ihash_node h e)) (ihash_get_fn h key)"

section \<open>Insertion\<close>

text \<open>End of chain: take the head of the free list, link it behind \<open>e\<close>.\<close>

definition ihash_link :: "'v ihash \<Rightarrow> i64 \<Rightarrow> hloc \<Rightarrow> ('v ihash \<times> hloc option) option" where
  "ihash_link h key e =
     (if chain_head h = IDX_UNDEF then Some (h, None)
      else Option.bind (chain_ref h (chain_head h)) (\<lambda>new_node.
        let h1 = ihash_upd h e (hnext_update (\<lambda>_. chain_head h));
            h2 = h1\<lparr>chain_head := hnext (ihash_node h1 new_node)\<rparr>;
            h3 = ihash_upd h2 new_node (\<lambda>n. n\<lparr>hkey := key, hnext := IDX_UNDEF\<rparr>)
        in Some (h3, Some new_node)))"

partial_function (option) ihash_touch_loop ::
    "'v ihash \<Rightarrow> i64 \<Rightarrow> hloc \<Rightarrow> ('v ihash \<times> hloc option) option" where
  "ihash_touch_loop h key e =
     (let n = ihash_node h e in
      if key = hkey n then Some (h, Some e)
      else if hnext n = IDX_UNDEF then ihash_link h key e
      else Option.bind (chain_ref h (hnext n)) (ihash_touch_loop h key))"

definition ihash_touch_fn :: "'v ihash \<Rightarrow> i64 \<Rightarrow> ('v ihash \<times> hloc option) option" where
  "ihash_touch_fn h key =
     (let e = Bucket (ihash_idx h key) in
      if hkey (ihash_node h e) = IHASH_UNDEF
      then Some (ihash_upd h e (\<lambda>n. n\<lparr>hkey := key, hnext := IDX_UNDEF\<rparr>), Some e)
      else ihash_touch_loop h key e)"

text \<open>The macro ihash_put: touch, then assign the value.\<close>

definition ihash_put :: "'v ihash \<Rightarrow> i64 \<Rightarrow> 'v \<Rightarrow> ('v ihash \<times> hloc option) option" where
  "ihash_put h key v = map_option
     (\<lambda>(h', r). case r of None \<Rightarrow> (h', None)
        | Some e \<Rightarrow> (ihash_upd h' e (hval_update (\<lambda>_. v)), Some e)) (ihash_touch_fn h key)"

section \<open>Removal\<close>

text \<open>Case 2: the key is in the bucket.\<close>

definition ihash_erase_bucket :: "'v ihash \<Rightarrow> hloc \<Rightarrow> 'v ihash option" where
  "ihash_erase_bucket h e =
     (let next_idx = hnext (ihash_node h e) in
      if next_idx = IDX_UNDEF
      then Some (ihash_upd h e (\<lambda>n. n\<lparr>hkey := IHASH_UNDEF, hnext := IDX_UNDEF\<rparr>))
      else Option.bind (chain_ref h next_idx) (\<lambda>first_node.
        let h1 = ihash_upd h e (\<lambda>_. ihash_node h first_node);
            h2 = ihash_upd h1 first_node (\<lambda>n. n\<lparr>hkey := IHASH_UNDEF, hnext := chain_head h\<rparr>)
        in Some (h2\<lparr>chain_head := next_idx\<rparr>)))"

text \<open>Case 3: the node \<open>e\<close> at index \<open>cur_idx\<close>, behind \<open>prev\<close>.\<close>

definition ihash_unlink :: "'v ihash \<Rightarrow> hloc \<Rightarrow> hloc \<Rightarrow> int \<Rightarrow> 'v ihash" where
  "ihash_unlink h prev e cur_idx =
     (let next_idx = hnext (ihash_node h e);
          h1 = ihash_upd h prev (hnext_update (\<lambda>_. next_idx));
          h2 = ihash_upd h1 e (\<lambda>n. n\<lparr>hkey := IHASH_UNDEF, hnext := chain_head h\<rparr>)
      in h2\<lparr>chain_head := cur_idx\<rparr>)"

partial_function (option) ihash_erase_loop ::
    "'v ihash \<Rightarrow> i64 \<Rightarrow> hloc \<Rightarrow> int \<Rightarrow> ('v ihash \<times> bool) option" where
  "ihash_erase_loop h key prev cur_idx =
     (if cur_idx = IDX_UNDEF then Some (h, False)
      else Option.bind (chain_ref h cur_idx) (\<lambda>e.
        if key = hkey (ihash_node h e) then Some (ihash_unlink h prev e cur_idx, True)
        else ihash_erase_loop h key e (hnext (ihash_node h e))))"

definition ihash_erase_fn :: "'v ihash \<Rightarrow> i64 \<Rightarrow> ('v ihash \<times> bool) option" where
  "ihash_erase_fn h key =
     (let e = Bucket (ihash_idx h key); n = ihash_node h e in
      if hkey n = IHASH_UNDEF then Some (h, False)
      else if key = hkey n then map_option (\<lambda>h'. (h', True)) (ihash_erase_bucket h e)
      else ihash_erase_loop h key e (hnext n))"

section \<open>Iteration\<close>

function ihash_next_occupied_bucket :: "'v ihash \<Rightarrow> nat \<Rightarrow> nat" where
  "ihash_next_occupied_bucket h idx =
     (if idx < bucketsz h
      then if hkey (buckets h ! idx) \<noteq> IHASH_UNDEF then idx
           else ihash_next_occupied_bucket h (idx + 1)
      else idx)"
  by pat_completeness auto
termination by (relation "measure (\<lambda>(h, idx). bucketsz h - idx)") auto

declare ihash_next_occupied_bucket.simps [simp del]

definition ihash_at_bucket :: "'v ihash \<Rightarrow> nat \<Rightarrow> ihash_iterator" where
  "ihash_at_bucket h idx = \<lparr>bucket_idx = idx,
     it_datum = (if idx = bucketsz h then None else Some (Bucket idx))\<rparr>"

definition ihash_begin :: "'v ihash \<Rightarrow> ihash_iterator" where
  "ihash_begin h = ihash_at_bucket h (ihash_next_occupied_bucket h 0)"

definition ihash_next :: "'v ihash \<Rightarrow> ihash_iterator \<Rightarrow> ihash_iterator option" where
  "ihash_next h i = Option.bind (it_datum i) (\<lambda>e.
     let next_idx = hnext (ihash_node h e) in
     if next_idx = IDX_UNDEF
     then Some (ihash_at_bucket h (ihash_next_occupied_bucket h (bucket_idx i + 1)))
     else map_option (\<lambda>e'. i\<lparr>it_datum := Some e'\<rparr>) (chain_ref h next_idx))"

definition ihash_is_valid :: "'v ihash \<Rightarrow> ihash_iterator \<Rightarrow> bool" where
  "ihash_is_valid h i \<longleftrightarrow> bucket_idx i \<noteq> bucketsz h"

text \<open>The loop \<open>for (i = ihash_begin(h); ihash_is_valid(h, i); i = ihash_next(h, i))\<close>.\<close>

partial_function (option) ihash_foreach :: "'v ihash \<Rightarrow> ihash_iterator \<Rightarrow> hloc list option" where
  "ihash_foreach h i =
     (if ihash_is_valid h i
      then Option.bind (it_datum i) (\<lambda>e. Option.bind (ihash_next h i) (\<lambda>i'.
             Option.bind (ihash_foreach h i') (\<lambda>es. Some (e # es))))
      else Some [])"

declare ihash_find.simps [code] ihash_touch_loop.simps [code] ihash_erase_loop.simps [code]
  ihash_foreach.simps [code]

section \<open>The map a table stands for\<close>

text \<open>
  The slots of bucket \<open>b\<close> in chain order, and the key/value pairs they hold. The walk
  is bounded by the size of the pool, which is enough on a well-formed table.
\<close>

definition hnx :: "'v ihash \<Rightarrow> nat \<Rightarrow> int" where
  "hnx h i = hnext (chains h ! i)"

definition hslots_of :: "'v ihash \<Rightarrow> nat list \<Rightarrow> nat \<Rightarrow> hloc list" where
  "hslots_of h xs b =
     (if hkey (buckets h ! b) = IHASH_UNDEF then [] else Bucket b # map Chain xs)"

definition hslots :: "'v ihash \<Rightarrow> nat \<Rightarrow> hloc list" where
  "hslots h b = hslots_of h (idx_walk (hnx h) (chainsz h) (hnext (buckets h ! b))) b"

definition hkv :: "'v ihash \<Rightarrow> hloc list \<Rightarrow> (i64 \<times> 'v) list" where
  "hkv h ls = map (\<lambda>l. (hkey (ihash_node h l), hval (ihash_node h l))) ls"

definition ihash_map :: "'v ihash \<Rightarrow> i64 \<Rightarrow> 'v option" where
  "ihash_map h k = map_of (hkv h (hslots h (ihash_idx h k))) k"

text \<open>
  The links, as a statement on the next function \<open>nx\<close> of the pool, the head of the
  free list and, for each bucket, its next index \<open>bn\<close> and whether it is empty:
  \<open>ps b\<close> are the chain slots of bucket \<open>b\<close>, \<open>fs\<close> the free
  ones; together they are every slot of the pool, each once.
\<close>

definition linked :: "nat \<Rightarrow> nat \<Rightarrow> (nat \<Rightarrow> int) \<Rightarrow> int \<Rightarrow> (nat \<Rightarrow> int) \<Rightarrow> (nat \<Rightarrow> bool) \<Rightarrow>
    (nat \<Rightarrow> nat list) \<Rightarrow> nat list \<Rightarrow> bool" where
  "linked B C nx fh bn emp ps fs \<longleftrightarrow>
     (\<forall>b < B. idx_path nx C (bn b) (ps b) IDX_UNDEF) \<and> idx_path nx C fh fs IDX_UNDEF \<and>
     (\<forall>b < B. emp b \<longrightarrow> ps b = []) \<and>
     (\<forall>b < B. distinct (ps b) \<and> set (ps b) \<inter> set fs = {}) \<and>
     (\<forall>b < B. \<forall>b' < B. b' \<noteq> b \<longrightarrow> set (ps b) \<inter> set (ps b') = {}) \<and>
     distinct fs \<and> {..<C} = (\<Union>b < B. set (ps b)) \<union> set fs"

definition hlinks :: "'v ihash \<Rightarrow> (nat \<Rightarrow> nat list) \<Rightarrow> nat list \<Rightarrow> bool" where
  "hlinks h ps fs \<longleftrightarrow>
     0 < bucketsz h \<and> length (buckets h) = bucketsz h \<and> length (chains h) = chainsz h \<and>
     linked (bucketsz h) (chainsz h) (hnx h) (chain_head h) (\<lambda>b. hnext (buckets h ! b))
       (\<lambda>b. hkey (buckets h ! b) = IHASH_UNDEF) ps fs"

lemma linked_cong:
  assumes "linked B C nx fh bn emp ps fs"
    and "\<And>c. c < C \<Longrightarrow> nx c = nx' c" "\<And>b. b < B \<Longrightarrow> bn b = bn' b" "\<And>b. b < B \<Longrightarrow> emp b = emp' b"
  shows "linked B C nx' fh bn' emp' ps fs"
proof -
  have "idx_path nx' C i xs j" if "idx_path nx C i xs j" for i xs j
    by (rule idx_path_transfer[OF that]) (use assms(2) idx_path_bound[OF that] in auto)
  then show ?thesis using assms unfolding linked_def by fastforce
qed

lemma linked_disj:
  "linked B C nx fh bn emp ps fs \<Longrightarrow> b < B \<Longrightarrow> b' < B \<Longrightarrow> b' \<noteq> b \<Longrightarrow> x \<in> set (ps b) \<Longrightarrow> x \<notin> set (ps b')"
  unfolding linked_def by blast

lemma linked_path:
  "linked B C nx fh bn emp ps fs \<Longrightarrow> b < B \<Longrightarrow> idx_path nx C (bn b) (ps b) IDX_UNDEF \<and> distinct (ps b)"
  by (simp add: linked_def)

text \<open>Taking the head of the free list to the end of a chain.\<close>

lemma linked_snoc:
  assumes l: "linked B C nx fh bn emp ps (n # fs)" and b: "b < B" "\<not> emp b"
  shows "linked B C (if ps b = [] then nx(n := IDX_UNDEF) else nx(last (ps b) := int n, n := IDX_UNDEF))
    (nx n) (if ps b = [] then bn(b := int n) else bn) emp (ps(b := ps b @ [n])) fs"
proof -
  let ?nx = "if ps b = [] then nx(n := IDX_UNDEF) else nx(last (ps b) := int n, n := IDX_UNDEF)"
  let ?bn = "if ps b = [] then bn(b := int n) else bn"
  have n: "n < C" "fh = int n" "idx_path nx C (nx n) fs IDX_UNDEF"
    and fresh: "\<And>b'. b' < B \<Longrightarrow> n \<notin> set (ps b')" "n \<notin> set fs"
    using l by (auto simp: linked_def)
  have other: "idx_path ?nx C (bn b') (ps b') IDX_UNDEF" if "b' < B" "b' \<noteq> b" for b'
  proof (rule idx_path_transfer)
    show "idx_path nx C (bn b') (ps b') IDX_UNDEF" using l that by (simp add: linked_def)
    have "last (ps b) \<notin> set (ps b')" if "ps b \<noteq> []"
      by (rule linked_disj[OF l b(1) \<open>b' < B\<close> \<open>b' \<noteq> b\<close> last_in_set[OF that]])
    then show "\<forall>x \<in> set (ps b'). nx x = ?nx x" using fresh(1)[OF that(1)] by auto
  qed
  have mine: "idx_path ?nx C (?bn b) (ps b @ [n]) IDX_UNDEF"
    using l b n fresh by (auto simp: linked_def intro: idx_path_snoc)
  have free: "idx_path ?nx C (nx n) fs IDX_UNDEF"
  proof (rule idx_path_transfer[OF n(3)])
    have "last (ps b) \<notin> set fs" if "ps b \<noteq> []"
      using l b last_in_set[OF that] by (auto simp: linked_def)
    then show "\<forall>x \<in> set fs. nx x = ?nx x" using fresh(2) by auto
  qed
  have un: "(\<Union>b' < B. set ((ps(b := ps b @ [n])) b')) = insert n (\<Union>b' < B. set (ps b'))"
    using b by (auto split: if_splits)
  have paths: "\<forall>b' < B. idx_path ?nx C (?bn b') ((ps(b := ps b @ [n])) b') IDX_UNDEF"
    using other mine n(1) by (cases "ps b = []") auto
  show ?thesis
    unfolding linked_def un using paths free l b fresh by (auto simp: linked_def)
qed

text \<open>Taking a slot out of a chain and pushing it on the free list.\<close>

lemma linked_unlink:
  assumes l: "linked B C nx fh bn emp ps fs" and b: "b < B" "ps b = ys @ c # zs"
  shows "linked B C (if ys = [] then nx(c := fh) else nx(last ys := nx c, c := fh))
    (int c) (if ys = [] then bn(b := nx c) else bn) emp (ps(b := ys @ zs)) (c # fs)"
proof -
  let ?nx = "if ys = [] then nx(c := fh) else nx(last ys := nx c, c := fh)"
  let ?bn = "if ys = [] then bn(b := nx c) else bn"
  have p: "idx_path nx C (bn b) (ys @ c # zs) IDX_UNDEF" "distinct (ys @ c # zs)"
    using linked_path[OF l b(1)] b(2) by simp_all
  then have c: "c < C" by (auto dest: idx_path_bound)
  have own: "x \<notin> set (ps b')" if "b' < B" "b' \<noteq> b" "x \<in> set (ps b)" for x b'
    by (rule linked_disj[OF l b(1) that])
  have own_fs: "x \<notin> set fs" if "x \<in> set (ps b)" for x
    using l that b(1) by (auto simp: linked_def)
  have other: "idx_path ?nx C (bn b') (ps b') IDX_UNDEF" if "b' < B" "b' \<noteq> b" for b'
  proof (rule idx_path_transfer)
    show "idx_path nx C (bn b') (ps b') IDX_UNDEF" using l that by (simp add: linked_def)
    show "\<forall>x \<in> set (ps b'). nx x = ?nx x"
      using own[OF that, of c] own[OF that, of "last ys"] b(2) by auto
  qed
  have mine: "idx_path ?nx C (?bn b) (ys @ zs) IDX_UNDEF"
  proof (cases "ys = []")
    case True
    then show ?thesis using p by auto
  next
    case False
    then show ?thesis using idx_path_unlink[OF p(1) False p(2)] by simp
  qed
  have free: "idx_path ?nx C (int c) (c # fs) IDX_UNDEF"
  proof -
    have "idx_path nx C fh fs IDX_UNDEF" using l by (simp add: linked_def)
    moreover have "\<forall>x \<in> set fs. nx x = ?nx x"
      using own_fs[of c] own_fs[of "last ys"] b(2) by auto
    ultimately have "idx_path ?nx C fh fs IDX_UNDEF" by (rule idx_path_transfer)
    then show ?thesis using c by (cases "ys = []") simp_all
  qed
  have "set (ps b) = insert c (set (ys @ zs))" using b(2) by auto
  then have "(\<Union>b' < B. set (ps b')) \<subseteq> insert c (\<Union>b' < B. set ((ps(b := ys @ zs)) b'))"
    by fastforce
  moreover have "insert c (\<Union>b' < B. set ((ps(b := ys @ zs)) b')) \<subseteq> (\<Union>b' < B. set (ps b'))"
  proof -
    have "c \<in> (\<Union>b' < B. set (ps b'))" using b by (intro UN_I[of b]) auto
    moreover have "set ((ps(b := ys @ zs)) b') \<subseteq> set (ps b')" for b' using b(2) by auto
    ultimately show ?thesis by blast
  qed
  ultimately have un: "insert c (\<Union>b' < B. set ((ps(b := ys @ zs)) b')) = (\<Union>b' < B. set (ps b'))"
    by blast
  have cov: "{..<C} = (\<Union>b' < B. set ((ps(b := ys @ zs)) b')) \<union> set (c # fs)"
    using un l by (auto simp: linked_def)
  have paths: "\<forall>b' < B. idx_path ?nx C (?bn b') ((ps(b := ys @ zs)) b') IDX_UNDEF"
    using other mine by (cases "ys = []") auto
  have dis: "\<forall>b1 < B. distinct ((ps(b := ys @ zs)) b1) \<and> set ((ps(b := ys @ zs)) b1) \<inter> set (c # fs) = {}"
  proof (intro allI impI)
    fix b1 assume b1: "b1 < B"
    have "distinct (ps b1)" "set (ps b1) \<inter> set fs = {}" using l b1 by (simp_all add: linked_def)
    then show "distinct ((ps(b := ys @ zs)) b1) \<and> set ((ps(b := ys @ zs)) b1) \<inter> set (c # fs) = {}"
      using p(2) own[OF b1, of c] b(2) by (cases "b1 = b") auto
  qed
  have dis2: "\<forall>b1 < B. \<forall>b2 < B. b2 \<noteq> b1 \<longrightarrow>
      set ((ps(b := ys @ zs)) b1) \<inter> set ((ps(b := ys @ zs)) b2) = {}"
  proof (intro allI impI)
    fix b1 b2 assume b12: "b1 < B" "b2 < B" "b2 \<noteq> b1"
    have "set (ps b1) \<inter> set (ps b2) = {}" using l b12 by (simp add: linked_def)
    moreover have "set ((ps(b := ys @ zs)) b') \<subseteq> set (ps b')" for b' using b(2) by auto
    ultimately show "set ((ps(b := ys @ zs)) b1) \<inter> set ((ps(b := ys @ zs)) b2) = {}" by blast
  qed
  have "distinct (c # fs)" using l own_fs[of c] b by (auto simp: linked_def)
  moreover have "\<forall>b1 < B. emp b1 \<longrightarrow> (ps(b := ys @ zs)) b1 = []"
    using l b by (fastforce simp: linked_def)
  ultimately show ?thesis unfolding linked_def using paths free dis dis2 cov by blast
qed

definition kv_ok :: "'v ihash \<Rightarrow> nat \<Rightarrow> (i64 \<times> 'v) list \<Rightarrow> bool" where
  "kv_ok h b kv \<longleftrightarrow> distinct (map fst kv) \<and>
     (\<forall>k \<in> set (map fst kv). k \<noteq> IHASH_UNDEF \<and> ihash_idx h k = b)"

definition hrep :: "'v ihash \<Rightarrow> (nat \<Rightarrow> nat list) \<Rightarrow> nat list \<Rightarrow> bool" where
  "hrep h ps fs \<longleftrightarrow> hlinks h ps fs \<and>
     (\<forall>b < bucketsz h. kv_ok h b (hkv h (hslots_of h (ps b) b)))"

definition ihash_inv :: "'v ihash \<Rightarrow> bool" where
  "ihash_inv h \<longleftrightarrow> (\<exists>ps fs. hrep h ps fs)"

lemma hlinks_walk:
  assumes "hlinks h ps fs" "b < bucketsz h"
  shows "idx_walk (hnx h) (chainsz h) (hnext (buckets h ! b)) = ps b"
proof (rule idx_walk_path)
  show p: "idx_path (hnx h) (chainsz h) (hnext (buckets h ! b)) (ps b) IDX_UNDEF"
    using assms by (simp add: hlinks_def linked_def)
  show "length (ps b) \<le> chainsz h"
    using assms by (intro distinct_below_length) (auto simp: hlinks_def linked_def dest: idx_path_bound)
qed

lemma hslots_eq: "hlinks h ps fs \<Longrightarrow> b < bucketsz h \<Longrightarrow> hslots h b = hslots_of h (ps b) b"
  by (simp add: hslots_def hlinks_walk)

lemma hlinks_bound:
  assumes "hlinks h ps fs" "b < bucketsz h" "x \<in> set (ps b)"
  shows "x < length (chains h)"
proof -
  have "idx_path (hnx h) (length (chains h)) (hnext (buckets h ! b)) (ps b) IDX_UNDEF"
    using assms by (simp add: hlinks_def linked_def)
  then show ?thesis using assms(3) by (rule idx_path_bound)
qed

lemma ihash_idx_less: "hlinks h ps fs \<Longrightarrow> ihash_idx h k < bucketsz h"
  by (simp add: ihash_idx_def hlinks_def)

lemma ihash_map_eq: "hlinks h ps fs \<Longrightarrow>
    ihash_map h k = map_of (hkv h (hslots_of h (ps (ihash_idx h k)) (ihash_idx h k))) k"
  by (simp add: ihash_map_def hslots_eq ihash_idx_less)

section \<open>Lookup finds what the map holds\<close>

lemma ihash_find_path:
  assumes "idx_path (hnx h) (length (chains h)) (hnext (ihash_node h e)) xs IDX_UNDEF"
  shows "ihash_find h key e =
    Some (List.find (\<lambda>l. hkey (ihash_node h l) = key) (e # map Chain xs))"
  using assms
proof (induction xs arbitrary: e)
  case Nil
  then show ?case by (subst ihash_find.simps) (simp add: Let_def)
next
  case (Cons x xs)
  then have "ihash_find h key (Chain x) =
      Some (List.find (\<lambda>l. hkey (ihash_node h l) = key) (Chain x # map Chain xs))"
    by (auto simp: hnx_def)
  with Cons.prems show ?case
    by (subst ihash_find.simps) (simp add: Let_def chain_ref_def)
qed

lemma hkv_find: "map_of (hkv h ls) k =
    map_option (\<lambda>l. hval (ihash_node h l)) (List.find (\<lambda>l. hkey (ihash_node h l) = k) ls)"
  by (induction ls) (auto simp: hkv_def)

lemma ihash_get_find:
  assumes "hlinks h ps fs"
  shows "ihash_get_fn h k = Some (List.find (\<lambda>l. hkey (ihash_node h l) = k)
    (hslots_of h (ps (ihash_idx h k)) (ihash_idx h k)))"
  using assms ihash_idx_less[OF assms, of k]
  by (auto simp: ihash_get_fn_def Let_def hslots_of_def hlinks_def linked_def ihash_find_path)

lemma find_SomeD: "List.find P xs = Some x \<Longrightarrow> x \<in> set xs \<and> P x"
  by (auto simp: find_Some_iff)

lemma ihash_get_map:
  assumes "ihash_inv h"
  obtains r where "ihash_get_fn h k = Some r"
    "map_option (\<lambda>l. hval (ihash_node h l)) r = ihash_map h k"
    "\<And>l. r = Some l \<Longrightarrow> hkey (ihash_node h l) = k"
proof -
  obtain ps fs where l: "hlinks h ps fs" using assms by (auto simp: ihash_inv_def hrep_def)
  show thesis
    by (rule that[OF ihash_get_find[OF l]])
      (auto simp: ihash_map_eq[OF l] hkv_find dest: find_SomeD)
qed

section \<open>Operations preserve the links and change one bucket\<close>

lemma hkv_append [simp]: "hkv h (ls @ ls') = hkv h ls @ hkv h ls'"
  by (simp add: hkv_def)

lemma hkv_cong:
  "(\<And>l. l \<in> set ls \<Longrightarrow> hkey (ihash_node h l) = hkey (ihash_node h' l) \<and>
     hval (ihash_node h l) = hval (ihash_node h' l)) \<Longrightarrow> hkv h ls = hkv h' ls"
  by (simp add: hkv_def)

lemma kv_ok_cong: "bucketsz h' = bucketsz h \<Longrightarrow> hash_fn h' = hash_fn h \<Longrightarrow> kv_ok h' b kv = kv_ok h b kv"
  by (simp add: kv_ok_def ihash_idx_def)

text \<open>A new state that differs in the pairs of one bucket only.\<close>

lemma hrep_change:
  assumes h: "hrep h ps fs" and l: "hlinks h' ps' fs'"
    and same: "bucketsz h' = bucketsz h" "hash_fn h' = hash_fn h"
    and other: "\<And>b'. b' < bucketsz h \<Longrightarrow> b' \<noteq> b \<Longrightarrow>
      hkv h' (hslots_of h' (ps' b') b') = hkv h (hslots_of h (ps b') b')"
    and ok: "kv_ok h b (hkv h' (hslots_of h' (ps' b) b))"
  shows "hrep h' ps' fs'"
    and "ihash_map h' k = (if ihash_idx h k = b then map_of (hkv h' (hslots_of h' (ps' b) b)) k
      else ihash_map h k)"
proof -
  have hl: "hlinks h ps fs" using h by (simp add: hrep_def)
  have idx: "ihash_idx h' = ihash_idx h" by (rule ext) (simp add: ihash_idx_def same)
  have "kv_ok h b' (hkv h' (hslots_of h' (ps' b') b'))" if "b' < bucketsz h" for b'
    using h ok other[OF that] that by (cases "b' = b") (simp_all add: hrep_def)
  then show "hrep h' ps' fs'"
    using l same by (simp add: hrep_def kv_ok_cong[OF same])
  show "ihash_map h' k = (if ihash_idx h k = b then map_of (hkv h' (hslots_of h' (ps' b) b)) k
      else ihash_map h k)"
    using other[OF ihash_idx_less[OF hl, of k]]
    by (auto simp: ihash_map_eq[OF l] ihash_map_eq[OF hl] idx)
qed

lemma ihash_touch_path:
  assumes "idx_path (hnx h) (length (chains h)) (hnext (ihash_node h e)) xs IDX_UNDEF"
  shows "ihash_touch_loop h key e =
    (case List.find (\<lambda>l. hkey (ihash_node h l) = key) (e # map Chain xs) of
       Some l \<Rightarrow> Some (h, Some l)
     | None \<Rightarrow> ihash_link h key (last (e # map Chain xs)))"
  using assms
proof (induction xs arbitrary: e)
  case Nil
  then show ?case by (subst ihash_touch_loop.simps) (simp add: Let_def)
next
  case (Cons x xs)
  then have "ihash_touch_loop h key (Chain x) =
    (case List.find (\<lambda>l. hkey (ihash_node h l) = key) (Chain x # map Chain xs) of
       Some l \<Rightarrow> Some (h, Some l)
     | None \<Rightarrow> ihash_link h key (last (Chain x # map Chain xs)))"
    by (auto simp: hnx_def)
  with Cons.prems show ?case
    by (subst ihash_touch_loop.simps) (simp add: Let_def chain_ref_def split: option.split)
qed

text \<open>Case 1: the bucket is empty.\<close>

lemma hlinks_bucket:
  assumes l: "hlinks h ps fs" and b: "b < bucketsz h" "ps b = []"
  shows "hlinks (ihash_upd h (Bucket b) (\<lambda>n. n\<lparr>hkey := k, hnext := IDX_UNDEF\<rparr>)) ps fs"
proof -
  let ?h = "ihash_upd h (Bucket b) (\<lambda>n. n\<lparr>hkey := k, hnext := IDX_UNDEF\<rparr>)"
  have un: "hnext (buckets h ! b) = IDX_UNDEF"
    using l b linked_path[of "bucketsz h" _ _ _ _ _ ps fs b] by (fastforce simp: hlinks_def)
  have len: "length (buckets h) = bucketsz h" using l by (simp add: hlinks_def)
  have "linked (bucketsz h) (chainsz h) (hnx h) (chain_head h) (\<lambda>b. hnext (buckets h ! b))
       (\<lambda>b. hkey (buckets h ! b) = IHASH_UNDEF) ps fs" using l by (simp add: hlinks_def)
  then have "linked (bucketsz h) (chainsz h) (hnx h) (chain_head h) (\<lambda>b. hnext (buckets ?h ! b))
       (\<lambda>b. hkey (buckets ?h ! b) = IHASH_UNDEF) ps fs"
    unfolding linked_def using un b len by (auto simp: nth_list_update)
  moreover have "hnx ?h = hnx h" by (rule ext) (simp add: hnx_def)
  ultimately show ?thesis using l by (simp add: hlinks_def)
qed

lemma touch_empty_bucket:
  assumes h: "hrep h ps fs" and k: "k \<noteq> IHASH_UNDEF" "ihash_idx h k = b"
    and e: "hkey (buckets h ! b) = IHASH_UNDEF"
    and h': "h' = ihash_upd h (Bucket b) (\<lambda>n. n\<lparr>hkey := k, hnext := IDX_UNDEF\<rparr>)"
  shows "hrep h' ps fs"
    and "ihash_map h' = (ihash_map h)(k \<mapsto> hval (ihash_node h' (Bucket b)))"
proof -
  have hl: "hlinks h ps fs" using h by (simp add: hrep_def)
  have b: "b < bucketsz h" "ps b = []" "b < length (buckets h)"
    using hl e ihash_idx_less[OF hl] k(2) by (auto simp: hlinks_def linked_def)
  have l': "hlinks h' ps fs" unfolding h' by (rule hlinks_bucket[OF hl b(1,2)])
  have same: "bucketsz h' = bucketsz h" "hash_fn h' = hash_fn h" by (simp_all add: h')
  have kv: "hkv h' (hslots_of h' (ps b) b) = [(k, hval (ihash_node h' (Bucket b)))]"
    using b k by (simp add: h' hslots_of_def hkv_def)
  have other: "hkv h' (hslots_of h' (ps b') b') = hkv h (hslots_of h (ps b') b')" if "b' \<noteq> b" for b'
    using that by (auto simp: h' hslots_of_def hkv_def)
  have ok: "kv_ok h b (hkv h' (hslots_of h' (ps b) b))" using k by (simp add: kv kv_ok_def)
  note ch = hrep_change[OF h l' same other ok]
  show "hrep h' ps fs" by (rule ch)
  show "ihash_map h' = (ihash_map h)(k \<mapsto> hval (ihash_node h' (Bucket b)))"
  proof
    fix k' show "ihash_map h' k' = ((ihash_map h)(k \<mapsto> hval (ihash_node h' (Bucket b)))) k'"
      using ch(2)[of k', unfolded kv] k e ihash_map_eq[OF hl, of k']
      by (auto simp: hslots_of_def hkv_def)
  qed
qed

text \<open>Case 3: a free node is linked at the end of the chain.\<close>

definition last_slot :: "nat \<Rightarrow> nat list \<Rightarrow> hloc" where
  "last_slot b xs = last (Bucket b # map Chain xs)"

lemma last_slot_simps [simp]: "last_slot b [] = Bucket b" "xs \<noteq> [] \<Longrightarrow> last_slot b xs = Chain (last xs)"
  by (simp_all add: last_slot_def last_map)

lemma ihash_link_full: "chain_head h = IDX_UNDEF \<Longrightarrow> ihash_link h k e = Some (h, None)"
  by (simp add: ihash_link_def)

lemma ihash_link_rep:
  assumes h: "hrep h ps (n # fs)" and k: "k \<noteq> IHASH_UNDEF" "ihash_idx h k = b"
    and e: "hkey (buckets h ! b) \<noteq> IHASH_UNDEF"
    and new: "k \<notin> set (map fst (hkv h (hslots_of h (ps b) b)))"
  obtains h' where "ihash_link h k (last_slot b (ps b)) = Some (h', Some (Chain n))"
    "hrep h' (ps(b := ps b @ [n])) fs"
    "hkey (ihash_node h' (Chain n)) = k" "hval (ihash_node h' (Chain n)) = hval (ihash_node h (Chain n))"
    "ihash_map h' = (ihash_map h)(k \<mapsto> hval (ihash_node h (Chain n)))"
    "bucketsz h' = bucketsz h" "hash_fn h' = hash_fn h" "chainsz h' = chainsz h"
proof -
  have hl: "hlinks h ps (n # fs)" using h by (simp add: hrep_def)
  have l: "linked (bucketsz h) (chainsz h) (hnx h) (chain_head h) (\<lambda>b. hnext (buckets h ! b))
       (\<lambda>b. hkey (buckets h ! b) = IHASH_UNDEF) ps (n # fs)"
    and len: "length (buckets h) = bucketsz h" "length (chains h) = chainsz h"
    using hl by (simp_all add: hlinks_def)
  have b: "b < bucketsz h" using ihash_idx_less[OF hl] k(2) by auto
  have n: "n < chainsz h" "chain_head h = int n" "n \<notin> set fs" "\<And>b'. b' < bucketsz h \<Longrightarrow> n \<notin> set (ps b')"
    using l by (auto simp: linked_def)
  have bnd: "x < chainsz h" if "x \<in> set (ps b')" "b' < bucketsz h" for x b'
    using linked_path[OF l that(2)] that(1) by (blast dest: idx_path_bound)
  let ?h1 = "ihash_upd h (last_slot b (ps b)) (hnext_update (\<lambda>_. chain_head h))"
  let ?h2 = "?h1\<lparr>chain_head := hnx h n\<rparr>"
  let ?h3 = "ihash_upd ?h2 (Chain n) (\<lambda>n. n\<lparr>hkey := k, hnext := IDX_UNDEF\<rparr>)"
  have ne: "last (ps b) \<noteq> n" "last (ps b) < chainsz h" if "ps b \<noteq> []"
    using last_in_set[OF that] n(4)[OF b] bnd b by auto
  have upd: "ihash_link h k (last_slot b (ps b)) = Some (?h3, Some (Chain n))"
    using n ne len by (cases "ps b = []") (auto simp: ihash_link_def chain_ref_def hnx_def Let_def)
  have nodes: "hkey (ihash_node ?h3 l) = hkey (ihash_node h l) \<and>
      hval (ihash_node ?h3 l) = hval (ihash_node h l)" if "l \<noteq> Chain n" for l
    using that by (cases l; cases "ps b = []") (auto simp: nth_upd)
  have newn: "hkey (ihash_node ?h3 (Chain n)) = k"
      "hval (ihash_node ?h3 (Chain n)) = hval (ihash_node h (Chain n))"
    using n len by (cases "ps b = []"; simp add: nth_upd)+
  have keys: "hkey (buckets ?h3 ! b') = hkey (buckets h ! b')" for b'
    using nodes[of "Bucket b'"] by simp
  have nx: "hnx ?h3 c = (if ps b = [] then (hnx h)(n := IDX_UNDEF)
      else (hnx h)(last (ps b) := int n, n := IDX_UNDEF)) c" if "c < chainsz h" for c
    using n ne len that by (cases "ps b = []") (auto simp: hnx_def nth_upd)
  have bn: "hnext (buckets ?h3 ! b') = (if ps b = [] then (\<lambda>b. hnext (buckets h ! b))(b := int n)
      else (\<lambda>b. hnext (buckets h ! b))) b'" if "b' < bucketsz h" for b'
    using n len b that by (cases "ps b = []") (auto simp: nth_upd)
  have same: "bucketsz ?h3 = bucketsz h" "hash_fn ?h3 = hash_fn h" "chainsz ?h3 = chainsz h"
    "chain_head ?h3 = hnx h n"
    by (cases "ps b = []"; simp)+
  have "linked (bucketsz h) (chainsz h) (hnx ?h3) (hnx h n) (\<lambda>b. hnext (buckets ?h3 ! b))
       (\<lambda>b. hkey (buckets ?h3 ! b) = IHASH_UNDEF) (ps(b := ps b @ [n])) fs"
    by (rule linked_cong[OF linked_snoc[OF l b]]) (use e nx bn keys in auto)
  moreover have "length (buckets ?h3) = bucketsz h" "length (chains ?h3) = chainsz h"
    using len by (cases "ps b = []"; simp)+
  ultimately have l': "hlinks ?h3 (ps(b := ps b @ [n])) fs"
    using hl unfolding hlinks_def same by simp
  have other: "hkv ?h3 (hslots_of ?h3 ((ps(b := ps b @ [n])) b') b') = hkv h (hslots_of h (ps b') b')"
    if "b' < bucketsz h" "b' \<noteq> b" for b'
  proof -
    have "hslots_of ?h3 (ps b') b' = hslots_of h (ps b') b'" by (simp only: hslots_of_def keys)
    moreover have "hkv ?h3 (hslots_of h (ps b') b') = hkv h (hslots_of h (ps b') b')"
      by (rule hkv_cong, rule nodes) (use n(4)[OF that(1)] in \<open>auto simp: hslots_of_def split: if_splits\<close>)
    ultimately show ?thesis using that(2) by simp
  qed
  have mine: "hkv ?h3 (hslots_of ?h3 ((ps(b := ps b @ [n])) b) b) =
      hkv h (hslots_of h (ps b) b) @ [(k, hval (ihash_node h (Chain n)))]"
  proof -
    have "hslots_of ?h3 ((ps(b := ps b @ [n])) b) b = hslots_of h (ps b) b @ [Chain n]"
      using e by (simp only: hslots_of_def keys) simp
    moreover have "hkv ?h3 (hslots_of h (ps b) b) = hkv h (hslots_of h (ps b) b)"
      by (rule hkv_cong, rule nodes) (use n(4)[OF b] in \<open>auto simp: hslots_of_def split: if_splits\<close>)
    moreover have "hkv ?h3 [Chain n] = [(k, hval (ihash_node h (Chain n)))]"
      unfolding hkv_def using newn by simp
    ultimately show ?thesis by simp
  qed
  have ok: "kv_ok h b (hkv ?h3 (hslots_of ?h3 ((ps(b := ps b @ [n])) b) b))"
    using h b k new unfolding mine by (auto simp: hrep_def kv_ok_def)
  note ch = hrep_change[OF h l' same(1,2) other ok]
  have "ihash_map ?h3 = (ihash_map h)(k \<mapsto> hval (ihash_node h (Chain n)))"
  proof
    fix k' show "ihash_map ?h3 k' = ((ihash_map h)(k \<mapsto> hval (ihash_node h (Chain n)))) k'"
      using ch(2)[of k', unfolded mine map_of_snoc[OF new]] k(2) ihash_map_eq[OF hl, of k']
      by simp
  qed
  then show thesis using that[OF upd ch(1) newn _ same(1,2,3)] by blast
qed

text \<open>Erasing the only node of a bucket.\<close>

lemma erase_lone_bucket:
  assumes h: "hrep h ps fs" and b: "b < bucketsz h" "ps b = []"
    and k: "hkey (buckets h ! b) = k" "k \<noteq> IHASH_UNDEF"
    and h': "h' = ihash_upd h (Bucket b) (\<lambda>n. n\<lparr>hkey := IHASH_UNDEF, hnext := IDX_UNDEF\<rparr>)"
  shows "hrep h' ps fs" and "ihash_map h' = (ihash_map h)(k := None)"
proof -
  have hl: "hlinks h ps fs" using h by (simp add: hrep_def)
  have len: "b < length (buckets h)" using hl b by (simp add: hlinks_def)
  have idx: "ihash_idx h k = b" using h b k by (auto simp: hrep_def kv_ok_def hkv_def hslots_of_def)
  have l': "hlinks h' ps fs" unfolding h' by (rule hlinks_bucket[OF hl b])
  have same: "bucketsz h' = bucketsz h" "hash_fn h' = hash_fn h" by (simp_all add: h')
  have kv: "hkv h' (hslots_of h' (ps b) b) = []"
    using len by (simp add: h' hslots_of_def hkv_def)
  have other: "hkv h' (hslots_of h' (ps b') b') = hkv h (hslots_of h (ps b') b')" if "b' \<noteq> b" for b'
    using that by (auto simp: h' hslots_of_def hkv_def)
  have ok: "kv_ok h b (hkv h' (hslots_of h' (ps b) b))" by (simp add: kv kv_ok_def)
  note ch = hrep_change[OF h l' same other ok]
  show "hrep h' ps fs" by (rule ch)
  show "ihash_map h' = (ihash_map h)(k := None)"
  proof
    fix k' show "ihash_map h' k' = ((ihash_map h)(k := None)) k'"
      using ch(2)[of k', unfolded kv] k b idx ihash_map_eq[OF hl, of k']
      by (auto simp: hslots_of_def hkv_def)
  qed
qed

text \<open>Erasing a bucket whose chain is not empty: the first chain node moves into it.\<close>

lemma erase_bucket_chain:
  assumes h: "hrep h ps fs" and b: "b < bucketsz h" "ps b = c # cs"
    and k: "hkey (buckets h ! b) = k" "k \<noteq> IHASH_UNDEF"
  obtains h' where "ihash_erase_bucket h (Bucket b) = Some h'"
    "hrep h' (ps(b := cs)) (c # fs)" "ihash_map h' = (ihash_map h)(k := None)"
    "bucketsz h' = bucketsz h" "hash_fn h' = hash_fn h" "chainsz h' = chainsz h"
proof -
  have hl: "hlinks h ps fs" using h by (simp add: hrep_def)
  have l: "linked (bucketsz h) (chainsz h) (hnx h) (chain_head h) (\<lambda>b. hnext (buckets h ! b))
       (\<lambda>b. hkey (buckets h ! b) = IHASH_UNDEF) ps fs"
    and len: "length (buckets h) = bucketsz h" "length (chains h) = chainsz h"
    using hl by (simp_all add: hlinks_def)
  have c: "hnext (buckets h ! b) = int c" "c < chainsz h" "c \<notin> set cs"
    using linked_path[OF l b(1)] b(2) by auto
  have own: "c \<notin> set (ps b')" if "b' < bucketsz h" "b' \<noteq> b" for b'
    by (rule linked_disj[OF l b(1) that]) (simp add: b)
  let ?h' = "(ihash_upd (ihash_upd h (Bucket b) (\<lambda>_. ihash_node h (Chain c))) (Chain c)
    (\<lambda>n. n\<lparr>hkey := IHASH_UNDEF, hnext := chain_head h\<rparr>))\<lparr>chain_head := int c\<rparr>"
  have upd: "ihash_erase_bucket h (Bucket b) = Some ?h'"
    using c len by (simp add: ihash_erase_bucket_def chain_ref_def Let_def)
  have kv0: "hkv h (hslots_of h (ps b) b) =
      (k, hval (buckets h ! b)) # hkv h (map Chain (c # cs))"
    using k b by (simp add: hslots_of_def hkv_def)
  have ok0: "kv_ok h b ((k, hval (buckets h ! b)) # hkv h (map Chain (c # cs)))"
    using h b(1) unfolding kv0[symmetric] by (simp add: hrep_def)
  then have ckey: "hkey (chains h ! c) \<noteq> IHASH_UNDEF" by (simp add: kv_ok_def hkv_def)
  have same: "bucketsz ?h' = bucketsz h" "hash_fn ?h' = hash_fn h" "chainsz ?h' = chainsz h" by simp_all
  have nx: "hnx ?h' i = (if [] = ([]::nat list) then (hnx h)(c := chain_head h)
      else (hnx h)(last [] := hnx h c, c := chain_head h)) i" for i
    using c len by (auto simp: hnx_def nth_upd)
  have l': "hlinks ?h' (ps(b := cs)) (c # fs)"
  proof -
    have "linked (bucketsz h) (chainsz h) (hnx ?h') (int c) (\<lambda>b. hnext (buckets ?h' ! b))
       (\<lambda>b. hkey (buckets ?h' ! b) = IHASH_UNDEF) (ps(b := [] @ cs)) (c # fs)"
      by (rule linked_cong[OF linked_unlink[OF l b(1), of "[]"]])
        (use b len ckey k nx in \<open>auto simp: nth_upd hnx_def\<close>)
    then show ?thesis using hl by (simp add: hlinks_def)
  qed
  have other: "hkv ?h' (hslots_of ?h' ((ps(b := cs)) b') b') = hkv h (hslots_of h (ps b') b')"
    if "b' < bucketsz h" "b' \<noteq> b" for b'
    using that own[OF that] by (auto simp: hslots_of_def hkv_def nth_upd)
  have kv: "hkv ?h' (hslots_of ?h' ((ps(b := cs)) b) b) = hkv h (map Chain (c # cs))"
    using b len ckey c by (auto simp: hslots_of_def hkv_def nth_upd)
  have ok: "kv_ok h b (hkv ?h' (hslots_of ?h' ((ps(b := cs)) b) b))"
    unfolding kv using ok0 by (simp add: kv_ok_def)
  note ch = hrep_change[OF h l' same(1,2) other ok]
  have "ihash_map ?h' = (ihash_map h)(k := None)"
  proof
    fix k' show "ihash_map ?h' k' = ((ihash_map h)(k := None)) k'"
      using ch(2)[of k', unfolded kv] ihash_map_eq[OF hl, of k'] kv0 ok0
      by (auto simp: kv_ok_def map_of_eq_None_iff)
  qed
  then show thesis using that[OF upd ch(1) _ same] by blast
qed

lemma map_of_remove:
  "distinct (map fst (xs @ (k, v) # ys)) \<Longrightarrow>
   map_of (xs @ ys) = (map_of (xs @ (k, v) # ys))(k := None)"
proof (induction xs)
  case Nil
  then have "map_of ys k = None" by (simp add: map_of_eq_None_iff)
  then show ?case by auto
next
  case (Cons a xs)
  have "fst a \<noteq> k" using Cons.prems by auto
  then show ?case using Cons by (auto simp: fun_eq_iff)
qed

text \<open>Erasing a node of the chain.\<close>

lemma ihash_unlink_rep:
  assumes h: "hrep h ps fs" and b: "b < bucketsz h" "ps b = ys @ c # zs"
    and k: "hkey (chains h ! c) = k"
    and h': "h' = ihash_unlink h (last_slot b ys) (Chain c) (int c)"
  shows "hrep h' (ps(b := ys @ zs)) (c # fs)" "ihash_map h' = (ihash_map h)(k := None)"
    "bucketsz h' = bucketsz h" "hash_fn h' = hash_fn h" "chainsz h' = chainsz h"
proof -
  have hl: "hlinks h ps fs" using h by (simp add: hrep_def)
  have l: "linked (bucketsz h) (chainsz h) (hnx h) (chain_head h) (\<lambda>b. hnext (buckets h ! b))
       (\<lambda>b. hkey (buckets h ! b) = IHASH_UNDEF) ps fs"
    and len: "length (buckets h) = bucketsz h" "length (chains h) = chainsz h"
    using hl by (simp_all add: hlinks_def)
  have d: "distinct (ys @ c # zs)" and bnd: "\<And>x. x \<in> set (ys @ c # zs) \<Longrightarrow> x < chainsz h"
    using linked_path[OF l b(1)] b(2) by (auto dest: idx_path_bound)
  have lst: "last ys \<noteq> c \<and> last ys < chainsz h" if "ys \<noteq> []"
    using d bnd last_in_set[OF that] by auto
  have c: "c < chainsz h" using bnd by simp
  have own: "c \<notin> set (ps b')" if "b' < bucketsz h" "b' \<noteq> b" for b'
    by (rule linked_disj[OF l b(1) that]) (simp add: b)
  have e: "hkey (buckets h ! b) \<noteq> IHASH_UNDEF" using l b by (auto simp: linked_def)
  have nodes: "hkey (ihash_node h' l) = hkey (ihash_node h l) \<and>
      hval (ihash_node h' l) = hval (ihash_node h l)" if "l \<noteq> Chain c" for l
    using that unfolding h' ihash_unlink_def Let_def
    by (cases l; cases "ys = []") (auto simp: nth_upd)
  have keys: "hkey (buckets h' ! b') = hkey (buckets h ! b')" for b'
    using nodes[of "Bucket b'"] by simp
  have nx: "hnx h' i = (if ys = [] then (hnx h)(c := chain_head h)
      else (hnx h)(last ys := hnx h c, c := chain_head h)) i" for i
    using c len lst unfolding h' ihash_unlink_def Let_def
    by (cases "ys = []") (auto simp: hnx_def nth_upd)
  have bn: "hnext (buckets h' ! i) = (if ys = [] then (\<lambda>b. hnext (buckets h ! b))(b := hnx h c)
      else (\<lambda>b. hnext (buckets h ! b))) i" for i
    using len b(1) unfolding h' ihash_unlink_def Let_def
    by (cases "ys = []") (auto simp: hnx_def nth_upd)
  show same: "bucketsz h' = bucketsz h" "hash_fn h' = hash_fn h" "chainsz h' = chainsz h"
    unfolding h' ihash_unlink_def Let_def by (cases "ys = []"; simp)+
  have lens: "length (buckets h') = bucketsz h" "length (chains h') = chainsz h" "chain_head h' = int c"
    using len unfolding h' ihash_unlink_def Let_def by (cases "ys = []"; simp)+
  have "linked (bucketsz h) (chainsz h) (hnx h') (int c) (\<lambda>b. hnext (buckets h' ! b))
       (\<lambda>b. hkey (buckets h' ! b) = IHASH_UNDEF) (ps(b := ys @ zs)) (c # fs)"
    by (rule linked_cong[OF linked_unlink[OF l b]]) (use keys nx bn in auto)
  then have l': "hlinks h' (ps(b := ys @ zs)) (c # fs)"
    using hl lens same by (simp add: hlinks_def)
  have cong: "hkv h' ls = hkv h ls" if "Chain c \<notin> set ls" for ls
    by (rule hkv_cong, rule nodes) (use that in auto)
  have slots: "hslots_of h' xs b' = hslots_of h xs b'" for xs b' by (simp only: hslots_of_def keys)
  have other: "hkv h' (hslots_of h' ((ps(b := ys @ zs)) b') b') = hkv h (hslots_of h (ps b') b')"
    if "b' < bucketsz h" "b' \<noteq> b" for b'
  proof -
    have "Chain c \<notin> set (hslots_of h (ps b') b')"
      using own[OF that] by (auto simp: hslots_of_def)
    from cong[OF this] show ?thesis using that(2) by (simp add: slots)
  qed
  let ?xs = "hkv h (Bucket b # map Chain ys)" and ?ys = "hkv h (map Chain zs)"
  have kv0: "hkv h (hslots_of h (ps b) b) = ?xs @ (k, hval (chains h ! c)) # ?ys"
    using e b k by (simp add: hslots_of_def hkv_def)
  have ok0: "kv_ok h b (?xs @ (k, hval (chains h ! c)) # ?ys)"
    using h b(1) unfolding kv0[symmetric] by (simp add: hrep_def)
  have kv: "hkv h' (hslots_of h' ((ps(b := ys @ zs)) b) b) = ?xs @ ?ys"
  proof -
    have "hslots_of h' ((ps(b := ys @ zs)) b) b = (Bucket b # map Chain ys) @ map Chain zs"
      unfolding slots using e by (simp add: hslots_of_def)
    moreover have "hkv h' (Bucket b # map Chain ys) = ?xs" by (rule cong) (use d in auto)
    moreover have "hkv h' (map Chain zs) = ?ys" by (rule cong) (use d in auto)
    ultimately show ?thesis by (simp only: hkv_append)
  qed
  have ok: "kv_ok h b (hkv h' (hslots_of h' ((ps(b := ys @ zs)) b) b))"
    unfolding kv using ok0 by (simp add: kv_ok_def)
  note ch = hrep_change[OF h l' same(1,2) other ok]
  show "hrep h' (ps(b := ys @ zs)) (c # fs)" by (rule ch)
  have m: "map_of (?xs @ ?ys) = (map_of (hkv h (hslots_of h (ps b) b)))(k := None)"
    unfolding kv0 by (rule map_of_remove) (use ok0 in \<open>simp only: kv_ok_def\<close>)
  have "ihash_idx h k = b" using ok0 by (simp add: kv_ok_def)
  then show "ihash_map h' = (ihash_map h)(k := None)"
    using ch(2)[unfolded kv m] by (auto simp: fun_eq_iff ihash_map_eq[OF hl])
qed

section \<open>The operations refine the map\<close>

lemma touch_keys_new:
  assumes "hrep h ps fs" "ihash_map h k = None"
  shows "k \<notin> set (map fst (hkv h (hslots_of h (ps (ihash_idx h k)) (ihash_idx h k))))"
proof -
  have "hlinks h ps fs" using assms by (simp add: hrep_def)
  then show ?thesis using assms(2) by (simp add: ihash_map_eq map_of_eq_None_iff)
qed

text \<open>Touching a key that is present changes nothing and finds its node.\<close>

lemma ihash_touch_present:
  assumes inv: "ihash_inv h" and k: "ihash_map h k = Some v"
  obtains l where "ihash_touch_fn h k = Some (h, Some l)" "hkey (ihash_node h l) = k"
    "hval (ihash_node h l) = v" "l \<in> set (hslots h (ihash_idx h k))"
proof -
  obtain ps fs where h: "hlinks h ps fs" using inv by (auto simp: ihash_inv_def hrep_def)
  let ?b = "ihash_idx h k"
  have b: "?b < bucketsz h" by (rule ihash_idx_less[OF h])
  have path: "idx_path (hnx h) (length (chains h)) (hnext (ihash_node h (Bucket ?b))) (ps ?b) IDX_UNDEF"
    using h b by (simp add: hlinks_def linked_def)
  have m: "map_of (hkv h (hslots_of h (ps ?b) ?b)) k = Some v" using k ihash_map_eq[OF h] by simp
  then have e: "hkey (buckets h ! ?b) \<noteq> IHASH_UNDEF" by (auto simp: hslots_of_def hkv_def)
  then have sl: "hslots_of h (ps ?b) ?b = Bucket ?b # map Chain (ps ?b)" by (simp add: hslots_of_def)
  obtain l where l: "List.find (\<lambda>l. hkey (ihash_node h l) = k) (Bucket ?b # map Chain (ps ?b)) = Some l"
    "hval (ihash_node h l) = v"
    using m unfolding hkv_find sl by (auto simp: map_option_eq_Some)
  have "ihash_touch_fn h k = Some (h, Some l)"
    using ihash_touch_path[OF path, of k] e l(1) by (simp add: ihash_touch_fn_def)
  then show thesis
    using that[OF _ _ l(2)] find_SomeD[OF l(1)] by (simp add: hslots_eq[OF h b] sl)
qed

text \<open>Touching an absent key adds it, unless its chain is started and the pool is empty.\<close>

lemma ihash_touch_absent:
  assumes inv: "ihash_inv h" and k: "ihash_map h k = None" "k \<noteq> IHASH_UNDEF"
  obtains (added) h' l where "ihash_touch_fn h k = Some (h', Some l)" "ihash_inv h'"
      "hkey (ihash_node h' l) = k"
      "ihash_map h' = (ihash_map h)(k \<mapsto> hval (ihash_node h' l))"
      "bucketsz h' = bucketsz h" "hash_fn h' = hash_fn h" "chainsz h' = chainsz h"
      "l \<in> set (hslots h' (ihash_idx h' k))"
  | (full) "ihash_touch_fn h k = Some (h, None)" "chain_head h = IDX_UNDEF"
      "hkey (buckets h ! ihash_idx h k) \<noteq> IHASH_UNDEF"
proof -
  obtain ps fs where h: "hrep h ps fs" using inv by (auto simp: ihash_inv_def)
  then have hl: "hlinks h ps fs" by (simp add: hrep_def)
  let ?b = "ihash_idx h k"
  have b: "?b < bucketsz h" by (rule ihash_idx_less[OF hl])
  have new: "k \<notin> set (map fst (hkv h (hslots_of h (ps ?b) ?b)))" by (rule touch_keys_new[OF h k(1)])
  show thesis
  proof (cases "hkey (buckets h ! ?b) = IHASH_UNDEF")
    case True
    let ?h' = "ihash_upd h (Bucket ?b) (\<lambda>n. n\<lparr>hkey := k, hnext := IDX_UNDEF\<rparr>)"
    have "?b < length (buckets h)" using hl b by (simp add: hlinks_def)
    then have "hkey (ihash_node ?h' (Bucket ?b)) = k" by simp
    moreover have "ihash_touch_fn h k = Some (?h', Some (Bucket ?b))"
      using True by (simp add: ihash_touch_fn_def)
    moreover note te = touch_empty_bucket[OF h k(2) refl True refl]
    have "ihash_inv ?h'" using te(1) unfolding ihash_inv_def by blast
    moreover have "Bucket ?b \<in> set (hslots ?h' (ihash_idx ?h' k))"
      using \<open>?b < length (buckets h)\<close> k(2)
      by (simp add: hslots_def hslots_of_def ihash_idx_def[of "h\<lparr>buckets := _\<rparr>"])
        (simp add: ihash_idx_def)
    ultimately show thesis using te(2) by (intro added[of ?h' "Bucket ?b"]) simp_all
  next
    case False
    then have sl: "hslots_of h (ps ?b) ?b = Bucket ?b # map Chain (ps ?b)" by (simp add: hslots_of_def)
    have path: "idx_path (hnx h) (length (chains h)) (hnext (ihash_node h (Bucket ?b))) (ps ?b) IDX_UNDEF"
      using hl b by (simp add: hlinks_def linked_def)
    have "List.find (\<lambda>l. hkey (ihash_node h l) = k) (Bucket ?b # map Chain (ps ?b)) = None"
      using new unfolding sl by (auto simp: find_None_iff hkv_def image_iff)
    then have t: "ihash_touch_fn h k = ihash_link h k (last_slot ?b (ps ?b))"
      using ihash_touch_path[OF path, of k] False
      by (simp only: ihash_touch_fn_def Let_def last_slot_def) simp
    show thesis
    proof (cases fs)
      case Nil
      then have "chain_head h = IDX_UNDEF" using hl by (simp add: hlinks_def linked_def)
      then show thesis using full t False by (simp add: ihash_link_full)
    next
      case (Cons n fs')
      obtain h' where "ihash_link h k (last_slot ?b (ps ?b)) = Some (h', Some (Chain n))"
        "hrep h' (ps(?b := ps ?b @ [n])) fs'"
        "hkey (ihash_node h' (Chain n)) = k" "hval (ihash_node h' (Chain n)) = hval (ihash_node h (Chain n))"
        "ihash_map h' = (ihash_map h)(k \<mapsto> hval (ihash_node h (Chain n)))"
        "bucketsz h' = bucketsz h" "hash_fn h' = hash_fn h" "chainsz h' = chainsz h"
        by (rule ihash_link_rep[OF h[unfolded Cons] k(2) refl False new])
      note h' = this
      have l': "hlinks h' (ps(?b := ps ?b @ [n])) fs'" using h'(2) by (simp add: hrep_def)
      have idx: "ihash_idx h' k = ?b" using h'(6,7) by (simp add: ihash_idx_def)
      have b': "?b < bucketsz h'" using b h'(6) by simp
      have "hslots h' ?b = hslots_of h' (ps ?b @ [n]) ?b" using hslots_eq[OF l' b'] by simp
      moreover have "hkey (buckets h' ! ?b) \<noteq> IHASH_UNDEF"
        using l' b' by (auto simp: hlinks_def linked_def)
      ultimately have "Chain n \<in> set (hslots h' (ihash_idx h' k))" by (simp add: idx hslots_of_def)
      then show thesis using t h' by (intro added[of h' "Chain n"]) (auto simp: ihash_inv_def)
    qed
  qed
qed

text \<open>Assigning the value member of a node that is in the table.\<close>

lemma ihash_set_value:
  assumes inv: "ihash_inv h" and l: "l \<in> set (hslots h (ihash_idx h k))" "hkey (ihash_node h l) = k"
    and h': "h' = ihash_upd h l (hval_update (\<lambda>_. v))"
  shows "ihash_inv h'" "ihash_map h' = (ihash_map h)(k \<mapsto> v)"
proof -
  obtain ps fs where h: "hrep h ps fs" using inv by (auto simp: ihash_inv_def)
  then have hl: "hlinks h ps fs" by (simp add: hrep_def)
  let ?b = "ihash_idx h k"
  have b: "?b < bucketsz h" by (rule ihash_idx_less[OF hl])
  have same: "bucketsz h' = bucketsz h" "hash_fn h' = hash_fn h" "chainsz h' = chainsz h"
    "length (chains h') = length (chains h)" "length (buckets h') = length (buckets h)"
    "chain_head h' = chain_head h"
    unfolding h' by (cases l; simp)+
  have nodes: "hkey (ihash_node h' m) = hkey (ihash_node h m) \<and>
      hnext (ihash_node h' m) = hnext (ihash_node h m)" for m
    unfolding h' by (cases l; cases m) (auto simp: nth_upd)
  have keys: "hkey (buckets h' ! i) = hkey (buckets h ! i)"
    and nexts: "hnext (buckets h' ! i) = hnext (buckets h ! i)" for i
    using nodes[of "Bucket i"] by simp_all
  have nx: "hnx h' = hnx h" using nodes[of "Chain _"] by (auto simp: hnx_def fun_eq_iff)
  have l': "hlinks h' ps fs" using hl by (simp only: hlinks_def same keys nexts nx)
  have sl: "hslots h i = hslots h' i" for i by (simp add: hslots_def hslots_of_def keys nexts nx same)
  have other: "hkv h' (hslots_of h' (ps i) i) = hkv h (hslots_of h (ps i) i)"
    if i: "i < bucketsz h" "i \<noteq> ?b" for i
  proof -
    have "hkey (ihash_node h m) \<noteq> k" if "m \<in> set (hslots_of h (ps i) i)" for m
      using h i that unfolding hrep_def kv_ok_def hkv_def by (auto simp: image_iff)
    then have "l \<notin> set (hslots_of h (ps i) i)" using l(2) by blast
    then have "ihash_node h' m = ihash_node h m" if "m \<in> set (hslots_of h (ps i) i)" for m
      using that unfolding h' by (cases l; cases m) (auto simp: nth_upd)
    then have "hkv h' (hslots_of h (ps i) i) = hkv h (hslots_of h (ps i) i)"
      by (intro hkv_cong) simp
    then show ?thesis by (simp only: hslots_of_def keys)
  qed
  have slb: "hslots_of h (ps ?b) ?b = hslots h ?b" "hslots_of h' (ps ?b) ?b = hslots h ?b"
    using hslots_eq[OF hl b] hslots_eq[OF l', of ?b] b same sl by simp_all
  have kvk: "map fst (hkv h' ls) = map fst (hkv h ls)" for ls by (simp add: hkv_def nodes)
  have ok0: "kv_ok h ?b (hkv h (hslots h ?b))" using h b by (simp add: hrep_def slb(1)[symmetric])
  have ok: "kv_ok h ?b (hkv h' (hslots_of h' (ps ?b) ?b))"
    using ok0 unfolding slb kv_ok_def kvk .
  note ch = hrep_change[OF h l' same(1,2) other ok]
  show "ihash_inv h'" using ch(1) by (auto simp: ihash_inv_def)
  have lin: "hval (ihash_node h' l) = v"
    using l(1) b hlinks_bound[OF hl b] hl unfolding h' hslots_eq[OF hl b]
    by (cases l) (auto simp: hslots_of_def hlinks_def split: if_splits)
  have "map_of (hkv h' (hslots h ?b)) = (map_of (hkv h (hslots h ?b)))(k \<mapsto> v)"
  proof -
    obtain xs ys where xy: "hslots h ?b = xs @ l # ys" using l(1) by (auto simp: in_set_conv_decomp)
    have "distinct (map (\<lambda>m. hkey (ihash_node h m)) (xs @ l # ys))"
      using ok0 unfolding xy kv_ok_def hkv_def by (simp add: comp_def)
    then have "hkey (ihash_node h l) \<notin> (\<lambda>m. hkey (ihash_node h m)) ` set (xs @ ys)" by auto
    then have nk: "hkey (ihash_node h m) \<noteq> k" if "m \<in> set (xs @ ys)" for m
      using that unfolding l(2) by blast
    have vals: "ihash_node h' m = ihash_node h m" if "m \<in> set (xs @ ys)" for m
      using nk[OF that] l(2) unfolding h' by (cases l; cases m) (auto simp: nth_upd)
    have "hkv h' xs = hkv h xs" by (rule hkv_cong) (simp add: vals)
    moreover have "hkv h' ys = hkv h ys" by (rule hkv_cong) (simp add: vals)
    moreover have "hkv h' [l] = [(k, v)]" using l(2) nodes lin by (simp add: hkv_def)
    moreover have "hkv h' (xs @ l # ys) = hkv h' xs @ hkv h' [l] @ hkv h' ys"
      "hkv h (xs @ l # ys) = hkv h xs @ hkv h [l] @ hkv h ys" by (simp_all add: hkv_def)
    moreover have "map_of (hkv h xs) k = None"
    proof -
      have "\<forall>m \<in> set xs. hkey (ihash_node h m) \<noteq> k" using nk by simp
      then show ?thesis by (auto simp: map_of_eq_None_iff hkv_def)
    qed
    moreover have "hkv h [l] = [(k, hval (ihash_node h l))]" using l(2) by (simp add: hkv_def)
    ultimately show ?thesis unfolding xy by (simp only: map_of_replace)
  qed
  then show "ihash_map h' = (ihash_map h)(k \<mapsto> v)"
    using ch(2)[unfolded slb] hslots_eq[OF hl b] by (auto simp: fun_eq_iff ihash_map_def)
qed

text \<open>Put either stores the value or leaves the table alone, reporting a full pool.\<close>

lemma ihash_put_cases:
  assumes inv: "ihash_inv h" and k: "k \<noteq> IHASH_UNDEF"
  obtains (stored) h' l where "ihash_put h k v = Some (h', Some l)" "ihash_inv h'"
      "ihash_map h' = (ihash_map h)(k \<mapsto> v)"
      "bucketsz h' = bucketsz h" "hash_fn h' = hash_fn h" "chainsz h' = chainsz h"
  | (full) "ihash_put h k v = Some (h, None)" "ihash_map h k = None" "chain_head h = IDX_UNDEF"
      "hkey (buckets h ! ihash_idx h k) \<noteq> IHASH_UNDEF"
proof (cases "ihash_map h k")
  case (Some w)
  obtain l where t: "ihash_touch_fn h k = Some (h, Some l)" "hkey (ihash_node h l) = k"
    "l \<in> set (hslots h (ihash_idx h k))"
    by (rule ihash_touch_present[OF inv Some])
  let ?h' = "ihash_upd h l (hval_update (\<lambda>_. v))"
  have "bucketsz ?h' = bucketsz h" "hash_fn ?h' = hash_fn h" "chainsz ?h' = chainsz h"
    by (cases l; simp)+
  then show thesis
    using ihash_set_value[OF inv t(3,2) refl] t(1) by (intro stored[of ?h' l]) (simp_all add: ihash_put_def)
next
  case None
  show thesis
  proof (rule ihash_touch_absent[OF inv None k])
    fix h1 l
    assume t: "ihash_touch_fn h k = Some (h1, Some l)" and inv1: "ihash_inv h1"
      and key: "hkey (ihash_node h1 l) = k"
      and m: "ihash_map h1 = (ihash_map h)(k \<mapsto> hval (ihash_node h1 l))"
      and same: "bucketsz h1 = bucketsz h" "hash_fn h1 = hash_fn h" "chainsz h1 = chainsz h"
      and l: "l \<in> set (hslots h1 (ihash_idx h1 k))"
    let ?h' = "ihash_upd h1 l (hval_update (\<lambda>_. v))"
    have "bucketsz ?h' = bucketsz h" "hash_fn ?h' = hash_fn h" "chainsz ?h' = chainsz h"
      using same by (cases l; simp)+
    then show thesis
      using ihash_set_value[OF inv1 l key refl] t m
      by (intro stored[of ?h' l]) (simp_all add: ihash_put_def)
  qed (use None full in \<open>simp add: ihash_put_def\<close>)
qed

lemma ihash_erase_path:
  assumes "idx_path (hnx h) (length (chains h)) cur xs IDX_UNDEF"
  shows "\<forall>x \<in> set xs. hkey (chains h ! x) \<noteq> key \<Longrightarrow> ihash_erase_loop h key prev cur = Some (h, False)"
    and "xs = ys @ c # zs \<Longrightarrow> \<forall>x \<in> set ys. hkey (chains h ! x) \<noteq> key \<Longrightarrow> hkey (chains h ! c) = key \<Longrightarrow>
      ihash_erase_loop h key prev cur =
        Some (ihash_unlink h (last (prev # map Chain ys)) (Chain c) (int c), True)"
  using assms
proof (induction xs arbitrary: cur prev ys)
  case Nil
  { case 1 then show ?case by (subst ihash_erase_loop.simps) simp }
  { case 2 then show ?case by simp }
next
  case (Cons x xs)
  { case 1 then show ?case using Cons.IH(1)[of "hnx h x" "Chain x"]
      by (subst ihash_erase_loop.simps) (auto simp: chain_ref_def hnx_def)
  next
    case 2
    show ?case
    proof (cases ys)
      case Nil
      then show ?thesis using 2 by (subst ihash_erase_loop.simps) (simp add: chain_ref_def)
    next
      case (Cons y ys')
      then have "ihash_erase_loop h key (Chain x) (hnx h x) =
        Some (ihash_unlink h (last (Chain x # map Chain ys')) (Chain c) (int c), True)"
        using 2 by (intro Cons.IH(2)) auto
      then show ?thesis using 2 Cons
        by (subst ihash_erase_loop.simps) (auto simp: chain_ref_def hnx_def)
    qed
  }
qed

lemma ihash_erase_ok:
  assumes inv: "ihash_inv h"
  obtains (erased) h' where "ihash_erase_fn h k = Some (h', ihash_map h k \<noteq> None)" "ihash_inv h'"
    "ihash_map h' = (ihash_map h)(k := None)"
    "bucketsz h' = bucketsz h" "hash_fn h' = hash_fn h" "chainsz h' = chainsz h"
proof -
  obtain ps fs where h: "hrep h ps fs" using inv by (auto simp: ihash_inv_def)
  then have hl: "hlinks h ps fs" by (simp add: hrep_def)
  let ?b = "ihash_idx h k"
  let ?kv = "hkv h (hslots_of h (ps ?b) ?b)"
  have b: "?b < bucketsz h" by (rule ihash_idx_less[OF hl])
  have m: "ihash_map h k = map_of ?kv k" by (rule ihash_map_eq[OF hl])
  have path: "idx_path (hnx h) (length (chains h)) (hnext (ihash_node h (Bucket ?b))) (ps ?b) IDX_UNDEF"
    using hl b by (simp add: hlinks_def linked_def)
  have absent: thesis if "ihash_erase_fn h k = Some (h, False)" "ihash_map h k = None"
    using that inv by (intro erased[of h]) auto
  show thesis
  proof (cases "hkey (buckets h ! ?b) = IHASH_UNDEF")
    case True
    then show thesis using absent m by (simp add: ihash_erase_fn_def hslots_of_def hkv_def)
  next
    case False
    then have sl: "hslots_of h (ps ?b) ?b = Bucket ?b # map Chain (ps ?b)" by (simp add: hslots_of_def)
    show thesis
    proof (cases "hkey (buckets h ! ?b) = k")
      case True
      with False have k: "k \<noteq> IHASH_UNDEF" by simp
      have some: "ihash_map h k \<noteq> None" unfolding m sl using True by (simp add: hkv_def)
      show thesis
      proof (cases "ps ?b")
        case Nil
        then have nx: "hnext (buckets h ! ?b) = IDX_UNDEF" using path by simp
        let ?h' = "ihash_upd h (Bucket ?b) (\<lambda>n. n\<lparr>hkey := IHASH_UNDEF, hnext := IDX_UNDEF\<rparr>)"
        have "ihash_erase_fn h k = Some (?h', True)"
          using nx True False by (simp add: ihash_erase_fn_def ihash_erase_bucket_def Let_def)
        moreover note el = erase_lone_bucket[OF h b Nil True k refl]
        have "ihash_inv ?h'" using el(1) unfolding ihash_inv_def by blast
        ultimately show thesis using el(2) some by (intro erased[of ?h']) simp_all
      next
        case (Cons c cs)
        obtain h' where "ihash_erase_bucket h (Bucket ?b) = Some h'"
          "hrep h' (ps(?b := cs)) (c # fs)" "ihash_map h' = (ihash_map h)(k := None)"
          "bucketsz h' = bucketsz h" "hash_fn h' = hash_fn h" "chainsz h' = chainsz h"
          by (rule erase_bucket_chain[OF h b Cons True k])
        then show thesis using True False some
          by (intro erased[of h']) (auto simp: ihash_erase_fn_def ihash_inv_def)
      qed
    next
      case ne: False
      have e: "ihash_erase_fn h k = ihash_erase_loop h k (Bucket ?b) (hnext (ihash_node h (Bucket ?b)))"
        using ne False by (auto simp: ihash_erase_fn_def Let_def)
      show thesis
      proof (cases "\<forall>x \<in> set (ps ?b). hkey (chains h ! x) \<noteq> k")
        case True
        have "ihash_map h k = None" unfolding m sl using True ne
          by (auto simp: hkv_def map_of_eq_None_iff)
        then show thesis using absent e ihash_erase_path(1)[OF path True] by simp
      next
        case some: False
        then have "\<exists>x \<in> set (ps ?b). hkey (chains h ! x) = k" by auto
        from split_list_first_prop[OF this] obtain ys c zs where yc: "ps ?b = ys @ c # zs" "hkey (chains h ! c) = k"
          "\<forall>x \<in> set ys. hkey (chains h ! x) \<noteq> k"
          by blast
        have "k \<in> fst ` set (hkv h (Bucket ?b # map Chain (ps ?b)))"
          unfolding yc(1) using yc(2) by (simp add: hkv_def)
        then have "ihash_map h k \<noteq> None" unfolding m sl map_of_eq_None_iff by blast
        moreover note ul = ihash_unlink_rep[OF h b yc(1,2) refl]
        have "ihash_inv (ihash_unlink h (last_slot ?b ys) (Chain c) (int c))"
          using ul(1) unfolding ihash_inv_def by blast
        ultimately show thesis
          using e ihash_erase_path(2)[OF path yc(1,3,2), of "Bucket ?b"] ul(2-)
          by (intro erased[of "ihash_unlink h (last_slot ?b ys) (Chain c) (int c)"])
            (simp_all add: last_slot_def del: last.simps list.map)
      qed
    qed
  qed
qed

section \<open>Iteration, capacity, initialisation\<close>

text \<open>The keys in the order the iterator meets them.\<close>

definition ihash_slots :: "'v ihash \<Rightarrow> hloc list" where
  "ihash_slots h = concat (map (hslots h) [0..<bucketsz h])"

definition ihash_keys :: "'v ihash \<Rightarrow> i64 list" where
  "ihash_keys h = map (\<lambda>l. hkey (ihash_node h l)) (ihash_slots h)"

lemma ihash_keys_dom:
  assumes "ihash_inv h"
  shows "distinct (ihash_keys h)" and "set (ihash_keys h) = dom (ihash_map h)"
proof -
  obtain ps fs where h: "hrep h ps fs" using assms by (auto simp: ihash_inv_def)
  then have hl: "hlinks h ps fs" by (simp add: hrep_def)
  define ks where "ks b = map fst (hkv h (hslots h b))" for b
  have kv: "distinct (ks b)" "\<And>k. k \<in> set (ks b) \<Longrightarrow> ihash_idx h k = b" if "b < bucketsz h" for b
    using h that hslots_eq[OF hl that] by (auto simp: hrep_def kv_ok_def ks_def)
  have keys: "ihash_keys h = concat (map ks [0..<bucketsz h])"
  proof -
    have ks: "map (\<lambda>l. hkey (ihash_node h l)) (hslots h b) = ks b" for b by (simp add: ks_def hkv_def)
    show ?thesis by (simp add: ihash_keys_def ihash_slots_def map_concat ks comp_def)
  qed
  have "distinct (concat (map ks [0..<n]))" if "n \<le> bucketsz h" for n
    using that
  proof (induction n)
    case (Suc n)
    have "set (ks b) \<inter> set (ks n) = {}" if "b < n" for b
      using kv(2)[of b] kv(2)[of n] that Suc.prems by force
    then have "set (concat (map ks [0..<n])) \<inter> set (ks n) = {}" by fastforce
    then show ?case using Suc kv(1)[of n] by simp
  qed simp
  then show "distinct (ihash_keys h)" by (simp add: keys)
  have dom: "k \<in> dom (ihash_map h) \<longleftrightarrow> k \<in> set (ks (ihash_idx h k))" for k
    by (simp add: ihash_map_def ks_def dom_def map_of_eq_None_iff flip: not_None_eq)
  show "set (ihash_keys h) = dom (ihash_map h)"
  proof (rule set_eqI)
    fix k
    have "k \<in> set (ihash_keys h) \<longleftrightarrow> (\<exists>b < bucketsz h. k \<in> set (ks b))" by (auto simp: keys)
    also have "\<dots> \<longleftrightarrow> k \<in> set (ks (ihash_idx h k))"
      using kv(2) ihash_idx_less[OF hl, of k] by blast
    finally show "k \<in> set (ihash_keys h) \<longleftrightarrow> k \<in> dom (ihash_map h)" by (simp only: dom)
  qed
qed

text \<open>When put reports a full pool, at least one more key than the pool has slots is stored.\<close>

lemma ihash_full_card:
  assumes inv: "ihash_inv h" and full: "chain_head h = IDX_UNDEF"
    and b: "b < bucketsz h" "hkey (buckets h ! b) \<noteq> IHASH_UNDEF"
  shows "chainsz h < card (dom (ihash_map h))"
proof -
  obtain ps fs where h: "hrep h ps fs" using inv by (auto simp: ihash_inv_def)
  then have hl: "hlinks h ps fs" by (simp add: hrep_def)
  then have "idx_path (hnx h) (chainsz h) (chain_head h) fs IDX_UNDEF"
    and cov: "{..<chainsz h} = (\<Union>b < bucketsz h. set (ps b)) \<union> set fs"
    and emp: "\<forall>b < bucketsz h. hkey (buckets h ! b) = IHASH_UNDEF \<longrightarrow> ps b = []"
    by (auto simp: hlinks_def linked_def)
  then have "fs = []" using full by simp
  have "Chain ` {..<chainsz h} \<union> {Bucket b} \<subseteq> set (ihash_slots h)"
  proof -
    have "Chain c \<in> set (ihash_slots h)" if c: "c < chainsz h" for c
    proof -
      have "c \<in> (\<Union>b < bucketsz h. set (ps b))" using c cov \<open>fs = []\<close> by auto
      then obtain b where "b < bucketsz h" "c \<in> set (ps b)" by auto
      then have "Chain c \<in> set (hslots h b)"
        using emp hslots_eq[OF hl \<open>b < bucketsz h\<close>] by (auto simp: hslots_of_def)
      then show ?thesis using \<open>b < bucketsz h\<close> by (auto simp: ihash_slots_def)
    qed
    moreover have "Bucket b \<in> set (hslots h b)"
      using b hslots_eq[OF hl b(1)] by (auto simp: hslots_of_def)
    then have "Bucket b \<in> set (ihash_slots h)" using b(1) by (auto simp: ihash_slots_def)
    ultimately show ?thesis by auto
  qed
  then have "card (Chain ` {..<chainsz h} \<union> {Bucket b}) \<le> card (set (ihash_slots h))"
    by (intro card_mono) auto
  moreover have "card (Chain ` {..<chainsz h} \<union> {Bucket b}) = Suc (chainsz h)"
    by (subst card_Un_disjoint) (auto simp: card_image inj_on_def)
  moreover have "card (set (ihash_slots h)) \<le> length (ihash_slots h)" by (rule card_length)
  moreover have "length (ihash_slots h) = card (dom (ihash_map h))"
    using ihash_keys_dom[OF inv] distinct_card[of "ihash_keys h"] by (simp add: ihash_keys_def)
  ultimately show ?thesis by simp
qed

lemma ihash_card: 
  assumes "ihash_inv h"
  shows "card (dom (ihash_map h)) \<le> bucketsz h + chainsz h"
proof -
  obtain ps fs where hl: "hlinks h ps fs" using assms by (auto simp: ihash_inv_def hrep_def)
  have "set (ihash_slots h) \<subseteq> Bucket ` {..<bucketsz h} \<union> Chain ` {..<chainsz h}"
  proof
    fix l assume "l \<in> set (ihash_slots h)"
    then obtain b where b: "b < bucketsz h" "l \<in> set (hslots_of h (ps b) b)"
      using hslots_eq[OF hl] by (auto simp: ihash_slots_def)
    then show "l \<in> Bucket ` {..<bucketsz h} \<union> Chain ` {..<chainsz h}"
      using hlinks_bound[OF hl b(1)] hl by (auto simp: hslots_of_def hlinks_def split: if_splits)
  qed
  moreover have "card (Bucket ` {..<bucketsz h} \<union> Chain ` {..<chainsz h}) \<le> bucketsz h + chainsz h"
    by (rule order_trans[OF card_Un_le]) (simp add: card_image inj_on_def)
  ultimately have "card (set (ihash_slots h)) \<le> bucketsz h + chainsz h"
    using card_mono[of "Bucket ` {..<bucketsz h} \<union> Chain ` {..<chainsz h}" "set (ihash_slots h)"] by simp
  moreover have "dom (ihash_map h) = (\<lambda>l. hkey (ihash_node h l)) ` set (ihash_slots h)"
    using ihash_keys_dom(2)[OF assms] by (simp add: ihash_keys_def)
  ultimately show ?thesis using card_image_le[of "set (ihash_slots h)"] by (metis List.finite_set order_trans)
qed

lemma ihash_map_UNDEF:
  assumes "ihash_inv h"
  shows "ihash_map h IHASH_UNDEF = None"
proof -
  obtain ps fs where h: "hrep h ps fs" using assms by (auto simp: ihash_inv_def)
  then have hl: "hlinks h ps fs" by (simp add: hrep_def)
  let ?b = "ihash_idx h IHASH_UNDEF"
  have "kv_ok h ?b (hkv h (hslots_of h (ps ?b) ?b))"
    using h ihash_idx_less[OF hl, of IHASH_UNDEF] by (simp add: hrep_def)
  then have "IHASH_UNDEF \<notin> set (map fst (hkv h (hslots_of h (ps ?b) ?b)))"
    unfolding kv_ok_def by blast
  then show ?thesis by (simp add: ihash_map_eq[OF hl] map_of_eq_None_iff)
qed

lemma ihash_upd_const: "ihash_upd h e (hval_update f) = ihash_upd h e (hval_update (\<lambda>_. f (hval (ihash_node h e))))"
proof -
  have upd: "hval_update f n = hval_update (\<lambda>_. f (hval n)) n" for n by (cases n) simp
  show ?thesis
  proof (cases e)
    case (Bucket b)
    show ?thesis unfolding Bucket ihash_upd.simps ihash_node.simps by (subst upd) (rule refl)
  next
    case (Chain c)
    show ?thesis unfolding Chain ihash_upd.simps ihash_node.simps by (subst upd) (rule refl)
  qed
qed

lemma ihash_exists_map:
  assumes "ihash_inv h"
  shows "ihash_exists h k = Some (ihash_map h k \<noteq> None)"
proof (rule ihash_get_map[OF assms, of k])
  fix r assume "ihash_get_fn h k = Some r" and m: "map_option (\<lambda>l. hval (ihash_node h l)) r = ihash_map h k"
  then show ?thesis unfolding m[symmetric] by (simp add: ihash_exists_def)
qed

lemma next_occupied:
  "idx \<le> bucketsz h \<Longrightarrow> idx \<le> ihash_next_occupied_bucket h idx \<and>
     ihash_next_occupied_bucket h idx \<le> bucketsz h \<and>
     (\<forall>b. idx \<le> b \<longrightarrow> b < ihash_next_occupied_bucket h idx \<longrightarrow> hslots h b = []) \<and>
     (ihash_next_occupied_bucket h idx < bucketsz h \<longrightarrow>
        hkey (buckets h ! ihash_next_occupied_bucket h idx) \<noteq> IHASH_UNDEF)"
proof (induction h idx rule: ihash_next_occupied_bucket.induct)
  case (1 h idx)
  show ?case
  proof (cases "idx < bucketsz h \<and> hkey (buckets h ! idx) = IHASH_UNDEF")
    case True
    have "hslots h idx = []" using True by (simp add: hslots_def hslots_of_def)
    moreover have "hslots h b = []" if "idx \<le> b" "b < ihash_next_occupied_bucket h (idx + 1)" for b
      using 1(1) True that calculation by (cases "b = idx") auto
    ultimately show ?thesis using 1(1) True by (subst (1 2 3 4 5) ihash_next_occupied_bucket.simps) auto
  next
    case False
    then have "ihash_next_occupied_bucket h idx = idx"
      by (subst ihash_next_occupied_bucket.simps) auto
    then show ?thesis using False 1(2) by auto
  qed
qed

lemma concat_upt_skip:
  "i \<le> j \<Longrightarrow> j \<le> n \<Longrightarrow> \<forall>b. i \<le> b \<longrightarrow> b < j \<longrightarrow> f b = [] \<Longrightarrow>
   concat (map f [i..<n]) = concat (map f [j..<n])"
proof (induction "j - i" arbitrary: i)
  case (Suc d)
  then have "[i..<n] = i # [Suc i..<n]" by (simp add: upt_conv_Cons)
  then show ?case using Suc(1)[of "Suc i"] Suc(2-) by simp
qed simp

lemma ihash_foreach_chain:
  assumes "idx_path (hnx h) (length (chains h)) (hnext (ihash_node h e)) xs IDX_UNDEF"
    and "b < bucketsz h"
    and rest: "ihash_foreach h (ihash_at_bucket h (ihash_next_occupied_bucket h (b + 1))) = Some ls"
  shows "ihash_foreach h \<lparr>bucket_idx = b, it_datum = Some e\<rparr> = Some (e # map Chain xs @ ls)"
  using assms(1)
proof (induction xs arbitrary: e)
  case Nil
  then show ?case using assms(2) rest
    by (subst ihash_foreach.simps) (simp add: ihash_is_valid_def ihash_next_def Let_def)
next
  case (Cons x xs)
  then have "ihash_foreach h \<lparr>bucket_idx = b, it_datum = Some (Chain x)\<rparr> =
      Some (Chain x # map Chain xs @ ls)" by (auto simp: hnx_def)
  then show ?case using Cons.prems assms(2)
    by (subst ihash_foreach.simps) (simp add: ihash_is_valid_def ihash_next_def Let_def chain_ref_def)
qed

lemma ihash_foreach_from:
  assumes hl: "hlinks h ps fs" and b: "b \<le> bucketsz h"
  shows "ihash_foreach h (ihash_at_bucket h (ihash_next_occupied_bucket h b)) =
    Some (concat (map (hslots h) [b..<bucketsz h]))"
  using b
proof (induction "bucketsz h - b" arbitrary: b rule: less_induct)
  case less
  let ?n = "ihash_next_occupied_bucket h b"
  note no = next_occupied[OF less.prems]
  have skip: "concat (map (hslots h) [b..<bucketsz h]) = concat (map (hslots h) [?n..<bucketsz h])"
    using no by (intro concat_upt_skip) auto
  show ?case
  proof (cases "?n < bucketsz h")
    case False
    then have "?n = bucketsz h" using no by simp
    then show ?thesis unfolding skip
      by (subst ihash_foreach.simps) (simp add: ihash_is_valid_def ihash_at_bucket_def)
  next
    case True
    have path: "idx_path (hnx h) (length (chains h)) (hnext (ihash_node h (Bucket ?n))) (ps ?n) IDX_UNDEF"
      using hl True by (simp add: hlinks_def linked_def)
    have rest: "ihash_foreach h (ihash_at_bucket h (ihash_next_occupied_bucket h (?n + 1))) =
        Some (concat (map (hslots h) [?n + 1..<bucketsz h]))"
      using True no by (intro less.hyps) auto
    have "hslots h ?n = Bucket ?n # map Chain (ps ?n)"
      using hslots_eq[OF hl True] no True by (simp add: hslots_of_def)
    then show ?thesis
      using ihash_foreach_chain[OF path True rest] True
      unfolding skip by (simp add: ihash_at_bucket_def upt_conv_Cons)
  qed
qed

lemma ihash_foreach_all:
  "ihash_inv h \<Longrightarrow> ihash_foreach h (ihash_begin h) = Some (ihash_slots h)"
  unfolding ihash_inv_def hrep_def ihash_begin_def ihash_slots_def
  using ihash_foreach_from by blast

lemma ihash_clear_inv:
  assumes "0 < bucketsz h" "length (buckets h) = bucketsz h" "length (chains h) = chainsz h"
  shows "ihash_inv (ihash_clear h fn)" "ihash_map (ihash_clear h fn) = (\<lambda>_. None)"
    "chainsz (ihash_clear h fn) = chainsz h" "bucketsz (ihash_clear h fn) = bucketsz h"
proof -
  let ?h = "ihash_clear h fn"
  have nx: "hnx ?h c = (if c + 1 = chainsz h then IDX_UNDEF else int c + 1)" if "c < chainsz h" for c
    using that by (simp add: hnx_def ihash_clear_def)
  have "idx_path (hnx ?h) (chainsz h) (chain_head ?h) [0..<chainsz h] IDX_UNDEF"
  proof (cases "chainsz h = 0")
    case False
    then have "idx_path (hnx ?h) (chainsz h) (int 0) [0..<chainsz h] IDX_UNDEF"
      by (intro idx_path_succ) (auto simp: nx)
    then show ?thesis using False by (simp add: ihash_clear_def)
  qed (simp add: ihash_clear_def)
  moreover have bk: "hkey (buckets ?h ! b) = IHASH_UNDEF" "hnext (buckets ?h ! b) = IDX_UNDEF"
    if "b < bucketsz h" for b
    using that assms by (simp_all add: ihash_clear_def)
  moreover have sz: "chainsz ?h = chainsz h" "bucketsz ?h = bucketsz h"
    "length (buckets ?h) = bucketsz h" "length (chains ?h) = chainsz h"
    using assms by (simp_all add: ihash_clear_def)
  moreover have "{..<chainsz h} = set [0..<chainsz h]" by auto
  ultimately have hl: "hlinks ?h (\<lambda>_. []) [0..<chainsz h]"
    using assms(1) by (simp add: hlinks_def linked_def)
  have "hkv ?h (hslots_of ?h [] b) = []" if "b < bucketsz h" for b
    using bk[OF that] by (simp add: hslots_of_def hkv_def)
  then have "hrep ?h (\<lambda>_. []) [0..<chainsz h]" using hl sz by (simp add: hrep_def kv_ok_def)
  then show "ihash_inv ?h" by (auto simp: ihash_inv_def)
  show "ihash_map ?h = (\<lambda>_. None)"
    using bk ihash_idx_less[OF hl] sz by (auto simp: ihash_map_eq[OF hl] hslots_of_def hkv_def)
  show "chainsz ?h = chainsz h" "bucketsz ?h = bucketsz h" by (fact sz)+
qed

section \<open>The table as a bounded map\<close>

definition ihash_put_ok :: "'v ihash \<Rightarrow> i64 \<Rightarrow> 'v \<Rightarrow> ('v ihash \<times> bool) option" where
  "ihash_put_ok h k v = map_option (\<lambda>(h', r). (h', r \<noteq> None)) (ihash_put h k v)"

definition ihash_lookup :: "'v ihash \<Rightarrow> i64 \<Rightarrow> 'v option option" where
  "ihash_lookup h k = map_option (map_option (\<lambda>e. hval (ihash_node h e))) (ihash_get_fn h k)"

interpretation ihash_bm: bounded_map ihash_inv ihash_map "\<lambda>k. k \<noteq> IHASH_UNDEF" chainsz
    ihash_put_ok ihash_lookup ihash_erase_fn
proof
  fix h :: "'a ihash" and k :: i64 and v :: 'a
  assume inv: "ihash_inv h"
  show "ihash_lookup h k = Some (ihash_map h k)"
    by (rule ihash_get_map[OF inv, of k]) (simp add: ihash_lookup_def)
  show "\<exists>h'. ihash_erase_fn h k = Some (h', ihash_map h k \<noteq> None) \<and> ihash_inv h' \<and>
      chainsz h' = chainsz h \<and> ihash_map h' = (ihash_map h)(k := None)"
    by (rule ihash_erase_ok[OF inv, of k]) blast
  assume k: "k \<noteq> IHASH_UNDEF"
  obtain ps fs where hl: "hlinks h ps fs" using inv by (auto simp: ihash_inv_def hrep_def)
  show "\<exists>h' b. ihash_put_ok h k v = Some (h', b) \<and> ihash_inv h' \<and> chainsz h' = chainsz h \<and>
      (if b then ihash_map h' = (ihash_map h)(k \<mapsto> v)
       else h' = h \<and> ihash_map h k = None \<and> chainsz h < card (dom (ihash_map h)))"
  proof (rule ihash_put_cases[OF inv k, of v])
    fix h' l assume "ihash_put h k v = Some (h', Some l)" "ihash_inv h'"
      "ihash_map h' = (ihash_map h)(k \<mapsto> v)" "chainsz h' = chainsz h"
    then show ?thesis by (intro exI[of _ h'] exI[of _ True]) (simp add: ihash_put_ok_def)
  next
    assume "ihash_put h k v = Some (h, None)" "ihash_map h k = None" "chain_head h = IDX_UNDEF"
      "hkey (buckets h ! ihash_idx h k) \<noteq> IHASH_UNDEF"
    then show ?thesis using ihash_full_card[OF inv _ ihash_idx_less[OF hl, of k]] inv
      by (intro exI[of _ h] exI[of _ False]) (simp add: ihash_put_ok_def)
  qed
qed

text \<open>
  C16: A freshly created ihash over a run of calls that names at most chainsz different keys
  in all, none of them IHASH_UNDEF, behaves on any sequence of put, lookup and erase calls as
  a finite map does, result by result; every put succeeds and the iterator then visits each
  stored key exactly once.
\<close>

theorem ihash_refines_map:
  fixes ops :: "(i64, 'v) map_op list"
  assumes "0 < bsz" "length bs = bsz" "length cs = csz"
    and "card (op_key ` set ops) \<le> csz" "IHASH_UNDEF \<notin> op_key ` set ops"
  shows "\<exists>h0 h. ihash_create_fn (Some (bs, cs)) bsz csz koffs usersz fn = Some h0 \<and>
    map_run ihash_put_ok ihash_lookup ihash_erase_fn h0 ops = Some (h, snd (map_spec (\<lambda>_. None) ops)) \<and>
    ihash_inv h \<and> ihash_map h = fst (map_spec (\<lambda>_. None) ops) \<and>
    ihash_foreach h (ihash_begin h) = Some (ihash_slots h) \<and>
    distinct (ihash_keys h) \<and> set (ihash_keys h) = dom (ihash_map h)"
proof -
  let ?h = "\<lparr>bucketsz = bsz, chainsz = csz, chain_head = 0, keyoffs = koffs,
             nodesz = usersz + 8, hash_fn = ihash_default_hash_fn, buckets = bs, chains = cs\<rparr>"
  let ?c = "ihash_clear ?h fn"
  have cr: "ihash_create_fn (Some (bs, cs)) bsz csz koffs usersz fn = Some ?c"
    using assms(1) by (simp add: ihash_create_fn_def ihash_init_fn_def)
  note cl = ihash_clear_inv[of ?h fn, simplified, OF assms(1,2,3)]
  have ne: "\<forall>k \<in> op_key ` set ops. k \<noteq> IHASH_UNDEF" using assms(5) by blast
  have "\<exists>h'. map_run ihash_put_ok ihash_lookup ihash_erase_fn ?c ops =
      Some (h', snd (map_spec (ihash_map ?c) ops)) \<and> ihash_inv h' \<and>
      ihash_map h' = fst (map_spec (ihash_map ?c) ops)"
    by (rule ihash_bm.run_refines[where K = "op_key ` set ops"])
      (use cl assms(4) ne in simp_all)
  then obtain h where h: "map_run ihash_put_ok ihash_lookup ihash_erase_fn ?c ops =
      Some (h, snd (map_spec (\<lambda>_. None) ops))" "ihash_inv h" "ihash_map h = fst (map_spec (\<lambda>_. None) ops)"
    unfolding cl(2) by blast
  show ?thesis
    by (intro exI conjI, rule cr, rule h(1))
      (use h(2,3) ihash_foreach_all[OF h(2)] ihash_keys_dom[OF h(2)] in simp_all)
qed

theorem ihash_refines_map_witness:
  "let ops = [Op_put 1 (10::nat), Op_put 5 50, Op_get 1, Op_erase 1, Op_get 5, Op_get 1];
       n = \<lparr>hkey = 7, hnext = 3, hval = 0\<rparr> in
   \<exists>h0 h. ihash_create_fn (Some ([n, n], [n, n])) 2 2 0 16 None = Some h0 \<and>
    map_run ihash_put_ok ihash_lookup ihash_erase_fn h0 ops = Some (h, snd (map_spec (\<lambda>_. None) ops)) \<and>
    ihash_inv h \<and> ihash_map h = fst (map_spec (\<lambda>_. None) ops) \<and>
    ihash_foreach h (ihash_begin h) = Some (ihash_slots h) \<and>
    distinct (ihash_keys h) \<and> set (ihash_keys h) = dom (ihash_map h)"
  unfolding Let_def by (rule ihash_refines_map) (simp_all add: IHASH_UNDEF_def insert_commute)

end
