(* ===== verification/Scr_Ilist2.thy ===== *)
theory Scr_Ilist2
  imports Scr_Contracts
begin

text \<open>
  \<^verbatim>\<open>lib/core/src/ilist2.h\<close> and \<^verbatim>\<open>ilist2.c\<close>: the
  doubly linked list of array slots. A node is its two indices and the user's data; free
  nodes are chained through their next index. An access through an index outside the array
  is the value \<open>None\<close>: the pop and get operations make one on an empty list.
\<close>

section \<open>Data\<close>

record 'v inode =
  iprev :: int
  inext :: int
  idata :: 'v

record 'v ilist2 =
  listsz :: nat
  freelist_head :: int
  front_idx :: int
  back_idx :: int
  il_nodesz :: nat
  inodes :: "'v inode list"

text \<open>\<open>nodes + i * nodesz\<close>, which must stay inside the array.\<close>

definition inode_ref :: "'v ilist2 \<Rightarrow> int \<Rightarrow> nat option" where
  "inode_ref l i = (if 0 \<le> i \<and> i < int (length (inodes l)) then Some (nat i) else None)"

definition inode_upd :: "'v ilist2 \<Rightarrow> nat \<Rightarrow> ('v inode \<Rightarrow> 'v inode) \<Rightarrow> 'v ilist2" where
  "inode_upd l i f = l\<lparr>inodes := (inodes l)[i := f (inodes l ! i)]\<rparr>"

definition ilist2_empty :: "'v ilist2 \<Rightarrow> bool" where
  "ilist2_empty l \<longleftrightarrow> front_idx l = IDX_UNDEF"

text \<open>\<open>sizeof(ilist2)\<close> is 40 and an index takes 8 bytes.\<close>

definition ilist2_get_required_memory_size :: "u64 \<Rightarrow> u64 \<Rightarrow> u64" where
  "ilist2_get_required_memory_size lsz usersz = 40 + (usersz + 8 + 8) * lsz"

section \<open>Creation\<close>

definition ilist2_clear :: "'v ilist2 \<Rightarrow> 'v ilist2" where
  "ilist2_clear l = l\<lparr>back_idx := IDX_UNDEF, front_idx := IDX_UNDEF,
     inodes := map (\<lambda>i. (inodes l ! i)\<lparr>iprev := IDX_UNDEF,
        inext := if i + 1 = listsz l then IDX_UNDEF else int i + 1\<rparr>) [0..<listsz l],
     freelist_head := if 0 < listsz l then 0 else IDX_UNDEF\<rparr>"

definition ilist2_init_fn :: "'v inode list \<Rightarrow> nat \<Rightarrow> nat \<Rightarrow> 'v ilist2" where
  "ilist2_init_fn mem lsz usersz = ilist2_clear
     \<lparr>listsz = lsz, freelist_head = 0, front_idx = 0, back_idx = 0,
      il_nodesz = usersz + 8 + 8, inodes = mem\<rparr>"

definition ilist2_create_fn :: "'v inode list option \<Rightarrow> nat \<Rightarrow> nat \<Rightarrow> 'v ilist2 option" where
  "ilist2_create_fn mem lsz usersz = map_option (\<lambda>m. ilist2_init_fn m lsz usersz) mem"

section \<open>Reading the ends\<close>

definition ilist2_get_back_fn :: "'v ilist2 \<Rightarrow> 'v option" where
  "ilist2_get_back_fn l = map_option (\<lambda>i. idata (inodes l ! i)) (inode_ref l (back_idx l))"

definition ilist2_get_front_fn :: "'v ilist2 \<Rightarrow> 'v option" where
  "ilist2_get_front_fn l = map_option (\<lambda>i. idata (inodes l ! i)) (inode_ref l (front_idx l))"

section \<open>Popping\<close>

definition ilist2_pop_back_fn :: "'v ilist2 \<Rightarrow> ('v ilist2 \<times> nat) option" where
  "ilist2_pop_back_fn l = Option.bind (inode_ref l (back_idx l)) (\<lambda>old.
     let prev_idx = iprev (inodes l ! old);
         l1 = inode_upd l old (inext_update (\<lambda>_. freelist_head l)) in
     if prev_idx \<noteq> IDX_UNDEF
     then Option.bind (inode_ref l prev_idx) (\<lambda>p. Some
        ((inode_upd l1 p (inext_update (\<lambda>_. IDX_UNDEF)))
           \<lparr>freelist_head := back_idx l, back_idx := prev_idx\<rparr>, old))
     else Some (l1\<lparr>freelist_head := back_idx l, front_idx := IDX_UNDEF, back_idx := IDX_UNDEF\<rparr>, old))"

definition ilist2_pop_front_fn :: "'v ilist2 \<Rightarrow> ('v ilist2 \<times> nat) option" where
  "ilist2_pop_front_fn l = Option.bind (inode_ref l (front_idx l)) (\<lambda>old.
     let next_idx = inext (inodes l ! old);
         l1 = inode_upd l old (inext_update (\<lambda>_. freelist_head l)) in
     if next_idx \<noteq> IDX_UNDEF
     then Option.bind (inode_ref l next_idx) (\<lambda>p. Some
        ((inode_upd l1 p (iprev_update (\<lambda>_. IDX_UNDEF)))
           \<lparr>freelist_head := front_idx l, front_idx := next_idx\<rparr>, old))
     else Some (l1\<lparr>freelist_head := front_idx l, back_idx := IDX_UNDEF, front_idx := IDX_UNDEF\<rparr>, old))"

text \<open>The macros read the popped node's data.\<close>

definition ilist2_pop_back :: "'v ilist2 \<Rightarrow> ('v ilist2 \<times> 'v) option" where
  "ilist2_pop_back l = map_option (\<lambda>(l', i). (l', idata (inodes l' ! i))) (ilist2_pop_back_fn l)"

definition ilist2_pop_front :: "'v ilist2 \<Rightarrow> ('v ilist2 \<times> 'v) option" where
  "ilist2_pop_front l = map_option (\<lambda>(l', i). (l', idata (inodes l' ! i))) (ilist2_pop_front_fn l)"

section \<open>Pushing\<close>

text \<open>The first node of an empty list.\<close>

definition ilist2_touch_new_fn :: "'v ilist2 \<Rightarrow> ('v ilist2 \<times> nat) option" where
  "ilist2_touch_new_fn l = (let new_idx = freelist_head l in
     if new_idx = IDX_UNDEF then None
     else Option.bind (inode_ref l new_idx) (\<lambda>new.
       Some ((inode_upd l new (\<lambda>n. n\<lparr>iprev := IDX_UNDEF, inext := IDX_UNDEF\<rparr>))
         \<lparr>freelist_head := inext (inodes l ! new), back_idx := new_idx, front_idx := new_idx\<rparr>, new)))"

text \<open>The result's second part is the new node, or \<open>None\<close> when no node is free.\<close>

definition ilist2_touch_back_fn :: "'v ilist2 \<Rightarrow> ('v ilist2 \<times> nat option) option" where
  "ilist2_touch_back_fn l = (let idx = freelist_head l in
     if idx = IDX_UNDEF then Some (l, None)
     else if ilist2_empty l then map_option (\<lambda>(l', i). (l', Some i)) (ilist2_touch_new_fn l)
     else Option.bind (inode_ref l (back_idx l)) (\<lambda>back. Option.bind (inode_ref l idx) (\<lambda>new.
       let l1 = inode_upd l back (inext_update (\<lambda>_. idx));
           l2 = l1\<lparr>freelist_head := inext (inodes l1 ! new)\<rparr>;
           l3 = inode_upd l2 new (\<lambda>n. n\<lparr>iprev := back_idx l2, inext := IDX_UNDEF\<rparr>)
       in Some (l3\<lparr>back_idx := idx\<rparr>, Some new))))"

definition ilist2_touch_front_fn :: "'v ilist2 \<Rightarrow> ('v ilist2 \<times> nat option) option" where
  "ilist2_touch_front_fn l = (let idx = freelist_head l in
     if idx = IDX_UNDEF then Some (l, None)
     else if ilist2_empty l then map_option (\<lambda>(l', i). (l', Some i)) (ilist2_touch_new_fn l)
     else Option.bind (inode_ref l (front_idx l)) (\<lambda>front. Option.bind (inode_ref l idx) (\<lambda>new.
       let l1 = inode_upd l front (iprev_update (\<lambda>_. idx));
           l2 = l1\<lparr>freelist_head := inext (inodes l1 ! new)\<rparr>;
           l3 = inode_upd l2 new (\<lambda>n. n\<lparr>iprev := IDX_UNDEF, inext := front_idx l2\<rparr>)
       in Some (l3\<lparr>front_idx := idx\<rparr>, Some new))))"

definition ilist2_put_back :: "'v ilist2 \<Rightarrow> 'v \<Rightarrow> ('v ilist2 \<times> nat option) option" where
  "ilist2_put_back l v = map_option (\<lambda>(l', r). case r of None \<Rightarrow> (l', None)
     | Some i \<Rightarrow> (inode_upd l' i (idata_update (\<lambda>_. v)), Some i)) (ilist2_touch_back_fn l)"

definition ilist2_put_front :: "'v ilist2 \<Rightarrow> 'v \<Rightarrow> ('v ilist2 \<times> nat option) option" where
  "ilist2_put_front l v = map_option (\<lambda>(l', r). case r of None \<Rightarrow> (l', None)
     | Some i \<Rightarrow> (inode_upd l' i (idata_update (\<lambda>_. v)), Some i)) (ilist2_touch_front_fn l)"

section \<open>Moving a node to an end\<close>

definition ilist2_move_back_by_idx_fn :: "'v ilist2 \<Rightarrow> int \<Rightarrow> 'v ilist2 option" where
  "ilist2_move_back_by_idx_fn l idx = Option.bind (inode_ref l idx) (\<lambda>node.
     let prev_idx = iprev (inodes l ! node); next_idx = inext (inodes l ! node) in
     if next_idx = IDX_UNDEF then Some l
     else Option.bind (inode_ref l next_idx) (\<lambda>nxt.
       let l1 = inode_upd l nxt (iprev_update (\<lambda>_. prev_idx)) in
       Option.bind (if prev_idx \<noteq> IDX_UNDEF
           then map_option (\<lambda>p. inode_upd l1 p (inext_update (\<lambda>_. next_idx))) (inode_ref l prev_idx)
           else Some (l1\<lparr>front_idx := next_idx\<rparr>)) (\<lambda>l2.
       Option.bind (inode_ref l2 (back_idx l2)) (\<lambda>back.
         let l3 = inode_upd l2 back (inext_update (\<lambda>_. idx));
             l4 = inode_upd l3 node (\<lambda>n. n\<lparr>iprev := back_idx l3, inext := IDX_UNDEF\<rparr>)
         in Some (l4\<lparr>back_idx := idx\<rparr>)))))"

definition ilist2_move_front_by_idx_fn :: "'v ilist2 \<Rightarrow> int \<Rightarrow> 'v ilist2 option" where
  "ilist2_move_front_by_idx_fn l idx = Option.bind (inode_ref l idx) (\<lambda>node.
     let prev_idx = iprev (inodes l ! node); next_idx = inext (inodes l ! node) in
     if prev_idx = IDX_UNDEF then Some l
     else Option.bind (inode_ref l prev_idx) (\<lambda>prv.
       let l1 = inode_upd l prv (inext_update (\<lambda>_. next_idx)) in
       Option.bind (if next_idx \<noteq> IDX_UNDEF
           then map_option (\<lambda>p. inode_upd l1 p (iprev_update (\<lambda>_. prev_idx))) (inode_ref l next_idx)
           else Some (l1\<lparr>back_idx := prev_idx\<rparr>)) (\<lambda>l2.
       Option.bind (inode_ref l2 (front_idx l2)) (\<lambda>front.
         let l3 = inode_upd l2 front (iprev_update (\<lambda>_. idx));
             l4 = inode_upd l3 node (\<lambda>n. n\<lparr>iprev := IDX_UNDEF, inext := front_idx l3\<rparr>)
         in Some (l4\<lparr>front_idx := idx\<rparr>)))))"

section \<open>Doubly linked chains\<close>

definition dlist :: "(nat \<Rightarrow> int) \<Rightarrow> (nat \<Rightarrow> int) \<Rightarrow> nat \<Rightarrow> int \<Rightarrow> int \<Rightarrow> nat list \<Rightarrow> bool" where
  "dlist nx pv n f b xs \<longleftrightarrow> idx_path nx n f xs IDX_UNDEF \<and> idx_path pv n b (rev xs) IDX_UNDEF \<and>
     distinct xs"

lemma dlist_mirror: "dlist nx pv n f b xs \<longleftrightarrow> dlist pv nx n b f (rev xs)"
  by (auto simp: dlist_def)

lemma dlist_cong:
  assumes "dlist nx pv n f b xs" "\<forall>x \<in> set xs. nx x = nx' x \<and> pv x = pv' x"
  shows "dlist nx' pv' n f b xs"
  using assms by (auto simp: dlist_def intro: idx_path_transfer)

lemma dlist_single: "m < n \<Longrightarrow> dlist (nx(m := IDX_UNDEF)) (pv(m := IDX_UNDEF)) n (int m) (int m) [m]"
  by (simp add: dlist_def)

lemma dlist_ends:
  assumes "dlist nx pv n f b xs" "xs \<noteq> []"
  shows "f = int (hd xs)" "b = int (last xs)" "hd xs < n" "last xs < n"
    "pv (hd xs) = IDX_UNDEF" "nx (last xs) = IDX_UNDEF"
proof -
  obtain y ys where y: "xs = y # ys" using assms(2) by (cases xs) auto
  obtain z zs where z: "xs = zs @ [z]" using assms(2) by (cases xs rule: rev_cases) auto
  have a: "idx_path nx n f (y # ys) IDX_UNDEF" "idx_path pv n b (rev (zs @ [z])) IDX_UNDEF"
    "idx_path nx n f (zs @ [z]) IDX_UNDEF" "idx_path pv n b (rev ys @ [y]) IDX_UNDEF"
    using assms(1) y z by (simp_all add: dlist_def)
  show "f = int (hd xs)" "hd xs < n" using a(1) y by simp_all
  show "b = int (last xs)" "last xs < n" using a(2) z by simp_all
  show "nx (last xs) = IDX_UNDEF" using a(3) unfolding idx_path_append z by auto
  show "pv (hd xs) = IDX_UNDEF" using a(4) unfolding idx_path_append y by auto
qed

lemma dlist_push_front:
  assumes d: "dlist nx pv n f b xs" and m: "xs \<noteq> []" "m \<notin> set xs" "m < n"
  shows "dlist (nx(m := f)) (pv(hd xs := int m, m := IDX_UNDEF)) n (int m) b (m # xs)"
proof -
  have "idx_path (pv(last (rev xs) := int m, m := IDX_UNDEF)) n b (rev xs @ [m]) IDX_UNDEF"
    by (rule idx_path_snoc) (use d m in \<open>auto simp: dlist_def\<close>)
  then show ?thesis using d m by (simp add: dlist_def last_rev)
qed

lemma dlist_push_back:
  assumes d: "dlist nx pv n f b xs" and m: "xs \<noteq> []" "m \<notin> set xs" "m < n"
  shows "dlist (nx(last xs := int m, m := IDX_UNDEF)) (pv(m := b)) n f (int m) (xs @ [m])"
  using dlist_push_front[of pv nx n b f "rev xs" m] d m
  by (simp add: dlist_mirror[of nx] dlist_mirror[of "nx(_ := _, _ := _)"] hd_rev)

lemma path_unlink:
  assumes "idx_path nx n f (ys @ i # zs) IDX_UNDEF" "distinct (ys @ i # zs)"
  shows "idx_path (if ys = [] then nx else nx(last ys := nx i)) n (if ys = [] then nx i else f)
    (ys @ zs) IDX_UNDEF"
proof (cases "ys = []")
  case True
  then show ?thesis using assms by simp
next
  case False
  have "idx_path (nx(last ys := nx i, i := 0)) n f (ys @ zs) IDX_UNDEF"
    by (rule idx_path_unlink[OF assms(1) False assms(2)])
  then show ?thesis using False assms(2) by simp
qed

lemma dlist_remove:
  assumes d: "dlist nx pv n f b (ys @ i # zs)"
  shows "dlist (if ys = [] then nx else nx(last ys := nx i)) (if zs = [] then pv else pv(hd zs := pv i)) n
    (if ys = [] then nx i else f) (if zs = [] then pv i else b) (ys @ zs)"
proof -
  have dis: "distinct (ys @ i # zs)" "distinct (rev zs @ i # rev ys)" using d by (auto simp: dlist_def)
  have p: "idx_path nx n f (ys @ i # zs) IDX_UNDEF" "idx_path pv n b (rev zs @ i # rev ys) IDX_UNDEF"
    using d by (simp_all add: dlist_def)
  show ?thesis
    using path_unlink[OF p(1) dis(1)] path_unlink[OF p(2) dis(2)] dis(1)
    by (auto simp: dlist_def last_rev)
qed

text \<open>The neighbours of a node in the middle.\<close>

lemma dlist_neighbours:
  assumes "dlist nx pv n f b (ys @ i # zs)"
  shows "i < n" "nx i = (if zs = [] then IDX_UNDEF else int (hd zs))"
    "pv i = (if ys = [] then IDX_UNDEF else int (last ys))"
proof -
  have p: "idx_path nx n f (ys @ i # zs) IDX_UNDEF" "idx_path pv n b (rev zs @ i # rev ys) IDX_UNDEF"
    using assms by (simp_all add: dlist_def)
  then show "i < n" by (auto simp: idx_path_append)
  show "nx i = (if zs = [] then IDX_UNDEF else int (hd zs))"
    using p(1) by (cases zs) (auto simp: idx_path_append)
  show "pv i = (if ys = [] then IDX_UNDEF else int (last ys))"
    using p(2) by (cases ys rule: rev_cases) (auto simp: idx_path_append)
qed

section \<open>The list a structure stands for\<close>

definition inx :: "'v ilist2 \<Rightarrow> nat \<Rightarrow> int" where
  "inx l i = inext (inodes l ! i)"

definition ipv :: "'v ilist2 \<Rightarrow> nat \<Rightarrow> int" where
  "ipv l i = iprev (inodes l ! i)"

text \<open>\<open>xs\<close> are the slots from front to back, \<open>fs\<close> the free ones.\<close>

definition irep :: "'v ilist2 \<Rightarrow> nat list \<Rightarrow> nat list \<Rightarrow> bool" where
  "irep l xs fs \<longleftrightarrow> length (inodes l) = listsz l \<and>
     dlist (inx l) (ipv l) (listsz l) (front_idx l) (back_idx l) xs \<and>
     idx_path (inx l) (listsz l) (freelist_head l) fs IDX_UNDEF \<and>
     distinct (xs @ fs) \<and> set (xs @ fs) = {..<listsz l}"

definition ilist2_inv :: "'v ilist2 \<Rightarrow> bool" where
  "ilist2_inv l \<longleftrightarrow> (\<exists>xs fs. irep l xs fs)"

text \<open>The slots with their data, front first; the walk is executable.\<close>

definition idata_at :: "'v ilist2 \<Rightarrow> nat \<Rightarrow> nat \<times> 'v" where
  "idata_at l i = (i, idata (inodes l ! i))"

definition ilist2_view :: "'v ilist2 \<Rightarrow> (nat \<times> 'v) list" where
  "ilist2_view l = map (idata_at l) (idx_walk (inx l) (listsz l) (front_idx l))"

lemma irep_length: "irep l xs fs \<Longrightarrow> length xs + length fs = listsz l"
  using distinct_card[of "xs @ fs"] by (simp add: irep_def)

lemma ilist2_view_eq: "irep l xs fs \<Longrightarrow> ilist2_view l = map (idata_at l) xs"
  using irep_length[of l xs fs] idx_walk_path[of "inx l" "listsz l" "front_idx l" xs "listsz l"]
  by (simp add: ilist2_view_def irep_def dlist_def)

lemma irepD:
  assumes "irep l xs fs"
  shows "length (inodes l) = listsz l" "dlist (inx l) (ipv l) (listsz l) (front_idx l) (back_idx l) xs"
    "idx_path (inx l) (listsz l) (freelist_head l) fs IDX_UNDEF" "distinct (xs @ fs)"
    "set (xs @ fs) = {..<listsz l}"
  using assms by (simp_all add: irep_def)

lemma inode_ref_int [simp]: "i < length (inodes l) \<Longrightarrow> inode_ref l (int i) = Some i"
  by (simp add: inode_ref_def)

lemma inode_ref_UNDEF [simp]: "inode_ref l IDX_UNDEF = None"
  by (simp add: inode_ref_def IDX_UNDEF_def)

lemma inode_upd_simps [simp]:
  "listsz (inode_upd l i f) = listsz l" "freelist_head (inode_upd l i f) = freelist_head l"
  "front_idx (inode_upd l i f) = front_idx l" "back_idx (inode_upd l i f) = back_idx l"
  "length (inodes (inode_upd l i f)) = length (inodes l)"
  "inodes (inode_upd l i f) ! j = (if i = j \<and> i < length (inodes l) then f (inodes l ! i) else inodes l ! j)"
  by (simp_all add: inode_upd_def nth_upd)

lemma inode_ref_upd [simp]: "inode_ref (inode_upd l i f) j = inode_ref l j"
  by (simp add: inode_ref_def)

lemma inode_ref_ext [simp]:
  "inode_ref (l\<lparr>front_idx := a\<rparr>) j = inode_ref l j" "inode_ref (l\<lparr>back_idx := a\<rparr>) j = inode_ref l j"
  "inode_ref (l\<lparr>freelist_head := a\<rparr>) j = inode_ref l j"
  by (simp_all add: inode_ref_def)

text \<open>A new state that keeps every slot's data keeps the view of the same slots.\<close>

lemma view_change:
  "irep l' xs fs \<Longrightarrow> (\<And>i. i \<in> set xs \<Longrightarrow> idata (inodes l' ! i) = idata (inodes l ! i)) \<Longrightarrow>
   ilist2_view l' = map (idata_at l) xs"
  by (simp add: ilist2_view_eq idata_at_def)

lemma ilist2_clear_rep:
  assumes "length (inodes l) = listsz l"
  shows "irep (ilist2_clear l) [] [0..<listsz l]" "listsz (ilist2_clear l) = listsz l"
proof -
  let ?l = "ilist2_clear l"
  have nx: "inx ?l i = (if i + 1 = listsz l then IDX_UNDEF else int i + 1)" if "i < listsz l" for i
    using that by (simp add: inx_def ilist2_clear_def)
  have "idx_path (inx ?l) (listsz l) (freelist_head ?l) [0..<listsz l] IDX_UNDEF"
  proof (cases "listsz l = 0")
    case False
    then have "idx_path (inx ?l) (listsz l) (int 0) [0..<listsz l] IDX_UNDEF"
      by (intro idx_path_succ) (auto simp: nx)
    then show ?thesis using False by (simp add: ilist2_clear_def)
  qed (simp add: ilist2_clear_def)
  then show "irep ?l [] [0..<listsz l]" using assms
    by (auto simp: irep_def dlist_def ilist2_clear_def)
  show "listsz ?l = listsz l" by (simp add: ilist2_clear_def)
qed

text \<open>Pushing at the front.\<close>

lemma ilist2_touch_front_rep:
  assumes r: "irep l xs (m # fs)"
  obtains l' where "ilist2_touch_front_fn l = Some (l', Some m)" "irep l' (m # xs) fs"
    "listsz l' = listsz l" "\<And>i. idata (inodes l' ! i) = idata (inodes l ! i)"
proof (cases "xs = []")
  case True
  note R = irepD[OF r]
  have m: "m < listsz l" "freelist_head l = int m" "idx_path (inx l) (listsz l) (inx l m) fs IDX_UNDEF"
    "m \<notin> set fs" using R by auto
  have e: "front_idx l = IDX_UNDEF" using R(2) True by (simp add: dlist_def)
  let ?l' = "(inode_upd l m (\<lambda>n. n\<lparr>iprev := IDX_UNDEF, inext := IDX_UNDEF\<rparr>))
         \<lparr>freelist_head := inx l m, back_idx := int m, front_idx := int m\<rparr>"
  have t: "ilist2_touch_front_fn l = Some (?l', Some m)"
    using m e R(1) by (simp add: ilist2_touch_front_fn_def ilist2_touch_new_fn_def ilist2_empty_def Let_def inx_def)
  have fn: "inx ?l' = (inx l)(m := IDX_UNDEF)" "ipv ?l' = (ipv l)(m := IDX_UNDEF)"
    using m R(1) by (auto simp: inx_def ipv_def fun_eq_iff)
  have "irep ?l' [m] fs"
    unfolding irep_def fn using R m True by (auto simp: dlist_single)
  then show thesis using that[OF t] True R(1) by (simp add: inx_def)
next
  case False
  note R = irepD[OF r]
  have m: "m < listsz l" "freelist_head l = int m" "idx_path (inx l) (listsz l) (inx l m) fs IDX_UNDEF"
    "m \<notin> set fs" "m \<notin> set xs" using R by auto
  note E = dlist_ends[OF R(2) False]
  have ne: "hd xs \<noteq> m" using m(5) False by (cases xs) auto
  let ?l' = "(inode_upd (inode_upd l (hd xs) (iprev_update (\<lambda>_. int m))) m
    (\<lambda>n. n\<lparr>iprev := IDX_UNDEF, inext := front_idx l\<rparr>))\<lparr>freelist_head := inx l m, front_idx := int m\<rparr>"
  have t: "ilist2_touch_front_fn l = Some (?l', Some m)"
    using m E ne R(1) by (simp add: ilist2_touch_front_fn_def ilist2_empty_def Let_def inx_def inode_upd_def nth_upd)
  have fn: "inx ?l' = (inx l)(m := front_idx l)" "ipv ?l' = (ipv l)(hd xs := int m, m := IDX_UNDEF)"
    using m E R(1) by (auto simp: inx_def ipv_def fun_eq_iff)
  have d: "dlist (inx ?l') (ipv ?l') (listsz l) (int m) (back_idx l) (m # xs)"
    unfolding fn by (rule dlist_push_front[OF R(2) False m(5,1)])
  have p: "idx_path (inx ?l') (listsz l) (inx l m) fs IDX_UNDEF" unfolding fn using m by simp
  have "irep ?l' (m # xs) fs" unfolding irep_def using d p R m by auto
  then show thesis using that[OF t] R(1) by simp
qed

text \<open>Pushing at the back.\<close>

lemma ilist2_touch_back_rep:
  assumes r: "irep l xs (m # fs)"
  obtains l' where "ilist2_touch_back_fn l = Some (l', Some m)" "irep l' (xs @ [m]) fs"
    "listsz l' = listsz l" "\<And>i. idata (inodes l' ! i) = idata (inodes l ! i)"
proof (cases "xs = []")
  case True
  then have e: "ilist2_empty l" using r by (simp add: irep_def dlist_def ilist2_empty_def)
  have "freelist_head l \<noteq> IDX_UNDEF" using r by (auto simp: irep_def)
  with e have "ilist2_touch_back_fn l = ilist2_touch_front_fn l"
    by (simp add: ilist2_touch_back_fn_def ilist2_touch_front_fn_def)
  then show thesis using that True by (auto intro: ilist2_touch_front_rep[OF r])
next
  case False
  note R = irepD[OF r]
  have m: "m < listsz l" "freelist_head l = int m" "idx_path (inx l) (listsz l) (inx l m) fs IDX_UNDEF"
    "m \<notin> set fs" "m \<notin> set xs" using R by auto
  note E = dlist_ends[OF R(2) False]
  have ne: "last xs \<noteq> m" "last xs \<notin> set fs" using m(5) R(4) last_in_set[OF False] by auto
  let ?l' = "(inode_upd (inode_upd l (last xs) (inext_update (\<lambda>_. int m))) m
    (\<lambda>n. n\<lparr>iprev := back_idx l, inext := IDX_UNDEF\<rparr>))\<lparr>freelist_head := inx l m, back_idx := int m\<rparr>"
  have t: "ilist2_touch_back_fn l = Some (?l', Some m)"
    using m E ne R(1) by (simp add: ilist2_touch_back_fn_def ilist2_empty_def Let_def inx_def inode_upd_def nth_upd)
  have fn: "inx ?l' = (inx l)(last xs := int m, m := IDX_UNDEF)" "ipv ?l' = (ipv l)(m := back_idx l)"
    using m E R(1) by (auto simp: inx_def ipv_def fun_eq_iff)
  have d: "dlist (inx ?l') (ipv ?l') (listsz l) (front_idx l) (int m) (xs @ [m])"
    unfolding fn by (rule dlist_push_back[OF R(2) False m(5,1)])
  have p: "idx_path (inx ?l') (listsz l) (inx l m) fs IDX_UNDEF" unfolding fn using m ne by simp
  have "irep ?l' (xs @ [m]) fs" unfolding irep_def using d p R m by auto
  then show thesis using that[OF t] R(1) by simp
qed

lemma split_facts:
  assumes "distinct ((ys @ i # zs) @ fs)" "set ((ys @ i # zs) @ fs) = {..<n::nat}"
  shows "i < n" "i \<notin> set fs" "i \<notin> set (ys @ zs)" "distinct (ys @ zs)"
    "\<forall>x \<in> set ys. x \<noteq> i \<and> x < n \<and> x \<notin> set fs \<and> x \<notin> set zs"
    "\<forall>x \<in> set zs. x \<noteq> i \<and> x < n \<and> x \<notin> set fs \<and> x \<notin> set ys"
proof -
  have lt: "x < n" if "x \<in> set ((ys @ i # zs) @ fs)" for x using that unfolding assms(2) by simp
  show "i < n" "i \<notin> set fs" "i \<notin> set (ys @ zs)" "distinct (ys @ zs)" using assms(1) lt by auto
  show "\<forall>x \<in> set ys. x \<noteq> i \<and> x < n \<and> x \<notin> set fs \<and> x \<notin> set zs"
    "\<forall>x \<in> set zs. x \<noteq> i \<and> x < n \<and> x \<notin> set fs \<and> x \<notin> set ys"
    using assms(1) lt by auto
qed

text \<open>Popping an end.\<close>

lemma ilist2_pop_back_rep:
  assumes r: "irep l (ys @ [i]) fs"
  obtains l' where "ilist2_pop_back_fn l = Some (l', i)" "irep l' ys (i # fs)"
    "listsz l' = listsz l" "\<And>j. idata (inodes l' ! j) = idata (inodes l ! j)"
proof -
  note R = irepD[OF r]
  have d0: "dlist (inx l) (ipv l) (listsz l) (front_idx l) (back_idx l) (ys @ i # [])" using R(2) by simp
  note N = dlist_neighbours[OF d0]
  have b: "back_idx l = int i" using dlist_ends(2)[OF d0] by simp
  have S0: "distinct ((ys @ i # []) @ fs)" "set ((ys @ i # []) @ fs) = {..<listsz l}"
    using R(4,5) by simp_all
  note S = split_facts[OF S0]
  have f: "ys \<noteq> [] \<Longrightarrow> last ys < listsz l" "ys \<noteq> [] \<Longrightarrow> last ys \<noteq> i" "i \<notin> set fs" "i \<notin> set ys"
    "ys \<noteq> [] \<Longrightarrow> last ys \<notin> set fs"
    using S(2,3) bspec[OF S(5) last_in_set] by simp_all
  have dis: "distinct (ys @ i # fs)" "set (ys @ i # fs) = {..<listsz l}" using R(4,5) by auto
  show thesis
  proof (cases "ys = []")
    case True
    let ?l' = "(inode_upd l i (inext_update (\<lambda>_. freelist_head l)))
      \<lparr>freelist_head := int i, front_idx := IDX_UNDEF, back_idx := IDX_UNDEF\<rparr>"
    have t: "ilist2_pop_back_fn l = Some (?l', i)"
      using True N b R(1) by (simp add: ilist2_pop_back_fn_def Let_def ipv_def)
    have fn: "inx ?l' = (inx l)(i := freelist_head l)" "ipv ?l' = ipv l"
      using N R(1) by (auto simp: inx_def ipv_def fun_eq_iff)
    have "irep ?l' ys (i # fs)"
      unfolding irep_def fn using R(1,3) True N f dis by (auto simp: dlist_def)
    then show thesis using that[OF t] by simp
  next
    case False
    let ?l' = "(inode_upd (inode_upd l i (inext_update (\<lambda>_. freelist_head l))) (last ys)
      (inext_update (\<lambda>_. IDX_UNDEF)))\<lparr>freelist_head := int i, back_idx := int (last ys)\<rparr>"
    have t: "ilist2_pop_back_fn l = Some (?l', i)"
      using False N b R(1) f by (simp add: ilist2_pop_back_fn_def Let_def ipv_def)
    have fn: "inx ?l' = (inx l)(i := freelist_head l, last ys := IDX_UNDEF)" "ipv ?l' = ipv l"
      using N R(1) f False by (auto simp: inx_def ipv_def fun_eq_iff)
    have "dlist ((inx l)(last ys := IDX_UNDEF)) (ipv l) (listsz l) (front_idx l) (int (last ys)) ys"
      using dlist_remove[OF d0] False N by simp
    then have d: "dlist (inx ?l') (ipv ?l') (listsz l) (front_idx l) (int (last ys)) ys"
      unfolding fn by (rule dlist_cong) (use f in auto)
    have p: "idx_path (inx ?l') (listsz l) (int i) (i # fs) IDX_UNDEF"
      unfolding fn using R(3) f False N by (simp add: fun_upd_twist)
    have "irep ?l' ys (i # fs)" unfolding irep_def using d p R(1) dis by auto
    then show thesis using that[OF t] by simp
  qed
qed

lemma ilist2_pop_front_rep:
  assumes r: "irep l (i # zs) fs"
  obtains l' where "ilist2_pop_front_fn l = Some (l', i)" "irep l' zs (i # fs)"
    "listsz l' = listsz l" "\<And>j. idata (inodes l' ! j) = idata (inodes l ! j)"
proof -
  note R = irepD[OF r]
  have d0: "dlist (inx l) (ipv l) (listsz l) (front_idx l) (back_idx l) ([] @ i # zs)" using R(2) by simp
  note N = dlist_neighbours[OF d0]
  have b: "front_idx l = int i" using dlist_ends(1)[OF d0] by simp
  have f: "zs \<noteq> [] \<Longrightarrow> hd zs < listsz l" "zs \<noteq> [] \<Longrightarrow> hd zs \<noteq> i" "i \<notin> set fs" "i \<notin> set zs"
    using R(4,5) hd_in_set[of zs] by auto
  have dis: "distinct (zs @ i # fs)" "set (zs @ i # fs) = {..<listsz l}" using R(4,5) by auto
  show thesis
  proof (cases "zs = []")
    case True
    let ?l' = "(inode_upd l i (inext_update (\<lambda>_. freelist_head l)))
      \<lparr>freelist_head := int i, back_idx := IDX_UNDEF, front_idx := IDX_UNDEF\<rparr>"
    have t: "ilist2_pop_front_fn l = Some (?l', i)"
      using True N b R(1) by (simp add: ilist2_pop_front_fn_def Let_def inx_def)
    have fn: "inx ?l' = (inx l)(i := freelist_head l)" "ipv ?l' = ipv l"
      using N R(1) by (auto simp: inx_def ipv_def fun_eq_iff)
    have "irep ?l' zs (i # fs)"
      unfolding irep_def fn using R(1,3) True N f dis by (auto simp: dlist_def)
    then show thesis using that[OF t] by simp
  next
    case False
    let ?l' = "(inode_upd (inode_upd l i (inext_update (\<lambda>_. freelist_head l))) (hd zs)
      (iprev_update (\<lambda>_. IDX_UNDEF)))\<lparr>freelist_head := int i, front_idx := int (hd zs)\<rparr>"
    have t: "ilist2_pop_front_fn l = Some (?l', i)"
      using False N b R(1) f by (simp add: ilist2_pop_front_fn_def Let_def inx_def)
    have fn: "inx ?l' = (inx l)(i := freelist_head l)" "ipv ?l' = (ipv l)(hd zs := IDX_UNDEF)"
      using N R(1) f False by (auto simp: inx_def ipv_def fun_eq_iff)
    have "dlist (inx l) ((ipv l)(hd zs := IDX_UNDEF)) (listsz l) (int (hd zs)) (back_idx l) zs"
      using dlist_remove[OF d0] False N by simp
    then have d: "dlist (inx ?l') (ipv ?l') (listsz l) (int (hd zs)) (back_idx l) zs"
      unfolding fn by (rule dlist_cong) (use f in auto)
    have p: "idx_path (inx ?l') (listsz l) (int i) (i # fs) IDX_UNDEF"
      unfolding fn using R(3) f False N by simp
    have "irep ?l' zs (i # fs)" unfolding irep_def using d p R(1) dis by auto
    then show thesis using that[OF t] by simp
  qed
qed

text \<open>Moving a node to an end is taking it out and pushing it there.\<close>

lemma ilist2_move_front_rep:
  assumes r: "irep l (ys @ i # zs) fs"
  obtains l' where "ilist2_move_front_by_idx_fn l (int i) = Some l'" "irep l' (i # ys @ zs) fs"
    "listsz l' = listsz l" "\<And>j. idata (inodes l' ! j) = idata (inodes l ! j)"
proof -
  note R = irepD[OF r]
  note N = dlist_neighbours[OF R(2)] and S = split_facts[OF R(4,5)]
  show thesis
  proof (cases "ys = []")
    case True
    have "ilist2_move_front_by_idx_fn l (int i) = Some l"
      using True N R(1) by (simp add: ilist2_move_front_by_idx_fn_def Let_def ipv_def)
    then show thesis using that[of l] r True by simp
  next
    case False
    have hd: "front_idx l = int (hd ys)" "hd ys < listsz l"
      using dlist_ends(1,3)[OF R(2)] False by simp_all
    have dis: "distinct (ys @ zs)" "i \<notin> set (ys @ zs)" "last ys \<noteq> i" "last ys < listsz l" "hd ys \<noteq> i"
      using S(3,4) bspec[OF S(5) hd_in_set[OF False]] bspec[OF S(5) last_in_set[OF False]] by simp_all
    have dz: "hd zs \<noteq> i" "hd zs < listsz l" "hd zs \<noteq> hd ys" if "zs \<noteq> []"
      using bspec[OF S(6) hd_in_set[OF that]] hd_in_set[OF False] by auto
    have fs: "i \<notin> set fs" "last ys \<notin> set fs" using S(2) bspec[OF S(5) last_in_set[OF False]] by simp_all
    have bnd: "i < length (inodes l)" "last ys < length (inodes l)" "hd ys < length (inodes l)"
      using N(1) dis(4) hd(2) by (simp_all only: R(1))
    let ?l1 = "inode_upd l (last ys) (inext_update (\<lambda>_. inx l i))"
    let ?l2 = "if zs \<noteq> [] then inode_upd ?l1 (hd zs) (iprev_update (\<lambda>_. ipv l i))
      else ?l1\<lparr>back_idx := ipv l i\<rparr>"
    let ?l3 = "inode_upd ?l2 (hd ys) (iprev_update (\<lambda>_. int i))"
    let ?l4 = "(inode_upd ?l3 i (\<lambda>n. n\<lparr>iprev := IDX_UNDEF, inext := front_idx l\<rparr>))\<lparr>front_idx := int i\<rparr>"
    have t: "ilist2_move_front_by_idx_fn l (int i) = Some ?l4"
      using False N R(1) hd dis dz
      by (cases "zs = []") (simp_all add: ilist2_move_front_by_idx_fn_def Let_def ipv_def inx_def)
    have nx: "inx ?l4 = ((inx l)(last ys := inx l i))(i := front_idx l)"
      by (rule ext, cases "zs = []") (use bnd dz(2) in \<open>simp_all add: inx_def\<close>)
    have pv: "ipv ?l4 = (if zs = [] then ipv l else (ipv l)(hd zs := ipv l i))(hd ys := int i, i := IDX_UNDEF)"
      by (rule ext, cases "zs = []") (use bnd dz(2) in \<open>simp_all add: ipv_def R(1)\<close>)
    have rm: "dlist ((inx l)(last ys := inx l i)) (if zs = [] then ipv l else (ipv l)(hd zs := ipv l i))
        (listsz l) (front_idx l) (if zs = [] then ipv l i else back_idx l) (ys @ zs)"
      using dlist_remove[OF R(2)] False by simp
    have d: "dlist (inx ?l4) (ipv ?l4) (listsz l) (int i) (if zs = [] then ipv l i else back_idx l) (i # ys @ zs)"
      unfolding nx pv using dlist_push_front[OF rm _ dis(2) N(1)] False by simp
    have p: "idx_path (inx ?l4) (listsz l) (freelist_head l) fs IDX_UNDEF"
      unfolding nx using R(3) fs by simp
    have fields: "listsz ?l4 = listsz l" "front_idx ?l4 = int i" "freelist_head ?l4 = freelist_head l"
      "back_idx ?l4 = (if zs = [] then ipv l i else back_idx l)" "length (inodes ?l4) = length (inodes l)"
      by simp_all
    have "irep ?l4 (i # ys @ zs) fs" unfolding irep_def fields using d p R(1,4,5) by auto
    moreover have "idata (inodes ?l4 ! j) = idata (inodes l ! j)" for j by (cases "zs = []") simp_all
    ultimately show thesis using that[OF t] fields(1) by blast
  qed
qed

lemma ilist2_move_back_rep:
  assumes r: "irep l (ys @ i # zs) fs"
  obtains l' where "ilist2_move_back_by_idx_fn l (int i) = Some l'" "irep l' (ys @ zs @ [i]) fs"
    "listsz l' = listsz l" "\<And>j. idata (inodes l' ! j) = idata (inodes l ! j)"
proof -
  note R = irepD[OF r]
  note N = dlist_neighbours[OF R(2)] and S = split_facts[OF R(4,5)]
  show thesis
  proof (cases "zs = []")
    case True
    have "ilist2_move_back_by_idx_fn l (int i) = Some l"
      using True N R(1) by (simp add: ilist2_move_back_by_idx_fn_def Let_def inx_def)
    then show thesis using that[of l] r True by simp
  next
    case False
    have lst: "back_idx l = int (last zs)" "last zs < listsz l"
      using dlist_ends(2,4)[OF R(2)] False by simp_all
    have dis: "distinct (ys @ zs)" "i \<notin> set (ys @ zs)" "hd zs \<noteq> i" "hd zs < listsz l" "last zs \<noteq> i"
      using S(3,4) bspec[OF S(6) hd_in_set[OF False]] bspec[OF S(6) last_in_set[OF False]] by simp_all
    have dz: "last ys \<noteq> i" "last ys < listsz l" "last ys \<noteq> last zs" if "ys \<noteq> []"
      using bspec[OF S(5) last_in_set[OF that]] last_in_set[OF False] by auto
    have fs: "i \<notin> set fs" "last zs \<notin> set fs" "ys \<noteq> [] \<Longrightarrow> last ys \<notin> set fs"
      using S(2) bspec[OF S(6) last_in_set[OF False]] bspec[OF S(5) last_in_set] by simp_all
    have bnd: "i < length (inodes l)" "hd zs < length (inodes l)" "last zs < length (inodes l)"
      using N(1) dis(4) lst(2) by (simp_all only: R(1))
    let ?l1 = "inode_upd l (hd zs) (iprev_update (\<lambda>_. ipv l i))"
    let ?l2 = "if ys \<noteq> [] then inode_upd ?l1 (last ys) (inext_update (\<lambda>_. inx l i))
      else ?l1\<lparr>front_idx := inx l i\<rparr>"
    let ?l3 = "inode_upd ?l2 (last zs) (inext_update (\<lambda>_. int i))"
    let ?l4 = "(inode_upd ?l3 i (\<lambda>n. n\<lparr>iprev := back_idx l, inext := IDX_UNDEF\<rparr>))\<lparr>back_idx := int i\<rparr>"
    have t: "ilist2_move_back_by_idx_fn l (int i) = Some ?l4"
      using False N R(1) lst dis dz
      by (cases "ys = []") (simp_all add: ilist2_move_back_by_idx_fn_def Let_def ipv_def inx_def)
    have pv: "ipv ?l4 = ((ipv l)(hd zs := ipv l i))(i := back_idx l)"
      by (rule ext, cases "ys = []") (use bnd dz(2) in \<open>simp_all add: ipv_def\<close>)
    have nx: "inx ?l4 = (if ys = [] then inx l else (inx l)(last ys := inx l i))(last zs := int i, i := IDX_UNDEF)"
      by (rule ext, cases "ys = []") (use bnd dz(2) in \<open>simp_all add: inx_def R(1)\<close>)
    have rm: "dlist (if ys = [] then inx l else (inx l)(last ys := inx l i)) ((ipv l)(hd zs := ipv l i))
        (listsz l) (if ys = [] then inx l i else front_idx l) (back_idx l) (ys @ zs)"
      using dlist_remove[OF R(2)] False by simp
    have d: "dlist (inx ?l4) (ipv ?l4) (listsz l) (if ys = [] then inx l i else front_idx l) (int i) (ys @ zs @ [i])"
      unfolding nx pv using dlist_push_back[OF rm _ dis(2) N(1)] False by simp
    have p: "idx_path (inx ?l4) (listsz l) (freelist_head l) fs IDX_UNDEF"
      unfolding nx using R(3) fs by simp
    have fields: "listsz ?l4 = listsz l" "back_idx ?l4 = int i" "freelist_head ?l4 = freelist_head l"
      "front_idx ?l4 = (if ys = [] then inx l i else front_idx l)" "length (inodes ?l4) = length (inodes l)"
      by simp_all
    have "irep ?l4 (ys @ zs @ [i]) fs" unfolding irep_def fields using d p R(1,4,5) by auto
    moreover have "idata (inodes ?l4 ! j) = idata (inodes l ! j)" for j by (cases "ys = []") simp_all
    ultimately show thesis using that[OF t] fields(1) by blast
  qed
qed

section \<open>The operations refine a deque\<close>

text \<open>Assigning the data of a slot.\<close>

lemma irep_set_data:
  assumes "irep l xs fs"
  shows "irep (inode_upd l i (idata_update (\<lambda>_. v))) xs fs"
proof -
  let ?l = "inode_upd l i (idata_update (\<lambda>_. v))"
  have "inx ?l = inx l" "ipv ?l = ipv l" by (auto simp: inx_def ipv_def fun_eq_iff)
  then show ?thesis using assms by (simp add: irep_def)
qed

lemma irep_inv: "irep l xs fs \<Longrightarrow> ilist2_inv l"
  by (auto simp: ilist2_inv_def)

lemma view_split:
  assumes "irep l xs fs" "ilist2_view l = as @ (i, v) # bs"
  obtains ys zs where "xs = ys @ i # zs" "as = map (idata_at l) ys" "bs = map (idata_at l) zs"
    "v = idata (inodes l ! i)"
proof -
  from assms have "map (idata_at l) xs = as @ (i, v) # bs" by (simp add: ilist2_view_eq)
  then obtain ys b zs where "xs = ys @ b # zs" "map (idata_at l) ys = as" "idata_at l b = (i, v)"
    "map (idata_at l) zs = bs" by (auto simp: map_eq_append_conv map_eq_Cons_conv)
  then show thesis using that by (auto simp: idata_at_def)
qed

lemma put_end_view:
  assumes r: "irep l' ys fs" and m: "m < listsz l'" and same: "\<And>i. idata (inodes l' ! i) = idata (inodes l ! i)"
  shows "ilist2_view (inode_upd l' m (idata_update (\<lambda>_. v))) =
    map (\<lambda>i. if i = m then (m, v) else idata_at l i) ys"
proof -
  have "length (inodes l') = listsz l'" using r by (simp add: irep_def)
  then show ?thesis using m same
    by (simp add: ilist2_view_eq[OF irep_set_data[OF r]] idata_at_def)
qed

lemma ilist2_view_law:
  assumes "ilist2_inv l"
  shows "distinct (map fst (ilist2_view l)) \<and> length (ilist2_view l) \<le> listsz l"
proof -
  obtain xs fs where r: "irep l xs fs" using assms by (auto simp: ilist2_inv_def)
  have "map fst (ilist2_view l) = xs" by (simp add: ilist2_view_eq[OF r] idata_at_def comp_def)
  moreover have "length (ilist2_view l) = length xs" by (simp add: ilist2_view_eq[OF r])
  ultimately show ?thesis using irepD(4)[OF r] irep_length[OF r] by simp
qed

lemma ilist2_put_law:
  assumes "ilist2_inv l" "length (ilist2_view l) < listsz l"
  shows "\<exists>l' i. ilist2_put_front l v = Some (l', Some i) \<and> ilist2_inv l' \<and> listsz l' = listsz l \<and>
      ilist2_view l' = (i, v) # ilist2_view l"
    and "\<exists>l' i. ilist2_put_back l v = Some (l', Some i) \<and> ilist2_inv l' \<and> listsz l' = listsz l \<and>
      ilist2_view l' = ilist2_view l @ [(i, v)]"
proof -
  obtain xs fs0 where r0: "irep l xs fs0" using assms by (auto simp: ilist2_inv_def)
  then have "fs0 \<noteq> []" using assms(2) irep_length[OF r0] by (auto simp: ilist2_view_eq[OF r0])
  then obtain m fs where fs: "fs0 = m # fs" by (cases fs0) auto
  note r = r0[unfolded fs]
  have m: "m < listsz l" "m \<notin> set xs" using irepD[OF r] by auto
  have keep: "map (\<lambda>i. if i = m then (m, v) else idata_at l i) xs = ilist2_view l"
    using m by (auto simp: ilist2_view_eq[OF r])
  obtain l1 where l1: "ilist2_touch_front_fn l = Some (l1, Some m)" "irep l1 (m # xs) fs"
    "listsz l1 = listsz l" "\<And>i. idata (inodes l1 ! i) = idata (inodes l ! i)"
    by (rule ilist2_touch_front_rep[OF r]) blast
  then show "\<exists>l' i. ilist2_put_front l v = Some (l', Some i) \<and> ilist2_inv l' \<and> listsz l' = listsz l \<and>
      ilist2_view l' = (i, v) # ilist2_view l"
    using put_end_view[OF l1(2) _ l1(4), of m v] m irep_inv[OF irep_set_data[OF l1(2)]]
    by (simp add: ilist2_put_front_def keep)
  obtain l2 where l2: "ilist2_touch_back_fn l = Some (l2, Some m)" "irep l2 (xs @ [m]) fs"
    "listsz l2 = listsz l" "\<And>i. idata (inodes l2 ! i) = idata (inodes l ! i)"
    by (rule ilist2_touch_back_rep[OF r]) blast
  then show "\<exists>l' i. ilist2_put_back l v = Some (l', Some i) \<and> ilist2_inv l' \<and> listsz l' = listsz l \<and>
      ilist2_view l' = ilist2_view l @ [(i, v)]"
    using put_end_view[OF l2(2) _ l2(4), of m v] m irep_inv[OF irep_set_data[OF l2(2)]]
    by (simp add: ilist2_put_back_def keep)
qed

lemma ilist2_put_full:
  assumes "ilist2_inv l" "length (ilist2_view l) = listsz l"
  shows "ilist2_put_front l v = Some (l, None)" "ilist2_put_back l v = Some (l, None)"
proof -
  obtain xs fs where r: "irep l xs fs" using assms by (auto simp: ilist2_inv_def)
  then have "fs = []" using assms(2) irep_length[OF r] by (simp add: ilist2_view_eq[OF r])
  then have "freelist_head l = IDX_UNDEF" using irepD(3)[OF r] by simp
  then show "ilist2_put_front l v = Some (l, None)" "ilist2_put_back l v = Some (l, None)"
    by (simp_all add: ilist2_put_front_def ilist2_touch_front_fn_def ilist2_put_back_def ilist2_touch_back_fn_def)
qed

lemma ilist2_pop_law:
  assumes "ilist2_inv l"
  shows "ilist2_view l = (i, v) # vs \<Longrightarrow> \<exists>l'. ilist2_pop_front l = Some (l', v) \<and> ilist2_inv l' \<and>
      listsz l' = listsz l \<and> ilist2_view l' = vs"
    and "ilist2_view l = vs @ [(i, v)] \<Longrightarrow> \<exists>l'. ilist2_pop_back l = Some (l', v) \<and> ilist2_inv l' \<and>
      listsz l' = listsz l \<and> ilist2_view l' = vs"
proof -
  obtain xs fs where r: "irep l xs fs" using assms by (auto simp: ilist2_inv_def)
  { assume "ilist2_view l = (i, v) # vs"
    then have "ilist2_view l = [] @ (i, v) # vs" by simp
    from view_split[OF r this] obtain zs where z: "xs = i # zs" "vs = map (idata_at l) zs"
      "v = idata (inodes l ! i)" by auto
    obtain l' where l': "ilist2_pop_front_fn l = Some (l', i)" "irep l' zs (i # fs)"
      "listsz l' = listsz l" "\<And>j. idata (inodes l' ! j) = idata (inodes l ! j)"
      by (rule ilist2_pop_front_rep[OF r[unfolded z(1)]]) blast
    then show "\<exists>l'. ilist2_pop_front l = Some (l', v) \<and> ilist2_inv l' \<and>
      listsz l' = listsz l \<and> ilist2_view l' = vs"
      using z view_change[OF l'(2)] by (auto simp: ilist2_pop_front_def irep_inv) }
  { assume "ilist2_view l = vs @ [(i, v)]"
    from view_split[OF r this] obtain ys where z: "xs = ys @ [i]" "vs = map (idata_at l) ys"
      "v = idata (inodes l ! i)" by auto
    obtain l' where l': "ilist2_pop_back_fn l = Some (l', i)" "irep l' ys (i # fs)"
      "listsz l' = listsz l" "\<And>j. idata (inodes l' ! j) = idata (inodes l ! j)"
      by (rule ilist2_pop_back_rep[OF r[unfolded z(1)]]) blast
    then show "\<exists>l'. ilist2_pop_back l = Some (l', v) \<and> ilist2_inv l' \<and>
      listsz l' = listsz l \<and> ilist2_view l' = vs"
      using z view_change[OF l'(2)] by (auto simp: ilist2_pop_back_def irep_inv) }
qed

lemma ilist2_move_law:
  assumes "ilist2_inv l" "ilist2_view l = as @ (i, v) # bs"
  shows "\<exists>l'. ilist2_move_front_by_idx_fn l (int i) = Some l' \<and> ilist2_inv l' \<and>
      listsz l' = listsz l \<and> ilist2_view l' = (i, v) # as @ bs"
    and "\<exists>l'. ilist2_move_back_by_idx_fn l (int i) = Some l' \<and> ilist2_inv l' \<and>
      listsz l' = listsz l \<and> ilist2_view l' = as @ bs @ [(i, v)]"
proof -
  obtain xs fs where r: "irep l xs fs" using assms(1) by (auto simp: ilist2_inv_def)
  obtain ys zs where z: "xs = ys @ i # zs" "as = map (idata_at l) ys" "bs = map (idata_at l) zs"
    "v = idata (inodes l ! i)" by (rule view_split[OF r assms(2)])
  obtain l1 where l1: "ilist2_move_front_by_idx_fn l (int i) = Some l1" "irep l1 (i # ys @ zs) fs"
    "listsz l1 = listsz l" "\<And>j. idata (inodes l1 ! j) = idata (inodes l ! j)"
    by (rule ilist2_move_front_rep[OF r[unfolded z(1)]]) blast
  then show "\<exists>l'. ilist2_move_front_by_idx_fn l (int i) = Some l' \<and> ilist2_inv l' \<and>
      listsz l' = listsz l \<and> ilist2_view l' = (i, v) # as @ bs"
    using z view_change[OF l1(2)] by (auto simp: irep_inv idata_at_def)
  obtain l2 where l2: "ilist2_move_back_by_idx_fn l (int i) = Some l2" "irep l2 (ys @ zs @ [i]) fs"
    "listsz l2 = listsz l" "\<And>j. idata (inodes l2 ! j) = idata (inodes l ! j)"
    by (rule ilist2_move_back_rep[OF r[unfolded z(1)]]) blast
  then show "\<exists>l'. ilist2_move_back_by_idx_fn l (int i) = Some l' \<and> ilist2_inv l' \<and>
      listsz l' = listsz l \<and> ilist2_view l' = as @ bs @ [(i, v)]"
    using z view_change[OF l2(2)] by (auto simp: irep_inv idata_at_def)
qed

interpretation il_front: index_list ilist2_inv ilist2_view listsz ilist2_put_front ilist2_pop_front
    ilist2_pop_back ilist2_move_front_by_idx_fn
  by unfold_locales
    (rule ilist2_view_law ilist2_put_law(1) ilist2_put_full(1) ilist2_pop_law ilist2_move_law(1);
     assumption)+

interpretation il_back: index_list ilist2_inv "\<lambda>l. rev (ilist2_view l)" listsz ilist2_put_back
    ilist2_pop_back ilist2_pop_front ilist2_move_back_by_idx_fn
proof
  fix l :: "'a ilist2" and v i xs ys zs
  assume inv: "ilist2_inv l"
  show "distinct (map fst (rev (ilist2_view l))) \<and> length (rev (ilist2_view l)) \<le> listsz l"
    using ilist2_view_law[OF inv] by (simp add: rev_map[symmetric])
  show "\<exists>l' i. ilist2_put_back l v = Some (l', Some i) \<and> ilist2_inv l' \<and> listsz l' = listsz l \<and>
      rev (ilist2_view l') = (i, v) # rev (ilist2_view l)"
    if "length (rev (ilist2_view l)) < listsz l"
    using ilist2_put_law(2)[OF inv, of v] that by fastforce
  show "ilist2_put_back l v = Some (l, None)" if "length (rev (ilist2_view l)) = listsz l"
    using ilist2_put_full(2)[OF inv] that by simp
  show "\<exists>l'. ilist2_pop_back l = Some (l', v) \<and> ilist2_inv l' \<and> listsz l' = listsz l \<and>
      rev (ilist2_view l') = xs" if "rev (ilist2_view l) = (i, v) # xs"
  proof -
    have "ilist2_view l = rev xs @ [(i, v)]" using that by (simp add: rev_eq_Cons_iff)
    from ilist2_pop_law(2)[OF inv this] show ?thesis by auto
  qed
  show "\<exists>l'. ilist2_pop_front l = Some (l', v) \<and> ilist2_inv l' \<and> listsz l' = listsz l \<and>
      rev (ilist2_view l') = xs" if "rev (ilist2_view l) = xs @ [(i, v)]"
  proof -
    have "ilist2_view l = (i, v) # rev xs" using arg_cong[OF that, of rev] by simp
    from ilist2_pop_law(1)[OF inv this] show ?thesis by auto
  qed
  show "\<exists>l'. ilist2_move_back_by_idx_fn l (int i) = Some l' \<and> ilist2_inv l' \<and> listsz l' = listsz l \<and>
      rev (ilist2_view l') = (i, v) # ys @ zs" if "rev (ilist2_view l) = ys @ (i, v) # zs"
  proof -
    have "ilist2_view l = rev zs @ (i, v) # rev ys" using arg_cong[OF that, of rev] by simp
    from ilist2_move_law(2)[OF inv this] show ?thesis by auto
  qed
qed

section \<open>Properties\<close>

lemma ilist2_init_inv:
  assumes "length mem = lsz"
  shows "ilist2_inv (ilist2_init_fn mem lsz usersz)" "ilist2_view (ilist2_init_fn mem lsz usersz) = []"
    "listsz (ilist2_init_fn mem lsz usersz) = lsz"
proof -
  let ?l = "\<lparr>listsz = lsz, freelist_head = 0, front_idx = 0, back_idx = 0,
      il_nodesz = usersz + 8 + 8, inodes = mem\<rparr>"
  have l: "irep (ilist2_clear ?l) [] [0..<lsz]" using ilist2_clear_rep[of ?l] assms by simp
  then show "ilist2_inv (ilist2_init_fn mem lsz usersz)" "ilist2_view (ilist2_init_fn mem lsz usersz) = []"
    using irep_inv[OF l] ilist2_view_eq[OF l] by (simp_all add: ilist2_init_fn_def)
  show "listsz (ilist2_init_fn mem lsz usersz) = lsz" by (simp add: ilist2_init_fn_def ilist2_clear_def)
qed

text \<open>
  C19: Every ilist2 operation refines a double-ended queue of at most listsz values: put adds
  at its end or reports a full list and changes nothing, pop removes from its end, and
  move_front / move_back take the node at an index out of its place and put it at the end.
\<close>

theorem ilist2_refines_deque:
  assumes "ilist2_inv l"
  shows "(length (ilist2_view l) < listsz l \<longrightarrow>
      (\<exists>l' i. ilist2_put_front l v = Some (l', Some i) \<and> ilist2_inv l' \<and>
         ilist2_view l' = (i, v) # ilist2_view l) \<and>
      (\<exists>l' i. ilist2_put_back l v = Some (l', Some i) \<and> ilist2_inv l' \<and>
         ilist2_view l' = ilist2_view l @ [(i, v)])) \<and>
    (length (ilist2_view l) = listsz l \<longrightarrow>
      ilist2_put_front l v = Some (l, None) \<and> ilist2_put_back l v = Some (l, None)) \<and>
    (\<forall>i w xs. ilist2_view l = (i, w) # xs \<longrightarrow>
      (\<exists>l'. ilist2_pop_front l = Some (l', w) \<and> ilist2_inv l' \<and> ilist2_view l' = xs)) \<and>
    (\<forall>i w xs. ilist2_view l = xs @ [(i, w)] \<longrightarrow>
      (\<exists>l'. ilist2_pop_back l = Some (l', w) \<and> ilist2_inv l' \<and> ilist2_view l' = xs)) \<and>
    (\<forall>i w ys zs. ilist2_view l = ys @ (i, w) # zs \<longrightarrow>
      (\<exists>l'. ilist2_move_front_by_idx_fn l (int i) = Some l' \<and> ilist2_inv l' \<and>
         ilist2_view l' = (i, w) # ys @ zs) \<and>
      (\<exists>l'. ilist2_move_back_by_idx_fn l (int i) = Some l' \<and> ilist2_inv l' \<and>
         ilist2_view l' = ys @ zs @ [(i, w)]))"
proof (intro conjI impI allI, goal_cases)
  case 1 then show ?case using ilist2_put_law(1)[OF assms, of v] by blast
next
  case 2 then show ?case using ilist2_put_law(2)[OF assms, of v] by blast
next
  case 3 then show ?case by (rule ilist2_put_full(1)[OF assms])
next
  case 4 then show ?case by (rule ilist2_put_full(2)[OF assms])
next
  case (5 i w xs) then show ?case using ilist2_pop_law(1)[OF assms] by blast
next
  case (6 i w xs) then show ?case using ilist2_pop_law(2)[OF assms] by blast
next
  case (7 i w ys zs) then show ?case using ilist2_move_law(1)[OF assms] by blast
next
  case (8 i w ys zs) then show ?case using ilist2_move_law(2)[OF assms] by blast
qed

theorem ilist2_refines_deque_witness:
  "\<exists>l' i. ilist2_put_front (ilist2_init_fn [\<lparr>iprev = 4, inext = 9, idata = (0::nat)\<rparr>] 1 8) 5 = Some (l', Some i) \<and>
    ilist2_inv l' \<and> ilist2_view l' = [(i, 5)]"
proof -
  let ?l = "ilist2_init_fn [\<lparr>iprev = 4, inext = 9, idata = (0::nat)\<rparr>] 1 8"
  have l: "ilist2_inv ?l" "ilist2_view ?l = []" "listsz ?l = 1" by (rule ilist2_init_inv; simp)+
  show ?thesis using conjunct1[OF ilist2_refines_deque[OF l(1), of 5]] l(2,3) by auto
qed

text \<open>
  Pushing values on a fresh list and popping them gives them back in order through
  opposite ends (a queue) and in reverse through the same end (a stack), and leaves an empty
  list.
\<close>

lemma ilist2_queue_stack:
  assumes "length mem = lsz" "length vs \<le> lsz"
  shows "let l0 = ilist2_init_fn mem lsz usersz; n = length vs in
    (\<exists>l1 l2. push_all ilist2_put_front l0 vs = Some l1 \<and>
       pop_all ilist2_pop_back n l1 = Some (l2, vs) \<and> ilist2_inv l2 \<and> ilist2_view l2 = []) \<and>
    (\<exists>l1 l2. push_all ilist2_put_back l0 vs = Some l1 \<and>
       pop_all ilist2_pop_front n l1 = Some (l2, vs) \<and> ilist2_inv l2 \<and> ilist2_view l2 = []) \<and>
    (\<exists>l1 l2. push_all ilist2_put_front l0 vs = Some l1 \<and>
       pop_all ilist2_pop_front n l1 = Some (l2, rev vs) \<and> ilist2_inv l2 \<and> ilist2_view l2 = []) \<and>
    (\<exists>l1 l2. push_all ilist2_put_back l0 vs = Some l1 \<and>
       pop_all ilist2_pop_back n l1 = Some (l2, rev vs) \<and> ilist2_inv l2 \<and> ilist2_view l2 = [])"
proof -
  note i = ilist2_init_inv[OF assms(1), of usersz]
  show ?thesis
    unfolding Let_def
    using il_front.fifo[OF i(1,2)] il_back.fifo[OF i(1)] il_front.lifo[OF i(1)] il_back.lifo[OF i(1)]
      i assms(2) by simp
qed

lemma ilist2_queue_stack_example:
  "\<exists>l1 l2. push_all ilist2_put_front
      (ilist2_init_fn (replicate 4 \<lparr>iprev = 3, inext = 3, idata = (0::nat)\<rparr>) 4 8) [7, 8, 9] = Some l1 \<and>
    pop_all ilist2_pop_back (length [7, 8, 9::nat]) l1 = Some (l2, [7, 8, 9]) \<and>
    ilist2_inv l2 \<and> ilist2_view l2 = []"
proof -
  have "length (replicate 4 \<lparr>iprev = 3, inext = 3, idata = (0::nat)\<rparr>) = 4" "length [7, 8, 9::nat] \<le> 4"
    by simp_all
  from conjunct1[OF ilist2_queue_stack[OF this, of 8, unfolded Let_def]] show ?thesis .
qed

text \<open>
  On a well-formed list the four pop and get operations fail exactly when ilist2_empty
  holds: on an empty list the code indexes the node array with ILIST2_UNDEF.
\<close>

lemma ilist2_pop_empty:
  assumes "ilist2_inv l"
  shows "(ilist2_empty l \<longleftrightarrow> ilist2_view l = []) \<and>
    (ilist2_empty l \<longleftrightarrow> ilist2_pop_back l = None) \<and> (ilist2_empty l \<longleftrightarrow> ilist2_pop_front l = None) \<and>
    (ilist2_empty l \<longleftrightarrow> ilist2_get_back_fn l = None) \<and> (ilist2_empty l \<longleftrightarrow> ilist2_get_front_fn l = None)"
proof -
  obtain xs fs where r: "irep l xs fs" using assms by (auto simp: ilist2_inv_def)
  note R = irepD[OF r]
  show ?thesis
  proof (cases "xs = []")
    case True
    then have "front_idx l = IDX_UNDEF" "back_idx l = IDX_UNDEF" using R(2) by (simp_all add: dlist_def)
    then show ?thesis using True
      by (simp add: ilist2_empty_def ilist2_view_eq[OF r] ilist2_pop_back_def ilist2_pop_front_def
        ilist2_pop_back_fn_def ilist2_pop_front_fn_def ilist2_get_back_fn_def ilist2_get_front_fn_def)
  next
    case False
    note E = dlist_ends[OF R(2) False]
    obtain y ys where y: "ilist2_view l = y # ys" using False by (cases xs) (auto simp: ilist2_view_eq[OF r])
    obtain z zs where z: "ilist2_view l = zs @ [z]" using y by (metis rev_exhaust list.distinct(1))
    have "ilist2_pop_front l \<noteq> None" using ilist2_pop_law(1)[OF assms, of "fst y" "snd y" ys] y by auto
    moreover have "ilist2_pop_back l \<noteq> None" using ilist2_pop_law(2)[OF assms, of zs "fst z" "snd z"] z by auto
    ultimately show ?thesis using E y R(1)
      by (simp add: ilist2_empty_def ilist2_get_back_fn_def ilist2_get_front_fn_def)
  qed
qed

lemma ilist2_pop_empty_example:
  "ilist2_pop_back (ilist2_init_fn [\<lparr>iprev = 4, inext = 9, idata = (0::nat)\<rparr>] 1 8) = None"
proof -
  let ?l = "ilist2_init_fn [\<lparr>iprev = 4, inext = 9, idata = (0::nat)\<rparr>] 1 8"
  have l: "ilist2_inv ?l" "ilist2_view ?l = []" by (rule ilist2_init_inv; simp)+
  show ?thesis using ilist2_pop_empty[OF l(1)] l(2) by blast
qed

end
