(* ===== verification/Scr_Icache.thy ===== *)
theory Scr_Icache
  imports Scr_Ihash Scr_Ilist2
begin

text \<open>
  \<^verbatim>\<open>lib/core/src/icache.h\<close> and \<^verbatim>\<open>icache.c\<close>: a hash table
  whose nodes also carry the index of their key in a list ordered by last use. A failed
  assert is the value \<open>None\<close>; the code's NULL is the inner \<open>None\<close>.
\<close>

section \<open>Data\<close>

text \<open>A hash node's value: the user's data, then the list index (at \<open>idxoffs\<close>).\<close>

record 'v cnode =
  cn_data :: 'v
  cn_idx :: int

text \<open>The offsets of the header place the parts in one block of memory, here the fields.\<close>

record ('v, 'e) icache =
  hashoffs :: u64
  listoffs :: u64
  extraoffs :: u64
  ic_nodesz :: u64
  extrasz :: u64
  ic_hash :: "'v cnode ihash"
  ic_list :: "i64 ilist2"
  ic_extra :: 'e

definition icache_get_required_memory_size :: "u64 \<Rightarrow> u64 \<Rightarrow> u64 \<Rightarrow> u64 \<Rightarrow> u64" where
  "icache_get_required_memory_size bsz csz usersz esz = 40 +
     ihash_get_required_memory_size bsz csz (usersz + 8) +
     ilist2_get_required_memory_size (bsz + csz) 8 + esz"

section \<open>Creation\<close>

text \<open>
  \<open>mem\<close> is the block handed over: the uninitialised buckets, chain nodes and list
  nodes, and the extra data.
\<close>

definition icache_init_fn :: "'v cnode hnode list \<times> 'v cnode hnode list \<times> i64 inode list \<times> 'e \<Rightarrow>
    nat \<Rightarrow> nat \<Rightarrow> nat \<Rightarrow> u64 \<Rightarrow> (u64 \<Rightarrow> u64) option \<Rightarrow> u64 \<Rightarrow> ('v, 'e) icache option" where
  "icache_init_fn mem bsz csz koffs usersz fn esz =
     (case mem of (bs, cs, ls, ex) \<Rightarrow>
      let nsz = usersz + 8; hoffs = 40;
          loffs = hoffs + ihash_get_required_memory_size (of_nat bsz) (of_nat csz) nsz;
          eoffs = loffs + ilist2_get_required_memory_size (of_nat (bsz + csz)) 8 in
      if bsz = 0 then None
      else map_option (\<lambda>h. \<lparr>hashoffs = hoffs, listoffs = loffs, extraoffs = eoffs, ic_nodesz = nsz,
             extrasz = esz, ic_hash = h, ic_list = ilist2_init_fn ls (bsz + csz) 8, ic_extra = ex\<rparr>)
           (ihash_init_fn bs cs bsz csz koffs (unat nsz) fn))"

definition icache_create_fn :: "('v cnode hnode list \<times> 'v cnode hnode list \<times> i64 inode list \<times> 'e) option \<Rightarrow>
    nat \<Rightarrow> nat \<Rightarrow> nat \<Rightarrow> u64 \<Rightarrow> (u64 \<Rightarrow> u64) option \<Rightarrow> u64 \<Rightarrow> ('v, 'e) icache option" where
  "icache_create_fn mem bsz csz koffs usersz fn esz =
     (if bsz = 0 then None
      else Option.bind mem (\<lambda>m. icache_init_fn m bsz csz koffs usersz fn esz))"

definition icache_clear :: "('v, 'e) icache \<Rightarrow> (u64 \<Rightarrow> u64) option \<Rightarrow> ('v, 'e) icache" where
  "icache_clear c fn = c\<lparr>ic_hash := ihash_clear (ic_hash c) fn, ic_list := ilist2_clear (ic_list c)\<rparr>"

section \<open>Operations\<close>

definition icache_get :: "('v, 'e) icache \<Rightarrow> i64 \<Rightarrow> hloc option option" where
  "icache_get c key = ihash_get_fn (ic_hash c) key"

definition icache_exists :: "('v, 'e) icache \<Rightarrow> i64 \<Rightarrow> bool option" where
  "icache_exists c key = map_option (\<lambda>r. r \<noteq> None) (icache_get c key)"

text \<open>The macro icache_get_value: the member, or the zero of its type.\<close>

definition icache_get_value :: "'v \<Rightarrow> ('v, 'e) icache \<Rightarrow> i64 \<Rightarrow> 'v option" where
  "icache_get_value zero c key = map_option (\<lambda>r. case r of None \<Rightarrow> zero
     | Some e \<Rightarrow> cn_data (hval (ihash_node (ic_hash c) e))) (icache_get c key)"

text \<open>\<open>*(icache_idx_t *)(e + idxoffs) = ilist2_put_front(list, key)\<close> and its assert.\<close>

definition icache_link :: "('v, 'e) icache \<Rightarrow> i64 \<Rightarrow> hloc \<Rightarrow> (('v, 'e) icache \<times> hloc option) option" where
  "icache_link c key e = Option.bind (ilist2_put_front (ic_list c) key) (\<lambda>(l', idx).
     case idx of None \<Rightarrow> None
     | Some i \<Rightarrow> Some (c\<lparr>ic_list := l',
         ic_hash := ihash_upd (ic_hash c) e (hval_update (cn_idx_update (\<lambda>_. int i)))\<rparr>, Some e))"

definition icache_touch_fn :: "('v, 'e) icache \<Rightarrow> i64 \<Rightarrow> (('v, 'e) icache \<times> hloc option) option" where
  "icache_touch_fn c key = Option.bind (icache_get c key) (\<lambda>r. case r of
     Some e \<Rightarrow> map_option (\<lambda>l. (c\<lparr>ic_list := l\<rparr>, Some e))
       (ilist2_move_front_by_idx_fn (ic_list c) (cn_idx (hval (ihash_node (ic_hash c) e))))
   | None \<Rightarrow> Option.bind (ihash_touch_fn (ic_hash c) key) (\<lambda>(h1, r1). case r1 of
       Some e \<Rightarrow> icache_link (c\<lparr>ic_hash := h1\<rparr>) key e
     | None \<Rightarrow> Option.bind (ilist2_pop_back (ic_list c)) (\<lambda>(l, lru_key).
         if lru_key = IHASH_UNDEF \<or> ihash_exists h1 lru_key \<noteq> Some True then None
         else Option.bind (ihash_erase_fn h1 lru_key) (\<lambda>(h2, _).
           Option.bind (ihash_touch_fn h2 key) (\<lambda>(h3, r3). case r3 of
             None \<Rightarrow> Some (c\<lparr>ic_hash := h3, ic_list := l\<rparr>, None)
           | Some e \<Rightarrow> icache_link (c\<lparr>ic_hash := h3, ic_list := l\<rparr>) key e)))))"

text \<open>The macro icache_put.\<close>

definition icache_put :: "('v, 'e) icache \<Rightarrow> i64 \<Rightarrow> 'v \<Rightarrow> (('v, 'e) icache \<times> hloc option) option" where
  "icache_put c key v = map_option (\<lambda>(c', r). case r of None \<Rightarrow> (c', None)
     | Some e \<Rightarrow> (c'\<lparr>ic_hash := ihash_upd (ic_hash c') e (hval_update (cn_data_update (\<lambda>_. v)))\<rparr>, Some e))
     (icache_touch_fn c key)"

section \<open>Invariant and abstraction\<close>

definition icache_keys :: "('v, 'e) icache \<Rightarrow> i64 list" where
  "icache_keys c = map snd (ilist2_view (ic_list c))"

definition icache_map :: "('v, 'e) icache \<Rightarrow> i64 \<Rightarrow> 'v option" where
  "icache_map c k = map_option cn_data (ihash_map (ic_hash c) k)"

definition ic_sync :: "'v cnode ihash \<Rightarrow> (nat \<times> i64) list \<Rightarrow> bool" where
  "ic_sync h vw \<longleftrightarrow> (\<forall>(i, k) \<in> set vw. map_option cn_idx (ihash_map h k) = Some (int i))"

definition icache_inv :: "('v, 'e) icache \<Rightarrow> bool" where
  "icache_inv c \<longleftrightarrow> ihash_inv (ic_hash c) \<and> ilist2_inv (ic_list c) \<and>
     listsz (ic_list c) = bucketsz (ic_hash c) + chainsz (ic_hash c) \<and>
     distinct (icache_keys c) \<and> set (icache_keys c) = dom (ihash_map (ic_hash c)) \<and>
     ic_sync (ic_hash c) (ilist2_view (ic_list c))"

text \<open>A new node \<open>e\<close> for \<open>k\<close> is in the table but not yet in the list.\<close>

definition icache_half :: "('v, 'e) icache \<Rightarrow> i64 \<Rightarrow> hloc \<Rightarrow> bool" where
  "icache_half c k e \<longleftrightarrow> ihash_inv (ic_hash c) \<and> ilist2_inv (ic_list c) \<and>
     listsz (ic_list c) = bucketsz (ic_hash c) + chainsz (ic_hash c) \<and>
     distinct (icache_keys c) \<and> k \<notin> set (icache_keys c) \<and>
     dom (ihash_map (ic_hash c)) = insert k (set (icache_keys c)) \<and>
     ic_sync (ic_hash c) (ilist2_view (ic_list c)) \<and>
     e \<in> set (hslots (ic_hash c) (ihash_idx (ic_hash c) k)) \<and> hkey (ihash_node (ic_hash c) e) = k"

definition same_shape :: "('v, 'e) icache \<Rightarrow> ('v, 'e) icache \<Rightarrow> bool" where
  "same_shape c c' \<longleftrightarrow> bucketsz (ic_hash c') = bucketsz (ic_hash c) \<and>
     chainsz (ic_hash c') = chainsz (ic_hash c) \<and> ic_extra c' = ic_extra c"

text \<open>The node returned for a key.\<close>

definition icache_node_of :: "('v, 'e) icache \<Rightarrow> i64 \<Rightarrow> hloc \<Rightarrow> bool" where
  "icache_node_of c k e \<longleftrightarrow> e \<in> set (hslots (ic_hash c) (ihash_idx (ic_hash c) k)) \<and>
     hkey (ihash_node (ic_hash c) e) = k"

lemma ihash_slot_map:
  assumes inv: "ihash_inv h" and e: "e \<in> set (hslots h (ihash_idx h k))" "hkey (ihash_node h e) = k"
  shows "ihash_map h k = Some (hval (ihash_node h e))"
proof -
  have "ihash_upd h e (hval_update (\<lambda>_. hval (ihash_node h e))) = h"
    by (cases e) simp_all
  then show ?thesis using ihash_set_value(2)[OF inv e refl, of "hval (ihash_node h e)"] by (metis fun_upd_same)
qed

text \<open>Updating a node's value in place: the map changes at its key, the slots do not.\<close>

lemma ihash_upd_value:
  assumes inv: "ihash_inv h" and e: "e \<in> set (hslots h (ihash_idx h k))" "hkey (ihash_node h e) = k"
    and h': "h' = ihash_upd h e (hval_update f)"
  shows "ihash_inv h'" "ihash_map h' = (ihash_map h)(k \<mapsto> f (hval (ihash_node h e)))"
    "bucketsz h' = bucketsz h" "chainsz h' = chainsz h"
    "e \<in> set (hslots h' (ihash_idx h' k))" "hkey (ihash_node h' e) = k"
proof -
  have h'': "h' = ihash_upd h e (hval_update (\<lambda>_. f (hval (ihash_node h e))))"
    unfolding h' by (rule ihash_upd_const)
  show "ihash_inv h'" "ihash_map h' = (ihash_map h)(k \<mapsto> f (hval (ihash_node h e)))"
    by (rule ihash_set_value[OF inv e h''])+
  have nodes: "hkey (ihash_node h' m) = hkey (ihash_node h m) \<and>
      hnext (ihash_node h' m) = hnext (ihash_node h m)" for m
    unfolding h' by (cases e; cases m) (auto simp: nth_upd)
  have f: "hkey (buckets h' ! i) = hkey (buckets h ! i)" "hnext (buckets h' ! i) = hnext (buckets h ! i)"
    "hnx h' = hnx h" for i
    using nodes[of "Bucket i"] nodes[of "Chain _"] by (auto simp: hnx_def fun_eq_iff)
  show same: "bucketsz h' = bucketsz h" "chainsz h' = chainsz h" unfolding h' by (cases e; simp)+
  have "hash_fn h' = hash_fn h" unfolding h' by (cases e; simp)
  then show "e \<in> set (hslots h' (ihash_idx h' k))"
    using e(1) by (simp add: hslots_def hslots_of_def f same ihash_idx_def)
  show "hkey (ihash_node h' e) = k" using nodes[of e] e(2) by simp
qed

lemma icache_link_ok:
  assumes half: "icache_half c k e"
  obtains c' where "icache_link c k e = Some (c', Some e)" "icache_inv c'" "same_shape c c'"
    "icache_keys c' = k # icache_keys c" "icache_map c' = icache_map c" "icache_node_of c' k e"
proof -
  let ?h = "ic_hash c" and ?l = "ic_list c"
  have inv: "ihash_inv ?h" "ilist2_inv ?l" and e: "e \<in> set (hslots ?h (ihash_idx ?h k))" "hkey (ihash_node ?h e) = k"
    and sz: "listsz ?l = bucketsz ?h + chainsz ?h" and d: "distinct (icache_keys c)" "k \<notin> set (icache_keys c)"
    and dm: "dom (ihash_map ?h) = insert k (set (icache_keys c))" and sy: "ic_sync ?h (ilist2_view ?l)"
    using half by (simp_all add: icache_half_def)
  have "length (ilist2_view ?l) < listsz ?l"
    using ihash_card[OF inv(1)] distinct_card[OF d(1)] d(2) unfolding dm sz
    by (simp add: icache_keys_def)
  from ilist2_put_law(1)[OF inv(2) this, of k] obtain l' i where l': "ilist2_put_front ?l k = Some (l', Some i)"
    "ilist2_inv l'" "listsz l' = listsz ?l" "ilist2_view l' = (i, k) # ilist2_view ?l" by blast
  let ?h' = "ihash_upd ?h e (hval_update (cn_idx_update (\<lambda>_. int i)))"
  let ?c' = "c\<lparr>ic_list := l', ic_hash := ?h'\<rparr>"
  note u = ihash_upd_value[OF inv(1) e refl, of "cn_idx_update (\<lambda>_. int i)"]
  note at = ihash_slot_map[OF inv(1) e]
  have t: "icache_link c k e = Some (?c', Some e)" using l' by (simp add: icache_link_def)
  have keys: "icache_keys ?c' = k # icache_keys c" using l' by (simp add: icache_keys_def)
  have "k' \<noteq> k" if "(j, k') \<in> set (ilist2_view ?l)" for j k'
    using d(2) that by (auto simp: icache_keys_def image_iff)
  then have "ic_sync ?h' (ilist2_view l')"
    using sy l' u(2) by (auto simp: ic_sync_def)
  then have "icache_inv ?c'"
    using u l' sz d dm keys by (simp add: icache_inv_def)
  moreover have "icache_map ?c' = icache_map c"
    using u(2) at by (auto simp: icache_map_def fun_eq_iff)
  moreover have "same_shape c ?c'" using u by (simp add: same_shape_def)
  moreover have "icache_node_of ?c' k e" using u by (simp add: icache_node_of_def)
  ultimately show thesis using that[OF t _ _ keys] by blast
qed

text \<open>A hit moves the key to the front of the list.\<close>

lemma icache_touch_hit:
  assumes inv: "icache_inv c" and k: "k \<in> set (icache_keys c)"
  obtains c' e where "icache_touch_fn c k = Some (c', Some e)" "icache_inv c'" "same_shape c c'"
    "icache_keys c' = k # removeAll k (icache_keys c)" "icache_map c' = icache_map c" "icache_node_of c' k e"
proof -
  let ?h = "ic_hash c" and ?l = "ic_list c"
  have I: "ihash_inv ?h" "ilist2_inv ?l" "distinct (icache_keys c)"
    "set (icache_keys c) = dom (ihash_map ?h)" "ic_sync ?h (ilist2_view ?l)"
    using inv by (simp_all add: icache_inv_def)
  obtain i where "(i, k) \<in> set (ilist2_view ?l)" using k by (auto simp: icache_keys_def)
  then obtain as bs where ab: "ilist2_view ?l = as @ (i, k) # bs" by (meson split_list)
  obtain v where v: "ihash_map ?h k = Some v" using k I(4) by auto
  then have idx: "cn_idx v = int i" using I(5) ab by (auto simp: ic_sync_def)
  obtain e where e: "ihash_get_fn ?h k = Some (Some e)" "hval (ihash_node ?h e) = v" "hkey (ihash_node ?h e) = k"
    "e \<in> set (hslots ?h (ihash_idx ?h k))"
  proof -
    obtain ps fs where hl: "hlinks ?h ps fs" using I(1) by (auto simp: ihash_inv_def hrep_def)
    let ?f = "List.find (\<lambda>l. hkey (ihash_node ?h l) = k) (hslots ?h (ihash_idx ?h k))"
    have g: "ihash_get_fn ?h k = Some ?f"
      using ihash_get_find[OF hl, of k] by (simp add: hslots_eq[OF hl ihash_idx_less[OF hl]])
    have "map_option (\<lambda>l. hval (ihash_node ?h l)) ?f = Some v"
      using v by (simp add: ihash_map_def hkv_find)
    then obtain e where "?f = Some e" "hval (ihash_node ?h e) = v" by (auto simp: map_option_eq_Some)
    then show thesis using that[of e] g find_SomeD[of _ _ e] by auto
  qed
  from ilist2_move_law(1)[OF I(2) ab] obtain l' where l': "ilist2_move_front_by_idx_fn ?l (int i) = Some l'"
    "ilist2_inv l'" "listsz l' = listsz ?l" "ilist2_view l' = (i, k) # as @ bs" by blast
  let ?c' = "c\<lparr>ic_list := l'\<rparr>"
  have t: "icache_touch_fn c k = Some (?c', Some e)"
    using e idx l' by (simp add: icache_touch_fn_def icache_get_def)
  have d: "k \<notin> set (map snd as)" "k \<notin> set (map snd bs)" using I(3) ab by (auto simp: icache_keys_def)
  then have keys: "icache_keys ?c' = k # removeAll k (icache_keys c)"
    using ab l' by (simp add: icache_keys_def)
  have vs: "set (ilist2_view l') = set (ilist2_view ?l)" using ab l' by auto
  have "ic_sync ?h (ilist2_view l')" using I(5) unfolding ic_sync_def vs .
  moreover have "set (icache_keys ?c') = set (icache_keys c)" using keys k by auto
  moreover have "distinct (icache_keys ?c')" using keys I(3) by (simp add: distinct_removeAll)
  ultimately have "icache_inv ?c'" using inv l' by (simp add: icache_inv_def)
  moreover have "icache_map ?c' = icache_map c" by (simp add: icache_map_def fun_eq_iff)
  moreover have "icache_node_of ?c' k e" using e by (simp add: icache_node_of_def)
  moreover have "same_shape c ?c'" by (simp add: same_shape_def)
  ultimately show thesis using that[OF t _ _ keys] by blast
qed

text \<open>A miss that finds room in the table.\<close>

lemma icache_half_intro:
  assumes inv: "icache_inv c" and k: "k \<notin> set (icache_keys c)" and h: "ihash_inv h"
    "ihash_map h = (ihash_map (ic_hash c))(k \<mapsto> v)" "bucketsz h = bucketsz (ic_hash c)"
    "chainsz h = chainsz (ic_hash c)" "e \<in> set (hslots h (ihash_idx h k))" "hkey (ihash_node h e) = k"
  shows "icache_half (c\<lparr>ic_hash := h\<rparr>) k e"
proof -
  have "k' \<noteq> k" if "(j, k') \<in> set (ilist2_view (ic_list c))" for j k'
    using k that by (auto simp: icache_keys_def image_iff)
  then have "ic_sync h (ilist2_view (ic_list c))"
    using inv h(2) by (auto simp: icache_inv_def ic_sync_def)
  then show ?thesis using inv k h by (simp add: icache_half_def icache_inv_def icache_keys_def)
qed

lemma icache_add_ok:
  assumes inv: "icache_inv c" and k: "k \<notin> set (icache_keys c)"
    and t: "ihash_touch_fn (ic_hash c) k = Some (h, Some e)" and h: "ihash_inv h"
    "ihash_map h = (ihash_map (ic_hash c))(k \<mapsto> v)" "bucketsz h = bucketsz (ic_hash c)"
    "chainsz h = chainsz (ic_hash c)" "e \<in> set (hslots h (ihash_idx h k))" "hkey (ihash_node h e) = k"
  obtains c' where "icache_link (c\<lparr>ic_hash := h\<rparr>) k e = Some (c', Some e)" "icache_inv c'" "same_shape c c'"
    "icache_keys c' = k # icache_keys c" "icache_map c' = (icache_map c)(k \<mapsto> cn_data v)" "icache_node_of c' k e"
proof -
  have half: "icache_half (c\<lparr>ic_hash := h\<rparr>) k e" by (rule icache_half_intro[OF inv k h])
  have m: "icache_map (c\<lparr>ic_hash := h\<rparr>) = (icache_map c)(k \<mapsto> cn_data v)"
    using h(2) by (auto simp: icache_map_def fun_eq_iff)
  have ks: "icache_keys (c\<lparr>ic_hash := h\<rparr>) = icache_keys c" by (simp add: icache_keys_def)
  obtain c' where c': "icache_link (c\<lparr>ic_hash := h\<rparr>) k e = Some (c', Some e)" "icache_inv c'"
    "same_shape (c\<lparr>ic_hash := h\<rparr>) c'" "icache_keys c' = k # icache_keys (c\<lparr>ic_hash := h\<rparr>)"
    "icache_map c' = icache_map (c\<lparr>ic_hash := h\<rparr>)" "icache_node_of c' k e"
    by (rule icache_link_ok[OF half])
  have "same_shape c c'" using c'(3) h(3,4) by (simp add: same_shape_def)
  then show thesis using that[OF c'(1,2) _ _ _ c'(6)] c'(4,5) unfolding m ks by blast
qed

text \<open>Dropping the least recently used key.\<close>

lemma icache_evict:
  assumes inv: "icache_inv c" and ks: "icache_keys c = ks @ [lru]"
  obtains l h where "ilist2_pop_back (ic_list c) = Some (l, lru)" "lru \<noteq> IHASH_UNDEF"
    "ihash_exists (ic_hash c) lru = Some True" "ihash_erase_fn (ic_hash c) lru = Some (h, True)"
    "icache_inv (c\<lparr>ic_hash := h, ic_list := l\<rparr>)" "same_shape c (c\<lparr>ic_hash := h, ic_list := l\<rparr>)"
    "icache_keys (c\<lparr>ic_hash := h, ic_list := l\<rparr>) = ks"
    "icache_map (c\<lparr>ic_hash := h, ic_list := l\<rparr>) = (icache_map c)(lru := None)"
proof -
  let ?h = "ic_hash c" and ?l = "ic_list c"
  have I: "ihash_inv ?h" "ilist2_inv ?l" "distinct (icache_keys c)"
    "set (icache_keys c) = dom (ihash_map ?h)" "ic_sync ?h (ilist2_view ?l)"
    "listsz ?l = bucketsz ?h + chainsz ?h"
    using inv by (simp_all add: icache_inv_def)
  have "map snd (ilist2_view ?l) = ks @ [lru]" using ks by (simp add: icache_keys_def)
  then obtain vw i where vw: "ilist2_view ?l = vw @ [(i, lru)]" "map snd vw = ks"
    by (auto simp: map_eq_append_conv)
  from ilist2_pop_law(2)[OF I(2) vw(1)] obtain l where l: "ilist2_pop_back ?l = Some (l, lru)"
    "ilist2_inv l" "listsz l = listsz ?l" "ilist2_view l = vw" by blast
  have ex: "ihash_map ?h lru \<noteq> None" using I(4) ks by auto
  then have un: "lru \<noteq> IHASH_UNDEF" using ihash_map_UNDEF[OF I(1)] by auto
  obtain h where h: "ihash_erase_fn ?h lru = Some (h, ihash_map ?h lru \<noteq> None)" "ihash_inv h"
    "ihash_map h = (ihash_map ?h)(lru := None)" "bucketsz h = bucketsz ?h" "chainsz h = chainsz ?h"
    by (rule ihash_erase_ok[OF I(1)])
  let ?c' = "c\<lparr>ic_hash := h, ic_list := l\<rparr>"
  have nl: "lru \<notin> set ks" using I(3) ks by simp
  have "k' \<noteq> lru" if "(j, k') \<in> set vw" for j k'
    using nl that unfolding vw(2)[symmetric] by (auto simp: image_iff)
  then have sy: "ic_sync h vw" using I(5) vw(1) h(3) by (auto simp: ic_sync_def)
  have "dom (ihash_map h) = set ks" using h(3) I(4) ks nl by auto
  then have "icache_inv ?c'" using h l I(3,6) ks sy vw(2) by (simp add: icache_inv_def icache_keys_def)
  moreover have "icache_map ?c' = (icache_map c)(lru := None)"
    using h(3) by (auto simp: icache_map_def fun_eq_iff)
  moreover have "same_shape c ?c'" using h by (simp add: same_shape_def)
  moreover have "icache_keys ?c' = ks" using l vw by (simp add: icache_keys_def)
  ultimately show thesis using that[OF l(1) un] h(1) ex ihash_exists_map[OF I(1)] by simp
qed

text \<open>
  The three outcomes of a miss: the table has room; the least recently used key is dropped
  and the table has room then; or it still has none.
\<close>

lemma icache_miss_cases:
  assumes inv: "icache_inv c" and k: "k \<noteq> IHASH_UNDEF" "k \<notin> set (icache_keys c)"
  obtains (room) h e c' where "ihash_touch_fn (ic_hash c) k = Some (h, Some e)"
      "icache_node_of (c\<lparr>ic_hash := h\<rparr>) k e" "ihash_inv h"
      "icache_link (c\<lparr>ic_hash := h\<rparr>) k e = Some (c', Some e)" "icache_inv c'" "same_shape c c'"
      "icache_keys c' = k # icache_keys c"
      "icache_map c' = (icache_map c)(k \<mapsto> cn_data (hval (ihash_node h e)))" "icache_node_of c' k e"
  | (evicted) ks lru l h h3 e c' where "ihash_touch_fn (ic_hash c) k = Some (ic_hash c, None)"
      "chainsz (ic_hash c) < length (icache_keys c)"
      "icache_keys c = ks @ [lru]" "ilist2_pop_back (ic_list c) = Some (l, lru)" "lru \<noteq> IHASH_UNDEF"
      "ihash_exists (ic_hash c) lru = Some True" "ihash_erase_fn (ic_hash c) lru = Some (h, True)"
      "ihash_touch_fn h k = Some (h3, Some e)"
      "icache_node_of (c\<lparr>ic_hash := h3, ic_list := l\<rparr>) k e" "ihash_inv h3"
      "icache_link (c\<lparr>ic_hash := h3, ic_list := l\<rparr>) k e = Some (c', Some e)" "icache_inv c'" "same_shape c c'"
      "icache_keys c' = k # ks"
      "icache_map c' = (icache_map c)(lru := None, k \<mapsto> cn_data (hval (ihash_node h3 e)))" "icache_node_of c' k e"
  | (failed) ks lru l h where "ihash_touch_fn (ic_hash c) k = Some (ic_hash c, None)"
      "chainsz (ic_hash c) < length (icache_keys c)"
      "icache_keys c = ks @ [lru]" "ilist2_pop_back (ic_list c) = Some (l, lru)" "lru \<noteq> IHASH_UNDEF"
      "ihash_exists (ic_hash c) lru = Some True" "ihash_erase_fn (ic_hash c) lru = Some (h, True)"
      "ihash_touch_fn h k = Some (h, None)"
      "icache_inv (c\<lparr>ic_hash := h, ic_list := l\<rparr>)" "same_shape c (c\<lparr>ic_hash := h, ic_list := l\<rparr>)"
      "icache_keys (c\<lparr>ic_hash := h, ic_list := l\<rparr>) = ks"
      "icache_map (c\<lparr>ic_hash := h, ic_list := l\<rparr>) = (icache_map c)(lru := None)"
proof -
  let ?h = "ic_hash c" and ?l = "ic_list c"
  have I: "ihash_inv ?h" "set (icache_keys c) = dom (ihash_map ?h)" "distinct (icache_keys c)"
    using inv by (simp_all add: icache_inv_def)
  have none: "ihash_map ?h k = None" using k(2) I(2) by auto
  show thesis
  proof (rule ihash_touch_absent[OF I(1) none k(1)])
    fix h e assume t: "ihash_touch_fn ?h k = Some (h, Some e)"
      and h: "ihash_inv h" "hkey (ihash_node h e) = k" "ihash_map h = (ihash_map ?h)(k \<mapsto> hval (ihash_node h e))"
      "bucketsz h = bucketsz ?h" "hash_fn h = hash_fn ?h" "chainsz h = chainsz ?h" "e \<in> set (hslots h (ihash_idx h k))"
    obtain c' where "icache_link (c\<lparr>ic_hash := h\<rparr>) k e = Some (c', Some e)" "icache_inv c'" "same_shape c c'"
      "icache_keys c' = k # icache_keys c" "icache_map c' = (icache_map c)(k \<mapsto> cn_data (hval (ihash_node h e)))"
      "icache_node_of c' k e"
      by (rule icache_add_ok[OF inv k(2) t h(1,3,4,6,7,2)])
    then show thesis using room[OF t _ h(1)] h(2,7) by (simp add: icache_node_of_def)
  next
    assume t: "ihash_touch_fn ?h k = Some (?h, None)" and full: "chain_head ?h = IDX_UNDEF"
      "hkey (buckets ?h ! ihash_idx ?h k) \<noteq> IHASH_UNDEF"
    obtain ps fs where hl: "hlinks ?h ps fs" using I(1) by (auto simp: ihash_inv_def hrep_def)
    have card: "chainsz ?h < length (icache_keys c)"
      using ihash_full_card[OF I(1) full(1) ihash_idx_less[OF hl] full(2)] distinct_card[OF I(3)] I(2) by simp
    then obtain ks lru where ks: "icache_keys c = ks @ [lru]" by (cases "icache_keys c" rule: rev_cases) auto
    obtain l h where e: "ilist2_pop_back ?l = Some (l, lru)" "lru \<noteq> IHASH_UNDEF"
      "ihash_exists ?h lru = Some True" "ihash_erase_fn ?h lru = Some (h, True)"
      "icache_inv (c\<lparr>ic_hash := h, ic_list := l\<rparr>)" "same_shape c (c\<lparr>ic_hash := h, ic_list := l\<rparr>)"
      "icache_keys (c\<lparr>ic_hash := h, ic_list := l\<rparr>) = ks"
      "icache_map (c\<lparr>ic_hash := h, ic_list := l\<rparr>) = (icache_map c)(lru := None)"
      by (rule icache_evict[OF inv ks])
    let ?c1 = "c\<lparr>ic_hash := h, ic_list := l\<rparr>"
    have I1: "ihash_inv h" "set ks = dom (ihash_map h)" using e(5,7) by (simp_all add: icache_inv_def)
    have k1: "k \<notin> set (icache_keys ?c1)" and none1: "ihash_map h k = None"
      using k(2) e(7) ks I1(2) by auto
    show thesis
    proof (rule ihash_touch_absent[OF I1(1) none1 k(1)])
      fix h3 e3 assume t3: "ihash_touch_fn h k = Some (h3, Some e3)"
        and h3: "ihash_inv h3" "hkey (ihash_node h3 e3) = k" "ihash_map h3 = (ihash_map h)(k \<mapsto> hval (ihash_node h3 e3))"
        "bucketsz h3 = bucketsz h" "hash_fn h3 = hash_fn h" "chainsz h3 = chainsz h" "e3 \<in> set (hslots h3 (ihash_idx h3 k))"
      have t3': "ihash_touch_fn (ic_hash ?c1) k = Some (h3, Some e3)"
        and m: "ihash_map h3 = (ihash_map (ic_hash ?c1))(k \<mapsto> hval (ihash_node h3 e3))"
        "bucketsz h3 = bucketsz (ic_hash ?c1)" "chainsz h3 = chainsz (ic_hash ?c1)"
        using t3 h3(3,4,6) by simp_all
      obtain c' where c1: "icache_link (?c1\<lparr>ic_hash := h3\<rparr>) k e3 = Some (c', Some e3)" and c': "icache_inv c'"
        "same_shape ?c1 c'" "icache_keys c' = k # icache_keys ?c1"
        "icache_map c' = (icache_map ?c1)(k \<mapsto> cn_data (hval (ihash_node h3 e3)))" "icache_node_of c' k e3"
        by (rule icache_add_ok[OF e(5) k1 t3' h3(1) m h3(7,2)])
      have eq: "?c1\<lparr>ic_hash := h3\<rparr> = c\<lparr>ic_hash := h3, ic_list := l\<rparr>" by simp
      have "same_shape c c'" using c'(2) e(6) by (simp add: same_shape_def)
      then show thesis
        using evicted[OF t card ks e(1-4) t3 _ h3(1) c1[unfolded eq] c'(1)] c'(3-5) h3(2,7) e(7,8)
        by (simp add: icache_node_of_def)
    next
      assume t3: "ihash_touch_fn h k = Some (h, None)"
      show thesis by (rule failed[OF t card ks e(1-4) t3 e(5-8)])
    qed
  qed
qed

lemma icache_get_miss:
  assumes inv: "icache_inv c" and k: "k \<notin> set (icache_keys c)"
  shows "icache_get c k = Some None"
proof -
  have I: "ihash_inv (ic_hash c)" and none: "ihash_map (ic_hash c) k = None"
    using inv k by (auto simp: icache_inv_def)
  show ?thesis by (rule ihash_get_map[OF I, of k]) (simp add: icache_get_def none)
qed

lemma icache_get_hit:
  assumes inv: "icache_inv c" and k: "k \<in> set (icache_keys c)"
  obtains e where "icache_get c k = Some (Some e)"
proof -
  have I: "ihash_inv (ic_hash c)" and some: "ihash_map (ic_hash c) k \<noteq> None"
    using inv k by (auto simp: icache_inv_def)
  show thesis
  proof (rule ihash_get_map[OF I, of k])
    fix r assume "ihash_get_fn (ic_hash c) k = Some r"
      "map_option (\<lambda>l. hval (ihash_node (ic_hash c) l)) r = ihash_map (ic_hash c) k"
    then show thesis using some that by (cases r) (auto simp: icache_get_def)
  qed
qed

text \<open>The whole operation.\<close>

lemma icache_touch_ok:
  assumes inv: "icache_inv c" and k: "k \<noteq> IHASH_UNDEF"
  obtains c' r where "icache_touch_fn c k = Some (c', r)" "icache_inv c'" "same_shape c c'"
    "lru_step (icache_keys c) k (r \<noteq> None) (icache_keys c')"
    "k \<notin> set (icache_keys c) \<and> length (icache_keys c) \<le> chainsz (ic_hash c) \<longrightarrow>
      r \<noteq> None \<and> icache_keys c' = k # icache_keys c"
    "\<And>e. r = Some e \<Longrightarrow> icache_node_of c' k e"
    "\<And>k'. k' \<in> set (icache_keys c') \<Longrightarrow> k' \<noteq> k \<or> k \<in> set (icache_keys c) \<Longrightarrow> icache_map c' k' = icache_map c k'"
proof (cases "k \<in> set (icache_keys c)")
  case True
  obtain c' e where c': "icache_touch_fn c k = Some (c', Some e)" "icache_inv c'" "same_shape c c'"
    "icache_keys c' = k # removeAll k (icache_keys c)" "icache_map c' = icache_map c" "icache_node_of c' k e"
    by (rule icache_touch_hit[OF inv True])
  then show thesis using True by (intro that[OF c'(1,2,3)]) (auto simp: lru_step_def)
next
  case False
  note get = icache_get_miss[OF inv False]
  have d: "distinct (icache_keys c)" using inv by (simp add: icache_inv_def)
  show thesis
  proof (rule icache_miss_cases[OF inv k False])
    fix h e c' assume c': "ihash_touch_fn (ic_hash c) k = Some (h, Some e)"
      "icache_link (c\<lparr>ic_hash := h\<rparr>) k e = Some (c', Some e)" "icache_inv c'" "same_shape c c'"
      "icache_keys c' = k # icache_keys c"
      "icache_map c' = (icache_map c)(k \<mapsto> cn_data (hval (ihash_node h e)))" "icache_node_of c' k e"
    have "icache_touch_fn c k = Some (c', Some e)" using get c'(1,2) by (simp add: icache_touch_fn_def)
    then show thesis using c' False by (intro that[of c' "Some e"]) (auto simp: lru_step_def)
  next
    fix ks lru l h h3 e c' assume ev: "ihash_touch_fn (ic_hash c) k = Some (ic_hash c, None)"
      "chainsz (ic_hash c) < length (icache_keys c)"
      "icache_keys c = ks @ [lru]" "ilist2_pop_back (ic_list c) = Some (l, lru)" "lru \<noteq> IHASH_UNDEF"
      "ihash_exists (ic_hash c) lru = Some True" "ihash_erase_fn (ic_hash c) lru = Some (h, True)"
      "ihash_touch_fn h k = Some (h3, Some e)"
      "icache_link (c\<lparr>ic_hash := h3, ic_list := l\<rparr>) k e = Some (c', Some e)" "icache_inv c'" "same_shape c c'"
      "icache_keys c' = k # ks"
      "icache_map c' = (icache_map c)(lru := None, k \<mapsto> cn_data (hval (ihash_node h3 e)))" "icache_node_of c' k e"
    have "icache_touch_fn c k = Some (c', Some e)"
      using get ev(1-9) by (simp add: icache_touch_fn_def)
    then show thesis using ev(2,3,10-) False d by (intro that[of c' "Some e"]) (auto simp: lru_step_def)
  next
    fix ks lru l h assume ev: "ihash_touch_fn (ic_hash c) k = Some (ic_hash c, None)"
      "chainsz (ic_hash c) < length (icache_keys c)"
      "icache_keys c = ks @ [lru]" "ilist2_pop_back (ic_list c) = Some (l, lru)" "lru \<noteq> IHASH_UNDEF"
      "ihash_exists (ic_hash c) lru = Some True" "ihash_erase_fn (ic_hash c) lru = Some (h, True)"
      "ihash_touch_fn h k = Some (h, None)"
      "icache_inv (c\<lparr>ic_hash := h, ic_list := l\<rparr>)" "same_shape c (c\<lparr>ic_hash := h, ic_list := l\<rparr>)"
      "icache_keys (c\<lparr>ic_hash := h, ic_list := l\<rparr>) = ks"
      "icache_map (c\<lparr>ic_hash := h, ic_list := l\<rparr>) = (icache_map c)(lru := None)"
    let ?c1 = "c\<lparr>ic_hash := h, ic_list := l\<rparr>"
    have t: "icache_touch_fn c k = Some (?c1, None)"
      using get ev(1-8) by (simp add: icache_touch_fn_def)
    have keep: "icache_map ?c1 k' = icache_map c k'" if "k' \<in> set ks" for k'
      using that d unfolding ev(12) ev(3) by auto
    have "lru_step (icache_keys c) k False (icache_keys ?c1)"
      unfolding ev(11) using ev(3) False by (simp add: lru_step_def)
    then show thesis using ev(2,9-11) keep by (intro that[OF t]) auto
  qed
qed

section \<open>The cache as an LRU cache\<close>

definition icache_touch :: "('v, 'e) icache \<Rightarrow> i64 \<Rightarrow> (('v, 'e) icache \<times> bool) option" where
  "icache_touch c k = map_option (\<lambda>(c', r). (c', r \<noteq> None)) (icache_touch_fn c k)"

interpretation icache_lru: lru_cache icache_inv icache_keys "\<lambda>k. k \<noteq> IHASH_UNDEF"
    "\<lambda>c. chainsz (ic_hash c)" icache_touch
proof
  fix c :: "('a, 'b) icache" and k :: i64
  assume inv: "icache_inv c"
  then show "distinct (icache_keys c)" by (simp add: icache_inv_def)
  assume k: "k \<noteq> IHASH_UNDEF"
  obtain c' r where "icache_touch_fn c k = Some (c', r)" "icache_inv c'" "same_shape c c'"
    "lru_step (icache_keys c) k (r \<noteq> None) (icache_keys c')"
    "k \<notin> set (icache_keys c) \<and> length (icache_keys c) \<le> chainsz (ic_hash c) \<longrightarrow>
      r \<noteq> None \<and> icache_keys c' = k # icache_keys c"
    by (rule icache_touch_ok[OF inv k]) blast
  then show "\<exists>c' b. icache_touch c k = Some (c', b) \<and> icache_inv c' \<and>
      chainsz (ic_hash c') = chainsz (ic_hash c) \<and> lru_step (icache_keys c) k b (icache_keys c') \<and>
      (k \<notin> set (icache_keys c) \<and> length (icache_keys c) \<le> chainsz (ic_hash c) \<longrightarrow>
        b \<and> icache_keys c' = k # icache_keys c)"
    by (intro exI[of _ c'] exI[of _ "r \<noteq> None"]) (simp add: icache_touch_def same_shape_def)
qed

lemma icache_init_ok:
  assumes "0 < bsz" "length bs = bsz" "length cs = csz" "length ls = bsz + csz"
  obtains c where "icache_init_fn (bs, cs, ls, ex) bsz csz koffs usersz fn esz = Some c" "icache_inv c"
    "icache_keys c = []" "chainsz (ic_hash c) = csz" "bucketsz (ic_hash c) = bsz" "ic_extra c = ex"
proof -
  let ?raw = "\<lparr>bucketsz = bsz, chainsz = csz, chain_head = 0, keyoffs = koffs,
             nodesz = unat (usersz + 8) + 8, hash_fn = ihash_default_hash_fn, buckets = bs, chains = cs\<rparr>"
  let ?h = "ihash_clear ?raw fn"
  have h0: "0 < bucketsz ?raw" "length (buckets ?raw) = bucketsz ?raw" "length (chains ?raw) = chainsz ?raw"
    using assms by simp_all
  note h = ihash_clear_inv[of ?raw fn, OF h0]
  note l = ilist2_init_inv[OF assms(4), of 8]
  obtain c where c: "icache_init_fn (bs, cs, ls, ex) bsz csz koffs usersz fn esz = Some c"
    "ic_hash c = ?h" "ic_list c = ilist2_init_fn ls (bsz + csz) 8" "ic_extra c = ex"
    using assms(1) by (auto simp: icache_init_fn_def ihash_init_fn_def Let_def)
  have "icache_keys c = []" using c l by (simp add: icache_keys_def)
  moreover have "icache_inv c"
    unfolding icache_inv_def icache_keys_def c(2,3) using h l by (simp add: ic_sync_def)
  ultimately show thesis using that[OF c(1)] h c(2,4) by simp
qed

lemma icache_clear_ok:
  assumes "icache_inv c"
  shows "icache_inv (icache_clear c fn)" "icache_keys (icache_clear c fn) = []"
    "icache_map (icache_clear c fn) = (\<lambda>_. None)" "same_shape c (icache_clear c fn)"
proof -
  obtain ps fs where hl: "hlinks (ic_hash c) ps fs" using assms by (auto simp: icache_inv_def ihash_inv_def hrep_def)
  obtain xs ys where il: "irep (ic_list c) xs ys" using assms by (auto simp: icache_inv_def ilist2_inv_def)
  have bk: "0 < bucketsz (ic_hash c)" "length (buckets (ic_hash c)) = bucketsz (ic_hash c)"
    "length (chains (ic_hash c)) = chainsz (ic_hash c)" using hl by (simp_all add: hlinks_def)
  note h = ihash_clear_inv[of "ic_hash c" fn, OF bk]
  note l = ilist2_clear_rep[OF irepD(1)[OF il]]
  have view: "ilist2_view (ilist2_clear (ic_list c)) = []" using ilist2_view_eq[OF l(1)] by simp
  then show "icache_keys (icache_clear c fn) = []" by (simp add: icache_keys_def icache_clear_def)
  show "icache_inv (icache_clear c fn)" using assms h l view irep_inv[OF l(1)]
    by (simp add: icache_inv_def icache_clear_def icache_keys_def ic_sync_def)
  show "icache_map (icache_clear c fn) = (\<lambda>_. None)" "same_shape c (icache_clear c fn)"
    using h by (simp_all add: icache_map_def icache_clear_def same_shape_def fun_eq_iff)
qed

text \<open>Assigning the user's data through the pointer returned.\<close>

definition icache_set :: "('v, 'e) icache \<Rightarrow> hloc \<Rightarrow> 'v \<Rightarrow> ('v, 'e) icache" where
  "icache_set c e v =
     c\<lparr>ic_hash := ihash_upd (ic_hash c) e (hval_update (cn_data_update (\<lambda>_. v)))\<rparr>"

lemma icache_set_ok:
  assumes inv: "icache_inv c" and e: "icache_node_of c k e"
  shows "icache_inv (icache_set c e v)" "icache_keys (icache_set c e v) = icache_keys c"
    "icache_map (icache_set c e v) = (icache_map c)(k \<mapsto> v)" "same_shape c (icache_set c e v)"
    "icache_node_of (icache_set c e v) k e"
    "cn_data (hval (ihash_node (ic_hash (icache_set c e v)) e)) = v"
proof -
  let ?h = "ihash_upd (ic_hash c) e (hval_update (cn_data_update (\<lambda>_. v)))"
  have I: "ihash_inv (ic_hash c)" using inv by (simp add: icache_inv_def)
  have e': "e \<in> set (hslots (ic_hash c) (ihash_idx (ic_hash c) k))" "hkey (ihash_node (ic_hash c) e) = k"
    using e by (simp_all add: icache_node_of_def)
  note u = ihash_upd_value[OF I e' refl, of "cn_data_update (\<lambda>_. v)"]
  note at = ihash_slot_map[OF I e']
  show keys: "icache_keys (icache_set c e v) = icache_keys c" by (simp add: icache_keys_def icache_set_def)
  have "k \<in> dom (ihash_map (ic_hash c))" using at by auto
  moreover have "ic_sync ?h (ilist2_view (ic_list c))"
    using inv at unfolding icache_inv_def ic_sync_def u(2) by fastforce
  ultimately show "icache_inv (icache_set c e v)"
    using inv u keys unfolding icache_inv_def by (simp add: insert_absorb icache_set_def)
  show "icache_map (icache_set c e v) = (icache_map c)(k \<mapsto> v)"
    using u(2) by (auto simp: icache_map_def icache_set_def fun_eq_iff)
  show "same_shape c (icache_set c e v)" using u by (simp add: same_shape_def icache_set_def)
  show "icache_node_of (icache_set c e v) k e" using u by (simp add: icache_node_of_def icache_set_def)
  have "ihash_map ?h k = Some (hval (ihash_node ?h e))" by (rule ihash_slot_map[OF u(1,5,6)])
  then have eq: "hval (ihash_node ?h e) = cn_data_update (\<lambda>_. v) (hval (ihash_node (ic_hash c) e))"
    using u(2) by (metis fun_upd_same option.inject)
  show "cn_data (hval (ihash_node (ic_hash (icache_set c e v)) e)) = v"
    by (simp add: icache_set_def eq)
qed

lemma icache_node_map:
  "icache_inv c \<Longrightarrow> icache_node_of c k e \<Longrightarrow> icache_map c k = Some (cn_data (hval (ihash_node (ic_hash c) e)))"
  using ihash_slot_map[of "ic_hash c" e k] by (simp add: icache_inv_def icache_node_of_def icache_map_def)

lemma icache_get_value_map: "icache_inv c \<Longrightarrow>
    icache_get_value zero c k = Some (case icache_map c k of None \<Rightarrow> zero | Some v \<Rightarrow> v)"
proof -
  assume "icache_inv c"
  then have I: "ihash_inv (ic_hash c)" by (simp add: icache_inv_def)
  show ?thesis
  proof (rule ihash_get_map[OF I, of k])
    fix r assume "ihash_get_fn (ic_hash c) k = Some r"
      "map_option (\<lambda>l. hval (ihash_node (ic_hash c) l)) r = ihash_map (ic_hash c) k"
    then show ?thesis
      by (cases r) (simp_all add: icache_get_value_def icache_get_def icache_map_def flip: \<open>_ = ihash_map _ _\<close>)
  qed
qed

lemma icache_dom: "icache_inv c \<Longrightarrow> dom (icache_map c) = set (icache_keys c)"
  by (auto simp: icache_inv_def icache_map_def dom_def)

text \<open>Linking and assigning the data commute.\<close>

lemma ihash_upd_commute:
  "(\<And>n. f (g n) = g (f n)) \<Longrightarrow> ihash_upd (ihash_upd h e f) e g = ihash_upd (ihash_upd h e g) e f"
  by (cases e) (simp_all add: nth_upd list_update_beyond)

lemma icache_link_set:
  assumes "icache_link c k e = Some (c', Some e)"
  shows "icache_link (icache_set c e v) k e = Some (icache_set c' e v, Some e)"
proof -
  from assms obtain l i where l: "ilist2_put_front (ic_list c) k = Some (l, Some i)"
    and c': "c' = c\<lparr>ic_list := l, ic_hash := ihash_upd (ic_hash c) e (hval_update (cn_idx_update (\<lambda>_. int i)))\<rparr>"
    by (auto simp: icache_link_def bind_eq_Some_conv split: option.splits)
  have "ihash_upd (ihash_upd (ic_hash c) e (hval_update (cn_data_update (\<lambda>_. v)))) e
      (hval_update (cn_idx_update (\<lambda>_. int i))) =
    ihash_upd (ihash_upd (ic_hash c) e (hval_update (cn_idx_update (\<lambda>_. int i)))) e
      (hval_update (cn_data_update (\<lambda>_. v)))"
    by (rule ihash_upd_commute) simp
  then show ?thesis using l by (simp add: icache_link_def icache_set_def c')
qed

section \<open>Properties\<close>

text \<open>
  C17: icache_put keeps the invariant that ties the hash table to the recency list and is one
  step of the abstract cache: on success the key is the most recent one and maps to the value,
  every other key that stays keeps its value, and only the least recently used key may leave.
\<close>

theorem icache_put_refines:
  assumes "icache_inv c" "k \<noteq> IHASH_UNDEF"
  shows "\<exists>c' r. icache_put c k v = Some (c', r) \<and> icache_inv c' \<and>
    lru_step (icache_keys c) k (r \<noteq> None) (icache_keys c') \<and>
    dom (icache_map c') = set (icache_keys c') \<and>
    (r \<noteq> None \<longrightarrow> icache_map c' k = Some v \<and> icache_get_value zero c' k = Some v) \<and>
    (\<forall>k' \<in> set (icache_keys c'). k' \<noteq> k \<longrightarrow> icache_map c' k' = icache_map c k')"
proof -
  obtain c1 r where t: "icache_touch_fn c k = Some (c1, r)" "icache_inv c1"
    "lru_step (icache_keys c) k (r \<noteq> None) (icache_keys c1)"
    "\<And>e. r = Some e \<Longrightarrow> icache_node_of c1 k e"
    "\<And>k'. k' \<in> set (icache_keys c1) \<Longrightarrow> k' \<noteq> k \<or> k \<in> set (icache_keys c) \<Longrightarrow> icache_map c1 k' = icache_map c k'"
    by (rule icache_touch_ok[OF assms]) blast
  show ?thesis
  proof (cases r)
    case None
    then show ?thesis using t icache_dom[OF t(2)] by (auto simp: icache_put_def)
  next
    case (Some e)
    note st = icache_set_ok[OF t(2) t(4)[OF Some], of v]
    have "icache_put c k v = Some (icache_set c1 e v, Some e)"
      using t(1) Some by (simp add: icache_put_def icache_set_def)
    then show ?thesis using st icache_dom[OF st(1)] t(3,5) Some icache_get_value_map[OF st(1), of zero k]
      by (intro exI[of _ "icache_set c1 e v"] exI[of _ "Some e"]) simp
  qed
qed

theorem icache_put_refines_witness:
  "\<exists>c0 c' r. icache_init_fn ([\<lparr>hkey = 0, hnext = 0, hval = \<lparr>cn_data = 0, cn_idx = 0\<rparr>\<rparr>], [],
      [\<lparr>iprev = 0, inext = 0, idata = 0\<rparr>], ()) 1 0 0 16 None 0 = Some c0 \<and>
    icache_put c0 7 (42::nat) = Some (c', r) \<and> icache_inv c' \<and>
    (r \<noteq> None \<longrightarrow> icache_map c' 7 = Some 42)"
proof -
  let ?n = "\<lparr>hkey = 0, hnext = 0, hval = \<lparr>cn_data = (0::nat), cn_idx = 0\<rparr>\<rparr>"
  let ?m = "\<lparr>iprev = 0, inext = 0, idata = (0::i64)\<rparr>"
  have "(0::nat) < 1" "length [?n] = 1" "length ([] :: nat cnode hnode list) = 0" "length [?m] = 1 + 0" by simp_all
  from icache_init_ok[OF this, of "()" 0 16 None 0]
  obtain c where c: "icache_init_fn ([?n], [], [?m], ()) 1 0 0 16 None 0 = Some c" "icache_inv c" by metis
  have "(7::i64) \<noteq> IHASH_UNDEF" by (simp add: IHASH_UNDEF_def)
  from icache_put_refines[OF c(2) this, of 42 0] obtain c' r where
    "icache_put c 7 42 = Some (c', r)" "icache_inv c'" "r \<noteq> None \<longrightarrow> icache_map c' 7 = Some 42" by metis
  with c(1) show ?thesis by (intro exI[of _ c] exI[of _ c'] exI[of _ r]) simp
qed

text \<open>
  C18: From a fresh cache, touching any sequence of keys leaves the cache holding a prefix of
  the keys ordered by last use as long as no touch fails, and as long as at most chainsz + 1
  different keys are used no touch fails and nothing is evicted.
\<close>

theorem icache_keeps_recent:
  assumes "0 < bsz" "length bs = bsz" "length cs = csz" "length ls = bsz + csz" "IHASH_UNDEF \<notin> set ks"
  shows "\<exists>c0 c r. icache_create_fn (Some (bs, cs, ls, ex)) bsz csz koffs usersz fn esz = Some c0 \<and>
    touch_all icache_touch c0 ks = Some (c, r) \<and> icache_inv c \<and> length r = length ks \<and>
    (False \<notin> set r \<longrightarrow> prefix (icache_keys c) (recency [] ks) \<and> (ks \<noteq> [] \<longrightarrow> hd (icache_keys c) = last ks)) \<and>
    (card (set ks) \<le> Suc csz \<longrightarrow> r = replicate (length ks) True \<and> icache_keys c = recency [] ks)"
proof -
  obtain c0 where c0: "icache_init_fn (bs, cs, ls, ex) bsz csz koffs usersz fn esz = Some c0" "icache_inv c0"
    "icache_keys c0 = []" "chainsz (ic_hash c0) = csz"
    by (rule icache_init_ok[OF assms(1-4)])
  then have cr: "icache_create_fn (Some (bs, cs, ls, ex)) bsz csz koffs usersz fn esz = Some c0"
    using assms(1) by (simp add: icache_create_fn_def)
  have ok: "\<forall>k \<in> set ks. k \<noteq> IHASH_UNDEF" using assms(5) by blast
  obtain c r where t: "touch_all icache_touch c0 ks = Some (c, r)" "icache_inv c" "length r = length ks"
    "False \<notin> set r \<longrightarrow> prefix (icache_keys c) (recency [] ks) \<and> (ks \<noteq> [] \<longrightarrow> hd (icache_keys c) = last ks)"
    using icache_lru.touch_all_total[OF c0(2) ok] c0(3) by auto
  have "r = replicate (length ks) True \<and> icache_keys c = recency [] ks" if "card (set ks) \<le> Suc csz"
    using icache_lru.no_eviction[OF c0(2) ok, of ks] that t(1) c0(3,4) by auto
  then show ?thesis using cr t by blast
qed

theorem icache_keeps_recent_witness:
  "\<exists>c0 c r. icache_create_fn (Some ([\<lparr>hkey = 0, hnext = 0, hval = \<lparr>cn_data = (0::nat), cn_idx = 0\<rparr>\<rparr>],
      [\<lparr>hkey = 0, hnext = 0, hval = \<lparr>cn_data = 0, cn_idx = 0\<rparr>\<rparr>],
      replicate 2 \<lparr>iprev = 0, inext = 0, idata = 0\<rparr>, ())) 1 1 0 16 None 0 = Some c0 \<and>
    touch_all icache_touch c0 [3, 4, 3] = Some (c, r) \<and> icache_inv c \<and> icache_keys c = [3, 4]"
proof -
  let ?n = "\<lparr>hkey = 0, hnext = 0, hval = \<lparr>cn_data = (0::nat), cn_idx = 0\<rparr>\<rparr>"
  let ?m = "\<lparr>iprev = 0, inext = 0, idata = (0::i64)\<rparr>"
  have h: "(0::nat) < 1" "length [?n] = 1" "length [?n] = 1" "length (replicate 2 ?m) = 1 + 1"
    "IHASH_UNDEF \<notin> set [3, 4, 3]" by (simp_all add: IHASH_UNDEF_def)
  have "card (set [3, 4, 3::i64]) \<le> Suc 1" by (simp add: insert_commute)
  moreover have "recency [] [3, 4, 3::i64] = [3, 4]" by code_simp
  ultimately show ?thesis using icache_keeps_recent[OF h, of "()" 0 16 None 0] by auto
qed

text \<open>
  icache_touch can fail although it is given a valid key and has just evicted one: with
  two buckets and one chain node, the fourth of four touches returns no node and drops the
  least recently used key.
\<close>

lemma icache_eviction_fails:
  "let n = \<lparr>hkey = 0, hnext = 0, hval = \<lparr>cn_data = (0::nat), cn_idx = 0\<rparr>\<rparr>;
       m = \<lparr>iprev = 0, inext = 0, idata = 0\<rparr> in
   Option.bind (icache_create_fn (Some ([n, n], [n], [m, m, m], ())) 2 1 0 16 None 0) (\<lambda>c0.
     map_option (\<lambda>(c, r). (icache_keys c, r)) (touch_all icache_touch c0 [1, 0, 2, 4])) =
   Some ([2, 0], [True, True, True, False])"
  by code_simp

end
