(* ===== verification/Scr_Fdcache.thy ===== *)
theory Scr_Fdcache
  imports Scr_Icache Scr_Gid
begin

text \<open>
  \<^verbatim>\<open>lib/core/src/fdcache.h\<close> and \<^verbatim>\<open>fdcache.c\<close>: the cache of open
  file descriptors, keyed by file id. The system calls open and close act on a state of the
  operating system, the type \<open>'w\<close>, and are arguments of the model.
\<close>

type_synonym 'e fdcache = "(i32, 'e) icache"
type_synonym 'w os_open = "'w \<Rightarrow> u8 list \<Rightarrow> 'w \<times> i32"
type_synonym 'w os_close = "'w \<Rightarrow> i32 \<Rightarrow> 'w"

definition fdcache_get_required_memory_size :: "u64 \<Rightarrow> u64 \<Rightarrow> u64" where
  "fdcache_get_required_memory_size bsz csz = icache_get_required_memory_size bsz csz 16 0"

section \<open>Operations\<close>

definition fdcache_name :: "i64 \<Rightarrow> u8 list" where
  "fdcache_name key = gid2hex (gid_parts key 0)"

definition fdcache_open :: "'w os_open \<Rightarrow> 'w \<Rightarrow> i64 \<Rightarrow> 'w \<times> i32" where
  "fdcache_open os_open w key = os_open w (fdcache_name key)"

definition fdcache_close :: "'w os_close \<Rightarrow> 'w \<Rightarrow> i32 \<Rightarrow> 'w" where
  "fdcache_close os_close w fd = os_close w fd"

text \<open>The iteration over the nodes and the close of each, shared by clear and free.\<close>

definition fdcache_close_all :: "'w os_close \<Rightarrow> 'w \<Rightarrow> 'e fdcache \<Rightarrow> 'w option" where
  "fdcache_close_all os_close w c = map_option
     (foldl (\<lambda>w e. os_close w (cn_data (hval (ihash_node (ic_hash c) e)))) w)
     (ihash_foreach (ic_hash c) (ihash_begin (ic_hash c)))"

definition fdcache_clear :: "'w os_close \<Rightarrow> 'w \<Rightarrow> 'e fdcache \<Rightarrow> (u64 \<Rightarrow> u64) option \<Rightarrow> ('w \<times> 'e fdcache) option" where
  "fdcache_clear os_close w c fn =
     map_option (\<lambda>w'. (w', icache_clear c fn)) (fdcache_close_all os_close w c)"

text \<open>free releases the memory; what remains is the state of the operating system.\<close>

definition fdcache_free :: "'w os_close \<Rightarrow> 'w \<Rightarrow> 'e fdcache \<Rightarrow> 'w option" where
  "fdcache_free os_close w c = fdcache_close_all os_close w c"

definition fdcache_link :: "'w \<Rightarrow> 'e fdcache \<Rightarrow> i64 \<Rightarrow> hloc \<Rightarrow> i32 \<Rightarrow> ('w \<times> 'e fdcache \<times> hloc option) option" where
  "fdcache_link w c key e fd = map_option (\<lambda>(c', r). (w, c', r)) (icache_link (icache_set c e fd) key e)"

definition fdcache_touch_fn ::
    "'w os_open \<Rightarrow> 'w os_close \<Rightarrow> 'w \<Rightarrow> 'e fdcache \<Rightarrow> i64 \<Rightarrow> ('w \<times> 'e fdcache \<times> hloc option) option" where
  "fdcache_touch_fn os_open os_close w c key = Option.bind (icache_get c key) (\<lambda>r. case r of
     Some e \<Rightarrow> map_option (\<lambda>l. (w, c\<lparr>ic_list := l\<rparr>, Some e))
       (ilist2_move_front_by_idx_fn (ic_list c) (cn_idx (hval (ihash_node (ic_hash c) e))))
   | None \<Rightarrow>
       let (w1, fd) = fdcache_open os_open w key in
       if fd = -1 then Some (w1, c, None)
       else Option.bind (ihash_touch_fn (ic_hash c) key) (\<lambda>(h1, r1). case r1 of
         Some e \<Rightarrow> fdcache_link w1 (c\<lparr>ic_hash := h1\<rparr>) key e fd
       | None \<Rightarrow> Option.bind (ilist2_pop_back (ic_list c)) (\<lambda>(l, lru_key).
           if lru_key = IHASH_UNDEF \<or> ihash_exists h1 lru_key \<noteq> Some True then None
           else Option.bind (icache_get_value 0 (c\<lparr>ic_hash := h1\<rparr>) lru_key) (\<lambda>old.
             let w2 = fdcache_close os_close w1 old in
             Option.bind (ihash_erase_fn h1 lru_key) (\<lambda>(h2, _).
             Option.bind (ihash_touch_fn h2 key) (\<lambda>(h3, r3). case r3 of
               None \<Rightarrow> Some (fdcache_close os_close w2 fd, c\<lparr>ic_hash := h3, ic_list := l\<rparr>, None)
             | Some e \<Rightarrow> fdcache_link w2 (c\<lparr>ic_hash := h3, ic_list := l\<rparr>) key e fd))))))"

section \<open>No descriptor is lost\<close>

text \<open>
  \<open>fdn w\<close> is the table of open descriptors with the name each was opened by. POSIX:
  open fails with -1 or returns a descriptor that was free; close frees its argument.
\<close>

definition os_laws :: "('w \<Rightarrow> i32 \<Rightarrow> u8 list option) \<Rightarrow> 'w os_open \<Rightarrow> 'w os_close \<Rightarrow> bool" where
  "os_laws fdn os_open os_close \<longleftrightarrow>
     (\<forall>w n. let (w', fd) = os_open w n in
        if fd = -1 then fdn w' = fdn w else fdn w fd = None \<and> fdn w' = (fdn w)(fd \<mapsto> n)) \<and>
     (\<forall>w fd. fdn (os_close w fd) = (fdn w)(fd := None))"

text \<open>Every open descriptor belongs to exactly one node, and it is that node's file.\<close>

definition fd_rel :: "(i32 \<Rightarrow> u8 list option) \<Rightarrow> (i64 \<Rightarrow> i32 option) \<Rightarrow> bool" where
  "fd_rel F M \<longleftrightarrow> (\<forall>k fd. M k = Some fd \<longrightarrow> F fd = Some (fdcache_name k)) \<and>
     (\<forall>fd n. F fd = Some n \<longrightarrow> (\<exists>k. M k = Some fd)) \<and>
     (\<forall>k k' fd. M k = Some fd \<longrightarrow> M k' = Some fd \<longrightarrow> k = k')"

definition fd_inv :: "('w \<Rightarrow> i32 \<Rightarrow> u8 list option) \<Rightarrow> 'w \<Rightarrow> 'e fdcache \<Rightarrow> bool" where
  "fd_inv fdn w c \<longleftrightarrow> icache_inv c \<and> fd_rel (fdn w) (icache_map c)"

lemma fd_relD:
  assumes "fd_rel F M"
  shows "M k = Some fd \<Longrightarrow> F fd = Some (fdcache_name k)" "F fd = Some n \<Longrightarrow> \<exists>k. M k = Some fd"
    "M k = Some fd \<Longrightarrow> M k' = Some fd \<Longrightarrow> k = k'"
  using assms unfolding fd_rel_def by blast+

lemma os_openD:
  assumes "os_laws fdn os_open os_close" "os_open w n = (w', fd)"
  shows "fd = -1 \<Longrightarrow> fdn w' = fdn w" "fd \<noteq> -1 \<Longrightarrow> fdn w fd = None \<and> fdn w' = (fdn w)(fd \<mapsto> n)"
proof -
  have "let (w', fd) = os_open w n in
        if fd = -1 then fdn w' = fdn w else fdn w fd = None \<and> fdn w' = (fdn w)(fd \<mapsto> n)"
    using assms(1) unfolding os_laws_def by blast
  then show "fd = -1 \<Longrightarrow> fdn w' = fdn w" "fd \<noteq> -1 \<Longrightarrow> fdn w fd = None \<and> fdn w' = (fdn w)(fd \<mapsto> n)"
    unfolding assms(2) by (simp_all add: Let_def)
qed

lemma os_closeD: "os_laws fdn os_open os_close \<Longrightarrow> fdn (os_close w fd) = (fdn w)(fd := None)"
  by (simp add: os_laws_def)

lemma fd_rel_add:
  assumes r: "fd_rel F M" and new: "M k = None" "F fd = None"
  shows "fd_rel (F(fd \<mapsto> fdcache_name k)) (M(k \<mapsto> fd))"
proof -
  have fresh: "M a \<noteq> Some fd" for a using fd_relD(1)[OF r] new(2) by force
  have "\<exists>a. (M(k \<mapsto> fd)) a = Some x" if x: "(F(fd \<mapsto> fdcache_name k)) x = Some n" for x n
  proof (cases "x = fd")
    case True
    then show ?thesis by (intro exI[of _ k]) simp
  next
    case False
    then obtain a where "M a = Some x" using fd_relD(2)[OF r] x by auto
    then show ?thesis using new(1) by (intro exI[of _ a]) auto
  qed
  then show ?thesis using fd_relD(1,3)[OF r] fresh new unfolding fd_rel_def
    by (auto split: if_splits)
qed

lemma fd_rel_del:
  assumes r: "fd_rel F M" and old: "M k = Some fd"
  shows "fd_rel (F(fd := None)) (M(k := None))"
proof -
  have ne: "M a \<noteq> Some fd" if "a \<noteq> k" for a using fd_relD(3)[OF r old] that by blast
  have "\<exists>a. (M(k := None)) a = Some x" if x: "(F(fd := None)) x = Some n" for x n
  proof -
    have "x \<noteq> fd" "F x = Some n" using x by (auto split: if_splits)
    then obtain a where "M a = Some x" using fd_relD(2)[OF r] by blast
    then show ?thesis using old \<open>x \<noteq> fd\<close> by (intro exI[of _ a]) auto
  qed
  then show ?thesis using fd_relD(1,3)[OF r] ne unfolding fd_rel_def
    by (auto split: if_splits)
qed

lemma fdcache_link_eq:
  assumes "icache_link c k e = Some (c', Some e)"
  shows "fdcache_link w c k e fd = Some (w, icache_set c' e fd, Some e)"
  by (simp add: fdcache_link_def icache_link_set[OF assms])

lemma fdcache_touch_ok:
  fixes fdn :: "'w \<Rightarrow> i32 \<Rightarrow> u8 list option"
  assumes os: "os_laws fdn os_open os_close" and fi: "fd_inv fdn w c" and k: "k \<noteq> IHASH_UNDEF"
  obtains w' c' r where "fdcache_touch_fn os_open os_close w c k = Some (w', c', r)" "fd_inv fdn w' c'"
    "same_shape c c'"
    "\<And>e. r = Some e \<Longrightarrow> icache_node_of c' k e"
    "r = None \<longrightarrow> k \<notin> set (icache_keys c)"
    "k \<in> set (icache_keys c) \<longrightarrow> w' = w"
    "(c' = c \<and> k \<notin> set (icache_keys c) \<and> snd (os_open w (fdcache_name k)) = -1) \<or>
     lru_step (icache_keys c) k (r \<noteq> None) (icache_keys c')"
proof (cases "k \<in> set (icache_keys c)")
  case True
  have inv: "icache_inv c" using fi by (simp add: fd_inv_def)
  obtain c' e where c': "icache_touch_fn c k = Some (c', Some e)" "icache_inv c'" "same_shape c c'"
    "icache_keys c' = k # removeAll k (icache_keys c)" "icache_map c' = icache_map c" "icache_node_of c' k e"
    by (rule icache_touch_hit[OF inv True])
  obtain e0 where "icache_get c k = Some (Some e0)" by (rule icache_get_hit[OF inv True])
  then have "fdcache_touch_fn os_open os_close w c k = Some (w, c', Some e)"
    using c'(1) by (auto simp: fdcache_touch_fn_def icache_touch_fn_def map_option_eq_Some)
  moreover have "fd_inv fdn w c'" using fi c'(2,5) by (simp add: fd_inv_def)
  moreover have "lru_step (icache_keys c) k True (icache_keys c')" using True c'(4) by (simp add: lru_step_def)
  ultimately show thesis using c'(3,6) True that[of w c' "Some e"] by simp
next
  case False
  have inv: "icache_inv c" and rel: "fd_rel (fdn w) (icache_map c)" and none: "icache_map c k = None"
    using fi False icache_dom[of c] by (auto simp: fd_inv_def)
  note get = icache_get_miss[OF inv False]
  obtain w1 fd where o: "os_open w (fdcache_name k) = (w1, fd)" by (cases "os_open w (fdcache_name k)")
  show thesis
  proof (cases "fd = -1")
    case True
    have "fdcache_touch_fn os_open os_close w c k = Some (w1, c, None)"
      using get o True by (simp add: fdcache_touch_fn_def fdcache_open_def)
    moreover have "fd_inv fdn w1 c" using fi os_openD(1)[OF os o True] by (simp add: fd_inv_def)
    ultimately show thesis using False o True that[of w1 c None] by (simp add: same_shape_def)
  next
    case fd: False
    note od = os_openD(2)[OF os o fd]
    have d: "distinct (icache_keys c)" using inv by (simp add: icache_inv_def)
    show thesis
    proof (rule icache_miss_cases[OF inv k False])
      fix h e c' assume c': "ihash_touch_fn (ic_hash c) k = Some (h, Some e)"
        "icache_link (c\<lparr>ic_hash := h\<rparr>) k e = Some (c', Some e)" "icache_inv c'" "same_shape c c'"
        "icache_keys c' = k # icache_keys c"
        "icache_map c' = (icache_map c)(k \<mapsto> cn_data (hval (ihash_node h e)))" "icache_node_of c' k e"
      note st = icache_set_ok[OF c'(3,7), of fd]
      have m: "icache_map (icache_set c' e fd) = (icache_map c)(k \<mapsto> fd)" using st(3) c'(6) by simp
      have "fdcache_touch_fn os_open os_close w c k = Some (w1, icache_set c' e fd, Some e)"
        using get o fd c'(1) fdcache_link_eq[OF c'(2)] by (simp add: fdcache_touch_fn_def fdcache_open_def)
      moreover have "fd_inv fdn w1 (icache_set c' e fd)"
        using fd_rel_add[OF rel none, of fd] od st(1) by (simp add: fd_inv_def m)
      moreover have "lru_step (icache_keys c) k True (icache_keys (icache_set c' e fd))"
        using False c'(5) st(2) by (simp add: lru_step_def)
      ultimately show thesis using st(4,5) c'(4) False
        by (intro that[of w1 "icache_set c' e fd" "Some e"]) (auto simp: same_shape_def)
    next
      fix ks lru l h h3 e c' assume ev: "ihash_touch_fn (ic_hash c) k = Some (ic_hash c, None)"
        "icache_keys c = ks @ [lru]" "ilist2_pop_back (ic_list c) = Some (l, lru)" "lru \<noteq> IHASH_UNDEF"
        "ihash_exists (ic_hash c) lru = Some True" "ihash_erase_fn (ic_hash c) lru = Some (h, True)"
        "ihash_touch_fn h k = Some (h3, Some e)"
        "icache_link (c\<lparr>ic_hash := h3, ic_list := l\<rparr>) k e = Some (c', Some e)" "icache_inv c'" "same_shape c c'"
        "icache_keys c' = k # ks"
        "icache_map c' = (icache_map c)(lru := None, k \<mapsto> cn_data (hval (ihash_node h3 e)))" "icache_node_of c' k e"
      obtain old where old: "icache_map c lru = Some old" using icache_dom[OF inv] ev(2) by auto
      have g: "icache_get_value 0 (c\<lparr>ic_hash := ic_hash c\<rparr>) lru = Some old"
        using icache_get_value_map[OF inv, of 0 lru] old by simp
      note st = icache_set_ok[OF ev(9,13), of fd]
      let ?c' = "icache_set c' e fd" and ?w2 = "os_close w1 old"
      have ne: "k \<noteq> lru" using False ev(2) by auto
      have old_fd: "old \<noteq> fd" using fd_relD(1)[OF rel old] od by auto
      have t: "fdcache_touch_fn os_open os_close w c k = Some (?w2, ?c', Some e)"
        using get o fd ev(1,3-7) g fdcache_link_eq[OF ev(8)]
        by (simp add: fdcache_touch_fn_def fdcache_open_def fdcache_close_def)
      have "fd_inv fdn ?w2 ?c'"
      proof -
        have w2: "fdn ?w2 = (fdn w)(old := None, fd \<mapsto> fdcache_name k)"
          using os_closeD[OF os, of w1 old] od old_fd by (simp add: fun_upd_twist)
        have m: "icache_map ?c' = (icache_map c)(lru := None, k \<mapsto> fd)" using st(3) ev(12) by simp
        have "fd_rel (fdn ?w2) (icache_map ?c')"
          unfolding w2 m by (rule fd_rel_add[OF fd_rel_del[OF rel old]]) (use none od in auto)
        then show ?thesis using st(1) by (simp add: fd_inv_def)
      qed
      moreover have "lru_step (icache_keys c) k True (icache_keys ?c')"
        using False ev(2,11) st(2) by (simp add: lru_step_def)
      ultimately show thesis using st(4,5) ev(10) False t
        by (intro that[of ?w2 ?c' "Some e"]) (auto simp: same_shape_def)
    next
      fix ks lru l h assume ev: "ihash_touch_fn (ic_hash c) k = Some (ic_hash c, None)"
        "icache_keys c = ks @ [lru]" "ilist2_pop_back (ic_list c) = Some (l, lru)" "lru \<noteq> IHASH_UNDEF"
        "ihash_exists (ic_hash c) lru = Some True" "ihash_erase_fn (ic_hash c) lru = Some (h, True)"
        "ihash_touch_fn h k = Some (h, None)"
        "icache_inv (c\<lparr>ic_hash := h, ic_list := l\<rparr>)" "same_shape c (c\<lparr>ic_hash := h, ic_list := l\<rparr>)"
        "icache_keys (c\<lparr>ic_hash := h, ic_list := l\<rparr>) = ks"
        "icache_map (c\<lparr>ic_hash := h, ic_list := l\<rparr>) = (icache_map c)(lru := None)"
      obtain old where old: "icache_map c lru = Some old" using icache_dom[OF inv] ev(2) by auto
      have g: "icache_get_value 0 (c\<lparr>ic_hash := ic_hash c\<rparr>) lru = Some old"
        using icache_get_value_map[OF inv, of 0 lru] old by simp
      let ?c1 = "c\<lparr>ic_hash := h, ic_list := l\<rparr>" and ?w3 = "os_close (os_close w1 old) fd"
      have t: "fdcache_touch_fn os_open os_close w c k = Some (?w3, ?c1, None)"
        using get o fd ev(1,3-7) g by (simp add: fdcache_touch_fn_def fdcache_open_def fdcache_close_def)
      have w3: "fdn ?w3 = (fdn w)(old := None)"
        using os_closeD[OF os] od by (auto simp: fun_eq_iff)
      have "fd_inv fdn ?w3 ?c1" using fd_rel_del[OF rel old] ev(8) by (simp add: fd_inv_def ev(11) w3)
      moreover have "lru_step (icache_keys c) k False (icache_keys ?c1)"
        unfolding ev(10) using False ev(2) by (simp add: lru_step_def)
      ultimately show thesis using t ev(9) False by (intro that[of ?w3 ?c1 None]) auto
    qed
  qed
qed

lemma fdn_close_all:
  "os_laws fdn os_open os_close \<Longrightarrow>
   fdn (foldl (\<lambda>w e. os_close w (f e)) w es) = (\<lambda>fd. if fd \<in> f ` set es then None else fdn w fd)"
  by (induction es arbitrary: w) (auto simp: os_closeD fun_eq_iff)

lemma icache_map_slot:
  assumes "icache_inv c" "icache_map c k = Some v"
  obtains e where "e \<in> set (ihash_slots (ic_hash c))" "cn_data (hval (ihash_node (ic_hash c) e)) = v"
proof -
  let ?h = "ic_hash c"
  have I: "ihash_inv ?h" using assms(1) by (simp add: icache_inv_def)
  then obtain ps fs where hl: "hlinks ?h ps fs" by (auto simp: ihash_inv_def hrep_def)
  obtain x where x: "ihash_map ?h k = Some x" "cn_data x = v" using assms(2) by (auto simp: icache_map_def)
  then obtain e where "List.find (\<lambda>l. hkey (ihash_node ?h l) = k) (hslots ?h (ihash_idx ?h k)) = Some e"
    "hval (ihash_node ?h e) = x" by (auto simp: ihash_map_def hkv_find map_option_eq_Some)
  then show thesis using that[of e] x(2) find_SomeD ihash_idx_less[OF hl, of k]
    by (fastforce simp: ihash_slots_def)
qed

lemma fdcache_close_all_ok:
  assumes os: "os_laws fdn os_open os_close" and fi: "fd_inv fdn w c"
  obtains w' where "fdcache_close_all os_close w c = Some w'" "fdn w' = (\<lambda>_. None)"
proof -
  have inv: "icache_inv c" and rel: "fd_rel (fdn w) (icache_map c)" using fi by (simp_all add: fd_inv_def)
  let ?f = "\<lambda>e. cn_data (hval (ihash_node (ic_hash c) e))"
  let ?w = "foldl (\<lambda>w e. os_close w (?f e)) w (ihash_slots (ic_hash c))"
  have "fdcache_close_all os_close w c = Some ?w"
    using inv ihash_foreach_all[of "ic_hash c"] by (simp add: fdcache_close_all_def icache_inv_def)
  moreover have "fdn ?w = (\<lambda>_. None)"
  proof
    fix fd
    have "fd \<in> ?f ` set (ihash_slots (ic_hash c))" if ne: "fdn w fd \<noteq> None"
    proof -
      obtain k where "icache_map c k = Some fd" using fd_relD(2)[OF rel] ne by blast
      then show ?thesis using icache_map_slot[OF inv, of k fd] by blast
    qed
    then have "fd \<notin> ?f ` set (ihash_slots (ic_hash c)) \<longrightarrow> fdn w fd = None" by blast
    then show "fdn ?w fd = None" by (simp add: fdn_close_all[OF os])
  qed
  ultimately show thesis by (rule that)
qed

section \<open>Properties\<close>

text \<open>
  C20: fdcache_touch keeps the set of descriptors the operating system has open equal to the
  set the cache holds, each open on the file named by its key, whether the touch hits, opens a
  file, evicts and closes one, or fails; the descriptor returned is open on the key's file.
\<close>

theorem fdcache_touch_no_leak:
  fixes fdn :: "'w \<Rightarrow> i32 \<Rightarrow> u8 list option"
  assumes "os_laws fdn os_open os_close" "fd_inv fdn w c" "k \<noteq> IHASH_UNDEF"
  shows "\<exists>w' c' r. fdcache_touch_fn os_open os_close w c k = Some (w', c', r) \<and> fd_inv fdn w' c' \<and>
    (\<forall>e. r = Some e \<longrightarrow> fdn w' (cn_data (hval (ihash_node (ic_hash c') e))) = Some (fdcache_name k)) \<and>
    (r = None \<longrightarrow> k \<notin> set (icache_keys c)) \<and>
    ((c' = c \<and> snd (os_open w (fdcache_name k)) = -1) \<or>
     lru_step (icache_keys c) k (r \<noteq> None) (icache_keys c'))"
proof -
  obtain w' c' r where t: "fdcache_touch_fn os_open os_close w c k = Some (w', c', r)" "fd_inv fdn w' c'"
    "\<And>e. r = Some e \<Longrightarrow> icache_node_of c' k e" "r = None \<longrightarrow> k \<notin> set (icache_keys c)"
    "(c' = c \<and> k \<notin> set (icache_keys c) \<and> snd (os_open w (fdcache_name k)) = -1) \<or>
     lru_step (icache_keys c) k (r \<noteq> None) (icache_keys c')"
    by (rule fdcache_touch_ok[OF assms]) blast
  have "fdn w' (cn_data (hval (ihash_node (ic_hash c') e))) = Some (fdcache_name k)" if "r = Some e" for e
    using icache_node_map[OF _ t(3)[OF that]] t(2) fd_relD(1) unfolding fd_inv_def by blast
  then show ?thesis using t by blast
qed

text \<open>A small operating system with four descriptors.\<close>

definition toy_open :: "(i32 \<times> u8 list) list \<Rightarrow> u8 list \<Rightarrow> (i32 \<times> u8 list) list \<times> i32" where
  "toy_open w n = (case List.find (\<lambda>fd. map_of w fd = None) [0, 1, 2, 3] of
     None \<Rightarrow> (w, -1) | Some fd \<Rightarrow> ((fd, n) # w, fd))"

definition toy_close :: "(i32 \<times> u8 list) list \<Rightarrow> i32 \<Rightarrow> (i32 \<times> u8 list) list" where
  "toy_close w fd = filter (\<lambda>x. fst x \<noteq> fd) w"

lemma toy_laws: "os_laws map_of toy_open toy_close"
proof -
  have cl: "map_of (toy_close w fd) = (map_of w)(fd := None)" for w fd
    by (induction w) (auto simp: toy_close_def fun_eq_iff)
  have "let (w', fd) = toy_open w n in
      if fd = -1 then map_of w' = map_of w else map_of w fd = None \<and> map_of w' = (map_of w)(fd \<mapsto> n)" for w n
  proof (cases "List.find (\<lambda>fd. map_of w fd = None) [0, 1, 2, 3]")
    case (Some fd)
    then have "fd \<in> set [0, 1, 2, 3]" "map_of w fd = None" using find_SomeD[OF Some] by simp_all
    then show ?thesis using Some by (auto simp: toy_open_def)
  qed (simp add: toy_open_def)
  then show ?thesis using cl by (simp add: os_laws_def)
qed

definition toy_cache :: "unit fdcache" where
  "toy_cache = (let n = \<lparr>hkey = 0, hnext = 0, hval = \<lparr>cn_data = 0, cn_idx = 0\<rparr>\<rparr>;
      m = \<lparr>iprev = 0, inext = 0, idata = 0\<rparr> in
    the (icache_init_fn ([n, n], [n], [m, m, m], ()) 2 1 0 16 None 0))"

lemma toy_cache_ok: "fd_inv map_of [] toy_cache" "icache_keys toy_cache = []"
proof -
  let ?n = "\<lparr>hkey = 0, hnext = 0, hval = \<lparr>cn_data = (0::i32), cn_idx = 0\<rparr>\<rparr>"
  let ?m = "\<lparr>iprev = 0, inext = 0, idata = (0::i64)\<rparr>"
  have "(0::nat) < 2" "length [?n, ?n] = 2" "length [?n] = 1" "length [?m, ?m, ?m] = 2 + 1" by simp_all
  from icache_init_ok[OF this, of "()" 0 16 None 0]
  obtain c where c: "icache_init_fn ([?n, ?n], [?n], [?m, ?m, ?m], ()) 2 1 0 16 None 0 = Some c"
    "icache_inv c" "icache_keys c = []" by metis
  have t: "toy_cache = c" using c(1) by (simp add: toy_cache_def Let_def)
  have "icache_map c = (\<lambda>_. None)" using icache_dom[OF c(2)] c(3) by auto
  then show "fd_inv map_of [] toy_cache" "icache_keys toy_cache = []"
    using c by (simp_all add: t fd_inv_def fd_rel_def)
qed

theorem fdcache_touch_no_leak_witness:
  "\<exists>w' c' r. fdcache_touch_fn toy_open toy_close [] toy_cache 5 = Some (w', c', r) \<and> fd_inv map_of w' c'"
  using fdcache_touch_no_leak[OF toy_laws toy_cache_ok(1), of 5] by (auto simp: IHASH_UNDEF_def)

text \<open>
  fdcache_clear closes every descriptor the cache holds and leaves an empty cache that
  still satisfies the invariant; fdcache_free leaves no descriptor open.
\<close>

lemma fdcache_clear_closes_all:
  fixes fdn :: "'w \<Rightarrow> i32 \<Rightarrow> u8 list option"
  assumes "os_laws fdn os_open os_close" "fd_inv fdn w c"
  shows "(\<exists>w'. fdcache_clear os_close w c fn = Some (w', icache_clear c fn) \<and> fdn w' = (\<lambda>_. None) \<and>
      fd_inv fdn w' (icache_clear c fn) \<and> icache_keys (icache_clear c fn) = []) \<and>
    (\<exists>w'. fdcache_free os_close w c = Some w' \<and> fdn w' = (\<lambda>_. None))"
proof -
  obtain w' where w': "fdcache_close_all os_close w c = Some w'" "fdn w' = (\<lambda>_. None)"
    by (rule fdcache_close_all_ok[OF assms])
  note cl = icache_clear_ok[of c fn]
  have inv: "icache_inv c" using assms(2) by (simp add: fd_inv_def)
  then have "fd_inv fdn w' (icache_clear c fn)" using cl w'(2) by (simp add: fd_inv_def fd_rel_def)
  then show ?thesis using w' cl(2)[OF inv] by (simp add: fdcache_clear_def fdcache_free_def)
qed

lemma fdcache_clear_closes_all_example:
  "\<exists>w'. fdcache_free toy_close [] toy_cache = Some w' \<and> map_of w' = (\<lambda>_. None)"
  using fdcache_clear_closes_all[OF toy_laws toy_cache_ok(1)] by blast

end
