(* ===== verification/Scr_Pagecache.thy ===== *)
theory Scr_Pagecache
  imports Scr_Fdcache "HOL-Library.Sublist" "HOL-Library.Multiset"
begin

text \<open>
  \<^verbatim>\<open>lib/core/src/pagecache.h\<close> and \<^verbatim>\<open>pagecache.c\<close>: pages of files in
  frames of memory, replaced in order of last use. The cache maps a gid to the number of its
  frame; the numbers of the free frames are a stack in the cache's extra data. The system
  calls are the fields of \<open>'w os_calls\<close>, acting on a state \<open>'w\<close> of the
  operating system. A failed assert or a NULL dereference is \<open>None\<close>.
\<close>

section \<open>State\<close>

record 'w os_calls =
  os_open :: "'w os_open"
  os_close :: "'w os_close"
  os_pread :: "'w \<Rightarrow> i32 \<Rightarrow> nat \<Rightarrow> nat \<Rightarrow> 'w \<times> u8 list option"
  os_pwrite :: "'w \<Rightarrow> i32 \<Rightarrow> u8 list \<Rightarrow> nat \<Rightarrow> 'w \<times> int"

type_synonym page_icache = "(nat, nat ilist2) icache"

text \<open>The operating system, the globals g_fdcache and g_pages (as frames), and the cache.\<close>

record 'w pagecache =
  pc_os :: 'w
  pc_fds :: "unit fdcache"
  pc_pages :: "u8 list list"
  pc_cache :: page_icache

definition pagecache_get_extra_size :: "u64 \<Rightarrow> u64" where
  "pagecache_get_extra_size n = ilist2_get_required_memory_size n 8"

text \<open>The macro passes sizeof(Page), the size of a pointer, where pagecache_create_fn passes the 16 of PageCache.\<close>

definition pagecache_get_required_memory_size :: "u64 \<Rightarrow> u64 \<Rightarrow> u64" where
  "pagecache_get_required_memory_size bsz csz =
     icache_get_required_memory_size bsz csz 8 (pagecache_get_extra_size (bsz + csz))"

section \<open>Creation\<close>

text \<open>The loop \<open>for (i = fullsz - 1; i >= 0; --i) ilist2_put_back(page_idx_stack, i)\<close>.\<close>

fun pagecache_fill :: "nat \<Rightarrow> nat ilist2 \<Rightarrow> nat ilist2 option" where
  "pagecache_fill 0 l = Some l"
| "pagecache_fill (Suc i) l = Option.bind (ilist2_put_back l i) (\<lambda>(l', _). pagecache_fill i l')"

definition pagecache_init_fn ::
    "nat cnode hnode list \<times> nat cnode hnode list \<times> i64 inode list \<times> nat inode list \<Rightarrow>
     nat \<Rightarrow> nat \<Rightarrow> (u64 \<Rightarrow> u64) option \<Rightarrow> page_icache option" where
  "pagecache_init_fn mem bsz csz fn = (case mem of (bs, cs, ls, xs) \<Rightarrow>
     let fullsz = bsz + csz; stack = ilist2_init_fn xs fullsz 8 in
     Option.bind (icache_init_fn (bs, cs, ls, stack) bsz csz 0 16 fn
         (pagecache_get_extra_size (of_nat fullsz))) (\<lambda>c.
       map_option (\<lambda>st. c\<lparr>ic_extra := st\<rparr>) (pagecache_fill fullsz (ic_extra c))))"

definition pagecache_create_fn ::
    "(nat cnode hnode list \<times> nat cnode hnode list \<times> i64 inode list \<times> nat inode list) option \<Rightarrow>
     nat \<Rightarrow> nat \<Rightarrow> (u64 \<Rightarrow> u64) option \<Rightarrow> page_icache option" where
  "pagecache_create_fn mem bsz csz fn =
     (if bsz = 0 then None else Option.bind mem (\<lambda>m. pagecache_init_fn m bsz csz fn))"

definition pagecache_clear :: "page_icache \<Rightarrow> (u64 \<Rightarrow> u64) option \<Rightarrow> page_icache option" where
  "pagecache_clear c fn =
     (let fullsz = bucketsz (ic_hash c) + chainsz (ic_hash c); c' = icache_clear c fn in
      map_option (\<lambda>st. c'\<lparr>ic_extra := st\<rparr>) (pagecache_fill fullsz (ilist2_clear (ic_extra c))))"

section \<open>Operations\<close>

text \<open>fdcache_put on g_fdcache: the descriptor of a file, if it could be opened.\<close>

definition pagecache_fd :: "'w os_calls \<Rightarrow> 'w pagecache \<Rightarrow> gid \<Rightarrow> ('w pagecache \<times> i32 option) option" where
  "pagecache_fd y s key = map_option
     (\<lambda>(w, c, r). (s\<lparr>pc_os := w, pc_fds := c\<rparr>, map_option (\<lambda>e. cn_data (hval (ihash_node (ic_hash c) e))) r))
     (fdcache_touch_fn (os_open y) (os_close y) (pc_os s) (pc_fds s) (gid_file_id key))"

text \<open>The offset \<open>key.parts.page * PAGESZ\<close>, at most \<open>2^36\<close>.\<close>

definition page_offs :: "gid \<Rightarrow> nat" where
  "page_offs key = unat (gid_page key) * PAGESZ"

text \<open>icache_get_member_ptr of page_idx, dereferenced.\<close>

definition pagecache_frame :: "page_icache \<Rightarrow> gid \<Rightarrow> nat option option" where
  "pagecache_frame c key =
     map_option (map_option (\<lambda>e. cn_data (hval (ihash_node (ic_hash c) e)))) (icache_get c key)"

definition pagecache_read :: "'w os_calls \<Rightarrow> 'w pagecache \<Rightarrow> gid \<Rightarrow> ('w pagecache \<times> nat option) option" where
  "pagecache_read y s key = Option.bind (ilist2_pop_back (ic_extra (pc_cache s))) (\<lambda>(st, cur_idx).
     Option.bind (pagecache_fd y (s\<lparr>pc_cache := (pc_cache s)\<lparr>ic_extra := st\<rparr>\<rparr>) key) (\<lambda>(s1, e). case e of
       None \<Rightarrow> None
     | Some fd \<Rightarrow> (case os_pread y (pc_os s1) fd PAGESZ (page_offs key) of
         (w, None) \<Rightarrow> Some (s1\<lparr>pc_os := w\<rparr>, None)
       | (w, Some bs) \<Rightarrow> Some (s1\<lparr>pc_os := w,
           pc_pages := (pc_pages s1)[cur_idx := write_at (pc_pages s1 ! cur_idx) 0 bs]\<rparr>, Some cur_idx))))"

definition pagecache_write :: "'w os_calls \<Rightarrow> 'w pagecache \<Rightarrow> gid \<Rightarrow> ('w pagecache \<times> nat option) option" where
  "pagecache_write y s key = Option.bind (pagecache_fd y s key) (\<lambda>(s1, e).
     Option.bind (pagecache_frame (pc_cache s1) key) (\<lambda>idx. case (e, idx) of
       (Some fd, Some i) \<Rightarrow>
         (let (w, written_bytes) = os_pwrite y (pc_os s1) fd (pc_pages s1 ! i) (page_offs key);
              s2 = s1\<lparr>pc_os := w\<rparr> in
          if written_bytes = -1 then Some (s2, None)
          else if written_bytes \<noteq> int PAGESZ then None
          else Option.bind (ilist2_put_back (ic_extra (pc_cache s2)) i) (\<lambda>(st, r). case r of
            None \<Rightarrow> None
          | Some j \<Rightarrow> Some (s2\<lparr>pc_cache := (pc_cache s2)\<lparr>ic_extra := st\<rparr>\<rparr>, Some j)))
     | _ \<Rightarrow> None))"

text \<open>The end of pagecache_touch_fn: fill the new node's frame and link it as the most recent.\<close>

definition pagecache_link :: "'w os_calls \<Rightarrow> 'w pagecache \<Rightarrow> gid \<Rightarrow> hloc \<Rightarrow> ('w pagecache \<times> hloc) option" where
  "pagecache_link y s key e = Option.bind (pagecache_read y s key) (\<lambda>(s1, idx). case idx of
     None \<Rightarrow> None
   | Some i \<Rightarrow> map_option (\<lambda>(c, _). (s1\<lparr>pc_cache := c\<rparr>, e)) (icache_link (icache_set (pc_cache s1) e i) key e))"

definition pagecache_touch_fn :: "'w os_calls \<Rightarrow> 'w pagecache \<Rightarrow> gid \<Rightarrow> ('w pagecache \<times> hloc) option" where
  "pagecache_touch_fn y s key = (let c = pc_cache s in
     Option.bind (icache_get c key) (\<lambda>r. case r of
       Some e \<Rightarrow> map_option (\<lambda>l. (s\<lparr>pc_cache := c\<lparr>ic_list := l\<rparr>\<rparr>, e))
         (ilist2_move_front_by_idx_fn (ic_list c) (cn_idx (hval (ihash_node (ic_hash c) e))))
     | None \<Rightarrow> Option.bind (ihash_touch_fn (ic_hash c) key) (\<lambda>(h1, r1). case r1 of
         Some e \<Rightarrow> pagecache_link y (s\<lparr>pc_cache := c\<lparr>ic_hash := h1\<rparr>\<rparr>) key e
       | None \<Rightarrow> Option.bind (ilist2_pop_back (ic_list c)) (\<lambda>(l, lru_key).
           if lru_key = IHASH_UNDEF then None
           else Option.bind (pagecache_write y (s\<lparr>pc_cache := c\<lparr>ic_hash := h1, ic_list := l\<rparr>\<rparr>) lru_key) (\<lambda>(s1, _).
             Option.bind (ihash_erase_fn (ic_hash (pc_cache s1)) lru_key) (\<lambda>(h2, _).
             Option.bind (ihash_touch_fn h2 key) (\<lambda>(h3, r3). case r3 of
               None \<Rightarrow> None
             | Some e \<Rightarrow> pagecache_link y (s1\<lparr>pc_cache := (pc_cache s1)\<lparr>ic_hash := h3\<rparr>\<rparr>) key e)))))))"

text \<open>The result is 0, or the number of bytes written when it is not a whole page.\<close>

definition pagecache_flush :: "'w os_calls \<Rightarrow> 'w pagecache \<Rightarrow> gid \<Rightarrow> ('w pagecache \<times> int) option" where
  "pagecache_flush y s key = Option.bind (pagecache_fd y s key) (\<lambda>(s1, e).
     Option.bind (pagecache_frame (pc_cache s1) key) (\<lambda>idx. case (e, idx) of
       (Some fd, Some i) \<Rightarrow>
         (let (w, written_bytes) = os_pwrite y (pc_os s1) fd (pc_pages s1 ! i) (page_offs key) in
          Some (s1\<lparr>pc_os := w\<rparr>, if written_bytes \<noteq> int PAGESZ then written_bytes else 0))
     | _ \<Rightarrow> None))"

section \<open>The file system\<close>

text \<open>POSIX pwrite on the bytes of a file: a gap before the offset reads as zeros, no bytes have no effect.\<close>

definition file_write :: "u8 list \<Rightarrow> nat \<Rightarrow> u8 list \<Rightarrow> u8 list" where
  "file_write c off bs = (if bs = [] then c else take off (c @ replicate (off - length c) 0) @ bs @ drop (off + length bs) c)"

text \<open>
  \<open>fdn w\<close> is the table of open descriptors, \<open>cont w n\<close> the bytes of the
  file named \<open>n\<close> (none while it does not exist). POSIX: opening succeeds while fewer than
  \<open>lim\<close> descriptors are open; pread on an open descriptor fails or gives the first of the
  bytes asked for; pwrite fails and writes nothing, or writes the first of the bytes and returns their number.
\<close>

definition fs_laws :: "('w \<Rightarrow> i32 \<Rightarrow> u8 list option) \<Rightarrow> ('w \<Rightarrow> u8 list \<Rightarrow> u8 list) \<Rightarrow> nat \<Rightarrow> 'w os_calls \<Rightarrow> bool" where
  "fs_laws fdn cont lim y \<longleftrightarrow> os_laws fdn (os_open y) (os_close y) \<and>
     (\<forall>w n. cont (fst (os_open y w n)) = cont w) \<and> (\<forall>w fd. cont (os_close y w fd) = cont w) \<and>
     (\<forall>w n. card (dom (fdn w)) < lim \<longrightarrow> snd (os_open y w n) \<noteq> -1) \<and>
     (\<forall>w fd n sz off. fdn w fd = Some n \<longrightarrow>
        (\<exists>w' r. os_pread y w fd sz off = (w', r) \<and> fdn w' = fdn w \<and> cont w' = cont w \<and>
          (\<forall>bs. r = Some bs \<longrightarrow> prefix bs (take sz (drop off (cont w n)))))) \<and>
     (\<forall>w fd n bs off. fdn w fd = Some n \<longrightarrow>
        (\<exists>w' r. os_pwrite y w fd bs off = (w', r) \<and> fdn w' = fdn w \<and>
          (r = -1 \<and> cont w' = cont w \<or>
           (\<exists>m \<le> length bs. (bs \<noteq> [] \<longrightarrow> 0 < m) \<and> r = int m \<and> cont w' = (cont w)(n := file_write (cont w n) off (take m bs))))))"

text \<open>A file system whose reads and writes neither fail nor stop short.\<close>

definition fs_reliable :: "('w \<Rightarrow> i32 \<Rightarrow> u8 list option) \<Rightarrow> ('w \<Rightarrow> u8 list \<Rightarrow> u8 list) \<Rightarrow> nat \<Rightarrow> 'w os_calls \<Rightarrow> bool" where
  "fs_reliable fdn cont lim y \<longleftrightarrow> fs_laws fdn cont lim y \<and>
     (\<forall>w fd n sz off. fdn w fd = Some n \<longrightarrow> snd (os_pread y w fd sz off) = Some (take sz (drop off (cont w n)))) \<and>
     (\<forall>w fd n bs off. fdn w fd = Some n \<longrightarrow> snd (os_pwrite y w fd bs off) = int (length bs))"

text \<open>The bytes of a page on disk, fewer than PAGESZ at the end of the file.\<close>

definition disk_page :: "(u8 list \<Rightarrow> u8 list) \<Rightarrow> gid \<Rightarrow> u8 list" where
  "disk_page ct g = read_at (ct (fdcache_name (gid_file_id g))) (page_offs g) PAGESZ"

definition put_page :: "(u8 list \<Rightarrow> u8 list) \<Rightarrow> gid \<Rightarrow> u8 list \<Rightarrow> (u8 list \<Rightarrow> u8 list)" where
  "put_page ct g bs = (let n = fdcache_name (gid_file_id g) in ct(n := file_write (ct n) (page_offs g) bs))"

lemma gid_file_id_parts_id: "gid_file_id (gid_parts (gid_file_id g) p) = gid_file_id g"
  using gid_file_id_parts[of "gid_file_id g" p] gid_file_id_parts[of "gid_file_id g" "gid_page g"]
  by (simp only: gid_parts_split)

lemma fdcache_name_eq_iff: "fdcache_name (gid_file_id g) = fdcache_name (gid_file_id g') \<longleftrightarrow> gid_file_id g = gid_file_id g'"
  by (simp only: fdcache_name_def gid2hex_eq_iff gid_file_id_parts_id)

lemma file_write_at: "read_at (file_write c off bs) off (length bs) = bs"
  by (simp add: file_write_def read_at_def)

text \<open>A write within one page.\<close>

lemma file_write_short:
  assumes "length bs \<le> n"
  shows "read_at (file_write c off bs) off n = bs @ drop (length bs) (read_at c off n)"
  using assms by (simp add: file_write_def read_at_def drop_take add.commute)

lemma file_write_before:
  assumes "o' + n \<le> off"
  shows "prefix (read_at c o' n) (read_at (file_write c off bs) o' n)"
proof (cases "bs = []")
  case True
  then show ?thesis by (simp add: file_write_def)
next
  case False
  let ?z = "c @ replicate (off - length c) 0"
  have "read_at (file_write c off bs) o' n = take n (drop o' (take off ?z))"
    using assms False by (simp add: file_write_def read_at_def)
  also have "\<dots> = take n (drop o' ?z)"
    using assms by (simp add: drop_take min_absorb1 le_diff_conv2 add.commute take_take)
  finally show ?thesis by (simp add: read_at_def)
qed

lemma file_write_after:
  assumes "off + length bs \<le> o'"
  shows "read_at (file_write c off bs) o' n = read_at c o' n"
proof -
  have "min (length c) off + (off - length c) = off" by simp
  then show ?thesis using assms by (simp add: file_write_def read_at_def)
qed

lemma page_offs_apart:
  "gid_page g \<noteq> gid_page g' \<Longrightarrow> page_offs g + PAGESZ \<le> page_offs g' \<or> page_offs g' + PAGESZ \<le> page_offs g"
proof -
  have step: "a * PAGESZ + PAGESZ \<le> b * PAGESZ" if "a < b" for a b
    using mult_le_mono1[of "Suc a" b PAGESZ] that by simp
  assume "gid_page g \<noteq> gid_page g'"
  then have "unat (gid_page g) < unat (gid_page g') \<or> unat (gid_page g') < unat (gid_page g)"
    by (metis linorder_neqE_nat word_unat_eq_iff)
  then show ?thesis
    using step[of "unat (gid_page g)" "unat (gid_page g')"] step[of "unat (gid_page g')" "unat (gid_page g)"]
    by (auto simp: page_offs_def)
qed

lemma disk_page_put:
  assumes "length bs \<le> PAGESZ"
  shows "disk_page (put_page ct g bs) g = bs @ drop (length bs) (disk_page ct g)"
    "prefix (disk_page ct g') (disk_page (put_page ct g bs) g') \<or> g' = g"
proof -
  show "disk_page (put_page ct g bs) g = bs @ drop (length bs) (disk_page ct g)"
    using file_write_short[OF assms] by (simp add: disk_page_def put_page_def Let_def)
  show "prefix (disk_page ct g') (disk_page (put_page ct g bs) g') \<or> g' = g"
  proof (cases "gid_file_id g' = gid_file_id g")
    case False
    then show ?thesis by (simp add: disk_page_def put_page_def Let_def fdcache_name_eq_iff)
  next
    case True
    show ?thesis
    proof (cases "gid_page g' = gid_page g")
      case p: True
      then show ?thesis using True gid_eq_iff by blast
    next
      case False
      from page_offs_apart[OF this] show ?thesis
        using file_write_before[of "page_offs g'" PAGESZ "page_offs g"] file_write_after[of "page_offs g" bs "page_offs g'"]
          True assms by (auto simp: disk_page_def put_page_def Let_def)
    qed
  qed
qed

lemma disk_page_put_whole: "length bs = PAGESZ \<Longrightarrow> disk_page (put_page ct g bs) g = bs"
  using disk_page_put(1)[of bs ct g] by (simp add: disk_page_def read_at_def)

text \<open>What the laws give for one call.\<close>

lemma fs_lawsD:
  assumes "fs_laws fdn cont lim y"
  shows "os_laws fdn (os_open y) (os_close y)" "cont (fst (os_open y w n)) = cont w" "cont (os_close y w fd) = cont w"
    "card (dom (fdn w)) < lim \<Longrightarrow> snd (os_open y w n) \<noteq> -1"
    "fdn w fd = Some n \<Longrightarrow> fdn (fst (os_pread y w fd sz off)) = fdn w \<and> cont (fst (os_pread y w fd sz off)) = cont w"
    "fdn w fd = Some n \<Longrightarrow> \<exists>w' r. os_pwrite y w fd bs off = (w', r) \<and> fdn w' = fdn w \<and>
       (r = -1 \<and> cont w' = cont w \<or>
        (\<exists>m \<le> length bs. (bs \<noteq> [] \<longrightarrow> 0 < m) \<and> r = int m \<and> cont w' = (cont w)(n := file_write (cont w n) off (take m bs))))"
proof -
  show "os_laws fdn (os_open y) (os_close y)" "cont (fst (os_open y w n)) = cont w" "cont (os_close y w fd) = cont w"
    "card (dom (fdn w)) < lim \<Longrightarrow> snd (os_open y w n) \<noteq> -1"
    using assms unfolding fs_laws_def by blast+
  have "fdn w fd = Some n \<Longrightarrow> \<exists>w' r. os_pread y w fd sz off = (w', r) \<and> fdn w' = fdn w \<and> cont w' = cont w"
    using assms unfolding fs_laws_def by blast
  then show "fdn w fd = Some n \<Longrightarrow> fdn (fst (os_pread y w fd sz off)) = fdn w \<and> cont (fst (os_pread y w fd sz off)) = cont w"
    by auto
  show "fdn w fd = Some n \<Longrightarrow> \<exists>w' r. os_pwrite y w fd bs off = (w', r) \<and> fdn w' = fdn w \<and>
       (r = -1 \<and> cont w' = cont w \<or>
        (\<exists>m \<le> length bs. (bs \<noteq> [] \<longrightarrow> 0 < m) \<and> r = int m \<and> cont w' = (cont w)(n := file_write (cont w n) off (take m bs))))"
    using assms unfolding fs_laws_def by blast
qed

lemma fs_reliableD:
  assumes "fs_reliable fdn cont lim y"
  shows "fs_laws fdn cont lim y"
    "fdn w fd = Some n \<Longrightarrow> \<exists>w'. os_pread y w fd sz off = (w', Some (read_at (cont w n) off sz)) \<and>
       fdn w' = fdn w \<and> cont w' = cont w"
    "fdn w fd = Some n \<Longrightarrow> \<exists>w'. os_pwrite y w fd bs off = (w', int (length bs)) \<and>
       fdn w' = fdn w \<and> cont w' = (cont w)(n := file_write (cont w n) off bs)"
proof -
  show l: "fs_laws fdn cont lim y" using assms by (simp add: fs_reliable_def)
  assume n: "fdn w fd = Some n"
  have "snd (os_pread y w fd sz off) = Some (read_at (cont w n) off sz)"
    using assms n unfolding fs_reliable_def read_at_def by blast
  then show "\<exists>w'. os_pread y w fd sz off = (w', Some (read_at (cont w n) off sz)) \<and> fdn w' = fdn w \<and> cont w' = cont w"
    using fs_lawsD(5)[OF l n, of sz off] by (metis prod.collapse)
  have "snd (os_pwrite y w fd bs off) = int (length bs)" using assms n unfolding fs_reliable_def by blast
  then show "\<exists>w'. os_pwrite y w fd bs off = (w', int (length bs)) \<and>
       fdn w' = fdn w \<and> cont w' = (cont w)(n := file_write (cont w n) off bs)"
    using fs_lawsD(6)[OF l n, of bs off] by auto
qed

lemma fdcache_touch_cont:
  assumes fs: "fs_laws fdn cont lim y" and t: "fdcache_touch_fn (os_open y) (os_close y) w c k = Some (w', c', r)"
  shows "cont w' = cont w"
proof -
  obtain w1 fd where o: "os_open y w (fdcache_name k) = (w1, fd)" by (cases "os_open y w (fdcache_name k)")
  then have "cont w1 = cont w" using fs_lawsD(2)[OF fs, of w "fdcache_name k"] by simp
  moreover have "cont w' \<in> {cont w, cont w1}"
    using t unfolding fdcache_touch_fn_def fdcache_open_def fdcache_close_def fdcache_link_def o
    by (auto simp: Let_def bind_eq_Some_conv map_option_eq_Some fs_lawsD(3)[OF fs]
      split: option.split_asm if_split_asm)
  ultimately show ?thesis by simp
qed

lemma fd_inv_card:
  assumes "fd_inv fdn w c"
  shows "card (dom (fdn w)) \<le> length (icache_keys c)"
proof -
  have inv: "icache_inv c" and rel: "fd_rel (fdn w) (icache_map c)" using assms by (simp_all add: fd_inv_def)
  have "dom (fdn w) \<subseteq> (the \<circ> icache_map c) ` set (icache_keys c)"
  proof
    fix fd assume "fd \<in> dom (fdn w)"
    then obtain k where k: "icache_map c k = Some fd" using fd_relD(2)[OF rel] by blast
    then have "k \<in> set (icache_keys c)" using icache_dom[OF inv] by blast
    then show "fd \<in> (the \<circ> icache_map c) ` set (icache_keys c)" using k by force
  qed
  then have "card (dom (fdn w)) \<le> card (set (icache_keys c))"
    by (meson List.finite_set card_image_le card_mono finite_imageI le_trans)
  then show ?thesis using card_length le_trans by blast
qed

lemma fdcache_touch_room:
  assumes fs: "fs_laws fdn cont lim y" and fi: "fd_inv fdn w c" and k: "k \<noteq> IHASH_UNDEF"
    and room: "k \<in> set (icache_keys c) \<or> length (icache_keys c) \<le> chainsz (ic_hash c)"
    and lim: "chainsz (ic_hash c) < lim"
  obtains w' c' e where "fdcache_touch_fn (os_open y) (os_close y) w c k = Some (w', c', Some e)"
    "fd_inv fdn w' c'" "same_shape c c'" "icache_node_of c' k e"
    "set (icache_keys c') \<subseteq> insert k (set (icache_keys c))" "cont w' = cont w"
proof -
  have inv: "icache_inv c" using fi by (simp add: fd_inv_def)
  obtain w' c' r where t: "fdcache_touch_fn (os_open y) (os_close y) w c k = Some (w', c', r)" "fd_inv fdn w' c'"
    "same_shape c c'" "\<And>e. r = Some e \<Longrightarrow> icache_node_of c' k e" "r = None \<longrightarrow> k \<notin> set (icache_keys c)"
    "(c' = c \<and> k \<notin> set (icache_keys c) \<and> snd (os_open y w (fdcache_name k)) = -1) \<or>
     lru_step (icache_keys c) k (r \<noteq> None) (icache_keys c')"
    by (rule fdcache_touch_ok[OF fs_lawsD(1)[OF fs] fi k]) blast
  have ne: "r \<noteq> None"
  proof (cases "k \<in> set (icache_keys c)")
    case True
    then show ?thesis using t(5) by blast
  next
    case False
    then have len: "length (icache_keys c) \<le> chainsz (ic_hash c)" using room by blast
    then have op: "snd (os_open y w (fdcache_name k)) \<noteq> -1"
      using fs_lawsD(4)[OF fs] fd_inv_card[OF fi] lim by (meson le_less_trans le_trans)
    have "\<exists>h e. ihash_touch_fn (ic_hash c) k = Some (h, Some e)"
      by (rule icache_miss_cases[OF inv k False]) (use len in auto)
    then show ?thesis using t(1) op icache_get_miss[OF inv False]
      by (auto simp: fdcache_touch_fn_def fdcache_open_def fdcache_link_def icache_link_def bind_eq_Some_conv
        split: prod.splits option.splits)
  qed
  then obtain e where e: "r = Some e" by blast
  have sub: "set (icache_keys c') \<subseteq> insert k (set (icache_keys c))"
    using t(6) by (auto simp: lru_step_def split: if_splits dest: in_set_butlastD)
  show thesis using that[OF t(1)[unfolded e] t(2,3) t(4)[OF e] sub fdcache_touch_cont[OF fs t(1)]] .
qed

section \<open>One file access\<close>

text \<open>The descriptor cache is sound, and has room for the set \<open>K\<close> of files in use.\<close>

definition pc_io :: "('w \<Rightarrow> i32 \<Rightarrow> u8 list option) \<Rightarrow> nat \<Rightarrow> u64 set \<Rightarrow> 'w pagecache \<Rightarrow> bool" where
  "pc_io fdn lim K s \<longleftrightarrow> fd_inv fdn (pc_os s) (pc_fds s) \<and> set (icache_keys (pc_fds s)) \<subseteq> K \<and>
     finite K \<and> card K \<le> Suc (chainsz (ic_hash (pc_fds s))) \<and> chainsz (ic_hash (pc_fds s)) < lim"

lemma pc_io_simps [simp]:
  "pc_io fdn lim K (s\<lparr>pc_cache := c\<rparr>) = pc_io fdn lim K s"
  "pc_io fdn lim K (s\<lparr>pc_pages := p\<rparr>) = pc_io fdn lim K s"
  by (simp_all add: pc_io_def)

lemma pc_io_os: "fdn w = fdn (pc_os s) \<Longrightarrow> pc_io fdn lim K (s\<lparr>pc_os := w\<rparr>) = pc_io fdn lim K s"
  by (simp add: pc_io_def fd_inv_def)

lemma gid_file_id_defined: "gid_file_id g \<noteq> IHASH_UNDEF"
proof
  assume "gid_file_id g = IHASH_UNDEF"
  then have "bit (gid_file_id g) 63" by (simp add: IHASH_UNDEF_def)
  then show False by (simp add: gid_file_id_def GID_FILEIDBITS_def bit_simps)
qed

lemma pagecache_fd_ok:
  assumes fs: "fs_laws fdn cont lim y" and io: "pc_io fdn lim K s" and g: "gid_file_id g \<in> K"
  obtains w c fd where "pagecache_fd y s g = Some (s\<lparr>pc_os := w, pc_fds := c\<rparr>, Some fd)"
    "pc_io fdn lim K (s\<lparr>pc_os := w, pc_fds := c\<rparr>)" "fdn w fd = Some (fdcache_name (gid_file_id g))"
    "cont w = cont (pc_os s)"
proof -
  let ?k = "gid_file_id g" and ?c = "pc_fds s"
  have I: "fd_inv fdn (pc_os s) ?c" "set (icache_keys ?c) \<subseteq> K" "finite K" "card K \<le> Suc (chainsz (ic_hash ?c))"
    "chainsz (ic_hash ?c) < lim" using io by (simp_all add: pc_io_def)
  have d: "distinct (icache_keys ?c)" using I(1) by (simp add: fd_inv_def icache_inv_def)
  have room: "?k \<in> set (icache_keys ?c) \<or> length (icache_keys ?c) \<le> chainsz (ic_hash ?c)"
  proof (rule disjCI)
    assume "\<not> length (icache_keys ?c) \<le> chainsz (ic_hash ?c)"
    then have "set (icache_keys ?c) = K"
      using card_seteq[OF I(3,2)] I(4) distinct_card[OF d] by linarith
    then show "?k \<in> set (icache_keys ?c)" using g by blast
  qed
  obtain w c e where t: "fdcache_touch_fn (os_open y) (os_close y) (pc_os s) ?c ?k = Some (w, c, Some e)"
    "fd_inv fdn w c" "same_shape ?c c" "icache_node_of c ?k e" "set (icache_keys c) \<subseteq> insert ?k (set (icache_keys ?c))"
    "cont w = cont (pc_os s)"
    by (rule fdcache_touch_room[OF fs I(1) gid_file_id_defined room I(5)])
  let ?fd = "cn_data (hval (ihash_node (ic_hash c) e))"
  have "icache_map c ?k = Some ?fd" using icache_node_map[OF _ t(4)] t(2) by (simp add: fd_inv_def)
  then have "fdn w ?fd = Some (fdcache_name ?k)" using fd_relD(1) t(2) unfolding fd_inv_def by blast
  moreover have "pc_io fdn lim K (s\<lparr>pc_os := w, pc_fds := c\<rparr>)"
    using t(2,3,5) I g by (auto simp: pc_io_def same_shape_def)
  ultimately show thesis using that t(1,6) by (simp add: pagecache_fd_def)
qed

lemma pagecache_read_ok:
  assumes fs: "fs_reliable fdn cont lim y" and io: "pc_io fdn lim K s" and g: "gid_file_id g \<in> K"
    and st: "ilist2_inv (ic_extra (pc_cache s))" "ilist2_view (ic_extra (pc_cache s)) = vw @ [(i, f)]"
    and f: "length (pc_pages s ! f) = PAGESZ"
  obtains w c l buf where "pagecache_read y s g = Some (s\<lparr>pc_os := w, pc_fds := c,
      pc_pages := (pc_pages s)[f := buf], pc_cache := (pc_cache s)\<lparr>ic_extra := l\<rparr>\<rparr>, Some f)"
    "ilist2_inv l" "listsz l = listsz (ic_extra (pc_cache s))" "ilist2_view l = vw" "length buf = PAGESZ"
    "prefix (disk_page (cont (pc_os s)) g) buf" "cont w = cont (pc_os s)"
    "pc_io fdn lim K (s\<lparr>pc_os := w, pc_fds := c\<rparr>)"
proof -
  from ilist2_pop_law(2)[OF st] obtain l where l: "ilist2_pop_back (ic_extra (pc_cache s)) = Some (l, f)"
    "ilist2_inv l" "listsz l = listsz (ic_extra (pc_cache s))" "ilist2_view l = vw" by blast
  let ?s = "s\<lparr>pc_cache := (pc_cache s)\<lparr>ic_extra := l\<rparr>\<rparr>"
  have io': "pc_io fdn lim K ?s" using io by simp
  obtain w c fd where d: "pagecache_fd y ?s g = Some (?s\<lparr>pc_os := w, pc_fds := c\<rparr>, Some fd)"
    "pc_io fdn lim K (?s\<lparr>pc_os := w, pc_fds := c\<rparr>)" "fdn w fd = Some (fdcache_name (gid_file_id g))"
    "cont w = cont (pc_os ?s)"
    by (rule pagecache_fd_ok[OF fs_reliableD(1)[OF fs] io' g])
  let ?bs = "disk_page (cont w) g"
  from fs_reliableD(2)[OF fs d(3), of PAGESZ "page_offs g"] obtain w' where w': "os_pread y w fd PAGESZ (page_offs g) =
      (w', Some ?bs)" "fdn w' = fdn w" "cont w' = cont w" by (auto simp: disk_page_def)
  have len: "length ?bs \<le> PAGESZ" by (simp add: disk_page_def read_at_def)
  have "pc_io fdn lim K (s\<lparr>pc_os := w', pc_fds := c\<rparr>)" using d(2) w'(2) by (simp add: pc_io_def fd_inv_def)
  moreover have "prefix (disk_page (cont (pc_os s)) g) (write_at (pc_pages s ! f) 0 ?bs)"
    using d(4) by (simp add: write_at_def)
  moreover have "length (write_at (pc_pages s ! f) 0 ?bs) = PAGESZ" using f len by simp
  moreover have "pagecache_read y s g = Some (s\<lparr>pc_os := w', pc_fds := c,
      pc_pages := (pc_pages s)[f := write_at (pc_pages s ! f) 0 ?bs], pc_cache := (pc_cache s)\<lparr>ic_extra := l\<rparr>\<rparr>, Some f)"
    using l(1) d(1) w'(1) by (simp add: pagecache_read_def)
  ultimately show thesis using that l(2-4) d(4) w'(3) by simp
qed

lemma pagecache_write_ok:
  assumes fs: "fs_reliable fdn cont lim y" and io: "pc_io fdn lim K s" and g: "gid_file_id g \<in> K"
    and fr: "pagecache_frame (pc_cache s) g = Some (Some f)" "length (pc_pages s ! f) = PAGESZ"
    and st: "ilist2_inv (ic_extra (pc_cache s))"
      "length (ilist2_view (ic_extra (pc_cache s))) < listsz (ic_extra (pc_cache s))"
  obtains w c l i where "pagecache_write y s g = Some (s\<lparr>pc_os := w, pc_fds := c,
      pc_cache := (pc_cache s)\<lparr>ic_extra := l\<rparr>\<rparr>, Some i)"
    "ilist2_inv l" "listsz l = listsz (ic_extra (pc_cache s))"
    "ilist2_view l = ilist2_view (ic_extra (pc_cache s)) @ [(i, f)]"
    "cont w = put_page (cont (pc_os s)) g (pc_pages s ! f)" "pc_io fdn lim K (s\<lparr>pc_os := w, pc_fds := c\<rparr>)"
proof -
  obtain w c fd where d: "pagecache_fd y s g = Some (s\<lparr>pc_os := w, pc_fds := c\<rparr>, Some fd)"
    "pc_io fdn lim K (s\<lparr>pc_os := w, pc_fds := c\<rparr>)" "fdn w fd = Some (fdcache_name (gid_file_id g))"
    "cont w = cont (pc_os s)"
    by (rule pagecache_fd_ok[OF fs_reliableD(1)[OF fs] io g])
  from fs_reliableD(3)[OF fs d(3), of "pc_pages s ! f" "page_offs g"] obtain w' where
    w': "os_pwrite y w fd (pc_pages s ! f) (page_offs g) = (w', int PAGESZ)" "fdn w' = fdn w"
    "cont w' = put_page (cont (pc_os s)) g (pc_pages s ! f)"
    using fr(2) d(4) by (auto simp: put_page_def Let_def)
  from ilist2_put_law(2)[OF st, of f] obtain l i where l: "ilist2_put_back (ic_extra (pc_cache s)) f = Some (l, Some i)"
    "ilist2_inv l" "listsz l = listsz (ic_extra (pc_cache s))"
    "ilist2_view l = ilist2_view (ic_extra (pc_cache s)) @ [(i, f)]" by blast
  have "pc_io fdn lim K (s\<lparr>pc_os := w', pc_fds := c\<rparr>)" using d(2) w'(2) by (simp add: pc_io_def fd_inv_def)
  moreover have "int PAGESZ \<noteq> -1" by (simp add: PAGESZ_def)
  moreover have "pagecache_write y s g = Some (s\<lparr>pc_os := w', pc_fds := c,
      pc_cache := (pc_cache s)\<lparr>ic_extra := l\<rparr>\<rparr>, Some i)"
    using d(1) w'(1) l(1) fr(1) \<open>int PAGESZ \<noteq> -1\<close> by (simp add: pagecache_write_def)
  ultimately show thesis using that w'(3) l(2-4) by blast
qed

section \<open>Invariant and view\<close>

text \<open>Every frame is free or belongs to one page.\<close>

definition pc_frames :: "page_icache \<Rightarrow> nat list" where
  "pc_frames c = map snd (ilist2_view (ic_extra c)) @ map (the \<circ> icache_map c) (icache_keys c)"

definition pc_size :: "page_icache \<Rightarrow> nat" where
  "pc_size c = bucketsz (ic_hash c) + chainsz (ic_hash c)"

definition pc_inv :: "('w \<Rightarrow> i32 \<Rightarrow> u8 list option) \<Rightarrow> nat \<Rightarrow> u64 set \<Rightarrow> 'w pagecache \<Rightarrow> bool" where
  "pc_inv fdn lim K s \<longleftrightarrow> icache_inv (pc_cache s) \<and> ilist2_inv (ic_extra (pc_cache s)) \<and>
     listsz (ic_extra (pc_cache s)) = pc_size (pc_cache s) \<and> length (pc_pages s) = pc_size (pc_cache s) \<and>
     (\<forall>p \<in> set (pc_pages s). length p = PAGESZ) \<and>
     mset (pc_frames (pc_cache s)) = mset [0..<pc_size (pc_cache s)] \<and>
     pc_io fdn lim K s \<and> gid_file_id ` set (icache_keys (pc_cache s)) \<subseteq> K"

text \<open>What a page holds: its frame while it is cached, else the bytes on disk.\<close>

definition pc_view :: "(u8 list \<Rightarrow> u8 list) \<Rightarrow> 'w pagecache \<Rightarrow> gid \<Rightarrow> u8 list" where
  "pc_view ct s g = (case icache_map (pc_cache s) g of Some f \<Rightarrow> pc_pages s ! f | None \<Rightarrow> disk_page ct g)"

lemma icache_extra_simps [simp]:
  "icache_inv (c\<lparr>ic_extra := x\<rparr>) = icache_inv c" "icache_keys (c\<lparr>ic_extra := x\<rparr>) = icache_keys c"
  "icache_map (c\<lparr>ic_extra := x\<rparr>) = icache_map c" "icache_node_of (c\<lparr>ic_extra := x\<rparr>) = icache_node_of c"
  by (simp_all add: icache_inv_def icache_keys_def icache_map_def icache_node_of_def fun_eq_iff)

lemma icache_link_extra:
  "icache_link (c\<lparr>ic_extra := x\<rparr>) k e = map_option (\<lambda>(c', r). (c'\<lparr>ic_extra := x\<rparr>, r)) (icache_link c k e)"
  by (cases "ilist2_put_front (ic_list c) k") (auto simp: icache_link_def split: option.splits)

lemma mset_upt_props:
  assumes "mset fs = mset [0..<n]"
  shows "distinct fs" "x \<in> set fs \<Longrightarrow> x < n" "length fs = n"
proof -
  show "distinct fs" using assms by (metis distinct_upt mset_eq_imp_distinct_iff)
  show "x \<in> set fs \<Longrightarrow> x < n" using mset_eq_setD[OF assms] by simp
  show "length fs = n" using mset_eq_length[OF assms] by simp
qed

lemma pagecache_link_ok:
  fixes fdn :: "'w \<Rightarrow> i32 \<Rightarrow> u8 list option"
  assumes fs: "fs_reliable fdn cont lim y" and io: "pc_io fdn lim K s" and key: "gid_file_id key \<in> K"
    and link: "icache_link (pc_cache s) key e = Some (c', Some e)" "icache_inv c'" "icache_node_of c' key e"
      "icache_keys c' = key # ks" "icache_map c' = M(key \<mapsto> x)" "pc_size c' = N"
    and st: "ilist2_inv (ic_extra (pc_cache s))" "listsz (ic_extra (pc_cache s)) = N"
      "ilist2_view (ic_extra (pc_cache s)) = vw @ [(i, f)]"
    and pages: "length (pc_pages s) = N" "\<forall>p \<in> set (pc_pages s). length p = PAGESZ"
    and frames: "mset (map snd vw @ f # map (the \<circ> M) ks) = mset [0..<N]"
    and files: "gid_file_id ` set ks \<subseteq> K"
  obtains s' where "pagecache_link y s key e = Some (s', e)" "pc_inv fdn lim K s'"
    "icache_node_of (pc_cache s') key e" "icache_keys (pc_cache s') = key # ks"
    "prefix (disk_page (cont (pc_os s)) key) (pc_view (cont (pc_os s')) s' key)"
    "\<forall>h \<in> set ks. pc_view (cont (pc_os s')) s' h = pc_pages s ! the (M h)"
    "\<forall>h. h \<notin> set ks \<and> h \<noteq> key \<longrightarrow> pc_view (cont (pc_os s')) s' h = disk_page (cont (pc_os s)) h"
proof -
  note fr = mset_upt_props[OF frames]
  have f: "f < N" "length (pc_pages s ! f) = PAGESZ" using fr(2)[of f] pages by auto
  obtain w c l buf where r: "pagecache_read y s key = Some (s\<lparr>pc_os := w, pc_fds := c,
      pc_pages := (pc_pages s)[f := buf], pc_cache := (pc_cache s)\<lparr>ic_extra := l\<rparr>\<rparr>, Some f)"
    "ilist2_inv l" "listsz l = listsz (ic_extra (pc_cache s))" "ilist2_view l = vw" "length buf = PAGESZ"
    "prefix (disk_page (cont (pc_os s)) key) buf" "cont w = cont (pc_os s)"
    "pc_io fdn lim K (s\<lparr>pc_os := w, pc_fds := c\<rparr>)"
    by (rule pagecache_read_ok[OF fs io key st(1,3) f(2)])
  let ?c = "c'\<lparr>ic_extra := l\<rparr>"
  have lk: "icache_link ((pc_cache s)\<lparr>ic_extra := l\<rparr>) key e = Some (?c, Some e)"
    using link(1) by (simp add: icache_link_extra)
  have cc: "icache_inv ?c" "icache_node_of ?c key e" using link by simp_all
  note set = icache_set_ok[OF cc, of f]
  let ?c' = "icache_set ?c e f"
  let ?s = "s\<lparr>pc_os := w, pc_fds := c, pc_pages := (pc_pages s)[f := buf], pc_cache := ?c'\<rparr>"
  have d: "distinct (key # ks)" using link(2,4) by (simp add: icache_inv_def)
  have m: "icache_map ?c' = M(key \<mapsto> f)" using set(3) link(5) by simp
  have ex: "ic_extra ?c' = l" "pc_size ?c' = N" "icache_keys ?c' = key # ks"
    using set(2,4) link(4,6) by (simp_all add: same_shape_def pc_size_def)
  have "map (the \<circ> M(key \<mapsto> f)) ks = map (the \<circ> M) ks" using d by auto
  then have "pc_frames ?c' = map snd vw @ f # map (the \<circ> M) ks"
    by (simp add: pc_frames_def ex m r(4))
  then have "pc_inv fdn lim K ?s"
    using set(1) r(2,3,8) st(2) pages files key frames r(5) ex
    by (auto simp: pc_inv_def pc_io_def dest: set_update_subset_insert[THEN subsetD])
  moreover have "pagecache_link y s key e = Some (?s, e)"
    using r(1) icache_link_set[OF lk, of f] by (simp add: pagecache_link_def)
  moreover have "prefix (disk_page (cont (pc_os s)) key) (pc_view (cont w) ?s key)"
    using r(6) f(1) pages(1) by (simp add: pc_view_def m)
  moreover have "pc_view (cont w) ?s h = pc_pages s ! the (M h)" if h: "h \<in> set ks" for h
  proof -
    have "h \<in> dom (M(key \<mapsto> x))" using icache_dom[OF link(2)] link(4,5) h by simp
    then obtain j where j: "M h = Some j" using h d by auto
    have "the (M h) \<noteq> f" using fr(1) h by auto
    then show ?thesis using h d j by (auto simp: pc_view_def m)
  qed
  moreover have "pc_view (cont w) ?s h = disk_page (cont (pc_os s)) h" if h: "h \<notin> set ks" "h \<noteq> key" for h
  proof -
    have "h \<notin> dom (M(key \<mapsto> x))" using icache_dom[OF link(2)] link(4,5) h by simp
    then have "M h = None" using h(2) by (simp add: domIff)
    then show ?thesis using h r(7) by (simp add: pc_view_def m)
  qed
  ultimately show thesis using that[of ?s] set(5) ex(3) by simp
qed

section \<open>Touching a page\<close>

lemma pagecache_frame_map: "icache_inv c \<Longrightarrow> pagecache_frame (c\<lparr>ic_list := l\<rparr>) k = Some (icache_map c k)"
proof -
  assume "icache_inv c"
  then have I: "ihash_inv (ic_hash c)" by (simp add: icache_inv_def)
  show ?thesis
  proof (rule ihash_get_map[OF I, of k])
    fix r assume "ihash_get_fn (ic_hash c) k = Some r"
      "map_option (\<lambda>l. hval (ihash_node (ic_hash c) l)) r = ihash_map (ic_hash c) k"
    then show ?thesis
      by (cases r) (simp_all add: pagecache_frame_def icache_get_def icache_map_def flip: \<open>_ = ihash_map _ _\<close>)
  qed
qed

lemma pc_view_cached: "icache_map (pc_cache s) g = Some f \<Longrightarrow> pc_view ct s g = pc_pages s ! f"
  and pc_view_disk: "icache_map (pc_cache s) g = None \<Longrightarrow> pc_view ct s g = disk_page ct g"
  by (simp_all add: pc_view_def)

lemma pc_invD:
  assumes "pc_inv fdn lim K s"
  shows "icache_inv (pc_cache s)" "ilist2_inv (ic_extra (pc_cache s))" "listsz (ic_extra (pc_cache s)) = pc_size (pc_cache s)"
    "length (pc_pages s) = pc_size (pc_cache s)" "\<forall>p \<in> set (pc_pages s). length p = PAGESZ"
    "mset (pc_frames (pc_cache s)) = mset [0..<pc_size (pc_cache s)]" "pc_io fdn lim K s"
    "gid_file_id ` set (icache_keys (pc_cache s)) \<subseteq> K"
  using assms by (simp_all add: pc_inv_def)

text \<open>Free and used frames add up to the size of the cache.\<close>

lemma pc_free_length:
  assumes "pc_inv fdn lim K s"
  shows "length (ilist2_view (ic_extra (pc_cache s))) + length (icache_keys (pc_cache s)) = pc_size (pc_cache s)"
  using mset_upt_props(3)[OF pc_invD(6)[OF assms]] by (simp add: pc_frames_def)

lemma pc_cached_frame:
  assumes "pc_inv fdn lim K s" "g \<in> set (icache_keys (pc_cache s))"
  obtains f where "icache_map (pc_cache s) g = Some f" "f < pc_size (pc_cache s)" "length (pc_pages s ! f) = PAGESZ"
proof -
  note I = pc_invD[OF assms(1)]
  obtain f where f: "icache_map (pc_cache s) g = Some f" using icache_dom[OF I(1)] assms(2) by blast
  then have "f \<in> set (pc_frames (pc_cache s))" using assms(2) by (force simp: pc_frames_def)
  then have "f < pc_size (pc_cache s)" by (rule mset_upt_props(2)[OF I(6)])
  then show thesis using that[OF f] I(4,5) by simp
qed

lemma pagecache_touch_hit:
  assumes inv: "pc_inv fdn lim K s" and key: "key \<in> set (icache_keys (pc_cache s))"
  obtains c1 s' e where "icache_touch_fn (pc_cache s) key = Some (c1, Some e)"
    "pagecache_touch_fn y s key = Some (s', e)" "pc_inv fdn lim K s'" "pc_cache s' = c1" "icache_node_of c1 key e"
    "pc_os s' = pc_os s" "\<forall>g. pc_view ct s' g = pc_view ct s g"
proof -
  note I = pc_invD[OF inv]
  obtain c1 e where c1: "icache_touch_fn (pc_cache s) key = Some (c1, Some e)" "icache_inv c1"
    "same_shape (pc_cache s) c1" "icache_keys c1 = key # removeAll key (icache_keys (pc_cache s))"
    "icache_map c1 = icache_map (pc_cache s)" "icache_node_of c1 key e"
    by (rule icache_touch_hit[OF I(1) key])
  obtain e0 where e0: "icache_get (pc_cache s) key = Some (Some e0)" by (rule icache_get_hit[OF I(1) key])
  then have t: "pagecache_touch_fn y s key = Some (s\<lparr>pc_cache := c1\<rparr>, e)"
    using c1(1) by (auto simp: pagecache_touch_fn_def icache_touch_fn_def map_option_eq_Some)
  have d: "distinct (icache_keys (pc_cache s))" "distinct (icache_keys c1)"
    using I(1) c1(2) by (simp_all add: icache_inv_def)
  have "set (icache_keys c1) = set (icache_keys (pc_cache s))" using c1(4) key by auto
  then have "mset (icache_keys c1) = mset (icache_keys (pc_cache s))"
    using d by (simp add: set_eq_iff_mset_eq_distinct)
  then have "mset (pc_frames c1) = mset (pc_frames (pc_cache s))"
    using c1(3,5) by (simp add: pc_frames_def same_shape_def)
  then have "pc_inv fdn lim K (s\<lparr>pc_cache := c1\<rparr>)"
    using inv c1(2,3) \<open>set (icache_keys c1) = _\<close> by (simp add: pc_inv_def same_shape_def pc_size_def)
  moreover have "pc_view ct (s\<lparr>pc_cache := c1\<rparr>) g = pc_view ct s g" for g
    using c1(5) by (simp add: pc_view_def split: option.split)
  ultimately show thesis using that[OF c1(1) t] c1(6) by simp
qed

lemma pagecache_touch_room:
  assumes fs: "fs_reliable fdn cont lim y" and inv: "pc_inv fdn lim K s" and key: "gid_file_id key \<in> K"
    and miss: "key \<notin> set (icache_keys (pc_cache s))"
    and h: "ihash_touch_fn (ic_hash (pc_cache s)) key = Some (h, Some e)"
      "icache_link ((pc_cache s)\<lparr>ic_hash := h\<rparr>) key e = Some (c', Some e)" "icache_inv c'"
      "same_shape (pc_cache s) c'" "icache_keys c' = key # icache_keys (pc_cache s)"
      "icache_map c' = (icache_map (pc_cache s))(key \<mapsto> x)" "icache_node_of c' key e"
  obtains s' where "pagecache_touch_fn y s key = Some (s', e)" "pc_inv fdn lim K s'"
    "icache_node_of (pc_cache s') key e" "icache_keys (pc_cache s') = key # icache_keys (pc_cache s)"
    "\<forall>g. prefix (pc_view (cont (pc_os s)) s g) (pc_view (cont (pc_os s')) s' g)"
proof -
  note I = pc_invD[OF inv]
  let ?c = "pc_cache s" and ?s = "s\<lparr>pc_cache := (pc_cache s)\<lparr>ic_hash := h\<rparr>\<rparr>"
  have dom: "dom (icache_map ?c) = set (icache_keys ?c)" by (rule icache_dom[OF I(1)])
  have N: "pc_size c' = pc_size ?c" using h(4) by (simp add: same_shape_def pc_size_def)
  have "length (icache_keys c') \<le> pc_size c'"
  proof -
    have H: "ihash_inv (ic_hash c')" "set (icache_keys c') = dom (ihash_map (ic_hash c'))" "distinct (icache_keys c')"
      using h(3) by (simp_all add: icache_inv_def)
    show ?thesis using ihash_card[OF H(1)] distinct_card[OF H(3)] H(2) by (simp add: pc_size_def)
  qed
  then have "ilist2_view (ic_extra ?c) \<noteq> []" using pc_free_length[OF inv] h(5) N by auto
  then obtain vw i f where vw: "ilist2_view (ic_extra ?c) = vw @ [(i, f)]"
    by (metis rev_exhaust surj_pair)
  have io: "pc_io fdn lim K ?s" using I(7) by simp
  have st: "ilist2_inv (ic_extra (pc_cache ?s))" "listsz (ic_extra (pc_cache ?s)) = pc_size ?c"
    "ilist2_view (ic_extra (pc_cache ?s)) = vw @ [(i, f)]" using I(2,3) vw by simp_all
  have pg: "length (pc_pages ?s) = pc_size ?c" "\<forall>p \<in> set (pc_pages ?s). length p = PAGESZ" using I(4,5) by simp_all
  have lk: "icache_link (pc_cache ?s) key e = Some (c', Some e)" using h(2) by simp
  have fr: "mset (map snd vw @ f # map (the \<circ> icache_map ?c) (icache_keys ?c)) = mset [0..<pc_size ?c]"
    using I(6) vw by (simp add: pc_frames_def)
  obtain s' where s': "pagecache_link y ?s key e = Some (s', e)" "pc_inv fdn lim K s'"
    "icache_node_of (pc_cache s') key e" "icache_keys (pc_cache s') = key # icache_keys ?c"
    "prefix (disk_page (cont (pc_os ?s)) key) (pc_view (cont (pc_os s')) s' key)"
    "\<forall>h \<in> set (icache_keys ?c). pc_view (cont (pc_os s')) s' h = pc_pages ?s ! the (icache_map ?c h)"
    "\<forall>h. h \<notin> set (icache_keys ?c) \<and> h \<noteq> key \<longrightarrow>
      pc_view (cont (pc_os s')) s' h = disk_page (cont (pc_os ?s)) h"
    by (rule pagecache_link_ok[OF fs io key lk h(3,7,5,6) N st pg fr I(8)])
  have "pagecache_touch_fn y s key = Some (s', e)"
    using s'(1) h(1) icache_get_miss[OF I(1) miss] by (simp add: pagecache_touch_fn_def)
  moreover have "prefix (pc_view (cont (pc_os s)) s g) (pc_view (cont (pc_os s')) s' g)" for g
  proof (cases "g \<in> set (icache_keys ?c)")
    case True
    then obtain j where "icache_map ?c g = Some j" using dom by blast
    then show ?thesis using s'(6) True by (simp add: pc_view_cached)
  next
    case False
    then have "icache_map ?c g = None" using dom by blast
    then show ?thesis using s'(5,7) False by (cases "g = key") (simp_all add: pc_view_disk)
  qed
  ultimately show thesis using that s'(2-4) by blast
qed

lemma icache_upd_order: "c\<lparr>ic_list := l, ic_extra := m, ic_hash := h\<rparr> = c\<lparr>ic_hash := h, ic_list := l, ic_extra := m\<rparr>"
  by simp

lemma pagecache_touch_evict:
  assumes fs: "fs_reliable fdn cont lim y" and inv: "pc_inv fdn lim K s" and key: "gid_file_id key \<in> K"
    and miss: "key \<notin> set (icache_keys (pc_cache s))"
    and h: "ihash_touch_fn (ic_hash (pc_cache s)) key = Some (ic_hash (pc_cache s), None)"
      "icache_keys (pc_cache s) = ks @ [lru]" "ilist2_pop_back (ic_list (pc_cache s)) = Some (l, lru)"
      "lru \<noteq> IHASH_UNDEF" "ihash_erase_fn (ic_hash (pc_cache s)) lru = Some (h, True)"
  obtains s1 d f where
    "pagecache_touch_fn y s key = Option.bind (ihash_touch_fn h key) (\<lambda>(h3, r3). case r3 of None \<Rightarrow> None
       | Some e \<Rightarrow> pagecache_link y (s\<lparr>pc_os := s1, pc_fds := d,
           pc_cache := (pc_cache s)\<lparr>ic_hash := h3, ic_list := l, ic_extra := f\<rparr>\<rparr>) key e)"
    "ilist2_inv f" "listsz f = pc_size (pc_cache s)"
    "\<exists>i. ilist2_view f = ilist2_view (ic_extra (pc_cache s)) @ [(i, the (icache_map (pc_cache s) lru))]"
    "cont s1 = put_page (cont (pc_os s)) lru (pc_pages s ! the (icache_map (pc_cache s) lru))"
    "pc_io fdn lim K (s\<lparr>pc_os := s1, pc_fds := d\<rparr>)"
proof -
  note I = pc_invD[OF inv]
  let ?c = "pc_cache s"
  let ?s = "s\<lparr>pc_cache := ?c\<lparr>ic_hash := ic_hash ?c, ic_list := l\<rparr>\<rparr>"
  have lru: "lru \<in> set (icache_keys ?c)" using h(2) by simp
  obtain f where f: "icache_map ?c lru = Some f" "length (pc_pages s ! f) = PAGESZ"
    by (rule pc_cached_frame[OF inv lru])
  have io: "pc_io fdn lim K ?s" using I(7) by simp
  have fl: "gid_file_id lru \<in> K" using I(8) lru by blast
  have fr: "pagecache_frame (pc_cache ?s) lru = Some (Some f)"
    using pagecache_frame_map[OF I(1), of l lru] f(1) by simp
  have pg: "length (pc_pages ?s ! f) = PAGESZ" using f(2) by simp
  have st: "ilist2_inv (ic_extra (pc_cache ?s))"
    "length (ilist2_view (ic_extra (pc_cache ?s))) < listsz (ic_extra (pc_cache ?s))"
    using I(2,3) pc_free_length[OF inv] h(2) by simp_all
  obtain w d m i where w: "pagecache_write y ?s lru = Some (?s\<lparr>pc_os := w, pc_fds := d,
      pc_cache := (pc_cache ?s)\<lparr>ic_extra := m\<rparr>\<rparr>, Some i)"
    "ilist2_inv m" "listsz m = listsz (ic_extra (pc_cache ?s))"
    "ilist2_view m = ilist2_view (ic_extra (pc_cache ?s)) @ [(i, f)]"
    "cont w = put_page (cont (pc_os ?s)) lru (pc_pages ?s ! f)" "pc_io fdn lim K (?s\<lparr>pc_os := w, pc_fds := d\<rparr>)"
    by (rule pagecache_write_ok[OF fs io fl fr pg st])
  have "pagecache_touch_fn y s key = Option.bind (ihash_touch_fn h key) (\<lambda>(h3, r3). case r3 of None \<Rightarrow> None
       | Some e \<Rightarrow> pagecache_link y (s\<lparr>pc_os := w, pc_fds := d,
           pc_cache := ?c\<lparr>ic_hash := h3, ic_list := l, ic_extra := m\<rparr>\<rparr>) key e)"
    using h(1,3-5) w(1) icache_get_miss[OF I(1) miss]
    by (simp add: pagecache_touch_fn_def icache_upd_order cong: option.case_cong)
  moreover have "pc_io fdn lim K (s\<lparr>pc_os := w, pc_fds := d\<rparr>)" using w(6) by (simp add: pc_io_def)
  ultimately show thesis using that w(2-5) I(3) f(1) by simp
qed

lemma pagecache_touch_evicted:
  assumes fs: "fs_reliable fdn cont lim y" and inv: "pc_inv fdn lim K s" and key: "gid_file_id key \<in> K"
    and miss: "key \<notin> set (icache_keys (pc_cache s))"
    and h: "ihash_touch_fn (ic_hash (pc_cache s)) key = Some (ic_hash (pc_cache s), None)"
      "icache_keys (pc_cache s) = ks @ [lru]" "ilist2_pop_back (ic_list (pc_cache s)) = Some (l, lru)"
      "lru \<noteq> IHASH_UNDEF" "ihash_erase_fn (ic_hash (pc_cache s)) lru = Some (h, True)"
    and h3: "ihash_touch_fn h key = Some (h3, Some e)"
      "icache_link ((pc_cache s)\<lparr>ic_hash := h3, ic_list := l\<rparr>) key e = Some (c', Some e)" "icache_inv c'"
      "same_shape (pc_cache s) c'" "icache_keys c' = key # ks"
      "icache_map c' = (icache_map (pc_cache s))(lru := None, key \<mapsto> x)" "icache_node_of c' key e"
  obtains s' where "pagecache_touch_fn y s key = Some (s', e)" "pc_inv fdn lim K s'"
    "icache_node_of (pc_cache s') key e" "icache_keys (pc_cache s') = key # ks"
    "\<forall>g. prefix (pc_view (cont (pc_os s)) s g) (pc_view (cont (pc_os s')) s' g)"
proof -
  note I = pc_invD[OF inv]
  let ?c = "pc_cache s" and ?M = "(icache_map (pc_cache s))(lru := None)"
  have d: "distinct (icache_keys ?c)" using I(1) by (simp add: icache_inv_def)
  have dom: "dom (icache_map ?c) = set (icache_keys ?c)" by (rule icache_dom[OF I(1)])
  have nl: "lru \<notin> set ks" "key \<noteq> lru" "lru \<in> set (icache_keys ?c)" using d h(2) miss by auto
  obtain f where f: "icache_map ?c lru = Some f" "length (pc_pages s ! f) = PAGESZ"
    by (rule pc_cached_frame[OF inv nl(3)])
  obtain w fd m where e: "pagecache_touch_fn y s key = Option.bind (ihash_touch_fn h key) (\<lambda>(h3, r3). case r3 of None \<Rightarrow> None
       | Some e \<Rightarrow> pagecache_link y (s\<lparr>pc_os := w, pc_fds := fd,
           pc_cache := (pc_cache s)\<lparr>ic_hash := h3, ic_list := l, ic_extra := m\<rparr>\<rparr>) key e)"
    "ilist2_inv m" "listsz m = pc_size ?c"
    "\<exists>i. ilist2_view m = ilist2_view (ic_extra ?c) @ [(i, the (icache_map ?c lru))]"
    "cont w = put_page (cont (pc_os s)) lru (pc_pages s ! the (icache_map ?c lru))"
    "pc_io fdn lim K (s\<lparr>pc_os := w, pc_fds := fd\<rparr>)"
    by (rule pagecache_touch_evict[OF fs inv key miss h])
  then obtain i where m: "ilist2_view m = ilist2_view (ic_extra ?c) @ [(i, f)]" using f(1) by auto
  let ?s = "s\<lparr>pc_os := w, pc_fds := fd, pc_cache := ?c\<lparr>ic_hash := h3, ic_list := l, ic_extra := m\<rparr>\<rparr>"
  have io: "pc_io fdn lim K ?s" using e(6) by (simp add: pc_io_def)
  have lk: "icache_link (pc_cache ?s) key e = Some (c'\<lparr>ic_extra := m\<rparr>, Some e)"
    using icache_link_extra[where c = "?c\<lparr>ic_hash := h3, ic_list := l\<rparr>" and x = m] h3(2) by simp
  have cc: "icache_inv (c'\<lparr>ic_extra := m\<rparr>)" "icache_node_of (c'\<lparr>ic_extra := m\<rparr>) key e"
    "icache_keys (c'\<lparr>ic_extra := m\<rparr>) = key # ks" "icache_map (c'\<lparr>ic_extra := m\<rparr>) = ?M(key \<mapsto> x)"
    using h3(3,5-7) by simp_all
  have N: "pc_size (c'\<lparr>ic_extra := m\<rparr>) = pc_size ?c" using h3(4) by (simp add: same_shape_def pc_size_def)
  have st: "ilist2_inv (ic_extra (pc_cache ?s))" "listsz (ic_extra (pc_cache ?s)) = pc_size ?c"
    "ilist2_view (ic_extra (pc_cache ?s)) = ilist2_view (ic_extra ?c) @ [(i, f)]" using e(2,3) m by simp_all
  have pg: "length (pc_pages ?s) = pc_size ?c" "\<forall>p \<in> set (pc_pages ?s). length p = PAGESZ" using I(4,5) by simp_all
  have mm: "map (the \<circ> ?M) ks = map (the \<circ> icache_map ?c) ks" using nl(1) by auto
  have "mset (map snd (ilist2_view (ic_extra ?c)) @ f # map (the \<circ> ?M) ks) = mset (pc_frames ?c)"
    unfolding pc_frames_def h(2) mm using f(1) by simp
  then have fr: "mset (map snd (ilist2_view (ic_extra ?c)) @ f # map (the \<circ> ?M) ks) = mset [0..<pc_size ?c]"
    using I(6) by simp
  have fl: "gid_file_id ` set ks \<subseteq> K" using I(8) h(2) by auto
  obtain s' where s': "pagecache_link y ?s key e = Some (s', e)" "pc_inv fdn lim K s'"
    "icache_node_of (pc_cache s') key e" "icache_keys (pc_cache s') = key # ks"
    "prefix (disk_page (cont (pc_os ?s)) key) (pc_view (cont (pc_os s')) s' key)"
    "\<forall>h \<in> set ks. pc_view (cont (pc_os s')) s' h = pc_pages ?s ! the (?M h)"
    "\<forall>h. h \<notin> set ks \<and> h \<noteq> key \<longrightarrow> pc_view (cont (pc_os s')) s' h = disk_page (cont (pc_os ?s)) h"
    by (rule pagecache_link_ok[OF fs io key lk cc N st pg fr fl])
  have ct: "cont (pc_os ?s) = put_page (cont (pc_os s)) lru (pc_pages s ! f)" using e(5) f(1) by simp
  have le: "length (pc_pages s ! f) \<le> PAGESZ" using f(2) by simp
  note dp = disk_page_put_whole[OF f(2), where ct = "cont (pc_os s)" and g = lru]
    disk_page_put(2)[OF le, where ct = "cont (pc_os s)" and g = lru]
  have "prefix (pc_view (cont (pc_os s)) s g) (pc_view (cont (pc_os s')) s' g)" for g
  proof -
    consider "g \<in> set ks" | "g = lru" | "g = key" | "g \<notin> set (icache_keys ?c)" "g \<noteq> key" using h(2) by auto
    then show ?thesis
    proof cases
      case 1
      then obtain j where "icache_map ?c g = Some j" "g \<noteq> lru" using dom h(2) nl(1) by fastforce
      then show ?thesis using s'(6) 1 by (simp add: pc_view_cached)
    next
      case 2
      then show ?thesis using s'(7) nl f(1) dp(1) ct by (simp add: pc_view_cached)
    next
      case 3
      then have "icache_map ?c g = None" using dom miss by blast
      then show ?thesis using 3 s'(5) dp(2)[where g' = key] nl(2) unfolding ct by (auto simp: pc_view_disk dest: prefix_order.trans)
    next
      case 4
      then have "icache_map ?c g = None" "g \<notin> set ks" "g \<noteq> lru" using dom h(2) nl(3) by auto
      then show ?thesis using 4 s'(7) dp(2)[where g' = g] unfolding ct by (simp add: pc_view_disk)
    qed
  qed
  moreover have "pagecache_touch_fn y s key = Some (s', e)" using e(1) h3(1) s'(1) by simp
  ultimately show thesis using that s'(2-4) by blast
qed

lemma pagecache_flush_ok:
  assumes fs: "fs_laws fdn cont lim y" and inv: "pc_inv fdn lim K s" and g: "g \<in> set (icache_keys (pc_cache s))"
  defines "v \<equiv> pc_view (cont (pc_os s)) s g"
  obtains s' m where "pagecache_flush y s g = Some (s', m)" "pc_inv fdn lim K s'" "pc_cache s' = pc_cache s"
    "\<forall>h. prefix (pc_view (cont (pc_os s)) s h) (pc_view (cont (pc_os s')) s' h)"
    "m = 0 \<and> disk_page (cont (pc_os s')) g = v \<or> m = -1 \<and> cont (pc_os s') = cont (pc_os s) \<or>
     (0 < m \<and> m < int PAGESZ \<and> disk_page (cont (pc_os s')) g = take (nat m) v @ drop (nat m) (disk_page (cont (pc_os s)) g))"
    "fs_reliable fdn cont lim y \<longrightarrow> m = 0"
proof -
  note I = pc_invD[OF inv]
  obtain f where f: "icache_map (pc_cache s) g = Some f" "f < pc_size (pc_cache s)" "length (pc_pages s ! f) = PAGESZ"
    by (rule pc_cached_frame[OF inv g])
  have v: "v = pc_pages s ! f" using f(1) by (simp add: v_def pc_view_cached)
  have gK: "gid_file_id g \<in> K" using I(8) g by blast
  obtain w d fd where d: "pagecache_fd y s g = Some (s\<lparr>pc_os := w, pc_fds := d\<rparr>, Some fd)"
    "pc_io fdn lim K (s\<lparr>pc_os := w, pc_fds := d\<rparr>)" "fdn w fd = Some (fdcache_name (gid_file_id g))"
    "cont w = cont (pc_os s)"
    by (rule pagecache_fd_ok[OF fs I(7) gK])
  have ne: "v \<noteq> []" using f(3) v by (auto simp: PAGESZ_def)
  from fs_lawsD(6)[OF fs d(3), of v "page_offs g"] obtain w' r where
    w': "os_pwrite y w fd v (page_offs g) = (w', r)" "fdn w' = fdn w"
    "r = -1 \<and> cont w' = cont (pc_os s) \<or>
     (\<exists>m. 0 < m \<and> m \<le> PAGESZ \<and> r = int m \<and> cont w' = put_page (cont (pc_os s)) g (take m v))"
    using f(3) d(4) ne v by (auto simp: put_page_def Let_def)
  have fr: "pagecache_frame (pc_cache s) g = Some (Some f)"
    using pagecache_frame_map[OF I(1), of "ic_list (pc_cache s)" g] f(1) by simp
  let ?s = "s\<lparr>pc_os := w', pc_fds := d\<rparr>" and ?m = "if r \<noteq> int PAGESZ then r else 0"
  have fl: "pagecache_flush y s g = Some (?s, ?m)" using d(1) w'(1) fr v by (simp add: pagecache_flush_def)
  have i: "pc_inv fdn lim K ?s" using inv d(2) w'(2) by (simp add: pc_inv_def pc_io_def fd_inv_def)
  have "prefix (pc_view (cont (pc_os s)) s h) (pc_view (cont (pc_os ?s)) ?s h)" for h
  proof (cases "icache_map (pc_cache s) h")
    case None
    then have "prefix (disk_page (cont (pc_os s)) h) (disk_page (cont w') h)"
      using disk_page_put(2)[where g' = h and g = g and bs = "take _ v" and ct = "cont (pc_os s)"] w'(3) f(1,3) v by fastforce
    then show ?thesis using None by (simp add: pc_view_def)
  qed (simp add: pc_view_def)
  then have p: "\<forall>h. prefix (pc_view (cont (pc_os s)) s h) (pc_view (cont (pc_os ?s)) ?s h)" by blast
  have c: "?m = 0 \<and> disk_page (cont (pc_os ?s)) g = v \<or> ?m = -1 \<and> cont (pc_os ?s) = cont (pc_os s) \<or>
     (0 < ?m \<and> ?m < int PAGESZ \<and> disk_page (cont (pc_os ?s)) g = take (nat ?m) v @ drop (nat ?m) (disk_page (cont (pc_os s)) g))"
    using w'(3)
  proof
    assume "\<exists>m. 0 < m \<and> m \<le> PAGESZ \<and> r = int m \<and> cont w' = put_page (cont (pc_os s)) g (take m v)"
    then obtain m where m: "0 < m" "m \<le> PAGESZ" "r = int m" "cont w' = put_page (cont (pc_os s)) g (take m v)" by blast
    show ?thesis
    proof (cases "m = PAGESZ")
      case True
      then show ?thesis using m f(3) v by (simp add: disk_page_put_whole)
    next
      case False
      then have l: "m < PAGESZ" "length (take m v) = m" using m f(3) v by simp_all
      then have "disk_page (cont w') g = take m v @ drop m (disk_page (cont (pc_os s)) g)"
        unfolding m(4) by (subst disk_page_put(1)) simp_all
      then show ?thesis using m(1,3) l(1) by simp
    qed
  qed simp
  have rl: "fs_reliable fdn cont lim y \<longrightarrow> ?m = 0"
    using fs_reliableD(3)[of fdn cont lim y w fd, OF _ d(3), of v "page_offs g"] w'(1) f(3) v by auto
  show thesis by (rule that[OF fl i _ p c rl]) simp
qed

lemma pagecache_fill_ok:
  assumes "ilist2_inv l" "length (ilist2_view l) + n \<le> listsz l"
  obtains l' where "pagecache_fill n l = Some l'" "ilist2_inv l'" "listsz l' = listsz l"
    "map snd (ilist2_view l') = map snd (ilist2_view l) @ rev [0..<n]"
  using assms
proof (induction n arbitrary: l thesis)
  case 0
  then show ?case by simp
next
  case (Suc n)
  then have "length (ilist2_view l) < listsz l" by simp
  from ilist2_put_law(2)[OF Suc.prems(2) this, of n] obtain m i where m: "ilist2_put_back l n = Some (m, Some i)"
    "ilist2_inv m" "listsz m = listsz l" "ilist2_view m = ilist2_view l @ [(i, n)]" by blast
  then have "length (ilist2_view m) + n \<le> listsz m" using Suc.prems(3) by simp
  from Suc.IH[OF _ m(2) this] obtain l' where "pagecache_fill n m = Some l'" "ilist2_inv l'" "listsz l' = listsz m"
    "map snd (ilist2_view l') = map snd (ilist2_view m) @ rev [0..<n]" by metis
  then show ?case using Suc.prems(1) m by simp
qed

text \<open>A cache without pages whose stack has every frame, frame 0 on top.\<close>

definition pc_fresh :: "page_icache \<Rightarrow> bool" where
  "pc_fresh c \<longleftrightarrow> icache_inv c \<and> icache_keys c = [] \<and> ilist2_inv (ic_extra c) \<and> listsz (ic_extra c) = pc_size c \<and>
     map snd (ilist2_view (ic_extra c)) = rev [0..<pc_size c]"

lemma pc_fresh_inv:
  assumes "pc_fresh c" "fd_inv fdn w d" "icache_keys d = []" "finite K" "card K \<le> Suc (chainsz (ic_hash d))"
    "chainsz (ic_hash d) < lim" "length pgs = pc_size c" "\<forall>p \<in> set pgs. length p = PAGESZ"
  shows "pc_inv fdn lim K \<lparr>pc_os = w, pc_fds = d, pc_pages = pgs, pc_cache = c\<rparr>"
  using assms by (simp add: pc_fresh_def pc_inv_def pc_io_def pc_frames_def)

lemma pagecache_init_ok:
  assumes "0 < bsz" "length bs = bsz" "length cs = csz" "length ls = bsz + csz" "length xs = bsz + csz"
  obtains c where "pagecache_create_fn (Some (bs, cs, ls, xs)) bsz csz fn = Some c" "pc_fresh c" "pc_size c = bsz + csz"
proof -
  let ?st = "ilist2_init_fn xs (bsz + csz) 8"
  obtain c where c: "icache_init_fn (bs, cs, ls, ?st) bsz csz 0 16 fn (pagecache_get_extra_size (of_nat (bsz + csz))) = Some c"
    "icache_inv c" "icache_keys c = []" "chainsz (ic_hash c) = csz" "bucketsz (ic_hash c) = bsz" "ic_extra c = ?st"
    by (rule icache_init_ok[OF assms(1-4)])
  note st = ilist2_init_inv[OF assms(5), of 8]
  have "length (ilist2_view ?st) + (bsz + csz) \<le> listsz ?st" using st by simp
  from pagecache_fill_ok[OF st(1) this] obtain l where l: "pagecache_fill (bsz + csz) ?st = Some l" "ilist2_inv l"
    "listsz l = listsz ?st" "map snd (ilist2_view l) = map snd (ilist2_view ?st) @ rev [0..<bsz + csz]" by metis
  have "pagecache_create_fn (Some (bs, cs, ls, xs)) bsz csz fn = Some (c\<lparr>ic_extra := l\<rparr>)"
    using c(1,6) l(1) assms(1) by (simp add: pagecache_create_fn_def pagecache_init_fn_def Let_def)
  then show thesis using that c(2-5) l(2-4) st by (simp add: pc_fresh_def pc_size_def)
qed

lemma pagecache_clear_ok:
  assumes inv: "pc_inv fdn lim K s"
  obtains c where "pagecache_clear (pc_cache s) fn = Some c" "pc_fresh c" "pc_size c = pc_size (pc_cache s)"
proof -
  note I = pc_invD[OF inv]
  let ?c = "pc_cache s"
  note cl = icache_clear_ok[OF I(1), of fn]
  obtain xs ys where "irep (ic_extra ?c) xs ys" using I(2) by (auto simp: ilist2_inv_def)
  note m = ilist2_clear_rep[OF irepD(1)[OF this]]
  have st: "ilist2_inv (ilist2_clear (ic_extra ?c))" "ilist2_view (ilist2_clear (ic_extra ?c)) = []"
    "listsz (ilist2_clear (ic_extra ?c)) = pc_size ?c"
    using irep_inv[OF m(1)] ilist2_view_eq[OF m(1)] I(3) by (simp_all add: ilist2_clear_def)
  have "length (ilist2_view (ilist2_clear (ic_extra ?c))) + pc_size ?c \<le> listsz (ilist2_clear (ic_extra ?c))"
    using st by simp
  from pagecache_fill_ok[OF st(1) this] obtain l where l: "pagecache_fill (pc_size ?c) (ilist2_clear (ic_extra ?c)) = Some l"
    "ilist2_inv l" "listsz l = pc_size ?c" "map snd (ilist2_view l) = rev [0..<pc_size ?c]" using st by auto
  have "pagecache_clear ?c fn = Some ((icache_clear ?c fn)\<lparr>ic_extra := l\<rparr>)"
    using l(1) by (simp add: pagecache_clear_def Let_def pc_size_def)
  then show thesis using that cl l(2-4) by (simp add: pc_fresh_def pc_size_def same_shape_def)
qed

end
