(* ===== verification/Scr_Pagecache_Laws.thy ===== *)
theory Scr_Pagecache_Laws
  imports Scr_Pagecache
begin

text \<open>
  The contract of the page cache: whatever is touched, flushed or evicted, no byte of any
  page is lost. The theorems hold for every file system that obeys \<open>fs_laws\<close> (flushing) or
  \<open>fs_reliable\<close> (reading and writing back); the witnesses use a small one.
\<close>

section \<open>A file system with four descriptors\<close>

type_synonym toy_fs = "(i32 \<times> u8 list) list \<times> (u8 list \<Rightarrow> u8 list)"

definition toy_calls :: "toy_fs os_calls" where
  "toy_calls = \<lparr>os_open = \<lambda>(fds, ct) n. (case toy_open fds n of (fds', fd) \<Rightarrow> ((fds', ct), fd)),
     os_close = \<lambda>(fds, ct) fd. (toy_close fds fd, ct),
     os_pread = \<lambda>(fds, ct) fd sz off. ((fds, ct), map_option (\<lambda>n. take sz (drop off (ct n))) (map_of fds fd)),
     os_pwrite = \<lambda>(fds, ct) fd bs off. (case map_of fds fd of None \<Rightarrow> ((fds, ct), -1)
       | Some n \<Rightarrow> ((fds, ct(n := file_write (ct n) off bs)), int (length bs)))\<rparr>"

definition toy_fdn :: "toy_fs \<Rightarrow> i32 \<Rightarrow> u8 list option" where
  "toy_fdn w = map_of (fst w)"

lemma toy_open_limit: "card (dom (map_of w)) < 4 \<Longrightarrow> snd (toy_open w n) \<noteq> -1"
proof -
  assume card: "card (dom (map_of w)) < 4"
  have "List.find (\<lambda>fd. map_of w fd = None) [0, 1, 2, 3] \<noteq> None"
  proof
    assume "List.find (\<lambda>fd. map_of w fd = None) [0, 1, 2, 3] = None"
    then have "\<forall>fd \<in> set [0, 1, 2, 3]. map_of w fd \<noteq> None" unfolding find_None_iff by metis
    then have "{0, 1, 2, 3} \<subseteq> dom (map_of w)" by (simp add: domIff)
    moreover have "card {0, 1, 2, 3 :: i32} = 4" by simp
    ultimately have "4 \<le> card (dom (map_of w))" by (metis card_mono finite_dom_map_of)
    then show False using card by simp
  qed
  then obtain fd where fd: "List.find (\<lambda>fd. map_of w fd = None) [0, 1, 2, 3] = Some fd" by blast
  then have "fd \<in> {0, 1, 2, 3}" using find_SomeD[OF fd] by simp
  then show ?thesis using fd by (auto simp: toy_open_def)
qed

lemma toy_fs_laws: "fs_laws toy_fdn snd 4 toy_calls" "fs_reliable toy_fdn snd 4 toy_calls"
proof -
  have "os_laws toy_fdn (os_open toy_calls) (os_close toy_calls)"
    using toy_laws by (auto simp: os_laws_def toy_fdn_def toy_calls_def split: prod.splits)
  moreover have "snd (os_open toy_calls w n) \<noteq> -1" if "card (dom (toy_fdn w)) < 4" for w n
    using toy_open_limit[of "fst w" n] that by (auto simp: toy_fdn_def toy_calls_def split: prod.splits)
  moreover have "snd (fst (os_open toy_calls w n)) = snd w" for w n
    by (auto simp: toy_calls_def split: prod.splits)
  moreover have "snd (os_close toy_calls w fd) = snd w" for w fd
    by (auto simp: toy_calls_def split: prod.splits)
  moreover have r: "os_pread toy_calls w fd sz off = (w, Some (take sz (drop off (snd w n))))" if "toy_fdn w fd = Some n" for w fd n sz off
    using that by (cases w) (simp add: toy_fdn_def toy_calls_def)
  moreover have w: "os_pwrite toy_calls w fd bs off = ((fst w, (snd w)(n := file_write (snd w n) off bs)), int (length bs))"
    if "toy_fdn w fd = Some n" for w fd n bs off
    using that by (cases w) (simp add: toy_fdn_def toy_calls_def)
  moreover have "\<exists>m \<le> length bs. (bs \<noteq> [] \<longrightarrow> 0 < m) \<and> int (length bs) = int m \<and>
      (snd w)(n := file_write (snd w n) off bs) = (snd w)(n := file_write (snd w n) off (take m bs))"
    for w :: toy_fs and n off bs by (intro exI[of _ "length bs"]) simp
  ultimately show "fs_laws toy_fdn snd 4 toy_calls"
    unfolding fs_laws_def by (auto simp: toy_fdn_def)
  then show "fs_reliable toy_fdn snd 4 toy_calls" using r w by (simp add: fs_reliable_def)
qed

lemma toy_pages:
  obtains c where "pagecache_create_fn (Some (replicate 1 \<lparr>hkey = 0, hnext = 0, hval = \<lparr>cn_data = 0, cn_idx = 0\<rparr>\<rparr>, [],
      [\<lparr>iprev = 0, inext = 0, idata = 0\<rparr>], [\<lparr>iprev = 0, inext = 0, idata = 0\<rparr>])) 1 0 None = Some c"
    "pc_fresh c"
    "pc_inv toy_fdn 4 {1, 2} \<lparr>pc_os = ([], \<lambda>_. []), pc_fds = toy_cache, pc_pages = [replicate PAGESZ 0], pc_cache = c\<rparr>"
proof -
  let ?n = "\<lparr>hkey = 0, hnext = 0, hval = \<lparr>cn_data = (0::nat), cn_idx = 0\<rparr>\<rparr>"
  let ?m = "\<lparr>iprev = 0, inext = 0, idata = (0::i64)\<rparr>" and ?x = "\<lparr>iprev = 0, inext = 0, idata = (0::nat)\<rparr>"
  have l: "(0::nat) < 1" "length (replicate 1 ?n) = 1" "length ([] :: nat cnode hnode list) = 0"
    "length [?m] = 1 + 0" "length [?x] = 1 + 0" by simp_all
  from pagecache_init_ok[OF l, of None] obtain c where c: "pagecache_create_fn (Some (replicate 1 ?n, [], [?m], [?x])) 1 0 None = Some c"
    "pc_fresh c" "pc_size c = 1 + 0" by metis
  have fi: "fd_inv toy_fdn ([], \<lambda>_. []) toy_cache"
    using toy_cache_ok(1) by (simp add: fd_inv_def toy_fdn_def)
  have ch: "chainsz (ic_hash toy_cache) = 1" by code_simp
  have sz: "finite {1, 2 :: u64}" "card {1, 2 :: u64} \<le> Suc (chainsz (ic_hash toy_cache))"
    "chainsz (ic_hash toy_cache) < 4" using ch by simp_all
  have pg: "length [replicate PAGESZ (0::u8)] = pc_size c" "\<forall>p \<in> set [replicate PAGESZ (0::u8)]. length p = PAGESZ"
    using c(3) by simp_all
  show thesis using that[OF c(1,2)] pc_fresh_inv[OF c(2) fi toy_cache_ok(2) sz pg] by simp
qed

section \<open>Properties\<close>

text \<open>
  C21: Over a file system that obeys POSIX, whose reads and writes neither fail nor stop short
  (after a failed write the page would be dropped, pagecache.c:70), that opens files below its
  limit of descriptors, and as long as the files in use are not more than the descriptor cache
  can hold at once: touching a page (its gid not the undefined key) in the page cache succeeds
  exactly when the cache of keys takes the key, and whether it hits, loads a page into a free
  frame or writes the least recently used page back and reuses its frame, no byte of any page
  (cached or on disk) is lost and no frame leaks.
\<close>

theorem pagecache_touch_preserves:
  assumes "fs_reliable fdn cont lim y" "pc_inv fdn lim K s" "gid_file_id key \<in> K" "key \<noteq> IHASH_UNDEF"
  shows "\<exists>c r. icache_touch_fn (pc_cache s) key = Some (c, r) \<and>
    (key \<in> set (icache_keys (pc_cache s)) \<or> length (icache_keys (pc_cache s)) \<le> chainsz (ic_hash (pc_cache s)) \<longrightarrow> r \<noteq> None) \<and>
    (case r of None \<Rightarrow> pagecache_touch_fn y s key = None
     | Some e \<Rightarrow> \<exists>s'. pagecache_touch_fn y s key = Some (s', e) \<and> pc_inv fdn lim K s' \<and>
         icache_node_of (pc_cache s') key e \<and> icache_keys (pc_cache s') = icache_keys c \<and>
         (\<forall>g. prefix (pc_view (cont (pc_os s)) s g) (pc_view (cont (pc_os s')) s' g)))"
proof (cases "key \<in> set (icache_keys (pc_cache s))")
  case True
  obtain c s' e where "icache_touch_fn (pc_cache s) key = Some (c, Some e)"
    "pagecache_touch_fn y s key = Some (s', e)" "pc_inv fdn lim K s'" "pc_cache s' = c" "icache_node_of c key e"
    "pc_os s' = pc_os s" "\<forall>g. pc_view (cont (pc_os s)) s' g = pc_view (cont (pc_os s)) s g"
    by (rule pagecache_touch_hit[OF assms(2) True])
  then show ?thesis by (intro exI[of _ c] exI[of _ "Some e"]) auto
next
  case False
  note inv = pc_invD(1)[OF assms(2)]
  note get = icache_get_miss[OF inv False]
  show ?thesis
  proof (rule icache_miss_cases[OF inv assms(4) False])
    fix h e c' assume h: "ihash_touch_fn (ic_hash (pc_cache s)) key = Some (h, Some e)"
      "icache_link ((pc_cache s)\<lparr>ic_hash := h\<rparr>) key e = Some (c', Some e)" "icache_inv c'" "same_shape (pc_cache s) c'"
      "icache_keys c' = key # icache_keys (pc_cache s)"
      "icache_map c' = (icache_map (pc_cache s))(key \<mapsto> cn_data (hval (ihash_node h e)))" "icache_node_of c' key e"
    have "icache_touch_fn (pc_cache s) key = Some (c', Some e)" using get h(1,2) by (simp add: icache_touch_fn_def)
    then show ?thesis using pagecache_touch_room[OF assms(1-3) False h] h(5)
      by (intro exI[of _ c'] exI[of _ "Some e"]) (simp, metis)
  next
    fix ks lru l h h3 e c' assume h: "ihash_touch_fn (ic_hash (pc_cache s)) key = Some (ic_hash (pc_cache s), None)"
      "icache_keys (pc_cache s) = ks @ [lru]" "ilist2_pop_back (ic_list (pc_cache s)) = Some (l, lru)"
      "lru \<noteq> IHASH_UNDEF" "ihash_erase_fn (ic_hash (pc_cache s)) lru = Some (h, True)"
      and card: "chainsz (ic_hash (pc_cache s)) < length (icache_keys (pc_cache s))"
      and ex: "ihash_exists (ic_hash (pc_cache s)) lru = Some True"
      and h3: "ihash_touch_fn h key = Some (h3, Some e)"
      "icache_link ((pc_cache s)\<lparr>ic_hash := h3, ic_list := l\<rparr>) key e = Some (c', Some e)" "icache_inv c'"
      "same_shape (pc_cache s) c'" "icache_keys c' = key # ks"
      "icache_map c' = (icache_map (pc_cache s))(lru := None, key \<mapsto> cn_data (hval (ihash_node h3 e)))"
      "icache_node_of c' key e"
    have "icache_touch_fn (pc_cache s) key = Some (c', Some e)"
      using get h ex h3(1,2) by (simp add: icache_touch_fn_def)
    then show ?thesis using pagecache_touch_evicted[OF assms(1-3) False h h3] card False h3(5)
      by (intro exI[of _ c'] exI[of _ "Some e"]) (simp, metis)
  next
    fix ks lru l h assume h: "ihash_touch_fn (ic_hash (pc_cache s)) key = Some (ic_hash (pc_cache s), None)"
      "icache_keys (pc_cache s) = ks @ [lru]" "ilist2_pop_back (ic_list (pc_cache s)) = Some (l, lru)"
      "lru \<noteq> IHASH_UNDEF" "ihash_erase_fn (ic_hash (pc_cache s)) lru = Some (h, True)"
      and card: "chainsz (ic_hash (pc_cache s)) < length (icache_keys (pc_cache s))"
      and ex: "ihash_exists (ic_hash (pc_cache s)) lru = Some True" and f: "ihash_touch_fn h key = Some (h, None)"
    have "icache_touch_fn (pc_cache s) key = Some ((pc_cache s)\<lparr>ic_hash := h, ic_list := l\<rparr>, None)"
      using get h ex f by (simp add: icache_touch_fn_def)
    moreover have "pagecache_touch_fn y s key = None"
      by (rule pagecache_touch_evict[OF assms(1-3) False h]) (simp add: f)
    ultimately show ?thesis using card False by (intro exI[of _ "(pc_cache s)\<lparr>ic_hash := h, ic_list := l\<rparr>"] exI[of _ None]) simp
  qed
qed

theorem pagecache_touch_preserves_witness:
  "\<exists>c s' e. let s = \<lparr>pc_os = ([], \<lambda>_. []), pc_fds = toy_cache, pc_pages = [replicate PAGESZ 0], pc_cache = c\<rparr> in
    pc_inv toy_fdn 4 {1, 2} s \<and>
    pagecache_touch_fn toy_calls s (gid_parts 1 3) = Some (s', e) \<and> pc_inv toy_fdn 4 {1, 2} s' \<and>
    (\<forall>g. prefix (pc_view (snd (pc_os s)) s g) (pc_view (snd (pc_os s')) s' g))"
proof -
  obtain c where c: "pc_fresh c" "pc_inv toy_fdn 4 {1, 2}
      \<lparr>pc_os = ([], \<lambda>_. []), pc_fds = toy_cache, pc_pages = [replicate PAGESZ 0], pc_cache = c\<rparr>"
    by (rule toy_pages)
  let ?s = "\<lparr>pc_os = ([], \<lambda>_. []), pc_fds = toy_cache, pc_pages = [replicate PAGESZ (0::u8)], pc_cache = c\<rparr>"
  have k: "gid_file_id (gid_parts 1 3) \<in> {1, 2}" "gid_parts 1 3 \<noteq> IHASH_UNDEF" by code_simp+
  have "length (icache_keys (pc_cache ?s)) \<le> chainsz (ic_hash (pc_cache ?s))" using c(1) by (simp add: pc_fresh_def)
  note len = this
  from pagecache_touch_preserves[OF toy_fs_laws(2) c(2) k] show ?thesis
  proof (elim exE conjE, goal_cases)
    case (1 c1 r)
    then obtain e where e: "r = Some e" using len by blast
    from 1(3)[unfolded e option.case(2)] show ?case unfolding Let_def using c(2) by blast
  qed
qed

text \<open>
  C22: Flushing a cached page over any file system that obeys POSIX, whose writes may fail or
  stop short, as long as the files in use are not more than the descriptor cache can hold and
  stay below the system's limit: the page stays cached and no other page loses a byte; a
  result of 0 means that the page on disk is the cached one, -1 that nothing was written, and
  a count that exactly so many first bytes of the page are on disk before the rest of its old
  content. When writes are complete the result is 0.
\<close>

theorem pagecache_flush_persists:
  assumes "fs_laws fdn cont lim y" "pc_inv fdn lim K s" "g \<in> set (icache_keys (pc_cache s))"
  defines "v \<equiv> pc_view (cont (pc_os s)) s g"
  shows "\<exists>s' m. pagecache_flush y s g = Some (s', m) \<and> pc_inv fdn lim K s' \<and> pc_cache s' = pc_cache s \<and>
    (\<forall>h. prefix (pc_view (cont (pc_os s)) s h) (pc_view (cont (pc_os s')) s' h)) \<and>
    (m = 0 \<and> disk_page (cont (pc_os s')) g = v \<or> m = -1 \<and> cont (pc_os s') = cont (pc_os s) \<or>
     (0 < m \<and> m < int PAGESZ \<and> disk_page (cont (pc_os s')) g = take (nat m) v @ drop (nat m) (disk_page (cont (pc_os s)) g))) \<and>
    (fs_reliable fdn cont lim y \<longrightarrow> m = 0)"
  unfolding v_def by (rule pagecache_flush_ok[OF assms(1-3)]) blast

theorem pagecache_flush_persists_witness:
  "\<exists>s s'. pc_inv toy_fdn 4 {1, 2} s \<and> pagecache_flush toy_calls s (gid_parts 1 3) = Some (s', 0) \<and>
    disk_page (snd (pc_os s')) (gid_parts 1 3) = pc_view (snd (pc_os s)) s (gid_parts 1 3)"
proof -
  obtain s :: "toy_fs pagecache" where s: "pc_inv toy_fdn 4 {1, 2} s" "icache_keys (pc_cache s) = []"
    by (rule toy_pages) (simp add: pc_fresh_def)
  have k: "gid_file_id (gid_parts 1 3) \<in> {1, 2}" by code_simp
  have I: "icache_inv (pc_cache s)" "gid_parts 1 3 \<notin> set (icache_keys (pc_cache s))"
    using s pc_invD(1)[OF s(1)] by simp_all
  have ne: "gid_parts 1 3 \<noteq> IHASH_UNDEF" by code_simp
  have "\<exists>s1. pc_inv toy_fdn 4 {1, 2} s1 \<and> gid_parts 1 3 \<in> set (icache_keys (pc_cache s1))"
  proof (rule icache_miss_cases[OF I(1) ne I(2)], goal_cases)
    case (1 h e c')
    show ?case
      by (rule pagecache_touch_room[OF toy_fs_laws(2) s(1) k I(2) 1(1,4-9)]) auto
  qed (use s(2) in simp_all)
  then obtain s1 where s1: "pc_inv toy_fdn 4 {1, 2} s1" "gid_parts 1 3 \<in> set (icache_keys (pc_cache s1))" by blast
  from pagecache_flush_persists[OF toy_fs_laws(1) s1] show ?thesis using s1 toy_fs_laws(2)
    by (elim exE conjE) auto
qed

text \<open>
  Creating the page cache, or clearing it in any state, succeeds and establishes the
  invariant with every frame free and frame 0 on top of the stack.
\<close>

lemma pagecache_starts_fresh:
  fixes fdn :: "'w \<Rightarrow> i32 \<Rightarrow> u8 list option"
  assumes "0 < bsz" "length bs = bsz" "length cs = csz" "length ls = bsz + csz" "length xs = bsz + csz"
    and "fd_inv fdn w d" "icache_keys d = []" "finite K" "card K \<le> Suc (chainsz (ic_hash d))"
      "chainsz (ic_hash d) < lim" "length pgs = bsz + csz" "\<forall>p \<in> set pgs. length p = PAGESZ"
  shows "\<exists>c. pagecache_create_fn (Some (bs, cs, ls, xs)) bsz csz fn = Some c \<and>
    pc_inv fdn lim K \<lparr>pc_os = w, pc_fds = d, pc_pages = pgs, pc_cache = c\<rparr> \<and> pc_frames c = rev [0..<bsz + csz] \<and>
    (\<forall>s fn. pc_inv fdn lim K s \<longrightarrow> (\<exists>c'. pagecache_clear (pc_cache s) fn = Some c' \<and>
       pc_frames c' = rev [0..<pc_size (pc_cache s)] \<and> pc_inv fdn lim K (s\<lparr>pc_cache := c'\<rparr>)))"
proof -
  obtain c where c: "pagecache_create_fn (Some (bs, cs, ls, xs)) bsz csz fn = Some c" "pc_fresh c" "pc_size c = bsz + csz"
    by (rule pagecache_init_ok[OF assms(1-5)])
  have pg: "length pgs = pc_size c" using assms(11) c(3) by simp
  have "\<exists>c'. pagecache_clear (pc_cache s) fn = Some c' \<and>
      pc_frames c' = rev [0..<pc_size (pc_cache s)] \<and> pc_inv fdn lim K (s\<lparr>pc_cache := c'\<rparr>)"
    if inv: "pc_inv fdn lim K s" for s :: "'w pagecache" and fn
  proof -
    obtain c' where c': "pagecache_clear (pc_cache s) fn = Some c'" "pc_fresh c'" "pc_size c' = pc_size (pc_cache s)"
      by (rule pagecache_clear_ok[OF inv])
    then show ?thesis using pc_invD[OF inv]
      by (intro exI[of _ c']) (simp add: pc_fresh_def pc_inv_def pc_frames_def)
  qed
  then show ?thesis using c pc_fresh_inv[OF c(2) assms(6-10) pg assms(12)]
    by (intro exI[of _ c]) (simp add: pc_fresh_def pc_frames_def)
qed

lemma pagecache_starts_fresh_example:
  "\<exists>c. pagecache_create_fn (Some (replicate 2 \<lparr>hkey = 0, hnext = 0, hval = \<lparr>cn_data = 0, cn_idx = 0\<rparr>\<rparr>, [],
      replicate 2 \<lparr>iprev = 0, inext = 0, idata = 0\<rparr>, replicate 2 \<lparr>iprev = 0, inext = 0, idata = 0\<rparr>)) 2 0 None = Some c \<and>
    pc_frames c = [1, 0]"
proof -
  let ?n = "\<lparr>hkey = 0, hnext = 0, hval = \<lparr>cn_data = (0::nat), cn_idx = 0\<rparr>\<rparr>"
  let ?m = "\<lparr>iprev = 0, inext = 0, idata = (0::i64)\<rparr>" and ?x = "\<lparr>iprev = 0, inext = 0, idata = (0::nat)\<rparr>"
  have l: "(0::nat) < 2" "length (replicate 2 ?n) = 2" "length ([] :: nat cnode hnode list) = 0"
    "length (replicate 2 ?m) = 2 + 0" "length (replicate 2 ?x) = 2 + 0" by simp_all
  have ch: "chainsz (ic_hash toy_cache) = 1" by code_simp
  have k: "finite {1 :: u64}" "card {1 :: u64} \<le> Suc (chainsz (ic_hash toy_cache))" "chainsz (ic_hash toy_cache) < 4"
    using ch by simp_all
  have p: "length (replicate 2 (replicate PAGESZ (0::u8))) = 2 + 0"
    "\<forall>p \<in> set (replicate 2 (replicate PAGESZ (0::u8))). length p = PAGESZ" by simp_all
  have "[0..<2 + 0] = [0, 1 :: nat]" by (simp add: upt_rec)
  then show ?thesis using pagecache_starts_fresh[OF l toy_cache_ok k p, of None] by auto
qed

end
