(* ===== verification/Scr_Memory.thy ===== *)
theory Scr_Memory
  imports Scr_Align
begin

text \<open>
  \<^verbatim>\<open>lib/core/src/memory.h\<close> and \<^verbatim>\<open>memory.c\<close>: memory contexts, blocks of mapped
  memory that bump and linear allocators cut into pieces. A context is named by a number
  (its address); a pointer is a context and an offset into it. Mappings are the domain of
  the map from contexts to their contents, so that using an unmapped one is \<open>None\<close>,
  as is a failed assert. The result of mmap is an argument of the creating functions.
\<close>

section \<open>State\<close>

type_synonym cid = nat
type_synonym ptr = "cid \<times> u64"

datatype context_vt = Bump_vt | Linear_vt

record bump_header =
  bh_context :: cid
  bh_size :: u64

text \<open>
  \<open>ctx_headers\<close> is the header whose data starts at an offset, \<open>ctx_bytes\<close>
  the bytes of the data.
\<close>

record bump_context =
  ctx_vt :: context_vt
  ctx_magic :: "32 word"
  ctx_size :: u64
  ctx_current :: u64
  ctx_parent :: "cid option"
  ctx_children :: "cid option list"
  ctx_headers :: "u64 \<Rightarrow> bump_header option"
  ctx_bytes :: "nat \<Rightarrow> u8"

type_synonym heap = "cid \<Rightarrow> bump_context option"

text \<open>The file-scope variables; \<open>g_context\<close> may be NULL.\<close>

record memory =
  m_heap :: heap
  g_root_context :: "cid option"
  g_context :: "cid option"
  context_stack :: "cid option list"
  context_stack_i :: nat

definition memory_magic :: "32 word" where "memory_magic = 0xFEEDFACE"
definition CONTEXT_MAX_CHILDREN :: nat where "CONTEXT_MAX_CHILDREN = 8"
definition CONTEXT_STACK_MAX :: nat where "CONTEXT_STACK_MAX = 16"
definition BUMP_HEADER_SZ :: u64 where "BUMP_HEADER_SZ = 16"

text \<open>The size of the struct (104 with the magic number) is aligned to 112.\<close>

definition context_start :: u64 where "context_start = align_max 104"

section \<open>Bump contexts\<close>

definition context_create :: "context_vt \<Rightarrow> (nat \<Rightarrow> u8) \<Rightarrow> heap \<Rightarrow> cid option \<Rightarrow> u64 \<Rightarrow> heap \<times> cid option" where
  "context_create vt bytes h mapped sz =
     (if sz = 0 then (h, None)
      else case mapped of None \<Rightarrow> (h, None)
      | Some c \<Rightarrow> (h(c \<mapsto> \<lparr>ctx_vt = vt, ctx_magic = memory_magic, ctx_size = sz, ctx_current = context_start,
          ctx_parent = None, ctx_children = replicate CONTEXT_MAX_CHILDREN None,
          ctx_headers = (\<lambda>_. None), ctx_bytes = bytes\<rparr>), Some c))"

text \<open>Anonymous mappings are filled with zeros.\<close>

definition bump_context_create :: "heap \<Rightarrow> cid option \<Rightarrow> u64 \<Rightarrow> heap \<times> cid option" where
  "bump_context_create = context_create Bump_vt (\<lambda>_. 0)"

definition bump_context_alloc :: "heap \<Rightarrow> cid \<Rightarrow> u64 \<Rightarrow> (heap \<times> ptr option) option" where
  "bump_context_alloc h c sz =
     (if sz = 0 then Some (h, None)
      else Option.bind (h c) (\<lambda>b.
        let sz = align_max sz; totalsz = sz + BUMP_HEADER_SZ in
        if ctx_magic b \<noteq> memory_magic \<or> sz > - 1 - BUMP_HEADER_SZ then None
        else if ctx_size b - ctx_current b < totalsz then Some (h, None)
        else let ret = ctx_current b in
          Some (h(c \<mapsto> b\<lparr>ctx_headers := (ctx_headers b)(ret + BUMP_HEADER_SZ \<mapsto> \<lparr>bh_context = c, bh_size = sz\<rparr>),
                          ctx_current := ret + totalsz\<rparr>),
                Some (c, ret + BUMP_HEADER_SZ))))"

text \<open>
  The header before \<open>p\<close> with its context, as realloc and free find and check it. The
  context's own header points into the context, the pointer comparisons are on offsets.
\<close>

definition bump_header_of :: "heap \<Rightarrow> ptr \<Rightarrow> (bump_header \<times> bump_context) option" where
  "bump_header_of h p = Option.bind (h (fst p)) (\<lambda>own. Option.bind (ctx_headers own (snd p)) (\<lambda>bh.
     Option.bind (h (bh_context bh)) (\<lambda>b.
       if bh_size bh > 0 \<and> bh_size bh + BUMP_HEADER_SZ \<le> ctx_size b then Some (bh, b) else None)))"

definition bump_pointer_valid :: "ptr \<Rightarrow> bump_header \<Rightarrow> bump_context \<Rightarrow> bool" where
  "bump_pointer_valid p bh b \<longleftrightarrow> fst p = bh_context bh \<and> snd p < ctx_current b \<and> ctx_magic b = memory_magic"

text \<open>If \<open>p\<close> is the tail, rewind current to its header.\<close>

definition bump_rewind :: "heap \<Rightarrow> ptr \<Rightarrow> bump_header \<Rightarrow> bump_context \<Rightarrow> heap" where
  "bump_rewind h p bh b = (if snd p + bh_size bh = ctx_current b
     then h(bh_context bh \<mapsto> b\<lparr>ctx_current := snd p - BUMP_HEADER_SZ\<rparr>) else h)"

definition bump_context_free :: "heap \<Rightarrow> ptr option \<Rightarrow> heap option" where
  "bump_context_free h p0 = (case p0 of None \<Rightarrow> Some h
   | Some p \<Rightarrow> Option.bind (bump_header_of h p) (\<lambda>(bh, b).
       if \<not> bump_pointer_valid p bh b then None else Some (bump_rewind h p bh b)))"

text \<open>memcpy within one context.\<close>

definition bytes_copy :: "(nat \<Rightarrow> u8) \<Rightarrow> nat \<Rightarrow> nat \<Rightarrow> nat \<Rightarrow> (nat \<Rightarrow> u8)" where
  "bytes_copy f dst src n = (\<lambda>i. if dst \<le> i \<and> i < dst + n then f (src + (i - dst)) else f i)"

definition bump_context_realloc :: "heap \<Rightarrow> cid \<Rightarrow> ptr option \<Rightarrow> u64 \<Rightarrow> (heap \<times> ptr option) option" where
  "bump_context_realloc h c p0 sz = (case p0 of None \<Rightarrow> bump_context_alloc h c sz
   | Some p \<Rightarrow> Option.bind (bump_header_of h p) (\<lambda>(bh, b).
       if sz = 0 then map_option (\<lambda>h'. (h', None)) (bump_context_free h (Some p))
       else let sz = align_max sz in
         if \<not> bump_pointer_valid p bh b \<or> sz > - 1 - BUMP_HEADER_SZ then None
         else if sz > bh_size bh then
           Option.bind (bump_context_alloc (bump_rewind h p bh b) (bh_context bh) sz) (\<lambda>(h1, np). case np of
             None \<Rightarrow> Some (h1, None)
           | Some q \<Rightarrow> Some (if q = p then h1
               else h1(fst q := map_option (ctx_bytes_update (\<lambda>f. bytes_copy f (unat (snd q)) (unat (snd p)) (unat (bh_size bh)))) (h1 (fst q))), Some q))
         else Some (h, Some p)))"

section \<open>Trees of contexts\<close>

definition bump_context_set_parent :: "heap \<Rightarrow> cid \<Rightarrow> cid option \<Rightarrow> heap option" where
  "bump_context_set_parent h c p = map_option (\<lambda>b. h(c \<mapsto> b\<lparr>ctx_parent := p\<rparr>)) (h c)"

definition bump_context_get_parent :: "heap \<Rightarrow> cid \<Rightarrow> cid option option" where
  "bump_context_get_parent h c = map_option ctx_parent (h c)"

text \<open>The index of the first slot that holds a value.\<close>

fun find_slot :: "'a \<Rightarrow> 'a list \<Rightarrow> nat option" where
  "find_slot x [] = None"
| "find_slot x (y # ys) = (if y = x then Some 0 else map_option Suc (find_slot x ys))"

definition bump_context_add_child :: "heap \<Rightarrow> cid \<Rightarrow> cid \<Rightarrow> (heap \<times> cid option) option" where
  "bump_context_add_child h c child = Option.bind (h c) (\<lambda>b. case find_slot None (ctx_children b) of
     None \<Rightarrow> Some (h, None)
   | Some i \<Rightarrow> map_option (\<lambda>h'. (h', Some child))
       (bump_context_set_parent (h(c \<mapsto> b\<lparr>ctx_children := (ctx_children b)[i := Some child]\<rparr>)) child (Some c)))"

definition bump_context_erase_child :: "heap \<Rightarrow> cid \<Rightarrow> cid \<Rightarrow> (heap \<times> int) option" where
  "bump_context_erase_child h c child = map_option (\<lambda>b. case find_slot (Some child) (ctx_children b) of
     None \<Rightarrow> (h, 1)
   | Some i \<Rightarrow> (h(c \<mapsto> b\<lparr>ctx_children := (ctx_children b)[i := None]\<rparr>), 0)) (h c)"

text \<open>
  \<open>context_drop_from h c i\<close> is the loop of bump_context_drop from child \<open>i\<close>
  on, then the removal from the parent and munmap.
\<close>

partial_function (option) context_drop_from :: "heap \<Rightarrow> cid \<Rightarrow> nat \<Rightarrow> heap option" where
  "context_drop_from h c i = Option.bind (h c) (\<lambda>b.
     if i \<ge> CONTEXT_MAX_CHILDREN then
       map_option (\<lambda>h'. h'(c := None)) (case ctx_parent b of None \<Rightarrow> Some h
         | Some p \<Rightarrow> map_option fst (bump_context_erase_child h p c))
     else case ctx_children b ! i of
       None \<Rightarrow> context_drop_from h c (Suc i)
     | Some d \<Rightarrow> Option.bind (Option.bind (h d) (\<lambda>b'. if ctx_magic b' \<noteq> memory_magic then None else context_drop_from h d 0))
         (\<lambda>h'. context_drop_from h' c (Suc i)))"

definition bump_context_drop :: "heap \<Rightarrow> cid option \<Rightarrow> heap option" where
  "bump_context_drop h c0 = (case c0 of None \<Rightarrow> Some h
   | Some c \<Rightarrow> Option.bind (h c) (\<lambda>b. if ctx_magic b \<noteq> memory_magic then None else context_drop_from h c 0))"

text \<open>The loop of bump_context_reset, then the state it leaves.\<close>

fun context_reset_children :: "heap \<Rightarrow> cid \<Rightarrow> nat list \<Rightarrow> heap option" where
  "context_reset_children h c [] = Some h"
| "context_reset_children h c (i # is) = Option.bind (h c) (\<lambda>b. case ctx_children b ! i of
     None \<Rightarrow> context_reset_children h c is
   | Some d \<Rightarrow> Option.bind (bump_context_drop h (Some d)) (\<lambda>h'.
       context_reset_children (h'(c := map_option (ctx_children_update (\<lambda>cs. cs[i := None])) (h' c))) c is))"

definition bump_context_reset :: "heap \<Rightarrow> cid \<Rightarrow> heap option" where
  "bump_context_reset h c = Option.bind (h c) (\<lambda>b. if ctx_magic b \<noteq> memory_magic then None
     else context_reset_children (h(c \<mapsto> b\<lparr>ctx_current := context_start\<rparr>)) c [0..<CONTEXT_MAX_CHILDREN])"

section \<open>Linear contexts\<close>

definition linear_context_create :: "heap \<Rightarrow> cid option \<Rightarrow> u64 \<Rightarrow> heap \<times> cid option" where
  "linear_context_create = context_create Linear_vt (\<lambda>_. 0)"

definition linear_context_alloc :: "heap \<Rightarrow> cid \<Rightarrow> u64 \<Rightarrow> (heap \<times> ptr option) option" where
  "linear_context_alloc h c sz = Option.bind (h c) (\<lambda>b.
     if ctx_magic b \<noteq> memory_magic then None
     else if sz = 0 then Some (h, None)
     else let sz = align_max sz in
       if ctx_size b - ctx_current b < sz then Some (h, None)
       else Some (h(c \<mapsto> b\<lparr>ctx_current := ctx_current b + sz\<rparr>), Some (c, ctx_current b)))"

definition linear_context_realloc :: "heap \<Rightarrow> cid \<Rightarrow> ptr option \<Rightarrow> u64 \<Rightarrow> (heap \<times> ptr option) option" where
  "linear_context_realloc h c p sz = None"

definition linear_context_free :: "heap \<Rightarrow> cid \<Rightarrow> ptr option \<Rightarrow> heap option" where
  "linear_context_free h c p = None"

section \<open>Dispatch and the global context\<close>

definition context_alloc :: "heap \<Rightarrow> cid \<Rightarrow> u64 \<Rightarrow> (heap \<times> ptr option) option" where
  "context_alloc h c sz = Option.bind (h c) (\<lambda>b. case ctx_vt b of
     Bump_vt \<Rightarrow> bump_context_alloc h c sz | Linear_vt \<Rightarrow> linear_context_alloc h c sz)"

definition context_realloc :: "heap \<Rightarrow> cid \<Rightarrow> ptr option \<Rightarrow> u64 \<Rightarrow> (heap \<times> ptr option) option" where
  "context_realloc h c p sz = Option.bind (h c) (\<lambda>b. case ctx_vt b of
     Bump_vt \<Rightarrow> bump_context_realloc h c p sz | Linear_vt \<Rightarrow> linear_context_realloc h c p sz)"

definition context_free :: "heap \<Rightarrow> cid \<Rightarrow> ptr option \<Rightarrow> heap option" where
  "context_free h c p = Option.bind (h c) (\<lambda>b. case ctx_vt b of
     Bump_vt \<Rightarrow> bump_context_free h p | Linear_vt \<Rightarrow> linear_context_free h c p)"

definition memory_init :: "memory \<Rightarrow> cid option \<Rightarrow> memory" where
  "memory_init m c = m\<lparr>g_root_context := c, g_context := c\<rparr>"

definition memory_destroy :: "memory \<Rightarrow> memory option" where
  "memory_destroy m = (case g_root_context m of
     None \<Rightarrow> Some (m\<lparr>g_context := None\<rparr>)
   | Some c \<Rightarrow> map_option (\<lambda>h. m\<lparr>m_heap := h, g_root_context := None, g_context := None\<rparr>)
       (bump_context_drop (m_heap m) (Some c)))"

definition context_switch :: "memory \<Rightarrow> cid option \<Rightarrow> memory \<times> cid option" where
  "context_switch m c = (m\<lparr>g_context := c\<rparr>, g_context m)"

definition context_push :: "memory \<Rightarrow> cid option \<Rightarrow> memory option" where
  "context_push m c = (if context_stack_i m = CONTEXT_STACK_MAX then None
     else Some (m\<lparr>context_stack := (context_stack m)[context_stack_i m := g_context m],
                  context_stack_i := Suc (context_stack_i m), g_context := c\<rparr>))"

definition context_pop :: "memory \<Rightarrow> memory option" where
  "context_pop m = (if context_stack_i m = 0 then None
     else Some (m\<lparr>context_stack_i := context_stack_i m - 1,
                  g_context := context_stack m ! (context_stack_i m - 1)\<rparr>))"

definition salloc :: "memory \<Rightarrow> u64 \<Rightarrow> (memory \<times> ptr option) option" where
  "salloc m sz = Option.bind (g_context m) (\<lambda>c.
     map_option (\<lambda>(h, p). (m\<lparr>m_heap := h\<rparr>, p)) (context_alloc (m_heap m) c sz))"

text \<open>Writing bytes through a pointer.\<close>

definition heap_write :: "heap \<Rightarrow> ptr \<Rightarrow> u8 list \<Rightarrow> heap option" where
  "heap_write h p bs = map_option (\<lambda>b. h(fst p \<mapsto> b\<lparr>ctx_bytes := (\<lambda>i.
     if unat (snd p) \<le> i \<and> i < unat (snd p) + length bs then bs ! (i - unat (snd p)) else ctx_bytes b i)\<rparr>)) (h (fst p))"

definition heap_read :: "heap \<Rightarrow> ptr \<Rightarrow> nat \<Rightarrow> u8 list option" where
  "heap_read h p n = map_option (\<lambda>b. map (ctx_bytes b) [unat (snd p)..<unat (snd p) + n]) (h (fst p))"

text \<open>\<open>src\<close> is the string before its zero; a NULL from salloc is written through.\<close>

definition sdup :: "memory \<Rightarrow> u8 list \<Rightarrow> (memory \<times> ptr) option" where
  "sdup m src = Option.bind (salloc m (of_nat (length src) + 1)) (\<lambda>(m', ret). case ret of None \<Rightarrow> None
     | Some p \<Rightarrow> map_option (\<lambda>h. (m'\<lparr>m_heap := h\<rparr>, p)) (heap_write (m_heap m') p (src @ [0])))"

section \<open>Blocks\<close>

text \<open>
  The blocks of a context as (offset, size) in the order they were cut, each behind a gap of
  \<open>g\<close> bytes (the header's 16, or none), from the start of the data up to
  \<open>current\<close>.
\<close>

fun tiles :: "nat \<Rightarrow> nat \<Rightarrow> (nat \<times> nat) list \<Rightarrow> nat \<Rightarrow> bool" where
  "tiles g s [] e \<longleftrightarrow> s = e"
| "tiles g s ((a, n) # bs) e \<longleftrightarrow> a = s + g \<and> 0 < n \<and> 16 dvd n \<and> tiles g (a + n) bs e"

lemma tiles_le: "tiles g s bs e \<Longrightarrow> s \<le> e"
  by (induction g s bs e rule: tiles.induct) auto

lemma tiles_snoc: "tiles g s (bs @ [(a, n)]) e \<longleftrightarrow> (\<exists>e'. tiles g s bs e' \<and> a = e' + g \<and> 0 < n \<and> 16 dvd n \<and> e = a + n)"
  by (induction g s bs e rule: tiles.induct) auto

lemma tiles_mem: "tiles g s bs e \<Longrightarrow> (a, n) \<in> set bs \<Longrightarrow> s + g \<le> a \<and> a + n \<le> e \<and> 0 < n \<and> 16 dvd n"
  by (induction g s bs e rule: tiles.induct) (auto dest: tiles_le)

lemma tiles_aligned: "tiles g s bs e \<Longrightarrow> 16 dvd s \<Longrightarrow> 16 dvd g \<Longrightarrow> 16 dvd e \<and> (\<forall>(a, n) \<in> set bs. 16 dvd a)"
  by (induction g s bs e rule: tiles.induct) auto

text \<open>Two blocks are the same or share no byte.\<close>

lemma tiles_disjoint:
  "tiles g s bs e \<Longrightarrow> (a, n) \<in> set bs \<Longrightarrow> (a', n') \<in> set bs \<Longrightarrow>
    (a, n) = (a', n') \<or> a + n + g \<le> a' \<or> a' + n' + g \<le> a"
  by (induction g s bs e rule: tiles.induct) (auto dest: tiles_mem)

lemma tiles_distinct: "tiles g s bs e \<Longrightarrow> distinct (map fst bs)"
proof (induction g s bs e rule: tiles.induct)
  case (2 g s a n bs e)
  then have t: "tiles g (a + n) bs e" "0 < n" by auto
  have "fst x \<noteq> a" if "x \<in> set bs" for x using tiles_mem[OF t(1), of "fst x" "snd x"] that t(2) by auto
  then have "a \<notin> set (map fst bs)" by auto
  then show ?case using 2 by auto
qed simp

text \<open>The last block is the one that ends at \<open>current\<close>.\<close>

lemma tiles_tail:
  assumes "tiles g s bs e" "(a, n) \<in> set bs"
  shows "a + n = e \<longleftrightarrow> last bs = (a, n)"
  using assms
proof (induction g s bs e rule: tiles.induct)
  case (2 g s a' n' bs e)
  show ?case
  proof (cases "bs = []")
    case False
    then have t: "tiles g (a' + n') bs e" "last bs \<in> set bs" using 2(2) by auto
    have "a' + n' < e" using tiles_mem[OF t(1), of "fst (last bs)" "snd (last bs)"] t(2) by simp
    moreover have "(a', n') \<noteq> last bs" using tiles_mem[OF t(1), of a' n'] t(2) 2(2) by auto
    ultimately show ?thesis using 2 False by auto
  qed (use 2 in auto)
qed simp

definition bump_rep :: "cid \<Rightarrow> bump_context \<Rightarrow> (nat \<times> nat) list \<Rightarrow> bool" where
  "bump_rep c b bs \<longleftrightarrow> ctx_magic b = memory_magic \<and> ctx_current b \<le> ctx_size b \<and>
     tiles 16 112 bs (unat (ctx_current b)) \<and>
     (\<forall>(a, n) \<in> set bs. ctx_headers b (of_nat a) = Some \<lparr>bh_context = c, bh_size = of_nat n\<rparr>)"

lemma context_start_unat: "unat context_start = 112"
  by (simp add: context_start_def align_max_eq)

lemma unat_of_nat64: "n < 2 ^ 64 \<Longrightarrow> unat (of_nat n :: u64) = n"
  by (simp add: unsigned_of_nat take_bit_nat_eq_self)

definition round16 :: "nat \<Rightarrow> nat" where
  "round16 n = (n + 15) div 16 * 16"

lemma round16_props: "n \<le> round16 n" "round16 n \<le> n + 15" "16 dvd round16 n" "0 < n \<Longrightarrow> 0 < round16 n"
  by (auto simp: round16_def)

lemma align_max_round: "unat sz + 15 < 2 ^ 64 \<Longrightarrow> unat (align_max sz) = round16 (unat sz)"
  by (simp add: align_max_eq round16_def)

text \<open>Requests that would wrap around the 64 bit size are excluded.\<close>

definition request_ok :: "u64 \<Rightarrow> bool" where
  "request_ok sz \<longleftrightarrow> 0 < unat sz \<and> unat sz + 31 < 2 ^ 64"

lemma request_okD:
  assumes "request_ok sz"
  shows "sz \<noteq> 0" "unat (align_max sz) = round16 (unat sz)" "round16 (unat sz) + 16 < 2 ^ 64"
    "unat (align_max sz + BUMP_HEADER_SZ) = round16 (unat sz) + 16" "\<not> align_max sz > - 1 - BUMP_HEADER_SZ"
proof -
  have r: "0 < unat sz" "unat sz + 31 < 2 ^ 64" using assms by (simp_all add: request_ok_def)
  then show "sz \<noteq> 0" by auto
  show e: "unat (align_max sz) = round16 (unat sz)" using r by (simp add: align_max_round)
  show l: "round16 (unat sz) + 16 < 2 ^ 64" using round16_props(2)[of "unat sz"] r(2) by linarith
  show p: "unat (align_max sz + BUMP_HEADER_SZ) = round16 (unat sz) + 16"
    using e l by (simp add: BUMP_HEADER_SZ_def unat_word_ariths)
  have "unat (- 1 - BUMP_HEADER_SZ) = 2 ^ 64 - 17" by (simp add: BUMP_HEADER_SZ_def)
  then show "\<not> align_max sz > - 1 - BUMP_HEADER_SZ" using e l by (simp add: word_less_nat_alt)
qed

lemma bump_alloc_ok:
  assumes b: "h c = Some b" "bump_rep c b bs" and r: "request_ok sz"
  defines "e \<equiv> unat (ctx_current b)" and "n \<equiv> round16 (unat sz)"
  shows "e + 16 + n \<le> unat (ctx_size b) \<Longrightarrow> \<exists>b'. bump_context_alloc h c sz = Some (h(c \<mapsto> b'), Some (c, of_nat (e + 16))) \<and>
      bump_rep c b' (bs @ [(e + 16, n)]) \<and> ctx_bytes b' = ctx_bytes b \<and> ctx_size b' = ctx_size b \<and> ctx_vt b' = ctx_vt b"
    and "\<not> e + 16 + n \<le> unat (ctx_size b) \<Longrightarrow> bump_context_alloc h c sz = Some (h, None)"
proof -
  note R = request_okD[OF r]
  have B: "ctx_magic b = memory_magic" "ctx_current b \<le> ctx_size b" "tiles 16 112 bs e"
    "\<forall>(a, n) \<in> set bs. ctx_headers b (of_nat a) = Some \<lparr>bh_context = c, bh_size = of_nat n\<rparr>"
    using b(2) by (simp_all add: bump_rep_def e_def)
  have d: "unat (ctx_size b - ctx_current b) = unat (ctx_size b) - e"
    using B(2) by (simp add: e_def unat_sub)
  have le: "e \<le> unat (ctx_size b)" using B(2) by (simp add: e_def word_le_nat_alt)
  have nofit: "ctx_size b - ctx_current b < align_max sz + BUMP_HEADER_SZ \<longleftrightarrow> \<not> e + 16 + n \<le> unat (ctx_size b)"
    unfolding word_less_nat_alt d R(4) n_def using le by linarith
  show "bump_context_alloc h c sz = Some (h, None)" if "\<not> e + 16 + n \<le> unat (ctx_size b)"
    using that b(1) R(1,5) B(1) nofit by (simp add: bump_context_alloc_def)
  assume fit: "e + 16 + n \<le> unat (ctx_size b)"
  let ?b = "b\<lparr>ctx_headers := (ctx_headers b)(ctx_current b + BUMP_HEADER_SZ \<mapsto> \<lparr>bh_context = c, bh_size = align_max sz\<rparr>),
      ctx_current := ctx_current b + (align_max sz + BUMP_HEADER_SZ)\<rparr>"
  have lim: "e + 16 + n < 2 ^ 64" using fit unsigned_less[of "ctx_size b", where 'a = nat] by simp
  have p: "ctx_current b + BUMP_HEADER_SZ = of_nat (e + 16)" by (simp add: e_def BUMP_HEADER_SZ_def)
  have cur: "unat (ctx_current ?b) = e + 16 + n"
    using lim R(4) by (simp add: unat_word_ariths(1) e_def n_def)
  have az: "align_max sz = of_nat n" using R(2) by (metis n_def of_nat_unat ucast_id)
  have t: "tiles 16 112 (bs @ [(e + 16, n)]) (unat (ctx_current ?b))"
    unfolding tiles_snoc cur using B(3) round16_props(3,4)[of "unat sz"] r by (auto simp: n_def request_ok_def)
  have "ctx_headers ?b (of_nat a) = Some \<lparr>bh_context = c, bh_size = of_nat m\<rparr>" if m: "(a, m) \<in> set bs" for a m
  proof -
    have "a + m \<le> e" "0 < m" using tiles_mem[OF B(3) m] by simp_all
    then have "unat (of_nat a :: u64) = a" "unat (of_nat (e + 16) :: u64) = e + 16" "a \<noteq> e + 16"
      using lim unat_of_nat64[of a] unat_of_nat64[of "e + 16"] by linarith+
    then have "(of_nat a :: u64) \<noteq> of_nat (e + 16)" by metis
    then show ?thesis using B(4) m p by auto
  qed
  then have "bump_rep c ?b (bs @ [(e + 16, n)])"
    using B(1) t cur fit p az by (auto simp: bump_rep_def word_le_nat_alt)
  moreover have "bump_context_alloc h c sz = Some (h(c \<mapsto> ?b), Some (c, of_nat (e + 16)))"
    using b(1) R(1,5) B(1) nofit fit p by (simp add: bump_context_alloc_def Let_def)
  ultimately show "\<exists>b'. bump_context_alloc h c sz = Some (h(c \<mapsto> b'), Some (c, of_nat (e + 16))) \<and>
      bump_rep c b' (bs @ [(e + 16, n)]) \<and> ctx_bytes b' = ctx_bytes b \<and> ctx_size b' = ctx_size b \<and> ctx_vt b' = ctx_vt b"
    by (intro exI[of _ ?b]) simp
qed

section \<open>Free and realloc of a block\<close>

lemma bump_repD:
  assumes "bump_rep c b bs"
  shows "ctx_magic b = memory_magic" "ctx_current b \<le> ctx_size b" "tiles 16 112 bs (unat (ctx_current b))"
    "(a, n) \<in> set bs \<Longrightarrow> ctx_headers b (of_nat a) = Some \<lparr>bh_context = c, bh_size = of_nat n\<rparr>"
  using assms by (auto simp: bump_rep_def)

lemma bump_block:
  assumes b: "h c = Some b" "bump_rep c b bs" and m: "(a, n) \<in> set bs"
  defines "p \<equiv> (c, of_nat a :: u64)" and "bh \<equiv> \<lparr>bh_context = c, bh_size = of_nat n\<rparr>"
  shows "bump_header_of h p = Some (bh, b)" "bump_pointer_valid p bh b"
    "snd p + bh_size bh = ctx_current b \<longleftrightarrow> last bs = (a, n)" "unat (snd p) = a" "unat (bh_size bh) = n"
    "snd p - BUMP_HEADER_SZ = of_nat (a - 16)" "a + n \<le> unat (ctx_current b)" "128 \<le> a" "0 < n" "a + n < 2 ^ 64"
proof -
  note B = bump_repD[OF b(2)]
  note T = tiles_mem[OF B(3) m]
  show an: "a + n \<le> unat (ctx_current b)" "128 \<le> a" "0 < n" using T by simp_all
  have lim: "unat (ctx_current b) < 2 ^ 64" using unsigned_less[of "ctx_current b", where 'a = nat] by simp
  show l: "a + n < 2 ^ 64" using an lim by simp
  show ua: "unat (snd p) = a" "unat (bh_size bh) = n"
    using l unat_of_nat64[of a] unat_of_nat64[of n] by (simp_all add: p_def bh_def)
  have "unat (of_nat (a + n) :: u64) = a + n" using l by (rule unat_of_nat64)
  then have "snd p + bh_size bh = ctx_current b \<longleftrightarrow> a + n = unat (ctx_current b)"
    by (simp add: p_def bh_def word_unat_eq_iff)
  then show "snd p + bh_size bh = ctx_current b \<longleftrightarrow> last bs = (a, n)" using tiles_tail[OF B(3) m] by simp
  show "snd p - BUMP_HEADER_SZ = of_nat (a - 16)" using an(2) by (simp add: p_def BUMP_HEADER_SZ_def)
  have le: "unat (ctx_current b) \<le> unat (ctx_size b)" using B(2) by (simp add: word_le_nat_alt)
  have "unat (bh_size bh + BUMP_HEADER_SZ) = n + 16"
    using ua(2) an(1,2) lim by (simp add: BUMP_HEADER_SZ_def unat_word_ariths)
  then have "bh_size bh + BUMP_HEADER_SZ \<le> ctx_size b" using an le by (simp add: word_le_nat_alt)
  moreover have "0 < bh_size bh" using an(3) ua(2) by (simp add: word_less_nat_alt)
  ultimately show "bump_header_of h p = Some (bh, b)"
    using b(1) B(4)[OF m] by (simp add: bump_header_of_def p_def bh_def)
  have "snd p < ctx_current b" using ua(1) an by (simp add: word_less_nat_alt)
  then show "bump_pointer_valid p bh b" using B(1) by (simp add: bump_pointer_valid_def p_def bh_def)
qed

lemma bump_rep_rewind:
  assumes "bump_rep c b bs" "(a, n) \<in> set bs" "last bs = (a, n)"
  shows "bump_rep c (b\<lparr>ctx_current := of_nat (a - 16)\<rparr>) (butlast bs)" "unat (of_nat (a - 16) :: u64) = a - 16"
proof -
  note B = bump_repD[OF assms(1)]
  have bs: "bs = butlast bs @ [(a, n)]" using assms(2,3) by (metis append_butlast_last_id empty_iff list.set(1))
  have "a < 2 ^ 64" using tiles_mem[OF B(3) assms(2)] unsigned_less[of "ctx_current b", where 'a = nat] by simp
  then show u: "unat (of_nat (a - 16) :: u64) = a - 16" using unat_of_nat64[of "a - 16"] by simp
  from B(3) bs obtain e where e: "tiles 16 112 (butlast bs) e" "a = e + 16" using tiles_snoc by metis
  have "unat (ctx_current b) \<le> unat (ctx_size b)" using B(2) by (simp add: word_le_nat_alt)
  then have "a - 16 \<le> unat (ctx_size b)" using tiles_mem[OF B(3) assms(2)] by linarith
  then have "(of_nat (a - 16) :: u64) \<le> ctx_size b" using u by (simp add: word_le_nat_alt)
  then show "bump_rep c (b\<lparr>ctx_current := of_nat (a - 16)\<rparr>) (butlast bs)"
    using B(1,4) e u by (auto simp: bump_rep_def dest: in_set_butlastD)
qed

lemma bump_free_ok:
  assumes b: "h c = Some b" "bump_rep c b bs" and m: "(a, n) \<in> set bs"
  shows "last bs = (a, n) \<Longrightarrow> bump_context_free h (Some (c, of_nat a)) = Some (h(c \<mapsto> b\<lparr>ctx_current := of_nat (a - 16)\<rparr>))"
    "last bs \<noteq> (a, n) \<Longrightarrow> bump_context_free h (Some (c, of_nat a)) = Some h"
  using bump_block[where h = h, OF b m] by (simp_all add: bump_context_free_def bump_rewind_def)

text \<open>Each outcome of realloc on a block \<open>(a, n)\<close>.\<close>

lemma bump_realloc_ok:
  assumes b: "h c = Some b" "bump_rep c b bs" and m: "(a, n) \<in> set bs" and r: "request_ok sz"
  defines "k \<equiv> round16 (unat sz)" and "p \<equiv> (c, of_nat a :: u64)" and "e \<equiv> unat (ctx_current b)"
  shows "k \<le> n \<Longrightarrow> bump_context_realloc h c' (Some p) sz = Some (h, Some p)"
    and "n < k \<Longrightarrow> last bs = (a, n) \<Longrightarrow> a + k \<le> unat (ctx_size b) \<Longrightarrow>
      \<exists>b'. bump_context_realloc h c' (Some p) sz = Some (h(c \<mapsto> b'), Some p) \<and> bump_rep c b' (butlast bs @ [(a, k)]) \<and>
        ctx_bytes b' = ctx_bytes b"
    and "n < k \<Longrightarrow> last bs = (a, n) \<Longrightarrow> \<not> a + k \<le> unat (ctx_size b) \<Longrightarrow>
      bump_context_realloc h c' (Some p) sz = Some (h(c \<mapsto> b\<lparr>ctx_current := of_nat (a - 16)\<rparr>), None)"
    and "n < k \<Longrightarrow> last bs \<noteq> (a, n) \<Longrightarrow> e + 16 + k \<le> unat (ctx_size b) \<Longrightarrow>
      \<exists>b'. bump_context_realloc h c' (Some p) sz = Some (h(c \<mapsto> b'), Some (c, of_nat (e + 16))) \<and>
        bump_rep c b' (bs @ [(e + 16, k)]) \<and> ctx_bytes b' = bytes_copy (ctx_bytes b) (e + 16) a n"
    and "n < k \<Longrightarrow> last bs \<noteq> (a, n) \<Longrightarrow> \<not> e + 16 + k \<le> unat (ctx_size b) \<Longrightarrow>
      bump_context_realloc h c' (Some p) sz = Some (h, None)"
proof -
  note B = bump_block[where h = h, OF b m, folded p_def]
  note R = request_okD[OF r, folded k_def]
  have u: "unat (snd p) = a" using B(4) .
  have gt: "align_max sz > of_nat n \<longleftrightarrow> n < k" using R(2) B(5) by (simp add: word_less_nat_alt)
  have k16: "16 dvd k" "0 < k" using round16_props[of "unat sz"] r by (simp_all add: k_def request_ok_def)
  have idem: "align_max (align_max sz) = align_max sz" and r2: "request_ok (align_max sz)"
  proof -
    obtain q where q: "k = 16 * q" using k16(1) by blast
    have "k + 31 < 2 ^ 64"
    proof -
      have "k + 16 < 2 ^ 64" using R(3) .
      then have "q + 1 < 2 ^ 60" unfolding q by simp
      then show ?thesis unfolding q by simp
    qed
    then show "request_ok (align_max sz)" using R(2) k16(2) by (simp add: request_ok_def)
    then have "unat (align_max (align_max sz)) = round16 k" using request_okD(2) R(2) by metis
    also have "round16 k = k" unfolding q by (simp add: round16_def)
    finally show "align_max (align_max sz) = align_max sz" using R(2) by (metis word_unat_eq_iff)
  qed
  have k': "round16 (unat (align_max sz)) = k" using request_okD(2)[OF r2] R(2) idem by simp
  note step = bump_context_realloc_def bump_rewind_def
  show "k \<le> n \<Longrightarrow> bump_context_realloc h c' (Some p) sz = Some (h, Some p)"
    using B(1,2) R(1,5) gt by (simp add: step)
  show "\<exists>b'. bump_context_realloc h c' (Some p) sz = Some (h(c \<mapsto> b'), Some (c, of_nat (e + 16))) \<and>
        bump_rep c b' (bs @ [(e + 16, k)]) \<and> ctx_bytes b' = bytes_copy (ctx_bytes b) (e + 16) a n"
    if A: "n < k" "last bs \<noteq> (a, n)" "e + 16 + k \<le> unat (ctx_size b)"
  proof -
    from bump_alloc_ok(1)[where h = h, OF b r2] A(3) obtain b' where al:
      "bump_context_alloc h c (align_max sz) = Some (h(c \<mapsto> b'), Some (c, of_nat (e + 16)))"
      "bump_rep c b' (bs @ [(e + 16, k)])" "ctx_bytes b' = ctx_bytes b" unfolding k' e_def by blast
    have "e + 16 < 2 ^ 64" using A(3) unsigned_less[of "ctx_size b", where 'a = nat] by simp
    then have ue: "unat (of_nat (e + 16) :: u64) = e + 16" by (rule unat_of_nat64)
    have ne: "(c, of_nat (e + 16)) \<noteq> p" using ue u B(7,9) by (auto simp: e_def)
    let ?b = "b'\<lparr>ctx_bytes := bytes_copy (ctx_bytes b) (e + 16) a n\<rparr>"
    have eq: "ctx_bytes_update (\<lambda>f. bytes_copy f (e + 16) a n) b' = ?b" using al(3) by (cases b') simp
    have "bump_context_realloc h c' (Some p) sz =
        Some (h(c \<mapsto> ctx_bytes_update (\<lambda>f. bytes_copy f (e + 16) a n) b'), Some (c, of_nat (e + 16)))"
      using B(1-3) R(1,5) gt A(1,2) al(1,3) ne ue u B(5) by (simp add: step)
    note re = this[unfolded eq]
    have "bump_rep c ?b (bs @ [(e + 16, k)])" using al(2) by (simp add: bump_rep_def)
    with re show ?thesis by (intro exI[of _ ?b]) simp
  qed
  show "bump_context_realloc h c' (Some p) sz = Some (h, None)"
    if A: "n < k" "last bs \<noteq> (a, n)" "\<not> e + 16 + k \<le> unat (ctx_size b)"
  proof -
    have "bump_context_alloc h c (align_max sz) = Some (h, None)"
      using bump_alloc_ok(2)[where h = h, OF b r2] A(3) unfolding k' e_def by blast
    then show ?thesis using B(1-3) R(1,5) gt A(1,2) by (simp add: step)
  qed
  let ?b = "b\<lparr>ctx_current := of_nat (a - 16)\<rparr>" and ?h = "h(c \<mapsto> b\<lparr>ctx_current := of_nat (a - 16)\<rparr>)"
  have at: "a - 16 + 16 = a" using B(8) by simp
  have h: "?h c = Some ?b" by simp
  show "\<exists>b'. bump_context_realloc h c' (Some p) sz = Some (h(c \<mapsto> b'), Some p) \<and> bump_rep c b' (butlast bs @ [(a, k)]) \<and>
        ctx_bytes b' = ctx_bytes b"
    if A: "n < k" "last bs = (a, n)" "a + k \<le> unat (ctx_size b)"
  proof -
    note rw = bump_rep_rewind[OF b(2) m A(2)]
    from bump_alloc_ok(1)[where h = ?h, OF h rw(1) r2] obtain b' where al:
      "bump_context_alloc ?h c (align_max sz) = Some (?h(c \<mapsto> b'), Some (c, of_nat a))"
      "bump_rep c b' (butlast bs @ [(a, k)])" "ctx_bytes b' = ctx_bytes b"
      unfolding k' using A(3) rw(2) at by auto
    have "bump_context_realloc h c' (Some p) sz = Some (h(c \<mapsto> b'), Some p)"
      using B(1-3,6) R(1,5) gt A(1,2) al(1) by (simp add: step p_def)
    then show ?thesis using al(2,3) by blast
  qed
  show "bump_context_realloc h c' (Some p) sz = Some (?h, None)"
    if A: "n < k" "last bs = (a, n)" "\<not> a + k \<le> unat (ctx_size b)"
  proof -
    note rw = bump_rep_rewind[OF b(2) m A(2)]
    have "bump_context_alloc ?h c (align_max sz) = Some (?h, None)"
      using bump_alloc_ok(2)[where h = ?h, OF h rw(1) r2] A(3) rw(2) at unfolding k' by simp
    then show ?thesis using B(1-3,6) R(1,5) gt A(1,2) by (simp add: step)
  qed
qed

section \<open>The contract of an allocator\<close>

fun alloc_all :: "('s \<Rightarrow> u64 \<Rightarrow> ('s \<times> nat option) option) \<Rightarrow> 's \<Rightarrow> u64 list \<Rightarrow> ('s \<times> nat option list) option" where
  "alloc_all alloc s [] = Some (s, [])"
| "alloc_all alloc s (sz # szs) = Option.bind (alloc s sz) (\<lambda>(s', r).
     map_option (\<lambda>(s'', rs). (s'', r # rs)) (alloc_all alloc s' szs))"

text \<open>Blocks handed out for requests: each served request has one that is large enough.\<close>

definition served :: "u64 list \<Rightarrow> nat option list \<Rightarrow> (nat \<times> nat) list \<Rightarrow> bool" where
  "served szs rs bs \<longleftrightarrow> length rs = length szs \<and> map fst bs = map the (filter (\<lambda>r. r \<noteq> None) rs) \<and>
     (\<forall>i < length szs. \<forall>a. rs ! i = Some a \<longrightarrow> (\<exists>n \<ge> unat (szs ! i). (a, n) \<in> set bs))"

definition blocks_apart :: "nat \<Rightarrow> (nat \<times> nat) list \<Rightarrow> bool" where
  "blocks_apart m bs \<longleftrightarrow> (\<forall>(a, n) \<in> set bs. 0 < n \<and> a + n \<le> m \<and> 16 dvd a) \<and>
     (\<forall>(a, n) \<in> set bs. \<forall>(a', n') \<in> set bs. (a, n) = (a', n') \<or> a + n \<le> a' \<or> a' + n' \<le> a)"

text \<open>
  Where the blocks go: one behind the other from \<open>e\<close>, each behind a header of \<open>hdr\<close> bytes and
  rounded up to 16; a request that does not fit behind the last block gets none.
\<close>

fun placed :: "nat \<Rightarrow> nat \<Rightarrow> nat \<Rightarrow> nat list \<Rightarrow> nat option list" where
  "placed hdr m e [] = []"
| "placed hdr m e (n # ns) = (if e + hdr + round16 n \<le> m then Some (e + hdr) # placed hdr m (e + hdr + round16 n) ns
     else None # placed hdr m e ns)"

definition granted :: "u64 list \<Rightarrow> nat option list \<Rightarrow> u64 list" where
  "granted szs rs = map fst (filter (\<lambda>(sz, r). r \<noteq> None) (zip szs rs))"

lemma granted_simps [simp]: "granted [] [] = []" "granted (sz # szs) (Some a # rs) = sz # granted szs rs"
  "granted (sz # szs) (None # rs) = granted szs rs"
  by (simp_all add: granted_def)

locale allocator =
  fixes inv :: "'s \<Rightarrow> (nat \<times> nat) list \<Rightarrow> bool" and cap :: "'s \<Rightarrow> nat" and used :: "'s \<Rightarrow> nat" and hdr :: nat
    and alloc :: "'s \<Rightarrow> u64 \<Rightarrow> ('s \<times> nat option) option"
  assumes block: "inv s bs \<Longrightarrow> (a, n) \<in> set bs \<Longrightarrow> 0 < n \<and> a + n \<le> cap s \<and> 16 dvd a"
    and apart: "inv s bs \<Longrightarrow> (a, n) \<in> set bs \<Longrightarrow> (a', n') \<in> set bs \<Longrightarrow> (a, n) = (a', n') \<or> a + n \<le> a' \<or> a' + n' \<le> a"
    and fits: "inv s bs \<Longrightarrow> request_ok sz \<Longrightarrow> used s + hdr + round16 (unat sz) \<le> cap s \<Longrightarrow>
      \<exists>s'. alloc s sz = Some (s', Some (used s + hdr)) \<and> inv s' (bs @ [(used s + hdr, round16 (unat sz))]) \<and> cap s' = cap s \<and>
        used s' = used s + hdr + round16 (unat sz)"
    and full: "inv s bs \<Longrightarrow> request_ok sz \<Longrightarrow> cap s < used s + hdr + round16 (unat sz) \<Longrightarrow> alloc s sz = Some (s, None)"
begin

lemma blocks: "inv s bs \<Longrightarrow> blocks_apart (cap s) bs"
  unfolding blocks_apart_def using block apart by fast

lemma alloc_all_ok:
  "inv s bs \<Longrightarrow> \<forall>sz \<in> set szs. request_ok sz \<Longrightarrow>
    \<exists>s' rs bs'. alloc_all alloc s szs = Some (s', rs) \<and> inv s' (bs @ bs') \<and> cap s' = cap s \<and> served szs rs bs' \<and>
      rs = placed hdr (cap s) (used s) (map unat szs) \<and> alloc_all alloc s (granted szs rs) = Some (s', filter (\<lambda>r. r \<noteq> None) rs)"
proof (induction szs arbitrary: s bs)
  case Nil
  then show ?case by (auto simp: served_def)
next
  case (Cons sz szs)
  have r: "request_ok sz" "\<forall>sz \<in> set szs. request_ok sz" using Cons.prems(2) by simp_all
  let ?n = "round16 (unat sz)" and ?a = "used s + hdr"
  show ?case
  proof (cases "?a + ?n \<le> cap s")
    case False
    then have f: "alloc s sz = Some (s, None)" using full[OF Cons.prems(1) r(1)] by simp
    obtain s' rs bs' where i: "alloc_all alloc s szs = Some (s', rs)" "inv s' (bs @ bs')" "cap s' = cap s" "served szs rs bs'"
      "rs = placed hdr (cap s) (used s) (map unat szs)" "alloc_all alloc s (granted szs rs) = Some (s', filter (\<lambda>r. r \<noteq> None) rs)"
      using Cons.IH[OF Cons.prems(1) r(2)] by blast
    then have "served (sz # szs) (None # rs) bs'" by (auto simp: served_def nth_Cons split: nat.splits)
    then show ?thesis using f i False by (intro exI[of _ s'] exI[of _ "None # rs"] exI[of _ bs']) simp
  next
    case True
    obtain s1 where g: "alloc s sz = Some (s1, Some ?a)" "inv s1 (bs @ [(?a, ?n)])" "cap s1 = cap s" "used s1 = ?a + ?n"
      using fits[OF Cons.prems(1) r(1) True] by blast
    obtain s' rs bs' where i: "alloc_all alloc s1 szs = Some (s', rs)" "inv s' ((bs @ [(?a, ?n)]) @ bs')" "cap s' = cap s1" "served szs rs bs'"
      "rs = placed hdr (cap s1) (used s1) (map unat szs)" "alloc_all alloc s1 (granted szs rs) = Some (s', filter (\<lambda>r. r \<noteq> None) rs)"
      using Cons.IH[OF g(2) r(2)] by blast
    then have "served (sz # szs) (Some ?a # rs) ((?a, ?n) # bs')" using round16_props(1)[of "unat sz"]
      by (auto simp: served_def nth_Cons split: nat.splits)
    then show ?thesis using g i True by (intro exI[of _ s'] exI[of _ "Some ?a # rs"] exI[of _ "(?a, ?n) # bs'"]) simp
  qed
qed

end

definition bump_inv :: "cid \<Rightarrow> heap \<Rightarrow> (nat \<times> nat) list \<Rightarrow> bool" where
  "bump_inv c h bs \<longleftrightarrow> (\<exists>b. h c = Some b \<and> ctx_vt b = Bump_vt \<and> bump_rep c b bs)"

definition linear_rep :: "bump_context \<Rightarrow> (nat \<times> nat) list \<Rightarrow> bool" where
  "linear_rep b bs \<longleftrightarrow> ctx_magic b = memory_magic \<and> ctx_current b \<le> ctx_size b \<and>
     tiles 0 112 bs (unat (ctx_current b))"

definition linear_inv :: "cid \<Rightarrow> heap \<Rightarrow> (nat \<times> nat) list \<Rightarrow> bool" where
  "linear_inv c h bs \<longleftrightarrow> (\<exists>b. h c = Some b \<and> ctx_vt b = Linear_vt \<and> linear_rep b bs)"

definition context_cap :: "cid \<Rightarrow> heap \<Rightarrow> nat" where
  "context_cap c h = (case h c of None \<Rightarrow> 0 | Some b \<Rightarrow> unat (ctx_size b))"

definition context_used :: "cid \<Rightarrow> heap \<Rightarrow> nat" where
  "context_used c h = (case h c of None \<Rightarrow> 0 | Some b \<Rightarrow> unat (ctx_current b))"

definition context_alloc_at :: "cid \<Rightarrow> heap \<Rightarrow> u64 \<Rightarrow> (heap \<times> nat option) option" where
  "context_alloc_at c h sz = map_option (\<lambda>(h', r). (h', map_option (\<lambda>p. unat (snd p)) r)) (context_alloc h c sz)"

interpretation bump_allocator: allocator "bump_inv c" "context_cap c" "context_used c" 16 "context_alloc_at c" for c
proof
  fix h bs a n
  assume i: "bump_inv c h bs" and m: "(a, n) \<in> set bs"
  then obtain b where b: "h c = Some b" "bump_rep c b bs" by (auto simp: bump_inv_def)
  note B = bump_repD[OF b(2)]
  have "unat (ctx_current b) \<le> unat (ctx_size b)" using B(2) by (simp add: word_le_nat_alt)
  moreover have "16 dvd a" using tiles_aligned[OF B(3)] m by fastforce
  ultimately show "0 < n \<and> a + n \<le> context_cap c h \<and> 16 dvd a"
    using tiles_mem[OF B(3) m] b(1) by (simp add: context_cap_def)
  fix a' n' assume "(a', n') \<in> set bs"
  from tiles_disjoint[OF B(3) m this] show "(a, n) = (a', n') \<or> a + n \<le> a' \<or> a' + n' \<le> a" by linarith
next
  fix h bs sz assume i: "bump_inv c h bs" and r: "request_ok sz"
  then obtain b where b: "h c = Some b" "bump_rep c b bs" "ctx_vt b = Bump_vt" by (auto simp: bump_inv_def)
  let ?e = "unat (ctx_current b)" and ?n = "round16 (unat sz)"
  have u: "context_used c h = ?e" "context_cap c h = unat (ctx_size b)" using b(1) by (simp_all add: context_used_def context_cap_def)
  { assume "context_used c h + 16 + ?n \<le> context_cap c h"
    then have True: "?e + 16 + ?n \<le> unat (ctx_size b)" by (simp add: u)
    from bump_alloc_ok(1)[where h = h, OF b(1,2) r True] obtain b' where
      b': "bump_context_alloc h c sz = Some (h(c \<mapsto> b'), Some (c, of_nat (?e + 16)))"
      "bump_rep c b' (bs @ [(?e + 16, ?n)])" "ctx_size b' = ctx_size b" "ctx_vt b' = ctx_vt b" by blast
    have "?e + 16 < 2 ^ 64" using True unsigned_less[of "ctx_size b", where 'a = nat] by simp
    then have a: "context_alloc_at c h sz = Some (h(c \<mapsto> b'), Some (?e + 16))"
      using b'(1) b(1,3) unat_of_nat64[of "?e + 16"] by (simp add: context_alloc_at_def context_alloc_def)
    have "unat (ctx_current b') = ?e + 16 + ?n" using bump_repD(3)[OF b'(2)] by (auto simp: tiles_snoc)
    then show "\<exists>h'. context_alloc_at c h sz = Some (h', Some (context_used c h + 16)) \<and>
        bump_inv c h' (bs @ [(context_used c h + 16, ?n)]) \<and> context_cap c h' = context_cap c h \<and>
        context_used c h' = context_used c h + 16 + ?n"
      using a b' b u by (auto simp: bump_inv_def context_cap_def context_used_def) }
  { assume "context_cap c h < context_used c h + 16 + ?n"
    then show "context_alloc_at c h sz = Some (h, None)" using bump_alloc_ok(2)[where h = h, OF b(1,2) r] b(1,3)
      by (simp add: context_alloc_at_def context_alloc_def u) }
qed

lemma linear_alloc_ok:
  assumes b: "h c = Some b" "linear_rep b bs" and r: "request_ok sz"
  defines "e \<equiv> unat (ctx_current b)" and "n \<equiv> round16 (unat sz)"
  shows "e + n \<le> unat (ctx_size b) \<Longrightarrow> \<exists>b'. linear_context_alloc h c sz = Some (h(c \<mapsto> b'), Some (c, ctx_current b)) \<and>
      linear_rep b' (bs @ [(e, n)]) \<and> ctx_bytes b' = ctx_bytes b \<and> ctx_size b' = ctx_size b \<and> ctx_vt b' = ctx_vt b"
    and "\<not> e + n \<le> unat (ctx_size b) \<Longrightarrow> linear_context_alloc h c sz = Some (h, None)"
proof -
  note R = request_okD[OF r, folded n_def]
  have B: "ctx_magic b = memory_magic" "ctx_current b \<le> ctx_size b" "tiles 0 112 bs e"
    using b(2) by (simp_all add: linear_rep_def e_def)
  have le: "e \<le> unat (ctx_size b)" using B(2) by (simp add: e_def word_le_nat_alt)
  have nofit: "ctx_size b - ctx_current b < align_max sz \<longleftrightarrow> \<not> e + n \<le> unat (ctx_size b)"
    using B(2) le R(2) by (auto simp: word_less_nat_alt unat_sub e_def)
  show "linear_context_alloc h c sz = Some (h, None)" if "\<not> e + n \<le> unat (ctx_size b)"
    using that b(1) R(1) B(1) nofit by (simp add: linear_context_alloc_def)
  assume fit: "e + n \<le> unat (ctx_size b)"
  let ?b = "b\<lparr>ctx_current := ctx_current b + align_max sz\<rparr>"
  have "e + n < 2 ^ 64" using fit unsigned_less[of "ctx_size b", where 'a = nat] by simp
  then have cur: "unat (ctx_current ?b) = e + n" using R(2) by (simp add: unat_word_ariths(1) e_def)
  have "0 < n" "16 dvd n" using round16_props(3,4)[of "unat sz"] r by (simp_all add: n_def request_ok_def)
  then have "linear_rep ?b (bs @ [(e, n)])"
    using B fit cur by (auto simp: linear_rep_def tiles_snoc word_le_nat_alt)
  then show "\<exists>b'. linear_context_alloc h c sz = Some (h(c \<mapsto> b'), Some (c, ctx_current b)) \<and>
      linear_rep b' (bs @ [(e, n)]) \<and> ctx_bytes b' = ctx_bytes b \<and> ctx_size b' = ctx_size b \<and> ctx_vt b' = ctx_vt b"
    using b(1) R(1) B(1) nofit fit by (intro exI[of _ ?b]) (simp add: linear_context_alloc_def)
qed

interpretation linear_allocator: allocator "linear_inv c" "context_cap c" "context_used c" 0 "context_alloc_at c" for c
proof
  fix h bs a n
  assume i: "linear_inv c h bs" and m: "(a, n) \<in> set bs"
  then obtain b where b: "h c = Some b" "linear_rep b bs" by (auto simp: linear_inv_def)
  then have t: "tiles 0 112 bs (unat (ctx_current b))" "unat (ctx_current b) \<le> unat (ctx_size b)"
    by (simp_all add: linear_rep_def word_le_nat_alt)
  have "16 dvd a" using tiles_aligned[OF t(1)] m by fastforce
  then show "0 < n \<and> a + n \<le> context_cap c h \<and> 16 dvd a"
    using tiles_mem[OF t(1) m] t(2) b(1) by (simp add: context_cap_def)
  fix a' n' assume "(a', n') \<in> set bs"
  from tiles_disjoint[OF t(1) m this] show "(a, n) = (a', n') \<or> a + n \<le> a' \<or> a' + n' \<le> a" by linarith
next
  fix h bs sz assume i: "linear_inv c h bs" and r: "request_ok sz"
  then obtain b where b: "h c = Some b" "linear_rep b bs" "ctx_vt b = Linear_vt" by (auto simp: linear_inv_def)
  let ?e = "unat (ctx_current b)" and ?n = "round16 (unat sz)"
  have u: "context_used c h = ?e" "context_cap c h = unat (ctx_size b)" using b(1) by (simp_all add: context_used_def context_cap_def)
  { assume "context_used c h + 0 + ?n \<le> context_cap c h"
    then have True: "?e + ?n \<le> unat (ctx_size b)" by (simp add: u)
    from linear_alloc_ok(1)[where h = h and c = c, OF b(1,2) r True] obtain b' where
      b': "linear_context_alloc h c sz = Some (h(c \<mapsto> b'), Some (c, ctx_current b))"
      "linear_rep b' (bs @ [(?e, ?n)])" "ctx_size b' = ctx_size b" "ctx_vt b' = ctx_vt b" by blast
    have a: "context_alloc_at c h sz = Some (h(c \<mapsto> b'), Some ?e)"
      using b'(1) b(1,3) by (simp add: context_alloc_at_def context_alloc_def)
    have "unat (ctx_current b') = ?e + ?n" using b'(2) by (auto simp: linear_rep_def tiles_snoc)
    then show "\<exists>h'. context_alloc_at c h sz = Some (h', Some (context_used c h + 0)) \<and>
        linear_inv c h' (bs @ [(context_used c h + 0, ?n)]) \<and> context_cap c h' = context_cap c h \<and>
        context_used c h' = context_used c h + 0 + ?n"
      using a b' b u by (auto simp: linear_inv_def context_cap_def context_used_def) }
  { assume "context_cap c h < context_used c h + 0 + ?n"
    then show "context_alloc_at c h sz = Some (h, None)" using linear_alloc_ok(2)[where h = h and c = c, OF b(1,2) r] b(1,3)
      by (simp add: context_alloc_at_def context_alloc_def u) }
qed

section \<open>Dropping a tree of contexts\<close>

declare context_drop_from.simps [code]

text \<open>\<open>ctx_tree h p c S\<close>: the contexts reachable from \<open>c\<close>, whose parent is \<open>p\<close>, are \<open>S\<close>.\<close>

inductive ctx_tree :: "heap \<Rightarrow> cid option \<Rightarrow> cid \<Rightarrow> cid set \<Rightarrow> bool"
  and ctx_forest :: "heap \<Rightarrow> cid \<Rightarrow> cid option list \<Rightarrow> cid set \<Rightarrow> bool" for h :: heap where
  tree: "h c = Some b \<Longrightarrow> ctx_magic b = memory_magic \<Longrightarrow> ctx_parent b = p \<Longrightarrow>
    length (ctx_children b) = CONTEXT_MAX_CHILDREN \<Longrightarrow> ctx_forest h c (ctx_children b) S \<Longrightarrow> c \<notin> S \<Longrightarrow>
    ctx_tree h p c (insert c S)"
| forest_nil: "ctx_forest h c [] {}"
| forest_none: "ctx_forest h c cs S \<Longrightarrow> ctx_forest h c (None # cs) S"
| forest_some: "ctx_tree h (Some c) d T \<Longrightarrow> ctx_forest h c cs S \<Longrightarrow> T \<inter> S = {} \<Longrightarrow>
    ctx_forest h c (Some d # cs) (T \<union> S)"

definition unmap :: "heap \<Rightarrow> cid set \<Rightarrow> heap" where
  "unmap h S = (\<lambda>x. if x \<in> S then None else h x)"

definition erase_slot :: "cid \<Rightarrow> cid option list \<Rightarrow> cid option list" where
  "erase_slot c cs = (case find_slot (Some c) cs of None \<Rightarrow> cs | Some i \<Rightarrow> cs[i := None])"

definition unlink_parent :: "cid option \<Rightarrow> cid \<Rightarrow> heap \<Rightarrow> heap" where
  "unlink_parent p c h = (case p of None \<Rightarrow> h | Some q \<Rightarrow> h(q := map_option (ctx_children_update (erase_slot c)) (h q)))"

lemma erase_child_eq:
  assumes "h q = Some b"
  shows "map_option fst (bump_context_erase_child h q c) = Some (unlink_parent (Some q) c h)"
proof (cases "find_slot (Some c) (ctx_children b)")
  case None
  then have "ctx_children_update (erase_slot c) b = b" by (cases b) (simp add: erase_slot_def)
  then show ?thesis using assms None by (simp add: bump_context_erase_child_def unlink_parent_def fun_upd_idem)
next
  case (Some i)
  then have "ctx_children_update (erase_slot c) b = b\<lparr>ctx_children := (ctx_children b)[i := None]\<rparr>"
    by (cases b) (simp add: erase_slot_def)
  then show ?thesis using assms Some by (simp add: bump_context_erase_child_def unlink_parent_def)
qed

lemma erase_slot_prefix: "erase_slot c (replicate i None @ Some c # cs) = replicate i None @ None # cs"
proof -
  have "find_slot (Some c) (replicate i None @ Some c # cs) = Some i" by (induction i) auto
  then show ?thesis by (simp add: erase_slot_def list_update_append)
qed

lemma drop_step_none:
  "h c = Some b \<Longrightarrow> i < CONTEXT_MAX_CHILDREN \<Longrightarrow> ctx_children b ! i = None \<Longrightarrow>
    context_drop_from h c i = context_drop_from h c (Suc i)"
  by (subst context_drop_from.simps) simp

lemma drop_step_some:
  "h c = Some b \<Longrightarrow> i < CONTEXT_MAX_CHILDREN \<Longrightarrow> ctx_children b ! i = Some d \<Longrightarrow> h d = Some b' \<Longrightarrow>
    ctx_magic b' = memory_magic \<Longrightarrow>
    context_drop_from h c i = Option.bind (context_drop_from h d 0) (\<lambda>h'. context_drop_from h' c (Suc i))"
  by (subst context_drop_from.simps) simp

lemma drop_end:
  assumes "h c = Some b" "\<And>q. ctx_parent b = Some q \<Longrightarrow> h q \<noteq> None"
  shows "context_drop_from h c CONTEXT_MAX_CHILDREN = Some ((unlink_parent (ctx_parent b) c h)(c := None))"
proof (cases "ctx_parent b")
  case None
  then show ?thesis using assms(1) by (subst context_drop_from.simps) (simp add: unlink_parent_def)
next
  case (Some q)
  then obtain bq where "h q = Some bq" using assms(2) by blast
  then show ?thesis using assms(1) Some erase_child_eq[of h q bq c] by (subst context_drop_from.simps) auto
qed

lemma ctx_tree_root: "ctx_tree h p c T \<Longrightarrow> c \<in> T \<and> (\<exists>b. h c = Some b \<and> ctx_magic b = memory_magic \<and> ctx_parent b = p)"
  by (erule ctx_tree.cases) auto

text \<open>
  The state after the first \<open>i\<close> children are gone: their slots are empty, the rest
  is untouched. The loop from there leaves all slots empty and frees the forest.
\<close>

lemma drop_tree_forest:
  "ctx_tree h p c T \<Longrightarrow>
    (\<forall>g. (\<forall>x \<in> T. g x = h x) \<longrightarrow> (\<forall>q. p = Some q \<longrightarrow> q \<notin> T \<and> g q \<noteq> None) \<longrightarrow>
      context_drop_from g c 0 = Some (unlink_parent p c (unmap g T)))"
  "ctx_forest h c cs S \<Longrightarrow>
    (\<forall>g i b. (\<forall>x \<in> S. g x = h x) \<longrightarrow> c \<notin> S \<longrightarrow> g c = Some b \<longrightarrow> ctx_children b = replicate i None @ cs \<longrightarrow>
      i + length cs = CONTEXT_MAX_CHILDREN \<longrightarrow>
      context_drop_from g c i = context_drop_from
        ((unmap g S)(c \<mapsto> b\<lparr>ctx_children := replicate CONTEXT_MAX_CHILDREN None\<rparr>)) c CONTEXT_MAX_CHILDREN)"
proof (induction rule: ctx_tree_ctx_forest.inducts)
  case (tree c b p S)
  show ?case
  proof (intro allI impI)
    fix g assume g: "\<forall>x \<in> insert c S. g x = h x" and q: "\<forall>q. p = Some q \<longrightarrow> q \<notin> insert c S \<and> g q \<noteq> None"
    let ?b = "b\<lparr>ctx_children := replicate CONTEXT_MAX_CHILDREN None\<rparr>"
    let ?g = "(unmap g S)(c \<mapsto> ?b)"
    have gc: "g c = Some b" "ctx_children b = replicate 0 None @ ctx_children b" "c \<notin> S" "ctx_parent b = p"
      "0 + length (ctx_children b) = CONTEXT_MAX_CHILDREN" using g tree by simp_all
    have "context_drop_from g c 0 = context_drop_from ?g c CONTEXT_MAX_CHILDREN"
      by (rule tree.IH[rule_format]) (use gc g in auto)
    also have "\<dots> = Some ((unlink_parent (ctx_parent ?b) c ?g)(c := None))"
      by (rule drop_end) (use q gc(4) in \<open>auto simp: unmap_def\<close>)
    also have "(unlink_parent (ctx_parent ?b) c ?g)(c := None) = unlink_parent p c (unmap g (insert c S))"
      using q gc(4) by (auto simp: unlink_parent_def unmap_def fun_eq_iff split: option.splits)
    finally show "context_drop_from g c 0 = Some (unlink_parent p c (unmap g (insert c S)))" .
  qed
next
  case (forest_nil c)
  show ?case
  proof (intro allI impI)
    fix g :: heap and i b assume b: "g c = Some b" "ctx_children b = replicate i None @ []" "i + length ([] :: cid option list) = CONTEXT_MAX_CHILDREN"
    then have "b\<lparr>ctx_children := replicate CONTEXT_MAX_CHILDREN None\<rparr> = b" by (cases b) simp
    then have "(unmap g {})(c \<mapsto> b\<lparr>ctx_children := replicate CONTEXT_MAX_CHILDREN None\<rparr>) = g"
      using b(1) by (auto simp: unmap_def)
    then show "context_drop_from g c i = context_drop_from
        ((unmap g {})(c \<mapsto> b\<lparr>ctx_children := replicate CONTEXT_MAX_CHILDREN None\<rparr>)) c CONTEXT_MAX_CHILDREN"
      using b(3) by simp
  qed
next
  case (forest_none c cs S)
  show ?case
  proof (intro allI impI)
    fix g :: heap and i b assume g: "\<forall>x \<in> S. g x = h x" "c \<notin> S" "g c = Some b" "ctx_children b = replicate i None @ None # cs"
      "i + length (None # cs) = CONTEXT_MAX_CHILDREN"
    have "context_drop_from g c i = context_drop_from g c (Suc i)"
      by (rule drop_step_none[where h = g, OF g(3)]) (use g(4,5) in \<open>simp_all add: nth_append\<close>)
    also have "\<dots> = context_drop_from
        ((unmap g S)(c \<mapsto> b\<lparr>ctx_children := replicate CONTEXT_MAX_CHILDREN None\<rparr>)) c CONTEXT_MAX_CHILDREN"
      by (rule forest_none.IH[rule_format]) (use g in \<open>auto simp: replicate_app_Cons_same\<close>)
    finally show "context_drop_from g c i = context_drop_from
        ((unmap g S)(c \<mapsto> b\<lparr>ctx_children := replicate CONTEXT_MAX_CHILDREN None\<rparr>)) c CONTEXT_MAX_CHILDREN" .
  qed
next
  case (forest_some c d T cs S)
  show ?case
  proof (intro allI impI)
    fix g :: heap and i b assume g: "\<forall>x \<in> T \<union> S. g x = h x" "c \<notin> T \<union> S" "g c = Some b"
      "ctx_children b = replicate i None @ Some d # cs" "i + length (Some d # cs) = CONTEXT_MAX_CHILDREN"
    obtain bd where bd: "d \<in> T" "h d = Some bd" "ctx_magic bd = memory_magic" using ctx_tree_root forest_some by blast
    let ?b = "b\<lparr>ctx_children := replicate (Suc i) None @ cs\<rparr>"
    let ?g = "(unmap g T)(c \<mapsto> ?b)"
    have "ctx_children_update (erase_slot d) b = ?b" using g(4)
      by (cases b) (simp add: erase_slot_prefix replicate_app_Cons_same)
    then have "unlink_parent (Some c) d (unmap g T) = ?g" using g(2,3) by (simp add: unlink_parent_def unmap_def)
    moreover have "context_drop_from g d 0 = Some (unlink_parent (Some c) d (unmap g T))"
      by (rule forest_some.IH(2)[rule_format]) (use g(1-3) in auto)
    moreover have "context_drop_from g c i = Option.bind (context_drop_from g d 0) (\<lambda>h'. context_drop_from h' c (Suc i))"
      by (rule drop_step_some[where h = g, OF g(3)]) (use g bd in \<open>simp_all add: nth_append\<close>)
    ultimately have "context_drop_from g c i = context_drop_from ?g c (Suc i)" by simp
    also have "\<dots> = context_drop_from
        ((unmap ?g S)(c \<mapsto> ?b\<lparr>ctx_children := replicate CONTEXT_MAX_CHILDREN None\<rparr>)) c CONTEXT_MAX_CHILDREN"
      by (rule forest_some.IH(4)[rule_format])
        (use g \<open>T \<inter> S = {}\<close> in \<open>auto simp: unmap_def\<close>)
    also have "(unmap ?g S)(c \<mapsto> ?b\<lparr>ctx_children := replicate CONTEXT_MAX_CHILDREN None\<rparr>) =
        (unmap g (T \<union> S))(c \<mapsto> b\<lparr>ctx_children := replicate CONTEXT_MAX_CHILDREN None\<rparr>)"
      by (auto simp: unmap_def fun_eq_iff)
    finally show "context_drop_from g c i = context_drop_from
        ((unmap g (T \<union> S))(c \<mapsto> b\<lparr>ctx_children := replicate CONTEXT_MAX_CHILDREN None\<rparr>)) c CONTEXT_MAX_CHILDREN" .
  qed
qed

lemma bump_context_drop_ok:
  assumes "ctx_tree h p c T" "\<And>q. p = Some q \<Longrightarrow> q \<notin> T \<and> h q \<noteq> None"
  shows "bump_context_drop h (Some c) = Some (unlink_parent p c (unmap h T))"
  using drop_tree_forest(1)[OF assms(1), rule_format, of h] ctx_tree_root[OF assms(1)] assms(2)
  by (auto simp: bump_context_drop_def)

end
