(* ===== verification/Scr_Memory_Laws.thy ===== *)
theory Scr_Memory_Laws
  imports Scr_Memory
begin

text \<open>What the memory contexts promise their users.\<close>

section \<open>Reading through pointers\<close>

lemma heap_read_cong:
  "(\<And>i. unat (snd p) \<le> i \<Longrightarrow> i < unat (snd p) + n \<Longrightarrow> ctx_bytes b' i = ctx_bytes b i) \<Longrightarrow> h (fst p) = Some b \<Longrightarrow>
    h' (fst p) = Some b' \<Longrightarrow> heap_read h' p n = heap_read h p n"
  by (simp add: heap_read_def)

lemma heap_read_copied:
  assumes "h c = Some b" "h' c = Some b'" "ctx_bytes b' = bytes_copy (ctx_bytes b) (unat q) (unat p) n"
  shows "heap_read h' (c, q) n = heap_read h (c, p) n"
  using assms by (auto simp: heap_read_def bytes_copy_def intro!: nth_equalityI)

lemma bump_rep_unat:
  assumes "bump_rep c b bs" "(a, n) \<in> set bs"
  shows "unat (of_nat a :: u64) = a" "a + n \<le> unat (ctx_current b)"
proof -
  show an: "a + n \<le> unat (ctx_current b)" using tiles_mem[OF bump_repD(3)[OF assms(1)] assms(2)] by simp
  then show "unat (of_nat a :: u64) = a"
    using unsigned_less[of "ctx_current b", where 'a = nat] unat_of_nat64[of a] by simp
qed

lemma context_created:
  assumes "112 \<le> unat sz"
  shows "\<exists>h'. bump_context_create h (Some c) sz = (h', Some c) \<and> bump_inv c h' [] \<and> context_cap c h' = unat sz \<and>
      context_used c h' = 112"
    "\<exists>h'. linear_context_create h (Some c) sz = (h', Some c) \<and> linear_inv c h' [] \<and> context_cap c h' = unat sz \<and>
      context_used c h' = 112"
proof -
  have "sz \<noteq> 0" "context_start \<le> sz" using assms context_start_unat by (auto simp: word_le_nat_alt)
  then show "\<exists>h'. bump_context_create h (Some c) sz = (h', Some c) \<and> bump_inv c h' [] \<and> context_cap c h' = unat sz \<and>
      context_used c h' = 112"
    "\<exists>h'. linear_context_create h (Some c) sz = (h', Some c) \<and> linear_inv c h' [] \<and> context_cap c h' = unat sz \<and>
      context_used c h' = 112"
    by (simp_all add: bump_context_create_def linear_context_create_def context_create_def bump_inv_def
      linear_inv_def context_cap_def context_used_def bump_rep_def linear_rep_def context_start_unat)
qed

lemma context_push_pop:
  assumes "context_stack_i m < CONTEXT_STACK_MAX" "length (context_stack m) = CONTEXT_STACK_MAX"
  obtains m' where "context_push m c = Some m'" "g_context m' = c"
    "\<exists>m''. context_pop m' = Some m'' \<and> g_context m'' = g_context m \<and> context_stack_i m'' = context_stack_i m \<and> m_heap m'' = m_heap m"
  using assms by (simp add: context_push_def context_pop_def)

lemma heap_write_eq:
  "h c = Some b \<Longrightarrow> unat q = a \<Longrightarrow> heap_write h (c, q) bs = Some (h(c \<mapsto> b\<lparr>ctx_bytes := \<lambda>i.
     if a \<le> i \<and> i < a + length bs then bs ! (i - a) else ctx_bytes b i\<rparr>))"
  by (simp add: heap_write_def cong: if_cong)

section \<open>Properties\<close>

text \<open>
  C34: From a fresh bump or linear context of at least its own header's 112 bytes, any
  sequence of requests, each for at least one byte and of a size that does not wrap around
  when it is rounded up and given a header, returns 16-aligned blocks inside the context that
  never overlap, each at least as large as requested. A request gets NULL exactly when its
  size rounded up to 16, with the 16 bytes of a bump header, does not fit behind the last
  block, otherwise its block starts right there; a refused request changes nothing, so that
  the context ends as if only the granted requests had been made.
\<close>

theorem context_alloc_disjoint:
  fixes hdr :: nat
  assumes "112 \<le> unat sz" "\<forall>r \<in> set szs. request_ok r"
    "create = bump_context_create \<and> hdr = 16 \<or> create = linear_context_create \<and> hdr = 0"
  shows "\<exists>h1 h2 rs bs. create h (Some c) sz = (h1, Some c) \<and>
    alloc_all (context_alloc_at c) h1 szs = Some (h2, rs) \<and> served szs rs bs \<and> blocks_apart (unat sz) bs \<and>
    rs = placed hdr (unat sz) 112 (map unat szs) \<and>
    alloc_all (context_alloc_at c) h1 (granted szs rs) = Some (h2, filter (\<lambda>r. r \<noteq> None) rs)"
  using assms(3)
proof
  assume cr: "create = bump_context_create \<and> hdr = 16"
  obtain h1 where h1: "bump_context_create h (Some c) sz = (h1, Some c)" "bump_inv c h1 []" "context_cap c h1 = unat sz"
    "context_used c h1 = 112" using context_created(1)[OF assms(1)] by blast
  from bump_allocator.alloc_all_ok[OF h1(2) assms(2), unfolded h1(3,4)] obtain h2 rs bs where
    r: "alloc_all (context_alloc_at c) h1 szs = Some (h2, rs)" "bump_inv c h2 bs" "context_cap c h2 = unat sz" "served szs rs bs"
      "rs = placed 16 (unat sz) 112 (map unat szs)"
      "alloc_all (context_alloc_at c) h1 (granted szs rs) = Some (h2, filter (\<lambda>r. r \<noteq> None) rs)" by auto
  show ?thesis using cr h1(1) r(1,4-6) bump_allocator.blocks[OF r(2), unfolded r(3)] by blast
next
  assume cr: "create = linear_context_create \<and> hdr = 0"
  obtain h1 where h1: "linear_context_create h (Some c) sz = (h1, Some c)" "linear_inv c h1 []" "context_cap c h1 = unat sz"
    "context_used c h1 = 112" using context_created(2)[OF assms(1)] by blast
  from linear_allocator.alloc_all_ok[OF h1(2) assms(2), unfolded h1(3,4)] obtain h2 rs bs where
    r: "alloc_all (context_alloc_at c) h1 szs = Some (h2, rs)" "linear_inv c h2 bs" "context_cap c h2 = unat sz" "served szs rs bs"
      "rs = placed 0 (unat sz) 112 (map unat szs)"
      "alloc_all (context_alloc_at c) h1 (granted szs rs) = Some (h2, filter (\<lambda>r. r \<noteq> None) rs)" by auto
  show ?thesis using cr h1(1) r(1,4-6) linear_allocator.blocks[OF r(2), unfolded r(3)] by blast
qed

theorem context_alloc_disjoint_witness:
  "\<exists>h1 h2 rs bs. bump_context_create (\<lambda>_. None) (Some 7) 4096 = (h1, Some 7) \<and>
    alloc_all (context_alloc_at 7) h1 [10, 5000, 100] = Some (h2, rs) \<and> served [10, 5000, 100] rs bs \<and> blocks_apart (unat (4096 :: u64)) bs \<and>
    rs = placed 16 (unat (4096 :: u64)) 112 (map unat [10, 5000, 100 :: u64]) \<and>
    alloc_all (context_alloc_at 7) h1 (granted [10, 5000, 100] rs) = Some (h2, filter (\<lambda>r. r \<noteq> None) rs)"
  by (rule context_alloc_disjoint[where create = bump_context_create and hdr = 16]) (simp_all add: request_ok_def)

lemma placed_example: "placed (16 :: nat) 4096 112 [10, 5000, 100 :: nat] = [Some 128, None, Some 160]"
  by (simp add: round16_def)

text \<open>
  Reallocating a live block returns a block of at least the requested and the old size
  with the old contents, in place or moved, and leaves every other block and its bytes alone;
  when it fails, a block that was the last one is lost, any other stays.
\<close>

lemma bump_realloc_keeps:
  assumes "h c = Some b" "bump_rep c b bs" "(a, n) \<in> set bs" "request_ok sz"
  defines "p \<equiv> (c, of_nat a :: u64)"
  shows "\<exists>h' r b' bs'. bump_context_realloc h c' (Some p) sz = Some (h', r) \<and> h' = h(c := Some b') \<and> bump_rep c b' bs' \<and>
    set bs - {(a, n)} \<subseteq> set bs' \<and> (\<forall>(a2, n2) \<in> set bs - {(a, n)}. heap_read h' (c, of_nat a2) n2 = heap_read h (c, of_nat a2) n2) \<and>
    (case r of Some q \<Rightarrow> fst q = c \<and> (\<exists>k. unat sz \<le> k \<and> n \<le> k \<and> (unat (snd q), k) \<in> set bs') \<and> heap_read h' q n = heap_read h p n
     | None \<Rightarrow> n < unat sz + 15 \<and> (if last bs = (a, n) then bs' = butlast bs else h' = h))"
proof -
  let ?k = "round16 (unat sz)" and ?e = "unat (ctx_current b)"
  note R = bump_realloc_ok[where h = h and c' = c', OF assms(1-4), folded p_def]
  note u = bump_rep_unat[OF assms(2,3)]
  have k: "unat sz \<le> ?k" "?k \<le> unat sz + 15" by (rule round16_props)+
  have bl: "last bs = (a, n) \<Longrightarrow> set (butlast bs) = set bs - {(a, n)}"
  proof -
    assume l: "last bs = (a, n)"
    have "distinct bs" using tiles_distinct[OF bump_repD(3)[OF assms(2)]] by (simp add: distinct_map)
    moreover have "bs = butlast bs @ [(a, n)]" using assms(3) l by (metis append_butlast_last_id empty_iff list.set(1))
    ultimately show ?thesis by (metis Diff_insert_absorb distinct.simps(2) distinct1_rotate empty_set list.simps(15)
      rotate1.simps(2) set_rotate1 insert_Diff_single)
  qed
  have hid: "h = h(c := Some b)" using assms(1) by auto
  consider "?k \<le> n" | "n < ?k" "last bs = (a, n)" "a + ?k \<le> unat (ctx_size b)"
    | "n < ?k" "last bs = (a, n)" "\<not> a + ?k \<le> unat (ctx_size b)"
    | "n < ?k" "last bs \<noteq> (a, n)" "?e + 16 + ?k \<le> unat (ctx_size b)"
    | "n < ?k" "last bs \<noteq> (a, n)" "\<not> ?e + 16 + ?k \<le> unat (ctx_size b)" by linarith
  then show ?thesis
  proof cases
    case 1
    then have "\<exists>k. unat sz \<le> k \<and> n \<le> k \<and> (unat (snd p), k) \<in> set bs" using assms(3) k u(1)
      by (intro exI[of _ n]) (simp add: p_def)
    then show ?thesis using R(1)[OF 1] hid assms(2)
      by (intro exI[of _ h] exI[of _ "Some p"] exI[of _ b] exI[of _ bs]) (simp add: p_def)
  next
    case 2
    from R(2)[OF this] obtain b' where b': "bump_context_realloc h c' (Some p) sz = Some (h(c \<mapsto> b'), Some p)"
      "bump_rep c b' (butlast bs @ [(a, ?k)])" "ctx_bytes b' = ctx_bytes b" by blast
    then show ?thesis using bl[OF 2(2)] k u 2(1) assms(1)
      by (intro exI[of _ "h(c \<mapsto> b')"] exI[of _ "Some p"] exI[of _ b'] exI[of _ "butlast bs @ [(a, ?k)]"])
        (auto simp: p_def heap_read_def)
  next
    case 3
    then show ?thesis using R(3)[OF 3] bump_rep_rewind(1)[OF assms(2,3)] bl k assms(1)
      by (intro exI[of _ "h(c \<mapsto> b\<lparr>ctx_current := of_nat (a - 16)\<rparr>)"] exI[of _ None]
        exI[of _ "b\<lparr>ctx_current := of_nat (a - 16)\<rparr>"] exI[of _ "butlast bs"]) (auto simp: heap_read_def)
  next
    case 4
    from R(4)[OF this] obtain b' where b': "bump_context_realloc h c' (Some p) sz = Some (h(c \<mapsto> b'), Some (c, of_nat (?e + 16)))"
      "bump_rep c b' (bs @ [(?e + 16, ?k)])" "ctx_bytes b' = bytes_copy (ctx_bytes b) (?e + 16) a n" by blast
    have ue: "unat (of_nat (?e + 16) :: u64) = ?e + 16" using bump_rep_unat(1)[OF b'(2), of "?e + 16" ?k] by simp
    have "heap_read (h(c \<mapsto> b')) (c, of_nat a2) n2 = heap_read h (c, of_nat a2) n2" if m: "(a2, n2) \<in> set bs" for a2 n2
      using bump_rep_unat[OF assms(2) m] b'(3) assms(1) by (auto simp: heap_read_def bytes_copy_def)
    moreover have "heap_read (h(c \<mapsto> b')) (c, of_nat (?e + 16)) n = heap_read h p n"
      unfolding p_def by (rule heap_read_copied[where b = b and b' = b']) (use assms(1) b'(3) ue u in simp_all)
    ultimately show ?thesis using b' k ue 4(1)
      by (intro exI[of _ "h(c \<mapsto> b')"] exI[of _ "Some (c, of_nat (?e + 16))"] exI[of _ b'] exI[of _ "bs @ [(?e + 16, ?k)]"])
        auto
  next
    case 5
    then show ?thesis using R(5)[OF 5] hid assms(2) k
      by (intro exI[of _ h] exI[of _ None] exI[of _ b] exI[of _ bs]) auto
  qed
qed

lemma bump_realloc_keeps_example:
  "\<exists>h b h' r b' bs'. h 7 = Some b \<and> bump_rep 7 b [(128, 16)] \<and> bump_context_realloc h 7 (Some (7, 128)) 40 = Some (h', r) \<and>
    bump_rep 7 b' bs' \<and> (\<forall>q. r = Some q \<longrightarrow> heap_read h' q 16 = heap_read h (7, 128) 16)"
proof -
  obtain h0 b0 where c: "bump_context_create (\<lambda>_. None) (Some 7) 4096 = (h0, Some 7)" "h0 7 = Some b0" "bump_rep 7 b0 []"
    "ctx_size b0 = 4096" "ctx_current b0 = context_start"
    by (simp add: bump_context_create_def context_create_def bump_rep_def context_start_unat context_start_def
      align_max_def align_up_def MAX_ALIGN_def)
  have cur: "unat (ctx_current b0) = 112" using c(5) context_start_unat by simp
  have r: "request_ok 10" by (simp add: request_ok_def)
  have "round16 (unat (10 :: u64)) = 16" by (simp add: round16_def)
  then obtain b where b: "bump_rep 7 b [(128, 16)]"
    using bump_alloc_ok(1)[where h = h0, OF c(2,3) r] cur c(4) by auto
  let ?h = "(\<lambda>_. None)(7 \<mapsto> b) :: heap"
  have A: "?h 7 = Some b" "(128, 16) \<in> set [(128, 16 :: nat)]" by simp_all
  have q: "request_ok 40" by (simp add: request_ok_def)
  from bump_realloc_keeps[where h = ?h and c' = 7, OF A(1) b A(2) q] show ?thesis
  proof (elim exE conjE, goal_cases)
    case (1 h' r b' bs')
    then show ?case using b by (intro exI[of _ ?h] exI[of _ b] exI[of _ h'] exI[of _ r] exI[of _ b'] exI[of _ bs'])
      (auto split: option.splits)
  qed
qed

text \<open>
  Freeing the block allocated last restores the context as it was before the allocation,
  and freeing any earlier block is accepted and changes nothing.
\<close>

lemma bump_free_undoes_alloc:
  assumes "h c = Some b" "bump_rep c b bs" "request_ok sz" "bump_context_alloc h c sz = Some (h1, Some p)"
  shows "\<exists>h2 b2. bump_context_free h1 (Some p) = Some h2 \<and> h2 c = Some b2 \<and> bump_rep c b2 bs \<and>
      ctx_current b2 = ctx_current b \<and> ctx_bytes b2 = ctx_bytes b \<and>
      (\<forall>(a, n) \<in> set bs. bump_context_free h1 (Some (c, of_nat a)) = Some h1)"
proof -
  let ?e = "unat (ctx_current b)" and ?n = "round16 (unat sz)"
  have "?e + 16 + ?n \<le> unat (ctx_size b)"
    using bump_alloc_ok(2)[where h = h, OF assms(1-3)] assms(4) by (cases "?e + 16 + ?n \<le> unat (ctx_size b)") auto
  from bump_alloc_ok(1)[where h = h, OF assms(1-3) this] assms(4) obtain b1 where b1: "h1 = h(c \<mapsto> b1)"
    "p = (c, of_nat (?e + 16))" "bump_rep c b1 (bs @ [(?e + 16, ?n)])" "ctx_bytes b1 = ctx_bytes b" by auto
  have h1: "h1 c = Some b1" using b1(1) by simp
  have m: "(?e + 16, ?n) \<in> set (bs @ [(?e + 16, ?n)])" by simp
  note f = bump_free_ok(1)[where h = h1, OF h1 b1(3) m]
  let ?b2 = "b1\<lparr>ctx_current := of_nat (?e + 16 - 16)\<rparr>"
  have "bump_rep c ?b2 bs" using bump_rep_rewind(1)[OF b1(3) m] by simp
  moreover have "ctx_current ?b2 = ctx_current b" by simp
  moreover have "bump_context_free h1 (Some (c, of_nat a)) = Some h1" if an: "(a, n) \<in> set bs" for a n
  proof -
    have "a + n \<le> ?e" using bump_rep_unat(2)[OF assms(2) an] .
    then have "(?e + 16, ?n) \<noteq> (a, n)" by auto
    then show ?thesis using bump_free_ok(2)[where h = h1, OF h1 b1(3), of a n] an by simp
  qed
  ultimately show ?thesis using f b1(2,4)
    by (intro exI[of _ "h1(c \<mapsto> ?b2)"] exI[of _ ?b2]) auto
qed

lemma bump_free_undoes_alloc_example:
  "\<exists>b h1 p h2 b2. bump_context_alloc ((\<lambda>_. None)(3 \<mapsto> b)) 3 100 = Some (h1, Some p) \<and>
    bump_context_free h1 (Some p) = Some h2 \<and> h2 3 = Some b2 \<and> ctx_current b2 = ctx_current b"
proof -
  obtain h0 b where b: "h0 3 = Some b" "bump_rep 3 b []" "ctx_size b = 4096" "unat (ctx_current b) = 112"
    using context_start_unat by (auto simp: bump_rep_def intro!: that[of "(\<lambda>_. None)(3 \<mapsto> \<lparr>ctx_vt = Bump_vt,
      ctx_magic = memory_magic, ctx_size = 4096, ctx_current = context_start, ctx_parent = None, ctx_children = [],
      ctx_headers = (\<lambda>_. None), ctx_bytes = (\<lambda>_. 0)\<rparr>)"] simp: word_le_nat_alt)
  let ?h = "(\<lambda>_. None)(3 \<mapsto> b) :: heap"
  have h: "?h 3 = Some b" by simp
  have r: "request_ok 100" by (simp add: request_ok_def)
  have "round16 (unat (100 :: u64)) = 112" by (simp add: round16_def)
  then obtain b' where al: "bump_context_alloc ?h 3 100 = Some (?h(3 \<mapsto> b'), Some (3, of_nat (112 + 16)))"
    using bump_alloc_ok(1)[where h = ?h, OF h b(2) r] b(3,4) by auto
  from bump_free_undoes_alloc[where h = ?h, OF h b(2) r al] show ?thesis using al by blast
qed

text \<open>
  C35: Dropping a context that heads a tree of contexts terminates, unmaps exactly the
  contexts of the tree once each and clears its slot in its parent; memory_destroy of the root
  leaves no context of the tree mapped.
\<close>

theorem context_drop_unmaps_tree:
  assumes "ctx_tree (m_heap m) p c T" "p = None \<or> (\<exists>q. p = Some q \<and> q \<notin> T \<and> m_heap m q \<noteq> None)"
  shows "bump_context_drop (m_heap m) (Some c) = Some (unlink_parent p c (unmap (m_heap m) T)) \<and>
    (p = None \<and> g_root_context m = Some c \<longrightarrow>
      memory_destroy m = Some (m\<lparr>m_heap := unmap (m_heap m) T, g_root_context := None, g_context := None\<rparr>))"
proof -
  have "bump_context_drop (m_heap m) (Some c) = Some (unlink_parent p c (unmap (m_heap m) T))"
    by (rule bump_context_drop_ok[OF assms(1)]) (use assms(2) in auto)
  then show ?thesis by (auto simp: memory_destroy_def unlink_parent_def)
qed

theorem context_drop_unmaps_tree_witness:
  "\<exists>h. bump_context_add_child (fst (bump_context_create (fst (bump_context_create (\<lambda>_. None) (Some 1) 4096)) (Some 2) 4096)) 1 2 =
      Some (h, Some 2) \<and> bump_context_drop h (Some 1) = Some (\<lambda>_. None)"
proof -
  let ?b = "\<lparr>ctx_vt = Bump_vt, ctx_magic = memory_magic, ctx_size = 4096, ctx_current = context_start,
      ctx_parent = None, ctx_children = replicate 8 None, ctx_headers = (\<lambda>_. None), ctx_bytes = (\<lambda>_. 0)\<rparr>"
  let ?h = "(\<lambda>_. None)(1 \<mapsto> ?b\<lparr>ctx_children := Some 2 # replicate 7 None\<rparr>, 2 \<mapsto> ?b\<lparr>ctx_parent := Some 1\<rparr>) :: heap"
  have r8: "replicate 8 None = None # replicate 7 (None :: cid option)" by (simp add: numeral_eq_Suc)
  have add: "bump_context_add_child (fst (bump_context_create (fst (bump_context_create (\<lambda>_. None) (Some 1) 4096)) (Some 2) 4096)) 1 2 =
      Some (?h, Some 2)"
    by (simp add: bump_context_add_child_def bump_context_create_def context_create_def CONTEXT_MAX_CHILDREN_def
      bump_context_set_parent_def r8 fun_upd_twist)
  have nones: "ctx_forest ?h d (replicate k None) {}" for d k
    by (induction k) (auto intro: forest_nil forest_none)
  have "ctx_tree ?h (Some 1) 2 (insert 2 {})"
    by (rule tree[where b = "?b\<lparr>ctx_parent := Some 1\<rparr>"]) (use nones in \<open>simp_all add: CONTEXT_MAX_CHILDREN_def\<close>)
  then have "ctx_forest ?h 1 (Some 2 # replicate 7 None) (insert 2 {} \<union> {})" by (rule forest_some) (use nones in simp_all)
  then have t: "ctx_tree ?h None 1 (insert 1 (insert 2 {} \<union> {}))"
    by (intro tree[where b = "?b\<lparr>ctx_children := Some 2 # replicate 7 None\<rparr>"]) (simp_all add: CONTEXT_MAX_CHILDREN_def)
  let ?m = "\<lparr>m_heap = ?h, g_root_context = Some 1, g_context = Some 1, context_stack = [], context_stack_i = 0\<rparr>"
  have "bump_context_drop (m_heap ?m) (Some 1) = Some (unlink_parent None 1 (unmap (m_heap ?m) (insert 1 (insert 2 {} \<union> {}))))"
    using context_drop_unmaps_tree[where m = ?m and p = None and c = 1] t by simp
  then show ?thesis using add by (intro exI[of _ ?h]) (auto simp: unlink_parent_def unmap_def fun_eq_iff)
qed

text \<open>
  A bump context created with fewer bytes than its own header is not refused: the free
  space wraps around, so an allocation of almost any size succeeds at an offset past the end
  of the context.
\<close>

lemma small_context_overruns:
  assumes "0 < unat sz" "unat sz < 112" "request_ok r" "unat r < 2 ^ 60"
  shows "\<exists>h1 h2 p. bump_context_create h (Some c) sz = (h1, Some c) \<and> bump_context_alloc h1 c r = Some (h2, Some p) \<and>
    unat (snd p) = 128 \<and> context_cap c h1 < unat (snd p)"
proof -
  note R = request_okD[OF assms(3)]
  have ne: "sz \<noteq> 0" using assms(1) by auto
  have cs: "context_start = 112" using context_start_unat by (simp add: word_unat_eq_iff)
  have "unat (sz - 112) = 2 ^ 64 + unat sz - 112"
  proof -
    have "sz < 112" using assms(2) by (simp add: word_less_nat_alt)
    then show ?thesis using assms by (simp add: unat_sub_if_size word_size word_le_nat_alt)
  qed
  moreover have "round16 (unat r) \<le> unat r + 15" by (rule round16_props)
  ultimately have "\<not> sz - 112 < align_max r + BUMP_HEADER_SZ"
    using R(4) assms(4) by (simp add: word_less_nat_alt)
  then show ?thesis using R(1,5) ne assms(2)
    by (simp add: bump_context_create_def context_create_def bump_context_alloc_def cs Let_def context_cap_def BUMP_HEADER_SZ_def)
qed

lemma small_context_overruns_example:
  "\<exists>h1 h2 p. bump_context_create (\<lambda>_. None) (Some 5) 64 = (h1, Some 5) \<and>
    bump_context_alloc h1 5 100000 = Some (h2, Some p) \<and> unat (snd p) = 128 \<and> context_cap 5 h1 < unat (snd p)"
  by (rule small_context_overruns) (simp_all add: request_ok_def)

text \<open>
  sdup copies the string and its terminating zero into a new block of the current context
  without touching other blocks, and dereferences NULL exactly when the block does not fit.
\<close>

lemma sdup_copies:
  assumes "g_context m = Some c" "m_heap m c = Some b" "ctx_vt b = Bump_vt" "bump_rep c b bs"
    and "length src + 32 < 2 ^ 64"
  defines "fits \<equiv> unat (ctx_current b) + 16 + round16 (length src + 1) \<le> unat (ctx_size b)"
  shows "if fits then \<exists>m' p b'. sdup m src = Some (m', p) \<and> heap_read (m_heap m') p (length src + 1) = Some (src @ [0]) \<and>
      m_heap m' = (m_heap m)(c \<mapsto> b') \<and> bump_rep c b' (bs @ [(unat (snd p), round16 (length src + 1))]) \<and>
      (\<forall>(a, n) \<in> set bs. heap_read (m_heap m') (c, of_nat a) n = heap_read (m_heap m) (c, of_nat a) n)
    else sdup m src = None"
proof -
  let ?e = "unat (ctx_current b)" and ?sz = "of_nat (length src) + 1 :: u64" and ?k = "round16 (length src + 1)"
  have usz: "unat ?sz = length src + 1"
    using assms(5) unat_of_nat64[of "length src + 1"] by (simp add: add.commute)
  have r: "request_ok ?sz" using usz assms(5) by (simp add: request_ok_def)
  note A = bump_alloc_ok[where h = "m_heap m", OF assms(2,4) r, unfolded usz]
  show ?thesis
  proof (cases fits)
    case False
    then show ?thesis using A(2) assms(1-3)
      by (simp add: fits_def sdup_def salloc_def context_alloc_def)
  next
    case True
    from A(1)[OF True[unfolded fits_def]] obtain b1 where b1: "bump_context_alloc (m_heap m) c ?sz =
        Some ((m_heap m)(c \<mapsto> b1), Some (c, of_nat (?e + 16)))" "bump_rep c b1 (bs @ [(?e + 16, ?k)])"
      "ctx_bytes b1 = ctx_bytes b" by blast
    have u: "unat (of_nat (?e + 16) :: u64) = ?e + 16" using bump_rep_unat(1)[OF b1(2), of "?e + 16" ?k] by simp
    let ?f = "\<lambda>i. if ?e + 16 \<le> i \<and> i < ?e + 16 + length (src @ [0]) then (src @ [0]) ! (i - (?e + 16)) else ctx_bytes b1 i"
    let ?b = "b1\<lparr>ctx_bytes := ?f\<rparr>" and ?m = "m\<lparr>m_heap := (m_heap m)(c \<mapsto> b1\<lparr>ctx_bytes := ?f\<rparr>)\<rparr>"
    have w: "heap_write ((m_heap m)(c \<mapsto> b1)) (c, of_nat (?e + 16)) (src @ [0]) = Some ((m_heap m)(c \<mapsto> ?b))"
      using heap_write_eq[where h = "(m_heap m)(c \<mapsto> b1)" and c = c and bs = "src @ [0]", OF _ u] by simp
    have s: "sdup m src = Some (?m, (c, of_nat (?e + 16)))"
      using w b1(1) assms(1-3) by (simp add: sdup_def salloc_def context_alloc_def)
    have rd: "heap_read (m_heap ?m) (c, of_nat (?e + 16)) (length src + 1) = Some (src @ [0])"
      using u by (auto simp: heap_read_def nth_append intro!: nth_equalityI)
    have rep: "bump_rep c ?b (bs @ [(?e + 16, ?k)])" using b1(2) by (simp add: bump_rep_def)
    have "heap_read (m_heap ?m) (c, of_nat a) n = heap_read (m_heap m) (c, of_nat a) n" if an: "(a, n) \<in> set bs" for a n
      using bump_rep_unat[OF assms(4) an] assms(2) b1(3) by (auto simp: heap_read_def)
    then show ?thesis using True s rd rep u
      by (intro if_P[THEN iffD2, rotated] exI[of _ ?m] exI[of _ "(c, of_nat (?e + 16))"] exI[of _ ?b]) auto
  qed
qed

lemma sdup_copies_example:
  "\<exists>b m m' p. g_context m = Some 3 \<and> m_heap m 3 = Some b \<and> sdup m [104, 105] = Some (m', p) \<and>
    heap_read (m_heap m') p 3 = Some [104, 105, 0]"
proof -
  obtain b where b: "bump_rep 3 b []" "ctx_vt b = Bump_vt" "ctx_size b = 4096" "unat (ctx_current b) = 112"
    using context_start_unat by (auto simp: bump_rep_def intro!: that[of "\<lparr>ctx_vt = Bump_vt,
      ctx_magic = memory_magic, ctx_size = 4096, ctx_current = context_start, ctx_parent = None, ctx_children = [],
      ctx_headers = (\<lambda>_. None), ctx_bytes = (\<lambda>_. 0)\<rparr>"] simp: word_le_nat_alt)
  let ?m = "\<lparr>m_heap = (\<lambda>_. None)(3 \<mapsto> b), g_root_context = Some 3, g_context = Some 3, context_stack = [], context_stack_i = 0\<rparr>"
  have m: "g_context ?m = Some 3" "m_heap ?m 3 = Some b" by simp_all
  have "length [104, 105 :: u8] + 32 < 2 ^ 64" by simp
  note S = sdup_copies[OF m b(2,1) this]
  have "round16 3 = 16" by (simp add: round16_def)
  then obtain m' p where "sdup ?m [104, 105] = Some (m', p)" "heap_read (m_heap m') p 3 = Some [104, 105, 0]"
    using S b(3,4) by (auto simp: numeral_3_eq_3)
  then show ?thesis using m by blast
qed

end
