(* ===== verification/Scr_Grid.thy ===== *)
theory Scr_Grid
  imports Scr_Type_Order Scr_Align Scr_Gid
begin

text \<open>
  \<^verbatim>\<open>lib/core/src/grid.h\<close> and \<^verbatim>\<open>grid.c\<close>: a page of equal rows.
  A header grid holds a Column in each row, a data grid the bytes of a row; both are grids
  over the type \<open>'r\<close> of their rows. All slots of the page are in \<open>g_rows\<close>, the
  first \<open>g_occupied\<close> of them in use. A failed assert, a NULL dereference and an access
  past the end of a row are \<open>None\<close>.
\<close>

section \<open>Data\<close>

datatype grid_layout = GL_FIXED
datatype grid_content = GC_PURE | GC_MVCC

type_synonym u16 = "16 word"

record 'r grid =
  g_size :: u16
  g_layout :: grid_layout
  g_content :: grid_content
  g_next :: gid
  g_rowsz :: u16
  g_rown :: u16
  g_occupied :: u16
  g_datasz :: u16
  g_rows :: "'r list"

text \<open>\<open>col_name\<close> are the NAMESZ bytes of the array.\<close>

record column =
  col_name :: "u8 list"
  col_offs :: u64
  col_type :: sql_type
  col_size :: u64

type_synonym hgrid = "column grid"
type_synonym dgrid = "u8 list grid"

definition GRID_SZ :: nat where "GRID_SZ = 24"
definition COLUMN_SZ :: u16 where "COLUMN_SZ = 40"
definition NAMESZ :: nat where "NAMESZ = 16"
definition GRID_INVALID_IDX :: u16 where "GRID_INVALID_IDX = - 1"

definition grid_idx_is_valid :: "u16 \<Rightarrow> bool" where
  "grid_idx_is_valid idx \<longleftrightarrow> idx \<noteq> GRID_INVALID_IDX"

definition zero_column :: column where
  "zero_column = \<lparr>col_name = replicate NAMESZ 0, col_offs = 0, col_type = T_UNKNOWN, col_size = 0\<rparr>"

section \<open>Grids\<close>

text \<open>\<open>zero\<close> is the row of zero bytes; the number of rows is computed as a size_t.\<close>

definition grid_init :: "(u16 \<Rightarrow> 'r) \<Rightarrow> u16 \<Rightarrow> grid_layout \<Rightarrow> grid_content \<Rightarrow> u16 \<Rightarrow> 'r grid option" where
  "grid_init zero pagesz layout content rowsz =
     (if rowsz = 0 then None
      else let rown = ucast ((ucast pagesz - of_nat GRID_SZ :: u64) div ucast rowsz) in
        Some \<lparr>g_size = pagesz, g_layout = layout, g_content = content, g_next = GID_UNDEF, g_rowsz = rowsz,
              g_rown = rown, g_occupied = 0, g_datasz = 0, g_rows = replicate (unat rown) (zero rowsz)\<rparr>)"

text \<open>The outer \<open>None\<close> is the assert, the inner one NULL.\<close>

definition grid_get_row :: "'r grid \<Rightarrow> u16 \<Rightarrow> nat option option" where
  "grid_get_row g n = (if n < g_rown g then Some (if n < g_occupied g then Some (unat n) else None) else None)"

definition grid_alloc_row :: "'r grid \<Rightarrow> 'r grid \<times> u16" where
  "grid_alloc_row g = (if g_occupied g < g_rown g
     then (g\<lparr>g_occupied := g_occupied g + 1\<rparr>, g_occupied g) else (g, GRID_INVALID_IDX))"

text \<open>
  The memmove moves the rows after \<open>row\<close> up by one; the source pointer may be NULL
  when there is none to move.
\<close>

definition grid_delete_row :: "'r grid \<Rightarrow> u16 \<Rightarrow> ('r grid \<times> u16) option" where
  "grid_delete_row g row = (if row < g_occupied g then
       Option.bind (grid_get_row g row) (\<lambda>dest. Option.bind (grid_get_row g (row + 1)) (\<lambda>src.
         let n = unat (g_occupied g) - unat row - 1; r = unat row; rs = g_rows g in
         Some (g\<lparr>g_rows := take r rs @ take n (drop (r + 1) rs) @ drop (r + n) rs,
                 g_occupied := g_occupied g - 1\<rparr>, g_occupied g - 1)))
     else Some (g, GRID_INVALID_IDX))"

section \<open>Header grids\<close>

definition hgrid_init :: "u16 \<Rightarrow> grid_layout \<Rightarrow> grid_content \<Rightarrow> hgrid option" where
  "hgrid_init pagesz layout content = grid_init (\<lambda>_. zero_column) pagesz layout content COLUMN_SZ"

text \<open>The column behind the pointer, which the callers dereference.\<close>

definition hgrid_get_column :: "hgrid \<Rightarrow> u16 \<Rightarrow> column option" where
  "hgrid_get_column g n = Option.bind (grid_get_row g n) (map_option (\<lambda>i. g_rows g ! i))"

text \<open>strncpy of NAMESZ - 1 bytes: the name up to its zero, then zeros; the last byte stays.\<close>

definition column_set_name :: "u8 list \<Rightarrow> u8 list \<Rightarrow> u8 list" where
  "column_set_name old name =
     take (NAMESZ - 1) (name @ replicate (NAMESZ - 1) 0) @ drop (NAMESZ - 1) old"

text \<open>The string in an array of bytes, up to its zero.\<close>

definition cstring :: "u8 list \<Rightarrow> u8 list" where
  "cstring bs = takeWhile (\<lambda>c. c \<noteq> 0) bs"

definition column_cursz :: "sql_type \<Rightarrow> u64 \<Rightarrow> u64" where
  "column_cursz type sz = (case st_size_meaning (g_types type) of
     SM_TYPESZ \<Rightarrow> of_nat (st_size (g_types type)) | SM_COLUMNSZ \<Rightarrow> sz)"

text \<open>The result is the index of the column the returned pointer is to.\<close>

definition hgrid_add_column :: "hgrid \<Rightarrow> u8 list \<Rightarrow> sql_type \<Rightarrow> u64 \<Rightarrow> (hgrid \<times> nat option) option" where
  "hgrid_add_column g name type sz = (let (g1, column_idx) = grid_alloc_row g in
     if \<not> grid_idx_is_valid column_idx then Some (g1, None)
     else Option.bind (grid_get_row g1 column_idx) (\<lambda>r. case r of None \<Rightarrow> Some (g1, None)
     | Some i \<Rightarrow>
       let hc = g_rows g1 ! i; cursz = column_cursz type sz;
           offs = align_up (ucast (g_datasz g1)) (ucast cursz) in
       Some (g1\<lparr>g_rows := (g_rows g1)[i := hc\<lparr>col_name := column_set_name (col_name hc) name,
                  col_type := type, col_size := sz, col_offs := offs\<rparr>],
                g_datasz := ucast (offs + cursz)\<rparr>, Some i)))"

definition hgrid_get_row_size :: "hgrid \<Rightarrow> u64" where
  "hgrid_get_row_size g = align_up (ucast (g_datasz g)) 4"

text \<open>The loop over the occupied columns.\<close>

fun find_column :: "column list \<Rightarrow> u8 list \<Rightarrow> nat \<Rightarrow> nat option" where
  "find_column [] name i = None"
| "find_column (c # cs) name i = (if cstring (col_name c) = name then Some i else find_column cs name (Suc i))"

definition hgrid_get_column_idx :: "hgrid \<Rightarrow> u8 list \<Rightarrow> u16" where
  "hgrid_get_column_idx g name = (case find_column (take (unat (g_occupied g)) (g_rows g)) name 0 of
     None \<Rightarrow> GRID_INVALID_IDX | Some i \<Rightarrow> of_nat i)"

section \<open>Data grids\<close>

definition dgrid_init :: "u16 \<Rightarrow> grid_layout \<Rightarrow> grid_content \<Rightarrow> hgrid \<Rightarrow> dgrid option" where
  "dgrid_init pagesz layout content h =
     grid_init (\<lambda>n. replicate (unat n) 0) pagesz layout content (ucast (hgrid_get_row_size h))"

text \<open>A cell is a row and an offset into it.\<close>

type_synonym cell = "nat \<times> nat"

definition grid_get_cell :: "hgrid \<Rightarrow> dgrid \<Rightarrow> u16 \<Rightarrow> u16 \<Rightarrow> cell option" where
  "grid_get_cell h g row column = Option.bind (grid_get_row g row) (\<lambda>r.
     Option.bind (hgrid_get_column h column) (\<lambda>hc.
       if column < g_occupied h then map_option (\<lambda>i. (i, unat (col_offs hc))) r else None))"

definition cell_read :: "dgrid \<Rightarrow> cell \<Rightarrow> nat \<Rightarrow> u8 list option" where
  "cell_read g c n = (if snd c + n \<le> length (g_rows g ! fst c) then Some (read_at (g_rows g ! fst c) (snd c) n) else None)"

definition cell_write :: "dgrid \<Rightarrow> cell \<Rightarrow> u8 list \<Rightarrow> dgrid option" where
  "cell_write g c bs = (if snd c + length bs \<le> length (g_rows g ! fst c)
     then Some (g\<lparr>g_rows := (g_rows g)[fst c := write_at (g_rows g ! fst c) (snd c) bs]\<rparr>) else None)"

text \<open>
  A character datum points into the row: its bytes are those from the cell on, its size is
  the column's.
\<close>

definition grid_get_datum :: "hgrid \<Rightarrow> dgrid \<Rightarrow> u16 \<Rightarrow> u16 \<Rightarrow> datum option" where
  "grid_get_datum h g row column = Option.bind (hgrid_get_column h column) (\<lambda>hc.
     Option.bind (grid_get_cell h g row column) (\<lambda>c.
       let ret = \<lparr>dt_type = col_type hc, dt_size = unat (col_size hc), dt_int = 0, dt_chars = None\<rparr> in
       case col_type hc of
         T_SMALLINT \<Rightarrow> map_option (\<lambda>bs. ret\<lparr>dt_int := ucast (get_smallint bs)\<rparr>) (cell_read g c 2)
       | T_INTEGER \<Rightarrow> map_option (\<lambda>bs. ret\<lparr>dt_int := ucast (get_integer bs)\<rparr>) (cell_read g c 4)
       | T_BIGINT \<Rightarrow> map_option (\<lambda>bs. ret\<lparr>dt_int := get_bigint bs\<rparr>) (cell_read g c 8)
       | T_CHAR \<Rightarrow> Some (ret\<lparr>dt_chars := Some (drop (snd c) (g_rows g ! fst c))\<rparr>)
       | T_VARCHAR \<Rightarrow> Some (ret\<lparr>dt_chars := Some (drop (snd c) (g_rows g ! fst c))\<rparr>)
       | _ \<Rightarrow> None))"

text \<open>The bytes stored for a datum, by the column's type; a VARCHAR column stores nothing.\<close>

definition datum_bytes :: "column \<Rightarrow> datum \<Rightarrow> u8 list option" where
  "datum_bytes hc d =
     (if dt_type d = col_type hc then
        (case col_type hc of
           T_SMALLINT \<Rightarrow> Some (put_smallint (dt_smallint d))
         | T_INTEGER \<Rightarrow> Some (put_integer (dt_integer d))
         | T_BIGINT \<Rightarrow> Some (put_bigint (dt_bigint d))
         | T_CHAR \<Rightarrow> map_option (\<lambda>cs. put_char cs (unat (col_size hc))) (dt_chars d)
         | T_VARCHAR \<Rightarrow> Some []
         | _ \<Rightarrow> None)
      else if get_type_group (dt_type d) = get_type_group (col_type hc) then
        (case get_type_group (col_type hc) of
           TG_INTEGER \<Rightarrow> (case col_type hc of
               T_SMALLINT \<Rightarrow> Some (put_smallint (ucast (dt_bigint d)))
             | T_INTEGER \<Rightarrow> Some (put_integer (ucast (dt_bigint d)))
             | T_BIGINT \<Rightarrow> Some (put_bigint (dt_bigint d))
             | _ \<Rightarrow> None)
         | TG_CHARACTER \<Rightarrow> (case col_type hc of
               T_CHAR \<Rightarrow> map_option (\<lambda>cs. put_char cs (unat (col_size hc))) (dt_chars d)
             | T_VARCHAR \<Rightarrow> Some []
             | _ \<Rightarrow> None)
         | _ \<Rightarrow> None)
      else None)"

definition grid_put_datum :: "hgrid \<Rightarrow> dgrid \<Rightarrow> u16 \<Rightarrow> u16 \<Rightarrow> datum \<Rightarrow> (dgrid \<times> int) option" where
  "grid_put_datum h g row column d = Option.bind (hgrid_get_column h column) (\<lambda>hc.
     Option.bind (grid_get_cell h g row column) (\<lambda>c.
       if dt_type d = T_UNKNOWN \<or> dt_type d = T_MAX then None
       else Option.bind (datum_bytes hc d) (\<lambda>bs. map_option (\<lambda>g'. (g', 0)) (cell_write g c bs))))"

end
