(* ===== verification/Scr_Grid_Laws.thy ===== *)
theory Scr_Grid_Laws
  imports Scr_Grid
begin

text \<open>
  What \<^verbatim>\<open>grid.c\<close> guarantees: the rows of a grid are a bounded list, they lie in
  the page, the columns of a header do not overlap, and a datum put into a cell is the one
  read back while every other cell keeps its bytes.
\<close>

section \<open>Rows\<close>

definition grid_inv :: "'r grid \<Rightarrow> bool" where
  "grid_inv g \<longleftrightarrow> length (g_rows g) = unat (g_rown g) \<and> g_occupied g \<le> g_rown g"

definition grid_list :: "'r grid \<Rightarrow> 'r list" where
  "grid_list g = take (unat (g_occupied g)) (g_rows g)"

lemma grid_invD:
  assumes "grid_inv g"
  shows "length (g_rows g) = unat (g_rown g)" "unat (g_occupied g) \<le> unat (g_rown g)"
    "length (grid_list g) = unat (g_occupied g)"
  using assms by (auto simp: grid_inv_def grid_list_def word_le_nat_alt)

lemma unat_u16_lt: "unat (w :: u16) < 65536"
  using unsigned_less[of w, where 'a = nat] by simp

lemma unat_succ_u16:
  assumes "(a :: u16) < b" shows "unat (a + 1) = unat a + 1"
proof -
  have "unat a < unat b" using assms by (simp add: word_less_nat_alt)
  then have "unat a + 1 < 65536" using unat_u16_lt[of b] by linarith
  then show ?thesis by (simp add: unat_word_ariths)
qed

lemma unat_pred_u16: "0 < unat (a :: u16) \<Longrightarrow> unat (a - 1) = unat a - 1"
  by (simp add: unat_sub word_le_nat_alt Suc_leI)

lemma of_nat_unat_u16: "(of_nat (unat (a :: u16)) :: u16) = a"
  by simp

lemma grid_alloc_row_list:
  assumes "grid_inv g"
  shows "grid_alloc_row g = (if length (grid_list g) < unat (g_rown g)
           then (g\<lparr>g_occupied := g_occupied g + 1\<rparr>, of_nat (length (grid_list g)))
           else (g, GRID_INVALID_IDX))"
  using grid_invD[OF assms] by (auto simp: grid_alloc_row_def word_less_nat_alt)

lemma grid_alloc_row_inv:
  assumes "grid_inv g" "g_occupied g < g_rown g"
  shows "grid_inv (g\<lparr>g_occupied := g_occupied g + 1\<rparr>)"
    and "grid_list (g\<lparr>g_occupied := g_occupied g + 1\<rparr>) = grid_list g @ [g_rows g ! length (grid_list g)]"
    and "grid_idx_is_valid (g_occupied g)"
proof -
  note d = grid_invD[OF assms(1)]
  have lt: "unat (g_occupied g) < unat (g_rown g)" using assms(2) by (simp add: word_less_nat_alt)
  note s = unat_succ_u16[OF assms(2)]
  show "grid_inv (g\<lparr>g_occupied := g_occupied g + 1\<rparr>)"
    using d(1) lt s by (simp add: grid_inv_def word_le_nat_alt)
  show "grid_list (g\<lparr>g_occupied := g_occupied g + 1\<rparr>) = grid_list g @ [g_rows g ! length (grid_list g)]"
    unfolding d(3) using d(1) lt s by (simp add: grid_list_def take_Suc_conv_app_nth)
  have "g_occupied g \<noteq> - 1"
  proof
    assume "g_occupied g = - 1"
    then have "unat (g_occupied g) = 65535" by (simp add: unsigned_minus_1_eq_mask mask_eq_exp_minus_1)
    then show False using lt unat_u16_lt[of "g_rown g"] by linarith
  qed
  then show "grid_idx_is_valid (g_occupied g)" by (simp add: grid_idx_is_valid_def GRID_INVALID_IDX_def)
qed

lemma grid_get_row_list:
  assumes "grid_inv g" "unat n < unat (g_rown g)"
  shows "grid_get_row g n = Some (if unat n < length (grid_list g) then Some (unat n) else None)"
  using assms(2) unfolding grid_invD(3)[OF assms(1)] by (simp add: grid_get_row_def word_less_nat_alt)

lemma grid_delete_row_list:
  assumes "grid_inv g" "unat row < length (grid_list g)" "unat row + 1 < unat (g_rown g)"
  shows "\<exists>g'. grid_delete_row g row = Some (g', of_nat (length (grid_list g) - 1)) \<and> grid_inv g' \<and>
    g_rown g' = g_rown g \<and> grid_list g' = take (unat row) (grid_list g) @ drop (unat row + 1) (grid_list g)"
proof -
  note d = grid_invD[OF assms(1)]
  have lt: "unat row < unat (g_occupied g)" using assms(2) d(3) by simp
  then have w: "row < g_occupied g" by (simp add: word_less_nat_alt)
  have s: "unat (row + 1) = unat row + 1" using unat_succ_u16[OF w] .
  let ?r = "unat row" and ?o = "unat (g_occupied g)" and ?rs = "g_rows g"
  let ?n = "?o - ?r - 1"
  let ?rows = "take ?r ?rs @ take ?n (drop (?r + 1) ?rs) @ drop (?r + ?n) ?rs"
  have p: "unat (g_occupied g - 1) = ?o - 1" using lt by (intro unat_pred_u16) linarith
  have "grid_get_row g row \<noteq> None" "grid_get_row g (row + 1) \<noteq> None"
    using assms(3) s by (simp_all add: grid_get_row_def word_less_nat_alt)
  then have eq: "grid_delete_row g row = Some (g\<lparr>g_rows := ?rows, g_occupied := g_occupied g - 1\<rparr>, g_occupied g - 1)"
    using w by (auto simp: grid_delete_row_def Let_def)
  have "grid_inv (g\<lparr>g_rows := ?rows, g_occupied := g_occupied g - 1\<rparr>)"
    unfolding grid_inv_def using d(1,2) lt by (simp add: word_le_nat_alt p)
  moreover have "take (?o - 1) ?rows = take ?r ?rs @ take ?n (drop (?r + 1) ?rs)"
    using lt d(1,2) by simp
  then have "grid_list (g\<lparr>g_rows := ?rows, g_occupied := g_occupied g - 1\<rparr>)
      = take ?r (grid_list g) @ drop (?r + 1) (grid_list g)"
    using lt by (simp add: grid_list_def p drop_take min_absorb1)
  moreover have "g_occupied g - 1 = of_nat (length (grid_list g) - 1)"
    unfolding d(3) p[symmetric] by simp
  ultimately show ?thesis using eq by (intro exI[of _ "g\<lparr>g_rows := ?rows, g_occupied := g_occupied g - 1\<rparr>"]) simp
qed

lemma grid_delete_row_error:
  assumes "grid_inv g"
  shows "\<not> unat row < length (grid_list g) \<Longrightarrow> grid_delete_row g row = Some (g, GRID_INVALID_IDX)"
    and "unat row < length (grid_list g) \<Longrightarrow> unat row + 1 = unat (g_rown g) \<Longrightarrow> grid_delete_row g row = None"
proof -
  note d = grid_invD[OF assms]
  show "\<not> unat row < length (grid_list g) \<Longrightarrow> grid_delete_row g row = Some (g, GRID_INVALID_IDX)"
    unfolding d(3) by (simp add: grid_delete_row_def word_less_nat_alt)
  assume "unat row < length (grid_list g)" and e: "unat row + 1 = unat (g_rown g)"
  then have w: "row < g_occupied g" unfolding d(3) by (simp add: word_less_nat_alt)
  then have "unat (row + 1) = unat (g_rown g)" using unat_succ_u16[OF w] e by simp
  then have "\<not> row + 1 < g_rown g" by (simp add: word_less_nat_alt)
  then show "grid_delete_row g row = None"
    using w by (auto simp: grid_delete_row_def grid_get_row_def)
qed

text \<open>
  C32: The rows of a grid are a bounded list: alloc appends the next slot or reports a full
  grid and changes nothing, delete removes the row and shifts the rest up, rejects a row that
  does not exist, and hits an assert exactly when it deletes the last slot of a full grid.
\<close>

theorem grid_rows_refine:
  assumes "grid_inv g"
  shows "(let (g', i) = grid_alloc_row g in
      if length (grid_list g) < unat (g_rown g)
      then grid_inv g' \<and> i = of_nat (length (grid_list g)) \<and> grid_idx_is_valid i \<and>
        grid_list g' = grid_list g @ [g_rows g ! length (grid_list g)]
      else g' = g \<and> i = GRID_INVALID_IDX) \<and>
    (if unat row < length (grid_list g)
      then if unat row + 1 = unat (g_rown g) then grid_delete_row g row = None
        else \<exists>g'. grid_delete_row g row = Some (g', of_nat (length (grid_list g) - 1)) \<and> grid_inv g' \<and>
          g_rown g' = g_rown g \<and>
          grid_list g' = take (unat row) (grid_list g) @ drop (unat row + 1) (grid_list g)
      else grid_delete_row g row = Some (g, GRID_INVALID_IDX)) \<and>
    grid_get_row g row = (if unat row < unat (g_rown g)
      then Some (if unat row < length (grid_list g) then Some (unat row) else None) else None)"
proof (intro conjI)
  note d = grid_invD[OF assms]
  show "(let (g', i) = grid_alloc_row g in
      if length (grid_list g) < unat (g_rown g)
      then grid_inv g' \<and> i = of_nat (length (grid_list g)) \<and> grid_idx_is_valid i \<and>
        grid_list g' = grid_list g @ [g_rows g ! length (grid_list g)]
      else g' = g \<and> i = GRID_INVALID_IDX)"
    using grid_alloc_row_inv[OF assms] d(3)
    by (simp add: grid_alloc_row_list[OF assms] word_less_nat_alt)
  show "(if unat row < length (grid_list g)
      then if unat row + 1 = unat (g_rown g) then grid_delete_row g row = None
        else \<exists>g'. grid_delete_row g row = Some (g', of_nat (length (grid_list g) - 1)) \<and> grid_inv g' \<and>
          g_rown g' = g_rown g \<and>
          grid_list g' = take (unat row) (grid_list g) @ drop (unat row + 1) (grid_list g)
      else grid_delete_row g row = Some (g, GRID_INVALID_IDX))"
    using grid_delete_row_list[OF assms] grid_delete_row_error[OF assms] d(2,3) by auto
  show "grid_get_row g row = (if unat row < unat (g_rown g)
      then Some (if unat row < length (grid_list g) then Some (unat row) else None) else None)"
    unfolding d(3) by (simp add: grid_get_row_def word_less_nat_alt)
qed

definition sample_grid :: "nat grid" where
  "sample_grid = \<lparr>g_size = 4096, g_layout = GL_FIXED, g_content = GC_PURE, g_next = 0, g_rowsz = 4, g_rown = 3,
     g_occupied = 2, g_datasz = 0, g_rows = [10, 20, 30]\<rparr>"

lemma grid_rows_refine_witness:
  "snd (grid_alloc_row sample_grid) = 2 \<and> map_option snd (grid_delete_row sample_grid 0) = Some 1"
proof -
  have i: "grid_inv sample_grid" by (simp add: grid_inv_def sample_grid_def)
  have l: "grid_list sample_grid = [10, 20]" "g_rown sample_grid = 3"
    by (simp_all add: grid_list_def sample_grid_def)
  show ?thesis
    using grid_rows_refine[OF i, of 0] l by (auto split: prod.splits)
qed

section \<open>Columns\<close>

text \<open>The bytes a column takes in a row, and where they end.\<close>

definition col_width :: "column \<Rightarrow> nat" where
  "col_width c = unat (column_cursz (col_type c) (col_size c))"

definition col_end :: "column \<Rightarrow> nat" where
  "col_end c = unat (col_offs c) + col_width c"

abbreviation cname :: "column \<Rightarrow> u8 list" where
  "cname c \<equiv> cstring (col_name c)"

abbreviation col_before :: "column \<Rightarrow> column \<Rightarrow> bool" where
  "col_before a b \<equiv> col_end a \<le> unat (col_offs b)"

definition name_ok :: "column \<Rightarrow> bool" where
  "name_ok c \<longleftrightarrow> length (col_name c) = NAMESZ \<and> last (col_name c) = 0"

definition hgrid_wf :: "hgrid \<Rightarrow> bool" where
  "hgrid_wf h \<longleftrightarrow> grid_inv h \<and> sorted_wrt col_before (grid_list h) \<and>
     (\<forall>c \<in> set (grid_list h). col_end c \<le> unat (g_datasz h)) \<and> (\<forall>c \<in> set (g_rows h). name_ok c)"

lemma name_ok_zero: "name_ok zero_column"
  by (simp add: name_ok_def zero_column_def NAMESZ_def)

lemma column_set_name_ok:
  assumes "name_ok c"
  shows "length (column_set_name (col_name c) n) = NAMESZ" "last (column_set_name (col_name c) n) = 0"
proof -
  have l: "length (col_name c) = 16" "last (col_name c) = 0"
    using assms by (auto simp: name_ok_def NAMESZ_def)
  then show "length (column_set_name (col_name c) n) = NAMESZ"
    by (simp add: column_set_name_def NAMESZ_def)
  have "drop 15 (col_name c) \<noteq> []" using l(1) by simp
  then show "last (column_set_name (col_name c) n) = 0"
    using l by (simp add: column_set_name_def NAMESZ_def last_append last_drop)
qed

lemma cstring_replicate: "0 \<notin> set xs \<Longrightarrow> cstring (xs @ replicate n 0 @ ys) = (if n = 0 then cstring (xs @ ys) else xs)"
  by (cases n) (auto simp: cstring_def takeWhile_append)

lemma column_set_name_cstring:
  assumes "name_ok c" "length n < NAMESZ" "0 \<notin> set n"
  shows "cstring (column_set_name (col_name c) n) = n"
proof -
  have l: "length (col_name c) = 16" "last (col_name c) = 0"
    using assms by (auto simp: name_ok_def NAMESZ_def)
  have "col_name c ! 15 = 0" using l last_conv_nth[of "col_name c"] by fastforce
  then have d: "drop 15 (col_name c) = replicate 1 0"
    using l Cons_nth_drop_Suc[of 15 "col_name c"] by simp
  have "take 15 (n @ replicate 15 0) = n @ replicate (15 - length n) 0"
    using assms(2) by (simp add: NAMESZ_def)
  moreover have "16 - length n = (15 - length n) + 1" using assms(2) by (simp add: NAMESZ_def)
  then have r: "replicate (16 - length n) (0 :: u8) = replicate (15 - length n) 0 @ replicate 1 0"
    by (simp only: replicate_add)
  ultimately have "column_set_name (col_name c) n = n @ replicate (16 - length n) 0 @ []"
    using d r by (simp add: column_set_name_def NAMESZ_def)
  then show ?thesis using cstring_replicate[OF assms(3), of "16 - length n" "[]"] assms(2) by (simp add: NAMESZ_def)
qed

lemma sint_ucast_cursz:
  assumes "unat (w :: u64) < 2 ^ 31"
  shows "sint (ucast w :: i32) = int (unat w)"
proof -
  have u: "unat (ucast w :: i32) = unat w"
    using assms by (simp add: unsigned_ucast_eq take_bit_nat_eq_self)
  have "sint (ucast w :: i32) = signed_take_bit 31 (uint (ucast w :: i32))"
    by (simp add: sint_uint)
  also have "\<dots> = signed_take_bit 31 (int (unat w))" using u by (metis uint_nat)
  also have "\<dots> = int (unat w)"
  proof (rule signed_take_bit_int_eq_self)
    show "- (2 ^ 31) \<le> int (unat w)" by (rule order_trans[of _ 0]) simp_all
    show "int (unat w) < 2 ^ 31" using assms by (metis of_nat_less_iff of_nat_numeral of_nat_power)
  qed
  finally show ?thesis .
qed

lemma align_up_cursz:
  assumes "0 < unat w" "unat (sz :: u16) + 2 * unat w \<le> 65535"
  shows "unat sz \<le> unat (align_up (ucast sz) (ucast (w :: u64)))"
    and "unat (align_up (ucast sz) (ucast w)) + unat w < 65535"
    and "unat (ucast (align_up (ucast sz) (ucast w) + w) :: u16) = unat (align_up (ucast sz) (ucast w)) + unat w"
    and "unat (align_up (ucast sz) (ucast w)) < unat sz + unat w"
proof -
  let ?o = "align_up (ucast sz) (ucast w)"
  have lt: "unat w < 2 ^ 31" using assms by simp
  have s: "sint (ucast w :: i32) = int (unat w)" by (rule sint_ucast_cursz[OF lt])
  have z: "unat (ucast sz :: u64) = unat sz"
    using unat_u16_lt[of sz] by (simp add: unsigned_ucast_eq take_bit_nat_eq_self)
  have c: "0 < sint (ucast w :: i32)" "unat (ucast sz :: u64) + nat (sint (ucast w :: i32)) - 1 < 2 ^ 64"
    using assms unfolding s z nat_int by (linarith, simp)
  have b: "unat sz \<le> unat ?o" "unat ?o < unat sz + unat w"
    using align_up_bounds[OF c] unfolding s z by simp_all
  then show "unat sz \<le> unat ?o" "unat ?o + unat w < 65535" "unat ?o < unat sz + unat w"
    using assms(2) by linarith+
  then have u: "unat (?o + w) = unat ?o + unat w" by (subst unat_add_lem[THEN iffD1]) simp_all
  then show "unat (ucast (?o + w) :: u16) = unat ?o + unat w"
    using \<open>unat ?o + unat w < 65535\<close> by (simp add: unsigned_ucast_eq take_bit_nat_eq_self)
qed

lemma find_column_None: "find_column cs n i = None \<longleftrightarrow> n \<notin> cname ` set cs"
  by (induction cs arbitrary: i) auto

lemma find_column_nth:
  "i < length cs \<Longrightarrow> distinct (map cname cs) \<Longrightarrow> find_column cs (cname (cs ! i)) k = Some (k + i)"
proof (induction cs arbitrary: i k)
  case (Cons c cs)
  show ?case
  proof (cases i)
    case (Suc j)
    then have "cname (cs ! j) \<in> set (map cname cs)" using Cons.prems(1) by auto
    then show ?thesis using Cons Suc by auto
  qed simp
qed simp

lemma hgrid_get_column_idx_nth:
  assumes "i < length (grid_list h)" "distinct (map cname (grid_list h))"
  shows "hgrid_get_column_idx h (cname (grid_list h ! i)) = of_nat i"
  using find_column_nth[OF assms, of 0] by (simp add: hgrid_get_column_idx_def grid_list_def)

lemma hgrid_get_column_idx_None:
  "n \<notin> cname ` set (grid_list h) \<Longrightarrow> hgrid_get_column_idx h n = GRID_INVALID_IDX"
  using find_column_None[of "grid_list h" n 0] by (simp add: hgrid_get_column_idx_def grid_list_def)

lemma hgrid_add_column_ok:
  assumes wf: "hgrid_wf h" and room: "length (grid_list h) < unat (g_rown h)"
    and w: "0 < unat (column_cursz type sz)"
    and small: "unat (g_datasz h) + 2 * unat (column_cursz type sz) \<le> 65535"
    and name: "length name < NAMESZ" "0 \<notin> set name"
  obtains h' c where "hgrid_add_column h name type sz = Some (h', Some (length (grid_list h)))"
    "hgrid_wf h'" "grid_list h' = grid_list h @ [c]" "g_rown h' = g_rown h"
    "cname c = name" "col_type c = type" "col_size c = sz"
    "unat (g_datasz h') \<le> unat (g_datasz h) + 2 * unat (column_cursz type sz)"
proof -
  let ?w = "column_cursz type sz" and ?i = "length (grid_list h)"
  let ?o = "align_up (ucast (g_datasz h)) (ucast ?w)"
  note al = align_up_cursz[OF w small]
  have gi: "grid_inv h" and so: "sorted_wrt col_before (grid_list h)"
    and en: "\<forall>c \<in> set (grid_list h). col_end c \<le> unat (g_datasz h)"
    and nm: "\<forall>c \<in> set (g_rows h). name_ok c"
    using wf by (auto simp: hgrid_wf_def)
  note d = grid_invD[OF gi]
  have lt: "g_occupied h < g_rown h" using room d(3) by (simp add: word_less_nat_alt)
  define g1 where "g1 = h\<lparr>g_occupied := g_occupied h + 1\<rparr>"
  note a = grid_alloc_row_inv[OF gi lt, folded g1_def]
  have ilt: "?i < length (g_rows h)" using room d(1) by simp
  let ?old = "g_rows h ! ?i"
  have old: "name_ok ?old" using nm ilt by auto
  define c where "c = ?old\<lparr>col_name := column_set_name (col_name ?old) name,
                  col_type := type, col_size := sz, col_offs := ?o\<rparr>"
  define h' where "h' = g1\<lparr>g_rows := (g_rows g1)[?i := c], g_datasz := ucast (?o + ?w)\<rparr>"
  have "grid_get_row g1 (g_occupied h) = Some (Some ?i)"
    using lt d(3) unat_succ_u16[OF lt] by (simp add: grid_get_row_def g1_def word_less_nat_alt)
  then have add: "hgrid_add_column h name type sz = Some (h', Some ?i)"
    using lt a(3) by (simp add: hgrid_add_column_def grid_alloc_row_def Let_def h'_def c_def flip: g1_def)
      (simp add: g1_def)
  have l: "grid_list h' = grid_list h @ [c]"
  proof -
    have "grid_list h' = (grid_list g1)[?i := c]"
      by (simp add: h'_def grid_list_def take_update_swap)
    then show ?thesis unfolding a(2) by simp
  qed
  have cw: "col_end c = unat ?o + unat ?w" by (simp add: col_end_def col_width_def c_def)
  have dz: "unat (g_datasz h') = unat ?o + unat ?w" using al(3) by (simp add: h'_def)
  have "name_ok c" using column_set_name_ok[OF old] by (simp add: name_ok_def c_def)
  then have "\<forall>c \<in> set (g_rows h'). name_ok c"
    using nm by (auto simp: h'_def g1_def dest: set_update_subset_insert[THEN subsetD])
  moreover have "grid_inv h'" using a(1) by (simp add: h'_def grid_inv_def)
  moreover have "sorted_wrt col_before (grid_list h')"
    unfolding l sorted_wrt_append using so en al(1) by (auto simp: c_def intro: order_trans)
  moreover have "\<forall>c \<in> set (grid_list h'). col_end c \<le> unat (g_datasz h')"
    unfolding l dz using en al(1) cw by auto
  ultimately have "hgrid_wf h'" by (simp add: hgrid_wf_def)
  moreover have "cname c = name" using column_set_name_cstring[OF old name] by (simp add: c_def)
  moreover have "unat (g_datasz h') \<le> unat (g_datasz h) + 2 * unat ?w"
    using al(4) dz by linarith
  ultimately show thesis
    using that[OF add _ l] by (simp add: c_def h'_def g1_def)
qed

text \<open>Adding the columns of a table one after another, as CREATE TABLE does.\<close>

fun add_columns :: "hgrid \<Rightarrow> (u8 list \<times> sql_type \<times> u64) list \<Rightarrow> hgrid option" where
  "add_columns h [] = Some h"
| "add_columns h ((name, type, sz) # cs) = (case hgrid_add_column h name type sz of
     Some (h', Some _) \<Rightarrow> add_columns h' cs | _ \<Rightarrow> None)"

abbreviation spec_width :: "u8 list \<times> sql_type \<times> u64 \<Rightarrow> nat" where
  "spec_width s \<equiv> unat (column_cursz (fst (snd s)) (snd (snd s)))"

abbreviation spec_ok :: "u8 list \<times> sql_type \<times> u64 \<Rightarrow> bool" where
  "spec_ok s \<equiv> 0 < spec_width s \<and> length (fst s) < NAMESZ \<and> 0 \<notin> set (fst s)"

lemma add_columns_ok:
  assumes "hgrid_wf h" "length (grid_list h) + length cs \<le> unat (g_rown h)"
    and "\<forall>s \<in> set cs. spec_ok s"
    and "unat (g_datasz h) + 2 * sum_list (map spec_width cs) \<le> 65535"
  shows "\<exists>h'. add_columns h cs = Some h' \<and> hgrid_wf h' \<and> g_rown h' = g_rown h \<and>
    unat (g_datasz h') \<le> unat (g_datasz h) + 2 * sum_list (map spec_width cs) \<and>
    (\<exists>ds. grid_list h' = grid_list h @ ds \<and> map (\<lambda>c. (cname c, col_type c, col_size c)) ds = cs)"
  using assms
proof (induction cs arbitrary: h)
  case (Cons s cs)
  obtain name type sz where s: "s = (name, type, sz)" by (cases s)
  have "length (grid_list h) < unat (g_rown h)" using Cons.prems(2) by simp
  moreover have "0 < unat (column_cursz type sz)" "length name < NAMESZ" "0 \<notin> set name"
    using Cons.prems(3) s by simp_all
  moreover have "unat (g_datasz h) + 2 * unat (column_cursz type sz) \<le> 65535"
    using Cons.prems(4) s by simp
  ultimately obtain h1 c where h1: "hgrid_add_column h name type sz = Some (h1, Some (length (grid_list h)))"
    "hgrid_wf h1" "grid_list h1 = grid_list h @ [c]" "g_rown h1 = g_rown h"
    "cname c = name" "col_type c = type" "col_size c = sz"
    "unat (g_datasz h1) \<le> unat (g_datasz h) + 2 * unat (column_cursz type sz)"
    using hgrid_add_column_ok[OF Cons.prems(1)] by metis
  obtain h' ds where h': "add_columns h1 cs = Some h'" "hgrid_wf h'" "g_rown h' = g_rown h1"
    "unat (g_datasz h') \<le> unat (g_datasz h1) + 2 * sum_list (map spec_width cs)"
    "grid_list h' = grid_list h1 @ ds" "map (\<lambda>c. (cname c, col_type c, col_size c)) ds = cs"
    using Cons.IH[OF h1(2)] Cons.prems(2,3,4) h1(3,4,8) s by auto
  have "grid_list h' = grid_list h @ c # ds" using h'(5) h1(3) by simp
  then show ?case using h' h1 s by (intro exI[of _ h']) auto
qed simp

lemma hgrid_init_wf:
  assumes "24 \<le> unat pagesz"
  shows "\<exists>h. hgrid_init pagesz layout content = Some h \<and> hgrid_wf h \<and> grid_list h = [] \<and>
    unat (g_rown h) = (unat pagesz - 24) div 40 \<and> g_datasz h = 0"
proof -
  have z: "unat (ucast pagesz :: u64) = unat pagesz"
    using unat_u16_lt[of pagesz] by (simp add: unsigned_ucast_eq take_bit_nat_eq_self)
  have "unat ((ucast pagesz - of_nat GRID_SZ :: u64) div ucast COLUMN_SZ) = (unat pagesz - 24) div 40"
    using assms z by (simp add: GRID_SZ_def COLUMN_SZ_def unat_div_distrib unat_sub word_le_nat_alt)
  moreover have "(unat pagesz - 24) div 40 < 65536"
    using unat_u16_lt[of pagesz] by (meson div_le_dividend le_less_trans diff_le_self)
  ultimately have "unat (ucast ((ucast pagesz - of_nat GRID_SZ :: u64) div ucast COLUMN_SZ) :: u16) = (unat pagesz - 24) div 40"
    by (simp add: unsigned_ucast_eq take_bit_nat_eq_self)
  moreover have "COLUMN_SZ \<noteq> 0" by (simp add: COLUMN_SZ_def)
  ultimately show ?thesis
    by (simp add: hgrid_init_def grid_init_def Let_def hgrid_wf_def grid_inv_def grid_list_def name_ok_zero)
qed

text \<open>
  C31: Adding columns of positive width with distinct names of at most 15 characters to a
  fresh header always succeeds while the page and the row size last, lays the columns out one
  after another without overlap inside the row, and every column is found under its name.
\<close>

theorem hgrid_columns_apart:
  assumes "24 \<le> unat pagesz" and "length cs \<le> (unat pagesz - 24) div 40"
    and "\<forall>(name, type, sz) \<in> set cs. 0 < unat (column_cursz type sz) \<and> length name < NAMESZ \<and> 0 \<notin> set name"
    and "distinct (map fst cs)" and "2 * (\<Sum>(name, type, sz) \<leftarrow> cs. unat (column_cursz type sz)) \<le> 65535"
  shows "\<exists>h0 h. hgrid_init pagesz layout content = Some h0 \<and> add_columns h0 cs = Some h \<and>
    length (grid_list h) = length cs \<and>
    (\<forall>i < length cs. hgrid_get_column h (of_nat i) = Some (grid_list h ! i) \<and>
      (cname (grid_list h ! i), col_type (grid_list h ! i), col_size (grid_list h ! i)) = cs ! i \<and>
      hgrid_get_column_idx h (fst (cs ! i)) = of_nat i \<and>
      col_end (grid_list h ! i) \<le> unat (g_datasz h) \<and>
      (\<forall>j < i. col_end (grid_list h ! j) \<le> unat (col_offs (grid_list h ! i))))"
proof -
  obtain h0 where h0: "hgrid_init pagesz layout content = Some h0" "hgrid_wf h0" "grid_list h0 = []"
    "unat (g_rown h0) = (unat pagesz - 24) div 40" "g_datasz h0 = 0"
    using hgrid_init_wf[OF assms(1)] by blast
  have "(\<Sum>(name, type, sz) \<leftarrow> cs. unat (column_cursz type sz)) = sum_list (map spec_width cs)"
    by (rule arg_cong[where f = sum_list]) (auto intro: map_cong)
  then have sz: "unat (g_datasz h0) + 2 * sum_list (map spec_width cs) \<le> 65535"
    using assms(5) h0(5) by simp
  have ok: "\<forall>s \<in> set cs. spec_ok s" using assms(3) by (simp add: split_beta)
  have room: "length (grid_list h0) + length cs \<le> unat (g_rown h0)" using assms(2) h0(3,4) by simp
  obtain h ds where h1: "add_columns h0 cs = Some h" "hgrid_wf h" "g_rown h = g_rown h0"
    "grid_list h = grid_list h0 @ ds" "map (\<lambda>c. (cname c, col_type c, col_size c)) ds = cs"
    using add_columns_ok[OF h0(2) room ok sz] by (elim exE conjE) (rule that)
  then have h: "add_columns h0 cs = Some h" "hgrid_wf h" "g_rown h = g_rown h0"
    "map (\<lambda>c. (cname c, col_type c, col_size c)) (grid_list h) = cs" using h0(3) by simp_all
  have len: "length (grid_list h) = length cs" using arg_cong[OF h(4), of length] by simp
  have nth: "(cname (grid_list h ! i), col_type (grid_list h ! i), col_size (grid_list h ! i)) = cs ! i"
    if "i < length cs" for i
    using arg_cong[OF h(4), of "\<lambda>l. l ! i"] that len by simp
  have "map cname (grid_list h) = map fst cs"
    using arg_cong[OF h(4), of "map fst"] by (simp add: comp_def)
  then have dis: "distinct (map cname (grid_list h))" using assms(4) by simp
  have inv: "grid_inv h" and so: "sorted_wrt col_before (grid_list h)"
    and en: "\<forall>c \<in> set (grid_list h). col_end c \<le> unat (g_datasz h)"
    using h(2) by (auto simp: hgrid_wf_def)
  note d = grid_invD[OF inv]
  have "hgrid_get_column h (of_nat i) = Some (grid_list h ! i)" if i: "i < length cs" for i
  proof -
    have u: "unat (of_nat i :: u16) = i"
      using i len d(3) unat_u16_lt[of "g_occupied h"] by (simp add: unsigned_of_nat take_bit_nat_eq_self)
    then have "grid_get_row h (of_nat i) = Some (Some i)"
      using i len d(2,3) by (simp add: grid_get_row_def word_less_nat_alt)
    then show ?thesis using i len d(3) by (simp add: hgrid_get_column_def grid_list_def)
  qed
  moreover have "hgrid_get_column_idx h (fst (cs ! i)) = of_nat i" if "i < length cs" for i
    using hgrid_get_column_idx_nth[of i h, OF _ dis] nth[OF that] that len by (metis fst_conv)
  ultimately show ?thesis
    using h0(1) h(1) len nth en so
    by (intro exI[of _ h0] exI[of _ h]) (simp add: sorted_wrt_iff_nth_less)
qed

text \<open>A table of an id and a CHAR(10) name.\<close>

theorem hgrid_columns_apart_witness:
  "\<exists>h0 h. hgrid_init 4096 GL_FIXED GC_PURE = Some h0 \<and>
    add_columns h0 [([105, 100], T_INTEGER, 0), ([110], T_CHAR, 10)] = Some h \<and>
    hgrid_get_column_idx h [110] = 1 \<and> col_end (grid_list h ! 0) \<le> unat (col_offs (grid_list h ! 1))"
proof -
  let ?cs = "[([105, 100], T_INTEGER, 0), ([110], T_CHAR, 10)] :: (u8 list \<times> sql_type \<times> u64) list"
  have "24 \<le> unat (4096 :: u16)" "length ?cs \<le> (unat (4096 :: u16) - 24) div 40" by simp_all
  moreover have "\<forall>(name, type, sz) \<in> set ?cs. 0 < unat (column_cursz type sz) \<and> length name < NAMESZ \<and> 0 \<notin> set name"
    "distinct (map fst ?cs)" "2 * (\<Sum>(name, type, sz) \<leftarrow> ?cs. unat (column_cursz type sz)) \<le> 65535"
    by (simp_all add: column_cursz_def NAMESZ_def)
  ultimately obtain h0 h where h: "hgrid_init 4096 GL_FIXED GC_PURE = Some h0" "add_columns h0 ?cs = Some h"
    "\<forall>i < length ?cs. hgrid_get_column_idx h (fst (?cs ! i)) = of_nat i \<and>
      (\<forall>j < i. col_end (grid_list h ! j) \<le> unat (col_offs (grid_list h ! i)))"
    using hgrid_columns_apart[of 4096 ?cs GL_FIXED GC_PURE] by blast
  from h(3) have "hgrid_get_column_idx h (fst (?cs ! 1)) = of_nat 1"
    "col_end (grid_list h ! 0) \<le> unat (col_offs (grid_list h ! 1))" by auto
  then show ?thesis using h(1,2) by (intro exI[of _ h0] exI[of _ h]) simp
qed

section \<open>Cells\<close>

definition dgrid_ok :: "hgrid \<Rightarrow> dgrid \<Rightarrow> bool" where
  "dgrid_ok h g \<longleftrightarrow> hgrid_wf h \<and> grid_inv g \<and> (\<forall>r \<in> set (g_rows g). unat (g_datasz h) \<le> length r)"

text \<open>The types whose cells hold their value, all that get and put implement but VARCHAR.\<close>

definition stored_type :: "sql_type \<Rightarrow> bool" where
  "stored_type t \<longleftrightarrow> t = T_SMALLINT \<or> t = T_INTEGER \<or> t = T_BIGINT \<or> t = T_CHAR"

text \<open>What a reader of a datum sees: its type, its number, its characters.\<close>

definition datum_view :: "datum \<Rightarrow> sql_type \<times> int \<times> u8 list" where
  "datum_view d = (dt_type d, dt_ival d, dt_str d)"

definition cell_view :: "column \<Rightarrow> u8 list \<Rightarrow> sql_type \<times> int \<times> u8 list" where
  "cell_view c bs = (col_type c, case col_type c of T_SMALLINT \<Rightarrow> sint (get_smallint bs)
     | T_INTEGER \<Rightarrow> sint (get_integer bs) | T_BIGINT \<Rightarrow> sint (get_bigint bs) | _ \<Rightarrow> 0,
     if col_type c = T_CHAR then bs else [])"

lemma dgrid_cell:
  assumes "dgrid_ok h g" "unat row < length (grid_list g)" "unat col < length (grid_list h)"
  shows "hgrid_get_column h col = Some (grid_list h ! unat col)"
    and "grid_get_cell h g row col = Some (unat row, unat (col_offs (grid_list h ! unat col)))"
    and "col_end (grid_list h ! unat col) \<le> length (g_rows g ! unat row)"
proof -
  have ih: "grid_inv h" and ig: "grid_inv g" and wf: "hgrid_wf h" using assms(1) by (auto simp: dgrid_ok_def hgrid_wf_def)
  note dh = grid_invD[OF ih] and dg = grid_invD[OF ig]
  have c: "grid_get_row h col = Some (Some (unat col))" and r: "grid_get_row g row = Some (Some (unat row))"
    using grid_get_row_list[OF ih, of col] grid_get_row_list[OF ig, of row] assms(2,3) dh dg by auto
  show hc: "hgrid_get_column h col = Some (grid_list h ! unat col)"
    using c assms(3) dh(3) by (simp add: hgrid_get_column_def grid_list_def)
  show "grid_get_cell h g row col = Some (unat row, unat (col_offs (grid_list h ! unat col)))"
    using r hc assms(3) dh(3) by (simp add: grid_get_cell_def word_less_nat_alt)
  have "col_end (grid_list h ! unat col) \<le> unat (g_datasz h)"
    using wf assms(3) by (simp add: hgrid_wf_def)
  moreover have "g_rows g ! unat row \<in> set (g_rows g)" using assms(2) dg by simp
  ultimately show "col_end (grid_list h ! unat col) \<le> length (g_rows g ! unat row)"
    using assms(1) by (auto simp: dgrid_ok_def intro: order_trans)
qed

lemma take_drop_read: "take n (drop k bs) = read_at bs k n"
  by (simp add: read_at_def)

lemma width_of_type:
  "col_type c = T_SMALLINT \<Longrightarrow> col_width c = 2" "col_type c = T_INTEGER \<Longrightarrow> col_width c = 4"
  "col_type c = T_BIGINT \<Longrightarrow> col_width c = 8" "col_type c = T_CHAR \<Longrightarrow> col_width c = unat (col_size c)"
  by (simp_all add: col_width_def column_cursz_def)

lemma ucast_up_down [simp]: "(ucast (ucast (v :: i16) :: i64) :: i16) = v" "(ucast (ucast (w :: i32) :: i64) :: i32) = w"
  by (rule bit_word_eqI; simp add: bit_simps)+

lemma grid_get_datum_view:
  assumes "dgrid_ok h g" "unat row < length (grid_list g)" "unat col < length (grid_list h)"
    and "stored_type (col_type (grid_list h ! unat col))"
  shows "map_option datum_view (grid_get_datum h g row col) = Some (cell_view (grid_list h ! unat col)
    (read_at (g_rows g ! unat row) (unat (col_offs (grid_list h ! unat col))) (col_width (grid_list h ! unat col))))"
proof -
  note d = dgrid_cell[OF assms(1-3)]
  let ?c = "grid_list h ! unat col"
  have e: "unat (col_offs ?c) + col_width ?c \<le> length (g_rows g ! unat row)" using d(3) by (simp add: col_end_def)
  consider "col_type ?c = T_SMALLINT" | "col_type ?c = T_INTEGER" | "col_type ?c = T_BIGINT" | "col_type ?c = T_CHAR"
    using assms(4) by (auto simp: stored_type_def)
  then show ?thesis
    by cases (use e in \<open>simp_all add: grid_get_datum_def d(1,2) Let_def cell_read_def width_of_type datum_view_def
      cell_view_def dt_ival_def dt_smallint_def dt_integer_def dt_str_def dt_bytes_def take_drop_read\<close>)
qed

text \<open>The values a cell of the column can hold exactly.\<close>

definition int_fits :: "nat \<Rightarrow> int \<Rightarrow> bool" where
  "int_fits n v \<longleftrightarrow> - (2 ^ (8 * n - 1)) \<le> v \<and> v < 2 ^ (8 * n - 1)"

definition datum_fits :: "column \<Rightarrow> datum \<Rightarrow> bool" where
  "datum_fits c d \<longleftrightarrow> (if col_type c = T_CHAR
     then get_type_group (dt_type d) = TG_CHARACTER \<and> dt_chars d \<noteq> None \<and>
       takeWhile (\<lambda>b. b \<noteq> 0) (dt_bytes d) = dt_str d \<and> length (dt_str d) \<le> unat (col_size c)
     else get_type_group (col_type c) = TG_INTEGER \<and> (dt_type d = col_type c \<or> dt_type d = T_BIGINT) \<and>
       int_fits (col_width c) (dt_ival d))"

lemma sint_ucast_i16:
  assumes "int_fits 2 (sint (v :: i64))" shows "sint (ucast v :: i16) = sint v"
proof -
  have "sint (ucast v :: i16) = signed_take_bit 15 (sint v)"
    by (simp add: signed_ucast_eq) (simp add: sint_uint signed_take_bit_signed_take_bit min_def)
  also have "\<dots> = sint v" by (rule signed_take_bit_int_eq_self) (use assms in \<open>simp_all add: int_fits_def\<close>)
  finally show ?thesis .
qed

lemma sint_ucast_i32:
  assumes "int_fits 4 (sint (v :: i64))" shows "sint (ucast v :: i32) = sint v"
proof -
  have "sint (ucast v :: i32) = signed_take_bit 31 (sint v)"
    by (simp add: signed_ucast_eq) (simp add: sint_uint signed_take_bit_signed_take_bit min_def)
  also have "\<dots> = sint v" by (rule signed_take_bit_int_eq_self) (use assms in \<open>simp_all add: int_fits_def\<close>)
  finally show ?thesis .
qed

lemma takeWhile_take_prefix:
  "length (takeWhile P xs) \<le> n \<Longrightarrow> takeWhile P (take n xs) = takeWhile P xs"
proof (induction xs arbitrary: n)
  case (Cons x xs)
  then show ?case by (cases n) auto
qed simp

lemma put_char_fits:
  assumes "takeWhile (\<lambda>b. b \<noteq> 0) cs = s" "length s \<le> n"
  shows "put_char cs n = s @ replicate (n - length s) 32"
proof -
  have l: "strnlen cs n = length s" using takeWhile_take_prefix[of "\<lambda>b. b \<noteq> 0" cs n] assms by (simp add: strnlen_def)
  have "take (length s) cs = s" using assms(1) by (metis takeWhile_eq_take)
  then show ?thesis by (simp add: put_char_def l Let_def)
qed

text \<open>The view of the datum in the cell after a put.\<close>

definition stored_view :: "column \<Rightarrow> datum \<Rightarrow> sql_type \<times> int \<times> u8 list" where
  "stored_view c d = (col_type c, if col_type c = T_CHAR then 0 else dt_ival d,
     if col_type c = T_CHAR then dt_str d @ replicate (unat (col_size c) - length (dt_str d)) 32 else [])"

lemma datum_bytes_view:
  assumes "stored_type (col_type c)" "datum_fits c d"
  shows "\<exists>bs. datum_bytes c d = Some bs \<and> length bs = col_width c \<and> cell_view c bs = stored_view c d"
proof -
  consider "col_type c = T_SMALLINT" | "col_type c = T_INTEGER" | "col_type c = T_BIGINT" | "col_type c = T_CHAR"
    using assms(1) by (auto simp: stored_type_def)
  then show ?thesis
  proof cases
    case 1
    then show ?thesis using assms(2) sint_ucast_i16[of "dt_bigint d"]
      by (auto simp: datum_fits_def datum_bytes_def cell_view_def stored_view_def get_type_group_def dt_ival_def
          width_of_type split: if_splits)
  next
    case 2
    then show ?thesis using assms(2) sint_ucast_i32[of "dt_bigint d"]
      by (auto simp: datum_fits_def datum_bytes_def cell_view_def stored_view_def get_type_group_def dt_ival_def
          width_of_type split: if_splits)
  next
    case 3
    then show ?thesis using assms(2)
      by (auto simp: datum_fits_def datum_bytes_def cell_view_def stored_view_def get_type_group_def dt_ival_def
          width_of_type split: if_splits)
  next
    case 4
    then obtain cs where cs: "dt_chars d = Some cs" "dt_bytes d = cs" and grp: "get_type_group (dt_type d) = TG_CHARACTER"
      and f: "takeWhile (\<lambda>b. b \<noteq> 0) cs = dt_str d" "length (dt_str d) \<le> unat (col_size c)"
      using assms(2) by (auto simp: datum_fits_def dt_bytes_def)
    have "datum_bytes c d = Some (put_char cs (unat (col_size c)))"
      using 4 cs(1) grp by (auto simp: datum_bytes_def get_type_group_def)
    then show ?thesis using 4 put_char_fits[OF f] f(2) by (simp add: cell_view_def stored_view_def width_of_type)
  qed
qed

lemma cell_write_frame:
  assumes "i < length (g_rows g)" "off + length bs \<le> length (g_rows g ! i)"
  shows "cell_write g (i, off) bs = Some (g\<lparr>g_rows := (g_rows g)[i := write_at (g_rows g ! i) off bs]\<rparr>)"
    and "read_at ((g_rows g)[i := write_at (g_rows g ! i) off bs] ! i) off (length bs) = bs"
    and "j \<noteq> i \<or> off' + n \<le> off \<or> off + length bs \<le> off' \<Longrightarrow>
      read_at ((g_rows g)[i := write_at (g_rows g ! i) off bs] ! j) off' n = read_at (g_rows g ! j) off' n"
proof -
  show "cell_write g (i, off) bs = Some (g\<lparr>g_rows := (g_rows g)[i := write_at (g_rows g ! i) off bs]\<rparr>)"
    using assms(2) by (simp add: cell_write_def)
  show "read_at ((g_rows g)[i := write_at (g_rows g ! i) off bs] ! i) off (length bs) = bs"
    using assms by simp
  show "j \<noteq> i \<or> off' + n \<le> off \<or> off + length bs \<le> off' \<Longrightarrow>
      read_at ((g_rows g)[i := write_at (g_rows g ! i) off bs] ! j) off' n = read_at (g_rows g ! j) off' n"
    using assms read_write_disjoint[of off' n off bs "g_rows g ! i"] by (cases "j = i") auto
qed

lemma columns_disjoint:
  assumes "hgrid_wf h" "i < length (grid_list h)" "j < length (grid_list h)" "i \<noteq> j"
  shows "col_end (grid_list h ! i) \<le> unat (col_offs (grid_list h ! j)) \<or>
    col_end (grid_list h ! j) \<le> unat (col_offs (grid_list h ! i))"
  using assms by (auto simp: hgrid_wf_def sorted_wrt_iff_nth_less neq_iff)

lemma grid_put_datum_ok:
  assumes ok: "dgrid_ok h g" and r: "unat row < length (grid_list g)" and c: "unat col < length (grid_list h)"
    and st: "stored_type (col_type (grid_list h ! unat col))" and f: "datum_fits (grid_list h ! unat col) d"
  shows "\<exists>g'. grid_put_datum h g row col d = Some (g', 0) \<and> dgrid_ok h g' \<and> length (grid_list g') = length (grid_list g) \<and>
    map_option datum_view (grid_get_datum h g' row col) = Some (stored_view (grid_list h ! unat col) d) \<and>
    (\<forall>row' col'. unat row' < length (grid_list g) \<and> unat col' < length (grid_list h) \<and>
       stored_type (col_type (grid_list h ! unat col')) \<and> (row', col') \<noteq> (row, col) \<longrightarrow>
       map_option datum_view (grid_get_datum h g' row' col') = map_option datum_view (grid_get_datum h g row' col'))"
proof -
  note e = dgrid_cell[OF ok r c]
  let ?c = "grid_list h ! unat col" and ?r = "unat row"
  let ?off = "unat (col_offs ?c)"
  obtain bs where bs: "datum_bytes ?c d = Some bs" "length bs = col_width ?c" "cell_view ?c bs = stored_view ?c d"
    using datum_bytes_view[OF st f] by blast
  have ig: "grid_inv g" and wf: "hgrid_wf h" using ok by (auto simp: dgrid_ok_def)
  note dg = grid_invD[OF ig]
  have rl: "?r < length (g_rows g)" using r dg by simp
  have fit: "?off + length bs \<le> length (g_rows g ! ?r)" using e(3) bs(2) by (simp add: col_end_def)
  note w = cell_write_frame[OF rl fit]
  define g' where "g' = g\<lparr>g_rows := (g_rows g)[?r := write_at (g_rows g ! ?r) ?off bs]\<rparr>"
  have "dt_type d \<noteq> T_UNKNOWN" "dt_type d \<noteq> T_MAX"
    using f st by (auto simp: datum_fits_def stored_type_def character_group_iff integer_group_iff split: if_splits)
  then have put: "grid_put_datum h g row col d = Some (g', 0)"
    by (simp add: grid_put_datum_def e(1,2) bs(1) w(1) g'_def)
  have same: "length (grid_list g') = length (grid_list g)" by (simp add: g'_def grid_list_def)
  have ok': "dgrid_ok h g'"
    using ok fit rl by (auto simp: dgrid_ok_def grid_inv_def g'_def dest!: set_update_subset_insert[THEN subsetD])
  have "map_option datum_view (grid_get_datum h g' row col) = Some (stored_view ?c d)"
    using grid_get_datum_view[OF ok' _ c st, of row] r same w(2) bs(2,3) by (simp add: g'_def)
  moreover have "map_option datum_view (grid_get_datum h g' row' col') = map_option datum_view (grid_get_datum h g row' col')"
    if a: "unat row' < length (grid_list g)" "unat col' < length (grid_list h)"
      "stored_type (col_type (grid_list h ! unat col'))" "(row', col') \<noteq> (row, col)" for row' col'
  proof -
    have "unat row' \<noteq> ?r \<or> unat col' \<noteq> unat col" using a(4) by (auto simp: word_unat_eq_iff)
    then have "unat row' \<noteq> ?r \<or> unat (col_offs (grid_list h ! unat col')) + col_width (grid_list h ! unat col') \<le> ?off \<or>
      ?off + length bs \<le> unat (col_offs (grid_list h ! unat col'))"
      using columns_disjoint[OF wf a(2) c] bs(2) by (auto simp: col_end_def)
    note u = w(3)[OF this]
    have a1: "unat row' < length (grid_list g')" using a(1) same by simp
    show ?thesis
      unfolding grid_get_datum_view[OF ok' a1 a(2,3)] grid_get_datum_view[OF ok a(1,2,3)]
      using u by (simp add: g'_def)
  qed
  ultimately show ?thesis using put ok' same by blast
qed

text \<open>
  C30: Let a column be of type SMALLINT, INTEGER, BIGINT or CHAR (a put into a VARCHAR column
  is dropped and returns 0), and a datum fit it: for an integer column an integer of the
  column's own type, or a BIGINT, within the range of the column; for CHAR character data that
  can be read, without a zero byte inside and not longer than the column. Put into a cell of
  an existing row, the datum is the datum read back from it (integers unchanged, strings up to
  the blanks that pad CHAR), every other cell of the grid reads as before, and the grid stays
  well formed.
\<close>

theorem grid_put_get:
  assumes "dgrid_ok h g" "unat row < length (grid_list g)" "unat col < length (grid_list h)"
    and "stored_type (col_type (grid_list h ! unat col))" and "datum_fits (grid_list h ! unat col) d"
  shows "\<exists>g' d'. grid_put_datum h g row col d = Some (g', 0) \<and> dgrid_ok h g' \<and> grid_get_datum h g' row col = Some d' \<and>
    dt_type d' = col_type (grid_list h ! unat col) \<and>
    (if dt_type d' = T_CHAR then dt_key d' = rtrim (dt_str d) else dt_ival d' = dt_ival d) \<and>
    (\<forall>row' col'. unat row' < length (grid_list g) \<and> unat col' < length (grid_list h) \<and>
       stored_type (col_type (grid_list h ! unat col')) \<and> (row', col') \<noteq> (row, col) \<longrightarrow>
       map_option datum_view (grid_get_datum h g' row' col') = map_option datum_view (grid_get_datum h g row' col'))"
proof -
  obtain g' where p: "grid_put_datum h g row col d = Some (g', 0)" "dgrid_ok h g'"
    and v: "map_option datum_view (grid_get_datum h g' row col) = Some (stored_view (grid_list h ! unat col) d)"
    and fr: "\<forall>row' col'. unat row' < length (grid_list g) \<and> unat col' < length (grid_list h) \<and>
       stored_type (col_type (grid_list h ! unat col')) \<and> (row', col') \<noteq> (row, col) \<longrightarrow>
       map_option datum_view (grid_get_datum h g' row' col') = map_option datum_view (grid_get_datum h g row' col')"
    using grid_put_datum_ok[OF assms] by (elim exE conjE) (rule that)
  from v obtain d' where "grid_get_datum h g' row col = Some d'" "datum_view d' = stored_view (grid_list h ! unat col) d"
    by auto
  then show ?thesis
    using p fr by (intro exI[of _ g'] exI[of _ d']) (auto simp: datum_view_def stored_view_def dt_key_def)
qed

text \<open>A table of an INTEGER and a CHAR(3) column with one row, and 42 put into its integer.\<close>

definition sample_header :: hgrid where
  "sample_header = \<lparr>g_size = 4096, g_layout = GL_FIXED, g_content = GC_PURE, g_next = 0, g_rowsz = COLUMN_SZ,
     g_rown = 2, g_occupied = 2, g_datasz = 7,
     g_rows = [zero_column\<lparr>col_type := T_INTEGER\<rparr>, zero_column\<lparr>col_type := T_CHAR, col_size := 3, col_offs := 4\<rparr>]\<rparr>"

definition sample_data :: dgrid where
  "sample_data = \<lparr>g_size = 4096, g_layout = GL_FIXED, g_content = GC_PURE, g_next = 0, g_rowsz = 8,
     g_rown = 1, g_occupied = 1, g_datasz = 0, g_rows = [replicate 8 0]\<rparr>"

lemma sample_grids_ok: "dgrid_ok sample_header sample_data" "length (grid_list sample_data) = 1"
    "grid_list sample_header = g_rows sample_header"
  by (simp_all add: dgrid_ok_def hgrid_wf_def grid_inv_def grid_list_def sample_header_def sample_data_def
      col_end_def col_width_def column_cursz_def name_ok_def zero_column_def NAMESZ_def)

theorem grid_put_get_witness:
  "\<exists>g' d'. grid_put_datum sample_header sample_data 0 0 (make_bigint 42) = Some (g', 0) \<and>
     grid_get_datum sample_header g' 0 0 = Some d' \<and> dt_type d' = T_INTEGER \<and> dt_ival d' = 42"
proof -
  have c: "grid_list sample_header ! unat (0 :: u16) = zero_column\<lparr>col_type := T_INTEGER\<rparr>"
    "length (grid_list sample_header) = 2"
    unfolding sample_grids_ok(3) by (simp_all add: sample_header_def)
  have "unat (0 :: u16) < length (grid_list sample_data)" "unat (0 :: u16) < length (grid_list sample_header)"
    using sample_grids_ok(2) c(2) by simp_all
  moreover have "stored_type (col_type (grid_list sample_header ! unat (0 :: u16)))"
    unfolding c(1) by (simp add: stored_type_def)
  moreover have "datum_fits (grid_list sample_header ! unat (0 :: u16)) (make_bigint 42)"
    unfolding c(1) by (simp add: datum_fits_def get_type_group_def int_fits_def dt_ival_def make_bigint_def
        col_width_def column_cursz_def)
  moreover have "dt_ival (make_bigint 42) = 42" by (simp add: dt_ival_def make_bigint_def)
  ultimately show ?thesis
    using grid_put_get[OF sample_grids_ok(1), of 0 0 "make_bigint 42"] unfolding c(1) by auto
qed

section \<open>A CHAR column of width 0\<close>

text \<open>
  The alignment 0 turns the mask into 0: the column gets offset 0 and the size of the row
  so far is forgotten, so the next column lies over the first ones.
\<close>

lemma char0_resets_row:
  assumes "g_occupied h < g_rown h" and "grid_inv h"
  shows "\<exists>h' i. hgrid_add_column h name T_CHAR 0 = Some (h', Some i) \<and> g_datasz h' = 0 \<and>
    col_offs (g_rows h' ! i) = 0"
proof -
  have "unat (g_occupied h) < unat (g_rown h)" using assms(1) by (simp add: word_less_nat_alt)
  then have l: "unat (g_occupied h) < length (g_rows h)" using grid_invD(1)[OF assms(2)] by simp
  have "g_occupied h < g_occupied h + 1"
    using unat_succ_u16[OF assms(1)] by (simp add: word_less_nat_alt)
  then show ?thesis
    using grid_alloc_row_inv(3)[OF assms(2,1)] assms(1) l
    by (simp add: hgrid_add_column_def grid_alloc_row_def Let_def grid_get_row_def column_cursz_def
        align_up_0_align)
qed

section \<open>Fresh data grids\<close>

lemma dgrid_init_ok:
  assumes wf: "hgrid_wf h" and "0 < unat (g_datasz h)" "unat (g_datasz h) \<le> 65532" and pg: "24 \<le> unat pagesz"
  obtains g where "dgrid_init pagesz layout content h = Some g" "dgrid_ok h g" "grid_list g = []"
    "g_content g = content" "g_next g = GID_UNDEF" "g_layout g = layout"
    "unat (g_rown g) = (unat pagesz - 24) div unat (g_rowsz g)" "unat (g_datasz h) \<le> unat (g_rowsz g)"
    "unat (g_rowsz g) < unat (g_datasz h) + 4"
proof -
  let ?s = "hgrid_get_row_size h"
  have z: "unat (ucast (g_datasz h) :: u64) = unat (g_datasz h)" "unat (ucast pagesz :: u64) = unat pagesz"
    using unat_u16_lt[of "g_datasz h"] unat_u16_lt[of pagesz] by (simp_all add: unsigned_ucast_eq take_bit_nat_eq_self)
  have "unat (g_datasz h) \<le> unat ?s" "unat ?s < unat (g_datasz h) + 4"
    using align_up_bounds[of 4 "ucast (g_datasz h)"] unat_u16_lt[of "g_datasz h"]
    by (simp_all add: hgrid_get_row_size_def z(1))
  then have s: "unat (g_datasz h) \<le> unat ?s" "unat ?s < 65536" "unat ?s < unat (g_datasz h) + 4"
    using assms(3) by simp_all
  define w :: u16 where "w = ucast ?s"
  have w: "unat w = unat ?s" using s(2) by (simp add: w_def unsigned_ucast_eq take_bit_nat_eq_self)
  have w0: "w \<noteq> 0" using w s(1) assms(2) by (metis le_zero_eq not_less unat_0)
  have zw: "unat (ucast w :: u64) = unat w"
    using unat_u16_lt[of w] by (simp add: unsigned_ucast_eq take_bit_nat_eq_self)
  have "unat ((ucast pagesz - of_nat GRID_SZ :: u64) div ucast w) = (unat pagesz - 24) div unat w"
    using pg z zw by (simp add: GRID_SZ_def unat_div_distrib unat_sub word_le_nat_alt)
  moreover have "(unat pagesz - 24) div unat w < 65536"
    using unat_u16_lt[of pagesz] by (meson div_le_dividend le_less_trans diff_le_self)
  ultimately have n: "unat (ucast ((ucast pagesz - of_nat GRID_SZ :: u64) div ucast w) :: u16) = (unat pagesz - 24) div unat w"
    by (simp add: unsigned_ucast_eq take_bit_nat_eq_self)
  show thesis
    by (rule that[of "the (dgrid_init pagesz layout content h)"])
      (use w0 w s(1,3) wf n in \<open>simp_all add: dgrid_init_def grid_init_def Let_def dgrid_ok_def grid_inv_def
        grid_list_def flip: w_def\<close>)
qed

end
