(* ===== verification/Scr_Sequence.thy ===== *)
theory Scr_Sequence
  imports Scr_Grid_Laws
begin

text \<open>
  \<^verbatim>\<open>lib/core/src/sequence.h\<close> and \<^verbatim>\<open>sequence.c\<close>: a sequence is a
  data grid of one row with six BIGINT columns, read and written through the cells of the
  grid. \<open>None\<close> is a failed assert; the int of a result is the code's return value.
  Integers are int64_t; the sum in nextval wraps, as the compiled code does.
\<close>

section \<open>The code\<close>

definition hsequence_init :: "(hgrid \<times> int) option" where
  "hsequence_init =
     Option.bind (hgrid_init (of_nat PAGESZ) GL_FIXED GC_PURE) (\<lambda>h.
     Option.bind (hgrid_add_column h (ascii ''min_val'') T_BIGINT 8) (\<lambda>(h, _).
     Option.bind (hgrid_add_column h (ascii ''max_val'') T_BIGINT 8) (\<lambda>(h, _).
     Option.bind (hgrid_add_column h (ascii ''last_val'') T_BIGINT 8) (\<lambda>(h, _).
     Option.bind (hgrid_add_column h (ascii ''increment'') T_BIGINT 8) (\<lambda>(h, _).
     Option.bind (hgrid_add_column h (ascii ''cycle'') T_BIGINT 8) (\<lambda>(h, _).
     Option.bind (hgrid_add_column h (ascii ''is_called'') T_BIGINT 8) (\<lambda>(h, _).
     Some (h, 0))))))))"

text \<open>get_bigint and put_bigint on the cell of row 0.\<close>

definition seq_get :: "hgrid \<Rightarrow> dgrid \<Rightarrow> u16 \<Rightarrow> i64 option" where
  "seq_get h g col = Option.bind (grid_get_cell h g 0 col) (\<lambda>c. map_option get_bigint (cell_read g c 8))"

definition seq_put :: "hgrid \<Rightarrow> dgrid \<Rightarrow> u16 \<Rightarrow> i64 \<Rightarrow> dgrid option" where
  "seq_put h g col v = Option.bind (grid_get_cell h g 0 col) (\<lambda>c. cell_write g c (put_bigint v))"

text \<open>The page is untouched when the arguments are rejected.\<close>

definition sequence_init :: "hgrid \<Rightarrow> i64 \<Rightarrow> i64 \<Rightarrow> i64 \<Rightarrow> i64 \<Rightarrow> bool \<Rightarrow> (dgrid option \<times> int) option" where
  "sequence_init h minval maxval startval increment cycle =
     (if sle maxval minval then Some (None, 1)
      else if slt startval minval then Some (None, 1)
      else if slt maxval startval then Some (None, 1)
      else if increment = 0 then Some (None, 1)
      else Option.bind (dgrid_init (of_nat PAGESZ) GL_FIXED GC_PURE h) (\<lambda>g.
        let (g, _) = grid_alloc_row g in
        Option.bind (seq_put h g 0 minval) (\<lambda>g.
        Option.bind (seq_put h g 1 maxval) (\<lambda>g.
        Option.bind (seq_put h g 2 startval) (\<lambda>g.
        Option.bind (seq_put h g 3 increment) (\<lambda>g.
        Option.bind (seq_put h g 4 (of_bool cycle)) (\<lambda>g.
        Option.bind (seq_put h g 5 0) (\<lambda>g. Some (Some g, 0)))))))))"

text \<open>The value is \<open>None\<close> where the code leaves the output alone.\<close>

definition sequence_currval :: "hgrid \<Rightarrow> dgrid \<Rightarrow> (i64 option \<times> int) option" where
  "sequence_currval h g =
     Option.bind (seq_get h g 2) (\<lambda>current. Option.bind (seq_get h g 5) (\<lambda>is_called.
       Some (if is_called \<noteq> 0 then (Some current, 0) else (None, 1))))"

definition sequence_nextval :: "hgrid \<Rightarrow> dgrid \<Rightarrow> (dgrid \<times> i64 option \<times> int) option" where
  "sequence_nextval h g =
     Option.bind (seq_get h g 0) (\<lambda>minval. Option.bind (seq_get h g 1) (\<lambda>maxval.
     Option.bind (seq_get h g 2) (\<lambda>current. Option.bind (seq_get h g 3) (\<lambda>increment.
     Option.bind (seq_get h g 4) (\<lambda>cycle. Option.bind (seq_get h g 5) (\<lambda>is_called.
       if increment = 0 then None
       else if is_called \<noteq> 0 then
         (let newval = current + increment;
              next = (if slt 0 increment
                then (if slt maxval newval then (if cycle \<noteq> 0 then Some minval else None) else Some newval)
                else (if slt newval minval then (if cycle \<noteq> 0 then Some maxval else None) else Some newval))
          in case next of None \<Rightarrow> Some (g, None, 1)
             | Some v \<Rightarrow> map_option (\<lambda>g. (g, Some v, 0)) (seq_put h g 2 v))
       else map_option (\<lambda>g. (g, Some current, 0)) (seq_put h g 5 1)))))))"

definition sequence_setval :: "hgrid \<Rightarrow> dgrid \<Rightarrow> i64 \<Rightarrow> bool \<Rightarrow> (dgrid \<times> int) option" where
  "sequence_setval h g val is_called =
     Option.bind (seq_get h g 0) (\<lambda>minval. Option.bind (seq_get h g 1) (\<lambda>maxval.
       if slt maxval val then Some (g, 1)
       else if slt val minval then Some (g, 1)
       else Option.bind (seq_put h g 2 val) (\<lambda>g. map_option (\<lambda>g. (g, 0)) (seq_put h g 5 (of_bool is_called)))))"

definition sequence_set_minval :: "hgrid \<Rightarrow> dgrid \<Rightarrow> i64 \<Rightarrow> (dgrid \<times> int) option" where
  "sequence_set_minval h g val =
     Option.bind (seq_get h g 1) (\<lambda>maxval. Option.bind (seq_get h g 2) (\<lambda>current.
       if sle maxval val then Some (g, 1)
       else if slt current val then Some (g, 1)
       else map_option (\<lambda>g. (g, 0)) (seq_put h g 0 val)))"

definition sequence_set_maxval :: "hgrid \<Rightarrow> dgrid \<Rightarrow> i64 \<Rightarrow> (dgrid \<times> int) option" where
  "sequence_set_maxval h g val =
     Option.bind (seq_get h g 0) (\<lambda>minval. Option.bind (seq_get h g 2) (\<lambda>current.
       if sle val minval then Some (g, 1)
       else if slt val current then Some (g, 1)
       else map_option (\<lambda>g. (g, 0)) (seq_put h g 1 val)))"

definition sequence_set_increment :: "hgrid \<Rightarrow> dgrid \<Rightarrow> i64 \<Rightarrow> (dgrid \<times> int) option" where
  "sequence_set_increment h g val =
     (if val = 0 then Some (g, 1) else map_option (\<lambda>g. (g, 0)) (seq_put h g 3 val))"

definition sequence_set_cycle :: "hgrid \<Rightarrow> dgrid \<Rightarrow> bool \<Rightarrow> (dgrid \<times> int) option" where
  "sequence_set_cycle h g val = map_option (\<lambda>g. (g, 0)) (seq_put h g 4 (of_bool val))"

section \<open>Cells of one row as an interface\<close>

text \<open>
  What the sequence needs of the grid: numbered cells holding 64-bit numbers, where a put
  succeeds, is read back, and changes no other cell.
\<close>

locale bigint_cells =
  fixes ok :: "'g \<Rightarrow> bool" and get :: "'g \<Rightarrow> u16 \<Rightarrow> i64 option" and put :: "'g \<Rightarrow> u16 \<Rightarrow> i64 \<Rightarrow> 'g option"
    and n :: nat
  assumes get_ok: "ok g \<Longrightarrow> unat i < n \<Longrightarrow> get g i \<noteq> None"
    and put_ok: "ok g \<Longrightarrow> unat i < n \<Longrightarrow> \<exists>g'. put g i v = Some g' \<and> ok g' \<and> get g' i = Some v \<and>
      (\<forall>j. j \<noteq> i \<longrightarrow> unat j < n \<longrightarrow> get g' j = get g j)"
begin

text \<open>The cells as a list of values.\<close>

definition holds :: "'g \<Rightarrow> i64 list \<Rightarrow> bool" where
  "holds g vs \<longleftrightarrow> ok g \<and> length vs = n \<and> n < 65536 \<and> (\<forall>i. unat i < n \<longrightarrow> get g i = Some (vs ! unat i))"

lemma holds_get: "holds g vs \<Longrightarrow> unat i < n \<Longrightarrow> get g i = Some (vs ! unat i)"
  by (simp add: holds_def)

lemma holds_put:
  assumes "holds g vs" "unat i < n"
  shows "\<exists>g'. put g i v = Some g' \<and> holds g' (vs[unat i := v])"
proof -
  obtain g' where g': "put g i v = Some g'" "ok g'" "get g' i = Some v"
    "\<forall>j. j \<noteq> i \<longrightarrow> unat j < n \<longrightarrow> get g' j = get g j"
    using put_ok[of g i v] assms by (auto simp: holds_def)
  have "get g' j = Some (vs[unat i := v] ! unat j)" if "unat j < n" for j
  proof (cases "j = i")
    case False
    then have "unat j \<noteq> unat i" by (simp add: word_unat_eq_iff)
    then show ?thesis using that g'(4) False assms by (simp add: holds_def)
  qed (use that g'(3) assms in \<open>simp add: holds_def\<close>)
  then show ?thesis using g'(1,2) assms(1) by (auto simp: holds_def)
qed

lemma holds_exists:
  assumes "ok g" "n < 65536"
  shows "\<exists>vs. holds g vs"
proof -
  have "get g i = Some (map (\<lambda>k. the (get g (of_nat k))) [0..<n] ! unat i)" if "unat i < n" for i
    using that get_ok[OF assms(1) that] by auto
  then show ?thesis using assms by (intro exI[of _ "map (\<lambda>k. the (get g (of_nat k))) [0..<n]"]) (simp add: holds_def)
qed

end

section \<open>The cells of a sequence\<close>

text \<open>The header: six BIGINT columns.\<close>

definition bigint_header :: "hgrid \<Rightarrow> bool" where
  "bigint_header h \<longleftrightarrow> hgrid_wf h \<and> length (grid_list h) = 6 \<and>
     (\<forall>c \<in> set (grid_list h). col_type c = T_BIGINT) \<and> 0 < unat (g_datasz h) \<and> unat (g_datasz h) \<le> 96"

definition seq_ok :: "hgrid \<Rightarrow> dgrid \<Rightarrow> bool" where
  "seq_ok h g \<longleftrightarrow> bigint_header h \<and> dgrid_ok h g \<and> 0 < length (grid_list g)"

lemma seq_get_view:
  assumes "seq_ok h g" "unat i < 6"
  shows "seq_get h g i = Some (get_bigint (read_at (g_rows g ! 0) (unat (col_offs (grid_list h ! unat i))) 8))"
    and "unat (col_offs (grid_list h ! unat i)) + 8 \<le> length (g_rows g ! 0)"
proof -
  have d: "dgrid_ok h g" "unat (0 :: u16) < length (grid_list g)" "unat i < length (grid_list h)"
    using assms by (auto simp: seq_ok_def bigint_header_def)
  have t: "col_type (grid_list h ! unat i) = T_BIGINT"
    using assms d(3) by (auto simp: seq_ok_def bigint_header_def)
  have "col_width (grid_list h ! unat i) = 8" using t by (rule width_of_type)
  then show "unat (col_offs (grid_list h ! unat i)) + 8 \<le> length (g_rows g ! 0)"
    using dgrid_cell(3)[OF d] by (simp add: col_end_def)
  then show "seq_get h g i = Some (get_bigint (read_at (g_rows g ! 0) (unat (col_offs (grid_list h ! unat i))) 8))"
    using dgrid_cell(2)[OF d] by (simp add: seq_get_def cell_read_def)
qed

lemma seq_put_get:
  assumes "seq_ok h g" "unat i < 6"
  shows "\<exists>g'. seq_put h g i v = Some g' \<and> seq_ok h g' \<and> seq_get h g' i = Some v \<and>
    (\<forall>j. j \<noteq> i \<longrightarrow> unat j < 6 \<longrightarrow> seq_get h g' j = seq_get h g j)"
proof -
  have d: "dgrid_ok h g" "unat (0 :: u16) < length (grid_list g)" "unat i < length (grid_list h)"
    using assms by (auto simp: seq_ok_def bigint_header_def)
  have ig: "grid_inv g" and wf: "hgrid_wf h" using d(1) by (auto simp: dgrid_ok_def)
  have r0: "0 < length (g_rows g)" using grid_invD[OF ig] d(2) by simp
  let ?off = "\<lambda>i :: u16. unat (col_offs (grid_list h ! unat i))"
  have fit: "?off i + length (put_bigint v) \<le> length (g_rows g ! 0)" using seq_get_view(2)[OF assms] by simp
  note w = cell_write_frame[OF r0 fit]
  define g' where "g' = g\<lparr>g_rows := (g_rows g)[0 := write_at (g_rows g ! 0) (?off i) (put_bigint v)]\<rparr>"
  have put: "seq_put h g i v = Some g'"
    using dgrid_cell(2)[OF d] w(1) by (simp add: seq_put_def g'_def)
  have "dgrid_ok h g'"
    using d(1) fit r0 by (auto simp: dgrid_ok_def grid_inv_def g'_def dest!: set_update_subset_insert[THEN subsetD])
  then have ok': "seq_ok h g'" using assms(1) by (simp add: seq_ok_def g'_def grid_list_def)
  have "seq_get h g' i = Some v"
    using seq_get_view(1)[OF ok' assms(2)] w(2) by (simp add: g'_def)
  moreover have "seq_get h g' j = seq_get h g j" if j: "j \<noteq> i" "unat j < 6" for j
  proof -
    have jl: "unat j < length (grid_list h)" using assms(1) j(2) by (simp add: seq_ok_def bigint_header_def)
    have "col_width (grid_list h ! unat k) = 8" if "unat k < 6" for k :: u16
      using assms(1) that by (intro width_of_type) (auto simp: seq_ok_def bigint_header_def)
    moreover have "unat j \<noteq> unat i" using j(1) by (simp add: word_unat_eq_iff)
    ultimately have "?off j + 8 \<le> ?off i \<or> ?off i + length (put_bigint v) \<le> ?off j"
      using columns_disjoint[OF wf jl d(3)] j(2) assms(2) by (auto simp: col_end_def)
    then have "read_at (g_rows g' ! 0) (?off j) 8 = read_at (g_rows g ! 0) (?off j) 8"
      using w(3)[of 0 "?off j" 8] by (simp add: g'_def)
    then show ?thesis using seq_get_view(1)[OF ok' j(2)] seq_get_view(1)[OF assms(1) j(2)] by simp
  qed
  ultimately show ?thesis using put ok' by blast
qed

interpretation seq_cells: bigint_cells "seq_ok h" "seq_get h" "seq_put h" 6 for h
  by unfold_locales (simp add: seq_get_view(1), rule seq_put_get)

lemma hsequence_init_ok:
  obtains h where "hsequence_init = Some (h, 0)" "bigint_header h"
proof -
  let ?cs = "map (\<lambda>n. (ascii n, T_BIGINT, 8 :: u64)) [''min_val'', ''max_val'', ''last_val'', ''increment'', ''cycle'', ''is_called'']"
  have p: "24 \<le> unat (of_nat PAGESZ :: u16)" by (simp add: PAGESZ_def)
  obtain h0 where h0: "hgrid_init (of_nat PAGESZ) GL_FIXED GC_PURE = Some h0" "hgrid_wf h0" "grid_list h0 = []"
    "unat (g_rown h0) = (unat (of_nat PAGESZ :: u16) - 24) div 40" "g_datasz h0 = 0"
    using hgrid_init_wf[OF p] by metis
  have w: "unat (column_cursz T_BIGINT 8) = 8" by (simp add: column_cursz_def)
  have sum: "sum_list (map spec_width ?cs) = 48" by (simp add: w)
  have room: "length (grid_list h0) + length ?cs \<le> unat (g_rown h0)" using h0(3,4) by (simp add: PAGESZ_def)
  have spec: "\<forall>s \<in> set ?cs. spec_ok s" by (simp add: w NAMESZ_def ascii_def)
  have small: "unat (g_datasz h0) + 2 * sum_list (map spec_width ?cs) \<le> 65535" unfolding sum h0(5) by simp
  obtain h ds where h: "add_columns h0 ?cs = Some h" "hgrid_wf h"
    "unat (g_datasz h) \<le> unat (g_datasz h0) + 2 * sum_list (map spec_width ?cs)" "grid_list h = grid_list h0 @ ds"
    "map (\<lambda>c. (cname c, col_type c, col_size c)) ds = ?cs"
    using add_columns_ok[OF h0(2) room spec small] by (elim exE conjE) (rule that)
  have "hsequence_init = Some (h, 0)"
    using h(1) by (auto simp: hsequence_init_def h0(1) split: option.splits prod.splits)
  moreover have "bigint_header h"
  proof -
    have l: "length (grid_list h) = 6" using arg_cong[OF h(5), of length] h(4) h0(3) by simp
    have t: "\<forall>c \<in> set (grid_list h). col_type c = T_BIGINT"
      using arg_cong[OF h(5), of "\<lambda>l. fst ` snd ` set l"] h(4) h0(3) by (auto simp: image_image)
    have c: "grid_list h ! 0 \<in> set (grid_list h)" using l by simp
    then have "col_end (grid_list h ! 0) \<le> unat (g_datasz h)" using h(2) by (simp add: hgrid_wf_def)
    moreover have "col_width (grid_list h ! 0) = 8" using t c by (intro width_of_type) blast
    ultimately show ?thesis using l t h(2,3) by (simp add: bigint_header_def col_end_def h0(5) w)
  qed
  ultimately show thesis by (rule that)
qed

end
