(* ===== verification/Scr_Sequence_Laws.thy ===== *)
theory Scr_Sequence_Laws
  imports Scr_Sequence
begin

text \<open>
  A sequence as an abstract counter over the integers, and the proof that the grid of
  \<^verbatim>\<open>sequence.c\<close> implements it on any run of operations in which nextval does
  not leave the range of int64_t.
\<close>

section \<open>The abstract sequence\<close>

record seqv =
  sv_min :: int
  sv_max :: int
  sv_last :: int
  sv_inc :: int
  sv_cycle :: bool
  sv_called :: bool

datatype seq_op = Currval | Nextval | Setval i64 bool | SetMin i64 | SetMax i64 | SetInc i64 | SetCycle bool

definition in_i64 :: "int \<Rightarrow> bool" where
  "in_i64 v \<longleftrightarrow> - (2 ^ 63) \<le> v \<and> v < 2 ^ 63"

definition seq_inv :: "seqv \<Rightarrow> bool" where
  "seq_inv s \<longleftrightarrow> sv_min s < sv_max s \<and> sv_min s \<le> sv_last s \<and> sv_last s \<le> sv_max s \<and> sv_inc s \<noteq> 0 \<and>
     in_i64 (sv_min s) \<and> in_i64 (sv_max s) \<and> in_i64 (sv_inc s)"

text \<open>The next value: in the bounds, or from the other end when the sequence cycles.\<close>

definition seq_next :: "seqv \<Rightarrow> int option" where
  "seq_next s = (if \<not> sv_called s then Some (sv_last s)
     else if sv_min s \<le> sv_last s + sv_inc s \<and> sv_last s + sv_inc s \<le> sv_max s then Some (sv_last s + sv_inc s)
     else if sv_cycle s then Some (if 0 < sv_inc s then sv_min s else sv_max s)
     else None)"

text \<open>The state after an operation, the value it reports, and whether it succeeds.\<close>

fun seq_spec :: "seqv \<Rightarrow> seq_op \<Rightarrow> seqv \<times> int option \<times> bool" where
  "seq_spec s Currval = (s, if sv_called s then Some (sv_last s) else None, sv_called s)"
| "seq_spec s Nextval = (case seq_next s of None \<Rightarrow> (s, None, False)
     | Some v \<Rightarrow> (s\<lparr>sv_last := v, sv_called := True\<rparr>, Some v, True))"
| "seq_spec s (Setval v c) = (if sv_min s \<le> sint v \<and> sint v \<le> sv_max s
     then (s\<lparr>sv_last := sint v, sv_called := c\<rparr>, None, True) else (s, None, False))"
| "seq_spec s (SetMin v) = (if sint v < sv_max s \<and> sint v \<le> sv_last s
     then (s\<lparr>sv_min := sint v\<rparr>, None, True) else (s, None, False))"
| "seq_spec s (SetMax v) = (if sv_min s < sint v \<and> sv_last s \<le> sint v
     then (s\<lparr>sv_max := sint v\<rparr>, None, True) else (s, None, False))"
| "seq_spec s (SetInc v) = (if v \<noteq> 0 then (s\<lparr>sv_inc := sint v\<rparr>, None, True) else (s, None, False))"
| "seq_spec s (SetCycle c) = (s\<lparr>sv_cycle := c\<rparr>, None, True)"

text \<open>nextval adds in 64 bits.\<close>

definition seq_safe :: "seqv \<Rightarrow> seq_op \<Rightarrow> bool" where
  "seq_safe s op \<longleftrightarrow> (op = Nextval \<and> sv_called s \<longrightarrow> in_i64 (sv_last s + sv_inc s))"

fun seq_safe_run :: "seqv \<Rightarrow> seq_op list \<Rightarrow> bool" where
  "seq_safe_run s [] = True"
| "seq_safe_run s (op # ops) = (seq_safe s op \<and> seq_safe_run (fst (seq_spec s op)) ops)"

fun seq_spec_run :: "seqv \<Rightarrow> seq_op list \<Rightarrow> (int option \<times> bool) list" where
  "seq_spec_run s [] = []"
| "seq_spec_run s (op # ops) = snd (seq_spec s op) # seq_spec_run (fst (seq_spec s op)) ops"

section \<open>The same operations on the grid\<close>

fun seq_step :: "hgrid \<Rightarrow> dgrid \<Rightarrow> seq_op \<Rightarrow> (dgrid \<times> i64 option \<times> int) option" where
  "seq_step h g Currval = map_option (\<lambda>(v, r). (g, v, r)) (sequence_currval h g)"
| "seq_step h g Nextval = sequence_nextval h g"
| "seq_step h g (Setval v c) = map_option (\<lambda>(g, r). (g, None, r)) (sequence_setval h g v c)"
| "seq_step h g (SetMin v) = map_option (\<lambda>(g, r). (g, None, r)) (sequence_set_minval h g v)"
| "seq_step h g (SetMax v) = map_option (\<lambda>(g, r). (g, None, r)) (sequence_set_maxval h g v)"
| "seq_step h g (SetInc v) = map_option (\<lambda>(g, r). (g, None, r)) (sequence_set_increment h g v)"
| "seq_step h g (SetCycle c) = map_option (\<lambda>(g, r). (g, None, r)) (sequence_set_cycle h g c)"

fun seq_run :: "hgrid \<Rightarrow> dgrid \<Rightarrow> seq_op list \<Rightarrow> (int option \<times> bool) list option" where
  "seq_run h g [] = Some []"
| "seq_run h g (op # ops) = (case seq_step h g op of None \<Rightarrow> None
     | Some (g', v, r) \<Rightarrow> map_option ((#) (map_option sint v, r = 0)) (seq_run h g' ops))"

section \<open>The representation\<close>

definition seq_vals :: "seqv \<Rightarrow> i64 list" where
  "seq_vals s = [word_of_int (sv_min s), word_of_int (sv_max s), word_of_int (sv_last s),
     word_of_int (sv_inc s), of_bool (sv_cycle s), of_bool (sv_called s)]"

definition seq_rep :: "hgrid \<Rightarrow> dgrid \<Rightarrow> seqv \<Rightarrow> bool" where
  "seq_rep h g s \<longleftrightarrow> seq_inv s \<and> seq_cells.holds h g (seq_vals s)"

lemma sint_of_i64: "in_i64 v \<Longrightarrow> sint (word_of_int v :: i64) = v"
  unfolding in_i64_def by (intro sint_word_of_int_id) auto

lemma in_i64_sint [simp]: "in_i64 (sint (v :: i64))"
  using sint_ge[of v] sint_lt[of v] by (simp add: in_i64_def)

lemma seq_inv_range:
  assumes "seq_inv s"
  shows "sint (word_of_int (sv_min s) :: i64) = sv_min s" "sint (word_of_int (sv_max s) :: i64) = sv_max s"
    "sint (word_of_int (sv_last s) :: i64) = sv_last s" "sint (word_of_int (sv_inc s) :: i64) = sv_inc s"
    "(word_of_int (sv_inc s) :: i64) \<noteq> 0"
proof -
  have "in_i64 (sv_last s)" using assms by (auto simp: seq_inv_def in_i64_def)
  then show "sint (word_of_int (sv_min s) :: i64) = sv_min s" "sint (word_of_int (sv_max s) :: i64) = sv_max s"
    "sint (word_of_int (sv_last s) :: i64) = sv_last s" "sint (word_of_int (sv_inc s) :: i64) = sv_inc s"
    using assms by (auto simp: seq_inv_def sint_of_i64)
  then show "(word_of_int (sv_inc s) :: i64) \<noteq> 0" using assms by (metis seq_inv_def sint_0)
qed

lemma seq_rep_get:
  assumes "seq_rep h g s"
  shows "seq_get h g 0 = Some (word_of_int (sv_min s))" "seq_get h g 1 = Some (word_of_int (sv_max s))"
    "seq_get h g 2 = Some (word_of_int (sv_last s))" "seq_get h g 3 = Some (word_of_int (sv_inc s))"
    "seq_get h g 4 = Some (of_bool (sv_cycle s))" "seq_get h g 5 = Some (of_bool (sv_called s))"
  using seq_cells.holds_get[of h g "seq_vals s"] assms by (simp_all add: seq_rep_def seq_vals_def)

lemma seq_rep_put:
  assumes "seq_rep h g s" "unat i < 6" "seq_inv s'" "seq_vals s' = (seq_vals s)[unat i := v]"
  shows "\<exists>g'. seq_put h g i v = Some g' \<and> seq_rep h g' s'"
  using seq_cells.holds_put[of h g "seq_vals s" i v] assms by (auto simp: seq_rep_def)

lemma seq_rep_same: "seq_rep h g s \<Longrightarrow> seq_vals s' = seq_vals s \<Longrightarrow> seq_inv s' \<Longrightarrow> seq_rep h g s'"
  by (simp add: seq_rep_def)

section \<open>Every operation refines the abstract one\<close>

text \<open>What one step must establish.\<close>

definition seq_simulates :: "hgrid \<Rightarrow> (dgrid \<times> i64 option \<times> int) option \<Rightarrow> seqv \<times> int option \<times> bool \<Rightarrow> bool" where
  "seq_simulates h res out \<longleftrightarrow> (\<exists>g v r. res = Some (g, v, r) \<and> seq_rep h g (fst out) \<and>
     map_option sint v = fst (snd out) \<and> (r = 0 \<longleftrightarrow> snd (snd out)))"

lemma seq_simulatesI [rep_intros]:
  "res = Some (g, v, r) \<Longrightarrow> seq_rep h g s \<Longrightarrow> map_option sint v = v' \<Longrightarrow> (r = 0 \<longleftrightarrow> ok) \<Longrightarrow>
   seq_simulates h res (s, v', ok)"
  by (simp add: seq_simulates_def)

lemma seq_rep_inv: "seq_rep h g s \<Longrightarrow> seq_inv s"
  by (simp add: seq_rep_def)

lemma sint_add_i64:
  assumes "in_i64 (a + b)"
  shows "sint (word_of_int a + word_of_int b :: i64) = a + b"
proof -
  have "word_of_int a + word_of_int b = (word_of_int (a + b) :: i64)" by (rule wi_hom_add)
  then show ?thesis using sint_of_i64[OF assms] by simp
qed

lemma nextval_simulates:
  assumes r: "seq_rep h g s" and safe: "seq_safe s Nextval"
  shows "seq_simulates h (sequence_nextval h g) (seq_spec s Nextval)"
proof -
  note g = seq_rep_get[OF r] and inv = seq_rep_inv[OF r]
  note rg = seq_inv_range[OF inv]
  show ?thesis
  proof (cases "sv_called s")
    case False
    let ?s' = "s\<lparr>sv_last := sv_last s, sv_called := True\<rparr>"
    have "seq_inv ?s'" "seq_vals ?s' = (seq_vals s)[unat (5 :: u16) := 1]"
      using inv by (simp_all add: seq_inv_def seq_vals_def)
    then obtain g' where p: "seq_put h g 5 1 = Some g'" "seq_rep h g' ?s'"
      using seq_rep_put[OF r, of 5 ?s' 1] by auto
    have "sequence_nextval h g = Some (g', Some (word_of_int (sv_last s)), 0)"
      using False rg(5) by (simp add: sequence_nextval_def g p(1))
    then show ?thesis using p(2) False rg(3) by (simp add: seq_simulates_def seq_next_def)
  next
    case True
    let ?v = "sv_last s + sv_inc s"
    have "in_i64 ?v" using safe True by (simp add: seq_safe_def)
    then have sv: "sint (word_of_int (sv_last s) + word_of_int (sv_inc s) :: i64) = ?v" by (rule sint_add_i64)
    have put: "\<exists>g'. seq_put h g 2 w = Some g' \<and> seq_rep h g' (s\<lparr>sv_last := sint w, sv_called := True\<rparr>)"
      if "sv_min s \<le> sint w" "sint w \<le> sv_max s" for w :: i64
      using that inv True by (intro seq_rep_put[OF r]) (simp_all add: seq_inv_def seq_vals_def)
    consider (ok) "sv_min s \<le> ?v" "?v \<le> sv_max s"
      | (up) "0 < sv_inc s" "sv_max s < ?v" | (down) "\<not> 0 < sv_inc s" "?v < sv_min s"
      using inv unfolding seq_inv_def by linarith
    then show ?thesis
    proof cases
      case ok
      obtain g' where p: "seq_put h g 2 (word_of_int (sv_last s) + word_of_int (sv_inc s)) = Some g'"
        "seq_rep h g' (s\<lparr>sv_last := ?v, sv_called := True\<rparr>)"
        using put[of "word_of_int (sv_last s) + word_of_int (sv_inc s)"] ok sv by auto
      then show ?thesis using ok True sv rg
        by (simp add: seq_simulates_def seq_next_def sequence_nextval_def g Let_def)
    next
      case up
      then have n: "seq_next s = (if sv_cycle s then Some (sv_min s) else None)"
        using True inv by (auto simp: seq_next_def)
      have m: "sv_min s \<le> sv_max s" using inv by (simp add: seq_inv_def)
      obtain g' where p: "seq_put h g 2 (word_of_int (sv_min s)) = Some g'"
        "seq_rep h g' (s\<lparr>sv_last := sv_min s, sv_called := True\<rparr>)"
        using put[of "word_of_int (sv_min s)"] m rg by auto
      then show ?thesis using up True sv rg r
        by (simp add: seq_simulates_def n sequence_nextval_def g Let_def)
    next
      case down
      then have n: "seq_next s = (if sv_cycle s then Some (sv_max s) else None)"
        using True inv by (auto simp: seq_next_def)
      have m: "sv_min s \<le> sv_max s" using inv by (simp add: seq_inv_def)
      obtain g' where p: "seq_put h g 2 (word_of_int (sv_max s)) = Some g'"
        "seq_rep h g' (s\<lparr>sv_last := sv_max s, sv_called := True\<rparr>)"
        using put[of "word_of_int (sv_max s)"] m rg by auto
      then show ?thesis using down True sv rg r
        by (simp add: seq_simulates_def n sequence_nextval_def g Let_def)
    qed
  qed
qed

lemma setval_simulates:
  assumes r: "seq_rep h g s"
  shows "seq_simulates h (map_option (\<lambda>(g, r). (g, None, r)) (sequence_setval h g v c)) (seq_spec s (Setval v c))"
proof -
  note g = seq_rep_get[OF r] and inv = seq_rep_inv[OF r]
  note rg = seq_inv_range[OF inv]
  show ?thesis
  proof (cases "sv_min s \<le> sint v \<and> sint v \<le> sv_max s")
    case True
    let ?s1 = "s\<lparr>sv_last := sint v\<rparr>" and ?s2 = "s\<lparr>sv_last := sint v, sv_called := c\<rparr>"
    have "seq_inv ?s1" "seq_vals ?s1 = (seq_vals s)[unat (2 :: u16) := v]"
      using inv True by (simp_all add: seq_inv_def seq_vals_def)
    then obtain g1 where g1: "seq_put h g 2 v = Some g1" "seq_rep h g1 ?s1" using seq_rep_put[OF r, of 2 ?s1 v] by auto
    have "seq_inv ?s2" "seq_vals ?s2 = (seq_vals ?s1)[unat (5 :: u16) := of_bool c]"
      using inv True by (simp_all add: seq_inv_def seq_vals_def)
    then obtain g2 where g2: "seq_put h g1 5 (of_bool c) = Some g2" "seq_rep h g2 ?s2"
      using seq_rep_put[OF g1(2), of 5 ?s2 "of_bool c"] by auto
    show ?thesis using True rg g1(1) g2 by (simp add: seq_simulates_def sequence_setval_def g)
  next
    case False
    then show ?thesis using rg r by (auto simp: seq_simulates_def sequence_setval_def g)
  qed
qed

text \<open>The operations that check a value and put it into one cell.\<close>

lemma set_one_simulates:
  assumes r: "seq_rep h g s" and i: "unat i < 6"
    and res: "res = (if cond then Some (g, 1) else map_option (\<lambda>g. (g, 0)) (seq_put h g i v))"
    and s': "\<not> cond \<Longrightarrow> seq_inv s' \<and> seq_vals s' = (seq_vals s)[unat i := v]"
    and out: "out = (if cond then (s, None, False) else (s', None, True))"
  shows "seq_simulates h (map_option (\<lambda>(g, r). (g, None, r)) res) out"
proof (cases cond)
  case False
  then obtain g' where "seq_put h g i v = Some g'" "seq_rep h g' s'" using seq_rep_put[OF r i] s' by blast
  then show ?thesis using False res out by (simp add: seq_simulates_def)
qed (use r res out in \<open>simp add: seq_simulates_def\<close>)

lemma seq_step_simulates:
  assumes r: "seq_rep h g s" and safe: "seq_safe s op"
  shows "seq_simulates h (seq_step h g op) (seq_spec s op)"
proof -
  note g = seq_rep_get[OF r] and inv = seq_rep_inv[OF r]
  note rg = seq_inv_range[OF inv]
  show ?thesis
  proof (cases op)
    case Currval
    then show ?thesis using r rg by (simp add: seq_simulates_def sequence_currval_def g)
  next
    case Nextval
    then show ?thesis using nextval_simulates[OF r] safe by simp
  next
    case (Setval v c)
    then show ?thesis using setval_simulates[OF r] by simp
  next
    case (SetMin v)
    show ?thesis unfolding SetMin seq_step.simps
      by (rule set_one_simulates[OF r, of 0 _ "sv_max s \<le> sint v \<or> sv_last s < sint v" v "s\<lparr>sv_min := sint v\<rparr>"])
        (use rg inv in \<open>auto simp: sequence_set_minval_def g seq_inv_def seq_vals_def\<close>)
  next
    case (SetMax v)
    show ?thesis unfolding SetMax seq_step.simps
      by (rule set_one_simulates[OF r, of 1 _ "sint v \<le> sv_min s \<or> sint v < sv_last s" v "s\<lparr>sv_max := sint v\<rparr>"])
        (use rg inv in \<open>auto simp: sequence_set_maxval_def g seq_inv_def seq_vals_def\<close>)
  next
    case (SetInc v)
    have "v \<noteq> 0 \<Longrightarrow> sint v \<noteq> 0" by (metis signed_0 signed_word_eqI)
    then show ?thesis unfolding SetInc seq_step.simps
      by (intro set_one_simulates[OF r, of 3 _ "v = 0" v "s\<lparr>sv_inc := sint v\<rparr>"])
        (use rg inv in \<open>auto simp: sequence_set_increment_def g seq_inv_def seq_vals_def\<close>)
  next
    case (SetCycle c)
    show ?thesis unfolding SetCycle seq_step.simps
      by (rule set_one_simulates[OF r, of 4 _ False "of_bool c" "s\<lparr>sv_cycle := c\<rparr>"])
        (use rg inv in \<open>auto simp: sequence_set_cycle_def g seq_inv_def seq_vals_def\<close>)
  qed
qed

lemma seq_run_refines:
  "seq_rep h g s \<Longrightarrow> seq_safe_run s ops \<Longrightarrow> seq_run h g ops = Some (seq_spec_run s ops)"
proof (induction ops arbitrary: g s)
  case (Cons op ops)
  obtain g' v r where st: "seq_step h g op = Some (g', v, r)" "seq_rep h g' (fst (seq_spec s op))"
    "map_option sint v = fst (snd (seq_spec s op))" "r = 0 \<longleftrightarrow> snd (snd (seq_spec s op))"
    using seq_step_simulates[OF Cons.prems(1), of op] Cons.prems(2) by (auto simp: seq_simulates_def)
  have "(map_option sint v, r = 0) = snd (seq_spec s op)" using st(3,4) by (simp add: prod_eq_iff)
  then show ?case using Cons.IH[OF st(2)] Cons.prems(2) st(1) by simp
qed simp

section \<open>Creating a sequence\<close>

definition new_seq :: "i64 \<Rightarrow> i64 \<Rightarrow> i64 \<Rightarrow> i64 \<Rightarrow> bool \<Rightarrow> seqv" where
  "new_seq mn mx st inc cyc = \<lparr>sv_min = sint mn, sv_max = sint mx, sv_last = sint st, sv_inc = sint inc,
     sv_cycle = cyc, sv_called = False\<rparr>"

definition seq_args_ok :: "i64 \<Rightarrow> i64 \<Rightarrow> i64 \<Rightarrow> i64 \<Rightarrow> bool" where
  "seq_args_ok mn mx st inc \<longleftrightarrow> sint mn < sint mx \<and> sint mn \<le> sint st \<and> sint st \<le> sint mx \<and> inc \<noteq> 0"

lemma seq_page:
  assumes "bigint_header h"
  shows "\<exists>g. dgrid_init (of_nat PAGESZ) GL_FIXED GC_PURE h = Some g \<and> seq_ok h (fst (grid_alloc_row g))"
proof -
  have wf: "hgrid_wf h" "0 < unat (g_datasz h)" "unat (g_datasz h) \<le> 65532" and d: "unat (g_datasz h) \<le> 96"
    using assms by (auto simp: bigint_header_def)
  have p: "24 \<le> unat (of_nat PAGESZ :: u16)" by (simp add: PAGESZ_def)
  obtain g where g: "dgrid_init (of_nat PAGESZ) GL_FIXED GC_PURE h = Some g" "dgrid_ok h g" "grid_list g = []"
    "unat (g_rown g) = (unat (of_nat PAGESZ :: u16) - 24) div unat (g_rowsz g)"
    "unat (g_datasz h) \<le> unat (g_rowsz g)" "unat (g_rowsz g) < unat (g_datasz h) + 4"
    using dgrid_init_ok[OF wf p, of GL_FIXED GC_PURE] by metis
  have "0 < unat (g_rowsz g)" "unat (g_rowsz g) \<le> 100" using g(5,6) wf(2) d by simp_all
  then have "0 < 4072 div unat (g_rowsz g)" by (simp add: div_greater_zero_iff)
  then have "0 < unat (g_rown g)" using g(4) by (simp add: PAGESZ_def)
  have inv: "grid_inv g" using g(2) by (simp add: dgrid_ok_def)
  have lt: "g_occupied g < g_rown g"
    using \<open>0 < unat (g_rown g)\<close> g(3) grid_invD(3)[OF inv] by (simp add: word_less_nat_alt)
  have a: "fst (grid_alloc_row g) = g\<lparr>g_occupied := g_occupied g + 1\<rparr>" using lt by (simp add: grid_alloc_row_def)
  have "dgrid_ok h (fst (grid_alloc_row g))"
    using g(2) grid_alloc_row_inv(1)[OF inv lt] unfolding a by (simp add: dgrid_ok_def)
  moreover have "0 < length (grid_list (fst (grid_alloc_row g)))"
    unfolding a grid_alloc_row_inv(2)[OF inv lt] by simp
  ultimately show ?thesis using g(1) assms by (auto simp: seq_ok_def)
qed

lemma sequence_init_ok:
  assumes h: "bigint_header h" and "seq_args_ok mn mx st inc"
  shows "\<exists>g. sequence_init h mn mx st inc cyc = Some (Some g, 0) \<and> seq_rep h g (new_seq mn mx st inc cyc)"
proof -
  obtain g where g: "dgrid_init (of_nat PAGESZ) GL_FIXED GC_PURE h = Some g" "seq_ok h (fst (grid_alloc_row g))"
    using seq_page[OF h] by blast
  let ?g = "fst (grid_alloc_row g)"
  obtain vs where vs: "seq_cells.holds h ?g vs" using seq_cells.holds_exists[OF g(2)] by auto
  then have len: "length vs = 6" by (simp add: seq_cells.holds_def)
  obtain g0 where p0: "seq_put h ?g 0 mn = Some g0" "seq_cells.holds h g0 (vs[unat (0 :: u16) := mn])"
    using seq_cells.holds_put[OF vs, of 0 mn] by auto
  obtain g1 where p1: "seq_put h g0 1 mx = Some g1" "seq_cells.holds h g1 (vs[unat (0 :: u16) := mn, unat (1 :: u16) := mx])"
    using seq_cells.holds_put[OF p0(2), of 1 mx] by auto
  obtain g2 where p2: "seq_put h g1 2 st = Some g2"
    "seq_cells.holds h g2 (vs[unat (0 :: u16) := mn, unat (1 :: u16) := mx, unat (2 :: u16) := st])"
    using seq_cells.holds_put[OF p1(2), of 2 st] by auto
  obtain g3 where p3: "seq_put h g2 3 inc = Some g3" "seq_cells.holds h g3
      (vs[unat (0 :: u16) := mn, unat (1 :: u16) := mx, unat (2 :: u16) := st, unat (3 :: u16) := inc])"
    using seq_cells.holds_put[OF p2(2), of 3 inc] by auto
  obtain g4 where p4: "seq_put h g3 4 (of_bool cyc) = Some g4" "seq_cells.holds h g4
      (vs[unat (0 :: u16) := mn, unat (1 :: u16) := mx, unat (2 :: u16) := st, unat (3 :: u16) := inc,
        unat (4 :: u16) := of_bool cyc])"
    using seq_cells.holds_put[OF p3(2), of 4 "of_bool cyc"] by auto
  obtain g5 where p5: "seq_put h g4 5 0 = Some g5" "seq_cells.holds h g5
      (vs[unat (0 :: u16) := mn, unat (1 :: u16) := mx, unat (2 :: u16) := st, unat (3 :: u16) := inc,
        unat (4 :: u16) := of_bool cyc, unat (5 :: u16) := 0])"
    using seq_cells.holds_put[OF p4(2), of 5 0] by auto
  obtain a b c d e f where "vs = [a, b, c, d, e, f]"
    using len by (auto simp: eval_nat_numeral length_Suc_conv)
  then have "seq_cells.holds h g5 (seq_vals (new_seq mn mx st inc cyc))"
    using p5(2) by (simp add: seq_vals_def new_seq_def)
  moreover have "seq_inv (new_seq mn mx st inc cyc)"
    using assms(2) by (auto simp: seq_inv_def new_seq_def seq_args_ok_def) (metis signed_0 signed_word_eqI)
  moreover have "sequence_init h mn mx st inc cyc = Some (Some g5, 0)"
    using assms(2) p0(1) p1(1) p2(1) p3(1) p4(1) p5(1)
    by (simp add: sequence_init_def seq_args_ok_def g(1) split_beta Let_def)
  ultimately show ?thesis by (auto simp: seq_rep_def)
qed

lemma sequence_init_error:
  "\<not> seq_args_ok mn mx st inc \<Longrightarrow> sequence_init h mn mx st inc cyc = Some (None, 1)"
  by (auto simp: sequence_init_def seq_args_ok_def)

text \<open>
  C33: A sequence created with valid bounds behaves, result by result, on any run of its seven
  operations as an abstract bounded counter over the integers, as long as nextval does not
  leave int64_t; invalid arguments are rejected with 1.
\<close>

theorem sequence_refines:
  assumes "hsequence_init = Some (h, 0)"
  shows "if seq_args_ok mn mx st inc
    then \<exists>g. sequence_init h mn mx st inc cyc = Some (Some g, 0) \<and>
      (\<forall>ops. seq_safe_run (new_seq mn mx st inc cyc) ops \<longrightarrow>
         seq_run h g ops = Some (seq_spec_run (new_seq mn mx st inc cyc) ops))
    else sequence_init h mn mx st inc cyc = Some (None, 1)"
proof -
  have "bigint_header h" using hsequence_init_ok assms by (metis option.inject prod.inject)
  then show ?thesis
    using sequence_init_ok[of h mn mx st inc cyc] sequence_init_error seq_run_refines by auto
qed

theorem sequence_refines_witness:
  "\<exists>h g. hsequence_init = Some (h, 0) \<and> sequence_init h 1 3 2 1 True = Some (Some g, 0) \<and>
     seq_run h g [Nextval, Nextval, Nextval, Currval] =
       Some [(Some 2, True), (Some 3, True), (Some 1, True), (Some 1, True)]"
proof -
  obtain h where h: "hsequence_init = Some (h, 0)" by (rule hsequence_init_ok)
  have ok: "seq_args_ok 1 3 2 1" by (simp add: seq_args_ok_def)
  let ?ops = "[Nextval, Nextval, Nextval, Currval]" and ?s = "new_seq 1 3 2 1 True"
  have safe: "seq_safe_run ?s ?ops"
    by (simp add: new_seq_def seq_safe_def seq_next_def in_i64_def)
  have "seq_spec_run ?s ?ops = [(Some 2, True), (Some 3, True), (Some 1, True), (Some 1, True)]"
    by (simp add: new_seq_def seq_next_def)
  moreover obtain g where "sequence_init h 1 3 2 1 True = Some (Some g, 0)"
    "seq_run h g ?ops = Some (seq_spec_run ?s ?ops)"
    using sequence_refines[OF h, of 1 3 2 1 True] safe unfolding if_P[OF ok] by blast
  ultimately show ?thesis using h by metis
qed

section \<open>Counting\<close>

text \<open>The state after the first call, at the value \<open>v\<close>.\<close>

abbreviation counting :: "seqv \<Rightarrow> int \<Rightarrow> seqv" where
  "counting s v \<equiv> s\<lparr>sv_last := v, sv_called := True\<rparr>"

abbreviation in_bounds :: "seqv \<Rightarrow> int \<Rightarrow> bool" where
  "in_bounds s v \<equiv> sv_min s \<le> v \<and> v \<le> sv_max s"

lemma upt_Suc_map: "[0..<Suc n] = 0 # map Suc [0..<n]"
  by (simp add: map_Suc_upt upt_conv_Cons del: upt_Suc)

lemma out_stays_out:
  assumes "in_bounds s v" "\<not> in_bounds s (v + sv_inc s)"
  shows "\<not> in_bounds s (v + int (Suc k) * sv_inc s)"
proof -
  define m where "m = int (Suc k) * sv_inc s"
  show ?thesis
  proof (cases "0 \<le> sv_inc s")
    case True
    then have "sv_inc s \<le> m" using mult_right_mono[of 1 "int (Suc k)" "sv_inc s"] by (simp only: m_def) simp
    then show ?thesis using assms True unfolding m_def[symmetric] by linarith
  next
    case False
    then have "m \<le> sv_inc s" using mult_right_mono_neg[of 1 "int (Suc k)" "sv_inc s"] by (simp only: m_def) simp
    then show ?thesis using assms False unfolding m_def[symmetric] by linarith
  qed
qed

lemma counting_run:
  assumes "in_bounds s v" "\<not> sv_cycle s"
  shows "seq_spec_run (counting s v) (replicate n Nextval) =
    map (\<lambda>i. let w = v + int (Suc i) * sv_inc s in if in_bounds s w then (Some w, True) else (None, False)) [0..<n]"
  using assms(1)
proof (induction n arbitrary: v)
  case (Suc n)
  note upt = upt_Suc_map[of n]
  show ?case
  proof (cases "in_bounds s (v + sv_inc s)")
    case True
    have e: "v + sv_inc s + int (Suc i) * sv_inc s = v + int (Suc (Suc i)) * sv_inc s" for i
      by (simp add: algebra_simps)
    show ?thesis using Suc.IH[OF True, unfolded e] True unfolding upt
      by (simp add: seq_next_def Let_def)
  next
    case False
    then have "seq_next (counting s v) = None" using assms(2) by (auto simp: seq_next_def)
    moreover have none: "(let w = v + int (Suc i) * sv_inc s in if in_bounds s w then (Some w, True) else (None, False)) =
        (None, False)" for i
      using out_stays_out[OF Suc.prems False, of i] by (simp only: Let_def if_False)
    ultimately show ?thesis using Suc.IH[OF Suc.prems] unfolding none upt by simp
  qed
qed simp

lemma counting_safe:
  assumes "in_bounds s v" "in_i64 (sv_min s + sv_inc s)" "in_i64 (sv_max s + sv_inc s)" "\<not> sv_cycle s"
  shows "seq_safe_run (counting s v) (replicate n Nextval)"
  using assms(1)
proof (induction n arbitrary: v)
  case (Suc n)
  have "in_i64 (v + sv_inc s)" using assms(2,3) Suc.prems by (auto simp: in_i64_def)
  then show ?case using Suc.IH[OF Suc.prems] Suc.IH[of "v + sv_inc s"] assms(4)
    by (auto simp: seq_safe_def seq_next_def)
qed simp

text \<open>
  A fresh sequence that does not cycle returns start, start + increment, and so on, while
  the value is in its bounds, and fails with 1 on every call after that, ascending or
  descending.
\<close>

lemma sequence_counts:
  assumes "hsequence_init = Some (h, 0)" and "sequence_init h mn mx st inc False = Some (Some g, 0)"
    and "in_i64 (sint mn + sint inc)" and "in_i64 (sint mx + sint inc)"
  shows "seq_run h g (replicate n Nextval) =
    Some (map (\<lambda>i. let w = sint st + int i * sint inc in
      if sint mn \<le> w \<and> w \<le> sint mx then (Some w, True) else (None, False)) [0..<n])"
proof (cases n)
  case (Suc m)
  let ?s = "new_seq mn mx st inc False"
  have "bigint_header h" using hsequence_init_ok assms(1) by (metis option.inject prod.inject)
  moreover have ok: "seq_args_ok mn mx st inc" using assms(2) sequence_init_error by force
  ultimately have rep: "seq_rep h g ?s" using sequence_init_ok[of h mn mx st inc False] assms(2) by auto
  have b: "in_bounds ?s (sint st)" "\<not> sv_cycle ?s" "sv_inc ?s = sint inc" "sv_min ?s = sint mn" "sv_max ?s = sint mx"
    using ok by (auto simp: new_seq_def seq_args_ok_def)
  have first: "seq_spec ?s Nextval = (counting ?s (sint st), Some (sint st), True)"
    by (simp add: seq_next_def new_seq_def)
  have "seq_safe_run ?s (replicate n Nextval)"
    using counting_safe[of ?s "sint st" m, OF b(1) _ _ b(2)] assms(3,4) b first Suc
    by (simp add: seq_safe_def del: seq_spec.simps) (simp add: new_seq_def)
  then have "seq_run h g (replicate n Nextval) = Some (seq_spec_run ?s (replicate n Nextval))"
    by (rule seq_run_refines[OF rep])
  moreover note upt = upt_Suc_map[of m]
  ultimately show ?thesis
    using counting_run[OF b(1,2), of m] b(1) first unfolding Suc upt b(3-5)
    by (simp add: Let_def del: seq_spec.simps)
qed simp

lemma sequence_counts_example:
  "\<exists>h g. hsequence_init = Some (h, 0) \<and> sequence_init h 1 6 2 3 False = Some (Some g, 0) \<and>
     seq_run h g (replicate 3 Nextval) = Some [(Some 2, True), (Some 5, True), (None, False)]"
proof -
  obtain h where h: "hsequence_init = Some (h, 0)" "bigint_header h" by (rule hsequence_init_ok)
  have ok: "seq_args_ok 1 6 2 3" by (simp add: seq_args_ok_def)
  obtain g where g: "sequence_init h 1 6 2 3 False = Some (Some g, 0)" using sequence_init_ok[OF h(2) ok] by blast
  have "in_i64 (sint (1 :: i64) + sint (3 :: i64))" "in_i64 (sint (6 :: i64) + sint (3 :: i64))"
    by (simp_all add: in_i64_def)
  from sequence_counts[OF h(1) g this, of 3] show ?thesis using h(1) g by (auto simp: upt_rec)
qed

text \<open>
  A sequence whose maximum is INT64_MAX does not end there: the sum in nextval overflows,
  the bound test is passed, and INT64_MIN is returned, far below the minimum.
\<close>

lemma sequence_overflow_escapes:
  assumes "hsequence_init = Some (h, 0)"
    and "sequence_init h 1 9223372036854775807 9223372036854775807 1 cyc = Some (Some g, 0)"
  shows "seq_run h g [Nextval, Nextval] = Some [(Some 9223372036854775807, True), (Some (- 9223372036854775808), True)]"
proof -
  have "bigint_header h" using hsequence_init_ok assms(1) by (metis option.inject prod.inject)
  moreover have "seq_args_ok 1 9223372036854775807 9223372036854775807 1" by (simp add: seq_args_ok_def)
  ultimately have r: "seq_rep h g (new_seq 1 9223372036854775807 9223372036854775807 1 cyc)" (is "seq_rep h g ?s")
    using sequence_init_ok[of h 1 9223372036854775807 9223372036854775807 1 cyc] assms(2) by auto
  have "seq_safe ?s Nextval" by (simp add: seq_safe_def new_seq_def)
  then obtain g' v r where st: "seq_step h g Nextval = Some (g', v, r)" "seq_rep h g' (fst (seq_spec ?s Nextval))"
    "map_option sint v = Some (sint (9223372036854775807 :: i64))" "r = 0"
    using seq_step_simulates[OF r, of Nextval] by (auto simp: seq_simulates_def seq_next_def new_seq_def)
  have f: "fst (seq_spec ?s Nextval) = ?s\<lparr>sv_called := True\<rparr>" by (simp add: seq_next_def new_seq_def)
  note g = seq_rep_get[OF st(2)[unfolded f], simplified new_seq_def, simplified]
  have ok: "seq_ok h g'" using st(2) unfolding seq_rep_def seq_cells.holds_def by blast
  obtain g2 where "seq_put h g' 2 9223372036854775808 = Some g2"
    using seq_put_get[OF ok, of 2 9223372036854775808] by auto
  then have "sequence_nextval h g' = Some (g2, Some 9223372036854775808, 0)"
    by (simp add: sequence_nextval_def g)
  then show ?thesis using st by simp
qed

lemma sequence_overflow_escapes_example:
  "\<exists>h g. hsequence_init = Some (h, 0) \<and>
     sequence_init h 1 9223372036854775807 9223372036854775807 1 False = Some (Some g, 0) \<and>
     seq_run h g [Nextval, Nextval] = Some [(Some 9223372036854775807, True), (Some (- 9223372036854775808), True)]"
proof -
  obtain h where h: "hsequence_init = Some (h, 0)" "bigint_header h" by (rule hsequence_init_ok)
  have ok: "seq_args_ok 1 9223372036854775807 9223372036854775807 1" by (simp add: seq_args_ok_def)
  obtain g where g: "sequence_init h 1 9223372036854775807 9223372036854775807 1 False = Some (Some g, 0)"
    using sequence_init_ok[OF h(2) ok] by blast
  from sequence_overflow_escapes[OF h(1) g] show ?thesis using h(1) g by blast
qed

end
