(* ===== verification/Scr_Mesh.thy ===== *)
theory Scr_Mesh
  imports Scr_Sequence
begin

text \<open>
  \<^verbatim>\<open>lib/core/src/mesh.h\<close> and \<^verbatim>\<open>mesh.c\<close>: data grids chained over pages
  by their \<open>next\<close> gid, with an iterator over their rows. The pages are a store that maps
  gids to the grids in them (what the page cache gives back for a gid, see
  \<^verbatim>\<open>Scr_Pagecache_Laws\<close>); a Grid pointer is the gid of its page. \<open>None\<close> is a
  failed assert, a NULL pointer, or a page used as what it is not.
\<close>

section \<open>The code\<close>

record store =
  st_h :: "gid \<Rightarrow> hgrid option"
  st_d :: "gid \<Rightarrow> dgrid option"

definition put_data :: "store \<Rightarrow> gid \<Rightarrow> dgrid \<Rightarrow> store" where
  "put_data s g d = s\<lparr>st_d := (st_d s)(g \<mapsto> d)\<rparr>"

record mitor =
  m_gp :: gid_pair
  m_header :: "gid option"
  m_data :: "gid option"
  m_row :: u16

definition mitor_init :: "gid_pair \<Rightarrow> gid \<Rightarrow> gid \<Rightarrow> mitor" where
  "mitor_init gp h d = \<lparr>m_gp = gp, m_header = Some h, m_data = Some d, m_row = 0\<rparr>"

definition mitor_init_invalid :: mitor where
  "mitor_init_invalid = \<lparr>m_gp = \<lparr>gp_header = GID_UNDEF, gp_data = GID_UNDEF\<rparr>, m_header = None, m_data = None, m_row = 0\<rparr>"

text \<open>The page behind the data pointer is read only when the gids are defined.\<close>

definition mitor_is_valid :: "store \<Rightarrow> mitor \<Rightarrow> bool option" where
  "mitor_is_valid s m =
     (if gp_header (m_gp m) \<noteq> GID_UNDEF \<and> gp_data (m_gp m) \<noteq> GID_UNDEF
      then (case m_data m of None \<Rightarrow> Some False
         | Some g \<Rightarrow> map_option (\<lambda>d. m_row m < g_occupied d) (st_d s g))
      else Some False)"

text \<open>The first step after a full tail: the gid of the next page, from the same file or a new one.\<close>

definition mesh_new_gid :: "gid_pair \<Rightarrow> store \<Rightarrow> gid \<Rightarrow> (store \<times> gid option) option" where
  "mesh_new_gid seq s g =
     (if gid_page g < GID_MAXPAGE then Some (s, Some (gid_parts (gid_file_id g) (gid_page g + 1)))
      else Option.bind (st_h s (gp_header seq)) (\<lambda>hsequence.
        Option.bind (st_d s (gp_data seq)) (\<lambda>sequence.
        Option.bind (sequence_nextval hsequence sequence) (\<lambda>(sequence', currval, ret).
          let s' = put_data s (gp_data seq) sequence' in
          if ret \<noteq> 0 then Some (s', None)
          else Some (s', map_option (\<lambda>v. gid_parts v 0) currval)))))"

definition mesh_alloc_row :: "gid_pair \<Rightarrow> store \<Rightarrow> gid_pair \<Rightarrow> (store \<times> gid_pair \<times> mitor) option" where
  "mesh_alloc_row seq s tail =
     (let old = gp_data tail; header = gp_header tail in
      Option.bind (st_d s old) (\<lambda>data.
      let (data', row) = grid_alloc_row data; s1 = put_data s old data' in
      if g_next data' \<noteq> GID_UNDEF then None
      else if row \<noteq> GRID_INVALID_IDX
      then Some (s1, tail, \<lparr>m_gp = tail, m_header = Some header, m_data = Some old, m_row = row\<rparr>)
      else Option.bind (mesh_new_gid seq s1 old) (\<lambda>(s2, new).
        case new of None \<Rightarrow> Some (s2, tail, mitor_init_invalid)
        | Some ng \<Rightarrow>
          let tail' = tail\<lparr>gp_data := ng\<rparr> in
          Option.bind (st_h s2 header) (\<lambda>h.
          Option.bind (st_d s2 old) (\<lambda>old_data.
          Option.bind (dgrid_init (of_nat PAGESZ) (g_layout old_data) (g_content old_data) h) (\<lambda>fresh.
          let s3 = put_data s2 ng fresh in
          Option.bind (st_d s3 old) (\<lambda>old_data.
          let s4 = put_data s3 old (old_data\<lparr>g_next := ng\<rparr>) in
          Option.bind (st_d s4 ng) (\<lambda>fresh.
          let (fresh', row) = grid_alloc_row fresh in
          Some (put_data s4 ng fresh', tail',
                \<lparr>m_gp = tail', m_header = Some header, m_data = Some ng, m_row = row\<rparr>)))))))))"

definition hmesh_add_column :: "hgrid \<Rightarrow> u8 list \<Rightarrow> sql_type \<Rightarrow> u64 \<Rightarrow> (hgrid \<times> nat option) option" where
  "hmesh_add_column g name type sz = hgrid_add_column g name type sz"

definition mitor_next :: "store \<Rightarrow> mitor \<Rightarrow> mitor option" where
  "mitor_next s m = Option.bind (mitor_is_valid s m) (\<lambda>valid.
     if \<not> valid then Some m
     else let m1 = m\<lparr>m_row := m_row m + 1\<rparr> in
       Option.bind (mitor_is_valid s m1) (\<lambda>valid1.
         if valid1 then Some m1
         else Option.bind (m_data m1) (\<lambda>g. Option.bind (st_d s g) (\<lambda>d.
           if g_next d = GID_UNDEF then Some m1
           else Some (m1\<lparr>m_gp := (m_gp m1)\<lparr>gp_data := g_next d\<rparr>, m_data := Some (g_next d), m_row := 0\<rparr>)))))"

definition mitor_delete :: "store \<Rightarrow> mitor \<Rightarrow> store option" where
  "mitor_delete s m = Option.bind (m_data m) (\<lambda>g. Option.bind (st_d s g) (\<lambda>d.
     Option.bind (grid_delete_row d (m_row m)) (\<lambda>(d', ret).
       if ret = GRID_INVALID_IDX then None else Some (put_data s g d'))))"

definition mitor_get_datum :: "store \<Rightarrow> mitor \<Rightarrow> u16 \<Rightarrow> datum option" where
  "mitor_get_datum s m c = Option.bind (m_header m) (\<lambda>hg. Option.bind (st_h s hg) (\<lambda>h.
     Option.bind (m_data m) (\<lambda>g. Option.bind (st_d s g) (\<lambda>d. grid_get_datum h d (m_row m) c))))"

definition mitor_put_datum :: "store \<Rightarrow> mitor \<Rightarrow> u16 \<Rightarrow> datum \<Rightarrow> (store \<times> int) option" where
  "mitor_put_datum s m c v = Option.bind (m_header m) (\<lambda>hg. Option.bind (st_h s hg) (\<lambda>h.
     Option.bind (m_data m) (\<lambda>g. Option.bind (st_d s g) (\<lambda>d.
       map_option (\<lambda>(d', ret). (put_data s g d', ret)) (grid_put_datum h d (m_row m) c v)))))"

section \<open>Chains of pages\<close>

primrec mesh_chain :: "store \<Rightarrow> gid \<Rightarrow> gid list \<Rightarrow> bool" where
  "mesh_chain s g [] \<longleftrightarrow> g = GID_UNDEF"
| "mesh_chain s g (x # xs) \<longleftrightarrow> g = x \<and> x \<noteq> GID_UNDEF \<and>
     (\<exists>d. st_d s x = Some d \<and> grid_inv d \<and> mesh_chain s (g_next d) xs)"

definition page_rows :: "store \<Rightarrow> gid \<Rightarrow> u8 list list" where
  "page_rows s g = (case st_d s g of None \<Rightarrow> [] | Some d \<Rightarrow> grid_list d)"

definition mesh_rows :: "store \<Rightarrow> gid list \<Rightarrow> u8 list list" where
  "mesh_rows s gs = concat (map (page_rows s) gs)"

lemma st_d_put [simp]: "st_d (put_data s g d) = (st_d s)(g \<mapsto> d)" "st_h (put_data s g d) = st_h s"
  by (simp_all add: put_data_def)

lemma page_rows_put [simp]:
  "page_rows (put_data s g d) g = grid_list d" "g' \<noteq> g \<Longrightarrow> page_rows (put_data s g d) g' = page_rows s g'"
  by (simp_all add: page_rows_def)

lemma mesh_chain_cong:
  "(\<And>x. x \<in> set gs \<Longrightarrow> st_d s' x = st_d s x) \<Longrightarrow> mesh_chain s' g gs = mesh_chain s g gs"
  by (induction gs arbitrary: g) auto

lemma mesh_rows_cong:
  "(\<And>x. x \<in> set gs \<Longrightarrow> st_d s' x = st_d s x) \<Longrightarrow> mesh_rows s' gs = mesh_rows s gs"
  by (simp add: mesh_rows_def page_rows_def cong: map_cong)

lemma mesh_rows_simps [simp]:
  "mesh_rows s [] = []" "mesh_rows s (gs @ hs) = mesh_rows s gs @ mesh_rows s hs" "mesh_rows s [g] = page_rows s g"
  by (simp_all add: mesh_rows_def)

text \<open>The links up to the last page do not depend on the last page.\<close>

lemma mesh_chain_last:
  "mesh_chain s g (gs @ [t]) \<Longrightarrow> t \<notin> set gs \<Longrightarrow> \<exists>d. st_d s t = Some d \<and> grid_inv d \<and> g_next d = GID_UNDEF \<and> t \<noteq> GID_UNDEF"
  by (induction gs arbitrary: g) auto

lemma mesh_chain_replace_last:
  assumes "mesh_chain s g (gs @ [t])" "t \<notin> set gs" "st_d s' t = Some d" "grid_inv d"
    and "\<And>x. x \<in> set gs \<Longrightarrow> st_d s' x = st_d s x" and "mesh_chain s' (g_next d) hs"
  shows "mesh_chain s' g (gs @ t # hs)"
  using assms by (induction gs arbitrary: g) auto

section \<open>Allocating a row\<close>

text \<open>A header under which every fresh page has room for a row.\<close>

definition header_ok :: "hgrid \<Rightarrow> bool" where
  "header_ok h \<longleftrightarrow> hgrid_wf h \<and> 0 < unat (g_datasz h) \<and> unat (g_datasz h) \<le> 4068"

lemma fresh_page:
  assumes "header_ok h"
  obtains d where "dgrid_init (of_nat PAGESZ) l c h = Some d" "dgrid_ok h d" "grid_list d = []"
    "g_next d = GID_UNDEF" "g_content d = c" "g_layout d = l" "g_occupied d < g_rown d"
proof -
  have wf: "hgrid_wf h" "0 < unat (g_datasz h)" "unat (g_datasz h) \<le> 65532" "unat (g_datasz h) \<le> 4068"
    using assms by (auto simp: header_ok_def)
  have p: "24 \<le> unat (of_nat PAGESZ :: u16)" by (simp add: PAGESZ_def)
  obtain g where g: "dgrid_init (of_nat PAGESZ) l c h = Some g" "dgrid_ok h g" "grid_list g = []"
    "g_content g = c" "g_next g = GID_UNDEF" "g_layout g = l"
    "unat (g_rown g) = (unat (of_nat PAGESZ :: u16) - 24) div unat (g_rowsz g)"
    "unat (g_datasz h) \<le> unat (g_rowsz g)" "unat (g_rowsz g) < unat (g_datasz h) + 4"
    using dgrid_init_ok[OF wf(1-3) p, of l c] by metis
  have "0 < unat (g_rowsz g)" "unat (g_rowsz g) \<le> 4072" using g(8,9) wf(2,4) by simp_all
  then have "0 < 4072 div unat (g_rowsz g)" by (simp add: div_greater_zero_iff)
  then have r: "0 < unat (g_rown g)" using g(7) by (simp add: PAGESZ_def)
  have inv: "grid_inv g" using g(2) by (simp add: dgrid_ok_def)
  have "g_occupied g < g_rown g" using r g(3) grid_invD(3)[OF inv] by (simp add: word_less_nat_alt)
  then show thesis using that g by blast
qed

lemma alloc_in_page:
  assumes "grid_inv d" "g_occupied d < g_rown d"
  shows "\<exists>d' row. grid_alloc_row d = (d', g_occupied d) \<and> g_occupied d \<noteq> GRID_INVALID_IDX \<and> grid_inv d' \<and>
    grid_list d' = grid_list d @ [row] \<and> g_next d' = g_next d \<and> g_occupied d < g_occupied d' \<and>
    g_content d' = g_content d \<and> (\<forall>h. dgrid_ok h d \<longrightarrow> dgrid_ok h d')"
proof -
  note a = grid_alloc_row_inv[OF assms]
  have "g_occupied d < g_occupied d + 1" using unat_succ_u16[OF assms(2)] by (simp add: word_less_nat_alt)
  then show ?thesis using a assms(2) by (simp add: grid_alloc_row_def grid_idx_is_valid_def dgrid_ok_def)
qed

lemma mesh_new_gid_frame:
  assumes "mesh_new_gid seq s g = Some (s', new)"
  shows "st_h s' = st_h s" and "x \<noteq> gp_data seq \<Longrightarrow> st_d s' x = st_d s x"
  using assms by (auto simp: mesh_new_gid_def Let_def bind_eq_Some_conv split: if_splits)

lemma put_same: "st_d s g = Some d \<Longrightarrow> put_data s g d = s"
  by (simp add: put_data_def fun_upd_idem)

text \<open>A row iterator on the last row of the last page.\<close>

definition at_last_row :: "store \<Rightarrow> gid list \<Rightarrow> gid_pair \<Rightarrow> mitor \<Rightarrow> bool" where
  "at_last_row s gs tail m \<longleftrightarrow> m_gp m = tail \<and> m_header m = Some (gp_header tail) \<and> m_data m = Some (last gs) \<and>
     mitor_is_valid s m = Some True \<and> Suc (unat (m_row m)) = length (page_rows s (last gs))"

lemma at_last_rowI:
  assumes "st_d s t = Some d'" "gp_data tail = t" "t \<noteq> GID_UNDEF" "gp_header tail \<noteq> GID_UNDEF" "last gs = t"
    and "grid_list d' = rs @ [row]" "length rs = unat r" "r < g_occupied d'"
  shows "at_last_row s gs tail \<lparr>m_gp = tail, m_header = Some (gp_header tail), m_data = Some t, m_row = r\<rparr>"
  using assms by (simp add: at_last_row_def mitor_is_valid_def page_rows_def)

lemma mesh_alloc_row_room:
  assumes ch: "mesh_chain s g (gs @ [t])" "t \<notin> set gs" and tail: "gp_data tail = t" "gp_header tail \<noteq> GID_UNDEF"
    and d: "st_d s t = Some d" "g_occupied d < g_rown d"
  shows "\<exists>s' m row. mesh_alloc_row seq s tail = Some (s', tail, m) \<and> mesh_chain s' g (gs @ [t]) \<and>
    mesh_rows s' (gs @ [t]) = mesh_rows s (gs @ [t]) @ [row] \<and> at_last_row s' (gs @ [t]) tail m \<and>
    (\<exists>d'. st_d s' t = Some d' \<and> g_content d' = g_content d \<and> (\<forall>h. dgrid_ok h d \<longrightarrow> dgrid_ok h d')) \<and> st_h s' = st_h s \<and> (\<forall>x. x \<noteq> t \<longrightarrow> st_d s' x = st_d s x)"
proof -
  have di: "grid_inv d" "g_next d = GID_UNDEF" "t \<noteq> GID_UNDEF" using mesh_chain_last[OF ch] d(1) by auto
  obtain d' row where a: "grid_alloc_row d = (d', g_occupied d)" "g_occupied d \<noteq> GRID_INVALID_IDX" "grid_inv d'"
    "grid_list d' = grid_list d @ [row]" "g_next d' = g_next d" "g_occupied d < g_occupied d'"
    "g_content d' = g_content d" "\<forall>h. dgrid_ok h d \<longrightarrow> dgrid_ok h d'"
    using alloc_in_page[OF di(1) d(2)] by blast
  let ?s' = "put_data s t d'"
  let ?m = "\<lparr>m_gp = tail, m_header = Some (gp_header tail), m_data = Some t, m_row = g_occupied d\<rparr>"
  have "mesh_alloc_row seq s tail = Some (?s', tail, ?m)"
    using a(2) di(2) by (simp add: mesh_alloc_row_def tail(1) d(1) a(1,5))
  moreover have "mesh_chain ?s' g (gs @ [t])"
    by (rule mesh_chain_replace_last[OF ch, of _ d']) (use ch(2) a(3,5) di(2) in auto)
  moreover have "mesh_rows ?s' gs = mesh_rows s gs" by (rule mesh_rows_cong) (use ch(2) in auto)
  then have "mesh_rows ?s' (gs @ [t]) = mesh_rows s (gs @ [t]) @ [row]"
    using a(4) by (simp add: page_rows_def d(1))
  moreover have "at_last_row ?s' (gs @ [t]) tail ?m"
    by (rule at_last_rowI[of _ _ d' _ _ "grid_list d" row])
      (use a(4,6) tail di grid_invD(3)[OF di(1)] in auto)
  ultimately show ?thesis using a(7,8) by (intro exI[of _ ?s'] exI[of _ ?m] exI[of _ row]) simp
qed

lemma mesh_alloc_row_full:
  assumes ch: "mesh_chain s g (gs @ [t])" "t \<notin> set gs" and tail: "gp_data tail = t" "gp_header tail \<noteq> GID_UNDEF"
    and d: "st_d s t = Some d" "\<not> g_occupied d < g_rown d"
    and h: "st_h s (gp_header tail) = Some h" "header_ok h"
    and new: "mesh_new_gid seq s t = Some (s2, Some ng)" "ng \<noteq> GID_UNDEF" "ng \<notin> set gs \<union> {t}"
    and sq: "gp_data seq \<notin> set gs \<union> {t}"
  shows "\<exists>s' m row. mesh_alloc_row seq s tail = Some (s', tail\<lparr>gp_data := ng\<rparr>, m) \<and>
    mesh_chain s' g (gs @ [t, ng]) \<and> mesh_rows s' (gs @ [t, ng]) = mesh_rows s (gs @ [t]) @ [row] \<and>
    at_last_row s' (gs @ [t, ng]) (tail\<lparr>gp_data := ng\<rparr>) m \<and> st_h s' = st_h s \<and>
    st_d s' t = Some (d\<lparr>g_next := ng\<rparr>) \<and>
    (\<exists>d'. st_d s' ng = Some d' \<and> g_content d' = g_content d \<and> dgrid_ok h d') \<and>
    (\<forall>x. x \<notin> {t, ng, gp_data seq} \<longrightarrow> st_d s' x = st_d s x)"
proof -
  have di: "grid_inv d" "g_next d = GID_UNDEF" "t \<noteq> GID_UNDEF" using mesh_chain_last[OF ch] d(1) by auto
  note fr = mesh_new_gid_frame[OF new(1)]
  obtain f where f: "dgrid_init (of_nat PAGESZ) (g_layout d) (g_content d) h = Some f" "dgrid_ok h f" "grid_list f = []"
    "g_next f = GID_UNDEF" "g_occupied f < g_rown f" "g_content f = g_content d"
    using fresh_page[OF h(2)] by metis
  have fi: "grid_inv f" using f(2) by (simp add: dgrid_ok_def)
  obtain f' row where a: "grid_alloc_row f = (f', g_occupied f)" "grid_inv f'"
    "grid_list f' = grid_list f @ [row]" "g_next f' = g_next f" "g_occupied f < g_occupied f'"
    "g_content f' = g_content f" "\<forall>h. dgrid_ok h f \<longrightarrow> dgrid_ok h f'"
    using alloc_in_page[OF fi f(5)] by blast
  have d2: "st_d s2 t = Some d" using fr(2) sq d(1) by auto
  have ne: "ng \<noteq> t" using new(3) by simp
  let ?d' = "d\<lparr>g_next := ng\<rparr>" and ?tail = "tail\<lparr>gp_data := ng\<rparr>"
  let ?s' = "put_data (put_data (put_data s2 ng f) t ?d') ng f'"
  let ?m = "\<lparr>m_gp = ?tail, m_header = Some (gp_header tail), m_data = Some ng, m_row = g_occupied f\<rparr>"
  have full: "grid_alloc_row d = (d, GRID_INVALID_IDX)" using d(2) by (simp add: grid_alloc_row_def)
  have "mesh_alloc_row seq s tail = Some (?s', ?tail, ?m)"
    using ne by (simp add: mesh_alloc_row_def tail(1) d(1) full di(2) put_same[OF d(1)] new(1) fr(1) h(1) d2 f(1) a(1) Let_def)
  moreover have old: "st_d ?s' x = st_d s x" if "x \<in> set gs" for x
    using that ch(2) new(3) sq fr(2)[of x] by auto
  moreover have "mesh_chain ?s' g (gs @ t # [ng])"
  proof (rule mesh_chain_replace_last[OF ch, of _ ?d'])
    show "mesh_chain ?s' (g_next ?d') [ng]" using new(2) a(2,4) f(4) by simp
    show "grid_inv ?d'" using di(1) by (simp add: grid_inv_def)
  qed (use ne old in auto)
  moreover have "mesh_rows ?s' gs = mesh_rows s gs" by (rule mesh_rows_cong) (rule old)
  then have "mesh_rows ?s' (gs @ [t] @ [ng]) = mesh_rows s (gs @ [t]) @ [row]"
    unfolding mesh_rows_simps using a(3) f(3) ne by (simp add: page_rows_def d(1) grid_list_def)
  moreover have "at_last_row ?s' (gs @ [t, ng]) ?tail ?m"
    using at_last_rowI[of ?s' ng f' ?tail "gs @ [t, ng]" "grid_list f" row "g_occupied f"]
      a(3,5) tail(2) new(2) grid_invD(3)[OF fi] by simp
  moreover have "\<forall>x. x \<notin> {t, ng, gp_data seq} \<longrightarrow> st_d ?s' x = st_d s x" using fr(2) by auto
  ultimately show ?thesis using fr(1) ne f(2,6) a(6,7)
    by (intro exI[of _ ?s'] exI[of _ ?m] exI[of _ row]) simp
qed

lemma mesh_alloc_row_ok:
  assumes "mesh_chain s g gs" and "gs \<noteq> []" and "distinct gs" and "last gs = gp_data tail"
    and "gp_header tail \<noteq> GID_UNDEF" and "st_h s (gp_header tail) = Some h" and "header_ok h"
    and "mesh_new_gid seq s (gp_data tail) = Some (s2, Some ng)" and "ng \<noteq> GID_UNDEF" and "ng \<notin> set gs"
    and "gp_data seq \<notin> set gs"
  shows "\<exists>s' tail' m gs' row. mesh_alloc_row seq s tail = Some (s', tail', m) \<and>
    (gs' = gs \<or> gs' = gs @ [ng]) \<and> distinct gs' \<and> mesh_chain s' g gs' \<and> last gs' = gp_data tail' \<and>
    gp_header tail' = gp_header tail \<and> mesh_rows s' gs' = mesh_rows s gs @ [row] \<and> at_last_row s' gs' tail' m \<and>
    st_h s' = st_h s \<and> (\<exists>d d'. st_d s (gp_data tail) = Some d \<and> st_d s' (last gs') = Some d' \<and>
      g_content d' = g_content d \<and> (dgrid_ok h d \<longrightarrow> dgrid_ok h d')) \<and>
    (\<forall>x. x \<notin> set gs' \<union> {gp_data seq} \<longrightarrow> st_d s' x = st_d s x)"
proof -
  obtain t hs where gs: "gs = hs @ [t]" using assms(2) by (cases gs rule: rev_cases) auto
  have t: "gp_data tail = t" "t \<notin> set hs" "mesh_chain s g (hs @ [t])" using assms(1,3,4) gs by auto
  obtain d where d: "st_d s t = Some d" using mesh_chain_last[OF t(3,2)] by blast
  show ?thesis
  proof (cases "g_occupied d < g_rown d")
    case True
    obtain s' m row where "mesh_alloc_row seq s tail = Some (s', tail, m)" "mesh_chain s' g gs"
      "mesh_rows s' gs = mesh_rows s gs @ [row]" "at_last_row s' gs tail m" "st_h s' = st_h s"
      "\<exists>d'. st_d s' t = Some d' \<and> g_content d' = g_content d \<and> (\<forall>h. dgrid_ok h d \<longrightarrow> dgrid_ok h d')" "\<forall>x. x \<noteq> t \<longrightarrow> st_d s' x = st_d s x"
      using mesh_alloc_row_room[OF t(3,2,1) assms(5) d True] unfolding gs by blast
    then show ?thesis using assms(3,4) gs d
      by (intro exI[of _ s'] exI[of _ tail] exI[of _ m] exI[of _ gs] exI[of _ row]) auto
  next
    case False
    obtain s' m row where "mesh_alloc_row seq s tail = Some (s', tail\<lparr>gp_data := ng\<rparr>, m)"
      "mesh_chain s' g (gs @ [ng])" "mesh_rows s' (gs @ [ng]) = mesh_rows s gs @ [row]"
      "at_last_row s' (gs @ [ng]) (tail\<lparr>gp_data := ng\<rparr>) m" "st_h s' = st_h s"
      "\<exists>d'. st_d s' ng = Some d' \<and> g_content d' = g_content d \<and> dgrid_ok h d'"
      "\<forall>x. x \<notin> {t, ng, gp_data seq} \<longrightarrow> st_d s' x = st_d s x"
      using mesh_alloc_row_full[OF t(3,2,1) assms(5) d False assms(6,7) assms(8)[unfolded t(1)] assms(9)] assms(10,11)
      unfolding gs by auto
    then show ?thesis using assms(3,10) gs d t(1)
      by (intro exI[of _ s'] exI[of _ "tail\<lparr>gp_data := ng\<rparr>"] exI[of _ m] exI[of _ "gs @ [ng]"] exI[of _ row]) auto
  qed
qed

text \<open>
  C29: Allocating a row in a mesh appends one row to the list of its rows, in the last page or
  in a fresh page chained to it, leaves all earlier rows and all other pages alone, and
  returns an iterator on the new row and the tail of the new chain.
\<close>

theorem mesh_alloc_appends:
  assumes "mesh_chain s g gs" and "gs \<noteq> []" and "distinct gs" and "last gs = gp_data tail"
    and "gp_header tail \<noteq> GID_UNDEF" and "st_h s (gp_header tail) = Some h" and "header_ok h"
    and "mesh_new_gid seq s (gp_data tail) = Some (s2, Some ng)" and "ng \<noteq> GID_UNDEF" and "ng \<notin> set gs"
    and "gp_data seq \<notin> set gs"
  shows "\<exists>s' tail' m gs' row. mesh_alloc_row seq s tail = Some (s', tail', m) \<and>
    (gs' = gs \<or> gs' = gs @ [ng]) \<and> distinct gs' \<and> mesh_chain s' g gs' \<and> last gs' = gp_data tail' \<and>
    gp_header tail' = gp_header tail \<and> mesh_rows s' gs' = mesh_rows s gs @ [row] \<and> at_last_row s' gs' tail' m \<and>
    (\<forall>x. x \<notin> set gs' \<union> {gp_data seq} \<longrightarrow> st_d s' x = st_d s x)"
  using mesh_alloc_row_ok[OF assms] by blast

text \<open>A mesh of one full page, to which a second page is chained.\<close>

definition sample_store :: store where
  "sample_store = \<lparr>st_h = [4 \<mapsto> sample_header], st_d = [5 \<mapsto> sample_data]\<rparr>"

lemma sample_store_ok:
  "mesh_chain sample_store 5 [5]" "st_h sample_store 4 = Some sample_header" "header_ok sample_header"
  "mesh_rows sample_store [5] = [replicate 8 0]"
proof -
  have "grid_inv sample_data" using sample_grids_ok(1) by (simp add: dgrid_ok_def)
  then show "mesh_chain sample_store 5 [5]" by (simp add: sample_store_def GID_UNDEF_def sample_data_def)
  show "st_h sample_store 4 = Some sample_header" by (simp add: sample_store_def)
  show "header_ok sample_header"
    using sample_grids_ok(1) by (simp add: header_ok_def dgrid_ok_def sample_header_def)
  show "mesh_rows sample_store [5] = [replicate 8 0]"
    by (simp add: mesh_rows_def page_rows_def sample_store_def sample_data_def grid_list_def)
qed

theorem mesh_alloc_appends_witness:
  "\<exists>s' tail' m gs' row. mesh_alloc_row \<lparr>gp_header = 0, gp_data = 1\<rparr> sample_store \<lparr>gp_header = 4, gp_data = 5\<rparr> =
     Some (s', tail', m) \<and> mesh_chain s' 5 gs' \<and> mesh_rows s' gs' = [replicate 8 0, row]"
proof -
  let ?seq = "\<lparr>gp_header = 0, gp_data = 1\<rparr>" and ?tail = "\<lparr>gp_header = 4, gp_data = 5\<rparr>"
  have f: "gid_file_id 5 = 5" "gid_page 5 = 0" by (simp_all add: gid_file_id_def gid_page_def GID_FILEIDBITS_def)
  have new: "mesh_new_gid ?seq sample_store (gp_data ?tail) = Some (sample_store, Some (gid_parts 5 1))"
    by (simp add: mesh_new_gid_def f GID_MAXPAGE_def)
  have v: "gid_parts 5 1 = 1099511627781" by (simp add: gid_parts_def GID_FILEIDBITS_def GID_PAGEBITS_def)
  show ?thesis
    using mesh_alloc_appends[OF sample_store_ok(1) _ _ _ _ _ sample_store_ok(3) new, unfolded v]
      sample_store_ok(2,4) by (auto simp: GID_UNDEF_def)
qed

end
