(* ===== verification/Scr_Tran.thy ===== *)
theory Scr_Tran
  imports Scr_Prelude
begin

text \<open>
  \<^verbatim>\<open>lib/core/src/tran.h\<close> and \<^verbatim>\<open>tran.c\<close>: transactions, the page that
  holds one commit bit for each of them, and the visibility of row versions. \<open>None\<close> is
  a failed assert or an access past the end of the page. The page is what
  \<open>pagecache_put_page\<close> returns for the gid of the transaction page.
\<close>

section \<open>The code\<close>

type_synonym tran_t = i64

record tran =
  tr_key :: tran_t
  tr_autocommit :: bool

datatype tran_flag = TF_ABORTED | TF_COMMITED

text \<open>\<open>tp_datum\<close> are the bytes of the page after \<open>tid_start\<close>.\<close>

record tran_page =
  tp_start :: u64
  tp_datum :: "u8 list"

definition TRAN_INVALID_ID :: tran_t where
  "TRAN_INVALID_ID = 0"

text \<open>The subtraction is one of size_t, its result is converted back to ssize_t.\<close>

definition tran_flag_get :: "tran_page \<Rightarrow> tran_t \<Rightarrow> tran_flag option" where
  "tran_flag_get page tid = (let tid = tid - tp_start page; i = nat (sint tid) in
     if sint tid < 0 \<or> length (tp_datum page) \<le> i div 8 then None
     else Some (if drop_bit (i mod 8) (tp_datum page ! (i div 8)) AND 1 = 0 then TF_ABORTED else TF_COMMITED))"

text \<open>The page is flushed afterwards.\<close>

definition tran_flag_put :: "tran_page \<Rightarrow> tran_t \<Rightarrow> tran_flag \<Rightarrow> tran_page option" where
  "tran_flag_put page tid flag = (let tid = tid - tp_start page; i = nat (sint tid) in
     if sint tid \<le> 0 \<or> length (tp_datum page) \<le> i div 8 then None
     else let b = tp_datum page ! (i div 8) in
       Some (page\<lparr>tp_datum := (tp_datum page)[i div 8 := (case flag of
         TF_ABORTED \<Rightarrow> b AND NOT (push_bit (i mod 8) 1)
       | TF_COMMITED \<Rightarrow> b OR push_bit (i mod 8) 1)]\<rparr>))"

definition tran_row_is_visible :: "tran_page \<Rightarrow> tran \<Rightarrow> tran_t \<Rightarrow> tran_t \<Rightarrow> bool option" where
  "tran_row_is_visible page tran tmin tmax = (let tid = tr_key tran in
     if tid = TRAN_INVALID_ID \<or> tmin = TRAN_INVALID_ID then None
     else if tid = tmin then
       (if tid = tmax \<or> tmax = TRAN_INVALID_ID then Some (tid \<noteq> tmax) else None)
     else if tid = tmax then Some False
     else Option.bind (tran_flag_get page tmin) (\<lambda>tmin_flag.
       Option.bind (tran_flag_get page tmax) (\<lambda>tmax_flag.
         if tmin_flag = TF_COMMITED then Some (tmax_flag \<noteq> TF_COMMITED) else Some False)))"

section \<open>The bit set\<close>

text \<open>The transactions the page has a bit for, and the position of the bit.\<close>

definition tid_pos :: "tran_page \<Rightarrow> tran_t \<Rightarrow> int" where
  "tid_pos page tid = sint (tid - tp_start page)"

definition has_flag :: "tran_page \<Rightarrow> tran_t \<Rightarrow> bool" where
  "has_flag page tid \<longleftrightarrow> 0 \<le> tid_pos page tid \<and> tid_pos page tid < 8 * int (length (tp_datum page))"

definition committed :: "tran_page \<Rightarrow> tran_t \<Rightarrow> bool" where
  "committed page tid \<longleftrightarrow> tran_flag_get page tid = Some TF_COMMITED"

lemma has_flag_div:
  "has_flag page tid \<Longrightarrow> nat (tid_pos page tid) div 8 < length (tp_datum page)"
  by (auto simp: has_flag_def div_less_iff_less_mult)

lemma tran_flag_get_bit:
  "tran_flag_get page tid = (if has_flag page tid
     then Some (if bit (tp_datum page ! (nat (tid_pos page tid) div 8)) (nat (tid_pos page tid) mod 8)
       then TF_COMMITED else TF_ABORTED) else None)"
proof -
  let ?i = "nat (tid_pos page tid)"
  have "has_flag page tid \<longleftrightarrow> \<not> (tid_pos page tid < 0 \<or> length (tp_datum page) \<le> ?i div 8)"
    by (auto simp: has_flag_def not_le div_less_iff_less_mult)
  moreover have "drop_bit k (b :: u8) AND 1 = 0 \<longleftrightarrow> \<not> bit b k" for k b
    by (simp add: and_one_eq bit_iff_odd_drop_bit odd_iff_mod_2_eq_one)
  ultimately show ?thesis by (simp add: tran_flag_get_def Let_def tid_pos_def)
qed

lemma tid_pos_inject: "tid_pos page a = tid_pos page b \<Longrightarrow> a = b"
  using signed_word_eqI[of "a - tp_start page" "b - tp_start page"] by (simp add: tid_pos_def)

lemma tran_flag_put_bit:
  assumes "has_flag page tid" and "0 < tid_pos page tid"
  shows "\<exists>page'. tran_flag_put page tid flag = Some page' \<and> tran_flag_get page' tid = Some flag \<and>
    (\<forall>other. other \<noteq> tid \<longrightarrow> tran_flag_get page' other = tran_flag_get page other)"
proof -
  let ?i = "nat (tid_pos page tid)" and ?d = "tp_datum page"
  let ?b = "case flag of TF_ABORTED \<Rightarrow> ?d ! (?i div 8) AND NOT (push_bit (?i mod 8) 1)
    | TF_COMMITED \<Rightarrow> ?d ! (?i div 8) OR push_bit (?i mod 8) 1"
  define page' where "page' = page\<lparr>tp_datum := ?d[?i div 8 := ?b]\<rparr>"
  note lt = has_flag_div[OF assms(1)]
  have put: "tran_flag_put page tid flag = Some page'"
    using assms(2) lt unfolding page'_def tid_pos_def by (simp add: tran_flag_put_def Let_def)
  have d: "tp_datum page' = ?d[?i div 8 := ?b]" by (simp add: page'_def)
  have pos: "tid_pos page' t = tid_pos page t" for t by (simp add: tid_pos_def page'_def)
  have has: "has_flag page' t = has_flag page t" for t by (simp add: has_flag_def pos) (simp add: page'_def)
  have bits: "bit ?b k = (if k = ?i mod 8 then flag = TF_COMMITED else bit (?d ! (?i div 8)) k)" if "k < 8" for k
    using that by (cases flag) (auto simp: bit_simps)
  have "tran_flag_get page' tid = Some flag"
    using bits[of "?i mod 8"] assms(1) lt by (cases flag) (simp_all add: tran_flag_get_bit has pos d)
  moreover have "tran_flag_get page' other = tran_flag_get page other" if "other \<noteq> tid" for other
  proof (cases "has_flag page other \<and> nat (tid_pos page other) div 8 = ?i div 8")
    case True
    have "tid_pos page other \<noteq> tid_pos page tid" using tid_pos_inject[of page other tid] that by blast
    moreover have "0 \<le> tid_pos page other" using True by (simp add: has_flag_def)
    ultimately have "nat (tid_pos page other) \<noteq> ?i" using assms(2) by (simp add: nat_eq_iff)
    then have "nat (tid_pos page other) mod 8 \<noteq> ?i mod 8" using True by (metis mod_mult_div_eq)
    then show ?thesis using bits[of "nat (tid_pos page other) mod 8"] True lt
      by (simp add: tran_flag_get_bit has pos d)
  next
    case False
    then show ?thesis by (auto simp: tran_flag_get_bit has pos d)
  qed
  ultimately show ?thesis using put by blast
qed

text \<open>
  Putting the flag of a transaction sets its bit of the transaction page and no other: it
  is the flag read back, and the flags of all other transactions stay.
\<close>

lemma tran_flags_bitset:
  assumes "has_flag page tid" and "0 < tid_pos page tid"
  shows "\<exists>page'. tran_flag_put page tid flag = Some page' \<and> tran_flag_get page' tid = Some flag \<and>
    (\<forall>other. other \<noteq> tid \<longrightarrow> tran_flag_get page' other = tran_flag_get page other)"
  using assms by (rule tran_flag_put_bit)

lemma tran_flags_bitset_example:
  "\<exists>page'. tran_flag_put \<lparr>tp_start = 0, tp_datum = [0, 0]\<rparr> 9 TF_COMMITED = Some page' \<and>
     tran_flag_get page' 9 = Some TF_COMMITED \<and> tran_flag_get page' 8 = Some TF_ABORTED"
proof -
  let ?p = "\<lparr>tp_start = 0, tp_datum = [0, 0]\<rparr>"
  have "has_flag ?p 9" "0 < tid_pos ?p 9" by (simp_all add: has_flag_def tid_pos_def)
  moreover have "tran_flag_get ?p 8 = Some TF_ABORTED" by (simp add: tran_flag_get_def)
  ultimately show ?thesis using tran_flags_bitset[of ?p 9 TF_COMMITED] by force
qed

section \<open>Visibility\<close>

text \<open>
  The rule of multi-version concurrency control: a transaction sees its own work and that
  of committed transactions, and a row version exists for it when it sees the insertion and
  not the deletion. The id 0 stands for no transaction.
\<close>

definition sees :: "tran_page \<Rightarrow> tran_t \<Rightarrow> tran_t \<Rightarrow> bool" where
  "sees page tid t \<longleftrightarrow> t = tid \<or> committed page t"

lemma visibility_rule:
  assumes "tr_key tran \<noteq> 0" and "tmin \<noteq> 0"
    and "has_flag page tmin" and "has_flag page tmax"
    and "tr_key tran = tmin \<longrightarrow> tmax = 0 \<or> tmax = tmin" and "\<not> committed page 0"
  shows "tran_row_is_visible page tran tmin tmax =
    Some (sees page (tr_key tran) tmin \<and> \<not> sees page (tr_key tran) tmax)"
proof -
  have f: "tran_flag_get page t \<noteq> None" if "has_flag page t" for t
    using that by (simp add: tran_flag_get_bit)
  have g: "(flag = TF_COMMITED) = (flag \<noteq> TF_ABORTED)" for flag by (cases flag) auto
  show ?thesis
    using f[OF assms(3)] f[OF assms(4)] assms(1,2,5,6)
    by (auto simp: tran_row_is_visible_def TRAN_INVALID_ID_def sees_def committed_def Let_def g)
qed

text \<open>
  C28: tran_row_is_visible is the rule of multi-version concurrency control on every row whose
  transactions have a flag on the page and that passes its asserts (a row inserted by the
  reading transaction itself and deleted by another one trips them): a row version exists for
  a transaction when it is its own or committed insertion and not its own or committed
  deletion.
\<close>

theorem visibility_is_mvcc:
  assumes "tr_key tran \<noteq> 0" and "tmin \<noteq> 0"
    and "has_flag page tmin" and "has_flag page tmax"
    and "tr_key tran = tmin \<longrightarrow> tmax = 0 \<or> tmax = tmin" and "\<not> committed page 0"
  shows "tran_row_is_visible page tran tmin tmax =
    Some (sees page (tr_key tran) tmin \<and> \<not> sees page (tr_key tran) tmax)"
  using assms by (rule visibility_rule)

theorem visibility_is_mvcc_witness:
  "tran_row_is_visible \<lparr>tp_start = 0, tp_datum = [4]\<rparr> \<lparr>tr_key = 5, tr_autocommit = False\<rparr> 2 0 = Some True \<and>
   tran_row_is_visible \<lparr>tp_start = 0, tp_datum = [4]\<rparr> \<lparr>tr_key = 5, tr_autocommit = False\<rparr> 3 0 = Some False"
proof -
  let ?p = "\<lparr>tp_start = 0, tp_datum = [4]\<rparr>" and ?t = "\<lparr>tr_key = 5, tr_autocommit = False\<rparr>"
  have "has_flag ?p 2" "has_flag ?p 3" "has_flag ?p 0" by (simp_all add: has_flag_def tid_pos_def)
  moreover have "committed ?p 2" "\<not> committed ?p 3" "\<not> committed ?p 0"
    by (simp_all add: committed_def tran_flag_get_def)
  ultimately show ?thesis
    using visibility_is_mvcc[of ?t 2 ?p 0] visibility_is_mvcc[of ?t 3 ?p 0] by (simp add: sees_def)
qed

text \<open>Committing a transaction shows its rows to every other one, and only its rows.\<close>

lemma commit_shows:
  assumes "has_flag page tid" "0 < tid_pos page tid" "tran_flag_put page tid TF_COMMITED = Some page'"
  shows "committed page' t \<longleftrightarrow> t = tid \<or> committed page t"
proof -
  obtain page'' where "tran_flag_put page tid TF_COMMITED = Some page''" "tran_flag_get page'' tid = Some TF_COMMITED"
    "\<forall>other. other \<noteq> tid \<longrightarrow> tran_flag_get page'' other = tran_flag_get page other"
    using tran_flag_put_bit[OF assms(1,2)] by metis
  then show ?thesis using assms(3) by (cases "t = tid") (auto simp: committed_def)
qed

end
