(* ===== verification/Scr_Table.thy ===== *)
theory Scr_Table
  imports Scr_Mesh Scr_Tran
begin

text \<open>
  \<^verbatim>\<open>lib/core/src/table.h\<close> and \<^verbatim>\<open>table.c\<close>: tables are meshes whose
  rows may carry the ids of the transactions that inserted and deleted them; the table
  iterator skips the row versions its transaction does not see. \<open>tp\<close> is the page of
  transaction flags that \<open>tran_row_is_visible\<close> reads through the page cache.
\<close>

section \<open>The code\<close>

record titor =
  t_m :: mitor
  t_tran :: "tran option"

definition TMIN_IDX :: u16 where "TMIN_IDX = 0"
definition TMAX_IDX :: u16 where "TMAX_IDX = 1"

definition TMIN_NAME :: "u8 list" where "TMIN_NAME = ascii ''*tmin''"
definition TMAX_NAME :: "u8 list" where "TMAX_NAME = ascii ''*tmax''"

definition titor_init_invalid :: titor where
  "titor_init_invalid = \<lparr>t_m = mitor_init_invalid, t_tran = None\<rparr>"

text \<open>The content of the page the iterator is on.\<close>

definition titor_content :: "store \<Rightarrow> titor \<Rightarrow> grid_content option" where
  "titor_content s t = Option.bind (m_data (t_m t)) (\<lambda>g. map_option g_content (st_d s g))"

definition titor_is_valid :: "store \<Rightarrow> titor \<Rightarrow> bool option" where
  "titor_is_valid s t = Option.bind (mitor_is_valid s (t_m t)) (\<lambda>v.
     if v then map_option (\<lambda>c. c = GC_PURE \<or> t_tran t \<noteq> None) (titor_content s t) else Some False)"

definition titor_get_datum :: "store \<Rightarrow> titor \<Rightarrow> u16 \<Rightarrow> datum option" where
  "titor_get_datum s t c = mitor_get_datum s (t_m t) c"

definition titor_put_datum :: "store \<Rightarrow> titor \<Rightarrow> u16 \<Rightarrow> datum \<Rightarrow> (store \<times> int) option" where
  "titor_put_datum s t c v = mitor_put_datum s (t_m t) c v"

text \<open>Reading tmin and tmax of the current row and deciding its visibility.\<close>

definition titor_visible :: "tran_page \<Rightarrow> store \<Rightarrow> titor \<Rightarrow> bool option" where
  "titor_visible tp s t =
     Option.bind (titor_get_datum s t TMIN_IDX) (\<lambda>tmin. Option.bind (titor_get_datum s t TMAX_IDX) (\<lambda>tmax.
       Option.bind (t_tran t) (\<lambda>tran. tran_row_is_visible tp tran (dt_bigint tmin) (dt_bigint tmax))))"

text \<open>The endless loop of titor_next; it ends when a row is visible or the rows are over.\<close>

partial_function (option) titor_next_mvcc :: "tran_page \<Rightarrow> store \<Rightarrow> titor \<Rightarrow> titor option" where
  "titor_next_mvcc tp s t = Option.bind (mitor_next s (t_m t)) (\<lambda>m.
     let t = t\<lparr>t_m := m\<rparr> in Option.bind (mitor_is_valid s m) (\<lambda>valid.
       if \<not> valid then Some t
       else Option.bind (titor_visible tp s t) (\<lambda>visible.
         if visible then Some t else titor_next_mvcc tp s t)))"

declare titor_next_mvcc.simps [code]

definition titor_next :: "tran_page \<Rightarrow> store \<Rightarrow> titor \<Rightarrow> titor option" where
  "titor_next tp s t = Option.bind (titor_content s t) (\<lambda>c. case c of
     GC_PURE \<Rightarrow> map_option (\<lambda>m. t\<lparr>t_m := m\<rparr>) (mitor_next s (t_m t))
   | GC_MVCC \<Rightarrow> titor_next_mvcc tp s t)"

text \<open>The two datums are read before anything is checked.\<close>

definition titor_init :: "tran_page \<Rightarrow> store \<Rightarrow> tran option \<Rightarrow> gid_pair \<Rightarrow> gid \<Rightarrow> gid \<Rightarrow> titor option" where
  "titor_init tp s tran gp header data =
     (let ret = \<lparr>t_m = mitor_init gp header data, t_tran = tran\<rparr> in
      Option.bind (titor_content s ret) (\<lambda>c. case c of
        GC_PURE \<Rightarrow> Some ret
      | GC_MVCC \<Rightarrow>
        Option.bind (titor_get_datum s ret TMIN_IDX) (\<lambda>tmin. Option.bind (titor_get_datum s ret TMAX_IDX) (\<lambda>tmax.
        Option.bind (st_h s header) (\<lambda>h.
        if tran = None \<or> hgrid_get_column_idx h TMIN_NAME \<noteq> TMIN_IDX \<or> hgrid_get_column_idx h TMAX_NAME \<noteq> TMAX_IDX
           \<or> dt_type tmin \<noteq> T_BIGINT \<or> dt_type tmax \<noteq> T_BIGINT then None
        else Option.bind (titor_is_valid s ret) (\<lambda>valid.
          if \<not> valid then Some ret
          else Option.bind tran (\<lambda>tr. Option.bind (tran_row_is_visible tp tr (dt_bigint tmin) (dt_bigint tmax)) (\<lambda>visible.
            if visible then Some ret else titor_next tp s ret))))))))"

definition htable_add_column :: "hgrid \<Rightarrow> u8 list \<Rightarrow> sql_type \<Rightarrow> u64 \<Rightarrow> (hgrid \<times> nat option) option" where
  "htable_add_column g name type sz = hmesh_add_column g name type sz"

text \<open>The outer \<open>None\<close> is a failed assert, the inner one NULL.\<close>

definition htable_init :: "u16 \<Rightarrow> grid_layout \<Rightarrow> grid_content \<Rightarrow> hgrid option option" where
  "htable_init pagesz layout content = Option.bind (hgrid_init pagesz layout content) (\<lambda>ret.
     if content = GC_MVCC then
       Option.bind (htable_add_column ret TMIN_NAME T_BIGINT 0) (\<lambda>(ret, c). if c = None then Some None
       else Option.bind (htable_add_column ret TMAX_NAME T_BIGINT 0) (\<lambda>(ret, c). if c = None then Some None
       else if hgrid_get_column_idx ret TMIN_NAME = TMIN_IDX \<and> hgrid_get_column_idx ret TMAX_NAME = TMAX_IDX
       then Some (Some ret) else None))
     else Some (Some ret))"

definition dtable_init :: "u16 \<Rightarrow> grid_layout \<Rightarrow> grid_content \<Rightarrow> hgrid \<Rightarrow> dgrid option" where
  "dtable_init pagesz layout content h = dgrid_init pagesz layout content h"

definition table_alloc_row :: "gid_pair \<Rightarrow> store \<Rightarrow> titor \<Rightarrow> gid_pair \<Rightarrow> (store \<times> gid_pair \<times> titor) option" where
  "table_alloc_row seq s titor tail = map_option (\<lambda>(s', tail', m).
     (s', tail', titor\<lparr>t_m := m\<lparr>m_gp := tail'\<rparr>\<rparr>)) (mesh_alloc_row seq s tail)"

section \<open>Positions\<close>

text \<open>The rows of a chain of pages, as pairs of a gid and a row number, from row \<open>i\<close> of the first page on.\<close>

definition page_len :: "store \<Rightarrow> gid \<Rightarrow> nat" where
  "page_len s g = length (page_rows s g)"

fun positions :: "store \<Rightarrow> gid list \<Rightarrow> nat \<Rightarrow> (gid \<times> nat) list" where
  "positions s [] i = []"
| "positions s (g # gs) i = map (Pair g) [i..<page_len s g] @ positions s gs 0"

text \<open>An iterator on row \<open>i\<close> of the first page of the chain, or past the end of the last page.\<close>

definition mitor_at :: "store \<Rightarrow> gid list \<Rightarrow> nat \<Rightarrow> mitor \<Rightarrow> bool" where
  "mitor_at s gs i m \<longleftrightarrow> gs \<noteq> [] \<and> mesh_chain s (hd gs) gs \<and> (\<forall>g \<in> set gs. page_len s g \<noteq> 0) \<and>
     gp_header (m_gp m) \<noteq> GID_UNDEF \<and> gp_data (m_gp m) = hd gs \<and> m_data m = Some (hd gs) \<and> unat (m_row m) = i \<and>
     (i < page_len s (hd gs) \<or> i = page_len s (hd gs) \<and> tl gs = [])"

lemma mesh_chain_hd:
  assumes "mesh_chain s g (x # gs)"
  obtains d where "st_d s x = Some d" "grid_inv d" "mesh_chain s (g_next d) gs" "x = g" "x \<noteq> GID_UNDEF"
    "page_len s x = unat (g_occupied d)"
proof -
  from assms have x: "x = g" "x \<noteq> GID_UNDEF" "\<exists>d. st_d s x = Some d \<and> grid_inv d \<and> mesh_chain s (g_next d) gs"
    by simp_all
  then obtain d where d: "st_d s x = Some d" "grid_inv d" "mesh_chain s (g_next d) gs" by blast
  then have "page_len s x = unat (g_occupied d)"
    using grid_invD(3)[OF d(2)] by (simp add: page_len_def page_rows_def)
  then show thesis using that[OF d x(1,2)] by blast
qed

lemma mesh_chain_next: "mesh_chain s g gs \<Longrightarrow> gs \<noteq> [] \<Longrightarrow> g = hd gs"
  by (cases gs) auto

lemma mitor_at_valid:
  assumes "mitor_at s gs i m"
  shows "mitor_is_valid s m = Some (i < page_len s (hd gs))"
proof -
  obtain g gs' where gs: "gs = g # gs'" using assms by (cases gs) (auto simp: mitor_at_def)
  then have "mesh_chain s g (g # gs')" using assms by (auto simp: mitor_at_def)
  then obtain d where "st_d s g = Some d" "g \<noteq> GID_UNDEF" "page_len s g = unat (g_occupied d)"
    by (rule mesh_chain_hd)
  then show ?thesis using assms gs by (auto simp: mitor_at_def mitor_is_valid_def word_less_nat_alt)
qed

lemma mitor_next_at:
  assumes "mitor_at s gs i m" "i < page_len s (hd gs)"
  shows "\<exists>m' gs' i'. mitor_next s m = Some m' \<and> mitor_at s gs' i' m' \<and> m_header m' = m_header m \<and>
    set gs' \<subseteq> set gs \<and> positions s gs i = (hd gs, i) # positions s gs' i'"
proof -
  obtain g gs' where gs: "gs = g # gs'" using assms by (cases gs) (auto simp: mitor_at_def)
  have ch: "mesh_chain s g (g # gs')" using assms(1) gs by (auto simp: mitor_at_def)
  obtain d where d: "st_d s g = Some d" "grid_inv d" "mesh_chain s (g_next d) gs'" "g \<noteq> GID_UNDEF"
    "page_len s g = unat (g_occupied d)"
    using ch by (rule mesh_chain_hd)
  have md: "m_data m = Some g" "unat (m_row m) = i" using assms(1) gs by (auto simp: mitor_at_def)
  have v: "mitor_is_valid s m = Some True" using mitor_at_valid[OF assms(1)] assms(2) by simp
  let ?m1 = "m\<lparr>m_row := m_row m + 1\<rparr>"
  have "m_row m < g_occupied d" using assms(2) gs md d(5) by (simp add: word_less_nat_alt)
  then have r1: "unat (m_row ?m1) = Suc i" using unat_succ_u16 md(2) by auto
  have v1: "mitor_is_valid s ?m1 = Some (Suc i < page_len s g)"
    using assms(1) gs d r1 by (auto simp: mitor_at_def mitor_is_valid_def word_less_nat_alt)
  have pos: "positions s gs i = (g, i) # map (Pair g) [Suc i..<page_len s g] @ positions s gs' 0"
    using assms(2) gs by (simp add: upt_conv_Cons)
  consider (same) "Suc i < page_len s g" | (last) "Suc i = page_len s g" "gs' = []"
    | (next_page) "Suc i = page_len s g" "gs' \<noteq> []"
    using assms(2) gs by fastforce
  then show ?thesis
  proof cases
    case same
    then have "mitor_next s m = Some ?m1" using v v1 by (simp add: mitor_next_def)
    moreover have "mitor_at s gs (Suc i) ?m1" using assms(1) gs same r1 by (auto simp: mitor_at_def)
    ultimately show ?thesis using pos gs by (intro exI[of _ ?m1] exI[of _ gs] exI[of _ "Suc i"]) simp
  next
    case last
    then have "mitor_next s m = Some ?m1" using v v1 d md by (simp add: mitor_next_def)
    moreover have "mitor_at s gs (Suc i) ?m1" using assms(1) gs last r1 by (auto simp: mitor_at_def)
    ultimately show ?thesis using pos gs last by (intro exI[of _ ?m1] exI[of _ gs] exI[of _ "Suc i"]) simp
  next
    case next_page
    let ?g' = "g_next d"
    have hd: "?g' = hd gs'" using mesh_chain_next[OF d(3) next_page(2)] .
    have ud: "?g' \<noteq> GID_UNDEF" using d(3) next_page(2) by (cases gs') auto
    let ?m2 = "?m1\<lparr>m_gp := (m_gp ?m1)\<lparr>gp_data := ?g'\<rparr>, m_data := Some ?g', m_row := 0\<rparr>"
    have "mitor_next s m = Some ?m2" using v v1 d md ud next_page by (simp add: mitor_next_def)
    moreover have "mitor_at s gs' 0 ?m2"
      using assms(1) gs d(3) hd next_page(2) by (auto simp: mitor_at_def)
    ultimately show ?thesis using pos gs next_page by (intro exI[of _ ?m2] exI[of _ gs'] exI[of _ 0]) auto
  qed
qed

end
