(* ===== verification/Scr_Dml.thy ===== *)
theory Scr_Dml
  imports Scr_Table Scr_Ihash "HOL-Library.Monad_Syntax"
begin

text \<open>
  \<^verbatim>\<open>src/scrs/dml.c\<close> with the parts of \<^verbatim>\<open>server.h\<close>,
  \<^verbatim>\<open>session.h\<close> and \<^verbatim>\<open>scrc.h\<close> it uses: finding a relation in the system
  tables, starting a transaction, inserting, deleting and selecting rows. The database is
  the store of pages, the page of transaction flags and the process's transaction cache.
  \<open>None\<close> is a failed assert or a NULL dereference. Page flushes do not change what the
  store gives back and are left out; arrays are lists, so a failing allocation of a
  temporary array is not modelled.
\<close>

section \<open>State\<close>

datatype scrc_status =
    SCRC_OK | SCRC_END | SCRC_BAD_ALLOC | SCRC_NO_HOST | SCRC_UNKNOWN_HOST | SCRC_INCORRECT_PORT
  | SCRC_NO_USER | SCRC_SOCKET_ERROR | SCRC_CONNECTION_ERROR | SCRC_CONNECTION_CLOSED | SCRC_SEND_ERROR
  | SCRC_RECV_ERROR | SCRC_PROTOCOL_ERROR | SCRC_HEADER_ERROR | SCRC_HEADER_TOO_LARGE | SCRC_UNKNOWN_COMMAND
  | SCRC_BUFFER_OVERFLOW | SCRC_INCORRECT_PARAM | SCRC_OUT_OF_RANGE
  | SCRS_NO_USER | SCRS_PARSER_ERROR | SCRS_PARSER_MEMORY_EXHAUSTION | SCRS_UNKNOWN_PARSER_ERROR
  | SCRS_SEND_ERROR | SCRS_SESSION_CLOSED | SCRS_UNKNOWN_CATALOG | SCRS_UNKNOWN_RELATION | SCRS_UNKNOWN_COLUMN
  | SCRS_BAD_ALLOC | SCRS_DATUM_TYPE_MISMATCH | SCRS_SEQUENCE_OVERFLOW | SCRS_BYTECODE_STACK_OVERFLOW
  | SCRS_BYTECODE_UNBALANCED_STACK | SCRS_BYTECODE_UNKNOWN_ERROR | SCRS_TRANSACTION_CACHE_OVERFLOW
  | SCRS_TRANSACTION_START_ERROR | SCRS_NO_TRANSACTION | SCRS_UNKNOWN_SERVER_ERROR

text \<open>SCRS_OK and SCRC_OK are the same value.\<close>

abbreviation SCRS_OK :: scrc_status where "SCRS_OK \<equiv> SCRC_OK"

text \<open>\<open>g_server.system\<close>, and \<open>g_sequence\<close>, which mesh.c uses.\<close>

record server_sys =
  sys_sequence :: gid_pair
  sys_user :: gid_pair
  sys_catalog :: gid_pair
  sys_schema :: gid_pair
  sys_relation :: gid_pair
  g_sequence :: gid_pair

record db =
  db_store :: store
  db_tran :: tran_page
  db_trans :: "bool ihash"

text \<open>\<open>ss_tran\<close> points to a node of the transaction cache.\<close>

record sess =
  ss_user :: "u8 list option"
  ss_catalog :: "u8 list option"
  ss_tran :: "hloc option"

definition tran_at :: "db \<Rightarrow> hloc \<Rightarrow> tran" where
  "tran_at d e = (let n = ihash_node (db_trans d) e in \<lparr>tr_key = hkey n, tr_autocommit = hval n\<rparr>)"

definition sess_tran :: "db \<Rightarrow> sess \<Rightarrow> tran option" where
  "sess_tran d ss = map_option (tran_at d) (ss_tran ss)"

definition GP_UNDEF :: gid_pair where
  "GP_UNDEF = \<lparr>gp_header = GID_UNDEF, gp_data = GID_UNDEF\<rparr>"

text \<open>make_char of a C string that may be NULL.\<close>

definition make_char_of :: "u8 list option \<Rightarrow> datum option" where
  "make_char_of = map_option make_char"

definition column_idx :: "store \<Rightarrow> gid \<Rightarrow> string \<Rightarrow> u16 option" where
  "column_idx s hg name = do {
     h \<leftarrow> st_h s hg;
     let i = hgrid_get_column_idx h (ascii name);
     if grid_idx_is_valid i then Some i else None }"

text \<open>sequence_nextval on the pages of a sequence.\<close>

definition store_nextval :: "store \<Rightarrow> gid_pair \<Rightarrow> (store \<times> i64 option \<times> int) option" where
  "store_nextval s seq = do {
     h \<leftarrow> st_h s (gp_header seq);
     d \<leftarrow> st_d s (gp_data seq);
     (d', v, ret) \<leftarrow> sequence_nextval h d;
     Some (put_data s (gp_data seq) d', v, ret) }"

section \<open>Relations\<close>

text \<open>The three comparisons of the loop, each made only when the ones before hold.\<close>

definition row_names :: "store \<Rightarrow> titor \<Rightarrow> (u16 \<times> u8 list option) list \<Rightarrow> bool option" where
  "row_names s i cs = fold (\<lambda>(c, v) r. do {
     ok \<leftarrow> r; d \<leftarrow> titor_get_datum s i c;
     if ok then do { w \<leftarrow> make_char_of v; eq_character d w } else Some False }) cs (Some True)"

text \<open>The page of a table that has none: a new file, stored in the row of the relation.\<close>

definition create_data_page ::
    "server_sys \<Rightarrow> store \<Rightarrow> titor \<Rightarrow> gid \<Rightarrow> u16 \<Rightarrow> u16 \<Rightarrow> (store \<times> i64 option) option" where
  "create_data_page sys s i hg data_gid_idx tail_gid_idx = do {
     htable \<leftarrow> st_h s hg;
     (s1, v, ret) \<leftarrow> store_nextval s (sys_sequence sys);
     if ret \<noteq> 0 then Some (s1, None)
     else do {
       v \<leftarrow> v;
       dtable \<leftarrow> dtable_init (of_nat PAGESZ) GL_FIXED GC_MVCC htable;
       let s2 = put_data s1 (gid_parts v 0) dtable;
       (s3, _) \<leftarrow> titor_put_datum s2 i data_gid_idx (make_bigint v);
       (s4, _) \<leftarrow> titor_put_datum s3 i tail_gid_idx (make_bigint v);
       Some (s4, Some v) } }"

partial_function (option) find_relation_loop ::
    "server_sys \<Rightarrow> sess \<Rightarrow> tran_page \<Rightarrow> store \<Rightarrow> u8 list \<Rightarrow> u8 list \<Rightarrow> bool \<Rightarrow> bool \<Rightarrow> u16 list \<Rightarrow> titor \<Rightarrow> (store \<times> gid_pair) option" where
  "find_relation_loop sys ss tp s schema relation return_tail create idx i = do {
     valid \<leftarrow> mitor_is_valid s (t_m i);
     if \<not> valid then Some (s, GP_UNDEF)
     else do {
       found \<leftarrow> row_names s i [(idx ! 0, ss_catalog ss), (idx ! 1, Some schema), (idx ! 2, Some relation)];
       if \<not> found then do {
         i' \<leftarrow> titor_next tp s i;
         find_relation_loop sys ss tp s schema relation return_tail create idx i' }
       else do {
         header \<leftarrow> titor_get_datum s i (idx ! 3);
         data \<leftarrow> titor_get_datum s i (idx ! 4);
         tail \<leftarrow> titor_get_datum s i (idx ! 5);
         if dt_bigint header = GID_UNDEF then None
         else if create \<and> dt_bigint data = GID_UNDEF then do {
           (s', v) \<leftarrow> create_data_page sys s i (dt_bigint header) (idx ! 4) (idx ! 5);
           (case v of None \<Rightarrow> Some (s', GP_UNDEF)
            | Some v \<Rightarrow> Some (s', \<lparr>gp_header = dt_bigint header, gp_data = v\<rparr>)) }
         else Some (s, \<lparr>gp_header = dt_bigint header, gp_data = if return_tail then dt_bigint tail else dt_bigint data\<rparr>) } } }"

declare find_relation_loop.simps [code]

definition find_relation ::
    "server_sys \<Rightarrow> sess \<Rightarrow> db \<Rightarrow> u8 list \<Rightarrow> u8 list \<Rightarrow> bool \<Rightarrow> bool \<Rightarrow> (db \<times> gid_pair) option" where
  "find_relation sys ss d schema relation return_tail create = (let s = db_store d; gp = sys_relation sys; hg = gp_header gp in do {
     catalog_idx \<leftarrow> column_idx s hg ''catalog'';
     schema_idx \<leftarrow> column_idx s hg ''schema'';
     relation_idx \<leftarrow> column_idx s hg ''relation'';
     header_gid_idx \<leftarrow> column_idx s hg ''header_gid'';
     data_gid_idx \<leftarrow> column_idx s hg ''data_gid'';
     tail_gid_idx \<leftarrow> column_idx s hg ''tail_gid'';
     i \<leftarrow> titor_init (db_tran d) s (sess_tran d ss) gp hg (gp_data gp);
     (s', r) \<leftarrow> find_relation_loop sys ss (db_tran d) s schema relation return_tail create
       [catalog_idx, schema_idx, relation_idx, header_gid_idx, data_gid_idx, tail_gid_idx] i;
     Some (d\<lparr>db_store := s'\<rparr>, r) })"

section \<open>Starting a transaction\<close>

partial_function (option) find_tran_sequence ::
    "sess \<Rightarrow> tran_page \<Rightarrow> store \<Rightarrow> u16 \<Rightarrow> u16 \<Rightarrow> titor \<Rightarrow> gid option" where
  "find_tran_sequence ss tp s name_idx tran_sequence_idx i = do {
     valid \<leftarrow> titor_is_valid s i;
     if \<not> valid then Some GID_UNDEF
     else do {
       dcatalog \<leftarrow> titor_get_datum s i name_idx;
       c \<leftarrow> make_char_of (ss_catalog ss);
       eq \<leftarrow> eq_character dcatalog c;
       if eq then map_option dt_bigint (titor_get_datum s i tran_sequence_idx)
       else do {
         i' \<leftarrow> titor_next tp s i;
         find_tran_sequence ss tp s name_idx tran_sequence_idx i' } } }"

declare find_tran_sequence.simps [code]

text \<open>The pointer is \<open>None\<close> where \<open>*out\<close> is left alone.\<close>

definition tran_put :: "server_sys \<Rightarrow> sess \<Rightarrow> db \<Rightarrow> bool \<Rightarrow> (db \<times> scrc_status \<times> hloc option) option" where
  "tran_put sys ss d autocommit = (let s = db_store d; gp = sys_catalog sys; hg = gp_header gp in do {
     name_idx \<leftarrow> column_idx s hg ''name'';
     tran_sequence_idx \<leftarrow> column_idx s hg ''tran_sequence'';
     i \<leftarrow> titor_init (db_tran d) s (sess_tran d ss) gp hg (gp_data gp);
     g \<leftarrow> find_tran_sequence ss (db_tran d) s name_idx tran_sequence_idx i;
     if g = GID_UNDEF then None
     else do {
       (s', v, ret) \<leftarrow> store_nextval s \<lparr>gp_header = gp_header (sys_sequence sys), gp_data = g\<rparr>;
       if ret \<noteq> 0 then Some (d\<lparr>db_store := s'\<rparr>, SCRS_SEQUENCE_OVERFLOW, None)
       else do {
         tranid \<leftarrow> v;
         (h, e) \<leftarrow> ihash_put (db_trans d) tranid autocommit;
         (case e of None \<Rightarrow> Some (d\<lparr>db_store := s', db_trans := h\<rparr>, SCRS_TRANSACTION_CACHE_OVERFLOW, None)
          | Some e \<Rightarrow> do {
              tp \<leftarrow> (if autocommit then tran_flag_put (db_tran d) tranid TF_COMMITED else Some (db_tran d));
              Some (d\<lparr>db_store := s', db_trans := h, db_tran := tp\<rparr>, SCRC_OK, Some e) }) } } })"

text \<open>Starting an autocommitted transaction if the session has none.\<close>

definition ensure_tran :: "server_sys \<Rightarrow> sess \<Rightarrow> db \<Rightarrow> (db \<times> sess \<times> scrc_status) option" where
  "ensure_tran sys ss d = (if ss_tran ss = None then do {
       (d', st, e) \<leftarrow> tran_put sys ss d True;
       Some (d', if st = SCRS_OK then ss\<lparr>ss_tran := e\<rparr> else ss, st) }
     else Some (d, ss, SCRS_OK))"

section \<open>Statements\<close>

text \<open>The indices of the columns, or \<open>None\<close> when a name is unknown.\<close>

definition column_indices :: "hgrid \<Rightarrow> u8 list list \<Rightarrow> u16 list option" where
  "column_indices h names = (let is = map (hgrid_get_column_idx h) names in
     if list_all grid_idx_is_valid is then Some is else None)"

text \<open>The loop over the columns; the status is an error as soon as a put returns one.\<close>

fun put_columns :: "store \<Rightarrow> titor \<Rightarrow> (u16 \<times> datum) list \<Rightarrow> (store \<times> scrc_status) option" where
  "put_columns s row [] = Some (s, SCRS_OK)"
| "put_columns s row ((c, v) # cs) = do {
     (s', ret) \<leftarrow> titor_put_datum s row c v;
     if ret \<noteq> 0 then Some (s', SCRS_DATUM_TYPE_MISMATCH) else put_columns s' row cs }"

text \<open>
  \<open>row\<close> is declared without a value and table_alloc_row sets only its mesh iterator:
  \<open>junk\<close> is what its transaction pointer happens to hold.
\<close>

definition insert_stmt ::
    "tran option \<Rightarrow> server_sys \<Rightarrow> sess \<Rightarrow> db \<Rightarrow> u8 list \<Rightarrow> u8 list \<Rightarrow> u8 list list \<Rightarrow> datum list \<Rightarrow> grid_content \<Rightarrow>
     (db \<times> sess \<times> scrc_status) option" where
  "insert_stmt junk sys ss d schema table names values content = do {
     (d, gp) \<leftarrow> find_relation sys ss d schema table True True;
     if length names \<noteq> length values then None
     else if gp_header gp = GID_UNDEF then Some (d, ss, SCRS_UNKNOWN_RELATION)
     else if gp_data gp = GID_UNDEF then None
     else do {
       h \<leftarrow> st_h (db_store d) (gp_header gp);
       (d, ss, st) \<leftarrow> (if content = GC_MVCC then ensure_tran sys ss d else Some (d, ss, SCRS_OK));
       if st \<noteq> SCRS_OK then Some (d, ss, st)
       else do {
         (names, values) \<leftarrow> (if content = GC_MVCC then do {
             tran \<leftarrow> sess_tran d ss;
             Some (names @ [TMIN_NAME, TMAX_NAME], values @ [make_bigint (tr_key tran), make_bigint TRAN_INVALID_ID]) }
           else Some (names, values));
         (case column_indices h names of None \<Rightarrow> Some (d, ss, SCRS_UNKNOWN_COLUMN)
          | Some indices \<Rightarrow> do {
              (s, _, row) \<leftarrow> table_alloc_row (g_sequence sys) (db_store d) \<lparr>t_m = mitor_init_invalid, t_tran = junk\<rparr> gp;
              valid \<leftarrow> titor_is_valid s row;
              if \<not> valid then Some (d\<lparr>db_store := s\<rparr>, ss, SCRS_SEQUENCE_OVERFLOW)
              else do {
                (s, st) \<leftarrow> put_columns s row (zip indices values);
                Some (d\<lparr>db_store := s\<rparr>, ss, st) } }) } } }"

text \<open>The iterator is \<open>None\<close> where \<open>*out\<close> is left alone.\<close>

definition dml_delete ::
    "server_sys \<Rightarrow> sess \<Rightarrow> db \<Rightarrow> u8 list \<Rightarrow> u8 list \<Rightarrow> (db \<times> sess \<times> scrc_status \<times> titor option) option" where
  "dml_delete sys ss d schema table = do {
     (d, gp) \<leftarrow> find_relation sys ss d schema table False False;
     if gp_header gp = GID_UNDEF then Some (d, ss, SCRS_UNKNOWN_RELATION, None)
     else do {
       _ \<leftarrow> st_h (db_store d) (gp_header gp);
       if gp_data gp = GID_UNDEF then Some (d, ss, SCRS_OK, Some titor_init_invalid)
       else do {
         data \<leftarrow> st_d (db_store d) (gp_data gp);
         (d, ss, st) \<leftarrow> (if g_content data = GC_MVCC then ensure_tran sys ss d else Some (d, ss, SCRS_OK));
         if st \<noteq> SCRS_OK then Some (d, ss, st, None)
         else do {
           t \<leftarrow> titor_init (db_tran d) (db_store d) (sess_tran d ss) gp (gp_header gp) (gp_data gp);
           Some (d, ss, SCRS_OK, Some t) } } } }"

definition dml_delete_row :: "sess \<Rightarrow> db \<Rightarrow> titor \<Rightarrow> (db \<times> scrc_status) option" where
  "dml_delete_row ss d row = do {
     c \<leftarrow> titor_content (db_store d) row;
     (case c of
        GC_PURE \<Rightarrow> map_option (\<lambda>s. (d\<lparr>db_store := s\<rparr>, SCRS_OK)) (mitor_delete (db_store d) (t_m row))
      | GC_MVCC \<Rightarrow> do {
          hg \<leftarrow> m_header (t_m row);
          h \<leftarrow> st_h (db_store d) hg;
          tran \<leftarrow> sess_tran d ss;
          if hgrid_get_column_idx h TMAX_NAME \<noteq> TMAX_IDX \<or> tr_key tran = 0 then None
          else do {
            (s, ret) \<leftarrow> titor_put_datum (db_store d) row TMAX_IDX (make_bigint (tr_key tran));
            if ret \<noteq> 0 then None else Some (d\<lparr>db_store := s\<rparr>, SCRS_OK) } }) }"

definition dml_select ::
    "server_sys \<Rightarrow> sess \<Rightarrow> db \<Rightarrow> u8 list \<Rightarrow> u8 list \<Rightarrow> u8 list list \<Rightarrow> (db \<times> sess \<times> scrc_status \<times> titor option) option" where
  "dml_select sys ss d schema table names = do {
     (d, gp) \<leftarrow> find_relation sys ss d schema table False False;
     if gp_header gp = GID_UNDEF then Some (d, ss, SCRS_UNKNOWN_RELATION, None)
     else do {
       h \<leftarrow> st_h (db_store d) (gp_header gp);
       if column_indices h names = None then Some (d, ss, SCRS_UNKNOWN_COLUMN, None)
       else if gp_data gp = GID_UNDEF then Some (d, ss, SCRS_OK, Some titor_init_invalid)
       else do {
         data \<leftarrow> st_d (db_store d) (gp_data gp);
         (d, ss, st) \<leftarrow> (if g_content data = GC_MVCC then ensure_tran sys ss d else Some (d, ss, SCRS_OK));
         if st \<noteq> SCRS_OK then Some (d, ss, st, None)
         else do {
           t \<leftarrow> titor_init (db_tran d) (db_store d) (sess_tran d ss) gp (gp_header gp) (gp_data gp);
           Some (d, ss, SCRS_OK, Some t) } } } }"

section \<open>Transaction statements\<close>

text \<open>\<^verbatim>\<open>src/scrs/tcl.c\<close>.\<close>

definition tran_erase :: "db \<Rightarrow> tran_t \<Rightarrow> db option" where
  "tran_erase d key = map_option (\<lambda>(h, _). d\<lparr>db_trans := h\<rparr>) (ihash_erase_fn (db_trans d) key)"

definition tcl_start :: "server_sys \<Rightarrow> sess \<Rightarrow> db \<Rightarrow> (db \<times> sess \<times> scrc_status) option" where
  "tcl_start sys ss d = (case sess_tran d ss of
     Some tran \<Rightarrow>
       if tr_autocommit tran then do {
         d \<leftarrow> tran_erase d (tr_key tran);
         let ss = ss\<lparr>ss_tran := None\<rparr>;
         (d, st, e) \<leftarrow> tran_put sys ss d False;
         Some (d, if st = SCRS_OK then ss\<lparr>ss_tran := e\<rparr> else ss, st) }
       else Some (d, ss, SCRS_TRANSACTION_START_ERROR)
   | None \<Rightarrow> do {
       (d, st, e) \<leftarrow> tran_put sys ss d False;
       Some (d, if st = SCRS_OK then ss\<lparr>ss_tran := e\<rparr> else ss, st) })"

definition tcl_commit :: "sess \<Rightarrow> db \<Rightarrow> (db \<times> sess \<times> scrc_status) option" where
  "tcl_commit ss d = (case sess_tran d ss of
     Some tran \<Rightarrow>
       if tr_autocommit tran then Some (d, ss, SCRS_NO_TRANSACTION)
       else do {
         tp \<leftarrow> tran_flag_put (db_tran d) (tr_key tran) TF_COMMITED;
         d \<leftarrow> tran_erase (d\<lparr>db_tran := tp\<rparr>) (tr_key tran);
         Some (d, ss\<lparr>ss_tran := None\<rparr>, SCRS_OK) }
   | None \<Rightarrow> Some (d, ss, SCRS_NO_TRANSACTION))"

definition tcl_rollback :: "sess \<Rightarrow> db \<Rightarrow> (db \<times> sess \<times> scrc_status) option" where
  "tcl_rollback ss d = (case sess_tran d ss of
     Some tran \<Rightarrow>
       if tr_autocommit tran then Some (d, ss, SCRS_NO_TRANSACTION)
       else do {
         tp \<leftarrow> tran_flag_put (db_tran d) (tr_key tran) TF_ABORTED;
         d \<leftarrow> tran_erase (d\<lparr>db_tran := tp\<rparr>) (tr_key tran);
         Some (d, ss\<lparr>ss_tran := None\<rparr>, SCRS_OK) }
   | None \<Rightarrow> Some (d, ss, SCRS_NO_TRANSACTION))"

end
