(* ===== verification/Scr_Ddl.thy ===== *)
theory Scr_Ddl
  imports Scr_Dml
begin

text \<open>
  \<^verbatim>\<open>src/scrs/ddl.c\<close>: the statements that add users, catalogs, schemas and tables to
  the system tables. \<open>junk\<close> is the indeterminate transaction pointer of the iterator, as in
  \<open>insert_stmt\<close>; the system tables are of pure content, for which it is not read.
\<close>

record decl =
  dc_name :: "u8 list"
  dc_size :: u64
  dc_type :: sql_type

text \<open>table_alloc_row on a local copy of the system gids, and the check of the new row.\<close>

definition alloc_system_row :: "tran option \<Rightarrow> server_sys \<Rightarrow> store \<Rightarrow> gid_pair \<Rightarrow> (store \<times> titor \<times> bool) option" where
  "alloc_system_row junk sys s gp = do {
     (s, _, row) \<leftarrow> table_alloc_row (g_sequence sys) s \<lparr>t_m = mitor_init_invalid, t_tran = junk\<rparr> gp;
     valid \<leftarrow> titor_is_valid s row;
     Some (s, row, valid) }"

definition create_user :: "tran option \<Rightarrow> server_sys \<Rightarrow> db \<Rightarrow> u8 list \<Rightarrow> (db \<times> scrc_status) option" where
  "create_user junk sys d user = (let gp = sys_user sys in do {
     name_idx \<leftarrow> column_idx (db_store d) (gp_header gp) ''name'';
     (s, row, valid) \<leftarrow> alloc_system_row junk sys (db_store d) gp;
     if \<not> valid then Some (d\<lparr>db_store := s\<rparr>, SCRS_SEQUENCE_OVERFLOW)
     else do {
       (s, ret) \<leftarrow> titor_put_datum s row name_idx (make_char user);
       Some (d\<lparr>db_store := s\<rparr>, if ret \<noteq> 0 then SCRS_DATUM_TYPE_MISMATCH else SCRS_OK) } })"

text \<open>
  The maximal transaction id. The source selects it with the preprocessor by comparing the
  names of enumeration constants, which the preprocessor takes for 0: the first test,
  against a name that does not exist, is true.
\<close>

definition TRANID_MAX :: i64 where
  "TRANID_MAX = 32767"

definition create_catalog :: "tran option \<Rightarrow> server_sys \<Rightarrow> db \<Rightarrow> u8 list \<Rightarrow> (db \<times> scrc_status) option" where
  "create_catalog junk sys d catalog = (let gp = sys_catalog sys in do {
     hsequence \<leftarrow> st_h (db_store d) (gp_header (sys_sequence sys));
     name_idx \<leftarrow> column_idx (db_store d) (gp_header gp) ''name'';
     tran_idx \<leftarrow> column_idx (db_store d) (gp_header gp) ''tran_sequence'';
     (s, row, valid) \<leftarrow> alloc_system_row junk sys (db_store d) gp;
     if \<not> valid then Some (d\<lparr>db_store := s\<rparr>, SCRS_SEQUENCE_OVERFLOW)
     else do {
       (s, ret) \<leftarrow> titor_put_datum s row name_idx (make_char catalog);
       if ret \<noteq> 0 then Some (d\<lparr>db_store := s\<rparr>, SCRS_DATUM_TYPE_MISMATCH)
       else do {
         (s, currval, ret) \<leftarrow> store_nextval s (sys_sequence sys);
         if ret \<noteq> 0 then Some (d\<lparr>db_store := s\<rparr>, SCRS_SEQUENCE_OVERFLOW)
         else do {
           currval \<leftarrow> currval;
           (page, ret) \<leftarrow> sequence_init hsequence 1 TRANID_MAX 1 1 False;
           page \<leftarrow> page;
           if ret \<noteq> 0 then None
           else do {
             let s = put_data s (gid_parts currval 0) page;
             (s, ret) \<leftarrow> titor_put_datum s row tran_idx (make_bigint currval);
             Some (d\<lparr>db_store := s\<rparr>, if ret \<noteq> 0 then SCRS_DATUM_TYPE_MISMATCH else SCRS_OK) } } } } })"

definition create_schema :: "tran option \<Rightarrow> server_sys \<Rightarrow> sess \<Rightarrow> db \<Rightarrow> u8 list \<Rightarrow> (db \<times> scrc_status) option" where
  "create_schema junk sys ss d schema = (let gp = sys_schema sys in do {
     catalog_idx \<leftarrow> column_idx (db_store d) (gp_header gp) ''catalog'';
     schema_idx \<leftarrow> column_idx (db_store d) (gp_header gp) ''schema'';
     (s, row, valid) \<leftarrow> alloc_system_row junk sys (db_store d) gp;
     if \<not> valid then Some (d\<lparr>db_store := s\<rparr>, SCRS_SEQUENCE_OVERFLOW)
     else do {
       c \<leftarrow> make_char_of (ss_catalog ss);
       (s, ret) \<leftarrow> titor_put_datum s row catalog_idx c;
       if ret \<noteq> 0 then Some (d\<lparr>db_store := s\<rparr>, SCRS_DATUM_TYPE_MISMATCH)
       else do {
         (s, ret) \<leftarrow> titor_put_datum s row schema_idx (make_char schema);
         Some (d\<lparr>db_store := s\<rparr>, if ret \<noteq> 0 then SCRS_DATUM_TYPE_MISMATCH else SCRS_OK) } } })"

text \<open>The columns of a table; the flag says whether there was room for all of them.\<close>

fun add_decls :: "hgrid \<Rightarrow> decl list \<Rightarrow> (hgrid \<times> bool) option" where
  "add_decls h [] = Some (h, True)"
| "add_decls h (c # cs) = do {
     (h', r) \<leftarrow> htable_add_column h (dc_name c) (dc_type c) (dc_size c);
     if r = None then Some (h', False) else add_decls h' cs }"

text \<open>The columns that carry the transactions of a row come first.\<close>

definition mvcc_decls :: "decl list" where
  "mvcc_decls = [\<lparr>dc_name = TMIN_NAME, dc_size = 0, dc_type = T_BIGINT\<rparr>,
                 \<lparr>dc_name = TMAX_NAME, dc_size = 0, dc_type = T_BIGINT\<rparr>]"

text \<open>The puts are all made, and their return values combined with a bitwise or.\<close>

fun put_all :: "store \<Rightarrow> titor \<Rightarrow> (u16 \<times> datum) list \<Rightarrow> (store \<times> int) option" where
  "put_all s row [] = Some (s, 0)"
| "put_all s row ((c, v) # cs) = do {
     (s', ret) \<leftarrow> titor_put_datum s row c v;
     (s'', ret') \<leftarrow> put_all s' row cs;
     Some (s'', or ret ret') }"

definition create_table ::
    "tran option \<Rightarrow> server_sys \<Rightarrow> sess \<Rightarrow> db \<Rightarrow> u8 list \<Rightarrow> u8 list \<Rightarrow> decl list \<Rightarrow> grid_content \<Rightarrow> (db \<times> scrc_status) option" where
  "create_table junk sys ss d schema tname decls data_content = (let gp = sys_relation sys; hg = gp_header gp; s = db_store d in do {
     catalog_idx \<leftarrow> column_idx s hg ''catalog'';
     schema_idx \<leftarrow> column_idx s hg ''schema'';
     relation_idx \<leftarrow> column_idx s hg ''relation'';
     header_gid_idx \<leftarrow> column_idx s hg ''header_gid'';
     data_gid_idx \<leftarrow> column_idx s hg ''data_gid'';
     tail_gid_idx \<leftarrow> column_idx s hg ''tail_gid'';
     (s, currval, ret) \<leftarrow> store_nextval s (sys_sequence sys);
     if ret \<noteq> 0 then Some (d\<lparr>db_store := s\<rparr>, SCRS_SEQUENCE_OVERFLOW)
     else do {
       currval \<leftarrow> currval;
       table \<leftarrow> htable_init (of_nat PAGESZ) GL_FIXED GC_PURE;
       table \<leftarrow> table;
       (t, ok) \<leftarrow> add_decls table ((if data_content = GC_MVCC then mvcc_decls else []) @ decls);
       let s = s\<lparr>st_h := (st_h s)(gid_parts currval 0 \<mapsto> t)\<rparr>;
       if \<not> ok then Some (d\<lparr>db_store := s\<rparr>, SCRS_BAD_ALLOC)
       else do {
            (s, row, valid) \<leftarrow> alloc_system_row junk sys s gp;
            if \<not> valid then Some (d\<lparr>db_store := s\<rparr>, SCRS_SEQUENCE_OVERFLOW)
            else do {
              c \<leftarrow> make_char_of (ss_catalog ss);
              (s, ret) \<leftarrow> put_all s row [(catalog_idx, c), (schema_idx, make_char schema), (relation_idx, make_char tname),
                (header_gid_idx, make_bigint currval), (data_gid_idx, make_bigint GID_UNDEF), (tail_gid_idx, make_bigint GID_UNDEF)];
              Some (d\<lparr>db_store := s\<rparr>, if ret \<noteq> 0 then SCRS_DATUM_TYPE_MISMATCH else SCRS_OK) } } } })"

end
