(* ===== verification/Scr_Table_Laws.thy ===== *)
theory Scr_Table_Laws
  imports Scr_Table
begin

text \<open>
  The table iterator ends and visits, in order, exactly the row versions its transaction
  sees; on a table page without rows it reads through a NULL row.
\<close>

section \<open>Well-formed multi-version tables\<close>

definition row_tid :: "hgrid \<Rightarrow> u8 list \<Rightarrow> nat \<Rightarrow> tran_t" where
  "row_tid h r k = get_bigint (read_at r (unat (col_offs (grid_list h ! k))) 8)"

text \<open>What the transaction \<open>tr\<close> should see of a row.\<close>

definition row_visible :: "tran_page \<Rightarrow> tran \<Rightarrow> hgrid \<Rightarrow> u8 list \<Rightarrow> bool" where
  "row_visible tp tr h r \<longleftrightarrow> sees tp (tr_key tr) (row_tid h r 0) \<and> \<not> sees tp (tr_key tr) (row_tid h r 1)"

definition row_ok :: "tran_page \<Rightarrow> tran \<Rightarrow> hgrid \<Rightarrow> u8 list \<Rightarrow> bool" where
  "row_ok tp tr h r \<longleftrightarrow> row_tid h r 0 \<noteq> 0 \<and> has_flag tp (row_tid h r 0) \<and> has_flag tp (row_tid h r 1) \<and>
     (tr_key tr = row_tid h r 0 \<longrightarrow> row_tid h r 1 = 0 \<or> row_tid h r 1 = row_tid h r 0)"

definition mvcc_header :: "hgrid \<Rightarrow> bool" where
  "mvcc_header h \<longleftrightarrow> hgrid_wf h \<and> 2 \<le> length (grid_list h) \<and>
     col_type (grid_list h ! 0) = T_BIGINT \<and> col_type (grid_list h ! 1) = T_BIGINT \<and>
     cname (grid_list h ! 0) = TMIN_NAME \<and> cname (grid_list h ! 1) = TMAX_NAME"

definition mvcc_page :: "tran_page \<Rightarrow> tran \<Rightarrow> store \<Rightarrow> hgrid \<Rightarrow> gid \<Rightarrow> bool" where
  "mvcc_page tp tr s h g \<longleftrightarrow> (case st_d s g of None \<Rightarrow> False
     | Some d \<Rightarrow> dgrid_ok h d \<and> g_content d = GC_MVCC \<and> (\<forall>r \<in> set (grid_list d). row_ok tp tr h r))"

definition mvcc_table :: "tran_page \<Rightarrow> tran \<Rightarrow> store \<Rightarrow> gid \<Rightarrow> hgrid \<Rightarrow> gid list \<Rightarrow> bool" where
  "mvcc_table tp tr s hg h gs \<longleftrightarrow> st_h s hg = Some h \<and> mvcc_header h \<and> (\<forall>g \<in> set gs. mvcc_page tp tr s h g) \<and>
     tr_key tr \<noteq> 0 \<and> \<not> committed tp 0"

definition pos_visible :: "tran_page \<Rightarrow> tran \<Rightarrow> store \<Rightarrow> hgrid \<Rightarrow> gid \<times> nat \<Rightarrow> bool" where
  "pos_visible tp tr s h p \<longleftrightarrow> row_visible tp tr h (page_rows s (fst p) ! snd p)"

text \<open>The loop over a table: \<open>for (i = titor_init(..); titor_is_valid(i); titor_next(&i))\<close>.\<close>

partial_function (option) titor_collect :: "tran_page \<Rightarrow> store \<Rightarrow> titor \<Rightarrow> (gid \<times> nat) list option" where
  "titor_collect tp s t = Option.bind (titor_is_valid s t) (\<lambda>valid. if \<not> valid then Some []
     else Option.bind (m_data (t_m t)) (\<lambda>g. Option.bind (titor_next tp s t) (\<lambda>t'.
       Option.bind (titor_collect tp s t') (\<lambda>ps. Some ((g, unat (m_row (t_m t))) # ps)))))"

lemma mvcc_header_idx:
  assumes "mvcc_header h"
  shows "hgrid_get_column_idx h TMIN_NAME = TMIN_IDX" "hgrid_get_column_idx h TMAX_NAME = TMAX_IDX"
proof -
  obtain a b cs where l: "grid_list h = a # b # cs"
    using assms by (auto simp: mvcc_header_def numeral_2_eq_2 Suc_le_length_iff)
  then have "take (unat (g_occupied h)) (g_rows h) = a # b # cs" by (simp add: grid_list_def)
  moreover have "cname a = TMIN_NAME" "cname b = TMAX_NAME" "TMIN_NAME \<noteq> TMAX_NAME"
    using assms l by (auto simp: mvcc_header_def TMIN_NAME_def TMAX_NAME_def ascii_def)
  ultimately show "hgrid_get_column_idx h TMIN_NAME = TMIN_IDX" "hgrid_get_column_idx h TMAX_NAME = TMAX_IDX"
    by (simp_all add: hgrid_get_column_idx_def TMIN_IDX_def TMAX_IDX_def)
qed

text \<open>Reading a BIGINT column of an existing row.\<close>

lemma grid_get_bigint:
  assumes "dgrid_ok h d" "unat row < length (grid_list d)" "unat c < length (grid_list h)"
    and "col_type (grid_list h ! unat c) = T_BIGINT"
  shows "\<exists>v. grid_get_datum h d row c = Some v \<and> dt_type v = T_BIGINT \<and>
    dt_bigint v = row_tid h (grid_list d ! unat row) (unat c)"
proof -
  note e = dgrid_cell[OF assms(1-3)]
  have w: "col_width (grid_list h ! unat c) = 8" using assms(4) by (rule width_of_type)
  have i: "grid_inv d" using assms(1) by (simp add: dgrid_ok_def)
  have "g_rows d ! unat row = grid_list d ! unat row"
    using assms(2) grid_invD(3)[OF i] by (simp add: grid_list_def)
  then show ?thesis
    using e(3) w assms(4) by (simp add: grid_get_datum_def e(1,2) Let_def cell_read_def col_end_def row_tid_def)
qed

lemma mitor_at_visible:
  assumes tb: "mvcc_table tp tr s hg h gs" and at: "mitor_at s gs i m" "i < page_len s (hd gs)"
    and m: "m_header m = Some hg"
  shows "\<exists>a b. mitor_get_datum s m TMIN_IDX = Some a \<and> mitor_get_datum s m TMAX_IDX = Some b \<and>
    dt_type a = T_BIGINT \<and> dt_type b = T_BIGINT \<and>
    tran_row_is_visible tp tr (dt_bigint a) (dt_bigint b) = Some (pos_visible tp tr s h (hd gs, i))"
proof -
  have hdin: "hd gs \<in> set gs" and md: "m_data m = Some (hd gs)" "unat (m_row m) = i"
    using at by (auto simp: mitor_at_def)
  then obtain d where d: "st_d s (hd gs) = Some d" "dgrid_ok h d" "\<forall>r \<in> set (grid_list d). row_ok tp tr h r"
    using tb by (auto simp: mvcc_table_def mvcc_page_def split: option.splits)
  have h: "st_h s hg = Some h" "mvcc_header h" and tr: "tr_key tr \<noteq> 0" "\<not> committed tp 0"
    using tb by (auto simp: mvcc_table_def)
  have rows: "page_rows s (hd gs) = grid_list d" using d(1) by (simp add: page_rows_def)
  have r: "unat (m_row m) < length (grid_list d)" using at(2) md(2) rows by (simp add: page_len_def)
  have c: "unat TMIN_IDX = 0" "unat TMAX_IDX = 1" by (simp_all add: TMIN_IDX_def TMAX_IDX_def)
  have hc: "0 < length (grid_list h)" "1 < length (grid_list h)"
    "col_type (grid_list h ! 0) = T_BIGINT" "col_type (grid_list h ! 1) = T_BIGINT"
    using h(2) by (auto simp: mvcc_header_def)
  let ?r = "grid_list d ! i"
  obtain a where a: "grid_get_datum h d (m_row m) TMIN_IDX = Some a" "dt_type a = T_BIGINT" "dt_bigint a = row_tid h ?r 0"
    using grid_get_bigint[OF d(2) r, of TMIN_IDX] hc c md(2) by auto
  obtain b where b: "grid_get_datum h d (m_row m) TMAX_IDX = Some b" "dt_type b = T_BIGINT" "dt_bigint b = row_tid h ?r 1"
    using grid_get_bigint[OF d(2) r, of TMAX_IDX] hc c md(2) by auto
  have "row_ok tp tr h ?r" using d(3) r md(2) by simp
  then have "tran_row_is_visible tp tr (row_tid h ?r 0) (row_tid h ?r 1) = Some (row_visible tp tr h ?r)"
    unfolding row_visible_def using tr by (intro visibility_rule) (auto simp: row_ok_def)
  then show ?thesis using a b h(1) md(1) d(1) rows m by (simp add: mitor_get_datum_def pos_visible_def)
qed

section \<open>The scan\<close>

text \<open>The iterator on the first visible position of a list of positions, or at the end.\<close>

definition titor_on :: "tran_page \<Rightarrow> tran \<Rightarrow> store \<Rightarrow> gid \<Rightarrow> hgrid \<Rightarrow> gid list \<Rightarrow> nat \<Rightarrow> titor \<Rightarrow> bool" where
  "titor_on tp tr s hg h gs i t \<longleftrightarrow> mvcc_table tp tr s hg h gs \<and> mitor_at s gs i (t_m t) \<and>
     m_header (t_m t) = Some hg \<and> t_tran t = Some tr"

definition titor_stops :: "tran_page \<Rightarrow> tran \<Rightarrow> store \<Rightarrow> gid \<Rightarrow> hgrid \<Rightarrow> (gid \<times> nat) list \<Rightarrow> titor \<Rightarrow> bool" where
  "titor_stops tp tr s hg h ps t \<longleftrightarrow> (\<exists>gs i. titor_on tp tr s hg h gs i t \<and>
     positions s gs i = dropWhile (\<lambda>p. \<not> pos_visible tp tr s h p) ps)"

lemma positions_at_end: "mitor_at s gs i m \<Longrightarrow> \<not> i < page_len s (hd gs) \<Longrightarrow> positions s gs i = []"
  by (cases gs) (auto simp: mitor_at_def)

lemma titor_on_facts:
  assumes "titor_on tp tr s hg h gs i t"
  shows "mitor_is_valid s (t_m t) = Some (i < page_len s (hd gs))" "titor_content s t = Some GC_MVCC"
    "titor_is_valid s t = Some (i < page_len s (hd gs))" "m_data (t_m t) = Some (hd gs)" "unat (m_row (t_m t)) = i"
proof -
  have at: "mitor_at s gs i (t_m t)" and tb: "mvcc_table tp tr s hg h gs" and tn: "t_tran t = Some tr"
    using assms by (auto simp: titor_on_def)
  show v: "mitor_is_valid s (t_m t) = Some (i < page_len s (hd gs))" by (rule mitor_at_valid[OF at])
  show md: "m_data (t_m t) = Some (hd gs)" and "unat (m_row (t_m t)) = i" using at by (auto simp: mitor_at_def)
  have "hd gs \<in> set gs" using at by (auto simp: mitor_at_def)
  then have "mvcc_page tp tr s h (hd gs)" using tb by (auto simp: mvcc_table_def)
  then show c: "titor_content s t = Some GC_MVCC"
    using md by (auto simp: titor_content_def mvcc_page_def split: option.splits)
  show "titor_is_valid s t = Some (i < page_len s (hd gs))"
    using v c tn by (simp add: titor_is_valid_def)
qed

lemma titor_next_mvcc_stops:
  "titor_on tp tr s hg h gs i t \<Longrightarrow> i < page_len s (hd gs) \<Longrightarrow>
   \<exists>t'. titor_next_mvcc tp s t = Some t' \<and> titor_stops tp tr s hg h (tl (positions s gs i)) t'"
proof (induction "length (positions s gs i)" arbitrary: gs i t rule: less_induct)
  case less
  have on: "mvcc_table tp tr s hg h gs" "mitor_at s gs i (t_m t)" "m_header (t_m t) = Some hg" "t_tran t = Some tr"
    using less.prems(1) by (auto simp: titor_on_def)
  obtain m' gs' i' where n: "mitor_next s (t_m t) = Some m'" "mitor_at s gs' i' m'" "m_header m' = Some hg"
    "set gs' \<subseteq> set gs" "positions s gs i = (hd gs, i) # positions s gs' i'"
    using mitor_next_at[OF on(2) less.prems(2)] on(3) by metis
  let ?t = "t\<lparr>t_m := m'\<rparr>"
  have tb: "mvcc_table tp tr s hg h gs'" using on(1) n(4) by (auto simp: mvcc_table_def)
  have on': "titor_on tp tr s hg h gs' i' ?t" using tb n(2,3) on(4) by (simp add: titor_on_def)
  note f = titor_on_facts[OF on']
  show ?case
  proof (cases "i' < page_len s (hd gs')")
    case False
    then have "titor_next_mvcc tp s t = Some ?t" using n(1) f(1) by (subst titor_next_mvcc.simps) simp
    moreover have "positions s gs' i' = []" using positions_at_end[OF n(2) False] .
    ultimately show ?thesis using on' n(5) by (auto simp: titor_stops_def)
  next
    case True
    obtain a b where ab: "mitor_get_datum s m' TMIN_IDX = Some a" "mitor_get_datum s m' TMAX_IDX = Some b"
      "tran_row_is_visible tp tr (dt_bigint a) (dt_bigint b) = Some (pos_visible tp tr s h (hd gs', i'))"
      using mitor_at_visible[OF tb n(2) True n(3)] by blast
    have v: "titor_visible tp s ?t = Some (pos_visible tp tr s h (hd gs', i'))"
      using ab on(4) by (simp add: titor_visible_def titor_get_datum_def)
    have nx: "titor_next_mvcc tp s t = (if pos_visible tp tr s h (hd gs', i') then Some ?t else titor_next_mvcc tp s ?t)"
      using n(1) f(1) True v by (subst titor_next_mvcc.simps) simp
    obtain rest where rest: "positions s gs' i' = (hd gs', i') # rest"
      using mitor_next_at[OF n(2) True] by metis
    show ?thesis
    proof (cases "pos_visible tp tr s h (hd gs', i')")
      case vis: True
      have "positions s gs' i' = dropWhile (\<lambda>p. \<not> pos_visible tp tr s h p) (tl (positions s gs i))"
        using n(5) rest vis by simp
      then show ?thesis using nx vis on' by (auto simp: titor_stops_def)
    next
      case inv: False
      have "length (positions s gs' i') < length (positions s gs i)" using n(5) by simp
      from less.hyps[OF this on' True] obtain t' where
        "titor_next_mvcc tp s ?t = Some t'" "titor_stops tp tr s hg h (tl (positions s gs' i')) t'" by blast
      then show ?thesis using nx inv n(5) rest by (auto simp: titor_stops_def)
    qed
  qed
qed

lemma titor_collect_on:
  "titor_on tp tr s hg h gs i t \<Longrightarrow> positions s gs i = dropWhile (\<lambda>p. \<not> pos_visible tp tr s h p) ps \<Longrightarrow>
   titor_collect tp s t = Some (filter (pos_visible tp tr s h) ps)"
proof (induction "length (positions s gs i)" arbitrary: gs i t ps rule: less_induct)
  case less
  note f = titor_on_facts[OF less.prems(1)]
  have at: "mitor_at s gs i (t_m t)" using less.prems(1) by (auto simp: titor_on_def)
  have fil: "filter (pos_visible tp tr s h) ps = filter (pos_visible tp tr s h) (positions s gs i)"
    unfolding less.prems(2) by (induction ps) auto
  show ?case
  proof (cases "i < page_len s (hd gs)")
    case False
    then show ?thesis using f(3) fil positions_at_end[OF at False] by (subst titor_collect.simps) simp
  next
    case True
    obtain rest where rest: "positions s gs i = (hd gs, i) # rest" using mitor_next_at[OF at True] by metis
    then have "pos_visible tp tr s h (hd gs, i)" using less.prems(2) by (metis dropWhile_eq_Cons_conv)
    obtain t' gs' i' where t': "titor_next_mvcc tp s t = Some t'" "titor_on tp tr s hg h gs' i' t'"
      "positions s gs' i' = dropWhile (\<lambda>p. \<not> pos_visible tp tr s h p) rest"
      using titor_next_mvcc_stops[OF less.prems(1) True] rest by (auto simp: titor_stops_def)
    have "length (positions s gs' i') < length (positions s gs i)"
      using length_dropWhile_le[of _ rest] t'(3) rest by (simp add: le_imp_less_Suc)
    from less.hyps[OF this t'(2,3)] have "titor_collect tp s t' = Some (filter (pos_visible tp tr s h) rest)" .
    then show ?thesis using f True t'(1) fil rest \<open>pos_visible tp tr s h (hd gs, i)\<close>
      by (subst titor_collect.simps) (simp add: titor_next_def)
  qed
qed

text \<open>The iterator is initialised on the first visible row.\<close>

lemma titor_init_stops:
  assumes "mvcc_table tp tr s hg h gs" and "mesh_chain s g gs" and "gs \<noteq> []"
    and "\<forall>x \<in> set gs. page_rows s x \<noteq> []" and "hg \<noteq> GID_UNDEF"
  shows "\<exists>t. titor_init tp s (Some tr) \<lparr>gp_header = hg, gp_data = g\<rparr> hg g = Some t \<and>
    titor_stops tp tr s hg h (positions s gs 0) t"
proof -
  have hd: "g = hd gs" using mesh_chain_next[OF assms(2,3)] .
  let ?t = "\<lparr>t_m = mitor_init \<lparr>gp_header = hg, gp_data = g\<rparr> hg g, t_tran = Some tr\<rparr>"
  let ?m = "mitor_init \<lparr>gp_header = hg, gp_data = g\<rparr> hg g"
  have "hd gs \<in> set gs" using assms(3) by simp
  then have pl: "0 < page_len s (hd gs)" using assms(4) by (auto simp: page_len_def)
  have at: "mitor_at s gs 0 ?m"
    using assms(2,3,4,5) hd pl by (auto simp: mitor_at_def mitor_init_def page_len_def)
  then have on: "titor_on tp tr s hg h gs 0 ?t" using assms(1) by (simp add: titor_on_def mitor_init_def)
  note f = titor_on_facts[OF on]
  obtain a b where ab: "mitor_get_datum s ?m TMIN_IDX = Some a" "mitor_get_datum s ?m TMAX_IDX = Some b"
    "dt_type a = T_BIGINT" "dt_type b = T_BIGINT"
    "tran_row_is_visible tp tr (dt_bigint a) (dt_bigint b) = Some (pos_visible tp tr s h (hd gs, 0))"
    using mitor_at_visible[OF assms(1) at pl] by (auto simp: mitor_init_def)
  have h: "st_h s hg = Some h" "mvcc_header h" using assms(1) by (auto simp: mvcc_table_def)
  have init: "titor_init tp s (Some tr) \<lparr>gp_header = hg, gp_data = g\<rparr> hg g =
      (if pos_visible tp tr s h (hd gs, 0) then Some ?t else titor_next_mvcc tp s ?t)"
    using f(2,3) ab h mvcc_header_idx[OF h(2)] pl
    by (simp add: titor_init_def Let_def titor_get_datum_def titor_next_def)
  obtain rest where rest: "positions s gs 0 = (hd gs, 0) # rest" using mitor_next_at[OF at pl] by metis
  show ?thesis
  proof (cases "pos_visible tp tr s h (hd gs, 0)")
    case True
    then have "positions s gs 0 = dropWhile (\<lambda>p. \<not> pos_visible tp tr s h p) (positions s gs 0)" using rest by simp
    then show ?thesis using init True on by (auto simp: titor_stops_def)
  next
    case False
    obtain t' gs' i' where t': "titor_next_mvcc tp s ?t = Some t'" "titor_on tp tr s hg h gs' i' t'"
      "positions s gs' i' = dropWhile (\<lambda>p. \<not> pos_visible tp tr s h p) rest"
      using titor_next_mvcc_stops[OF on pl] rest by (auto simp: titor_stops_def)
    then have "positions s gs' i' = dropWhile (\<lambda>p. \<not> pos_visible tp tr s h p) (positions s gs 0)" using rest False by simp
    then show ?thesis using init False t'(1,2) by (auto simp: titor_stops_def)
  qed
qed

text \<open>
  C27: On a well-formed multi-version table of any number of pages the loop titor_init,
  titor_is_valid, titor_next ends and visits, in order, exactly the row versions that the
  transaction sees.
\<close>

theorem table_scan_visible:
  assumes "mvcc_table tp tr s hg h gs" and "mesh_chain s g gs" and "gs \<noteq> []"
    and "\<forall>x \<in> set gs. page_rows s x \<noteq> []" and "hg \<noteq> GID_UNDEF"
  shows "\<exists>t. titor_init tp s (Some tr) \<lparr>gp_header = hg, gp_data = g\<rparr> hg g = Some t \<and>
    titor_collect tp s t = Some (filter (\<lambda>(x, i). row_visible tp tr h (page_rows s x ! i)) (positions s gs 0))"
proof -
  have eq: "(\<lambda>(x, i). row_visible tp tr h (page_rows s x ! i)) = pos_visible tp tr s h"
    by (auto simp: pos_visible_def)
  obtain t where t: "titor_init tp s (Some tr) \<lparr>gp_header = hg, gp_data = g\<rparr> hg g = Some t"
    "titor_stops tp tr s hg h (positions s gs 0) t"
    using titor_init_stops[OF assms] by blast
  then show ?thesis unfolding eq titor_stops_def using titor_collect_on by blast
qed

text \<open>Two row versions, one of the committed transaction 2 and one of transaction 3, seen by 5.\<close>

definition mvcc_sample_header :: hgrid where
  "mvcc_sample_header = \<lparr>g_size = 4096, g_layout = GL_FIXED, g_content = GC_MVCC, g_next = 0, g_rowsz = COLUMN_SZ,
     g_rown = 2, g_occupied = 2, g_datasz = 16,
     g_rows = [\<lparr>col_name = TMIN_NAME @ replicate 11 0, col_offs = 0, col_type = T_BIGINT, col_size = 0\<rparr>,
               \<lparr>col_name = TMAX_NAME @ replicate 11 0, col_offs = 8, col_type = T_BIGINT, col_size = 0\<rparr>]\<rparr>"

definition mvcc_sample_data :: dgrid where
  "mvcc_sample_data = \<lparr>g_size = 4096, g_layout = GL_FIXED, g_content = GC_MVCC, g_next = 0, g_rowsz = 16,
     g_rown = 2, g_occupied = 2, g_datasz = 0,
     g_rows = [put_bigint 2 @ put_bigint 0, put_bigint 3 @ put_bigint 0]\<rparr>"

definition mvcc_sample :: store where
  "mvcc_sample = \<lparr>st_h = [4 \<mapsto> mvcc_sample_header], st_d = [5 \<mapsto> mvcc_sample_data]\<rparr>"

definition tran_sample :: tran_page where
  "tran_sample = \<lparr>tp_start = 0, tp_datum = [4]\<rparr>"

abbreviation tran5 :: tran where
  "tran5 \<equiv> \<lparr>tr_key = 5, tr_autocommit = False\<rparr>"

lemma mvcc_sample_grids:
  "grid_list mvcc_sample_header = g_rows mvcc_sample_header" "grid_list mvcc_sample_data = g_rows mvcc_sample_data"
  "dgrid_ok mvcc_sample_header mvcc_sample_data"
  by (simp_all add: grid_list_def mvcc_sample_header_def mvcc_sample_data_def dgrid_ok_def hgrid_wf_def grid_inv_def
      col_end_def col_width_def column_cursz_def name_ok_def NAMESZ_def TMIN_NAME_def TMAX_NAME_def ascii_def)

lemma mvcc_sample_tids:
  "row_tid mvcc_sample_header (put_bigint a @ put_bigint b) 0 = a"
  "row_tid mvcc_sample_header (put_bigint a @ put_bigint b) (Suc 0) = b"
  unfolding row_tid_def mvcc_sample_grids by (simp_all add: mvcc_sample_header_def read_at_def)

lemma tran_sample_flags:
  "has_flag tran_sample 0" "has_flag tran_sample 2" "has_flag tran_sample 3"
  "committed tran_sample 2" "\<not> committed tran_sample 3" "\<not> committed tran_sample 0"
  by (simp_all add: has_flag_def tid_pos_def tran_sample_def committed_def tran_flag_get_def)

lemma mvcc_sample_ok:
  "mvcc_table tran_sample tran5 mvcc_sample 4 mvcc_sample_header [5]" "mesh_chain mvcc_sample 5 [5]"
  "page_rows mvcc_sample 5 = [put_bigint 2 @ put_bigint 0, put_bigint 3 @ put_bigint 0]"
proof -
  have "mvcc_header mvcc_sample_header"
    using mvcc_sample_grids(3) unfolding mvcc_header_def mvcc_sample_grids(1)
    by (simp add: dgrid_ok_def) (simp add: mvcc_sample_header_def cstring_def TMIN_NAME_def TMAX_NAME_def ascii_def)
  moreover have "mvcc_page tran_sample tran5 mvcc_sample mvcc_sample_header 5"
    using mvcc_sample_grids(3)
    by (simp add: mvcc_page_def mvcc_sample_def mvcc_sample_grids(2))
      (simp add: mvcc_sample_data_def row_ok_def mvcc_sample_tids tran_sample_flags)
  ultimately show "mvcc_table tran_sample tran5 mvcc_sample 4 mvcc_sample_header [5]"
    using tran_sample_flags by (simp add: mvcc_table_def mvcc_sample_def)
  have "grid_inv mvcc_sample_data" using mvcc_sample_grids(3) by (simp add: dgrid_ok_def)
  then show "mesh_chain mvcc_sample 5 [5]" by (simp add: mvcc_sample_def GID_UNDEF_def mvcc_sample_data_def)
  show "page_rows mvcc_sample 5 = [put_bigint 2 @ put_bigint 0, put_bigint 3 @ put_bigint 0]"
    by (simp add: page_rows_def mvcc_sample_def mvcc_sample_grids(2)) (simp add: mvcc_sample_data_def)
qed

lemma mvcc_sample_visible:
  "positions mvcc_sample [5] 0 = [(5, 0), (5, 1)]"
  "row_visible tran_sample tran5 mvcc_sample_header (put_bigint 2 @ put_bigint 0)"
  "\<not> row_visible tran_sample tran5 mvcc_sample_header (put_bigint 3 @ put_bigint 0)"
  by (simp_all add: page_len_def mvcc_sample_ok(3) upt_rec row_visible_def mvcc_sample_tids sees_def tran_sample_flags)

theorem table_scan_visible_witness:
  "\<exists>t. titor_init tran_sample mvcc_sample (Some tran5) \<lparr>gp_header = 4, gp_data = 5\<rparr> 4 5 = Some t \<and>
     titor_collect tran_sample mvcc_sample t = Some [(5, 0)]"
  using table_scan_visible[OF mvcc_sample_ok(1,2)] mvcc_sample_visible by (simp add: mvcc_sample_ok(3) GID_UNDEF_def)

section \<open>A table without rows\<close>

text \<open>
  On a multi-version page without rows titor_init reads the transaction ids through the
  NULL row before it checks that the iterator is valid.
\<close>

lemma table_scan_empty_page:
  assumes "st_d s g = Some d" and "g_content d = GC_MVCC" and "g_occupied d = 0"
  shows "titor_init tp s tran gp hg g = None"
proof -
  have "grid_get_cell h d 0 c = None" for h c
    using assms(3) by (simp add: grid_get_cell_def grid_get_row_def hgrid_get_column_def split: bind_splits option.splits)
  then have "grid_get_datum h d 0 c = None" for h c
    by (simp add: grid_get_datum_def split: bind_splits)
  then show ?thesis
    using assms(1,2) by (simp add: titor_init_def Let_def titor_content_def mitor_init_def titor_get_datum_def
        mitor_get_datum_def split: bind_splits)
qed

lemma table_scan_empty_page_example:
  "titor_init tran_sample \<lparr>st_h = [4 \<mapsto> mvcc_sample_header], st_d = [5 \<mapsto> mvcc_sample_data\<lparr>g_occupied := 0\<rparr>]\<rparr>
     (Some tran5) \<lparr>gp_header = 4, gp_data = 5\<rparr> 4 5 = None"
  by (rule table_scan_empty_page[of _ _ "mvcc_sample_data\<lparr>g_occupied := 0\<rparr>"]) (simp_all add: mvcc_sample_data_def)

end
