(* ===== verification/Scr_Dml_Laws.thy ===== *)
theory Scr_Dml_Laws
  imports Scr_Ddl Scr_Table_Laws
begin

text \<open>
  What the statements do to a table: INSERT appends a row version that carries the values
  and the transaction, commit shows it to every other transaction, rollback does not.
\<close>

section \<open>The columns of one row\<close>

definition cell_bytes :: "hgrid \<Rightarrow> u8 list \<Rightarrow> nat \<Rightarrow> u8 list" where
  "cell_bytes h r k = read_at r (unat (col_offs (grid_list h ! k))) (col_width (grid_list h ! k))"

text \<open>The row with the bytes of a datum in a column, as a specification of grid_put_datum.\<close>

definition put_in_row :: "hgrid \<Rightarrow> u8 list \<Rightarrow> nat \<Rightarrow> datum \<Rightarrow> u8 list" where
  "put_in_row h r k v = write_at r (unat (col_offs (grid_list h ! k))) (the (datum_bytes (grid_list h ! k) v))"

abbreviation can_hold :: "hgrid \<Rightarrow> nat \<Rightarrow> datum \<Rightarrow> bool" where
  "can_hold h k v \<equiv> stored_type (col_type (grid_list h ! k)) \<and> datum_fits (grid_list h ! k) v"

text \<open>A row long enough for the columns of the header.\<close>

definition row_fits :: "hgrid \<Rightarrow> u8 list \<Rightarrow> bool" where
  "row_fits h r \<longleftrightarrow> hgrid_wf h \<and> unat (g_datasz h) \<le> length r"

lemma put_in_row_bytes:
  assumes f: "row_fits h r" and k: "k < length (grid_list h)" and c: "can_hold h k v"
  shows "row_fits h (put_in_row h r k v)" "length (put_in_row h r k v) = length r"
    and "cell_view (grid_list h ! k) (cell_bytes h (put_in_row h r k v) k) = stored_view (grid_list h ! k) v"
    and "j < length (grid_list h) \<Longrightarrow> j \<noteq> k \<Longrightarrow> cell_bytes h (put_in_row h r k v) j = cell_bytes h r j"
proof -
  let ?c = "grid_list h ! k"
  have wf: "hgrid_wf h" using f by (simp add: row_fits_def)
  obtain bs where bs: "datum_bytes ?c v = Some bs" "length bs = col_width ?c" "cell_view ?c bs = stored_view ?c v"
    using datum_bytes_view[of ?c v] c by blast
  have "col_end ?c \<le> unat (g_datasz h)" using wf k by (simp add: hgrid_wf_def)
  then have e: "col_end ?c \<le> length r" using f by (simp add: row_fits_def)
  then have fit: "unat (col_offs ?c) + length bs \<le> length r" using bs(2) by (simp add: col_end_def)
  have p: "put_in_row h r k v = write_at r (unat (col_offs ?c)) bs" using bs(1) by (simp add: put_in_row_def)
  show "length (put_in_row h r k v) = length r" using fit by (simp add: p)
  then show "row_fits h (put_in_row h r k v)" using f by (simp add: row_fits_def)
  show "cell_view ?c (cell_bytes h (put_in_row h r k v) k) = stored_view ?c v"
    using fit bs(2,3) by (simp add: p cell_bytes_def)
  assume j: "j < length (grid_list h)" "j \<noteq> k"
  then show "cell_bytes h (put_in_row h r k v) j = cell_bytes h r j"
    using columns_disjoint[OF wf j(1) k j(2)] fit bs(2)
    by (simp add: p cell_bytes_def col_end_def read_write_disjoint)
qed

lemma grid_put_datum_row:
  assumes ok: "dgrid_ok h g" and r: "unat row < length (grid_list g)" and c: "unat col < length (grid_list h)"
    and v: "can_hold h (unat col) v"
  shows "grid_put_datum h g row col v =
      Some (g\<lparr>g_rows := (g_rows g)[unat row := put_in_row h (g_rows g ! unat row) (unat col) v]\<rparr>, 0)"
proof -
  note e = dgrid_cell[OF ok r c]
  let ?c = "grid_list h ! unat col"
  obtain bs where bs: "datum_bytes ?c v = Some bs" "length bs = col_width ?c" using datum_bytes_view[of ?c v] v by blast
  have t: "dt_type v \<noteq> T_UNKNOWN" "dt_type v \<noteq> T_MAX"
    using v by (auto simp: datum_fits_def stored_type_def character_group_iff integer_group_iff split: if_splits)
  have "unat (col_offs ?c) + length bs \<le> length (g_rows g ! unat row)" using e(3) bs(2) by (simp add: col_end_def)
  then show ?thesis using t
    by (simp add: grid_put_datum_def e(1,2) bs(1) cell_write_def put_in_row_def)
qed

lemma dgrid_ok_row_fits:
  assumes "dgrid_ok h g" "r < length (g_rows g)"
  shows "row_fits h (g_rows g ! r)"
  using assms by (auto simp: dgrid_ok_def row_fits_def)

lemma dgrid_ok_set_row:
  assumes "dgrid_ok h g" "row_fits h r"
  shows "dgrid_ok h (g\<lparr>g_rows := (g_rows g)[i := r]\<rparr>)"
  using assms by (auto simp: dgrid_ok_def row_fits_def grid_inv_def dest!: set_update_subset_insert[THEN subsetD])

section \<open>Putting all columns of a row\<close>

fun put_row_list :: "hgrid \<Rightarrow> u8 list \<Rightarrow> (u16 \<times> datum) list \<Rightarrow> u8 list" where
  "put_row_list h r [] = r"
| "put_row_list h r ((c, v) # cs) = put_row_list h (put_in_row h r (unat c) v) cs"

lemma put_row_list_other:
  assumes "row_fits h r" "\<forall>(c, v) \<in> set cs. unat c < length (grid_list h) \<and> can_hold h (unat c) v"
    and "j < length (grid_list h)" "j \<notin> (unat \<circ> fst) ` set cs"
  shows "cell_bytes h (put_row_list h r cs) j = cell_bytes h r j"
  using assms
proof (induction cs arbitrary: r)
  case (Cons p cs)
  obtain c v where p: "p = (c, v)" by (cases p)
  have k: "unat c < length (grid_list h)" "can_hold h (unat c) v" "j \<noteq> unat c" using Cons.prems(2,4) p by auto
  note b = put_in_row_bytes[OF Cons.prems(1) k(1,2)]
  show ?case using Cons.IH[OF b(1)] Cons.prems(2,3,4) b(4)[OF Cons.prems(3) k(3)] p by simp
qed simp

lemma put_row_list_put:
  assumes "row_fits h r" "\<forall>(c, v) \<in> set cs. unat c < length (grid_list h) \<and> can_hold h (unat c) v"
    and "distinct (map fst cs)"
  shows "row_fits h (put_row_list h r cs)"
    and "(c, v) \<in> set cs \<Longrightarrow>
      cell_view (grid_list h ! unat c) (cell_bytes h (put_row_list h r cs) (unat c)) = stored_view (grid_list h ! unat c) v"
proof -
  show "row_fits h (put_row_list h r cs)"
    using assms(1,2) put_in_row_bytes(1) by (induction cs arbitrary: r) auto
  show "(c, v) \<in> set cs \<Longrightarrow>
      cell_view (grid_list h ! unat c) (cell_bytes h (put_row_list h r cs) (unat c)) = stored_view (grid_list h ! unat c) v"
    using assms
  proof (induction cs arbitrary: r)
    case (Cons p cs)
    obtain c' v' where p: "p = (c', v')" by (cases p)
    have k: "unat c' < length (grid_list h)" "can_hold h (unat c') v'" using Cons.prems(3) p by auto
    note b = put_in_row_bytes[OF Cons.prems(2) k]
    show ?case
    proof (cases "(c, v) = (c', v')")
      case True
      have "unat c' \<notin> (unat \<circ> fst) ` set cs" using Cons.prems(4) p by (force simp: word_unat_eq_iff[symmetric])
      then have "cell_bytes h (put_row_list h (put_in_row h r (unat c') v') cs) (unat c') = cell_bytes h (put_in_row h r (unat c') v') (unat c')"
        using put_row_list_other[OF b(1) _ k(1)] Cons.prems(3) p by auto
      then show ?thesis using True b(3) p by simp
    next
      case False
      then show ?thesis using Cons.IH[OF _ b(1)] Cons.prems p by auto
    qed
  qed simp
qed

lemma put_twice: "put_data (put_data s g a) g b = put_data s g b"
  by (simp add: put_data_def)

text \<open>The puts of a row, on a store whose data page is that of the iterator.\<close>

lemma put_columns_row:
  assumes h: "m_header (t_m t) = Some hg" "st_h s hg = Some h"
    and d: "m_data (t_m t) = Some g" "st_d s g = Some d" "dgrid_ok h d" "unat (m_row (t_m t)) < length (grid_list d)"
    and cs: "\<forall>(c, v) \<in> set cs. unat c < length (grid_list h) \<and> can_hold h (unat c) v"
  shows "put_columns s t cs = Some (put_data s g
      (d\<lparr>g_rows := (g_rows d)[unat (m_row (t_m t)) := put_row_list h (g_rows d ! unat (m_row (t_m t))) cs]\<rparr>), SCRS_OK)"
  using assms(2-)
proof (induction cs arbitrary: s d)
  case Nil
  then show ?case by (simp add: put_same)
next
  case (Cons p cs)
  let ?r = "unat (m_row (t_m t))"
  obtain c v where p: "p = (c, v)" by (cases p)
  have k: "unat c < length (grid_list h)" "can_hold h (unat c) v" using Cons.prems(6) p by auto
  let ?row = "put_in_row h (g_rows d ! ?r) (unat c) v"
  let ?d = "d\<lparr>g_rows := (g_rows d)[?r := ?row]\<rparr>"
  have inv: "grid_inv d" using Cons.prems(4) by (simp add: dgrid_ok_def)
  have rl: "?r < length (g_rows d)" using Cons.prems(5) grid_invD[OF inv] by simp
  have put: "titor_put_datum s t c v = Some (put_data s g ?d, 0)"
    using grid_put_datum_row[OF Cons.prems(4,5) k] Cons.prems(1,2,3) h(1)
    by (simp add: titor_put_datum_def mitor_put_datum_def)
  have ok: "dgrid_ok h ?d"
    using dgrid_ok_set_row[OF Cons.prems(4)] put_in_row_bytes(1)[OF dgrid_ok_row_fits[OF Cons.prems(4) rl] k] .
  have "put_columns (put_data s g ?d) t cs = Some (put_data (put_data s g ?d) g
      (?d\<lparr>g_rows := (g_rows ?d)[?r := put_row_list h (g_rows ?d ! ?r) cs]\<rparr>), SCRS_OK)"
    by (rule Cons.IH) (use Cons.prems ok p in \<open>auto simp: grid_list_def\<close>)
  then show ?case using put rl p by (simp add: put_twice)
qed

section \<open>Inserting a row version\<close>

lemma column_idx_nth:
  assumes "hgrid_wf h" "distinct (map cname (grid_list h))" "k < length (grid_list h)"
  shows "unat (hgrid_get_column_idx h (cname (grid_list h ! k))) = k"
    and "grid_idx_is_valid (hgrid_get_column_idx h (cname (grid_list h ! k)))"
proof -
  have inv: "grid_inv h" using assms(1) by (simp add: hgrid_wf_def)
  have lt: "k < 65535" using assms(3) grid_invD(2,3)[OF inv] unat_u16_lt[of "g_rown h"] by simp
  have e: "hgrid_get_column_idx h (cname (grid_list h ! k)) = of_nat k"
    using hgrid_get_column_idx_nth[OF assms(3,2)] .
  show u: "unat (hgrid_get_column_idx h (cname (grid_list h ! k))) = k"
    unfolding e using lt by (simp add: unsigned_of_nat take_bit_nat_eq_self)
  have "unat (- 1 :: u16) = 65535" by (simp add: unsigned_minus_1_eq_mask mask_eq_exp_minus_1)
  then show "grid_idx_is_valid (hgrid_get_column_idx h (cname (grid_list h ! k)))"
    using u lt by (auto simp: grid_idx_is_valid_def GRID_INVALID_IDX_def)
qed

text \<open>Names with the values for them, as a statement on the header.\<close>

definition named_values :: "hgrid \<Rightarrow> (u8 list \<times> datum) list \<Rightarrow> bool" where
  "named_values h nvs \<longleftrightarrow> distinct (map fst nvs) \<and>
     (\<forall>(n, v) \<in> set nvs. \<exists>k < length (grid_list h). cname (grid_list h ! k) = n \<and> can_hold h k v)"

definition row_has :: "hgrid \<Rightarrow> u8 list \<Rightarrow> u8 list \<times> datum \<Rightarrow> bool" where
  "row_has h r nv \<longleftrightarrow> (\<exists>k < length (grid_list h). cname (grid_list h ! k) = fst nv \<and>
     cell_view (grid_list h ! k) (cell_bytes h r k) = stored_view (grid_list h ! k) (snd nv))"

lemma named_values_put:
  assumes wf: "hgrid_wf h" "distinct (map cname (grid_list h))" and nv: "named_values h nvs"
    and r: "row_fits h r"
  defines "cs \<equiv> map (\<lambda>(n, v). (hgrid_get_column_idx h n, v)) nvs"
  shows "list_all grid_idx_is_valid (map (hgrid_get_column_idx h) (map fst nvs))"
    and "\<forall>(c, v) \<in> set cs. unat c < length (grid_list h) \<and> can_hold h (unat c) v"
    and "\<forall>nv \<in> set nvs. row_has h (put_row_list h r cs) nv"
    and "row_fits h (put_row_list h r cs)"
proof -
  have one: "\<exists>k < length (grid_list h). cname (grid_list h ! k) = n \<and> can_hold h k v \<and>
      unat (hgrid_get_column_idx h n) = k \<and> grid_idx_is_valid (hgrid_get_column_idx h n)" if "(n, v) \<in> set nvs" for n v
    using nv that column_idx_nth[OF wf] by (fastforce simp: named_values_def)
  show "list_all grid_idx_is_valid (map (hgrid_get_column_idx h) (map fst nvs))"
    using one by (fastforce simp: list_all_iff)
  show all: "\<forall>(c, v) \<in> set cs. unat c < length (grid_list h) \<and> can_hold h (unat c) v"
    using one by (fastforce simp: cs_def)
  have inj: "n = n'" if "(n, v) \<in> set nvs" "(n', v') \<in> set nvs" "hgrid_get_column_idx h n = hgrid_get_column_idx h n'" for n n' v v'
    using one[OF that(1)] one[OF that(2)] that(3) by auto
  have "inj_on (hgrid_get_column_idx h) (fst ` set nvs)"
    by (intro inj_onI) (use inj in fastforce)
  then have "distinct (map (hgrid_get_column_idx h) (map fst nvs))"
    using nv by (simp add: named_values_def distinct_map comp_inj_on)
  moreover have "map fst cs = map (hgrid_get_column_idx h) (map fst nvs)"
    by (simp add: cs_def comp_def split_beta)
  ultimately have dis: "distinct (map fst cs)" by simp
  show "row_fits h (put_row_list h r cs)" by (rule put_row_list_put(1)[OF r all dis])
  show "\<forall>nv \<in> set nvs. row_has h (put_row_list h r cs) nv"
  proof safe
    fix n v assume m: "(n, v) \<in> set nvs"
    then have "(hgrid_get_column_idx h n, v) \<in> set cs" by (force simp: cs_def)
    from put_row_list_put(2)[OF r all dis this] one[OF m]
    show "row_has h (put_row_list h r cs) (n, v)" by (auto simp: row_has_def)
  qed
qed

text \<open>The transaction columns of a row from what a put stored in them.\<close>

lemma row_has_tid:
  assumes "distinct (map cname (grid_list h))" "k < length (grid_list h)" "col_type (grid_list h ! k) = T_BIGINT"
    and "row_has h r (cname (grid_list h ! k), make_bigint v)"
  shows "row_tid h r k = v"
proof -
  obtain j where j: "j < length (grid_list h)" "cname (grid_list h ! j) = cname (grid_list h ! k)"
    "cell_view (grid_list h ! j) (cell_bytes h r j) = stored_view (grid_list h ! j) (make_bigint v)"
    using assms(4) by (auto simp: row_has_def)
  then have "j = k" using assms(1,2) by (simp add: distinct_conv_nth) metis
  have w: "col_width (grid_list h ! k) = 8" using assms(3) by (rule width_of_type)
  have "sint (get_bigint (cell_bytes h r k)) = sint v"
    using j(3) \<open>j = k\<close> assms(3) by (simp add: cell_view_def stored_view_def dt_ival_def make_bigint_def)
  then have "get_bigint (cell_bytes h r k) = v" by (rule signed_word_eqI)
  then show ?thesis by (simp add: row_tid_def cell_bytes_def w)
qed

lemma can_hold_bigint:
  assumes "col_type (grid_list h ! k) = T_BIGINT"
  shows "can_hold h k (make_bigint v)"
proof -
  have "int_fits 8 (sint v)" using sint_ge[of v] sint_lt[of v] by (simp add: int_fits_def)
  then show ?thesis using assms width_of_type(3)[OF assms]
    by (simp add: stored_type_def datum_fits_def get_type_group_def dt_ival_def make_bigint_def)
qed

text \<open>A table found in the system tables, with the session's transaction open.\<close>

definition table_ready :: "server_sys \<Rightarrow> db \<Rightarrow> gid_pair \<Rightarrow> hgrid \<Rightarrow> gid \<Rightarrow> gid list \<Rightarrow> bool" where
  "table_ready sys d gp h g gs \<longleftrightarrow> gp_header gp \<noteq> GID_UNDEF \<and> st_h (db_store d) (gp_header gp) = Some h \<and>
     header_ok h \<and> mvcc_header h \<and> distinct (map cname (grid_list h)) \<and>
     mesh_chain (db_store d) g gs \<and> gs \<noteq> [] \<and> distinct gs \<and> last gs = gp_data gp \<and>
     (\<exists>dl. st_d (db_store d) (gp_data gp) = Some dl \<and> dgrid_ok h dl) \<and> gp_data (g_sequence sys) \<notin> set gs \<and>
     (\<exists>s2 ng. mesh_new_gid (g_sequence sys) (db_store d) (gp_data gp) = Some (s2, Some ng) \<and> ng \<noteq> GID_UNDEF \<and> ng \<notin> set gs)"

lemma mvcc_header_cols:
  assumes "mvcc_header h"
  shows "0 < length (grid_list h)" "1 < length (grid_list h)" "cname (grid_list h ! 0) = TMIN_NAME"
    "cname (grid_list h ! 1) = TMAX_NAME" "col_type (grid_list h ! 0) = T_BIGINT" "col_type (grid_list h ! 1) = T_BIGINT"
  using assms by (auto simp: mvcc_header_def)

lemma named_values_mvcc:
  assumes "mvcc_header h" "named_values h nvs" "TMIN_NAME \<notin> fst ` set nvs" "TMAX_NAME \<notin> fst ` set nvs"
  shows "named_values h (nvs @ [(TMIN_NAME, make_bigint a), (TMAX_NAME, make_bigint b)])"
proof -
  note c = mvcc_header_cols[OF assms(1)]
  have "TMIN_NAME \<noteq> TMAX_NAME" by (simp add: TMIN_NAME_def TMAX_NAME_def ascii_def)
  moreover have "\<exists>k < length (grid_list h). cname (grid_list h ! k) = TMIN_NAME \<and> can_hold h k (make_bigint a)"
    using c(1,3) can_hold_bigint[OF c(5)] by blast
  moreover have "\<exists>k < length (grid_list h). cname (grid_list h ! k) = TMAX_NAME \<and> can_hold h k (make_bigint b)"
    using c(2,4) can_hold_bigint[OF c(6)] by blast
  ultimately show ?thesis using assms(2-4) by (auto simp: named_values_def)
qed

lemma page_set_last:
  assumes "st_d s g = Some d" "dgrid_ok h d" "Suc i = length (grid_list d)"
  shows "page_rows (put_data s g (d\<lparr>g_rows := (g_rows d)[i := r]\<rparr>)) g = butlast (page_rows s g) @ [r]"
proof -
  have inv: "grid_inv d" using assms(2) by (simp add: dgrid_ok_def)
  have "grid_list (d\<lparr>g_rows := (g_rows d)[i := r]\<rparr>) = (grid_list d)[i := r]"
    by (simp add: grid_list_def take_update_swap)
  also have "\<dots> = butlast (grid_list d) @ [r]"
    using assms(3) by (cases "grid_list d" rule: rev_cases) auto
  finally show ?thesis using assms(1) by (simp add: page_rows_def)
qed

lemma mesh_set_last_row:
  assumes ch: "mesh_chain s g (gs @ [t])" "t \<notin> set gs" and d: "st_d s t = Some d" "dgrid_ok h d" "Suc i = length (grid_list d)"
    and r: "row_fits h r"
  defines "s' \<equiv> put_data s t (d\<lparr>g_rows := (g_rows d)[i := r]\<rparr>)"
  shows "mesh_chain s' g (gs @ [t])" and "mesh_rows s' (gs @ [t]) = butlast (mesh_rows s (gs @ [t])) @ [r]"
proof -
  have "grid_inv (d\<lparr>g_rows := (g_rows d)[i := r]\<rparr>)" using dgrid_ok_set_row[OF d(2) r] by (simp add: dgrid_ok_def)
  moreover have "g_next d = GID_UNDEF" using mesh_chain_last[OF ch] d(1) by auto
  ultimately show "mesh_chain s' g (gs @ [t])"
    by (intro mesh_chain_replace_last[OF ch, of _ "d\<lparr>g_rows := (g_rows d)[i := r]\<rparr>"]) (use ch(2) in \<open>auto simp: s'_def\<close>)
  have "mesh_rows s' gs = mesh_rows s gs" by (rule mesh_rows_cong) (use ch(2) in \<open>auto simp: s'_def\<close>)
  moreover have "page_rows s t \<noteq> []" using d(1,3) by (auto simp: page_rows_def)
  ultimately show "mesh_rows s' (gs @ [t]) = butlast (mesh_rows s (gs @ [t])) @ [r]"
    using page_set_last[OF d, of r] by (simp add: s'_def butlast_append)
qed

lemma row_visible_fresh:
  "row_tid h r 0 = a \<Longrightarrow> row_tid h r 1 = 0 \<Longrightarrow> \<not> committed p 0 \<Longrightarrow> tr_key tr \<noteq> 0 \<Longrightarrow>
   row_visible p tr h r = sees p (tr_key tr) a"
  by (auto simp: row_visible_def sees_def)

lemma insert_version:
  assumes "find_relation sys ss d schema table True True = Some (d, gp)" and "table_ready sys d gp h g gs"
    and "sess_tran d ss = Some tran"
    and "length names = length values" and "named_values h (zip names values)"
    and "TMIN_NAME \<notin> set names" and "TMAX_NAME \<notin> set names"
  shows "\<exists>s' gs' row. insert_stmt (Some j) sys ss d schema table names values GC_MVCC = Some (d\<lparr>db_store := s'\<rparr>, ss, SCRS_OK) \<and>
    mesh_chain s' g gs' \<and> mesh_rows s' gs' = mesh_rows (db_store d) gs @ [row] \<and>
    (\<forall>nv \<in> set (zip names values). row_has h row nv) \<and>
    row_tid h row 0 = tr_key tran \<and> row_tid h row 1 = 0"
proof -
  let ?s = "db_store d"
  have rd: "gp_header gp \<noteq> GID_UNDEF" "st_h ?s (gp_header gp) = Some h" "header_ok h" "mvcc_header h"
    "distinct (map cname (grid_list h))" "mesh_chain ?s g gs" "gs \<noteq> []" "distinct gs" "last gs = gp_data gp"
    "gp_data (g_sequence sys) \<notin> set gs" and dl: "\<exists>dl. st_d ?s (gp_data gp) = Some dl \<and> dgrid_ok h dl"
    and "\<exists>s2 ng. mesh_new_gid (g_sequence sys) ?s (gp_data gp) = Some (s2, Some ng) \<and> ng \<noteq> GID_UNDEF \<and> ng \<notin> set gs"
    using assms(2) by (auto simp: table_ready_def)
  then obtain s2 ng where ng: "mesh_new_gid (g_sequence sys) ?s (gp_data gp) = Some (s2, Some ng)" "ng \<noteq> GID_UNDEF" "ng \<notin> set gs"
    by blast
  have wf: "hgrid_wf h" using rd(3) by (simp add: header_ok_def)
  obtain s1 tail m gs' row0 d0 d1 where al: "mesh_alloc_row (g_sequence sys) ?s gp = Some (s1, tail, m)"
    "gs' = gs \<or> gs' = gs @ [ng]" "distinct gs'" "mesh_chain s1 g gs'" "last gs' = gp_data tail"
    "gp_header tail = gp_header gp" "mesh_rows s1 gs' = mesh_rows ?s gs @ [row0]" "at_last_row s1 gs' tail m" "st_h s1 = st_h ?s"
    "st_d ?s (gp_data gp) = Some d0" "st_d s1 (last gs') = Some d1" "dgrid_ok h d0 \<longrightarrow> dgrid_ok h d1"
    using mesh_alloc_row_ok[OF rd(6,7,8,9,1,2,3) ng rd(10)] by (elim exE conjE) (rule that)
  have d1: "dgrid_ok h d1" using al(10,12) dl by auto
  obtain hs where gs': "gs' = hs @ [gp_data tail]" using al(2,5) rd(7) by (cases gs' rule: rev_cases) auto
  have at: "m_gp m = tail" "m_header m = Some (gp_header gp)" "m_data m = Some (gp_data tail)" "mitor_is_valid s1 m = Some True"
    "Suc (unat (m_row m)) = length (grid_list d1)"
    using al(5,6,8,11) by (auto simp: at_last_row_def page_rows_def)
  let ?t = "\<lparr>t_m = m, t_tran = Some j\<rparr>" and ?i = "unat (m_row m)"
  have ta: "table_alloc_row (g_sequence sys) ?s \<lparr>t_m = mitor_init_invalid, t_tran = Some j\<rparr> gp = Some (s1, tail, ?t)"
    using al(1) at(1) by (simp add: table_alloc_row_def)
  have tv: "titor_is_valid s1 ?t = Some True"
    using at(3,4) al(5,11) by (simp add: titor_is_valid_def titor_content_def)
  have inv1: "grid_inv d1" using d1 by (simp add: dgrid_ok_def)
  have il: "?i < length (g_rows d1)" using at(5) grid_invD[OF inv1] by simp
  let ?nvs = "zip names values @ [(TMIN_NAME, make_bigint (tr_key tran)), (TMAX_NAME, make_bigint TRAN_INVALID_ID)]"
  have "fst ` set (zip names values) = set names"
    using assms(4) by (metis list.set_map map_fst_zip)
  then have nv: "named_values h ?nvs"
    using named_values_mvcc[OF rd(4) assms(5)] assms(6,7) by simp
  let ?cs = "map (\<lambda>(n, v). (hgrid_get_column_idx h n, v)) ?nvs"
  let ?row = "put_row_list h (g_rows d1 ! ?i) ?cs"
  note pv = named_values_put[OF wf rd(5) nv dgrid_ok_row_fits[OF d1 il]]
  let ?s' = "put_data s1 (gp_data tail) (d1\<lparr>g_rows := (g_rows d1)[?i := ?row]\<rparr>)"
  have put: "put_columns s1 ?t ?cs = Some (?s', SCRS_OK)"
    using put_columns_row[of ?t "gp_header gp" s1 h "gp_data tail" d1 ?cs, OF _ _ _ _ d1 _ pv(2)] at(2,3,5) al(5,9,11) rd(2) by simp
  have names: "map fst ?nvs = names @ [TMIN_NAME, TMAX_NAME]" using assms(4) by simp
  have cs: "zip (map (hgrid_get_column_idx h) (names @ [TMIN_NAME, TMAX_NAME]))
      (values @ [make_bigint (tr_key tran), make_bigint TRAN_INVALID_ID]) = ?cs"
    using assms(4) by (simp add: zip_map1 zip_append)
  have ins: "insert_stmt (Some j) sys ss d schema table names values GC_MVCC = Some (d\<lparr>db_store := ?s'\<rparr>, ss, SCRS_OK)"
  proof -
    obtain e where e: "ss_tran ss = Some e" using assms(3) by (auto simp: sess_tran_def)
    have ud: "gp_data gp \<noteq> GID_UNDEF"
    proof -
      obtain ks t where ks: "gs = ks @ [t]" using rd(7) by (cases gs rule: rev_cases) auto
      then show ?thesis using mesh_chain_last[of ?s g ks t] rd(6,8,9) by auto
    qed
    have ens: "ensure_tran sys ss d = Some (d, ss, SCRS_OK)" by (simp add: ensure_tran_def e)
    have ci: "column_indices h (names @ [TMIN_NAME, TMAX_NAME]) =
        Some (map (hgrid_get_column_idx h) (names @ [TMIN_NAME, TMAX_NAME]))"
      using pv(1)[unfolded names] by (simp add: column_indices_def Let_def)
    show ?thesis
      unfolding insert_stmt_def assms(1)
      using assms(3,4) rd(1,2) ud by (simp add: ens ci ta tv cs[simplified] put[simplified])
  qed
  have ch: "mesh_chain s1 g (hs @ [gp_data tail])" "gp_data tail \<notin> set hs" using al(3,4) gs' by auto
  have d1': "st_d s1 (gp_data tail) = Some d1" using al(5,11) by simp
  note fin = mesh_set_last_row[OF ch d1' d1 at(5) pv(4)]
  note c = mvcc_header_cols[OF rd(4)]
  have "row_has h ?row (cname (grid_list h ! 0), make_bigint (tr_key tran))"
    "row_has h ?row (cname (grid_list h ! 1), make_bigint 0)"
    using pv(3) unfolding c(3,4) by (simp_all add: TRAN_INVALID_ID_def)
  then have tid: "row_tid h ?row 0 = tr_key tran" "row_tid h ?row 1 = 0"
    using row_has_tid[OF rd(5) c(1,5)] row_has_tid[OF rd(5) c(2,6)] by blast+
  have rows: "mesh_rows ?s' gs' = mesh_rows ?s gs @ [?row]"
    using fin(2) al(7) unfolding gs' by simp
  have has: "\<forall>nv \<in> set (zip names values). row_has h ?row nv" using pv(3) by simp
  show ?thesis using ins fin(1) rows tid has unfolding gs' by blast
qed

text \<open>
  C11: In a session with an open transaction, let find_relation find a multi-version table
  whose recorded last page is still the last one of its chain (dml_insert never records a new
  one), and let the transaction pointer that insert leaves uninitialised in its row happen not
  to be NULL (with NULL a new row is not valid and the statement ends with
  SCRS_SEQUENCE_OVERFLOW). Inserting values that fit under distinct names of columns, other
  than those of the system, returns SCRS_OK, appends exactly one row to the table's chain of
  pages, in the last page or a fresh one, stores every value under its name (integers that
  fit, strings up to padding), and the new version is visible exactly to the transactions that
  see the inserting one.
\<close>

theorem insert_appends_version:
  assumes "find_relation sys ss d schema table True True = Some (d, gp)" and "table_ready sys d gp h g gs"
    and "sess_tran d ss = Some tran" and "\<not> committed (db_tran d) 0"
    and "length names = length values" and "named_values h (zip names values)"
    and "TMIN_NAME \<notin> set names" and "TMAX_NAME \<notin> set names"
  shows "\<exists>s' gs' row. insert_stmt (Some j) sys ss d schema table names values GC_MVCC = Some (d\<lparr>db_store := s'\<rparr>, ss, SCRS_OK) \<and>
    mesh_chain s' g gs' \<and> mesh_rows s' gs' = mesh_rows (db_store d) gs @ [row] \<and>
    (\<forall>nv \<in> set (zip names values). row_has h row nv) \<and>
    (\<forall>tr. tr_key tr \<noteq> 0 \<longrightarrow> row_visible (db_tran d) tr h row = sees (db_tran d) (tr_key tr) (tr_key tran))"
proof -
  obtain s' gs' row where ins: "insert_stmt (Some j) sys ss d schema table names values GC_MVCC = Some (d\<lparr>db_store := s'\<rparr>, ss, SCRS_OK)"
    "mesh_chain s' g gs'" "mesh_rows s' gs' = mesh_rows (db_store d) gs @ [row]" "\<forall>nv \<in> set (zip names values). row_has h row nv"
    and tid: "row_tid h row 0 = tr_key tran" "row_tid h row 1 = 0"
    using insert_version[OF assms(1-3,5-8)] by blast
  have "\<forall>tr. tr_key tr \<noteq> 0 \<longrightarrow> row_visible (db_tran d) tr h row = sees (db_tran d) (tr_key tr) (tr_key tran)"
    using row_visible_fresh[OF tid assms(4)] by blast
  then show ?thesis using ins by blast
qed

section \<open>A small database\<close>

definition sample_col :: "string \<Rightarrow> sql_type \<Rightarrow> u64 \<Rightarrow> u64 \<Rightarrow> column" where
  "sample_col n t offs sz = \<lparr>col_name = ascii n @ replicate (NAMESZ - length n) 0, col_offs = offs, col_type = t, col_size = sz\<rparr>"

definition small_grid :: "u16 \<Rightarrow> u16 \<Rightarrow> grid_content \<Rightarrow> u16 \<Rightarrow> 'r list \<Rightarrow> 'r grid" where
  "small_grid n occ c dsz rows = \<lparr>g_size = 4096, g_layout = GL_FIXED, g_content = c, g_next = 0, g_rowsz = 40,
     g_rown = n, g_occupied = occ, g_datasz = dsz, g_rows = rows\<rparr>"

text \<open>The table of relations, with table t of schema s in catalog c; its header is page 4, its data page 5.\<close>

definition small_relation_header :: hgrid where
  "small_relation_header = small_grid 6 6 GC_PURE 32 [sample_col ''catalog'' T_CHAR 0 1, sample_col ''schema'' T_CHAR 1 1,
     sample_col ''relation'' T_CHAR 2 1, sample_col ''header_gid'' T_BIGINT 8 0, sample_col ''data_gid'' T_BIGINT 16 0, sample_col ''tail_gid'' T_BIGINT 24 0]"

definition small_relation :: dgrid where
  "small_relation = small_grid 2 1 GC_PURE 0
     [[99, 115, 116, 0, 0, 0, 0, 0] @ put_bigint 4 @ put_bigint 5 @ put_bigint 5, replicate 32 0]"

text \<open>Table t: the two transaction columns and an integer n; its header has room for a fourth column.\<close>

definition small_header :: hgrid where
  "small_header = small_grid 4 3 GC_PURE 20 [sample_col ''*tmin'' T_BIGINT 0 0, sample_col ''*tmax'' T_BIGINT 8 0, sample_col ''n'' T_INTEGER 16 0, zero_column]"

definition small_data :: dgrid where
  "small_data = small_grid 2 0 GC_MVCC 0 [replicate 20 0, replicate 20 0]"

definition small_store :: store where
  "small_store = \<lparr>st_h = [2 \<mapsto> small_relation_header, 4 \<mapsto> small_header], st_d = [3 \<mapsto> small_relation, 5 \<mapsto> small_data]\<rparr>"

definition small_sys :: server_sys where
  "small_sys = \<lparr>sys_sequence = \<lparr>gp_header = 0, gp_data = 1\<rparr>, sys_user = GP_UNDEF, sys_catalog = GP_UNDEF, sys_schema = GP_UNDEF,
     sys_relation = \<lparr>gp_header = 2, gp_data = 3\<rparr>, g_sequence = \<lparr>gp_header = 0, gp_data = 1\<rparr>\<rparr>"

definition small_trans :: "bool ihash" where
  "small_trans = \<lparr>bucketsz = 1, chainsz = 0, chain_head = IDX_UNDEF, keyoffs = 0, nodesz = 0, hash_fn = (\<lambda>_. 0),
     buckets = [\<lparr>hkey = 5, hnext = IDX_UNDEF, hval = False\<rparr>], chains = []\<rparr>"

definition small_db :: db where
  "small_db = \<lparr>db_store = small_store, db_tran = \<lparr>tp_start = 0, tp_datum = [0]\<rparr>, db_trans = small_trans\<rparr>"

definition small_sess :: sess where
  "small_sess = \<lparr>ss_user = Some [117], ss_catalog = Some [99], ss_tran = Some (Bucket 0)\<rparr>"

text \<open>A store with these system tables.\<close>

definition small_system :: "store \<Rightarrow> bool" where
  "small_system s \<longleftrightarrow> st_h s 2 = Some small_relation_header \<and> st_d s 3 = Some small_relation"

lemma small_store_system: "small_system small_store"
  by (simp add: small_system_def small_store_def)

lemma small_idx:
  assumes "small_system s"
  shows "column_idx s 2 ''catalog'' = Some 0" "column_idx s 2 ''schema'' = Some 1"
    "column_idx s 2 ''relation'' = Some 2" "column_idx s 2 ''header_gid'' = Some 3"
    "column_idx s 2 ''data_gid'' = Some 4" "column_idx s 2 ''tail_gid'' = Some 5"
  using assms
  by (simp_all add: column_idx_def small_system_def small_relation_header_def small_grid_def sample_col_def NAMESZ_def
      hgrid_get_column_idx_def cstring_def ascii_def grid_idx_is_valid_def GRID_INVALID_IDX_def)

lemma small_relation_datum:
  "grid_get_datum small_relation_header small_relation 0 0 =
     Some \<lparr>dt_type = T_CHAR, dt_size = 1, dt_int = 0, dt_chars = Some (g_rows small_relation ! 0)\<rparr>"
  "grid_get_datum small_relation_header small_relation 0 1 =
     Some \<lparr>dt_type = T_CHAR, dt_size = 1, dt_int = 0, dt_chars = Some (drop 1 (g_rows small_relation ! 0))\<rparr>"
  "grid_get_datum small_relation_header small_relation 0 2 =
     Some \<lparr>dt_type = T_CHAR, dt_size = 1, dt_int = 0, dt_chars = Some (drop 2 (g_rows small_relation ! 0))\<rparr>"
  "grid_get_datum small_relation_header small_relation 0 3 = Some \<lparr>dt_type = T_BIGINT, dt_size = 0, dt_int = 4, dt_chars = None\<rparr>"
  "grid_get_datum small_relation_header small_relation 0 4 = Some \<lparr>dt_type = T_BIGINT, dt_size = 0, dt_int = 5, dt_chars = None\<rparr>"
  "grid_get_datum small_relation_header small_relation 0 5 = Some \<lparr>dt_type = T_BIGINT, dt_size = 0, dt_int = 5, dt_chars = None\<rparr>"
  by (simp_all add: grid_get_datum_def hgrid_get_column_def grid_get_row_def grid_get_cell_def cell_read_def read_at_def
      small_relation_header_def small_relation_def small_grid_def sample_col_def)

lemma small_eq_character:
  "dt_size d = 1 \<Longrightarrow> dt_type d = T_CHAR \<Longrightarrow> dt_chars d = Some (c # cs) \<Longrightarrow> c \<noteq> 32 \<Longrightarrow>
   eq_character d (make_char [c]) = Some True"
  by (simp add: eq_character_def cmp_character_def to_base_type_def char2varchar_def make_char_def dt_readable_def
      dt_bytes_def get_type_group_def assert_that_def)

abbreviation small_titor :: titor where
  "small_titor \<equiv> \<lparr>t_m = mitor_init \<lparr>gp_header = 2, gp_data = 3\<rparr> 2 3, t_tran = Some \<lparr>tr_key = 5, tr_autocommit = False\<rparr>\<rparr>"

lemma small_rows: "g_rows small_relation ! 0 = [99, 115, 116, 0, 0, 0, 0, 0] @ put_bigint 4 @ put_bigint 5 @ put_bigint 5"
  by (simp add: small_relation_def small_grid_def)

lemma small_titor_datum:
  "small_system s \<Longrightarrow> titor_get_datum s small_titor c = grid_get_datum small_relation_header small_relation 0 c"
  by (simp add: titor_get_datum_def mitor_get_datum_def mitor_init_def small_system_def)

lemma small_names:
  assumes "small_system s"
  shows "row_names s small_titor [(0, Some [99]), (1, Some [115]), (2, Some [116])] = Some True"
proof -
  have "eq_character \<lparr>dt_type = T_CHAR, dt_size = 1, dt_int = 0, dt_chars = Some (g_rows small_relation ! 0)\<rparr> (make_char [99]) = Some True"
    "eq_character \<lparr>dt_type = T_CHAR, dt_size = 1, dt_int = 0, dt_chars = Some (drop 1 (g_rows small_relation ! 0))\<rparr> (make_char [115]) = Some True"
    "eq_character \<lparr>dt_type = T_CHAR, dt_size = 1, dt_int = 0, dt_chars = Some (drop 2 (g_rows small_relation ! 0))\<rparr> (make_char [116]) = Some True"
    by (rule small_eq_character; simp add: small_rows)+
  then show ?thesis by (simp add: row_names_def small_titor_datum[OF assms] small_relation_datum make_char_of_def)
qed

lemma small_sess_tran: "db_trans d = small_trans \<Longrightarrow> sess_tran d small_sess = Some \<lparr>tr_key = 5, tr_autocommit = False\<rparr>"
  by (simp add: sess_tran_def small_sess_def tran_at_def small_trans_def)

lemma small_loop:
  assumes "small_system s"
  shows "find_relation_loop small_sys small_sess tp s [115] [116] rt cr [0, 1, 2, 3, 4, 5] small_titor =
      Some (s, \<lparr>gp_header = 4, gp_data = 5\<rparr>)"
proof -
  define t where "t = small_titor"
  have valid: "mitor_is_valid s (t_m t) = Some True"
    using assms by (simp add: t_def mitor_is_valid_def mitor_init_def GID_UNDEF_def small_system_def)
      (simp add: small_relation_def small_grid_def)
  have cat: "ss_catalog small_sess = Some [99]" by (simp add: small_sess_def)
  note names = small_names[OF assms, folded t_def]
  note datum = small_titor_datum[OF assms, folded t_def]
  show ?thesis unfolding t_def[symmetric]
    by (subst find_relation_loop.simps)
      (simp add: valid cat names datum small_relation_datum GID_UNDEF_def)
qed

lemma small_find_relation:
  assumes "small_system (db_store d)" "db_trans d = small_trans"
  shows "find_relation small_sys small_sess d [115] [116] rt cr = Some (d, \<lparr>gp_header = 4, gp_data = 5\<rparr>)"
proof -
  have init: "titor_init tp (db_store d) (Some \<lparr>tr_key = 5, tr_autocommit = False\<rparr>) \<lparr>gp_header = 2, gp_data = 3\<rparr> 2 3 = Some small_titor" for tp
    using assms(1) by (simp add: titor_init_def titor_content_def mitor_init_def small_system_def)
      (simp add: small_relation_def small_grid_def)
  have sys: "sys_relation small_sys = \<lparr>gp_header = 2, gp_data = 3\<rparr>" by (simp add: small_sys_def)
  show ?thesis
    by (simp add: find_relation_def small_sess_tran[OF assms(2)] small_idx[OF assms(1)] init small_loop[OF assms(1)] sys)
qed

lemma small_db_facts: "small_system (db_store small_db)" "db_trans small_db = small_trans"
  by (simp_all add: small_db_def small_store_system)

lemma small_header_facts:
  "header_ok small_header" "mvcc_header small_header" "distinct (map cname (grid_list small_header))"
proof -
  have l: "grid_list small_header = take 3 (g_rows small_header)" by (simp add: grid_list_def small_header_def small_grid_def)
  have wf: "hgrid_wf small_header"
    unfolding hgrid_wf_def l
    by (simp add: small_header_def zero_column_def small_grid_def grid_inv_def sample_col_def col_end_def col_width_def column_cursz_def
        name_ok_def NAMESZ_def ascii_def)
  then show "header_ok small_header" by (simp add: header_ok_def) (simp add: small_header_def small_grid_def)
  show "mvcc_header small_header" using wf unfolding mvcc_header_def l
    by (simp add: small_header_def small_grid_def sample_col_def NAMESZ_def cstring_def TMIN_NAME_def TMAX_NAME_def ascii_def)
  show "distinct (map cname (grid_list small_header))" unfolding l
    by (simp add: small_header_def small_grid_def sample_col_def NAMESZ_def cstring_def ascii_def)
qed

lemma small_table_ready:
  "table_ready small_sys small_db \<lparr>gp_header = 4, gp_data = 5\<rparr> small_header 5 [5]"
proof -
  note hd = small_header_facts(1) and mv = small_header_facts(2) and dis = small_header_facts(3)
  have wf: "hgrid_wf small_header" using hd by (simp add: header_ok_def)
  have ok: "dgrid_ok small_header small_data" using wf
    by (simp add: dgrid_ok_def) (simp add: small_data_def small_header_def small_grid_def grid_inv_def)
  then have inv: "grid_inv small_data" by (simp add: dgrid_ok_def)
  have ch: "mesh_chain (db_store small_db) 5 [5]"
    using inv by (simp add: small_db_def small_store_def GID_UNDEF_def) (simp add: small_data_def small_grid_def)
  have "gid_file_id 5 = 5" "gid_page 5 = 0" by (simp_all add: gid_file_id_def gid_page_def GID_FILEIDBITS_def)
  then have new: "mesh_new_gid (g_sequence small_sys) (db_store small_db) 5 = Some (db_store small_db, Some 1099511627781)"
    by (simp add: mesh_new_gid_def GID_MAXPAGE_def gid_parts_def GID_FILEIDBITS_def GID_PAGEBITS_def)
  show ?thesis
    using hd mv dis ok ch new
    by (simp add: table_ready_def GID_UNDEF_def) (simp add: small_db_def small_store_def small_sys_def)
qed

lemma small_named: "named_values small_header (zip [ascii ''n''] [make_bigint 42])"
proof -
  have l: "grid_list small_header = take 3 (g_rows small_header)" by (simp add: grid_list_def small_header_def small_grid_def)
  have "cname (grid_list small_header ! 2) = ascii ''n''" "col_type (grid_list small_header ! 2) = T_INTEGER"
    "col_width (grid_list small_header ! 2) = 4" "2 < length (grid_list small_header)"
    unfolding l by (simp_all add: small_header_def small_grid_def sample_col_def NAMESZ_def cstring_def ascii_def
        col_width_def column_cursz_def)
  moreover from this have "can_hold small_header 2 (make_bigint 42)"
    by (simp add: stored_type_def datum_fits_def get_type_group_def int_fits_def dt_ival_def make_bigint_def)
  ultimately show ?thesis by (auto simp: named_values_def)
qed

lemma small_names_ok: "TMIN_NAME \<notin> set [ascii ''n'']" "TMAX_NAME \<notin> set [ascii ''n'']"
  by (simp_all add: TMIN_NAME_def TMAX_NAME_def ascii_def)

lemma small_no_rows: "mesh_rows (db_store small_db) [5] = []"
  by (simp add: mesh_rows_def page_rows_def small_db_def small_store_def grid_list_def small_data_def small_grid_def)

theorem insert_appends_version_witness:
  "\<exists>s' gs' row. insert_stmt (Some \<lparr>tr_key = 5, tr_autocommit = False\<rparr>) small_sys small_sess small_db [115] [116] [ascii ''n''] [make_bigint 42] GC_MVCC =
     Some (small_db\<lparr>db_store := s'\<rparr>, small_sess, SCRS_OK) \<and> mesh_rows s' gs' = [row] \<and>
     row_has small_header row (ascii ''n'', make_bigint 42)"
proof -
  have c: "\<not> committed (db_tran small_db) 0" by (simp add: committed_def tran_flag_get_def small_db_def)
  show ?thesis
    using insert_appends_version[where j = "\<lparr>tr_key = 5, tr_autocommit = False\<rparr>", OF small_find_relation[OF small_db_facts] small_table_ready small_sess_tran[OF small_db_facts(2)] c _
        small_named small_names_ok]
    unfolding small_no_rows by fastforce
qed

end
