(* ===== verification/Scr_Tcl_Laws.thy ===== *)
theory Scr_Tcl_Laws
  imports Scr_Dml_Laws
begin

text \<open>
  The life of a transaction: \<^verbatim>\<open>src/scrs/tcl.c\<close> with the insertions of
  \<^verbatim>\<open>dml.c\<close>. A row version inserted by an open transaction is seen by that
  transaction only, by every transaction after tcl_commit and by no other one after
  tcl_rollback; neither touches the pages of the tables.
\<close>

section \<open>Ending a transaction\<close>

text \<open>A session with an explicit transaction that is not yet committed.\<close>

definition tran_open :: "db \<Rightarrow> sess \<Rightarrow> tran \<Rightarrow> bool" where
  "tran_open d ss tran \<longleftrightarrow> sess_tran d ss = Some tran \<and> \<not> tr_autocommit tran \<and> ihash_inv (db_trans d) \<and>
     ihash_map (db_trans d) (tr_key tran) \<noteq> None \<and>
     has_flag (db_tran d) (tr_key tran) \<and> 0 < tid_pos (db_tran d) (tr_key tran)"

text \<open>The database with the transaction's flag set and its entry removed from the cache.\<close>

definition tran_ended :: "db \<Rightarrow> tran_t \<Rightarrow> tran_flag \<Rightarrow> db \<Rightarrow> bool" where
  "tran_ended d key flag d' \<longleftrightarrow> db_store d' = db_store d \<and> ihash_inv (db_trans d') \<and>
     ihash_map (db_trans d') = (ihash_map (db_trans d))(key := None) \<and>
     tran_flag_get (db_tran d') key = Some flag \<and>
     (\<forall>other. other \<noteq> key \<longrightarrow> tran_flag_get (db_tran d') other = tran_flag_get (db_tran d) other)"

lemma tran_end_ok:
  assumes "tran_open d ss tran"
  obtains tp d' where "tran_flag_put (db_tran d) (tr_key tran) flag = Some tp"
    and "tran_erase (d\<lparr>db_tran := tp\<rparr>) (tr_key tran) = Some d'" and "tran_ended d (tr_key tran) flag d'"
proof -
  let ?k = "tr_key tran"
  have f: "has_flag (db_tran d) ?k" "0 < tid_pos (db_tran d) ?k" and inv: "ihash_inv (db_trans d)"
    using assms by (simp_all add: tran_open_def)
  obtain tp where tp: "tran_flag_put (db_tran d) ?k flag = Some tp" "tran_flag_get tp ?k = Some flag"
      "\<forall>other. other \<noteq> ?k \<longrightarrow> tran_flag_get tp other = tran_flag_get (db_tran d) other"
    using tran_flag_put_bit[OF f] by blast
  obtain h' where h': "ihash_erase_fn (db_trans d) ?k = Some (h', ihash_map (db_trans d) ?k \<noteq> None)" "ihash_inv h'"
      "ihash_map h' = (ihash_map (db_trans d))(?k := None)"
    using inv by (rule ihash_erase_ok)
  show thesis
    by (rule that[OF tp(1), of "d\<lparr>db_tran := tp, db_trans := h'\<rparr>"])
      (use tp(2,3) h' in \<open>simp_all add: tran_erase_def tran_ended_def\<close>)
qed

lemma tcl_commit_ends:
  assumes "tran_open d ss tran"
  shows "\<exists>d'. tcl_commit ss d = Some (d', ss\<lparr>ss_tran := None\<rparr>, SCRS_OK) \<and> tran_ended d (tr_key tran) TF_COMMITED d'"
  by (rule tran_end_ok[OF assms, of TF_COMMITED]) (use assms in \<open>simp add: tcl_commit_def tran_open_def\<close>)

lemma tcl_rollback_ends:
  assumes "tran_open d ss tran"
  shows "\<exists>d'. tcl_rollback ss d = Some (d', ss\<lparr>ss_tran := None\<rparr>, SCRS_OK) \<and> tran_ended d (tr_key tran) TF_ABORTED d'"
  by (rule tran_end_ok[OF assms, of TF_ABORTED]) (use assms in \<open>simp add: tcl_rollback_def tran_open_def\<close>)

lemma tran_ended_committed:
  "tran_ended d k flag d' \<Longrightarrow> committed (db_tran d') t \<longleftrightarrow> (if t = k then flag = TF_COMMITED else committed (db_tran d) t)"
  by (simp add: tran_ended_def committed_def)

text \<open>Without an explicit transaction both statements are refused and change nothing.\<close>

lemma tcl_end_refused:
  assumes "\<forall>tran. sess_tran d ss = Some tran \<longrightarrow> tr_autocommit tran"
  shows "tcl_commit ss d = Some (d, ss, SCRS_NO_TRANSACTION)" "tcl_rollback ss d = Some (d, ss, SCRS_NO_TRANSACTION)"
  using assms by (simp_all add: tcl_commit_def tcl_rollback_def split: option.split)

section \<open>Isolation and atomicity of an insertion\<close>

text \<open>
  C10: Into a table whose recorded last page is the last of its chain, with the uninitialised
  transaction pointer of the insert's row not NULL, a row version inserted by an open
  transaction is visible to that transaction and to no other one; after tcl_commit it is
  visible to every transaction, after tcl_rollback to no other one, and neither statement
  touches the pages of the tables.
\<close>

theorem insert_isolated_until_commit:
  assumes "find_relation sys ss d schema table True True = Some (d, gp)" and "table_ready sys d gp h g gs"
    and "tran_open d ss tran" and "tr_key tran \<noteq> 0" and "\<not> committed (db_tran d) 0" and "\<not> committed (db_tran d) (tr_key tran)"
    and "length names = length values" and "named_values h (zip names values)"
    and "TMIN_NAME \<notin> set names" and "TMAX_NAME \<notin> set names"
  shows "\<exists>d1 d2 d3 gs' row. insert_stmt (Some j) sys ss d schema table names values GC_MVCC = Some (d1, ss, SCRS_OK) \<and>
    mesh_rows (db_store d1) gs' = mesh_rows (db_store d) gs @ [row] \<and>
    (\<forall>tr. tr_key tr \<noteq> 0 \<longrightarrow> row_visible (db_tran d1) tr h row = (tr_key tr = tr_key tran)) \<and>
    tcl_commit ss d1 = Some (d2, ss\<lparr>ss_tran := None\<rparr>, SCRS_OK) \<and> db_store d2 = db_store d1 \<and>
    (\<forall>tr. tr_key tr \<noteq> 0 \<longrightarrow> row_visible (db_tran d2) tr h row) \<and>
    tcl_rollback ss d1 = Some (d3, ss\<lparr>ss_tran := None\<rparr>, SCRS_OK) \<and> db_store d3 = db_store d1 \<and>
    (\<forall>tr. tr_key tr \<noteq> 0 \<longrightarrow> tr_key tr \<noteq> tr_key tran \<longrightarrow> \<not> row_visible (db_tran d3) tr h row)"
proof -
  let ?k = "tr_key tran"
  have st: "sess_tran d ss = Some tran" using assms(3) by (simp add: tran_open_def)
  obtain s' gs' row where ins: "insert_stmt (Some j) sys ss d schema table names values GC_MVCC = Some (d\<lparr>db_store := s'\<rparr>, ss, SCRS_OK)"
    and rows: "mesh_rows s' gs' = mesh_rows (db_store d) gs @ [row]" and tid: "row_tid h row 0 = ?k" "row_tid h row 1 = 0"
    using insert_version[OF assms(1,2) st assms(7-10)] by blast
  let ?d1 = "d\<lparr>db_store := s'\<rparr>"
  have op: "tran_open ?d1 ss tran" using assms(3) by (simp add: tran_open_def sess_tran_def tran_at_def)
  obtain d2 where d2: "tcl_commit ss ?d1 = Some (d2, ss\<lparr>ss_tran := None\<rparr>, SCRS_OK)" "tran_ended ?d1 ?k TF_COMMITED d2"
    using tcl_commit_ends[OF op] by blast
  obtain d3 where d3: "tcl_rollback ss ?d1 = Some (d3, ss\<lparr>ss_tran := None\<rparr>, SCRS_OK)" "tran_ended ?d1 ?k TF_ABORTED d3"
    using tcl_rollback_ends[OF op] by blast
  note c2 = tran_ended_committed[OF d2(2)] and c3 = tran_ended_committed[OF d3(2)]
  have n: "\<not> committed (db_tran d2) 0" "\<not> committed (db_tran d3) 0" using assms(4,5) by (simp_all add: c2 c3)
  have v1: "\<forall>tr. tr_key tr \<noteq> 0 \<longrightarrow> row_visible (db_tran ?d1) tr h row = (tr_key tr = ?k)"
    using row_visible_fresh[OF tid] assms(5,6) by (auto simp: sees_def)
  have v2: "\<forall>tr. tr_key tr \<noteq> 0 \<longrightarrow> row_visible (db_tran d2) tr h row"
    using row_visible_fresh[OF tid n(1)] by (simp add: sees_def c2)
  have v3: "\<forall>tr. tr_key tr \<noteq> 0 \<longrightarrow> tr_key tr \<noteq> ?k \<longrightarrow> \<not> row_visible (db_tran d3) tr h row"
    using row_visible_fresh[OF tid n(2)] by (simp add: sees_def c3)
  have s: "db_store d2 = db_store ?d1" "db_store d3 = db_store ?d1" using d2(2) d3(2) by (simp_all add: tran_ended_def)
  have r: "mesh_rows (db_store ?d1) gs' = mesh_rows (db_store d) gs @ [row]" using rows by simp
  show ?thesis
    by (intro exI[of _ ?d1] exI[of _ d2] exI[of _ d3] exI[of _ gs'] exI[of _ row] conjI ins r v1 d2(1) s v2 d3(1) v3)
qed

lemma small_inv: "ihash_inv small_trans" "ihash_map small_trans 5 = Some False"
proof -
  let ?ps = "\<lambda>_. []" and ?fs = "[]"
  have "hrep small_trans ?ps ?fs"
    by (simp add: hrep_def hlinks_def linked_def small_trans_def kv_ok_def hkv_def hslots_of_def ihash_idx_def IHASH_UNDEF_def)
  then show "ihash_inv small_trans" by (auto simp: ihash_inv_def)
  show "ihash_map small_trans 5 = Some False"
    by (simp add: ihash_map_def hslots_def hkv_def hslots_of_def ihash_idx_def small_trans_def IHASH_UNDEF_def)
qed

theorem insert_isolated_until_commit_witness:
  "\<exists>d1 d2 d3 gs' row. insert_stmt (Some \<lparr>tr_key = 5, tr_autocommit = False\<rparr>) small_sys small_sess small_db [115] [116] [ascii ''n''] [make_bigint 42] GC_MVCC =
     Some (d1, small_sess, SCRS_OK) \<and> mesh_rows (db_store d1) gs' = [row] \<and>
     tcl_commit small_sess d1 = Some (d2, small_sess\<lparr>ss_tran := None\<rparr>, SCRS_OK) \<and>
     \<not> row_visible (db_tran d1) \<lparr>tr_key = 7, tr_autocommit = False\<rparr> small_header row \<and>
     row_visible (db_tran d2) \<lparr>tr_key = 7, tr_autocommit = False\<rparr> small_header row"
proof -
  have op: "tran_open small_db small_sess \<lparr>tr_key = 5, tr_autocommit = False\<rparr>"
  proof -
    have "db_trans small_db = small_trans" "db_tran small_db = \<lparr>tp_start = 0, tp_datum = [0]\<rparr>" by (simp_all add: small_db_def)
    then show ?thesis using small_inv small_sess_tran[OF small_db_facts(2)] by (simp add: tran_open_def has_flag_def tid_pos_def)
  qed
  have c: "\<not> committed (db_tran small_db) 0"  "\<not> committed (db_tran small_db) 5"
    by (simp_all add: committed_def tran_flag_get_def small_db_def)
  have k: "tr_key \<lparr>tr_key = 5, tr_autocommit = False\<rparr> \<noteq> 0"
    "\<not> committed (db_tran small_db) (tr_key \<lparr>tr_key = 5, tr_autocommit = False\<rparr>)" using c by simp_all
  have len: "length [ascii ''n''] = length [make_bigint 42]" by simp
  obtain d1 d2 d3 gs' row where "insert_stmt (Some \<lparr>tr_key = 5, tr_autocommit = False\<rparr>) small_sys small_sess small_db [115] [116] [ascii ''n''] [make_bigint 42] GC_MVCC =
      Some (d1, small_sess, SCRS_OK)" "mesh_rows (db_store d1) gs' = mesh_rows (db_store small_db) [5] @ [row]"
    and v1: "\<forall>tr. tr_key tr \<noteq> 0 \<longrightarrow> row_visible (db_tran d1) tr small_header row = (tr_key tr = tr_key \<lparr>tr_key = 5, tr_autocommit = False\<rparr>)"
    and "tcl_commit small_sess d1 = Some (d2, small_sess\<lparr>ss_tran := None\<rparr>, SCRS_OK)"
    and v2: "\<forall>tr. tr_key tr \<noteq> 0 \<longrightarrow> row_visible (db_tran d2) tr small_header row"
    using insert_isolated_until_commit[where j = "\<lparr>tr_key = 5, tr_autocommit = False\<rparr>", OF small_find_relation[OF small_db_facts] small_table_ready op k(1) c(1) k(2) len small_named small_names_ok]
    by (elim exE conjE) (rule that)
  moreover have "\<not> row_visible (db_tran d1) \<lparr>tr_key = 7, tr_autocommit = False\<rparr> small_header row"
    using v1[rule_format, of "\<lparr>tr_key = 7, tr_autocommit = False\<rparr>"] by simp
  moreover have "row_visible (db_tran d2) \<lparr>tr_key = 7, tr_autocommit = False\<rparr> small_header row"
    using v2[rule_format, of "\<lparr>tr_key = 7, tr_autocommit = False\<rparr>"] by simp
  ultimately show ?thesis unfolding small_no_rows append_Nil by blast
qed

end
