(* ===== verification/Scr_Array.thy ===== *)
theory Scr_Array
  imports Scr_Prelude "HOL-Library.Monad_Syntax"
begin

text \<open>
  \<^verbatim>\<open>lib/core/src/array.h\<close> and \<^verbatim>\<open>array.c\<close>: growing arrays with
  their header before the elements. A pointer to an array is an option, \<open>None\<close> for NULL; the
  elements are all those that fit into the block, in use or not. The allocator is an argument:
  \<open>mem n\<close> says whether it has a block of \<open>n\<close> bytes, \<open>junk\<close> is what fresh elements hold.
  An outer \<open>None\<close> is a failed assert or an access outside the block.
\<close>

section \<open>The code\<close>

record 'a array =
  arr_size :: u64
  arr_usersz :: u64
  arr_capacity :: u64
  arr_elems :: "'a list"

definition ARRAY_SZ :: u64 where "ARRAY_SZ = 24"
definition ARRAY_DEFAULT_CAPACITY :: u64 where "ARRAY_DEFAULT_CAPACITY = 128"

definition block_elems :: "u64 \<Rightarrow> u64 \<Rightarrow> nat" where
  "block_elems usersz n = unat (n - ARRAY_SZ) div unat usersz"

definition array_bytes :: "u64 \<Rightarrow> u64 \<Rightarrow> u64" where
  "array_bytes usersz capacity = ARRAY_SZ + usersz * capacity"

definition array_create_fn :: "(u64 \<Rightarrow> bool) \<Rightarrow> (nat \<Rightarrow> 'a) \<Rightarrow> u64 \<Rightarrow> u64 \<Rightarrow> 'a array option option" where
  "array_create_fn mem junk usersz capacity = (let n = array_bytes usersz capacity in
     if \<not> mem n then Some None
     else if n < ARRAY_SZ then None
     else Some (Some \<lparr>arr_size = 0, arr_usersz = usersz, arr_capacity = capacity,
            arr_elems = map junk [0..<block_elems usersz n]\<rparr>))"

text \<open>\<open>free\<close> gives the block with its header back to the allocator, which has the state \<open>w\<close>.\<close>

definition array_free :: "('a array \<Rightarrow> 'w \<Rightarrow> 'w) \<Rightarrow> 'a array option \<Rightarrow> 'w \<Rightarrow> 'w" where
  "array_free free a w = (case a of None \<Rightarrow> w | Some a \<Rightarrow> free a w)"

definition array_clear :: "'a array option \<Rightarrow> 'a array option" where
  "array_clear a = map_option (arr_size_update (\<lambda>_. 0)) a"

definition array_size :: "'a array option \<Rightarrow> u64" where
  "array_size a = (case a of None \<Rightarrow> 0 | Some a \<Rightarrow> arr_size a)"

definition array_empty :: "'a array option \<Rightarrow> bool" where
  "array_empty a \<longleftrightarrow> array_size a = 0"

text \<open>realloc of the block to the size for the capacity in the header; the result is NULL where it fails.\<close>

definition array_resize :: "(u64 \<Rightarrow> bool) \<Rightarrow> (nat \<Rightarrow> 'a) \<Rightarrow> 'a array \<Rightarrow> 'a array option option" where
  "array_resize mem junk a = (let n = array_bytes (arr_usersz a) (arr_capacity a); k = block_elems (arr_usersz a) n in
     if \<not> mem n then Some None
     else if n < ARRAY_SZ then None
     else Some (Some (a\<lparr>arr_elems := take k (arr_elems a) @ map junk [length (arr_elems a)..<k]\<rparr>)))"

text \<open>
  The first result is the array as it is afterwards, the flag whether the returned pointer
  is not NULL: when the block cannot grow, the header has the new capacity all the same.
\<close>

definition array_raise_fn :: "(u64 \<Rightarrow> bool) \<Rightarrow> (nat \<Rightarrow> 'a) \<Rightarrow> 'a array option \<Rightarrow> ('a array \<times> bool) option" where
  "array_raise_fn mem junk a = do {
     a \<leftarrow> a;
     if arr_size a = arr_capacity a then
       let a = a\<lparr>arr_capacity := if arr_capacity a \<noteq> 0 then arr_capacity a * 2 else 1\<rparr> in do {
         r \<leftarrow> array_resize mem junk a;
         (case r of None \<Rightarrow> Some (a, False) | Some a \<Rightarrow> Some (a\<lparr>arr_size := arr_size a + 1\<rparr>, True)) }
     else Some (a\<lparr>arr_size := arr_size a + 1\<rparr>, True) }"

text \<open>The pointer returned is NULL for an empty array; an array that cannot shrink stays where it is.\<close>

definition array_reduce_fn :: "(u64 \<Rightarrow> bool) \<Rightarrow> (nat \<Rightarrow> 'a) \<Rightarrow> 'a array option \<Rightarrow> 'a array option option" where
  "array_reduce_fn mem junk a = do {
     a \<leftarrow> a;
     if arr_size a = 0 then Some None
     else let a = a\<lparr>arr_size := arr_size a - 1\<rparr> in
       if arr_size a = arr_capacity a div 2 \<and> 4 < arr_capacity a then
         let a = a\<lparr>arr_capacity := arr_capacity a div 2\<rparr> in do {
           r \<leftarrow> array_resize mem junk a;
           Some (Some (case r of None \<Rightarrow> a | Some a \<Rightarrow> a)) }
       else Some (Some a) }"

text \<open>Access to an element; outside the block it is undefined.\<close>

definition array_back :: "'a array option \<Rightarrow> 'a option" where
  "array_back a = do { a \<leftarrow> a; let i = unat (arr_size a - 1) in
     if i < length (arr_elems a) then Some (arr_elems a ! i) else None }"

definition array_back_ref :: "'a array \<Rightarrow> 'a \<Rightarrow> 'a array option" where
  "array_back_ref a v = (let i = unat (arr_size a - 1) in
     if i < length (arr_elems a) then Some (a\<lparr>arr_elems := (arr_elems a)[i := v]\<rparr>) else None)"

definition array_put :: "(u64 \<Rightarrow> bool) \<Rightarrow> (nat \<Rightarrow> 'a) \<Rightarrow> u64 \<Rightarrow> 'a array option \<Rightarrow> 'a \<Rightarrow> ('a array option \<times> bool) option" where
  "array_put mem junk usersz a v = do {
     a \<leftarrow> (if a = None then array_create_fn mem junk usersz ARRAY_DEFAULT_CAPACITY else Some a);
     (a, ok) \<leftarrow> array_raise_fn mem junk a;
     if ok then do { a \<leftarrow> array_back_ref a v; Some (Some a, True) } else Some (Some a, False) }"

definition array_pop :: "(u64 \<Rightarrow> bool) \<Rightarrow> (nat \<Rightarrow> 'a) \<Rightarrow> 'a array option \<Rightarrow> ('a array option \<times> 'a) option" where
  "array_pop mem junk a = do { v \<leftarrow> array_back a; a \<leftarrow> array_reduce_fn mem junk a; Some (a, v) }"

section \<open>Stacks\<close>

text \<open>What a client of an array relies on; \<open>inv k\<close> holds of an array that saw at most \<open>k\<close> puts.\<close>

datatype 'a stack_op = Put 'a | Pop | Clear

datatype 'a stack_out = Out_put bool | Out_pop 'a | Out_clear

fun stack_spec :: "'a list \<Rightarrow> 'a stack_op list \<Rightarrow> ('a list \<times> 'a stack_out list) option" where
  "stack_spec xs [] = Some (xs, [])"
| "stack_spec xs (Put x # ops) = map_option (apsnd ((#) (Out_put True))) (stack_spec (xs @ [x]) ops)"
| "stack_spec xs (Pop # ops) = (if xs = [] then None
     else map_option (apsnd ((#) (Out_pop (last xs)))) (stack_spec (butlast xs) ops))"
| "stack_spec xs (Clear # ops) = map_option (apsnd ((#) Out_clear)) (stack_spec [] ops)"

fun stack_run :: "('h \<Rightarrow> 'a \<Rightarrow> ('h \<times> bool) option) \<Rightarrow> ('h \<Rightarrow> ('h \<times> 'a) option) \<Rightarrow> ('h \<Rightarrow> 'h) \<Rightarrow>
    'h \<Rightarrow> 'a stack_op list \<Rightarrow> ('h \<times> 'a stack_out list) option" where
  "stack_run put pop clear h [] = Some (h, [])"
| "stack_run put pop clear h (Put x # ops) = Option.bind (put h x) (\<lambda>(h, b).
     map_option (apsnd ((#) (Out_put b))) (stack_run put pop clear h ops))"
| "stack_run put pop clear h (Pop # ops) = Option.bind (pop h) (\<lambda>(h, x).
     map_option (apsnd ((#) (Out_pop x))) (stack_run put pop clear h ops))"
| "stack_run put pop clear h (Clear # ops) = map_option (apsnd ((#) Out_clear)) (stack_run put pop clear (clear h) ops)"

locale stack =
  fixes inv :: "nat \<Rightarrow> 'h \<Rightarrow> bool" and view :: "'h \<Rightarrow> 'a list" and room :: nat
    and put :: "'h \<Rightarrow> 'a \<Rightarrow> ('h \<times> bool) option" and pop :: "'h \<Rightarrow> ('h \<times> 'a) option" and clear :: "'h \<Rightarrow> 'h"
  assumes put_law: "inv k h \<Longrightarrow> k < room \<Longrightarrow> \<exists>h'. put h x = Some (h', True) \<and> inv (Suc k) h' \<and> view h' = view h @ [x]"
    and pop_law: "inv k h \<Longrightarrow> k \<le> room \<Longrightarrow> view h \<noteq> [] \<Longrightarrow> \<exists>h'. pop h = Some (h', last (view h)) \<and> inv k h' \<and> view h' = butlast (view h)"
    and clear_law: "inv k h \<Longrightarrow> inv k (clear h) \<and> view (clear h) = []"
    and more_law: "inv k h \<Longrightarrow> inv (Suc k) h"
begin

lemma run_refines:
  "inv k h \<Longrightarrow> k + length ops \<le> room \<Longrightarrow> stack_spec (view h) ops = Some (xs, outs) \<Longrightarrow>
   \<exists>h'. stack_run put pop clear h ops = Some (h', outs) \<and> inv (k + length ops) h' \<and> view h' = xs"
proof (induction ops arbitrary: k h outs)
  case (Cons op ops)
  show ?case
  proof (cases op)
    case (Put x)
    obtain h1 where h1: "put h x = Some (h1, True)" "inv (Suc k) h1" "view h1 = view h @ [x]"
      using put_law[OF Cons.prems(1)] Cons.prems(2) by fastforce
    then show ?thesis using Cons.IH[OF h1(2)] Cons.prems(2,3) Put by (auto simp: map_option_case split: option.splits)
  next
    case Pop
    then have ne: "view h \<noteq> []" using Cons.prems(3) by (auto split: if_splits)
    obtain h1 where h1: "pop h = Some (h1, last (view h))" "inv k h1" "view h1 = butlast (view h)"
      using pop_law[OF Cons.prems(1) _ ne] Cons.prems(2) by fastforce
    then show ?thesis using Cons.IH[OF more_law[OF h1(2)]] Cons.prems(2,3) Pop h1 ne
      by (auto simp: map_option_case split: option.splits)
  next
    case Clear
    then show ?thesis using Cons.IH[of "Suc k" "clear h"] clear_law[OF Cons.prems(1)] more_law Cons.prems(2,3)
      by (auto simp: map_option_case split: option.splits)
  qed
qed simp

end

section \<open>Arrays are stacks\<close>

lemma array_bytes_fit:
  assumes "0 < unat usersz" "24 + unat usersz * unat cap < 2 ^ 64"
  shows "\<not> array_bytes usersz cap < ARRAY_SZ" "block_elems usersz (array_bytes usersz cap) = unat cap"
proof -
  have n: "unat (array_bytes usersz cap) = 24 + unat usersz * unat cap"
    using assms(2) by (simp add: array_bytes_def ARRAY_SZ_def unat_word_ariths)
  then show le: "\<not> array_bytes usersz cap < ARRAY_SZ" by (simp add: ARRAY_SZ_def word_less_nat_alt)
  then have "unat (array_bytes usersz cap - ARRAY_SZ) = unat (array_bytes usersz cap) - unat ARRAY_SZ"
    by (simp add: unat_sub)
  then show "block_elems usersz (array_bytes usersz cap) = unat cap"
    using n assms(1) by (simp add: block_elems_def ARRAY_SZ_def)
qed

definition array_view :: "'a array option \<Rightarrow> 'a list" where
  "array_view a = (case a of None \<Rightarrow> [] | Some a \<Rightarrow> take (unat (arr_size a)) (arr_elems a))"

definition array_ok :: "u64 \<Rightarrow> 'a array \<Rightarrow> bool" where
  "array_ok usersz a \<longleftrightarrow> arr_usersz a = usersz \<and> unat (arr_size a) \<le> unat (arr_capacity a) \<and>
     length (arr_elems a) = unat (arr_capacity a)"

text \<open>After \<open>k\<close> puts.\<close>

definition array_inv :: "u64 \<Rightarrow> nat \<Rightarrow> 'a array option \<Rightarrow> bool" where
  "array_inv usersz k a \<longleftrightarrow> (case a of None \<Rightarrow> True
     | Some a \<Rightarrow> array_ok usersz a \<and> unat (arr_size a) \<le> k \<and> unat (arr_capacity a) \<le> 128 + 2 * k)"

text \<open>Arrays of so many elements have blocks whose size does not wrap around.\<close>

definition array_room :: "u64 \<Rightarrow> nat \<Rightarrow> bool" where
  "array_room usersz room \<longleftrightarrow> 0 < unat usersz \<and> 24 + unat usersz * (130 + 2 * room) < 2 ^ 64"

lemma array_room_bytes:
  assumes "array_room usersz room" "unat cap \<le> 130 + 2 * room"
  shows "\<not> array_bytes usersz cap < ARRAY_SZ" "block_elems usersz (array_bytes usersz cap) = unat cap"
    "unat cap < 2 ^ 64 - 1"
proof -
  have "unat usersz * unat cap \<le> unat usersz * (130 + 2 * room)" using assms(2) by simp
  moreover have r: "0 < unat usersz" "24 + unat usersz * (130 + 2 * room) < 2 ^ 64" using assms(1) unfolding array_room_def by blast+
  ultimately have l: "0 < unat usersz" "24 + unat usersz * unat cap < 2 ^ 64" by linarith+
  show "\<not> array_bytes usersz cap < ARRAY_SZ" "block_elems usersz (array_bytes usersz cap) = unat cap"
    using array_bytes_fit[OF l] by auto
  define x where "x = unat usersz * unat cap"
  have "1 * unat cap \<le> x" unfolding x_def using l(1) by (intro mult_le_mono) simp_all
  moreover have "24 + x < 2 ^ 64" unfolding x_def by (rule l(2))
  ultimately show "unat cap < 2 ^ 64 - 1" by linarith
qed

lemma unat_u64_succ: "unat (w :: u64) < 2 ^ 64 - 1 \<Longrightarrow> unat (w + 1) = unat w + 1"
  by (simp add: unat_word_ariths)

text \<open>A raise makes room for one element.\<close>

lemma array_raise_ok:
  assumes ok: "array_ok usersz a" "unat (arr_size a) \<le> k" "unat (arr_capacity a) \<le> 128 + 2 * k"
    and room: "array_room usersz room" "k < room" and mem: "\<forall>n. mem n"
  shows "\<exists>a'. array_raise_fn mem junk (Some a) = Some (a', True) \<and> array_ok usersz a' \<and>
    unat (arr_size a') = Suc (unat (arr_size a)) \<and> unat (arr_capacity a') \<le> 130 + 2 * k \<and>
    take (unat (arr_size a)) (arr_elems a') = take (unat (arr_size a)) (arr_elems a)"
proof -
  have cap: "unat (arr_capacity a) \<le> 130 + 2 * room" using ok(3) room(2) by simp
  have sz: "unat (arr_size a) < 2 ^ 64 - 1" using ok(1) array_room_bytes(3)[OF room(1) cap] by (simp add: array_ok_def)
  note s1 = unat_u64_succ[OF sz]
  show ?thesis
  proof (cases "arr_size a = arr_capacity a")
    case False
    then have "unat (arr_size a) < unat (arr_capacity a)" using ok(1) by (auto simp: array_ok_def order_le_less word_unat_eq_iff)
    then show ?thesis using ok False s1 by (auto simp: array_raise_fn_def array_ok_def)
  next
    case True
    let ?c = "if arr_capacity a \<noteq> 0 then arr_capacity a * 2 else 1"
    have dbl: "unat (arr_capacity a * 2) = unat (arr_capacity a) * 2"
    proof -
      have "2 * unat (arr_capacity a) \<le> 130 + 2 * room" using ok(2) True room(2) by simp
      moreover have "130 + 2 * room < (2 :: nat) ^ 64"
      proof -
        have r: "0 < unat usersz" "24 + unat usersz * (130 + 2 * room) < 2 ^ 64" using room(1) unfolding array_room_def by blast+
        define x where "x = unat usersz * (130 + 2 * room)"
        have "1 * (130 + 2 * room) \<le> x" unfolding x_def using r(1) by (intro mult_le_mono) simp_all
        moreover have "24 + x < 2 ^ 64" unfolding x_def using r(2) .
        ultimately show ?thesis by simp
      qed
      ultimately show ?thesis by (simp add: unat_word_ariths)
    qed
    have c: "unat (arr_capacity a) < unat ?c" "unat ?c \<le> 130 + 2 * k" "unat ?c \<le> 130 + 2 * room"
      using dbl ok(2) True room(2) by (auto simp: unat_gt_0)
    note b = array_room_bytes(1,2)[OF room(1) c(3)]
    have "arr_usersz a = usersz" "length (arr_elems a) = unat (arr_capacity a)" using ok(1) by (auto simp: array_ok_def)
    then show ?thesis using mem b c(1,2) s1 True
      by (auto simp: array_raise_fn_def array_resize_def array_ok_def Let_def)
  qed
qed

lemma array_put_ok:
  assumes inv: "array_inv usersz k a" and room: "array_room usersz room" "k < room" and mem: "\<forall>n. mem n"
  shows "\<exists>a'. array_put mem junk usersz a v = Some (a', True) \<and> array_inv usersz (Suc k) a' \<and> array_view a' = array_view a @ [v]"
proof -
  obtain b where b: "(if a = None then array_create_fn mem junk usersz ARRAY_DEFAULT_CAPACITY else Some a) = Some (Some b)"
    "array_ok usersz b" "unat (arr_size b) \<le> k" "unat (arr_capacity b) \<le> 128 + 2 * k"
    "take (unat (arr_size b)) (arr_elems b) = array_view a"
  proof (cases a)
    case None
    have c: "unat ARRAY_DEFAULT_CAPACITY = 128" by (simp add: ARRAY_DEFAULT_CAPACITY_def)
    then have "unat ARRAY_DEFAULT_CAPACITY \<le> 130 + 2 * room" by simp
    note f = array_room_bytes(1,2)[OF room(1) this]
    show thesis
      by (rule that[of "\<lparr>arr_size = 0, arr_usersz = usersz, arr_capacity = ARRAY_DEFAULT_CAPACITY, arr_elems = map junk [0..<128]\<rparr>"])
        (use None mem f c in \<open>simp_all add: array_create_fn_def array_ok_def array_view_def Let_def\<close>)
  next
    case (Some b)
    then show thesis using that[of b] inv by (auto simp: array_inv_def array_view_def)
  qed
  from array_raise_ok[OF b(2-4) room mem] obtain c where c: "array_raise_fn mem junk (Some b) = Some (c, True)" "array_ok usersz c"
    "unat (arr_size c) = Suc (unat (arr_size b))" "unat (arr_capacity c) \<le> 130 + 2 * k"
    "take (unat (arr_size b)) (arr_elems c) = take (unat (arr_size b)) (arr_elems b)" by blast
  have i: "unat (arr_size c - 1) = unat (arr_size b)" using c(3) by (simp add: unat_sub word_le_nat_alt)
  have l: "unat (arr_size b) < length (arr_elems c)" using c(2,3) by (simp add: array_ok_def)
  let ?c = "c\<lparr>arr_elems := (arr_elems c)[unat (arr_size b) := v]\<rparr>"
  have "array_put mem junk usersz a v = Some (Some ?c, True)"
    unfolding array_put_def b(1) using c(1) i l by (simp add: array_back_ref_def)
  moreover have "array_inv usersz (Suc k) (Some ?c)" using c(2-4) b(3) by (simp add: array_inv_def array_ok_def)
  moreover have "array_view (Some ?c) = array_view a @ [v]"
    using c(3,5) b(5) l by (simp add: array_view_def take_Suc_conv_app_nth)
  ultimately show ?thesis by blast
qed

lemma array_pop_ok:
  assumes inv: "array_inv usersz k a" and ne: "array_view a \<noteq> []" and room: "array_room usersz room" "k \<le> room" and mem: "\<forall>n. mem n"
  shows "\<exists>a'. array_pop mem junk a = Some (a', last (array_view a)) \<and> array_inv usersz k a' \<and> array_view a' = butlast (array_view a)"
proof -
  obtain b where a: "a = Some b" using ne by (cases a) (auto simp: array_view_def)
  have b: "array_ok usersz b" "unat (arr_size b) \<le> k" "unat (arr_capacity b) \<le> 128 + 2 * k" using inv a by (auto simp: array_inv_def)
  have pos: "0 < unat (arr_size b)" using ne a by (auto simp: array_view_def unat_gt_0)
  have i: "unat (arr_size b - 1) = unat (arr_size b) - 1" using pos by (simp add: unat_sub word_le_nat_alt)
  have l: "unat (arr_size b) \<le> length (arr_elems b)" using b(1) by (simp add: array_ok_def)
  have bl: "butlast (array_view a) = take (unat (arr_size b) - 1) (arr_elems b)" using a l by (simp add: array_view_def butlast_take)
  have bk: "array_back a = Some (last (array_view a))"
  proof -
    have j: "unat (arr_size b) - 1 < length (arr_elems b)" using l pos by linarith
    then have "last (take (unat (arr_size b)) (arr_elems b)) = arr_elems b ! (unat (arr_size b) - 1)"
      using pos l by (subst last_conv_nth) (auto simp: min_absorb2)
    then show ?thesis using a i j by (simp add: array_back_def array_view_def)
  qed
  have z: "arr_size b \<noteq> 0" using pos by auto
  let ?b = "b\<lparr>arr_size := arr_size b - 1\<rparr>"
  show ?thesis
  proof (cases "arr_size b - 1 = arr_capacity b div 2 \<and> 4 < arr_capacity b")
    case False
    then have "array_reduce_fn mem junk a = Some (Some ?b)" using a z by (auto simp: array_reduce_fn_def Let_def)
    moreover have "array_inv usersz k (Some ?b)" using b i by (auto simp: array_inv_def array_ok_def)
    moreover have "array_view (Some ?b) = butlast (array_view a)" using bl i by (simp add: array_view_def)
    ultimately show ?thesis using bk by (simp add: array_pop_def)
  next
    case True
    let ?h = "arr_capacity b div 2"
    have h: "unat ?h = unat (arr_capacity b) div 2" by (simp add: unat_div)
    have "unat ?h \<le> 130 + 2 * room" using h b(3) room(2) by simp
    note f = array_room_bytes(1,2)[OF room(1) this]
    have us: "arr_usersz b = usersz" "length (arr_elems b) = unat (arr_capacity b)" using b(1) by (auto simp: array_ok_def)
    let ?c = "?b\<lparr>arr_capacity := ?h, arr_elems := take (unat ?h) (arr_elems b)\<rparr>"
    have "array_resize mem junk (?b\<lparr>arr_capacity := ?h\<rparr>) = Some (Some ?c)"
      using f us h mem by (simp add: array_resize_def Let_def)
    then have "array_reduce_fn mem junk a = Some (Some ?c)" using a z True by (simp add: array_reduce_fn_def Let_def)
    moreover have sz: "unat (arr_size b) - 1 = unat ?h" using True i by simp
    have "unat ?h \<le> k" "unat ?h \<le> 128 + 2 * k" using sz b(2,3) h by linarith+
    then have "array_inv usersz k (Some ?c)" using us i h sz by (simp add: array_inv_def array_ok_def)
    moreover have "array_view (Some ?c) = butlast (array_view a)" using bl i sz by (simp add: array_view_def)
    ultimately show ?thesis using bk by (simp add: array_pop_def)
  qed
qed

lemma array_clear_ok: "array_inv usersz k a \<Longrightarrow> array_inv usersz k (array_clear a) \<and> array_view (array_clear a) = []"
  by (auto simp: array_clear_def array_inv_def array_ok_def array_view_def split: option.splits)

text \<open>So many puts can never make the size of a block wrap around.\<close>

definition array_limit :: "u64 \<Rightarrow> nat" where
  "array_limit usersz = ((2 ^ 64 - 25) div unat usersz - 130) div 2"

lemma array_limit_room: "0 < array_limit usersz \<Longrightarrow> array_room usersz (array_limit usersz)"
proof -
  assume l: "0 < array_limit usersz"
  let ?q = "(2 ^ 64 - 25) div unat usersz"
  have u: "0 < unat usersz" using l by (cases "unat usersz = 0") (simp_all add: array_limit_def)
  have "130 + 2 * array_limit usersz \<le> ?q" using l by (simp add: array_limit_def)
  then have "unat usersz * (130 + 2 * array_limit usersz) \<le> unat usersz * ?q" by (rule mult_le_mono2)
  also have "\<dots> \<le> 2 ^ 64 - 25" by (rule times_div_less_eq_dividend)
  finally show ?thesis using u unfolding array_room_def by simp
qed

interpretation array_stack: stack "array_inv usersz" array_view "array_limit usersz"
    "array_put (\<lambda>_. True) junk usersz" "array_pop (\<lambda>_. True) junk" array_clear
  for usersz junk
proof unfold_locales
  fix k :: nat and a :: "'a array option" and x
  show "array_inv usersz k a \<Longrightarrow> k < array_limit usersz \<Longrightarrow> \<exists>a'. array_put (\<lambda>_. True) junk usersz a x = Some (a', True) \<and>
      array_inv usersz (Suc k) a' \<and> array_view a' = array_view a @ [x]"
    using array_put_ok[of usersz k a "array_limit usersz" "\<lambda>_. True" junk x] array_limit_room[of usersz] by simp
  show "array_inv usersz k a \<Longrightarrow> k \<le> array_limit usersz \<Longrightarrow> array_view a \<noteq> [] \<Longrightarrow>
      \<exists>a'. array_pop (\<lambda>_. True) junk a = Some (a', last (array_view a)) \<and> array_inv usersz k a' \<and> array_view a' = butlast (array_view a)"
  proof -
    assume a: "array_inv usersz k a" "k \<le> array_limit usersz" "array_view a \<noteq> []"
    then have "0 < k" by (auto simp: array_inv_def array_view_def split: option.splits)
    then show ?thesis using array_pop_ok[OF a(1,3) array_limit_room a(2)] a(2) by simp
  qed
  show "array_inv usersz k a \<Longrightarrow> array_inv usersz k (array_clear a) \<and> array_view (array_clear a) = []"
    by (rule array_clear_ok)
  show "array_inv usersz k a \<Longrightarrow> array_inv usersz (Suc k) a"
    by (auto simp: array_inv_def split: option.splits)
qed

text \<open>
  C13: While the allocator has blocks, an array that starts as NULL behaves on any sequence of
  array_put, array_pop and array_clear as a stack, result by result, through all its growing
  and shrinking, and array_size is the height of the stack.
\<close>

theorem array_refines_stack:
  assumes "length (ops :: 'a stack_op list) \<le> array_limit usersz" and "stack_spec [] ops = Some (xs, outs)"
  shows "\<exists>a. stack_run (array_put (\<lambda>_. True) junk usersz) (array_pop (\<lambda>_. True) junk) array_clear None ops = Some (a, outs) \<and>
    array_view a = xs \<and> array_size a = of_nat (length xs)"
proof -
  have "array_inv usersz 0 (None :: 'a array option)" "array_view (None :: 'a array option) = []" by (simp_all add: array_inv_def array_view_def)
  then obtain a where
    a: "stack_run (array_put (\<lambda>_. True) junk usersz) (array_pop (\<lambda>_. True) junk) array_clear None ops = Some (a, outs)"
    "array_inv usersz (length ops) a" "array_view a = xs"
    using array_stack.run_refines[of usersz 0 None ops xs outs junk] assms by auto
  have "array_size a = of_nat (length xs)"
    using a(2,3) by (auto simp: array_size_def array_inv_def array_ok_def array_view_def split: option.splits)
  then show ?thesis using a by blast
qed

theorem array_refines_stack_witness:
  "\<exists>a. stack_run (array_put (\<lambda>_. True) (\<lambda>_. 0) 8) (array_pop (\<lambda>_. True) (\<lambda>_. 0)) array_clear None
     [Put (7 :: nat), Put 8, Pop, Put 9] = Some (a, [Out_put True, Out_put True, Out_pop 8, Out_put True]) \<and> array_view a = [7, 9]"
  using array_refines_stack[of "[Put 7, Put 8, Pop, Put 9]" 8 "[7, 9]" "[Out_put True, Out_put True, Out_pop 8, Out_put True]" "\<lambda>_. 0"]
  by (simp add: array_limit_def) blast

section \<open>A failing realloc\<close>

text \<open>The header has the doubled capacity of the block that was not there, so the next put writes behind the old one.\<close>

lemma array_put_after_failure:
  assumes "array_ok usersz a" "arr_size a = arr_capacity a" "arr_size a \<noteq> 0" "unat (arr_capacity a) < 2 ^ 62"
    and "\<not> mem (array_bytes usersz (arr_capacity a * 2))"
  shows "\<exists>a'. array_put mem junk usersz (Some a) v = Some (Some a', False) \<and> array_view (Some a') = array_view (Some a) \<and>
    array_put mem' junk usersz (Some a') w = None"
proof -
  have us: "arr_usersz a = usersz" "length (arr_elems a) = unat (arr_capacity a)" using assms(1) by (auto simp: array_ok_def)
  let ?a = "a\<lparr>arr_capacity := arr_capacity a * 2\<rparr>"
  have nz: "arr_capacity a \<noteq> 0" using assms(2,3) by simp
  have p: "array_put mem junk usersz (Some a) v = Some (Some ?a, False)"
    using assms(2,5) nz us by (simp add: array_put_def array_raise_fn_def array_resize_def Let_def)
  have "unat (arr_capacity a * 2) = unat (arr_capacity a) * 2" using assms(4) by (simp add: unat_word_ariths)
  moreover have "0 < unat (arr_capacity a)" using nz by (simp add: unat_gt_0)
  ultimately have ne: "arr_capacity a \<noteq> arr_capacity a * 2" by force
  have "unat (arr_size a + 1 - 1) = unat (arr_capacity a)" using assms(2) by simp
  then have "array_put mem' junk usersz (Some ?a) w = None"
    using ne us assms(2) by (simp add: array_put_def array_raise_fn_def array_back_ref_def Let_def)
  then show ?thesis using p by (intro exI[of _ ?a]) (simp add: array_view_def)
qed

end
