(* ===== verification/Scr_Bc.thy ===== *)
theory Scr_Bc
  imports Scr_Array Scr_Memory Scr_Table Scr_Ddl
begin

text \<open>
  The bytecode between the two parsers, \<^verbatim>\<open>src/scrs/bc.c\<close> and
  \<^verbatim>\<open>cmd.c\<close>: hquery.y puts tokens, bc_prepare links the ends of loops, and
  y2lex hands the tokens to the parser of execute.y, the body of a loop once for each row of
  the iterator. An outer \<open>None\<close> is a failed assert or an access outside a block.
\<close>

section \<open>Tokens\<close>

datatype bc_token =
    BC_CREATE | BC_USER | BC_CATALOG | BC_SCHEMA | BC_TABLE
  | BC_START_TRAN | BC_COMMIT | BC_ROLLBACK
  | BC_INSERT | BC_DELETE | BC_SELECT
  | BC_WHERE
  | BC_LOOP_BEGIN | BC_LOOP_END
  | BC_ARRAY_BEGIN | BC_ARRAY_END
  | BC_INTEGER | BC_STRING | BC_DATUM | BC_TYPE | BC_SIZE_T
  | BC_OR | BC_AND | BC_NE | BC_LE | BC_GE | BC_NOT | BC_LIKE | BC_IN | BC_BETWEEN
  | BC_NOT_LIKE | BC_NOT_IN | BC_NOT_BETWEEN | BC_CONCAT
  | BC_CHAR char

text \<open>The union of values; a token put without a value has the zeroed one.\<close>

datatype y2stype =
    V_zero
  | V_str "u8 list"
  | V_type sql_type
  | V_size u64
  | V_integer i64
  | V_datum datum

definition value_integer :: "y2stype \<Rightarrow> i64 option" where
  "value_integer v = (case v of V_zero \<Rightarrow> Some 0 | V_integer i \<Rightarrow> Some i | _ \<Rightarrow> None)"

record bc_node =
  bn_token :: bc_token
  bn_value :: y2stype

definition BC_NODE_SZ :: u64 where "BC_NODE_SZ = 32"

record bc =
  bc_itor :: u64
  bc_titor :: titor
  bc_tokens :: "bc_node array option"
  bc_cont :: "cid option"

section \<open>Operations\<close>

definition bc_init :: "cid option \<Rightarrow> bc" where
  "bc_init cont = \<lparr>bc_itor = 0, bc_titor = titor_init_invalid, bc_tokens = None, bc_cont = cont\<rparr>"

definition bc_reset :: "bc \<Rightarrow> bc" where
  "bc_reset bc = bc\<lparr>bc_itor := 0, bc_titor := titor_init_invalid\<rparr>"

definition bc_clear :: "bc \<Rightarrow> bc" where
  "bc_clear bc = (bc_reset bc)\<lparr>bc_tokens := array_clear (bc_tokens bc)\<rparr>"

definition bc_drop :: "(bc_node array \<Rightarrow> 'w \<Rightarrow> 'w) \<Rightarrow> bc \<Rightarrow> 'w \<Rightarrow> bc \<times> 'w" where
  "bc_drop free bc w = (bc_reset bc, array_free free (bc_tokens bc) w)"

text \<open>
  The block of the array comes from the context pushed, if it has room; the result of
  array_put is not looked at.
\<close>

definition bc_put :: "(memory \<Rightarrow> u64 \<Rightarrow> bool) \<Rightarrow> (nat \<Rightarrow> bc_node) \<Rightarrow> memory \<Rightarrow> bc \<Rightarrow> bc_node \<Rightarrow> (memory \<times> bc) option" where
  "bc_put room junk m bc node = do {
     m \<leftarrow> context_push m (bc_cont bc);
     (a, _) \<leftarrow> array_put (room m) junk BC_NODE_SZ (bc_tokens bc) node;
     m \<leftarrow> context_pop m;
     Some (m, bc\<lparr>bc_tokens := a\<rparr>) }"

definition token_at :: "bc_node array option \<Rightarrow> u64 \<Rightarrow> bc_node option" where
  "token_at a i = do { a \<leftarrow> a; if unat i < length (arr_elems a) then Some (arr_elems a ! unat i) else None }"

definition set_integer :: "bc_node array option \<Rightarrow> u64 \<Rightarrow> i64 \<Rightarrow> bc_node array option option" where
  "set_integer a i v = do { a \<leftarrow> a;
     if unat i < length (arr_elems a)
     then Some (Some (a\<lparr>arr_elems := (arr_elems a)[unat i := (arr_elems a ! unat i)\<lparr>bn_value := V_integer v\<rparr>]\<rparr>))
     else None }"

definition STACKSZ :: nat where "STACKSZ = 64"

text \<open>The loop of bc_prepare over the indices left, with the stack of open loops.\<close>

fun bc_link :: "u64 list \<Rightarrow> bc_node array option \<Rightarrow> u64 list \<Rightarrow> (bc_node array option \<times> int) option" where
  "bc_link [] a stk = Some (a, 0)"
| "bc_link (i # is) a stk = do {
     node \<leftarrow> token_at a i;
     if bn_token node = BC_LOOP_BEGIN then
       (if length stk = STACKSZ then Some (a, 1) else bc_link is a (i # stk))
     else if bn_token node = BC_LOOP_END then
       (case stk of [] \<Rightarrow> Some (a, 2)
        | begin_idx # stk \<Rightarrow> do {
            a \<leftarrow> set_integer a begin_idx (i + 1);
            a \<leftarrow> set_integer a i begin_idx;
            bc_link is a stk })
     else bc_link is a stk }"

definition bc_prepare :: "bc \<Rightarrow> (bc \<times> int) option" where
  "bc_prepare bc = do {
     (a, ret) \<leftarrow> bc_link (map of_nat [0..<unat (array_size (bc_tokens bc))]) (bc_tokens bc) [];
     Some (bc\<lparr>bc_tokens := a\<rparr>, ret) }"

text \<open>
  The next token with its value, \<open>None\<close> for the end of input. A token after the begin or
  the end of a loop is handed out whatever it is.
\<close>

definition lex_at :: "bc \<Rightarrow> u64 \<Rightarrow> (bc \<times> (bc_token \<times> y2stype) option) option" where
  "lex_at bc i = do { node \<leftarrow> token_at (bc_tokens bc) i; Some (bc\<lparr>bc_itor := i + 1\<rparr>, Some (bn_token node, bn_value node)) }"

definition lex_or_end :: "bc \<Rightarrow> u64 \<Rightarrow> (bc \<times> (bc_token \<times> y2stype) option) option" where
  "lex_or_end bc i = (if i = array_size (bc_tokens bc) then Some (bc\<lparr>bc_itor := i\<rparr>, None) else lex_at bc i)"

definition y2lex :: "tran_page \<Rightarrow> store \<Rightarrow> bc \<Rightarrow> (bc \<times> (bc_token \<times> y2stype) option) option" where
  "y2lex tp s bc = (if bc_itor bc = array_size (bc_tokens bc) then Some (bc, None) else do {
     node \<leftarrow> token_at (bc_tokens bc) (bc_itor bc);
     if bn_token node = BC_LOOP_BEGIN then do {
       valid \<leftarrow> titor_is_valid s (bc_titor bc);
       if valid then lex_or_end bc (bc_itor bc + 1)
       else do { i \<leftarrow> value_integer (bn_value node); lex_or_end bc i } }
     else if bn_token node = BC_LOOP_END then do {
       t \<leftarrow> titor_next tp s (bc_titor bc);
       valid \<leftarrow> titor_is_valid s t;
       if valid then do { i \<leftarrow> value_integer (bn_value node); lex_at (bc\<lparr>bc_titor := t\<rparr>) (i + 1) }
       else lex_or_end (bc\<lparr>bc_titor := t\<rparr>) (bc_itor bc + 1) }
     else lex_at bc (bc_itor bc) })"

section \<open>Commands\<close>

record cmd =
  cm_bc_cont :: "cid option"
  cm_str_cont :: "cid option"
  cm_current_cont :: "cid option"
  cm_bc :: bc
  cm_titor :: titor
  cm_current :: "ptr option"

definition BCSZ :: u64 where "BCSZ = 1024"

text \<open>A context with its parent, the current one; \<open>mapped\<close> is what mmap returns.\<close>

definition cmd_context :: "memory \<Rightarrow> cid option \<Rightarrow> u64 \<Rightarrow> (memory \<times> cid) option" where
  "cmd_context m mapped sz = (let (h, c) = bump_context_create (m_heap m) mapped sz in do {
     c \<leftarrow> c;
     cur \<leftarrow> g_context m;
     (h, _) \<leftarrow> bump_context_add_child h cur c;
     Some (m\<lparr>m_heap := h\<rparr>, c) })"

definition cmd_init :: "u64 \<Rightarrow> cid option \<Rightarrow> cid option \<Rightarrow> cid option \<Rightarrow> memory \<Rightarrow> (memory \<times> cmd) option" where
  "cmd_init pagesz m1 m2 m3 m = do {
     (m, c1) \<leftarrow> cmd_context m m1 (BC_NODE_SZ * BCSZ * 2);
     (m, c2) \<leftarrow> cmd_context m m2 (pagesz * 256 * 256);
     (m, c3) \<leftarrow> cmd_context m m3 (pagesz * 256 * 256);
     Some (m, \<lparr>cm_bc_cont = Some c1, cm_str_cont = Some c2, cm_current_cont = Some c3, cm_bc = bc_init (Some c1),
       cm_titor = titor_init_invalid, cm_current = None\<rparr>) }"

definition cmd_drop :: "heap \<Rightarrow> cmd \<Rightarrow> heap option" where
  "cmd_drop h cmd = do {
     h \<leftarrow> bump_context_drop h (cm_current_cont cmd);
     h \<leftarrow> bump_context_drop h (cm_str_cont cmd);
     bump_context_drop h (cm_bc_cont cmd) }"

definition cmd_reset :: "heap \<Rightarrow> cmd \<Rightarrow> (heap \<times> cmd) option" where
  "cmd_reset h cmd = do {
     c1 \<leftarrow> cm_bc_cont cmd;
     h \<leftarrow> bump_context_reset h c1;
     c2 \<leftarrow> cm_str_cont cmd;
     h \<leftarrow> bump_context_reset h c2;
     c3 \<leftarrow> cm_current_cont cmd;
     h \<leftarrow> bump_context_reset h c3;
     Some (h, cmd\<lparr>cm_bc := bc_clear (cm_bc cmd), cm_titor := titor_init_invalid, cm_current := None\<rparr>) }"

text \<open>The macro appends to an array of elements of \<open>usersz\<close> bytes in the context for current values.\<close>

definition cmd_current_put ::
    "(memory \<Rightarrow> u64 \<Rightarrow> bool) \<Rightarrow> (nat \<Rightarrow> 'a) \<Rightarrow> u64 \<Rightarrow> memory \<Rightarrow> cmd \<Rightarrow> 'a array option \<Rightarrow> 'a \<Rightarrow> (memory \<times> 'a array option) option" where
  "cmd_current_put room junk usersz m cmd a v = do {
     m \<leftarrow> context_push m (cm_current_cont cmd);
     (a, _) \<leftarrow> array_put (room m) junk usersz a v;
     m \<leftarrow> context_pop m;
     Some (m, a) }"

end
