(* ===== verification/Scr_Session.thy ===== *)
theory Scr_Session
  imports Scr_Dml
begin

text \<open>
  The buffered output of \<^verbatim>\<open>src/scrs/session.c\<close>. The system call send is an
  argument of the model that acts on a state \<open>'w\<close> of the operating system.
  \<open>None\<close> is a loop that does not end. Messages to the log are left out.
\<close>

section \<open>Sending a block\<close>

text \<open>What send returns: a number of bytes, -1 with EINTR, or -1 with another errno.\<close>

datatype send_result = Sent nat | Send_Eintr | Send_Error

type_synonym 'w os_send = "'w \<Rightarrow> i32 \<Rightarrow> u8 list \<Rightarrow> 'w \<times> send_result"

partial_function (option) send_block_loop ::
    "'w os_send \<Rightarrow> 'w \<Rightarrow> i32 \<Rightarrow> u8 list \<Rightarrow> nat \<Rightarrow> ('w \<times> scrc_status) option" where
  "send_block_loop os_send w fd buf sent =
     (if sent < length buf then let (w', n) = os_send w fd (drop sent buf) in
        (case n of
           Send_Eintr \<Rightarrow> send_block_loop os_send w' fd buf sent
         | Send_Error \<Rightarrow> Some (w', SCRS_SEND_ERROR)
         | Sent n \<Rightarrow> if n = 0 then Some (w', SCRS_SESSION_CLOSED)
             else send_block_loop os_send w' fd buf (sent + n))
      else Some (w, SCRS_OK))"

declare send_block_loop.simps [code]

definition send_block :: "'w os_send \<Rightarrow> 'w \<Rightarrow> i32 \<Rightarrow> u8 list \<Rightarrow> ('w \<times> scrc_status) option" where
  "send_block os_send w fd buf = send_block_loop os_send w fd buf 0"

section \<open>The buffer of a session\<close>

definition SENDBUFSZ :: nat where
  "SENDBUFSZ = 4096"

record session =
  client_fd :: i32
  send_buf :: "u8 list"
  send_buf_idx :: nat

text \<open>session_init; \<open>buf\<close> are the bytes the array happens to hold.\<close>

definition session_init :: "u8 list \<Rightarrow> sess \<times> session" where
  "session_init buf = (\<lparr>ss_user = None, ss_catalog = None, ss_tran = None\<rparr>,
     \<lparr>client_fd = -1, send_buf = buf, send_buf_idx = 0\<rparr>)"

text \<open>The part of session_send after the buffer is sent: whole blocks directly, the tail into the buffer.\<close>

definition send_remaining ::
    "'w os_send \<Rightarrow> 'w \<Rightarrow> session \<Rightarrow> nat \<Rightarrow> nat \<Rightarrow> u8 list \<Rightarrow> ('w \<times> session \<times> scrc_status) option" where
  "send_remaining os_send w s full_blocks tail buf = do {
     let block_bytes = full_blocks * SENDBUFSZ;
     (w, status) \<leftarrow> (if full_blocks \<noteq> 0 then send_block os_send w (client_fd s) (take block_bytes buf) else Some (w, SCRS_OK));
     if status \<noteq> SCRS_OK then Some (w, s, status)
     else Some (w, s\<lparr>send_buf := write_at (send_buf s) 0 (take tail (drop block_bytes buf)), send_buf_idx := tail\<rparr>, SCRS_OK) }"

definition session_send :: "'w os_send \<Rightarrow> 'w \<Rightarrow> session \<Rightarrow> u8 list \<Rightarrow> ('w \<times> session \<times> scrc_status) option" where
  "session_send os_send w s buf = (let idx = send_buf_idx s; len = length buf in
     if SENDBUFSZ \<le> idx + len then
       let head = SENDBUFSZ - idx; remaining = len - head;
           full_blocks = remaining div SENDBUFSZ; tail = remaining mod SENDBUFSZ in
       if 0 < idx then do {
         let s = s\<lparr>send_buf := write_at (send_buf s) idx (take head buf)\<rparr>;
         (w, status) \<leftarrow> send_block os_send w (client_fd s) (take SENDBUFSZ (send_buf s));
         if status \<noteq> SCRS_OK then Some (w, s, status) else send_remaining os_send w s full_blocks tail (drop head buf) }
       else send_remaining os_send w s full_blocks tail buf
     else Some (w, s\<lparr>send_buf := write_at (send_buf s) idx buf, send_buf_idx := idx + len\<rparr>, SCRS_OK))"

definition session_flush :: "'w os_send \<Rightarrow> 'w \<Rightarrow> session \<Rightarrow> ('w \<times> session \<times> scrc_status) option" where
  "session_flush os_send w s = (if send_buf_idx s \<noteq> 0 then do {
       (w, status) \<leftarrow> send_block os_send w (client_fd s) (take (send_buf_idx s) (send_buf s));
       Some (w, if status \<noteq> SCRC_OK then s else s\<lparr>send_buf_idx := 0\<rparr>, status) }
     else Some (w, s, SCRS_OK))"

section \<open>Response headers\<close>

text \<open>The calls one after another, up to the first that fails.\<close>

fun session_sends :: "'w os_send \<Rightarrow> 'w \<Rightarrow> session \<Rightarrow> u8 list list \<Rightarrow> ('w \<times> session \<times> scrc_status) option" where
  "session_sends os_send w s [] = Some (w, s, SCRS_OK)"
| "session_sends os_send w s (b # bs) = do {
     (w, s, ret) \<leftarrow> session_send os_send w s b;
     if ret \<noteq> SCRS_OK then Some (w, s, ret) else session_sends os_send w s bs }"

definition session_send_header_str ::
    "'w os_send \<Rightarrow> 'w \<Rightarrow> session \<Rightarrow> u8 list \<Rightarrow> u8 list \<Rightarrow> ('w \<times> session \<times> scrc_status) option" where
  "session_send_header_str os_send w s name value = session_sends os_send w s [name, ascii '': '', value, [10]]"

text \<open>The conversion \<open>%lli\<close> of snprintf; its result is shorter than the buffer.\<close>

fun decimal :: "nat \<Rightarrow> u8 list" where
  "decimal n = (if n < 10 then [48 + of_nat n] else decimal (n div 10) @ [48 + of_nat (n mod 10)])"

declare decimal.simps [simp del]

definition print_lli :: "i64 \<Rightarrow> u8 list" where
  "print_lli v = (if sint v < 0 then 45 # decimal (nat (- sint v)) else decimal (nat (sint v)))"

definition session_send_header_int ::
    "'w os_send \<Rightarrow> 'w \<Rightarrow> session \<Rightarrow> u8 list \<Rightarrow> i64 \<Rightarrow> ('w \<times> session \<times> scrc_status) option" where
  "session_send_header_int os_send w s name value = session_send_header_str os_send w s name (print_lli value)"

definition session_finish_header :: "'w os_send \<Rightarrow> 'w \<Rightarrow> session \<Rightarrow> ('w \<times> session \<times> scrc_status) option" where
  "session_finish_header os_send w s = session_send os_send w s [36, 36, 10]"

text \<open>The values of the enumeration.\<close>

definition scrc_statuses :: "scrc_status list" where
  "scrc_statuses = [SCRC_OK, SCRC_END, SCRC_BAD_ALLOC, SCRC_NO_HOST, SCRC_UNKNOWN_HOST, SCRC_INCORRECT_PORT,
     SCRC_NO_USER, SCRC_SOCKET_ERROR, SCRC_CONNECTION_ERROR, SCRC_CONNECTION_CLOSED, SCRC_SEND_ERROR,
     SCRC_RECV_ERROR, SCRC_PROTOCOL_ERROR, SCRC_HEADER_ERROR, SCRC_HEADER_TOO_LARGE, SCRC_UNKNOWN_COMMAND,
     SCRC_BUFFER_OVERFLOW, SCRC_INCORRECT_PARAM, SCRC_OUT_OF_RANGE]"

definition scrs_statuses :: "scrc_status list" where
  "scrs_statuses = [SCRS_NO_USER, SCRS_PARSER_ERROR, SCRS_PARSER_MEMORY_EXHAUSTION, SCRS_UNKNOWN_PARSER_ERROR,
     SCRS_SEND_ERROR, SCRS_SESSION_CLOSED, SCRS_UNKNOWN_CATALOG, SCRS_UNKNOWN_RELATION, SCRS_UNKNOWN_COLUMN,
     SCRS_BAD_ALLOC, SCRS_DATUM_TYPE_MISMATCH, SCRS_SEQUENCE_OVERFLOW, SCRS_BYTECODE_STACK_OVERFLOW,
     SCRS_BYTECODE_UNBALANCED_STACK, SCRS_BYTECODE_UNKNOWN_ERROR, SCRS_TRANSACTION_CACHE_OVERFLOW,
     SCRS_TRANSACTION_START_ERROR, SCRS_NO_TRANSACTION, SCRS_UNKNOWN_SERVER_ERROR]"

fun index_of :: "'a list \<Rightarrow> 'a \<Rightarrow> nat option" where
  "index_of [] y = None"
| "index_of (x # xs) y = (if x = y then Some 0 else map_option Suc (index_of xs y))"

definition status_value :: "scrc_status \<Rightarrow> nat" where
  "status_value st = (case index_of scrc_statuses st of Some i \<Rightarrow> i
     | None \<Rightarrow> case index_of scrs_statuses st of Some i \<Rightarrow> 101 + i | None \<Rightarrow> 0)"

text \<open>The macro session_send_status: its calls follow each other whatever they return.\<close>

definition session_send_status :: "'w os_send \<Rightarrow> 'w \<Rightarrow> session \<Rightarrow> scrc_status \<Rightarrow> ('w \<times> session) option" where
  "session_send_status os_send w s v = do {
     (w, s, _) \<leftarrow> session_send_header_int os_send w s (ascii ''Status'') (of_nat (status_value v));
     (w, s, _) \<leftarrow> session_finish_header os_send w s;
     (w, s, _) \<leftarrow> session_flush os_send w s;
     Some (w, s) }"

text \<open>The commands of a response body.\<close>

definition SCRC_CMD_TABHEADER :: u32 where "SCRC_CMD_TABHEADER = 1"
definition SCRC_CMD_TABDATA :: u32 where "SCRC_CMD_TABDATA = 2"
definition SCRC_CMD_ROW :: u32 where "SCRC_CMD_ROW = 3"
definition SCRC_CMD_END :: u32 where "SCRC_CMD_END = 4"

end
