(* ===== verification/Scr_Execute.thy ===== *)
theory Scr_Execute
  imports Scr_Session Scr_Like
begin

text \<open>
  The actions of \<^verbatim>\<open>src/scrs/execute.y\<close>: expressions, and what SELECT and DELETE do
  with the rows of their table and send to the client. The parser itself is generated; an
  expression is the tree of its productions, and the loop of the bytecode over the rows is
  a loop over the iterator. An action that aborts the parser yields the status it sends
  first (\<open>Inl\<close>).
\<close>

section \<open>Expressions\<close>

datatype arith_op = OP_ADD | OP_SUB | OP_CONCAT | OP_MUL | OP_DIV | OP_MOD
datatype cmp_op = OP_EQ | OP_NE | OP_LT | OP_LE | OP_GT | OP_GE | OP_LIKE | OP_NOT_LIKE

datatype aexpr =
    Value datum
  | Paren expr
  | Arith arith_op aexpr aexpr
and expr =
    Test aexpr
  | Cmp cmp_op aexpr aexpr
  | In aexpr "datum list"
  | NotIn aexpr "datum list"
  | Between aexpr aexpr aexpr
  | NotBetween aexpr aexpr aexpr
  | Not expr
  | And expr expr
  | Or expr expr

type_synonym 'a exec = "(scrc_status + 'a) option"

definition exec_bind :: "'a exec \<Rightarrow> ('a \<Rightarrow> 'b exec) \<Rightarrow> 'b exec" where
  "exec_bind m f = (case m of None \<Rightarrow> None | Some (Inl e) \<Rightarrow> Some (Inl e) | Some (Inr x) \<Rightarrow> f x)"

text \<open>The macros check_op, check_arithmetical and check_lexical, and a result that is not an abort.\<close>

definition check_that :: "bool \<Rightarrow> 'a exec \<Rightarrow> 'a exec" where
  "check_that ok m = (if ok then m else Some (Inl SCRS_DATUM_TYPE_MISMATCH))"

definition result :: "'a option \<Rightarrow> 'a exec" where
  "result m = map_option Inr m"

text \<open>
  The search for a column; \<open>Some None\<close> is no column of that name. The loop calls
  htable_get_column until it returns NULL, which fails an assert when no slot of the header
  is free.
\<close>

partial_function (option) find_id :: "hgrid \<Rightarrow> u8 list \<Rightarrow> u16 \<Rightarrow> u16 option option" where
  "find_id h name i = Option.bind (grid_get_row h i) (\<lambda>r. case r of
     None \<Rightarrow> Some None
   | Some k \<Rightarrow> if cstring (col_name (g_rows h ! k)) = name then Some (Some i) else find_id h name (i + 1))"

declare find_id.simps [code]

text \<open>A name that is not found stays what it is, the default of the parser generator.\<close>

definition eval_value :: "store \<Rightarrow> titor \<Rightarrow> datum \<Rightarrow> datum option" where
  "eval_value s t d = (if dt_type d = T_NAME then do {
       valid \<leftarrow> titor_is_valid s t;
       if \<not> valid then Some d
       else do {
         hg \<leftarrow> m_header (t_m t);
         h \<leftarrow> st_h s hg;
         name \<leftarrow> dt_chars d;
         i \<leftarrow> find_id h name 0;
         (case i of None \<Rightarrow> Some d | Some i \<Rightarrow> titor_get_datum s t i) } }
     else Some d)"

fun eval_values :: "store \<Rightarrow> titor \<Rightarrow> datum list \<Rightarrow> datum list option" where
  "eval_values s t [] = Some []"
| "eval_values s t (d # ds) = do { v \<leftarrow> eval_value s t d; vs \<leftarrow> eval_values s t ds; Some (v # vs) }"

fun in_list :: "datum \<Rightarrow> datum list \<Rightarrow> bool exec" where
  "in_list d [] = Some (Inr False)"
| "in_list d (v # vs) = check_that (data_comparable d v)
     (exec_bind (result (eq_data d v)) (\<lambda>found. if found then Some (Inr True) else in_list d vs))"

fun arith :: "arith_op \<Rightarrow> datum \<Rightarrow> datum \<Rightarrow> datum exec" where
  "arith OP_ADD a b = check_that (data_arithmetical a b) (result (add_data a b))"
| "arith OP_SUB a b = check_that (data_arithmetical a b) (result (sub_data a b))"
| "arith OP_CONCAT a b = check_that (data_lexical a b) (result (cat_data a b))"
| "arith OP_MUL a b = check_that (data_arithmetical a b) (result (mul_data a b))"
| "arith OP_DIV a b = check_that (data_arithmetical a b) (result (div_data a b))"
| "arith OP_MOD a b = check_that (get_type_group (dt_type a) = TG_INTEGER \<and> get_type_group (dt_type b) = TG_INTEGER)
     (result (mod_data a b))"

fun compare_data :: "cmp_op \<Rightarrow> datum \<Rightarrow> datum \<Rightarrow> bool exec" where
  "compare_data OP_EQ a b = check_that (data_comparable a b) (result (eq_data a b))"
| "compare_data OP_NE a b = check_that (data_comparable a b) (result (ne_data a b))"
| "compare_data OP_LT a b = check_that (data_comparable a b) (result (lt_data a b))"
| "compare_data OP_LE a b = check_that (data_comparable a b) (result (le_data a b))"
| "compare_data OP_GT a b = check_that (data_comparable a b) (result (gt_data a b))"
| "compare_data OP_GE a b = check_that (data_comparable a b) (result (ge_data a b))"
| "compare_data OP_LIKE a b = check_that (data_lexical a b) (result (like_data a b))"
| "compare_data OP_NOT_LIKE a b = check_that (data_lexical a b) (result (map_option HOL.Not (like_data a b)))"

definition between :: "datum \<Rightarrow> datum \<Rightarrow> datum \<Rightarrow> bool exec" where
  "between v a b = check_that (data_arithmetical v a) (check_that (data_arithmetical v b)
     (exec_bind (result (ge_data v a)) (\<lambda>ge. if ge then result (le_data v b) else Some (Inr False))))"

text \<open>
  All operands are evaluated, those of AND and OR too; NOT BETWEEN has the action of BETWEEN.
\<close>

fun eval_aexpr :: "store \<Rightarrow> titor \<Rightarrow> aexpr \<Rightarrow> datum exec"
  and eval_expr :: "store \<Rightarrow> titor \<Rightarrow> expr \<Rightarrow> bool exec" where
  "eval_aexpr s t (Value d) = result (eval_value s t d)"
| "eval_aexpr s t (Paren e) = exec_bind (eval_expr s t e) (\<lambda>b. Some (Inr (make_bigint (if b then 1 else 0))))"
| "eval_aexpr s t (Arith f a b) = exec_bind (eval_aexpr s t a) (\<lambda>x. exec_bind (eval_aexpr s t b) (arith f x))"
| "eval_expr s t (Test a) = exec_bind (eval_aexpr s t a) (\<lambda>x. result (map_option HOL.Not (datum_zeroed x)))"
| "eval_expr s t (Cmp f a b) = exec_bind (eval_aexpr s t a) (\<lambda>x. exec_bind (eval_aexpr s t b) (compare_data f x))"
| "eval_expr s t (In a vs) = exec_bind (eval_aexpr s t a) (\<lambda>x. exec_bind (result (eval_values s t vs)) (in_list x))"
| "eval_expr s t (NotIn a vs) = exec_bind (eval_aexpr s t a) (\<lambda>x. exec_bind (result (eval_values s t vs)) (\<lambda>vs.
     exec_bind (in_list x vs) (\<lambda>found. Some (Inr (\<not> found)))))"
| "eval_expr s t (Between a b c) = exec_bind (eval_aexpr s t a) (\<lambda>x. exec_bind (eval_aexpr s t b) (\<lambda>y.
     exec_bind (eval_aexpr s t c) (between x y)))"
| "eval_expr s t (NotBetween a b c) = exec_bind (eval_aexpr s t a) (\<lambda>x. exec_bind (eval_aexpr s t b) (\<lambda>y.
     exec_bind (eval_aexpr s t c) (between x y)))"
| "eval_expr s t (Not e) = exec_bind (eval_expr s t e) (\<lambda>b. Some (Inr (\<not> b)))"
| "eval_expr s t (And e f) = exec_bind (eval_expr s t e) (\<lambda>a. exec_bind (eval_expr s t f) (\<lambda>b. Some (Inr (a \<and> b))))"
| "eval_expr s t (Or e f) = exec_bind (eval_expr s t e) (\<lambda>a. exec_bind (eval_expr s t f) (\<lambda>b. Some (Inr (a \<or> b))))"

text \<open>The WHERE part of a statement: no expression selects every row.\<close>

definition eval_where :: "store \<Rightarrow> titor \<Rightarrow> expr option \<Rightarrow> bool exec" where
  "eval_where s t e = (case e of None \<Rightarrow> Some (Inr True) | Some e \<Rightarrow> eval_expr s t e)"

section \<open>Sending a table\<close>

text \<open>The calls one after the other, whatever they return.\<close>

fun send_each :: "'w os_send \<Rightarrow> 'w \<Rightarrow> session \<Rightarrow> u8 list list \<Rightarrow> ('w \<times> session) option" where
  "send_each os_send w s [] = Some (w, s)"
| "send_each os_send w s (b # bs) = do { (w, s, _) \<leftarrow> session_send os_send w s b; send_each os_send w s bs }"

text \<open>A Column in memory; \<open>pad\<close> are the six bytes between \<open>type\<close> and \<open>size\<close>.\<close>

fun type_value :: "sql_type \<Rightarrow> 16 word" where
  "type_value T_UNKNOWN = 0" | "type_value T_NAME = 1" | "type_value T_SMALLINT = 2" | "type_value T_INTEGER = 3"
| "type_value T_BIGINT = 4" | "type_value T_CHAR = 5" | "type_value T_VARCHAR = 6" | "type_value T_MAX = 7"

definition column_bytes :: "u8 list \<Rightarrow> column \<Rightarrow> u8 list" where
  "column_bytes pad c = col_name c @ le_bytes 8 (col_offs c) @ le_bytes 2 (type_value (col_type c)) @ pad @ le_bytes 8 (col_size c)"

definition column_chunks :: "u8 list \<Rightarrow> column \<Rightarrow> u8 list list" where
  "column_chunks pad c = [le_bytes 4 SCRC_CMD_ROW, le_bytes 8 (40 :: u64), column_bytes pad c]"

text \<open>The names of the system columns begin with an asterisk.\<close>

definition column_hidden :: "column \<Rightarrow> bool" where
  "column_hidden c \<longleftrightarrow> col_name c ! 0 = 42"

partial_function (option) send_columns ::
    "'w os_send \<Rightarrow> u8 list \<Rightarrow> hgrid \<Rightarrow> 'w \<Rightarrow> session \<Rightarrow> u16 \<Rightarrow> ('w \<times> session) option" where
  "send_columns os_send pad h w s i = Option.bind (grid_get_row h i) (\<lambda>r. case r of
     None \<Rightarrow> Some (w, s)
   | Some k \<Rightarrow> let c = g_rows h ! k in
       if column_hidden c then send_columns os_send pad h w s (i + 1)
       else Option.bind (send_each os_send w s (column_chunks pad c)) (\<lambda>(w, s). send_columns os_send pad h w s (i + 1)))"

declare send_columns.simps [code]

definition select_head :: "'w os_send \<Rightarrow> u8 list \<Rightarrow> hgrid \<Rightarrow> 'w \<Rightarrow> session \<Rightarrow> ('w \<times> session) option" where
  "select_head os_send pad h w s = do {
     (w, s, _) \<leftarrow> session_send_header_int os_send w s (ascii ''Status'') (of_nat (status_value SCRC_OK));
     (w, s, _) \<leftarrow> session_send_header_str os_send w s (ascii ''Body'') (ascii ''Yes'');
     (w, s, _) \<leftarrow> session_finish_header os_send w s;
     (w, s) \<leftarrow> send_each os_send w s [le_bytes 4 SCRC_CMD_TABHEADER];
     (w, s) \<leftarrow> send_columns os_send pad h w s 0;
     send_each os_send w s [le_bytes 4 SCRC_CMD_END, le_bytes 4 SCRC_CMD_TABDATA] }"

text \<open>The row behind the iterator, and its size.\<close>

definition titor_get_row :: "store \<Rightarrow> titor \<Rightarrow> u8 list option" where
  "titor_get_row s t = do {
     g \<leftarrow> m_data (t_m t);
     d \<leftarrow> st_d s g;
     r \<leftarrow> grid_get_row d (m_row (t_m t));
     i \<leftarrow> r;
     Some (g_rows d ! i) }"

definition titor_get_row_size :: "store \<Rightarrow> titor \<Rightarrow> u64 option" where
  "titor_get_row_size s t = do { hg \<leftarrow> m_header (t_m t); h \<leftarrow> st_h s hg; Some (hgrid_get_row_size h) }"

definition row_chunks :: "u64 \<Rightarrow> u8 list \<Rightarrow> u8 list list option" where
  "row_chunks sz r = (if unat sz \<le> length r then Some [le_bytes 4 SCRC_CMD_ROW, le_bytes 8 sz, take (unat sz) r] else None)"

definition send_row :: "'w os_send \<Rightarrow> store \<Rightarrow> titor \<Rightarrow> 'w \<Rightarrow> session \<Rightarrow> ('w \<times> session) option" where
  "send_row os_send st t w s = do {
     sz \<leftarrow> titor_get_row_size st t;
     r \<leftarrow> titor_get_row st t;
     bs \<leftarrow> row_chunks sz r;
     send_each os_send w s bs }"

text \<open>The loops of select_mb_where; \<open>Inl\<close> is the status of an aborted expression.\<close>

partial_function (option) select_rows ::
    "'w os_send \<Rightarrow> tran_page \<Rightarrow> store \<Rightarrow> expr option \<Rightarrow> titor \<Rightarrow> 'w \<Rightarrow> session \<Rightarrow> ('w \<times> session \<times> scrc_status) option" where
  "select_rows os_send tp st e t w s = Option.bind (titor_is_valid st t) (\<lambda>valid.
     if \<not> valid then Some (w, s, SCRS_OK)
     else Option.bind (eval_where st t e) (\<lambda>r. case r of
       Inl status \<Rightarrow> Some (w, s, status)
     | Inr b \<Rightarrow> Option.bind (if b then send_row os_send st t w s else Some (w, s)) (\<lambda>(w, s).
         Option.bind (titor_next tp st t) (\<lambda>t. select_rows os_send tp st e t w s))))"

declare select_rows.simps [code]

definition select_tail :: "'w os_send \<Rightarrow> 'w \<Rightarrow> session \<Rightarrow> ('w \<times> session) option" where
  "select_tail os_send w s = do {
     (w, s) \<leftarrow> send_each os_send w s [le_bytes 4 SCRC_CMD_END];
     (w, s, _) \<leftarrow> session_flush os_send w s;
     Some (w, s) }"

section \<open>Statements\<close>

text \<open>
  The statements return 1 where the parser fails, for which execute_cmd sends
  SCRS_PARSER_ERROR. With a WHERE part and no row to look at the loop of the bytecode is
  skipped, and nothing follows the token WHERE: a syntax error.
\<close>

definition exec_select ::
    "'w os_send \<Rightarrow> u8 list \<Rightarrow> server_sys \<Rightarrow> u8 list \<Rightarrow> u8 list \<Rightarrow> u8 list list \<Rightarrow> expr option \<Rightarrow> db \<Rightarrow> sess \<Rightarrow> 'w \<Rightarrow> session \<Rightarrow>
     (db \<times> sess \<times> 'w \<times> session \<times> nat) option" where
  "exec_select os_send pad sys schema table names e d ss w s = do {
     (d, ss, res, t) \<leftarrow> dml_select sys ss d schema table names;
     if res \<noteq> SCRS_OK then do {
       (w, s) \<leftarrow> session_send_status os_send w s res;
       if e \<noteq> None then Some (d, ss, w, s, 1)
       else do { (w, s) \<leftarrow> select_tail os_send w s; Some (d, ss, w, s, 0) } }
     else do {
       t \<leftarrow> t;
       hg \<leftarrow> m_header (t_m t);
       h \<leftarrow> st_h (db_store d) hg;
       (w, s) \<leftarrow> select_head os_send pad h w s;
       valid \<leftarrow> titor_is_valid (db_store d) t;
       if e \<noteq> None \<and> \<not> valid then Some (d, ss, w, s, 1)
       else do {
         (w, s, status) \<leftarrow> select_rows os_send (db_tran d) (db_store d) e t w s;
         if status \<noteq> SCRS_OK then do {
           (w, s) \<leftarrow> session_send_status os_send w s status;
           Some (d, ss, w, s, 1) }
         else do { (w, s) \<leftarrow> select_tail os_send w s; Some (d, ss, w, s, 0) } } } }"

partial_function (option) delete_rows :: "sess \<Rightarrow> db \<Rightarrow> titor \<Rightarrow> (db \<times> scrc_status) option" where
  "delete_rows ss d t = Option.bind (titor_is_valid (db_store d) t) (\<lambda>valid.
     if \<not> valid then Some (d, SCRS_OK)
     else Option.bind (dml_delete_row ss d t) (\<lambda>(d, status).
       if status \<noteq> SCRS_OK then Some (d, status)
       else Option.bind (titor_next (db_tran d) (db_store d) t) (\<lambda>t. delete_rows ss d t)))"

declare delete_rows.simps [code]

text \<open>
  With a WHERE part the loop is that of the bytecode: the parser reads the token after the
  expression, which moves the iterator \<open>bt\<close> of the bytecode on, before the action deletes
  the row of the iterator \<open>t\<close> of the command.
\<close>

definition delete_line :: "sess \<Rightarrow> db \<Rightarrow> titor \<Rightarrow> bool \<Rightarrow> (db \<times> titor \<times> scrc_status) option" where
  "delete_line ss d t b = Option.bind (titor_is_valid (db_store d) t) (\<lambda>valid.
     if \<not> valid then Some (d, t, SCRS_OK)
     else Option.bind (if b then dml_delete_row ss d t else Some (d, SCRS_OK)) (\<lambda>(d, status).
       if status \<noteq> SCRS_OK then Some (d, t, status)
       else Option.bind (titor_next (db_tran d) (db_store d) t) (\<lambda>t. Some (d, t, SCRS_OK))))"

partial_function (option) delete_where :: "expr \<Rightarrow> sess \<Rightarrow> db \<Rightarrow> titor \<Rightarrow> titor \<Rightarrow> (db \<times> scrc_status) option" where
  "delete_where e ss d t bt = Option.bind (eval_expr (db_store d) t e) (\<lambda>r. case r of
     Inl status \<Rightarrow> Some (d, status)
   | Inr b \<Rightarrow> Option.bind (titor_next (db_tran d) (db_store d) bt) (\<lambda>bt.
       Option.bind (titor_is_valid (db_store d) bt) (\<lambda>more.
       Option.bind (delete_line ss d t b) (\<lambda>(d, t, status).
         if status \<noteq> SCRS_OK \<or> \<not> more then Some (d, status) else delete_where e ss d t bt))))"

declare delete_where.simps [code]

definition exec_delete ::
    "'w os_send \<Rightarrow> server_sys \<Rightarrow> u8 list \<Rightarrow> u8 list \<Rightarrow> expr option \<Rightarrow> db \<Rightarrow> sess \<Rightarrow> 'w \<Rightarrow> session \<Rightarrow>
     (db \<times> sess \<times> 'w \<times> session \<times> nat) option" where
  "exec_delete os_send sys schema table e d ss w s = do {
     (d, ss, res, t) \<leftarrow> dml_delete sys ss d schema table;
     if res \<noteq> SCRS_OK then do {
       (w, s) \<leftarrow> session_send_status os_send w s res;
       if e \<noteq> None then Some (d, ss, w, s, 1)
       else do { (w, s) \<leftarrow> session_send_status os_send w s SCRS_OK; Some (d, ss, w, s, 0) } }
     else do {
       t \<leftarrow> t;
       valid \<leftarrow> titor_is_valid (db_store d) t;
       if e \<noteq> None \<and> \<not> valid then Some (d, ss, w, s, 1)
       else do {
         (d, status) \<leftarrow> (case e of None \<Rightarrow> delete_rows ss d t | Some e \<Rightarrow> delete_where e ss d t t);
         (w, s) \<leftarrow> session_send_status os_send w s status;
         Some (d, ss, w, s, if status \<noteq> SCRS_OK then 1 else 0) } } }"

end
