(* ===== verification/Scr_Query.thy ===== *)
theory Scr_Query
  imports Scr_Bc Scr_Execute
begin

text \<open>
  The SQL front end: the actions of \<^verbatim>\<open>src/scrs/hquery.y\<close>, which put the
  tokens of a statement one after the other, the productions of
  \<^verbatim>\<open>src/scrs/execute.y\<close> as derivations of token lists, and the helpers of
  \<^verbatim>\<open>hquery.l\<close>. Both parsers are generated; a statement is the tree of its
  productions.
\<close>

section \<open>Statements as hquery.y has them\<close>

text \<open>A list of at least one value, name or declaration is its first element and the others.\<close>

datatype y1_value = VINTEGER i64 | VSTRING "u8 list" | VID "u8 list"

datatype y1_primary =
    P_value y1_value
  | P_paren y1_or
and y1_mul =
    M_primary y1_primary
  | M_mul y1_mul y1_primary
  | M_div y1_mul y1_primary
  | M_mod y1_mul y1_primary
and y1_add =
    A_mul y1_mul
  | A_plus y1_add y1_mul
  | A_minus y1_add y1_mul
  | A_concat y1_add y1_mul
and y1_cmp =
    C_add y1_add
  | C_eq y1_add y1_add
  | C_ne y1_add y1_add
  | C_lt y1_add y1_add
  | C_le y1_add y1_add
  | C_gt y1_add y1_add
  | C_ge y1_add y1_add
  | C_like y1_add y1_add
  | C_in y1_add y1_value "y1_value list"
  | C_between y1_add y1_add y1_add
  | C_not_in y1_add y1_value "y1_value list"
  | C_not_like y1_add y1_add
  | C_not_between y1_add y1_add y1_add
and y1_not =
    N_cmp y1_cmp
  | N_not y1_not
and y1_and =
    D_not y1_not
  | D_and y1_and y1_not
and y1_or =
    O_and y1_and
  | O_or y1_or y1_and

datatype y1_type = SMALLINT | INTEGER | BIGINT | CHARACTER i64 | K_CHAR i64

datatype y1_cmd =
    CREATE_USER "u8 list"
  | CREATE_CATALOG "u8 list"
  | CREATE_SCHEMA "u8 list"
  | CREATE_TABLE "u8 list" "u8 list" "u8 list \<times> y1_type" "(u8 list \<times> y1_type) list"
  | START_TRANSACTION
  | COMMIT
  | ROLLBACK
  | INSERT "u8 list" "u8 list" "u8 list" "u8 list list" y1_value "y1_value list"
  | DELETE "u8 list" "u8 list" "y1_or option"
  | SELECT "u8 list" "u8 list list" "u8 list" "u8 list" "y1_or option"

section \<open>The tokens they put\<close>

abbreviation put :: "bc_token \<Rightarrow> bc_node" where
  "put t \<equiv> \<lparr>bn_token = t, bn_value = V_zero\<rparr>"

abbreviation put_char :: "char \<Rightarrow> bc_node" where
  "put_char c \<equiv> put (BC_CHAR c)"

definition value_datum :: "y1_value \<Rightarrow> datum" where
  "value_datum v = (case v of VINTEGER i \<Rightarrow> make_bigint i | VSTRING s \<Rightarrow> make_char s | VID s \<Rightarrow> make_name s)"

definition put_value :: "y1_value \<Rightarrow> bc_node" where
  "put_value v = \<lparr>bn_token = BC_DATUM, bn_value = V_datum (value_datum v)\<rparr>"

definition put_string :: "u8 list \<Rightarrow> bc_node" where
  "put_string s = \<lparr>bn_token = BC_STRING, bn_value = V_str s\<rparr>"

text \<open>The AND of a BETWEEN puts no token.\<close>

fun put_primary :: "y1_primary \<Rightarrow> bc_node list"
  and put_mul :: "y1_mul \<Rightarrow> bc_node list"
  and put_add :: "y1_add \<Rightarrow> bc_node list"
  and put_cmp :: "y1_cmp \<Rightarrow> bc_node list"
  and put_not :: "y1_not \<Rightarrow> bc_node list"
  and put_and :: "y1_and \<Rightarrow> bc_node list"
  and put_or :: "y1_or \<Rightarrow> bc_node list" where
  "put_primary (P_value v) = [put_value v]"
| "put_primary (P_paren e) = [put_char CHR ''(''] @ put_or e @ [put_char CHR '')'']"
| "put_mul (M_primary p) = put_primary p"
| "put_mul (M_mul m p) = put_mul m @ [put_char CHR ''*''] @ put_primary p"
| "put_mul (M_div m p) = put_mul m @ [put_char CHR ''/''] @ put_primary p"
| "put_mul (M_mod m p) = put_mul m @ [put_char CHR ''%''] @ put_primary p"
| "put_add (A_mul m) = put_mul m"
| "put_add (A_plus a m) = put_add a @ [put_char CHR ''+''] @ put_mul m"
| "put_add (A_minus a m) = put_add a @ [put_char CHR ''-''] @ put_mul m"
| "put_add (A_concat a m) = put_add a @ [put BC_CONCAT] @ put_mul m"
| "put_cmp (C_add a) = put_add a"
| "put_cmp (C_eq a b) = put_add a @ [put_char CHR ''=''] @ put_add b"
| "put_cmp (C_ne a b) = put_add a @ [put BC_NE] @ put_add b"
| "put_cmp (C_lt a b) = put_add a @ [put_char CHR ''<''] @ put_add b"
| "put_cmp (C_le a b) = put_add a @ [put BC_LE] @ put_add b"
| "put_cmp (C_gt a b) = put_add a @ [put_char CHR ''>''] @ put_add b"
| "put_cmp (C_ge a b) = put_add a @ [put BC_GE] @ put_add b"
| "put_cmp (C_like a b) = put_add a @ [put BC_LIKE] @ put_add b"
| "put_cmp (C_in a v vs) = put_add a @ [put BC_IN, put_char CHR ''(''] @ map put_value (v # vs) @ [put_char CHR '')'']"
| "put_cmp (C_between a b c) = put_add a @ [put BC_BETWEEN] @ put_add b @ put_add c"
| "put_cmp (C_not_in a v vs) = put_add a @ [put BC_NOT_IN, put_char CHR ''(''] @ map put_value (v # vs) @ [put_char CHR '')'']"
| "put_cmp (C_not_like a b) = put_add a @ [put BC_NOT_LIKE] @ put_add b"
| "put_cmp (C_not_between a b c) = put_add a @ [put BC_NOT_BETWEEN] @ put_add b @ put_add c"
| "put_not (N_cmp c) = put_cmp c"
| "put_not (N_not n) = [put BC_NOT] @ put_not n"
| "put_and (D_not n) = put_not n"
| "put_and (D_and a n) = put_and a @ [put BC_AND] @ put_not n"
| "put_or (O_and a) = put_and a"
| "put_or (O_or o' a) = put_or o' @ [put BC_OR] @ put_and a"

definition type_decl :: "y1_type \<Rightarrow> u64 \<times> sql_type" where
  "type_decl t = (case t of SMALLINT \<Rightarrow> (0, T_SMALLINT) | INTEGER \<Rightarrow> (0, T_INTEGER) | BIGINT \<Rightarrow> (0, T_BIGINT)
     | CHARACTER n \<Rightarrow> (n, T_CHAR) | K_CHAR n \<Rightarrow> (n, T_CHAR))"

definition put_decl :: "u8 list \<times> y1_type \<Rightarrow> bc_node list" where
  "put_decl d = [\<lparr>bn_token = BC_SIZE_T, bn_value = V_size (fst (type_decl (snd d)))\<rparr>,
     \<lparr>bn_token = BC_TYPE, bn_value = V_type (snd (type_decl (snd d)))\<rparr>, put_string (fst d)]"

definition put_mb_where :: "y1_or option \<Rightarrow> bc_node list" where
  "put_mb_where e = (case e of None \<Rightarrow> [] | Some e \<Rightarrow> [put BC_WHERE, put BC_LOOP_BEGIN] @ put_or e @ [put BC_LOOP_END])"

text \<open>
  Without a catalog in the session CREATE SCHEMA puts nothing, and CREATE TABLE only its
  declarations.
\<close>

fun put_cmd :: "u8 list option \<Rightarrow> y1_cmd \<Rightarrow> bc_node list" where
  "put_cmd cat (CREATE_USER u) = [put BC_CREATE, put BC_USER, put_string u]"
| "put_cmd cat (CREATE_CATALOG c) = [put BC_CREATE, put BC_CATALOG, put_string c]"
| "put_cmd cat (CREATE_SCHEMA s) = (if cat = None then [] else [put BC_CREATE, put BC_SCHEMA, put_string s])"
| "put_cmd cat (CREATE_TABLE s t d decls) =
     (if cat = None then [] else [put BC_CREATE, put BC_TABLE, put_string s, put_string t, put BC_ARRAY_BEGIN]) @
     concat (map put_decl (d # decls)) @ (if cat = None then [] else [put BC_ARRAY_END])"
| "put_cmd cat START_TRANSACTION = [put BC_START_TRAN]"
| "put_cmd cat COMMIT = [put BC_COMMIT]"
| "put_cmd cat ROLLBACK = [put BC_ROLLBACK]"
| "put_cmd cat (INSERT s t i ids v vs) = [put BC_INSERT, put_string s, put_string t, put BC_ARRAY_BEGIN] @ map put_string (i # ids) @
     [put BC_ARRAY_END, put BC_ARRAY_BEGIN] @ map put_value (v # vs) @ [put BC_ARRAY_END]"
| "put_cmd cat (DELETE s t e) = [put BC_DELETE, put_string s, put_string t] @ put_mb_where e"
| "put_cmd cat (SELECT i ids s t e) = [put BC_SELECT, put BC_ARRAY_BEGIN] @ map put_string (i # ids) @
     [put BC_ARRAY_END, put_string s, put_string t] @ put_mb_where e"

section \<open>The productions of execute.y\<close>

text \<open>A token with its value, as y2lex returns them.\<close>

type_synonym y2_token = "bc_token \<times> y2stype"

definition mul_op :: "bc_token \<Rightarrow> arith_op option" where
  "mul_op t = (if t = BC_CHAR CHR ''*'' then Some OP_MUL else if t = BC_CHAR CHR ''/'' then Some OP_DIV
     else if t = BC_CHAR CHR ''%'' then Some OP_MOD else None)"

definition add_op :: "bc_token \<Rightarrow> arith_op option" where
  "add_op t = (if t = BC_CHAR CHR ''+'' then Some OP_ADD else if t = BC_CHAR CHR ''-'' then Some OP_SUB
     else if t = BC_CONCAT then Some OP_CONCAT else None)"

definition cmp_token :: "bc_token \<Rightarrow> cmp_op option" where
  "cmp_token t = (if t = BC_CHAR CHR ''='' then Some OP_EQ else if t = BC_NE then Some OP_NE
     else if t = BC_CHAR CHR ''<'' then Some OP_LT else if t = BC_LE then Some OP_LE
     else if t = BC_CHAR CHR ''>'' then Some OP_GT else if t = BC_GE then Some OP_GE
     else if t = BC_LIKE then Some OP_LIKE else if t = BC_NOT_LIKE then Some OP_NOT_LIKE else None)"

inductive y2_values :: "y2_token list \<Rightarrow> datum list \<Rightarrow> bool" where
  values_one: "y2_values [(BC_DATUM, V_datum d)] [d]"
| values_more: "y2_values xs ds \<Longrightarrow> y2_values (xs @ [(BC_DATUM, V_datum d)]) (ds @ [d])"

inductive y2_atom :: "y2_token list \<Rightarrow> aexpr \<Rightarrow> bool"
  and y2_mul :: "y2_token list \<Rightarrow> aexpr \<Rightarrow> bool"
  and y2_add :: "y2_token list \<Rightarrow> aexpr \<Rightarrow> bool"
  and y2_cmp :: "y2_token list \<Rightarrow> expr \<Rightarrow> bool"
  and y2_not :: "y2_token list \<Rightarrow> expr \<Rightarrow> bool"
  and y2_and :: "y2_token list \<Rightarrow> expr \<Rightarrow> bool"
  and y2_or :: "y2_token list \<Rightarrow> expr \<Rightarrow> bool" where
  atom_value: "y2_atom [(BC_DATUM, V_datum d)] (Value d)"
| atom_paren: "y2_or xs e \<Longrightarrow> y2_atom ((BC_CHAR CHR ''('', v) # xs @ [(BC_CHAR CHR '')'', w)]) (Paren e)"
| mul_atom: "y2_atom xs a \<Longrightarrow> y2_mul xs a"
| mul_step: "y2_mul xs a \<Longrightarrow> mul_op t = Some f \<Longrightarrow> y2_atom ys b \<Longrightarrow> y2_mul (xs @ (t, v) # ys) (Arith f a b)"
| add_mul: "y2_mul xs a \<Longrightarrow> y2_add xs a"
| add_step: "y2_add xs a \<Longrightarrow> add_op t = Some f \<Longrightarrow> y2_mul ys b \<Longrightarrow> y2_add (xs @ (t, v) # ys) (Arith f a b)"
| cmp_test: "y2_add xs a \<Longrightarrow> y2_cmp xs (Test a)"
| cmp_op: "y2_add xs a \<Longrightarrow> cmp_token t = Some f \<Longrightarrow> y2_add ys b \<Longrightarrow> y2_cmp (xs @ (t, v) # ys) (Cmp f a b)"
| cmp_in: "y2_add xs a \<Longrightarrow> y2_values ys ds \<Longrightarrow>
    y2_cmp (xs @ (BC_IN, v) # (BC_CHAR CHR ''('', v') # ys @ [(BC_CHAR CHR '')'', w)]) (In a ds)"
| cmp_between: "y2_add xs a \<Longrightarrow> y2_add ys b \<Longrightarrow> y2_add zs c \<Longrightarrow> y2_cmp (xs @ (BC_BETWEEN, v) # ys @ zs) (Between a b c)"
| cmp_not_in: "y2_add xs a \<Longrightarrow> y2_values ys ds \<Longrightarrow>
    y2_cmp (xs @ (BC_NOT_IN, v) # (BC_CHAR CHR ''('', v') # ys @ [(BC_CHAR CHR '')'', w)]) (NotIn a ds)"
| cmp_not_between: "y2_add xs a \<Longrightarrow> y2_add ys b \<Longrightarrow> y2_add zs c \<Longrightarrow>
    y2_cmp (xs @ (BC_NOT_BETWEEN, v) # ys @ zs) (NotBetween a b c)"
| not_cmp: "y2_cmp xs e \<Longrightarrow> y2_not xs e"
| not_step: "y2_not xs e \<Longrightarrow> y2_not ((BC_NOT, v) # xs) (Not e)"
| and_not: "y2_not xs e \<Longrightarrow> y2_and xs e"
| and_step: "y2_and xs e \<Longrightarrow> y2_not ys f \<Longrightarrow> y2_and (xs @ (BC_AND, v) # ys) (And e f)"
| or_and: "y2_and xs e \<Longrightarrow> y2_or xs e"
| or_step: "y2_or xs e \<Longrightarrow> y2_and ys f \<Longrightarrow> y2_or (xs @ (BC_OR, v) # ys) (Or e f)"

text \<open>The expressions behind WHERE, one for each pass of the loop.\<close>

inductive y2_lines :: "y2_token list \<Rightarrow> expr list \<Rightarrow> bool" where
  lines_one: "y2_or xs e \<Longrightarrow> y2_lines xs [e]"
| lines_more: "y2_lines xs es \<Longrightarrow> y2_or ys e \<Longrightarrow> y2_lines (xs @ ys) (es @ [e])"

inductive y2_mb_where :: "y2_token list \<Rightarrow> expr list option \<Rightarrow> bool" where
  where_none: "y2_mb_where [] None"
| where_lines: "y2_lines xs es \<Longrightarrow> y2_mb_where ((BC_WHERE, v) # xs) (Some es)"

inductive y2_strings :: "y2_token list \<Rightarrow> u8 list list \<Rightarrow> bool" where
  strings_one: "y2_strings [(BC_STRING, V_str s)] [s]"
| strings_more: "y2_strings xs ss \<Longrightarrow> y2_strings (xs @ [(BC_STRING, V_str s)]) (ss @ [s])"

inductive y2_decls :: "y2_token list \<Rightarrow> decl list \<Rightarrow> bool" where
  decls_one: "y2_decls [(BC_SIZE_T, V_size n), (BC_TYPE, V_type t), (BC_STRING, V_str s)] [\<lparr>dc_name = s, dc_size = n, dc_type = t\<rparr>]"
| decls_more: "y2_decls xs ds \<Longrightarrow> y2_decls (xs @ [(BC_SIZE_T, V_size n), (BC_TYPE, V_type t), (BC_STRING, V_str s)])
    (ds @ [\<lparr>dc_name = s, dc_size = n, dc_type = t\<rparr>])"

text \<open>The calls that the actions of a statement make.\<close>

datatype y2_stmt =
    Call_create_user "u8 list"
  | Call_create_catalog "u8 list"
  | Call_create_schema "u8 list"
  | Call_create_table "u8 list" "u8 list" "decl list"
  | Call_start | Call_commit | Call_rollback
  | Call_insert "u8 list" "u8 list" "u8 list list" "datum list"
  | Call_delete "u8 list" "u8 list" "expr list option"
  | Call_select "u8 list list" "u8 list" "u8 list" "expr list option"

inductive y2_cmd :: "y2_token list \<Rightarrow> y2_stmt \<Rightarrow> bool" where
  cmd_user: "y2_cmd [(BC_CREATE, v), (BC_USER, w), (BC_STRING, V_str u)] (Call_create_user u)"
| cmd_catalog: "y2_cmd [(BC_CREATE, v), (BC_CATALOG, w), (BC_STRING, V_str c)] (Call_create_catalog c)"
| cmd_schema: "y2_cmd [(BC_CREATE, v), (BC_SCHEMA, w), (BC_STRING, V_str s)] (Call_create_schema s)"
| cmd_table: "y2_decls xs ds \<Longrightarrow> y2_cmd ([(BC_CREATE, v), (BC_TABLE, w), (BC_STRING, V_str s), (BC_STRING, V_str t), (BC_ARRAY_BEGIN, x)] @
    xs @ [(BC_ARRAY_END, y)]) (Call_create_table s t ds)"
| cmd_start: "y2_cmd [(BC_START_TRAN, v)] Call_start"
| cmd_commit: "y2_cmd [(BC_COMMIT, v)] Call_commit"
| cmd_rollback: "y2_cmd [(BC_ROLLBACK, v)] Call_rollback"
| cmd_insert: "y2_strings xs ids \<Longrightarrow> y2_values ys ds \<Longrightarrow>
    y2_cmd ([(BC_INSERT, v), (BC_STRING, V_str s), (BC_STRING, V_str t), (BC_ARRAY_BEGIN, w)] @ xs @
      [(BC_ARRAY_END, x), (BC_ARRAY_BEGIN, y)] @ ys @ [(BC_ARRAY_END, z)]) (Call_insert s t ids ds)"
| cmd_delete: "y2_mb_where xs e \<Longrightarrow> y2_cmd ([(BC_DELETE, v), (BC_STRING, V_str s), (BC_STRING, V_str t)] @ xs) (Call_delete s t e)"
| cmd_select: "y2_strings xs ids \<Longrightarrow> y2_mb_where ys e \<Longrightarrow>
    y2_cmd ([(BC_SELECT, v), (BC_ARRAY_BEGIN, w)] @ xs @ [(BC_ARRAY_END, x), (BC_STRING, V_str s), (BC_STRING, V_str t)] @ ys)
      (Call_select ids s t e)"

end
