(* ===== verification/Scr_Bc_Laws.thy ===== *)
theory Scr_Bc_Laws
  imports Scr_Bc Scr_Table_Laws
begin

text \<open>
  Linked bytecode: bc_prepare ties the ends of every loop together, or reports that loops
  are nested too deep, and y2lex then reads the body of a loop once for each row that the
  iterator visits.
\<close>

section \<open>Structured bytecode\<close>

text \<open>Tokens with properly nested loops; a loop has the values of its ends, its body and what follows.\<close>

datatype code = Done | Step bc_node code | Loop y2stype code y2stype code

abbreviation loop_begin :: "y2stype \<Rightarrow> bc_node" where
  "loop_begin v \<equiv> \<lparr>bn_token = BC_LOOP_BEGIN, bn_value = v\<rparr>"

abbreviation loop_end :: "y2stype \<Rightarrow> bc_node" where
  "loop_end v \<equiv> \<lparr>bn_token = BC_LOOP_END, bn_value = v\<rparr>"

definition plain :: "bc_node \<Rightarrow> bool" where
  "plain n \<longleftrightarrow> bn_token n \<noteq> BC_LOOP_BEGIN \<and> bn_token n \<noteq> BC_LOOP_END"

fun code_plain :: "code \<Rightarrow> bool" where
  "code_plain Done \<longleftrightarrow> True"
| "code_plain (Step n c) \<longleftrightarrow> plain n \<and> code_plain c"
| "code_plain (Loop v b w c) \<longleftrightarrow> code_plain b \<and> code_plain c"

fun code_depth :: "code \<Rightarrow> nat" where
  "code_depth Done = 0"
| "code_depth (Step n c) = code_depth c"
| "code_depth (Loop v b w c) = max (Suc (code_depth b)) (code_depth c)"

fun code_nodes :: "code \<Rightarrow> bc_node list" where
  "code_nodes Done = []"
| "code_nodes (Step n c) = n # code_nodes c"
| "code_nodes (Loop v b w c) = loop_begin v # code_nodes b @ loop_end w # code_nodes c"

text \<open>The same tokens with their loops linked, when the first one has index \<open>k\<close>.\<close>

fun code_linked :: "nat \<Rightarrow> code \<Rightarrow> bc_node list" where
  "code_linked k Done = []"
| "code_linked k (Step n c) = n # code_linked (Suc k) c"
| "code_linked k (Loop v b w c) = (let e = Suc k + length (code_nodes b) in
     loop_begin (V_integer (of_nat (Suc e))) # code_linked (Suc k) b @ loop_end (V_integer (of_nat k)) # code_linked (Suc e) c)"

lemma length_code_linked [simp]: "length (code_linked k c) = length (code_nodes c)"
  by (induction c arbitrary: k) (simp_all add: Let_def)

section \<open>Linking\<close>

abbreviation (input) with_elems :: "bc_node array \<Rightarrow> bc_node list \<Rightarrow> bc_node array option" where
  "with_elems a es \<equiv> Some (a\<lparr>arr_elems := es\<rparr>)"

lemma token_at_middle: "length xs < 2 ^ 64 \<Longrightarrow> token_at (with_elems a (xs @ n # ys)) (of_nat (length xs)) = Some n"
  by (simp add: token_at_def unat_of_nat64)

lemma set_integer_middle:
  "length xs < 2 ^ 64 \<Longrightarrow> set_integer (with_elems a (xs @ n # ys)) (of_nat (length xs)) v =
     Some (with_elems a (xs @ n\<lparr>bn_value := V_integer v\<rparr> # ys))"
  by (simp add: set_integer_def unat_of_nat64)

text \<open>The indices of the loop of bc_prepare.\<close>

primrec segment :: "nat \<Rightarrow> nat \<Rightarrow> u64 list" where
  "segment k 0 = []"
| "segment k (Suc n) = of_nat k # segment (Suc k) n"

lemma segment_upt: "map of_nat [k..<k + n] = segment k n"
proof (induction n arbitrary: k)
  case (Suc n)
  then show ?case by (subst upt_conv_Cons) (simp_all add: Suc.IH[of "Suc k", simplified])
qed simp

lemma segment_append: "segment k (m + n) = segment k m @ segment (k + m) n"
  by (induction m arbitrary: k) simp_all

lemma bc_link_code:
  "code_plain c \<Longrightarrow> length xs + length (code_nodes c) < 2 ^ 64 \<Longrightarrow> length stk + code_depth c \<le> STACKSZ \<Longrightarrow>
   bc_link (segment (length xs) (length (code_nodes c)) @ idxs) (with_elems a (xs @ code_nodes c @ ys)) stk =
   bc_link idxs (with_elems a (xs @ code_linked (length xs) c @ ys)) stk"
proof (induction c arbitrary: xs ys stk idxs)
  case Done
  then show ?case by simp
next
  case (Step n c)
  have "bc_link (segment (length (xs @ [n])) (length (code_nodes c)) @ idxs) (with_elems a ((xs @ [n]) @ code_nodes c @ ys)) stk =
     bc_link idxs (with_elems a ((xs @ [n]) @ code_linked (length (xs @ [n])) c @ ys)) stk"
    by (rule Step.IH) (use Step.prems in simp_all)
  moreover have "token_at (with_elems a (xs @ n # code_nodes c @ ys)) (of_nat (length xs)) = Some n"
    by (rule token_at_middle) (use Step.prems in simp)
  ultimately show ?case using Step.prems(1) by (simp add: plain_def)
next
  case (Loop v b w c)
  let ?k = "length xs" and ?nb = "length (code_nodes b)" and ?nc = "length (code_nodes c)"
  let ?e = "Suc ?k + ?nb"
  let ?is = "segment (Suc ?e) ?nc @ idxs"
  have idx: "segment ?k (length (code_nodes (Loop v b w c))) @ idxs = of_nat ?k # segment (Suc ?k) ?nb @ of_nat ?e # ?is"
    using segment_append[of "Suc ?k" ?nb "Suc ?nc"] by simp
  have "token_at (with_elems a (xs @ loop_begin v # code_nodes b @ loop_end w # code_nodes c @ ys)) (of_nat ?k) = Some (loop_begin v)"
    by (rule token_at_middle) (use Loop.prems in simp)
  moreover have "length stk \<noteq> STACKSZ" using Loop.prems(3) by simp
  ultimately have s1: "bc_link (segment ?k (length (code_nodes (Loop v b w c))) @ idxs) (with_elems a (xs @ code_nodes (Loop v b w c) @ ys)) stk =
      bc_link (segment (Suc ?k) ?nb @ of_nat ?e # ?is)
        (with_elems a (xs @ loop_begin v # code_nodes b @ loop_end w # code_nodes c @ ys)) (of_nat ?k # stk)"
    unfolding idx by simp
  let ?b = "code_linked (Suc ?k) b"
  have "bc_link (segment (length (xs @ [loop_begin v])) ?nb @ of_nat ?e # ?is)
        (with_elems a ((xs @ [loop_begin v]) @ code_nodes b @ loop_end w # code_nodes c @ ys)) (of_nat ?k # stk) =
      bc_link (of_nat ?e # ?is) (with_elems a ((xs @ [loop_begin v]) @ code_linked (length (xs @ [loop_begin v])) b @ loop_end w # code_nodes c @ ys))
        (of_nat ?k # stk)"
    by (rule Loop.IH(1)) (use Loop.prems in simp_all)
  then have s2: "bc_link (segment (Suc ?k) ?nb @ of_nat ?e # ?is)
        (with_elems a (xs @ loop_begin v # code_nodes b @ loop_end w # code_nodes c @ ys)) (of_nat ?k # stk) =
      bc_link (of_nat ?e # ?is) (with_elems a (xs @ loop_begin v # ?b @ loop_end w # code_nodes c @ ys)) (of_nat ?k # stk)"
    by simp
  let ?lb = "loop_begin (V_integer (of_nat (Suc ?e)))" and ?le = "loop_end (V_integer (of_nat ?k))"
  have t: "token_at (with_elems a ((xs @ loop_begin v # ?b) @ loop_end w # code_nodes c @ ys)) (of_nat (length (xs @ loop_begin v # ?b))) =
      Some (loop_end w)"
    by (rule token_at_middle) (use Loop.prems in simp)
  have i1: "set_integer (with_elems a (xs @ loop_begin v # (?b @ loop_end w # code_nodes c @ ys))) (of_nat ?k) (of_nat (Suc ?e)) =
      Some (with_elems a (xs @ (loop_begin v)\<lparr>bn_value := V_integer (of_nat (Suc ?e))\<rparr> # (?b @ loop_end w # code_nodes c @ ys)))"
    by (rule set_integer_middle) (use Loop.prems in simp)
  have i2: "set_integer (with_elems a ((xs @ ?lb # ?b) @ loop_end w # code_nodes c @ ys)) (of_nat (length (xs @ ?lb # ?b))) (of_nat ?k) =
      Some (with_elems a ((xs @ ?lb # ?b) @ (loop_end w)\<lparr>bn_value := V_integer (of_nat ?k)\<rparr> # code_nodes c @ ys))"
    by (rule set_integer_middle) (use Loop.prems in simp)
  have s3: "bc_link (of_nat ?e # ?is) (with_elems a (xs @ loop_begin v # ?b @ loop_end w # code_nodes c @ ys)) (of_nat ?k # stk) =
      bc_link ?is (with_elems a (xs @ ?lb # ?b @ ?le # code_nodes c @ ys)) stk"
    using t i1 i2 by (simp add: add.commute)
  have "bc_link (segment (length (xs @ ?lb # ?b @ [?le])) ?nc @ idxs) (with_elems a ((xs @ ?lb # ?b @ [?le]) @ code_nodes c @ ys)) stk =
      bc_link idxs (with_elems a ((xs @ ?lb # ?b @ [?le]) @ code_linked (length (xs @ ?lb # ?b @ [?le])) c @ ys)) stk"
    by (rule Loop.IH(2)) (use Loop.prems in simp_all)
  then have s4: "bc_link ?is (with_elems a (xs @ ?lb # ?b @ ?le # code_nodes c @ ys)) stk =
      bc_link idxs (with_elems a (xs @ code_linked ?k (Loop v b w c) @ ys)) stk"
    by (simp add: Let_def)
  show ?case unfolding s1 s2 s3 s4 ..
qed

lemma bc_link_too_deep:
  "code_plain c \<Longrightarrow> length xs + length (code_nodes c) < 2 ^ 64 \<Longrightarrow> length stk \<le> STACKSZ \<Longrightarrow> STACKSZ < length stk + code_depth c \<Longrightarrow>
   \<exists>a'. bc_link (segment (length xs) (length (code_nodes c)) @ idxs) (with_elems a (xs @ code_nodes c @ ys)) stk = Some (a', 1)"
proof (induction c arbitrary: xs ys stk idxs)
  case Done
  then show ?case by simp
next
  case (Step n c)
  have "\<exists>a'. bc_link (segment (length (xs @ [n])) (length (code_nodes c)) @ idxs) (with_elems a ((xs @ [n]) @ code_nodes c @ ys)) stk = Some (a', 1)"
    by (rule Step.IH) (use Step.prems in simp_all)
  moreover have "token_at (with_elems a (xs @ n # code_nodes c @ ys)) (of_nat (length xs)) = Some n"
    by (rule token_at_middle) (use Step.prems in simp)
  ultimately show ?case using Step.prems(1) by (simp add: plain_def)
next
  case (Loop v b w c)
  let ?k = "length xs" and ?nb = "length (code_nodes b)" and ?nc = "length (code_nodes c)"
  have idx: "segment ?k (length (code_nodes (Loop v b w c))) @ idxs =
      of_nat ?k # segment (Suc ?k) ?nb @ of_nat (Suc ?k + ?nb) # segment (Suc (Suc ?k + ?nb)) ?nc @ idxs"
    using segment_append[of "Suc ?k" ?nb "Suc ?nc"] by simp
  have t: "token_at (with_elems a (xs @ loop_begin v # code_nodes b @ loop_end w # code_nodes c @ ys)) (of_nat ?k) = Some (loop_begin v)"
    by (rule token_at_middle) (use Loop.prems in simp)
  show ?case
  proof (cases "STACKSZ < length (of_nat ?k # stk) + code_depth b")
    case True
    show ?thesis
    proof (cases "length stk = STACKSZ")
      case True
      then show ?thesis unfolding idx using t by simp
    next
      case False
      have "\<exists>a'. bc_link (segment (length (xs @ [loop_begin v])) ?nb @ of_nat (Suc ?k + ?nb) # segment (Suc (Suc ?k + ?nb)) ?nc @ idxs)
          (with_elems a ((xs @ [loop_begin v]) @ code_nodes b @ loop_end w # code_nodes c @ ys)) (of_nat ?k # stk) = Some (a', 1)"
        by (rule Loop.IH(1)) (use Loop.prems False True in simp_all)
      then show ?thesis unfolding idx using t False by simp
    qed
  next
    case False
    let ?c = "Loop v b w Done"
    have i2: "segment ?k (length (code_nodes (Loop v b w c))) @ idxs =
        segment ?k (length (code_nodes ?c)) @ segment (?k + length (code_nodes ?c)) ?nc @ idxs"
      using segment_append[of ?k "length (code_nodes ?c)" ?nc] by simp
    have n2: "xs @ code_nodes (Loop v b w c) @ ys = xs @ code_nodes ?c @ code_nodes c @ ys" by simp
    have "bc_link (segment ?k (length (code_nodes ?c)) @ segment (?k + length (code_nodes ?c)) ?nc @ idxs)
        (with_elems a (xs @ code_nodes ?c @ code_nodes c @ ys)) stk =
      bc_link (segment (?k + length (code_nodes ?c)) ?nc @ idxs) (with_elems a (xs @ code_linked ?k ?c @ code_nodes c @ ys)) stk"
      by (rule bc_link_code) (use Loop.prems False in simp_all)
    moreover have "\<exists>a'. bc_link (segment (length (xs @ code_linked ?k ?c)) ?nc @ idxs)
        (with_elems a ((xs @ code_linked ?k ?c) @ code_nodes c @ ys)) stk = Some (a', 1)"
      by (rule Loop.IH(2)) (use Loop.prems False in auto)
    ultimately show ?thesis unfolding i2 n2 by simp
  qed
qed

text \<open>The tokens of a bytecode, in an array whose elements are all there.\<close>

definition bc_holds :: "bc \<Rightarrow> bc_node list \<Rightarrow> bool" where
  "bc_holds bc ns \<longleftrightarrow> array_view (bc_tokens bc) = ns \<and> array_size (bc_tokens bc) = of_nat (length ns) \<and> length ns < 2 ^ 64"

lemma bc_holdsE:
  assumes "bc_holds bc ns" "ns \<noteq> []"
  obtains a ys where "bc_tokens bc = with_elems a (ns @ ys)" "unat (arr_size a) = length ns"
proof -
  obtain a where a: "bc_tokens bc = Some a" using assms by (cases "bc_tokens bc") (auto simp: bc_holds_def array_view_def)
  then have u: "unat (arr_size a) = length ns" using assms(1) by (simp add: bc_holds_def array_size_def unat_of_nat64)
  let ?ys = "drop (length ns) (arr_elems a)"
  have "take (length ns) (arr_elems a) = ns" using assms(1) a u by (simp add: bc_holds_def array_view_def)
  then have e: "arr_elems a = ns @ ?ys" using append_take_drop_id[of "length ns" "arr_elems a"] by simp
  have "a\<lparr>arr_elems := ns @ ?ys\<rparr> = a" unfolding e[symmetric] by simp
  then have "bc_tokens bc = with_elems a (ns @ ?ys)" using a by simp
  then show thesis using u by (rule that)
qed

lemma bc_holds_elems:
  assumes "length ns = unat (arr_size a)" "bc_tokens bc = with_elems a (ns @ ys)"
  shows "bc_holds bc ns"
proof -
  have "unat (arr_size a) < 2 ^ 64" by (rule order_less_le_trans[OF unsigned_less]) simp
  moreover have "arr_size a = of_nat (unat (arr_size a))" by simp
  ultimately show ?thesis unfolding bc_holds_def assms by (simp add: array_view_def array_size_def unat_of_nat64 flip: assms(1))
qed

lemma bc_prepare_linked:
  assumes "bc_holds bc (code_nodes c)" and "code_plain c"
  shows "\<exists>a. bc_prepare bc = Some (bc\<lparr>bc_tokens := a\<rparr>, if code_depth c \<le> 64 then 0 else 1) \<and>
    (code_depth c \<le> 64 \<longrightarrow> bc_holds (bc\<lparr>bc_tokens := a\<rparr>) (code_linked 0 c))"
proof (cases "code_nodes c = []")
  case True
  then have "c = Done" by (cases c) simp_all
  then show ?thesis using assms(1)
    by (intro exI[of _ "bc_tokens bc"]) (simp add: bc_prepare_def bc_holds_def)
next
  case False
  let ?n = "length (code_nodes c)"
  obtain a ys where a: "bc_tokens bc = with_elems a (code_nodes c @ ys)" "unat (arr_size a) = ?n"
    by (rule bc_holdsE[OF assms(1) False])
  have sz: "length ([] :: bc_node list) + ?n < 2 ^ 64" using assms(1) by (simp add: bc_holds_def)
  have idx: "map of_nat [0..<unat (array_size (bc_tokens bc))] = segment 0 ?n"
    using a segment_upt[of 0 ?n] by (simp add: array_size_def)
  show ?thesis
  proof (cases "code_depth c \<le> 64")
    case True
    have "bc_link (segment 0 ?n) (bc_tokens bc) [] = Some (with_elems a (code_linked 0 c @ ys), 0)"
      using bc_link_code[where xs = "[]" and stk = "[]" and c = c and ys = ys and a = a and idxs = "[]"] assms(2) sz True a(1) by (simp add: STACKSZ_def)
    moreover have "bc_holds (bc\<lparr>bc_tokens := with_elems a (code_linked 0 c @ ys)\<rparr>) (code_linked 0 c)"
      by (rule bc_holds_elems[where a = a and ys = ys]) (simp_all add: a(2))
    ultimately show ?thesis using True idx by (auto simp: bc_prepare_def)
  next
    case deep: False
    then show ?thesis
      using bc_link_too_deep[where xs = "[]" and stk = "[]" and c = c and ys = ys and a = a and idxs = "[]"] assms(2) sz a(1) idx by (auto simp: bc_prepare_def STACKSZ_def)
  qed
qed

text \<open>
  C26: For properly nested tokens bc_prepare returns 0 and links every loop, its begin to the
  token behind its end and its end to its begin, changing nothing else, exactly when loops
  nest at most 64 deep; deeper nesting makes it return 1.
\<close>

theorem bc_prepare_links:
  assumes "bc_holds bc (code_nodes c)" and "code_plain c"
  shows "\<exists>a. bc_prepare bc = Some (bc\<lparr>bc_tokens := a\<rparr>, if code_depth c \<le> 64 then 0 else 1) \<and>
    (code_depth c \<le> 64 \<longrightarrow> bc_holds (bc\<lparr>bc_tokens := a\<rparr>) (code_linked 0 c))"
  using assms by (rule bc_prepare_linked)

section \<open>Reading\<close>

text \<open>All tokens that y2lex returns until the end of input, over tables that stay as they are.\<close>

partial_function (option) y2lex_all :: "tran_page \<Rightarrow> store \<Rightarrow> bc \<Rightarrow> (bc_token \<times> y2stype) list option" where
  "y2lex_all tp s bc = Option.bind (y2lex tp s bc) (\<lambda>(bc, r). case r of
     None \<Rightarrow> Some []
   | Some x \<Rightarrow> Option.bind (y2lex_all tp s bc) (\<lambda>xs. Some (x # xs)))"

definition tok :: "bc_node \<Rightarrow> bc_token \<times> y2stype" where
  "tok n = (bn_token n, bn_value n)"

definition lex_state :: "bc \<Rightarrow> nat \<Rightarrow> titor \<Rightarrow> bc" where
  "lex_state bc i t = bc\<lparr>bc_itor := of_nat i, bc_titor := t\<rparr>"

lemma lex_state_simps [simp]:
  "bc_itor (lex_state bc i t) = of_nat i" "bc_titor (lex_state bc i t) = t" "bc_tokens (lex_state bc i t) = bc_tokens bc"
  "(lex_state bc i t)\<lparr>bc_titor := t'\<rparr> = lex_state bc i t'" "(lex_state bc i t)\<lparr>bc_itor := of_nat k\<rparr> = lex_state bc k t"
  "(lex_state bc i t)\<lparr>bc_itor := 1 + of_nat k\<rparr> = lex_state bc (Suc k) t"
  "(lex_state bc i t)\<lparr>bc_itor := 2 + of_nat k\<rparr> = lex_state bc (Suc (Suc k)) t"
  by (simp_all add: lex_state_def)

definition lexed :: "tran_page \<Rightarrow> store \<Rightarrow> bc \<Rightarrow> nat \<Rightarrow> titor \<Rightarrow> (bc_token \<times> y2stype) list option" where
  "lexed tp s bc i t = y2lex_all tp s (lex_state bc i t)"

definition lex_rest :: "tran_page \<Rightarrow> store \<Rightarrow> bc \<times> (bc_token \<times> y2stype) option \<Rightarrow> (bc_token \<times> y2stype) list option" where
  "lex_rest tp s = (\<lambda>(bc, r). case r of None \<Rightarrow> Some [] | Some x \<Rightarrow> Option.bind (y2lex_all tp s bc) (\<lambda>xs. Some (x # xs)))"

lemma lexed_step: "lexed tp s bc i t = Option.bind (y2lex tp s (lex_state bc i t)) (lex_rest tp s)"
  unfolding lexed_def lex_rest_def by (rule y2lex_all.simps)

lemma bc_holds_at:
  assumes "bc_holds bc ns" "i < length ns"
  shows "token_at (bc_tokens bc) (of_nat i) = Some (ns ! i)" "of_nat i \<noteq> array_size (bc_tokens bc)"
proof -
  have "ns \<noteq> []" using assms(2) by auto
  then obtain a ys where a: "bc_tokens bc = with_elems a (ns @ ys)" by (rule bc_holdsE[OF assms(1)])
  have l: "i < 2 ^ 64" "length ns < 2 ^ 64" using assms by (simp_all add: bc_holds_def)
  then show "token_at (bc_tokens bc) (of_nat i) = Some (ns ! i)"
    using a assms(2) by (simp add: token_at_def unat_of_nat64 nth_append)
  have "of_nat i \<noteq> (of_nat (length ns) :: u64)"
  proof
    assume "of_nat i = (of_nat (length ns) :: u64)"
    then have "unat (of_nat i :: u64) = unat (of_nat (length ns) :: u64)" by (rule arg_cong)
    then show False using l assms(2) unat_of_nat64[of i] unat_of_nat64[of "length ns"] by linarith
  qed
  then show "of_nat i \<noteq> array_size (bc_tokens bc)" using assms(1) by (simp add: bc_holds_def)
qed

lemma lexed_end:
  assumes "bc_holds bc ns"
  shows "lexed tp s bc (length ns) t = Some []"
  using assms by (simp add: lexed_step bc_holds_def y2lex_def lex_rest_def)

lemma lexed_plain:
  assumes "bc_holds bc ns" "i < length ns" "plain (ns ! i)"
  shows "lexed tp s bc i t = Option.bind (lexed tp s bc (Suc i) t) (\<lambda>xs. Some (tok (ns ! i) # xs))"
  unfolding lexed_step[of tp s bc i] using bc_holds_at[OF assms(1,2)] assms(3)
  by (simp add: y2lex_def lex_at_def plain_def tok_def lex_rest_def lexed_def add.commute)

lemma lexed_from:
  assumes "bc_holds bc (xs @ seg @ ys)" "\<forall>n \<in> set seg. plain n"
  shows "lexed tp s bc (length xs) t = map_option (append (map tok seg)) (lexed tp s bc (length xs + length seg) t)"
  using assms
proof (induction seg arbitrary: xs)
  case Nil
  then show ?case by (cases "lexed tp s bc (length xs) t") simp_all
next
  case (Cons n seg)
  have "lexed tp s bc (length xs) t = Option.bind (lexed tp s bc (Suc (length xs)) t) (\<lambda>ts. Some (tok n # ts))"
    using lexed_plain[OF Cons.prems(1), of "length xs"] Cons.prems(2) by simp
  moreover have "lexed tp s bc (length (xs @ [n])) t =
      map_option (append (map tok seg)) (lexed tp s bc (length (xs @ [n]) + length seg) t)"
    by (rule Cons.IH) (use Cons.prems in simp_all)
  ultimately show ?case by (cases "lexed tp s bc (Suc (length xs + length seg)) t") simp_all
qed

lemma lexed_tail:
  assumes "bc_holds bc ns" "ns = xs @ seg" "\<forall>n \<in> set seg. plain n" "k = length xs"
  shows "lexed tp s bc k t = Some (map tok seg)"
  using lexed_from[where bc = bc and xs = xs and seg = seg and ys = "[]" and tp = tp and s = s and t = t] lexed_end[of bc "xs @ seg" tp s t]
    assms by simp

text \<open>A jump to a place with a plain token, or to the end, is reading on from that place.\<close>

definition lands :: "bc_node list \<Rightarrow> nat \<Rightarrow> bool" where
  "lands ns i \<longleftrightarrow> i \<le> length ns \<and> (i < length ns \<longrightarrow> plain (ns ! i))"

lemma lex_or_end_lands:
  assumes "bc_holds bc ns" "lands ns i"
  shows "Option.bind (lex_or_end (lex_state bc j t) (of_nat i)) (lex_rest tp s) = lexed tp s bc i t"
proof (cases "i < length ns")
  case True
  then show ?thesis
    using bc_holds_at[OF assms(1) True] lexed_plain[OF assms(1) True, of tp s t] assms(2)
    by (simp add: lands_def lex_or_end_def lex_at_def tok_def lexed_def lex_rest_def add.commute)
next
  case False
  then have i: "i = length ns" using assms(2) by (simp add: lands_def)
  show ?thesis unfolding i lexed_end[OF assms(1)] using assms(1) by (simp add: lex_or_end_def bc_holds_def lex_rest_def)
qed

lemma lexed_loop_begin:
  assumes "bc_holds bc ns" "i < length ns" "ns ! i = loop_begin (V_integer (of_nat e))" "titor_is_valid s t = Some valid"
    and "lands ns (if valid then Suc i else e)"
  shows "lexed tp s bc i t = lexed tp s bc (if valid then Suc i else e) t"
proof -
  have "y2lex tp s (lex_state bc i t) = lex_or_end (lex_state bc i t) (of_nat (if valid then Suc i else e))"
    using bc_holds_at[OF assms(1,2)] assms(3,4) by (simp add: y2lex_def value_integer_def add.commute)
  then show ?thesis using lex_or_end_lands[OF assms(1,5)] by (simp add: lexed_step[of tp s bc i])
qed

lemma lexed_loop_end:
  assumes "bc_holds bc ns" "i < length ns" "ns ! i = loop_end (V_integer (of_nat b))"
    and "titor_next tp s t = Some t'" "titor_is_valid s t' = Some valid"
    and "lands ns (if valid then Suc b else Suc i)" "Suc b < length ns"
  shows "lexed tp s bc i t = lexed tp s bc (if valid then Suc b else Suc i) t'"
proof -
  have b: "of_nat (Suc b) \<noteq> array_size (bc_tokens (lex_state bc i t'))" using bc_holds_at(2)[OF assms(1,7)] by simp
  have "y2lex tp s (lex_state bc i t) = lex_or_end (lex_state bc i t') (of_nat (if valid then Suc b else Suc i))"
    using bc_holds_at[OF assms(1,2)] assms(3-5) b by (simp add: y2lex_def value_integer_def lex_or_end_def add.commute)
  then show ?thesis using lex_or_end_lands[OF assms(1,6)] by (simp add: lexed_step[of tp s bc i])
qed

text \<open>The shape of a statement with a WHERE part.\<close>

definition where_code :: "bc_node list \<Rightarrow> y2stype \<Rightarrow> bc_node list \<Rightarrow> y2stype \<Rightarrow> bc_node list \<Rightarrow> code" where
  "where_code xs v body w ys = foldr Step xs (Loop v (foldr Step body Done) w (foldr Step ys Done))"

lemma steps_code:
  "code_plain (foldr Step xs c) \<longleftrightarrow> (\<forall>n \<in> set xs. plain n) \<and> code_plain c" "code_depth (foldr Step xs c) = code_depth c"
  "code_nodes (foldr Step xs c) = xs @ code_nodes c" "code_linked k (foldr Step xs c) = xs @ code_linked (k + length xs) c"
  by (induction xs arbitrary: k) auto

lemma titor_collect_cases:
  assumes "titor_collect tp s t = Some ps"
  shows "ps = [] \<Longrightarrow> titor_is_valid s t = Some False"
    "ps = p # ps' \<Longrightarrow> titor_is_valid s t = Some True \<and> (\<exists>t'. titor_next tp s t = Some t' \<and> titor_collect tp s t' = Some ps')"
  using assms by (subst (asm) titor_collect.simps; auto split: bind_splits if_splits)+

lemma lexed_loop:
  assumes ns: "bc_holds bc (xs @ loop_begin (V_integer (of_nat (Suc (Suc (length xs + length body))))) # body @
      loop_end (V_integer (of_nat (length xs))) # ys)"
    and body: "\<forall>n \<in> set body. plain n" "body \<noteq> []" and ys: "\<forall>n \<in> set ys. plain n"
  shows "titor_collect tp s t = Some ps \<Longrightarrow> ps \<noteq> [] \<Longrightarrow>
    lexed tp s bc (Suc (length xs)) t = Some (map tok (concat (replicate (length ps) body) @ ys))"
proof (induction ps arbitrary: t)
  case (Cons p ps)
  let ?ns = "xs @ loop_begin (V_integer (of_nat (Suc (Suc (length xs + length body))))) # body @
      loop_end (V_integer (of_nat (length xs))) # ys"
  let ?e = "Suc (length xs) + length body"
  obtain t' where t': "titor_next tp s t = Some t'" "titor_collect tp s t' = Some ps"
    using titor_collect_cases(2)[OF Cons.prems(1) refl] by blast
  have end': "?e < length ?ns" "?ns ! ?e = loop_end (V_integer (of_nat (length xs)))" by (simp_all add: nth_append)
  have l1: "lands ?ns (Suc (length xs))" using body by (cases body) (simp_all add: lands_def nth_append)
  have l2: "lands ?ns (Suc ?e)" using ys by (cases ys) (simp_all add: lands_def nth_append)
  have b: "Suc (length xs) < length ?ns" by simp
  have "lexed tp s bc ?e t = Some (map tok (concat (replicate (length ps) body) @ ys))"
  proof (cases ps)
    case Nil
    have v: "titor_is_valid s t' = Some False" by (rule titor_collect_cases(1)[OF t'(2) Nil])
    have "lands ?ns (if False then Suc (length xs) else Suc ?e)" using l2 by simp
    from lexed_loop_end[OF ns end' t'(1) v this b]
    have "lexed tp s bc ?e t = lexed tp s bc (Suc ?e) t'" by simp
    also have "\<dots> = Some (map tok ys)"
      by (rule lexed_tail[OF ns, of "xs @ loop_begin (V_integer (of_nat (Suc (Suc (length xs + length body))))) # body @
        [loop_end (V_integer (of_nat (length xs)))]"]) (simp_all add: ys)
    finally show ?thesis using Nil by simp
  next
    case (Cons p' ps')
    have v: "titor_is_valid s t' = Some True" using titor_collect_cases(2)[OF t'(2) Cons] by blast
    have "lands ?ns (if True then Suc (length xs) else Suc ?e)" using l1 by simp
    from lexed_loop_end[OF ns end' t'(1) v this b]
    have "lexed tp s bc ?e t = lexed tp s bc (Suc (length xs)) t'" by simp
    then show ?thesis using Cons.IH[OF t'(2)] Cons by simp
  qed
  moreover have "lexed tp s bc (Suc (length xs)) t = map_option (append (map tok body)) (lexed tp s bc ?e t)"
    using lexed_from[where xs = "xs @ [loop_begin (V_integer (of_nat (Suc (Suc (length xs + length body)))))]" and seg = body
      and ys = "loop_end (V_integer (of_nat (length xs))) # ys" and bc = bc and t = t and tp = tp and s = s] ns body by simp
  ultimately show ?case by simp
qed simp

lemma bytecode_loops:
  assumes "bc_holds bc (xs @ loop_begin v # body @ loop_end w # ys)"
    and "\<forall>n \<in> set (xs @ body @ ys). plain n" and "body \<noteq> []" and "titor_collect tp s t = Some ps" and "i \<le> length xs"
  shows "\<exists>bc'. bc_prepare bc = Some (bc', 0) \<and>
    y2lex_all tp s (bc'\<lparr>bc_itor := of_nat i, bc_titor := t\<rparr>) =
      Some (map tok (drop i xs @ concat (replicate (length ps) body) @ ys))"
proof -
  let ?c = "where_code xs v body w ys"
  let ?ns = "xs @ loop_begin (V_integer (of_nat (Suc (Suc (length xs + length body))))) # body @
      loop_end (V_integer (of_nat (length xs))) # ys"
  have c: "code_nodes ?c = xs @ loop_begin v # body @ loop_end w # ys" "code_plain ?c" "code_depth ?c \<le> 64" "code_linked 0 ?c = ?ns"
    using assms(2) by (auto simp: where_code_def steps_code Let_def add.commute)
  obtain a where a: "bc_prepare bc = Some (bc\<lparr>bc_tokens := a\<rparr>, 0)" and h: "bc_holds (bc\<lparr>bc_tokens := a\<rparr>) ?ns"
    using bc_prepare_linked[of bc ?c] assms(1) c by auto
  let ?bc = "bc\<lparr>bc_tokens := a\<rparr>"
  have body: "\<forall>n \<in> set body. plain n" and ys: "\<forall>n \<in> set ys. plain n" using assms(2) by simp_all
  have "lexed tp s ?bc (length xs) t = Some (map tok (concat (replicate (length ps) body) @ ys))"
  proof (cases ps)
    case Nil
    have v: "titor_is_valid s t = Some False" by (rule titor_collect_cases(1)[OF assms(4) Nil])
    let ?e = "Suc (Suc (length xs + length body))"
    have "lands ?ns ?e" using ys by (cases ys) (simp_all add: lands_def nth_append)
    then have "lexed tp s ?bc (length xs) t = lexed tp s ?bc ?e t"
      using lexed_loop_begin[OF h _ _ v, of "length xs" ?e] by simp
    also have "\<dots> = Some (map tok ys)"
      by (rule lexed_tail[OF h, of "xs @ loop_begin (V_integer (of_nat (Suc (Suc (length xs + length body))))) # body @
        [loop_end (V_integer (of_nat (length xs)))]"]) (simp_all add: ys)
    finally show ?thesis using Nil by simp
  next
    case (Cons p ps')
    have v: "titor_is_valid s t = Some True" using titor_collect_cases(2)[OF assms(4) Cons] by blast
    have "lands ?ns (Suc (length xs))" using body assms(3) by (cases body) (simp_all add: lands_def nth_append)
    then have "lexed tp s ?bc (length xs) t = lexed tp s ?bc (Suc (length xs)) t"
      using lexed_loop_begin[OF h _ _ v, of "length xs" "Suc (Suc (length xs + length body))"] by simp
    also have "\<dots> = Some (map tok (concat (replicate (length ps) body) @ ys))"
      by (rule lexed_loop[OF h body assms(3) ys assms(4)]) (simp add: Cons)
    finally show ?thesis .
  qed
  moreover have "lexed tp s ?bc i t = map_option (append (map tok (drop i xs))) (lexed tp s ?bc (length xs) t)"
  proof -
    let ?rest = "loop_begin (V_integer (of_nat (Suc (Suc (length xs + length body))))) # body @
      loop_end (V_integer (of_nat (length xs))) # ys"
    have "take i xs @ drop i xs @ ?rest = xs @ ?rest" by (metis append_assoc append_take_drop_id)
    then have "bc_holds ?bc (take i xs @ drop i xs @ ?rest)" by (rule ssubst) (rule h)
    moreover have "\<forall>n \<in> set (drop i xs). plain n" using assms(2) by (auto dest: in_set_dropD)
    ultimately show ?thesis
      using lexed_from[where xs = "take i xs" and seg = "drop i xs" and ys = ?rest and bc = ?bc and t = t and tp = tp and s = s] assms(5)
      by simp
  qed
  ultimately have "lexed tp s ?bc i t = Some (map tok (drop i xs @ concat (replicate (length ps) body) @ ys))" by simp
  then show ?thesis using a by (auto simp: lexed_def lex_state_def)
qed

text \<open>
  C25: For a statement with one loop with a non-empty body in its bytecode, bc_prepare
  succeeds and reading tokens with y2lex comes to its end, from any place before the loop: it
  gives the tokens before the loop, the body of the loop exactly once for each row the
  iterator visits, none if there is none, and the tokens behind it.
\<close>

theorem bytecode_loops_over_rows:
  assumes "bc_holds bc (xs @ loop_begin v # body @ loop_end w # ys)"
    and "\<forall>n \<in> set (xs @ body @ ys). plain n" and "body \<noteq> []" and "titor_collect tp s t = Some ps" and "i \<le> length xs"
  shows "\<exists>bc'. bc_prepare bc = Some (bc', 0) \<and>
    y2lex_all tp s (bc'\<lparr>bc_itor := of_nat i, bc_titor := t\<rparr>) =
      Some (map tok (drop i xs @ concat (replicate (length ps) body) @ ys))"
  using assms by (rule bytecode_loops)

section \<open>Filling and resetting\<close>

text \<open>Tokens put one after the other stand in the array in their order.\<close>

fun bc_puts :: "(memory \<Rightarrow> u64 \<Rightarrow> bool) \<Rightarrow> (nat \<Rightarrow> bc_node) \<Rightarrow> memory \<Rightarrow> bc \<Rightarrow> bc_node list \<Rightarrow> (memory \<times> bc) option" where
  "bc_puts room junk m bc [] = Some (m, bc)"
| "bc_puts room junk m bc (n # ns) = Option.bind (bc_put room junk m bc n) (\<lambda>(m, bc). bc_puts room junk m bc ns)"

lemma push_then_pop:
  "context_stack_i m < CONTEXT_STACK_MAX \<Longrightarrow> length (context_stack m) = CONTEXT_STACK_MAX \<Longrightarrow>
   \<exists>m'. context_push m c = Some m' \<and> (\<exists>m''. context_pop m' = Some m'' \<and> context_stack_i m'' = context_stack_i m \<and>
     g_context m'' = g_context m \<and> m_heap m'' = m_heap m \<and> length (context_stack m'') = CONTEXT_STACK_MAX)"
  by (simp add: context_push_def context_pop_def)

lemma array_holds: "array_inv sz k a \<Longrightarrow> array_size a = of_nat (length (array_view a))"
  by (auto simp: array_inv_def array_ok_def array_view_def array_size_def split: option.splits)

lemma bc_puts_view:
  "array_inv BC_NODE_SZ k (bc_tokens bc) \<Longrightarrow> k + length ns \<le> array_limit BC_NODE_SZ \<Longrightarrow>
   context_stack_i m < CONTEXT_STACK_MAX \<Longrightarrow> length (context_stack m) = CONTEXT_STACK_MAX \<Longrightarrow>
   \<exists>m' a. bc_puts (\<lambda>_ _. True) junk m bc ns = Some (m', bc\<lparr>bc_tokens := a\<rparr>) \<and> array_inv BC_NODE_SZ (k + length ns) a \<and>
     array_view a = array_view (bc_tokens bc) @ ns \<and> g_context m' = g_context m \<and> m_heap m' = m_heap m"
proof (induction ns arbitrary: k m bc)
  case Nil
  then show ?case by (intro exI[of _ m] exI[of _ "bc_tokens bc"]) simp
next
  case (Cons n ns)
  obtain m1 m2 where m: "context_push m (bc_cont bc) = Some m1" "context_pop m1 = Some m2" "context_stack_i m2 = context_stack_i m"
    "g_context m2 = g_context m" "m_heap m2 = m_heap m" "length (context_stack m2) = CONTEXT_STACK_MAX"
    using push_then_pop[OF Cons.prems(3,4)] by blast
  obtain a where a: "array_put (\<lambda>_. True) junk BC_NODE_SZ (bc_tokens bc) n = Some (a, True)" "array_inv BC_NODE_SZ (Suc k) a"
    "array_view a = array_view (bc_tokens bc) @ [n]"
    using array_stack.put_law[OF Cons.prems(1), of junk n] Cons.prems(2) by auto
  let ?bc = "bc\<lparr>bc_tokens := a\<rparr>"
  have "\<exists>m' a'. bc_puts (\<lambda>_ _. True) junk m2 ?bc ns = Some (m', ?bc\<lparr>bc_tokens := a'\<rparr>) \<and> array_inv BC_NODE_SZ (Suc k + length ns) a' \<and>
     array_view a' = array_view (bc_tokens ?bc) @ ns \<and> g_context m' = g_context m2 \<and> m_heap m' = m_heap m2"
    by (rule Cons.IH) (use Cons.prems a(2) m in simp_all)
  then show ?case using m a by (auto simp: bc_put_def)
qed

lemma bc_puts_holds:
  assumes "length ns \<le> array_limit BC_NODE_SZ" "context_stack_i m < CONTEXT_STACK_MAX" "length (context_stack m) = CONTEXT_STACK_MAX"
    and "array_inv BC_NODE_SZ 0 (bc_tokens bc)" "array_view (bc_tokens bc) = []"
  shows "\<exists>m' a. bc_puts (\<lambda>_ _. True) junk m bc ns = Some (m', bc\<lparr>bc_tokens := a\<rparr>) \<and> bc_holds (bc\<lparr>bc_tokens := a\<rparr>) ns"
proof -
  have "array_limit BC_NODE_SZ < 2 ^ 64" by (simp add: array_limit_def BC_NODE_SZ_def)
  then show ?thesis using bc_puts_view[OF assms(4), of ns m junk] assms(1-3,5) array_holds by (fastforce simp: bc_holds_def)
qed

definition childless :: "heap \<Rightarrow> cid \<Rightarrow> bool" where
  "childless h c \<longleftrightarrow> (\<exists>b. h c = Some b \<and> ctx_magic b = memory_magic \<and> ctx_children b = replicate CONTEXT_MAX_CHILDREN None)"

lemma reset_childless:
  assumes "childless h c"
  obtains b where "h c = Some b" "bump_context_reset h c = Some (h(c \<mapsto> b\<lparr>ctx_current := context_start\<rparr>))"
proof -
  obtain b where b: "h c = Some b" "ctx_magic b = memory_magic" "ctx_children b = replicate CONTEXT_MAX_CHILDREN None"
    using assms by (auto simp: childless_def)
  have "context_reset_children h' c is = Some h'" if "\<forall>i \<in> set is. i < CONTEXT_MAX_CHILDREN" "h' c = Some (b\<lparr>ctx_current := x\<rparr>)" for h' x "is"
    using that by (induction "is") (simp_all add: b(3))
  then have "bump_context_reset h c = Some (h(c \<mapsto> b\<lparr>ctx_current := context_start\<rparr>))"
    using b(1,2) by (simp add: bump_context_reset_def)
  then show thesis using that b(1) by blast
qed

text \<open>A block that starts behind the end of the data is not valid.\<close>

lemma realloc_behind:
  assumes "h (fst p) = Some b" "ctx_current b \<le> snd p" "sz \<noteq> 0"
  shows "bump_context_realloc h c (Some p) sz = None"
  using assms by (auto simp: bump_context_realloc_def bump_pointer_valid_def bump_header_of_def Let_def split: bind_splits if_splits)

text \<open>
  cmd_reset rewinds the memory context of the bytecode but keeps the array of tokens that
  lives in it, only with size 0: the next statement that needs more tokens than the array
  holds makes realloc meet a block behind the end of the data, a failed assert.
\<close>

lemma reset_keeps_stale_tokens:
  assumes "h0 c1 = Some b0" "bump_rep c1 b0 bs" "request_ok sz" "bump_context_alloc h0 c1 sz = Some (h, Some p)"
    and "cm_bc_cont cmd = Some c1" "cm_str_cont cmd = Some c2" "cm_current_cont cmd = Some c3" "distinct [c1, c2, c3]"
    and "childless h c1" "childless h c2" "childless h c3" and "sz' \<noteq> 0"
  shows "\<exists>h' cmd'. cmd_reset h cmd = Some (h', cmd') \<and> bc_tokens (cm_bc cmd') = array_clear (bc_tokens (cm_bc cmd)) \<and>
    bump_context_realloc h' c1 (Some p) sz' = None"
proof -
  let ?e = "unat (ctx_current b0)" and ?n = "round16 (unat sz)"
  have fit: "?e + 16 + ?n \<le> unat (ctx_size b0)"
    using bump_alloc_ok(2)[where h = h0, OF assms(1-3)] assms(4) by fastforce
  then have p: "p = (c1, of_nat (?e + 16))" using bump_alloc_ok(1)[where h = h0, OF assms(1-3)] assms(4) by auto
  have "112 \<le> ?e" using assms(2) by (auto simp: bump_rep_def dest: tiles_le)
  moreover have "unat (ctx_size b0) < 2 ^ 64" by (rule order_less_le_trans[OF unsigned_less]) simp
  ultimately have "unat context_start \<le> unat (of_nat (?e + 16) :: u64)"
    using fit by (simp only: unat_of_nat64 context_start_unat)
  then have start: "context_start \<le> snd p" using p by (simp add: word_le_nat_alt)
  obtain b1 where h1: "bump_context_reset h c1 = Some (h(c1 \<mapsto> b1\<lparr>ctx_current := context_start\<rparr>))" (is "_ = Some ?h1")
    using reset_childless[OF assms(9)] by blast
  have "childless ?h1 c2" using assms(8,10) by (simp add: childless_def)
  then obtain b2 where h2: "bump_context_reset ?h1 c2 = Some (?h1(c2 \<mapsto> b2))" (is "_ = Some ?h2")
    using reset_childless by metis
  have "childless ?h2 c3" using assms(8,11) by (simp add: childless_def)
  then obtain b3 where h3: "bump_context_reset ?h2 c3 = Some (?h2(c3 \<mapsto> b3))" (is "_ = Some ?h3")
    using reset_childless by metis
  have "?h3 (fst p) = Some (b1\<lparr>ctx_current := context_start\<rparr>)" using assms(8) p by simp
  then have "bump_context_realloc ?h3 c1 (Some p) sz' = None" by (rule realloc_behind) (use start assms(12) in simp_all)
  then show ?thesis using h1 h2 h3 assms(5-7) by (simp add: cmd_reset_def bc_clear_def bc_reset_def)
qed

section \<open>At concrete input\<close>

definition sample_code :: code where
  "sample_code = Step \<lparr>bn_token = BC_DELETE, bn_value = V_zero\<rparr> (Loop V_zero (Step \<lparr>bn_token = BC_DATUM, bn_value = V_zero\<rparr> Done) V_zero Done)"

definition some_memory :: memory where
  "some_memory = \<lparr>m_heap = (\<lambda>_. None), g_root_context = None, g_context = None, context_stack = replicate CONTEXT_STACK_MAX None,
     context_stack_i = 0\<rparr>"

lemma filled_bc:
  assumes "length ns < 1000"
  shows "\<exists>m a. bc_puts (\<lambda>_ _. True) (\<lambda>_. loop_end V_zero) some_memory (bc_init (Some 1)) ns = Some (m, (bc_init (Some 1))\<lparr>bc_tokens := a\<rparr>) \<and>
    bc_holds ((bc_init (Some 1))\<lparr>bc_tokens := a\<rparr>) ns"
proof (rule bc_puts_holds)
  show "length ns \<le> array_limit BC_NODE_SZ" using assms by (simp add: array_limit_def BC_NODE_SZ_def)
qed (simp_all add: some_memory_def CONTEXT_STACK_MAX_def bc_init_def array_inv_def array_view_def)

theorem bc_prepare_links_witness:
  "\<exists>m bc bc'. bc_puts (\<lambda>_ _. True) (\<lambda>_. loop_end V_zero) some_memory (bc_init (Some 1))
       (map (\<lambda>t. \<lparr>bn_token = t, bn_value = V_zero\<rparr>) [BC_DELETE, BC_LOOP_BEGIN, BC_DATUM, BC_LOOP_END]) = Some (m, bc) \<and>
     bc_prepare bc = Some (bc', 0) \<and> map bn_value (array_view (bc_tokens bc')) = [V_zero, V_integer 4, V_zero, V_integer 1]"
proof -
  have n: "code_nodes sample_code = map (\<lambda>t. \<lparr>bn_token = t, bn_value = V_zero\<rparr>) [BC_DELETE, BC_LOOP_BEGIN, BC_DATUM, BC_LOOP_END]"
    and c: "code_plain sample_code" "code_depth sample_code \<le> 64"
    and l: "map bn_value (code_linked 0 sample_code) = [V_zero, V_integer 4, V_zero, V_integer 1]"
    by (simp_all add: sample_code_def plain_def Let_def)
  have "length (code_nodes sample_code) < 1000" by (simp add: n)
  from filled_bc[OF this] obtain m bc where
    f: "bc_puts (\<lambda>_ _. True) (\<lambda>_. loop_end V_zero) some_memory (bc_init (Some 1)) (code_nodes sample_code) = Some (m, bc)"
    "bc_holds bc (code_nodes sample_code)" by blast
  obtain a where a: "bc_prepare bc = Some (bc\<lparr>bc_tokens := a\<rparr>, 0)" "bc_holds (bc\<lparr>bc_tokens := a\<rparr>) (code_linked 0 sample_code)"
    using bc_prepare_links[OF f(2) c(1)] c(2) by auto
  then have "map bn_value (array_view (bc_tokens (bc\<lparr>bc_tokens := a\<rparr>))) = [V_zero, V_integer 4, V_zero, V_integer 1]"
    using l by (simp add: bc_holds_def)
  then show ?thesis using f(1) a(1) unfolding n by (intro exI[of _ m] exI[of _ bc] exI[of _ "bc\<lparr>bc_tokens := a\<rparr>"]) simp
qed

lemma sample_collect:
  obtains t where "titor_collect tran_sample mvcc_sample t = Some [(5, 0)]"
proof -
  obtain t where "titor_stops tran_sample tran5 mvcc_sample 4 mvcc_sample_header (positions mvcc_sample [5] 0) t"
    using titor_init_stops[OF mvcc_sample_ok(1,2)] by (auto simp: mvcc_sample_ok(3) GID_UNDEF_def)
  then have "titor_collect tran_sample mvcc_sample t =
      Some (filter (pos_visible tran_sample tran5 mvcc_sample mvcc_sample_header) [(5, 0), (5, 1)])"
    unfolding mvcc_sample_visible(1) titor_stops_def using titor_collect_on by blast
  then show thesis using mvcc_sample_visible(2,3) by (intro that[of t]) (simp add: pos_visible_def mvcc_sample_ok(3))
qed

theorem bytecode_loops_over_rows_witness:
  "\<exists>m bc bc' t. bc_puts (\<lambda>_ _. True) (\<lambda>_. loop_end V_zero) some_memory (bc_init (Some 1))
       (map (\<lambda>t. \<lparr>bn_token = t, bn_value = V_zero\<rparr>) [BC_DELETE, BC_WHERE, BC_LOOP_BEGIN, BC_DATUM, BC_LOOP_END]) = Some (m, bc) \<and>
     bc_prepare bc = Some (bc', 0) \<and>
     titor_collect tran_sample mvcc_sample t = Some [(5, 0)] \<and>
     y2lex_all tran_sample mvcc_sample (bc'\<lparr>bc_itor := 1, bc_titor := t\<rparr>) = Some [(BC_WHERE, V_zero), (BC_DATUM, V_zero)]"
proof -
  let ?d = "\<lambda>t. \<lparr>bn_token = t, bn_value = V_zero\<rparr>"
  have n: "map ?d [BC_DELETE, BC_WHERE, BC_LOOP_BEGIN, BC_DATUM, BC_LOOP_END] =
      [?d BC_DELETE, ?d BC_WHERE] @ loop_begin V_zero # [?d BC_DATUM] @ loop_end V_zero # []" by simp
  have "length (map ?d [BC_DELETE, BC_WHERE, BC_LOOP_BEGIN, BC_DATUM, BC_LOOP_END]) < 1000" by simp
  from filled_bc[OF this] obtain m bc where
    f: "bc_puts (\<lambda>_ _. True) (\<lambda>_. loop_end V_zero) some_memory (bc_init (Some 1))
       (map ?d [BC_DELETE, BC_WHERE, BC_LOOP_BEGIN, BC_DATUM, BC_LOOP_END]) = Some (m, bc)"
    and h: "bc_holds bc ([?d BC_DELETE, ?d BC_WHERE] @ loop_begin V_zero # [?d BC_DATUM] @ loop_end V_zero # [])"
    unfolding n by blast
  obtain t where t: "titor_collect tran_sample mvcc_sample t = Some [(5, 0)]" by (rule sample_collect)
  have p: "\<forall>n \<in> set ([?d BC_DELETE, ?d BC_WHERE] @ [?d BC_DATUM] @ []). plain n" by (simp add: plain_def)
  have "1 \<le> length [?d BC_DELETE, ?d BC_WHERE]" by simp
  from bytecode_loops_over_rows[OF h p _ t this] show ?thesis using f t by (simp add: tok_def) blast
qed

lemma context_create_facts:
  assumes "sz \<noteq> 0" "context_start \<le> sz"
  shows "\<exists>b. bump_context_create h (Some c) sz = (h(c \<mapsto> b), Some c) \<and> bump_rep c b [] \<and> ctx_children b = replicate CONTEXT_MAX_CHILDREN None \<and>
    ctx_current b = context_start \<and> ctx_size b = sz"
  by (rule exI[of _ "the (fst (bump_context_create h (Some c) sz) c)"])
    (use assms in \<open>simp add: bump_context_create_def context_create_def bump_rep_def context_start_unat\<close>)

text \<open>The contexts of a command: children of the current context, of which it has room for them.\<close>

lemma cmd_context_ok:
  assumes "g_context m = Some cur" "m_heap m cur = Some p" "find_slot None (ctx_children p) = Some i" "c \<noteq> cur" "sz \<noteq> 0" "context_start \<le> sz"
  shows "\<exists>b. cmd_context m (Some c) sz = Some (m\<lparr>m_heap := (m_heap m)(cur \<mapsto> p\<lparr>ctx_children := (ctx_children p)[i := Some c]\<rparr>, c \<mapsto> b)\<rparr>, c) \<and>
    bump_rep c b [] \<and> ctx_children b = replicate CONTEXT_MAX_CHILDREN None \<and> ctx_current b = context_start \<and> ctx_size b = sz"
proof -
  obtain b where b: "bump_context_create (m_heap m) (Some c) sz = ((m_heap m)(c \<mapsto> b), Some c)" "bump_rep c b []"
    "ctx_children b = replicate CONTEXT_MAX_CHILDREN None" "ctx_current b = context_start" "ctx_size b = sz"
    using context_create_facts[OF assms(5,6)] by blast
  then show ?thesis using assms(1-4)
    by (intro exI[of _ "b\<lparr>ctx_parent := Some cur\<rparr>"])
      (simp add: cmd_context_def bump_context_add_child_def bump_context_set_parent_def bump_rep_def fun_upd_twist)
qed

definition session_memory :: memory where
  "session_memory = some_memory\<lparr>m_heap := fst (linear_context_create (\<lambda>_. None) (Some 0) 1048576), g_context := Some 0\<rparr>"

lemma sample_cmd:
  "\<exists>m cmd b1. cmd_init 4096 (Some 1) (Some 2) (Some 3) session_memory = Some (m, cmd) \<and>
     cm_bc_cont cmd = Some 1 \<and> cm_str_cont cmd = Some 2 \<and> cm_current_cont cmd = Some 3 \<and>
     m_heap m 1 = Some b1 \<and> bump_rep 1 b1 [] \<and> ctx_current b1 = context_start \<and> ctx_size b1 = 65536 \<and>
     childless (m_heap m) 1 \<and> childless (m_heap m) 2 \<and> childless (m_heap m) 3"
proof -
  obtain p where p: "g_context session_memory = Some 0" "m_heap session_memory 0 = Some p"
    "ctx_children p = None # None # None # replicate 5 None"
  proof -
    have "replicate CONTEXT_MAX_CHILDREN (None :: cid option) = None # None # None # replicate 5 None"
      by (simp add: CONTEXT_MAX_CHILDREN_def numeral_eq_Suc)
    then show thesis
      by (intro that[of "the (m_heap session_memory 0)"]) (simp_all add: session_memory_def linear_context_create_def context_create_def)
  qed
  have z: "context_start = 112" by (simp add: context_start_def align_max_def align_up_def MAX_ALIGN_def)
  have s1: "find_slot None (ctx_children p) = Some 0" "(1 :: cid) \<noteq> 0" "BC_NODE_SZ * BCSZ * 2 \<noteq> 0" "context_start \<le> BC_NODE_SZ * BCSZ * 2"
    by (simp_all add: p(3) BC_NODE_SZ_def BCSZ_def z)
  from cmd_context_ok[OF p(1,2) s1] obtain b1 where b1: "cmd_context session_memory (Some 1) (BC_NODE_SZ * BCSZ * 2) =
      Some (session_memory\<lparr>m_heap := (m_heap session_memory)(0 \<mapsto> p\<lparr>ctx_children := (ctx_children p)[0 := Some 1]\<rparr>, 1 \<mapsto> b1)\<rparr>, 1)"
    (is "_ = Some (?m1, 1)") "bump_rep 1 b1 []" "ctx_children b1 = replicate CONTEXT_MAX_CHILDREN None" "ctx_current b1 = context_start"
    "ctx_size b1 = 65536"
    by (auto simp: BC_NODE_SZ_def BCSZ_def)
  let ?p1 = "p\<lparr>ctx_children := (ctx_children p)[0 := Some 1]\<rparr>" and ?big = "4096 * 256 * 256 :: u64"
  have s2: "g_context ?m1 = Some 0" "m_heap ?m1 0 = Some ?p1" "find_slot None (ctx_children ?p1) = Some 1" "(2 :: cid) \<noteq> 0"
    "?big \<noteq> 0" "context_start \<le> ?big"
    using p by (simp_all add: z)
  from cmd_context_ok[OF s2] obtain b2 where b2: "cmd_context ?m1 (Some 2) ?big =
      Some (?m1\<lparr>m_heap := (m_heap ?m1)(0 \<mapsto> ?p1\<lparr>ctx_children := (ctx_children ?p1)[1 := Some 2]\<rparr>, 2 \<mapsto> b2)\<rparr>, 2)"
    (is "_ = Some (?m2, 2)") "bump_rep 2 b2 []" "ctx_children b2 = replicate CONTEXT_MAX_CHILDREN None"
    by blast
  let ?p2 = "?p1\<lparr>ctx_children := (ctx_children ?p1)[1 := Some 2]\<rparr>"
  have s3: "g_context ?m2 = Some 0" "m_heap ?m2 0 = Some ?p2" "find_slot None (ctx_children ?p2) = Some 2" "(3 :: cid) \<noteq> 0"
    "?big \<noteq> 0" "context_start \<le> ?big"
    using p by (simp_all add: z)
  from cmd_context_ok[OF s3] obtain b3 where b3: "cmd_context ?m2 (Some 3) ?big =
      Some (?m2\<lparr>m_heap := (m_heap ?m2)(0 \<mapsto> ?p2\<lparr>ctx_children := (ctx_children ?p2)[2 := Some 3]\<rparr>, 3 \<mapsto> b3)\<rparr>, 3)"
    (is "_ = Some (?m3, 3)") "bump_rep 3 b3 []" "ctx_children b3 = replicate CONTEXT_MAX_CHILDREN None"
    by blast
  let ?cmd = "\<lparr>cm_bc_cont = Some 1, cm_str_cont = Some 2, cm_current_cont = Some 3, cm_bc = bc_init (Some 1),
       cm_titor = titor_init_invalid, cm_current = None\<rparr>"
  have "cmd_init 4096 (Some 1) (Some 2) (Some 3) session_memory = Some (?m3, ?cmd)"
    unfolding cmd_init_def b1(1) bind.bind_lunit prod.case b2(1) b3(1) ..
  moreover have "childless (m_heap ?m3) 1" "childless (m_heap ?m3) 2" "childless (m_heap ?m3) 3"
    using b1(2,3) b2(2,3) b3(2,3) by (simp_all add: childless_def bump_rep_def)
  moreover have "m_heap ?m3 1 = Some b1" by simp
  ultimately show ?thesis using b1(2,4,5) by (intro exI[of _ ?m3] exI[of _ ?cmd] exI[of _ b1]) simp
qed

lemma reset_keeps_stale_tokens_example:
  "\<exists>m cmd h p h' cmd'. cmd_init 4096 (Some 1) (Some 2) (Some 3) session_memory = Some (m, cmd) \<and>
     bump_context_alloc (m_heap m) 1 4120 = Some (h, Some p) \<and> cmd_reset h cmd = Some (h', cmd') \<and>
     bump_context_realloc h' 1 (Some p) 8216 = None"
proof -
  obtain m cmd b1 where c: "cmd_init 4096 (Some 1) (Some 2) (Some 3) session_memory = Some (m, cmd)"
    "cm_bc_cont cmd = Some 1" "cm_str_cont cmd = Some 2" "cm_current_cont cmd = Some 3"
    and b: "m_heap m 1 = Some b1" "bump_rep 1 b1 []" "ctx_current b1 = context_start" "ctx_size b1 = 65536"
    and ch: "childless (m_heap m) 1" "childless (m_heap m) 2" "childless (m_heap m) 3"
    using sample_cmd by blast
  have r: "request_ok 4120" by (simp add: request_ok_def)
  have "unat (ctx_current b1) + 16 + round16 (unat (4120 :: u64)) \<le> unat (ctx_size b1)"
    using b(3,4) by (simp add: context_start_unat round16_def)
  from bump_alloc_ok(1)[where h = "m_heap m", OF b(1,2) r this] obtain b' h p where
    a: "bump_context_alloc (m_heap m) 1 4120 = Some (h, Some p)" "h = (m_heap m)(1 \<mapsto> b')" by blast
  have "ctx_children b' = ctx_children b1 \<and> ctx_magic b' = ctx_magic b1"
  proof -
    have "h 1 = Some b'" using a(2) by simp
    then show ?thesis using a(1) b(1) by (auto simp: bump_context_alloc_def Let_def split: if_splits)
  qed
  then have ch': "childless h 1" "childless h 2" "childless h 3" using ch b(1) a(2) by (simp_all add: childless_def)
  have d: "distinct [1 :: cid, 2, 3]" and n: "(8216 :: u64) \<noteq> 0" by simp_all
  obtain h' cmd' where "cmd_reset h cmd = Some (h', cmd')" "bump_context_realloc h' 1 (Some p) 8216 = None"
    using reset_keeps_stale_tokens[OF b(1,2) r a(1) c(2-4) d ch' n] by blast
  then show ?thesis using c(1) a(1) by blast
qed

end
