(* ===== verification/Scr_Query_Laws.thy ===== *)
theory Scr_Query_Laws
  imports Scr_Query Scr_Bc_Laws
begin

text \<open>
  The two parsers agree: the tokens that hquery.y puts for a statement are derived from the
  productions of execute.y in exactly one way, with the tree that the statement had.
\<close>

section \<open>Reading from left to right\<close>

text \<open>How tightly a token binds as an operator.\<close>

definition level :: "bc_token \<Rightarrow> nat" where
  "level t = (if mul_op t \<noteq> None then 5 else if add_op t \<noteq> None then 4
     else if cmp_token t \<noteq> None \<or> t = BC_IN \<or> t = BC_NOT_IN \<or> t = BC_BETWEEN \<or> t = BC_NOT_BETWEEN then 3
     else if t = BC_AND then 2 else if t = BC_OR then 1 else 0)"

definition below :: "nat \<Rightarrow> y2_token list \<Rightarrow> bool" where
  "below k r \<longleftrightarrow> (case r of [] \<Rightarrow> True | x # _ \<Rightarrow> level (fst x) < k)"

lemma below_simps [simp]: "below k []" "below k (x # r) \<longleftrightarrow> level (fst x) < k"
  by (simp_all add: below_def)

lemma below_mono: "below k r \<Longrightarrow> k \<le> k' \<Longrightarrow> below k' r"
  by (auto simp: below_def split: list.splits)

lemma below_up: "below 3 r \<Longrightarrow> below 4 r" "below 3 r \<Longrightarrow> below 5 r" "below 2 r \<Longrightarrow> below 3 r"
  by (simp_all add: below_mono)

lemma mul_op_cases: "mul_op t = Some f \<Longrightarrow> t = BC_CHAR CHR ''*'' \<or> t = BC_CHAR CHR ''/'' \<or> t = BC_CHAR CHR ''%''"
  by (auto simp: mul_op_def split: if_splits)

lemma add_op_cases: "add_op t = Some f \<Longrightarrow> t = BC_CHAR CHR ''+'' \<or> t = BC_CHAR CHR ''-'' \<or> t = BC_CONCAT"
  by (auto simp: add_op_def split: if_splits)

lemma cmp_token_cases: "cmp_token t = Some f \<Longrightarrow> t = BC_CHAR CHR ''='' \<or> t = BC_NE \<or> t = BC_CHAR CHR ''<'' \<or> t = BC_LE \<or>
    t = BC_CHAR CHR ''>'' \<or> t = BC_GE \<or> t = BC_LIKE \<or> t = BC_NOT_LIKE"
  by (auto simp: cmp_token_def split: if_splits)

lemma level_simps [simp]:
  "level BC_DATUM = 0" "level BC_NOT = 0" "level (BC_CHAR CHR ''('') = 0" "level (BC_CHAR CHR '')'') = 0"
  "level BC_AND = 2" "level BC_OR = 1" "level BC_IN = 3" "level BC_NOT_IN = 3" "level BC_BETWEEN = 3" "level BC_NOT_BETWEEN = 3"
  by (simp_all add: level_def mul_op_def add_op_def cmp_token_def)

lemma level_op: "mul_op t = Some f \<Longrightarrow> level t = 5" "add_op t = Some f \<Longrightarrow> level t = 4" "cmp_token t = Some g \<Longrightarrow> level t = 3"
  by (auto simp: level_def dest!: mul_op_cases add_op_cases cmp_token_cases) (simp_all add: mul_op_def add_op_def)

abbreviation dat :: "datum \<Rightarrow> y2_token" where
  "dat d \<equiv> (BC_DATUM, V_datum d)"

text \<open>
  Recursive descent over the same productions: what is read, the tree and what is left. The
  loops go on while the next token is an operator of their level.
\<close>

inductive p_atom :: "y2_token list \<Rightarrow> aexpr \<Rightarrow> y2_token list \<Rightarrow> bool"
  and p_mul :: "y2_token list \<Rightarrow> aexpr \<Rightarrow> y2_token list \<Rightarrow> bool"
  and p_muls :: "aexpr \<Rightarrow> y2_token list \<Rightarrow> aexpr \<Rightarrow> y2_token list \<Rightarrow> bool"
  and p_add :: "y2_token list \<Rightarrow> aexpr \<Rightarrow> y2_token list \<Rightarrow> bool"
  and p_adds :: "aexpr \<Rightarrow> y2_token list \<Rightarrow> aexpr \<Rightarrow> y2_token list \<Rightarrow> bool"
  and p_cmp :: "y2_token list \<Rightarrow> expr \<Rightarrow> y2_token list \<Rightarrow> bool"
  and p_cmps :: "aexpr \<Rightarrow> y2_token list \<Rightarrow> expr \<Rightarrow> y2_token list \<Rightarrow> bool"
  and p_not :: "y2_token list \<Rightarrow> expr \<Rightarrow> y2_token list \<Rightarrow> bool"
  and p_and :: "y2_token list \<Rightarrow> expr \<Rightarrow> y2_token list \<Rightarrow> bool"
  and p_ands :: "expr \<Rightarrow> y2_token list \<Rightarrow> expr \<Rightarrow> y2_token list \<Rightarrow> bool"
  and p_or :: "y2_token list \<Rightarrow> expr \<Rightarrow> y2_token list \<Rightarrow> bool"
  and p_ors :: "expr \<Rightarrow> y2_token list \<Rightarrow> expr \<Rightarrow> y2_token list \<Rightarrow> bool" where
  p_value: "p_atom (dat d # r) (Value d) r"
| p_paren: "p_or ts e ((BC_CHAR CHR '')'', w) # r) \<Longrightarrow> p_atom ((BC_CHAR CHR ''('', v) # ts) (Paren e) r"
| p_mul: "p_atom ts a r \<Longrightarrow> p_muls a r b s \<Longrightarrow> p_mul ts b s"
| p_muls_stop: "below 5 r \<Longrightarrow> p_muls a r a r"
| p_muls_more: "mul_op t = Some f \<Longrightarrow> p_atom ts b r \<Longrightarrow> p_muls (Arith f a b) r c s \<Longrightarrow> p_muls a ((t, v) # ts) c s"
| p_add: "p_mul ts a r \<Longrightarrow> p_adds a r b s \<Longrightarrow> p_add ts b s"
| p_adds_stop: "below 4 r \<Longrightarrow> p_adds a r a r"
| p_adds_more: "add_op t = Some f \<Longrightarrow> p_mul ts b r \<Longrightarrow> p_adds (Arith f a b) r c s \<Longrightarrow> p_adds a ((t, v) # ts) c s"
| p_cmp: "p_add ts a r \<Longrightarrow> p_cmps a r e s \<Longrightarrow> p_cmp ts e s"
| p_cmps_stop: "below 3 r \<Longrightarrow> p_cmps a r (Test a) r"
| p_cmps_op: "cmp_token t = Some f \<Longrightarrow> p_add ts b r \<Longrightarrow> p_cmps a ((t, v) # ts) (Cmp f a b) r"
| p_cmps_in: "p_cmps a ((BC_IN, v) # (BC_CHAR CHR ''('', v') # map dat ds @ (BC_CHAR CHR '')'', w) # r) (In a ds) r"
| p_cmps_not_in: "p_cmps a ((BC_NOT_IN, v) # (BC_CHAR CHR ''('', v') # map dat ds @ (BC_CHAR CHR '')'', w) # r) (NotIn a ds) r"
| p_cmps_between: "p_add ts b r \<Longrightarrow> p_add r c s \<Longrightarrow> p_cmps a ((BC_BETWEEN, v) # ts) (Between a b c) s"
| p_cmps_not_between: "p_add ts b r \<Longrightarrow> p_add r c s \<Longrightarrow> p_cmps a ((BC_NOT_BETWEEN, v) # ts) (NotBetween a b c) s"
| p_not_cmp: "p_cmp ts e r \<Longrightarrow> p_not ts e r"
| p_not_step: "p_not ts e r \<Longrightarrow> p_not ((BC_NOT, v) # ts) (Not e) r"
| p_and: "p_not ts e r \<Longrightarrow> p_ands e r f s \<Longrightarrow> p_and ts f s"
| p_ands_stop: "below 2 r \<Longrightarrow> p_ands e r e r"
| p_ands_more: "p_not ts f r \<Longrightarrow> p_ands (And e f) r g s \<Longrightarrow> p_ands e ((BC_AND, v) # ts) g s"
| p_or: "p_and ts e r \<Longrightarrow> p_ors e r f s \<Longrightarrow> p_or ts f s"
| p_ors_stop: "below 1 r \<Longrightarrow> p_ors e r e r"
| p_ors_more: "p_and ts f r \<Longrightarrow> p_ors (Or e f) r g s \<Longrightarrow> p_ors e ((BC_OR, v) # ts) g s"

inductive_cases p_atomE: "p_atom ts a r"
inductive_cases p_mulE: "p_mul ts a r"
inductive_cases p_mulsE: "p_muls a ts b r"
inductive_cases p_addE: "p_add ts a r"
inductive_cases p_addsE: "p_adds a ts b r"
inductive_cases p_cmpE: "p_cmp ts e r"
inductive_cases p_cmpsE: "p_cmps a ts e r"
inductive_cases p_notE: "p_not ts e r"
inductive_cases p_andE: "p_and ts e r"
inductive_cases p_andsE: "p_ands e ts f r"
inductive_cases p_orE: "p_or ts e r"
inductive_cases p_orsE: "p_ors e ts f r"

lemma map_split_unique:
  "inj f \<Longrightarrow> y \<notin> range f \<Longrightarrow> y' \<notin> range f \<Longrightarrow> map f xs @ y # r = map f ys @ y' # r' \<Longrightarrow> xs = ys \<and> y = y' \<and> r = r'"
proof (induction xs arbitrary: ys)
  case Nil
  then show ?case by (cases ys) simp_all
next
  case (Cons x xs)
  show ?case
  proof (cases ys)
    case Nil
    then show ?thesis using Cons.prems(3,4) by (metis append_Cons append_Nil list.inject list.simps(9) map_is_Nil_conv rangeI)
  next
    case (Cons y1 ys1)
    then have "f x = f y1" "map f xs @ y # r = map f ys1 @ y' # r'" using Cons.prems(4) by simp_all
    then show ?thesis using Cons.IH[OF Cons.prems(1-3)] injD[OF Cons.prems(1)] Cons by blast
  qed
qed

lemma dats_unique:
  "map dat ds @ (BC_CHAR c, w) # r = map dat ds' @ (BC_CHAR c', w') # r' \<longleftrightarrow> ds = ds' \<and> c = c' \<and> w = w' \<and> r = r'"
proof
  have f: "inj dat" "(BC_CHAR c, w) \<notin> range dat" "(BC_CHAR c', w') \<notin> range dat" by (auto simp: inj_def)
  assume e: "map dat ds @ (BC_CHAR c, w) # r = map dat ds' @ (BC_CHAR c', w') # r'"
  show "ds = ds' \<and> c = c' \<and> w = w' \<and> r = r'" using map_split_unique[OF f e] by simp
qed simp

lemma not_read: "p_cmp ((BC_NOT, v) # ts) e r \<Longrightarrow> False"
  by (auto elim!: p_cmpE p_addE p_mulE elim: p_atomE)

lemma p_unique:
  "p_atom ts a r \<Longrightarrow> p_atom ts a' r' \<Longrightarrow> a' = a \<and> r' = r"
  "p_mul ts a r \<Longrightarrow> p_mul ts a' r' \<Longrightarrow> a' = a \<and> r' = r"
  "p_muls b ts a r \<Longrightarrow> p_muls b ts a' r' \<Longrightarrow> a' = a \<and> r' = r"
  "p_add ts a r \<Longrightarrow> p_add ts a' r' \<Longrightarrow> a' = a \<and> r' = r"
  "p_adds b ts a r \<Longrightarrow> p_adds b ts a' r' \<Longrightarrow> a' = a \<and> r' = r"
  "p_cmp ts e r \<Longrightarrow> p_cmp ts e' r' \<Longrightarrow> e' = e \<and> r' = r"
  "p_cmps b ts e r \<Longrightarrow> p_cmps b ts e' r' \<Longrightarrow> e' = e \<and> r' = r"
  "p_not ts e r \<Longrightarrow> p_not ts e' r' \<Longrightarrow> e' = e \<and> r' = r"
  "p_and ts e r \<Longrightarrow> p_and ts e' r' \<Longrightarrow> e' = e \<and> r' = r"
  "p_ands f ts e r \<Longrightarrow> p_ands f ts e' r' \<Longrightarrow> e' = e \<and> r' = r"
  "p_or ts e r \<Longrightarrow> p_or ts e' r' \<Longrightarrow> e' = e \<and> r' = r"
  "p_ors f ts e r \<Longrightarrow> p_ors f ts e' r' \<Longrightarrow> e' = e \<and> r' = r"
proof (induction arbitrary: a' r' and a' r' and a' r' and a' r' and a' r' and e' r' and e' r' and e' r' and e' r' and e' r' and e' r' and e' r'
    rule: p_atom_p_mul_p_muls_p_add_p_adds_p_cmp_p_cmps_p_not_p_and_p_ands_p_or_p_ors.inducts)
  case (p_value d r)
  then show ?case by (auto elim: p_atomE)
next
  case (p_paren ts e w r v)
  from p_paren.prems show ?case by (rule p_atomE) (auto dest: p_paren.IH)
next
  case (p_mul ts a r b s)
  from p_mul.prems show ?case by (rule p_mulE) (auto dest: p_mul.IH)
next
  case (p_muls_stop r a)
  from p_muls_stop.prems show ?case by (rule p_mulsE) (use p_muls_stop.hyps in \<open>auto dest: level_op\<close>)
next
  case (p_muls_more t f ts b r a c s v)
  from p_muls_more.prems show ?case by (rule p_mulsE) (use p_muls_more.hyps in \<open>auto dest: level_op p_muls_more.IH\<close>)
next
  case (p_add ts a r b s)
  from p_add.prems show ?case by (rule p_addE) (auto dest: p_add.IH)
next
  case (p_adds_stop r a)
  from p_adds_stop.prems show ?case by (rule p_addsE) (use p_adds_stop.hyps in \<open>auto dest: level_op\<close>)
next
  case (p_adds_more t f ts b r a c s v)
  from p_adds_more.prems show ?case by (rule p_addsE) (use p_adds_more.hyps in \<open>auto dest: level_op p_adds_more.IH\<close>)
next
  case (p_cmp ts a r e s)
  from p_cmp.prems show ?case by (rule p_cmpE) (auto dest: p_cmp.IH)
next
  case (p_cmps_stop r a)
  from p_cmps_stop.prems show ?case by (rule p_cmpsE) (use p_cmps_stop.hyps in \<open>auto dest: level_op\<close>)
next
  case (p_cmps_op t f ts b r a v)
  from p_cmps_op.prems show ?case
    by (rule p_cmpsE) (use p_cmps_op.hyps in \<open>auto dest: level_op cmp_token_cases p_cmps_op.IH\<close>)
next
  case (p_cmps_in a v v' ds w r)
  from p_cmps_in.prems show ?case by (rule p_cmpsE) (auto simp: dats_unique dest: cmp_token_cases)
next
  case (p_cmps_not_in a v v' ds w r)
  from p_cmps_not_in.prems show ?case by (rule p_cmpsE) (auto simp: dats_unique dest: cmp_token_cases)
next
  case (p_cmps_between ts b r c s a v)
  from p_cmps_between.prems show ?case by (rule p_cmpsE) (auto dest: cmp_token_cases p_cmps_between.IH)
next
  case (p_cmps_not_between ts b r c s a v)
  from p_cmps_not_between.prems show ?case by (rule p_cmpsE) (auto dest: cmp_token_cases p_cmps_not_between.IH)
next
  case (p_not_cmp ts e r)
  from p_not_cmp.prems show ?case by (rule p_notE) (use p_not_cmp.hyps in \<open>auto dest: p_not_cmp.IH not_read\<close>)
next
  case (p_not_step ts e r v)
  from p_not_step.prems show ?case by (rule p_notE) (auto dest: p_not_step.IH not_read)
next
  case (p_and ts e r f s)
  from p_and.prems show ?case by (rule p_andE) (auto dest: p_and.IH)
next
  case (p_ands_stop r e)
  from p_ands_stop.prems show ?case by (rule p_andsE) (use p_ands_stop.hyps in auto)
next
  case (p_ands_more ts f r e g s v)
  from p_ands_more.prems show ?case by (rule p_andsE) (auto dest: p_ands_more.IH)
next
  case (p_or ts e r f s)
  from p_or.prems show ?case by (rule p_orE) (auto dest: p_or.IH)
next
  case (p_ors_stop r e)
  from p_ors_stop.prems show ?case by (rule p_orsE) (use p_ors_stop.hyps in auto)
next
  case (p_ors_more ts f r e g s v)
  from p_ors_more.prems show ?case by (rule p_orsE) (auto dest: p_ors_more.IH)
qed

section \<open>Derivations are read\<close>

lemma y2_values_dats: "y2_values xs ds \<longleftrightarrow> ds \<noteq> [] \<and> xs = map dat ds"
proof
  show "y2_values xs ds \<Longrightarrow> ds \<noteq> [] \<and> xs = map dat ds" by (induction rule: y2_values.induct) simp_all
next
  assume "ds \<noteq> [] \<and> xs = map dat ds"
  then show "y2_values xs ds"
  proof (induction ds arbitrary: xs rule: rev_induct)
    case (snoc d ds)
    then show ?case by (cases "ds = []") (auto intro: y2_values.intros)
  qed simp
qed

text \<open>The first token of an expression is no operator.\<close>

definition opens :: "y2_token list \<Rightarrow> bool" where
  "opens xs \<longleftrightarrow> (\<exists>x r. xs = x # r \<and> level (fst x) = 0)"

lemma opens_append: "opens xs \<Longrightarrow> opens (xs @ r)"
  by (auto simp: opens_def)

lemma opens_below: "opens xs \<Longrightarrow> 0 < k \<Longrightarrow> below k (xs @ r)"
  by (auto simp: opens_def)

lemma y2_opens:
  "y2_atom xs a \<Longrightarrow> opens xs" "y2_mul xs a \<Longrightarrow> opens xs" "y2_add xs a \<Longrightarrow> opens xs"
  "y2_cmp xs e \<Longrightarrow> opens xs" "y2_not xs e \<Longrightarrow> opens xs" "y2_and xs e \<Longrightarrow> opens xs" "y2_or xs e \<Longrightarrow> opens xs"
  by (induction rule: y2_atom_y2_mul_y2_add_y2_cmp_y2_not_y2_and_y2_or.inducts) (auto intro: opens_append simp: opens_def)

lemma y2_read:
  "y2_atom xs a \<Longrightarrow> p_atom (xs @ r) a r"
  "y2_mul xs a \<Longrightarrow> p_muls a r b s \<Longrightarrow> p_mul (xs @ r) b s"
  "y2_add xs a \<Longrightarrow> below 5 r \<Longrightarrow> p_adds a r b s \<Longrightarrow> p_add (xs @ r) b s"
  "y2_cmp xs e \<Longrightarrow> below 3 r \<Longrightarrow> p_cmp (xs @ r) e r"
  "y2_not xs e \<Longrightarrow> below 3 r \<Longrightarrow> p_not (xs @ r) e r"
  "y2_and xs e \<Longrightarrow> below 3 r \<Longrightarrow> p_ands e r f t \<Longrightarrow> p_and (xs @ r) f t"
  "y2_or xs e \<Longrightarrow> below 2 r \<Longrightarrow> p_ors e r f t \<Longrightarrow> p_or (xs @ r) f t"
proof (induction arbitrary: r and r b s and r b s and r and r and r f t and r f t
    rule: y2_atom_y2_mul_y2_add_y2_cmp_y2_not_y2_and_y2_or.inducts)
  case (atom_value d)
  then show ?case by (simp add: p_value)
next
  case (atom_paren xs e v w)
  have "p_or (xs @ (BC_CHAR CHR '')'', w) # r) e ((BC_CHAR CHR '')'', w) # r)"
    by (rule atom_paren.IH) (auto intro: p_ors_stop)
  then show ?case by (auto intro: p_paren)
next
  case (mul_atom xs a)
  then show ?case by (auto intro: p_mul)
next
  case (mul_step xs a t f ys b' v)
  have "p_muls a ((t, v) # ys @ r) b s"
    by (rule p_muls_more[OF mul_step.hyps(2) mul_step.IH(2) mul_step.prems])
  then show ?case using mul_step.IH(1) by simp
next
  case (add_mul xs a)
  have "p_muls a r a r" using add_mul.prems(1) by (rule p_muls_stop)
  then show ?case using add_mul by (auto intro: p_add)
next
  case (add_step xs a t f ys b' v)
  have "p_muls b' r b' r" using add_step.prems(1) by (rule p_muls_stop)
  then have "p_mul (ys @ r) b' r" by (rule add_step.IH(2))
  then have "p_adds a ((t, v) # ys @ r) b s"
    by (rule p_adds_more[OF add_step.hyps(2) _ add_step.prems(2)])
  then show ?case using add_step.IH(1)[of "(t, v) # ys @ r"] level_op(2)[OF add_step.hyps(2)] by simp
next
  case (cmp_test xs a)
  have "p_add (xs @ r) a r" by (rule cmp_test.IH) (use cmp_test.prems in \<open>auto intro: p_adds_stop below_up\<close>)
  then show ?case by (rule p_cmp) (rule p_cmps_stop[OF cmp_test.prems])
next
  case (cmp_op xs a t f ys b v)
  have b: "p_add (ys @ r) b r" by (rule cmp_op.IH(2)) (use cmp_op.prems in \<open>auto intro: p_adds_stop below_up\<close>)
  have "p_add (xs @ (t, v) # ys @ r) a ((t, v) # ys @ r)"
    by (rule cmp_op.IH(1)) (use level_op(3)[OF cmp_op.hyps(2)] in \<open>auto intro: p_adds_stop\<close>)
  then show ?case using p_cmps_op[OF cmp_op.hyps(2) b] by (auto intro: p_cmp)
next
  case (cmp_in xs a ys ds v v' w)
  let ?r = "(BC_IN, v) # (BC_CHAR CHR ''('', v') # map dat ds @ (BC_CHAR CHR '')'', w) # r"
  have "p_add (xs @ ?r) a ?r" by (rule cmp_in.IH) (auto intro: p_adds_stop)
  then show ?case using cmp_in.hyps(2) p_cmps_in[of a v v' ds w r] by (auto simp: y2_values_dats intro: p_cmp)
next
  case (cmp_between xs a ys b zs c v)
  have c: "p_add (zs @ r) c r" by (rule cmp_between.IH(3)) (use cmp_between.prems in \<open>auto intro: p_adds_stop below_up\<close>)
  have z: "opens zs" by (rule y2_opens(3)[OF cmp_between.hyps(3)])
  have b: "p_add (ys @ zs @ r) b (zs @ r)" by (rule cmp_between.IH(2)) (auto intro!: p_adds_stop opens_below[OF z])
  have "p_add (xs @ (BC_BETWEEN, v) # ys @ zs @ r) a ((BC_BETWEEN, v) # ys @ zs @ r)"
    by (rule cmp_between.IH(1)) (auto intro: p_adds_stop)
  then show ?case using p_cmps_between[OF b c] by (auto intro: p_cmp)
next
  case (cmp_not_in xs a ys ds v v' w)
  let ?r = "(BC_NOT_IN, v) # (BC_CHAR CHR ''('', v') # map dat ds @ (BC_CHAR CHR '')'', w) # r"
  have "p_add (xs @ ?r) a ?r" by (rule cmp_not_in.IH) (auto intro: p_adds_stop)
  then show ?case using cmp_not_in.hyps(2) p_cmps_not_in[of a v v' ds w r] by (auto simp: y2_values_dats intro: p_cmp)
next
  case (cmp_not_between xs a ys b zs c v)
  have c: "p_add (zs @ r) c r" by (rule cmp_not_between.IH(3)) (use cmp_not_between.prems in \<open>auto intro: p_adds_stop below_up\<close>)
  have z: "opens zs" by (rule y2_opens(3)[OF cmp_not_between.hyps(3)])
  have b: "p_add (ys @ zs @ r) b (zs @ r)" by (rule cmp_not_between.IH(2)) (auto intro!: p_adds_stop opens_below[OF z])
  have "p_add (xs @ (BC_NOT_BETWEEN, v) # ys @ zs @ r) a ((BC_NOT_BETWEEN, v) # ys @ zs @ r)"
    by (rule cmp_not_between.IH(1)) (auto intro: p_adds_stop)
  then show ?case using p_cmps_not_between[OF b c] by (auto intro: p_cmp)
next
  case (not_cmp xs e)
  then show ?case by (auto intro: p_not_cmp)
next
  case (not_step xs e v)
  then show ?case by (auto intro: p_not_step)
next
  case (and_not xs e)
  then show ?case by (auto intro: p_and)
next
  case (and_step xs e ys f' v)
  have "p_not (ys @ r) f' r" using and_step.prems(1) by (rule and_step.IH(2))
  then have "p_ands e ((BC_AND, v) # ys @ r) f t" by (rule p_ands_more) (rule and_step.prems(2))
  then show ?case using and_step.IH(1)[of "(BC_AND, v) # ys @ r"] by simp
next
  case (or_and xs e)
  have "p_ands e r e r" using or_and.prems(1) by (rule p_ands_stop)
  then have "p_and (xs @ r) e r" using or_and by (auto intro: below_up)
  then show ?case using or_and.prems(2) by (rule p_or)
next
  case (or_step xs e ys f' v)
  have "p_ands f' r f' r" using or_step.prems(1) by (rule p_ands_stop)
  then have "p_and (ys @ r) f' r" using or_step.prems(1) by (auto intro: or_step.IH(2) below_up)
  then have "p_ors e ((BC_OR, v) # ys @ r) f t" by (rule p_ors_more) (rule or_step.prems(2))
  then show ?case using or_step.IH(1)[of "(BC_OR, v) # ys @ r"] by simp
qed

text \<open>An expression has at most one tree.\<close>

lemma y2_or_unique:
  assumes "y2_or xs e" "y2_or xs e'"
  shows "e' = e"
proof -
  have "p_or (xs @ []) e []" "p_or (xs @ []) e' []"
    by (rule y2_read(7)[OF assms(1)] y2_read(7)[OF assms(2)]; auto intro: p_ors_stop)+
  then show ?thesis using p_unique(11) by blast
qed

section \<open>What hquery.y puts\<close>

text \<open>The tree in execute.y of a tree of hquery.y.\<close>

fun tr_primary :: "y1_primary \<Rightarrow> aexpr"
  and tr_mul :: "y1_mul \<Rightarrow> aexpr"
  and tr_add :: "y1_add \<Rightarrow> aexpr"
  and tr_cmp :: "y1_cmp \<Rightarrow> expr"
  and tr_not :: "y1_not \<Rightarrow> expr"
  and tr_and :: "y1_and \<Rightarrow> expr"
  and tr_or :: "y1_or \<Rightarrow> expr" where
  "tr_primary (P_value v) = Value (value_datum v)"
| "tr_primary (P_paren e) = Paren (tr_or e)"
| "tr_mul (M_primary p) = tr_primary p"
| "tr_mul (M_mul m p) = Arith OP_MUL (tr_mul m) (tr_primary p)"
| "tr_mul (M_div m p) = Arith OP_DIV (tr_mul m) (tr_primary p)"
| "tr_mul (M_mod m p) = Arith OP_MOD (tr_mul m) (tr_primary p)"
| "tr_add (A_mul m) = tr_mul m"
| "tr_add (A_plus a m) = Arith OP_ADD (tr_add a) (tr_mul m)"
| "tr_add (A_minus a m) = Arith OP_SUB (tr_add a) (tr_mul m)"
| "tr_add (A_concat a m) = Arith OP_CONCAT (tr_add a) (tr_mul m)"
| "tr_cmp (C_add a) = Test (tr_add a)"
| "tr_cmp (C_eq a b) = Cmp OP_EQ (tr_add a) (tr_add b)"
| "tr_cmp (C_ne a b) = Cmp OP_NE (tr_add a) (tr_add b)"
| "tr_cmp (C_lt a b) = Cmp OP_LT (tr_add a) (tr_add b)"
| "tr_cmp (C_le a b) = Cmp OP_LE (tr_add a) (tr_add b)"
| "tr_cmp (C_gt a b) = Cmp OP_GT (tr_add a) (tr_add b)"
| "tr_cmp (C_ge a b) = Cmp OP_GE (tr_add a) (tr_add b)"
| "tr_cmp (C_like a b) = Cmp OP_LIKE (tr_add a) (tr_add b)"
| "tr_cmp (C_in a v vs) = In (tr_add a) (map value_datum (v # vs))"
| "tr_cmp (C_between a b c) = Between (tr_add a) (tr_add b) (tr_add c)"
| "tr_cmp (C_not_in a v vs) = NotIn (tr_add a) (map value_datum (v # vs))"
| "tr_cmp (C_not_like a b) = Cmp OP_NOT_LIKE (tr_add a) (tr_add b)"
| "tr_cmp (C_not_between a b c) = NotBetween (tr_add a) (tr_add b) (tr_add c)"
| "tr_not (N_cmp c) = tr_cmp c"
| "tr_not (N_not n) = Not (tr_not n)"
| "tr_and (D_not n) = tr_not n"
| "tr_and (D_and a n) = And (tr_and a) (tr_not n)"
| "tr_or (O_and a) = tr_and a"
| "tr_or (O_or o' a) = Or (tr_or o') (tr_and a)"

lemma tok_put [simp]: "tok (put t) = (t, V_zero)" "tok (put_value v) = dat (value_datum v)" "tok (put_string s) = (BC_STRING, V_str s)"
  by (simp_all add: tok_def put_value_def put_string_def)

lemma map_tok_values: "map (tok \<circ> put_value) vs = map dat (map value_datum vs)"
  by simp

lemma op_values [simp]:
  "mul_op (BC_CHAR CHR ''*'') = Some OP_MUL" "mul_op (BC_CHAR CHR ''/'') = Some OP_DIV" "mul_op (BC_CHAR CHR ''%'') = Some OP_MOD"
  "add_op (BC_CHAR CHR ''+'') = Some OP_ADD" "add_op (BC_CHAR CHR ''-'') = Some OP_SUB" "add_op BC_CONCAT = Some OP_CONCAT"
  "cmp_token (BC_CHAR CHR ''='') = Some OP_EQ" "cmp_token BC_NE = Some OP_NE" "cmp_token (BC_CHAR CHR ''<'') = Some OP_LT"
  "cmp_token BC_LE = Some OP_LE" "cmp_token (BC_CHAR CHR ''>'') = Some OP_GT" "cmp_token BC_GE = Some OP_GE"
  "cmp_token BC_LIKE = Some OP_LIKE" "cmp_token BC_NOT_LIKE = Some OP_NOT_LIKE"
  by (simp_all add: mul_op_def add_op_def cmp_token_def)

lemma put_derived:
  "y2_atom (map tok (put_primary p)) (tr_primary p)"
  "y2_mul (map tok (put_mul m)) (tr_mul m)"
  "y2_add (map tok (put_add a)) (tr_add a)"
  "y2_cmp (map tok (put_cmp c)) (tr_cmp c)"
  "y2_not (map tok (put_not n)) (tr_not n)"
  "y2_and (map tok (put_and d)) (tr_and d)"
  "y2_or (map tok (put_or e)) (tr_or e)"
proof (induction p and m and a and c and n and d and e)
  case (C_in a v vs)
  have "y2_values (map dat (map value_datum (v # vs))) (map value_datum (v # vs))" by (simp add: y2_values_dats)
  from cmp_in[OF C_in.IH(1) this, of V_zero V_zero V_zero] show ?case by (simp add: comp_def)
next
  case (C_not_in a v vs)
  have "y2_values (map dat (map value_datum (v # vs))) (map value_datum (v # vs))" by (simp add: y2_values_dats)
  from cmp_not_in[OF C_not_in.IH(1) this, of V_zero V_zero V_zero] show ?case by (simp add: comp_def)
qed (auto intro: y2_atom_y2_mul_y2_add_y2_cmp_y2_not_y2_and_y2_or.intros)

section \<open>Statements\<close>

abbreviation str :: "u8 list \<Rightarrow> y2_token" where
  "str s \<equiv> (BC_STRING, V_str s)"

lemma y2_strings_strs: "y2_strings xs ss \<longleftrightarrow> ss \<noteq> [] \<and> xs = map str ss"
proof
  show "y2_strings xs ss \<Longrightarrow> ss \<noteq> [] \<and> xs = map str ss" by (induction rule: y2_strings.induct) simp_all
next
  assume "ss \<noteq> [] \<and> xs = map str ss"
  then show "y2_strings xs ss"
  proof (induction ss arbitrary: xs rule: rev_induct)
    case (snoc d ds)
    then show ?case by (cases "ds = []") (auto intro: y2_strings.intros)
  qed simp
qed

definition decl_tokens :: "decl \<Rightarrow> y2_token list" where
  "decl_tokens d = [(BC_SIZE_T, V_size (dc_size d)), (BC_TYPE, V_type (dc_type d)), str (dc_name d)]"

lemma y2_decls_step:
  "y2_decls (decl_tokens d) [d]" "y2_decls xs ds \<Longrightarrow> y2_decls (xs @ decl_tokens d) (ds @ [d])"
  by (cases d; simp add: decl_tokens_def y2_decls.intros)+

lemma y2_decls_tokens: "y2_decls xs ds \<longleftrightarrow> ds \<noteq> [] \<and> xs = concat (map decl_tokens ds)"
proof
  show "y2_decls xs ds \<Longrightarrow> ds \<noteq> [] \<and> xs = concat (map decl_tokens ds)"
    by (induction rule: y2_decls.induct) (simp_all add: decl_tokens_def)
next
  assume "ds \<noteq> [] \<and> xs = concat (map decl_tokens ds)"
  then show "y2_decls xs ds"
  proof (induction ds arbitrary: xs rule: rev_induct)
    case (snoc d ds)
    then show ?case by (cases "ds = []") (auto intro: y2_decls_step)
  qed simp
qed

lemma decl_tokens_append: "decl_tokens d @ xs = decl_tokens d' @ ys \<longleftrightarrow> d = d' \<and> xs = ys"
  by (cases d; cases d') (auto simp: decl_tokens_def)

lemma decls_unique:
  "concat (map decl_tokens ds) @ [(BC_ARRAY_END, v)] = concat (map decl_tokens ds') @ [(BC_ARRAY_END, w)] \<longleftrightarrow> ds = ds' \<and> v = w"
proof (induction ds arbitrary: ds')
  case Nil
  show ?case by (cases ds') (auto simp: decl_tokens_def)
next
  case (Cons d ds)
  show ?case
  proof (cases ds')
    case Nil
    then show ?thesis by (auto simp: decl_tokens_def)
  next
    case (Cons d' ds')
    then show ?thesis using Cons.IH[of ds'] by (auto simp: decl_tokens_append)
  qed
qed

lemma decls_inj: "concat (map decl_tokens ds) = concat (map decl_tokens ds') \<longleftrightarrow> ds = ds'"
  using decls_unique[of ds V_zero ds' V_zero] by auto

text \<open>The expressions of a WHERE part, read one after the other.\<close>

inductive p_lines :: "y2_token list \<Rightarrow> expr list \<Rightarrow> bool" where
  p_lines_nil: "p_lines [] []"
| p_lines_more: "p_or ts e r \<Longrightarrow> p_lines r es \<Longrightarrow> ts \<noteq> [] \<Longrightarrow> p_lines ts (e # es)"

lemma p_lines_unique: "p_lines ts es \<Longrightarrow> p_lines ts es' \<Longrightarrow> es' = es"
proof (induction arbitrary: es' rule: p_lines.induct)
  case p_lines_nil
  then show ?case by (auto elim: p_lines.cases)
next
  case (p_lines_more ts e r es)
  from p_lines_more.prems p_lines_more.hyps(3) show ?case
    by (cases rule: p_lines.cases) (use p_unique(11)[OF p_lines_more.hyps(1)] p_lines_more.IH in auto)
qed

lemma y2_lines_read: "y2_lines xs es \<Longrightarrow> p_lines r fs \<Longrightarrow> r = [] \<or> opens r \<Longrightarrow> p_lines (xs @ r) (es @ fs)"
proof (induction arbitrary: r fs rule: y2_lines.induct)
  case (lines_one xs e)
  have "p_or (xs @ r) e r"
    by (rule y2_read(7)[OF lines_one.hyps]) (use lines_one.prems(2) in \<open>auto simp: opens_def intro: p_ors_stop\<close>)
  moreover have "xs \<noteq> []" using y2_opens(7)[OF lines_one.hyps] by (auto simp: opens_def)
  ultimately show ?case using lines_one.prems(1) by (auto intro: p_lines_more)
next
  case (lines_more xs es ys e)
  have "p_or (ys @ r) e r"
    by (rule y2_read(7)[OF lines_more.hyps(2)]) (use lines_more.prems(2) in \<open>auto simp: opens_def intro: p_ors_stop\<close>)
  moreover have o: "opens ys" by (rule y2_opens(7)[OF lines_more.hyps(2)])
  ultimately have "p_lines (ys @ r) (e # fs)" using lines_more.prems(1) by (auto simp: opens_def intro: p_lines_more)
  moreover have "opens (ys @ r)" using o by (rule opens_append)
  ultimately show ?case using lines_more.IH[of "ys @ r" "e # fs"] by simp
qed

lemma lines_derived:
  "0 < n \<Longrightarrow> y2_or xs e \<Longrightarrow> y2_lines (concat (replicate n xs)) (replicate n e)"
proof (induction n)
  case (Suc n)
  show ?case
  proof (cases "n = 0")
    case True
    then show ?thesis using Suc.prems by (simp add: lines_one)
  next
    case False
    then have "y2_lines (concat (replicate n xs) @ xs) (replicate n e @ [e])"
      using Suc by (auto intro: lines_more)
    moreover have "concat (replicate n xs) @ xs = concat (replicate n xs @ [xs])" by simp
    ultimately show ?thesis by (simp only: replicate_append_same replicate_Suc)
  qed
qed simp

text \<open>Strings between the brackets of an array.\<close>

lemma strs_unique:
  "map str ss @ (BC_ARRAY_END, w) # r = map str ss' @ (BC_ARRAY_END, w') # r' \<longleftrightarrow> ss = ss' \<and> w = w' \<and> r = r'"
proof
  have f: "inj str" "(BC_ARRAY_END, w) \<notin> range str" "(BC_ARRAY_END, w') \<notin> range str" by (auto simp: inj_def)
  assume e: "map str ss @ (BC_ARRAY_END, w) # r = map str ss' @ (BC_ARRAY_END, w') # r'"
  show "ss = ss' \<and> w = w' \<and> r = r'" using map_split_unique[OF f e] by simp
qed simp

lemma dats_inj: "map dat ds = map dat ds' \<longleftrightarrow> ds = ds'"
  by (rule inj_map_eq_map) (simp add: inj_def)

text \<open>A statement without its loop, the expression of its loop, and what it means over \<open>n\<close> rows.\<close>

definition tr_decl :: "u8 list \<times> y1_type \<Rightarrow> decl" where
  "tr_decl d = \<lparr>dc_name = fst d, dc_size = fst (type_decl (snd d)), dc_type = snd (type_decl (snd d))\<rparr>"

fun cmd_where :: "y1_cmd \<Rightarrow> y1_or option" where
  "cmd_where (DELETE s t e) = e" | "cmd_where (SELECT i ids s t e) = e" | "cmd_where _ = None"

fun tr_cmd :: "nat \<Rightarrow> y1_cmd \<Rightarrow> y2_stmt" where
  "tr_cmd n (CREATE_USER u) = Call_create_user u"
| "tr_cmd n (CREATE_CATALOG c) = Call_create_catalog c"
| "tr_cmd n (CREATE_SCHEMA s) = Call_create_schema s"
| "tr_cmd n (CREATE_TABLE s t d ds) = Call_create_table s t (map tr_decl (d # ds))"
| "tr_cmd n START_TRANSACTION = Call_start"
| "tr_cmd n COMMIT = Call_commit"
| "tr_cmd n ROLLBACK = Call_rollback"
| "tr_cmd n (INSERT s t i ids v vs) = Call_insert s t (i # ids) (map value_datum (v # vs))"
| "tr_cmd n (DELETE s t e) = Call_delete s t (map_option (\<lambda>e. replicate n (tr_or e)) e)"
| "tr_cmd n (SELECT i ids s t e) = Call_select (i # ids) s t (map_option (\<lambda>e. replicate n (tr_or e)) e)"

definition where_tokens :: "nat \<Rightarrow> y1_or option \<Rightarrow> y2_token list" where
  "where_tokens n e = (case e of None \<Rightarrow> [] | Some e \<Rightarrow> (BC_WHERE, V_zero) # concat (replicate n (map tok (put_or e))))"

fun cmd_head :: "y1_cmd \<Rightarrow> bc_node list" where
  "cmd_head (DELETE s t e) = [put BC_DELETE, put_string s, put_string t]"
| "cmd_head (SELECT i ids s t e) = [put BC_SELECT, put BC_ARRAY_BEGIN] @ map put_string (i # ids) @ [put BC_ARRAY_END, put_string s, put_string t]"
| "cmd_head c = put_cmd (Some []) c"

definition cmd_tokens :: "nat \<Rightarrow> y1_cmd \<Rightarrow> y2_token list" where
  "cmd_tokens n c = map tok (cmd_head c) @ where_tokens n (cmd_where c)"

lemma p_lines_replicate:
  assumes "y2_or xs e"
  shows "p_lines (concat (replicate n xs)) (replicate n e)"
proof (cases "n = 0")
  case False
  then have "y2_lines (concat (replicate n xs)) (replicate n e)" using lines_derived[OF _ assms] by simp
  from y2_lines_read[OF this p_lines_nil] show ?thesis by simp
qed (simp add: p_lines_nil)

text \<open>A WHERE part without a pass is no derivation; with \<open>n\<close> passes there is one.\<close>

lemma where_unique: "y2_mb_where (where_tokens n e) x \<longleftrightarrow> (e \<noteq> None \<longrightarrow> 0 < n) \<and> x = map_option (\<lambda>e. replicate n (tr_or e)) e"
proof (cases e)
  case None
  then show ?thesis by (auto simp: where_tokens_def intro: where_none elim: y2_mb_where.cases)
next
  case (Some e')
  let ?xs = "map tok (put_or e')"
  have d: "y2_or ?xs (tr_or e')" by (rule put_derived(7))
  have ne: "y2_lines xs es \<Longrightarrow> xs \<noteq> [] \<and> es \<noteq> []" for xs es
    by (induction rule: y2_lines.induct) (auto dest!: y2_opens(7) simp: opens_def)
  have "y2_lines (concat (replicate n ?xs)) es \<longleftrightarrow> 0 < n \<and> es = replicate n (tr_or e')" for es
  proof
    assume l: "y2_lines (concat (replicate n ?xs)) es"
    then have "p_lines (concat (replicate n ?xs)) es" using y2_lines_read[OF l p_lines_nil] by simp
    then have "es = replicate n (tr_or e')" by (rule p_lines_unique[OF p_lines_replicate[OF d]])
    then show "0 < n \<and> es = replicate n (tr_or e')" using ne[OF l] by (cases n) auto
  qed (use lines_derived[OF _ d] in auto)
  then show ?thesis using Some by (auto simp: where_tokens_def intro: where_lines elim: y2_mb_where.cases)
qed

lemma tok_decl: "map tok (put_decl d) = decl_tokens (tr_decl d)"
  by (simp add: put_decl_def decl_tokens_def tr_decl_def) (simp add: tok_def)

lemma map_tok_decls: "map tok (concat (map put_decl ds)) = concat (map decl_tokens (map tr_decl ds))"
  by (induction ds) (simp_all add: tok_decl)

lemma cmd_unique: "y2_cmd (cmd_tokens n c) x \<longleftrightarrow> (cmd_where c \<noteq> None \<longrightarrow> 0 < n) \<and> x = tr_cmd n c"
proof (cases c)
  case (CREATE_TABLE s t d ds)
  let ?ds = "map tr_decl (d # ds)"
  have t: "cmd_tokens n c = [(BC_CREATE, V_zero), (BC_TABLE, V_zero), str s, str t, (BC_ARRAY_BEGIN, V_zero)] @
      concat (map decl_tokens ?ds) @ [(BC_ARRAY_END, V_zero)]"
    using CREATE_TABLE map_tok_decls[of "d # ds"] by (simp add: cmd_tokens_def where_tokens_def)
  have "y2_decls (concat (map decl_tokens ?ds)) ?ds" by (simp add: y2_decls_tokens)
  then have "y2_cmd (cmd_tokens n c) (Call_create_table s t ?ds)" unfolding t by (rule cmd_table)
  moreover have "x = Call_create_table s t ?ds" if "y2_cmd (cmd_tokens n c) x"
    using that unfolding t by (cases rule: y2_cmd.cases) (auto simp: y2_decls_tokens decls_inj simp del: list.map map_map)
  ultimately show ?thesis using CREATE_TABLE by auto
next
  case (INSERT s t i ids v vs)
  let ?ids = "i # ids" and ?vs = "map value_datum (v # vs)"
  have t: "cmd_tokens n c = [(BC_INSERT, V_zero), str s, str t, (BC_ARRAY_BEGIN, V_zero)] @ map str ?ids @
      [(BC_ARRAY_END, V_zero), (BC_ARRAY_BEGIN, V_zero)] @ map dat ?vs @ [(BC_ARRAY_END, V_zero)]"
    using INSERT by (simp add: cmd_tokens_def where_tokens_def)
  have "y2_strings (map str ?ids) ?ids" "y2_values (map dat ?vs) ?vs" by (simp_all add: y2_strings_strs y2_values_dats)
  then have "y2_cmd (cmd_tokens n c) (Call_insert s t ?ids ?vs)" unfolding t by (rule cmd_insert)
  moreover have "x = Call_insert s t ?ids ?vs" if "y2_cmd (cmd_tokens n c) x"
    using that unfolding t
    by (cases rule: y2_cmd.cases) (auto simp: y2_strings_strs y2_values_dats strs_unique dats_inj simp del: list.map map_map)
  ultimately show ?thesis using INSERT by auto
next
  case (DELETE s t e)
  have t: "cmd_tokens n c = [(BC_DELETE, V_zero), str s, str t] @ where_tokens n e" using DELETE by (simp add: cmd_tokens_def)
  have "y2_cmd (cmd_tokens n c) x \<longleftrightarrow> (\<exists>es. y2_mb_where (where_tokens n e) es \<and> x = Call_delete s t es)"
  proof
    assume "y2_cmd (cmd_tokens n c) x"
    then show "\<exists>es. y2_mb_where (where_tokens n e) es \<and> x = Call_delete s t es" unfolding t by (cases rule: y2_cmd.cases) auto
  qed (auto simp: t intro: cmd_delete[of "where_tokens n e", simplified])
  then show ?thesis using DELETE by (auto simp: where_unique)
next
  case (SELECT i ids s t e)
  let ?ids = "i # ids"
  have t: "cmd_tokens n c = [(BC_SELECT, V_zero), (BC_ARRAY_BEGIN, V_zero)] @ map str ?ids @
      [(BC_ARRAY_END, V_zero), str s, str t] @ where_tokens n e"
    using SELECT by (simp add: cmd_tokens_def)
  have "y2_cmd (cmd_tokens n c) x \<longleftrightarrow> (\<exists>es. y2_mb_where (where_tokens n e) es \<and> x = Call_select ?ids s t es)"
  proof
    assume "y2_cmd (cmd_tokens n c) x"
    then show "\<exists>es. y2_mb_where (where_tokens n e) es \<and> x = Call_select ?ids s t es" unfolding t
      by (cases rule: y2_cmd.cases) (auto simp: y2_strings_strs strs_unique simp del: list.map)
  next
    have "y2_strings (map str ?ids) ?ids" by (simp add: y2_strings_strs)
    then show "\<exists>es. y2_mb_where (where_tokens n e) es \<and> x = Call_select ?ids s t es \<Longrightarrow> y2_cmd (cmd_tokens n c) x"
      unfolding t by (auto simp del: list.map append_Cons append_Nil intro: cmd_select)
  qed
  then show ?thesis using SELECT by (auto simp: where_unique)
qed (auto simp: cmd_tokens_def where_tokens_def intro: y2_cmd.intros elim: y2_cmd.cases)

section \<open>From SQL to the calls\<close>

definition needs_catalog :: "y1_cmd \<Rightarrow> bool" where
  "needs_catalog c \<longleftrightarrow> (case c of CREATE_SCHEMA _ \<Rightarrow> True | CREATE_TABLE _ _ _ _ \<Rightarrow> True | _ \<Rightarrow> False)"

lemma put_cmd_shape:
  "needs_catalog c \<longrightarrow> cat \<noteq> None \<Longrightarrow> put_cmd cat c = cmd_head c @ (case cmd_where c of None \<Rightarrow> []
     | Some e \<Rightarrow> [put BC_WHERE] @ loop_begin V_zero # put_or e @ loop_end V_zero # [])"
  by (cases c) (auto simp: needs_catalog_def put_mb_where_def split: option.splits)

lemma plain_puts:
  "t \<noteq> BC_LOOP_BEGIN \<Longrightarrow> t \<noteq> BC_LOOP_END \<Longrightarrow> plain (put t)" "plain (put_value v)" "plain (put_string s)"
  "n \<in> set (put_decl d) \<Longrightarrow> plain n"
  by (auto simp: plain_def put_value_def put_string_def put_decl_def)

lemma plain_put:
  "n \<in> set (put_primary p) \<Longrightarrow> plain n" "n \<in> set (put_mul m) \<Longrightarrow> plain n" "n \<in> set (put_add a) \<Longrightarrow> plain n"
  "n \<in> set (put_cmp c) \<Longrightarrow> plain n" "n \<in> set (put_not o') \<Longrightarrow> plain n" "n \<in> set (put_and d) \<Longrightarrow> plain n"
  "n \<in> set (put_or e) \<Longrightarrow> plain n"
  by (induction p and m and a and c and o' and d and e) (auto simp: plain_puts)

lemma plain_head: "n \<in> set (cmd_head c) \<Longrightarrow> plain n"
  by (cases c) (auto simp: plain_puts)

lemma put_or_ne: "put_or e \<noteq> []"
  using y2_opens(7)[OF put_derived(7)[of e]] by (auto simp: opens_def)

text \<open>
  C23: The two parsers agree: the tokens that hquery.y puts for a statement (for CREATE SCHEMA
  and CREATE TABLE in a session with a catalog), prepared and read by y2lex over the rows of
  the table, are derived from the productions of execute.y in exactly one way: the call of the
  statement with the tree its expression had, once for each row, operators binding as in the
  SQL; a WHERE part over no row is a syntax error.
\<close>

theorem statement_compiles:
  assumes "bc_holds bc (put_cmd cat c)" and "needs_catalog c \<longrightarrow> cat \<noteq> None" and "titor_collect tp s t = Some ps"
  shows "\<exists>bc' ts. bc_prepare bc = Some (bc', 0) \<and> y2lex_all tp s (bc'\<lparr>bc_itor := 0, bc_titor := t\<rparr>) = Some ts \<and>
    (\<forall>x. y2_cmd ts x \<longleftrightarrow> (cmd_where c \<noteq> None \<longrightarrow> ps \<noteq> []) \<and> x = tr_cmd (length ps) c)"
proof -
  have u: "y2_cmd (cmd_tokens (length ps) c) x \<longleftrightarrow> (cmd_where c \<noteq> None \<longrightarrow> ps \<noteq> []) \<and> x = tr_cmd (length ps) c" for x
    by (simp add: cmd_unique)
  have "\<exists>bc'. bc_prepare bc = Some (bc', 0) \<and> y2lex_all tp s (bc'\<lparr>bc_itor := 0, bc_titor := t\<rparr>) = Some (cmd_tokens (length ps) c)"
  proof (cases "cmd_where c")
    case None
    then have ns: "bc_holds bc (code_nodes (foldr Step (cmd_head c) Done))"
      using assms(1) put_cmd_shape[OF assms(2)] by (simp add: steps_code)
    have p: "code_plain (foldr Step (cmd_head c) Done)" by (simp add: steps_code plain_head)
    obtain a where a: "bc_prepare bc = Some (bc\<lparr>bc_tokens := a\<rparr>, 0)" "bc_holds (bc\<lparr>bc_tokens := a\<rparr>) (cmd_head c)"
      using bc_prepare_linked[OF ns p] by (auto simp: steps_code)
    have "lexed tp s (bc\<lparr>bc_tokens := a\<rparr>) 0 t = Some (map tok (cmd_head c))"
      by (rule lexed_tail[OF a(2), of "[]"]) (simp_all add: plain_head)
    then show ?thesis using a(1) None by (simp add: lexed_def lex_state_def cmd_tokens_def where_tokens_def)
  next
    case (Some e)
    have ns: "bc_holds bc ((cmd_head c @ [put BC_WHERE]) @ loop_begin V_zero # put_or e @ loop_end V_zero # [])"
      using assms(1) put_cmd_shape[OF assms(2)] Some by simp
    have p: "\<forall>n \<in> set ((cmd_head c @ [put BC_WHERE]) @ put_or e @ []). plain n"
      by (auto simp: plain_puts dest: plain_head plain_put)
    obtain bc' where "bc_prepare bc = Some (bc', 0)" "y2lex_all tp s (bc'\<lparr>bc_itor := of_nat 0, bc_titor := t\<rparr>) =
        Some (map tok (drop 0 (cmd_head c @ [put BC_WHERE]) @ concat (replicate (length ps) (put_or e)) @ []))"
      using bytecode_loops[OF ns p put_or_ne assms(3), of 0] by auto
    then show ?thesis using Some by (simp add: cmd_tokens_def where_tokens_def map_concat)
  qed
  then show ?thesis using u by blast
qed

text \<open>DELETE FROM s.t WHERE NOT a > 1 + 2, over a table with one visible row.\<close>

definition sample_where :: y1_or where
  "sample_where = O_and (D_not (N_not (N_cmp (C_gt (A_mul (M_primary (P_value (VID (ascii ''a'')))))
     (A_plus (A_mul (M_primary (P_value (VINTEGER 1)))) (M_primary (P_value (VINTEGER 2))))))))"

theorem statement_compiles_witness:
  "\<exists>m bc bc' t ts. bc_puts (\<lambda>_ _. True) (\<lambda>_. loop_end V_zero) some_memory (bc_init (Some 1))
       (put_cmd None (DELETE [115] [116] (Some sample_where))) = Some (m, bc) \<and>
     bc_prepare bc = Some (bc', 0) \<and> titor_collect tran_sample mvcc_sample t = Some [(5, 0)] \<and>
     y2lex_all tran_sample mvcc_sample (bc'\<lparr>bc_itor := 0, bc_titor := t\<rparr>) = Some ts \<and>
     (\<forall>x. y2_cmd ts x \<longleftrightarrow> x = Call_delete [115] [116] (Some [Not (Cmp OP_GT (Value (make_name (ascii ''a'')))
       (Arith OP_ADD (Value (make_bigint 1)) (Value (make_bigint 2))))]))"
proof -
  let ?c = "DELETE [115] [116] (Some sample_where)"
  have "length (put_cmd None ?c) < 1000" by (simp add: put_mb_where_def sample_where_def)
  from filled_bc[OF this] obtain m bc where
    f: "bc_puts (\<lambda>_ _. True) (\<lambda>_. loop_end V_zero) some_memory (bc_init (Some 1)) (put_cmd None ?c) = Some (m, bc)"
    and h: "bc_holds bc (put_cmd None ?c)" by blast
  obtain t where t: "titor_collect tran_sample mvcc_sample t = Some [(5, 0)]" by (rule sample_collect)
  have n: "needs_catalog ?c \<longrightarrow> (None :: u8 list option) \<noteq> None" by (simp add: needs_catalog_def)
  have "tr_cmd (length [(5 :: gid, 0 :: nat)]) ?c = Call_delete [115] [116] (Some [Not (Cmp OP_GT (Value (make_name (ascii ''a'')))
       (Arith OP_ADD (Value (make_bigint 1)) (Value (make_bigint 2))))])"
    by (simp add: sample_where_def value_datum_def)
  then show ?thesis using statement_compiles[OF h n t] f t by (auto simp del: put_cmd.simps tr_cmd.simps)
qed

end
