(* ===== verification/Scr_Statement.thy ===== *)
theory Scr_Statement
  imports Scr_Query_Laws
begin

text \<open>
  What the server does with a statement: the actions of \<^verbatim>\<open>execute.y\<close> for
  whole statements, \<^verbatim>\<open>execute_cmd\<close> and the header of
  \<^verbatim>\<open>hquery.y\<close>, and the string helpers of \<^verbatim>\<open>hquery.l\<close>.
\<close>

section \<open>Statements\<close>

type_synonym 'w stmt_result = "(db \<times> sess \<times> 'w \<times> session \<times> int) option"

text \<open>The actions that send what their call returns.\<close>

definition send_result :: "'w os_send \<Rightarrow> 'w \<Rightarrow> session \<Rightarrow> (db \<times> sess \<times> scrc_status) option \<Rightarrow> 'w stmt_result" where
  "send_result os_send w s r = do {
     (d, ss, st) \<leftarrow> r;
     (w, s) \<leftarrow> session_send_status os_send w s st;
     Some (d, ss, w, s, 0) }"

definition keep_session :: "sess \<Rightarrow> (db \<times> scrc_status) option \<Rightarrow> (db \<times> sess \<times> scrc_status) option" where
  "keep_session ss r = map_option (\<lambda>(d, st). (d, ss, st)) r"

text \<open>
  y2parse on the tokens of a statement: 1 is a syntax error, which a statement without the
  catalog it needs is, or an action that aborts. \<open>junk\<close> is the uninitialised transaction
  pointer of rows.
\<close>

fun exec_cmd ::
    "'w os_send \<Rightarrow> u8 list \<Rightarrow> tran option \<Rightarrow> server_sys \<Rightarrow> y1_cmd \<Rightarrow> db \<Rightarrow> sess \<Rightarrow> 'w \<Rightarrow> session \<Rightarrow> 'w stmt_result" where
  "exec_cmd os_send pad junk sys (CREATE_USER u) d ss w s =
     send_result os_send w s (keep_session ss (create_user junk sys d u))"
| "exec_cmd os_send pad junk sys (CREATE_CATALOG c) d ss w s =
     send_result os_send w s (keep_session ss (create_catalog junk sys d c))"
| "exec_cmd os_send pad junk sys (CREATE_SCHEMA n) d ss w s = (if ss_catalog ss = None then Some (d, ss, w, s, 1)
     else send_result os_send w s (keep_session ss (create_schema junk sys ss d n)))"
| "exec_cmd os_send pad junk sys (CREATE_TABLE n t c cs) d ss w s = (if ss_catalog ss = None then Some (d, ss, w, s, 1)
     else send_result os_send w s (keep_session ss (create_table junk sys ss d n t (map tr_decl (c # cs)) GC_MVCC)))"
| "exec_cmd os_send pad junk sys START_TRANSACTION d ss w s = send_result os_send w s (tcl_start sys ss d)"
| "exec_cmd os_send pad junk sys COMMIT d ss w s = send_result os_send w s (tcl_commit ss d)"
| "exec_cmd os_send pad junk sys ROLLBACK d ss w s = send_result os_send w s (tcl_rollback ss d)"
| "exec_cmd os_send pad junk sys (INSERT n t i ids v vs) d ss w s = do {
     vals \<leftarrow> eval_values (db_store d) titor_init_invalid (map value_datum (v # vs));
     send_result os_send w s (insert_stmt junk sys ss d n t (i # ids) vals GC_MVCC) }"
| "exec_cmd os_send pad junk sys (DELETE n t e) d ss w s =
     map_option (\<lambda>(d, ss, w, s, r). (d, ss, w, s, int r)) (exec_delete os_send sys n t (map_option tr_or e) d ss w s)"
| "exec_cmd os_send pad junk sys (SELECT i ids n t e) d ss w s =
     map_option (\<lambda>(d, ss, w, s, r). (d, ss, w, s, int r)) (exec_select os_send pad sys n t (i # ids) (map_option tr_or e) d ss w s)"

text \<open>\<open>y2parse\<close> is what the parser does with the prepared bytecode.\<close>

definition execute_cmd ::
    "'w os_send \<Rightarrow> (bc \<Rightarrow> db \<Rightarrow> sess \<Rightarrow> 'w \<Rightarrow> session \<Rightarrow> 'w stmt_result) \<Rightarrow> bc \<Rightarrow> db \<Rightarrow> sess \<Rightarrow> 'w \<Rightarrow> session \<Rightarrow> 'w stmt_result" where
  "execute_cmd os_send y2parse bc d ss w s = (let fail = (\<lambda>d ss w s st ret. do {
       (w, s) \<leftarrow> session_send_status os_send w s st;
       Some (d, ss, w, s, ret) }) in do {
     (bc, ret) \<leftarrow> bc_prepare bc;
     if ret = 1 then fail d ss w s SCRS_BYTECODE_STACK_OVERFLOW 1
     else if ret = 2 then fail d ss w s SCRS_BYTECODE_UNBALANCED_STACK 2
     else if ret \<noteq> 0 then fail d ss w s SCRS_BYTECODE_UNKNOWN_ERROR 3
     else do {
       (d, ss, w, s, ret) \<leftarrow> y2parse bc d ss w s;
       if ret = 0 then Some (d, ss, w, s, 0)
       else if ret = 1 then fail d ss w s SCRS_PARSER_ERROR 4
       else if ret = 2 then fail d ss w s SCRS_PARSER_MEMORY_EXHAUSTION 5
       else fail d ss w s SCRS_UNKNOWN_PARSER_ERROR 6 } })"

section \<open>The header of a query\<close>

text \<open>The loop of the header line for the catalog; \<open>None\<close> inside is that no row has the name.\<close>

partial_function (option) find_catalog ::
    "tran_page \<Rightarrow> store \<Rightarrow> u8 list \<Rightarrow> u16 \<Rightarrow> u16 \<Rightarrow> titor \<Rightarrow> gid option option" where
  "find_catalog tp s name name_idx tran_sequence_idx i = do {
     valid \<leftarrow> titor_is_valid s i;
     if \<not> valid then Some None
     else do {
       dcatalog \<leftarrow> titor_get_datum s i name_idx;
       eq \<leftarrow> eq_character dcatalog (make_char name);
       if eq then do {
         dsequence \<leftarrow> titor_get_datum s i tran_sequence_idx;
         if dt_bigint dsequence = GID_UNDEF then None else Some (Some (dt_bigint dsequence)) }
       else do {
         i' \<leftarrow> titor_next tp s i;
         find_catalog tp s name name_idx tran_sequence_idx i' } } }"

declare find_catalog.simps [code]

definition header_user :: "u8 list \<Rightarrow> sess \<Rightarrow> sess" where
  "header_user v ss = ss\<lparr>ss_user := Some v\<rparr>"

text \<open>The value may be empty. The second result is catalog_tran_sequence_gid.\<close>

definition header_catalog ::
    "'w os_send \<Rightarrow> server_sys \<Rightarrow> u8 list option \<Rightarrow> db \<Rightarrow> sess \<Rightarrow> gid \<Rightarrow> 'w \<Rightarrow> session \<Rightarrow> (sess \<times> gid \<times> 'w \<times> session) option" where
  "header_catalog os_send sys v d ss seq w s = (let gp = sys_catalog sys in do {
     hcatalog \<leftarrow> st_h (db_store d) (gp_header gp);
     let name_idx = hgrid_get_column_idx hcatalog (ascii ''name'');
     let tran_sequence_idx = hgrid_get_column_idx hcatalog (ascii ''tran_sequence'');
     (case v of None \<Rightarrow> Some (ss, seq, w, s)
      | Some name \<Rightarrow>
          if name = [] then Some (ss, seq, w, s)
          else if \<not> grid_idx_is_valid name_idx \<or> \<not> grid_idx_is_valid tran_sequence_idx then None
          else do {
            i \<leftarrow> titor_init (db_tran d) (db_store d) (sess_tran d ss) gp (gp_header gp) (gp_data gp);
            r \<leftarrow> find_catalog (db_tran d) (db_store d) name name_idx tran_sequence_idx i;
            (case r of
               Some g \<Rightarrow> Some (ss\<lparr>ss_catalog := Some name\<rparr>, g, w, s)
             | None \<Rightarrow> do {
                 (w, s) \<leftarrow> session_send_status os_send w s SCRS_UNKNOWN_CATALOG;
                 Some (ss, seq, w, s) }) }) })"

definition header_end :: "'w os_send \<Rightarrow> sess \<Rightarrow> 'w \<Rightarrow> session \<Rightarrow> ('w \<times> session) option" where
  "header_end os_send ss w s = session_send_status os_send w s (if ss_user ss = None then SCRS_NO_USER else SCRS_OK)"

section \<open>Strings of the scanner\<close>

text \<open>
  str_unescape on the text behind its opening quote; the byte for an unknown escape is left
  as it was in the new block (\<open>junk\<close>), and a backslash before the end is read past it.
\<close>

fun unescape_from :: "(nat \<Rightarrow> u8) \<Rightarrow> u8 \<Rightarrow> nat \<Rightarrow> u8 list \<Rightarrow> u8 list option" where
  "unescape_from junk q i [] = Some []"
| "unescape_from junk q i (c # s) =
     (if c = q then Some []
      else if c = 92 then (case s of [] \<Rightarrow> None
        | e # s \<Rightarrow> map_option ((#) (if e = q then q else if e = 10 \<or> e = 9 \<or> e = 92 then e else junk i))
            (unescape_from junk q (i + 1) s))
      else map_option ((#) c) (unescape_from junk q (i + 1) s))"

definition str_unescape :: "(nat \<Rightarrow> u8) \<Rightarrow> u8 list \<Rightarrow> u8 \<Rightarrow> u8 list option" where
  "str_unescape junk s q = unescape_from junk q 0 (takeWhile (\<lambda>c. c \<noteq> 0) (tl s))"

text \<open>The value of a header line; one of blanks only is scanned backwards out of its block.\<close>

definition blank :: "u8 \<Rightarrow> bool" where
  "blank c \<longleftrightarrow> c = 32 \<or> c = 9 \<or> c = 13"

definition y1_trim :: "u8 list \<Rightarrow> u8 list option" where
  "y1_trim src = (if src = [] then Some []
     else if \<forall>c \<in> set src. blank c then None
     else Some (rev (dropWhile blank (rev (dropWhile blank src)))))"

text \<open>A text between quotes, with its quotes and backslashes escaped, comes back from the scanner.\<close>

definition escape :: "u8 \<Rightarrow> u8 list \<Rightarrow> u8 list" where
  "escape q s = concat (map (\<lambda>c. if c = q \<or> c = 92 then [92, c] else [c]) s)"

lemma unescape_escape:
  "q \<noteq> 92 \<Longrightarrow> unescape_from junk q i (escape q s @ q # r) = Some s"
  by (induction s arbitrary: i) (simp_all add: escape_def)

lemma str_unescape_escape:
  assumes "q \<noteq> 92" "q \<noteq> 0" "0 \<notin> set s"
  shows "str_unescape junk (q # escape q s @ [q]) q = Some s"
proof -
  have "\<forall>c \<in> set (escape q s @ [q]). c \<noteq> 0" using assms by (auto simp: escape_def)
  then have "takeWhile (\<lambda>c. c \<noteq> 0) (escape q s @ [q]) = escape q s @ [q]" by (simp add: takeWhile_eq_all_conv)
  then show ?thesis using unescape_escape[OF assms(1), of junk 0 s "[]"] by (simp add: str_unescape_def)
qed

text \<open>A backslash with the letter n is neither of them: the byte is whatever the block held.\<close>

lemma unescape_drops_letter: "str_unescape junk (34 # [92, 110] @ [34]) 34 = Some [junk 0]"
  by (simp add: str_unescape_def)

end
