(* ===== verification/Scr_Scrc.thy ===== *)
theory Scr_Scrc
  imports Scr_Session
begin

text \<open>
  The client library \<^verbatim>\<open>lib/core/src/scrc.c\<close>. The system calls send and recv are
  arguments of the model. A status is the 32 bit value of the enumeration, because the
  server's status is passed on as the number it sent. Pointers into the receive buffer are
  offsets: \<open>None\<close> as a result is an access outside a buffer or a loop that does not end.
  Failing allocations are not modelled.
\<close>

section \<open>State\<close>

definition BUFSZ :: nat where
  "BUFSZ = 65536"

definition RESERVESZ :: nat where
  "RESERVESZ = BUFSZ"

definition FULLSZ :: nat where
  "FULLSZ = BUFSZ + RESERVESZ"

type_synonym status = u32

definition code :: "scrc_status \<Rightarrow> status" where
  "code st = of_nat (status_value st)"

text \<open>What recv returns: the bytes (none at the end of the stream), or -1 with EINTR or another errno.\<close>

datatype recv_result = Received "u8 list" | Recv_Eintr | Recv_Error

type_synonym 'w os_recv = "'w \<Rightarrow> i32 \<Rightarrow> nat \<Rightarrow> 'w \<times> recv_result"

text \<open>\<open>conn_columns\<close> holds the images of the \<open>Column\<close> structs.\<close>

record conn =
  conn_status :: status
  conn_user :: "u8 list"
  conn_catalog :: "u8 list option"
  conn_sockfd :: i32
  conn_columns :: "u8 list list"
  conn_rbuf :: "u8 list"
  conn_rlen :: nat
  conn_rpos :: nat
  conn_body :: bool

section \<open>Sending\<close>

partial_function (option) scrc_send_loop ::
    "'w os_send \<Rightarrow> 'w \<Rightarrow> i32 \<Rightarrow> u8 list \<Rightarrow> nat \<Rightarrow> ('w \<times> status) option" where
  "scrc_send_loop os_send w fd data sent =
     (if sent < length data then let (w', r) = os_send w fd (drop sent data) in
        (case r of
           Send_Eintr \<Rightarrow> scrc_send_loop os_send w' fd data sent
         | Send_Error \<Rightarrow> Some (w', code SCRC_SEND_ERROR)
         | Sent n \<Rightarrow> scrc_send_loop os_send w' fd data (sent + n))
      else Some (w, code SCRC_OK))"

declare scrc_send_loop.simps [code]

text \<open>
  Text is printed into an array of BUFSZ bytes with snprintf, which cuts it off, but the
  length sent is that of the whole text: a longer text is read past the array.
\<close>

definition send_printed :: "'w os_send \<Rightarrow> 'w \<Rightarrow> i32 \<Rightarrow> u8 list \<Rightarrow> ('w \<times> status) option" where
  "send_printed os_send w fd text =
     (if BUFSZ < length text then None
      else scrc_send_loop os_send w fd (if length text = BUFSZ then butlast text @ [0] else text) 0)"

definition send_header :: "'w os_send \<Rightarrow> 'w \<Rightarrow> conn \<Rightarrow> ('w \<times> status) option" where
  "send_header os_send w c = send_printed os_send w (conn_sockfd c)
     (ascii ''user: '' @ conn_user c @ [10] @
      (case conn_catalog c of None \<Rightarrow> [] | Some cat \<Rightarrow> ascii ''catalog: '' @ cat @ [10]) @ ascii ''$$'' @ [10])"

definition send_query :: "'w os_send \<Rightarrow> 'w \<Rightarrow> conn \<Rightarrow> u8 list \<Rightarrow> ('w \<times> status) option" where
  "send_query os_send w c query = (if query = [] then Some (w, code SCRC_OK)
     else send_printed os_send w (conn_sockfd c) (query @ [10] @ ascii ''$$'' @ [10]))"

section \<open>The receive buffer\<close>

text \<open>The loop that repeats an interrupted recv.\<close>

partial_function (option) recv_retry :: "'w os_recv \<Rightarrow> 'w \<Rightarrow> i32 \<Rightarrow> nat \<Rightarrow> ('w \<times> u8 list option) option" where
  "recv_retry os_recv w fd space = (let (w', r) = os_recv w fd space in
     (case r of
        Recv_Eintr \<Rightarrow> recv_retry os_recv w' fd space
      | Recv_Error \<Rightarrow> Some (w', None)
      | Received bs \<Rightarrow> Some (w', Some bs)))"

declare recv_retry.simps [code]

definition recv_compact :: "conn \<Rightarrow> conn" where
  "recv_compact c = (if FULLSZ - conn_rlen c < RESERVESZ then
     let valid = conn_rlen c - conn_rpos c;
         c = (if 0 < valid \<and> 0 < conn_rpos c
              then c\<lparr>conn_rbuf := write_at (conn_rbuf c) 0 (read_at (conn_rbuf c) (conn_rpos c) valid)\<rparr> else c)
     in c\<lparr>conn_rlen := valid, conn_rpos := 0\<rparr>
   else c)"

definition recv_refill :: "'w os_recv \<Rightarrow> 'w \<Rightarrow> conn \<Rightarrow> ('w \<times> conn \<times> status) option" where
  "recv_refill os_recv w c = (let c = recv_compact c in do {
     (w, r) \<leftarrow> recv_retry os_recv w (conn_sockfd c) (FULLSZ - conn_rlen c);
     (case r of
        None \<Rightarrow> Some (w, c, code SCRC_RECV_ERROR)
      | Some bs \<Rightarrow> if bs = [] then Some (w, c, code SCRC_CONNECTION_CLOSED)
          else Some (w, c\<lparr>conn_rbuf := write_at (conn_rbuf c) (conn_rlen c) bs,
                         conn_rlen := conn_rlen c + length bs\<rparr>, code SCRC_OK)) })"

partial_function (option) recv_fill :: "'w os_recv \<Rightarrow> 'w \<Rightarrow> conn \<Rightarrow> nat \<Rightarrow> ('w \<times> conn \<times> status) option" where
  "recv_fill os_recv w c n =
     (if conn_rlen c - conn_rpos c < n
      then Option.bind (recv_refill os_recv w c) (\<lambda>(w', c', ret).
        if ret \<noteq> code SCRC_OK then Some (w', c', ret) else recv_fill os_recv w' c' n)
      else Some (w, c, code SCRC_OK))"

declare recv_fill.simps [code]

text \<open>The pointer is \<open>None\<close> where \<open>*p\<close> is NULL.\<close>

definition recv_block :: "'w os_recv \<Rightarrow> 'w \<Rightarrow> conn \<Rightarrow> nat \<Rightarrow> ('w \<times> conn \<times> status \<times> nat option) option" where
  "recv_block os_recv w c n = (if BUFSZ < n then Some (w, c, code SCRC_BUFFER_OVERFLOW, None)
     else do {
       (w, c, ret) \<leftarrow> recv_fill os_recv w c n;
       if ret \<noteq> code SCRC_OK then Some (w, c, ret, None)
       else Some (w, c\<lparr>conn_rpos := conn_rpos c + n\<rparr>, ret, Some (conn_rpos c)) })"

section \<open>Header lines\<close>

definition isspace :: "u8 \<Rightarrow> bool" where
  "isspace b \<longleftrightarrow> b = 32 \<or> 9 \<le> b \<and> b \<le> 13"

text \<open>The scans of trim; each fails when it leaves the buffer.\<close>

function skip_spaces :: "u8 list \<Rightarrow> nat \<Rightarrow> nat option" where
  "skip_spaces buf i = (if length buf \<le> i then None
     else if buf ! i \<noteq> 0 \<and> isspace (buf ! i) then skip_spaces buf (i + 1) else Some i)"
  by pat_completeness auto
termination by (relation "measure (\<lambda>(buf, i). length buf - i)") auto

function line_end :: "u8 list \<Rightarrow> nat \<Rightarrow> nat option" where
  "line_end buf i = (if length buf \<le> i then None
     else if buf ! i \<noteq> 0 \<and> buf ! i \<noteq> 10 then line_end buf (i + 1) else Some i)"
  by pat_completeness auto
termination by (relation "measure (\<lambda>(buf, i). length buf - i)") auto

declare skip_spaces.simps [simp del] line_end.simps [simp del]

fun back_spaces :: "u8 list \<Rightarrow> nat \<Rightarrow> nat \<Rightarrow> nat option" where
  "back_spaces buf src i = (if i \<noteq> src \<and> isspace (buf ! i) then (case i of 0 \<Rightarrow> None | Suc j \<Rightarrow> back_spaces buf src j)
     else Some i)"

declare back_spaces.simps [simp del]

definition trim :: "u8 list \<Rightarrow> nat \<Rightarrow> (u8 list \<times> nat) option" where
  "trim buf src = (if length buf \<le> src then None
     else if buf ! src = 0 then Some (buf, src)
     else do {
       src \<leftarrow> skip_spaces buf src;
       e \<leftarrow> line_end buf src;
       (case e of 0 \<Rightarrow> None | Suc e \<Rightarrow> do {
          e \<leftarrow> back_spaces buf src e;
          Some (buf[e + 1 := 0], src) }) })"

text \<open>The pointers are \<open>None\<close> until they are assigned; the value is NULL for a line without a colon.\<close>

record header_line =
  hl_name :: "nat option"
  hl_value :: "nat option"

definition HEADER_MAX :: nat where
  "HEADER_MAX = BUFSZ div 2"

partial_function (option) header_line_loop ::
    "'w os_recv \<Rightarrow> 'w \<Rightarrow> conn \<Rightarrow> header_line \<Rightarrow> nat \<Rightarrow> bool \<Rightarrow> nat \<Rightarrow> ('w \<times> conn \<times> status \<times> header_line) option" where
  "header_line_loop os_recv w c hl begin delim len =
     (if HEADER_MAX \<le> len + 1 then Some (w, c, code SCRC_HEADER_TOO_LARGE, hl)
      else Option.bind (recv_block os_recv w c 1) (\<lambda>(w, c, ret, p).
        (case p of None \<Rightarrow> Some (w, c, ret, hl)
         | Some p \<Rightarrow>
             if conn_rbuf c ! p = 58 then
               Option.bind (trim ((conn_rbuf c)[p := 0]) begin) (\<lambda>(buf, name).
                 header_line_loop os_recv w (c\<lparr>conn_rbuf := buf\<rparr>) (hl\<lparr>hl_name := Some name\<rparr>) (p + 1) True (len + 1))
             else if conn_rbuf c ! p = 10 then
               Option.bind (trim ((conn_rbuf c)[p := 0]) begin) (\<lambda>(buf, q).
                 Some (w, c\<lparr>conn_rbuf := buf\<rparr>, code SCRC_OK,
                   if delim then hl\<lparr>hl_value := Some q\<rparr> else hl\<lparr>hl_name := Some q, hl_value := None\<rparr>))
             else header_line_loop os_recv w c hl begin delim (len + 1))))"

declare header_line_loop.simps [code]

definition recv_header_line :: "'w os_recv \<Rightarrow> 'w \<Rightarrow> conn \<Rightarrow> ('w \<times> conn \<times> status \<times> header_line) option" where
  "recv_header_line os_recv w c = do {
     (w, c, ret, begin) \<leftarrow> recv_block os_recv w c 1;
     let hl = \<lparr>hl_name = None, hl_value = None\<rparr>;
     (case begin of None \<Rightarrow> Some (w, c, ret, hl)
      | Some begin \<Rightarrow> if conn_rbuf c ! begin = 58 \<or> conn_rbuf c ! begin = 10 then Some (w, c, code SCRC_HEADER_ERROR, hl)
          else header_line_loop os_recv w c hl begin False 1) }"

section \<open>Response headers\<close>

text \<open>A C string in the buffer.\<close>

definition cstr_at :: "u8 list \<Rightarrow> nat \<Rightarrow> u8 list option" where
  "cstr_at buf i = (if 0 \<in> set (drop i buf) then Some (takeWhile (\<lambda>b. b \<noteq> 0) (drop i buf)) else None)"

text \<open>strtol in base 10: the value, whether it was out of range, and the characters not consumed.\<close>

fun digits_value :: "int \<Rightarrow> u8 list \<Rightarrow> int" where
  "digits_value acc [] = acc"
| "digits_value acc (d # ds) = digits_value (10 * acc + (uint d - 48)) ds"

definition isdigit :: "u8 \<Rightarrow> bool" where
  "isdigit b \<longleftrightarrow> 48 \<le> b \<and> b \<le> 57"

definition strtol :: "u8 list \<Rightarrow> int \<times> bool \<times> u8 list" where
  "strtol s = (let t = dropWhile isspace s;
       neg = (t \<noteq> [] \<and> hd t = 45);
       t = (if t \<noteq> [] \<and> hd t \<in> {43, 45} then tl t else t);
       ds = takeWhile isdigit t; v = digits_value 0 ds; v = (if neg then - v else v) in
     if ds = [] then (0, False, s)
     else if v < - (2 ^ 63) then (- (2 ^ 63), True, drop (length ds) t)
     else if 2 ^ 63 \<le> v then (2 ^ 63 - 1, True, drop (length ds) t)
     else (v, False, drop (length ds) t))"

text \<open>One line: \<open>Inl\<close> the result of recv_header, \<open>Inr\<close> the body flag to go on with.\<close>

definition header_step :: "u8 list \<Rightarrow> u8 list option \<Rightarrow> bool \<Rightarrow> status + bool" where
  "header_step name value body =
     (if name = ascii ''$$'' then Inl (code SCRC_OK)
      else if name = ascii ''Status'' then (case value of
          None \<Rightarrow> Inl (code SCRC_HEADER_ERROR)
        | Some v \<Rightarrow> let (status, range, rest) = strtol v in
            if range then Inl (code SCRC_OUT_OF_RANGE)
            else if rest \<noteq> [] then Inl (code SCRC_PROTOCOL_ERROR)
            else if status \<noteq> 0 then Inl (word_of_int status)
            else Inr body)
      else if name = ascii ''Body'' then (case value of
          None \<Rightarrow> Inl (code SCRC_HEADER_ERROR)
        | Some v \<Rightarrow> if v = ascii ''Yes'' then Inr True
            else if v = ascii ''No'' then Inr body
            else Inl (code SCRC_PROTOCOL_ERROR))
      else Inr body)"

partial_function (option) recv_header_loop :: "'w os_recv \<Rightarrow> 'w \<Rightarrow> conn \<Rightarrow> ('w \<times> conn \<times> status) option" where
  "recv_header_loop os_recv w c =
     Option.bind (recv_header_line os_recv w c) (\<lambda>(w, c, ret, hl).
       if ret \<noteq> code SCRC_OK then Some (w, c, ret)
       else Option.bind (hl_name hl) (\<lambda>n.
         Option.bind (cstr_at (conn_rbuf c) n) (\<lambda>name.
         if name = [] then Some (w, c, code SCRC_PROTOCOL_ERROR)
         else Option.bind (case hl_value hl of None \<Rightarrow> Some None
             | Some v \<Rightarrow> Option.bind (cstr_at (conn_rbuf c) v) (\<lambda>v. Some (Some v))) (\<lambda>value.
           (case header_step name value (conn_body c) of
              Inl ret \<Rightarrow> Some (w, c, ret)
            | Inr body \<Rightarrow> recv_header_loop os_recv w (c\<lparr>conn_body := body\<rparr>))))))"

declare recv_header_loop.simps [code]

definition recv_header :: "'w os_recv \<Rightarrow> 'w \<Rightarrow> conn \<Rightarrow> ('w \<times> conn \<times> status) option" where
  "recv_header os_recv w c = recv_header_loop os_recv w (c\<lparr>conn_body := False\<rparr>)"

section \<open>Commands and rows\<close>

text \<open>The command keeps the value \<open>cmd\<close> it had where none is received.\<close>

definition recv_cmd :: "'w os_recv \<Rightarrow> 'w \<Rightarrow> conn \<Rightarrow> u32 \<Rightarrow> ('w \<times> conn \<times> status \<times> u32) option" where
  "recv_cmd os_recv w c cmd = do {
     (w, c, ret, p) \<leftarrow> recv_block os_recv w c 4;
     Some (w, c, ret, case p of None \<Rightarrow> cmd | Some p \<Rightarrow> le_word (read_at (conn_rbuf c) p 4)) }"

text \<open>The result of recv_cmd is not looked at: a command that was not received is 0.\<close>

definition recv_row :: "'w os_recv \<Rightarrow> 'w \<Rightarrow> conn \<Rightarrow> ('w \<times> conn \<times> status \<times> nat option) option" where
  "recv_row os_recv w c = do {
     (w, c, _, cmd) \<leftarrow> recv_cmd os_recv w c 0;
     if cmd = SCRC_CMD_TABHEADER \<or> cmd = SCRC_CMD_TABDATA then Some (w, c, code SCRC_PROTOCOL_ERROR, None)
     else if cmd = SCRC_CMD_END then Some (w, c, code SCRC_END, None)
     else if cmd \<noteq> SCRC_CMD_ROW then Some (w, c, code SCRC_UNKNOWN_COMMAND, None)
     else do {
       (w, c, ret, p) \<leftarrow> recv_block os_recv w c 8;
       (case p of None \<Rightarrow> Some (w, c, ret, None)
        | Some p \<Rightarrow> recv_block os_recv w c (unat (le_word (read_at (conn_rbuf c) p 8) :: u64))) } }"

text \<open>The checks of a command that must be \<open>good\<close>.\<close>

definition expect_cmd :: "u32 \<Rightarrow> u32 \<Rightarrow> status" where
  "expect_cmd good cmd = (if cmd = good then code SCRC_OK
     else if cmd \<in> {SCRC_CMD_TABHEADER, SCRC_CMD_TABDATA, SCRC_CMD_ROW, SCRC_CMD_END} then code SCRC_PROTOCOL_ERROR
     else code SCRC_UNKNOWN_COMMAND)"

text \<open>sizeof(Column), and the loop that receives the columns; each is copied whole out of the buffer.\<close>

definition COLUMNSZ :: nat where
  "COLUMNSZ = 40"

partial_function (option) recv_columns :: "'w os_recv \<Rightarrow> 'w \<Rightarrow> conn \<Rightarrow> ('w \<times> conn \<times> status) option" where
  "recv_columns os_recv w c = Option.bind (recv_row os_recv w c) (\<lambda>(w, c, ret, row).
     if ret = code SCRC_END then Some (w, c\<lparr>conn_status := code SCRC_OK\<rparr>, code SCRC_OK)
     else if ret \<noteq> code SCRC_OK then Some (w, c, ret)
     else Option.bind row (\<lambda>row.
       if length (conn_rbuf c) < row + COLUMNSZ then None
       else recv_columns os_recv w (c\<lparr>conn_columns := conn_columns c @ [read_at (conn_rbuf c) row COLUMNSZ]\<rparr>)))"

declare recv_columns.simps [code]

section \<open>Queries\<close>

text \<open>\<open>return conn->status = ret\<close>.\<close>

definition conn_ret :: "'w \<Rightarrow> conn \<Rightarrow> status \<Rightarrow> ('w \<times> conn \<times> status) option" where
  "conn_ret w c ret = Some (w, c\<lparr>conn_status := ret\<rparr>, ret)"

definition scrc_query ::
    "'w os_send \<Rightarrow> 'w os_recv \<Rightarrow> 'w \<Rightarrow> conn \<Rightarrow> u8 list option \<Rightarrow> ('w \<times> conn \<times> status) option" where
  "scrc_query os_send os_recv w c query =
     (if conn_status c \<noteq> code SCRC_OK then Some (w, c, conn_status c)
      else case query of None \<Rightarrow> Some (w, c, code SCRC_INCORRECT_PARAM)
      | Some query \<Rightarrow> let c = c\<lparr>conn_columns := []\<rparr> in do {
          (w, ret) \<leftarrow> send_query os_send w c query;
          if ret \<noteq> code SCRC_OK then conn_ret w c ret
          else do {
            (w, c, ret) \<leftarrow> recv_header os_recv w c;
            if ret \<noteq> code SCRC_OK then conn_ret w c ret
            else if \<not> conn_body c then Some (w, c, ret)
            else do {
              (w, c, ret, cmd) \<leftarrow> recv_cmd os_recv w c 0;
              if ret \<noteq> code SCRC_OK then conn_ret w c ret
              else if expect_cmd SCRC_CMD_TABHEADER cmd \<noteq> code SCRC_OK then conn_ret w c (expect_cmd SCRC_CMD_TABHEADER cmd)
              else do {
                (w, c, ret) \<leftarrow> recv_columns os_recv w c;
                if ret \<noteq> code SCRC_OK then conn_ret w c ret
                else do {
                  (w, c, ret, cmd) \<leftarrow> recv_cmd os_recv w c 0;
                  if ret \<noteq> code SCRC_OK then conn_ret w c ret
                  else conn_ret w c (expect_cmd SCRC_CMD_TABDATA cmd) } } } } })"

text \<open>The row is \<open>None\<close> for NULL, the outer \<open>None\<close> where \<open>*row\<close> is left alone.\<close>

definition scrc_fetch_row ::
    "'w os_recv \<Rightarrow> 'w \<Rightarrow> conn \<Rightarrow> ('w \<times> conn \<times> status \<times> nat option option) option" where
  "scrc_fetch_row os_recv w c =
     (if \<not> conn_body c then Some (w, c\<lparr>conn_status := code SCRC_OK\<rparr>, code SCRC_OK, None)
      else do {
        (w, c, ret, row) \<leftarrow> recv_row os_recv w c;
        if ret = code SCRC_END then Some (w, c\<lparr>conn_status := code SCRC_OK\<rparr>, code SCRC_OK, Some None)
        else if ret \<noteq> code SCRC_OK then Some (w, c\<lparr>conn_status := ret\<rparr>, ret, Some None)
        else Some (w, c\<lparr>conn_status := code SCRC_OK\<rparr>, code SCRC_OK, Some row) })"

text \<open>A cell is a pointer and a size; the offset and the size are those the column struct says.\<close>

definition scrc_fetch_cell ::
    "conn \<Rightarrow> nat option \<Rightarrow> nat \<Rightarrow> conn \<times> status \<times> (nat option \<times> u64) option" where
  "scrc_fetch_cell c row n = (case row of
       None \<Rightarrow> (c\<lparr>conn_status := code SCRC_INCORRECT_PARAM\<rparr>, code SCRC_INCORRECT_PARAM, None)
     | Some row \<Rightarrow>
         if length (conn_columns c) \<le> n
         then (c\<lparr>conn_status := code SCRC_OUT_OF_RANGE\<rparr>, code SCRC_OUT_OF_RANGE, Some (None, 0))
         else let col = conn_columns c ! n in
           (c\<lparr>conn_status := code SCRC_OK\<rparr>, code SCRC_OK,
            Some (Some (row + unat (le_word (read_at col 16 8) :: u64)), le_word (read_at col 32 8))))"

text \<open>scrc_error.\<close>

definition scrc_error :: "status \<Rightarrow> string" where
  "scrc_error st = (case map_of [
     (code SCRC_OK, ''Ok''), (code SCRC_END, ''Ok''), (code SCRC_BAD_ALLOC, ''Client bad alloc''),
     (code SCRC_NO_HOST, ''No host''), (code SCRC_UNKNOWN_HOST, ''Unknown host''),
     (code SCRC_INCORRECT_PORT, ''Incorrect port''), (code SCRC_NO_USER, ''No user''),
     (code SCRC_SOCKET_ERROR, ''Socket error''), (code SCRC_CONNECTION_ERROR, ''Connection error''),
     (code SCRC_CONNECTION_CLOSED, ''Server closed connection''), (code SCRC_SEND_ERROR, ''Client send error''),
     (code SCRC_RECV_ERROR, ''Client receive error''), (code SCRC_PROTOCOL_ERROR, ''Protocol error''),
     (code SCRC_HEADER_ERROR, ''Header error''), (code SCRC_HEADER_TOO_LARGE, ''Header too large''),
     (code SCRC_UNKNOWN_COMMAND, ''Unknown command''), (code SCRC_BUFFER_OVERFLOW, ''Buffer overflow''),
     (code SCRC_INCORRECT_PARAM, ''Incorrect param''), (code SCRC_OUT_OF_RANGE, ''Out of range''),
     (code SCRS_NO_USER, ''No user''), (code SCRS_PARSER_ERROR, ''Parser error''),
     (code SCRS_PARSER_MEMORY_EXHAUSTION, ''Parser memory exhaustion''),
     (code SCRS_UNKNOWN_PARSER_ERROR, ''Unknown parser error''), (code SCRS_SEND_ERROR, ''Server send error''),
     (code SCRS_SESSION_CLOSED, ''Client closed connection''), (code SCRS_UNKNOWN_CATALOG, ''Unknown catalog''),
     (code SCRS_UNKNOWN_RELATION, ''Unknown relation''), (code SCRS_UNKNOWN_COLUMN, ''Unknown column''),
     (code SCRS_BAD_ALLOC, ''Server bad alloc''), (code SCRS_DATUM_TYPE_MISMATCH, ''Datum type mismatch''),
     (code SCRS_SEQUENCE_OVERFLOW, ''Sequence overflow''),
     (code SCRS_BYTECODE_STACK_OVERFLOW, ''Bytecode stack overflow''),
     (code SCRS_BYTECODE_UNBALANCED_STACK, ''Bytecode unbalanced stack''),
     (code SCRS_BYTECODE_UNKNOWN_ERROR, ''Bytecode unknown error''),
     (code SCRS_TRANSACTION_CACHE_OVERFLOW, ''Transaction cache overflow''),
     (code SCRS_TRANSACTION_START_ERROR, ''Transaction start error''),
     (code SCRS_NO_TRANSACTION, ''No Transaction''), (code SCRS_UNKNOWN_SERVER_ERROR, ''Unknown server error'')] st of
     Some m \<Rightarrow> m | None \<Rightarrow> ''Unknown error'')"

end
