(* ===== verification/Scr_Client.thy ===== *)
theory Scr_Client
  imports Scr_Scrc
begin

text \<open>
  The console client \<^verbatim>\<open>src/scrc/main.c\<close> over the client library. Standard
  input is the list of the lines that fgets returns until the end of the file; what is
  printed is a list of bytes, for standard output and for the error stream. \<open>None\<close> is an
  access outside a buffer or a loop that does not end.
\<close>

section \<open>Lines\<close>

definition BUFFER_SIZE :: nat where
  "BUFFER_SIZE = 65536"

record scan =
  in_comment :: bool
  in_string :: bool
  quote :: u8

text \<open>The scan of a line, a string without its terminating zero; it stops at the semicolon.\<close>

fun line_has_semicolon :: "u8 list \<Rightarrow> scan \<Rightarrow> bool \<times> scan" where
  "line_has_semicolon [] s = (False, s)"
| "line_has_semicolon (c # p) s =
     (if in_comment s then line_has_semicolon p (if c = 10 then s\<lparr>in_comment := False\<rparr> else s)
      else if in_string s then
        (if c = 92 \<and> p \<noteq> [] then line_has_semicolon (tl p) s
         else line_has_semicolon p (if c = quote s then s\<lparr>in_string := False\<rparr> else s))
      else if c = 39 \<or> c = 34 then line_has_semicolon p (s\<lparr>in_string := True, quote := c\<rparr>)
      else if c = 45 \<and> p \<noteq> [] \<and> hd p = 45 then line_has_semicolon (tl p) (s\<lparr>in_comment := True\<rparr>)
      else if c = 59 then (True, s)
      else line_has_semicolon p s)"

definition scan_start :: scan where
  "scan_start = \<lparr>in_comment = False, in_string = False, quote = 0\<rparr>"

text \<open>memcmp of four bytes of the line with its zero; the buffer of the line is longer.\<close>

definition is_exit_command :: "u8 list \<Rightarrow> bool" where
  "is_exit_command line = (let l = dropWhile isspace line; w = take 4 (l @ [0, 0, 0, 0]) in
     (w = ascii ''exit'' \<or> w = ascii ''quit'') \<and> (length l = 4 \<or> 4 < length l \<and> l ! 4 = 10))"

section \<open>Printing a result\<close>

definition spaces :: "nat \<Rightarrow> u8 list" where
  "spaces n = replicate n 32"

text \<open>printf of \<open>% ni\<close>: a space or a minus before the digits, filled up with spaces from the left.\<close>

definition print_padded :: "nat \<Rightarrow> int \<Rightarrow> u8 list" where
  "print_padded n v = (let s = (if v < 0 then 45 else 32) # decimal (nat \<bar>v\<bar>) in spaces (n - length s) @ s)"

text \<open>The type in the image of a column; a number that is none is outside the array of types.\<close>

definition col_type_at :: "u8 list \<Rightarrow> sql_type option" where
  "col_type_at col = map_of [(0, T_UNKNOWN), (1, T_NAME), (2, T_SMALLINT), (3, T_INTEGER), (4, T_BIGINT), (5, T_CHAR),
     (6, T_VARCHAR)] (le_word (read_at col 24 2) :: 16 word)"

definition col_size_at :: "u8 list \<Rightarrow> u64" where
  "col_size_at col = le_word (read_at col 32 8)"

definition column_width :: "u8 list \<Rightarrow> nat option" where
  "column_width col = map_option (\<lambda>t. case get_type_group t of
       TG_CHARACTER \<Rightarrow> unat (col_size_at col)
     | TG_INTEGER \<Rightarrow> (case t of T_SMALLINT \<Rightarrow> 5 | T_INTEGER \<Rightarrow> 10 | T_BIGINT \<Rightarrow> 19 | _ \<Rightarrow> 0)
     | _ \<Rightarrow> 0) (col_type_at col)"

text \<open>The name, cut off at the width of the column; without a zero it must not be read to its end.\<close>

definition column_title :: "u8 list \<Rightarrow> u8 list option" where
  "column_title col = do {
     sz \<leftarrow> column_width col;
     let name = take 16 col;
     let shown = take sz (takeWhile (\<lambda>c. c \<noteq> 0) name);
     if 0 \<in> set name \<or> sz \<le> 16 then Some ([124] @ shown @ spaces (sz - length shown)) else None }"

fun print_titles :: "u8 list list \<Rightarrow> u8 list option" where
  "print_titles [] = Some []"
| "print_titles (col # cols) = do { a \<leftarrow> column_title col; b \<leftarrow> print_titles cols; Some (a @ b) }"

text \<open>Reading \<open>n\<close> bytes behind the pointer of a cell.\<close>

definition cell_bytes_at :: "conn \<Rightarrow> nat option \<Rightarrow> nat \<Rightarrow> u8 list option" where
  "cell_bytes_at c p n = do { p \<leftarrow> p; if p + n \<le> length (conn_rbuf c) then Some (read_at (conn_rbuf c) p n) else None }"

definition print_cell :: "conn \<Rightarrow> u8 list \<Rightarrow> nat option \<Rightarrow> u8 list option" where
  "print_cell c col data = do {
     t \<leftarrow> col_type_at col;
     (case get_type_group t of
        TG_CHARACTER \<Rightarrow> do { bs \<leftarrow> cell_bytes_at c data (unat (col_size_at col)); Some ([124] @ bs) }
      | TG_INTEGER \<Rightarrow> (case t of
            T_SMALLINT \<Rightarrow> do { bs \<leftarrow> cell_bytes_at c data 2; Some ([124] @ print_padded 5 (sint (get_smallint bs))) }
          | T_INTEGER \<Rightarrow> do { bs \<leftarrow> cell_bytes_at c data 4; Some ([124] @ print_padded 10 (sint (get_integer bs))) }
          | T_BIGINT \<Rightarrow> do { bs \<leftarrow> cell_bytes_at c data 8; Some ([124] @ print_padded 19 (sint (get_bigint bs))) }
          | _ \<Rightarrow> Some [])
      | _ \<Rightarrow> Some (ascii ''|--Unknown type--'' @ [10])) }"

text \<open>The loop over the columns of a row.\<close>

fun print_cells :: "conn \<Rightarrow> nat option \<Rightarrow> nat \<Rightarrow> u8 list list \<Rightarrow> (conn \<times> u8 list) option" where
  "print_cells c row i [] = Some (c, [])"
| "print_cells c row i (col # cols) = (let (c, _, cell) = scrc_fetch_cell c row i in do {
     (data, _) \<leftarrow> cell;
     a \<leftarrow> print_cell c col data;
     (c, b) \<leftarrow> print_cells c row (i + 1) cols;
     Some (c, a @ b) })"

text \<open>\<open>row\<close> is the variable of the loop, which a fetch may leave alone.\<close>

partial_function (option) print_rows ::
    "'w os_recv \<Rightarrow> 'w \<Rightarrow> conn \<Rightarrow> nat option \<Rightarrow> nat \<Rightarrow> ('w \<times> conn \<times> status \<times> u8 list \<times> nat) option" where
  "print_rows os_recv w c row cnt = Option.bind (scrc_fetch_row os_recv w c) (\<lambda>(w, c, ret, r).
     let row = (case r of None \<Rightarrow> row | Some r \<Rightarrow> r) in
     if ret = code SCRC_OK \<and> row \<noteq> None then
       Option.bind (print_cells c row 0 (conn_columns c)) (\<lambda>(c, a).
         Option.bind (print_rows os_recv w c row (cnt + 1)) (\<lambda>(w, c, ret, b, cnt).
           Some (w, c, ret, a @ [124, 10] @ b, cnt)))
     else Some (w, c, ret, [], cnt))"

declare print_rows.simps [code]

text \<open>The status, standard output and the error stream.\<close>

definition print_response_body :: "'w os_recv \<Rightarrow> 'w \<Rightarrow> conn \<Rightarrow> nat option \<Rightarrow> ('w \<times> conn \<times> status \<times> u8 list \<times> u8 list) option" where
  "print_response_body os_recv w c junk = do {
     titles \<leftarrow> print_titles (conn_columns c);
     let rule = replicate (length titles + 1) 45;
     (w, c, status, body, cnt) \<leftarrow> print_rows os_recv w c junk 0;
     let out = titles @ [124, 10] @ rule @ [10] @ body @ rule @ [10];
     if status \<noteq> code SCRC_OK
     then Some (w, c, status, out, ascii ''Error receiving response: '' @ ascii (scrc_error (conn_status c)) @ [10])
     else Some (w, c, status, out @ decimal cnt @ ascii '' lines received'' @ [10], []) }"

section \<open>Sessions\<close>

record client =
  cl_query :: "u8 list"
  cl_scan :: scan
  cl_out :: "u8 list"
  cl_err :: "u8 list"

definition client_start :: client where
  "client_start = \<lparr>cl_query = [], cl_scan = scan_start, cl_out = [], cl_err = []\<rparr>"

definition put_out :: "u8 list \<Rightarrow> client \<Rightarrow> client" where
  "put_out bs k = k\<lparr>cl_out := cl_out k @ bs\<rparr>"

definition put_err :: "u8 list \<Rightarrow> client \<Rightarrow> client" where
  "put_err bs k = k\<lparr>cl_err := cl_err k @ bs\<rparr>"

text \<open>
  Sending the collected query and printing what comes back; the flag is off where the
  query itself failed.
\<close>

definition run_query ::
    "'w os_send \<Rightarrow> 'w os_recv \<Rightarrow> nat option \<Rightarrow> 'w \<Rightarrow> conn \<Rightarrow> client \<Rightarrow> ('w \<times> conn \<times> client \<times> status \<times> bool) option" where
  "run_query os_send os_recv junk w c k = do {
     (w, c, status) \<leftarrow> scrc_query os_send os_recv w c (Some (cl_query k));
     if status \<noteq> code SCRC_OK
     then Some (w, c, put_err (ascii ''Error: '' @ ascii (scrc_error (conn_status c)) @ [10]) k, status, False)
     else if conn_body c then do {
       (w, c, status, out, err) \<leftarrow> print_response_body os_recv w c junk;
       Some (w, c, put_err err (put_out out k), status, True) }
     else Some (w, c, put_out (ascii ''Ok'' @ [10]) k, status, True) }"

text \<open>A line goes to the end of the query, if there is room.\<close>

definition append_line :: "u8 list \<Rightarrow> client \<Rightarrow> client option" where
  "append_line line k = (if BUFFER_SIZE \<le> length (cl_query k) + length line then None
     else Some (k\<lparr>cl_query := cl_query k @ line\<rparr>))"

definition scan_line :: "u8 list \<Rightarrow> client \<Rightarrow> bool \<times> client" where
  "scan_line line k = (let (found, s) = line_has_semicolon line (cl_scan k) in (found, k\<lparr>cl_scan := s\<rparr>))"

text \<open>The loop of client_run_script; the flag tells that it ended with the file.\<close>

fun script_lines ::
    "'w os_send \<Rightarrow> 'w os_recv \<Rightarrow> nat option \<Rightarrow> u8 list list \<Rightarrow> 'w \<Rightarrow> conn \<Rightarrow> client \<Rightarrow> status \<Rightarrow>
     ('w \<times> conn \<times> client \<times> status \<times> bool) option" where
  "script_lines os_send os_recv junk [] w c k status = Some (w, c, k, status, True)"
| "script_lines os_send os_recv junk (line # lines) w c k status = (case append_line line k of
     None \<Rightarrow> Some (w, c, put_err (ascii ''Query too large'' @ [10]) k, code SCRC_BUFFER_OVERFLOW, False)
   | Some k \<Rightarrow> (case scan_line line k of (found, k) \<Rightarrow>
       if found then do {
         (w, c, k, status, ok) \<leftarrow> run_query os_send os_recv junk w c k;
         if ok then script_lines os_send os_recv junk lines w c (k\<lparr>cl_query := []\<rparr>) status
         else Some (w, c, k, status, False) }
       else script_lines os_send os_recv junk lines w c k status))"

definition client_run_script ::
    "'w os_send \<Rightarrow> 'w os_recv \<Rightarrow> nat option \<Rightarrow> u8 list list \<Rightarrow> 'w \<Rightarrow> conn \<Rightarrow> ('w \<times> conn \<times> client \<times> status) option" where
  "client_run_script os_send os_recv junk lines w c = do {
     (w, c, k, status, eof) \<leftarrow> script_lines os_send os_recv junk lines w c client_start (code SCRC_OK);
     if \<not> eof then Some (w, c, k, status)
     else if dropWhile isspace (cl_query k) \<noteq> [] then do {
       (w, c, k, status, _) \<leftarrow> run_query os_send os_recv junk w c k;
       Some (w, c, k, status) }
     else Some (w, c, k, status) }"

definition prompt :: "client \<Rightarrow> u8 list" where
  "prompt k = (if cl_query k = [] then ascii ''scroller> '' else ascii ''     -> '')"

fun interactive_lines ::
    "'w os_send \<Rightarrow> 'w os_recv \<Rightarrow> nat option \<Rightarrow> u8 list list \<Rightarrow> 'w \<Rightarrow> conn \<Rightarrow> client \<Rightarrow> status \<Rightarrow>
     ('w \<times> conn \<times> client \<times> status) option" where
  "interactive_lines os_send os_recv junk [] w c k status = Some (w, c, put_out (prompt k @ [10]) k, status)"
| "interactive_lines os_send os_recv junk (line # lines) w c k status = (let k = put_out (prompt k) k in
     if cl_query k = [] \<and> is_exit_command line then Some (w, c, k, status)
     else (case append_line line k of
       None \<Rightarrow> interactive_lines os_send os_recv junk lines w c (put_err (ascii ''Query too large'' @ [10]) (k\<lparr>cl_query := []\<rparr>)) status
     | Some k \<Rightarrow> (case scan_line line k of (found, k) \<Rightarrow>
         if found then do {
           (w, c, k, status, _) \<leftarrow> run_query os_send os_recv junk w c k;
           interactive_lines os_send os_recv junk lines w c (k\<lparr>cl_query := []\<rparr>) status }
         else interactive_lines os_send os_recv junk lines w c k status)))"

definition client_run_interactive ::
    "'w os_send \<Rightarrow> 'w os_recv \<Rightarrow> nat option \<Rightarrow> u8 list list \<Rightarrow> 'w \<Rightarrow> conn \<Rightarrow> ('w \<times> conn \<times> client \<times> status) option" where
  "client_run_interactive os_send os_recv junk lines w c = interactive_lines os_send os_recv junk lines w c
     (put_out (ascii ''Scroller client (type '' @ [39] @ ascii ''exit'' @ [39] @ ascii '' or '' @ [39] @ ascii ''quit'' @ [39] @ ascii '' to quit)'' @ [10]) client_start) (code SCRC_OK)"

section \<open>The command line\<close>

record options =
  op_host :: string
  op_port :: i32
  op_user :: "string option"
  op_catalog :: "string option"
  op_file :: "string option"

definition default_options :: options where
  "default_options = \<lparr>op_host = ''localhost'', op_port = 8081, op_user = None, op_catalog = None, op_file = None\<rparr>"

text \<open>The value main returns at once, or the options; \<open>atoi\<close> is that of the C library.\<close>

fun parse_args :: "(string \<Rightarrow> i32) \<Rightarrow> options \<Rightarrow> string list \<Rightarrow> int + options" where
  "parse_args atoi op [] = (if op_user op = None then Inl 1 else Inr op)"
| "parse_args atoi op [a] = (if a = ''--help'' then Inl 0 else Inl 1)"
| "parse_args atoi op (a # v # args) =
     (if a = ''-h'' then parse_args atoi (op\<lparr>op_host := v\<rparr>) args
      else if a = ''-p'' then parse_args atoi (op\<lparr>op_port := atoi v\<rparr>) args
      else if a = ''-u'' then parse_args atoi (op\<lparr>op_user := Some v\<rparr>) args
      else if a = ''-c'' then parse_args atoi (op\<lparr>op_catalog := Some v\<rparr>) args
      else if a = ''-f'' then parse_args atoi (op\<lparr>op_file := Some v\<rparr>) args
      else if a = ''--help'' then Inl 0 else Inl 1)"

end
