(* ===== verification/Scr_Session_Laws.thy ===== *)
theory Scr_Session_Laws
  imports Scr_Session "HOL-Library.Sublist"
begin

text \<open>
  The output of a session is a stream: what the kernel has taken followed by what waits in
  the buffer. Every send appends its bytes to it, with the exception of a block of a whole
  buffer or more that meets an empty buffer.
\<close>

section \<open>The socket\<close>

text \<open>
  \<open>out w fd\<close> are the bytes the kernel has taken for a socket. POSIX: send takes a prefix of
  the bytes and says how long it is, or fails and takes none; \<open>patience\<close> bounds how often it
  is interrupted before it does either.
\<close>

definition send_laws :: "('w \<Rightarrow> i32 \<Rightarrow> u8 list) \<Rightarrow> ('w \<Rightarrow> nat) \<Rightarrow> 'w os_send \<Rightarrow> bool" where
  "send_laws out patience os_send \<longleftrightarrow> (\<forall>w fd buf. case os_send w fd buf of (w', r) \<Rightarrow> (case r of
       Sent n \<Rightarrow> n \<le> length buf \<and> out w' = (out w)(fd := out w fd @ take n buf)
     | Send_Eintr \<Rightarrow> out w' = out w \<and> patience w' < patience w
     | Send_Error \<Rightarrow> out w' = out w))"

lemma send_lawsD:
  assumes "send_laws out patience os_send"
  shows "os_send w fd buf = (w', Sent n) \<Longrightarrow> n \<le> length buf"
    and "os_send w fd buf = (w', Sent n) \<Longrightarrow> out w' = (out w)(fd := out w fd @ take n buf)"
    and "os_send w fd buf = (w', Send_Eintr) \<Longrightarrow> out w' = out w"
    and "os_send w fd buf = (w', Send_Eintr) \<Longrightarrow> patience w' < patience w"
    and "os_send w fd buf = (w', Send_Error) \<Longrightarrow> out w' = out w"
  using assms[unfolded send_laws_def, rule_format, where w = w and fd = fd and buf = buf] by simp_all

text \<open>What a block leaves behind: a prefix of it was sent, the whole one if the status is OK.\<close>

definition sent_prefix :: "('w \<Rightarrow> i32 \<Rightarrow> u8 list) \<Rightarrow> 'w \<Rightarrow> i32 \<Rightarrow> u8 list \<Rightarrow> 'w \<Rightarrow> scrc_status \<Rightarrow> bool" where
  "sent_prefix out w fd buf w' st \<longleftrightarrow> (\<exists>bs rest. buf = bs @ rest \<and> out w' = (out w)(fd := out w fd @ bs) \<and>
     (st = SCRS_OK \<longrightarrow> rest = [])) \<and> st \<in> {SCRS_OK, SCRS_SEND_ERROR, SCRS_SESSION_CLOSED}"

lemma sent_prefix_none:
  "out w' = out w \<Longrightarrow> st = SCRS_OK \<longrightarrow> buf = [] \<Longrightarrow> st \<in> {SCRS_OK, SCRS_SEND_ERROR, SCRS_SESSION_CLOSED} \<Longrightarrow>
   sent_prefix out w fd buf w' st"
  unfolding sent_prefix_def by (intro conjI exI[of _ "[]"] exI[of _ buf]) auto

lemma send_block_loop_ok:
  assumes laws: "send_laws out patience os_send"
  shows "\<exists>w' st. send_block_loop os_send w fd buf sent = Some (w', st) \<and> sent_prefix out w fd (drop sent buf) w' st"
proof (induction "(w, sent)" arbitrary: w sent rule: wf_induct_rule[OF wf_measures[of "[\<lambda>(w, sent). length buf - sent, \<lambda>(w, sent). patience w]"]])
  case (1 w sent)
  note L = send_lawsD[OF laws]
  show ?case
  proof (cases "sent < length buf")
    case False
    then show ?thesis by (subst send_block_loop.simps) (simp add: sent_prefix_none)
  next
    case True
    obtain w1 r where s: "os_send w fd (drop sent buf) = (w1, r)" by fastforce
    show ?thesis
    proof (cases r)
      case (Sent n)
      note n = L(1)[OF s[unfolded Sent]] L(2)[OF s[unfolded Sent]]
      show ?thesis
      proof (cases "n = 0")
        case True
        then show ?thesis using n Sent s \<open>sent < length buf\<close>
          by (subst send_block_loop.simps) (simp add: sent_prefix_none)
      next
        case False
        then have "((w1, sent + n), (w, sent)) \<in> measures [\<lambda>(w, sent). length buf - sent, \<lambda>(w, sent). patience w]"
          using True by (simp add: diff_less_mono2)
        from 1[OF this] obtain w' st where ih: "send_block_loop os_send w1 fd buf (sent + n) = Some (w', st)"
          "sent_prefix out w1 fd (drop (sent + n) buf) w' st" by blast
        have "drop sent buf = take n (drop sent buf) @ drop (sent + n) buf" by (metis add.commute append_take_drop_id drop_drop)
        then have "sent_prefix out w fd (drop sent buf) w' st"
          using ih(2) n(2) unfolding sent_prefix_def by (metis (no_types, lifting) append.assoc fun_upd_same fun_upd_upd)
        then show ?thesis using ih(1) Sent s True False
          by (subst send_block_loop.simps) simp
      qed
    next
      case Send_Eintr
      note e = L(3)[OF s[unfolded Send_Eintr]] L(4)[OF s[unfolded Send_Eintr]]
      then have "((w1, sent), (w, sent)) \<in> measures [\<lambda>(w, sent). length buf - sent, \<lambda>(w, sent). patience w]" by simp
      from 1[OF this] obtain w' st where "send_block_loop os_send w1 fd buf sent = Some (w', st)"
        "sent_prefix out w1 fd (drop sent buf) w' st" by blast
      then show ?thesis using e(1) Send_Eintr s True
        by (subst send_block_loop.simps) (simp add: sent_prefix_def)
    next
      case Send_Error
      then show ?thesis using L(5)[OF s[unfolded Send_Error]] s True
        by (subst send_block_loop.simps) (simp add: sent_prefix_none)
    qed
  qed
qed

lemma send_block_ok:
  assumes "send_laws out patience os_send"
  obtains w' st where "send_block os_send w fd buf = Some (w', st)" "sent_prefix out w fd buf w' st"
  using send_block_loop_ok[OF assms, of w fd buf 0] by (auto simp: send_block_def)

section \<open>The stream of a session\<close>

definition session_ok :: "session \<Rightarrow> bool" where
  "session_ok s \<longleftrightarrow> length (send_buf s) = SENDBUFSZ \<and> send_buf_idx s < SENDBUFSZ"

definition session_stream :: "('w \<Rightarrow> i32 \<Rightarrow> u8 list) \<Rightarrow> 'w \<Rightarrow> session \<Rightarrow> u8 list" where
  "session_stream out w s = out w (client_fd s) @ take (send_buf_idx s) (send_buf s)"

lemma take_write_at: "off + length vs \<le> length bs \<Longrightarrow> n \<le> off \<Longrightarrow> take n (write_at bs off vs) = take n bs"
  by (simp add: write_at_def min_absorb1)

lemma take_write_at_end: "off + length vs \<le> length bs \<Longrightarrow> n = off + length vs \<Longrightarrow>
   take n (write_at bs off vs) = take off bs @ vs"
  by (simp add: write_at_def)

lemma session_send_small:
  assumes "session_ok s" "send_buf_idx s + length buf < SENDBUFSZ"
  shows "\<exists>s'. session_send os_send w s buf = Some (w, s', SCRS_OK) \<and> session_ok s' \<and> client_fd s' = client_fd s \<and>
    session_stream out w s' = session_stream out w s @ buf \<and> send_buf_idx s' = send_buf_idx s + length buf"
  using assms by (simp add: session_send_def session_ok_def session_stream_def take_write_at_end Let_def)

lemma take_mult_div_mod:
  "take (m div n * n) buf @ take (m mod n) (drop (m div n * n) buf) = take m (buf :: 'b list)"
proof -
  have "m div n * n + m mod n = m" by simp
  then show ?thesis by (metis take_add)
qed

text \<open>
  The bytes \<open>bs\<close> were appended to a stream: all of them when the status is OK, else a prefix
  was taken by the kernel.
\<close>

definition stream_grows :: "('w \<Rightarrow> i32 \<Rightarrow> u8 list) \<Rightarrow> 'w \<Rightarrow> session \<Rightarrow> u8 list \<Rightarrow> 'w \<Rightarrow> session \<Rightarrow> scrc_status \<Rightarrow> bool" where
  "stream_grows out w s bs w' s' st \<longleftrightarrow> session_ok s' \<and> client_fd s' = client_fd s \<and>
     (\<forall>fd. fd \<noteq> client_fd s \<longrightarrow> out w' fd = out w fd) \<and>
     (st = SCRS_OK \<longrightarrow> session_stream out w' s' = session_stream out w s @ bs) \<and>
     prefix (out w' (client_fd s)) (session_stream out w s @ bs) \<and>
     st \<in> {SCRS_OK, SCRS_SEND_ERROR, SCRS_SESSION_CLOSED}"

lemma send_remaining_ok:
  assumes laws: "send_laws out patience os_send" and len: "length (send_buf s) = SENDBUFSZ"
    and sz: "full = m div SENDBUFSZ" "tail = m mod SENDBUFSZ" and m: "m \<le> length buf"
    and st: "session_stream out w s0 @ bs = out w (client_fd s) @ take m buf"
    and idx: "send_buf_idx s < SENDBUFSZ" "client_fd s0 = client_fd s"
  shows "\<exists>w' s' st. send_remaining os_send w s full tail buf = Some (w', s', st) \<and> stream_grows out w s0 bs w' s' st"
proof -
  let ?n = "full * SENDBUFSZ"
  have pos: "0 < SENDBUFSZ" by (simp add: SENDBUFSZ_def)
  have split: "take ?n buf @ take tail (drop ?n buf) = take m buf" unfolding sz by (rule take_mult_div_mod)
  obtain w1 st1 where b: "(if full \<noteq> 0 then send_block os_send w (client_fd s) (take ?n buf) else Some (w, SCRS_OK)) = Some (w1, st1)"
    and p: "sent_prefix out w (client_fd s) (take ?n buf) w1 st1"
  proof (cases "full = 0")
    case True
    show thesis by (rule that[of w SCRS_OK]) (simp_all add: True sent_prefix_none)
  next
    case False
    show thesis using send_block_ok[OF laws, of w "client_fd s" "take ?n buf"] that by (metis False)
  qed
  obtain cs rest where cs: "take ?n buf = cs @ rest" "out w1 = (out w)(client_fd s := out w (client_fd s) @ cs)"
      "st1 = SCRS_OK \<longrightarrow> rest = []" and st1: "st1 \<in> {SCRS_OK, SCRS_SEND_ERROR, SCRS_SESSION_CLOSED}"
    using p by (auto simp: sent_prefix_def)
  let ?s' = "s\<lparr>send_buf := write_at (send_buf s) 0 (take tail (drop ?n buf)), send_buf_idx := tail\<rparr>"
  have tail: "tail < SENDBUFSZ" using sz(2) pos by simp
  have lt: "length (take tail (drop ?n buf)) = tail"
  proof -
    have "?n + tail \<le> length buf" using m unfolding sz by simp
    then show ?thesis by simp
  qed
  have pre: "prefix (out w1 (client_fd s)) (session_stream out w s0 @ bs)"
    unfolding st cs(2) using split cs(1) by (metis append.assoc fun_upd_same prefixI same_prefix_prefix)
  show ?thesis
  proof (cases "st1 = SCRS_OK")
    case True
    have ok': "session_ok ?s'" using lt tail len by (simp add: session_ok_def)
    have "session_stream out w1 ?s' = session_stream out w s0 @ bs"
      using cs True lt tail len split unfolding st by (simp add: session_stream_def take_write_at_end)
    then have "stream_grows out w s0 bs w1 ?s' SCRS_OK"
      using pre ok' cs(2) idx(2) by (simp add: stream_grows_def)
    then show ?thesis using b True by (simp add: send_remaining_def Let_def)
  next
    case False
    then have "stream_grows out w s0 bs w1 s st1"
      using pre len idx cs(2) st1 by (simp add: stream_grows_def session_ok_def)
    then show ?thesis using b False by (simp add: send_remaining_def Let_def)
  qed
qed

lemma session_send_ok:
  assumes laws: "send_laws out patience os_send" and ok: "session_ok s"
    and room: "send_buf_idx s \<noteq> 0 \<or> length buf < SENDBUFSZ"
  shows "\<exists>w' s' st. session_send os_send w s buf = Some (w', s', st) \<and> stream_grows out w s buf w' s' st"
proof (cases "send_buf_idx s + length buf < SENDBUFSZ")
  case True
  obtain s' where s': "session_send os_send w s buf = Some (w, s', SCRS_OK)" "session_ok s'" "client_fd s' = client_fd s"
      "session_stream out w s' = session_stream out w s @ buf"
    using session_send_small[OF ok True, where os_send = os_send and w = w and out = out] by (elim exE conjE) (rule that)
  have "prefix (out w (client_fd s)) (session_stream out w s @ buf)" by (simp add: session_stream_def)
  then have "stream_grows out w s buf w s' SCRS_OK" using s' by (simp add: stream_grows_def)
  then show ?thesis using s'(1) by blast
next
  case False
  let ?i = "send_buf_idx s"
  let ?h = "SENDBUFSZ - ?i"
  let ?s1 = "s\<lparr>send_buf := write_at (send_buf s) ?i (take ?h buf)\<rparr>"
  have i: "0 < ?i" "?i < SENDBUFSZ" "length (send_buf s) = SENDBUFSZ" using room False ok by (auto simp: session_ok_def)
  then have h: "?h \<le> length buf" "?i + length (take ?h buf) = SENDBUFSZ" using False by auto
  have len1: "length (send_buf ?s1) = SENDBUFSZ" using i h by simp
  have b1: "take SENDBUFSZ (send_buf ?s1) = take ?i (send_buf s) @ take ?h buf"
    using take_write_at_end[of ?i "take ?h buf" "send_buf s" SENDBUFSZ] i h by simp
  obtain w1 st1 where b: "send_block os_send w (client_fd s) (take SENDBUFSZ (send_buf ?s1)) = Some (w1, st1)"
    and p0: "sent_prefix out w (client_fd s) (take SENDBUFSZ (send_buf ?s1)) w1 st1"
    by (rule send_block_ok[OF laws])
  note p = p0[unfolded b1]
  obtain cs rest where cs: "take ?i (send_buf s) @ take ?h buf = cs @ rest" "out w1 = (out w)(client_fd s := out w (client_fd s) @ cs)"
      "st1 = SCRS_OK \<longrightarrow> rest = []" and st1: "st1 \<in> {SCRS_OK, SCRS_SEND_ERROR, SCRS_SESSION_CLOSED}"
    using p by (auto simp: sent_prefix_def)
  have step: "session_send os_send w s buf = (if st1 \<noteq> SCRS_OK then Some (w1, ?s1, st1) else
      send_remaining os_send w1 ?s1 ((length buf - ?h) div SENDBUFSZ) ((length buf - ?h) mod SENDBUFSZ) (drop ?h buf))"
    using False i(1) b by (simp add: session_send_def Let_def)
  have all: "session_stream out w s @ buf = out w (client_fd s) @ (take ?i (send_buf s) @ take ?h buf) @ drop ?h buf"
    by (simp add: session_stream_def)
  show ?thesis
  proof (cases "st1 = SCRS_OK")
    case False
    have "prefix (out w1 (client_fd s)) (session_stream out w s @ buf)" unfolding all cs by simp
    then have "stream_grows out w s buf w1 ?s1 st1"
      using False len1 i cs(2) st1 by (simp add: stream_grows_def session_ok_def)
    then show ?thesis using step False by simp
  next
    case True
    then have o1: "out w1 (client_fd s) = out w (client_fd s) @ take ?i (send_buf s) @ take ?h buf" using cs by simp
    have "\<exists>w' s' st. send_remaining os_send w1 ?s1 ((length buf - ?h) div SENDBUFSZ) ((length buf - ?h) mod SENDBUFSZ) (drop ?h buf)
        = Some (w', s', st) \<and> stream_grows out w1 (s\<lparr>send_buf_idx := 0\<rparr>) (drop ?h buf) w' s' st"
      by (rule send_remaining_ok[OF laws len1 refl refl]) (use i in \<open>simp_all add: session_stream_def\<close>)
    then obtain w' s' st where r: "send_remaining os_send w1 ?s1 ((length buf - ?h) div SENDBUFSZ) ((length buf - ?h) mod SENDBUFSZ) (drop ?h buf)
        = Some (w', s', st)" "stream_grows out w1 (s\<lparr>send_buf_idx := 0\<rparr>) (drop ?h buf) w' s' st" by blast
    have "session_stream out w1 (s\<lparr>send_buf_idx := 0\<rparr>) @ drop ?h buf = session_stream out w s @ buf"
      unfolding all using o1 by (simp add: session_stream_def)
    then have "stream_grows out w s buf w' s' st" using r(2) cs(2) by (simp add: stream_grows_def)
    then show ?thesis using r(1) step True by simp
  qed
qed

section \<open>Many sends, and the flush\<close>

lemma stream_growsD:
  assumes "stream_grows out w s bs w' s' st"
  shows "session_ok s'" "client_fd s' = client_fd s" "fd \<noteq> client_fd s \<Longrightarrow> out w' fd = out w fd"
    "st = SCRS_OK \<Longrightarrow> session_stream out w' s' = session_stream out w s @ bs"
    "prefix (out w' (client_fd s)) (session_stream out w s @ bs)" "st \<in> {SCRS_OK, SCRS_SEND_ERROR, SCRS_SESSION_CLOSED}"
  using assms by (simp_all add: stream_grows_def)

lemma stream_grows_refl: "session_ok s \<Longrightarrow> stream_grows out w s [] w s SCRS_OK"
  by (simp add: stream_grows_def session_stream_def)

lemma stream_grows_trans:
  assumes a: "stream_grows out w s bs w1 s1 SCRS_OK" and b: "stream_grows out w1 s1 cs w2 s2 st"
  shows "stream_grows out w s (bs @ cs) w2 s2 st"
proof -
  note A = stream_growsD[OF a] and B = stream_growsD[OF b]
  have "prefix (out w2 (client_fd s)) (session_stream out w s @ bs @ cs)"
    using B(5) A(4) unfolding A(2) by simp
  then show ?thesis using A B by (simp add: stream_grows_def)
qed

lemma stream_grows_more:
  assumes "stream_grows out w s bs w1 s1 st" "st \<noteq> SCRS_OK"
  shows "stream_grows out w s (bs @ cs) w1 s1 st"
  using assms by (auto simp: stream_grows_def intro: prefix_order.trans)

definition session_full :: "session \<Rightarrow> u8 list \<Rightarrow> bool" where
  "session_full s buf \<longleftrightarrow> send_buf_idx s = 0 \<and> SENDBUFSZ \<le> length buf"

lemma session_sends_ok:
  assumes laws: "send_laws out patience os_send" and ok: "session_ok s"
    and room: "\<forall>b \<in> set bufs. length b < SENDBUFSZ"
  shows "\<exists>w' s' st. session_sends os_send w s bufs = Some (w', s', st) \<and> stream_grows out w s (concat bufs) w' s' st"
  using ok room
proof (induction bufs arbitrary: w s)
  case Nil
  then show ?case by (simp add: stream_grows_refl)
next
  case (Cons b bs)
  obtain w1 s1 st1 where a: "session_send os_send w s b = Some (w1, s1, st1)" "stream_grows out w s b w1 s1 st1"
    using session_send_ok[OF laws Cons.prems(1), of b w] Cons.prems(2) by auto
  show ?case
  proof (cases "st1 = SCRS_OK")
    case True
    obtain w' s' st where "session_sends os_send w1 s1 bs = Some (w', s', st)" "stream_grows out w1 s1 (concat bs) w' s' st"
      using Cons.IH[of s1 w1] Cons.prems(2) stream_growsD(1)[OF a(2)] by auto
    then show ?thesis using a True stream_grows_trans[of out w s b w1 s1 "concat bs"] by auto
  next
    case False
    then show ?thesis using a stream_grows_more by auto
  qed
qed

lemma session_flush_ok:
  assumes laws: "send_laws out patience os_send" and ok: "session_ok s"
  shows "\<exists>w' s' st. session_flush os_send w s = Some (w', s', st) \<and> session_ok s' \<and> client_fd s' = client_fd s \<and>
    (\<forall>fd. fd \<noteq> client_fd s \<longrightarrow> out w' fd = out w fd) \<and> prefix (out w' (client_fd s)) (session_stream out w s) \<and>
    (st = SCRS_OK \<longrightarrow> out w' (client_fd s) = session_stream out w s \<and> send_buf_idx s' = 0) \<and>
    st \<in> {SCRS_OK, SCRS_SEND_ERROR, SCRS_SESSION_CLOSED}"
proof (cases "send_buf_idx s = 0")
  case True
  then show ?thesis using ok by (simp add: session_flush_def session_stream_def)
next
  case False
  let ?b = "take (send_buf_idx s) (send_buf s)"
  obtain w1 st where b: "send_block os_send w (client_fd s) ?b = Some (w1, st)" "sent_prefix out w (client_fd s) ?b w1 st"
    by (rule send_block_ok[OF laws])
  let ?s' = "if st \<noteq> SCRC_OK then s else s\<lparr>send_buf_idx := 0\<rparr>"
  obtain cs rest where cs: "?b = cs @ rest" "out w1 = (out w)(client_fd s := out w (client_fd s) @ cs)"
      "st = SCRS_OK \<longrightarrow> rest = []" and st: "st \<in> {SCRS_OK, SCRS_SEND_ERROR, SCRS_SESSION_CLOSED}"
    using b(2) by (auto simp: sent_prefix_def)
  have "prefix (out w1 (client_fd s)) (session_stream out w s)" unfolding session_stream_def cs(1) cs(2) by simp
  moreover have "st = SCRS_OK \<longrightarrow> out w1 (client_fd s) = session_stream out w s \<and> send_buf_idx ?s' = 0"
    using cs by (simp add: session_stream_def)
  moreover have "session_ok ?s'" using ok by (simp add: session_ok_def)
  moreover have "session_flush os_send w s = Some (w1, ?s', st)" using b(1) False by (simp add: session_flush_def)
  ultimately show ?thesis using cs(2) st by (intro exI[of _ w1] exI[of _ ?s'] exI[of _ st]) simp
qed

text \<open>
  C15: Sending any chunks shorter than the send buffer up to the first call that fails, and
  then flushing, over any socket that obeys POSIX: during the sends the kernel has always
  taken a prefix of what was sent or waiting before and the chunks; after the flush it has a
  prefix of it when all the sends returned OK, and exactly all of it, the buffer being empty,
  when the flush did too; no other socket is touched. (After a call that failed half-way a
  later flush sends the buffer again from its start, see lemma flush_repeats_bytes.)
\<close>

theorem session_delivers:
  assumes "send_laws out patience os_send" and "session_ok s" and "\<forall>b \<in> set bufs. length b < SENDBUFSZ"
  shows "\<exists>w1 s1 st1 w2 s2 st2. session_sends os_send w s bufs = Some (w1, s1, st1) \<and>
    session_flush os_send w1 s1 = Some (w2, s2, st2) \<and> session_ok s2 \<and>
    (\<forall>fd. fd \<noteq> client_fd s \<longrightarrow> out w2 fd = out w fd) \<and> prefix (out w1 (client_fd s)) (session_stream out w s @ concat bufs) \<and>
    (st1 = SCRS_OK \<longrightarrow> prefix (out w2 (client_fd s)) (session_stream out w s @ concat bufs)) \<and>
    (st1 = SCRS_OK \<and> st2 = SCRS_OK \<longrightarrow> out w2 (client_fd s) = session_stream out w s @ concat bufs \<and> send_buf_idx s2 = 0)"
proof -
  obtain w1 s1 st1 where a: "session_sends os_send w s bufs = Some (w1, s1, st1)" "stream_grows out w s (concat bufs) w1 s1 st1"
    using session_sends_ok[OF assms, of w] by blast
  note A = stream_growsD[OF a(2)]
  obtain w2 s2 st2 where f: "session_flush os_send w1 s1 = Some (w2, s2, st2)" "session_ok s2"
      "\<forall>fd. fd \<noteq> client_fd s \<longrightarrow> out w2 fd = out w1 fd" "prefix (out w2 (client_fd s)) (session_stream out w1 s1)"
      "st2 = SCRS_OK \<longrightarrow> out w2 (client_fd s) = session_stream out w1 s1 \<and> send_buf_idx s2 = 0"
    using session_flush_ok[OF assms(1) A(1), of w1] unfolding A(2) by blast
  show ?thesis using a(1) f A(3,4,5)
    by (intro exI[of _ w1] exI[of _ s1] exI[of _ st1] exI[of _ w2] exI[of _ s2] exI[of _ st2]) auto
qed

text \<open>
  Sending a block of a whole buffer or more while the buffer is empty drops 4096 bytes:
  the stream grows by a prefix of the block that is one buffer short.
\<close>

lemma session_send_loses_block:
  assumes "send_laws out patience os_send" and "session_ok s"
    and "send_buf_idx s = 0" and "SENDBUFSZ \<le> length buf"
  shows "\<exists>w' s' st. session_send os_send w s buf = Some (w', s', st) \<and>
    (st = SCRS_OK \<longrightarrow> session_stream out w' s' = session_stream out w s @ take (length buf - SENDBUFSZ) buf)"
proof -
  let ?m = "length buf - SENDBUFSZ"
  have "session_send os_send w s buf = send_remaining os_send w s (?m div SENDBUFSZ) (?m mod SENDBUFSZ) buf"
    using assms(3,4) by (simp add: session_send_def Let_def)
  moreover have "\<exists>w' s' st. send_remaining os_send w s (?m div SENDBUFSZ) (?m mod SENDBUFSZ) buf = Some (w', s', st) \<and>
      stream_grows out w s (take ?m buf) w' s' st"
    by (rule send_remaining_ok[OF assms(1) _ refl refl]) (use assms(2,3) in \<open>simp_all add: session_ok_def session_stream_def\<close>)
  ultimately show ?thesis by (auto dest: stream_growsD(4))
qed

section \<open>Reliable sockets\<close>

text \<open>The connection holds: send neither fails nor reports that it is closed.\<close>

definition send_reliable :: "'w os_send \<Rightarrow> bool" where
  "send_reliable os_send \<longleftrightarrow> (\<forall>w fd buf. buf \<noteq> [] \<longrightarrow> snd (os_send w fd buf) \<notin> {Send_Error, Sent 0})"

lemma send_block_loop_reliable:
  assumes "send_reliable os_send" "send_block_loop os_send w fd buf sent = Some (w', st)"
  shows "st = SCRS_OK"
proof -
  have "send_reliable os_send \<longrightarrow> snd r = SCRS_OK" if "send_block_loop os_send w fd buf sent = Some r" for r
    using that
  proof (rule send_block_loop.raw_induct[of "\<lambda>os_send w fd buf sent r. send_reliable os_send \<longrightarrow> snd r = SCRS_OK", rotated])
    fix loop os_send w fd buf sent and r :: "'a \<times> scrc_status"
    assume ih: "\<And>os_send w fd buf sent r. loop os_send w fd buf sent = Some r \<Longrightarrow> send_reliable os_send \<longrightarrow> snd r = SCRS_OK"
      and step: "(if sent < length buf then let (w', n) = os_send w fd (drop sent buf) in
        (case n of Sent n \<Rightarrow> if n = 0 then Some (w', SCRS_SESSION_CLOSED) else loop os_send w' fd buf (sent + n)
          | Send_Eintr \<Rightarrow> loop os_send w' fd buf sent | Send_Error \<Rightarrow> Some (w', SCRS_SEND_ERROR)) else Some (w, SCRS_OK)) = Some r"
    show "send_reliable os_send \<longrightarrow> snd r = SCRS_OK"
    proof
      assume rel: "send_reliable os_send"
      show "snd r = SCRS_OK"
      proof (cases "sent < length buf")
        case True
        then have "snd (os_send w fd (drop sent buf)) \<notin> {Send_Error, Sent 0}" using rel by (simp add: send_reliable_def)
        then show ?thesis using step True ih rel by (auto split: prod.splits send_result.splits if_splits)
      next
        case False
        then show ?thesis using step by auto
      qed
    qed
  qed
  then show ?thesis using assms by fastforce
qed

lemma send_block_reliable: "send_reliable os_send \<Longrightarrow> send_block os_send w fd buf = Some (w', st) \<Longrightarrow> st = SCRS_OK"
  by (simp add: send_block_def send_block_loop_reliable)

lemma session_send_reliable:
  assumes "send_reliable os_send" "session_send os_send w s buf = Some (w', s', st)"
  shows "st = SCRS_OK"
  using assms(2) by (auto simp: session_send_def send_remaining_def Let_def bind_eq_Some_conv
      dest!: send_block_reliable[OF assms(1)] split: if_splits)

lemma session_sends_reliable:
  "send_reliable os_send \<Longrightarrow> session_sends os_send w s bufs = Some (w', s', st) \<Longrightarrow> st = SCRS_OK"
  by (induction bufs arbitrary: w s) (auto simp: bind_eq_Some_conv split: if_splits dest: session_send_reliable)

lemma session_flush_reliable:
  "send_reliable os_send \<Longrightarrow> session_flush os_send w s = Some (w', s', st) \<Longrightarrow> st = SCRS_OK"
  by (auto simp: session_flush_def bind_eq_Some_conv split: if_splits dest: send_block_reliable)

section \<open>A concrete socket\<close>

text \<open>It takes three bytes at a time and is interrupted before each call.\<close>

definition slow_send :: "((i32 \<Rightarrow> u8 list) \<times> nat) os_send" where
  "slow_send w fd buf = (if snd w \<noteq> 0 then ((fst w, snd w - 1), Send_Eintr)
     else (((fst w)(fd := fst w fd @ take (min 3 (length buf)) buf), 1), Sent (min 3 (length buf))))"

lemma slow_send_laws: "send_laws fst snd slow_send" "send_reliable slow_send"
  by (auto simp: send_laws_def send_reliable_def slow_send_def Let_def)

definition fresh_session :: session where
  "fresh_session = \<lparr>client_fd = 4, send_buf = replicate SENDBUFSZ 0, send_buf_idx = 0\<rparr>"

lemma fresh_session_ok: "session_ok fresh_session" "session_stream fst (\<lambda>_. [], 0 :: nat) fresh_session = []"
  "client_fd fresh_session = 4" "send_buf_idx fresh_session = 0"
  by (simp_all add: session_ok_def fresh_session_def SENDBUFSZ_def session_stream_def)

theorem session_delivers_witness:
  "\<exists>w1 s1 w2 s2. session_sends slow_send (\<lambda>_. [], 0) fresh_session [[1, 2, 3, 4], [], [5, 6]] = Some (w1, s1, SCRS_OK) \<and>
     session_flush slow_send w1 s1 = Some (w2, s2, SCRS_OK) \<and> fst w2 4 = [1, 2, 3, 4, 5, 6]"
proof -
  let ?b = "[[1, 2, 3, 4], [], [5, 6]] :: u8 list list" and ?w = "(\<lambda>_. [], 0) :: (i32 \<Rightarrow> u8 list) \<times> nat"
  have b: "\<forall>b \<in> set ?b. length b < SENDBUFSZ" by (simp add: SENDBUFSZ_def)
  obtain w1 s1 st1 w2 s2 st2 where r: "session_sends slow_send ?w fresh_session ?b = Some (w1, s1, st1)"
    "session_flush slow_send w1 s1 = Some (w2, s2, st2)"
    "st1 = SCRS_OK \<and> st2 = SCRS_OK \<longrightarrow> fst w2 (client_fd fresh_session) = session_stream fst ?w fresh_session @ concat ?b \<and> send_buf_idx s2 = 0"
    using session_delivers[OF slow_send_laws(1) fresh_session_ok(1) b, of ?w] by (elim exE conjE) (rule that)
  have "st1 = SCRS_OK" "st2 = SCRS_OK"
    using session_sends_reliable[OF slow_send_laws(2) r(1)] session_flush_reliable[OF slow_send_laws(2) r(2)] by auto
  then have "session_sends slow_send ?w fresh_session ?b = Some (w1, s1, SCRS_OK)" "session_flush slow_send w1 s1 = Some (w2, s2, SCRS_OK)"
    "fst w2 4 = [1, 2, 3, 4, 5, 6]" using r fresh_session_ok(2,3) by simp_all
  then show ?thesis by blast
qed

lemma session_send_loses_block_example:
  "\<exists>w' s' . session_send slow_send (\<lambda>_. [], 0) fresh_session (replicate 4096 1 @ [2, 3]) = Some (w', s', SCRS_OK) \<and>
     session_stream fst w' s' = [1, 1]"
proof -
  let ?b = "replicate 4096 1 @ [2, 3] :: u8 list" and ?w = "(\<lambda>_. [], 0) :: (i32 \<Rightarrow> u8 list) \<times> nat"
  have b: "SENDBUFSZ \<le> length ?b" by (simp add: SENDBUFSZ_def)
  obtain w' s' st where r: "session_send slow_send ?w fresh_session ?b = Some (w', s', st)"
    "st = SCRS_OK \<longrightarrow> session_stream fst w' s' = session_stream fst ?w fresh_session @ take (length ?b - SENDBUFSZ) ?b"
    using session_send_loses_block[OF slow_send_laws(1) fresh_session_ok(1,4) b, of ?w] by (elim exE conjE) (rule that)
  have "st = SCRS_OK" by (rule session_send_reliable[OF slow_send_laws(2) r(1)])
  moreover have "take (length ?b - SENDBUFSZ) ?b = [1, 1]" by (simp add: SENDBUFSZ_def numeral_2_eq_2)
  ultimately show ?thesis using r fresh_session_ok(2) by simp
qed

text \<open>
  A failed flush keeps the whole buffer although a part of it may have been sent: on a
  socket that takes two bytes, fails once and then takes everything, flushing again sends them twice.
\<close>

definition cut_send :: "((i32 \<Rightarrow> u8 list) \<times> nat) os_send" where
  "cut_send w fd buf = (let took = (\<lambda>n. (((fst w)(fd := fst w fd @ take n buf), snd w + 1), Sent (min n (length buf)))) in
     if snd w = 0 then took 2 else if snd w = 1 then ((fst w, snd w + 1), Send_Error) else took (length buf))"

lemma flush_repeats_bytes:
  "\<exists>s1 w2 s2 w3 s3. session_send cut_send (\<lambda>_. [], 0) fresh_session [1, 2, 3] = Some ((\<lambda>_. [], 0), s1, SCRS_OK) \<and>
    session_flush cut_send (\<lambda>_. [], 0) s1 = Some (w2, s2, SCRS_SEND_ERROR) \<and>
    session_flush cut_send w2 s2 = Some (w3, s3, SCRS_OK) \<and> fst w3 4 = [1, 2, 1, 2, 3]"
proof -
  let ?s = "fresh_session\<lparr>send_buf := write_at (send_buf fresh_session) 0 [1, 2, 3], send_buf_idx := 3\<rparr>"
  have s: "session_send cut_send (\<lambda>_. [], 0) fresh_session [1, 2, 3] = Some ((\<lambda>_. [], 0), ?s, SCRS_OK)"
    by (simp add: session_send_def fresh_session_def SENDBUFSZ_def)
  have b: "take (send_buf_idx ?s) (send_buf ?s) = [1, 2, 3]" "send_buf_idx ?s \<noteq> 0" "client_fd ?s = 4"
    by (simp_all add: write_at_def fresh_session_def)
  let ?w = "((\<lambda>_. [])(4 := [1, 2]), 2) :: (i32 \<Rightarrow> u8 list) \<times> nat"
  have l: "send_block cut_send (\<lambda>_. [], 0) 4 [1, 2, 3] = Some (?w, SCRS_SEND_ERROR)"
    unfolding send_block_def by (subst send_block_loop.simps, simp add: cut_send_def, subst send_block_loop.simps) (simp add: cut_send_def)
  have l2: "send_block cut_send ?w 4 [1, 2, 3] = Some (((\<lambda>_. [])(4 := [1, 2, 1, 2, 3]), 3), SCRS_OK)"
    unfolding send_block_def by (subst send_block_loop.simps, simp add: cut_send_def, subst send_block_loop.simps) simp
  have "session_flush cut_send (\<lambda>_. [], 0) ?s = Some (?w, ?s, SCRS_SEND_ERROR)"
    unfolding session_flush_def b(1,3) l using b(2) by simp
  moreover have "session_flush cut_send ?w ?s = Some (((\<lambda>_. [])(4 := [1, 2, 1, 2, 3]), 3), ?s\<lparr>send_buf_idx := 0\<rparr>, SCRS_OK)"
    unfolding session_flush_def b(1,3) l2 using b(2) by simp
  ultimately show ?thesis using s by fastforce
qed

end
