(* ===== verification/Scr_Execute_Laws.thy ===== *)
theory Scr_Execute_Laws
  imports Scr_Execute Scr_Session_Laws Scr_Dml_Laws
begin

text \<open>
  What the server says: over a socket that holds, a status is one header, and SELECT sends
  the columns of its table and the visible rows that pass the WHERE part, in order.
\<close>

section \<open>Messages\<close>

definition status_message :: "scrc_status \<Rightarrow> u8 list" where
  "status_message st = ascii ''Status'' @ ascii '': '' @ print_lli (of_nat (status_value st)) @ [10, 36, 36, 10]"

definition row_message :: "u64 \<Rightarrow> u8 list \<Rightarrow> u8 list" where
  "row_message sz r = le_bytes 4 SCRC_CMD_ROW @ le_bytes 8 sz @ r"

definition body_header :: "u8 list" where
  "body_header = ascii ''Status'' @ ascii '': '' @ print_lli 0 @ [10] @ ascii ''Body'' @ ascii '': '' @ ascii ''Yes'' @ [10, 36, 36, 10]"

definition table_message :: "u8 list list \<Rightarrow> u8 list" where
  "table_message cols = le_bytes 4 SCRC_CMD_TABHEADER @ concat (map (row_message 40) cols) @
     le_bytes 4 SCRC_CMD_END @ le_bytes 4 SCRC_CMD_TABDATA"

definition select_message :: "u8 list list \<Rightarrow> u64 \<Rightarrow> u8 list list \<Rightarrow> u8 list" where
  "select_message cols sz rows = body_header @ table_message cols @ concat (map (row_message sz) rows) @ le_bytes 4 SCRC_CMD_END"

section \<open>Sends that succeed\<close>

abbreviation delivered :: "('w \<Rightarrow> i32 \<Rightarrow> u8 list) \<Rightarrow> 'w \<Rightarrow> session \<Rightarrow> u8 list \<Rightarrow> 'w \<Rightarrow> session \<Rightarrow> bool" where
  "delivered out w s bs w' s' \<equiv> stream_grows out w s bs w' s' SCRS_OK"

lemma delivered_ok: "delivered out w s bs w' s' \<Longrightarrow> session_ok s'"
  by (rule stream_growsD(1))

lemma session_send_delivers:
  assumes "send_laws out patience os_send" "send_reliable os_send" "session_ok s" "length b < SENDBUFSZ"
  obtains w' s' where "session_send os_send w s b = Some (w', s', SCRS_OK)" "delivered out w s b w' s'"
  using session_send_ok[OF assms(1,3), of b w] session_send_reliable[OF assms(2)] assms(4) by blast

lemma session_sends_deliver:
  assumes "send_laws out patience os_send" "send_reliable os_send" "session_ok s" "\<forall>b \<in> set bs. length b < SENDBUFSZ"
  obtains w' s' where "session_sends os_send w s bs = Some (w', s', SCRS_OK)" "delivered out w s (concat bs) w' s'"
  using session_sends_ok[OF assms(1,3,4), of w] session_sends_reliable[OF assms(2)] by blast

lemma send_each_delivers:
  assumes "send_laws out patience os_send" "send_reliable os_send" "session_ok s" "\<forall>b \<in> set bs. length b < SENDBUFSZ"
  shows "\<exists>w' s'. send_each os_send w s bs = Some (w', s') \<and> delivered out w s (concat bs) w' s'"
  using assms(3,4)
proof (induction bs arbitrary: w s)
  case Nil
  then show ?case by (simp add: stream_grows_refl)
next
  case (Cons b bs)
  obtain w1 s1 where a: "session_send os_send w s b = Some (w1, s1, SCRS_OK)" "delivered out w s b w1 s1"
    using session_send_delivers[OF assms(1,2) Cons.prems(1), of b w] Cons.prems(2) by auto
  obtain w2 s2 where "send_each os_send w1 s1 bs = Some (w2, s2)" "delivered out w1 s1 (concat bs) w2 s2"
    using Cons.IH[OF delivered_ok[OF a(2)], of w1] Cons.prems(2) by auto
  then show ?case using a stream_grows_trans[OF a(2)] by auto
qed

text \<open>Numbers are short.\<close>

lemma length_decimal: "n < 10 ^ k \<Longrightarrow> 0 < k \<Longrightarrow> length (decimal n) \<le> k"
proof (induction k arbitrary: n)
  case (Suc k)
  show ?case
  proof (cases "n < 10")
    case False
    have "n div 10 < 10 ^ k" using Suc.prems(1) by (simp add: div_less_iff_less_mult)
    moreover have "0 < k" using calculation False by (cases k) auto
    ultimately show ?thesis using Suc.IH False by (subst decimal.simps) simp
  qed (subst decimal.simps, simp)
qed simp

lemma index_of_less: "index_of xs y = Some i \<Longrightarrow> i < length xs"
  by (induction xs y arbitrary: i rule: index_of.induct) (auto split: if_splits)

lemma status_value_less: "status_value st < 1000"
proof -
  have "length scrc_statuses = 19" "length scrs_statuses = 19" by (simp_all add: scrc_statuses_def scrs_statuses_def)
  then show ?thesis
    using index_of_less[of scrc_statuses st] index_of_less[of scrs_statuses st]
    by (fastforce simp: status_value_def split: option.splits)
qed

lemma print_lli_small: "n < 1000 \<Longrightarrow> print_lli (of_nat n) = decimal n"
proof -
  assume n: "n < 1000"
  then have "sint (of_nat n :: i64) = int n"
    by (simp add: signed_of_nat signed_take_bit_int_eq_self)
  then show ?thesis by (simp add: print_lli_def)
qed

lemma length_print_status: "length (print_lli (of_nat (status_value st))) \<le> 3"
  unfolding print_lli_small[OF status_value_less] by (rule length_decimal) (use status_value_less[of st] in simp_all)

section \<open>A status\<close>

lemma header_str_delivers:
  assumes "send_laws out patience os_send" "send_reliable os_send" "session_ok s"
    and "length name < SENDBUFSZ" "length value < SENDBUFSZ"
  obtains w' s' where "session_send_header_str os_send w s name value = Some (w', s', SCRS_OK)"
    "delivered out w s (name @ ascii '': '' @ value @ [10]) w' s'"
proof -
  have "\<forall>b \<in> set [name, ascii '': '', value, [10]]. length b < SENDBUFSZ"
    using assms(4,5) by (simp add: ascii_def SENDBUFSZ_def)
  from session_sends_deliver[OF assms(1-3) this, of w] show thesis
    using that by (auto simp: session_send_header_str_def)
qed

lemma finish_header_delivers:
  assumes "send_laws out patience os_send" "send_reliable os_send" "session_ok s"
  obtains w' s' where "session_finish_header os_send w s = Some (w', s', SCRS_OK)" "delivered out w s [36, 36, 10] w' s'"
proof -
  have "length [36, 36, 10 :: u8] < SENDBUFSZ" by (simp add: SENDBUFSZ_def)
  from session_send_delivers[OF assms this, of w] show thesis using that by (auto simp: session_finish_header_def)
qed

text \<open>Everything delivered and flushed has reached the kernel.\<close>

definition sent_out :: "('w \<Rightarrow> i32 \<Rightarrow> u8 list) \<Rightarrow> 'w \<Rightarrow> session \<Rightarrow> u8 list \<Rightarrow> 'w \<Rightarrow> session \<Rightarrow> bool" where
  "sent_out out w s bs w' s' \<longleftrightarrow> session_ok s' \<and> client_fd s' = client_fd s \<and> send_buf_idx s' = 0 \<and>
     (\<forall>fd. fd \<noteq> client_fd s \<longrightarrow> out w' fd = out w fd) \<and> out w' (client_fd s) = session_stream out w s @ bs"

lemma flush_sends_out:
  assumes "send_laws out patience os_send" "send_reliable os_send" "delivered out w0 s0 bs w s"
  obtains w' s' where "session_flush os_send w s = Some (w', s', SCRS_OK)" "sent_out out w0 s0 bs w' s'"
proof -
  note d = stream_growsD[OF assms(3)]
  obtain w' s' where f: "session_flush os_send w s = Some (w', s', SCRS_OK)" "session_ok s'" "client_fd s' = client_fd s"
    "\<forall>fd. fd \<noteq> client_fd s \<longrightarrow> out w' fd = out w fd" "out w' (client_fd s) = session_stream out w s" "send_buf_idx s' = 0"
    using session_flush_ok[OF assms(1) d(1), of w] session_flush_reliable[OF assms(2)] by blast
  then show thesis using that d by (simp add: sent_out_def)
qed

lemma send_status_delivers:
  assumes laws: "send_laws out patience os_send" "send_reliable os_send" and ok: "session_ok s"
  shows "\<exists>w' s'. session_send_status os_send w s st = Some (w', s') \<and> sent_out out w s (status_message st) w' s'"
proof -
  have l: "length (ascii ''Status'') < SENDBUFSZ" "length (print_lli (of_nat (status_value st))) < SENDBUFSZ"
    using length_print_status[of st] by (simp_all add: ascii_def SENDBUFSZ_def)
  obtain w1 s1 where a: "session_send_header_int os_send w s (ascii ''Status'') (of_nat (status_value st)) = Some (w1, s1, SCRS_OK)"
    "delivered out w s (ascii ''Status'' @ ascii '': '' @ print_lli (of_nat (status_value st)) @ [10]) w1 s1"
    using header_str_delivers[OF laws ok l] unfolding session_send_header_int_def by blast
  obtain w2 s2 where b: "session_finish_header os_send w1 s1 = Some (w2, s2, SCRS_OK)" "delivered out w1 s1 [36, 36, 10] w2 s2"
    using finish_header_delivers[OF laws delivered_ok[OF a(2)]] by blast
  have "delivered out w s (status_message st) w2 s2"
    using stream_grows_trans[OF a(2) b(2)] by (simp add: status_message_def)
  then obtain w3 s3 where "session_flush os_send w2 s2 = Some (w3, s3, SCRS_OK)" "sent_out out w s (status_message st) w3 s3"
    using flush_sends_out[OF laws] by blast
  then show ?thesis using a(1) b(1) by (auto simp: session_send_status_def)
qed

section \<open>The columns\<close>

text \<open>A header with a free slot; the loop over the columns would fail an assert without it.\<close>

definition header_room :: "hgrid \<Rightarrow> bool" where
  "header_room h \<longleftrightarrow> hgrid_wf h \<and> length (grid_list h) < unat (g_rown h)"

definition shown_columns :: "u8 list \<Rightarrow> hgrid \<Rightarrow> u8 list list" where
  "shown_columns pad h = map (column_bytes pad) (filter (\<lambda>c. \<not> column_hidden c) (grid_list h))"

lemma header_room_row:
  assumes "header_room h" "unat i \<le> length (grid_list h)"
  shows "grid_get_row h i = Some (if unat i < length (grid_list h) then Some (unat i) else None)"
  using assms grid_get_row_list[of h i] by (simp add: header_room_def hgrid_wf_def)

lemma length_column_bytes: "name_ok c \<Longrightarrow> length pad = 6 \<Longrightarrow> length (column_bytes pad c) = 40"
  by (simp add: column_bytes_def name_ok_def NAMESZ_def)

lemma concat_column_chunks: "concat (column_chunks pad c) = row_message 40 (column_bytes pad c)"
  by (simp add: column_chunks_def row_message_def)

lemma send_columns_delivers:
  assumes laws: "send_laws out patience os_send" "send_reliable os_send" and h: "header_room h" and pad: "length pad = 6"
  shows "session_ok s \<Longrightarrow> unat i \<le> length (grid_list h) \<Longrightarrow>
    \<exists>w' s'. send_columns os_send pad h w s i = Some (w', s') \<and>
      delivered out w s (concat (map (\<lambda>c. row_message 40 (column_bytes pad c))
        (filter (\<lambda>c. \<not> column_hidden c) (drop (unat i) (grid_list h))))) w' s'"
proof (induction "length (grid_list h) - unat i" arbitrary: w s i)
  case 0
  then have "unat i = length (grid_list h)" by simp
  then show ?case using header_room_row[OF h 0(3)] 0(2) by (subst send_columns.simps) (simp add: stream_grows_refl)
next
  case (Suc n)
  have lt: "unat i < length (grid_list h)" using Suc(2) by simp
  have inv: "grid_inv h" using h by (simp add: header_room_def hgrid_wf_def)
  have oc: "i < g_occupied h" using lt grid_invD(3)[OF inv] by (simp add: word_less_nat_alt)
  note i1 = unat_succ_u16[OF oc]
  have nth: "g_rows h ! unat i = grid_list h ! unat i" using lt by (simp add: grid_list_def)
  have r: "grid_get_row h i = Some (Some (unat i))" using header_room_row[OF h Suc(4)] lt by simp
  have dr: "drop (unat i) (grid_list h) = grid_list h ! unat i # drop (unat (i + 1)) (grid_list h)"
    unfolding i1 using lt by (simp add: Cons_nth_drop_Suc)
  let ?c = "grid_list h ! unat i"
  have step: "n = length (grid_list h) - unat (i + 1)" "unat (i + 1) \<le> length (grid_list h)" using Suc(2) i1 by simp_all
  show ?case
  proof (cases "column_hidden ?c")
    case True
    from Suc(1)[OF step(1) Suc(3) step(2), of w] show ?thesis
      using True r nth by (subst send_columns.simps) (simp add: dr Let_def)
  next
    case False
    have "?c \<in> set (g_rows h)" using lt by (metis grid_list_def in_set_takeD nth_mem)
    then have nm: "name_ok ?c" using h by (simp add: header_room_def hgrid_wf_def)
    have "\<forall>b \<in> set (column_chunks pad ?c). length b < SENDBUFSZ"
      using length_column_bytes[OF nm pad] by (simp add: column_chunks_def SENDBUFSZ_def)
    from send_each_delivers[OF laws Suc(3) this, of w] obtain w1 s1 where
      a: "send_each os_send w s (column_chunks pad ?c) = Some (w1, s1)" "delivered out w s (row_message 40 (column_bytes pad ?c)) w1 s1"
      unfolding concat_column_chunks by blast
    from Suc(1)[OF step(1) delivered_ok[OF a(2)] step(2), of w1] obtain w2 s2 where
      b: "send_columns os_send pad h w1 s1 (i + 1) = Some (w2, s2)"
      "delivered out w1 s1 (concat (map (\<lambda>c. row_message 40 (column_bytes pad c))
        (filter (\<lambda>c. \<not> column_hidden c) (drop (unat (i + 1)) (grid_list h))))) w2 s2" by blast
    show ?thesis using a(1) b(1) r nth False stream_grows_trans[OF a(2) b(2)]
      by (subst send_columns.simps) (simp add: dr Let_def)
  qed
qed

lemma select_head_delivers:
  assumes laws: "send_laws out patience os_send" "send_reliable os_send" and ok: "session_ok s"
    and h: "header_room h" and pad: "length pad = 6"
  shows "\<exists>w' s'. select_head os_send pad h w s = Some (w', s') \<and>
    delivered out w s (body_header @ table_message (shown_columns pad h)) w' s'"
proof -
  have l: "length (ascii ''Status'') < SENDBUFSZ" "length (print_lli 0) < SENDBUFSZ" "length (ascii ''Body'') < SENDBUFSZ" "length (ascii ''Yes'') < SENDBUFSZ"
    by (simp_all add: ascii_def SENDBUFSZ_def print_lli_def decimal.simps)
  have v: "(of_nat (status_value SCRC_OK) :: i64) = 0" by (simp add: status_value_def scrc_statuses_def)
  obtain w1 s1 where a: "session_send_header_int os_send w s (ascii ''Status'') (of_nat (status_value SCRC_OK)) = Some (w1, s1, SCRS_OK)"
    "delivered out w s (ascii ''Status'' @ ascii '': '' @ print_lli 0 @ [10]) w1 s1"
    using header_str_delivers[OF laws ok l(1,2)] unfolding session_send_header_int_def v by blast
  obtain w2 s2 where b: "session_send_header_str os_send w1 s1 (ascii ''Body'') (ascii ''Yes'') = Some (w2, s2, SCRS_OK)"
    "delivered out w1 s1 (ascii ''Body'' @ ascii '': '' @ ascii ''Yes'' @ [10]) w2 s2"
    using header_str_delivers[OF laws delivered_ok[OF a(2)] l(3,4)] by blast
  obtain w3 s3 where c: "session_finish_header os_send w2 s2 = Some (w3, s3, SCRS_OK)" "delivered out w2 s2 [36, 36, 10] w3 s3"
    using finish_header_delivers[OF laws delivered_ok[OF b(2)]] by blast
  have sm: "\<forall>b \<in> set [le_bytes 4 SCRC_CMD_TABHEADER]. length b < SENDBUFSZ"
    "\<forall>b \<in> set [le_bytes 4 SCRC_CMD_END, le_bytes 4 SCRC_CMD_TABDATA]. length b < SENDBUFSZ"
    by (simp_all add: SENDBUFSZ_def)
  obtain w4 s4 where d: "send_each os_send w3 s3 [le_bytes 4 SCRC_CMD_TABHEADER] = Some (w4, s4)"
    "delivered out w3 s3 (concat [le_bytes 4 SCRC_CMD_TABHEADER]) w4 s4"
    using send_each_delivers[OF laws delivered_ok[OF c(2)] sm(1), of w3] by blast
  have z: "unat (0 :: u16) \<le> length (grid_list h)" by simp
  obtain w5 s5 where e: "send_columns os_send pad h w4 s4 0 = Some (w5, s5)"
    "delivered out w4 s4 (concat (map (row_message 40) (shown_columns pad h))) w5 s5"
    using send_columns_delivers[OF laws h pad delivered_ok[OF d(2)] z, of w4] by (auto simp: shown_columns_def comp_def)
  obtain w6 s6 where f: "send_each os_send w5 s5 [le_bytes 4 SCRC_CMD_END, le_bytes 4 SCRC_CMD_TABDATA] = Some (w6, s6)"
    "delivered out w5 s5 (concat [le_bytes 4 SCRC_CMD_END, le_bytes 4 SCRC_CMD_TABDATA]) w6 s6"
    using send_each_delivers[OF laws delivered_ok[OF e(2)] sm(2), of w5] by blast
  note t = stream_grows_trans[OF stream_grows_trans[OF stream_grows_trans[OF stream_grows_trans[OF stream_grows_trans[OF a(2) b(2)] c(2)] d(2)] e(2)] f(2)]
  have "select_head os_send pad h w s = Some (w6, s6)"
    using a(1) b(1) c(1) d(1) e(1) f(1) by (simp add: select_head_def del: send_each.simps)
  moreover have "delivered out w s (body_header @ table_message (shown_columns pad h)) w6 s6"
    using t by (simp add: body_header_def table_message_def)
  ultimately show ?thesis by blast
qed

section \<open>The WHERE part\<close>

text \<open>What an expression reads of an iterator: the place it is at, and whether it is valid.\<close>

definition same_place :: "store \<Rightarrow> titor \<Rightarrow> titor \<Rightarrow> bool" where
  "same_place s t t' \<longleftrightarrow> m_header (t_m t) = m_header (t_m t') \<and> m_data (t_m t) = m_data (t_m t') \<and>
     m_row (t_m t) = m_row (t_m t') \<and> titor_is_valid s t = titor_is_valid s t'"

lemma eval_value_place: "same_place s t t' \<Longrightarrow> eval_value s t d = eval_value s t' d"
  by (simp add: eval_value_def same_place_def titor_get_datum_def mitor_get_datum_def cong: if_cong option.case_cong)

lemma eval_values_place: "same_place s t t' \<Longrightarrow> eval_values s t ds = eval_values s t' ds"
  by (induction ds) (simp_all add: eval_value_place)

lemma eval_place: "same_place s t t' \<Longrightarrow> eval_aexpr s t a = eval_aexpr s t' a"
    "same_place s t t' \<Longrightarrow> eval_expr s t e = eval_expr s t' e"
  by (induction a and e) (simp_all add: eval_value_place eval_values_place[of s t t'])

definition row_titor :: "gid \<Rightarrow> tran \<Rightarrow> gid \<times> nat \<Rightarrow> titor" where
  "row_titor hg tr p = \<lparr>t_m = \<lparr>m_gp = \<lparr>gp_header = hg, gp_data = fst p\<rparr>, m_header = Some hg, m_data = Some (fst p),
     m_row = of_nat (snd p)\<rparr>, t_tran = Some tr\<rparr>"

text \<open>The value of a WHERE part on the row at a position.\<close>

definition where_at :: "store \<Rightarrow> gid \<Rightarrow> tran \<Rightarrow> expr option \<Rightarrow> gid \<times> nat \<Rightarrow> bool exec" where
  "where_at s hg tr e p = eval_where s (row_titor hg tr p) e"

lemma where_at_on:
  assumes on: "titor_on tp tr s hg h gs i t" and i: "i < page_len s (hd gs)" and hg: "hg \<noteq> GID_UNDEF"
  shows "eval_where s t e = where_at s hg tr e (hd gs, i)"
proof -
  note f = titor_on_facts[OF on]
  have at: "mitor_at s gs i (t_m t)" "m_header (t_m t) = Some hg" using on by (auto simp: titor_on_def)
  obtain g gs' where gs: "gs = g # gs'" using at by (cases gs) (auto simp: mitor_at_def)
  then have "mesh_chain s g (g # gs')" using at by (auto simp: mitor_at_def)
  then obtain d where d: "st_d s g = Some d" "g \<noteq> GID_UNDEF" "page_len s g = unat (g_occupied d)" by (rule mesh_chain_hd)
  let ?t = "row_titor hg tr (hd gs, i)"
  have row: "m_row (t_m t) = of_nat i" using f(5) by auto
  then have "of_nat i < g_occupied d" using f(5) d(3) gs i by (simp add: word_less_nat_alt)
  then have "mitor_is_valid s (t_m ?t) = Some True"
    using d hg gs by (simp add: mitor_is_valid_def row_titor_def)
  moreover have "titor_content s ?t = titor_content s t" using f(4) by (simp add: titor_content_def row_titor_def)
  moreover have "t_tran ?t = Some tr" by (simp add: row_titor_def)
  ultimately have "titor_is_valid s ?t = Some True" using f(2) by (simp add: titor_is_valid_def)
  then have "titor_is_valid s ?t = titor_is_valid s t" using f(3) i by simp
  then have "same_place s t ?t" using at(2) f(4) row by (simp add: same_place_def row_titor_def)
  then show ?thesis by (cases e) (simp_all add: where_at_def eval_where_def eval_place)
qed

section \<open>The rows\<close>

text \<open>Rows as wide as SELECT sends them.\<close>

definition row_of :: "store \<Rightarrow> gid \<times> nat \<Rightarrow> u8 list" where
  "row_of s p = page_rows s (fst p) ! snd p"

definition rows_full :: "store \<Rightarrow> hgrid \<Rightarrow> (gid \<times> nat) list \<Rightarrow> bool" where
  "rows_full s h ps \<longleftrightarrow> (\<forall>p \<in> set ps. length (row_of s p) = unat (hgrid_get_row_size h)) \<and>
     unat (hgrid_get_row_size h) < SENDBUFSZ"

lemma titor_on_row:
  assumes on: "titor_on tp tr s hg h gs i t" and i: "i < page_len s (hd gs)"
  shows "titor_get_row s t = Some (row_of s (hd gs, i))" "titor_get_row_size s t = Some (hgrid_get_row_size h)"
proof -
  note f = titor_on_facts[OF on]
  have at: "mvcc_table tp tr s hg h gs" "m_header (t_m t) = Some hg" and hd: "hd gs \<in> set gs"
    using on by (auto simp: titor_on_def mitor_at_def)
  obtain d where d: "st_d s (hd gs) = Some d" "dgrid_ok h d"
    using at(1) hd by (auto simp: mvcc_table_def mvcc_page_def split: option.splits)
  have inv: "grid_inv d" using d(2) by (simp add: dgrid_ok_def)
  have il: "unat (m_row (t_m t)) < length (grid_list d)" using i f(5) d(1) by (simp add: page_len_def page_rows_def)
  then have "grid_get_row d (m_row (t_m t)) = Some (Some i)"
    using grid_get_row_list[OF inv, of "m_row (t_m t)"] grid_invD(2,3)[OF inv] f(5) by simp
  then show "titor_get_row s t = Some (row_of s (hd gs, i))"
    using f(4,5) d(1) il by (simp add: titor_get_row_def row_of_def page_rows_def grid_list_def)
  show "titor_get_row_size s t = Some (hgrid_get_row_size h)"
    using at by (simp add: titor_get_row_size_def mvcc_table_def)
qed

lemma send_row_delivers:
  assumes laws: "send_laws out patience os_send" "send_reliable os_send" and ok: "session_ok sn"
    and on: "titor_on tp tr s hg h gs i t" "i < page_len s (hd gs)" and full: "rows_full s h ps" "(hd gs, i) \<in> set ps"
  obtains w' sn' where "send_row os_send s t w sn = Some (w', sn')"
    "delivered out w sn (row_message (hgrid_get_row_size h) (row_of s (hd gs, i))) w' sn'"
proof -
  note r = titor_on_row[OF on]
  let ?sz = "hgrid_get_row_size h" and ?r = "row_of s (hd gs, i)"
  have l: "length ?r = unat ?sz" "unat ?sz < SENDBUFSZ" using full by (auto simp: rows_full_def)
  have "\<forall>b \<in> set [le_bytes 4 SCRC_CMD_ROW, le_bytes 8 ?sz, ?r]. length b < SENDBUFSZ"
    using l by (simp add: SENDBUFSZ_def)
  from send_each_delivers[OF laws ok this, of w] obtain w' sn' where
    "send_each os_send w sn [le_bytes 4 SCRC_CMD_ROW, le_bytes 8 ?sz, ?r] = Some (w', sn')"
    "delivered out w sn (row_message ?sz ?r) w' sn'" by (auto simp: row_message_def simp del: send_each.simps)
  moreover have "send_row os_send s t w sn = send_each os_send w sn [le_bytes 4 SCRC_CMD_ROW, le_bytes 8 ?sz, ?r]"
    using r(1,2) l by (simp add: send_row_def row_chunks_def del: send_each.simps)
  ultimately show thesis using that by simp
qed

lemma select_rows_on:
  assumes laws: "send_laws out patience os_send" "send_reliable os_send" and hg: "hg \<noteq> GID_UNDEF"
  shows "titor_on tp tr s hg h gs i t \<Longrightarrow> positions s gs i = dropWhile (\<lambda>p. \<not> pos_visible tp tr s h p) ps \<Longrightarrow>
    rows_full s h ps \<Longrightarrow> session_ok sn \<Longrightarrow> \<forall>p \<in> set ps. pos_visible tp tr s h p \<longrightarrow> where_at s hg tr e p = Some (Inr (keep p)) \<Longrightarrow>
    \<exists>w' sn'. select_rows os_send tp s e t w sn = Some (w', sn', SCRS_OK) \<and>
      delivered out w sn (concat (map (\<lambda>p. row_message (hgrid_get_row_size h) (row_of s p))
        (filter keep (filter (pos_visible tp tr s h) ps)))) w' sn'"
proof (induction "length (positions s gs i)" arbitrary: gs i t ps w sn rule: less_induct)
  case less
  let ?v = "pos_visible tp tr s h" and ?msg = "\<lambda>p. row_message (hgrid_get_row_size h) (row_of s p)"
  note f = titor_on_facts[OF less.prems(1)]
  have at: "mitor_at s gs i (t_m t)" using less.prems(1) by (auto simp: titor_on_def)
  have fil: "filter ?v ps = filter ?v (positions s gs i)" unfolding less.prems(2) by (induction ps) auto
  show ?case
  proof (cases "i < page_len s (hd gs)")
    case False
    then show ?thesis using f(3) fil positions_at_end[OF at False] less.prems(4)
      by (subst select_rows.simps) (simp add: stream_grows_refl)
  next
    case True
    obtain rest where rest: "positions s gs i = (hd gs, i) # rest" using mitor_next_at[OF at True] by metis
    then have v: "?v (hd gs, i)" using less.prems(2) by (metis dropWhile_eq_Cons_conv)
    have ps: "set (positions s gs i) \<subseteq> set ps" unfolding less.prems(2) by (blast dest: set_dropWhileD)
    then have mem: "(hd gs, i) \<in> set ps" and sub: "set rest \<subseteq> set ps" using rest by auto
    then have wh: "eval_where s t e = Some (Inr (keep (hd gs, i)))"
      using where_at_on[OF less.prems(1) True hg] less.prems(5) v by simp
    obtain w1 sn1 where a: "(if keep (hd gs, i) then send_row os_send s t w sn else Some (w, sn)) = Some (w1, sn1)"
      "delivered out w sn (if keep (hd gs, i) then ?msg (hd gs, i) else []) w1 sn1"
    proof (cases "keep (hd gs, i)")
      case True
      obtain w1 sn1 where "send_row os_send s t w sn = Some (w1, sn1)" "delivered out w sn (?msg (hd gs, i)) w1 sn1"
        by (rule send_row_delivers[OF laws less.prems(4,1) \<open>i < page_len s (hd gs)\<close> less.prems(3) mem])
      then show thesis by (intro that[of w1 sn1]) (simp_all add: True)
    next
      case False
      then show thesis by (intro that[of w sn]) (simp_all add: stream_grows_refl[OF less.prems(4)])
    qed
    obtain t' gs' i' where t': "titor_next_mvcc tp s t = Some t'" "titor_on tp tr s hg h gs' i' t'"
      "positions s gs' i' = dropWhile (\<lambda>p. \<not> ?v p) rest"
      using titor_next_mvcc_stops[OF less.prems(1) True] rest by (auto simp: titor_stops_def)
    have lt: "length (positions s gs' i') < length (positions s gs i)"
      using length_dropWhile_le[of _ rest] t'(3) rest by (simp add: le_imp_less_Suc)
    have full: "rows_full s h rest" using less.prems(3) sub by (auto simp: rows_full_def)
    have "\<forall>p \<in> set rest. ?v p \<longrightarrow> where_at s hg tr e p = Some (Inr (keep p))" using less.prems(5) sub by blast
    from less.hyps[OF lt t'(2,3) full delivered_ok[OF a(2)] this, of w1] obtain w2 sn2 where
      b: "select_rows os_send tp s e t' w1 sn1 = Some (w2, sn2, SCRS_OK)"
      "delivered out w1 sn1 (concat (map ?msg (filter keep (filter ?v rest)))) w2 sn2" by blast
    have "titor_next tp s t = Some t'" using f(2) t'(1) by (simp add: titor_next_def)
    then have "select_rows os_send tp s e t w sn = Some (w2, sn2, SCRS_OK)"
      using f(3) True wh a(1) b(1) by (subst select_rows.simps) simp
    moreover have "concat (map ?msg (filter keep (filter ?v ps))) =
        (if keep (hd gs, i) then ?msg (hd gs, i) else []) @ concat (map ?msg (filter keep (filter ?v rest)))"
      unfolding fil rest using v by simp
    ultimately show ?thesis using stream_grows_trans[OF a(2) b(2)] by auto
  qed
qed

section \<open>SELECT\<close>

text \<open>A table in the system tables with rows and an open transaction, that SELECT can send.\<close>

definition select_ready ::
    "server_sys \<Rightarrow> sess \<Rightarrow> db \<Rightarrow> u8 list \<Rightarrow> u8 list \<Rightarrow> u8 list list \<Rightarrow> db \<Rightarrow> gid_pair \<Rightarrow> hgrid \<Rightarrow> gid list \<Rightarrow> tran \<Rightarrow> bool" where
  "select_ready sys ss d0 schema table names d gp h gs tr \<longleftrightarrow>
     find_relation sys ss d0 schema table False False = Some (d, gp) \<and> sess_tran d ss = Some tr \<and>
     gp_header gp \<noteq> GID_UNDEF \<and> mvcc_table (db_tran d) tr (db_store d) (gp_header gp) h gs \<and>
     mesh_chain (db_store d) (gp_data gp) gs \<and> gs \<noteq> [] \<and> (\<forall>x \<in> set gs. page_rows (db_store d) x \<noteq> []) \<and>
     header_room h \<and> column_indices h names \<noteq> None \<and> rows_full (db_store d) h (positions (db_store d) gs 0)"

definition visible_rows :: "db \<Rightarrow> tran \<Rightarrow> hgrid \<Rightarrow> gid list \<Rightarrow> (gid \<times> nat) list" where
  "visible_rows d tr h gs = filter (pos_visible (db_tran d) tr (db_store d) h) (positions (db_store d) gs 0)"

definition selected :: "db \<Rightarrow> gid \<Rightarrow> tran \<Rightarrow> expr option \<Rightarrow> gid \<times> nat \<Rightarrow> bool" where
  "selected d hg tr e p \<longleftrightarrow> where_at (db_store d) hg tr e p = Some (Inr True)"

lemma dml_select_ready:
  assumes "select_ready sys ss d0 schema table names d gp h gs tr"
  obtains t where "dml_select sys ss d0 schema table names = Some (d, ss, SCRS_OK, Some t)"
    "titor_stops (db_tran d) tr (db_store d) (gp_header gp) h (positions (db_store d) gs 0) t"
proof -
  note r = assms[unfolded select_ready_def]
  have hd: "gp_data gp = hd gs" using mesh_chain_next[of "db_store d" "gp_data gp" gs] r by blast
  then have "mvcc_page (db_tran d) tr (db_store d) h (gp_data gp)" using r by (auto simp: mvcc_table_def)
  then obtain dt where dt: "st_d (db_store d) (gp_data gp) = Some dt" "g_content dt = GC_MVCC"
    by (auto simp: mvcc_page_def split: option.splits)
  have ud: "gp_data gp \<noteq> GID_UNDEF" using r hd by (cases gs) auto
  have h: "st_h (db_store d) (gp_header gp) = Some h" using r by (auto simp: mvcc_table_def)
  have ens: "ensure_tran sys ss d = Some (d, ss, SCRS_OK)" using r by (auto simp: ensure_tran_def sess_tran_def)
  obtain t where t: "titor_init (db_tran d) (db_store d) (Some tr) \<lparr>gp_header = gp_header gp, gp_data = gp_data gp\<rparr> (gp_header gp) (gp_data gp) = Some t"
    "titor_stops (db_tran d) tr (db_store d) (gp_header gp) h (positions (db_store d) gs 0) t"
    using titor_init_stops[of "db_tran d" tr "db_store d" "gp_header gp" h gs "gp_data gp"] r by blast
  have "titor_init (db_tran d) (db_store d) (Some tr) gp (gp_header gp) (gp_data gp) = Some t" using t(1) by (cases gp) simp
  then have "dml_select sys ss d0 schema table names = Some (d, ss, SCRS_OK, Some t)"
    unfolding dml_select_def using r dt ud h ens by auto
  then show thesis using that t(2) by blast
qed

lemma titor_stops_valid:
  assumes "titor_stops tp tr s hg h ps t"
  shows "titor_is_valid s t = Some (filter (pos_visible tp tr s h) ps \<noteq> [])" "m_header (t_m t) = Some hg"
proof -
  obtain gs i where on: "titor_on tp tr s hg h gs i t" and ps: "positions s gs i = dropWhile (\<lambda>p. \<not> pos_visible tp tr s h p) ps"
    using assms by (auto simp: titor_stops_def)
  have at: "mitor_at s gs i (t_m t)" using on by (auto simp: titor_on_def)
  show "m_header (t_m t) = Some hg" using on by (auto simp: titor_on_def)
  have "i < page_len s (hd gs) \<longleftrightarrow> positions s gs i \<noteq> []"
    using positions_at_end[OF at] mitor_next_at[OF at] by force
  also have "\<dots> \<longleftrightarrow> filter (pos_visible tp tr s h) ps \<noteq> []"
    unfolding ps by (simp add: dropWhile_eq_Nil_conv filter_empty_conv)
  finally show "titor_is_valid s t = Some (filter (pos_visible tp tr s h) ps \<noteq> [])"
    using titor_on_facts(3)[OF on] by simp
qed

lemma exec_select_sends:
  assumes laws: "send_laws out patience os_send" "send_reliable os_send" and ok: "session_ok sn" and pad: "length pad = 6"
    and ready: "select_ready sys ss d0 schema table names d gp h gs tr"
    and wh: "\<forall>p \<in> set (visible_rows d tr h gs). \<exists>b. where_at (db_store d) (gp_header gp) tr e p = Some (Inr b)"
    and ne: "e \<noteq> None \<longrightarrow> visible_rows d tr h gs \<noteq> []"
  shows "\<exists>w' sn'. exec_select os_send pad sys schema table names e d0 ss w sn = Some (d, ss, w', sn', 0) \<and>
    sent_out out w sn (select_message (shown_columns pad h) (hgrid_get_row_size h)
      (map (row_of (db_store d)) (filter (selected d (gp_header gp) tr e) (visible_rows d tr h gs)))) w' sn'"
proof -
  note r = ready[unfolded select_ready_def]
  obtain t where t: "dml_select sys ss d0 schema table names = Some (d, ss, SCRS_OK, Some t)"
    "titor_stops (db_tran d) tr (db_store d) (gp_header gp) h (positions (db_store d) gs 0) t"
    by (rule dml_select_ready[OF ready])
  note v = titor_stops_valid[OF t(2), folded visible_rows_def]
  have h: "st_h (db_store d) (gp_header gp) = Some h" "header_room h" using r by (auto simp: mvcc_table_def)
  obtain w1 sn1 where a: "select_head os_send pad h w sn = Some (w1, sn1)"
    "delivered out w sn (body_header @ table_message (shown_columns pad h)) w1 sn1"
    using select_head_delivers[OF laws ok h(2) pad, of w] by blast
  obtain gs' i where on: "titor_on (db_tran d) tr (db_store d) (gp_header gp) h gs' i t"
    and ps: "positions (db_store d) gs' i = dropWhile (\<lambda>p. \<not> pos_visible (db_tran d) tr (db_store d) h p) (positions (db_store d) gs 0)"
    using t(2) by (auto simp: titor_stops_def)
  let ?sel = "selected d (gp_header gp) tr e"
  have ud: "gp_header gp \<noteq> GID_UNDEF" and full: "rows_full (db_store d) h (positions (db_store d) gs 0)" using r by auto
  have "\<forall>p \<in> set (positions (db_store d) gs 0). pos_visible (db_tran d) tr (db_store d) h p \<longrightarrow>
      where_at (db_store d) (gp_header gp) tr e p = Some (Inr (?sel p))"
    using wh by (fastforce simp: visible_rows_def selected_def)
  from select_rows_on[OF laws ud on ps full delivered_ok[OF a(2)] this, of w1] obtain w2 sn2 where
    b: "select_rows os_send (db_tran d) (db_store d) e t w1 sn1 = Some (w2, sn2, SCRS_OK)"
    "delivered out w1 sn1 (concat (map (\<lambda>p. row_message (hgrid_get_row_size h) (row_of (db_store d) p))
      (filter ?sel (visible_rows d tr h gs)))) w2 sn2"
    unfolding visible_rows_def by blast
  have "\<forall>b \<in> set [le_bytes 4 SCRC_CMD_END]. length b < SENDBUFSZ" by (simp add: SENDBUFSZ_def)
  from send_each_delivers[OF laws delivered_ok[OF b(2)] this, of w2] obtain w3 sn3 where
    c: "send_each os_send w2 sn2 [le_bytes 4 SCRC_CMD_END] = Some (w3, sn3)" "delivered out w2 sn2 (le_bytes 4 SCRC_CMD_END) w3 sn3"
    by (auto simp del: send_each.simps)
  obtain w4 sn4 where f: "session_flush os_send w3 sn3 = Some (w4, sn4, SCRS_OK)"
    "sent_out out w sn (((body_header @ table_message (shown_columns pad h)) @ concat (map (\<lambda>p. row_message (hgrid_get_row_size h) (row_of (db_store d) p))
      (filter ?sel (visible_rows d tr h gs)))) @ le_bytes 4 SCRC_CMD_END) w4 sn4"
    by (rule flush_sends_out[OF laws stream_grows_trans[OF stream_grows_trans[OF a(2) b(2)] c(2)]])
  have tail: "select_tail os_send w2 sn2 = Some (w4, sn4)" using c(1) f(1) by (simp add: select_tail_def del: send_each.simps)
  have "exec_select os_send pad sys schema table names e d0 ss w sn = Some (d, ss, w4, sn4, 0)"
    using t(1) v h(1) a(1) b(1) tail ne by (auto simp: exec_select_def)
  moreover have "sent_out out w sn (select_message (shown_columns pad h) (hgrid_get_row_size h)
      (map (row_of (db_store d)) (filter ?sel (visible_rows d tr h gs)))) w4 sn4"
    using f(2) by (simp add: select_message_def comp_def)
  ultimately show ?thesis by blast
qed

text \<open>With a WHERE part and no row to look at the statement fails after the table header is sent.\<close>

lemma exec_select_no_rows:
  assumes laws: "send_laws out patience os_send" "send_reliable os_send" and ok: "session_ok sn" and pad: "length pad = 6"
    and ready: "select_ready sys ss d0 schema table names d gp h gs tr"
    and none: "visible_rows d tr h gs = []" "e \<noteq> None"
  shows "\<exists>w' sn'. exec_select os_send pad sys schema table names e d0 ss w sn = Some (d, ss, w', sn', 1) \<and>
    delivered out w sn (body_header @ table_message (shown_columns pad h)) w' sn'"
proof -
  obtain t where t: "dml_select sys ss d0 schema table names = Some (d, ss, SCRS_OK, Some t)"
    "titor_stops (db_tran d) tr (db_store d) (gp_header gp) h (positions (db_store d) gs 0) t"
    by (rule dml_select_ready[OF ready])
  note v = titor_stops_valid[OF t(2), folded visible_rows_def]
  have h: "st_h (db_store d) (gp_header gp) = Some h" "header_room h" using ready by (auto simp: mvcc_table_def select_ready_def)
  from select_head_delivers[OF laws ok h(2) pad, of w] show ?thesis
    using t(1) v h(1) none by (auto simp: exec_select_def)
qed

end
