(* ===== verification/Scr_Scrc_Laws.thy ===== *)
theory Scr_Scrc_Laws
  imports Scr_Scrc Scr_Session_Laws
begin

text \<open>
  The client reads a stream of bytes through a buffer that it refills and compacts. Block
  reads refine reads of the stream; header lines are read byte by byte with pointers kept
  into the buffer, which is right as long as no compaction falls into a line. What it prints
  into its socket arrives whole as long as the socket takes bytes.
\<close>

section \<open>Sending\<close>

lemma scrc_send_loop_ok:
  assumes laws: "send_laws out patience os_send" and rel: "send_reliable os_send"
  shows "\<exists>w'. scrc_send_loop os_send w fd buf sent = Some (w', code SCRC_OK) \<and> out w' = (out w)(fd := out w fd @ drop sent buf)"
proof (induction "(w, sent)" arbitrary: w sent rule: wf_induct_rule[OF wf_measures[of "[\<lambda>(w, sent). length buf - sent, \<lambda>(w, sent). patience w]"]])
  case (1 w sent)
  note IH = this and L = send_lawsD[OF laws]
  show ?case
  proof (cases "sent < length buf")
    case False
    then show ?thesis by (subst scrc_send_loop.simps) simp
  next
    case True
    obtain w1 r where s: "os_send w fd (drop sent buf) = (w1, r)" by fastforce
    have "r \<noteq> Send_Error" "r \<noteq> Sent 0" using rel True s unfolding send_reliable_def by (metis drop_eq_Nil insertCI not_le snd_conv)+
    then consider (sent) n where "r = Sent n" "0 < n" | (intr) "r = Send_Eintr" by (cases r) auto
    then show ?thesis
    proof cases
      case (sent n)
      note s1 = s[unfolded sent(1)]
      note n = L(1)[OF s1] L(2)[OF s1]
      have "((w1, sent + n), (w, sent)) \<in> measures [\<lambda>(w, sent). length buf - sent, \<lambda>(w, sent). patience w]"
        using True sent(2) by (simp add: diff_less_mono2)
      from IH[OF this] obtain w' where ih: "scrc_send_loop os_send w1 fd buf (sent + n) = Some (w', code SCRC_OK)"
        "out w' = (out w1)(fd := out w1 fd @ drop (sent + n) buf)" by blast
      have "drop sent buf = take n (drop sent buf) @ drop (sent + n) buf" by (metis add.commute append_take_drop_id drop_drop)
      then have "out w' = (out w)(fd := out w fd @ drop sent buf)" using ih(2) n(2) by (simp flip: append.assoc)
      then show ?thesis using ih(1) sent(1) s True by (subst scrc_send_loop.simps) simp
    next
      case intr
      note e = L(3)[OF s[unfolded intr]] L(4)[OF s[unfolded intr]]
      then have "((w1, sent), (w, sent)) \<in> measures [\<lambda>(w, sent). length buf - sent, \<lambda>(w, sent). patience w]" by simp
      from IH[OF this] show ?thesis using e(1) intr s True by (subst scrc_send_loop.simps) simp
    qed
  qed
qed

lemma send_printed_ok:
  assumes "send_laws out patience os_send" "send_reliable os_send" "length buf < BUFSZ"
  obtains w' where "send_printed os_send w fd buf = Some (w', code SCRC_OK)" "out w' = (out w)(fd := out w fd @ buf)"
  using scrc_send_loop_ok[OF assms(1,2), of w fd buf 0] assms(3) by (auto simp: send_printed_def)

section \<open>The socket\<close>

text \<open>
  \<open>inp w fd\<close> are the bytes the peer sends until it closes the connection. POSIX: recv returns
  a prefix of them that is empty only at the end, or fails and takes none.
\<close>

definition recv_laws :: "('w \<Rightarrow> i32 \<Rightarrow> u8 list) \<Rightarrow> ('w \<Rightarrow> nat) \<Rightarrow> 'w os_recv \<Rightarrow> bool" where
  "recv_laws inp patience os_recv \<longleftrightarrow> (\<forall>w fd n. case os_recv w fd n of (w', r) \<Rightarrow> (case r of
       Received bs \<Rightarrow> length bs \<le> n \<and> bs @ inp w' fd = inp w fd \<and> (\<forall>fd'. fd' \<noteq> fd \<longrightarrow> inp w' fd' = inp w fd') \<and> (bs = [] \<and> 0 < n \<longrightarrow> inp w fd = [])
     | Recv_Eintr \<Rightarrow> inp w' = inp w \<and> patience w' < patience w
     | Recv_Error \<Rightarrow> inp w' = inp w))"

definition recv_reliable :: "'w os_recv \<Rightarrow> bool" where
  "recv_reliable os_recv \<longleftrightarrow> (\<forall>w fd n. snd (os_recv w fd n) \<noteq> Recv_Error)"

lemma recv_lawsD:
  assumes "recv_laws inp patience os_recv"
  shows "os_recv w fd n = (w', Received bs) \<Longrightarrow>
      length bs \<le> n \<and> bs @ inp w' fd = inp w fd \<and> (\<forall>fd'. fd' \<noteq> fd \<longrightarrow> inp w' fd' = inp w fd') \<and> (bs = [] \<and> 0 < n \<longrightarrow> inp w fd = [])"
    and "os_recv w fd n = (w', Recv_Eintr) \<Longrightarrow> inp w' = inp w \<and> patience w' < patience w"
    and "os_recv w fd n = (w', Recv_Error) \<Longrightarrow> inp w' = inp w"
  using assms[unfolded recv_laws_def, rule_format, where w = w and fd = fd and n = n] by simp_all

text \<open>The repeated call returns, with bytes of the stream or with an error that takes none.\<close>

lemma recv_retry_ends:
  assumes laws: "recv_laws inp patience os_recv"
  shows "\<exists>w' r. recv_retry os_recv w fd n = Some (w', r) \<and> (r = None \<longrightarrow> inp w' fd = inp w fd \<and> \<not> recv_reliable os_recv) \<and>
    (\<forall>bs. r = Some bs \<longrightarrow> length bs \<le> n \<and> inp w fd = bs @ inp w' fd \<and> (bs = [] \<and> 0 < n \<longrightarrow> inp w fd = []))"
proof (induction "patience w" arbitrary: w rule: less_induct)
  case less
  obtain w1 r where r: "os_recv w fd n = (w1, r)" by fastforce
  show ?case
  proof (cases r)
    case (Received bs)
    note l = recv_lawsD(1)[OF laws r[unfolded Received]]
    then show ?thesis using r Received by (subst recv_retry.simps) auto
  next
    case Recv_Eintr
    note l = recv_lawsD(2)[OF laws r[unfolded Recv_Eintr]]
    show ?thesis using less[OF conjunct2[OF l]] l r Recv_Eintr by (subst recv_retry.simps) simp
  next
    case Recv_Error
    have "\<not> recv_reliable os_recv" using r Recv_Error by (metis recv_reliable_def snd_conv)
    then show ?thesis using recv_lawsD(3)[OF laws r[unfolded Recv_Error]] r Recv_Error by (subst recv_retry.simps) simp
  qed
qed

section \<open>The buffer\<close>

definition conn_ok :: "conn \<Rightarrow> bool" where
  "conn_ok c \<longleftrightarrow> length (conn_rbuf c) = FULLSZ \<and> conn_rpos c \<le> conn_rlen c \<and> conn_rlen c \<le> FULLSZ"

definition buffered :: "conn \<Rightarrow> u8 list" where
  "buffered c = read_at (conn_rbuf c) (conn_rpos c) (conn_rlen c - conn_rpos c)"

text \<open>What the client can still read.\<close>

definition avail :: "('w \<Rightarrow> i32 \<Rightarrow> u8 list) \<Rightarrow> 'w \<Rightarrow> conn \<Rightarrow> u8 list" where
  "avail inp w c = buffered c @ inp w (conn_sockfd c)"

text \<open>Only the buffer differs.\<close>

definition same_conn :: "conn \<Rightarrow> conn \<Rightarrow> bool" where
  "same_conn c c' \<longleftrightarrow> c'\<lparr>conn_rbuf := conn_rbuf c, conn_rlen := conn_rlen c, conn_rpos := conn_rpos c\<rparr> = c"

lemma same_conn_refl [simp]: "same_conn c c"
  by (simp add: same_conn_def)

lemma same_conn_upd [simp]:
  "same_conn c (c'\<lparr>conn_rbuf := b\<rparr>) = same_conn c c'"
  "same_conn c (c'\<lparr>conn_rlen := n\<rparr>) = same_conn c c'"
  "same_conn c (c'\<lparr>conn_rpos := n\<rparr>) = same_conn c c'"
  by (simp_all add: same_conn_def)

lemma same_conn_trans: "same_conn c c' \<Longrightarrow> same_conn c' c'' \<Longrightarrow> same_conn c c''"
  by (cases c; cases c'; cases c''; simp add: same_conn_def)

lemma same_connD:
  assumes "same_conn c c'"
  shows "conn_status c' = conn_status c" "conn_user c' = conn_user c" "conn_catalog c' = conn_catalog c"
    "conn_sockfd c' = conn_sockfd c" "conn_columns c' = conn_columns c" "conn_body c' = conn_body c"
  using assms by (cases c; cases c'; simp add: same_conn_def)+

lemma length_buffered: "conn_ok c \<Longrightarrow> length (buffered c) = conn_rlen c - conn_rpos c"
  by (simp add: conn_ok_def buffered_def read_at_def min_absorb2 diff_le_mono)

lemma recv_compact_ok:
  assumes ok: "conn_ok c"
  shows "conn_ok (recv_compact c)" "buffered (recv_compact c) = buffered c" "same_conn c (recv_compact c)"
    "conn_rlen c - conn_rpos c < BUFSZ \<Longrightarrow> conn_rlen (recv_compact c) < FULLSZ"
    "conn_rlen c \<le> BUFSZ \<Longrightarrow> recv_compact c = c"
    "BUFSZ < conn_rlen c \<Longrightarrow> conn_rpos (recv_compact c) = 0"
proof -
  have sz: "FULLSZ - conn_rlen c < RESERVESZ \<longleftrightarrow> BUFSZ < conn_rlen c"
    using ok by (auto simp: conn_ok_def FULLSZ_def RESERVESZ_def)
  show "conn_rlen c \<le> BUFSZ \<Longrightarrow> recv_compact c = c" using sz by (simp add: recv_compact_def)
  show "BUFSZ < conn_rlen c \<Longrightarrow> conn_rpos (recv_compact c) = 0" using sz by (simp add: recv_compact_def Let_def)
  show "same_conn c (recv_compact c)" by (simp add: recv_compact_def Let_def)
  show "conn_rlen c - conn_rpos c < BUFSZ \<Longrightarrow> conn_rlen (recv_compact c) < FULLSZ"
    using sz ok by (auto simp: recv_compact_def Let_def conn_ok_def FULLSZ_def RESERVESZ_def)
  let ?v = "conn_rlen c - conn_rpos c"
  have rd: "length (read_at (conn_rbuf c) (conn_rpos c) ?v) = ?v" using ok by (simp add: conn_ok_def read_at_def min_absorb2 diff_le_mono)
  then show "conn_ok (recv_compact c)" using ok by (auto simp: recv_compact_def Let_def conn_ok_def)
  show "buffered (recv_compact c) = buffered c"
  proof (cases "BUFSZ < conn_rlen c")
    case True
    consider "?v = 0" | "conn_rpos c = 0" "?v \<noteq> 0" | "0 < ?v" "0 < conn_rpos c" by linarith
    then show ?thesis
      using True sz rd by cases (simp_all add: recv_compact_def Let_def buffered_def, simp add: read_at_def)
  qed (use sz in \<open>simp add: recv_compact_def\<close>)
qed

text \<open>One refill of a buffer that has room. Whatever recv does, no byte is lost.\<close>

lemma recv_refill_cases:
  assumes laws: "recv_laws inp patience os_recv" and ok: "conn_ok c" and room: "conn_rlen c - conn_rpos c < BUFSZ"
  obtains (data) w' c' where "recv_refill os_recv w c = Some (w', c', code SCRC_OK)"
      "conn_ok c'" "same_conn c c'" "avail inp w' c' = avail inp w c" "conn_rlen c - conn_rpos c < conn_rlen c' - conn_rpos c'"
      "conn_rlen c \<le> BUFSZ \<Longrightarrow> conn_rpos c' = conn_rpos c \<and> take (conn_rlen c) (conn_rbuf c') = take (conn_rlen c) (conn_rbuf c)"
      "BUFSZ < conn_rlen c \<Longrightarrow> conn_rpos c' = 0"
    | (stopped) w' c' ret where "recv_refill os_recv w c = Some (w', c', ret)" "conn_ok c'" "same_conn c c'" "avail inp w' c' = avail inp w c"
      "ret = code SCRC_CONNECTION_CLOSED \<and> inp w (conn_sockfd c) = [] \<or> ret = code SCRC_RECV_ERROR \<and> \<not> recv_reliable os_recv"
proof -
  let ?c = "recv_compact c"
  note cp = recv_compact_ok[OF ok]
  have fd: "conn_sockfd ?c = conn_sockfd c" using same_connD(4)[OF cp(3)] .
  have sp: "0 < FULLSZ - conn_rlen ?c" using cp(4)[OF room] by simp
  obtain w' r where r: "recv_retry os_recv w (conn_sockfd ?c) (FULLSZ - conn_rlen ?c) = Some (w', r)"
    and none: "r = None \<Longrightarrow> inp w' (conn_sockfd c) = inp w (conn_sockfd c) \<and> \<not> recv_reliable os_recv"
    and some: "\<And>bs. r = Some bs \<Longrightarrow> length bs \<le> FULLSZ - conn_rlen ?c \<and> inp w (conn_sockfd c) = bs @ inp w' (conn_sockfd c) \<and>
      (bs = [] \<longrightarrow> inp w (conn_sockfd c) = [])"
    using recv_retry_ends[OF laws, of w "conn_sockfd c" "FULLSZ - conn_rlen ?c"] sp unfolding fd by blast
  consider "r = None" | "r = Some []" | bs where "r = Some bs" "bs \<noteq> []" by (cases r) auto
  then show thesis
  proof cases
    case 1
    have "avail inp w' ?c = avail inp w c" using none[OF 1] cp(2) fd by (simp add: avail_def)
    have st: "recv_refill os_recv w c = Some (w', ?c, code SCRC_RECV_ERROR)" using r 1 by (simp add: recv_refill_def Let_def)
    show thesis using stopped[OF st cp(1,3)] \<open>avail inp w' ?c = avail inp w c\<close> none[OF 1] by blast
  next
    case 2
    have "avail inp w' ?c = avail inp w c" using some[OF 2] cp(2) fd by (simp add: avail_def)
    have st: "recv_refill os_recv w c = Some (w', ?c, code SCRC_CONNECTION_CLOSED)" using r 2 by (simp add: recv_refill_def Let_def)
    have "inp w (conn_sockfd c) = []" using some[OF 2] by blast
    then show thesis using stopped[OF st cp(1,3)] \<open>avail inp w' ?c = avail inp w c\<close> by blast
  next
    case (3 bs)
    note b = some[OF 3(1)]
    let ?c' = "?c\<lparr>conn_rbuf := write_at (conn_rbuf ?c) (conn_rlen ?c) bs, conn_rlen := conn_rlen ?c + length bs\<rparr>"
    have len: "conn_rlen ?c + length bs \<le> length (conn_rbuf ?c)" "conn_rpos ?c \<le> conn_rlen ?c"
      using cp(1) b by (auto simp: conn_ok_def)
    then have ok': "conn_ok ?c'" using cp(1) by (simp add: conn_ok_def)
    have "buffered ?c' = buffered ?c @ bs"
    proof -
      have "take (conn_rlen ?c + length bs) (write_at (conn_rbuf ?c) (conn_rlen ?c) bs) = take (conn_rlen ?c) (conn_rbuf ?c) @ bs"
        by (rule take_write_at_end[OF len(1) refl])
      then have "drop (conn_rpos ?c) (take (conn_rlen ?c + length bs) (write_at (conn_rbuf ?c) (conn_rlen ?c) bs)) =
          drop (conn_rpos ?c) (take (conn_rlen ?c) (conn_rbuf ?c)) @ bs" using len by simp
      then show ?thesis by (simp add: buffered_def read_at_def drop_take)
    qed
    then have av: "avail inp w' ?c' = avail inp w c" using cp(2) b fd by (simp add: avail_def)
    have "conn_rlen ?c - conn_rpos ?c = conn_rlen c - conn_rpos c"
      using length_buffered[OF ok] length_buffered[OF cp(1)] cp(2) by simp
    moreover have "0 < length bs" using 3(2) by simp
    ultimately have more: "conn_rlen c - conn_rpos c < conn_rlen ?c' - conn_rpos ?c'" using len(2) by (simp, linarith)
    have pos: "conn_rpos ?c' = conn_rpos c \<and> take (conn_rlen c) (conn_rbuf ?c') = take (conn_rlen c) (conn_rbuf c)" if "conn_rlen c \<le> BUFSZ"
      using cp(5)[OF that] len by (simp add: take_write_at)
    have st: "recv_refill os_recv w c = Some (w', ?c', code SCRC_OK)" using r 3 by (simp add: recv_refill_def Let_def)
    show thesis using data[OF st ok' _ av more pos] cp(3,6) by simp
  qed
qed

text \<open>Filling the buffer up to \<open>n\<close> bytes ends, and fails only for a reason.\<close>

lemma recv_errors [simp]:
  "code SCRC_CONNECTION_CLOSED \<noteq> code SCRC_OK" "code SCRC_RECV_ERROR \<noteq> code SCRC_OK" "code SCRC_BUFFER_OVERFLOW \<noteq> code SCRC_OK"
  "code SCRS_OK \<noteq> code SCRC_CONNECTION_CLOSED" "code SCRS_OK \<noteq> code SCRC_RECV_ERROR"
  by (simp_all add: code_def status_value_def scrc_statuses_def)

lemma recv_fill_ends:
  assumes laws: "recv_laws inp patience os_recv" and ok: "conn_ok c" and n: "n \<le> BUFSZ"
  shows "\<exists>w' c' ret. recv_fill os_recv w c n = Some (w', c', ret) \<and> conn_ok c' \<and> same_conn c c' \<and> avail inp w' c' = avail inp w c \<and>
    (ret = code SCRC_OK \<and> n \<le> conn_rlen c' - conn_rpos c' \<or> ret = code SCRC_CONNECTION_CLOSED \<and> length (avail inp w c) < n \<or>
      ret = code SCRC_RECV_ERROR \<and> \<not> recv_reliable os_recv) \<and>
    (ret = code SCRC_OK \<longrightarrow>
      (conn_rpos c + n \<le> BUFSZ + 1 \<longrightarrow> conn_rpos c' = conn_rpos c \<and> take (conn_rpos c) (conn_rbuf c') = take (conn_rpos c) (conn_rbuf c)) \<and>
      (n = 1 \<and> BUFSZ < conn_rpos c \<and> conn_rlen c = conn_rpos c \<longrightarrow> conn_rpos c' = 0))"
  using ok
proof (induction "n - (conn_rlen c - conn_rpos c)" arbitrary: w c rule: less_induct)
  case less
  note ok = less.prems
  show ?case
  proof (cases "conn_rlen c - conn_rpos c < n")
    case False
    then show ?thesis using ok by (subst recv_fill.simps) auto
  next
    case True
    then have "conn_rlen c - conn_rpos c < BUFSZ" using n by simp
    from laws ok this show ?thesis
    proof (cases rule: recv_refill_cases[where w = w])
      case (data w1 c1)
      have "n - (conn_rlen c1 - conn_rpos c1) < n - (conn_rlen c - conn_rpos c)" using data(5) True by simp
      from less.hyps[OF this data(2), of w1] obtain w' c' ret where ih:
        "recv_fill os_recv w1 c1 n = Some (w', c', ret)" "conn_ok c'" "same_conn c1 c'" "avail inp w' c' = avail inp w1 c1"
        "ret = code SCRC_OK \<and> n \<le> conn_rlen c' - conn_rpos c' \<or> ret = code SCRC_CONNECTION_CLOSED \<and> length (avail inp w1 c1) < n \<or>
          ret = code SCRC_RECV_ERROR \<and> \<not> recv_reliable os_recv"
        "ret = code SCRC_OK \<longrightarrow>
          (conn_rpos c1 + n \<le> BUFSZ + 1 \<longrightarrow> conn_rpos c' = conn_rpos c1 \<and> take (conn_rpos c1) (conn_rbuf c') = take (conn_rpos c1) (conn_rbuf c1)) \<and>
          (n = 1 \<and> BUFSZ < conn_rpos c1 \<and> conn_rlen c1 = conn_rpos c1 \<longrightarrow> conn_rpos c' = 0)"
        by (elim exE conjE) (rule that)
      have fill: "recv_fill os_recv w c n = Some (w', c', ret)"
        using ih(1) data(1) True by (subst recv_fill.simps) simp
      have rp: "conn_rpos c \<le> conn_rlen c" using ok by (simp add: conn_ok_def)
      have early: "conn_rpos c' = conn_rpos c \<and> take (conn_rpos c) (conn_rbuf c') = take (conn_rpos c) (conn_rbuf c)"
        if "conn_rpos c + n \<le> BUFSZ + 1" "ret = code SCRC_OK"
      proof -
        have "conn_rlen c \<le> BUFSZ" using that(1) True by simp
        note d = data(6)[OF this]
        have "take (conn_rpos c) (conn_rbuf c1) = take (conn_rpos c) (conn_rbuf c)"
          using d rp by (metis min.absorb1 take_take)
        then show ?thesis using ih(6) d that by simp
      qed
      have late: "conn_rpos c' = 0" if "n = 1" "BUFSZ < conn_rpos c" "conn_rlen c = conn_rpos c" "ret = code SCRC_OK"
      proof -
        have "conn_rpos c1 = 0" using data(7) that rp by simp
        moreover have "1 \<le> conn_rlen c1 - conn_rpos c1" using data(5) by simp
        ultimately show ?thesis using ih(6) that by (simp add: BUFSZ_def)
      qed
      have "same_conn c c'" using ih(3) data(3) same_conn_trans by blast
      then show ?thesis using fill ih(2,4,5) early late data(4) by (intro exI[of _ w'] exI[of _ c'] exI[of _ ret]) simp
    next
      case (stopped w' c' ret)
      have ne: "ret \<noteq> code SCRC_OK" using stopped(5) by auto
      have "recv_fill os_recv w c n = Some (w', c', ret)" using stopped(1) True ne by (subst recv_fill.simps) simp
      moreover have "length (avail inp w c) < n" if "inp w (conn_sockfd c) = []"
        using that True length_buffered[OF ok] by (simp add: avail_def)
      ultimately show ?thesis using stopped(2-5) ne by blast
    qed
  qed
qed

lemma recv_block_at:
  assumes f: "recv_fill os_recv w c n = Some (w', c1, code SCRC_OK)" "conn_ok c1" "n \<le> conn_rlen c1 - conn_rpos c1" and n: "n \<le> BUFSZ"
  defines "c' \<equiv> c1\<lparr>conn_rpos := conn_rpos c1 + n\<rparr>"
  shows "recv_block os_recv w c n = Some (w', c', code SCRC_OK, Some (conn_rpos c1))" "conn_ok c'"
    "\<And>inp. avail inp w' c1 = read_at (conn_rbuf c') (conn_rpos c1) n @ avail inp w' c'"
    "length (read_at (conn_rbuf c') (conn_rpos c1) n) = n" "conn_rpos c1 + n \<le> FULLSZ"
proof -
  show "recv_block os_recv w c n = Some (w', c', code SCRC_OK, Some (conn_rpos c1))"
    using f(1) n by (simp add: recv_block_def c'_def)
  show "conn_ok c'" using f(2,3) by (auto simp: conn_ok_def c'_def le_diff_conv2)
  have "buffered c1 = read_at (conn_rbuf c1) (conn_rpos c1) n @ buffered c'"
  proof -
    let ?l = "conn_rlen c1 - conn_rpos c1"
    have "?l = n + (?l - n)" using f(3) by simp
    then have "take ?l (drop (conn_rpos c1) (conn_rbuf c1)) =
        take n (drop (conn_rpos c1) (conn_rbuf c1)) @ take (?l - n) (drop n (drop (conn_rpos c1) (conn_rbuf c1)))"
      by (metis take_add)
    then show ?thesis by (simp add: buffered_def read_at_def add.commute c'_def)
  qed
  then show "avail inp w' c1 = read_at (conn_rbuf c') (conn_rpos c1) n @ avail inp w' c'" for inp :: "'a \<Rightarrow> i32 \<Rightarrow> u8 list" by (simp add: avail_def c'_def)
  show "conn_rpos c1 + n \<le> FULLSZ" using f(2,3) by (auto simp: conn_ok_def le_diff_conv2)
  then show "length (read_at (conn_rbuf c') (conn_rpos c1) n) = n" using f(2) by (simp add: read_at_def conn_ok_def c'_def)
qed

lemma recv_block_ok:
  assumes laws: "recv_laws inp patience os_recv" "recv_reliable os_recv" and ok: "conn_ok c" and n: "n \<le> BUFSZ"
    and av: "n \<le> length (avail inp w c)"
  obtains w' c' p where "recv_block os_recv w c n = Some (w', c', code SCRC_OK, Some p)" "conn_ok c'" "same_conn c c'"
    "avail inp w' c' = drop n (avail inp w c)" "read_at (conn_rbuf c') p n = take n (avail inp w c)"
    "conn_rpos c' = p + n" "p + n \<le> FULLSZ"
    "conn_rpos c + n \<le> BUFSZ + 1 \<Longrightarrow> p = conn_rpos c \<and> take p (conn_rbuf c') = take p (conn_rbuf c)"
    "n = 1 \<Longrightarrow> BUFSZ < conn_rpos c \<Longrightarrow> conn_rlen c = conn_rpos c \<Longrightarrow> p = 0"
proof -
  obtain w' c1 where f: "recv_fill os_recv w c n = Some (w', c1, code SCRC_OK)" "conn_ok c1" "same_conn c c1"
    "n \<le> conn_rlen c1 - conn_rpos c1" "avail inp w' c1 = avail inp w c"
    "conn_rpos c + n \<le> BUFSZ + 1 \<longrightarrow> conn_rpos c1 = conn_rpos c \<and> take (conn_rpos c) (conn_rbuf c1) = take (conn_rpos c) (conn_rbuf c)"
    "n = 1 \<and> BUFSZ < conn_rpos c \<and> conn_rlen c = conn_rpos c \<longrightarrow> conn_rpos c1 = 0"
    using recv_fill_ends[OF laws(1) ok n, of w] av laws(2) by fastforce
  let ?c = "c1\<lparr>conn_rpos := conn_rpos c1 + n\<rparr>"
  note b = recv_block_at[OF f(1,2,4) n]
  have "avail inp w' ?c = drop n (avail inp w c)" "read_at (conn_rbuf ?c) (conn_rpos c1) n = take n (avail inp w c)"
    using b(3)[of inp] b(4) unfolding f(5) by simp_all
  then show thesis using that[OF b(1,2)] f(3,6,7) b(5) by simp
qed

lemma recv_block_short:
  assumes "recv_laws inp patience os_recv" "recv_reliable os_recv" "conn_ok c" "n \<le> BUFSZ" "length (avail inp w c) < n"
  shows "\<exists>w' c'. recv_block os_recv w c n = Some (w', c', code SCRC_CONNECTION_CLOSED, None)"
proof -
  obtain w' c' ret where f: "recv_fill os_recv w c n = Some (w', c', ret)" "conn_ok c'" "avail inp w' c' = avail inp w c"
    "ret = code SCRC_OK \<and> n \<le> conn_rlen c' - conn_rpos c' \<or> ret = code SCRC_CONNECTION_CLOSED"
    using recv_fill_ends[OF assms(1,3,4), of w] assms(2) by blast
  have "conn_rlen c' - conn_rpos c' \<le> length (avail inp w c)" using length_buffered[OF f(2)] f(3) by (metis avail_def le_add1 length_append)
  then have "ret = code SCRC_CONNECTION_CLOSED" using f(4) assms(5) by linarith
  then show ?thesis using f(1) assms(4) by (simp add: recv_block_def)
qed

text \<open>
  Blocks read one after the other, each taken out of the buffer when its call returns, up to
  the first call that fails; then the status is that of this call.
\<close>

fun recv_blocks :: "'w os_recv \<Rightarrow> 'w \<Rightarrow> conn \<Rightarrow> nat list \<Rightarrow> ('w \<times> conn \<times> status \<times> u8 list list) option" where
  "recv_blocks os_recv w c [] = Some (w, c, code SCRC_OK, [])"
| "recv_blocks os_recv w c (n # ns) = do {
     (w, c, ret, p) \<leftarrow> recv_block os_recv w c n;
     (case p of None \<Rightarrow> Some (w, c, ret, [])
      | Some p \<Rightarrow> do {
          (w', c', ret, bss) \<leftarrow> recv_blocks os_recv w c ns;
          Some (w', c', ret, read_at (conn_rbuf c) p n # bss) }) }"

text \<open>Why a block of \<open>n\<close> bytes can fail while \<open>m\<close> bytes are left in the stream.\<close>

definition recv_failure :: "bool \<Rightarrow> nat \<Rightarrow> nat \<Rightarrow> status \<Rightarrow> bool" where
  "recv_failure reliable m n ret \<longleftrightarrow> (if BUFSZ < n then ret = code SCRC_BUFFER_OVERFLOW
     else ret = code SCRC_CONNECTION_CLOSED \<and> m < n \<or> ret = code SCRC_RECV_ERROR \<and> \<not> reliable)"

lemma recv_block_cases:
  assumes laws: "recv_laws inp patience os_recv" and ok: "conn_ok c"
  obtains (block) w' c' p where "recv_block os_recv w c n = Some (w', c', code SCRC_OK, Some p)" "conn_ok c'" "same_conn c c'"
      "avail inp w c = read_at (conn_rbuf c') p n @ avail inp w' c'" "length (read_at (conn_rbuf c') p n) = n"
    | (failed) w' c' ret where "recv_block os_recv w c n = Some (w', c', ret, None)" "conn_ok c'" "same_conn c c'"
      "avail inp w' c' = avail inp w c" "recv_failure (recv_reliable os_recv) (length (avail inp w c)) n ret"
proof (cases "BUFSZ < n")
  case True
  then show thesis using failed[of w c "code SCRC_BUFFER_OVERFLOW"] ok by (simp add: recv_block_def recv_failure_def)
next
  case False
  then have n: "n \<le> BUFSZ" by simp
  obtain w1 c1 ret where f: "recv_fill os_recv w c n = Some (w1, c1, ret)" "conn_ok c1" "same_conn c c1" "avail inp w1 c1 = avail inp w c"
    "ret = code SCRC_OK \<and> n \<le> conn_rlen c1 - conn_rpos c1 \<or> ret = code SCRC_CONNECTION_CLOSED \<and> length (avail inp w c) < n \<or>
      ret = code SCRC_RECV_ERROR \<and> \<not> recv_reliable os_recv"
    using recv_fill_ends[OF laws ok n, of w] by (elim exE conjE) (rule that)
  show thesis
  proof (cases "ret = code SCRC_OK")
    case True
    then have l: "n \<le> conn_rlen c1 - conn_rpos c1" using f(5) by auto
    note b = recv_block_at[OF f(1)[unfolded True] f(2) l n]
    show thesis by (rule block[OF b(1,2) _ _ b(4)]) (use b(3) f(3,4) in simp_all)
  next
    case ne: False
    have "recv_block os_recv w c n = Some (w1, c1, ret, None)" using f(1) ne n by (simp add: recv_block_def)
    then show thesis using failed[OF _ f(2-4)] f(5) ne n by (auto simp: recv_failure_def)
  qed
qed

text \<open>
  C14: Reading blocks of any sizes through the client's receive buffer, with its refills and
  compactions, is reading a stream: over any socket that obeys POSIX, also one that fails, and
  any split into packets, the calls end, and the blocks returned are, one after the other, the
  next bytes of the stream; no byte is lost or read twice, not even by a call that fails. The
  status is OK when all blocks came; the first call that fails gives SCRC_BUFFER_OVERFLOW for
  a block larger than BUFSZ, else SCRC_CONNECTION_CLOSED only when the stream has fewer bytes
  left, or SCRC_RECV_ERROR only when recv failed.
\<close>

theorem recv_blocks_refine_stream:
  assumes "recv_laws inp patience os_recv" and "conn_ok c"
  shows "\<exists>w' c' ret bss. recv_blocks os_recv w c ns = Some (w', c', ret, bss) \<and>
    map length bss = take (length bss) ns \<and> avail inp w c = concat bss @ avail inp w' c' \<and> conn_ok c' \<and> same_conn c c' \<and>
    (if length bss = length ns then ret = code SCRC_OK
     else length bss < length ns \<and> recv_failure (recv_reliable os_recv) (length (avail inp w' c')) (ns ! length bss) ret)"
  using assms(2)
proof (induction ns arbitrary: w c)
  case Nil
  then show ?case by simp
next
  case (Cons n ns)
  from assms(1) Cons.prems show ?case
  proof (cases rule: recv_block_cases[where w = w and n = n])
    case (failed w1 c1 ret)
    then show ?thesis by simp
  next
    case (block w1 c1 p)
    obtain w' c' ret bss where r: "recv_blocks os_recv w1 c1 ns = Some (w', c', ret, bss)" "map length bss = take (length bss) ns"
      "avail inp w1 c1 = concat bss @ avail inp w' c'" "conn_ok c'" "same_conn c1 c'"
      "if length bss = length ns then ret = code SCRC_OK
       else length bss < length ns \<and> recv_failure (recv_reliable os_recv) (length (avail inp w' c')) (ns ! length bss) ret"
      using Cons.IH[OF block(2), of w1] by (elim exE conjE) (rule that)
    then show ?thesis using block(1,4,5) same_conn_trans[OF block(3) r(5)] by (auto split: if_splits)
  qed
qed

section \<open>Header lines\<close>

text \<open>The bytes before the read position are kept while a line is read byte by byte.\<close>

definition read_part :: "conn \<Rightarrow> u8 list" where
  "read_part c = take (conn_rpos c) (conn_rbuf c)"

definition line_room :: "conn \<Rightarrow> nat \<Rightarrow> bool" where
  "line_room c n \<longleftrightarrow> BUFSZ < conn_rpos c \<and> conn_rlen c = conn_rpos c \<or> conn_rpos c + n \<le> BUFSZ"

definition line_start :: "conn \<Rightarrow> u8 list" where
  "line_start c = (if BUFSZ < conn_rpos c then [] else read_part c)"

lemma length_read_part: "conn_ok c \<Longrightarrow> length (read_part c) = conn_rpos c"
  by (simp add: read_part_def conn_ok_def)

lemma recv_byte_ok:
  assumes laws: "recv_laws inp patience os_recv" "recv_reliable os_recv" and ok: "conn_ok c"
    and room: "line_room c 1" and av: "avail inp w c = b # rest"
  obtains w' c' where "recv_block os_recv w c 1 = Some (w', c', code SCRC_OK, Some (length (line_start c)))"
    "conn_ok c'" "same_conn c c'" "avail inp w' c' = rest" "read_part c' = line_start c @ [b]"
    "conn_rbuf c' ! length (line_start c) = b"
proof -
  have n: "1 \<le> BUFSZ" "1 \<le> length (avail inp w c)" using av by (simp_all add: BUFSZ_def)
  obtain w' c' p where r: "recv_block os_recv w c 1 = Some (w', c', code SCRC_OK, Some p)" "conn_ok c'" "same_conn c c'"
    "avail inp w' c' = drop 1 (avail inp w c)" "read_at (conn_rbuf c') p 1 = take 1 (avail inp w c)"
    "conn_rpos c' = p + 1" "p + 1 \<le> FULLSZ"
    "conn_rpos c + 1 \<le> BUFSZ + 1 \<Longrightarrow> p = conn_rpos c \<and> take p (conn_rbuf c') = take p (conn_rbuf c)"
    "1 = (1 :: nat) \<Longrightarrow> BUFSZ < conn_rpos c \<Longrightarrow> conn_rlen c = conn_rpos c \<Longrightarrow> p = 0"
    by (rule recv_block_ok[OF laws ok n]) (rule that; assumption)
  have p: "p = length (line_start c) \<and> take p (conn_rbuf c') = line_start c"
  proof (cases "BUFSZ < conn_rpos c")
    case True
    then show ?thesis using r(9) room by (simp add: line_start_def line_room_def)
  next
    case False
    then have "conn_rpos c + 1 \<le> BUFSZ + 1" by simp
    then have q: "p = conn_rpos c" "take p (conn_rbuf c') = take p (conn_rbuf c)" using r(8) by blast+
    then have "take (conn_rpos c) (conn_rbuf c') = read_part c" unfolding read_part_def by metis
    then show ?thesis using False length_read_part[OF ok] q(1) by (simp add: line_start_def)
  qed
  have b: "conn_rbuf c' ! p = b" "p < length (conn_rbuf c')"
    using r(2,5,7) av by (auto simp: conn_ok_def read_at_def take_Suc_conv_app_nth hd_drop_conv_nth dest: arg_cong[of _ _ hd])
  have "read_part c' = take p (conn_rbuf c') @ [conn_rbuf c' ! p]"
    using b(2) by (simp add: read_part_def r(6) take_Suc_conv_app_nth)
  then have rp: "read_part c' = line_start c @ [b]" using p b(1) by metis
  have "recv_block os_recv w c 1 = Some (w', c', code SCRC_OK, Some (length (line_start c)))"
    "conn_rbuf c' ! length (line_start c) = b" using r(1) p b(1) by metis+
  then show thesis using that[of w' c', OF _ r(2,3) _ rp] r(4) av by simp
qed

text \<open>Reading bytes that end neither a name nor a line.\<close>

lemma header_loop_scan:
  assumes laws: "recv_laws inp patience os_recv" "recv_reliable os_recv"
    and "conn_ok c" "avail inp w c = cs @ rest" "58 \<notin> set cs" "10 \<notin> set cs"
    and "conn_rpos c + length cs \<le> BUFSZ" "len + length cs < HEADER_MAX"
  shows "\<exists>w' c'. header_line_loop os_recv w c hl begin delim len = header_line_loop os_recv w' c' hl begin delim (len + length cs) \<and>
    conn_ok c' \<and> same_conn c c' \<and> avail inp w' c' = rest \<and> read_part c' = read_part c @ cs"
  using assms(3-8)
proof (induction cs arbitrary: w c len)
  case Nil
  show ?case by (rule exI[of _ w], rule exI[of _ c]) (use Nil in simp)
next
  case (Cons b cs)
  have room: "line_room c 1" and st: "line_start c = read_part c" using Cons.prems(5) by (simp_all add: line_room_def line_start_def)
  obtain w1 c1 where b: "recv_block os_recv w c 1 = Some (w1, c1, code SCRC_OK, Some (length (line_start c)))"
    "conn_ok c1" "same_conn c c1" "avail inp w1 c1 = cs @ rest" "read_part c1 = line_start c @ [b]"
    "conn_rbuf c1 ! length (line_start c) = b"
    using recv_byte_ok[OF laws Cons.prems(1) room] Cons.prems(2) by (metis append_Cons)
  have rp: "conn_rpos c1 = Suc (conn_rpos c)"
    using length_read_part[OF b(2)] length_read_part[OF Cons.prems(1)] b(5) st by simp
  have "\<exists>w' c'. header_line_loop os_recv w1 c1 hl begin delim (len + 1) = header_line_loop os_recv w' c' hl begin delim (len + 1 + length cs) \<and>
      conn_ok c' \<and> same_conn c1 c' \<and> avail inp w' c' = rest \<and> read_part c' = read_part c1 @ cs"
    by (rule Cons.IH) (use b Cons.prems rp in auto)
  then obtain w' c' where r: "header_line_loop os_recv w1 c1 hl begin delim (len + 1) = header_line_loop os_recv w' c' hl begin delim (len + 1 + length cs)"
      "conn_ok c'" "same_conn c1 c'" "avail inp w' c' = rest" "read_part c' = read_part c1 @ cs" by blast
  have "header_line_loop os_recv w c hl begin delim len = header_line_loop os_recv w1 c1 hl begin delim (len + 1)"
    using b(1,6) Cons.prems(3,4,6) by (subst header_line_loop.simps) auto
  then show ?case using r same_conn_trans[OF b(3)] b(5) st by (intro exI[of _ w'] exI[of _ c']) simp
qed

text \<open>Trimming a string that ends in a character other than a space.\<close>

lemma skip_spaces_ok:
  assumes "drop i buf = sp @ b # rest" "\<forall>x \<in> set sp. x \<noteq> 0 \<and> isspace x" "b = 0 \<or> \<not> isspace b"
  shows "skip_spaces buf i = Some (i + length sp)"
  using assms
proof (induction sp arbitrary: i)
  case Nil
  then have "i < length buf" by (metis append_Nil drop_all list.distinct(1) not_le)
  moreover from Nil have "buf ! i = b" using hd_drop_conv_nth[of i buf] \<open>i < length buf\<close> by simp
  ultimately show ?case using Nil by (subst skip_spaces.simps) auto
next
  case (Cons x sp)
  then have l: "i < length buf" by (metis append_Cons drop_all list.distinct(1) not_le)
  then have x: "buf ! i = x" using Cons.prems(1) hd_drop_conv_nth[of i buf] by simp
  have "drop (Suc i) buf = sp @ b # rest" using Cons.prems(1) by (metis append_Cons drop_Suc list.sel(3) tl_drop)
  then have "skip_spaces buf (Suc i) = Some (Suc i + length sp)" using Cons by simp
  then show ?case using l x Cons.prems by (subst skip_spaces.simps) simp
qed

lemma line_end_ok:
  assumes "drop i buf = cs @ b # rest" "0 \<notin> set cs" "10 \<notin> set cs" "b \<in> {0, 10}"
  shows "line_end buf i = Some (i + length cs)"
  using assms
proof (induction cs arbitrary: i)
  case Nil
  then have "i < length buf" by (metis append_Nil drop_all list.distinct(1) not_le)
  moreover from Nil have "buf ! i = b" using hd_drop_conv_nth[of i buf] \<open>i < length buf\<close> by simp
  ultimately show ?case using Nil by (subst line_end.simps) auto
next
  case (Cons x cs)
  then have l: "i < length buf" by (metis append_Cons drop_all list.distinct(1) not_le)
  then have x: "buf ! i = x" using Cons.prems(1) hd_drop_conv_nth[of i buf] by simp
  have "drop (Suc i) buf = cs @ b # rest" using Cons.prems(1) by (metis append_Cons drop_Suc list.sel(3) tl_drop)
  then have "line_end buf (Suc i) = Some (Suc i + length cs)" using Cons by simp
  then show ?case using l x Cons.prems by (subst line_end.simps) auto
qed

definition word_ok :: "u8 list \<Rightarrow> bool" where
  "word_ok bs \<longleftrightarrow> bs \<noteq> [] \<and> \<not> isspace (hd bs) \<and> \<not> isspace (last bs) \<and> 0 \<notin> set bs \<and> 10 \<notin> set bs \<and> 58 \<notin> set bs"

lemma trim_ok:
  assumes "drop i buf = sp @ bs @ 0 # rest" "\<forall>x \<in> set sp. x = 32" "word_ok bs"
  shows "trim buf i = Some (buf, i + length sp)"
proof -
  note w = assms(3)[unfolded word_ok_def]
  have l: "i + length sp + length bs < length buf"
    using arg_cong[OF assms(1), of length] by simp
  let ?e = "i + length sp + length bs"
  have d: "drop (i + length sp) buf = bs @ 0 # rest" "drop ?e buf = 0 # rest"
    using assms(1) by (metis append_eq_conv_conj drop_drop add.commute)+
  have b0: "buf ! i \<noteq> 0"
  proof -
    have "buf ! i = hd (sp @ bs @ 0 # rest)" using hd_drop_conv_nth[of i buf] l assms(1) by simp
    moreover have "hd bs \<noteq> 0" using w hd_in_set[of bs] by metis
    ultimately show ?thesis using w assms(2) by (cases sp) auto
  qed
  have "skip_spaces buf i = Some (i + length sp)"
    using w by (intro skip_spaces_ok[of i buf sp "hd bs" "tl bs @ 0 # rest"]) (use assms in \<open>auto simp: isspace_def\<close>)
  moreover have "line_end buf (i + length sp) = Some ?e" by (rule line_end_ok[OF d(1)]) (use w in auto)
  moreover obtain e where e: "?e = Suc e" using w by (cases bs) auto
  moreover have "buf ! e = last bs"
  proof -
    have "drop (i + length sp) buf ! (length bs - 1) = bs ! (length bs - 1)" unfolding d(1) using w by (simp add: nth_append)
    moreover have "i + length sp + (length bs - 1) = e" using e w by (cases bs) auto
    ultimately show ?thesis using w l by (simp add: last_conv_nth)
  qed
  then have "back_spaces buf (i + length sp) e = Some e" using w by (subst back_spaces.simps) simp
  moreover have "buf[?e := 0] = buf"
  proof -
    have "buf ! ?e = 0" using d(2) l hd_drop_conv_nth[of ?e buf] by simp
    then show ?thesis by (metis list_update_id)
  qed
  ultimately show ?thesis using l b0 by (simp add: trim_def)
qed

lemma cstr_at_ok: "drop i buf = bs @ 0 # rest \<Longrightarrow> 0 \<notin> set bs \<Longrightarrow> cstr_at buf i = Some bs"
  by (simp add: cstr_at_def takeWhile_append)

text \<open>Overwriting the byte read last with the end of a string.\<close>

definition end_string :: "conn \<Rightarrow> conn" where
  "end_string c = c\<lparr>conn_rbuf := (conn_rbuf c)[conn_rpos c - 1 := 0]\<rparr>"

lemma end_string_ok:
  assumes "conn_ok c" "read_part c = q @ [b]"
  shows "conn_ok (end_string c)" "same_conn c (end_string c)" "avail inp w (end_string c) = avail inp w c"
    "read_part (end_string c) = q @ [0]" "conn_rpos (end_string c) = conn_rpos c"
    "conn_rbuf (end_string c) = q @ 0 # drop (Suc (length q)) (conn_rbuf c)"
    "end_string c = c\<lparr>conn_rbuf := (conn_rbuf c)[length q := 0]\<rparr>"
proof -
  have p: "conn_rpos c = Suc (length q)" using length_read_part[OF assms(1)] assms(2) by simp
  have "conn_rbuf c = (q @ [b]) @ drop (Suc (length q)) (conn_rbuf c)"
    using assms(2) p unfolding read_part_def by (metis append_take_drop_id)
  then have upd: "(conn_rbuf c)[length q := 0] = q @ 0 # drop (Suc (length q)) (conn_rbuf c)"
    by (metis append.assoc append_Cons append_Nil list_update_length)
  show "end_string c = c\<lparr>conn_rbuf := (conn_rbuf c)[length q := 0]\<rparr>" by (simp add: end_string_def p)
  show "conn_ok (end_string c)" using assms(1) by (simp add: end_string_def conn_ok_def)
  show "same_conn c (end_string c)" "conn_rpos (end_string c) = conn_rpos c" by (simp_all add: end_string_def)
  show "conn_rbuf (end_string c) = q @ 0 # drop (Suc (length q)) (conn_rbuf c)" using upd p by (simp add: end_string_def)
  show "read_part (end_string c) = q @ [0]" using upd p by (simp add: end_string_def read_part_def)
  have "drop (Suc (length q)) (conn_rbuf (end_string c)) = drop (Suc (length q)) (conn_rbuf c)"
    using p by (simp add: end_string_def)
  then show "avail inp w (end_string c) = avail inp w c"
    using p by (simp add: avail_def buffered_def read_at_def end_string_def)
qed

text \<open>The end of a name or a value: \<open>b\<close> is the colon or the newline.\<close>

lemma header_loop_mark:
  assumes laws: "recv_laws inp patience os_recv" "recv_reliable os_recv" and ok: "conn_ok c"
    and av: "avail inp w c = b # rest" and rp: "read_part c = p @ sp @ bs" "\<forall>x \<in> set sp. x = 32" "word_ok bs"
    and room: "conn_rpos c < BUFSZ"
  obtains w' c1 where "recv_block os_recv w c 1 = Some (w', c1, code SCRC_OK, Some (length (read_part c)))"
    "conn_rbuf c1 ! length (read_part c) = b" "trim ((conn_rbuf c1)[length (read_part c) := 0]) (length p) =
      Some (conn_rbuf (end_string c1), length p + length sp)"
    "c1\<lparr>conn_rbuf := conn_rbuf (end_string c1)\<rparr> = end_string c1" "conn_ok (end_string c1)" "same_conn c (end_string c1)"
    "avail inp w' (end_string c1) = rest" "read_part (end_string c1) = p @ sp @ bs @ [0]"
proof -
  have rm: "line_room c 1" and st: "line_start c = read_part c" using room by (simp_all add: line_room_def line_start_def)
  obtain w1 c1 where b: "recv_block os_recv w c 1 = Some (w1, c1, code SCRC_OK, Some (length (line_start c)))"
    "conn_ok c1" "same_conn c c1" "avail inp w1 c1 = rest" "read_part c1 = line_start c @ [b]"
    "conn_rbuf c1 ! length (line_start c) = b"
    by (rule recv_byte_ok[OF laws ok rm av])
  note e = end_string_ok[OF b(2) b(5)[unfolded st]]
  have "drop (length p) (conn_rbuf (end_string c1)) = sp @ bs @ 0 # drop (Suc (length (read_part c))) (conn_rbuf c1)"
    unfolding e(6) rp(1) by simp
  from trim_ok[OF this rp(2,3)] have t: "trim ((conn_rbuf c1)[length (read_part c) := 0]) (length p) =
      Some (conn_rbuf (end_string c1), length p + length sp)"
    using e(7) by simp
  show thesis
  proof (rule that[of w1 c1])
    show "c1\<lparr>conn_rbuf := conn_rbuf (end_string c1)\<rparr> = end_string c1" by (simp add: end_string_def)
    show "same_conn c (end_string c1)" using same_conn_trans[OF b(3) e(2)] .
    show "avail inp w1 (end_string c1) = rest" by (simp add: e(3) b(4))
  qed (use b e t st rp in simp_all)
qed

lemma header_loop_colon:
  assumes laws: "recv_laws inp patience os_recv" "recv_reliable os_recv" and ok: "conn_ok c"
    and av: "avail inp w c = 58 # rest" and rp: "read_part c = p @ sp @ bs" "\<forall>x \<in> set sp. x = 32" "word_ok bs"
    and room: "conn_rpos c < BUFSZ" and len: "len + 1 < HEADER_MAX"
  shows "\<exists>w' c'. header_line_loop os_recv w c hl (length p) delim len =
      header_line_loop os_recv w' c' (hl\<lparr>hl_name := Some (length p + length sp)\<rparr>) (length (p @ sp @ bs @ [0])) True (len + 1) \<and>
    conn_ok c' \<and> same_conn c c' \<and> avail inp w' c' = rest \<and> read_part c' = p @ sp @ bs @ [0]"
proof -
  obtain w' c1 where m: "recv_block os_recv w c 1 = Some (w', c1, code SCRC_OK, Some (length (read_part c)))"
    "conn_rbuf c1 ! length (read_part c) = 58" "trim ((conn_rbuf c1)[length (read_part c) := 0]) (length p) =
      Some (conn_rbuf (end_string c1), length p + length sp)"
    "c1\<lparr>conn_rbuf := conn_rbuf (end_string c1)\<rparr> = end_string c1" "conn_ok (end_string c1)" "same_conn c (end_string c1)"
    "avail inp w' (end_string c1) = rest" "read_part (end_string c1) = p @ sp @ bs @ [0]"
    by (rule header_loop_mark[OF laws ok av rp room])
  have "header_line_loop os_recv w c hl (length p) delim len =
      header_line_loop os_recv w' (end_string c1) (hl\<lparr>hl_name := Some (length p + length sp)\<rparr>) (length (p @ sp @ bs @ [0])) True (len + 1)"
    using m(1-4) len rp(1) by (subst header_line_loop.simps) simp
  then show ?thesis using m(5-8) by blast
qed

lemma header_loop_newline:
  assumes laws: "recv_laws inp patience os_recv" "recv_reliable os_recv" and ok: "conn_ok c"
    and av: "avail inp w c = 10 # rest" and rp: "read_part c = p @ sp @ bs" "\<forall>x \<in> set sp. x = 32" "word_ok bs"
    and room: "conn_rpos c < BUFSZ" and len: "len + 1 < HEADER_MAX"
  shows "\<exists>w' c'. header_line_loop os_recv w c hl (length p) delim len = Some (w', c', code SCRC_OK,
      if delim then hl\<lparr>hl_value := Some (length p + length sp)\<rparr> else hl\<lparr>hl_name := Some (length p + length sp), hl_value := None\<rparr>) \<and>
    conn_ok c' \<and> same_conn c c' \<and> avail inp w' c' = rest \<and> read_part c' = p @ sp @ bs @ [0]"
proof -
  obtain w' c1 where m: "recv_block os_recv w c 1 = Some (w', c1, code SCRC_OK, Some (length (read_part c)))"
    "conn_rbuf c1 ! length (read_part c) = 10" "trim ((conn_rbuf c1)[length (read_part c) := 0]) (length p) =
      Some (conn_rbuf (end_string c1), length p + length sp)"
    "c1\<lparr>conn_rbuf := conn_rbuf (end_string c1)\<rparr> = end_string c1" "conn_ok (end_string c1)" "same_conn c (end_string c1)"
    "avail inp w' (end_string c1) = rest" "read_part (end_string c1) = p @ sp @ bs @ [0]"
    by (rule header_loop_mark[OF laws ok av rp room])
  have "header_line_loop os_recv w c hl (length p) delim len = Some (w', end_string c1, code SCRC_OK,
      if delim then hl\<lparr>hl_value := Some (length p + length sp)\<rparr> else hl\<lparr>hl_name := Some (length p + length sp), hl_value := None\<rparr>)"
    using m(1-4) len by (subst header_line_loop.simps) simp
  then show ?thesis using m(5-8) by blast
qed

lemma cstr_read_part:
  assumes "read_part c = p @ bs @ 0 # q" "0 \<notin> set bs"
  shows "cstr_at (conn_rbuf c) (length p) = Some bs"
proof -
  have "conn_rbuf c = (p @ bs @ 0 # q) @ drop (conn_rpos c) (conn_rbuf c)"
    using assms(1) unfolding read_part_def by (metis append_take_drop_id)
  then have "drop (length p) (conn_rbuf c) = bs @ 0 # q @ drop (conn_rpos c) (conn_rbuf c)"
    by (metis append.assoc append_Cons append_eq_conv_conj)
  then show ?thesis using assms(2) by (rule cstr_at_ok)
qed

text \<open>A line as far as its first name: \<open>line_start\<close> of the connection is what the buffer keeps before it.\<close>

lemma header_line_first:
  assumes laws: "recv_laws inp patience os_recv" "recv_reliable os_recv" and ok: "conn_ok c"
    and av: "avail inp w c = name @ b # rest" "word_ok name" and room: "line_room c n" "length name < n" "n < HEADER_MAX"
  shows "\<exists>w' c'. recv_header_line os_recv w c =
      header_line_loop os_recv w' c' \<lparr>hl_name = None, hl_value = None\<rparr> (length (line_start c)) False (length name) \<and>
    conn_ok c' \<and> same_conn c c' \<and> avail inp w' c' = b # rest \<and> read_part c' = line_start c @ name"
proof -
  obtain x xs where x: "name = x # xs" using av(2) by (cases name) (auto simp: word_ok_def)
  have nx: "x \<noteq> 58" "x \<noteq> 10" "58 \<notin> set xs" "10 \<notin> set xs" using av(2) x by (auto simp: word_ok_def)
  have r1: "line_room c 1" using room by (auto simp: line_room_def)
  have a1: "avail inp w c = x # xs @ b # rest" using av(1) x by simp
  obtain w1 c1 where b: "recv_block os_recv w c 1 = Some (w1, c1, code SCRC_OK, Some (length (line_start c)))"
    "conn_ok c1" "same_conn c c1" "avail inp w1 c1 = xs @ b # rest" "read_part c1 = line_start c @ [x]"
    "conn_rbuf c1 ! length (line_start c) = x"
    by (rule recv_byte_ok[OF laws ok r1 a1])
  have "length (line_start c) + n \<le> BUFSZ"
    using room length_read_part[OF ok] by (auto simp: line_room_def line_start_def HEADER_MAX_def BUFSZ_def)
  then have rp: "conn_rpos c1 + length xs \<le> BUFSZ" using length_read_part[OF b(2)] b(5) room(2) x by simp
  have len: "1 + length xs < HEADER_MAX" using room(2,3) x by simp
  obtain w' c' where s: "header_line_loop os_recv w1 c1 \<lparr>hl_name = None, hl_value = None\<rparr> (length (line_start c)) False 1 =
      header_line_loop os_recv w' c' \<lparr>hl_name = None, hl_value = None\<rparr> (length (line_start c)) False (1 + length xs)"
    "conn_ok c'" "same_conn c1 c'" "avail inp w' c' = b # rest" "read_part c' = read_part c1 @ xs"
    using header_loop_scan[OF laws b(2,4) nx(3,4) rp len] by blast
  have "recv_header_line os_recv w c = header_line_loop os_recv w1 c1 \<lparr>hl_name = None, hl_value = None\<rparr> (length (line_start c)) False 1"
    using b(1,6) nx(1,2) by (simp add: recv_header_line_def)
  then show ?thesis using s b(5) x same_conn_trans[OF b(3) s(3)] by (intro exI[of _ w'] exI[of _ c']) simp
qed

lemma header_line_room: "conn_ok c \<Longrightarrow> line_room c n \<Longrightarrow> n < HEADER_MAX \<Longrightarrow> length (line_start c) + n \<le> BUFSZ"
  by (auto simp: line_room_def line_start_def length_read_part HEADER_MAX_def BUFSZ_def)

lemma recv_header_line_plain:
  assumes laws: "recv_laws inp patience os_recv" "recv_reliable os_recv" and ok: "conn_ok c"
    and av: "avail inp w c = name @ 10 # rest" "word_ok name" and room: "line_room c (length name + 1)" "length name + 1 < HEADER_MAX"
  shows "\<exists>w' c' n. recv_header_line os_recv w c = Some (w', c', code SCRC_OK, \<lparr>hl_name = Some n, hl_value = None\<rparr>) \<and>
    cstr_at (conn_rbuf c') n = Some name \<and> conn_ok c' \<and> same_conn c c' \<and> avail inp w' c' = rest \<and>
    read_part c' = line_start c @ name @ [0]"
proof -
  let ?b = "line_start c"
  obtain w1 c1 where f: "recv_header_line os_recv w c =
      header_line_loop os_recv w1 c1 \<lparr>hl_name = None, hl_value = None\<rparr> (length ?b) False (length name)"
    "conn_ok c1" "same_conn c c1" "avail inp w1 c1 = 10 # rest" "read_part c1 = ?b @ name"
    using header_line_first[OF laws ok av room(1) _ room(2)] by auto
  have rp: "read_part c1 = ?b @ [] @ name" "conn_rpos c1 < BUFSZ"
    using f(5) length_read_part[OF f(2)] header_line_room[OF ok room] by simp_all
  obtain w' c' where n: "header_line_loop os_recv w1 c1 \<lparr>hl_name = None, hl_value = None\<rparr> (length ?b) False (length name) =
      Some (w', c', code SCRC_OK, \<lparr>hl_name = Some (length ?b), hl_value = None\<rparr>)"
    "conn_ok c'" "same_conn c1 c'" "avail inp w' c' = rest" "read_part c' = ?b @ name @ [0]"
    using header_loop_newline[OF laws f(2,4) rp(1) _ av(2) rp(2), of "length name" "\<lparr>hl_name = None, hl_value = None\<rparr>" False] room(2) by auto
  have "cstr_at (conn_rbuf c') (length ?b) = Some name"
    by (rule cstr_read_part[of c' ?b name "[]"]) (use n(5) av(2) in \<open>simp_all add: word_ok_def\<close>)
  then show ?thesis using f(1) n same_conn_trans[OF f(3) n(3)] by auto
qed

lemma recv_header_line_pair:
  assumes laws: "recv_laws inp patience os_recv" "recv_reliable os_recv" and ok: "conn_ok c"
    and av: "avail inp w c = name @ 58 # sp @ value @ 10 # rest" "word_ok name" "word_ok value" "\<forall>x \<in> set sp. x = 32"
    and room: "line_room c (length name + length sp + length value + 2)" "length name + length sp + length value + 2 < HEADER_MAX"
  shows "\<exists>w' c' n v. recv_header_line os_recv w c = Some (w', c', code SCRC_OK, \<lparr>hl_name = Some n, hl_value = Some v\<rparr>) \<and>
    cstr_at (conn_rbuf c') n = Some name \<and> cstr_at (conn_rbuf c') v = Some value \<and> conn_ok c' \<and> same_conn c c' \<and>
    avail inp w' c' = rest \<and> read_part c' = line_start c @ name @ 0 # sp @ value @ [0]"
proof -
  let ?b = "line_start c" and ?p = "line_start c @ name @ [0]" and ?hl = "\<lparr>hl_name = Some (length (line_start c)), hl_value = None\<rparr>"
  obtain w1 c1 where f: "recv_header_line os_recv w c =
      header_line_loop os_recv w1 c1 \<lparr>hl_name = None, hl_value = None\<rparr> (length ?b) False (length name)"
    "conn_ok c1" "same_conn c c1" "avail inp w1 c1 = 58 # sp @ value @ 10 # rest" "read_part c1 = ?b @ name"
    using header_line_first[OF laws ok av(1,2) room(1) _ room(2)] by auto
  note rm = header_line_room[OF ok room]
  have rp: "read_part c1 = ?b @ [] @ name" "conn_rpos c1 < BUFSZ"
    using f(5) length_read_part[OF f(2)] rm by simp_all
  obtain w2 c2 where n: "header_line_loop os_recv w1 c1 \<lparr>hl_name = None, hl_value = None\<rparr> (length ?b) False (length name) =
      header_line_loop os_recv w2 c2 ?hl (length ?p) True (length name + 1)"
    "conn_ok c2" "same_conn c1 c2" "avail inp w2 c2 = (sp @ value) @ 10 # rest" "read_part c2 = ?p"
    using header_loop_colon[OF laws f(2,4) rp(1) _ av(2) rp(2), of "length name" "\<lparr>hl_name = None, hl_value = None\<rparr>" False] room(2) by auto
  have sv: "58 \<notin> set (sp @ value)" "10 \<notin> set (sp @ value)" using av(3,4) by (auto simp: word_ok_def)
  have p2: "conn_rpos c2 + length (sp @ value) \<le> BUFSZ" using length_read_part[OF n(2)] n(5) rm by simp
  have l2: "length name + 1 + length (sp @ value) < HEADER_MAX" using room(2) by simp
  obtain w3 c3 where s: "header_line_loop os_recv w2 c2 ?hl (length ?p) True (length name + 1) =
      header_line_loop os_recv w3 c3 ?hl (length ?p) True (length name + 1 + length (sp @ value))"
    "conn_ok c3" "same_conn c2 c3" "avail inp w3 c3 = 10 # rest" "read_part c3 = read_part c2 @ sp @ value"
    using header_loop_scan[OF laws n(2,4) sv p2 l2] by blast
  have rp3: "read_part c3 = ?p @ sp @ value" "conn_rpos c3 < BUFSZ"
    using s(5) n(5) length_read_part[OF s(2)] rm by simp_all
  have l3: "length name + 1 + length (sp @ value) + 1 < HEADER_MAX" using room(2) by simp
  obtain w' c' where e: "header_line_loop os_recv w3 c3 ?hl (length ?p) True (length name + 1 + length (sp @ value)) =
      Some (w', c', code SCRC_OK, ?hl\<lparr>hl_value := Some (length ?p + length sp)\<rparr>)"
    "conn_ok c'" "same_conn c3 c'" "avail inp w' c' = rest" "read_part c' = ?p @ sp @ value @ [0]"
    using header_loop_newline[OF laws s(2,4) rp3(1) av(4,3) rp3(2) l3, of ?hl True] unfolding if_True append.assoc by blast
  have fin: "recv_header_line os_recv w c =
      Some (w', c', code SCRC_OK, \<lparr>hl_name = Some (length ?b), hl_value = Some (length (?p @ sp))\<rparr>)"
    using f(1) n(1) s(1) e(1) by simp
  have nm: "cstr_at (conn_rbuf c') (length ?b) = Some name"
    by (rule cstr_read_part[of c' ?b name "sp @ value @ [0]"]) (use e(5) av(2) in \<open>simp_all add: word_ok_def\<close>)
  have vl: "cstr_at (conn_rbuf c') (length (?p @ sp)) = Some value"
    by (rule cstr_read_part[of c' "?p @ sp" "value" "[]"]) (use e(5) av(3) in \<open>simp_all add: word_ok_def\<close>)
  have sc: "same_conn c c'" using f(3) n(3) s(3) e(3) same_conn_trans by blast
  show ?thesis
    by (intro exI[of _ w'] exI[of _ c'] exI[of _ "length ?b"] exI[of _ "length (?p @ sp)"] conjI fin nm vl e(2,4) sc)
      (simp add: e(5))
qed

text \<open>A header, line by line; the room that is left shrinks by each line.\<close>

lemma line_room_next:
  assumes "conn_ok c" "line_room c n" "n < HEADER_MAX" "conn_ok c'" "length (read_part c') = length (line_start c) + k" "k + m \<le> n"
  shows "line_room c' m"
  using header_line_room[OF assms(1-3)] length_read_part[OF assms(4)] assms(5,6) by (simp add: line_room_def)

lemma same_conn_body: "same_conn c c' \<Longrightarrow> same_conn (c\<lparr>conn_body := b\<rparr>) (c'\<lparr>conn_body := b\<rparr>)"
  by (cases c; cases c'; simp add: same_conn_def)

lemma conn_body_upd [simp]:
  "conn_ok (c\<lparr>conn_body := b\<rparr>) = conn_ok c" "avail inp w (c\<lparr>conn_body := b\<rparr>) = avail inp w c"
  "line_room (c\<lparr>conn_body := b\<rparr>) n = line_room c n" "line_start (c\<lparr>conn_body := b\<rparr>) = line_start c"
  "read_part (c\<lparr>conn_body := b\<rparr>) = read_part c"
  by (simp_all add: conn_ok_def avail_def buffered_def line_room_def line_start_def read_part_def)

lemma recv_header_pair:
  assumes laws: "recv_laws inp patience os_recv" "recv_reliable os_recv" and ok: "conn_ok c"
    and av: "avail inp w c = name @ 58 # sp @ value @ 10 # rest" "word_ok name" "word_ok value" "\<forall>x \<in> set sp. x = 32"
    and room: "line_room c (length name + length sp + length value + 2 + m)" "length name + length sp + length value + 2 + m < HEADER_MAX"
  obtains w' c' where "recv_header_loop os_recv w c = (case header_step name (Some value) (conn_body c) of
        Inl ret \<Rightarrow> Some (w', c', ret) | Inr b \<Rightarrow> recv_header_loop os_recv w' (c'\<lparr>conn_body := b\<rparr>))"
    "conn_ok c'" "same_conn c c'" "avail inp w' c' = rest" "line_room c' m"
proof -
  let ?n = "length name + length sp + length value + 2"
  have r: "line_room c ?n" "?n < HEADER_MAX" using room by (auto simp: line_room_def)
  obtain w' c' n v where l: "recv_header_line os_recv w c = Some (w', c', code SCRC_OK, \<lparr>hl_name = Some n, hl_value = Some v\<rparr>)"
    "cstr_at (conn_rbuf c') n = Some name" "cstr_at (conn_rbuf c') v = Some value" "conn_ok c'" "same_conn c c'"
    "avail inp w' c' = rest" "read_part c' = line_start c @ name @ 0 # sp @ value @ [0]"
    using recv_header_line_pair[OF laws ok av r] by (elim exE conjE) (rule that)
  have "conn_body c' = conn_body c" "name \<noteq> []" using same_connD(6)[OF l(5)] av(2) by (auto simp: word_ok_def)
  then have "recv_header_loop os_recv w c = (case header_step name (Some value) (conn_body c) of
        Inl ret \<Rightarrow> Some (w', c', ret) | Inr b \<Rightarrow> recv_header_loop os_recv w' (c'\<lparr>conn_body := b\<rparr>))"
    using l(1-3) by (subst recv_header_loop.simps) simp
  moreover have "line_room c' m"
    by (rule line_room_next[OF ok room l(4), of ?n]) (simp_all add: l(7))
  ultimately show thesis using that l(4-6) by blast
qed

lemma recv_header_plain:
  assumes laws: "recv_laws inp patience os_recv" "recv_reliable os_recv" and ok: "conn_ok c"
    and av: "avail inp w c = ascii ''$$'' @ 10 # rest" and room: "line_room c 3"
  obtains w' c' where "recv_header_loop os_recv w c = Some (w', c', code SCRC_OK)"
    "conn_ok c'" "same_conn c c'" "avail inp w' c' = rest"
proof -
  have w: "word_ok (ascii ''$$'')" by (simp add: word_ok_def isspace_def ascii_def)
  have r: "line_room c (length (ascii ''$$'') + 1)" "length (ascii ''$$'') + 1 < HEADER_MAX"
    using room by (simp_all add: ascii_def HEADER_MAX_def BUFSZ_def numeral_3_eq_3)
  obtain w' c' n where l: "recv_header_line os_recv w c = Some (w', c', code SCRC_OK, \<lparr>hl_name = Some n, hl_value = None\<rparr>)"
    "cstr_at (conn_rbuf c') n = Some (ascii ''$$'')" "conn_ok c'" "same_conn c c'" "avail inp w' c' = rest"
    using recv_header_line_plain[OF laws ok av w r] by (elim exE conjE) (rule that)
  have "ascii ''$$'' \<noteq> []" by (simp add: ascii_def)
  then have "recv_header_loop os_recv w c = Some (w', c', code SCRC_OK)"
    using l(1,2) by (subst recv_header_loop.simps) (simp add: header_step_def)
  then show thesis using that l(3-5) by blast
qed

section \<open>Numbers\<close>

lemma digits_value_append: "digits_value acc (xs @ [d]) = 10 * digits_value acc xs + (uint d - 48)"
  by (induction xs arbitrary: acc) auto

lemma digit_byte: "d < 10 \<Longrightarrow> isdigit (48 + of_nat d) \<and> uint (48 + of_nat d :: u8) - 48 = int d"
proof -
  assume "d < 10"
  then have "uint (48 + of_nat d :: u8) = 48 + int d"
    by (simp add: uint_word_ariths unsigned_of_nat take_bit_nat_eq_self take_bit_eq_mod)
  then show ?thesis using \<open>d < 10\<close> by (simp add: isdigit_def word_le_def)
qed

lemma decimal_digits: "decimal n \<noteq> [] \<and> (\<forall>b \<in> set (decimal n). isdigit b) \<and> digits_value 0 (decimal n) = int n"
proof (induction n rule: decimal.induct)
  case (1 n)
  show ?case
  proof (cases "n < 10")
    case True
    then show ?thesis using digit_byte[OF True] by (subst (1 2 3) decimal.simps) simp
  next
    case False
    have "n mod 10 < 10" by simp
    note d = digit_byte[OF this]
    have "int n = 10 * int (n div 10) + int (n mod 10)" by (simp add: zdiv_int zmod_int)
    then show ?thesis using 1[OF False] d False
      by (subst (1 2 3) decimal.simps) (simp add: digits_value_append)
  qed
qed

lemma isdigit_plain: "isdigit b \<Longrightarrow> b \<noteq> 0 \<and> b \<noteq> 10 \<and> b \<noteq> 58 \<and> b \<noteq> 43 \<and> b \<noteq> 45 \<and> \<not> isspace b"
  by (auto simp: isdigit_def isspace_def word_le_def)

lemma decimal_word_ok: "word_ok (decimal n)"
proof -
  note d = decimal_digits[of n]
  have "hd (decimal n) \<in> set (decimal n)" "last (decimal n) \<in> set (decimal n)" using d by simp_all
  then show ?thesis using d isdigit_plain by (auto simp: word_ok_def)
qed

lemma strtol_decimal: "n < 2 ^ 63 \<Longrightarrow> strtol (decimal n) = (int n, False, [])"
proof -
  assume n: "n < 2 ^ 63"
  note d = decimal_digits[of n]
  then have p: "\<not> isspace (hd (decimal n))" "hd (decimal n) \<noteq> 45" "hd (decimal n) \<noteq> 43" "decimal n \<noteq> []"
    using isdigit_plain hd_in_set by blast+
  then have "dropWhile isspace (decimal n) = decimal n" by (cases "decimal n") auto
  moreover have tw: "takeWhile isdigit (decimal n) = decimal n" using d by (simp add: takeWhile_eq_all_conv)
  moreover have "int n < 2 ^ 63" using n by (simp add: nat_less_iff)
  ultimately show ?thesis using p d by (simp add: strtol_def Let_def tw)
qed

section \<open>A concrete socket\<close>

text \<open>It gives two bytes at a time and is interrupted before each call.\<close>

definition slow_recv :: "((i32 \<Rightarrow> u8 list) \<times> nat) os_recv" where
  "slow_recv w fd n = (if snd w \<noteq> 0 then ((fst w, snd w - 1), Recv_Eintr)
     else (((fst w)(fd := drop (min 2 n) (fst w fd)), 1), Received (take (min 2 n) (fst w fd))))"

lemma slow_recv_laws: "recv_laws fst snd slow_recv" "recv_reliable slow_recv"
  by (auto simp: recv_laws_def recv_reliable_def slow_recv_def Let_def)

definition fresh_conn :: conn where
  "fresh_conn = \<lparr>conn_status = code SCRC_OK, conn_user = [117], conn_catalog = Some [99], conn_sockfd = 5, conn_columns = [],
     conn_rbuf = replicate FULLSZ 0, conn_rlen = 0, conn_rpos = 0, conn_body = False\<rparr>"

lemma fresh_conn_ok: "conn_ok fresh_conn" "avail inp w fresh_conn = inp w 5" "n < HEADER_MAX \<Longrightarrow> line_room fresh_conn n"
  by (simp_all add: fresh_conn_def conn_ok_def avail_def buffered_def read_at_def line_room_def HEADER_MAX_def)

theorem recv_blocks_refine_stream_witness:
  "\<exists>w' c' bss. recv_blocks slow_recv (\<lambda>_. [1, 2, 3, 4, 5, 6, 7], 0) fresh_conn [3, 1, 2, 70000] =
     Some (w', c', code SCRC_BUFFER_OVERFLOW, bss) \<and> concat bss = [1, 2, 3, 4, 5, 6] \<and> avail fst w' c' = [7]"
proof -
  let ?w = "(\<lambda>_. [1, 2, 3, 4, 5, 6, 7], 0) :: (i32 \<Rightarrow> u8 list) \<times> nat" and ?ns = "[3, 1, 2, 70000] :: nat list"
  have av: "avail fst ?w fresh_conn = [1, 2, 3, 4, 5, 6, 7]" by (simp add: fresh_conn_ok(2))
  obtain w' c' ret bss where r: "recv_blocks slow_recv ?w fresh_conn ?ns = Some (w', c', ret, bss)" "map length bss = take (length bss) ?ns"
    "[1, 2, 3, 4, 5, 6, 7] = concat bss @ avail fst w' c'"
    "if length bss = length ?ns then ret = code SCRC_OK
     else length bss < length ?ns \<and> recv_failure (recv_reliable slow_recv) (length (avail fst w' c')) (?ns ! length bss) ret"
    using recv_blocks_refine_stream[OF slow_recv_laws(1) fresh_conn_ok(1), of ?w ?ns] unfolding av by (elim exE conjE) (rule that)
  have l: "length (concat bss) = sum_list (take (length bss) ?ns)" "length (concat bss) + length (avail fst w' c') = 7"
    using r(2) arg_cong[OF r(3), of length] by (simp_all add: length_concat)
  have "length bss \<le> length ?ns" using r(4) by (auto split: if_splits)
  then consider "length bss = 0" | "length bss = 1" | "length bss = 2" | "length bss = 3" | "length bss = 4" unfolding list.size by linarith
  moreover have fl: "recv_failure (recv_reliable slow_recv) m n st \<Longrightarrow> n \<le> 3 \<Longrightarrow> m < n" for m n st
    using slow_recv_laws(2) by (simp add: recv_failure_def BUFSZ_def)
  ultimately show ?thesis
  proof cases
    case 1
    then have "recv_failure (recv_reliable slow_recv) (length (avail fst w' c')) 3 ret" "7 \<le> length (avail fst w' c')"
      using r(4) l by (simp_all)
    then show ?thesis using fl by fastforce
  next
    case 2
    then have "recv_failure (recv_reliable slow_recv) (length (avail fst w' c')) 1 ret" "4 \<le> length (avail fst w' c')"
      using r(4) l by (simp_all)
    then show ?thesis using fl by fastforce
  next
    case 3
    then have "recv_failure (recv_reliable slow_recv) (length (avail fst w' c')) 2 ret" "3 \<le> length (avail fst w' c')"
      using r(4) l by (simp_all add: numeral_2_eq_2)
    then show ?thesis using fl by fastforce
  next
    case 4
    then have c: "length (concat bss) = 6" "ret = code SCRC_BUFFER_OVERFLOW"
      using l(1) r(4) by (simp_all add: numeral_3_eq_3 recv_failure_def BUFSZ_def)
    then have "concat bss = take 6 [1, 2, 3, 4, 5, 6, 7]" "avail fst w' c' = drop 6 [1, 2, 3, 4, 5, 6, 7]"
      unfolding r(3) by simp_all
    then show ?thesis using r(1) c(2) by simp
  next
    case 5
    then have "length (concat bss) = 70006" using l(1) by simp
    then show ?thesis using l(2) by simp
  qed
qed

end
