(* ===== verification/Scr_Protocol_Laws.thy ===== *)
theory Scr_Protocol_Laws
  imports Scr_Execute_Laws Scr_Scrc_Laws
begin

text \<open>
  The server's messages as the client reads them: a status arrives as that status, and the
  rows that SELECT sends are the rows the client fetches.
\<close>

section \<open>Commands and rows\<close>

lemma conn_columns_upd [simp]:
  "conn_ok (c\<lparr>conn_columns := b\<rparr>) = conn_ok c" "avail inp w (c\<lparr>conn_columns := b\<rparr>) = avail inp w c"
  "line_room (c\<lparr>conn_columns := b\<rparr>) n = line_room c n" "buffered (c\<lparr>conn_columns := b\<rparr>) = buffered c"
  by (simp_all add: conn_ok_def avail_def buffered_def line_room_def)

lemma conn_status_upd [simp]:
  "conn_ok (c\<lparr>conn_status := b\<rparr>) = conn_ok c" "avail inp w (c\<lparr>conn_status := b\<rparr>) = avail inp w c"
  by (simp_all add: conn_ok_def avail_def buffered_def)

text \<open>The statuses the client compares with.\<close>

lemma code_values: "code SCRC_OK = 0" "code SCRC_END = 1"
  by (simp_all add: code_def status_value_def scrc_statuses_def)

lemma recv_block_prefix:
  assumes laws: "recv_laws inp patience os_recv" "recv_reliable os_recv" and ok: "conn_ok c"
    and av: "avail inp w c = bs @ rest" and n: "n = length bs" "n \<le> BUFSZ"
  obtains w' c' p where "recv_block os_recv w c n = Some (w', c', code SCRC_OK, Some p)" "conn_ok c'" "same_conn c c'"
    "avail inp w' c' = rest" "read_at (conn_rbuf c') p n = bs" "p + n \<le> FULLSZ"
proof -
  have l: "n \<le> length (avail inp w c)" using av n(1) by simp
  show thesis by (rule recv_block_ok[OF laws ok n(2) l]) (use that av n(1) in simp)
qed

lemma recv_cmd_ok:
  assumes laws: "recv_laws inp patience os_recv" "recv_reliable os_recv" and ok: "conn_ok c"
    and av: "avail inp w c = le_bytes 4 k @ rest"
  obtains w' c' where "recv_cmd os_recv w c x = Some (w', c', code SCRC_OK, k)" "conn_ok c'" "same_conn c c'"
    "avail inp w' c' = rest"
proof -
  have n: "(4 :: nat) = length (le_bytes 4 k)" "(4 :: nat) \<le> BUFSZ" by (simp_all add: BUFSZ_def)
  show thesis by (rule recv_block_prefix[OF laws ok av n]) (use that in \<open>simp add: recv_cmd_def\<close>)
qed

lemma recv_row_end:
  assumes laws: "recv_laws inp patience os_recv" "recv_reliable os_recv" and ok: "conn_ok c"
    and av: "avail inp w c = le_bytes 4 SCRC_CMD_END @ rest"
  obtains w' c' where "recv_row os_recv w c = Some (w', c', code SCRC_END, None)" "conn_ok c'" "same_conn c c'"
    "avail inp w' c' = rest"
  by (rule recv_cmd_ok[OF laws ok av, of 0])
    (use that in \<open>simp add: recv_row_def SCRC_CMD_END_def SCRC_CMD_TABHEADER_def SCRC_CMD_TABDATA_def\<close>)

lemma recv_row_ok:
  assumes laws: "recv_laws inp patience os_recv" "recv_reliable os_recv" and ok: "conn_ok c"
    and av: "avail inp w c = row_message sz r @ rest" and sz: "length r = unat sz" "unat sz \<le> BUFSZ"
  obtains w' c' p where "recv_row os_recv w c = Some (w', c', code SCRC_OK, Some p)" "conn_ok c'" "same_conn c c'"
    "avail inp w' c' = rest" "read_at (conn_rbuf c') p (unat sz) = r" "p + unat sz \<le> length (conn_rbuf c')"
proof -
  have a: "avail inp w c = le_bytes 4 SCRC_CMD_ROW @ le_bytes 8 sz @ r @ rest" using av by (simp add: row_message_def)
  obtain w1 c1 where c1: "recv_cmd os_recv w c 0 = Some (w1, c1, code SCRC_OK, SCRC_CMD_ROW)" "conn_ok c1" "same_conn c c1"
    "avail inp w1 c1 = le_bytes 8 sz @ r @ rest"
    by (rule recv_cmd_ok[OF laws ok a])
  have n: "(8 :: nat) = length (le_bytes 8 sz)" "(8 :: nat) \<le> BUFSZ" by (simp_all add: BUFSZ_def)
  obtain w2 c2 p where c2: "recv_block os_recv w1 c1 8 = Some (w2, c2, code SCRC_OK, Some p)" "conn_ok c2" "same_conn c1 c2"
    "avail inp w2 c2 = r @ rest" "read_at (conn_rbuf c2) p 8 = le_bytes 8 sz"
    by (rule recv_block_prefix[OF laws c1(2,4) n])
  obtain w3 c3 q where c3: "recv_block os_recv w2 c2 (unat sz) = Some (w3, c3, code SCRC_OK, Some q)" "conn_ok c3" "same_conn c2 c3"
    "avail inp w3 c3 = rest" "read_at (conn_rbuf c3) q (unat sz) = r" "q + unat sz \<le> FULLSZ"
    by (rule recv_block_prefix[OF laws c2(2,4) sz(1)[symmetric] sz(2)])
  have "recv_row os_recv w c = Some (w3, c3, code SCRC_OK, Some q)"
    using c1(1) c2(1,5) c3(1)
    by (simp add: recv_row_def SCRC_CMD_ROW_def SCRC_CMD_END_def SCRC_CMD_TABHEADER_def SCRC_CMD_TABDATA_def)
  moreover have "same_conn c c3" using c1(3) c2(3) c3(3) same_conn_trans by blast
  moreover have "q + unat sz \<le> length (conn_rbuf c3)" using c3(2,6) by (simp add: conn_ok_def)
  ultimately show thesis using that c3 by blast
qed

text \<open>Only the buffer, the columns and the status differ.\<close>

definition same_link :: "conn \<Rightarrow> conn \<Rightarrow> bool" where
  "same_link c c' \<longleftrightarrow> conn_sockfd c' = conn_sockfd c \<and> conn_body c' = conn_body c"

lemma recv_columns_ok:
  assumes laws: "recv_laws inp patience os_recv" "recv_reliable os_recv"
  shows "conn_ok c \<Longrightarrow> avail inp w c = concat (map (row_message 40) cols) @ le_bytes 4 SCRC_CMD_END @ rest \<Longrightarrow>
    \<forall>b \<in> set cols. length b = 40 \<Longrightarrow>
    \<exists>w' c'. recv_columns os_recv w c = Some (w', c', code SCRC_OK) \<and> conn_ok c' \<and> same_link c c' \<and>
      conn_columns c' = conn_columns c @ cols \<and> avail inp w' c' = rest"
proof (induction cols arbitrary: w c)
  case Nil
  have av: "avail inp w c = le_bytes 4 SCRC_CMD_END @ rest" using Nil.prems(2) by simp
  obtain w' c' where "recv_row os_recv w c = Some (w', c', code SCRC_END, None)" "conn_ok c'" "same_conn c c'" "avail inp w' c' = rest"
    by (rule recv_row_end[OF laws Nil.prems(1) av])
  then show ?case using same_connD[of c c'] by (subst recv_columns.simps) (simp add: same_link_def)
next
  case (Cons b cols)
  have av: "avail inp w c = row_message 40 b @ concat (map (row_message 40) cols) @ le_bytes 4 SCRC_CMD_END @ rest"
    using Cons.prems(2) by simp
  have sz: "length b = unat (40 :: u64)" "unat (40 :: u64) \<le> BUFSZ" using Cons.prems(3) by (simp_all add: BUFSZ_def)
  obtain w1 c1 p where r: "recv_row os_recv w c = Some (w1, c1, code SCRC_OK, Some p)" "conn_ok c1" "same_conn c c1"
    "avail inp w1 c1 = concat (map (row_message 40) cols) @ le_bytes 4 SCRC_CMD_END @ rest"
    "read_at (conn_rbuf c1) p (unat (40 :: u64)) = b" "p + unat (40 :: u64) \<le> length (conn_rbuf c1)"
    by (rule recv_row_ok[OF laws Cons.prems(1) av sz])
  let ?c1 = "c1\<lparr>conn_columns := conn_columns c1 @ [b]\<rparr>"
  have "conn_ok ?c1" "avail inp w1 ?c1 = concat (map (row_message 40) cols) @ le_bytes 4 SCRC_CMD_END @ rest" using r(2,4) by simp_all
  from Cons.IH[OF this] Cons.prems(3) obtain w' c' where
    ih: "recv_columns os_recv w1 ?c1 = Some (w', c', code SCRC_OK)" "conn_ok c'" "same_link ?c1 c'"
    "conn_columns c' = conn_columns ?c1 @ cols" "avail inp w' c' = rest" by auto
  have "recv_columns os_recv w c = Some (w', c', code SCRC_OK)"
    using r(1,5,6) ih(1) by (subst recv_columns.simps) (simp add: code_values COLUMNSZ_def)
  then show ?case using ih same_connD[OF r(3)] by (simp add: same_link_def)
qed

section \<open>Headers\<close>

lemma recv_status_line:
  assumes laws: "recv_laws inp patience os_recv" "recv_reliable os_recv" and ok: "conn_ok c"
    and av: "avail inp w c = ascii ''Status'' @ ascii '': '' @ print_lli (of_nat (status_value st)) @ 10 # rest"
    and room: "line_room c (m + 12)" "m + 12 < HEADER_MAX"
  obtains w' c' where "recv_header_loop os_recv w c = (if st = SCRC_OK then recv_header_loop os_recv w' c' else Some (w', c', code st))"
    "conn_ok c'" "same_conn c c'" "avail inp w' c' = rest" "line_room c' m"
proof -
  let ?v = "decimal (status_value st)"
  have v: "print_lli (of_nat (status_value st)) = ?v" by (rule print_lli_small[OF status_value_less])
  have l: "length ?v \<le> 3" using length_print_status[of st] v by simp
  have av': "avail inp w c = ascii ''Status'' @ 58 # [32] @ ?v @ 10 # rest" using av v by (simp add: ascii_def)
  have w: "word_ok (ascii ''Status'')" by (simp add: word_ok_def isspace_def ascii_def)
  have rm: "line_room c (length (ascii ''Status'') + length [32 :: u8] + length ?v + 2 + m)"
    "length (ascii ''Status'') + length [32 :: u8] + length ?v + 2 + m < HEADER_MAX"
    using l room by (auto simp: line_room_def ascii_def)
  have sp: "\<forall>x \<in> set [32 :: u8]. x = 32" by simp
  obtain w' c' where r: "recv_header_loop os_recv w c = (case header_step (ascii ''Status'') (Some ?v) (conn_body c) of
        Inl ret \<Rightarrow> Some (w', c', ret) | Inr b \<Rightarrow> recv_header_loop os_recv w' (c'\<lparr>conn_body := b\<rparr>))"
    "conn_ok c'" "same_conn c c'" "avail inp w' c' = rest" "line_room c' m"
    by (rule recv_header_pair[OF laws ok av' w decimal_word_ok sp rm])
  have z: "status_value st = 0 \<longleftrightarrow> st = SCRC_OK" by (cases st) (simp_all add: status_value_def scrc_statuses_def scrs_statuses_def)
  have "status_value st < 2 ^ 63" using status_value_less[of st] by simp
  note s = strtol_decimal[OF this]
  have "header_step (ascii ''Status'') (Some ?v) (conn_body c) = (if st = SCRC_OK then Inr (conn_body c) else Inl (code st))"
    using s z by (simp add: header_step_def code_def ascii_def)
  moreover have "c'\<lparr>conn_body := conn_body c\<rparr> = c'" using same_connD(6)[OF r(3)] by simp
  ultimately have "recv_header_loop os_recv w c = (if st = SCRC_OK then recv_header_loop os_recv w' c' else Some (w', c', code st))"
    using r(1) by simp
  then show thesis using that r(2-5) by blast
qed

lemma recv_status_ok:
  assumes laws: "recv_laws inp patience os_recv" "recv_reliable os_recv" and ok: "conn_ok c"
    and av: "avail inp w c = status_message st @ rest" and room: "line_room c 16"
  shows "\<exists>w' c'. recv_header os_recv w c = Some (w', c', code st) \<and> conn_ok c' \<and> conn_body c' = False \<and>
    avail inp w' c' = (if st = SCRC_OK then rest else ascii ''$$'' @ 10 # rest)"
proof -
  let ?c = "c\<lparr>conn_body := False\<rparr>"
  have d: "ascii ''$$'' @ 10 # rest = [36, 36, 10] @ rest" by (simp add: ascii_def)
  have a: "avail inp w ?c = ascii ''Status'' @ ascii '': '' @ print_lli (of_nat (status_value st)) @ 10 # (ascii ''$$'' @ 10 # rest)"
    using av unfolding d by (simp add: status_message_def)
  have rm: "line_room ?c (3 + 12)" "3 + 12 < HEADER_MAX" using room by (auto simp: line_room_def HEADER_MAX_def BUFSZ_def)
  have ok': "conn_ok ?c" using ok by simp
  obtain w1 c1 where r: "recv_header_loop os_recv w ?c = (if st = SCRC_OK then recv_header_loop os_recv w1 c1 else Some (w1, c1, code st))"
    "conn_ok c1" "same_conn ?c c1" "avail inp w1 c1 = ascii ''$$'' @ 10 # rest" "line_room c1 3"
    by (rule recv_status_line[OF laws ok' a rm])
  show ?thesis
  proof (cases "st = SCRC_OK")
    case True
    obtain w2 c2 where "recv_header_loop os_recv w1 c1 = Some (w2, c2, code SCRC_OK)" "conn_ok c2" "same_conn c1 c2" "avail inp w2 c2 = rest"
      by (rule recv_header_plain[OF laws r(2,4,5)])
    then show ?thesis using r True same_connD(6)[OF r(3)] same_connD(6)[of c1 c2] by (simp add: recv_header_def)
  next
    case False
    then show ?thesis using r same_connD(6)[OF r(3)] by (simp add: recv_header_def)
  qed
qed

lemma recv_body_header_ok:
  assumes laws: "recv_laws inp patience os_recv" "recv_reliable os_recv" and ok: "conn_ok c"
    and av: "avail inp w c = body_header @ rest" and room: "line_room c 26"
  obtains w' c' where "recv_header os_recv w c = Some (w', c', code SCRC_OK)" "conn_ok c'" "conn_body c'"
    "same_conn (c\<lparr>conn_body := True\<rparr>) c'" "avail inp w' c' = rest"
proof -
  let ?c = "c\<lparr>conn_body := False\<rparr>" and ?b = "ascii ''Body'' @ 58 # [32] @ ascii ''Yes'' @ 10 # (ascii ''$$'' @ 10 # rest)"
  have d: "ascii ''$$'' @ 10 # rest = [36, 36, 10] @ rest" "ascii '': '' = [58, 32]" by (simp_all add: ascii_def)
  have z: "of_nat (status_value SCRC_OK) = (0 :: i64)" by (simp add: status_value_def scrc_statuses_def)
  have a: "avail inp w ?c = ascii ''Status'' @ ascii '': '' @ print_lli (of_nat (status_value SCRC_OK)) @ 10 # ?b"
    using av unfolding d z by (simp add: body_header_def d)
  have rm: "line_room ?c (14 + 12)" "14 + 12 < HEADER_MAX" using room by (simp_all add: HEADER_MAX_def BUFSZ_def)
  have ok': "conn_ok ?c" using ok by simp
  obtain w1 c1 where r: "recv_header_loop os_recv w ?c = recv_header_loop os_recv w1 c1"
    "conn_ok c1" "same_conn ?c c1" "avail inp w1 c1 = ?b" "line_room c1 14"
    using recv_status_line[OF laws ok' a rm] by (metis (full_types))
  have w: "word_ok (ascii ''Body'')" "word_ok (ascii ''Yes'')" by (simp_all add: word_ok_def isspace_def ascii_def)
  have sp: "\<forall>x \<in> set [32 :: u8]. x = 32" by simp
  have rm2: "line_room c1 (length (ascii ''Body'') + length [32 :: u8] + length (ascii ''Yes'') + 2 + 3)"
    "length (ascii ''Body'') + length [32 :: u8] + length (ascii ''Yes'') + 2 + 3 < HEADER_MAX"
    using r(5) by (auto simp: line_room_def ascii_def HEADER_MAX_def BUFSZ_def)
  obtain w2 c2 where s: "recv_header_loop os_recv w1 c1 = (case header_step (ascii ''Body'') (Some (ascii ''Yes'')) (conn_body c1) of
        Inl ret \<Rightarrow> Some (w2, c2, ret) | Inr b \<Rightarrow> recv_header_loop os_recv w2 (c2\<lparr>conn_body := b\<rparr>))"
    "conn_ok c2" "same_conn c1 c2" "avail inp w2 c2 = ascii ''$$'' @ 10 # rest" "line_room c2 3"
    by (rule recv_header_pair[OF laws r(2,4) w sp rm2])
  have st: "header_step (ascii ''Body'') (Some (ascii ''Yes'')) (conn_body c1) = Inr True"
    by (simp add: header_step_def ascii_def)
  let ?c2 = "c2\<lparr>conn_body := True\<rparr>"
  have e: "conn_ok ?c2" "avail inp w2 ?c2 = ascii ''$$'' @ 10 # rest" "line_room ?c2 3" using s(2,4,5) by simp_all
  obtain w3 c3 where t: "recv_header_loop os_recv w2 ?c2 = Some (w3, c3, code SCRC_OK)" "conn_ok c3" "same_conn ?c2 c3" "avail inp w3 c3 = rest"
    by (rule recv_header_plain[OF laws e])
  have "same_conn (c\<lparr>conn_body := True\<rparr>) ?c2"
    using same_conn_body[OF same_conn_trans[OF r(3) s(3)], of True] by simp
  then have "same_conn (c\<lparr>conn_body := True\<rparr>) c3" using t(3) same_conn_trans by blast
  moreover have "conn_body c3" using same_connD(6)[OF t(3)] by simp
  moreover have "recv_header os_recv w c = Some (w3, c3, code SCRC_OK)"
    using r(1) s(1) st t(1) by (simp add: recv_header_def)
  ultimately show thesis using that t(2,4) by blast
qed

section \<open>A query\<close>

text \<open>The client's loop over the rows, each of \<open>n\<close> bytes.\<close>

partial_function (option) fetch_rows :: "'w os_recv \<Rightarrow> nat \<Rightarrow> 'w \<Rightarrow> conn \<Rightarrow> ('w \<times> conn \<times> u8 list list) option" where
  "fetch_rows os_recv n w c = Option.bind (scrc_fetch_row os_recv w c) (\<lambda>(w, c, ret, row).
     case row of Some (Some p) \<Rightarrow>
       Option.bind (fetch_rows os_recv n w c) (\<lambda>(w', c', rows). Some (w', c', read_at (conn_rbuf c) p n # rows))
     | _ \<Rightarrow> Some (w, c, []))"

lemma fetch_rows_ok:
  assumes laws: "recv_laws inp patience os_recv" "recv_reliable os_recv" and sz: "unat sz \<le> BUFSZ"
  shows "conn_ok c \<Longrightarrow> conn_body c \<Longrightarrow> avail inp w c = concat (map (row_message sz) rows) @ le_bytes 4 SCRC_CMD_END @ rest \<Longrightarrow>
    \<forall>r \<in> set rows. length r = unat sz \<Longrightarrow>
    \<exists>w' c'. fetch_rows os_recv (unat sz) w c = Some (w', c', rows) \<and> conn_ok c' \<and> conn_status c' = code SCRC_OK \<and> avail inp w' c' = rest"
proof (induction rows arbitrary: w c)
  case Nil
  have av: "avail inp w c = le_bytes 4 SCRC_CMD_END @ rest" using Nil.prems(3) by simp
  obtain w' c' where "recv_row os_recv w c = Some (w', c', code SCRC_END, None)" "conn_ok c'" "same_conn c c'" "avail inp w' c' = rest"
    by (rule recv_row_end[OF laws Nil.prems(1) av])
  then show ?case using Nil.prems(2) by (subst fetch_rows.simps) (simp add: scrc_fetch_row_def)
next
  case (Cons r rows)
  have av: "avail inp w c = row_message sz r @ concat (map (row_message sz) rows) @ le_bytes 4 SCRC_CMD_END @ rest"
    using Cons.prems(3) by simp
  have l: "length r = unat sz" using Cons.prems(4) by simp
  obtain w1 c1 p where r: "recv_row os_recv w c = Some (w1, c1, code SCRC_OK, Some p)" "conn_ok c1" "same_conn c c1"
    "avail inp w1 c1 = concat (map (row_message sz) rows) @ le_bytes 4 SCRC_CMD_END @ rest"
    "read_at (conn_rbuf c1) p (unat sz) = r" "p + unat sz \<le> length (conn_rbuf c1)"
    by (rule recv_row_ok[OF laws Cons.prems(1) av l sz])
  let ?c1 = "c1\<lparr>conn_status := code SCRC_OK\<rparr>"
  have "conn_ok ?c1" "conn_body ?c1" "avail inp w1 ?c1 = concat (map (row_message sz) rows) @ le_bytes 4 SCRC_CMD_END @ rest"
    using r(2,4) same_connD(6)[OF r(3)] Cons.prems(2) by simp_all
  from Cons.IH[OF this] Cons.prems(4) obtain w' c' where
    ih: "fetch_rows os_recv (unat sz) w1 ?c1 = Some (w', c', rows)" "conn_ok c'" "conn_status c' = code SCRC_OK" "avail inp w' c' = rest"
    by auto
  have "scrc_fetch_row os_recv w c = Some (w1, ?c1, code SCRC_OK, Some (Some p))"
    using r(1) Cons.prems(2) by (simp add: scrc_fetch_row_def code_values)
  then show ?case using ih r(5) by (subst fetch_rows.simps) simp
qed

lemma scrc_query_table:
  assumes laws: "recv_laws inp patience os_recv" "recv_reliable os_recv"
    and ok: "conn_ok c" "conn_status c = code SCRC_OK" "line_room c 26"
    and sent: "send_query os_send w c q = Some (w1, code SCRC_OK)"
    and av: "avail inp w1 c = body_header @ table_message cols @ rest" and cols: "\<forall>b \<in> set cols. length b = 40"
  shows "\<exists>w' c'. scrc_query os_send os_recv w c (Some q) = Some (w', c', code SCRC_OK) \<and> conn_ok c' \<and> conn_body c' \<and>
    conn_columns c' = cols \<and> avail inp w' c' = rest"
proof -
  let ?c = "c\<lparr>conn_columns := []\<rparr>"
  have c0: "conn_ok ?c" "line_room ?c 26" "avail inp w1 ?c = body_header @ table_message cols @ rest" using ok av by simp_all
  have sq: "send_query os_send w ?c q = Some (w1, code SCRC_OK)" using sent by (simp add: send_query_def split: if_splits)
  obtain w2 c2 where h: "recv_header os_recv w1 ?c = Some (w2, c2, code SCRC_OK)" "conn_ok c2" "conn_body c2"
    "same_conn (?c\<lparr>conn_body := True\<rparr>) c2" "avail inp w2 c2 = table_message cols @ rest"
    by (rule recv_body_header_ok[OF laws c0(1,3,2)])
  have a: "avail inp w2 c2 = le_bytes 4 SCRC_CMD_TABHEADER @ concat (map (row_message 40) cols) @
      le_bytes 4 SCRC_CMD_END @ le_bytes 4 SCRC_CMD_TABDATA @ rest" using h(5) by (simp add: table_message_def)
  obtain w3 c3 where t: "recv_cmd os_recv w2 c2 0 = Some (w3, c3, code SCRC_OK, SCRC_CMD_TABHEADER)" "conn_ok c3" "same_conn c2 c3"
    "avail inp w3 c3 = concat (map (row_message 40) cols) @ le_bytes 4 SCRC_CMD_END @ le_bytes 4 SCRC_CMD_TABDATA @ rest"
    by (rule recv_cmd_ok[OF laws h(2) a])
  from recv_columns_ok[OF laws t(2,4) cols] obtain w4 c4 where
    k: "recv_columns os_recv w3 c3 = Some (w4, c4, code SCRC_OK)" "conn_ok c4" "same_link c3 c4"
    "conn_columns c4 = conn_columns c3 @ cols" "avail inp w4 c4 = le_bytes 4 SCRC_CMD_TABDATA @ rest" by blast
  obtain w5 c5 where d: "recv_cmd os_recv w4 c4 0 = Some (w5, c5, code SCRC_OK, SCRC_CMD_TABDATA)" "conn_ok c5" "same_conn c4 c5"
    "avail inp w5 c5 = rest"
    by (rule recv_cmd_ok[OF laws k(2,5)])
  have "conn_columns c3 = []" using same_connD(5)[OF t(3)] same_connD(5)[OF h(4)] by simp
  then have cc: "conn_columns c5 = cols" using same_connD(5)[OF d(3)] k(4) by simp
  have b: "conn_body c5" using same_connD(6)[OF d(3)] k(3) same_connD(6)[OF t(3)] h(3) by (simp add: same_link_def)
  have x: "expect_cmd SCRC_CMD_TABHEADER SCRC_CMD_TABHEADER = code SCRC_OK" "expect_cmd SCRC_CMD_TABDATA SCRC_CMD_TABDATA = code SCRC_OK"
    by (simp_all add: expect_cmd_def)
  have "scrc_query os_send os_recv w c (Some q) = Some (w5, c5\<lparr>conn_status := code SCRC_OK\<rparr>, code SCRC_OK)"
    using ok(2) sq h(1,3) t(1) k(1) d(1) by (simp add: scrc_query_def x conn_ret_def)
  then show ?thesis using d(2,4) cc b by simp
qed

section \<open>From the server to the client\<close>

lemma shown_columns_length: "header_room h \<Longrightarrow> length pad = 6 \<Longrightarrow> b \<in> set (shown_columns pad h) \<Longrightarrow> length b = 40"
  using length_column_bytes by (auto simp: shown_columns_def header_room_def hgrid_wf_def grid_list_def dest!: in_set_takeD)

text \<open>
  C3: As long as neither side's socket fails and the client's receive buffer is not compacted
  inside the header line (16 bytes of room, or a buffer that was read to its end; otherwise
  the line can be misread, scrc.c:542), every status the server sends with session_send_status
  is the status that the client's recv_header returns; after SCRS_OK the client has consumed
  the message, after an error the terminating line of the header is still unread.
\<close>

theorem status_reaches_client:
  assumes "send_laws out patience os_send" and "send_reliable os_send" and "session_ok sn"
    and "recv_laws inp patience' os_recv" and "recv_reliable os_recv" and "conn_ok c" and "line_room c 16"
  shows "\<exists>w' sn' m. session_send_status os_send w sn st = Some (w', sn') \<and> out w' (client_fd sn) = session_stream out w sn @ m \<and>
    (\<forall>wc rest. avail inp wc c = m @ rest \<longrightarrow>
      (\<exists>wc' c'. recv_header os_recv wc c = Some (wc', c', code st) \<and> conn_body c' = False \<and>
        avail inp wc' c' = (if st = SCRC_OK then rest else ascii ''$$'' @ 10 # rest)))"
proof -
  obtain w' sn' where s: "session_send_status os_send w sn st = Some (w', sn')" "sent_out out w sn (status_message st) w' sn'"
    using send_status_delivers[OF assms(1-3)] by blast
  then have "out w' (client_fd sn) = session_stream out w sn @ status_message st" by (simp add: sent_out_def)
  then show ?thesis using s(1) recv_status_ok[OF assms(4-6) _ assms(7)] by blast
qed

text \<open>
  C2: As long as neither side's socket fails: let a session with an open transaction run a
  SELECT on a table that find_relation finds, whose pages all have rows, each shorter than the
  send buffer, and whose WHERE part, if it has one, gives a truth value (no type mismatch) on
  every row the transaction sees and meets at least one such row; let the client's connection
  have status OK and room for the header lines in its receive buffer, so that it is not
  compacted inside a line (scrc.c:542). Then the SELECT ends with 0 and leaves the database as
  the lookup left it, and what it sends, however the sockets split or interrupt it, lets the
  client's scrc_query return OK with exactly the table's columns that are not hidden and the
  client's fetches return exactly the rows that the transaction sees and whose WHERE part
  holds, in order, and then the end, with every byte consumed.
\<close>

theorem select_reaches_client:
  assumes "send_laws out patience os_send" and "send_reliable os_send" and "session_ok sn" and "length pad = 6"
    and "select_ready sys ss d0 schema table names d gp h gs tr"
    and "\<forall>p \<in> set (visible_rows d tr h gs). \<exists>b. where_at (db_store d) (gp_header gp) tr e p = Some (Inr b)"
    and "e \<noteq> None \<longrightarrow> visible_rows d tr h gs \<noteq> []"
    and "recv_laws inp patience' os_recv" and "recv_reliable os_recv"
    and "conn_ok c" and "conn_status c = code SCRC_OK" and "line_room c 26"
  shows "\<exists>w' sn' m. exec_select os_send pad sys schema table names e d0 ss w sn = Some (d, ss, w', sn', 0) \<and>
    out w' (client_fd sn) = session_stream out w sn @ m \<and>
    (\<forall>wc wc1 rest. send_query cl_send wc c q = Some (wc1, code SCRC_OK) \<and> avail inp wc1 c = m @ rest \<longrightarrow>
      (\<exists>wc2 c2 wc3 c3. scrc_query cl_send os_recv wc c (Some q) = Some (wc2, c2, code SCRC_OK) \<and>
        conn_columns c2 = shown_columns pad h \<and>
        fetch_rows os_recv (unat (hgrid_get_row_size h)) wc2 c2 = Some (wc3, c3,
          map (row_of (db_store d)) (filter (selected d (gp_header gp) tr e) (visible_rows d tr h gs))) \<and>
        conn_status c3 = code SCRC_OK \<and> avail inp wc3 c3 = rest))"
proof -
  let ?sz = "hgrid_get_row_size h"
  let ?rows = "map (row_of (db_store d)) (filter (selected d (gp_header gp) tr e) (visible_rows d tr h gs))"
  let ?m = "select_message (shown_columns pad h) ?sz ?rows"
  obtain w' sn' where s: "exec_select os_send pad sys schema table names e d0 ss w sn = Some (d, ss, w', sn', 0)"
    "sent_out out w sn ?m w' sn'"
    using exec_select_sends[OF assms(1-7)] by blast
  have r: "header_room h" "rows_full (db_store d) h (positions (db_store d) gs 0)" using assms(5) by (auto simp: select_ready_def)
  then have sz: "unat ?sz \<le> BUFSZ" by (simp add: rows_full_def SENDBUFSZ_def BUFSZ_def)
  have l: "\<forall>r \<in> set ?rows. length r = unat ?sz" using r(2) by (auto simp: rows_full_def visible_rows_def)
  have cols: "\<forall>b \<in> set (shown_columns pad h). length b = 40" using shown_columns_length[OF r(1) assms(4)] by blast
  have "\<exists>wc2 c2 wc3 c3. scrc_query cl_send os_recv wc c (Some q) = Some (wc2, c2, code SCRC_OK) \<and>
        conn_columns c2 = shown_columns pad h \<and> fetch_rows os_recv (unat ?sz) wc2 c2 = Some (wc3, c3, ?rows) \<and>
        conn_status c3 = code SCRC_OK \<and> avail inp wc3 c3 = rest"
    if q: "send_query cl_send wc c q = Some (wc1, code SCRC_OK)" and av: "avail inp wc1 c = ?m @ rest" for wc wc1 rest
  proof -
    have av': "avail inp wc1 c = body_header @ table_message (shown_columns pad h) @
        concat (map (row_message ?sz) ?rows) @ le_bytes 4 SCRC_CMD_END @ rest"
      using av by (simp add: select_message_def)
    obtain wc2 c2 where a: "scrc_query cl_send os_recv wc c (Some q) = Some (wc2, c2, code SCRC_OK)" "conn_ok c2" "conn_body c2"
      "conn_columns c2 = shown_columns pad h" "avail inp wc2 c2 = concat (map (row_message ?sz) ?rows) @ le_bytes 4 SCRC_CMD_END @ rest"
      using scrc_query_table[OF assms(8-12) q av' cols] by blast
    from fetch_rows_ok[OF assms(8,9) sz a(2,3,5) l] a(1,4) show ?thesis by blast
  qed
  moreover have "out w' (client_fd sn) = session_stream out w sn @ ?m" using s(2) by (simp add: sent_out_def)
  ultimately show ?thesis using s(1) by blast
qed

section \<open>A small exchange\<close>

text \<open>The small database with two row versions, one of them deleted; the client takes all it is given at once.\<close>

definition two_rows :: dgrid where
  "two_rows = small_grid 2 2 GC_MVCC 0 [put_bigint 5 @ put_bigint 0 @ [42, 0, 0, 0], put_bigint 5 @ put_bigint 5 @ [43, 0, 0, 0]]"

definition two_db :: db where
  "two_db = small_db\<lparr>db_store := small_store\<lparr>st_d := (st_d small_store)(5 \<mapsto> two_rows)\<rparr>\<rparr>"

definition big_send :: "'w os_send" where
  "big_send w fd buf = (w, Sent (length buf))"

abbreviation tran_five :: tran where
  "tran_five \<equiv> \<lparr>tr_key = 5, tr_autocommit = False\<rparr>"

definition n_above :: "i64 \<Rightarrow> expr" where
  "n_above k = Cmp OP_GT (Value (make_name (ascii ''n''))) (Value (make_bigint k))"

lemma two_facts:
  "small_system (db_store two_db)" "db_trans two_db = small_trans" "st_h (db_store two_db) 4 = Some small_header"
  "st_d (db_store two_db) 5 = Some two_rows" "db_tran two_db = \<lparr>tp_start = 0, tp_datum = [0]\<rparr>"
  by (simp_all add: two_db_def small_db_def small_system_def small_store_def)

lemma small_columns: "grid_list small_header = take 3 (g_rows small_header)"
  by (simp add: grid_list_def small_header_def small_grid_def)

lemma two_rows_list: "grid_list two_rows = [put_bigint 5 @ put_bigint 0 @ [42, 0, 0, 0], put_bigint 5 @ put_bigint 5 @ [43, 0, 0, 0]]"
  by (simp add: grid_list_def two_rows_def small_grid_def)

lemma small_tids:
  "row_tid small_header (put_bigint a @ put_bigint b @ bs) 0 = a" "row_tid small_header (put_bigint a @ put_bigint b @ bs) (Suc 0) = b"
  unfolding row_tid_def small_columns by (simp_all add: small_header_def small_grid_def sample_col_def read_at_def)

lemma two_page_rows: "page_rows (db_store two_db) 5 = grid_list two_rows"
  by (simp add: page_rows_def two_facts)

lemma two_positions: "positions (db_store two_db) [5] 0 = [(5, 0), (5, 1)]"
  by (simp add: page_len_def two_page_rows two_rows_list upt_rec)

lemma two_visible: "visible_rows two_db tran_five small_header [5] = [(5, 0)]"
proof -
  have "\<not> committed (db_tran two_db) 0" by (simp add: committed_def tran_flag_get_def two_facts)
  then show ?thesis unfolding visible_rows_def two_positions
    by (simp add: pos_visible_def two_page_rows two_rows_list row_visible_def small_tids sees_def)
qed

lemma small_header_room: "header_room small_header" "unat (hgrid_get_row_size small_header) = 20"
proof -
  have "hgrid_wf small_header" using small_header_facts(1) by (simp add: header_ok_def)
  then show "header_room small_header" unfolding header_room_def small_columns by (simp add: small_header_def small_grid_def)
  show "unat (hgrid_get_row_size small_header) = 20"
    by (simp add: hgrid_get_row_size_def align_up_def small_header_def small_grid_def)
qed

lemma two_select_ready:
  "select_ready small_sys small_sess two_db [115] [116] [ascii ''n''] two_db \<lparr>gp_header = 4, gp_data = 5\<rparr> small_header [5] tran_five"
proof -
  have wf: "hgrid_wf small_header" using small_header_room(1) by (simp add: header_room_def)
  have ok: "dgrid_ok small_header two_rows" using wf
    by (simp add: dgrid_ok_def) (simp add: two_rows_def small_header_def small_grid_def grid_inv_def)
  then have inv: "grid_inv two_rows" by (simp add: dgrid_ok_def)
  have fl: "has_flag (db_tran two_db) 5" "has_flag (db_tran two_db) 0" "\<not> committed (db_tran two_db) 0"
    by (simp_all add: has_flag_def tid_pos_def committed_def tran_flag_get_def two_facts)
  have "g_content two_rows = GC_MVCC" by (simp add: two_rows_def small_grid_def)
  then have "mvcc_page (db_tran two_db) tran_five (db_store two_db) small_header 5"
    using ok by (simp add: mvcc_page_def two_facts(4) two_rows_list row_ok_def small_tids fl)
  then have tb: "mvcc_table (db_tran two_db) tran_five (db_store two_db) 4 small_header [5]"
    using small_header_facts(2) fl(3) by (simp add: mvcc_table_def two_facts(3))
  have ch: "mesh_chain (db_store two_db) 5 [5]"
    using inv by (simp add: two_facts(4) GID_UNDEF_def) (simp add: two_rows_def small_grid_def)
  have idx: "column_indices small_header [ascii ''n''] \<noteq> None"
    by (simp add: column_indices_def hgrid_get_column_idx_def small_header_def small_grid_def sample_col_def cstring_def
        ascii_def NAMESZ_def grid_idx_is_valid_def GRID_INVALID_IDX_def)
  have full: "rows_full (db_store two_db) small_header (positions (db_store two_db) [5] 0)"
    unfolding two_positions by (simp add: rows_full_def row_of_def two_page_rows two_rows_list small_header_room(2) SENDBUFSZ_def)
  show ?thesis
    using tb ch idx full small_header_room(1) small_find_relation[OF two_facts(1,2)] small_sess_tran[OF two_facts(2)]
    by (simp add: select_ready_def two_page_rows two_rows_list GID_UNDEF_def)
qed

lemma small_find_n: "find_id small_header (ascii ''n'') 0 = Some (Some 2)"
proof -
  note d = small_header_def small_grid_def sample_col_def cstring_def ascii_def NAMESZ_def grid_get_row_def
  have "find_id small_header (ascii ''n'') 2 = Some (Some 2)" by (subst find_id.simps) (simp add: d)
  then have "find_id small_header (ascii ''n'') 1 = Some (Some 2)" by (subst find_id.simps) (simp add: d)
  then show ?thesis by (subst find_id.simps) (simp add: d)
qed

lemma two_where: "where_at (db_store two_db) 4 tran_five (Some (n_above 41)) (5, 0) = Some (Inr True)"
proof -
  let ?t = "row_titor 4 tran_five (5, 0)" and ?n = "\<lparr>dt_type = T_INTEGER, dt_size = 0, dt_int = 42, dt_chars = None\<rparr>"
  have "titor_is_valid (db_store two_db) ?t = Some True"
    by (simp add: titor_is_valid_def mitor_is_valid_def titor_content_def row_titor_def two_facts(4) GID_UNDEF_def)
      (simp add: two_rows_def small_grid_def)
  moreover have "titor_get_datum (db_store two_db) ?t 2 = Some ?n"
    by (simp add: titor_get_datum_def mitor_get_datum_def row_titor_def two_facts(3,4))
      (simp add: grid_get_datum_def grid_get_cell_def hgrid_get_column_def grid_get_row_def cell_read_def read_at_def
        two_rows_def small_header_def small_grid_def sample_col_def get_integer_def)
  ultimately have "eval_value (db_store two_db) ?t (make_name (ascii ''n'')) = Some ?n"
    using small_find_n by (simp add: eval_value_def make_name_def) (simp add: row_titor_def two_facts(3))
  moreover have "eval_value (db_store two_db) ?t (make_bigint 41) = Some (make_bigint 41)"
    by (simp add: eval_value_def make_bigint_def)
  moreover have "compare_data OP_GT ?n (make_bigint 41) = Some (Inr True)"
    by (simp add: check_that_def data_comparable_def get_type_group_def make_bigint_def result_def gt_data_def cmp_data_def
        cmp_integer_def assert_that_def to_base_type_def integer2bigint_def dt_integer_def)
  ultimately show ?thesis
    by (simp add: where_at_def eval_where_def n_above_def exec_bind_def result_def)
qed

lemma big_send_query: "send_query big_send w c (ascii ''select'') = Some (w, code SCRC_OK)"
proof -
  have e: "scrc_send_loop big_send w fd bs (length bs) = Some (w, code SCRC_OK)" for bs :: "u8 list" and fd
    by (subst scrc_send_loop.simps) simp
  then have l: "scrc_send_loop big_send w fd bs 0 = Some (w, code SCRC_OK)" for bs :: "u8 list" and fd
    by (subst scrc_send_loop.simps) (simp add: big_send_def)
  have "length (ascii ''select'' @ [10] @ ascii ''$$'' @ [10]) < BUFSZ" "ascii ''select'' \<noteq> []" by (simp_all add: ascii_def BUFSZ_def)
  then show ?thesis by (simp add: send_query_def send_printed_def l)
qed

theorem status_reaches_client_witness:
  "\<exists>w' sn' m wc' c'. session_send_status slow_send (\<lambda>_. [], 0) fresh_session SCRS_UNKNOWN_RELATION = Some (w', sn') \<and>
     fst w' 4 = m \<and> recv_header slow_recv (\<lambda>_. m, 0) fresh_conn = Some (wc', c', 108)"
proof -
  have room: "line_room fresh_conn 16" by (rule fresh_conn_ok(3)) (simp add: HEADER_MAX_def BUFSZ_def)
  obtain w' sn' m where a: "session_send_status slow_send (\<lambda>_. [], 0) fresh_session SCRS_UNKNOWN_RELATION = Some (w', sn')"
    "fst w' (client_fd fresh_session) = session_stream fst (\<lambda>_. [], 0 :: nat) fresh_session @ m"
    and b: "\<forall>wc rest. avail fst wc fresh_conn = m @ rest \<longrightarrow>
      (\<exists>wc' c'. recv_header slow_recv wc fresh_conn = Some (wc', c', code SCRS_UNKNOWN_RELATION) \<and> conn_body c' = False \<and>
        avail fst wc' c' = (if SCRS_UNKNOWN_RELATION = SCRC_OK then rest else ascii ''$$'' @ 10 # rest))"
    using status_reaches_client[OF slow_send_laws fresh_session_ok(1) slow_recv_laws fresh_conn_ok(1) room,
        where w = "(\<lambda>_. [], 0)" and st = SCRS_UNKNOWN_RELATION]
    by (elim exE conjE) (rule that)
  have "avail fst (\<lambda>_. m, 0) fresh_conn = m @ []" by (simp add: fresh_conn_ok(2))
  from b[rule_format, OF this] obtain wc' c' where
    "recv_header slow_recv (\<lambda>_. m, 0) fresh_conn = Some (wc', c', code SCRS_UNKNOWN_RELATION)" by blast
  moreover have "code SCRS_UNKNOWN_RELATION = 108" by (simp add: code_def status_value_def scrc_statuses_def scrs_statuses_def)
  ultimately show ?thesis using a fresh_session_ok(2,3) by auto
qed

theorem select_reaches_client_witness:
  "\<exists>w' sn' m wc2 c2 wc3 c3. exec_select slow_send [0, 0, 0, 0, 0, 0] small_sys [115] [116] [ascii ''n''] (Some (n_above 41)) two_db small_sess
       (\<lambda>_. [], 0) fresh_session = Some (two_db, small_sess, w', sn', 0) \<and> fst w' 4 = m \<and>
     scrc_query big_send slow_recv (\<lambda>_. m, 0) fresh_conn (Some (ascii ''select'')) = Some (wc2, c2, code SCRC_OK) \<and>
     fetch_rows slow_recv 20 wc2 c2 = Some (wc3, c3, [put_bigint 5 @ put_bigint 0 @ [42, 0, 0, 0]])"
proof -
  let ?w = "(\<lambda>_. [], 0) :: (i32 \<Rightarrow> u8 list) \<times> nat" and ?pad = "[0, 0, 0, 0, 0, 0] :: u8 list" and ?e = "Some (n_above 41)"
  have pad: "length ?pad = 6" by simp
  have wh: "\<forall>p \<in> set (visible_rows two_db tran_five small_header [5]).
      \<exists>b. where_at (db_store two_db) (gp_header \<lparr>gp_header = 4, gp_data = 5\<rparr>) tran_five ?e p = Some (Inr b)"
    using two_where unfolding two_visible by simp blast
  have ne: "?e \<noteq> None \<longrightarrow> visible_rows two_db tran_five small_header [5] \<noteq> []" by (simp add: two_visible)
  have room: "line_room fresh_conn 26" by (rule fresh_conn_ok(3)) (simp add: HEADER_MAX_def BUFSZ_def)
  have st: "conn_status fresh_conn = code SCRC_OK" by (simp add: fresh_conn_def)
  let ?rows = "map (row_of (db_store two_db)) (filter (selected two_db (gp_header \<lparr>gp_header = 4, gp_data = 5\<rparr>) tran_five ?e)
      (visible_rows two_db tran_five small_header [5]))"
  obtain w' sn' m where a: "exec_select slow_send ?pad small_sys [115] [116] [ascii ''n''] ?e two_db small_sess ?w fresh_session =
      Some (two_db, small_sess, w', sn', 0)" "fst w' (client_fd fresh_session) = session_stream fst ?w fresh_session @ m"
    and b: "\<forall>wc wc1 rest. send_query big_send wc fresh_conn (ascii ''select'') = Some (wc1, code SCRC_OK) \<and> avail fst wc1 fresh_conn = m @ rest \<longrightarrow>
      (\<exists>wc2 c2 wc3 c3. scrc_query big_send slow_recv wc fresh_conn (Some (ascii ''select'')) = Some (wc2, c2, code SCRC_OK) \<and>
        conn_columns c2 = shown_columns ?pad small_header \<and>
        fetch_rows slow_recv (unat (hgrid_get_row_size small_header)) wc2 c2 = Some (wc3, c3, ?rows) \<and>
        conn_status c3 = code SCRC_OK \<and> avail fst wc3 c3 = rest)"
    using select_reaches_client[OF slow_send_laws fresh_session_ok(1) pad two_select_ready wh ne slow_recv_laws fresh_conn_ok(1) st room,
        where w = ?w and cl_send = big_send and q = "ascii ''select''"]
    by (elim exE conjE) (rule that)
  have "?rows = [put_bigint 5 @ put_bigint 0 @ [42, 0, 0, 0]]"
    using two_where by (simp add: two_visible selected_def row_of_def two_page_rows two_rows_list)
  moreover have "send_query big_send (\<lambda>_. m, 0) fresh_conn (ascii ''select'') = Some ((\<lambda>_. m, 0), code SCRC_OK)"
    by (rule big_send_query)
  moreover have "avail fst (\<lambda>_. m, 0) fresh_conn = m @ []" by (simp add: fresh_conn_ok(2))
  ultimately obtain wc2 c2 wc3 c3 where "scrc_query big_send slow_recv (\<lambda>_. m, 0) fresh_conn (Some (ascii ''select'')) = Some (wc2, c2, code SCRC_OK)"
    "fetch_rows slow_recv 20 wc2 c2 = Some (wc3, c3, [put_bigint 5 @ put_bigint 0 @ [42, 0, 0, 0]])"
    using b small_header_room(2) by metis
  moreover have "fst w' 4 = m" using a(2) fresh_session_ok(2,3) by simp
  ultimately show ?thesis using a(1) by blast
qed

end
