(* ===== verification/Scr_Client_Laws.thy ===== *)
theory Scr_Client_Laws
  imports Scr_Client Scr_Protocol_Laws
begin

text \<open>
  What the console client prints: the answer to a SELECT appears as the titles of the
  columns and one line for each row, its cells formatted by their types. And what it sends: a
  statement goes up to the line of its first semicolon outside texts and comments.
\<close>

section \<open>The text of a table\<close>

definition cell_text :: "column \<Rightarrow> u8 list \<Rightarrow> u8 list" where
  "cell_text col r = (let bytes = (\<lambda>n. read_at r (unat (col_offs col)) n) in
     case col_type col of
       T_SMALLINT \<Rightarrow> [124] @ print_padded 5 (sint (get_smallint (bytes 2)))
     | T_INTEGER \<Rightarrow> [124] @ print_padded 10 (sint (get_integer (bytes 4)))
     | T_BIGINT \<Rightarrow> [124] @ print_padded 19 (sint (get_bigint (bytes 8)))
     | T_CHAR \<Rightarrow> [124] @ bytes (unat (col_size col))
     | T_VARCHAR \<Rightarrow> [124] @ bytes (unat (col_size col))
     | _ \<Rightarrow> ascii ''|--Unknown type--'' @ [10])"

definition row_text :: "column list \<Rightarrow> u8 list \<Rightarrow> u8 list" where
  "row_text cols r = concat (map (\<lambda>col. cell_text col r) cols) @ [124, 10]"

definition title_width :: "column \<Rightarrow> nat" where
  "title_width col = (case col_type col of T_SMALLINT \<Rightarrow> 5 | T_INTEGER \<Rightarrow> 10 | T_BIGINT \<Rightarrow> 19
     | T_CHAR \<Rightarrow> unat (col_size col) | T_VARCHAR \<Rightarrow> unat (col_size col) | _ \<Rightarrow> 0)"

text \<open>A column the client can print: its cells hold its values.\<close>

definition printable :: "column \<Rightarrow> bool" where
  "printable col \<longleftrightarrow> name_ok col \<and> stored_type (col_type col)"

text \<open>The name in a field of the width of the column.\<close>

definition title_text :: "column \<Rightarrow> u8 list" where
  "title_text col = (let shown = take (title_width col) (cname col) in
     [124] @ shown @ spaces (title_width col - length shown))"

definition table_text :: "column list \<Rightarrow> u8 list list \<Rightarrow> u8 list" where
  "table_text cols rows = (let titles = concat (map title_text cols); rule = replicate (length titles + 1) 45 @ [10] in
     titles @ [124, 10] @ rule @ concat (map (row_text cols) rows) @ rule @
     decimal (length rows) @ ascii '' lines received'' @ [10])"

section \<open>Columns as they arrive\<close>

lemma column_bytes_fields:
  assumes "printable c" "length pad = 6"
  shows "col_type_at (column_bytes pad c) = Some (col_type c)" "col_size_at (column_bytes pad c) = col_size c"
    "take 16 (column_bytes pad c) = col_name c" "le_word (read_at (column_bytes pad c) 16 8) = col_offs c"
proof -
  have l: "length (col_name c) = 16" using assms(1) by (simp add: printable_def name_ok_def NAMESZ_def)
  have r: "read_at (column_bytes pad c) 24 2 = le_bytes 2 (type_value (col_type c))"
    "read_at (column_bytes pad c) 32 8 = le_bytes 8 (col_size c)" "read_at (column_bytes pad c) 16 8 = le_bytes 8 (col_offs c)"
    using l assms(2) by (simp_all add: column_bytes_def read_at_def)
  show "col_type_at (column_bytes pad c) = Some (col_type c)"
    unfolding col_type_at_def r(1) using assms(1) by (auto simp: printable_def stored_type_def)
  show "col_size_at (column_bytes pad c) = col_size c" unfolding col_size_at_def r(2) by simp
  show "le_word (read_at (column_bytes pad c) 16 8) = col_offs c" unfolding r(3) by simp
  show "take 16 (column_bytes pad c) = col_name c" using l by (simp add: column_bytes_def)
qed

lemma column_title_ok:
  assumes "printable c" "length pad = 6"
  shows "column_title (column_bytes pad c) = Some (title_text c)"
proof -
  note f = column_bytes_fields[OF assms]
  have "0 \<in> set (col_name c)"
    using assms(1) last_in_set[of "col_name c"] by (fastforce simp: printable_def name_ok_def NAMESZ_def)
  moreover have "column_width (column_bytes pad c) = Some (title_width c)"
    by (simp add: column_width_def f title_width_def get_type_group_def split: sql_type.split)
  ultimately show ?thesis by (simp add: column_title_def f title_text_def cstring_def Let_def)
qed

lemma print_titles_ok:
  "\<forall>c \<in> set cols. printable c \<Longrightarrow> length pad = 6 \<Longrightarrow>
   print_titles (map (column_bytes pad) cols) = Some (concat (map title_text cols))"
  by (induction cols) (simp_all add: column_title_ok)

section \<open>Rows in the buffer\<close>

definition row_in :: "conn \<Rightarrow> nat \<Rightarrow> u8 list \<Rightarrow> bool" where
  "row_in c p r \<longleftrightarrow> read_at (conn_rbuf c) p (length r) = r \<and> p + length r \<le> length (conn_rbuf c)"

lemma row_in_bytes:
  assumes "row_in c p r" "o' + n \<le> length r"
  shows "cell_bytes_at c (Some (p + o')) n = Some (read_at r o' n)"
proof -
  have "read_at (conn_rbuf c) (p + o') n = read_at (read_at (conn_rbuf c) p (length r)) o' n"
    using assms(2) by (simp add: read_at_def drop_take min_absorb1 add.commute)
  then show ?thesis using assms by (simp add: cell_bytes_at_def row_in_def)
qed

lemma print_cell_ok:
  assumes "printable col" "length pad = 6" "row_in c p r" "col_end col \<le> length r"
  shows "print_cell c (column_bytes pad col) (Some (p + unat (col_offs col))) = Some (cell_text col r)"
proof -
  note f = column_bytes_fields[OF assms(1,2)]
  have b: "cell_bytes_at c (Some (p + unat (col_offs col))) n = Some (read_at r (unat (col_offs col)) n)" if "n \<le> col_width col" for n
    using row_in_bytes[OF assms(3)] assms(4) that by (simp add: col_end_def)
  show ?thesis
    using width_of_type[of col] b assms(1)
    by (auto simp: print_cell_def f cell_text_def get_type_group_def Let_def printable_def stored_type_def)
qed

lemma print_cells_ok:
  assumes pad: "length pad = 6" and row: "row_in c p r" and st: "conn_status c = code SCRC_OK"
  shows "\<forall>col \<in> set cols. printable col \<and> col_end col \<le> length r \<Longrightarrow>
    conn_columns c = map (column_bytes pad) (before @ cols) \<Longrightarrow>
    print_cells c (Some p) (length before) (map (column_bytes pad) cols) = Some (c, concat (map (\<lambda>col. cell_text col r) cols))"
proof (induction cols arbitrary: before)
  case (Cons col cols)
  have n: "printable col" "col_end col \<le> length r" using Cons.prems(1) by simp_all
  have "c\<lparr>conn_status := code SCRC_OK\<rparr> = c" using st by simp
  then have cell: "scrc_fetch_cell c (Some p) (length before) =
      (c, code SCRC_OK, Some (Some (p + unat (col_offs col)), col_size col))"
    using Cons.prems(2) column_bytes_fields[OF n(1) pad]
    by (simp add: scrc_fetch_cell_def nth_append col_size_at_def)
  have "print_cells c (Some p) (length (before @ [col])) (map (column_bytes pad) cols) =
      Some (c, concat (map (\<lambda>col. cell_text col r) cols))"
    by (rule Cons.IH) (use Cons.prems in simp_all)
  then show ?case using cell print_cell_ok[OF n(1) pad row n(2)] by simp
qed simp

lemma print_rows_ok:
  assumes laws: "recv_laws inp patience os_recv" "recv_reliable os_recv" and sz: "unat sz \<le> BUFSZ" and pad: "length pad = 6"
    and cols: "\<forall>col \<in> set cols. printable col \<and> col_end col \<le> unat sz"
  shows "conn_ok c \<Longrightarrow> conn_body c \<Longrightarrow> conn_columns c = map (column_bytes pad) cols \<Longrightarrow>
    avail inp w c = concat (map (row_message sz) rows) @ le_bytes 4 SCRC_CMD_END @ rest \<Longrightarrow>
    \<forall>r \<in> set rows. length r = unat sz \<Longrightarrow>
    \<exists>w' c'. print_rows os_recv w c row cnt = Some (w', c', code SCRC_OK, concat (map (row_text cols) rows), cnt + length rows) \<and>
      conn_ok c' \<and> conn_status c' = code SCRC_OK \<and> avail inp w' c' = rest"
proof (induction rows arbitrary: w c row cnt)
  case Nil
  have av: "avail inp w c = le_bytes 4 SCRC_CMD_END @ rest" using Nil.prems(4) by simp
  obtain w' c' where "recv_row os_recv w c = Some (w', c', code SCRC_END, None)" "conn_ok c'" "same_conn c c'" "avail inp w' c' = rest"
    by (rule recv_row_end[OF laws Nil.prems(1) av])
  then show ?case using Nil.prems(2) by (subst print_rows.simps) (simp add: scrc_fetch_row_def)
next
  case (Cons r rows)
  have av: "avail inp w c = row_message sz r @ concat (map (row_message sz) rows) @ le_bytes 4 SCRC_CMD_END @ rest"
    using Cons.prems(4) by simp
  have l: "length r = unat sz" using Cons.prems(5) by simp
  obtain w1 c1 p where r: "recv_row os_recv w c = Some (w1, c1, code SCRC_OK, Some p)" "conn_ok c1" "same_conn c c1"
    "avail inp w1 c1 = concat (map (row_message sz) rows) @ le_bytes 4 SCRC_CMD_END @ rest"
    "read_at (conn_rbuf c1) p (unat sz) = r" "p + unat sz \<le> length (conn_rbuf c1)"
    by (rule recv_row_ok[OF laws Cons.prems(1) av l sz])
  let ?c1 = "c1\<lparr>conn_status := code SCRC_OK\<rparr>"
  have c1: "conn_ok ?c1" "conn_body ?c1" "conn_columns ?c1 = map (column_bytes pad) cols"
    "avail inp w1 ?c1 = concat (map (row_message sz) rows) @ le_bytes 4 SCRC_CMD_END @ rest"
    using r(2,4) same_connD(5,6)[OF r(3)] Cons.prems(2,3) by simp_all
  have "row_in ?c1 p r" using r(5,6) l by (simp add: row_in_def)
  then have cells: "print_cells ?c1 (Some p) 0 (conn_columns ?c1) = Some (?c1, concat (map (\<lambda>col. cell_text col r) cols))"
    using print_cells_ok[OF pad, of ?c1 p r cols "[]"] cols l c1(3) by simp
  have "\<forall>r \<in> set rows. length r = unat sz" using Cons.prems(5) by simp
  from Cons.IH[OF c1 this, of "Some p" "cnt + 1"] obtain w' c' where
    ih: "print_rows os_recv w1 ?c1 (Some p) (cnt + 1) = Some (w', c', code SCRC_OK, concat (map (row_text cols) rows), cnt + 1 + length rows)"
    "conn_ok c'" "conn_status c' = code SCRC_OK" "avail inp w' c' = rest" by blast
  have "scrc_fetch_row os_recv w c = Some (w1, ?c1, code SCRC_OK, Some (Some p))"
    using r(1) Cons.prems(2) by (simp add: scrc_fetch_row_def code_values)
  then show ?case using ih cells by (subst print_rows.simps) (simp add: row_text_def)
qed

lemma print_response_body_ok:
  assumes laws: "recv_laws inp patience os_recv" "recv_reliable os_recv" and sz: "unat sz \<le> BUFSZ" and pad: "length pad = 6"
    and cols: "\<forall>col \<in> set cols. printable col \<and> col_end col \<le> unat sz"
    and c: "conn_ok c" "conn_body c" "conn_columns c = map (column_bytes pad) cols"
    and av: "avail inp w c = concat (map (row_message sz) rows) @ le_bytes 4 SCRC_CMD_END @ rest"
    and rows: "\<forall>r \<in> set rows. length r = unat sz"
  shows "\<exists>w' c'. print_response_body os_recv w c junk = Some (w', c', code SCRC_OK, table_text cols rows, []) \<and>
    conn_ok c' \<and> conn_status c' = code SCRC_OK \<and> avail inp w' c' = rest"
proof -
  have "\<forall>c \<in> set cols. printable c" using cols by simp
  note t = print_titles_ok[OF this pad, folded c(3)]
  from print_rows_ok[OF laws sz pad cols c av rows, of junk 0] obtain w' c' where
    "print_rows os_recv w c junk 0 = Some (w', c', code SCRC_OK, concat (map (row_text cols) rows), length rows)"
    "conn_ok c'" "conn_status c' = code SCRC_OK" "avail inp w' c' = rest" by auto
  then show ?thesis using t by (simp add: print_response_body_def table_text_def Let_def)
qed

section \<open>From the table to the terminal\<close>

definition shown :: "hgrid \<Rightarrow> column list" where
  "shown h = filter (\<lambda>c. \<not> column_hidden c) (grid_list h)"

lemma row_size_ge: "unat (g_datasz h) \<le> unat (hgrid_get_row_size h)"
proof -
  have "unat (ucast (g_datasz h) :: u64) = unat (g_datasz h)"
    using unat_u16_lt[of "g_datasz h"] by (simp add: unsigned_ucast_eq take_bit_nat_eq_self)
  then show ?thesis
    using align_up_bounds(1)[of 4 "ucast (g_datasz h)"] unat_u16_lt[of "g_datasz h"] by (simp add: hgrid_get_row_size_def)
qed

text \<open>
  C1: From end to end, as long as neither side's socket fails: let a session with an open
  transaction run a SELECT on a table that find_relation finds, whose pages all have rows,
  each shorter than the send buffer, and whose WHERE part, if it has one, gives a truth value
  (no type mismatch) on every row the transaction sees and meets at least one such row; let
  the client's connection have status OK and room for the header lines in its receive buffer,
  so that it is not compacted inside a line (scrc.c:542). Then the message the server sends
  makes the console client print, whatever the sockets split or interrupt, the titles of the
  shown columns and one line for each row the transaction sees and the WHERE part selects, its
  cells formatted by their types, and the number of rows.
\<close>

theorem select_reaches_terminal:
  assumes "send_laws out patience os_send" and "send_reliable os_send" and "session_ok sn" and "length pad = 6"
    and "select_ready sys ss d0 schema table names d gp h gs tr"
    and "\<forall>p \<in> set (visible_rows d tr h gs). \<exists>b. where_at (db_store d) (gp_header gp) tr e p = Some (Inr b)"
    and "e \<noteq> None \<longrightarrow> visible_rows d tr h gs \<noteq> []"
    and "\<forall>col \<in> set (shown h). stored_type (col_type col)"
    and "recv_laws inp patience' os_recv" and "recv_reliable os_recv"
    and "conn_ok c" and "conn_status c = code SCRC_OK" and "line_room c 26"
  shows "\<exists>w' sn' m. exec_select os_send pad sys schema table names e d0 ss w sn = Some (d, ss, w', sn', 0) \<and>
    out w' (client_fd sn) = session_stream out w sn @ m \<and>
    (\<forall>wc wc1 rest. send_query cl_send wc c (cl_query k) = Some (wc1, code SCRC_OK) \<and> avail inp wc1 c = m @ rest \<longrightarrow>
      (\<exists>wc' c'. run_query cl_send os_recv junk wc c k = Some (wc', c',
          put_out (table_text (shown h) (map (row_of (db_store d)) (filter (selected d (gp_header gp) tr e) (visible_rows d tr h gs)))) k,
          code SCRC_OK, True) \<and> conn_status c' = code SCRC_OK \<and> avail inp wc' c' = rest))"
proof -
  let ?sz = "hgrid_get_row_size h"
  let ?rows = "map (row_of (db_store d)) (filter (selected d (gp_header gp) tr e) (visible_rows d tr h gs))"
  let ?m = "select_message (shown_columns pad h) ?sz ?rows"
  obtain w' sn' where s: "exec_select os_send pad sys schema table names e d0 ss w sn = Some (d, ss, w', sn', 0)"
    "sent_out out w sn ?m w' sn'"
    using exec_select_sends[OF assms(1-7)] by blast
  have r: "header_room h" "rows_full (db_store d) h (positions (db_store d) gs 0)" using assms(5) by (auto simp: select_ready_def)
  then have sz: "unat ?sz \<le> BUFSZ" by (simp add: rows_full_def SENDBUFSZ_def BUFSZ_def)
  have l: "\<forall>r \<in> set ?rows. length r = unat ?sz" using r(2) by (auto simp: rows_full_def visible_rows_def)
  have cols: "\<forall>b \<in> set (shown_columns pad h). length b = 40" using shown_columns_length[OF r(1) assms(4)] by blast
  have sc: "shown_columns pad h = map (column_bytes pad) (shown h)" by (simp add: shown_columns_def shown_def)
  have fit: "\<forall>col \<in> set (shown h). printable col \<and> col_end col \<le> unat ?sz"
  proof
    fix col assume col: "col \<in> set (shown h)"
    then have m: "col \<in> set (grid_list h)" "col \<in> set (g_rows h)" by (auto simp: shown_def grid_list_def dest: in_set_takeD)
    then have "name_ok col" "col_end col \<le> unat (g_datasz h)" using r(1) by (auto simp: header_room_def hgrid_wf_def)
    then show "printable col \<and> col_end col \<le> unat ?sz" using assms(8) col row_size_ge[of h] by (auto simp: printable_def)
  qed
  have "\<exists>wc' c'. run_query cl_send os_recv junk wc c k = Some (wc', c', put_out (table_text (shown h) ?rows) k, code SCRC_OK, True) \<and>
      conn_status c' = code SCRC_OK \<and> avail inp wc' c' = rest"
    if q: "send_query cl_send wc c (cl_query k) = Some (wc1, code SCRC_OK)" and av: "avail inp wc1 c = ?m @ rest" for wc wc1 rest
  proof -
    have av': "avail inp wc1 c = body_header @ table_message (shown_columns pad h) @
        concat (map (row_message ?sz) ?rows) @ le_bytes 4 SCRC_CMD_END @ rest"
      using av by (simp add: select_message_def)
    obtain wc2 c2 where a: "scrc_query cl_send os_recv wc c (Some (cl_query k)) = Some (wc2, c2, code SCRC_OK)" "conn_ok c2" "conn_body c2"
      "conn_columns c2 = shown_columns pad h" "avail inp wc2 c2 = concat (map (row_message ?sz) ?rows) @ le_bytes 4 SCRC_CMD_END @ rest"
      using scrc_query_table[OF assms(9-13) q av' cols] by blast
    from print_response_body_ok[OF assms(9,10) sz assms(4) fit a(2,3) a(4)[unfolded sc] a(5) l, of junk]
    obtain wc3 c3 where "print_response_body os_recv wc2 c2 junk = Some (wc3, c3, code SCRC_OK, table_text (shown h) ?rows, [])"
      "conn_status c3 = code SCRC_OK" "avail inp wc3 c3 = rest" by blast
    then show ?thesis using a(1,3) by (simp add: run_query_def put_err_def)
  qed
  moreover have "out w' (client_fd sn) = session_stream out w sn @ ?m" using s(2) by (simp add: sent_out_def)
  ultimately show ?thesis using s(1) by blast
qed

section \<open>Collecting a query\<close>

lemma semicolon_steps:
  "in_comment s \<Longrightarrow>
    line_has_semicolon (c # p) s = line_has_semicolon p (if c = 10 then s\<lparr>in_comment := False\<rparr> else s)"
  "\<not> in_comment s \<Longrightarrow> in_string s \<Longrightarrow> p \<noteq> [] \<Longrightarrow> line_has_semicolon (92 # p) s = line_has_semicolon (tl p) s"
  "\<not> in_comment s \<Longrightarrow> in_string s \<Longrightarrow> \<not> (c = 92 \<and> p \<noteq> []) \<Longrightarrow>
    line_has_semicolon (c # p) s = line_has_semicolon p (if c = quote s then s\<lparr>in_string := False\<rparr> else s)"
  "\<not> in_comment s \<Longrightarrow> \<not> in_string s \<Longrightarrow> c = 39 \<or> c = 34 \<Longrightarrow>
    line_has_semicolon (c # p) s = line_has_semicolon p (s\<lparr>in_string := True, quote := c\<rparr>)"
  "\<not> in_comment s \<Longrightarrow> \<not> in_string s \<Longrightarrow> p \<noteq> [] \<Longrightarrow> hd p = 45 \<Longrightarrow>
    line_has_semicolon (45 # p) s = line_has_semicolon (tl p) (s\<lparr>in_comment := True\<rparr>)"
  "\<not> in_comment s \<Longrightarrow> \<not> in_string s \<Longrightarrow> \<not> (c = 39 \<or> c = 34) \<Longrightarrow> \<not> (c = 45 \<and> p \<noteq> [] \<and> hd p = 45) \<Longrightarrow>
    line_has_semicolon (c # p) s = (if c = 59 then (True, s) else line_has_semicolon p s)"
  by auto

declare line_has_semicolon.simps(2) [simp del]

definition scan_then :: "bool \<times> scan \<Rightarrow> u8 list \<Rightarrow> bool \<times> scan" where
  "scan_then r b = (if fst r then r else line_has_semicolon b (snd r))"

lemma line_has_semicolon_append:
  "a = [] \<or> last a = 10 \<Longrightarrow> line_has_semicolon (a @ b) s = scan_then (line_has_semicolon a s) b"
proof (induction a arbitrary: s rule: length_induct)
  case (1 a)
  show ?case
  proof (cases a)
    case Nil
    then show ?thesis by (simp add: scan_then_def)
  next
    case (Cons c p)
    have p: "p = [] \<or> last p = 10" and c: "p = [] \<Longrightarrow> c = 10" using 1(2) Cons by (auto split: if_splits)
    have p': "tl p = [] \<or> last (tl p) = 10" using p by (cases p) (auto split: if_splits)
    have IH: "line_has_semicolon (p @ b) s' = scan_then (line_has_semicolon p s') b" for s'
      using 1(1) Cons p by fastforce
    have "length (tl p) < length a" using Cons by simp
    have IH': "line_has_semicolon (tl p @ b) s' = scan_then (line_has_semicolon (tl p) s') b" for s'
      by (rule 1(1)[rule_format]) fact+
    consider "in_comment s" | "\<not> in_comment s" "in_string s" "c = 92" "p \<noteq> []"
      | "\<not> in_comment s" "in_string s" "\<not> (c = 92 \<and> p \<noteq> [])"
      | "\<not> in_comment s" "\<not> in_string s" "c = 39 \<or> c = 34"
      | "\<not> in_comment s" "\<not> in_string s" "c = 45" "p \<noteq> []" "hd p = 45"
      | "\<not> in_comment s" "\<not> in_string s" "\<not> (c = 39 \<or> c = 34)" "\<not> (c = 45 \<and> p \<noteq> [] \<and> hd p = 45)"
      by blast
    then show ?thesis
    proof cases
      case 1
      show ?thesis unfolding Cons append_Cons semicolon_steps(1)[OF 1] by (rule IH)
    next
      case 2
      then have t: "p @ b \<noteq> []" "tl (p @ b) = tl p @ b" by simp_all
      note step = semicolon_steps(2)[OF 2(1,2)]
      show ?thesis unfolding Cons append_Cons 2(3) step[OF 2(4)] step[OF t(1)] t(2) by (rule IH')
    next
      case 3
      have t: "\<not> (c = 92 \<and> p @ b \<noteq> [])"
      proof (cases "p = []")
        case True
        show ?thesis by (simp add: c[OF True])
      qed (use 3(3) in simp)
      note step = semicolon_steps(3)[OF 3(1,2)]
      show ?thesis unfolding Cons append_Cons step[OF 3(3)] step[OF t] by (rule IH)
    next
      case 4
      show ?thesis unfolding Cons append_Cons semicolon_steps(4)[OF 4] by (rule IH)
    next
      case 5
      then have t: "p @ b \<noteq> []" "hd (p @ b) = 45" "tl (p @ b) = tl p @ b" by simp_all
      note step = semicolon_steps(5)[OF 5(1,2)]
      show ?thesis unfolding Cons append_Cons 5(3) step[OF 5(4,5)] step[OF t(1,2)] t(3) by (rule IH')
    next
      case 6
      then have t: "\<not> (c = 45 \<and> p @ b \<noteq> [] \<and> hd (p @ b) = 45)" using c by (cases p) auto
      note step = semicolon_steps(6)[OF 6(1-3)]
      show ?thesis unfolding Cons append_Cons step[OF 6(4)] step[OF t] IH by (simp add: scan_then_def)
    qed
  qed
qed

lemma script_lines_collect:
  "\<forall>l \<in> set ls. l \<noteq> [] \<and> last l = 10 \<Longrightarrow> line_has_semicolon (concat ls) (cl_scan k) = (False, s) \<Longrightarrow>
   length (cl_query k) + length (concat ls) < BUFFER_SIZE \<Longrightarrow>
   script_lines os_send os_recv junk (ls @ lines) w c k st =
     script_lines os_send os_recv junk lines w c (k\<lparr>cl_query := cl_query k @ concat ls, cl_scan := s\<rparr>) st"
proof (induction ls arbitrary: k)
  case Nil
  then show ?case by (cases k) auto
next
  case (Cons l ls)
  obtain f s1 where l: "line_has_semicolon l (cl_scan k) = (f, s1)" by (cases "line_has_semicolon l (cl_scan k)")
  have "line_has_semicolon (l @ concat ls) (cl_scan k) = scan_then (f, s1) (concat ls)"
    using Cons.prems(1) l by (simp add: line_has_semicolon_append)
  then have f: "\<not> f" "line_has_semicolon (concat ls) s1 = (False, s)"
    using Cons.prems(2) by (auto simp: scan_then_def split: if_splits)
  let ?k = "k\<lparr>cl_query := cl_query k @ l, cl_scan := s1\<rparr>"
  have "script_lines os_send os_recv junk (ls @ lines) w c ?k st =
     script_lines os_send os_recv junk lines w c (?k\<lparr>cl_query := cl_query ?k @ concat ls, cl_scan := s\<rparr>) st"
    by (rule Cons.IH) (use Cons.prems f in simp_all)
  then show ?case using l f(1) Cons.prems(3) by (simp add: append_line_def scan_line_def)
qed

text \<open>
  What a statement may hold before the semicolon that ends it: characters, single minus signs,
  texts between quotes of either kind with their escapes, and comments up to the end of the line.
\<close>

inductive text_body :: "u8 \<Rightarrow> u8 list \<Rightarrow> bool" for q :: u8 where
  body_end: "text_body q []"
| body_char: "c \<noteq> q \<Longrightarrow> c \<noteq> 92 \<Longrightarrow> text_body q t \<Longrightarrow> text_body q (c # t)"
| body_escape: "text_body q t \<Longrightarrow> text_body q (92 # c # t)"

inductive before_end :: "u8 list \<Rightarrow> bool" where
  be_start: "before_end []"
| be_char: "c \<notin> {39, 34, 45, 59} \<Longrightarrow> before_end p \<Longrightarrow> before_end (c # p)"
| be_minus: "p = [] \<or> hd p \<noteq> 45 \<Longrightarrow> before_end p \<Longrightarrow> before_end (45 # p)"
| be_text: "q \<in> {39, 34} \<Longrightarrow> text_body q t \<Longrightarrow> before_end p \<Longrightarrow> before_end (q # t @ q # p)"
| be_comment: "10 \<notin> set t \<Longrightarrow> before_end p \<Longrightarrow> before_end (45 # 45 # t @ 10 # p)"

lemma be_plain: "\<forall>c \<in> set xs. c \<notin> {39, 34, 45, 59} \<Longrightarrow> before_end p \<Longrightarrow> before_end (xs @ p)"
  by (induction xs) (auto intro: be_char)

definition scan_outside :: "scan \<Rightarrow> bool" where
  "scan_outside s \<longleftrightarrow> \<not> in_comment s \<and> \<not> in_string s"

lemma skip_text:
  "text_body q t \<Longrightarrow> q \<noteq> 92 \<Longrightarrow> \<not> in_comment s \<Longrightarrow> in_string s \<Longrightarrow> quote s = q \<Longrightarrow>
    line_has_semicolon (t @ q # p) s = line_has_semicolon p (s\<lparr>in_string := False\<rparr>)"
  by (induction t rule: text_body.induct) (auto simp: line_has_semicolon.simps(2))

lemma skip_comment:
  "10 \<notin> set t \<Longrightarrow> in_comment s \<Longrightarrow> line_has_semicolon (t @ 10 # p) s = line_has_semicolon p (s\<lparr>in_comment := False\<rparr>)"
  by (induction t) (auto simp: line_has_semicolon.simps(2))

text \<open>The scan of such a prefix finds nothing and is outside texts and comments behind it.\<close>

lemma scan_before_end:
  "before_end p \<Longrightarrow> scan_outside s \<Longrightarrow> r = [] \<or> hd r \<noteq> 45 \<Longrightarrow>
    \<exists>s'. scan_outside s' \<and> line_has_semicolon (p @ r) s = line_has_semicolon r s'"
proof (induction p arbitrary: s rule: before_end.induct)
  case be_start
  then show ?case by auto
next
  case (be_char c p)
  then have "line_has_semicolon ((c # p) @ r) s = line_has_semicolon (p @ r) s"
    by (auto simp: line_has_semicolon.simps(2) scan_outside_def)
  then show ?case using be_char by metis
next
  case (be_minus p)
  have "\<not> (p @ r \<noteq> [] \<and> hd (p @ r) = 45)" using be_minus by (cases p) auto
  then have "line_has_semicolon ((45 # p) @ r) s = line_has_semicolon (p @ r) s"
    using be_minus.prems(1) by (auto simp: line_has_semicolon.simps(2) scan_outside_def)
  then show ?case using be_minus by metis
next
  case (be_text q t p)
  let ?s = "s\<lparr>in_string := True, quote := q\<rparr>"
  have "line_has_semicolon ((q # t @ q # p) @ r) s = line_has_semicolon (t @ q # p @ r) ?s"
    using be_text by (auto simp: line_has_semicolon.simps(2) scan_outside_def)
  also have "\<dots> = line_has_semicolon (p @ r) (?s\<lparr>in_string := False\<rparr>)"
    by (rule skip_text) (use be_text in \<open>auto simp: scan_outside_def\<close>)
  finally show ?case using be_text.IH[of "?s\<lparr>in_string := False\<rparr>"] be_text.prems by (simp add: scan_outside_def)
next
  case (be_comment t p)
  let ?s = "s\<lparr>in_comment := True\<rparr>"
  have "line_has_semicolon ((45 # 45 # t @ 10 # p) @ r) s = line_has_semicolon (t @ 10 # p @ r) ?s"
    using be_comment by (auto simp: line_has_semicolon.simps(2) scan_outside_def)
  also have "\<dots> = line_has_semicolon (p @ r) (?s\<lparr>in_comment := False\<rparr>)"
    by (rule skip_comment) (use be_comment in auto)
  finally show ?case using be_comment.IH[of "?s\<lparr>in_comment := False\<rparr>"] be_comment.prems by (simp add: scan_outside_def)
qed

text \<open>A statement over several lines: the scan stops in the line of its semicolon, not before.\<close>

lemma scan_statement:
  assumes "\<forall>l \<in> set ls. l \<noteq> [] \<and> last l = 10" "scan_outside s" "before_end p"
    and "concat ls @ l = p @ 59 # r" "length (concat ls) \<le> length p"
  obtains s1 s2 where "line_has_semicolon (concat ls) s = (False, s1)" "line_has_semicolon l s1 = (True, s2)" "scan_outside s2"
proof -
  have nl: "concat ls = [] \<or> last (concat ls) = 10" using assms(1) by (induction ls) (auto simp: last_append)
  obtain s2 where s2: "scan_outside s2" "line_has_semicolon (p @ 59 # r) s = line_has_semicolon (59 # r) s2"
    using scan_before_end[OF assms(3,2), of "59 # r"] by auto
  have whole: "line_has_semicolon (concat ls @ l) s = (True, s2)"
    using s2 unfolding assms(4) by (simp add: line_has_semicolon.simps(2) scan_outside_def)
  obtain s3 where "line_has_semicolon (p @ []) s = line_has_semicolon [] s3" using scan_before_end[OF assms(3,2), of "[]"] by blast
  then have pre: "fst (line_has_semicolon p s) = False" by simp
  obtain x where "p = concat ls @ x" using assms(4,5) by (metis append_eq_append_conv_if append_take_drop_id)
  then have "fst (line_has_semicolon (concat ls) s) = False"
    using pre line_has_semicolon_append[OF nl, of x s] by (auto simp: scan_then_def split: if_splits)
  then obtain s1 where s1: "line_has_semicolon (concat ls) s = (False, s1)" by (cases "line_has_semicolon (concat ls) s") auto
  then have "line_has_semicolon l s1 = (True, s2)" using whole line_has_semicolon_append[OF nl, of l s] by (simp add: scan_then_def)
  then show thesis using that s1 s2(1) by blast
qed

text \<open>What follows when a query has been sent: its answer is received, and shown.\<close>

definition query_answer :: "'w os_recv \<Rightarrow> 'w \<Rightarrow> conn \<Rightarrow> ('w \<times> conn \<times> status) option" where
  "query_answer os_recv w c = do {
     (w, c, ret) \<leftarrow> recv_header os_recv w c;
     if ret \<noteq> code SCRC_OK then conn_ret w c ret
     else if \<not> conn_body c then Some (w, c, ret)
     else do {
       (w, c, ret, cmd) \<leftarrow> recv_cmd os_recv w c 0;
       if ret \<noteq> code SCRC_OK then conn_ret w c ret
       else if expect_cmd SCRC_CMD_TABHEADER cmd \<noteq> code SCRC_OK then conn_ret w c (expect_cmd SCRC_CMD_TABHEADER cmd)
       else do {
         (w, c, ret) \<leftarrow> recv_columns os_recv w c;
         if ret \<noteq> code SCRC_OK then conn_ret w c ret
         else do {
           (w, c, ret, cmd) \<leftarrow> recv_cmd os_recv w c 0;
           if ret \<noteq> code SCRC_OK then conn_ret w c ret
           else conn_ret w c (expect_cmd SCRC_CMD_TABDATA cmd) } } } }"

definition show_answer ::
    "'w os_recv \<Rightarrow> nat option \<Rightarrow> 'w \<Rightarrow> conn \<Rightarrow> client \<Rightarrow> ('w \<times> conn \<times> client \<times> status \<times> bool) option" where
  "show_answer os_recv junk w c k = do {
     (w, c, status) \<leftarrow> query_answer os_recv w c;
     if status \<noteq> code SCRC_OK
     then Some (w, c, put_err (ascii ''Error: '' @ ascii (scrc_error (conn_status c)) @ [10]) k, status, False)
     else if conn_body c then do {
       (w, c, status, out, err) \<leftarrow> print_response_body os_recv w c junk;
       Some (w, c, put_err err (put_out out k), status, True) }
     else Some (w, c, put_out (ascii ''Ok'' @ [10]) k, status, True) }"

lemma run_query_sent:
  assumes "send_laws out patience os_send" "send_reliable os_send" "conn_status c = code SCRC_OK"
    and "cl_query k \<noteq> []" "length (cl_query k) + 4 < BUFSZ"
  obtains w1 where "out w1 = (out w)(conn_sockfd c := out w (conn_sockfd c) @ cl_query k @ [10] @ ascii ''$$'' @ [10])"
    "run_query os_send os_recv junk w c k = show_answer os_recv junk w1 (c\<lparr>conn_columns := []\<rparr>) k"
proof -
  let ?q = "cl_query k @ [10] @ ascii ''$$'' @ [10]"
  have l: "length ?q < BUFSZ" using assms(5) by (simp add: ascii_def)
  obtain w1 where w1: "send_printed os_send w (conn_sockfd c) ?q = Some (w1, code SCRC_OK)"
    "out w1 = (out w)(conn_sockfd c := out w (conn_sockfd c) @ ?q)"
    by (rule send_printed_ok[OF assms(1,2) l])
  have "send_query os_send w (c\<lparr>conn_columns := []\<rparr>) (cl_query k) = Some (w1, code SCRC_OK)"
    using w1(1) assms(4) by (simp add: send_query_def)
  then have "scrc_query os_send os_recv w c (Some (cl_query k)) = query_answer os_recv w1 (c\<lparr>conn_columns := []\<rparr>)"
    using assms(3) by (simp add: scrc_query_def query_answer_def Let_def)
  then have "run_query os_send os_recv junk w c k = show_answer os_recv junk w1 (c\<lparr>conn_columns := []\<rparr>) k"
    by (simp add: run_query_def show_answer_def)
  then show thesis using that w1(2) by blast
qed

text \<open>
  C12: A statement in a script is its text up to the first semicolon outside comments and
  outside strings in either kind of quotes, however it is split into lines: starting with an
  empty query outside both, the client's script loop collects the lines of the statement up to
  the end of the line with that semicolon and sends exactly their bytes, unchanged and
  complete, followed by the line that ends a query, over a connection with status OK and any
  socket that obeys POSIX and keeps taking bytes, for a text under 64 KB; then it receives and
  shows the answer, is again outside comments and strings, and goes on with the next lines and
  an empty query, or stops when the query failed.
\<close>

theorem script_sends_query:
  assumes "send_laws out patience os_send" and "send_reliable os_send" and "conn_status c = code SCRC_OK"
    and "\<forall>l \<in> set ls. l \<noteq> [] \<and> last l = 10" and "cl_query k = []" and "scan_outside (cl_scan k)"
    and "concat ls @ l = p @ 59 # r" and "before_end p" and "length (concat ls) \<le> length p"
    and "length (concat ls @ l) + 4 < BUFSZ"
  shows "\<exists>w1 s. out w1 = (out w)(conn_sockfd c := out w (conn_sockfd c) @ concat ls @ l @ [10] @ ascii ''$$'' @ [10]) \<and> scan_outside s \<and>
    script_lines os_send os_recv junk (ls @ l # lines) w c k st = do {
      (w, c, k, st, ok) \<leftarrow> show_answer os_recv junk w1 (c\<lparr>conn_columns := []\<rparr>) (k\<lparr>cl_query := concat ls @ l, cl_scan := s\<rparr>);
      if ok then script_lines os_send os_recv junk lines w c (k\<lparr>cl_query := []\<rparr>) st else Some (w, c, k, st, False) }"
proof -
  obtain s1 s where s: "line_has_semicolon (concat ls) (cl_scan k) = (False, s1)" "line_has_semicolon l s1 = (True, s)" "scan_outside s"
    by (rule scan_statement[OF assms(4,6,8,7,9)])
  let ?k = "k\<lparr>cl_query := concat ls @ l, cl_scan := s\<rparr>"
  have sz: "length (concat ls) + length l < BUFFER_SIZE" using assms(10) by (simp add: BUFSZ_def BUFFER_SIZE_def)
  have "length (cl_query k) + length (concat ls) < BUFFER_SIZE" using sz assms(5) by simp
  from script_lines_collect[OF assms(4) s(1) this, of os_send os_recv junk "l # lines" w c st]
  have run: "script_lines os_send os_recv junk (ls @ l # lines) w c k st = do {
      (w, c, k, st, ok) \<leftarrow> run_query os_send os_recv junk w c ?k;
      if ok then script_lines os_send os_recv junk lines w c (k\<lparr>cl_query := []\<rparr>) st else Some (w, c, k, st, False) }"
    using s(2) sz assms(5) by (simp add: append_line_def scan_line_def)
  have q: "cl_query ?k \<noteq> []" "length (cl_query ?k) + 4 < BUFSZ" using assms(7,10) by simp_all
  obtain w1 where "out w1 = (out w)(conn_sockfd c := out w (conn_sockfd c) @ cl_query ?k @ [10] @ ascii ''$$'' @ [10])"
    "run_query os_send os_recv junk w c ?k = show_answer os_recv junk w1 (c\<lparr>conn_columns := []\<rparr>) ?k"
    by (rule run_query_sent[OF assms(1-3) q])
  then show ?thesis using run s(3) by (intro exI[of _ w1] exI[of _ s]) simp
qed

section \<open>At concrete input\<close>

text \<open>Two lines, with a semicolon in a comment, in a text and behind an escaped quote before the last.\<close>

definition sample_start :: "u8 list" where
  "sample_start = ascii ''select a '' @ 45 # 45 # ascii '' ;'' @ 10 # ascii ''from t.u where a = '' @ 39 # ascii '';'' @ 39 #
     ascii '' and b = '' @ 34 # [92, 34, 59] @ 34 # []"

definition sample_lines :: "u8 list list" where
  "sample_lines = [ascii ''select a -- ;'' @ [10], ascii ''from t.u where a = '' @ [39] @ ascii '';'' @ [39] @ ascii '' and b = '' @
     [34, 92, 34, 59, 34, 59, 10]]"

lemma sample_before_end: "before_end sample_start"
proof -
  have t: "text_body 39 (ascii '';'')" "text_body 34 [92, 34, 59]"
    by (auto simp: ascii_def intro!: body_end body_char body_escape)
  show ?thesis unfolding sample_start_def
    by (intro be_plain be_comment be_text[OF _ t(1)] be_text[OF _ t(2)] be_start) (simp_all add: ascii_def)
qed

theorem script_sends_query_witness:
  "\<exists>w1 s. fst w1 5 = concat sample_lines @ [10, 36, 36, 10] \<and>
    script_lines slow_send slow_recv None sample_lines (\<lambda>_. [], 0) fresh_conn client_start (code SCRC_OK) = do {
      (w, c, k, st, ok) \<leftarrow> show_answer slow_recv None w1 fresh_conn (client_start\<lparr>cl_query := concat sample_lines, cl_scan := s\<rparr>);
      if ok then Some (w, c, k\<lparr>cl_query := []\<rparr>, st, True) else Some (w, c, k, st, False) }"
proof -
  let ?w = "(\<lambda>_. [], 0) :: (i32 \<Rightarrow> u8 list) \<times> nat"
  let ?a = "sample_lines ! 0" and ?b = "sample_lines ! 1"
  have s: "sample_lines = [?a] @ ?b # []" by (simp add: sample_lines_def)
  have h: "\<forall>l \<in> set [?a]. l \<noteq> [] \<and> last l = 10" "cl_query client_start = []" "scan_outside (cl_scan client_start)"
    "concat [?a] @ ?b = sample_start @ 59 # [10]" "length (concat [?a]) \<le> length sample_start" "length (concat [?a] @ ?b) + 4 < BUFSZ"
    by (simp_all add: sample_lines_def sample_start_def client_start_def scan_start_def scan_outside_def ascii_def BUFSZ_def)
  have c: "conn_status fresh_conn = code SCRC_OK" "fresh_conn\<lparr>conn_columns := []\<rparr> = fresh_conn" "conn_sockfd fresh_conn = 5"
    by (simp_all add: fresh_conn_def)
  have cat: "concat [?a] @ ?b = concat sample_lines" by (simp add: sample_lines_def)
  obtain w1 s where w1: "fst w1 = (fst ?w)(5 := fst ?w 5 @ concat [?a] @ ?b @ [10] @ ascii ''$$'' @ [10])"
    "script_lines slow_send slow_recv None ([?a] @ ?b # []) ?w fresh_conn client_start (code SCRC_OK) = do {
      (w, c, k, st, ok) \<leftarrow> show_answer slow_recv None w1 fresh_conn (client_start\<lparr>cl_query := concat [?a] @ ?b, cl_scan := s\<rparr>);
      if ok then script_lines slow_send slow_recv None [] w c (k\<lparr>cl_query := []\<rparr>) st else Some (w, c, k, st, False) }"
    using script_sends_query[OF slow_send_laws c(1) h(1-4) sample_before_end h(5,6), of ?w slow_recv None "[]" "code SCRC_OK"]
    unfolding c(2,3) by (elim exE conjE) (rule that)
  have "fst w1 5 = concat sample_lines @ [10, 36, 36, 10]" using w1(1) unfolding cat[symmetric] by (simp add: ascii_def)
  moreover note w1(2)[unfolded cat s[symmetric]]
  ultimately show ?thesis by (intro exI[of _ w1] exI[of _ s]) (simp cong: if_cong)
qed

lemma small_shown_stored: "\<forall>col \<in> set (shown small_header). stored_type (col_type col)"
  by (simp add: shown_def small_header_def small_grid_def grid_list_def sample_col_def stored_type_def column_hidden_def)

lemma small_shown: "shown small_header = [sample_col ''n'' T_INTEGER 16 0]"
  unfolding shown_def small_columns column_hidden_def by (simp add: small_header_def small_grid_def sample_col_def ascii_def)

lemma small_text:
  "table_text (shown small_header) [put_bigint 5 @ put_bigint 0 @ [42, 0, 0, 0]] =
   ascii ''|n         |'' @ [10] @ ascii ''------------'' @ [10] @ ascii ''|        42|'' @ [10] @
   ascii ''------------'' @ [10] @ ascii ''1 lines received'' @ [10]"
proof -
  have w: "title_width (sample_col ''n'' T_INTEGER 16 0) = 10" "cname (sample_col ''n'' T_INTEGER 16 0) = ascii ''n''"
    by (simp_all add: title_width_def sample_col_def cstring_def NAMESZ_def ascii_def)
  have t: "title_text (sample_col ''n'' T_INTEGER 16 0) = ascii ''|n         ''"
    by (simp add: title_text_def w spaces_def ascii_def numeral_eq_Suc)
  have d: "decimal 42 = ascii ''42''" "decimal (Suc 0) = ascii ''1''" by (simp_all add: decimal.simps[of 42] decimal.simps[of 4] decimal.simps[of "Suc 0"] ascii_def)
  have p: "print_padded 10 42 = ascii ''        42''"
    by (simp add: print_padded_def d spaces_def ascii_def) (simp add: numeral_eq_Suc)
  have c: "cell_text (sample_col ''n'' T_INTEGER 16 0) (put_bigint 5 @ put_bigint 0 @ [42, 0, 0, 0]) =
      ascii ''|        42''"
    by (simp add: cell_text_def sample_col_def read_at_def get_integer_def p) (simp add: ascii_def)
  show ?thesis by (simp add: table_text_def small_shown row_text_def t c d ascii_def)
qed

theorem select_reaches_terminal_witness:
  "\<exists>w' sn' m wc' c'. exec_select slow_send [0, 0, 0, 0, 0, 0] small_sys [115] [116] [ascii ''n''] (Some (n_above 41)) two_db small_sess
       (\<lambda>_. [], 0) fresh_session = Some (two_db, small_sess, w', sn', 0) \<and> fst w' 4 = m \<and>
     run_query big_send slow_recv None (\<lambda>_. m, 0) fresh_conn (client_start\<lparr>cl_query := ascii ''select''\<rparr>) = Some (wc', c',
       put_out (ascii ''|n         |'' @ [10] @ ascii ''------------'' @ [10] @ ascii ''|        42|'' @ [10] @
         ascii ''------------'' @ [10] @ ascii ''1 lines received'' @ [10]) (client_start\<lparr>cl_query := ascii ''select''\<rparr>), code SCRC_OK, True)"
proof -
  let ?w = "(\<lambda>_. [], 0) :: (i32 \<Rightarrow> u8 list) \<times> nat" and ?pad = "[0, 0, 0, 0, 0, 0] :: u8 list" and ?e = "Some (n_above 41)"
  let ?k = "client_start\<lparr>cl_query := ascii ''select''\<rparr>"
  have pad: "length ?pad = 6" by simp
  have wh: "\<forall>p \<in> set (visible_rows two_db tran_five small_header [5]).
      \<exists>b. where_at (db_store two_db) (gp_header \<lparr>gp_header = 4, gp_data = 5\<rparr>) tran_five ?e p = Some (Inr b)"
    using two_where unfolding two_visible by simp blast
  have ne: "?e \<noteq> None \<longrightarrow> visible_rows two_db tran_five small_header [5] \<noteq> []" by (simp add: two_visible)
  have room: "line_room fresh_conn 26" by (rule fresh_conn_ok(3)) (simp add: HEADER_MAX_def BUFSZ_def)
  have st: "conn_status fresh_conn = code SCRC_OK" by (simp add: fresh_conn_def)
  let ?rows = "map (row_of (db_store two_db)) (filter (selected two_db (gp_header \<lparr>gp_header = 4, gp_data = 5\<rparr>) tran_five ?e)
      (visible_rows two_db tran_five small_header [5]))"
  obtain w' sn' m where a: "exec_select slow_send ?pad small_sys [115] [116] [ascii ''n''] ?e two_db small_sess ?w fresh_session =
      Some (two_db, small_sess, w', sn', 0)" "fst w' (client_fd fresh_session) = session_stream fst ?w fresh_session @ m"
    and b: "\<forall>wc wc1 rest. send_query big_send wc fresh_conn (cl_query ?k) = Some (wc1, code SCRC_OK) \<and> avail fst wc1 fresh_conn = m @ rest \<longrightarrow>
      (\<exists>wc' c'. run_query big_send slow_recv None wc fresh_conn ?k = Some (wc', c', put_out (table_text (shown small_header) ?rows) ?k,
          code SCRC_OK, True) \<and> conn_status c' = code SCRC_OK \<and> avail fst wc' c' = rest)"
    using select_reaches_terminal[OF slow_send_laws fresh_session_ok(1) pad two_select_ready wh ne small_shown_stored slow_recv_laws
        fresh_conn_ok(1) st room, where w = ?w and cl_send = big_send and k = ?k and junk = None]
    by (elim exE conjE) (rule that)
  have rows: "?rows = [put_bigint 5 @ put_bigint 0 @ [42, 0, 0, 0]]"
    using two_where by (simp add: two_visible selected_def row_of_def two_page_rows two_rows_list)
  have "send_query big_send (\<lambda>_. m, 0) fresh_conn (cl_query ?k) = Some ((\<lambda>_. m, 0), code SCRC_OK)"
    by (simp add: big_send_query)
  moreover have "avail fst (\<lambda>_. m, 0) fresh_conn = m @ []" by (simp add: fresh_conn_ok(2))
  ultimately obtain wc' c' where "run_query big_send slow_recv None (\<lambda>_. m, 0) fresh_conn ?k =
      Some (wc', c', put_out (table_text (shown small_header) ?rows) ?k, code SCRC_OK, True)"
    using b by metis
  moreover have "fst w' 4 = m" using a(2) fresh_session_ok(2,3) by simp
  ultimately show ?thesis using a(1) unfolding rows small_text by blast
qed

end
