(* ===== verification/Scr_Typing.thy ===== *)
theory Scr_Typing
  imports Scr_Protocol_Laws Scr_Type_Order
begin

text \<open>
  The type groups of expressions. The actions of \<^verbatim>\<open>src/scrs/execute.y\<close> check the
  groups of their operands on every row (\<open>check_op\<close>, \<open>check_arithmetical\<close>,
  \<open>check_lexical\<close>); here the groups are computed once, from the header of the table, and
  shown to decide on every row whether a check fails.
\<close>

section \<open>The groups of an expression\<close>

definition column_group :: "hgrid \<Rightarrow> u8 list \<Rightarrow> type_group" where
  "column_group h name = (case find_column (grid_list h) name 0 of
     None \<Rightarrow> TG_UNKNOWN | Some i \<Rightarrow> get_type_group (col_type (grid_list h ! i)))"

definition value_group :: "hgrid \<Rightarrow> datum \<Rightarrow> type_group" where
  "value_group h d = (if dt_type d = T_NAME then column_group h (dt_bytes d) else get_type_group (dt_type d))"

fun arith_type :: "arith_op \<Rightarrow> type_group \<Rightarrow> type_group \<Rightarrow> type_group option" where
  "arith_type OP_CONCAT g k = (if g = TG_CHARACTER \<and> k = TG_CHARACTER then Some TG_CHARACTER else None)"
| "arith_type f g k = (if g = TG_INTEGER \<and> k = TG_INTEGER then Some TG_INTEGER else None)"

fun cmp_typed :: "cmp_op \<Rightarrow> type_group \<Rightarrow> type_group \<Rightarrow> bool" where
  "cmp_typed OP_LIKE g k \<longleftrightarrow> g = TG_CHARACTER \<and> k = TG_CHARACTER"
| "cmp_typed OP_NOT_LIKE g k \<longleftrightarrow> g = TG_CHARACTER \<and> k = TG_CHARACTER"
| "cmp_typed f g k \<longleftrightarrow> g = k \<and> g \<noteq> TG_UNKNOWN"

definition list_typed :: "hgrid \<Rightarrow> type_group \<Rightarrow> datum list \<Rightarrow> bool" where
  "list_typed h g vs \<longleftrightarrow> (\<forall>v \<in> set vs. value_group h v = g \<and> g \<noteq> TG_UNKNOWN)"

fun type_aexpr :: "hgrid \<Rightarrow> aexpr \<Rightarrow> type_group option" and type_expr :: "hgrid \<Rightarrow> expr \<Rightarrow> bool" where
  "type_aexpr h (Value d) = Some (value_group h d)"
| "type_aexpr h (Paren e) = (if type_expr h e then Some TG_INTEGER else None)"
| "type_aexpr h (Arith f a b) = Option.bind (type_aexpr h a) (\<lambda>g. Option.bind (type_aexpr h b) (arith_type f g))"
| "type_expr h (Test a) \<longleftrightarrow> type_aexpr h a \<noteq> None"
| "type_expr h (Cmp f a b) \<longleftrightarrow> (case (type_aexpr h a, type_aexpr h b) of (Some g, Some k) \<Rightarrow> cmp_typed f g k | _ \<Rightarrow> False)"
| "type_expr h (In a vs) \<longleftrightarrow> (case type_aexpr h a of None \<Rightarrow> False | Some g \<Rightarrow> list_typed h g vs)"
| "type_expr h (NotIn a vs) \<longleftrightarrow> (case type_aexpr h a of None \<Rightarrow> False | Some g \<Rightarrow> list_typed h g vs)"
| "type_expr h (Between a b c) \<longleftrightarrow> type_aexpr h a = Some TG_INTEGER \<and> type_aexpr h b = Some TG_INTEGER \<and> type_aexpr h c = Some TG_INTEGER"
| "type_expr h (NotBetween a b c) \<longleftrightarrow> type_aexpr h a = Some TG_INTEGER \<and> type_aexpr h b = Some TG_INTEGER \<and> type_aexpr h c = Some TG_INTEGER"
| "type_expr h (Not e) \<longleftrightarrow> type_expr h e"
| "type_expr h (And e f) \<longleftrightarrow> type_expr h e \<and> type_expr h f"
| "type_expr h (Or e f) \<longleftrightarrow> type_expr h e \<and> type_expr h f"

text \<open>
  The search of IN stops at the first value that is equal, so the values behind it are not
  checked; the lists whose values are of one group are checked at the first value.
\<close>

definition list_uniform :: "hgrid \<Rightarrow> datum list \<Rightarrow> bool" where
  "list_uniform h vs \<longleftrightarrow> (\<forall>v \<in> set vs. value_group h v = value_group h (hd vs))"

fun uniform_aexpr :: "hgrid \<Rightarrow> aexpr \<Rightarrow> bool" and uniform_expr :: "hgrid \<Rightarrow> expr \<Rightarrow> bool" where
  "uniform_aexpr h (Value d) \<longleftrightarrow> True"
| "uniform_aexpr h (Paren e) \<longleftrightarrow> uniform_expr h e"
| "uniform_aexpr h (Arith f a b) \<longleftrightarrow> uniform_aexpr h a \<and> uniform_aexpr h b"
| "uniform_expr h (Test a) \<longleftrightarrow> uniform_aexpr h a"
| "uniform_expr h (Cmp f a b) \<longleftrightarrow> uniform_aexpr h a \<and> uniform_aexpr h b"
| "uniform_expr h (In a vs) \<longleftrightarrow> uniform_aexpr h a \<and> list_uniform h vs"
| "uniform_expr h (NotIn a vs) \<longleftrightarrow> uniform_aexpr h a \<and> list_uniform h vs"
| "uniform_expr h (Between a b c) \<longleftrightarrow> uniform_aexpr h a \<and> uniform_aexpr h b \<and> uniform_aexpr h c"
| "uniform_expr h (NotBetween a b c) \<longleftrightarrow> uniform_aexpr h a \<and> uniform_aexpr h b \<and> uniform_aexpr h c"
| "uniform_expr h (Not e) \<longleftrightarrow> uniform_expr h e"
| "uniform_expr h (And e f) \<longleftrightarrow> uniform_expr h e \<and> uniform_expr h f"
| "uniform_expr h (Or e f) \<longleftrightarrow> uniform_expr h e \<and> uniform_expr h f"

lemma arith_type_typed: "arith_type f g k = Some r \<Longrightarrow> r = TG_INTEGER \<or> r = TG_CHARACTER"
  by (cases f) (auto split: if_splits)

lemma list_typed_uniform: "list_typed h g vs \<Longrightarrow> list_uniform h vs"
  by (cases vs) (auto simp: list_typed_def list_uniform_def)

lemma typed_uniform: "type_aexpr h a = Some g \<Longrightarrow> uniform_aexpr h a" "type_expr h e \<Longrightarrow> uniform_expr h e"
  by (induction a and e arbitrary: g)
    (auto simp: bind_eq_Some_conv list_typed_uniform split: if_splits option.splits)

section \<open>Values of a row\<close>

text \<open>An iterator on a row of a table whose columns hold values.\<close>

definition typed_place :: "store \<Rightarrow> titor \<Rightarrow> hgrid \<Rightarrow> bool" where
  "typed_place s t h \<longleftrightarrow> header_room h \<and> (\<forall>c \<in> set (grid_list h). stored_type (col_type c)) \<and>
     titor_is_valid s t = Some True \<and> (\<exists>hg g d. m_header (t_m t) = Some hg \<and> st_h s hg = Some h \<and>
       m_data (t_m t) = Some g \<and> st_d s g = Some d \<and> dgrid_ok h d \<and> unat (m_row (t_m t)) < length (grid_list d))"

lemma find_column_bound: "find_column cs n k = Some i \<Longrightarrow> k \<le> i \<and> i < k + length cs"
  by (induction cs arbitrary: k) (force split: if_splits)+

lemma find_id_column:
  assumes "header_room h"
  shows "unat i \<le> length (grid_list h) \<Longrightarrow>
    find_id h name i = Some (map_option of_nat (find_column (drop (unat i) (grid_list h)) name (unat i)))"
proof (induction "length (grid_list h) - unat i" arbitrary: i)
  case 0
  then show ?case using header_room_row[OF assms 0(2)] by (subst find_id.simps) simp
next
  case (Suc n)
  have lt: "unat i < length (grid_list h)" using Suc(2) by simp
  have inv: "grid_inv h" using assms by (simp add: header_room_def hgrid_wf_def)
  have "i < g_occupied h" using lt grid_invD(3)[OF inv] by (simp add: word_less_nat_alt)
  note i1 = unat_succ_u16[OF this]
  have dr: "drop (unat i) (grid_list h) = grid_list h ! unat i # drop (Suc (unat i)) (grid_list h)"
    using lt by (simp add: Cons_nth_drop_Suc)
  have nth: "g_rows h ! unat i = grid_list h ! unat i" using lt by (simp add: grid_list_def)
  have "n = length (grid_list h) - unat (i + 1)" "unat (i + 1) \<le> length (grid_list h)" using Suc(2) lt i1 by simp_all
  from Suc(1)[OF this] show ?case
    using header_room_row[OF assms Suc(3)] lt nth by (subst find_id.simps) (simp add: dr i1)
qed

text \<open>A value that the operators can take: a number, or a string with all its bytes there.\<close>

definition sound_datum :: "datum \<Rightarrow> bool" where
  "sound_datum v \<longleftrightarrow> get_type_group (dt_type v) = TG_INTEGER \<or> get_type_group (dt_type v) = TG_CHARACTER \<and> dt_readable v"

lemma stored_datum:
  assumes "dgrid_ok h g" "unat row < length (grid_list g)" "unat c < length (grid_list h)"
    and "stored_type (col_type (grid_list h ! unat c))"
  obtains v where "grid_get_datum h g row c = Some v" "dt_type v = col_type (grid_list h ! unat c)" "sound_datum v"
proof -
  note d = dgrid_cell[OF assms(1-3)]
  let ?c = "grid_list h ! unat c"
  have e: "unat (col_offs ?c) + col_width ?c \<le> length (g_rows g ! unat row)" using d(3) by (simp add: col_end_def)
  consider "col_type ?c = T_SMALLINT" | "col_type ?c = T_INTEGER" | "col_type ?c = T_BIGINT" | "col_type ?c = T_CHAR"
    using assms(4) by (auto simp: stored_type_def)
  then have "\<exists>v. grid_get_datum h g row c = Some v \<and> dt_type v = col_type ?c \<and> sound_datum v"
    by cases (use e in \<open>simp_all add: grid_get_datum_def d(1,2) Let_def cell_read_def width_of_type sound_datum_def
      get_type_group_def dt_readable_def dt_bytes_def\<close>)
  then show thesis using that by blast
qed

lemma eval_value_typed:
  assumes p: "typed_place s t h" and v: "eval_value s t d = Some v"
  shows "get_type_group (dt_type v) = value_group h d"
    and "value_group h d \<noteq> TG_UNKNOWN \<Longrightarrow> dt_type d = T_NAME \<or> sound_datum d \<Longrightarrow> sound_datum v"
proof -
  obtain hg g dg where f: "titor_is_valid s t = Some True" "m_header (t_m t) = Some hg" "st_h s hg = Some h"
    "m_data (t_m t) = Some g" "st_d s g = Some dg" "dgrid_ok h dg" "unat (m_row (t_m t)) < length (grid_list dg)" "header_room h"
    "\<forall>c \<in> set (grid_list h). stored_type (col_type c)"
    using p by (auto simp: typed_place_def)
  have "get_type_group (dt_type v) = value_group h d \<and> (value_group h d \<noteq> TG_UNKNOWN \<longrightarrow> dt_type d = T_NAME \<or> sound_datum d \<longrightarrow> sound_datum v)"
  proof (cases "dt_type d = T_NAME")
    case False
    then show ?thesis using v by (auto simp: eval_value_def value_group_def)
  next
    case True
    obtain n where n: "dt_chars d = Some n" using v True f by (auto simp: eval_value_def bind_eq_Some_conv)
    then have b: "dt_bytes d = n" by (simp add: dt_bytes_def)
    have id: "find_id h n 0 = Some (map_option of_nat (find_column (grid_list h) n 0))" using find_id_column[OF f(8), of 0 n] by simp
    show ?thesis
    proof (cases "find_column (grid_list h) n 0")
      case None
      then have "v = d" using v True f n id by (simp add: eval_value_def)
      then show ?thesis using True None b by (simp add: value_group_def column_group_def get_type_group_def)
    next
      case (Some i)
      have lt: "i < length (grid_list h)" using find_column_bound[OF Some] by simp
      have "length (grid_list h) < 65536"
        using f(8) unat_u16_lt[of "g_rown h"] by (simp add: header_room_def)
      then have u: "unat (of_nat i :: u16) = i" using lt by (simp add: unat_of_nat)
      have "stored_type (col_type (grid_list h ! i))" using f(9) lt by simp
      then obtain w where w: "grid_get_datum h dg (m_row (t_m t)) (of_nat i) = Some w" "dt_type w = col_type (grid_list h ! i)" "sound_datum w"
        using stored_datum[OF f(6,7), of "of_nat i"] lt u by metis
      have "v = w" using v True f n id Some w(1) by (simp add: eval_value_def titor_get_datum_def mitor_get_datum_def)
      then show ?thesis using w True Some b by (simp add: value_group_def column_group_def)
    qed
  qed
  then show "get_type_group (dt_type v) = value_group h d"
    "value_group h d \<noteq> TG_UNKNOWN \<Longrightarrow> dt_type d = T_NAME \<or> sound_datum d \<Longrightarrow> sound_datum v" by blast+
qed

section \<open>The operators\<close>

abbreviation datum_group :: "datum \<Rightarrow> type_group" where
  "datum_group v \<equiv> get_type_group (dt_type v)"

text \<open>How a result goes with the group computed for it.\<close>

definition value_conforms :: "type_group option \<Rightarrow> scrc_status + datum \<Rightarrow> bool" where
  "value_conforms ty r \<longleftrightarrow> (case r of Inl e \<Rightarrow> ty = None \<and> e = SCRS_DATUM_TYPE_MISMATCH | Inr v \<Rightarrow> ty = Some (datum_group v))"

definition truth_conforms :: "bool \<Rightarrow> scrc_status + bool \<Rightarrow> bool" where
  "truth_conforms ty r \<longleftrightarrow> (case r of Inl e \<Rightarrow> \<not> ty \<and> e = SCRS_DATUM_TYPE_MISMATCH | Inr b \<Rightarrow> ty)"

lemma exec_bind_Some:
  assumes "exec_bind m f = Some r"
  obtains e where "m = Some (Inl e)" "r = Inl e" | x where "m = Some (Inr x)" "f x = Some r"
  using assms by (auto simp: exec_bind_def split: option.splits sum.splits)

lemma bigint_group: "dt_type d = T_BIGINT \<Longrightarrow> datum_group d = TG_INTEGER"
  by (simp add: get_type_group_def)

lemma arith_data_group:
  assumes "data_arithmetical a b" "op \<in> {add_data, sub_data, mul_data, div_data, mod_data}" "op a b = Some d"
  shows "datum_group d = TG_INTEGER"
proof -
  have t: "dt_type x = T_BIGINT \<Longrightarrow> op a b = Some x \<Longrightarrow> ?thesis" for x using assms(3) bigint_group by auto
  consider "op = add_data" | "op = sub_data" | "op = mul_data" | "op = div_data" | "op = mod_data" using assms(2) by auto
  then show ?thesis
  proof cases
    case 1 then show ?thesis using add_data_value[OF assms(1)] t by auto
  next
    case 2 then show ?thesis using sub_data_value[OF assms(1)] t by auto
  next
    case 3 then show ?thesis using mul_data_value[OF assms(1)] t by auto
  next
    case 4 then show ?thesis using div_mod_data_value[OF assms(1)] assms(3) t by (metis option.distinct(1))
  next
    case 5 then show ?thesis using div_mod_data_value[OF assms(1)] assms(3) t by (metis option.distinct(1))
  qed
qed

lemma check_that_Some:
  assumes "check_that ok m = Some r"
  obtains "\<not> ok" "r = Inl SCRS_DATUM_TYPE_MISMATCH" | ok "m = Some r"
  using assms by (auto simp: check_that_def split: if_splits)

lemma checked_arith:
  assumes "check_that (data_arithmetical a b) (result (op a b)) = Some r" "op \<in> {add_data, sub_data, mul_data, div_data, mod_data}"
  shows "value_conforms (if data_arithmetical a b then Some TG_INTEGER else None) r"
  using assms(1)
proof (rule check_that_Some)
  assume a: "data_arithmetical a b" "result (op a b) = Some r"
  then obtain d where "op a b = Some d" "r = Inr d" by (auto simp: result_def)
  then show ?thesis using arith_data_group[OF a(1) assms(2)] a(1) by (simp add: value_conforms_def data_arithmetical_def)
qed (simp add: value_conforms_def data_arithmetical_def)

lemma arith_conforms: "arith f a b = Some r \<Longrightarrow> value_conforms (arith_type f (datum_group a) (datum_group b)) r"
proof (cases f)
  case OP_CONCAT
  assume "arith f a b = Some r"
  then show ?thesis unfolding OP_CONCAT arith.simps
    by (rule check_that_Some)
      (auto simp: value_conforms_def data_lexical_def result_def cat_data_def assert_that_def get_type_group_def split: if_splits)
qed (use checked_arith in \<open>simp_all add: data_arithmetical_def[symmetric] split del: if_split\<close>)

lemma compare_conforms: "compare_data f a b = Some r \<Longrightarrow> truth_conforms (cmp_typed f (datum_group a) (datum_group b)) r"
  by (cases f) (auto elim!: check_that_Some simp: truth_conforms_def data_comparable_def data_lexical_def result_def)

lemma in_list_conforms:
  "in_list x vs = Some r \<Longrightarrow> \<forall>v \<in> set vs. datum_group v = k \<Longrightarrow>
    truth_conforms (\<forall>v \<in> set vs. datum_group v = datum_group x \<and> datum_group x \<noteq> TG_UNKNOWN) r"
proof (induction vs)
  case (Cons v vs)
  from Cons.prems(1) show ?case unfolding in_list.simps
  proof (rule check_that_Some)
    assume "\<not> data_comparable x v" "r = Inl SCRS_DATUM_TYPE_MISMATCH"
    then show ?thesis by (auto simp: truth_conforms_def data_comparable_def)
  next
    assume c: "data_comparable x v"
      and "exec_bind (result (eq_data x v)) (\<lambda>found. if found then Some (Inr True) else in_list x vs) = Some r"
    then obtain found where "(if found then Some (Inr True) else in_list x vs) = Some r"
      by (auto simp: result_def elim!: exec_bind_Some)
    moreover have "\<forall>w \<in> set (v # vs). datum_group w = datum_group x \<and> datum_group x \<noteq> TG_UNKNOWN"
      using c Cons.prems(2) by (auto simp: data_comparable_def)
    moreover have "truth_conforms True r" if "in_list x vs = Some r"
    proof -
      have "\<forall>v \<in> set vs. datum_group v = k" using Cons.prems(2) by simp
      from Cons.IH[OF that this] show ?thesis using calculation(2) by (auto simp: truth_conforms_def split: sum.splits)
    qed
    ultimately show ?thesis by (auto simp: truth_conforms_def split: if_splits)
  qed
qed (auto simp: truth_conforms_def)

lemma between_conforms: "between v a b = Some r \<Longrightarrow>
    truth_conforms (datum_group v = TG_INTEGER \<and> datum_group a = TG_INTEGER \<and> datum_group b = TG_INTEGER) r"
  unfolding between_def
  by (auto elim!: check_that_Some exec_bind_Some simp: truth_conforms_def data_arithmetical_def result_def split: if_splits)

section \<open>The types decide the checks\<close>

lemma eval_values_groups:
  assumes "typed_place s t h"
  shows "eval_values s t ds = Some vs \<Longrightarrow> map datum_group vs = map (value_group h) ds"
  by (induction ds arbitrary: vs) (auto simp: bind_eq_Some_conv eval_value_typed(1)[OF assms])

lemma in_values_conform:
  assumes "eval_values s t ds = Some vs" "in_list x vs = Some r" "typed_place s t h" "list_uniform h ds"
  shows "truth_conforms (list_typed h (datum_group x) ds) r"
proof -
  have m: "map datum_group vs = map (value_group h) ds" by (rule eval_values_groups[OF assms(3,1)])
  then have set: "datum_group ` set vs = value_group h ` set ds" by (metis set_map)
  then have "\<forall>v \<in> set vs. datum_group v = value_group h (hd ds)" using assms(4) by (auto simp: list_uniform_def)
  from in_list_conforms[OF assms(2) this] show ?thesis using set
    unfolding list_typed_def by (smt (verit, best) imageE imageI)
qed

lemma eval_conforms:
  assumes p: "typed_place s t h"
  shows "eval_aexpr s t a = Some r \<Longrightarrow> uniform_aexpr h a \<Longrightarrow> value_conforms (type_aexpr h a) r"
    and "eval_expr s t e = Some q \<Longrightarrow> uniform_expr h e \<Longrightarrow> truth_conforms (type_expr h e) q"
proof (induction a and e arbitrary: r and q)
  case (Value d)
  then show ?case using eval_value_typed(1)[OF p] by (auto simp: value_conforms_def result_def)
next
  case (Paren e)
  then show ?case by (fastforce simp: value_conforms_def truth_conforms_def make_bigint_def get_type_group_def elim!: exec_bind_Some)
next
  case (Arith f a b)
  then show ?case using arith_conforms[of f] by (fastforce simp: value_conforms_def elim!: exec_bind_Some split: sum.splits)
next
  case (Test a)
  then show ?case by (fastforce simp: value_conforms_def truth_conforms_def result_def elim!: exec_bind_Some)
next
  case (Cmp f a b)
  then show ?case using compare_conforms[of f]
    by (fastforce simp: value_conforms_def truth_conforms_def elim!: exec_bind_Some split: sum.splits)
next
  case (In a ds)
  then show ?case using in_values_conform[OF _ _ p]
    by (fastforce simp: value_conforms_def truth_conforms_def result_def elim!: exec_bind_Some split: sum.splits)
next
  case (NotIn a ds)
  then show ?case using in_values_conform[OF _ _ p]
    by (fastforce simp: value_conforms_def truth_conforms_def result_def elim!: exec_bind_Some split: sum.splits)
next
  case (Between a b c)
  then show ?case using between_conforms
    by (fastforce simp: value_conforms_def truth_conforms_def elim!: exec_bind_Some split: sum.splits)
next
  case (NotBetween a b c)
  then show ?case using between_conforms
    by (fastforce simp: value_conforms_def truth_conforms_def elim!: exec_bind_Some split: sum.splits)
next
  case (Not e)
  then show ?case by (fastforce simp: truth_conforms_def elim!: exec_bind_Some)
next
  case (And e f)
  then show ?case by (fastforce simp: truth_conforms_def elim!: exec_bind_Some)
next
  case (Or e f)
  then show ?case by (fastforce simp: truth_conforms_def elim!: exec_bind_Some)
qed

section \<open>Expressions that run\<close>

text \<open>
  What the types do not show: a divisor must not trap, a string must be there, a number is
  wanted where the truth of a value is asked for, and an unknown name is of no group.
\<close>

fun safe_divisor :: "arith_op \<Rightarrow> aexpr \<Rightarrow> bool" where
  "safe_divisor f (Value d) \<longleftrightarrow> f = OP_DIV \<or> f = OP_MOD \<longrightarrow> dt_type d \<noteq> T_NAME \<and> dt_ival d \<noteq> 0 \<and> dt_ival d \<noteq> -1"
| "safe_divisor f _ \<longleftrightarrow> f \<noteq> OP_DIV \<and> f \<noteq> OP_MOD"

definition safe_value :: "hgrid \<Rightarrow> datum \<Rightarrow> bool" where
  "safe_value h d \<longleftrightarrow> (if dt_type d = T_NAME then dt_chars d \<noteq> None \<and> column_group h (dt_bytes d) \<noteq> TG_UNKNOWN else sound_datum d)"

fun safe_aexpr :: "hgrid \<Rightarrow> aexpr \<Rightarrow> bool" and safe_expr :: "hgrid \<Rightarrow> expr \<Rightarrow> bool" where
  "safe_aexpr h (Value d) \<longleftrightarrow> safe_value h d"
| "safe_aexpr h (Paren e) \<longleftrightarrow> safe_expr h e"
| "safe_aexpr h (Arith f a b) \<longleftrightarrow> safe_aexpr h a \<and> safe_aexpr h b \<and> safe_divisor f b"
| "safe_expr h (Test a) \<longleftrightarrow> safe_aexpr h a \<and> type_aexpr h a = Some TG_INTEGER"
| "safe_expr h (Cmp f a b) \<longleftrightarrow> safe_aexpr h a \<and> safe_aexpr h b"
| "safe_expr h (In a vs) \<longleftrightarrow> safe_aexpr h a \<and> list_all (safe_value h) vs"
| "safe_expr h (NotIn a vs) \<longleftrightarrow> safe_aexpr h a \<and> list_all (safe_value h) vs"
| "safe_expr h (Between a b c) \<longleftrightarrow> safe_aexpr h a \<and> safe_aexpr h b \<and> safe_aexpr h c"
| "safe_expr h (NotBetween a b c) \<longleftrightarrow> safe_aexpr h a \<and> safe_aexpr h b \<and> safe_aexpr h c"
| "safe_expr h (Not e) \<longleftrightarrow> safe_expr h e"
| "safe_expr h (And e f) \<longleftrightarrow> safe_expr h e \<and> safe_expr h f"
| "safe_expr h (Or e f) \<longleftrightarrow> safe_expr h e \<and> safe_expr h f"

lemma sound_group: "sound_datum v \<Longrightarrow> datum_group v = TG_INTEGER \<or> datum_group v = TG_CHARACTER"
  by (auto simp: sound_datum_def)

lemma eval_value_runs:
  assumes p: "typed_place s t h" and d: "safe_value h d"
  obtains v where "eval_value s t d = Some v" "sound_datum v" "datum_group v = value_group h d"
proof -
  obtain hg g dg where f: "titor_is_valid s t = Some True" "m_header (t_m t) = Some hg" "st_h s hg = Some h"
    "m_data (t_m t) = Some g" "st_d s g = Some dg" "dgrid_ok h dg" "unat (m_row (t_m t)) < length (grid_list dg)" "header_room h"
    "\<forall>c \<in> set (grid_list h). stored_type (col_type c)"
    using p by (auto simp: typed_place_def)
  have "\<exists>v. eval_value s t d = Some v"
  proof (cases "dt_type d = T_NAME")
    case True
    then obtain n where n: "dt_chars d = Some n" using d by (auto simp: safe_value_def)
    have id: "find_id h n 0 = Some (map_option of_nat (find_column (grid_list h) n 0))" using find_id_column[OF f(8), of 0 n] by simp
    show ?thesis
    proof (cases "find_column (grid_list h) n 0")
      case (Some i)
      have lt: "i < length (grid_list h)" using find_column_bound[OF Some] by simp
      have "length (grid_list h) < 65536" using f(8) unat_u16_lt[of "g_rown h"] by (simp add: header_room_def)
      then have u: "unat (of_nat i :: u16) = i" using lt by (simp add: unat_of_nat)
      have "stored_type (col_type (grid_list h ! i))" using f(9) lt by simp
      then obtain w where "grid_get_datum h dg (m_row (t_m t)) (of_nat i) = Some w"
        using stored_datum[OF f(6,7), of "of_nat i"] lt u by metis
      then show ?thesis using True f n id Some by (simp add: eval_value_def titor_get_datum_def mitor_get_datum_def)
    qed (use True f n id in \<open>simp add: eval_value_def\<close>)
  qed (simp add: eval_value_def)
  then obtain v where v: "eval_value s t d = Some v" by blast
  have "value_group h d \<noteq> TG_UNKNOWN" "dt_type d = T_NAME \<or> sound_datum d"
    using d sound_group[of d] by (auto simp: safe_value_def value_group_def split: if_splits)
  then show thesis using that v eval_value_typed[OF p v] by blast
qed

lemma eval_values_run:
  assumes "typed_place s t h"
  shows "list_all (safe_value h) ds \<Longrightarrow> \<exists>vs. eval_values s t ds = Some vs \<and> list_all sound_datum vs"
proof (induction ds)
  case (Cons d ds)
  then obtain vs where "eval_values s t ds = Some vs" "list_all sound_datum vs" by auto
  moreover obtain v where "eval_value s t d = Some v" "sound_datum v" using eval_value_runs[OF assms] Cons.prems by auto
  ultimately show ?case by simp
qed simp

lemma cmp_data_runs:
  assumes "sound_datum a" "sound_datum b"
  shows "cmp_data a b \<noteq> None"
proof (cases "data_comparable a b")
  case True
  then consider "datum_group a = TG_INTEGER" "datum_group b = TG_INTEGER"
    | "datum_group a = TG_CHARACTER" "datum_group b = TG_CHARACTER" "dt_readable a" "dt_readable b"
    using assms by (auto simp: sound_datum_def data_comparable_def)
  then show ?thesis
    by cases (use True cmp_integer_eq[of a b] cmp_character_sign[of a b] in \<open>auto simp: cmp_data_def\<close>)
qed (simp add: cmp_data_def)

lemmas comparison_defs = eq_data_def ne_data_def lt_data_def le_data_def gt_data_def ge_data_def

lemma like_data_runs: "sound_datum a \<Longrightarrow> sound_datum b \<Longrightarrow> data_lexical a b \<Longrightarrow> like_data a b \<noteq> None"
  using like_data_spec[of a b] by (auto simp: sound_datum_def data_lexical_def)

lemma compare_runs:
  assumes "sound_datum a" "sound_datum b"
  shows "compare_data f a b \<noteq> None"
  using cmp_data_runs[OF assms] like_data_runs[OF assms]
  by (cases f) (auto simp: check_that_def result_def comparison_defs)

lemma in_list_runs: "sound_datum x \<Longrightarrow> list_all sound_datum vs \<Longrightarrow> in_list x vs \<noteq> None"
proof (induction vs)
  case (Cons v vs)
  then have "cmp_data x v \<noteq> None" using cmp_data_runs by simp
  then show ?case using Cons by (auto simp: check_that_def result_def eq_data_def exec_bind_def split: option.splits)
qed simp

lemma between_runs:
  assumes "sound_datum v" "sound_datum a" "sound_datum b"
  shows "between v a b \<noteq> None"
  using cmp_data_runs[OF assms(1,2)] cmp_data_runs[OF assms(1,3)]
  by (auto simp: between_def check_that_def result_def comparison_defs exec_bind_def split: option.splits)

definition trap_free :: "arith_op \<Rightarrow> datum \<Rightarrow> bool" where
  "trap_free f b \<longleftrightarrow> (f = OP_DIV \<or> f = OP_MOD \<longrightarrow> dt_ival b \<noteq> 0 \<and> dt_ival b \<noteq> -1)"

lemma arith_runs:
  assumes "sound_datum a" "sound_datum b" "trap_free f b"
  obtains e where "arith f a b = Some (Inl e)" | v where "arith f a b = Some (Inr v)" "sound_datum v"
proof -
  have i: "\<exists>v. op a b = Some v \<and> sound_datum v"
    if "data_arithmetical a b" "op a b \<noteq> None" "op \<in> {add_data, sub_data, mul_data, div_data, mod_data}" for op
    using arith_data_group[OF that(1,3)] that(2) by (auto simp: sound_datum_def)
  have n: "add_data a b \<noteq> None" "sub_data a b \<noteq> None" "mul_data a b \<noteq> None" if "data_arithmetical a b"
    using add_data_value[OF that] sub_data_value[OF that] mul_data_value[OF that] by auto
  have dm: "div_data a b \<noteq> None" "mod_data a b \<noteq> None" if "data_arithmetical a b" "dt_ival b \<noteq> 0" "dt_ival b \<noteq> -1"
    using div_mod_data_value(2)[OF that(1)] that(2,3) by auto
  have "(\<exists>e. arith f a b = Some (Inl e)) \<or> (\<exists>v. arith f a b = Some (Inr v) \<and> sound_datum v)"
  proof (cases f)
    case OP_CONCAT
    then show ?thesis using assms(1,2)
      by (auto simp: check_that_def result_def cat_data_def assert_that_def sound_datum_def data_lexical_def dt_readable_def
          get_type_group_def dt_bytes_def)
  next
    case OP_ADD
    then show ?thesis using i[of add_data] n by (auto simp: check_that_def result_def)
  next
    case OP_SUB
    then show ?thesis using i[of sub_data] n by (auto simp: check_that_def result_def)
  next
    case OP_MUL
    then show ?thesis using i[of mul_data] n by (auto simp: check_that_def result_def)
  next
    case OP_DIV
    then show ?thesis using i[of div_data] dm assms(3) by (auto simp: check_that_def result_def trap_free_def)
  next
    case OP_MOD
    then show ?thesis using i[of mod_data] dm assms(3)
      by (auto simp: check_that_def result_def trap_free_def data_arithmetical_def)
  qed
  then show thesis using that by blast
qed

lemma zeroed_runs: "datum_group v = TG_INTEGER \<Longrightarrow> datum_zeroed v \<noteq> None"
  by (auto simp: integer_group_iff datum_zeroed_def)

text \<open>A result, and a value that is sound if it is one.\<close>

definition runs_soundly :: "datum exec \<Rightarrow> bool" where
  "runs_soundly m \<longleftrightarrow> (\<exists>e. m = Some (Inl e)) \<or> (\<exists>v. m = Some (Inr v) \<and> sound_datum v)"

lemma exec_bind_runs:
  assumes "runs_soundly m" "\<And>x. m = Some (Inr x) \<Longrightarrow> sound_datum x \<Longrightarrow> f x \<noteq> None"
  shows "exec_bind m f \<noteq> None"
  using assms by (auto simp: runs_soundly_def exec_bind_def)

lemma exec_bind_bool: "m \<noteq> None \<Longrightarrow> (\<And>b. f b \<noteq> None) \<Longrightarrow> exec_bind m f \<noteq> None"
  by (auto simp: exec_bind_def split: sum.splits)

lemma divisor_trap_free:
  assumes "safe_divisor f b" "eval_aexpr s t b = Some (Inr y)"
  shows "trap_free f y"
  using assms by (cases b) (auto simp: trap_free_def result_def eval_value_def)

lemma eval_runs:
  assumes p: "typed_place s t h"
  shows "safe_aexpr h a \<Longrightarrow> runs_soundly (eval_aexpr s t a)" and "safe_expr h e \<Longrightarrow> eval_expr s t e \<noteq> None"
proof (induction a and e)
  case (Value d)
  then have "safe_value h d" by simp
  then obtain v where "eval_value s t d = Some v" "sound_datum v" by (rule eval_value_runs[OF p])
  then show ?case by (simp add: runs_soundly_def result_def)
next
  case (Paren e)
  then show ?case
    by (auto simp: runs_soundly_def exec_bind_def sound_datum_def make_bigint_def get_type_group_def split: sum.splits)
next
  case (Arith f a b)
  then have r: "runs_soundly (eval_aexpr s t a)" "runs_soundly (eval_aexpr s t b)" "safe_divisor f b" by simp_all
  show ?case
  proof (cases "\<exists>x y. eval_aexpr s t a = Some (Inr x) \<and> eval_aexpr s t b = Some (Inr y)")
    case True
    then obtain x y where xy: "eval_aexpr s t a = Some (Inr x)" "eval_aexpr s t b = Some (Inr y)" by blast
    then have "sound_datum x" "sound_datum y" using r by (simp_all add: runs_soundly_def)
    from arith_runs[OF this divisor_trap_free[OF r(3) xy(2)]] have "runs_soundly (arith f x y)" by (auto simp: runs_soundly_def)
    then show ?thesis using xy by (simp add: exec_bind_def)
  next
    case False
    then show ?thesis using r by (auto simp: runs_soundly_def exec_bind_def)
  qed
next
  case (Test a)
  then have a: "runs_soundly (eval_aexpr s t a)" "type_aexpr h a = Some TG_INTEGER" by simp_all
  have "result (map_option HOL.Not (datum_zeroed x)) \<noteq> None" if "eval_aexpr s t a = Some (Inr x)" for x
  proof -
    have "datum_group x = TG_INTEGER"
      using eval_conforms(1)[OF p that typed_uniform(1)[OF a(2)]] a(2) by (simp add: value_conforms_def)
    then show ?thesis using zeroed_runs by (simp add: result_def)
  qed
  then show ?case unfolding eval_expr.simps by (rule exec_bind_runs[OF a(1)])
next
  case (Cmp f a b)
  then have "runs_soundly (eval_aexpr s t a)" "runs_soundly (eval_aexpr s t b)" by simp_all
  then show ?case unfolding eval_expr.simps by (intro exec_bind_runs compare_runs)
next
  case (In a vs)
  then have a: "runs_soundly (eval_aexpr s t a)" and "list_all (safe_value h) vs" by simp_all
  then obtain ws where ws: "eval_values s t vs = Some ws" "list_all sound_datum ws" using eval_values_run[OF p] by blast
  show ?case unfolding eval_expr.simps
    by (rule exec_bind_runs[OF a]) (simp add: ws in_list_runs result_def exec_bind_def[of "Some (Inr _)"] del: not_None_eq)
next
  case (NotIn a vs)
  then have a: "runs_soundly (eval_aexpr s t a)" and "list_all (safe_value h) vs" by simp_all
  then obtain ws where ws: "eval_values s t vs = Some ws" "list_all sound_datum ws" using eval_values_run[OF p] by blast
  have "exec_bind (in_list x ws) (\<lambda>found. Some (Inr (\<not> found))) \<noteq> None" if "sound_datum x" for x
    by (rule exec_bind_bool[OF in_list_runs[OF that ws(2)]]) simp
  then show ?case unfolding eval_expr.simps
    by (intro exec_bind_runs[OF a]) (simp add: ws(1) result_def exec_bind_def[of "Some (Inr _)"] del: not_None_eq)
next
  case (Between a b c)
  then have "runs_soundly (eval_aexpr s t a)" "runs_soundly (eval_aexpr s t b)" "runs_soundly (eval_aexpr s t c)" by simp_all
  then show ?case unfolding eval_expr.simps by (intro exec_bind_runs between_runs)
next
  case (NotBetween a b c)
  then have "runs_soundly (eval_aexpr s t a)" "runs_soundly (eval_aexpr s t b)" "runs_soundly (eval_aexpr s t c)" by simp_all
  then show ?case unfolding eval_expr.simps by (intro exec_bind_runs between_runs)
next
  case (Not e)
  then have "eval_expr s t e \<noteq> None" by simp
  then show ?case unfolding eval_expr.simps by (rule exec_bind_bool) simp
next
  case (And e f)
  then have r: "eval_expr s t e \<noteq> None" "eval_expr s t f \<noteq> None" by simp_all
  show ?case unfolding eval_expr.simps by (rule exec_bind_bool[OF r(1)], rule exec_bind_bool[OF r(2)]) simp
next
  case (Or e f)
  then have r: "eval_expr s t e \<noteq> None" "eval_expr s t f \<noteq> None" by simp_all
  show ?case unfolding eval_expr.simps by (rule exec_bind_bool[OF r(1)], rule exec_bind_bool[OF r(2)]) simp
qed

section \<open>The WHERE part of a statement\<close>

lemma positions_row:
  "(g, i) \<in> set (positions s gs k) \<Longrightarrow> g \<in> set gs \<and> i < page_len s g"
  by (induction s gs k rule: positions.induct) auto

lemma row_typed_place:
  assumes tb: "mvcc_table tp tr s hg h gs" "hg \<noteq> GID_UNDEF" "header_room h" "\<forall>c \<in> set (grid_list h). stored_type (col_type c)"
    and g: "GID_UNDEF \<notin> set gs" and p: "p \<in> set (positions s gs 0)"
  shows "typed_place s (row_titor hg tr p) h"
proof -
  obtain g i where gi: "p = (g, i)" "g \<in> set gs" "i < page_len s g" using positions_row p by (cases p) blast
  then obtain d where d: "st_d s g = Some d" "dgrid_ok h d" "g_content d = GC_MVCC"
    using tb(1) by (auto simp: mvcc_table_def mvcc_page_def split: option.splits)
  have il: "i < length (grid_list d)" using gi(3) d(1) by (simp add: page_len_def page_rows_def)
  have inv: "grid_inv d" using d(2) by (simp add: dgrid_ok_def)
  have "i < 65536" using il grid_invD(3)[OF inv] unat_u16_lt[of "g_occupied d"] by simp
  then have u: "unat (of_nat i :: u16) = i" by (simp add: unat_of_nat)
  have "(of_nat i :: u16) < g_occupied d" using il grid_invD(3)[OF inv] u by (simp add: word_less_nat_alt)
  moreover have "g \<noteq> GID_UNDEF" using g gi(2) by blast
  ultimately have "titor_is_valid s (row_titor hg tr p) = Some True"
    using d tb(2) gi(1) by (simp add: titor_is_valid_def mitor_is_valid_def titor_content_def row_titor_def)
  then show ?thesis using tb d il u gi(1) by (simp add: typed_place_def row_titor_def mvcc_table_def)
qed

definition table_typed :: "db \<Rightarrow> gid_pair \<Rightarrow> hgrid \<Rightarrow> gid list \<Rightarrow> tran \<Rightarrow> bool" where
  "table_typed d gp h gs tr \<longleftrightarrow> mvcc_table (db_tran d) tr (db_store d) (gp_header gp) h gs \<and> gp_header gp \<noteq> GID_UNDEF \<and>
     header_room h \<and> (\<forall>c \<in> set (grid_list h). stored_type (col_type c)) \<and> GID_UNDEF \<notin> set gs"

lemma table_typed_place:
  assumes t: "table_typed d gp h gs tr" and p: "p \<in> set (positions (db_store d) gs 0)"
  shows "typed_place (db_store d) (row_titor (gp_header gp) tr p) h"
proof -
  note t = t[unfolded table_typed_def]
  show ?thesis by (rule row_typed_place[OF _ _ _ _ _ p]) (use t in blast)+
qed

lemma where_conforms:
  assumes "table_typed d gp h gs tr" "p \<in> set (positions (db_store d) gs 0)"
  shows "where_at (db_store d) (gp_header gp) tr (Some e) p = Some r \<Longrightarrow> uniform_expr h e \<Longrightarrow> truth_conforms (type_expr h e) r"
    and "safe_expr h e \<Longrightarrow> type_expr h e \<Longrightarrow> \<exists>b. where_at (db_store d) (gp_header gp) tr (Some e) p = Some (Inr b)"
proof -
  note pl = table_typed_place[OF assms]
  show c: "truth_conforms (type_expr h e) r"
    if "where_at (db_store d) (gp_header gp) tr (Some e) p = Some r" "uniform_expr h e" for r
    using eval_conforms(2)[OF pl] that by (simp add: where_at_def eval_where_def)
  show "\<exists>b. where_at (db_store d) (gp_header gp) tr (Some e) p = Some (Inr b)" if s: "safe_expr h e" and t: "type_expr h e"
  proof -
    obtain r where r: "where_at (db_store d) (gp_header gp) tr (Some e) p = Some r"
      using eval_runs(2)[OF pl s] by (auto simp: where_at_def eval_where_def)
    then show ?thesis using c[OF r typed_uniform(2)[OF t]] t by (auto simp: truth_conforms_def split: sum.splits)
  qed
qed

text \<open>
  C24: The checks of operand types that the actions of execute.y make on every row are decided
  by the column types of the table's header alone: a WHERE expression whose type groups fit,
  numbers where a value is tested for truth, never ends with SCRS_DATUM_TYPE_MISMATCH, and
  gives a truth value on every row when its divisors are safe and its names are columns; one
  whose groups do not fit, each list of IN being of one group, never gives a value, and gives
  the mismatch where nothing traps.
\<close>

theorem where_types_decide:
  assumes "table_typed d gp h gs tr" and "p \<in> set (positions (db_store d) gs 0)"
  shows "(type_expr h e \<and> safe_expr h e \<longrightarrow> (\<exists>b. where_at (db_store d) (gp_header gp) tr (Some e) p = Some (Inr b))) \<and>
    (type_expr h e \<longrightarrow> (\<forall>status. where_at (db_store d) (gp_header gp) tr (Some e) p \<noteq> Some (Inl status))) \<and>
    (uniform_expr h e \<and> \<not> type_expr h e \<longrightarrow> where_at (db_store d) (gp_header gp) tr (Some e) p \<in>
      {None, Some (Inl SCRS_DATUM_TYPE_MISMATCH)}) \<and>
    (safe_expr h e \<and> uniform_expr h e \<and> \<not> type_expr h e \<longrightarrow>
      where_at (db_store d) (gp_header gp) tr (Some e) p = Some (Inl SCRS_DATUM_TYPE_MISMATCH))"
proof (intro conjI impI allI)
  let ?r = "where_at (db_store d) (gp_header gp) tr (Some e) p"
  note c = where_conforms[OF assms, of e]
  show "\<exists>b. ?r = Some (Inr b)" if "type_expr h e \<and> safe_expr h e" using c(2) that by blast
  show "?r \<noteq> Some (Inl status)" if "type_expr h e" for status
    using c(1) typed_uniform(2)[OF that] that by (fastforce simp: truth_conforms_def)
  show m: "?r \<in> {None, Some (Inl SCRS_DATUM_TYPE_MISMATCH)}" if "uniform_expr h e \<and> \<not> type_expr h e"
    using c(1) that by (cases ?r) (auto simp: truth_conforms_def split: sum.splits)
  show "?r = Some (Inl SCRS_DATUM_TYPE_MISMATCH)" if "safe_expr h e \<and> uniform_expr h e \<and> \<not> type_expr h e"
  proof -
    have "?r \<noteq> None" using eval_runs(2)[OF table_typed_place[OF assms]] that by (auto simp: where_at_def eval_where_def)
    then show ?thesis using m[OF conjunct2[OF that]] by auto
  qed
qed

definition n_like :: expr where
  "n_like = Or (n_above 41) (Cmp OP_LIKE (Value (make_name (ascii ''n''))) (Value (make_char [37])))"

lemma two_table_typed: "table_typed two_db \<lparr>gp_header = 4, gp_data = 5\<rparr> small_header [5] tran_five"
proof -
  have "mvcc_table (db_tran two_db) tran_five (db_store two_db) 4 small_header [5]"
    using two_select_ready by (simp add: select_ready_def)
  moreover have "\<forall>c \<in> set (grid_list small_header). stored_type (col_type c)"
    by (simp add: small_columns) (simp add: small_header_def small_grid_def sample_col_def stored_type_def)
  ultimately show ?thesis by (simp add: table_typed_def small_header_room(1) GID_UNDEF_def)
qed

lemma n_typed: "value_group small_header (make_name (ascii ''n'')) = TG_INTEGER"
proof -
  have "find_column (grid_list small_header) (ascii ''n'') 0 = Some 2"
    unfolding small_columns by (simp add: small_header_def small_grid_def sample_col_def cstring_def ascii_def NAMESZ_def)
  moreover have "col_type (grid_list small_header ! 2) = T_INTEGER"
    unfolding small_columns by (simp add: small_header_def small_grid_def sample_col_def)
  ultimately show ?thesis
    by (simp add: value_group_def column_group_def make_name_def dt_bytes_def get_type_group_def)
qed

lemma n_examples:
  "type_expr small_header (n_above 41)" "safe_expr small_header (n_above 41)"
  "\<not> type_expr small_header n_like" "safe_expr small_header n_like" "uniform_expr small_header n_like"
  using n_typed by (auto simp: n_above_def n_like_def value_group_def make_bigint_def make_char_def make_name_def safe_value_def
      sound_datum_def get_type_group_def dt_readable_def dt_bytes_def)

theorem where_types_decide_witness:
  "(\<exists>b. where_at (db_store two_db) 4 tran_five (Some (n_above 41)) (5, 1) = Some (Inr b)) \<and>
   where_at (db_store two_db) 4 tran_five (Some n_like) (5, 1) = Some (Inl SCRS_DATUM_TYPE_MISMATCH)"
proof -
  have "(5, 1) \<in> set (positions (db_store two_db) [5] 0)" unfolding two_positions by simp
  note w = where_types_decide[OF two_table_typed this]
  show ?thesis using w[of "n_above 41"] w[of n_like] n_examples by simp
qed

text \<open>SELECT with a typed and safe WHERE part needs no look at the rows to be known to succeed.\<close>

lemma select_typed:
  assumes laws: "send_laws out patience os_send" "send_reliable os_send" and ok: "session_ok sn" and pad: "length pad = 6"
    and ready: "select_ready sys ss d0 schema table names d gp h gs tr" "table_typed d gp h gs tr"
    and e: "type_expr h e" "safe_expr h e" and ne: "visible_rows d tr h gs \<noteq> []"
  shows "\<exists>w' sn'. exec_select os_send pad sys schema table names (Some e) d0 ss w sn = Some (d, ss, w', sn', 0) \<and>
    sent_out out w sn (select_message (shown_columns pad h) (hgrid_get_row_size h)
      (map (row_of (db_store d)) (filter (selected d (gp_header gp) tr (Some e)) (visible_rows d tr h gs)))) w' sn'"
proof (rule exec_select_sends[OF laws ok pad ready(1)])
  show "\<forall>p \<in> set (visible_rows d tr h gs). \<exists>b. where_at (db_store d) (gp_header gp) tr (Some e) p = Some (Inr b)"
    using where_conforms(2)[OF ready(2) _ e(2,1)] by (auto simp: visible_rows_def)
qed (use ne in simp)

end
