(* ===== verification/Scr_Server.thy ===== *)
theory Scr_Server
  imports Scr_Ddl Scr_Pagecache Scr_Fdcache
begin

text \<open>
  \<^verbatim>\<open>src/scrs/server.h\<close> and \<^verbatim>\<open>server.c\<close>: how the server starts. It
  maps its caches, reads its parameters and the gids of the system tables from the cluster
  table, maps the caches again when the table asks for other sizes, and gives them back at
  the end. What stat, chdir, mmap, tcp_init and sigaction return are arguments; the calls of
  mmap and munmap are collected in their order. Messages are left out. \<open>None\<close> is a failed
  assert or a NULL dereference.
\<close>

section \<open>Constants and state\<close>

definition SEQUENCE_HEADER_GID :: gid where "SEQUENCE_HEADER_GID = 0"
definition SEQUENCE_DATA_GID :: gid where "SEQUENCE_DATA_GID = 1"
definition CLUSTER_HEADER_GID :: gid where "CLUSTER_HEADER_GID = 2"
definition CLUSTER_DATA_GID :: gid where "CLUSTER_DATA_GID = 3"
definition DEFAULT_BACKLOG :: i32 where "DEFAULT_BACKLOG = 10"
definition DEFAULT_PORT :: u16 where "DEFAULT_PORT = 8081"
definition DEFAULT_PAGECACHESZ0 :: u64 where "DEFAULT_PAGECACHESZ0 = 8"
definition DEFAULT_PAGECACHESZ1 :: u64 where "DEFAULT_PAGECACHESZ1 = 8"
definition DEFAULT_FDCACHESZ0 :: u64 where "DEFAULT_FDCACHESZ0 = 4"
definition DEFAULT_FDCACHESZ1 :: u64 where "DEFAULT_FDCACHESZ1 = 4"
definition DEFAULT_TRANSZ0 :: u64 where "DEFAULT_TRANSZ0 = 128"
definition DEFAULT_TRANSZ1 :: u64 where "DEFAULT_TRANSZ1 = 128"

text \<open>The arguments of the process and the socket are left out.\<close>

record server =
  sv_backlog :: i32
  sv_port :: u16
  sv_sequence :: gid_pair
  sv_cluster :: gid_pair
  sv_user :: gid_pair
  sv_catalog :: gid_pair
  sv_schema :: gid_pair
  sv_relation :: gid_pair
  sv_tran :: gid
  sv_encoding :: "u8 list option"
  sv_pagecachesz :: "u64 \<times> u64"
  sv_fdcachesz :: "u64 \<times> u64"
  sv_transz :: "u64 \<times> u64"

text \<open>g_server after the memset and the default values.\<close>

definition server_default :: server where
  "server_default = \<lparr>sv_backlog = DEFAULT_BACKLOG, sv_port = DEFAULT_PORT, sv_sequence = GP_UNDEF,
     sv_cluster = \<lparr>gp_header = gid_parts CLUSTER_HEADER_GID 0, gp_data = gid_parts CLUSTER_DATA_GID 0\<rparr>,
     sv_user = GP_UNDEF, sv_catalog = GP_UNDEF, sv_schema = GP_UNDEF, sv_relation = GP_UNDEF, sv_tran = GID_UNDEF,
     sv_encoding = None, sv_pagecachesz = (DEFAULT_PAGECACHESZ0, DEFAULT_PAGECACHESZ1),
     sv_fdcachesz = (DEFAULT_FDCACHESZ0, DEFAULT_FDCACHESZ1), sv_transz = (DEFAULT_TRANSZ0, DEFAULT_TRANSZ1)\<rparr>"

section \<open>The caches\<close>

text \<open>A pointer to a mapping, and the calls made with the sizes they were made with.\<close>

datatype mptr = PNull | MAP_FAILED | PAt nat
datatype mcall = Mmap mptr u64 | Munmap mptr u64

text \<open>\<open>c_tran_hash\<close> are the numbers of buckets and chain nodes the hash of transactions believes it has.\<close>

record caches =
  c_pages :: mptr
  c_pagecache :: mptr
  c_fdcache :: mptr
  c_tran :: mptr
  c_tran_hash :: "u64 \<times> u64"

definition caches_none :: caches where
  "caches_none = \<lparr>c_pages = PNull, c_pagecache = PNull, c_fdcache = PNull, c_tran = PNull, c_tran_hash = (0, 0)\<rparr>"

definition pages_size :: "server \<Rightarrow> u64" where
  "pages_size sv = (fst (sv_pagecachesz sv) + snd (sv_pagecachesz sv)) * of_nat PAGESZ"

definition pagecache_size :: "server \<Rightarrow> u64" where
  "pagecache_size sv = pagecache_get_required_memory_size (fst (sv_pagecachesz sv)) (snd (sv_pagecachesz sv))"

definition fdcache_size :: "server \<Rightarrow> u64" where
  "fdcache_size sv = fdcache_get_required_memory_size (fst (sv_fdcachesz sv)) (snd (sv_fdcachesz sv))"

text \<open>A Tran is its key and a flag, 16 bytes.\<close>

definition tran_size :: "server \<Rightarrow> u64" where
  "tran_size sv = ihash_get_required_memory_size (fst (sv_transz sv)) (snd (sv_transz sv)) 16"

text \<open>pagecache_init, fdcache_init and ihash_init return their memory, or NULL for no buckets.\<close>

definition cache_init :: "mptr \<Rightarrow> u64 \<times> u64 \<Rightarrow> mptr" where
  "cache_init p sz = (if fst sz = 0 then PNull else p)"

text \<open>What the four calls of mmap return.\<close>

record mmaps =
  mm_pages :: mptr
  mm_pagecache :: mptr
  mm_fdcache :: mptr
  mm_tran :: mptr

datatype outcome = Exited int | Returned int

text \<open>The labels of the errors, each falling through to the ones below it.\<close>

definition err_g_fdcache :: "server \<Rightarrow> caches \<Rightarrow> mcall list" where
  "err_g_fdcache sv c = [Munmap (c_fdcache c) (fdcache_size sv)]"

definition err_g_pages :: "server \<Rightarrow> caches \<Rightarrow> mcall list" where
  "err_g_pages sv c = Munmap (c_pages c) (pages_size sv) # err_g_fdcache sv c"

definition err_g_tran :: "server \<Rightarrow> caches \<Rightarrow> mcall list" where
  "err_g_tran sv c = Munmap (c_tran c) (tran_size sv) # err_g_pages sv c"

definition caches_create :: "mmaps \<Rightarrow> server \<Rightarrow> caches \<Rightarrow> mcall list \<times> caches \<times> outcome" where
  "caches_create mm sv c =
     (let c = c\<lparr>c_pages := mm_pages mm\<rparr>; calls = [Mmap (mm_pages mm) (pages_size sv)] in
      if c_pages c = MAP_FAILED then (calls, c, Exited 1)
      else
      let c = c\<lparr>c_pagecache := mm_pagecache mm\<rparr>; calls = calls @ [Mmap (mm_pagecache mm) (pagecache_size sv)] in
      if c_pagecache c = MAP_FAILED then (calls @ err_g_fdcache sv c, c, Returned 1)
      else
      let c = c\<lparr>c_pagecache := cache_init (c_pagecache c) (sv_pagecachesz sv)\<rparr> in
      if c_pagecache c = PNull then (calls @ err_g_fdcache sv c, c, Returned 1)
      else
      let c = c\<lparr>c_fdcache := mm_fdcache mm\<rparr>; calls = calls @ [Mmap (mm_fdcache mm) (fdcache_size sv)] in
      if c_fdcache c = MAP_FAILED then (calls @ err_g_pages sv c, c, Returned 1)
      else
      let c = c\<lparr>c_fdcache := cache_init (c_fdcache c) (sv_fdcachesz sv)\<rparr> in
      if c_fdcache c = PNull then (calls @ err_g_pages sv c, c, Returned 1)
      else
      let c = c\<lparr>c_tran := mm_tran mm\<rparr>; calls = calls @ [Mmap (mm_tran mm) (tran_size sv)] in
      if c_tran c = MAP_FAILED then (calls @ err_g_pages sv c, c, Returned 1)
      else
      let c = c\<lparr>c_tran := cache_init (c_tran c) (sv_fdcachesz sv), c_tran_hash := sv_fdcachesz sv\<rparr> in
      if c_tran c = PNull then (calls @ err_g_tran sv c, c, Returned 1)
      else (calls, c, Returned 0))"

definition free_one :: "mptr \<Rightarrow> u64 \<Rightarrow> mcall list" where
  "free_one p sz = (if p \<noteq> PNull \<and> p \<noteq> MAP_FAILED then [Munmap p sz] else [])"

text \<open>The return values of munmap only choose a message; the pointers keep their values.\<close>

definition caches_free :: "server \<Rightarrow> caches \<Rightarrow> mcall list" where
  "caches_free sv c = free_one (c_tran c) (tran_size sv) @ free_one (c_fdcache c) (fdcache_size sv) @
     free_one (c_pagecache c) (pagecache_size sv) @ free_one (c_pages c) (pages_size sv)"

section \<open>The cluster table\<close>

definition name_is :: "datum \<Rightarrow> string \<Rightarrow> bool option" where
  "name_is name s = eq_character name (make_char (ascii s))"

definition file_pair :: "datum \<Rightarrow> datum \<Rightarrow> gid_pair" where
  "file_pair header data = \<lparr>gp_header = gid_parts (dt_bigint header) 0, gp_data = gid_parts (dt_bigint data) 0\<rparr>"

text \<open>A port out of range leaves the default.\<close>

definition set_port :: "server \<Rightarrow> datum \<Rightarrow> server" where
  "set_port sv data = (if sint (dt_bigint data) < 0 then sv else if sint (dt_bigint data) > 65535 then sv
     else sv\<lparr>sv_port := ucast (dt_bigint data)\<rparr>)"

text \<open>The chain of else-ifs, each name with its action.\<close>

definition parameters :: "server \<Rightarrow> datum \<Rightarrow> datum \<Rightarrow> datum \<Rightarrow> (string \<times> server option) list" where
  "parameters sv str header data =
    [(''encoding'', map_option (\<lambda>e. sv\<lparr>sv_encoding := Some e\<rparr>) (datum_sdup str)),
     (''backlog'', Some (sv\<lparr>sv_backlog := ucast (dt_bigint data)\<rparr>)),
     (''port'', Some (set_port sv data)),
     (''pagecache_size'', Some (sv\<lparr>sv_pagecachesz := (dt_bigint header, dt_bigint data)\<rparr>)),
     (''fdcache_size'', Some (sv\<lparr>sv_fdcachesz := (dt_bigint header, dt_bigint data)\<rparr>)),
     (''tran_size'', Some (sv\<lparr>sv_transz := (dt_bigint header, dt_bigint data)\<rparr>)),
     (''sequence'', Some (sv\<lparr>sv_sequence := file_pair header data\<rparr>)),
     (''cluster'', Some (sv\<lparr>sv_cluster := file_pair header data\<rparr>)),
     (''user'', Some (sv\<lparr>sv_user := file_pair header data\<rparr>)),
     (''catalog'', Some (sv\<lparr>sv_catalog := file_pair header data\<rparr>)),
     (''schema'', Some (sv\<lparr>sv_schema := file_pair header data\<rparr>)),
     (''relation'', Some (sv\<lparr>sv_relation := file_pair header data\<rparr>)),
     (''tran'', Some (sv\<lparr>sv_tran := gid_parts (dt_bigint data) 0\<rparr>))]"

fun choose_parameter :: "datum \<Rightarrow> server \<Rightarrow> (string \<times> server option) list \<Rightarrow> server option" where
  "choose_parameter name sv [] = Some sv"
| "choose_parameter name sv ((s, act) # ps) = do {
     b \<leftarrow> name_is name s;
     if b then act else choose_parameter name sv ps }"

record cluster_idx =
  name_idx :: u16
  string_idx :: u16
  header_idx :: u16
  data_idx :: u16

partial_function (option) read_cluster ::
    "tran_page \<Rightarrow> store \<Rightarrow> cluster_idx \<Rightarrow> server \<Rightarrow> titor \<Rightarrow> server option" where
  "read_cluster tp s ix sv i = Option.bind (titor_is_valid s i) (\<lambda>valid.
     if \<not> valid then Some sv
     else Option.bind (titor_get_datum s i (name_idx ix)) (\<lambda>name.
       Option.bind (titor_get_datum s i (string_idx ix)) (\<lambda>str.
       Option.bind (titor_get_datum s i (header_idx ix)) (\<lambda>header.
       Option.bind (titor_get_datum s i (data_idx ix)) (\<lambda>data.
       Option.bind (choose_parameter name sv (parameters sv str header data)) (\<lambda>sv.
       Option.bind (titor_next tp s i) (\<lambda>i. read_cluster tp s ix sv i)))))))"

declare read_cluster.simps [code]

text \<open>\<open>Some None\<close> is a column that is not found, on which the server exits.\<close>

definition cluster_columns :: "hgrid \<Rightarrow> cluster_idx option" where
  "cluster_columns h = (let i = \<lparr>name_idx = hgrid_get_column_idx h (ascii ''name''), string_idx = hgrid_get_column_idx h (ascii ''string''),
       header_idx = hgrid_get_column_idx h (ascii ''header''), data_idx = hgrid_get_column_idx h (ascii ''data'')\<rparr> in
     if grid_idx_is_valid (name_idx i) \<and> grid_idx_is_valid (string_idx i) \<and> grid_idx_is_valid (header_idx i) \<and>
        grid_idx_is_valid (data_idx i) then Some i else None)"

definition load_cluster :: "tran_page \<Rightarrow> store \<Rightarrow> server \<Rightarrow> server option option" where
  "load_cluster tp s sv = (let gp = sv_cluster sv in do {
     hcluster \<leftarrow> st_h s (gp_header gp);
     (case cluster_columns hcluster of None \<Rightarrow> Some None
      | Some ix \<Rightarrow> do {
          cluster \<leftarrow> st_d s (gp_data gp);
          if g_content cluster \<noteq> GC_PURE then None
          else do {
            i \<leftarrow> titor_init tp s None gp (gp_header gp) (gp_data gp);
            map_option Some (read_cluster tp s ix sv i) } }) })"

section \<open>Starting and stopping\<close>

definition caches_differ :: "server \<Rightarrow> bool" where
  "caches_differ sv \<longleftrightarrow> sv_pagecachesz sv \<noteq> (DEFAULT_PAGECACHESZ0, DEFAULT_PAGECACHESZ1) \<or>
     sv_fdcachesz sv \<noteq> (DEFAULT_FDCACHESZ0, DEFAULT_FDCACHESZ1)"

definition remake_caches :: "mmaps \<Rightarrow> server \<Rightarrow> caches \<Rightarrow> mcall list \<times> caches \<times> outcome" where
  "remake_caches mm sv c = (let (calls, c', res) = caches_create mm sv c in (caches_free sv c @ calls, c', res))"

text \<open>What the system calls return: the two runs of caches_create, and errno of chdir, 0 for success.\<close>

record start_env =
  se_argc :: int
  se_directory :: bool
  se_chdir :: int
  se_first :: mmaps
  se_second :: mmaps
  se_tcp :: int
  se_sigaction :: int

definition server_init ::
    "start_env \<Rightarrow> tran_page \<Rightarrow> store \<Rightarrow> (mcall list \<times> caches \<times> server \<times> outcome) option" where
  "server_init env tp s =
     (if se_argc env \<noteq> 2 \<or> \<not> se_directory env then Some ([], caches_none, server_default, Exited 1)
      else if se_chdir env \<noteq> 0 then Some ([], caches_none, server_default, Exited (se_chdir env))
      else let sv = server_default; (calls, c, res) = caches_create (se_first env) sv caches_none in
      if res \<noteq> Returned 0 then Some (calls, c, sv, Exited 1)
      else Option.bind (load_cluster tp s sv) (\<lambda>r. case r of
        None \<Rightarrow> Some (calls, c, sv, Exited 1)
      | Some sv \<Rightarrow>
        let (calls, c, res) = (if caches_differ sv
            then (let (calls', c, res) = remake_caches (se_second env) sv c in (calls @ calls', c, res))
            else (calls, c, Returned 0)) in
        if res \<noteq> Returned 0 then Some (calls, c, sv, Exited 1)
        else if se_tcp env \<noteq> 0 \<or> se_sigaction env = -1 then Some (calls @ caches_free sv c, c, sv, Returned 1)
        else Some (calls, c, sv, Returned 0)))"

definition server_drop :: "server \<Rightarrow> caches \<Rightarrow> mcall list \<times> int" where
  "server_drop sv c = (caches_free sv c, 0)"

text \<open>What the statements see of the server; g_sequence is never set there.\<close>

definition system_of :: "server \<Rightarrow> server_sys" where
  "system_of sv = \<lparr>sys_sequence = sv_sequence sv, sys_user = sv_user sv, sys_catalog = sv_catalog sv, sys_schema = sv_schema sv,
     sys_relation = sv_relation sv, g_sequence = GP_UNDEF\<rparr>"

end
