(* ===== verification/Scr_Init.thy ===== *)
theory Scr_Init
  imports Scr_Server
begin

text \<open>
  \<^verbatim>\<open>src/scri/main.c\<close>: the program that creates a cluster, the files the server starts
  from. init_cluster writes the sequence that numbers the files, the cluster table with the
  parameters of the server and the gids of the system tables, these tables, and the page of
  transaction flags. The files are the store of pages; what mkdir and chdir return are
  arguments, and page flushes, which do not change what the store gives back, and messages
  are left out. \<open>None\<close> is a failed assert or a NULL dereference. \<open>junk\<close> is the
  transaction pointer of the iterator \<open>row\<close>, which is declared without a value.
\<close>

section \<open>The fixed pages\<close>

definition gp_sequence :: gid_pair where
  "gp_sequence = \<lparr>gp_header = SEQUENCE_HEADER_GID, gp_data = SEQUENCE_DATA_GID\<rparr>"

definition gp_cluster :: gid_pair where
  "gp_cluster = \<lparr>gp_header = CLUSTER_HEADER_GID, gp_data = CLUSTER_DATA_GID\<rparr>"

definition calculate_sequence_start :: i64 where
  "calculate_sequence_start =
     (let smax = if SEQUENCE_HEADER_GID > SEQUENCE_DATA_GID then SEQUENCE_HEADER_GID else SEQUENCE_DATA_GID;
          cmax = if CLUSTER_HEADER_GID > CLUSTER_DATA_GID then CLUSTER_HEADER_GID else CLUSTER_DATA_GID in
      if smax > cmax then smax + 1 else cmax + 1)"

section \<open>Tables\<close>

text \<open>The return value of htable_add_column is ignored.\<close>

fun add_all :: "hgrid \<Rightarrow> (string \<times> sql_type \<times> u64) list \<Rightarrow> hgrid option" where
  "add_all h [] = Some h"
| "add_all h ((name, type, sz) # cs) = do { (h, _) \<leftarrow> htable_add_column h (ascii name) type sz; add_all h cs }"

definition init_header :: "store \<Rightarrow> gid \<Rightarrow> (string \<times> sql_type \<times> u64) list \<Rightarrow> store option" where
  "init_header s g cs = do {
     h \<leftarrow> htable_init (of_nat PAGESZ) GL_FIXED GC_PURE;
     h \<leftarrow> h;
     h \<leftarrow> add_all h cs;
     Some (s\<lparr>st_h := (st_h s)(g \<mapsto> h)\<rparr>) }"

definition init_data :: "store \<Rightarrow> gid_pair \<Rightarrow> store option" where
  "init_data s gp = do {
     h \<leftarrow> st_h s (gp_header gp);
     d \<leftarrow> dtable_init (of_nat PAGESZ) GL_FIXED GC_PURE h;
     Some (put_data s (gp_data gp) d) }"

text \<open>The gid of a new file; the return value of sequence_nextval is ignored, \<open>currval\<close> must be set.\<close>

definition next_gid :: "store \<Rightarrow> (store \<times> gid) option" where
  "next_gid s = do {
     (s, currval, _) \<leftarrow> store_nextval s gp_sequence;
     currval \<leftarrow> currval;
     Some (s, gid_parts currval 0) }"

text \<open>The header, then the data page, each in a file of its own.\<close>

definition init_table :: "store \<Rightarrow> (string \<times> sql_type \<times> u64) list \<Rightarrow> (store \<times> gid_pair) option" where
  "init_table s cs = do {
     (s, hg) \<leftarrow> next_gid s;
     s \<leftarrow> init_header s hg cs;
     (s, dg) \<leftarrow> next_gid s;
     let gp = \<lparr>gp_header = hg, gp_data = dg\<rparr>;
     s \<leftarrow> init_data s gp;
     Some (s, gp) }"

section \<open>The rows of the cluster table\<close>

text \<open>\<open>tail\<close> is the global gp_cluster, which table_alloc_row moves to the last page.\<close>

definition add_gid_pair :: "tran option \<Rightarrow> gid \<Rightarrow> store \<Rightarrow> gid_pair \<Rightarrow> string \<Rightarrow> gid_pair \<Rightarrow> (store \<times> gid_pair \<times> int) option" where
  "add_gid_pair junk hcluster s tail name gidp = do {
     h \<leftarrow> st_h s hcluster;
     let name_idx = hgrid_get_column_idx h (ascii ''name'');
     let header_idx = hgrid_get_column_idx h (ascii ''header'');
     let data_idx = hgrid_get_column_idx h (ascii ''data'');
     (s, tail, row) \<leftarrow> table_alloc_row gp_sequence s \<lparr>t_m = mitor_init_invalid, t_tran = junk\<rparr> tail;
     if grid_idx_is_valid name_idx \<and> grid_idx_is_valid header_idx \<and> grid_idx_is_valid data_idx then do {
       (s, ret) \<leftarrow> put_all s row [(name_idx, make_char (ascii name)), (header_idx, make_bigint (gp_header gidp)),
         (data_idx, make_bigint (gp_data gidp))];
       Some (s, tail, ret) }
     else None }"

text \<open>The return values of add_gid_pair are ignored.\<close>

fun add_gid_pairs :: "tran option \<Rightarrow> gid \<Rightarrow> store \<Rightarrow> gid_pair \<Rightarrow> (string \<times> gid_pair) list \<Rightarrow> (store \<times> gid_pair) option" where
  "add_gid_pairs junk hc s tail [] = Some (s, tail)"
| "add_gid_pairs junk hc s tail ((name, gp) # ps) = do {
     (s, tail, _) \<leftarrow> add_gid_pair junk hc s tail name gp;
     add_gid_pairs junk hc s tail ps }"

definition sizes_pair :: "u64 \<Rightarrow> u64 \<Rightarrow> gid_pair" where
  "sizes_pair a b = \<lparr>gp_header = a, gp_data = b\<rparr>"

text \<open>\<open>Some (s, 1)\<close> is the early return of init_cluster.\<close>

definition init_sequence :: "store \<Rightarrow> (store \<times> int) option" where
  "init_sequence s = do {
     (h, ret) \<leftarrow> hsequence_init;
     let s = s\<lparr>st_h := (st_h s)(gp_header gp_sequence \<mapsto> h)\<rparr>;
     if ret \<noteq> 0 then Some (s, 1)
     else do {
       (d, _) \<leftarrow> sequence_init h 0 INT64_MAX calculate_sequence_start 1 False;
       d \<leftarrow> d;
       Some (put_data s (gp_data gp_sequence) d, 0) } }"

definition cluster_cols :: "(string \<times> sql_type \<times> u64) list" where
  "cluster_cols = [(''name'', T_CHAR, 32), (''string'', T_CHAR, 32), (''header'', T_BIGINT, 0), (''data'', T_BIGINT, 0)]"

text \<open>The cluster table, up to the row \<open>cluster\<close>. The rows of \<open>encoding\<close> are put into \<open>result\<close>.\<close>

definition init_cluster_table :: "tran option \<Rightarrow> store \<Rightarrow> (store \<times> gid_pair \<times> int) option" where
  "init_cluster_table junk s = (let hc = gp_header gp_cluster in do {
     s \<leftarrow> init_header s hc cluster_cols;
     name_idx \<leftarrow> column_idx s hc ''name'';
     string_idx \<leftarrow> column_idx s hc ''string'';
     s \<leftarrow> init_data s gp_cluster;
     (s, tail, row) \<leftarrow> table_alloc_row gp_sequence s \<lparr>t_m = mitor_init_invalid, t_tran = junk\<rparr> gp_cluster;
     (s, result) \<leftarrow> put_all s row [(name_idx, make_char (ascii ''encoding'')), (string_idx, make_char (ascii ''UTF-8''))];
     (s, tail) \<leftarrow> add_gid_pairs junk hc s tail
       [(''backlog'', sizes_pair 0 (scast DEFAULT_BACKLOG)), (''port'', sizes_pair 0 (ucast DEFAULT_PORT)),
        (''pagecache_size'', sizes_pair DEFAULT_PAGECACHESZ0 DEFAULT_PAGECACHESZ1),
        (''fdcache_size'', sizes_pair DEFAULT_FDCACHESZ0 DEFAULT_FDCACHESZ1),
        (''tran_size'', sizes_pair DEFAULT_TRANSZ0 DEFAULT_TRANSZ1),
        (''sequence'', gp_sequence)];
     (s, tail) \<leftarrow> add_gid_pairs junk hc s tail [(''cluster'', tail)];
     Some (s, tail, result) })"

text \<open>The user table holds one user.\<close>

definition init_user :: "tran option \<Rightarrow> store \<Rightarrow> (store \<times> gid_pair \<times> int) option" where
  "init_user junk s = do {
     (s, gp) \<leftarrow> init_table s [(''name'', T_CHAR, 32)];
     name_idx \<leftarrow> column_idx s (gp_header gp) ''name'';
     (s, gp, row) \<leftarrow> table_alloc_row gp_sequence s \<lparr>t_m = mitor_init_invalid, t_tran = junk\<rparr> gp;
     (s, ret) \<leftarrow> put_all s row [(name_idx, make_char (ascii ''scroller''))];
     Some (s, gp, ret) }"

definition catalog_cols :: "(string \<times> sql_type \<times> u64) list" where
  "catalog_cols = [(''name'', T_CHAR, 32), (''tran_sequence'', T_BIGINT, 0)]"

definition schema_cols :: "(string \<times> sql_type \<times> u64) list" where
  "schema_cols = [(''catalog'', T_CHAR, 32), (''schema'', T_CHAR, 32)]"

definition relation_cols :: "(string \<times> sql_type \<times> u64) list" where
  "relation_cols = [(''catalog'', T_CHAR, 32), (''schema'', T_CHAR, 32), (''relation'', T_CHAR, 32),
     (''header_gid'', T_BIGINT, 0), (''data_gid'', T_BIGINT, 0), (''tail_gid'', T_BIGINT, 0)]"

text \<open>The page of transaction flags after the memset.\<close>

definition zero_tran_page :: tran_page where
  "zero_tran_page = \<lparr>tp_start = 0, tp_datum = replicate (PAGESZ - 8) 0\<rparr>"

text \<open>The pages of the tables, the page of flags once it is written, and the return value.\<close>

definition init_cluster :: "tran option \<Rightarrow> int \<Rightarrow> int \<Rightarrow> store \<Rightarrow> (store \<times> (gid \<times> tran_page) option \<times> int) option" where
  "init_cluster junk mkdir chdir s =
     (if mkdir \<noteq> 0 then Some (s, None, mkdir)
      else if chdir \<noteq> 0 then Some (s, None, chdir)
      else do {
        (s, ret) \<leftarrow> init_sequence s;
        if ret \<noteq> 0 then Some (s, None, ret)
        else do {
          let hc = gp_header gp_cluster;
          (s, tail, result) \<leftarrow> init_cluster_table junk s;
          (s, gp_user, ret) \<leftarrow> init_user junk s;
          (s, tail) \<leftarrow> add_gid_pairs junk hc s tail [(''user'', gp_user)];
          (s, gp_catalog) \<leftarrow> init_table s catalog_cols;
          (s, tail) \<leftarrow> add_gid_pairs junk hc s tail [(''catalog'', gp_catalog)];
          (s, gp_schema) \<leftarrow> init_table s schema_cols;
          (s, tail) \<leftarrow> add_gid_pairs junk hc s tail [(''schema'', gp_schema)];
          (s, gp_relation) \<leftarrow> init_table s relation_cols;
          (s, tail) \<leftarrow> add_gid_pairs junk hc s tail [(''relation'', gp_relation)];
          (s, tran) \<leftarrow> next_gid s;
          (s, tail) \<leftarrow> add_gid_pairs junk hc s tail [(''tran'', \<lparr>gp_header = GID_UNDEF, gp_data = tran\<rparr>)];
          Some (s, Some (tran, zero_tran_page), or result ret) } })"

end
