(* ===== verification/Scr_Server_Laws.thy ===== *)
theory Scr_Server_Laws
  imports Scr_Server Scr_Dml_Laws
begin

text \<open>
  What the server reads of the cluster table: the loop of server_init is a fold over the rows
  of the table, each row setting the parameter it names. And what its calls of mmap and munmap
  leave mapped.
\<close>

section \<open>Rows of parameters\<close>

record crow =
  cr_name :: "u8 list"
  cr_string :: "u8 list"
  cr_header :: i64
  cr_data :: i64

definition cluster_row :: "hgrid \<Rightarrow> cluster_idx \<Rightarrow> u8 list \<Rightarrow> crow" where
  "cluster_row h ix r = \<lparr>cr_name = rtrim (cell_bytes h r (unat (name_idx ix))), cr_string = rtrim (cell_bytes h r (unat (string_idx ix))),
     cr_header = get_bigint (cell_bytes h r (unat (header_idx ix))), cr_data = get_bigint (cell_bytes h r (unat (data_idx ix)))\<rparr>"

text \<open>What a row says, and what it does to the server.\<close>

definition crow_pair :: "crow \<Rightarrow> gid_pair" where
  "crow_pair r = \<lparr>gp_header = gid_parts (cr_header r) 0, gp_data = gid_parts (cr_data r) 0\<rparr>"

definition port_of :: "i64 \<Rightarrow> u16 option" where
  "port_of v = (if 0 \<le> sint v \<and> sint v \<le> 65535 then Some (ucast v) else None)"

definition row_meaning :: "crow \<Rightarrow> (u8 list \<times> (server \<Rightarrow> server)) list" where
  "row_meaning r =
    [(ascii ''encoding'', sv_encoding_update (\<lambda>_. Some (cr_string r))),
     (ascii ''backlog'', sv_backlog_update (\<lambda>_. ucast (cr_data r))),
     (ascii ''port'', case port_of (cr_data r) of None \<Rightarrow> id | Some p \<Rightarrow> sv_port_update (\<lambda>_. p)),
     (ascii ''pagecache_size'', sv_pagecachesz_update (\<lambda>_. (cr_header r, cr_data r))),
     (ascii ''fdcache_size'', sv_fdcachesz_update (\<lambda>_. (cr_header r, cr_data r))),
     (ascii ''tran_size'', sv_transz_update (\<lambda>_. (cr_header r, cr_data r))),
     (ascii ''sequence'', sv_sequence_update (\<lambda>_. crow_pair r)),
     (ascii ''cluster'', sv_cluster_update (\<lambda>_. crow_pair r)),
     (ascii ''user'', sv_user_update (\<lambda>_. crow_pair r)),
     (ascii ''catalog'', sv_catalog_update (\<lambda>_. crow_pair r)),
     (ascii ''schema'', sv_schema_update (\<lambda>_. crow_pair r)),
     (ascii ''relation'', sv_relation_update (\<lambda>_. crow_pair r)),
     (ascii ''tran'', sv_tran_update (\<lambda>_. gid_parts (cr_data r) 0))]"

definition apply_row :: "crow \<Rightarrow> server \<Rightarrow> server" where
  "apply_row r = (case map_of (row_meaning r) (cr_name r) of None \<Rightarrow> id | Some f \<Rightarrow> f)"

section \<open>Choosing a parameter\<close>

lemma name_is_key:
  assumes "get_type_group (dt_type name) = TG_CHARACTER" "dt_readable name"
  shows "name_is name s = Some (dt_key name = rtrim (ascii s))"
proof -
  have g: "get_type_group (dt_type (make_char (ascii s))) = TG_CHARACTER" "dt_readable (make_char (ascii s))"
    "dt_key (make_char (ascii s)) = rtrim (ascii s)"
    by (simp_all add: make_char_def get_type_group_def dt_readable_def dt_bytes_def dt_key_def dt_str_def)
  obtain c where "cmp_character name (make_char (ascii s)) = Some c" "c = 0 \<longleftrightarrow> dt_key name = dt_key (make_char (ascii s))"
    using cmp_character_sign[OF assms(1) g(1) assms(2) g(2)] by blast
  then show ?thesis using g(3) by (simp add: name_is_def eq_character_def)
qed

lemma choose_parameter_map:
  assumes "get_type_group (dt_type name) = TG_CHARACTER" "dt_readable name"
  shows "choose_parameter name sv ps = (case map_of (map (\<lambda>(s, a). (rtrim (ascii s), a)) ps) (dt_key name) of
    None \<Rightarrow> Some sv | Some act \<Rightarrow> act)"
  by (induction ps) (auto simp: name_is_key[OF assms])

text \<open>The names end in letters, so they are not trimmed.\<close>

lemma rtrim_last: "xs \<noteq> [] \<Longrightarrow> last xs \<noteq> 32 \<Longrightarrow> rtrim xs = xs"
  by (cases xs rule: rev_cases) auto

lemma parameters_meaning:
  assumes str: "datum_sdup str = Some (cr_string r)" and num: "dt_bigint header = cr_header r" "dt_bigint data = cr_data r"
  shows "map (\<lambda>(s, a). (rtrim (ascii s), a)) (parameters sv str header data) =
    map (\<lambda>(k, f). (k, Some (f sv))) (row_meaning r)"
  by (simp add: parameters_def row_meaning_def rtrim_last ascii_def str num file_pair_def crow_pair_def set_port_def port_of_def
      split: option.splits)

lemma choose_parameter_row:
  assumes "get_type_group (dt_type name) = TG_CHARACTER" "dt_readable name" "dt_key name = cr_name r"
    and "datum_sdup str = Some (cr_string r)" "dt_bigint header = cr_header r" "dt_bigint data = cr_data r"
  shows "choose_parameter name sv (parameters sv str header data) = Some (apply_row r sv)"
proof -
  have "map_of (map (\<lambda>(k, f). (k, Some (f sv))) ms) n = map_option (\<lambda>f. Some (f sv)) (map_of ms n)" for ms :: "(u8 list \<times> (server \<Rightarrow> server)) list" and n
    by (induction ms) auto
  then show ?thesis
    unfolding choose_parameter_map[OF assms(1,2)] parameters_meaning[OF assms(4-6)] assms(3) apply_row_def
    by (simp split: option.splits)
qed

section \<open>Reading a row\<close>

text \<open>The columns of a cluster table, found and of the types init_cluster gives them.\<close>

definition cluster_header :: "hgrid \<Rightarrow> cluster_idx \<Rightarrow> bool" where
  "cluster_header h ix \<longleftrightarrow> hgrid_wf h \<and> cluster_columns h = Some ix \<and>
     (\<forall>c \<in> {name_idx ix, string_idx ix, header_idx ix, data_idx ix}. unat c < length (grid_list h)) \<and>
     (\<forall>c \<in> {name_idx ix, string_idx ix}. col_type (grid_list h ! unat c) = T_CHAR) \<and>
     (\<forall>c \<in> {header_idx ix, data_idx ix}. col_type (grid_list h ! unat c) = T_BIGINT)"

definition pure_table :: "store \<Rightarrow> gid_pair \<Rightarrow> hgrid \<Rightarrow> gid list \<Rightarrow> bool" where
  "pure_table s gp h gs \<longleftrightarrow> st_h s (gp_header gp) = Some h \<and> gp_header gp \<noteq> GID_UNDEF \<and> mesh_chain s (gp_data gp) gs \<and> gs \<noteq> [] \<and>
     (\<forall>g \<in> set gs. \<exists>d. st_d s g = Some d \<and> dgrid_ok h d \<and> g_content d = GC_PURE \<and> grid_list d \<noteq> [])"

lemma char_cell:
  assumes "dgrid_ok h d" "unat row < length (grid_list d)" "unat c < length (grid_list h)" "col_type (grid_list h ! unat c) = T_CHAR"
  obtains v where "grid_get_datum h d row c = Some v" "dt_type v = T_CHAR" "dt_readable v"
    "dt_key v = rtrim (cell_bytes h (grid_list d ! unat row) (unat c))" "datum_sdup v = Some (rtrim (cell_bytes h (grid_list d ! unat row) (unat c)))"
proof -
  have st: "stored_type (col_type (grid_list h ! unat c))" using assms(4) by (simp add: stored_type_def)
  have nth: "g_rows d ! unat row = grid_list d ! unat row" using assms(2) by (simp add: grid_list_def)
  note e = dgrid_cell[OF assms(1-3)]
  let ?c = "grid_list h ! unat c"
  obtain v where v: "grid_get_datum h d row c = Some v" "dt_type v = T_CHAR" "dt_readable v" "dt_str v = cell_bytes h (grid_list d ! unat row) (unat c)"
    using e assms(4) width_of_type(4)[OF assms(4)]
    by (simp add: grid_get_datum_def Let_def dt_readable_def dt_bytes_def dt_str_def cell_bytes_def nth take_drop_read col_end_def)
  have g: "get_type_group (dt_type v) = TG_CHARACTER" using v(2) by (simp add: get_type_group_def)
  obtain b where "to_base_type v = Some b" "dt_str b = dt_key v" using to_base_type_character[OF g v(3)] by blast
  then have "datum_sdup v = Some (dt_key v)" using v(2) by (simp add: datum_sdup_def dt_str_def)
  then show thesis using that v by (simp add: dt_key_def)
qed

lemma bigint_cell:
  assumes "dgrid_ok h d" "unat row < length (grid_list d)" "unat c < length (grid_list h)" "col_type (grid_list h ! unat c) = T_BIGINT"
  obtains v where "grid_get_datum h d row c = Some v" "dt_bigint v = get_bigint (cell_bytes h (grid_list d ! unat row) (unat c))"
proof -
  have nth: "g_rows d ! unat row = grid_list d ! unat row" using assms(2) by (simp add: grid_list_def)
  note e = dgrid_cell[OF assms(1-3)]
  show thesis
    by (rule that[of "\<lparr>dt_type = T_BIGINT, dt_size = unat (col_size (grid_list h ! unat c)),
        dt_int = get_bigint (cell_bytes h (grid_list d ! unat row) (unat c)), dt_chars = None\<rparr>"])
      (use e assms(4) width_of_type(3)[OF assms(4)] in
        \<open>simp_all add: grid_get_datum_def Let_def cell_read_def cell_bytes_def nth col_end_def\<close>)
qed

section \<open>The loop\<close>

text \<open>An iterator that is at a row of the table.\<close>

definition titor_pure :: "store \<Rightarrow> gid \<Rightarrow> hgrid \<Rightarrow> gid list \<Rightarrow> nat \<Rightarrow> titor \<Rightarrow> bool" where
  "titor_pure s hg h gs i t \<longleftrightarrow> mitor_at s gs i (t_m t) \<and> m_header (t_m t) = Some hg \<and> st_h s hg = Some h \<and>
     (\<forall>g \<in> set gs. \<exists>d. st_d s g = Some d \<and> dgrid_ok h d \<and> g_content d = GC_PURE)"

lemma titor_pure_page:
  assumes "titor_pure s hg h gs i t"
  obtains d where "st_d s (hd gs) = Some d" "dgrid_ok h d" "g_content d = GC_PURE" "m_data (t_m t) = Some (hd gs)"
    "unat (m_row (t_m t)) = i" "page_len s (hd gs) = length (grid_list d)"
proof -
  have "hd gs \<in> set gs" "m_data (t_m t) = Some (hd gs)" "unat (m_row (t_m t)) = i"
    using assms by (auto simp: titor_pure_def mitor_at_def)
  moreover from this obtain d where "st_d s (hd gs) = Some d" "dgrid_ok h d" "g_content d = GC_PURE"
    using assms by (auto simp: titor_pure_def)
  ultimately show thesis using that by (simp add: page_len_def page_rows_def)
qed

lemma read_cluster_on:
  assumes h: "cluster_header h ix"
  shows "titor_pure s hg h gs i t \<Longrightarrow> read_cluster tp s ix sv t =
    Some (fold apply_row (map (\<lambda>p. cluster_row h ix (page_rows s (fst p) ! snd p)) (positions s gs i)) sv)"
proof (induction "length (positions s gs i)" arbitrary: gs i t sv rule: less_induct)
  case less
  obtain d where d: "st_d s (hd gs) = Some d" "dgrid_ok h d" "g_content d = GC_PURE" "m_data (t_m t) = Some (hd gs)"
    "unat (m_row (t_m t)) = i" "page_len s (hd gs) = length (grid_list d)"
    using less.prems by (rule titor_pure_page)
  have at: "mitor_at s gs i (t_m t)" "m_header (t_m t) = Some hg" "st_h s hg = Some h"
    using less.prems by (auto simp: titor_pure_def)
  have content: "titor_content s t = Some GC_PURE" using d by (simp add: titor_content_def)
  have valid: "titor_is_valid s t = Some (i < page_len s (hd gs))"
    using mitor_at_valid[OF at(1)] content by (simp add: titor_is_valid_def)
  show ?case
  proof (cases "i < page_len s (hd gs)")
    case False
    then show ?thesis using valid positions_at_end[OF at(1) False] by (subst read_cluster.simps) simp
  next
    case True
    let ?r = "page_rows s (hd gs) ! i"
    have rows: "grid_list d ! i = ?r" "i < length (grid_list d)" using d True by (simp_all add: page_rows_def)
    have get: "titor_get_datum s t c = grid_get_datum h d (m_row (t_m t)) c" for c
      using at(2,3) d by (simp add: titor_get_datum_def mitor_get_datum_def)
    have row: "unat (m_row (t_m t)) < length (grid_list d)" using rows(2) d(5) by simp
    have cs: "\<forall>c \<in> {name_idx ix, string_idx ix, header_idx ix, data_idx ix}. unat c < length (grid_list h)"
      "\<forall>c \<in> {name_idx ix, string_idx ix}. col_type (grid_list h ! unat c) = T_CHAR"
      "\<forall>c \<in> {header_idx ix, data_idx ix}. col_type (grid_list h ! unat c) = T_BIGINT"
      using h unfolding cluster_header_def by blast+
    obtain nm where nm: "titor_get_datum s t (name_idx ix) = Some nm" "dt_type nm = T_CHAR" "dt_readable nm"
      "dt_key nm = rtrim (cell_bytes h ?r (unat (name_idx ix)))"
      using char_cell[OF d(2) row, of "name_idx ix"] cs unfolding get d(5) rows(1) by auto
    obtain st where st: "titor_get_datum s t (string_idx ix) = Some st" "datum_sdup st = Some (rtrim (cell_bytes h ?r (unat (string_idx ix))))"
      using char_cell[OF d(2) row, of "string_idx ix"] cs unfolding get d(5) rows(1) by auto
    obtain hv where hv: "titor_get_datum s t (header_idx ix) = Some hv" "dt_bigint hv = get_bigint (cell_bytes h ?r (unat (header_idx ix)))"
      using bigint_cell[OF d(2) row, of "header_idx ix"] cs unfolding get d(5) rows(1) by auto
    obtain da where da: "titor_get_datum s t (data_idx ix) = Some da" "dt_bigint da = get_bigint (cell_bytes h ?r (unat (data_idx ix)))"
      using bigint_cell[OF d(2) row, of "data_idx ix"] cs unfolding get d(5) rows(1) by auto
    have grp: "get_type_group (dt_type nm) = TG_CHARACTER" using nm(2) by (simp add: get_type_group_def)
    have choose: "choose_parameter nm sv (parameters sv st hv da) = Some (apply_row (cluster_row h ix ?r) sv)"
      by (rule choose_parameter_row[OF grp nm(3)]) (use nm st hv da in \<open>simp_all add: cluster_row_def\<close>)
    obtain m' gs' i' where m': "mitor_next s (t_m t) = Some m'" "mitor_at s gs' i' m'" "m_header m' = m_header (t_m t)"
      "set gs' \<subseteq> set gs" "positions s gs i = (hd gs, i) # positions s gs' i'"
      using mitor_next_at[OF at(1) True] by blast
    have nxt: "titor_next tp s t = Some (t\<lparr>t_m := m'\<rparr>)" using m'(1) content by (simp add: titor_next_def)
    have "titor_pure s hg h gs' i' (t\<lparr>t_m := m'\<rparr>)"
      using less.prems m'(2,3,4) at(2) by (auto simp: titor_pure_def)
    from less.hyps[OF _ this, of "apply_row (cluster_row h ix ?r) sv"] show ?thesis
      using valid True nm(1) st(1) hv(1) da(1) choose nxt m'(5) by (subst read_cluster.simps) simp
  qed
qed

lemma load_cluster_folds:
  assumes "pure_table s (sv_cluster sv) h gs" "cluster_header h ix"
  shows "load_cluster tp s sv =
    Some (Some (fold apply_row (map (\<lambda>p. cluster_row h ix (page_rows s (fst p) ! snd p)) (positions s gs 0)) sv))"
proof -
  let ?gp = "sv_cluster sv"
  have pt: "st_h s (gp_header ?gp) = Some h" "gp_header ?gp \<noteq> GID_UNDEF" "mesh_chain s (gp_data ?gp) gs" "gs \<noteq> []"
    "\<forall>g \<in> set gs. \<exists>d. st_d s g = Some d \<and> dgrid_ok h d \<and> g_content d = GC_PURE \<and> grid_list d \<noteq> []"
    using assms(1) unfolding pure_table_def by blast+
  have hd: "gp_data ?gp = hd gs" using mesh_chain_next[OF pt(3,4)] .
  obtain d where d: "st_d s (hd gs) = Some d" "g_content d = GC_PURE" using pt(4,5) by (meson hd_in_set)
  let ?t = "\<lparr>t_m = mitor_init ?gp (gp_header ?gp) (gp_data ?gp), t_tran = None\<rparr>"
  have init: "titor_init tp s None ?gp (gp_header ?gp) (gp_data ?gp) = Some ?t"
    using d hd by (simp add: titor_init_def titor_content_def mitor_init_def)
  have "\<forall>g \<in> set gs. page_len s g \<noteq> 0" using pt(5) by (fastforce simp: page_len_def page_rows_def)
  then have "mitor_at s gs 0 (t_m ?t)" using pt(2,3,4) hd by (simp add: mitor_at_def mitor_init_def)
  then have "titor_pure s (gp_header ?gp) h gs 0 ?t" using pt(1,5) by (auto simp: titor_pure_def mitor_init_def)
  then show ?thesis using read_cluster_on[OF assms(2)] pt(1) d hd init assms(2)
    by (simp add: load_cluster_def cluster_header_def)
qed

section \<open>What is mapped\<close>

text \<open>mmap and munmap work on whole pages.\<close>

definition page_span :: "nat \<Rightarrow> u64 \<Rightarrow> nat set" where
  "page_span a n = {a..<a + (unat n + PAGESZ - 1) div PAGESZ * PAGESZ}"

fun ptr_span :: "mptr \<Rightarrow> u64 \<Rightarrow> nat set" where
  "ptr_span (PAt a) n = page_span a n"
| "ptr_span _ n = {}"

fun call_effect :: "mcall \<Rightarrow> nat set \<Rightarrow> nat set" where
  "call_effect (Mmap p n) S = S \<union> ptr_span p n"
| "call_effect (Munmap p n) S = S - ptr_span p n"

definition mapped :: "mcall list \<Rightarrow> nat set \<Rightarrow> nat set" where
  "mapped cs S = fold call_effect cs S"

lemma mapped_simps [simp]: "mapped [] S = S" "mapped (c # cs) S = mapped cs (call_effect c S)"
    "mapped (cs @ cs') S = mapped cs' (mapped cs S)"
  by (simp_all add: mapped_def)

lemma mapped_free_one [simp]: "mapped (free_one p n) S = S - ptr_span p n"
  by (cases p) (simp_all add: free_one_def)

text \<open>The bytes of the four mappings for the sizes of a server.\<close>

definition cache_spans :: "mmaps \<Rightarrow> server \<Rightarrow> nat set" where
  "cache_spans mm sv = ptr_span (mm_pages mm) (pages_size sv) \<union> ptr_span (mm_pagecache mm) (pagecache_size sv) \<union>
     ptr_span (mm_fdcache mm) (fdcache_size sv) \<union> ptr_span (mm_tran mm) (tran_size sv)"

definition mmaps_succeed :: "mmaps \<Rightarrow> bool" where
  "mmaps_succeed mm \<longleftrightarrow> (\<exists>p q r t. mm = \<lparr>mm_pages = PAt p, mm_pagecache = PAt q, mm_fdcache = PAt r, mm_tran = PAt t\<rparr>)"

definition sizes_ok :: "server \<Rightarrow> bool" where
  "sizes_ok sv \<longleftrightarrow> fst (sv_pagecachesz sv) \<noteq> 0 \<and> fst (sv_fdcachesz sv) \<noteq> 0"

definition made_caches :: "mmaps \<Rightarrow> server \<Rightarrow> caches" where
  "made_caches mm sv = \<lparr>c_pages = mm_pages mm, c_pagecache = mm_pagecache mm, c_fdcache = mm_fdcache mm, c_tran = mm_tran mm,
     c_tran_hash = sv_fdcachesz sv\<rparr>"

lemma caches_create_succeeds:
  assumes "mmaps_succeed mm" "sizes_ok sv"
  shows "caches_create mm sv c = ([Mmap (mm_pages mm) (pages_size sv), Mmap (mm_pagecache mm) (pagecache_size sv),
    Mmap (mm_fdcache mm) (fdcache_size sv), Mmap (mm_tran mm) (tran_size sv)], made_caches mm sv, Returned 0)"
  using assms by (auto simp: mmaps_succeed_def sizes_ok_def caches_create_def Let_def cache_init_def made_caches_def)

lemma mapped_create:
  assumes "mmaps_succeed mm" "sizes_ok sv"
  shows "mapped (fst (caches_create mm sv c)) S = S \<union> cache_spans mm sv"
  unfolding caches_create_succeeds[OF assms] by (auto simp: cache_spans_def)

lemma mapped_free: "mapped (caches_free sv (made_caches mm sv')) S = S - cache_spans mm sv"
  by (auto simp: caches_free_def made_caches_def cache_spans_def)

text \<open>
  The transaction hash is initialised with the sizes of the descriptor cache, whatever the
  size of its mapping: with larger ones its nodes reach past it.
\<close>

lemma tran_hash_needs:
  assumes "mmaps_succeed mm" "sizes_ok sv" "caches_create mm sv c = (calls, c', res)"
  shows "c_tran_hash c' = sv_fdcachesz sv"
  using assms(3) caches_create_succeeds[OF assms(1,2), of c] by (auto simp: made_caches_def)

section \<open>From the start to the end of the server\<close>

text \<open>
  Everything that was mapped when the server has stopped or given up. The caches are freed by
  the sizes of the moment, which reading the cluster table may have changed.
\<close>

definition left_mapped :: "mcall list \<times> caches \<times> server \<times> outcome \<Rightarrow> nat set \<Rightarrow> nat set" where
  "left_mapped r S = (case r of (calls, c, sv, res) \<Rightarrow>
     mapped (if res = Returned 0 then calls @ fst (server_drop sv c) else calls) S)"

lemma sizes_ok_default: "sizes_ok server_default"
  by (simp add: sizes_ok_def server_default_def DEFAULT_PAGECACHESZ0_def DEFAULT_FDCACHESZ0_def)

definition created_calls :: "mmaps \<Rightarrow> server \<Rightarrow> mcall list" where
  "created_calls mm sv = [Mmap (mm_pages mm) (pages_size sv), Mmap (mm_pagecache mm) (pagecache_size sv),
     Mmap (mm_fdcache mm) (fdcache_size sv), Mmap (mm_tran mm) (tran_size sv)]"

lemma mapped_created: "mapped (created_calls mm sv) S = S \<union> cache_spans mm sv"
  by (auto simp: created_calls_def cache_spans_def)

lemma server_init_runs:
  assumes mm: "mmaps_succeed (se_first env)" "mmaps_succeed (se_second env)"
    and env: "se_argc env = 2" "se_directory env" "se_chdir env = 0"
    and load: "load_cluster tp s server_default = Some (Some sv)" "sizes_ok sv"
  shows "server_init env tp s = Some (let c1 = made_caches (se_first env) server_default; l1 = created_calls (se_first env) server_default;
      l = (if caches_differ sv then l1 @ caches_free sv c1 @ created_calls (se_second env) sv else l1);
      c = (if caches_differ sv then made_caches (se_second env) sv else c1) in
    if se_tcp env \<noteq> 0 \<or> se_sigaction env = -1 then (l @ caches_free sv c, c, sv, Returned 1) else (l, c, sv, Returned 0))"
proof -
  note a = caches_create_succeeds[OF mm(1) sizes_ok_default, folded created_calls_def, of caches_none]
  note b = caches_create_succeeds[OF mm(2) load(2), folded created_calls_def]
  show ?thesis
    by (simp add: server_init_def env load(1) a remake_caches_def b Let_def)
qed

lemma server_init_maps:
  assumes "mmaps_succeed (se_first env)" "mmaps_succeed (se_second env)"
    and "se_argc env = 2" "se_directory env" "se_chdir env = 0"
    and "load_cluster tp s server_default = Some (Some sv)" "sizes_ok sv"
  shows "\<exists>calls c res. server_init env tp s = Some (calls, c, sv, res) \<and>
    (res = Returned 0 \<longleftrightarrow> se_tcp env = 0 \<and> se_sigaction env \<noteq> -1) \<and>
    left_mapped (calls, c, sv, res) S = (S \<union> cache_spans (se_first env) server_default) - cache_spans (se_first env) sv -
      (if caches_differ sv then cache_spans (se_second env) sv else {})"
  unfolding server_init_runs[OF assms]
  by (auto simp: Let_def left_mapped_def server_drop_def mapped_free mapped_created split: if_splits)

lemma same_sizes_spans:
  assumes "sv_pagecachesz sv = sv_pagecachesz sv'" "sv_fdcachesz sv = sv_fdcachesz sv'" "sv_transz sv = sv_transz sv'"
  shows "cache_spans mm sv = cache_spans mm sv'"
  using assms by (simp add: cache_spans_def pages_size_def pagecache_size_def fdcache_size_def tran_size_def)

end
