(* ===== verification/Scr_Init_Laws.thy ===== *)
theory Scr_Init_Laws
  imports Scr_Init Scr_Server_Laws Scr_Sequence_Laws
begin

text \<open>
  The cluster that init_cluster writes is the one server_init reads: the sequence hands out
  the numbers of the files one after the other, every system table gets a header and an empty
  page of its own, and every row of the cluster table sets the parameter of the server it was
  written for.
\<close>

section \<open>The sequence of file numbers\<close>

definition main_state :: "int \<Rightarrow> seqv" where
  "main_state k = \<lparr>sv_min = 0, sv_max = 2 ^ 63 - 1, sv_last = (if k = 4 then 4 else k - 1), sv_inc = 1, sv_cycle = False,
     sv_called = (k \<noteq> 4)\<rparr>"

text \<open>The sequence whose next value is \<open>k\<close>.\<close>

definition main_seq :: "store \<Rightarrow> int \<Rightarrow> bool" where
  "main_seq s k \<longleftrightarrow> (\<exists>h d. st_h s 0 = Some h \<and> st_d s 1 = Some d \<and> seq_rep h d (main_state k))"

definition same_pages :: "gid set \<Rightarrow> store \<Rightarrow> store \<Rightarrow> bool" where
  "same_pages G s s' \<longleftrightarrow> (\<forall>g. g \<notin> G \<longrightarrow> st_d s' g = st_d s g)"

lemma same_pages_trans: "same_pages G s s' \<Longrightarrow> same_pages G' s' s'' \<Longrightarrow> same_pages (G \<union> G') s s''"
  by (simp add: same_pages_def)

lemma main_seq_cong:
  "main_seq s k \<Longrightarrow> st_h s' 0 = st_h s 0 \<Longrightarrow> st_d s' 1 = st_d s 1 \<Longrightarrow> main_seq s' k"
  by (simp add: main_seq_def)

lemma file_gid:
  assumes "0 \<le> k" "k < 2 ^ 40"
  shows "gid_parts (word_of_int k) 0 = word_of_int k"
proof -
  have "k < 2 ^ 64" using assms(2) by simp
  then have "uint (word_of_int k :: u64) = k" using assms(1) by (simp add: uint_word_of_int_eq take_bit_int_eq_self)
  moreover have "take_bit 40 k = k" using assms by (simp add: take_bit_int_eq_self)
  ultimately show ?thesis
    by (simp add: gid_parts_page0 GID_FILEIDBITS_def word_uint_eq_iff unsigned_take_bit_eq)
qed

lemma main_seq_counts:
  assumes m: "main_seq s k" and k: "4 \<le> k" "k < 2 ^ 40"
  obtains s' where "store_nextval s gp_sequence = Some (s', Some (word_of_int k), 0)" "main_seq s' (k + 1)" "st_h s' = st_h s" "same_pages {1} s s'"
proof -
  obtain h d where hd: "st_h s 0 = Some h" "st_d s 1 = Some d" "seq_rep h d (main_state k)"
    using m by (auto simp: main_seq_def)
  have "seq_safe (main_state k) Nextval" using k by (simp add: seq_safe_def main_state_def in_i64_def)
  then have sim: "seq_simulates h (sequence_nextval h d) (seq_spec (main_state k) Nextval)" by (rule nextval_simulates[OF hd(3)])
  have spec: "seq_spec (main_state k) Nextval = (main_state (k + 1), Some k, True)"
    using k by (auto simp: seq_next_def main_state_def)
  obtain d' v where d': "sequence_nextval h d = Some (d', v, 0)" "seq_rep h d' (main_state (k + 1))" "map_option sint v = Some k"
    using sim unfolding spec seq_simulates_def by auto
  then obtain w where w: "v = Some w" "sint w = k" by auto
  have "w = word_of_int k" unfolding w(2)[symmetric] by simp
  then have "store_nextval s gp_sequence = Some (put_data s 1 d', Some (word_of_int k), 0)"
    using hd(1,2) d'(1) w(1) by (simp add: store_nextval_def gp_sequence_def SEQUENCE_HEADER_GID_def SEQUENCE_DATA_GID_def)
  moreover have "main_seq (put_data s 1 d') (k + 1)" using hd(1) d'(2) by (auto simp: main_seq_def)
  ultimately show thesis using that by (simp add: same_pages_def)
qed

lemma next_gid_counts:
  assumes m: "main_seq s k" and k: "4 \<le> k" "k < 2 ^ 40"
  obtains s' where "next_gid s = Some (s', word_of_int k)" "main_seq s' (k + 1)" "st_h s' = st_h s" "same_pages {1} s s'"
proof -
  obtain s' where s': "store_nextval s gp_sequence = Some (s', Some (word_of_int k), 0)" "main_seq s' (k + 1)" "st_h s' = st_h s"
    "same_pages {1} s s'" by (rule main_seq_counts[OF m k])
  have "0 \<le> k" using k(1) by simp
  then have "next_gid s = Some (s', word_of_int k)" unfolding next_gid_def s'(1) using file_gid[OF _ k(2)] by simp
  then show thesis using that s'(2-4) by blast
qed

lemma sequence_start: "calculate_sequence_start = 4"
  by (simp add: calculate_sequence_start_def Let_def SEQUENCE_HEADER_GID_def SEQUENCE_DATA_GID_def CLUSTER_HEADER_GID_def CLUSTER_DATA_GID_def)

lemma init_sequence_ok:
  obtains s' h where "init_sequence s = Some (s', 0)" "main_seq s' 4" "st_h s' = (st_h s)(0 \<mapsto> h)" "same_pages {1} s s'"
proof -
  obtain h where h: "hsequence_init = Some (h, 0)" "bigint_header h" by (rule hsequence_init_ok)
  have mx: "sint INT64_MAX = 2 ^ 63 - 1" by (simp add: INT64_MAX_def)
  have ok: "seq_args_ok 0 INT64_MAX 4 1" unfolding seq_args_ok_def mx by simp
  obtain d where d: "sequence_init h 0 INT64_MAX 4 1 False = Some (Some d, 0)" "seq_rep h d (new_seq 0 INT64_MAX 4 1 False)"
    using sequence_init_ok[OF h(2) ok] by blast
  have "new_seq 0 INT64_MAX 4 1 False = main_state 4" by (simp add: new_seq_def main_state_def mx)
  then have rep: "seq_rep h d (main_state 4)" using d(2) by simp
  let ?s = "put_data (s\<lparr>st_h := (st_h s)(0 \<mapsto> h)\<rparr>) 1 d"
  have "init_sequence s = Some (?s, 0)"
    unfolding init_sequence_def h(1) sequence_start by (simp add: d(1) gp_sequence_def SEQUENCE_HEADER_GID_def SEQUENCE_DATA_GID_def)
  moreover have "main_seq ?s 4" using rep by (auto simp: main_seq_def)
  moreover have "same_pages {1} s ?s" by (simp add: same_pages_def)
  ultimately show thesis using that by simp
qed

section \<open>Fresh tables\<close>

abbreviation col_specs :: "(string \<times> sql_type \<times> u64) list \<Rightarrow> (u8 list \<times> sql_type \<times> u64) list" where
  "col_specs cs \<equiv> map (\<lambda>(n, t, z). (ascii n, t, z)) cs"

text \<open>A header with these columns, narrow enough for sixteen rows in a page.\<close>

definition has_columns :: "hgrid \<Rightarrow> (string \<times> sql_type \<times> u64) list \<Rightarrow> bool" where
  "has_columns h cs \<longleftrightarrow> hgrid_wf h \<and> map (\<lambda>c. (cname c, col_type c, col_size c)) (grid_list h) = col_specs cs \<and>
     0 < unat (g_datasz h) \<and> unat (g_datasz h) \<le> 240"

definition specs_ok :: "(string \<times> sql_type \<times> u64) list \<Rightarrow> bool" where
  "specs_ok cs \<longleftrightarrow> cs \<noteq> [] \<and> length cs \<le> 101 \<and> (\<forall>s \<in> set (col_specs cs). spec_ok s) \<and> sum_list (map spec_width (col_specs cs)) \<le> 120"

lemma add_all_columns: "add_columns h (col_specs cs) = Some h' \<Longrightarrow> add_all h cs = Some h'"
  by (induction cs arbitrary: h) (auto simp: htable_add_column_def hmesh_add_column_def split: option.splits prod.splits)

lemma init_header_ok:
  assumes cs: "specs_ok cs"
  obtains h where "init_header s g cs = Some (s\<lparr>st_h := (st_h s)(g \<mapsto> h)\<rparr>)" "has_columns h cs"
proof -
  have p: "24 \<le> unat (of_nat PAGESZ :: u16)" by (simp add: PAGESZ_def)
  obtain h0 where h0: "hgrid_init (of_nat PAGESZ) GL_FIXED GC_PURE = Some h0" "hgrid_wf h0" "grid_list h0 = []"
    "unat (g_rown h0) = (unat (of_nat PAGESZ :: u16) - 24) div 40" "g_datasz h0 = 0"
    using hgrid_init_wf[OF p] by metis
  let ?cs = "col_specs cs"
  have room: "length (grid_list h0) + length ?cs \<le> unat (g_rown h0)" using h0(3,4) cs by (simp add: PAGESZ_def specs_ok_def)
  have spec: "\<forall>s \<in> set ?cs. spec_ok s" and sum: "sum_list (map spec_width ?cs) \<le> 120" using cs unfolding specs_ok_def by blast+
  have small: "unat (g_datasz h0) + 2 * sum_list (map spec_width ?cs) \<le> 65535" using sum h0(5) by simp
  obtain h ds where h: "add_columns h0 ?cs = Some h" "hgrid_wf h"
    "unat (g_datasz h) \<le> unat (g_datasz h0) + 2 * sum_list (map spec_width ?cs)" "grid_list h = grid_list h0 @ ds"
    "map (\<lambda>c. (cname c, col_type c, col_size c)) ds = ?cs"
    using add_columns_ok[OF h0(2) room spec small] by (elim exE conjE) (rule that)
  have cols: "map (\<lambda>c. (cname c, col_type c, col_size c)) (grid_list h) = ?cs" using h(4,5) h0(3) by simp
  have ne: "grid_list h \<noteq> []" using cols cs by (auto simp: specs_ok_def)
  then obtain c where c: "c \<in> set (grid_list h)" using hd_in_set by blast
  then have "(cname c, col_type c, col_size c) \<in> set ?cs" unfolding cols[symmetric] by force
  then have "0 < col_width c" using spec by (force simp: col_width_def)
  moreover have "col_end c \<le> unat (g_datasz h)" using h(2) c by (simp add: hgrid_wf_def)
  ultimately have "0 < unat (g_datasz h)" by (simp add: col_end_def)
  then have "has_columns h cs" using h(2,3) cols sum h0(5) by (simp add: has_columns_def)
  moreover have "init_header s g cs = Some (s\<lparr>st_h := (st_h s)(g \<mapsto> h)\<rparr>)"
    using h0(1) add_all_columns[OF h(1)] by (simp add: init_header_def htable_init_def)
  ultimately show thesis using that by blast
qed

text \<open>The only page of a table.\<close>

definition only_page :: "hgrid \<Rightarrow> dgrid \<Rightarrow> bool" where
  "only_page h d \<longleftrightarrow> dgrid_ok h d \<and> g_content d = GC_PURE \<and> g_next d = GID_UNDEF \<and> 16 \<le> unat (g_rown d)"

lemma init_data_ok:
  assumes "has_columns h cs" "st_h s (gp_header gp) = Some h"
  obtains d where "init_data s gp = Some (put_data s (gp_data gp) d)" "only_page h d" "grid_list d = []"
proof -
  have p: "24 \<le> unat (of_nat PAGESZ :: u16)" by (simp add: PAGESZ_def)
  have wf: "hgrid_wf h" "0 < unat (g_datasz h)" "unat (g_datasz h) \<le> 65532" "unat (g_datasz h) \<le> 240"
    using assms(1) by (auto simp: has_columns_def)
  obtain d where d: "dgrid_init (of_nat PAGESZ) GL_FIXED GC_PURE h = Some d" "dgrid_ok h d" "grid_list d = []"
    "g_content d = GC_PURE" "g_next d = GID_UNDEF" "unat (g_rown d) = (unat (of_nat PAGESZ :: u16) - 24) div unat (g_rowsz d)"
    "unat (g_datasz h) \<le> unat (g_rowsz d)" "unat (g_rowsz d) < unat (g_datasz h) + 4"
    using dgrid_init_ok[OF wf(1-3) p, of GL_FIXED GC_PURE] by metis
  have "0 < unat (g_rowsz d)" "unat (g_rowsz d) * 16 \<le> 4072" using d(7,8) wf(2,4) by simp_all
  then have "16 \<le> 4072 div unat (g_rowsz d)" by (simp add: less_eq_div_iff_mult_less_eq mult.commute)
  then have "only_page h d" using d by (simp add: only_page_def PAGESZ_def)
  then show thesis using that d(1,3) assms(2) by (simp add: init_data_def dtable_init_def)
qed

text \<open>What a new table adds to the store.\<close>

definition table_added :: "store \<Rightarrow> store \<Rightarrow> int \<Rightarrow> (string \<times> sql_type \<times> u64) list \<Rightarrow> bool" where
  "table_added s s' k cs \<longleftrightarrow> (\<exists>h d. st_h s' = (st_h s)(word_of_int k \<mapsto> h) \<and> has_columns h cs \<and>
     st_d s' (word_of_int (k + 1)) = Some d \<and> only_page h d \<and> grid_list d = []) \<and> same_pages {1, word_of_int (k + 1)} s s'"

lemma small_gid:
  assumes "4 \<le> k" "k < 2 ^ 40"
  shows "(word_of_int k :: gid) \<notin> {0, 1, 2, 3}"
proof -
  have "k < 2 ^ 64" using assms(2) by simp
  then have u: "uint (word_of_int k :: gid) = k" using assms(1) by (simp add: uint_word_of_int_eq take_bit_int_eq_self)
  have "(word_of_int k :: gid) \<noteq> w" if "uint w < 4" for w :: gid using u assms(1) that by auto
  then show ?thesis by auto
qed

lemma init_table_ok:
  assumes m: "main_seq s k" and k: "4 \<le> k" "k + 1 < 2 ^ 40" and cs: "specs_ok cs"
  obtains s' where "init_table s cs = Some (s', \<lparr>gp_header = word_of_int k, gp_data = word_of_int (k + 1)\<rparr>)"
    "main_seq s' (k + 2)" "table_added s s' k cs"
proof -
  have k': "k < 2 ^ 40" "4 \<le> k + 1" using k by simp_all
  note g1 = small_gid[OF k(1) k'(1)] and g2 = small_gid[OF k'(2) k(2)]
  obtain s1 where a: "next_gid s = Some (s1, word_of_int k)" "main_seq s1 (k + 1)" "st_h s1 = st_h s" "same_pages {1} s s1"
    by (rule next_gid_counts[OF m k(1) k'(1)])
  obtain h where b: "init_header s1 (word_of_int k) cs = Some (s1\<lparr>st_h := (st_h s1)(word_of_int k \<mapsto> h)\<rparr>)" "has_columns h cs"
    by (rule init_header_ok[OF cs])
  let ?s2 = "s1\<lparr>st_h := (st_h s1)(word_of_int k \<mapsto> h)\<rparr>"
  have "main_seq ?s2 (k + 1)" by (rule main_seq_cong[OF a(2)]) (use g1 in simp_all)
  then obtain s3 where c: "next_gid ?s2 = Some (s3, word_of_int (k + 1))" "main_seq s3 (k + 1 + 1)" "st_h s3 = st_h ?s2" "same_pages {1} ?s2 s3"
    using next_gid_counts[OF _ k'(2) k(2)] by blast
  let ?gp = "\<lparr>gp_header = word_of_int k, gp_data = word_of_int (k + 1)\<rparr> :: gid_pair"
  obtain d where d: "init_data s3 ?gp = Some (put_data s3 (gp_data ?gp) d)" "only_page h d" "grid_list d = []"
    by (rule init_data_ok[OF b(2), of s3 ?gp]) (use c(3) in simp)
  let ?s = "put_data s3 (gp_data ?gp) d"
  have "init_table s cs = Some (?s, ?gp)" using a(1) b(1) c(1) d(1) by (simp add: init_table_def Let_def)
  moreover have "main_seq ?s (k + 2)" by (rule main_seq_cong[of s3]) (use c(2) g2 in \<open>simp_all add: add.assoc\<close>)
  moreover have "table_added s ?s k cs"
    using a(3,4) c(3,4) b(2) d(2,3) by (auto simp: table_added_def same_pages_def)
  ultimately show thesis by (rule that)
qed

section \<open>A row more\<close>

lemma put_all_row:
  assumes h: "m_header (t_m t) = Some hg" "st_h s hg = Some h"
    and d: "m_data (t_m t) = Some g" "st_d s g = Some d" "dgrid_ok h d" "unat (m_row (t_m t)) < length (grid_list d)"
    and cs: "\<forall>(c, v) \<in> set cs. unat c < length (grid_list h) \<and> can_hold h (unat c) v"
  shows "put_all s t cs = Some (put_data s g
      (d\<lparr>g_rows := (g_rows d)[unat (m_row (t_m t)) := put_row_list h (g_rows d ! unat (m_row (t_m t))) cs]\<rparr>), 0)"
  using assms(2-)
proof (induction cs arbitrary: s d)
  case Nil
  then show ?case by (simp add: put_same)
next
  case (Cons p cs)
  let ?r = "unat (m_row (t_m t))"
  obtain c v where p: "p = (c, v)" by (cases p)
  have k: "unat c < length (grid_list h)" "can_hold h (unat c) v" using Cons.prems(6) p by auto
  let ?row = "put_in_row h (g_rows d ! ?r) (unat c) v"
  let ?d = "d\<lparr>g_rows := (g_rows d)[?r := ?row]\<rparr>"
  have inv: "grid_inv d" using Cons.prems(4) by (simp add: dgrid_ok_def)
  have rl: "?r < length (g_rows d)" using Cons.prems(5) grid_invD[OF inv] by simp
  have put: "titor_put_datum s t c v = Some (put_data s g ?d, 0)"
    using grid_put_datum_row[OF Cons.prems(4,5) k] Cons.prems(1,2,3) h(1)
    by (simp add: titor_put_datum_def mitor_put_datum_def)
  have ok: "dgrid_ok h ?d"
    using dgrid_ok_set_row[OF Cons.prems(4)] put_in_row_bytes(1)[OF dgrid_ok_row_fits[OF Cons.prems(4) rl] k] .
  have "put_all (put_data s g ?d) t cs = Some (put_data (put_data s g ?d) g
      (?d\<lparr>g_rows := (g_rows ?d)[?r := put_row_list h (g_rows ?d ! ?r) cs]\<rparr>), 0)"
    by (rule Cons.IH) (use Cons.prems ok p in \<open>auto simp: grid_list_def\<close>)
  then show ?case using put rl p by (simp add: put_twice)
qed

lemma list_take_snoc_update: "n < length xs \<Longrightarrow> take (Suc n) (xs[n := x]) = take n xs @ [x]"
  by (simp add: take_Suc_conv_app_nth)

text \<open>table_alloc_row and the puts into the new row, on a table of one page with room.\<close>

lemma new_row:
  assumes h: "st_h s (gp_header tail) = Some h" and d: "st_d s (gp_data tail) = Some d" "only_page h d" "length (grid_list d) < 16"
    and cs: "\<forall>(c, v) \<in> set cs. unat c < length (grid_list h) \<and> can_hold h (unat c) v" "distinct (map fst cs)"
  obtains s1 row d' r where "table_alloc_row seq s it tail = Some (s1, tail, row)" "st_h s1 = st_h s"
    "put_all s1 row cs = Some (put_data s (gp_data tail) d', 0)" "only_page h d'" "grid_list d' = grid_list d @ [r]"
    "\<forall>(c, v) \<in> set cs. cell_view (grid_list h ! unat c) (cell_bytes h r (unat c)) = stored_view (grid_list h ! unat c) v"
    "gp_header tail \<noteq> GID_UNDEF \<Longrightarrow> gp_data tail \<noteq> GID_UNDEF \<Longrightarrow> titor_is_valid s1 row = Some True"
proof -
  have ok: "dgrid_ok h d" "g_next d = GID_UNDEF" "g_content d = GC_PURE" "16 \<le> unat (g_rown d)" using d(2) by (auto simp: only_page_def)
  have inv: "grid_inv d" using ok(1) by (simp add: dgrid_ok_def)
  note l = grid_invD[OF inv]
  have lt: "g_occupied d < g_rown d" using d(3) ok(4) l(3) by (simp add: word_less_nat_alt)
  note al = grid_alloc_row_inv[OF inv lt]
  let ?n = "unat (g_occupied d)"
  let ?d1 = "d\<lparr>g_occupied := g_occupied d + 1\<rparr>"
  let ?s1 = "put_data s (gp_data tail) ?d1"
  let ?m = "\<lparr>m_gp = tail, m_header = Some (gp_header tail), m_data = Some (gp_data tail), m_row = g_occupied d\<rparr>"
  let ?row = "it\<lparr>t_m := ?m\<rparr>"
  have "mesh_alloc_row seq s tail = Some (?s1, tail, ?m)"
    using d(1) ok(2) lt al(3) by (simp add: mesh_alloc_row_def grid_alloc_row_def grid_idx_is_valid_def Let_def)
  then have ta: "table_alloc_row seq s it tail = Some (?s1, tail, ?row)" by (simp add: table_alloc_row_def)
  have ok1: "dgrid_ok h ?d1" using ok(1) al(1) by (simp add: dgrid_ok_def)
  have n: "?n < length (grid_list ?d1)" "?n < length (g_rows d)" unfolding al(2) using l(1,3) lt by (simp_all add: word_less_nat_alt)
  let ?r = "put_row_list h (g_rows d ! ?n) cs"
  let ?d' = "?d1\<lparr>g_rows := (g_rows d)[?n := ?r]\<rparr>"
  have "put_all ?s1 ?row cs = Some (put_data ?s1 (gp_data tail) ?d', 0)"
    using put_all_row[of ?row "gp_header tail" ?s1 h "gp_data tail" ?d1 cs] h ok1 n(1) cs(1) by simp
  then have pa: "put_all ?s1 ?row cs = Some (put_data s (gp_data tail) ?d', 0)" by (simp add: put_twice)
  have rf: "row_fits h (g_rows d ! ?n)" using dgrid_ok_row_fits[OF ok(1) n(2)] .
  note pr = put_row_list_put[OF rf cs(1,2)]
  have "only_page h ?d'" using dgrid_ok_set_row[OF ok1 pr(1), of ?n] ok by (simp add: only_page_def)
  moreover have "grid_list ?d' = grid_list d @ [?r]"
    using n(2) unat_succ_u16[OF lt] by (simp add: grid_list_def list_take_snoc_update)
  moreover have "\<forall>(c, v) \<in> set cs. cell_view (grid_list h ! unat c) (cell_bytes h ?r (unat c)) = stored_view (grid_list h ! unat c) v"
    using pr(2) by blast
  moreover have "titor_is_valid ?s1 ?row = Some True" if "gp_header tail \<noteq> GID_UNDEF" "gp_data tail \<noteq> GID_UNDEF"
    using that ok(3) unat_succ_u16[OF lt] by (simp add: titor_is_valid_def mitor_is_valid_def titor_content_def word_less_nat_alt)
  ultimately show thesis using that ta pa by simp
qed

section \<open>The cluster table\<close>

definition cluster_ix :: cluster_idx where
  "cluster_ix = \<lparr>name_idx = 0, string_idx = 1, header_idx = 2, data_idx = 3\<rparr>"

lemma cluster_cols_specs: "specs_ok cluster_cols"
  by (simp add: specs_ok_def cluster_cols_def column_cursz_def NAMESZ_def ascii_def)

lemma has_columns_nth:
  assumes "has_columns h cs"
  shows "length (grid_list h) = length cs" and "i < length cs \<Longrightarrow> cname (grid_list h ! i) = ascii (fst (cs ! i))"
    and "i < length cs \<Longrightarrow> col_type (grid_list h ! i) = fst (snd (cs ! i))"
    and "i < length cs \<Longrightarrow> col_size (grid_list h ! i) = snd (snd (cs ! i))"
    and "map cname (grid_list h) = map (ascii \<circ> fst) cs"
proof -
  have m: "map (\<lambda>c. (cname c, col_type c, col_size c)) (grid_list h) = col_specs cs" using assms by (simp add: has_columns_def)
  show l: "length (grid_list h) = length cs" using arg_cong[OF m, of length] by simp
  have n: "(cname (grid_list h ! i), col_type (grid_list h ! i), col_size (grid_list h ! i)) = (ascii (fst (cs ! i)), snd (cs ! i))"
    if "i < length cs" for i
    using arg_cong[OF m, of "\<lambda>l. l ! i"] that l by (simp add: split_beta)
  show "i < length cs \<Longrightarrow> cname (grid_list h ! i) = ascii (fst (cs ! i))"
    "i < length cs \<Longrightarrow> col_type (grid_list h ! i) = fst (snd (cs ! i))"
    "i < length cs \<Longrightarrow> col_size (grid_list h ! i) = snd (snd (cs ! i))" using n[of i] by (auto simp: prod_eq_iff)
  show "map cname (grid_list h) = map (ascii \<circ> fst) cs"
    using arg_cong[OF m, of "map fst"] by (simp add: comp_def split_beta)
qed

lemma has_columns_idx:
  assumes "has_columns h cs" "distinct (map (ascii \<circ> fst) cs)" "i < length cs" "length cs \<le> 101"
  shows "hgrid_get_column_idx h (ascii (fst (cs ! i))) = of_nat i" "grid_idx_is_valid (of_nat i)"
proof -
  note n = has_columns_nth[OF assms(1)]
  have wf: "hgrid_wf h" using assms(1) by (simp add: has_columns_def)
  have d: "distinct (map cname (grid_list h))" "i < length (grid_list h)" using n(1,5) assms(2,3) by simp_all
  show e: "hgrid_get_column_idx h (ascii (fst (cs ! i))) = of_nat i"
    using hgrid_get_column_idx_nth[OF d(2,1)] n(2)[OF assms(3)] by simp
  show "grid_idx_is_valid (of_nat i)" using column_idx_nth(2)[OF wf d] n(2)[OF assms(3)] e by simp
qed

lemma cluster_names:
  assumes "has_columns h cluster_cols"
  shows "hgrid_get_column_idx h (ascii ''name'') = 0" "hgrid_get_column_idx h (ascii ''string'') = 1"
    "hgrid_get_column_idx h (ascii ''header'') = 2" "hgrid_get_column_idx h (ascii ''data'') = 3"
proof -
  have d: "distinct (map (ascii \<circ> fst) cluster_cols)" by (simp add: cluster_cols_def ascii_def)
  note i = has_columns_idx(1)[OF assms d]
  show "hgrid_get_column_idx h (ascii ''name'') = 0" "hgrid_get_column_idx h (ascii ''string'') = 1"
    "hgrid_get_column_idx h (ascii ''header'') = 2" "hgrid_get_column_idx h (ascii ''data'') = 3"
    using i[of 0] i[of 1] i[of 2] i[of 3] by (simp_all add: cluster_cols_def)
qed

lemma small_idx_valid: "grid_idx_is_valid 0" "grid_idx_is_valid 1" "grid_idx_is_valid 2" "grid_idx_is_valid 3"
  by (simp_all add: grid_idx_is_valid_def GRID_INVALID_IDX_def)

lemma cluster_header_ix:
  assumes "has_columns h cluster_cols"
  shows "cluster_header h cluster_ix"
proof -
  note n = has_columns_nth[OF assms] and i = cluster_names[OF assms]
  have "hgrid_wf h" using assms by (simp add: has_columns_def)
  moreover have "cluster_columns h = Some cluster_ix"
    by (simp add: cluster_columns_def i small_idx_valid cluster_ix_def Let_def)
  moreover have "length (grid_list h) = 4" using n(1) by (simp add: cluster_cols_def)
  moreover have "col_type (grid_list h ! 0) = T_CHAR" "col_type (grid_list h ! 1) = T_CHAR" "col_type (grid_list h ! 2) = T_BIGINT"
    "col_type (grid_list h ! 3) = T_BIGINT" using n(3)[of 0] n(3)[of 1] n(3)[of 2] n(3)[of 3] by (simp_all add: cluster_cols_def)
  ultimately show ?thesis by (simp add: cluster_header_def cluster_ix_def)
qed

text \<open>
  What a row does to the server. A row of add_gid_pair leaves the column \<open>string\<close> as it was,
  which no parameter but \<open>encoding\<close> reads.
\<close>

definition pair_effect :: "string \<Rightarrow> gid_pair \<Rightarrow> server \<Rightarrow> server" where
  "pair_effect name gp = apply_row \<lparr>cr_name = ascii name, cr_string = [], cr_header = gp_header gp, cr_data = gp_data gp\<rparr>"

definition encoding_effect :: "server \<Rightarrow> server" where
  "encoding_effect = sv_encoding_update (\<lambda>_. Some (ascii ''UTF-8''))"

definition row_effects :: "hgrid \<Rightarrow> dgrid \<Rightarrow> (server \<Rightarrow> server) list" where
  "row_effects h d = map (\<lambda>r. apply_row (cluster_row h cluster_ix r)) (grid_list d)"

text \<open>The cluster table with rows of these effects.\<close>

definition cluster_inv :: "store \<Rightarrow> (server \<Rightarrow> server) list \<Rightarrow> bool" where
  "cluster_inv s fs \<longleftrightarrow> (\<exists>h d. st_h s 2 = Some h \<and> has_columns h cluster_cols \<and> st_d s 3 = Some d \<and> only_page h d \<and> row_effects h d = fs)"

lemma cluster_inv_cong:
  "cluster_inv s fs \<Longrightarrow> st_h s' 2 = st_h s 2 \<Longrightarrow> st_d s' 3 = st_d s 3 \<Longrightarrow> cluster_inv s' fs"
  by (simp add: cluster_inv_def)

text \<open>Names that fit a CHAR(32) and are read back whole.\<close>

definition short_name :: "string \<Rightarrow> bool" where
  "short_name n \<longleftrightarrow> length n \<le> 32 \<and> 0 \<notin> set (ascii n) \<and> rtrim (ascii n) = ascii n"

lemma short_name_held:
  assumes "short_name n" "col_type (grid_list h ! k) = T_CHAR" "col_size (grid_list h ! k) = 32"
  shows "can_hold h k (make_char (ascii n))"
proof -
  have "takeWhile (\<lambda>b. b \<noteq> 0) (ascii n) = ascii n" using assms(1) by (simp add: short_name_def takeWhile_eq_all_conv) metis
  moreover have "length (ascii n) = length n" by (simp add: ascii_def)
  ultimately show ?thesis using assms
    by (simp add: stored_type_def datum_fits_def make_char_def get_type_group_def dt_bytes_def dt_str_def short_name_def)
qed

lemma stored_name:
  assumes "cell_view c bs = stored_view c (make_char (ascii n))" "col_type c = T_CHAR" "short_name n"
  shows "rtrim bs = ascii n"
proof -
  have "bs = ascii n @ replicate (unat (col_size c) - length (ascii n)) 32"
    using assms(1,2) by (simp add: cell_view_def stored_view_def make_char_def dt_str_def dt_bytes_def)
  then show ?thesis using assms(3) by (simp add: short_name_def)
qed

lemma stored_number:
  assumes "cell_view c bs = stored_view c (make_bigint v)" "col_type c = T_BIGINT"
  shows "get_bigint bs = v"
  using assms by (auto simp: cell_view_def stored_view_def make_bigint_def dt_ival_def intro: signed_word_eqI)

lemma pair_row_effect:
  assumes "cr_name r = ascii name" "cr_header r = gp_header gp" "cr_data r = gp_data gp" "ascii name \<noteq> ascii ''encoding''"
  shows "apply_row r = pair_effect name gp"
proof -
  let ?q = "\<lparr>cr_name = ascii name, cr_string = [], cr_header = gp_header gp, cr_data = gp_data gp\<rparr>"
  have tl: "tl (row_meaning r) = tl (row_meaning ?q)" using assms(2,3) by (simp add: row_meaning_def crow_pair_def)
  have hd: "row_meaning x = (ascii ''encoding'', sv_encoding_update (\<lambda>_. Some (cr_string x))) # tl (row_meaning x)" for x
    by (simp add: row_meaning_def)
  have "map_of (row_meaning r) (ascii name) = map_of (row_meaning ?q) (ascii name)"
    by (subst hd[of r], subst hd[of ?q]) (use assms(4) in \<open>simp add: tl\<close>)
  then show ?thesis using assms(1) by (simp add: apply_row_def pair_effect_def)
qed

text \<open>One more row, made by any puts that include the name.\<close>

lemma add_gid_pair_ok:
  assumes inv: "cluster_inv s fs" and room: "length fs < 16" and name: "short_name name" "ascii name \<noteq> ascii ''encoding''"
  obtains s' where "add_gid_pair junk 2 s gp_cluster name gp = Some (s', gp_cluster, 0)" "cluster_inv s' (fs @ [pair_effect name gp])"
    "st_h s' = st_h s" "same_pages {3} s s'"
proof -
  obtain h d where hd: "st_h s 2 = Some h" "has_columns h cluster_cols" "st_d s 3 = Some d" "only_page h d" "row_effects h d = fs"
    using inv by (auto simp: cluster_inv_def)
  note n = has_columns_nth[OF hd(2)]
  have l: "length (grid_list h) = 4" using n(1) by (simp add: cluster_cols_def)
  have t: "col_type (grid_list h ! 0) = T_CHAR" "col_size (grid_list h ! 0) = 32" "col_type (grid_list h ! 2) = T_BIGINT"
    "col_type (grid_list h ! 3) = T_BIGINT" using n(3)[of 0] n(4)[of 0] n(3)[of 2] n(3)[of 3] by (simp_all add: cluster_cols_def)
  let ?cs = "[(0, make_char (ascii name)), (2, make_bigint (gp_header gp)), (3, make_bigint (gp_data gp))] :: (u16 \<times> datum) list"
  have cs: "\<forall>(c, v) \<in> set ?cs. unat c < length (grid_list h) \<and> can_hold h (unat c) v" "distinct (map fst ?cs)"
    using l t short_name_held[OF name(1) t(1,2)] can_hold_bigint[OF t(3)] can_hold_bigint[OF t(4)] by simp_all
  have gp: "gp_header gp_cluster = 2" "gp_data gp_cluster = 3"
    by (simp_all add: gp_cluster_def CLUSTER_HEADER_GID_def CLUSTER_DATA_GID_def)
  have len: "length (grid_list d) < 16" using room hd(5) by (auto simp: row_effects_def)
  have st: "st_h s (gp_header gp_cluster) = Some h" "st_d s (gp_data gp_cluster) = Some d" using hd(1,3) gp by simp_all
  obtain s1 row d' r where a: "table_alloc_row gp_sequence s \<lparr>t_m = mitor_init_invalid, t_tran = junk\<rparr> gp_cluster = Some (s1, gp_cluster, row)"
    "put_all s1 row ?cs = Some (put_data s 3 d', 0)" "only_page h d'" "grid_list d' = grid_list d @ [r]"
    "\<forall>(c, v) \<in> set ?cs. cell_view (grid_list h ! unat c) (cell_bytes h r (unat c)) = stored_view (grid_list h ! unat c) v"
    by (rule new_row[OF st hd(4) len cs, where seq = gp_sequence and it = "\<lparr>t_m = mitor_init_invalid, t_tran = junk\<rparr>"]) (simp add: gp)
  let ?s = "put_data s 3 d'"
  have v: "cell_view (grid_list h ! 0) (cell_bytes h r 0) = stored_view (grid_list h ! 0) (make_char (ascii name))"
    "cell_view (grid_list h ! 2) (cell_bytes h r 2) = stored_view (grid_list h ! 2) (make_bigint (gp_header gp))"
    "cell_view (grid_list h ! 3) (cell_bytes h r 3) = stored_view (grid_list h ! 3) (make_bigint (gp_data gp))"
    using a(5) by simp_all
  note e = stored_name[OF v(1) t(1) name(1)] stored_number[OF v(2) t(3)] stored_number[OF v(3) t(4)]
  have "apply_row (cluster_row h cluster_ix r) = pair_effect name gp"
    by (rule pair_row_effect) (use e name(2) in \<open>simp_all add: cluster_row_def cluster_ix_def\<close>)
  then have "row_effects h d' = fs @ [pair_effect name gp]" using a(4) hd(5) by (simp add: row_effects_def)
  then have "cluster_inv ?s (fs @ [pair_effect name gp])" using hd(1,2) a(3) by (auto simp: cluster_inv_def)
  moreover have "add_gid_pair junk 2 s gp_cluster name gp = Some (?s, gp_cluster, 0)"
    using hd(1) a(1,2) by (simp add: add_gid_pair_def cluster_names[OF hd(2)] small_idx_valid Let_def)
  ultimately show thesis using that by (simp add: same_pages_def)
qed

lemma add_gid_pairs_ok:
  assumes "cluster_inv s fs" "length fs + length ps \<le> 16" "\<forall>(n, gp) \<in> set ps. short_name n \<and> ascii n \<noteq> ascii ''encoding''"
  shows "\<exists>s'. add_gid_pairs junk 2 s gp_cluster ps = Some (s', gp_cluster) \<and> cluster_inv s' (fs @ map (\<lambda>(n, gp). pair_effect n gp) ps) \<and>
    st_h s' = st_h s \<and> same_pages {3} s s'"
  using assms
proof (induction ps arbitrary: s fs)
  case Nil
  then show ?case by (simp add: same_pages_def)
next
  case (Cons p ps)
  obtain n gp where p: "p = (n, gp)" by (cases p)
  have "length fs < 16" "short_name n" "ascii n \<noteq> ascii ''encoding''" using Cons.prems(2,3) p by auto
  then obtain s1 where a: "add_gid_pair junk 2 s gp_cluster n gp = Some (s1, gp_cluster, 0)" "cluster_inv s1 (fs @ [pair_effect n gp])"
    "st_h s1 = st_h s" "same_pages {3} s s1"
    using add_gid_pair_ok[OF Cons.prems(1)] by blast
  obtain s' where b: "add_gid_pairs junk 2 s1 gp_cluster ps = Some (s', gp_cluster)"
    "cluster_inv s' ((fs @ [pair_effect n gp]) @ map (\<lambda>(n, gp). pair_effect n gp) ps)" "st_h s' = st_h s1" "same_pages {3} s1 s'"
    using Cons.IH[OF a(2)] Cons.prems(2,3) p by auto
  then show ?case using a p same_pages_trans[OF a(4) b(4)] by simp
qed

text \<open>The cluster table up to its own row.\<close>

definition first_pairs :: "(string \<times> gid_pair) list" where
  "first_pairs = [(''backlog'', sizes_pair 0 10), (''port'', sizes_pair 0 8081), (''pagecache_size'', sizes_pair 8 8),
     (''fdcache_size'', sizes_pair 4 4), (''tran_size'', sizes_pair 128 128), (''sequence'', gp_sequence), (''cluster'', gp_cluster)]"

lemma first_pairs_ok: "\<forall>(n, gp) \<in> set first_pairs. short_name n \<and> ascii n \<noteq> ascii ''encoding''"
  by (simp add: first_pairs_def short_name_def rtrim_last ascii_def)

lemma init_cluster_table_ok:
  obtains s' h where "init_cluster_table junk s = Some (s', gp_cluster, 0)"
    "cluster_inv s' (encoding_effect # map (\<lambda>(n, gp). pair_effect n gp) first_pairs)"
    "st_h s' = (st_h s)(2 \<mapsto> h)" "same_pages {3} s s'"
proof -
  have gp: "gp_header gp_cluster = 2" "gp_data gp_cluster = 3"
    by (simp_all add: gp_cluster_def CLUSTER_HEADER_GID_def CLUSTER_DATA_GID_def)
  obtain h where h: "init_header s 2 cluster_cols = Some (s\<lparr>st_h := (st_h s)(2 \<mapsto> h)\<rparr>)" "has_columns h cluster_cols"
    by (rule init_header_ok[OF cluster_cols_specs])
  let ?s1 = "s\<lparr>st_h := (st_h s)(2 \<mapsto> h)\<rparr>"
  obtain d where d: "init_data ?s1 gp_cluster = Some (put_data ?s1 (gp_data gp_cluster) d)" "only_page h d" "grid_list d = []"
    by (rule init_data_ok[OF h(2), of ?s1 gp_cluster]) (use gp in simp)
  let ?s2 = "put_data ?s1 (gp_data gp_cluster) d"
  note n = has_columns_nth[OF h(2)]
  have l: "length (grid_list h) = 4" using n(1) by (simp add: cluster_cols_def)
  have t: "col_type (grid_list h ! 0) = T_CHAR" "col_size (grid_list h ! 0) = 32" "col_type (grid_list h ! 1) = T_CHAR"
    "col_size (grid_list h ! 1) = 32" using n(3)[of 0] n(4)[of 0] n(3)[of 1] n(4)[of 1] by (simp_all add: cluster_cols_def)
  have names: "short_name ''encoding''" "short_name ''UTF-8''" by (simp_all add: short_name_def rtrim_last ascii_def)
  let ?cs = "[(0, make_char (ascii ''encoding'')), (1, make_char (ascii ''UTF-8''))] :: (u16 \<times> datum) list"
  have cs: "\<forall>(c, v) \<in> set ?cs. unat c < length (grid_list h) \<and> can_hold h (unat c) v" "distinct (map fst ?cs)"
    using l short_name_held[OF names(1) t(1,2)] short_name_held[OF names(2) t(3,4)] by simp_all
  have st: "st_h ?s2 (gp_header gp_cluster) = Some h" "st_d ?s2 (gp_data gp_cluster) = Some d" "length (grid_list d) < 16"
    using gp d(3) by simp_all
  obtain s3 row d' r where a: "table_alloc_row gp_sequence ?s2 \<lparr>t_m = mitor_init_invalid, t_tran = junk\<rparr> gp_cluster = Some (s3, gp_cluster, row)"
    "put_all s3 row ?cs = Some (put_data ?s2 3 d', 0)" "only_page h d'" "grid_list d' = grid_list d @ [r]"
    "\<forall>(c, v) \<in> set ?cs. cell_view (grid_list h ! unat c) (cell_bytes h r (unat c)) = stored_view (grid_list h ! unat c) v"
    by (rule new_row[OF st(1,2) d(2) st(3) cs, where seq = gp_sequence and it = "\<lparr>t_m = mitor_init_invalid, t_tran = junk\<rparr>"]) (simp add: gp)
  let ?s4 = "put_data ?s2 3 d'"
  have v: "cell_view (grid_list h ! 0) (cell_bytes h r 0) = stored_view (grid_list h ! 0) (make_char (ascii ''encoding''))"
    "cell_view (grid_list h ! 1) (cell_bytes h r 1) = stored_view (grid_list h ! 1) (make_char (ascii ''UTF-8''))"
    using a(5) by simp_all
  have "apply_row (cluster_row h cluster_ix r) = encoding_effect"
    using stored_name[OF v(1) t(1) names(1)] stored_name[OF v(2) t(3) names(2)]
    by (simp add: cluster_row_def cluster_ix_def apply_row_def row_meaning_def encoding_effect_def)
  then have "row_effects h d' = [encoding_effect]" using a(4) d(3) by (simp add: row_effects_def)
  then have inv: "cluster_inv ?s4 [encoding_effect]" using h(2) a(3) by (auto simp: cluster_inv_def)
  obtain s' where b: "add_gid_pairs junk 2 ?s4 gp_cluster first_pairs = Some (s', gp_cluster)"
    "cluster_inv s' ([encoding_effect] @ map (\<lambda>(n, gp). pair_effect n gp) first_pairs)" "st_h s' = st_h ?s4" "same_pages {3} ?s4 s'"
    using add_gid_pairs_ok[OF inv _ first_pairs_ok] by (auto simp: first_pairs_def)
  have cn: "scast DEFAULT_BACKLOG = (10 :: u64)" "ucast DEFAULT_PORT = (8081 :: u64)"
    by (simp_all add: DEFAULT_BACKLOG_def DEFAULT_PORT_def)
  obtain ps q where ps: "first_pairs = ps @ [(''cluster'', gp_cluster)]" "ps = [(''backlog'', sizes_pair 0 (scast DEFAULT_BACKLOG)),
      (''port'', sizes_pair 0 (ucast DEFAULT_PORT)), (''pagecache_size'', sizes_pair DEFAULT_PAGECACHESZ0 DEFAULT_PAGECACHESZ1),
      (''fdcache_size'', sizes_pair DEFAULT_FDCACHESZ0 DEFAULT_FDCACHESZ1),
      (''tran_size'', sizes_pair DEFAULT_TRANSZ0 DEFAULT_TRANSZ1), (''sequence'', gp_sequence)]"
    by (simp add: first_pairs_def cn DEFAULT_PAGECACHESZ0_def DEFAULT_PAGECACHESZ1_def DEFAULT_FDCACHESZ0_def
        DEFAULT_FDCACHESZ1_def DEFAULT_TRANSZ0_def DEFAULT_TRANSZ1_def)
  have split: "add_gid_pairs junk hc s0 tail (xs @ ys) = Option.bind (add_gid_pairs junk hc s0 tail xs) (\<lambda>(s1, tail). add_gid_pairs junk hc s1 tail ys)"
    for hc s0 tail xs ys by (induction xs arbitrary: s0 tail) (auto simp: case_prod_unfold)
  obtain s5 tl where c: "add_gid_pairs junk 2 ?s4 gp_cluster ps = Some (s5, tl)" "add_gid_pairs junk 2 s5 tl [(''cluster'', gp_cluster)] = Some (s', gp_cluster)"
    using b(1) unfolding ps(1) split by (auto simp: bind_eq_Some_conv)
  have "tl = gp_cluster"
  proof -
    have "\<exists>s'. add_gid_pairs junk 2 ?s4 gp_cluster ps = Some (s', gp_cluster)"
      using add_gid_pairs_ok[OF inv, of ps] first_pairs_ok unfolding ps(1) by (auto simp: ps(2))
    then show ?thesis using c(1) by simp
  qed
  then have "init_cluster_table junk s = Some (s', gp_cluster, 0)"
    using h(1) d(1) a(1,2) c gp unfolding ps(2)
    by (simp add: init_cluster_table_def column_idx_def cluster_names[OF h(2)] small_idx_valid Let_def del: add_gid_pairs.simps put_all.simps)
  moreover have "same_pages {3} s s'" using b(4) gp by (auto simp: same_pages_def)
  ultimately show thesis using that b(2,3) by simp
qed

section \<open>The whole cluster\<close>

lemma specs_of_tables: "specs_ok [(''name'', T_CHAR, 32)]" "specs_ok catalog_cols" "specs_ok schema_cols" "specs_ok relation_cols"
  by (simp_all add: specs_ok_def catalog_cols_def schema_cols_def relation_cols_def column_cursz_def NAMESZ_def ascii_def)

text \<open>The state of init_cluster between two tables.\<close>

definition init_inv :: "store \<Rightarrow> int \<Rightarrow> (server \<Rightarrow> server) list \<Rightarrow> bool" where
  "init_inv s k fs \<longleftrightarrow> main_seq s k \<and> cluster_inv s fs"

definition table_pair :: "int \<Rightarrow> gid_pair" where
  "table_pair k = \<lparr>gp_header = word_of_int k, gp_data = word_of_int (k + 1)\<rparr>"

text \<open>A table of these columns that has no rows yet.\<close>

definition empty_table :: "store \<Rightarrow> gid_pair \<Rightarrow> (string \<times> sql_type \<times> u64) list \<Rightarrow> bool" where
  "empty_table s gp cs \<longleftrightarrow> (\<exists>h d. st_h s (gp_header gp) = Some h \<and> has_columns h cs \<and> st_d s (gp_data gp) = Some d \<and> only_page h d \<and> grid_list d = [])"

text \<open>What the later steps leave alone: the headers and pages with numbers from 4 to k.\<close>

definition frame :: "int \<Rightarrow> store \<Rightarrow> store \<Rightarrow> bool" where
  "frame k s s' \<longleftrightarrow> (\<forall>j. 4 \<le> j \<longrightarrow> j < k \<longrightarrow> st_h s' (word_of_int j) = st_h s (word_of_int j) \<and> st_d s' (word_of_int j) = st_d s (word_of_int j))"

lemma file_numbers_differ:
  assumes "0 \<le> i" "i < 2 ^ 40" "0 \<le> j" "j < 2 ^ 40"
  shows "(word_of_int i :: gid) = word_of_int j \<longleftrightarrow> i = j"
proof -
  have u: "uint (word_of_int k :: gid) = k" if "0 \<le> k" "k < 2 ^ 40" for k
  proof -
    have "k < 2 ^ 64" using that(2) by simp
    then show ?thesis using that(1) by (simp add: uint_word_of_int_eq take_bit_int_eq_self)
  qed
  show ?thesis using u[OF assms(1,2)] u[OF assms(3,4)] by metis
qed

lemma init_table_step:
  assumes inv: "init_inv s k fs" and k: "4 \<le> k" "k + 1 < 2 ^ 40" and cs: "specs_ok cs"
  obtains s' where "init_table s cs = Some (s', table_pair k)" "init_inv s' (k + 2) fs" "empty_table s' (table_pair k) cs" "frame k s s'"
proof -
  have m: "main_seq s k" "cluster_inv s fs" using inv by (auto simp: init_inv_def)
  obtain s' where a: "init_table s cs = Some (s', \<lparr>gp_header = word_of_int k, gp_data = word_of_int (k + 1)\<rparr>)"
    "main_seq s' (k + 2)" "table_added s s' k cs"
    by (rule init_table_ok[OF m(1) k cs])
  have k': "k < 2 ^ 40" "4 \<le> k + 1" using k by simp_all
  note g1 = small_gid[OF k(1) k'(1)] and g2 = small_gid[OF k'(2) k(2)]
  obtain h d where t: "st_h s' = (st_h s)(word_of_int k \<mapsto> h)" "has_columns h cs" "st_d s' (word_of_int (k + 1)) = Some d" "only_page h d"
    "grid_list d = []" "same_pages {1, word_of_int (k + 1)} s s'"
    using a(3) by (auto simp: table_added_def)
  have "cluster_inv s' fs" by (rule cluster_inv_cong[OF m(2)]) (use t(1,6) g1 g2 in \<open>auto simp: same_pages_def\<close>)
  moreover have "frame k s s'"
  proof -
    have "(word_of_int j :: gid) \<noteq> word_of_int k" "(word_of_int j :: gid) \<noteq> word_of_int (k + 1)" "(word_of_int j :: gid) \<noteq> 1" if "4 \<le> j" "j < k" for j
      using file_numbers_differ[of j k] file_numbers_differ[of j "k + 1"] small_gid[of j] that k by auto
    then show ?thesis using t(1,6) by (simp add: frame_def same_pages_def)
  qed
  ultimately show thesis using that a t by (auto simp: init_inv_def table_pair_def empty_table_def)
qed

lemma next_gid_step:
  assumes inv: "init_inv s k fs" and k: "4 \<le> k" "k < 2 ^ 40" "k' = k + 1"
  obtains s' where "next_gid s = Some (s', word_of_int k)" "init_inv s' k' fs" "frame k s s'"
proof -
  have m: "main_seq s k" "cluster_inv s fs" using inv by (auto simp: init_inv_def)
  obtain s' where a: "next_gid s = Some (s', word_of_int k)" "main_seq s' (k + 1)" "st_h s' = st_h s" "same_pages {1} s s'"
    by (rule next_gid_counts[OF m(1) k(1,2)])
  have "cluster_inv s' fs" by (rule cluster_inv_cong[OF m(2)]) (use a(3,4) in \<open>simp_all add: same_pages_def\<close>)
  moreover have "frame k s s'" using a(3,4) small_gid k by (auto simp: frame_def same_pages_def)
  ultimately show thesis using that a(1,2) k(3) by (simp add: init_inv_def)
qed

lemma gp_cluster_header: "gp_header gp_cluster = 2"
  by (simp add: gp_cluster_def CLUSTER_HEADER_GID_def)

lemma cluster_row_step:
  assumes inv: "init_inv s k fs" and room: "length fs < 16" and n: "short_name n" "ascii n \<noteq> ascii ''encoding''" and j: "j \<le> 2 ^ 40"
  obtains s' where "add_gid_pairs junk 2 s gp_cluster [(n, gp)] = Some (s', gp_cluster)" "init_inv s' k (fs @ [pair_effect n gp])" "frame j s s'"
proof -
  have m: "main_seq s k" "cluster_inv s fs" using inv by (auto simp: init_inv_def)
  obtain s' where a: "add_gid_pair junk 2 s gp_cluster n gp = Some (s', gp_cluster, 0)" "cluster_inv s' (fs @ [pair_effect n gp])"
    "st_h s' = st_h s" "same_pages {3} s s'"
    by (rule add_gid_pair_ok[OF m(2) room n])
  have "main_seq s' k" by (rule main_seq_cong[OF m(1)]) (use a(3,4) in \<open>simp_all add: same_pages_def\<close>)
  moreover have "frame j s s'" using a(3,4) small_gid j by (auto simp: frame_def same_pages_def)
  ultimately show thesis using that a by (simp add: init_inv_def)
qed

lemma frame_trans: "frame k s s' \<Longrightarrow> frame j s' s'' \<Longrightarrow> k \<le> j \<Longrightarrow> frame k s s''"
  by (simp add: frame_def)

lemma frame_pair:
  assumes "frame j s s'" "4 \<le> k" "k + 1 < j"
  shows "st_h s' (gp_header (table_pair k)) = st_h s (gp_header (table_pair k))" "st_d s' (gp_data (table_pair k)) = st_d s (gp_data (table_pair k))"
proof -
  have "4 \<le> k + 1" "k < j" using assms(2,3) by simp_all
  then show "st_h s' (gp_header (table_pair k)) = st_h s (gp_header (table_pair k))" "st_d s' (gp_data (table_pair k)) = st_d s (gp_data (table_pair k))"
    using assms unfolding frame_def table_pair_def gid_pair.simps by blast+
qed

lemma empty_table_frame:
  assumes "empty_table s (table_pair k) cs" "frame j s s'" "4 \<le> k" "k + 1 < j"
  shows "empty_table s' (table_pair k) cs"
  using assms(1) frame_pair[OF assms(2-4)] by (simp add: empty_table_def)

text \<open>The user table: one row with the name of the user.\<close>

definition user_table :: "store \<Rightarrow> gid_pair \<Rightarrow> string \<Rightarrow> bool" where
  "user_table s gp n \<longleftrightarrow> (\<exists>h d. st_h s (gp_header gp) = Some h \<and> has_columns h [(''name'', T_CHAR, 32)] \<and> st_d s (gp_data gp) = Some d \<and>
     only_page h d \<and> map (\<lambda>r. rtrim (cell_bytes h r 0)) (grid_list d) = [ascii n])"

lemma user_table_frame:
  assumes "user_table s (table_pair k) n" "frame j s s'" "4 \<le> k" "k + 1 < j"
  shows "user_table s' (table_pair k) n"
  using assms(1) frame_pair[OF assms(2-4)] by (simp add: user_table_def)

lemma init_user_ok:
  assumes inv: "init_inv s 4 fs"
  obtains s' where "init_user junk s = Some (s', table_pair 4, 0)" "init_inv s' 6 fs" "user_table s' (table_pair 4) ''scroller''"
proof -
  have four: "(4 :: int) \<le> 4" "(4 :: int) + 1 < 2 ^ 40" by simp_all
  obtain s1 where a: "init_table s [(''name'', T_CHAR, 32)] = Some (s1, table_pair 4)" "init_inv s1 (4 + 2) fs"
    "empty_table s1 (table_pair 4) [(''name'', T_CHAR, 32)]"
    by (rule init_table_step[OF inv four specs_of_tables(1)])
  let ?gp = "table_pair 4"
  have gp: "gp_header ?gp = 4" "gp_data ?gp = 5" by (simp_all add: table_pair_def)
  obtain h d where t: "st_h s1 (gp_header ?gp) = Some h" "has_columns h [(''name'', T_CHAR, 32)]" "st_d s1 (gp_data ?gp) = Some d"
    "only_page h d" "grid_list d = []" using a(3) by (auto simp: empty_table_def)
  note n = has_columns_nth[OF t(2)]
  have c: "col_type (grid_list h ! 0) = T_CHAR" "col_size (grid_list h ! 0) = 32" "length (grid_list h) = 1"
    using n(3)[of 0] n(4)[of 0] n(1) by simp_all
  have idx: "hgrid_get_column_idx h (ascii ''name'') = 0" using has_columns_idx(1)[OF t(2), of 0] by simp
  have nm: "short_name ''scroller''" by (simp add: short_name_def rtrim_last ascii_def)
  let ?cs = "[(0, make_char (ascii ''scroller''))] :: (u16 \<times> datum) list"
  have cs: "\<forall>(c, v) \<in> set ?cs. unat c < length (grid_list h) \<and> can_hold h (unat c) v" "distinct (map fst ?cs)"
    using c(3) short_name_held[OF nm c(1,2)] by simp_all
  have len: "length (grid_list d) < 16" using t(5) by simp
  obtain s2 row d' r where b: "table_alloc_row gp_sequence s1 \<lparr>t_m = mitor_init_invalid, t_tran = junk\<rparr> ?gp = Some (s2, ?gp, row)"
    "put_all s2 row ?cs = Some (put_data s1 (gp_data ?gp) d', 0)" "only_page h d'" "grid_list d' = grid_list d @ [r]"
    "\<forall>(c, v) \<in> set ?cs. cell_view (grid_list h ! unat c) (cell_bytes h r (unat c)) = stored_view (grid_list h ! unat c) v"
    by (rule new_row[OF t(1,3,4) len cs, where seq = gp_sequence and it = "\<lparr>t_m = mitor_init_invalid, t_tran = junk\<rparr>"])
  let ?s = "put_data s1 (gp_data ?gp) d'"
  have v: "cell_view (grid_list h ! 0) (cell_bytes h r 0) = stored_view (grid_list h ! 0) (make_char (ascii ''scroller''))" using b(5) by simp
  have "user_table ?s ?gp ''scroller''"
    using t(1,2,5) b(3,4) stored_name[OF v c(1) nm] by (auto simp: user_table_def)
  moreover have "init_inv ?s 6 fs"
    using a(2) gp by (auto simp: init_inv_def intro: main_seq_cong[of s1] cluster_inv_cong[of s1])
  moreover have "init_user junk s = Some (?s, ?gp, 0)"
    using a(1) b(1,2) t(1) by (simp add: init_user_def column_idx_def idx small_idx_valid del: put_all.simps)
  ultimately show thesis using that by blast
qed

lemma cluster_inv_pure:
  assumes "cluster_inv s fs" "fs \<noteq> []"
  obtains h gs where "pure_table s (sv_cluster server_default) h gs" "cluster_header h cluster_ix" "gs \<noteq> []"
    "map (\<lambda>p. apply_row (cluster_row h cluster_ix (page_rows s (fst p) ! snd p))) (positions s gs 0) = fs"
proof -
  obtain h d where hd: "st_h s 2 = Some h" "has_columns h cluster_cols" "st_d s 3 = Some d" "only_page h d" "row_effects h d = fs"
    using assms(1) by (auto simp: cluster_inv_def)
  have gp: "sv_cluster server_default = \<lparr>gp_header = 2, gp_data = 3\<rparr>"
    by (simp add: server_default_def gid_parts_page0 CLUSTER_HEADER_GID_def CLUSTER_DATA_GID_def GID_FILEIDBITS_def)
  have ne: "grid_list d \<noteq> []" using assms(2) hd(5) by (auto simp: row_effects_def)
  have inv: "grid_inv d" using hd(4) by (simp add: only_page_def dgrid_ok_def)
  have pt: "pure_table s (sv_cluster server_default) h [3]"
    using hd(1,3,4) ne inv gp by (simp add: pure_table_def only_page_def GID_UNDEF_def)
  have rows: "page_rows s 3 = grid_list d" using hd(3) by (simp add: page_rows_def)
  have "map (\<lambda>p. apply_row (cluster_row h cluster_ix (page_rows s (fst p) ! snd p))) (positions s [3] 0) = fs"
    unfolding hd(5)[symmetric] row_effects_def by (rule nth_equalityI) (simp_all add: page_len_def rows)
  then show thesis using that[OF pt cluster_header_ix[OF hd(2)]] by simp
qed

lemma cluster_loads:
  assumes "cluster_inv s fs" "fs \<noteq> []"
  shows "load_cluster tp s server_default = Some (Some (fold (\<lambda>f. f) fs server_default))"
proof -
  obtain h gs where a: "pure_table s (sv_cluster server_default) h gs" "cluster_header h cluster_ix"
    "map (\<lambda>p. apply_row (cluster_row h cluster_ix (page_rows s (fst p) ! snd p))) (positions s gs 0) = fs"
    by (rule cluster_inv_pure[OF assms])
  show ?thesis unfolding load_cluster_folds[OF a(1,2)] a(3)[symmetric] by (simp add: fold_map comp_def)
qed

text \<open>The server as init_cluster sets it up.\<close>

definition installed :: server where
  "installed = server_default\<lparr>sv_sequence := gp_sequence, sv_user := table_pair 4, sv_catalog := table_pair 6,
     sv_schema := table_pair 8, sv_relation := table_pair 10, sv_tran := 12, sv_encoding := Some (ascii ''UTF-8'')\<rparr>"

definition later_pairs :: "(string \<times> gid_pair) list" where
  "later_pairs = [(''user'', table_pair 4), (''catalog'', table_pair 6), (''schema'', table_pair 8), (''relation'', table_pair 10),
     (''tran'', \<lparr>gp_header = GID_UNDEF, gp_data = 12\<rparr>)]"

lemma installed_effects:
  "fold (\<lambda>f. f) (encoding_effect # map (\<lambda>(n, gp). pair_effect n gp) (first_pairs @ later_pairs)) server_default = installed"
  by (simp add: first_pairs_def later_pairs_def pair_effect_def apply_row_def row_meaning_def ascii_def encoding_effect_def
      installed_def server_default_def crow_pair_def port_of_def sizes_pair_def gp_sequence_def gp_cluster_def table_pair_def
      gid_parts_page0 GID_FILEIDBITS_def GID_UNDEF_def DEFAULT_BACKLOG_def DEFAULT_PORT_def DEFAULT_PAGECACHESZ0_def
      DEFAULT_PAGECACHESZ1_def DEFAULT_FDCACHESZ0_def DEFAULT_FDCACHESZ1_def DEFAULT_TRANSZ0_def DEFAULT_TRANSZ1_def
      SEQUENCE_HEADER_GID_def SEQUENCE_DATA_GID_def CLUSTER_HEADER_GID_def CLUSTER_DATA_GID_def)

lemma later_names: "short_name ''user''" "short_name ''catalog''" "short_name ''schema''" "short_name ''relation''" "short_name ''tran''"
    "ascii ''user'' \<noteq> ascii ''encoding''" "ascii ''catalog'' \<noteq> ascii ''encoding''" "ascii ''schema'' \<noteq> ascii ''encoding''"
    "ascii ''relation'' \<noteq> ascii ''encoding''" "ascii ''tran'' \<noteq> ascii ''encoding''"
  by (simp_all add: short_name_def rtrim_last ascii_def)

text \<open>A system table and its row in the cluster table.\<close>

lemma system_table_step:
  assumes inv: "init_inv s k fs" and k: "4 \<le> k" "k + 2 \<le> 2 ^ 40" "k' = k + 2" and cs: "specs_ok cs"
    and n: "length fs < 16" "short_name n" "ascii n \<noteq> ascii ''encoding''"
  obtains s1 s' where "init_table s cs = Some (s1, table_pair k)"
    "add_gid_pairs junk 2 s1 gp_cluster [(n, table_pair k)] = Some (s', gp_cluster)"
    "init_inv s' k' (fs @ [pair_effect n (table_pair k)])" "empty_table s' (table_pair k) cs" "frame k s s'"
proof -
  have k1: "k + 1 < 2 ^ 40" using k(2) by simp
  obtain s1 where a: "init_table s cs = Some (s1, table_pair k)" "init_inv s1 (k + 2) fs" "empty_table s1 (table_pair k) cs" "frame k s s1"
    by (rule init_table_step[OF inv k(1) k1 cs])
  obtain s' where b: "add_gid_pairs junk 2 s1 gp_cluster [(n, table_pair k)] = Some (s', gp_cluster)"
    "init_inv s' (k + 2) (fs @ [pair_effect n (table_pair k)])" "frame (k + 2) s1 s'"
    by (rule cluster_row_step[OF a(2) n k(2)])
  have "empty_table s' (table_pair k) cs" using empty_table_frame[OF a(3) b(3)] k(1) by simp
  moreover have "frame k s s'" using frame_trans[OF a(4) b(3)] by simp
  ultimately show thesis using that a(1) b(1,2) k(3) by blast
qed

lemma init_cluster_ok:
  "\<exists>s'. init_cluster junk 0 0 s = Some (s', Some (12, zero_tran_page), 0) \<and>
     cluster_inv s' (encoding_effect # map (\<lambda>(n, gp). pair_effect n gp) (first_pairs @ later_pairs)) \<and>
     user_table s' (table_pair 4) ''scroller'' \<and> empty_table s' (table_pair 6) catalog_cols \<and>
     empty_table s' (table_pair 8) schema_cols \<and> empty_table s' (table_pair 10) relation_cols \<and> main_seq s' 13"
proof -
  let ?f = "encoding_effect # map (\<lambda>(n, gp). pair_effect n gp) first_pairs"
  let ?u = "?f @ [pair_effect ''user'' (table_pair 4)]"
  let ?c = "?u @ [pair_effect ''catalog'' (table_pair 6)]"
  let ?s = "?c @ [pair_effect ''schema'' (table_pair 8)]"
  let ?r = "?s @ [pair_effect ''relation'' (table_pair 10)]"
  have l: "length ?f < 16" "length ?u < 16" "length ?c < 16" "length ?s < 16" "length ?r < 16" by (simp_all add: first_pairs_def)
  have k: "(6 :: int) \<le> 2 ^ 40" "(12 :: int) \<le> 2 ^ 40" "(4 :: int) \<le> 6" "(6 :: int) + 2 \<le> 2 ^ 40" "(8 :: int) = 6 + 2"
    "(4 :: int) \<le> 8" "(8 :: int) + 2 \<le> 2 ^ 40" "(10 :: int) = 8 + 2" "(4 :: int) \<le> 10" "(10 :: int) + 2 \<le> 2 ^ 40" "(12 :: int) = 10 + 2"
    "(4 :: int) \<le> 12" "(12 :: int) < 2 ^ 40" "(13 :: int) = 12 + 1" by simp_all
  note N = later_names
  obtain s1 h1 where a: "init_sequence s = Some (s1, 0)" "main_seq s1 4" by (rule init_sequence_ok)
  obtain s2 h2 where b: "init_cluster_table junk s1 = Some (s2, gp_cluster, 0)" "cluster_inv s2 ?f"
    "st_h s2 = (st_h s1)(2 \<mapsto> h2)" "same_pages {3} s1 s2" by (rule init_cluster_table_ok)
  have "main_seq s2 4" by (rule main_seq_cong[OF a(2)]) (use b(3,4) in \<open>simp_all add: same_pages_def\<close>)
  then have i2: "init_inv s2 4 ?f" using b(2) by (simp add: init_inv_def)
  obtain s3 where c: "init_user junk s2 = Some (s3, table_pair 4, 0)" "init_inv s3 6 ?f" "user_table s3 (table_pair 4) ''scroller''"
    by (rule init_user_ok[OF i2])
  obtain s4 where d: "add_gid_pairs junk 2 s3 gp_cluster [(''user'', table_pair 4)] = Some (s4, gp_cluster)" "init_inv s4 6 ?u" "frame 6 s3 s4"
    by (rule cluster_row_step[OF c(2) l(1) N(1,6) k(1)])
  obtain s5 s6 where e: "init_table s4 catalog_cols = Some (s5, table_pair 6)"
    "add_gid_pairs junk 2 s5 gp_cluster [(''catalog'', table_pair 6)] = Some (s6, gp_cluster)" "init_inv s6 8 ?c"
    "empty_table s6 (table_pair 6) catalog_cols" "frame 6 s4 s6"
    by (rule system_table_step[OF d(2) k(3,4,5) specs_of_tables(2) l(2) N(2,7)])
  obtain s7 s8 where g: "init_table s6 schema_cols = Some (s7, table_pair 8)"
    "add_gid_pairs junk 2 s7 gp_cluster [(''schema'', table_pair 8)] = Some (s8, gp_cluster)" "init_inv s8 10 ?s"
    "empty_table s8 (table_pair 8) schema_cols" "frame 8 s6 s8"
    by (rule system_table_step[OF e(3) k(6,7,8) specs_of_tables(3) l(3) N(3,8)])
  obtain s9 s10 where h: "init_table s8 relation_cols = Some (s9, table_pair 10)"
    "add_gid_pairs junk 2 s9 gp_cluster [(''relation'', table_pair 10)] = Some (s10, gp_cluster)" "init_inv s10 12 ?r"
    "empty_table s10 (table_pair 10) relation_cols" "frame 10 s8 s10"
    by (rule system_table_step[OF g(3) k(9,10,11) specs_of_tables(4) l(4) N(4,9)])
  obtain s11 where i: "next_gid s10 = Some (s11, 12)" "init_inv s11 13 ?r" "frame 12 s10 s11"
    using next_gid_step[OF h(3) k(12,13,14)] by (metis of_int_numeral)
  obtain s12 where j: "add_gid_pairs junk 2 s11 gp_cluster [(''tran'', \<lparr>gp_header = GID_UNDEF, gp_data = 12\<rparr>)] = Some (s12, gp_cluster)"
    "init_inv s12 13 (?r @ [pair_effect ''tran'' \<lparr>gp_header = GID_UNDEF, gp_data = 12\<rparr>])" "frame 12 s11 s12"
    by (rule cluster_row_step[OF i(2) l(5) N(5,10) k(2)])
  have f10: "frame 12 s10 s12" using frame_trans[OF i(3) j(3)] by simp
  have f8: "frame 10 s8 s12" using frame_trans[OF h(5) f10] by simp
  have f6: "frame 8 s6 s12" using frame_trans[OF g(5) f8] by simp
  have f4: "frame 6 s3 s12" using frame_trans[OF frame_trans[OF d(3) e(5)] f6] by simp
  have "init_cluster junk 0 0 s = Some (s12, Some (12, zero_tran_page), 0)"
    using a(1) b(1) c(1) d(1) e(1,2) g(1,2) h(1,2) i(1) j(1)
    by (simp add: init_cluster_def gp_cluster_header Let_def del: add_gid_pairs.simps)
  moreover have "cluster_inv s12 (encoding_effect # map (\<lambda>(n, gp). pair_effect n gp) (first_pairs @ later_pairs))"
    using j(2) by (simp add: init_inv_def later_pairs_def)
  moreover have "empty_table s12 (table_pair 10) relation_cols" using empty_table_frame[OF h(4) f10] by simp
  moreover have "empty_table s12 (table_pair 8) schema_cols" using empty_table_frame[OF g(4) f8] by simp
  moreover have "empty_table s12 (table_pair 6) catalog_cols" using empty_table_frame[OF e(4) f6] by simp
  moreover have "user_table s12 (table_pair 4) ''scroller''" using user_table_frame[OF c(3) f4] by simp
  moreover have "main_seq s12 13" using j(2) by (simp add: init_inv_def)
  ultimately show ?thesis by blast
qed

section \<open>Properties\<close>

text \<open>
  C7: What the init program writes is what the server reads, whatever was in the store before:
  init_cluster returns 0, and server_init's loop over the cluster table it wrote ends and
  gives the server exactly the gids of the sequence and of the user, catalog, schema and
  relation tables and of the page of flags, the encoding and the default sizes; these tables
  are there with their columns, the user table with its one user and the others empty.
\<close>

theorem init_cluster_serves:
  "\<exists>s'. init_cluster junk 0 0 s = Some (s', Some (sv_tran installed, zero_tran_page), 0) \<and>
     load_cluster tp s' server_default = Some (Some installed) \<and>
     user_table s' (sv_user installed) ''scroller'' \<and> empty_table s' (sv_catalog installed) catalog_cols \<and>
     empty_table s' (sv_schema installed) schema_cols \<and> empty_table s' (sv_relation installed) relation_cols"
proof -
  obtain s' where s': "init_cluster junk 0 0 s = Some (s', Some (12, zero_tran_page), 0)"
    "cluster_inv s' (encoding_effect # map (\<lambda>(n, gp). pair_effect n gp) (first_pairs @ later_pairs))"
    "user_table s' (table_pair 4) ''scroller''" "empty_table s' (table_pair 6) catalog_cols"
    "empty_table s' (table_pair 8) schema_cols" "empty_table s' (table_pair 10) relation_cols"
    using init_cluster_ok[of junk s] by (elim exE conjE) (rule that)
  have "load_cluster tp s' server_default = Some (Some installed)"
    unfolding cluster_loads[OF s'(2) list.distinct(2)] installed_effects ..
  then show ?thesis using s' by (simp add: installed_def)
qed

lemma installed_store:
  obtains s h gs where "load_cluster tp s server_default = Some (Some installed)" "pure_table s (sv_cluster server_default) h gs"
    "cluster_header h cluster_ix" "gs \<noteq> []"
proof -
  obtain s where s: "cluster_inv s (encoding_effect # map (\<lambda>(n, gp). pair_effect n gp) (first_pairs @ later_pairs))"
    using init_cluster_ok by blast
  have l: "load_cluster tp s server_default = Some (Some installed)"
    unfolding cluster_loads[OF s list.distinct(2)] installed_effects ..
  obtain h gs where "pure_table s (sv_cluster server_default) h gs" "cluster_header h cluster_ix" "gs \<noteq> []"
    by (rule cluster_inv_pure[OF s list.distinct(2)])
  then show thesis using that l by blast
qed

text \<open>
  C9: On a cluster table of any number of pages the loop of server_init ends and is the fold,
  in the order of the chain, of what each row says: the parameter it names is set from its
  columns, a port out of range and an unknown name change nothing, and of two rows with one
  name the later one counts.
\<close>

theorem server_reads_cluster:
  assumes "pure_table s (sv_cluster sv) h gs" and "cluster_header h ix"
  shows "load_cluster tp s sv =
    Some (Some (fold apply_row (map (\<lambda>p. cluster_row h ix (page_rows s (fst p) ! snd p)) (positions s gs 0)) sv))"
  using assms by (rule load_cluster_folds)

theorem server_reads_cluster_witness:
  "\<exists>s h gs. pure_table s (sv_cluster server_default) h gs \<and>
     fold apply_row (map (\<lambda>p. cluster_row h cluster_ix (page_rows s (fst p) ! snd p)) (positions s gs 0)) server_default = installed"
proof -
  obtain s h gs where s: "load_cluster zero_tran_page s server_default = Some (Some installed)"
    "pure_table s (sv_cluster server_default) h gs" "cluster_header h cluster_ix" by (rule installed_store)
  have "fold apply_row (map (\<lambda>p. cluster_row h cluster_ix (page_rows s (fst p) ! snd p)) (positions s gs 0)) server_default = installed"
    using server_reads_cluster[OF s(2,3), of zero_tran_page] s(1) by simp
  then show ?thesis using s(2) by blast
qed

text \<open>
  C36: When all mappings succeed, the arguments and the directory are good, the cluster table
  loads and asks for at least one bucket in each cache, server_init reaches its end, with 0
  exactly when the socket and the signal handler are set up. After the server has stopped or
  given up, what is mapped is what was mapped before together with the spans of the first
  caches for the default sizes, less the spans of the first caches for the sizes the cluster
  table asks for, less the spans of the second caches when they were made: the caches are
  freed by the current sizes. So nothing of them remains when the table keeps the defaults,
  the rest of the first mappings leaks when it asks for less, and whatever lies behind the
  first mappings is unmapped with them when it asks for more.
\<close>

theorem caches_freed_by_current_sizes:
  assumes "mmaps_succeed (se_first env)" and "mmaps_succeed (se_second env)"
    and "se_argc env = 2" and "se_directory env" and "se_chdir env = 0"
    and "load_cluster tp s server_default = Some (Some sv)" and "sizes_ok sv"
  shows "\<exists>calls c res. server_init env tp s = Some (calls, c, sv, res) \<and>
    (res = Returned 0 \<longleftrightarrow> se_tcp env = 0 \<and> se_sigaction env \<noteq> -1) \<and>
    left_mapped (calls, c, sv, res) S = (S \<union> cache_spans (se_first env) server_default) - cache_spans (se_first env) sv -
      (if caches_differ sv then cache_spans (se_second env) sv else {})"
  using assms by (rule server_init_maps)

definition sample_env :: start_env where
  "sample_env = \<lparr>se_argc = 2, se_directory = True, se_chdir = 0,
     se_first = \<lparr>mm_pages = PAt 65536, mm_pagecache = PAt 262144, mm_fdcache = PAt 524288, mm_tran = PAt 1048576\<rparr>,
     se_second = \<lparr>mm_pages = PAt 65536, mm_pagecache = PAt 262144, mm_fdcache = PAt 524288, mm_tran = PAt 1048576\<rparr>,
     se_tcp = 0, se_sigaction = 0\<rparr>"

theorem caches_freed_by_current_sizes_witness:
  "\<exists>s calls c. server_init sample_env zero_tran_page s = Some (calls, c, installed, Returned 0) \<and>
     left_mapped (calls, c, installed, Returned 0) {} = {}"
proof -
  obtain s h gs where s: "load_cluster zero_tran_page s server_default = Some (Some installed)" by (rule installed_store)
  have mm: "mmaps_succeed (se_first sample_env)" "mmaps_succeed (se_second sample_env)" by (simp_all add: sample_env_def mmaps_succeed_def)
  have env: "se_argc sample_env = 2" "se_directory sample_env" "se_chdir sample_env = 0" "se_tcp sample_env = 0" "se_sigaction sample_env \<noteq> -1"
    by (simp_all add: sample_env_def)
  have same: "cache_spans mm server_default = cache_spans mm installed" for mm
    by (rule same_sizes_spans) (simp_all add: installed_def)
  have ok: "sizes_ok installed" and nd: "\<not> caches_differ installed"
    using sizes_ok_default by (simp_all add: installed_def sizes_ok_def caches_differ_def server_default_def)
  obtain calls c res where r: "server_init sample_env zero_tran_page s = Some (calls, c, installed, res)" "res = Returned 0"
    "left_mapped (calls, c, installed, res) {} = ({} \<union> cache_spans (se_first sample_env) server_default) - cache_spans (se_first sample_env) installed - {}"
    using caches_freed_by_current_sizes[OF mm env(1-3) s ok, of "{}"] env(4,5) nd by auto
  then have "left_mapped (calls, c, installed, Returned 0) {} = {}" using same by simp
  then show ?thesis using r(1,2) by blast
qed

text \<open>
  With a cluster table that asks for fewer pages the bytes behind them are never given back.
\<close>

lemma shrunk_caches_leak:
  assumes "mmaps_succeed (se_first env)" "mmaps_succeed (se_second env)"
    and "se_argc env = 2" "se_directory env" "se_chdir env = 0"
    and "load_cluster tp s server_default = Some (Some sv)" "sizes_ok sv"
    and "b \<in> cache_spans (se_first env) server_default" "b \<notin> cache_spans (se_first env) sv" "b \<notin> cache_spans (se_second env) sv"
  shows "\<exists>r. server_init env tp s = Some r \<and> b \<in> left_mapped r {}"
  using server_init_maps[OF assms(1-7), of "{}"] assms(8-10) by fastforce

end
