(* ===== verification/Scr_Catalog_Laws.thy ===== *)
theory Scr_Catalog_Laws
  imports Scr_Init_Laws
begin

text \<open>
  The relation table as a catalog: find_relation looks names up in it, CREATE TABLE enters
  them. A table that was created is found under its names, with the header it was given, and
  every other name is looked up as before.
\<close>

section \<open>Rows of the relation table\<close>

record rrow =
  rr_names :: "u8 list list"
  rr_header :: gid
  rr_data :: gid
  rr_tail :: gid

definition rel_row :: "hgrid \<Rightarrow> u8 list \<Rightarrow> rrow" where
  "rel_row h r = \<lparr>rr_names = map (\<lambda>c. rtrim (cell_bytes h r c)) [0, 1, 2], rr_header = get_bigint (cell_bytes h r 3),
     rr_data = get_bigint (cell_bytes h r 4), rr_tail = get_bigint (cell_bytes h r 5)\<rparr>"

text \<open>Looking names up in a list of rows; the outer \<open>None\<close> is a row without a header.\<close>

definition lookup_rows :: "u8 list list \<Rightarrow> bool \<Rightarrow> rrow list \<Rightarrow> gid_pair option" where
  "lookup_rows names return_tail rows = (case find (\<lambda>r. rr_names r = names) rows of None \<Rightarrow> Some GP_UNDEF
     | Some r \<Rightarrow> if rr_header r = GID_UNDEF then None
         else Some \<lparr>gp_header = rr_header r, gp_data = if return_tail then rr_tail r else rr_data r\<rparr>)"

lemma relation_names: "distinct (map (ascii \<circ> fst) relation_cols)"
  by (simp add: relation_cols_def ascii_def)

lemma relation_idx:
  assumes "has_columns h relation_cols" "st_h s hg = Some h"
  shows "column_idx s hg ''catalog'' = Some 0" "column_idx s hg ''schema'' = Some 1" "column_idx s hg ''relation'' = Some 2"
    "column_idx s hg ''header_gid'' = Some 3" "column_idx s hg ''data_gid'' = Some 4" "column_idx s hg ''tail_gid'' = Some 5"
proof -
  note i = has_columns_idx[OF assms(1) relation_names]
  have n: "length relation_cols = 6" by (simp add: relation_cols_def)
  have v: "grid_idx_is_valid 0" "grid_idx_is_valid 1" "grid_idx_is_valid 2" "grid_idx_is_valid 3" "grid_idx_is_valid 4" "grid_idx_is_valid 5"
    by (simp_all add: grid_idx_is_valid_def GRID_INVALID_IDX_def)
  show "column_idx s hg ''catalog'' = Some 0" "column_idx s hg ''schema'' = Some 1" "column_idx s hg ''relation'' = Some 2"
    "column_idx s hg ''header_gid'' = Some 3" "column_idx s hg ''data_gid'' = Some 4" "column_idx s hg ''tail_gid'' = Some 5"
    using i(1)[of 0] i(1)[of 1] i(1)[of 2] i(1)[of 3] i(1)[of 4] i(1)[of 5] n assms(2) v
    by (simp_all add: column_idx_def relation_cols_def Let_def)
qed

lemma relation_types:
  assumes "has_columns h relation_cols"
  shows "length (grid_list h) = 6"
    "\<forall>c \<in> {0, 1, 2 :: u16}. col_type (grid_list h ! unat c) = T_CHAR \<and> col_size (grid_list h ! unat c) = 32"
    "\<forall>c \<in> {3, 4, 5 :: u16}. col_type (grid_list h ! unat c) = T_BIGINT"
proof -
  note n = has_columns_nth[OF assms]
  show "length (grid_list h) = 6" using n(1) by (simp add: relation_cols_def)
  show "\<forall>c \<in> {0, 1, 2 :: u16}. col_type (grid_list h ! unat c) = T_CHAR \<and> col_size (grid_list h ! unat c) = 32"
    using n(3,4)[of 0] n(3,4)[of 1] n(3,4)[of 2] by (simp add: relation_cols_def)
  show "\<forall>c \<in> {3, 4, 5 :: u16}. col_type (grid_list h ! unat c) = T_BIGINT"
    using n(3)[of 3] n(3)[of 4] n(3)[of 5] by (simp add: relation_cols_def)
qed

section \<open>The loop of find_relation\<close>

text \<open>An iterator at row \<open>i\<close> of the only page of a table, or behind its last row.\<close>

definition at_row :: "store \<Rightarrow> gid \<Rightarrow> hgrid \<Rightarrow> gid \<Rightarrow> dgrid \<Rightarrow> nat \<Rightarrow> titor \<Rightarrow> bool" where
  "at_row s hg h g d i t \<longleftrightarrow> st_h s hg = Some h \<and> st_d s g = Some d \<and> only_page h d \<and> i \<le> length (grid_list d) \<and>
     gp_header (m_gp (t_m t)) \<noteq> GID_UNDEF \<and> gp_data (m_gp (t_m t)) \<noteq> GID_UNDEF \<and>
     m_header (t_m t) = Some hg \<and> m_data (t_m t) = Some g \<and> unat (m_row (t_m t)) = i"

lemma at_row_valid:
  assumes "at_row s hg h g d i t"
  shows "mitor_is_valid s (t_m t) = Some (i < length (grid_list d))"
proof -
  have d: "st_d s g = Some d" "only_page h d" "m_data (t_m t) = Some g" "unat (m_row (t_m t)) = i"
    "gp_header (m_gp (t_m t)) \<noteq> GID_UNDEF" "gp_data (m_gp (t_m t)) \<noteq> GID_UNDEF" using assms by (auto simp: at_row_def)
  then have "grid_inv d" by (simp add: only_page_def dgrid_ok_def)
  from grid_invD(3)[OF this] show ?thesis using d by (simp add: mitor_is_valid_def word_less_nat_alt)
qed

lemma at_row_next:
  assumes at: "at_row s hg h g d i t" and lt: "i < length (grid_list d)"
  obtains t' where "titor_next tp s t = Some t'" "at_row s hg h g d (Suc i) t'"
proof -
  have d: "st_d s g = Some d" "only_page h d" "m_data (t_m t) = Some g" "unat (m_row (t_m t)) = i"
    "g_content d = GC_PURE" "g_next d = GID_UNDEF" using at by (auto simp: at_row_def only_page_def)
  have inv: "grid_inv d" using d(2) by (simp add: only_page_def dgrid_ok_def)
  have "m_row (t_m t) < g_occupied d" using lt d(4) grid_invD(3)[OF inv] by (simp add: word_less_nat_alt)
  note u = unat_succ_u16[OF this]
  let ?m = "(t_m t)\<lparr>m_row := m_row (t_m t) + 1\<rparr>"
  have at': "at_row s hg h g d (Suc i) (t\<lparr>t_m := ?m\<rparr>)" using at lt u by (simp add: at_row_def)
  have "mitor_is_valid s ?m = Some (Suc i < length (grid_list d))" using at_row_valid[OF at'] by simp
  then have "mitor_next s (t_m t) = Some ?m"
    using at_row_valid[OF at] lt d(1,3,6) by (simp add: mitor_next_def Let_def)
  then have "titor_next tp s t = Some (t\<lparr>t_m := ?m\<rparr>)" using d(1,3,5) by (simp add: titor_next_def titor_content_def)
  then show thesis using that at' by blast
qed

lemma at_row_char:
  assumes at: "at_row s hg h g d i t" and h: "has_columns h relation_cols" and lt: "i < length (grid_list d)" and c: "c \<in> {0, 1, 2}"
  obtains v where "titor_get_datum s t c = Some v" "eq_character v (make_char n) = Some (rtrim (cell_bytes h (grid_list d ! i) (unat c)) = rtrim n)"
proof -
  have f: "dgrid_ok h d" "unat (m_row (t_m t)) < length (grid_list d)" "unat (m_row (t_m t)) = i" "st_h s hg = Some h" "st_d s g = Some d"
    "m_header (t_m t) = Some hg" "m_data (t_m t) = Some g" using at lt by (auto simp: at_row_def only_page_def)
  have cl: "unat c < length (grid_list h)" "col_type (grid_list h ! unat c) = T_CHAR" using relation_types[OF h] c by auto
  obtain v where v: "grid_get_datum h d (m_row (t_m t)) c = Some v" "dt_type v = T_CHAR" "dt_readable v"
    "dt_key v = rtrim (cell_bytes h (grid_list d ! unat (m_row (t_m t))) (unat c))"
    using char_cell[OF f(1,2) cl] by metis
  have g: "get_type_group (dt_type v) = TG_CHARACTER" using v(2) by (simp add: get_type_group_def)
  have m: "get_type_group (dt_type (make_char n)) = TG_CHARACTER" "dt_readable (make_char n)" "dt_key (make_char n) = rtrim n"
    by (simp_all add: make_char_def get_type_group_def dt_readable_def dt_bytes_def dt_key_def dt_str_def)
  obtain x where "cmp_character v (make_char n) = Some x" "x = 0 \<longleftrightarrow> dt_key v = dt_key (make_char n)"
    using cmp_character_sign[OF g m(1) v(3) m(2)] by blast
  then have "eq_character v (make_char n) = Some (rtrim (cell_bytes h (grid_list d ! i) (unat c)) = rtrim n)"
    using v(4) m(3) f(3) by (simp add: eq_character_def)
  moreover have "titor_get_datum s t c = Some v" using v(1) f by (simp add: titor_get_datum_def mitor_get_datum_def)
  ultimately show thesis using that by blast
qed

lemma at_row_bigint:
  assumes at: "at_row s hg h g d i t" and h: "has_columns h relation_cols" and lt: "i < length (grid_list d)" and c: "c \<in> {3, 4, 5}"
  obtains v where "titor_get_datum s t c = Some v" "dt_bigint v = get_bigint (cell_bytes h (grid_list d ! i) (unat c))"
proof -
  have f: "dgrid_ok h d" "unat (m_row (t_m t)) < length (grid_list d)" "unat (m_row (t_m t)) = i" "st_h s hg = Some h" "st_d s g = Some d"
    "m_header (t_m t) = Some hg" "m_data (t_m t) = Some g" using at lt by (auto simp: at_row_def only_page_def)
  have cl: "unat c < length (grid_list h)" "col_type (grid_list h ! unat c) = T_BIGINT" using relation_types[OF h] c by auto
  obtain v where v: "grid_get_datum h d (m_row (t_m t)) c = Some v"
    "dt_bigint v = get_bigint (cell_bytes h (grid_list d ! unat (m_row (t_m t))) (unat c))"
    using bigint_cell[OF f(1,2) cl] by metis
  moreover have "titor_get_datum s t c = Some v" using v(1) f by (simp add: titor_get_datum_def mitor_get_datum_def)
  ultimately show thesis using that f(3) by simp
qed

lemma find_loop_at:
  assumes h: "has_columns h relation_cols" and c: "ss_catalog ss = Some cat"
  shows "at_row s hg h g d i t \<Longrightarrow>
    find_relation_loop sys ss tp s schema relation rt False [0, 1, 2, 3, 4, 5] t =
      map_option (Pair s) (lookup_rows (map rtrim [cat, schema, relation]) rt (map (rel_row h) (drop i (grid_list d))))"
proof (induction "length (grid_list d) - i" arbitrary: i t)
  case 0
  then have "\<not> i < length (grid_list d)" by simp
  then show ?case using at_row_valid[OF 0(2)] by (subst find_relation_loop.simps) (simp add: lookup_rows_def)
next
  case (Suc n)
  have lt: "i < length (grid_list d)" using Suc(2) by simp
  let ?r = "grid_list d ! i"
  have dr: "drop i (grid_list d) = ?r # drop (Suc i) (grid_list d)" using lt by (simp add: Cons_nth_drop_Suc)
  obtain a where a: "titor_get_datum s t 0 = Some a" "eq_character a (make_char cat) = Some (rtrim (cell_bytes h ?r 0) = rtrim cat)"
    using at_row_char[OF Suc(3) h lt, of 0 cat] by auto
  obtain b where b: "titor_get_datum s t 1 = Some b" "eq_character b (make_char schema) = Some (rtrim (cell_bytes h ?r 1) = rtrim schema)"
    using at_row_char[OF Suc(3) h lt, of 1 schema] by auto
  obtain e where e: "titor_get_datum s t 2 = Some e" "eq_character e (make_char relation) = Some (rtrim (cell_bytes h ?r 2) = rtrim relation)"
    using at_row_char[OF Suc(3) h lt, of 2 relation] by auto
  obtain x where x: "titor_get_datum s t 3 = Some x" "dt_bigint x = get_bigint (cell_bytes h ?r 3)"
    using at_row_bigint[OF Suc(3) h lt, of 3] by auto
  obtain y where y: "titor_get_datum s t 4 = Some y" "dt_bigint y = get_bigint (cell_bytes h ?r 4)"
    using at_row_bigint[OF Suc(3) h lt, of 4] by auto
  obtain z where z: "titor_get_datum s t 5 = Some z" "dt_bigint z = get_bigint (cell_bytes h ?r 5)"
    using at_row_bigint[OF Suc(3) h lt, of 5] by auto
  have rn: "row_names s t [(0, Some cat), (1, Some schema), (2, Some relation)] =
      Some (rr_names (rel_row h ?r) = map rtrim [cat, schema, relation])"
    using a b e by (auto simp: row_names_def make_char_of_def rel_row_def)
  obtain t' where t': "titor_next tp s t = Some t'" "at_row s hg h g d (Suc i) t'" by (rule at_row_next[OF Suc(3) lt])
  have "n = length (grid_list d) - Suc i" using Suc(2) by simp
  from Suc(1)[OF this t'(2)] show ?case
    using at_row_valid[OF Suc(3)] lt rn c x y z t'(1)
    by (subst find_relation_loop.simps) (auto simp: dr lookup_rows_def rel_row_def)
qed

text \<open>A relation table of one page.\<close>

definition relation_table :: "server_sys \<Rightarrow> store \<Rightarrow> hgrid \<Rightarrow> dgrid \<Rightarrow> bool" where
  "relation_table sys s h d \<longleftrightarrow> (let gp = sys_relation sys in gp_header gp \<noteq> GID_UNDEF \<and> gp_data gp \<noteq> GID_UNDEF \<and>
     st_h s (gp_header gp) = Some h \<and> has_columns h relation_cols \<and> st_d s (gp_data gp) = Some d \<and> only_page h d)"

lemma find_relation_rows:
  assumes r: "relation_table sys (db_store db) h d" and c: "ss_catalog ss = Some cat"
  shows "find_relation sys ss db schema relation rt False =
    map_option (Pair db) (lookup_rows (map rtrim [cat, schema, relation]) rt (map (rel_row h) (grid_list d)))"
proof -
  let ?gp = "sys_relation sys" and ?s = "db_store db"
  have f: "gp_header ?gp \<noteq> GID_UNDEF" "gp_data ?gp \<noteq> GID_UNDEF" "st_h ?s (gp_header ?gp) = Some h" "has_columns h relation_cols"
    "st_d ?s (gp_data ?gp) = Some d" "only_page h d" using r by (simp_all add: relation_table_def Let_def)
  let ?t = "\<lparr>t_m = mitor_init ?gp (gp_header ?gp) (gp_data ?gp), t_tran = sess_tran db ss\<rparr>"
  have "titor_init (db_tran db) ?s (sess_tran db ss) ?gp (gp_header ?gp) (gp_data ?gp) = Some ?t"
    using f(5,6) by (simp add: titor_init_def titor_content_def mitor_init_def only_page_def)
  moreover have "at_row ?s (gp_header ?gp) h (gp_data ?gp) d 0 ?t" using f by (simp add: at_row_def mitor_init_def)
  note loop = find_loop_at[OF f(4) c this]
  have db: "db\<lparr>db_store := ?s\<rparr> = db" by simp
  ultimately show ?thesis
    unfolding find_relation_def Let_def
    by (cases "lookup_rows (map rtrim [cat, schema, relation]) rt (map (rel_row h) (grid_list d))")
      (simp_all add: relation_idx[OF f(4,3)] loop[simplified])
qed

section \<open>Entering a table\<close>

text \<open>Names that fit a CHAR(32) and are read back whole.\<close>

definition cat_name :: "u8 list \<Rightarrow> bool" where
  "cat_name n \<longleftrightarrow> length n \<le> 32 \<and> 0 \<notin> set n \<and> rtrim n = n"

lemma cat_name_held:
  assumes "cat_name n" "col_type (grid_list h ! k) = T_CHAR" "col_size (grid_list h ! k) = 32"
  shows "can_hold h k (make_char n)"
proof -
  have "takeWhile (\<lambda>b. b \<noteq> 0) n = n" using assms(1) by (simp add: cat_name_def takeWhile_eq_all_conv) metis
  then show ?thesis using assms
    by (simp add: stored_type_def datum_fits_def make_char_def get_type_group_def dt_bytes_def dt_str_def cat_name_def)
qed

lemma stored_cat_name:
  assumes "cell_view c bs = stored_view c (make_char n)" "col_type c = T_CHAR" "cat_name n"
  shows "rtrim bs = n"
proof -
  have "bs = n @ replicate (unat (col_size c) - length n) 32"
    using assms(1,2) by (simp add: cell_view_def stored_view_def make_char_def dt_str_def dt_bytes_def)
  then show ?thesis using assms(3) by (simp add: cat_name_def)
qed

text \<open>The columns of a statement, with those that carry the transactions of a row.\<close>

definition decl_specs :: "grid_content \<Rightarrow> decl list \<Rightarrow> (u8 list \<times> sql_type \<times> u64) list" where
  "decl_specs content decls = map (\<lambda>c. (dc_name c, dc_type c, dc_size c)) ((if content = GC_MVCC then mvcc_decls else []) @ decls)"

definition decls_ok :: "grid_content \<Rightarrow> decl list \<Rightarrow> bool" where
  "decls_ok content decls \<longleftrightarrow> (let cs = decl_specs content decls in length cs \<le> 101 \<and> (\<forall>s \<in> set cs. spec_ok s) \<and>
     2 * sum_list (map spec_width cs) \<le> 65535)"

definition has_specs :: "hgrid \<Rightarrow> (u8 list \<times> sql_type \<times> u64) list \<Rightarrow> bool" where
  "has_specs h cs \<longleftrightarrow> hgrid_wf h \<and> map (\<lambda>c. (cname c, col_type c, col_size c)) (grid_list h) = cs"

lemma add_decls_columns:
  "add_columns h (map (\<lambda>c. (dc_name c, dc_type c, dc_size c)) cs) = Some h' \<Longrightarrow> add_decls h cs = Some (h', True)"
  by (induction cs arbitrary: h) (auto simp: htable_add_column_def hmesh_add_column_def split: option.splits prod.splits)

lemma new_header_ok:
  assumes "decls_ok content decls"
  obtains h0 h where "htable_init (of_nat PAGESZ) GL_FIXED GC_PURE = Some (Some h0)"
    "add_decls h0 ((if content = GC_MVCC then mvcc_decls else []) @ decls) = Some (h, True)" "has_specs h (decl_specs content decls)"
proof -
  have p: "24 \<le> unat (of_nat PAGESZ :: u16)" by (simp add: PAGESZ_def)
  obtain h0 where h0: "hgrid_init (of_nat PAGESZ) GL_FIXED GC_PURE = Some h0" "hgrid_wf h0" "grid_list h0 = []"
    "unat (g_rown h0) = (unat (of_nat PAGESZ :: u16) - 24) div 40" "g_datasz h0 = 0"
    using hgrid_init_wf[OF p] by metis
  let ?cs = "decl_specs content decls"
  have room: "length (grid_list h0) + length ?cs \<le> unat (g_rown h0)" using h0(3,4) assms by (simp add: PAGESZ_def decls_ok_def Let_def)
  have spec: "\<forall>s \<in> set ?cs. spec_ok s" and small: "unat (g_datasz h0) + 2 * sum_list (map spec_width ?cs) \<le> 65535"
    using assms h0(5) unfolding decls_ok_def Let_def by auto
  obtain h ds where h: "add_columns h0 ?cs = Some h" "hgrid_wf h" "grid_list h = grid_list h0 @ ds"
    "map (\<lambda>c. (cname c, col_type c, col_size c)) ds = ?cs"
    using add_columns_ok[OF h0(2) room spec small] by (elim exE conjE) (rule that)
  have "has_specs h ?cs" using h(2-4) h0(3) by (simp add: has_specs_def)
  then show thesis using that h0(1) add_decls_columns[OF h(1)[unfolded decl_specs_def]] by (simp add: htable_init_def)
qed

text \<open>A new row at the end of the list is found, and nothing else is found differently.\<close>

lemma lookup_rows_snoc:
  assumes "rr_names r = names" "rr_header r \<noteq> GID_UNDEF"
  shows "lookup_rows names rt rows = Some GP_UNDEF \<Longrightarrow>
      lookup_rows names rt (rows @ [r]) = Some \<lparr>gp_header = rr_header r, gp_data = if rt then rr_tail r else rr_data r\<rparr>"
    and "names' \<noteq> names \<Longrightarrow> lookup_rows names' rt (rows @ [r]) = lookup_rows names' rt rows"
proof -
  have none: "find p rows = None" if "lookup_rows names rt rows = Some GP_UNDEF" "p = (\<lambda>r. rr_names r = names)" for p
    using that by (auto simp: lookup_rows_def GP_UNDEF_def split: option.splits if_splits)
  have app: "find p (rows @ [r]) = (case find p rows of None \<Rightarrow> if p r then Some r else None | x \<Rightarrow> x)" for p
    by (induction rows) auto
  show "lookup_rows names rt (rows @ [r]) = Some \<lparr>gp_header = rr_header r, gp_data = if rt then rr_tail r else rr_data r\<rparr>"
    if "lookup_rows names rt rows = Some GP_UNDEF" using none[OF that refl] assms by (simp add: lookup_rows_def app)
  show "lookup_rows names' rt (rows @ [r]) = lookup_rows names' rt rows" if "names' \<noteq> names"
    using that assms(1) by (auto simp: lookup_rows_def app split: option.splits)
qed

definition relation_values :: "u8 list \<Rightarrow> u8 list \<Rightarrow> u8 list \<Rightarrow> gid \<Rightarrow> (u16 \<times> datum) list" where
  "relation_values cat schema name g = [(0, make_char cat), (1, make_char schema), (2, make_char name),
     (3, make_bigint g), (4, make_bigint GID_UNDEF), (5, make_bigint GID_UNDEF)]"

lemma relation_values_held:
  assumes h: "has_columns h relation_cols" and n: "cat_name cat" "cat_name schema" "cat_name name"
  shows "\<forall>(c, v) \<in> set (relation_values cat schema name g). unat c < length (grid_list h) \<and> can_hold h (unat c) v"
    "distinct (map fst (relation_values cat schema name g))"
proof -
  note t = relation_types[OF h]
  have c: "can_hold h (unat k) (make_char m)" if "k \<in> {0, 1, 2}" "cat_name m" for k :: u16 and m
    using t(2) that cat_name_held by blast
  have b: "can_hold h (unat k) (make_bigint v)" if "k \<in> {3, 4, 5}" for k :: u16 and v
    using t(3) that can_hold_bigint by blast
  show "\<forall>(c, v) \<in> set (relation_values cat schema name g). unat c < length (grid_list h) \<and> can_hold h (unat c) v"
    using c[of 0 cat] c[of 1 schema] c[of 2 name] b[of 3 g] b[of 4 GID_UNDEF] b[of 5 GID_UNDEF] n t(1)
    by (simp add: relation_values_def)
  show "distinct (map fst (relation_values cat schema name g))" by (simp add: relation_values_def)
qed

lemma relation_values_read:
  assumes h: "has_columns h relation_cols" and n: "cat_name cat" "cat_name schema" "cat_name name"
    and v: "\<forall>(c, v) \<in> set (relation_values cat schema name g).
      cell_view (grid_list h ! unat c) (cell_bytes h r (unat c)) = stored_view (grid_list h ! unat c) v"
  shows "rel_row h r = \<lparr>rr_names = [cat, schema, name], rr_header = g, rr_data = GID_UNDEF, rr_tail = GID_UNDEF\<rparr>"
proof -
  note t = relation_types[OF h]
  have e: "cell_view (grid_list h ! unat c) (cell_bytes h r (unat c)) = stored_view (grid_list h ! unat c) x"
    if "(c, x) \<in> set (relation_values cat schema name g)" for c x using v that by blast
  have "rtrim (cell_bytes h r (unat c)) = m" if "(c, make_char m) \<in> set (relation_values cat schema name g)" "c \<in> {0, 1, 2}" "cat_name m" for c m
    using stored_cat_name[OF e[OF that(1)]] t(2) that(2,3) by blast
  from this[of 0 cat] this[of 1 schema] this[of 2 name] n
  have "rtrim (cell_bytes h r 0) = cat" "rtrim (cell_bytes h r 1) = schema" "rtrim (cell_bytes h r 2) = name"
    by (simp_all add: relation_values_def)
  moreover have "get_bigint (cell_bytes h r (unat c)) = w" if "(c, make_bigint w) \<in> set (relation_values cat schema name g)" "c \<in> {3, 4, 5}" for c w
    using stored_number[OF e[OF that(1)]] t(3) that(2) by blast
  from this[of 3 g] this[of 4 GID_UNDEF] this[of 5 GID_UNDEF]
  have "get_bigint (cell_bytes h r 3) = g" "get_bigint (cell_bytes h r 4) = GID_UNDEF" "get_bigint (cell_bytes h r 5) = GID_UNDEF"
    by (simp_all add: relation_values_def)
  ultimately show ?thesis by (simp add: rel_row_def)
qed

text \<open>The catalog of a cluster whose next file is number \<open>k\<close>.\<close>

definition catalog_inv :: "server_sys \<Rightarrow> store \<Rightarrow> int \<Rightarrow> bool" where
  "catalog_inv sys s k \<longleftrightarrow> sys_sequence sys = gp_sequence \<and> gp_data (sys_relation sys) \<noteq> 1 \<and>
     gp_header (sys_relation sys) \<noteq> 0 \<and> gp_header (sys_relation sys) \<noteq> word_of_int k \<and> main_seq s k \<and> 4 \<le> k \<and> k < 2 ^ 40"

lemma create_table_row:
  assumes r: "relation_table sys (db_store db) h d" "length (grid_list d) < 16" and i: "catalog_inv sys (db_store db) k"
    and c: "ss_catalog ss = Some cat" and n: "cat_name cat" "cat_name schema" "cat_name name" and ds: "decls_ok content decls"
  obtains s t d' row where "create_table junk sys ss db schema name decls content = Some (db\<lparr>db_store := s\<rparr>, SCRS_OK)"
    "relation_table sys s h d'" "grid_list d' = grid_list d @ [row]"
    "rel_row h row = \<lparr>rr_names = [cat, schema, name], rr_header = word_of_int k, rr_data = GID_UNDEF, rr_tail = GID_UNDEF\<rparr>"
    "main_seq s (k + 1)" "st_h s = (st_h (db_store db))(word_of_int k \<mapsto> t)" "has_specs t (decl_specs content decls)"
proof -
  let ?s = "db_store db" and ?gp = "sys_relation sys" and ?g = "word_of_int k :: gid"
  have f: "gp_header ?gp \<noteq> GID_UNDEF" "gp_data ?gp \<noteq> GID_UNDEF" "st_h ?s (gp_header ?gp) = Some h" "has_columns h relation_cols"
    "st_d ?s (gp_data ?gp) = Some d" "only_page h d" using r(1) by (simp_all add: relation_table_def Let_def)
  have k: "main_seq ?s k" "4 \<le> k" "k < 2 ^ 40" "sys_sequence sys = gp_sequence" "gp_data ?gp \<noteq> 1" "gp_header ?gp \<noteq> ?g"
    using i by (simp_all add: catalog_inv_def)
  have g: "gid_parts ?g 0 = ?g" by (rule file_gid) (use k in simp_all)
  obtain s1 where a: "store_nextval ?s (sys_sequence sys) = Some (s1, Some ?g, 0)" "main_seq s1 (k + 1)" "st_h s1 = st_h ?s" "same_pages {1} ?s s1"
    using main_seq_counts[OF k(1-3)] k(4) by metis
  obtain h0 t where b: "htable_init (of_nat PAGESZ) GL_FIXED GC_PURE = Some (Some h0)"
    "add_decls h0 ((if content = GC_MVCC then mvcc_decls else []) @ decls) = Some (t, True)" "has_specs t (decl_specs content decls)"
    by (rule new_header_ok[OF ds])
  let ?s2 = "s1\<lparr>st_h := (st_h s1)(?g \<mapsto> t)\<rparr>"
  have h2: "st_h ?s2 (gp_header ?gp) = Some h" "st_d ?s2 (gp_data ?gp) = Some d" using f(3,5) k(5,6) a(3,4) by (simp_all add: same_pages_def)
  note v = relation_values_held[OF f(4) n, of ?g]
  obtain s3 rw d' row where e: "table_alloc_row (g_sequence sys) ?s2 \<lparr>t_m = mitor_init_invalid, t_tran = junk\<rparr> ?gp = Some (s3, ?gp, rw)"
    "st_h s3 = st_h ?s2" "put_all s3 rw (relation_values cat schema name ?g) = Some (put_data ?s2 (gp_data ?gp) d', 0)" "only_page h d'"
    "grid_list d' = grid_list d @ [row]" "\<forall>(c, v) \<in> set (relation_values cat schema name ?g).
      cell_view (grid_list h ! unat c) (cell_bytes h row (unat c)) = stored_view (grid_list h ! unat c) v" "titor_is_valid s3 rw = Some True"
    by (rule new_row[OF h2(1,2) f(6) r(2) v, of "g_sequence sys" "\<lparr>t_m = mitor_init_invalid, t_tran = junk\<rparr>"]) (rule that, use f(1,2) in simp_all)
  let ?s4 = "put_data ?s2 (gp_data ?gp) d'"
  have "create_table junk sys ss db schema name decls content = Some (db\<lparr>db_store := ?s4\<rparr>, SCRS_OK)"
    using a(1) b(1,2) e(1,3,7) c g
    by (simp add: create_table_def Let_def relation_idx[OF f(4,3)] alloc_system_row_def make_char_of_def relation_values_def del: put_all.simps)
  moreover have "relation_table sys ?s4 h d'" using f h2(1) e(4) by (simp add: relation_table_def Let_def)
  moreover have "main_seq ?s4 (k + 1)"
    by (rule main_seq_cong[OF a(2)]) (use small_gid[OF k(2,3)] k(5) in auto)
  moreover have "st_h ?s4 = (st_h ?s)(?g \<mapsto> t)" using a(3) by simp
  ultimately show thesis using that e(5) relation_values_read[OF f(4) n e(6)] b(3) by blast
qed

section \<open>Properties\<close>

text \<open>
  C8: CREATE TABLE enters what find_relation looks up: on a relation table of one page with
  room, with names that fit their columns and columns that fit a page, create_table of a table
  not yet there returns SCRS_OK, takes the next number of the sequence for the file of the
  header, which has the declared columns behind those of the transactions, and find_relation
  with the same names then returns this header and no data, while every lookup of other names,
  in any session, gives what it gave before.
\<close>

theorem create_table_found:
  assumes "relation_table sys (db_store db) h d" "length (grid_list d) < 16" "catalog_inv sys (db_store db) k"
    and "ss_catalog ss = Some cat" "cat_name cat" "cat_name schema" "cat_name name" "decls_ok content decls"
    and "find_relation sys ss db schema name rt False = Some (db, GP_UNDEF)"
  shows "\<exists>db' t. create_table junk sys ss db schema name decls content = Some (db', SCRS_OK) \<and>
     find_relation sys ss db' schema name rt False = Some (db', \<lparr>gp_header = word_of_int k, gp_data = GID_UNDEF\<rparr>) \<and>
     st_h (db_store db') (word_of_int k) = Some t \<and> has_specs t (decl_specs content decls) \<and> main_seq (db_store db') (k + 1) \<and>
     (\<forall>ss' cat' schema' name' rt'. ss_catalog ss' = Some cat' \<and> map rtrim [cat', schema', name'] \<noteq> [cat, schema, name] \<longrightarrow>
        find_relation sys ss' db' schema' name' rt' False = map_option (\<lambda>(_, r). (db', r)) (find_relation sys ss' db schema' name' rt' False))"
proof -
  obtain s t d' row where a: "create_table junk sys ss db schema name decls content = Some (db\<lparr>db_store := s\<rparr>, SCRS_OK)"
    "relation_table sys s h d'" "grid_list d' = grid_list d @ [row]"
    "rel_row h row = \<lparr>rr_names = [cat, schema, name], rr_header = word_of_int k, rr_data = GID_UNDEF, rr_tail = GID_UNDEF\<rparr>"
    "main_seq s (k + 1)" "st_h s = (st_h (db_store db))(word_of_int k \<mapsto> t)" "has_specs t (decl_specs content decls)"
    by (rule create_table_row[OF assms(1-8)])
  let ?db = "db\<lparr>db_store := s\<rparr>" and ?names = "[cat, schema, name]" and ?rows = "map (rel_row h) (grid_list d)"
  have r: "relation_table sys (db_store ?db) h d'" using a(2) by simp
  have n: "map rtrim ?names = ?names" using assms(5-7) by (simp add: cat_name_def)
  have k: "rr_header (rel_row h row) \<noteq> GID_UNDEF" using small_gid[of k] assms(3) a(4) by (simp add: catalog_inv_def GID_UNDEF_def)
  have l: "map (rel_row h) (grid_list d') = ?rows @ [rel_row h row]" using a(3) by simp
  have new: "rr_names (rel_row h row) = ?names" using a(4) by simp
  have "lookup_rows ?names rt ?rows = Some GP_UNDEF"
    using assms(9) n unfolding find_relation_rows[OF assms(1,4)] by simp
  from lookup_rows_snoc(1)[OF new k this]
  have "find_relation sys ss ?db schema name rt False = Some (?db, \<lparr>gp_header = word_of_int k, gp_data = GID_UNDEF\<rparr>)"
    unfolding find_relation_rows[OF r assms(4)] n l using a(4) by simp
  moreover have "find_relation sys ss' ?db schema' name' rt' False =
      map_option (\<lambda>(_, r). (?db, r)) (find_relation sys ss' db schema' name' rt' False)"
    if "ss_catalog ss' = Some cat'" "map rtrim [cat', schema', name'] \<noteq> ?names" for ss' cat' schema' name' rt'
    unfolding find_relation_rows[OF r that(1)] find_relation_rows[OF assms(1) that(1)] l lookup_rows_snoc(2)[OF new k that(2)]
    by (simp add: option.map_comp comp_def)
  ultimately show ?thesis using a(1,5-7) by (intro exI[of _ ?db] exI[of _ t]) auto
qed

theorem create_table_found_witness:
  "\<exists>s db'. init_cluster None 0 0 small_store = Some (s, Some (12, zero_tran_page), 0) \<and>
     create_table None (system_of installed) small_sess (small_db\<lparr>db_store := s\<rparr>) (ascii ''home'') (ascii ''rooms'')
       [\<lparr>dc_name = ascii ''size'', dc_size = 0, dc_type = T_INTEGER\<rparr>] GC_MVCC = Some (db', SCRS_OK) \<and>
     find_relation (system_of installed) small_sess db' (ascii ''home'') (ascii ''rooms'') True False =
       Some (db', \<lparr>gp_header = 13, gp_data = GID_UNDEF\<rparr>)"
proof -
  obtain s where s: "init_cluster None 0 0 small_store = Some (s, Some (12, zero_tran_page), 0)"
    "empty_table s (table_pair 10) relation_cols" "main_seq s 13"
    using init_cluster_ok[of None small_store] by blast
  then obtain h d where d: "st_h s 10 = Some h" "has_columns h relation_cols" "st_d s 11 = Some d" "only_page h d" "grid_list d = []"
    by (auto simp: empty_table_def table_pair_def)
  let ?sys = "system_of installed" and ?db = "small_db\<lparr>db_store := s\<rparr>" and ?n = "ascii ''home''" and ?m = "ascii ''rooms''"
  let ?ds = "[\<lparr>dc_name = ascii ''size'', dc_size = 0, dc_type = T_INTEGER\<rparr>]"
  have r: "relation_table ?sys (db_store ?db) h d"
    using d by (simp add: relation_table_def system_of_def installed_def table_pair_def GID_UNDEF_def Let_def)
  have i: "catalog_inv ?sys (db_store ?db) 13"
    using s(3) by (simp add: catalog_inv_def system_of_def installed_def table_pair_def)
  have c: "ss_catalog small_sess = Some [99]" by (simp add: small_sess_def)
  have n: "cat_name [99]" "cat_name ?n" "cat_name ?m" by (simp_all add: cat_name_def rtrim_last ascii_def)
  have o: "decls_ok GC_MVCC ?ds"
    by (simp add: decls_ok_def decl_specs_def mvcc_decls_def column_cursz_def NAMESZ_def TMIN_NAME_def TMAX_NAME_def ascii_def Let_def)
  have "length (grid_list d) < 16" using d(5) by simp
  moreover have "find_relation ?sys small_sess ?db ?n ?m True False = Some (?db, GP_UNDEF)"
    unfolding find_relation_rows[OF r c] using d(5) by (simp add: lookup_rows_def)
  ultimately show ?thesis using create_table_found[OF r _ i c n o, of True None] s(1) by auto
qed

end
