(* ===== verification/Scr_Scan.thy ===== *)
theory Scr_Scan
  imports Scr_Statement Scr_Scrc
begin

text \<open>
  The scanner of \<^verbatim>\<open>src/scrs/hquery.l\<close>: its definitions and rules as regular
  expressions with their actions, and what flex makes of them. The input is the bytes of a
  session up to its end; a rule matches the longest prefix, the earliest rule wins among
  those that match the same.
\<close>

section \<open>Regular expressions\<close>

datatype rx =
    R_fail
  | R_empty
  | R_chr "u8 \<Rightarrow> bool"
  | R_seq rx rx
  | R_alt rx rx
  | R_star rx

fun rx_seq :: "rx \<Rightarrow> rx \<Rightarrow> rx" where
  "rx_seq R_fail r = R_fail"
| "rx_seq R_empty r = r"
| "rx_seq a r = R_seq a r"

fun rx_alt :: "rx \<Rightarrow> rx \<Rightarrow> rx" where
  "rx_alt R_fail r = r"
| "rx_alt a r = (case r of R_fail \<Rightarrow> a | _ \<Rightarrow> R_alt a r)"

fun matches_nothing :: "rx \<Rightarrow> bool" where
  "matches_nothing (R_seq a b) \<longleftrightarrow> matches_nothing a \<and> matches_nothing b"
| "matches_nothing (R_alt a b) \<longleftrightarrow> matches_nothing a \<or> matches_nothing b"
| "matches_nothing r \<longleftrightarrow> (case r of R_empty \<Rightarrow> True | R_star _ \<Rightarrow> True | _ \<Rightarrow> False)"

text \<open>What is left of an expression behind a byte.\<close>

fun behind :: "rx \<Rightarrow> u8 \<Rightarrow> rx" where
  "behind (R_chr p) c = (if p c then R_empty else R_fail)"
| "behind (R_star r) c = rx_seq (behind r c) (R_star r)"
| "behind (R_alt a b) c = rx_alt (behind a c) (behind b c)"
| "behind (R_seq a b) c = (let d = rx_seq (behind a c) b in if matches_nothing a then rx_alt d (behind b c) else d)"
| "behind r c = R_fail"

definition rx_matches :: "rx \<Rightarrow> u8 list \<Rightarrow> bool" where
  "rx_matches r xs = matches_nothing (foldl behind r xs)"

text \<open>The length of the longest prefix that matches.\<close>

fun munch :: "rx \<Rightarrow> u8 list \<Rightarrow> nat option" where
  "munch r [] = (if matches_nothing r then Some 0 else None)"
| "munch r (c # xs) = (case munch (behind r c) xs of Some n \<Rightarrow> Some (Suc n)
     | None \<Rightarrow> if matches_nothing r then Some 0 else None)"

definition rx_plus :: "rx \<Rightarrow> rx" where
  "rx_plus r = R_seq r (R_star r)"

text \<open>Bytes up to the case of letters, and the text of a pattern under \<open>case-insensitive\<close>.\<close>

definition lower :: "u8 \<Rightarrow> u8" where
  "lower c = (if 65 \<le> c \<and> c \<le> 90 then c + 32 else c)"

definition rx_lit :: "string \<Rightarrow> rx" where
  "rx_lit s = foldr (\<lambda>c r. R_seq (R_chr (\<lambda>b. lower b = lower c)) r) (ascii s) R_empty"

section \<open>Definitions\<close>

definition is_alpha :: "u8 \<Rightarrow> bool" where
  "is_alpha c \<longleftrightarrow> 97 \<le> c \<and> c \<le> 122 \<or> 65 \<le> c \<and> c \<le> 90 \<or> c = 95"

definition is_alnum :: "u8 \<Rightarrow> bool" where
  "is_alnum c \<longleftrightarrow> isdigit c \<or> is_alpha c"

definition R_HEADER_VALUE :: rx where
  "R_HEADER_VALUE = rx_plus (R_alt (R_chr is_alnum) (R_chr blank))"

definition R_INTEGER :: rx where
  "R_INTEGER = R_seq (R_alt (R_chr (\<lambda>c. c = 45)) R_empty)
     (R_alt (R_chr (\<lambda>c. c = 48)) (R_seq (R_chr (\<lambda>c. 49 \<le> c \<and> c \<le> 57)) (R_star (R_chr isdigit))))"

definition R_STRING :: rx where
  "R_STRING = R_seq (R_chr is_alpha) (R_star (R_chr is_alnum))"

text \<open>\<open>DQUOTED\<close> and \<open>QUOTED\<close>: a dot is any byte but a newline.\<close>

definition R_QUOTED :: "u8 \<Rightarrow> rx" where
  "R_QUOTED q = R_seq (R_chr (\<lambda>c. c = q)) (R_seq
     (R_star (R_alt (R_seq (R_chr (\<lambda>c. c = 92)) (R_chr (\<lambda>c. c \<noteq> 10))) (R_chr (\<lambda>c. c \<noteq> q))))
     (R_chr (\<lambda>c. c = q)))"

section \<open>Tokens and rules\<close>

datatype y1_token =
    TK_USER | TK_CATALOG | TK_STRING "u8 list" | TK_ID "u8 list"
  | TK_CREATE | TK_SCHEMA | TK_TABLE | TK_START | TK_TRANSACTION | TK_COMMIT | TK_ROLLBACK
  | TK_INSERT | TK_INTO | TK_VALUES | TK_DELETE | TK_SELECT | TK_FROM | TK_WHERE
  | TK_SMALLINT | TK_INTEGER | TK_BIGINT | TK_CHARACTER | TK_CHAR | TK_VARCHAR | TK_VARYING
  | TK_OR | TK_AND | TK_NOT | TK_LIKE | TK_IN | TK_BETWEEN | TK_CONCAT | TK_NE | TK_LE | TK_GE
  | TK_VINTEGER i64
  | TK_chr char

text \<open>The token of the end of a line.\<close>

abbreviation TK_NL :: y1_token where
  "TK_NL \<equiv> TK_chr (CHR 0x0A)"

text \<open>\<open>string\<close> is the exclusive start condition, \<open>query\<close> the inclusive one.\<close>

datatype scan_state = SC_INITIAL | SC_string | SC_query

text \<open>
  The condition that BEGIN sets and the token that is returned, if any; \<open>None\<close> is an
  access outside of a block or a conversion out of range. The first argument of an action is
  what the block of a new string held before.
\<close>

record scan_rule =
  sr_in :: "scan_state list"
  sr_rx :: rx
  sr_act :: "(nat \<Rightarrow> u8) \<Rightarrow> u8 list \<Rightarrow> (scan_state option \<times> y1_token option) option"

definition rule_eat :: "scan_state list \<Rightarrow> rx \<Rightarrow> scan_rule" where
  "rule_eat st r = \<lparr>sr_in = st, sr_rx = r, sr_act = \<lambda>_ _. Some (None, None)\<rparr>"

definition rule_return :: "scan_state list \<Rightarrow> string \<times> y1_token \<Rightarrow> scan_rule" where
  "rule_return st p = \<lparr>sr_in = st, sr_rx = rx_lit (fst p), sr_act = \<lambda>_ _. Some (None, Some (snd p))\<rparr>"

definition rule_begin :: "scan_state list \<Rightarrow> string \<Rightarrow> scan_state \<Rightarrow> y1_token \<Rightarrow> scan_rule" where
  "rule_begin st s b t = \<lparr>sr_in = st, sr_rx = rx_lit s, sr_act = \<lambda>_ _. Some (Some b, Some t)\<rparr>"

definition rule_text :: "scan_state list \<Rightarrow> rx \<Rightarrow> ((nat \<Rightarrow> u8) \<Rightarrow> u8 list \<Rightarrow> y1_token option) \<Rightarrow> scan_rule" where
  "rule_text st r f = \<lparr>sr_in = st, sr_rx = r, sr_act = \<lambda>junk w. map_option (\<lambda>t. (None, Some t)) (f junk w)\<rparr>"

text \<open>A rule without a start condition is active in all but the exclusive one.\<close>

abbreviation SC_inclusive :: "scan_state list" where
  "SC_inclusive \<equiv> [SC_INITIAL, SC_query]"

definition rx_newline :: rx where
  "rx_newline = R_chr (\<lambda>c. c = 10)"

definition rx_any :: rx where
  "rx_any = R_chr (\<lambda>c. c \<noteq> 10)"

definition rules_first :: "scan_rule list" where
  "rules_first = [rule_eat SC_inclusive (rx_plus (R_chr blank)),
     rule_begin [SC_INITIAL, SC_string] [CHR ''$'', CHR ''$'', CHR 0x0A] SC_query TK_NL]"

definition rules_INITIAL :: "scan_rule list" where
  "rules_INITIAL = map (rule_return [SC_INITIAL]) [(''user'', TK_USER), (''catalog'', TK_CATALOG)] @
     [rule_begin [SC_INITIAL] '':'' SC_string (TK_chr CHR '':''), rule_return [SC_INITIAL] ([CHR 0x0A], TK_NL)]"

definition rules_string :: "scan_rule list" where
  "rules_string = [rule_begin [SC_string] [CHR 0x0A] SC_INITIAL TK_NL,
     rule_text [SC_string] R_HEADER_VALUE (\<lambda>_ w. map_option TK_STRING (y1_trim w)), rule_eat [SC_string] rx_any]"

definition sql_words :: "(string \<times> y1_token) list" where
  "sql_words = [(''create'', TK_CREATE), (''user'', TK_USER), (''catalog'', TK_CATALOG), (''schema'', TK_SCHEMA),
     (''table'', TK_TABLE), (''insert'', TK_INSERT), (''into'', TK_INTO), (''values'', TK_VALUES), (''delete'', TK_DELETE),
     (''select'', TK_SELECT), (''from'', TK_FROM), (''where'', TK_WHERE), (''start'', TK_START),
     (''transaction'', TK_TRANSACTION), (''commit'', TK_COMMIT), (''rollback'', TK_ROLLBACK), (''smallint'', TK_SMALLINT),
     (''integer'', TK_INTEGER), (''int'', TK_INTEGER), (''bigint'', TK_BIGINT), (''character'', TK_CHARACTER),
     (''char'', TK_CHAR), (''varchar'', TK_VARCHAR), (''varying'', TK_VARYING), (''or'', TK_OR), (''and'', TK_AND),
     (''not'', TK_NOT), (''like'', TK_LIKE), (''in'', TK_IN), (''between'', TK_BETWEEN)]"

definition operators :: "(string \<times> y1_token) list" where
  "operators = [(''||'', TK_CONCAT), (''<>'', TK_NE), (''!='', TK_NE), (''<='', TK_LE), (''>='', TK_GE),
     (''<'', TK_chr CHR ''<''), (''>'', TK_chr CHR ''>''), (''('', TK_chr CHR ''(''), ('')'', TK_chr CHR '')''),
     ('','', TK_chr CHR '',''), (''.'', TK_chr CHR ''.''), (''='', TK_chr CHR ''=''), (''+'', TK_chr CHR ''+''),
     (''-'', TK_chr CHR ''-''), (''*'', TK_chr CHR ''*''), (''/'', TK_chr CHR ''/''), (''%'', TK_chr CHR ''%'')]"

definition y1_atoll :: "u8 list \<Rightarrow> i64 option" where
  "y1_atoll w = (case strtol w of (v, out, _) \<Rightarrow> if out then None else Some (word_of_int v))"

definition rules_query :: "scan_rule list" where
  "rules_query = rule_eat [SC_query] (R_seq (rx_lit ''--'') (R_star rx_any)) # map (rule_return [SC_query]) (sql_words @ operators) @
     [rule_text [SC_query] R_INTEGER (\<lambda>_ w. map_option TK_VINTEGER (y1_atoll w)),
      rule_text [SC_query] R_STRING (\<lambda>_ w. Some (TK_ID w)),
      rule_text [SC_query] (R_QUOTED 34) (\<lambda>junk w. map_option TK_ID (str_unescape junk w 34)),
      rule_text [SC_query] (R_QUOTED 39) (\<lambda>junk w. map_option TK_STRING (str_unescape junk w 39))] @
     map (rule_return [SC_query]) [('';'', TK_chr CHR '';''), (''$$'', TK_NL)]"

definition rules_last :: "scan_rule list" where
  "rules_last = [rule_eat SC_inclusive rx_newline, rule_eat SC_inclusive rx_any]"

definition y1_rules :: "scan_rule list" where
  "y1_rules = rules_first @ rules_INITIAL @ rules_string @ rules_query @ rules_last"

section \<open>The scanner\<close>

fun best_rule :: "scan_rule list \<Rightarrow> scan_state \<Rightarrow> u8 list \<Rightarrow> (nat \<times> scan_rule) option" where
  "best_rule [] st xs = None"
| "best_rule (r # rs) st xs = (let b = best_rule rs st xs in
     case (if st \<in> set (sr_in r) then munch (sr_rx r) xs else None) of None \<Rightarrow> b
     | Some n \<Rightarrow> (case b of None \<Rightarrow> Some (n, r) | Some (m, r') \<Rightarrow> if n < m then b else Some (n, r)))"

text \<open>
  All tokens up to the end of the input, where y1lex returns 0. \<open>junk n\<close> is what the new
  block of a string held before when n bytes of input are left.
\<close>

function y1_scan :: "(nat \<Rightarrow> nat \<Rightarrow> u8) \<Rightarrow> scan_state \<Rightarrow> u8 list \<Rightarrow> y1_token list option" where
  "y1_scan junk st xs = (if xs = [] then Some []
     else (case best_rule y1_rules st xs of None \<Rightarrow> None
       | Some (n, r) \<Rightarrow> if n = 0 then None
           else (case sr_act r (junk (length xs)) (take n xs) of None \<Rightarrow> None
             | Some (b, t) \<Rightarrow> map_option (\<lambda>ts. (case t of None \<Rightarrow> ts | Some t \<Rightarrow> t # ts))
                 (y1_scan junk (case b of None \<Rightarrow> st | Some st' \<Rightarrow> st') (drop n xs)))))"
  by pat_completeness auto

termination y1_scan
  by (relation "measure (\<lambda>(_, _, xs). length xs)") auto

declare y1_scan.simps [simp del]

end
