(* ===== verification/Scr_Scan_Laws.thy ===== *)
theory Scr_Scan_Laws
  imports Scr_Scan Scr_Scrc_Laws "HOL-Library.Sublist"
begin

text \<open>
  The scanner reads the tokens that a text spells: words in any mix of cases, operators,
  numbers, names and strings between quotes, with any blanks, newlines and comments between
  them. Both the header and the queries that the client sends are such texts.
\<close>

section \<open>Languages of the expressions\<close>

lemma rx_matches_simps [simp]:
  "rx_matches r [] \<longleftrightarrow> matches_nothing r"
  "rx_matches r (c # xs) \<longleftrightarrow> rx_matches (behind r c) xs"
  by (simp_all add: rx_matches_def)

lemma matches_fail [simp]: "\<not> rx_matches R_fail xs"
  by (induction xs) auto

lemma matches_empty [simp]: "rx_matches R_empty xs \<longleftrightarrow> xs = []"
  by (cases xs) auto

lemma matches_chr [simp]: "rx_matches (R_chr p) xs \<longleftrightarrow> (\<exists>c. xs = [c] \<and> p c)"
  by (cases xs) auto

lemma rx_alt_cases: "rx_alt a b = b \<and> a = R_fail \<or> rx_alt a b = a \<and> b = R_fail \<or> rx_alt a b = R_alt a b"
  by (cases "(a, b)" rule: rx_alt.cases) (auto split: rx.split)

lemma rx_seq_cases: "rx_seq a b = R_fail \<and> a = R_fail \<or> rx_seq a b = b \<and> a = R_empty \<or> rx_seq a b = R_seq a b"
  by (cases "(a, b)" rule: rx_seq.cases) auto

lemma matches_alt_step: "(rx_matches (R_alt a b) xs \<longleftrightarrow> rx_matches a xs \<or> rx_matches b xs) \<and>
    (rx_matches (rx_alt a b) xs \<longleftrightarrow> rx_matches a xs \<or> rx_matches b xs)"
proof (induction xs arbitrary: a b)
  case Nil
  then show ?case using rx_alt_cases[of a b] by auto
next
  case (Cons c xs)
  have "rx_matches (R_alt a b) (c # xs) \<longleftrightarrow> rx_matches a (c # xs) \<or> rx_matches b (c # xs)" using Cons by simp
  then show ?case using rx_alt_cases[of a b] by (auto simp del: rx_matches_simps)
qed

lemmas matches_alt [simp] = matches_alt_step[THEN conjunct1] matches_alt_step[THEN conjunct2]

lemma matches_seq_step: "(rx_matches (R_seq a b) xs \<longleftrightarrow> (\<exists>us vs. xs = us @ vs \<and> rx_matches a us \<and> rx_matches b vs)) \<and>
    (rx_matches (rx_seq a b) xs \<longleftrightarrow> (\<exists>us vs. xs = us @ vs \<and> rx_matches a us \<and> rx_matches b vs))"
proof (induction xs arbitrary: a b)
  case Nil
  then show ?case using rx_seq_cases[of a b] by auto
next
  case (Cons c xs)
  have "rx_matches (R_seq a b) (c # xs) \<longleftrightarrow> (\<exists>us vs. c # xs = us @ vs \<and> rx_matches a us \<and> rx_matches b vs)"
    (is "?l \<longleftrightarrow> ?r")
  proof -
    have "?l \<longleftrightarrow> (\<exists>us vs. xs = us @ vs \<and> rx_matches a (c # us) \<and> rx_matches b vs) \<or> matches_nothing a \<and> rx_matches b (c # xs)"
      using Cons by (simp add: Let_def)
    also have "\<dots> \<longleftrightarrow> ?r"
    proof
      assume ?r
      then obtain us vs where u: "c # xs = us @ vs" "rx_matches a us" "rx_matches b vs" by blast
      then show "(\<exists>us vs. xs = us @ vs \<and> rx_matches a (c # us) \<and> rx_matches b vs) \<or> matches_nothing a \<and> rx_matches b (c # xs)"
        by (cases us) auto
    next
      assume "(\<exists>us vs. xs = us @ vs \<and> rx_matches a (c # us) \<and> rx_matches b vs) \<or> matches_nothing a \<and> rx_matches b (c # xs)"
      then show ?r by (metis append_Cons append_Nil rx_matches_simps(1))
    qed
    finally show ?thesis .
  qed
  then show ?case using rx_seq_cases[of a b] by (auto simp del: rx_matches_simps simp: Cons_eq_append_conv)
qed

lemmas matches_seq = matches_seq_step[THEN conjunct1]

lemma matches_star: "rx_matches (R_star r) xs \<longleftrightarrow> (\<exists>ps. xs = concat ps \<and> (\<forall>p \<in> set ps. p \<noteq> [] \<and> rx_matches r p))"
proof (induction "length xs" arbitrary: xs rule: less_induct)
  case less
  show ?case
  proof (cases xs)
    case (Cons c ys)
    have "rx_matches (R_star r) xs \<longleftrightarrow> (\<exists>us vs. ys = us @ vs \<and> rx_matches (behind r c) us \<and> rx_matches (R_star r) vs)"
      using Cons by (simp add: matches_seq_step[THEN conjunct2])
    also have "\<dots> \<longleftrightarrow> (\<exists>us vs. ys = us @ vs \<and> rx_matches (behind r c) us \<and> (\<exists>ps. vs = concat ps \<and> (\<forall>p \<in> set ps. p \<noteq> [] \<and> rx_matches r p)))"
      using less Cons by (metis length_Cons length_append less_Suc_eq_le le_add2)
    also have "\<dots> \<longleftrightarrow> (\<exists>ps. xs = concat ps \<and> (\<forall>p \<in> set ps. p \<noteq> [] \<and> rx_matches r p))" (is "?a \<longleftrightarrow> ?b")
    proof
      assume ?a
      then obtain us ps where "ys = us @ concat ps" "rx_matches r (c # us)" "\<forall>p \<in> set ps. p \<noteq> [] \<and> rx_matches r p" by auto
      then show ?b using Cons by (intro exI[of _ "(c # us) # ps"]) simp
    next
      assume ?b
      then obtain p ps where p: "xs = p @ concat ps" "p \<noteq> []" "rx_matches r p" "\<forall>p \<in> set ps. p \<noteq> [] \<and> rx_matches r p"
        using Cons by (metis concat.simps(1,2) list.distinct(1) list.exhaust list.set_intros)
      then obtain us where "p = c # us" using Cons by (cases p) auto
      then show ?a using p Cons by auto
    qed
    finally show ?thesis .
  qed (auto intro: exI[of _ "[]"])
qed

lemma matches_span: "rx_matches (R_star (R_chr p)) xs \<longleftrightarrow> (\<forall>c \<in> set xs. p c)"
proof
  assume "\<forall>c \<in> set xs. p c"
  then show "rx_matches (R_star (R_chr p)) xs" unfolding matches_star by (intro exI[of _ "map (\<lambda>c. [c]) xs"]) auto
next
  assume "rx_matches (R_star (R_chr p)) xs"
  then obtain ps where ps: "xs = concat ps" "\<forall>q \<in> set ps. \<exists>c. q = [c] \<and> p c" unfolding matches_star matches_chr by blast
  then show "\<forall>c \<in> set xs. p c" by fastforce
qed

lemma matches_chr_seq: "rx_matches (R_seq (R_chr p) r) xs \<longleftrightarrow> (\<exists>c ys. xs = c # ys \<and> p c \<and> rx_matches r ys)"
  unfolding matches_seq matches_chr by (metis append_Cons append_Nil)

lemma matches_lit: "rx_matches (rx_lit s) xs \<longleftrightarrow> map lower xs = map lower (ascii s)"
proof -
  have "rx_matches (foldr (\<lambda>c r. R_seq (R_chr (\<lambda>b. lower b = lower c)) r) cs R_empty) xs \<longleftrightarrow> map lower xs = map lower cs" for cs
    by (induction cs arbitrary: xs) (auto simp: matches_chr_seq map_eq_Cons_conv)
  then show ?thesis by (simp add: rx_lit_def)
qed

section \<open>The longest match\<close>

lemma munch_Some:
  "munch r xs = Some n \<Longrightarrow> n \<le> length xs \<and> rx_matches r (take n xs) \<and> (\<forall>m \<le> length xs. rx_matches r (take m xs) \<longrightarrow> m \<le> n)"
  "munch r xs = None \<Longrightarrow> \<forall>m \<le> length xs. \<not> rx_matches r (take m xs)"
proof (induction xs arbitrary: r n)
  case (Cons c xs)
  { case 1
    show ?case
    proof (cases "munch (behind r c) xs")
      case None
      then have "n = 0" "matches_nothing r" using 1 by (auto split: if_splits)
      moreover have "m = 0" if "m \<le> length (c # xs)" "rx_matches r (take m (c # xs))" for m
        using Cons(2)[OF None] that by (cases m) auto
      ultimately show ?thesis by auto
    next
      case (Some k)
      then have "n = Suc k" using 1 by simp
      moreover have "m \<le> Suc k" if "m \<le> length (c # xs)" "rx_matches r (take m (c # xs))" for m
        using Cons(1)[OF Some] that by (cases m) auto
      ultimately show ?thesis using Cons(1)[OF Some] by auto
    qed
  next
    case 2
    then have "munch (behind r c) xs = None" "\<not> matches_nothing r" by (auto split: option.splits if_splits)
    then have "\<not> rx_matches r (take m (c # xs))" if "m \<le> length (c # xs)" for m
      using Cons(2) that by (cases m) auto
    then show ?case by blast }
qed (auto split: if_splits)

lemma munch_bound:
  assumes "munch r xs = Some n" "\<And>v. prefix v xs \<Longrightarrow> rx_matches r v \<Longrightarrow> length v \<le> k"
  shows "n \<le> k"
  using munch_Some(1)[OF assms(1)] assms(2)[OF take_is_prefix[of n]] by (simp add: min_absorb2)

lemma munch_longest:
  assumes "rx_matches r w" "\<And>v. prefix v (w @ xs) \<Longrightarrow> rx_matches r v \<Longrightarrow> length v \<le> length w"
  shows "munch r (w @ xs) = Some (length w)"
proof (cases "munch r (w @ xs)")
  case None
  then show ?thesis using munch_Some(2)[OF None] assms(1) by (metis append_eq_conv_conj length_append le_add1)
next
  case (Some n)
  note m = munch_Some(1)[OF Some]
  have "length w \<le> n" using m assms(1) by (metis append_eq_conv_conj length_append le_add1)
  moreover have "n \<le> length w" using munch_bound[OF Some] assms(2) by blast
  ultimately show ?thesis using Some by simp
qed

text \<open>The rule of a token: it matches, no active rule matches more, and no earlier one the same.\<close>

lemma best_rule_bound:
  assumes "\<And>r v. r \<in> set rs \<Longrightarrow> st \<in> set (sr_in r) \<Longrightarrow> prefix v xs \<Longrightarrow> rx_matches (sr_rx r) v \<Longrightarrow> length v \<le> k"
    and "best_rule rs st xs = Some (n, r)"
  shows "n \<le> k"
  using assms
proof (induction rs arbitrary: n r)
  case (Cons a rs)
  have b: "m \<le> k" if "best_rule rs st xs = Some (m, r')" for m r'
    using Cons.IH[of m r'] Cons.prems(1) that by (meson list.set_intros(2))
  have a: "m \<le> k" if "st \<in> set (sr_in a)" "munch (sr_rx a) xs = Some m" for m
    using munch_bound[OF that(2)] Cons.prems(1)[of a] that(1) by auto
  show ?case using Cons.prems(2) a b by (auto simp: Let_def split: option.splits if_splits prod.splits)
qed simp

lemma best_ruleI:
  assumes "st \<in> set (sr_in r)" "rx_matches (sr_rx r) w" "w \<noteq> []"
    and longer: "\<And>r' v. r' \<in> set (pre @ r # post) \<Longrightarrow> st \<in> set (sr_in r') \<Longrightarrow> prefix v (w @ xs) \<Longrightarrow> rx_matches (sr_rx r') v \<Longrightarrow> length v \<le> length w"
    and earlier: "\<And>r'. r' \<in> set pre \<Longrightarrow> st \<in> set (sr_in r') \<Longrightarrow> \<not> rx_matches (sr_rx r') w"
  shows "best_rule (pre @ r # post) st (w @ xs) = Some (length w, r)"
  using longer earlier
proof (induction pre)
  case Nil
  have m: "munch (sr_rx r) (w @ xs) = Some (length w)" using munch_longest[OF assms(2)] Nil(1)[of r] assms(1) by auto
  have "\<not> length w < n" if "best_rule post st (w @ xs) = Some (n, r')" for n r'
  proof -
    have "n \<le> length w" by (rule best_rule_bound[OF _ that]) (use Nil(1) in auto)
    then show ?thesis by simp
  qed
  then show ?case using m assms(1) by (auto simp: Let_def split: option.splits)
next
  case (Cons a pre)
  have ih: "best_rule (pre @ r # post) st (w @ xs) = Some (length w, r)"
    by (rule Cons.IH) (use Cons.prems in auto)
  have "n < length w" if st: "st \<in> set (sr_in a)" and n: "munch (sr_rx a) (w @ xs) = Some n" for n
  proof -
    have "n \<le> length w" using munch_bound[OF n] Cons.prems(1)[of a] st by auto
    moreover have "n \<noteq> length w" using munch_Some(1)[OF n] Cons.prems(2)[of a] st by auto
    ultimately show ?thesis by simp
  qed
  then show ?case using ih by (auto simp: Let_def split: option.splits)
qed

lemma scan_step:
  assumes "best_rule y1_rules st (w @ xs) = Some (length w, r)" "w \<noteq> []" "sr_act r (junk (length w + length xs)) w = Some (b, t)"
  shows "y1_scan junk st (w @ xs) = map_option (\<lambda>ts. (case t of None \<Rightarrow> ts | Some t \<Rightarrow> t # ts))
    (y1_scan junk (case b of None \<Rightarrow> st | Some st' \<Rightarrow> st') xs)"
  using assms by (subst y1_scan.simps) simp

declare rx_matches_simps [simp del]

section \<open>Bytes\<close>

lemma lower_word: "97 \<le> lower c \<and> lower c \<le> 122 \<Longrightarrow> is_alpha c"
  by (auto simp: lower_def is_alpha_def split: if_splits)

lemma alpha_other:
  assumes "is_alpha c"
  shows "\<not> isdigit c" "\<not> blank c" "c \<noteq> 10" "c \<noteq> 34" "c \<noteq> 39" "c \<noteq> 45"
  using assms by (auto simp: is_alpha_def isdigit_def blank_def word_le_def)

lemma digit_other:
  assumes "isdigit c"
  shows "\<not> is_alpha c" "\<not> blank c" "c \<noteq> 10" "c \<noteq> 34" "c \<noteq> 39" "c \<noteq> 45"
  using assms by (auto simp: is_alpha_def isdigit_def blank_def word_le_def)

lemma blank_other:
  assumes "blank c"
  shows "\<not> is_alpha c" "\<not> isdigit c" "c \<noteq> 10" "c \<noteq> 34" "c \<noteq> 39" "c \<noteq> 45"
  using assms by (auto simp: is_alpha_def isdigit_def blank_def word_le_def)

definition mark_byte :: "u8 \<Rightarrow> bool" where
  "mark_byte c \<longleftrightarrow> c \<in> {33, 36, 37, 40, 41, 42, 43, 44, 45, 46, 47, 59, 60, 61, 62, 124}"

lemma mark_other:
  assumes "mark_byte c"
  shows "\<not> is_alpha c" "\<not> isdigit c" "\<not> blank c" "c \<noteq> 10" "c \<noteq> 34" "c \<noteq> 39" "lower c = c"
  using assms by (auto simp: mark_byte_def is_alpha_def isdigit_def blank_def lower_def)

section \<open>What the rules of the query match\<close>

definition marks :: "(string \<times> y1_token) list" where
  "marks = operators @ [('';'', TK_chr CHR '';''), (''$$'', TK_NL)]"

lemma sql_words_alpha: "\<forall>(s, t) \<in> set sql_words. s \<noteq> [] \<and> (\<forall>c \<in> set (ascii s). 97 \<le> c \<and> c \<le> 122)"
  by (simp add: sql_words_def ascii_def)

lemma marks_bytes: "\<forall>(s, t) \<in> set marks. s \<noteq> [] \<and> (\<forall>c \<in> set (ascii s). mark_byte c)"
  by (simp add: marks_def operators_def ascii_def mark_byte_def)

lemma map_lower_id: "\<forall>c \<in> set xs. lower c = c \<Longrightarrow> map lower xs = xs"
  by (induction xs) auto

lemma lower_letter: "97 \<le> c \<Longrightarrow> lower c = c"
  by (auto simp: lower_def word_le_def)

lemma word_match:
  assumes "(s, t) \<in> set sql_words" "rx_matches (rx_lit s) v"
  shows "map lower v = ascii s" "v \<noteq> []" "\<forall>c \<in> set v. is_alpha c"
proof -
  have a: "s \<noteq> []" "\<forall>c \<in> set (ascii s). 97 \<le> c \<and> c \<le> 122" using assms(1) sql_words_alpha by auto
  have "map lower (ascii s) = ascii s" by (rule map_lower_id) (use a(2) lower_letter in blast)
  then show m: "map lower v = ascii s" using assms(2) by (simp add: matches_lit)
  show "v \<noteq> []" using m a(1) by (auto simp: ascii_def)
  show "\<forall>c \<in> set v. is_alpha c"
  proof
    fix c assume "c \<in> set v"
    then have "lower c \<in> set (ascii s)" unfolding m[symmetric] by simp
    then show "is_alpha c" using a(2) lower_word by blast
  qed
qed

lemma mark_match:
  assumes "(s, t) \<in> set marks" "rx_matches (rx_lit s) v"
  shows "v = ascii s" "v \<noteq> []" "\<forall>c \<in> set v. mark_byte c"
proof -
  have a: "s \<noteq> []" "\<forall>c \<in> set (ascii s). mark_byte c" using assms(1) marks_bytes by auto
  have "map lower (ascii s) = ascii s" by (rule map_lower_id) (use a(2) mark_other(7) in blast)
  then have m: "map lower v = ascii s" using assms(2) by (simp add: matches_lit)
  have "c = lower c" if "mark_byte (lower c)" for c
    using that by (auto simp: lower_def mark_byte_def word_le_def split: if_splits)
  moreover have "mark_byte (lower c)" if "c \<in> set v" for c using that a(2) unfolding m[symmetric] by simp
  ultimately have "map lower v = v" using map_lower_id by metis
  then show "v = ascii s" using m by simp
  then show "v \<noteq> []" "\<forall>c \<in> set v. mark_byte c" using a by (auto simp: ascii_def)
qed

lemma id_match: "rx_matches R_STRING v \<longleftrightarrow> (\<exists>c ys. v = c # ys \<and> is_alpha c \<and> (\<forall>d \<in> set ys. is_alnum d))"
  by (simp add: R_STRING_def matches_chr_seq matches_span)

lemma optional_match: "rx_matches (R_seq (R_alt a R_empty) r) v \<longleftrightarrow> rx_matches r v \<or> rx_matches (R_seq a r) v"
  unfolding matches_seq by (auto intro: exI[of _ "[]"])

lemma integer_match: "rx_matches R_INTEGER v \<longleftrightarrow> (\<exists>ds. (v = ds \<or> v = 45 # ds) \<and>
    (ds = [48] \<or> (\<exists>d cs. ds = d # cs \<and> 49 \<le> d \<and> d \<le> 57 \<and> (\<forall>c \<in> set cs. isdigit c))))"
  unfolding R_INTEGER_def optional_match by (auto simp: matches_chr_seq matches_span)

lemma digit_range: "49 \<le> d \<Longrightarrow> d \<le> 57 \<Longrightarrow> isdigit d"
  by (auto simp: isdigit_def word_le_def)

lemma integer_head: "rx_matches R_INTEGER v \<Longrightarrow> v \<noteq> [] \<and> (hd v = 45 \<or> isdigit (hd v))"
  using digit_range by (auto simp: integer_match) (auto simp: isdigit_def)

lemma integer_digits: "rx_matches R_INTEGER v \<Longrightarrow> \<exists>ds. (v = ds \<or> v = 45 # ds) \<and> ds \<noteq> [] \<and> (\<forall>c \<in> set ds. isdigit c)"
proof -
  assume "rx_matches R_INTEGER v"
  then obtain ds where ds: "v = ds \<or> v = 45 # ds" "ds = [48] \<or> (\<exists>d cs. ds = d # cs \<and> 49 \<le> d \<and> d \<le> 57 \<and> (\<forall>c \<in> set cs. isdigit c))"
    unfolding integer_match by blast
  have "isdigit 48" by (simp add: isdigit_def)
  then have "ds \<noteq> [] \<and> (\<forall>c \<in> set ds. isdigit c)" using ds(2) digit_range by auto
  then show ?thesis using ds(1) by blast
qed

lemma spaces_match: "rx_matches (rx_plus (R_chr p)) v \<longleftrightarrow> v \<noteq> [] \<and> (\<forall>c \<in> set v. p c)"
  by (cases v) (auto simp: rx_plus_def matches_chr_seq matches_span)

lemma comment_match: "rx_matches (R_seq (rx_lit ''--'') (R_star rx_any)) v \<longleftrightarrow> (\<exists>u. v = 45 # 45 # u \<and> 10 \<notin> set u)"
proof -
  have a: "map lower us = [45, 45] \<longleftrightarrow> us = [45, 45]" for us
  proof -
    have "lower c = 45 \<longleftrightarrow> c = 45" for c
      by (auto simp: lower_def word_le_def word_uint_eq_iff uint_word_ariths)
    then show ?thesis by (auto simp: map_eq_Cons_conv)
  qed
  have b: "map lower (ascii ''--'') = [45, 45]" by (simp add: ascii_def lower_def)
  have "rx_matches (rx_lit ''--'') us \<longleftrightarrow> us = [45, 45]" for us by (simp only: matches_lit a b)
  then show ?thesis by (auto simp: matches_seq rx_any_def matches_span intro: exI[of _ "[45, 45]"])
qed

definition quoted_body :: "u8 \<Rightarrow> rx" where
  "quoted_body q = R_star (R_alt (R_seq (R_chr (\<lambda>c. c = 92)) (R_chr (\<lambda>c. c \<noteq> 10))) (R_chr (\<lambda>c. c \<noteq> q)))"

lemma quoted_match: "rx_matches (R_QUOTED q) v \<longleftrightarrow> (\<exists>body. v = q # body @ [q] \<and> rx_matches (quoted_body q) body)"
  unfolding R_QUOTED_def quoted_body_def[symmetric] matches_chr_seq matches_seq matches_chr by auto

text \<open>Inside a quoted text a quote stands behind a backslash, whatever stands before that.\<close>

lemma quoted_body_quote:
  assumes "rx_matches (quoted_body q) body" "body = u @ q # v" "q \<noteq> 92"
  shows "u \<noteq> [] \<and> last u = 92"
proof -
  let ?ok = "\<lambda>p. (\<exists>c. p = [92, c]) \<or> (\<exists>c. p = [c] \<and> c \<noteq> q)"
  obtain ps where ps: "body = concat ps" "\<forall>p \<in> set ps. ?ok p"
    using assms(1) unfolding quoted_body_def matches_star by (fastforce simp: matches_chr_seq)
  have "concat ps = u @ q # v \<Longrightarrow> \<forall>p \<in> set ps. ?ok p \<Longrightarrow> u \<noteq> [] \<and> last u = 92" for u
  proof (induction ps arbitrary: u)
    case (Cons p ps)
    consider c where "p = [92, c]" | c where "p = [c]" "c \<noteq> q" using Cons.prems(2) by auto
    then show ?case
    proof cases
      case 1
      then consider "u = []" | "u = [92]" | u' where "u = 92 # c # u'" "concat ps = u' @ q # v"
        using Cons.prems(1) by (auto simp: Cons_eq_append_conv)
      then show ?thesis
      proof cases
        case 1
        then show ?thesis using Cons.prems(1) \<open>p = [92, c]\<close> assms(3) by simp
      next
        case 3
        then show ?thesis using Cons.IH[of u'] Cons.prems(2) by auto
      qed simp
    next
      case 2
      then obtain u' where "u = c # u'" "concat ps = u' @ q # v" using Cons.prems(1) by (cases u) auto
      then show ?thesis using Cons.IH[of u'] Cons.prems(2) by auto
    qed
  qed simp
  from this[of u] show ?thesis using ps assms(2) by simp
qed

lemma escape_body:
  assumes "q \<noteq> 10"
  shows "rx_matches (quoted_body q) (escape q s)"
  unfolding quoted_body_def matches_star escape_def
  by (intro exI[of _ "map (\<lambda>c. if c = q \<or> c = 92 then [92, c] else [c]) s"]) (use assms in \<open>auto simp: matches_chr_seq\<close>)

lemma rule_parts [simp]:
  "sr_in (rule_eat st x) = st" "sr_rx (rule_eat st x) = x" "sr_act (rule_eat st x) = (\<lambda>_ _. Some (None, None))"
  "sr_in (rule_return st p) = st" "sr_rx (rule_return st p) = rx_lit (fst p)" "sr_act (rule_return st p) = (\<lambda>_ _. Some (None, Some (snd p)))"
  "sr_in (rule_begin st s b t) = st" "sr_rx (rule_begin st s b t) = rx_lit s" "sr_act (rule_begin st s b t) = (\<lambda>_ _. Some (Some b, Some t))"
  "sr_in (rule_text st x f) = st" "sr_rx (rule_text st x f) = x"
  "sr_act (rule_text st x f) = (\<lambda>junk w. map_option (\<lambda>t. (None, Some t)) (f junk w))"
  by (simp_all add: rule_eat_def rule_return_def rule_begin_def rule_text_def)

definition query_rxs :: "rx set" where
  "query_rxs = {rx_plus (R_chr blank), R_seq (rx_lit ''--'') (R_star rx_any)} \<union> rx_lit ` fst ` set sql_words \<union> rx_lit ` fst ` set marks \<union>
     {R_INTEGER, R_STRING, R_QUOTED 34, R_QUOTED 39, rx_newline, rx_any}"

lemma active_query: "r \<in> set y1_rules \<Longrightarrow> SC_query \<in> set (sr_in r) \<Longrightarrow> sr_rx r \<in> query_rxs"
  unfolding y1_rules_def rules_first_def rules_INITIAL_def rules_string_def rules_query_def rules_last_def query_rxs_def marks_def
    set_append set_map list.set list.map
  by (elim UnE insertE imageE emptyE) simp_all

lemma query_rules:
  assumes "x \<in> query_rxs" "rx_matches x v"
  obtains (blanks) "v \<noteq> []" "\<forall>c \<in> set v. blank c"
    | (comment) u where "v = 45 # 45 # u" "10 \<notin> set u"
    | (word) s t where "(s, t) \<in> set sql_words" "map lower v = ascii s" "v \<noteq> []" "\<forall>c \<in> set v. is_alpha c"
    | (mark) s t where "(s, t) \<in> set marks" "v = ascii s" "v \<noteq> []" "\<forall>c \<in> set v. mark_byte c"
    | (integer) "rx_matches R_INTEGER v"
    | (name) "rx_matches R_STRING v"
    | (quoted) q body where "q = 34 \<or> q = 39" "v = q # body @ [q]" "rx_matches (quoted_body q) body"
    | (newline) "v = [10]"
    | (any) c where "v = [c]" "c \<noteq> 10"
proof -
  consider "x = rx_plus (R_chr blank)" | "x = R_seq (rx_lit ''--'') (R_star rx_any)" | s t where "(s, t) \<in> set sql_words" "x = rx_lit s"
    | s t where "(s, t) \<in> set marks" "x = rx_lit s" | "x = R_INTEGER" | "x = R_STRING" | "x = R_QUOTED 34" | "x = R_QUOTED 39"
    | "x = rx_newline" | "x = rx_any"
    using assms(1) unfolding query_rxs_def by force
  then show thesis
  proof cases
    case 1
    then show thesis using blanks assms(2) by (simp add: spaces_match)
  next
    case 2
    then show thesis using comment assms(2) by (auto simp: comment_match)
  next
    case 3
    then show thesis using word word_match assms(2) by blast
  next
    case 4
    then show thesis using mark mark_match assms(2) by blast
  next
    case 5
    then show thesis using integer assms(2) by simp
  next
    case 6
    then show thesis using name assms(2) by simp
  next
    case 7
    then show thesis using quoted assms(2) by (auto simp: quoted_match)
  next
    case 8
    then show thesis using quoted assms(2) by (auto simp: quoted_match)
  next
    case 9
    then show thesis using newline assms(2) by (simp add: rx_newline_def)
  next
    case 10
    then show thesis using any assms(2) by (auto simp: rx_any_def)
  qed
qed

section \<open>Tokens of a query\<close>

lemma find_app: "find p (xs @ ys) = (case find p xs of None \<Rightarrow> find p ys | Some x \<Rightarrow> Some x)"
  by (induction xs) auto

lemma find_over: "find p (map f xs) = map_option f (find (p \<circ> f) xs)"
  by (induction xs) auto

text \<open>The best rule is the first one that matches a text no active rule can extend.\<close>

lemma best_rule_find:
  assumes "find (\<lambda>r. st \<in> set (sr_in r) \<and> rx_matches (sr_rx r) w) rs = Some r" "w \<noteq> []"
    and "\<And>r' v. r' \<in> set rs \<Longrightarrow> st \<in> set (sr_in r') \<Longrightarrow> prefix v (w @ xs) \<Longrightarrow> rx_matches (sr_rx r') v \<Longrightarrow> length v \<le> length w"
  shows "best_rule rs st (w @ xs) = Some (length w, r)"
proof -
  obtain i where i: "i < length rs" "st \<in> set (sr_in (rs ! i)) \<and> rx_matches (sr_rx (rs ! i)) w" "r = rs ! i"
    "\<forall>j < i. \<not> (st \<in> set (sr_in (rs ! j)) \<and> rx_matches (sr_rx (rs ! j)) w)"
    using assms(1) by (auto simp: find_Some_iff)
  have rs: "rs = take i rs @ r # drop (Suc i) rs" using i(1,3) by (simp add: id_take_nth_drop)
  have "best_rule (take i rs @ r # drop (Suc i) rs) st (w @ xs) = Some (length w, r)"
  proof (rule best_ruleI)
    show "length v \<le> length w" if "r' \<in> set (take i rs @ r # drop (Suc i) rs)" "st \<in> set (sr_in r')" "prefix v (w @ xs)"
      "rx_matches (sr_rx r') v" for r' v
      using assms(3) that rs by metis
    show "\<not> rx_matches (sr_rx r') w" if "r' \<in> set (take i rs)" "st \<in> set (sr_in r')" for r'
    proof -
      from that(1) obtain j where "j < i" "r' = rs ! j" using i(1) by (auto simp: in_set_conv_nth)
      then show ?thesis using i(4) that(2) by blast
    qed
  qed (use i assms(2) in auto)
  then show ?thesis using rs by simp
qed

definition lit_in :: "(string \<times> y1_token) list \<Rightarrow> u8 list \<Rightarrow> (string \<times> y1_token) option" where
  "lit_in tbl w = find (\<lambda>p. rx_matches (rx_lit (fst p)) w) tbl"

lemma query_find:
  assumes "\<not> rx_matches (rx_plus (R_chr blank)) w" "\<not> rx_matches (R_seq (rx_lit ''--'') (R_star rx_any)) w"
  shows "find (\<lambda>r. SC_query \<in> set (sr_in r) \<and> rx_matches (sr_rx r) w) y1_rules = (case lit_in sql_words w of
      Some p \<Rightarrow> Some (rule_return [SC_query] p) | None \<Rightarrow> (case lit_in operators w of Some p \<Rightarrow> Some (rule_return [SC_query] p) | None \<Rightarrow>
      if rx_matches R_INTEGER w then Some (rule_text [SC_query] R_INTEGER (\<lambda>_ w. map_option TK_VINTEGER (y1_atoll w)))
      else if rx_matches R_STRING w then Some (rule_text [SC_query] R_STRING (\<lambda>_ w. Some (TK_ID w)))
      else if rx_matches (R_QUOTED 34) w then Some (rule_text [SC_query] (R_QUOTED 34) (\<lambda>junk w. map_option TK_ID (str_unescape junk w 34)))
      else if rx_matches (R_QUOTED 39) w then Some (rule_text [SC_query] (R_QUOTED 39) (\<lambda>junk w. map_option TK_STRING (str_unescape junk w 39)))
      else (case lit_in [('';'', TK_chr CHR '';''), (''$$'', TK_NL)] w of Some p \<Rightarrow> Some (rule_return [SC_query] p) | None \<Rightarrow>
        if rx_matches rx_newline w then Some (rule_eat SC_inclusive rx_newline)
        else if rx_matches rx_any w then Some (rule_eat SC_inclusive rx_any) else None)))"
  using assms
  by (auto simp: y1_rules_def rules_first_def rules_INITIAL_def rules_string_def rules_query_def rules_last_def find_app find_over
      lit_in_def comp_def split: option.splits simp del: rx_matches_simps)

lemma lit_in_word: "lit_in sql_words w = Some p \<Longrightarrow> p \<in> set sql_words \<and> map lower w = ascii (fst p)"
  unfolding lit_in_def find_Some_iff using word_match by (metis nth_mem prod.collapse)

lemma lit_in_marks: "lit_in tbl w = Some p \<Longrightarrow> set tbl \<subseteq> set marks \<Longrightarrow> p \<in> set tbl \<and> w = ascii (fst p)"
  unfolding lit_in_def find_Some_iff using mark_match by (metis nth_mem prod.collapse subsetD)

lemma ascii_inj: "ascii s = ascii s' \<longleftrightarrow> s = s'"
proof
  assume a: "ascii s = ascii s'"
  have "inj (\<lambda>c :: char. of_nat (of_char c) :: u8)"
  proof
    fix c d :: char assume e: "(of_nat (of_char c) :: u8) = of_nat (of_char d)"
    have u: "unat (of_nat (of_char c) :: u8) = of_char c" for c :: char
      using of_char_of[of "of_char c :: nat"] by (simp add: unsigned_of_nat take_bit_eq_mod)
    have "(of_char c :: nat) = of_char d" using arg_cong[OF e, of unat] by (simp only: u)
    then show "c = d" by simp
  qed
  then show "s = s'" using a by (simp add: ascii_def inj_map_eq_map)
qed simp

lemma lit_in_distinct:
  assumes "(s, t) \<in> set tbl" "distinct (map fst tbl)" "\<forall>(s', t') \<in> set tbl. rx_matches (rx_lit s') w \<longleftrightarrow> s' = s"
  shows "lit_in tbl w = Some (s, t)"
  using assms
proof (induction tbl)
  case (Cons p tbl)
  then show ?case by (cases p) (auto simp: lit_in_def image_iff)
qed simp

definition no_longer :: "u8 list \<Rightarrow> u8 list \<Rightarrow> bool" where
  "no_longer w xs \<longleftrightarrow> (\<forall>x v. x \<in> query_rxs \<and> prefix v (w @ xs) \<and> rx_matches x v \<longrightarrow> length v \<le> length w)"

lemma scan_query_step:
  assumes "find (\<lambda>r. SC_query \<in> set (sr_in r) \<and> rx_matches (sr_rx r) w) y1_rules = Some r" "w \<noteq> []" "no_longer w xs"
    and "sr_act r (junk (length w + length xs)) w = Some (None, t)"
  shows "y1_scan junk SC_query (w @ xs) = map_option (\<lambda>ts. (case t of None \<Rightarrow> ts | Some t \<Rightarrow> t # ts)) (y1_scan junk SC_query xs)"
proof -
  have "best_rule y1_rules SC_query (w @ xs) = Some (length w, r)"
    by (rule best_rule_find[OF assms(1,2)]) (use assms(3) active_query in \<open>unfold no_longer_def, blast\<close>)
  then show ?thesis using scan_step[of SC_query w xs r junk None t] assms(2,4) by simp
qed

lemma prefix_ConsD: "prefix v (c # xs) \<Longrightarrow> v \<noteq> [] \<Longrightarrow> \<exists>u. v = c # u \<and> prefix u xs"
  by (cases v) auto

text \<open>A prefix of bytes with a property ends where the property ends.\<close>

lemma prefix_span:
  assumes "prefix v (w @ xs)" "\<forall>c \<in> set v. p c" "xs = [] \<or> \<not> p (hd xs)"
  shows "length v \<le> length w"
proof (rule ccontr)
  assume "\<not> length v \<le> length w"
  then have "v \<noteq> w" "\<not> prefix v w" using prefix_length_le by auto
  then obtain u where u: "v = w @ u" "u \<noteq> []" "prefix u xs" using assms(1) by (auto simp: prefix_append)
  then have "hd u = hd xs" "xs \<noteq> []" by (auto simp: prefix_def)
  moreover have "p (hd u)" using u assms(2) by simp
  ultimately show False using assms(3) by simp
qed

lemma alnum_other: "is_alnum c \<Longrightarrow> \<not> blank c \<and> c \<noteq> 10 \<and> c \<noteq> 34 \<and> c \<noteq> 39 \<and> c \<noteq> 45 \<and> \<not> mark_byte c"
  by (auto simp: is_alnum_def mark_byte_def is_alpha_def isdigit_def blank_def word_le_def)

text \<open>A word is read up to its end.\<close>

definition is_word :: "u8 list \<Rightarrow> bool" where
  "is_word w \<longleftrightarrow> w \<noteq> [] \<and> is_alpha (hd w) \<and> (\<forall>c \<in> set w. is_alnum c)"

lemma word_no_longer:
  assumes "is_word w" "xs = [] \<or> \<not> is_alnum (hd xs)"
  shows "no_longer w xs"
  unfolding no_longer_def
proof (intro allI impI; elim conjE)
  fix x v assume x: "x \<in> query_rxs" and p: "prefix v (w @ xs)" and m: "rx_matches x v"
  obtain c ws where w: "w = c # ws" "is_alpha c" using assms(1) by (cases w) (auto simp: is_word_def)
  note a = alpha_other[OF w(2)]
  have al: "length v \<le> length w" if "\<forall>d \<in> set v. is_alnum d" by (rule prefix_span[OF p that assms(2)])
  have v: "v = [] \<or> hd v = c" using p w(1) by (cases v) auto
  show "length v \<le> length w" using x m
  proof (cases rule: query_rules)
    case (word s t)
    then show ?thesis using al by (simp add: is_alnum_def)
  next
    case name
    then show ?thesis using al by (auto simp: id_match is_alnum_def)
  next
    case (mark s t)
    then show ?thesis using v w(2) mark_other(1) by (metis list.set_sel(1))
  next
    case integer
    then show ?thesis using v a integer_head by auto
  qed (use v a w(1) in auto)
qed

lemma word_other:
  assumes "is_word w"
  shows "\<not> rx_matches (rx_plus (R_chr blank)) w" "\<not> rx_matches (R_seq (rx_lit ''--'') (R_star rx_any)) w"
    "\<not> rx_matches R_INTEGER w" "lit_in operators w = None"
proof -
  obtain c ws where w: "w = c # ws" "is_alpha c" using assms by (cases w) (auto simp: is_word_def)
  note a = alpha_other[OF w(2)]
  show "\<not> rx_matches (rx_plus (R_chr blank)) w" "\<not> rx_matches (R_seq (rx_lit ''--'') (R_star rx_any)) w"
    "\<not> rx_matches R_INTEGER w" using w a integer_head[of w] by (auto simp: spaces_match comment_match)
  have "\<not> rx_matches (rx_lit s) w" if "(s, t) \<in> set operators" for s t
    using mark_match[of s t w] that mark_other(1) w by (auto simp: marks_def)
  then show "lit_in operators w = None" by (auto simp: lit_in_def find_None_iff)
qed

lemma word_is_word: "map lower w = ascii s \<Longrightarrow> (s, t) \<in> set sql_words \<Longrightarrow> is_word w"
  using word_match[of s t w] sql_words_alpha map_lower_id lower_letter
  by (fastforce simp: is_word_def is_alnum_def matches_lit)

lemma distinct_words: "distinct (map fst sql_words)" "distinct (map fst operators)" "distinct (map fst marks)"
  by (simp_all add: sql_words_def operators_def marks_def)

lemma scan_word:
  assumes "(s, t) \<in> set sql_words" "map lower w = ascii s" "xs = [] \<or> \<not> is_alnum (hd xs)"
  shows "y1_scan junk SC_query (w @ xs) = map_option ((#) t) (y1_scan junk SC_query xs)"
proof -
  have w: "is_word w" using word_is_word assms(1,2) by blast
  have l: "map lower (ascii s') = ascii s'" if "(s', t') \<in> set sql_words" for s' t'
    by (rule map_lower_id) (use that sql_words_alpha lower_letter in fastforce)
  have "lit_in sql_words w = Some (s, t)"
    by (rule lit_in_distinct[OF assms(1) distinct_words(1)]) (use assms(2) l in \<open>auto simp: matches_lit ascii_inj\<close>)
  then show ?thesis using scan_query_step[OF query_find[OF word_other(1,2)[OF w], THEN trans] _ word_no_longer[OF w assms(3)]]
      w by (simp add: is_word_def)
qed

lemma scan_name:
  assumes "is_word w" "map lower w \<notin> ascii ` fst ` set sql_words" "xs = [] \<or> \<not> is_alnum (hd xs)"
  shows "y1_scan junk SC_query (w @ xs) = map_option ((#) (TK_ID w)) (y1_scan junk SC_query xs)"
proof -
  have "lit_in sql_words w = None" using assms(2) lit_in_word by (metis imageI not_Some_eq)
  moreover have "rx_matches R_STRING w" using assms(1) by (cases w) (auto simp: is_word_def id_match)
  ultimately show ?thesis using scan_query_step[OF query_find[OF word_other(1,2)[OF assms(1)], THEN trans] _ word_no_longer[OF assms(1,3)]]
      word_other(3,4)[OF assms(1)] assms(1) by (simp add: is_word_def)
qed

text \<open>An operator is read unless the next byte makes another one, a number or a comment of it.\<close>

definition mark_ends :: "string \<Rightarrow> u8 \<Rightarrow> bool" where
  "mark_ends s c \<longleftrightarrow> (if s = ''<'' then c \<noteq> 61 \<and> c \<noteq> 62 else if s = ''>'' then c \<noteq> 61
     else if s = ''-'' then c \<noteq> 45 \<and> \<not> isdigit c else True)"

lemma two_marks:
  assumes "(s, t) \<in> set marks" "(s', t') \<in> set marks" "ascii s' = ascii s @ c # u"
  shows "\<not> mark_ends s c \<and> u = []"
proof -
  have "\<forall>(s, t) \<in> set marks. \<forall>(s', t') \<in> set marks. length s < length s' \<longrightarrow> length s' = 2 \<and> length s = 1 \<and>
      (hd s' = hd s \<longrightarrow> s = ''<'' \<and> (s' = ''<='' \<or> s' = ''<>'') \<or> s = ''>'' \<and> s' = ''>='')"
    by (simp add: marks_def operators_def)
  moreover have l: "length s' = length s + Suc (length u)" using arg_cong[OF assms(3), of length] by (simp add: ascii_def)
  ultimately have m: "length s' = 2" "length s = 1" "hd s' = hd s \<longrightarrow> s = ''<'' \<and> (s' = ''<='' \<or> s' = ''<>'') \<or> s = ''>'' \<and> s' = ''>=''"
    using assms(1,2) by fastforce+
  obtain a where a: "s = [a]" using m(2) by (cases s) auto
  obtain b d where b: "s' = [b, d]" using m(1) by (cases s'; cases "tl s'") auto
  have "ascii [b] = ascii [a]" using assms(3) a b by (simp add: ascii_def)
  then have "hd s' = hd s" using a b by (simp only: ascii_inj) simp
  moreover have "[c] = ascii [d]" "u = []" using assms(3) a b by (simp_all add: ascii_def)
  ultimately show ?thesis using m(3) b by (auto simp: mark_ends_def ascii_def)
qed

lemma mark_not_comment: "(s, t) \<in> set marks \<Longrightarrow> ascii s \<noteq> 45 # u \<or> s = ''-''"
proof -
  assume m: "(s, t) \<in> set marks"
  have "\<forall>(s, t) \<in> set marks. hd s = CHR ''-'' \<longrightarrow> s = ''-''" by (simp add: marks_def operators_def)
  moreover have "hd s = CHR ''-''" if e: "ascii s = 45 # u"
  proof -
    obtain a s' where s: "s = a # s'" using e by (cases s) (auto simp: ascii_def)
    then have "ascii [a] = ascii ''-''" using e by (simp add: ascii_def)
    then show ?thesis using s by (simp only: ascii_inj) simp
  qed
  ultimately show ?thesis using m by auto
qed

lemma mark_no_longer:
  assumes "(s, t) \<in> set marks" "xs = [] \<or> mark_ends s (hd xs)"
  shows "no_longer (ascii s) xs"
  unfolding no_longer_def
proof (intro allI impI; elim conjE)
  fix x v assume x: "x \<in> query_rxs" and p: "prefix v (ascii s @ xs)" and m: "rx_matches x v"
  have b: "ascii s \<noteq> []" "\<forall>c \<in> set (ascii s). mark_byte c" using assms(1) marks_bytes by (auto simp: ascii_def)
  then obtain c ws where w: "ascii s = c # ws" "mark_byte c" by (metis list.exhaust list.set_intros(1))
  note a = mark_other[OF w(2)]
  have v: "v = [] \<or> hd v = c" using p w(1) by (cases v) auto
  have dash: "length v \<le> length (ascii s)" if "v = 45 # d # u" "d = 45 \<or> isdigit d" for d u
  proof -
    have "c = 45" using v that(1) by simp
    then have s: "s = ''-''" using mark_not_comment[OF assms(1), of ws] w(1) by simp
    then have "xs \<noteq> [] \<and> hd xs = d" using p that(1) by (cases xs) (auto simp: ascii_def)
    then show ?thesis using assms(2) that(2) s by (auto simp: mark_ends_def)
  qed
  show "length v \<le> length (ascii s)" using x m
  proof (cases rule: query_rules)
    case (comment u)
    then show ?thesis using dash by simp
  next
    case (mark s' t')
    show ?thesis
    proof (rule ccontr)
      assume l: "\<not> length v \<le> length (ascii s)"
      then have "\<not> prefix v (ascii s)" using prefix_length_le by blast
      then obtain u' where "v = ascii s @ u'" "prefix u' xs" using p by (auto simp: prefix_append)
      moreover then obtain y u where "u' = y # u" using l by (cases u') auto
      ultimately have "v = ascii s @ y # u" "prefix (y # u) xs" by simp_all
      then show False using two_marks[OF assms(1) mark(1)] mark(2) assms(2) by (cases xs) auto
    qed
  next
    case integer
    then consider ds where "v = 45 # ds" "ds \<noteq> []" "isdigit (hd ds)" | "isdigit (hd v)" "v \<noteq> []"
      unfolding integer_match using digit_range by (auto simp: isdigit_def)
    then show ?thesis
    proof cases
      case 1
      then show ?thesis using dash[of "hd ds" "tl ds"] by simp
    next
      case 2
      then show ?thesis using v a by auto
    qed
  next
    case name
    then show ?thesis using v a by (auto simp: id_match)
  next
    case (word s' t')
    then show ?thesis using v a by (metis list.set_sel(1))
  next
    case newline
    then show ?thesis using v a by auto
  qed (use v a w in auto)
qed

lemma scan_mark:
  assumes "(s, t) \<in> set marks" "xs = [] \<or> mark_ends s (hd xs)"
  shows "y1_scan junk SC_query (ascii s @ xs) = map_option ((#) t) (y1_scan junk SC_query xs)"
proof -
  have b: "ascii s \<noteq> []" "\<forall>c \<in> set (ascii s). mark_byte c" using assms(1) marks_bytes by (auto simp: ascii_def)
  then obtain c ws where w: "ascii s = c # ws" "mark_byte c" by (metis list.exhaust list.set_intros(1))
  note a = mark_other[OF w(2)]
  have lit: "rx_matches (rx_lit s') (ascii s) \<longleftrightarrow> s' = s" if "(s', t') \<in> set marks" for s' t'
    using mark_match(1)[OF that, of "ascii s"] by (auto simp: ascii_inj matches_lit)
  have o: "\<not> rx_matches (rx_plus (R_chr blank)) (ascii s)" "\<not> rx_matches (R_seq (rx_lit ''--'') (R_star rx_any)) (ascii s)"
    "\<not> rx_matches R_STRING (ascii s)" "\<not> rx_matches (R_QUOTED 34) (ascii s)" "\<not> rx_matches (R_QUOTED 39) (ascii s)"
    using w a mark_not_comment[OF assms(1)] by (auto simp: spaces_match comment_match id_match quoted_match ascii_def)
  have i: "\<not> rx_matches R_INTEGER (ascii s)"
    using mark_not_comment[OF assms(1)] w a digit_range by (auto simp: integer_match isdigit_def ascii_def)
  have k: "lit_in sql_words (ascii s) = None"
  proof -
    have "\<not> rx_matches (rx_lit s') (ascii s)" if "(s', t') \<in> set sql_words" for s' t'
      using word_match(3)[OF that, of "ascii s"] w a by auto
    then show ?thesis by (auto simp: lit_in_def find_None_iff)
  qed
  have "lit_in tbl (ascii s) = (if (s, t) \<in> set tbl then Some (s, t) else None)" if "set tbl \<subseteq> set marks" "distinct (map fst tbl)" for tbl
  proof (cases "(s, t) \<in> set tbl")
    case True
    then show ?thesis using lit_in_distinct[OF True that(2)] lit that(1) by auto
  next
    case False
    have "p \<notin> set tbl" if "rx_matches (rx_lit (fst p)) (ascii s)" for p
    proof
      assume p: "p \<in> set tbl"
      then have "fst p = s" using lit[of "fst p" "snd p"] that \<open>set tbl \<subseteq> set marks\<close> by auto
      then have "p = (s, t)" using p \<open>set tbl \<subseteq> set marks\<close> assms(1) distinct_words(3) by (metis eq_key_imp_eq_value prod.collapse subsetD)
      then show False using p False by simp
    qed
    then show ?thesis using False by (auto simp: lit_in_def find_None_iff)
  qed
  moreover have "set operators \<subseteq> set marks" "set [('';'', TK_chr CHR '';''), (''$$'', TK_NL)] \<subseteq> set marks" by (auto simp: marks_def)
  moreover have "distinct (map fst [('';'', TK_chr CHR '';''), (''$$'', TK_NL)])" by simp
  ultimately have "lit_in operators (ascii s) = (if (s, t) \<in> set operators then Some (s, t) else None)"
    "lit_in [('';'', TK_chr CHR '';''), (''$$'', TK_NL)] (ascii s) = (if (s, t) \<in> set [('';'', TK_chr CHR '';''), (''$$'', TK_NL)] then Some (s, t) else None)"
    using distinct_words(2) by blast+
  moreover have "(s, t) \<in> set operators \<or> (s, t) \<in> set [('';'', TK_chr CHR '';''), (''$$'', TK_NL)]" using assms(1) by (auto simp: marks_def)
  ultimately have "find (\<lambda>r. SC_query \<in> set (sr_in r) \<and> rx_matches (sr_rx r) (ascii s)) y1_rules = Some (rule_return [SC_query] (s, t))"
    unfolding query_find[OF o(1,2)] k using o(3-5) i by auto
  from scan_query_step[OF this b(1) mark_no_longer[OF assms]] show ?thesis by simp
qed

text \<open>Numbers in decimal, as \<open>%lli\<close> prints them.\<close>

lemma decimal_head: "0 < n \<Longrightarrow> 49 \<le> hd (decimal n)"
proof (induction n rule: decimal.induct)
  case (1 n)
  show ?case
  proof (cases "n < 10")
    case True
    then have "n \<in> {1, 2, 3, 4, 5, 6, 7, 8, 9}" using 1(2) by auto
    then show ?thesis by (subst decimal.simps) (auto simp: word_le_def)
  next
    case False
    then have "49 \<le> hd (decimal (n div 10))" using 1 by simp
    moreover have "decimal n = decimal (n div 10) @ [48 + of_nat (n mod 10)]" using False by (subst decimal.simps) simp
    ultimately show ?thesis using decimal_digits[of "n div 10"] by simp
  qed
qed

lemma decimal_shape: "decimal n = [48] \<or> (\<exists>d cs. decimal n = d # cs \<and> 49 \<le> d \<and> d \<le> 57 \<and> (\<forall>c \<in> set cs. isdigit c))"
proof (cases "n = 0")
  case True
  then show ?thesis by (subst decimal.simps) simp
next
  case False
  obtain d cs where "decimal n = d # cs" using decimal_digits[of n] by (cases "decimal n") auto
  then show ?thesis using decimal_head[of n] decimal_digits[of n] False by (auto simp: isdigit_def)
qed

lemma lli_shape: "\<exists>ds. (print_lli i = ds \<or> print_lli i = 45 # ds) \<and> ds \<noteq> [] \<and> (\<forall>c \<in> set ds. isdigit c) \<and> rx_matches R_INTEGER (print_lli i)"
proof -
  have d: "ds \<noteq> [] \<and> (\<forall>c \<in> set ds. isdigit c) \<and> rx_matches R_INTEGER ds \<and> rx_matches R_INTEGER (45 # ds)"
    if "ds = decimal n" for n ds
    using decimal_shape[of n] decimal_digits[of n] unfolding that integer_match by blast
  show ?thesis using d by (cases "sint i < 0") (auto simp: print_lli_def)
qed

lemma strtol_negative: "n \<le> 2 ^ 63 \<Longrightarrow> strtol (45 # decimal n) = (- int n, False, [])"
proof -
  assume n: "n \<le> 2 ^ 63"
  note d = decimal_digits[of n]
  have tw: "takeWhile isdigit (decimal n) = decimal n" using d by (simp add: takeWhile_eq_all_conv)
  moreover have "\<not> isspace 45" by (simp add: isspace_def)
  moreover have "int n \<le> 2 ^ 63" using n by (simp add: nat_le_iff)
  ultimately show ?thesis using d by (simp add: strtol_def Let_def tw)
qed

lemma atoll_print: "y1_atoll (print_lli i) = Some i"
proof (cases "sint i < 0")
  case True
  have "- (2 ^ 63) \<le> sint i" using sint_ge[of i] by simp
  then have "nat (- sint i) \<le> 2 ^ 63" by simp
  then show ?thesis using True by (simp add: print_lli_def y1_atoll_def strtol_negative)
next
  case False
  have "sint i < 2 ^ 63" using sint_lt[of i] by simp
  then have "nat (sint i) < 2 ^ 63" using False by (simp add: nat_less_iff)
  then show ?thesis using False by (simp add: print_lli_def y1_atoll_def strtol_decimal)
qed

lemma integer_no_longer:
  assumes "xs = [] \<or> \<not> isdigit (hd xs)"
  shows "no_longer (print_lli i) xs"
  unfolding no_longer_def
proof (intro allI impI; elim conjE)
  fix x v assume x: "x \<in> query_rxs" and p: "prefix v (print_lli i @ xs)" and m: "rx_matches x v"
  let ?w = "print_lli i"
  obtain ds where ds: "?w = ds \<or> ?w = 45 # ds" "ds \<noteq> []" "\<forall>c \<in> set ds. isdigit c" using lli_shape by blast
  have w: "?w \<noteq> []" "hd ?w = 45 \<or> isdigit (hd ?w)" using ds by auto
  have one: "length v \<le> length ?w" if "length v = 1" using that w(1) by (cases ?w) auto
  have v: "v = [] \<or> hd v = hd ?w" using p w(1) by (cases v; cases ?w) auto
  have h: "\<not> blank (hd ?w)" "\<not> is_alpha (hd ?w)" "hd ?w \<noteq> 10" "hd ?w \<noteq> 34" "hd ?w \<noteq> 39"
    using w(2) digit_other by (auto simp: blank_def is_alpha_def)
  have second: "\<exists>d u. ?w = 45 # d # u \<and> isdigit d" if "hd ?w = 45"
    using ds that digit_other(6) by (cases ds) auto
  have span: "length us \<le> length ds" if "prefix us (ds @ xs)" "\<forall>c \<in> set us. isdigit c" for us
    by (rule prefix_span[OF that assms])
  show "length v \<le> length ?w" using x m
  proof (cases rule: query_rules)
    case (comment u)
    then have "hd ?w = 45" using v by simp
    from second[OF this] show ?thesis using p comment(1) digit_other(6) by auto
  next
    case (mark s t)
    have "mark_byte (hd v)" "hd v = hd ?w" using v mark(3,4) hd_in_set[of v] by blast+
    then have "hd ?w = 45" using w(2) mark_other(2) by auto
    then obtain d u where du: "?w = 45 # d # u" "isdigit d" using second by blast
    show ?thesis
    proof (cases v)
      case (Cons a us)
      then have "us = [] \<or> hd us = d" using p du by (cases us) auto
      then have "us = []" using mark(4) Cons du(2) mark_other(2) by (metis list.set_intros(2) list.set_sel(1))
      then show ?thesis using one Cons by simp
    qed simp
  next
    case integer
    then obtain us where us: "v = us \<or> v = 45 # us" "us \<noteq> []" "\<forall>c \<in> set us. isdigit c"
      using integer_digits by blast
    show ?thesis
    proof (cases "hd ?w = 45")
      case True
      then have w': "?w = 45 # ds" using ds digit_other(6) by (metis list.set_sel(1))
      have "v = 45 # us" using us v True digit_other(6) by (metis list.set_sel(1) list.discI)
      then show ?thesis using span[of us] p us(3) w' by simp
    next
      case False
      then have w': "?w = ds" using ds by auto
      have "v = us" using us v False by auto
      then show ?thesis using span[of us] p us(3) w' by simp
    qed
  next
    case name
    then show ?thesis using v h by (auto simp: id_match)
  next
    case (word s t)
    then show ?thesis using v h by (metis list.set_sel(1))
  next
    case blanks
    then show ?thesis using v h by (metis list.set_sel(1))
  next
    case (quoted q body)
    then show ?thesis using v h by auto
  qed (use one in auto)
qed

lemma scan_integer:
  assumes "xs = [] \<or> \<not> isdigit (hd xs)"
  shows "y1_scan junk SC_query (print_lli i @ xs) = map_option ((#) (TK_VINTEGER i)) (y1_scan junk SC_query xs)"
proof -
  let ?w = "print_lli i"
  obtain ds where ds: "?w = ds \<or> ?w = 45 # ds" "ds \<noteq> []" "\<forall>c \<in> set ds. isdigit c" and m: "rx_matches R_INTEGER ?w" using lli_shape by blast
  have w: "?w \<noteq> []" "last ?w \<in> set ?w" "isdigit (last ?w)" using ds by (auto simp: last_in_set)
  have o: "\<not> rx_matches (rx_plus (R_chr blank)) ?w" unfolding spaces_match using w digit_other(2) by blast
  have c: "\<not> rx_matches (R_seq (rx_lit ''--'') (R_star rx_any)) ?w"
    using ds digit_other(6)[of 45] by (auto simp: comment_match)
  have k: "lit_in sql_words ?w = None"
    using w digit_other(1) word_match(3) unfolding lit_in_def find_None_iff by (metis prod.collapse)
  have "\<not> rx_matches (rx_lit s) ?w" if "(s, t) \<in> set operators" for s t
  proof
    assume "rx_matches (rx_lit s) ?w"
    then have "mark_byte (last ?w)" using mark_match(3)[of s t] that w(2) by (auto simp: marks_def)
    then show False using w(3) mark_other(2) by blast
  qed
  then have "lit_in operators ?w = None" by (auto simp: lit_in_def find_None_iff)
  then show ?thesis
    using scan_query_step[OF query_find[OF o c, THEN trans] w(1) integer_no_longer[OF assms]] k m atoll_print by simp
qed

text \<open>
  Texts between quotes. One that ends with a backslash is escaped to end with two, and the
  scanner, which lets any quote behind a backslash be part of the text, reads on.
\<close>

definition quotable :: "u8 list \<Rightarrow> bool" where
  "quotable s \<longleftrightarrow> 0 \<notin> set s \<and> (s = [] \<or> last s \<noteq> 92)"

lemma last_escape: "s \<noteq> [] \<Longrightarrow> escape q s \<noteq> [] \<and> last (escape q s) = last s"
proof (induction s rule: rev_induct)
  case (snoc c s)
  then show ?case by (simp add: escape_def)
qed simp

lemma quoted_no_longer:
  assumes "q = 34 \<or> q = 39" "quotable s"
  shows "no_longer (q # escape q s @ [q]) xs"
  unfolding no_longer_def
proof (intro allI impI; elim conjE)
  fix x v assume x: "x \<in> query_rxs" and p: "prefix v ((q # escape q s @ [q]) @ xs)" and m: "rx_matches x v"
  have v: "v = [] \<or> hd v = q" using p by (cases v) auto
  have q: "\<not> blank q" "\<not> is_alpha q" "\<not> isdigit q" "\<not> mark_byte q" "q \<noteq> 45" "q \<noteq> 92" "q \<noteq> 10"
    using assms(1) by (auto simp: blank_def is_alpha_def isdigit_def mark_byte_def word_le_def)
  show "length v \<le> length (q # escape q s @ [q])" using x m
  proof (cases rule: query_rules)
    case (quoted q' body)
    have q': "q' = q" using v quoted(2) by auto
    show ?thesis
    proof (rule ccontr)
      assume l: "\<not> length v \<le> length (q # escape q s @ [q])"
      then have "\<not> prefix v (q # escape q s @ [q])" using prefix_length_le by blast
      then obtain u where u: "v = (q # escape q s @ [q]) @ u" using p unfolding prefix_append by blast
      then have "u \<noteq> []" using l by auto
      then have "body = escape q s @ q # butlast u" using u quoted(2) q' by (cases u rule: rev_cases) auto
      then have e: "escape q s \<noteq> [] \<and> last (escape q s) = 92" using quoted_body_quote[OF _ _ q(6)] quoted(3) q' by blast
      then have "s \<noteq> []" by (auto simp: escape_def)
      then show False using e last_escape[of s q] assms(2) by (auto simp: quotable_def)
    qed
  next
    case (mark s' t)
    then show ?thesis using v q by (metis hd_in_set)
  next
    case (word s' t)
    then show ?thesis using v q by (metis hd_in_set)
  next
    case blanks
    then show ?thesis using v q by (metis hd_in_set)
  next
    case integer
    then show ?thesis using v q integer_head by blast
  next
    case name
    then show ?thesis using v q by (auto simp: id_match)
  qed (use v q in auto)
qed

lemma scan_quoted:
  assumes "q = 34 \<or> q = 39" "quotable s"
  shows "y1_scan junk SC_query ((q # escape q s @ [q]) @ xs) = map_option ((#) (if q = 34 then TK_ID s else TK_STRING s)) (y1_scan junk SC_query xs)"
proof -
  let ?w = "q # escape q s @ [q]"
  have q: "\<not> blank q" "\<not> is_alpha q" "\<not> isdigit q" "\<not> mark_byte q" "q \<noteq> 45" "q \<noteq> 92" "q \<noteq> 10" "q \<noteq> 0"
    using assms(1) by (auto simp: blank_def is_alpha_def isdigit_def mark_byte_def word_le_def)
  have o: "\<not> rx_matches (rx_plus (R_chr blank)) ?w" "\<not> rx_matches (R_seq (rx_lit ''--'') (R_star rx_any)) ?w"
    "\<not> rx_matches R_INTEGER ?w" "\<not> rx_matches R_STRING ?w"
    using q integer_head[of ?w] by (auto simp: spaces_match comment_match id_match)
  have k: "lit_in sql_words ?w = None"
    using q(2) word_match(3)[of _ _ ?w] unfolding lit_in_def find_None_iff by (metis list.set_intros(1) prod.collapse)
  have "\<not> rx_matches (rx_lit s') ?w" if "(s', t) \<in> set operators" for s' t
    using mark_match(3)[of s' t ?w] that q(4) by (auto simp: marks_def)
  then have l: "lit_in operators ?w = None" by (auto simp: lit_in_def find_None_iff)
  have m: "rx_matches (R_QUOTED q) ?w" using escape_body[OF q(7)] by (auto simp: quoted_match)
  have m': "\<not> rx_matches (R_QUOTED 34) ?w" if "q = 39" using that by (simp add: quoted_match)
  have u: "str_unescape (junk (length ?w + length xs)) ?w q = Some s"
    using str_unescape_escape[OF q(6,8)] assms(2) by (simp add: quotable_def)
  show ?thesis using assms(1)
  proof
    assume "q = 34"
    then show ?thesis using scan_query_step[OF query_find[OF o(1,2), THEN trans] _ quoted_no_longer[OF assms]] k l m o(3,4) u by simp
  next
    assume "q = 39"
    then show ?thesis using scan_query_step[OF query_find[OF o(1,2), THEN trans] _ quoted_no_longer[OF assms]] k l m m' o(3,4) u by simp
  qed
qed

section \<open>Between the tokens\<close>

lemma blanks_no_longer:
  assumes "w \<noteq> []" "\<forall>c \<in> set w. blank c" "xs = [] \<or> \<not> blank (hd xs)"
  shows "no_longer w xs"
  unfolding no_longer_def
proof (intro allI impI; elim conjE)
  fix x v assume x: "x \<in> query_rxs" and p: "prefix v (w @ xs)" and m: "rx_matches x v"
  have w: "blank (hd w)" using assms(1,2) by simp
  note b = blank_other[OF w]
  have v: "v = [] \<or> hd v = hd w" using p assms(1) by (cases v; cases w) auto
  have one: "length v \<le> length w" if "length v = 1" using that assms(1) by (cases w) auto
  show "length v \<le> length w" using x m
  proof (cases rule: query_rules)
    case blanks
    show ?thesis by (rule prefix_span[OF p, of blank]) (use blanks(2) assms(3) in auto)
  next
    case (mark s t)
    then show ?thesis using v w mark_other(3) by (metis hd_in_set)
  next
    case (word s t)
    then show ?thesis using v b by (metis hd_in_set)
  next
    case integer
    from integer_head[OF this] show ?thesis using v b(2,6) by auto
  next
    case name
    then show ?thesis using v b by (auto simp: id_match)
  next
    case (quoted q body)
    then show ?thesis using v b(4,5) by (metis list.sel(1) list.distinct(1))
  next
    case (comment u)
    then show ?thesis using v b(6) by simp
  qed (use one in simp_all)
qed

lemma scan_blanks:
  assumes "w \<noteq> []" "\<forall>c \<in> set w. blank c" "xs = [] \<or> \<not> blank (hd xs)"
  shows "y1_scan junk SC_query (w @ xs) = y1_scan junk SC_query xs"
proof -
  have "find (\<lambda>r. SC_query \<in> set (sr_in r) \<and> rx_matches (sr_rx r) w) y1_rules = Some (rule_eat SC_inclusive (rx_plus (R_chr blank)))"
    using assms(1,2) by (simp add: y1_rules_def rules_first_def spaces_match)
  from scan_query_step[OF this assms(1) blanks_no_longer[OF assms]] show ?thesis by (simp add: option.map_ident)
qed

lemma scan_blank:
  assumes "blank c"
  shows "y1_scan junk SC_query (c # xs) = y1_scan junk SC_query xs"
proof -
  let ?w = "takeWhile blank xs" and ?r = "dropWhile blank xs"
  have r: "?r = [] \<or> \<not> blank (hd ?r)" using hd_dropWhile by blast
  have w: "\<forall>d \<in> set ?w. blank d" by (auto dest: set_takeWhileD)
  have "y1_scan junk SC_query ((c # ?w) @ ?r) = y1_scan junk SC_query ?r"
    by (rule scan_blanks) (use r w assms in auto)
  moreover have "y1_scan junk SC_query (?w @ ?r) = y1_scan junk SC_query ?r"
  proof (cases "?w = []")
    case False
    then show ?thesis using scan_blanks[OF False w r] by simp
  qed simp
  ultimately show ?thesis by simp
qed

lemma scan_newline: "y1_scan junk SC_query (10 # xs) = y1_scan junk SC_query xs"
proof -
  have b: "\<not> blank 10" "\<not> is_alpha 10" "\<not> isdigit 10" "\<not> mark_byte 10"
    by (simp_all add: blank_def is_alpha_def isdigit_def mark_byte_def)
  have one: "length v \<le> 1" if "x \<in> query_rxs" "rx_matches x v" "prefix v ([10] @ xs)" for x v
  proof -
    have v: "v = [] \<or> hd v = 10" using that(3) by (cases v) auto
    show ?thesis using that(1,2)
    proof (cases rule: query_rules)
      case blanks
      then show ?thesis using v b by (metis hd_in_set)
    next
      case (mark s t)
      then show ?thesis using v b by (metis hd_in_set)
    next
      case (word s t)
      then show ?thesis using v b by (metis hd_in_set)
    next
      case integer
      then show ?thesis using v b integer_head by fastforce
    next
      case name
      then show ?thesis using v b by (auto simp: id_match)
    qed (use v in auto)
  qed
  then have nl: "no_longer [10] xs" by (auto simp: no_longer_def)
  have o: "\<not> rx_matches (rx_plus (R_chr blank)) [10]" "\<not> rx_matches (R_seq (rx_lit ''--'') (R_star rx_any)) [10]"
    "\<not> rx_matches R_INTEGER [10]" "\<not> rx_matches R_STRING [10]" "\<not> rx_matches (R_QUOTED 34) [10]" "\<not> rx_matches (R_QUOTED 39) [10]"
    using b integer_head[of "[10]"] by (auto simp: spaces_match comment_match id_match quoted_match)
  have k: "lit_in sql_words [10] = None"
    using b word_match(3)[of _ _ "[10]"] unfolding lit_in_def find_None_iff by (metis list.set_intros(1) prod.collapse)
  have "lit_in tbl [10] = None" if "set tbl \<subseteq> set marks" for tbl
    using b mark_match(3)[of _ _ "[10]"] that unfolding lit_in_def find_None_iff by (metis list.set_intros(1) prod.collapse subsetD)
  then have l: "lit_in operators [10] = None" "lit_in [('';'', TK_chr CHR '';''), (''$$'', TK_NL)] [10] = None"
    by (simp_all add: marks_def subset_iff)
  have "rx_matches rx_newline [10]" by (simp add: rx_newline_def)
  then have "find (\<lambda>r. SC_query \<in> set (sr_in r) \<and> rx_matches (sr_rx r) [10]) y1_rules = Some (rule_eat SC_inclusive rx_newline)"
    unfolding query_find[OF o(1,2)] k l using o(3-6) by simp
  from scan_query_step[OF this _ nl] show ?thesis by (simp add: option.map_ident)
qed

lemma scan_comment:
  assumes "10 \<notin> set u" "xs = [] \<or> hd xs = 10"
  shows "y1_scan junk SC_query ((45 # 45 # u) @ xs) = y1_scan junk SC_query xs"
proof -
  let ?w = "45 # 45 # u"
  have b: "\<not> blank 45" "\<not> is_alpha 45" "\<not> isdigit 45" by (simp_all add: blank_def is_alpha_def isdigit_def)
  have nl: "no_longer ?w xs" unfolding no_longer_def
  proof (intro allI impI; elim conjE)
    fix x v assume x: "x \<in> query_rxs" and p: "prefix v (?w @ xs)" and m: "rx_matches x v"
    have v: "v = [] \<or> v = [45] \<or> (\<exists>v'. v = 45 # 45 # v' \<and> prefix v' (u @ xs))" using p by (cases v; cases "tl v") auto
    have line: "length v \<le> length ?w" if "10 \<notin> set v"
      by (rule prefix_span[OF p, of "\<lambda>c. c \<noteq> 10"]) (use that assms(2) in auto)
    show "length v \<le> length ?w" using x m
    proof (cases rule: query_rules)
      case (mark s t)
      then show ?thesis using line mark_other(4) by blast
    next
      case integer
      then show ?thesis using v b(3) integer_digits by fastforce
    next
      case name
      then show ?thesis using v b(2) by (auto simp: id_match)
    qed (use v b line in auto)
  qed
  have o: "\<not> rx_matches (rx_plus (R_chr blank)) ?w" "rx_matches (R_seq (rx_lit ''--'') (R_star rx_any)) ?w"
    using b assms(1) by (auto simp: spaces_match comment_match)
  have "find (\<lambda>r. SC_query \<in> set (sr_in r) \<and> rx_matches (sr_rx r) ?w) y1_rules =
      Some (rule_eat [SC_query] (R_seq (rx_lit ''--'') (R_star rx_any)))"
    using o by (simp add: y1_rules_def rules_first_def rules_INITIAL_def rules_string_def rules_query_def)
  from scan_query_step[OF this _ nl] show ?thesis by (simp add: option.map_ident)
qed

section \<open>Texts that spell tokens\<close>

text \<open>A token, its bytes, and the bytes that may follow them.\<close>

inductive spells :: "u8 list \<Rightarrow> (u8 \<Rightarrow> bool) \<Rightarrow> y1_token \<Rightarrow> bool" where
  sp_word: "(s, t) \<in> set sql_words \<Longrightarrow> map lower w = ascii s \<Longrightarrow> spells w (\<lambda>c. \<not> is_alnum c) t"
| sp_name: "is_word w \<Longrightarrow> map lower w \<notin> ascii ` fst ` set sql_words \<Longrightarrow> spells w (\<lambda>c. \<not> is_alnum c) (TK_ID w)"
| sp_mark: "(s, t) \<in> set marks \<Longrightarrow> spells (ascii s) (mark_ends s) t"
| sp_integer: "spells (print_lli i) (\<lambda>c. \<not> isdigit c) (TK_VINTEGER i)"
| sp_dquoted: "quotable s \<Longrightarrow> spells (34 # escape 34 s @ [34]) (\<lambda>_. True) (TK_ID s)"
| sp_quoted: "quotable s \<Longrightarrow> spells (39 # escape 39 s @ [39]) (\<lambda>_. True) (TK_STRING s)"

inductive spelled :: "u8 list \<Rightarrow> y1_token list \<Rightarrow> bool" where
  sp_end: "spelled [] []"
| sp_blank: "blank c \<or> c = 10 \<Longrightarrow> spelled xs ts \<Longrightarrow> spelled (c # xs) ts"
| sp_comment: "10 \<notin> set u \<Longrightarrow> xs = [] \<or> hd xs = 10 \<Longrightarrow> spelled xs ts \<Longrightarrow> spelled (45 # 45 # u @ xs) ts"
| sp_token: "spells w p t \<Longrightarrow> xs = [] \<or> p (hd xs) \<Longrightarrow> spelled xs ts \<Longrightarrow> spelled (w @ xs) (t # ts)"

lemma scan_token:
  assumes "spells w p t" "xs = [] \<or> p (hd xs)"
  shows "y1_scan junk SC_query (w @ xs) = map_option ((#) t) (y1_scan junk SC_query xs)"
  using assms
proof cases
  case (sp_word s)
  then show ?thesis using scan_word assms(2) by blast
next
  case sp_name
  then show ?thesis using scan_name assms(2) by simp
next
  case (sp_mark s)
  then show ?thesis using scan_mark[OF sp_mark(3)] assms(2) by simp
next
  case (sp_integer i)
  then show ?thesis using scan_integer assms(2) by simp
next
  case (sp_dquoted s)
  then show ?thesis using scan_quoted[of 34 s junk xs] by simp
next
  case (sp_quoted s)
  then show ?thesis using scan_quoted[of 39 s junk xs] by simp
qed

lemma scan_spelled: "spelled xs ts \<Longrightarrow> y1_scan junk SC_query xs = Some ts"
proof (induction rule: spelled.induct)
  case sp_end
  then show ?case by (subst y1_scan.simps) simp
next
  case (sp_blank c xs ts)
  then show ?case using scan_blank scan_newline by auto
next
  case (sp_comment u xs ts)
  then show ?case using scan_comment[of u xs junk] by simp
next
  case (sp_token w p t xs ts)
  then show ?case using scan_token by simp
qed

lemma spells_before_newline: "spells w p t \<Longrightarrow> p 10"
  by (induction rule: spells.induct) (simp_all add: is_alnum_def isdigit_def is_alpha_def mark_ends_def)

text \<open>Texts on lines of their own.\<close>

lemma spelled_lines: "spelled xs ts \<Longrightarrow> spelled ys us \<Longrightarrow> spelled (xs @ 10 # ys) (ts @ us)"
proof (induction rule: spelled.induct)
  case sp_end
  then show ?case by (simp add: spelled.sp_blank)
next
  case (sp_blank c xs ts)
  then show ?case by (simp add: spelled.sp_blank)
next
  case (sp_comment u xs ts)
  have "xs @ 10 # ys = [] \<or> hd (xs @ 10 # ys) = 10" using sp_comment(2) by (cases xs) auto
  from spelled.sp_comment[OF sp_comment(1) this sp_comment(4)[OF sp_comment(5)]] show ?case by simp
next
  case (sp_token w p t xs ts)
  have "xs @ 10 # ys = [] \<or> p (hd (xs @ 10 # ys))" using sp_token(2) spells_before_newline[OF sp_token(1)] by (cases xs) auto
  from spelled.sp_token[OF sp_token(1) this sp_token(4)[OF sp_token(5)]] show ?case by simp
qed

lemma spelled_end_mark: "spelled ys us \<Longrightarrow> spelled (ascii ''$$'' @ ys) (TK_NL # us)"
  using spelled.sp_token[OF sp_mark[of "''$$''" TK_NL]] by (simp add: marks_def mark_ends_def)

text \<open>A query as scrc_query sends it.\<close>

lemma spelled_query:
  assumes "spelled q ts" "spelled ys us"
  shows "spelled (q @ [10] @ ascii ''$$'' @ [10] @ ys) (ts @ TK_NL # us)"
proof -
  have "spelled ([10] @ ys) us" using assms(2) by (simp add: sp_blank)
  from spelled_lines[OF assms(1) spelled_end_mark[OF this]] show ?thesis by simp
qed

section \<open>The header\<close>

text \<open>A name that the scanner of the header hands on whole.\<close>

definition header_name :: "u8 list \<Rightarrow> bool" where
  "header_name n \<longleftrightarrow> n \<noteq> [] \<and> (\<forall>c \<in> set n. is_alnum c \<or> blank c) \<and> \<not> blank (hd n) \<and> \<not> blank (last n)"

lemma trim_name:
  assumes "header_name n"
  shows "y1_trim (32 # n) = Some n"
proof -
  have n: "n \<noteq> []" "\<not> blank (hd n)" "\<not> blank (last n)" "blank 32" using assms by (auto simp: header_name_def blank_def)
  have "dropWhile blank (32 # n) = n" using n by (cases n) auto
  moreover have "dropWhile blank (rev n) = rev n" using n by (cases n rule: rev_cases) auto
  moreover have "\<not> (\<forall>c \<in> set (32 # n). blank c)" using n by auto
  ultimately show ?thesis by (simp add: y1_trim_def)
qed

lemma munch_ends [simp]: "munch R_fail xs = None" "munch R_empty xs = Some 0"
  by (induction xs) auto

lemma munch_lit_start:
  "munch (rx_lit []) xs = Some 0" "munch (rx_lit (a # s)) [] = None"
  "munch (rx_lit (a # s)) (c # xs) = (if lower c = lower (of_nat (of_char a)) then map_option Suc (munch (rx_lit s) xs) else None)"
  by (simp_all add: rx_lit_def ascii_def split: option.split)

lemma munch_spaces_start: "\<not> blank c \<Longrightarrow> munch (rx_plus (R_chr blank)) (c # xs) = None"
  by (simp add: rx_plus_def)

lemma munch_one: "munch (R_chr p) (c # xs) = (if p c then Some 1 else None)"
  by simp

declare munch.simps [simp del]

lemma best_skip: "\<forall>r \<in> set rs. st \<notin> set (sr_in r) \<Longrightarrow> best_rule (rs @ rs') st xs = best_rule rs' st xs"
  by (induction rs) auto

lemma query_inactive: "st \<noteq> SC_query \<Longrightarrow> \<forall>r \<in> set rules_query. st \<notin> set (sr_in r)"
  by (auto simp: rules_query_def)

lemma string_inactive: "st \<noteq> SC_string \<Longrightarrow> \<forall>r \<in> set rules_string. st \<notin> set (sr_in r)"
  by (auto simp: rules_string_def)

lemma header_rules:
  "best_rule y1_rules SC_INITIAL xs = best_rule (rules_first @ rules_INITIAL @ rules_last) SC_INITIAL xs"
  "best_rule y1_rules SC_string xs = best_rule (rules_first @ rules_string) SC_string xs"
proof -
  have skip: "best_rule (as @ bs @ cs) st xs = best_rule (as @ cs) st xs" if "\<forall>r \<in> set bs. st \<notin> set (sr_in r)" for as bs cs st
    by (induction as) (simp_all add: best_skip[OF that])
  have q: "\<forall>r \<in> set (rules_string @ rules_query). SC_INITIAL \<notin> set (sr_in r)" using query_inactive string_inactive by auto
  show "best_rule y1_rules SC_INITIAL xs = best_rule (rules_first @ rules_INITIAL @ rules_last) SC_INITIAL xs"
    using skip[of "rules_string @ rules_query" SC_INITIAL "rules_first @ rules_INITIAL" rules_last, OF q] by (simp add: y1_rules_def)
  have i: "\<forall>r \<in> set rules_INITIAL. SC_string \<notin> set (sr_in r)" by (auto simp: rules_INITIAL_def)
  have l: "\<forall>r \<in> set (rules_query @ rules_last). SC_string \<notin> set (sr_in r)" using query_inactive by (auto simp: rules_last_def)
  show "best_rule y1_rules SC_string xs = best_rule (rules_first @ rules_string) SC_string xs"
    using skip[of "rules_query @ rules_last" SC_string "rules_first @ rules_INITIAL @ rules_string" "[]", OF l]
      skip[of rules_INITIAL SC_string rules_first rules_string, OF i] by (simp add: y1_rules_def)
qed

lemma scan_return:
  assumes "best_rule y1_rules st (w @ xs) = Some (length w, rule_return sts (s, t))" "w \<noteq> []"
  shows "y1_scan junk st (w @ xs) = map_option ((#) t) (y1_scan junk st xs)"
  using scan_step[OF assms] by simp

lemma scan_begin:
  assumes "best_rule y1_rules st (w @ xs) = Some (length w, rule_begin sts s b t)" "w \<noteq> []"
  shows "y1_scan junk st (w @ xs) = map_option ((#) t) (y1_scan junk b xs)"
  using scan_step[OF assms] by simp

lemmas header_eval = header_rules rules_first_def rules_INITIAL_def rules_string_def rules_last_def Let_def rx_newline_def rx_any_def
  munch_lit_start munch_spaces_start munch_one lower_def blank_def

lemma scan_INITIAL:
  "y1_scan junk SC_INITIAL (ascii ''user'' @ 58 # xs) = map_option (\<lambda>ts. TK_USER # TK_chr CHR '':'' # ts) (y1_scan junk SC_string xs)"
  "y1_scan junk SC_INITIAL (ascii ''catalog'' @ 58 # xs) = map_option (\<lambda>ts. TK_CATALOG # TK_chr CHR '':'' # ts) (y1_scan junk SC_string xs)"
  "y1_scan junk SC_INITIAL (ascii ''$$'' @ 10 # xs) = map_option ((#) TK_NL) (y1_scan junk SC_query xs)"
proof -
  have colon: "y1_scan junk SC_INITIAL ([58] @ xs) = map_option ((#) (TK_chr CHR '':'')) (y1_scan junk SC_string xs)"
    by (rule scan_begin[of SC_INITIAL "[58]" xs "[SC_INITIAL]" "'':''"]) (simp_all add: header_eval)
  have "y1_scan junk SC_INITIAL (ascii ''user'' @ 58 # xs) = map_option ((#) TK_USER) (y1_scan junk SC_INITIAL (58 # xs))"
    by (rule scan_return[of SC_INITIAL "ascii ''user''" "58 # xs" "[SC_INITIAL]" "''user''"]) (simp_all add: header_eval ascii_def)
  then show "y1_scan junk SC_INITIAL (ascii ''user'' @ 58 # xs) = map_option (\<lambda>ts. TK_USER # TK_chr CHR '':'' # ts) (y1_scan junk SC_string xs)"
    using colon by (simp add: option.map_comp comp_def)
  have "y1_scan junk SC_INITIAL (ascii ''catalog'' @ 58 # xs) = map_option ((#) TK_CATALOG) (y1_scan junk SC_INITIAL (58 # xs))"
    by (rule scan_return[of SC_INITIAL "ascii ''catalog''" "58 # xs" "[SC_INITIAL]" "''catalog''"]) (simp_all add: header_eval ascii_def)
  then show "y1_scan junk SC_INITIAL (ascii ''catalog'' @ 58 # xs) = map_option (\<lambda>ts. TK_CATALOG # TK_chr CHR '':'' # ts) (y1_scan junk SC_string xs)"
    using colon by (simp add: option.map_comp comp_def)
  have "y1_scan junk SC_INITIAL ([36, 36, 10] @ xs) = map_option ((#) TK_NL) (y1_scan junk SC_query xs)"
    by (rule scan_begin[of SC_INITIAL "[36, 36, 10]" xs "[SC_INITIAL, SC_string]" "[CHR ''$'', CHR ''$'', CHR 0x0A]"]) (simp_all add: header_eval)
  then show "y1_scan junk SC_INITIAL (ascii ''$$'' @ 10 # xs) = map_option ((#) TK_NL) (y1_scan junk SC_query xs)"
    by (simp add: ascii_def)
qed

lemma scan_header_value:
  assumes "header_name n"
  shows "y1_scan junk SC_string ((32 # n) @ 10 # xs) = map_option (\<lambda>ts. TK_STRING n # TK_NL # ts) (y1_scan junk SC_INITIAL xs)"
proof -
  let ?w = "32 # n" and ?p = "\<lambda>c. is_alnum c \<or> blank c"
  have w: "\<forall>c \<in> set ?w. ?p c" using assms by (auto simp: header_name_def blank_def)
  have "rx_matches R_HEADER_VALUE v \<longleftrightarrow> v \<noteq> [] \<and> (\<forall>c \<in> set v. ?p c)" for v
  proof -
    have "rx_matches (R_star (R_alt (R_chr is_alnum) (R_chr blank))) v \<longleftrightarrow> (\<forall>c \<in> set v. ?p c)" for v
    proof
      assume "\<forall>c \<in> set v. ?p c"
      then show "rx_matches (R_star (R_alt (R_chr is_alnum) (R_chr blank))) v"
        unfolding matches_star by (intro exI[of _ "map (\<lambda>c. [c]) v"]) auto
    next
      assume "rx_matches (R_star (R_alt (R_chr is_alnum) (R_chr blank))) v"
      then obtain ps where "v = concat ps" "\<forall>q \<in> set ps. \<exists>c. q = [c] \<and> ?p c" unfolding matches_star matches_alt matches_chr by blast
      then show "\<forall>c \<in> set v. ?p c" by fastforce
    qed
    moreover have "rx_matches (R_alt (R_chr is_alnum) (R_chr blank)) us \<longleftrightarrow> (\<exists>c. us = [c] \<and> ?p c)" for us by auto
    ultimately have "rx_matches R_HEADER_VALUE v \<longleftrightarrow> (\<exists>us vs. v = us @ vs \<and> (\<exists>c. us = [c] \<and> ?p c) \<and> (\<forall>c \<in> set vs. ?p c))"
      by (simp only: R_HEADER_VALUE_def rx_plus_def matches_seq)
    also have "\<dots> \<longleftrightarrow> (\<exists>c vs. v = c # vs \<and> ?p c \<and> (\<forall>c \<in> set vs. ?p c))"
      by (rule iffI; elim exE conjE) (simp, force intro: exI[of _ "[_]"])
    finally show ?thesis by (cases v) auto
  qed
  note hv = this
  have lits: "\<not> rx_matches (rx_lit [CHR 0x0A]) v" "\<not> rx_matches (rx_lit [CHR ''$'', CHR ''$'', CHR 0x0A]) v" if "prefix v (?w @ 10 # xs)" for v
  proof -
    have "v = [] \<or> hd v = 32" using that by (cases v) auto
    moreover have "ascii [CHR 0x0A] = [10]" "ascii [CHR ''$'', CHR ''$'', CHR 0x0A] = [36, 36, 10]" by (simp_all add: ascii_def)
    ultimately show "\<not> rx_matches (rx_lit [CHR 0x0A]) v" "\<not> rx_matches (rx_lit [CHR ''$'', CHR ''$'', CHR 0x0A]) v"
      by (auto simp: matches_lit lower_def)
  qed
  have "best_rule (rules_first @ rules_string) SC_string (?w @ 10 # xs) =
      Some (length ?w, rule_text [SC_string] R_HEADER_VALUE (\<lambda>_ w. map_option TK_STRING (y1_trim w)))"
  proof (rule best_rule_find)
    show "find (\<lambda>r. SC_string \<in> set (sr_in r) \<and> rx_matches (sr_rx r) ?w) (rules_first @ rules_string) =
        Some (rule_text [SC_string] R_HEADER_VALUE (\<lambda>_ w. map_option TK_STRING (y1_trim w)))"
      using lits[of ?w] hv w by (simp add: rules_first_def rules_string_def)
    show "length v \<le> length ?w" if "r \<in> set (rules_first @ rules_string)" "SC_string \<in> set (sr_in r)" "prefix v (?w @ 10 # xs)"
      "rx_matches (sr_rx r) v" for r v
    proof -
      have "sr_rx r \<in> {rx_lit [CHR ''$'', CHR ''$'', CHR 0x0A], rx_lit [CHR 0x0A], R_HEADER_VALUE, rx_any}"
        using that(1,2) by (auto simp: rules_first_def rules_string_def)
      then have "rx_matches R_HEADER_VALUE v \<or> rx_matches rx_any v" using that(4) lits[OF that(3)] by fastforce
      then have "(\<forall>c \<in> set v. ?p c) \<or> length v = 1" unfolding hv by (auto simp: rx_any_def)
      moreover have "\<not> ?p 10" by (simp add: is_alnum_def isdigit_def is_alpha_def blank_def)
      ultimately show ?thesis using prefix_span[OF that(3), of ?p] by fastforce
    qed
  qed simp
  then have "y1_scan junk SC_string (?w @ 10 # xs) = map_option ((#) (TK_STRING n)) (y1_scan junk SC_string (10 # xs))"
    using scan_step[of SC_string ?w "10 # xs" "rule_text [SC_string] R_HEADER_VALUE (\<lambda>_ w. map_option TK_STRING (y1_trim w))" junk
        None "Some (TK_STRING n)"] by (simp add: header_rules trim_name[OF assms])
  moreover have "y1_scan junk SC_string ([10] @ xs) = map_option ((#) TK_NL) (y1_scan junk SC_INITIAL xs)"
  proof -
    have "munch R_HEADER_VALUE (10 # xs) = None"
      by (simp add: munch.simps R_HEADER_VALUE_def rx_plus_def is_alnum_def isdigit_def is_alpha_def blank_def)
    then show ?thesis
      by (intro scan_begin[of SC_string "[10]" xs "[SC_string]" "[CHR 0x0A]"]) (simp_all add: header_eval)
  qed
  ultimately show ?thesis by (simp add: option.map_comp comp_def)
qed

text \<open>The header that send_header prints, and its tokens.\<close>

definition header_text :: "u8 list \<Rightarrow> u8 list option \<Rightarrow> u8 list" where
  "header_text user catalog = ascii ''user: '' @ user @ [10] @
     (case catalog of None \<Rightarrow> [] | Some cat \<Rightarrow> ascii ''catalog: '' @ cat @ [10]) @ ascii ''$$'' @ [10]"

definition header_tokens :: "u8 list \<Rightarrow> u8 list option \<Rightarrow> y1_token list" where
  "header_tokens user catalog = [TK_USER, TK_chr CHR '':'', TK_STRING user, TK_NL] @
     (case catalog of None \<Rightarrow> [] | Some cat \<Rightarrow> [TK_CATALOG, TK_chr CHR '':'', TK_STRING cat, TK_NL]) @ [TK_NL]"

lemma scan_header:
  assumes "header_name user" "\<forall>cat. catalog = Some cat \<longrightarrow> header_name cat"
  shows "y1_scan junk SC_INITIAL (header_text user catalog @ xs) = map_option ((@) (header_tokens user catalog)) (y1_scan junk SC_query xs)"
proof -
  have a: "ascii ''user: '' = ascii ''user'' @ [58, 32]" "ascii ''catalog: '' = ascii ''catalog'' @ [58, 32]" by (simp_all add: ascii_def)
  have u: "y1_scan junk SC_INITIAL (ascii ''user: '' @ user @ 10 # r) =
      map_option (\<lambda>ts. TK_USER # TK_chr CHR '':'' # TK_STRING user # TK_NL # ts) (y1_scan junk SC_INITIAL r)" for r
    using scan_INITIAL(1)[of junk "32 # user @ 10 # r"] scan_header_value[OF assms(1), of junk r] by (simp add: a option.map_comp comp_def)
  show ?thesis
  proof (cases catalog)
    case None
    then show ?thesis using u scan_INITIAL(3)[of junk xs]
      by (cases "y1_scan junk SC_query xs") (simp_all add: header_text_def header_tokens_def)
  next
    case (Some cat)
    then have "header_name cat" using assms(2) by simp
    then have "y1_scan junk SC_INITIAL (ascii ''catalog: '' @ cat @ 10 # r) =
        map_option (\<lambda>ts. TK_CATALOG # TK_chr CHR '':'' # TK_STRING cat # TK_NL # ts) (y1_scan junk SC_INITIAL r)" for r
      using scan_INITIAL(2)[of junk "32 # cat @ 10 # r"] scan_header_value[of cat junk r] by (simp add: a option.map_comp comp_def)
    then show ?thesis using Some u scan_INITIAL(3)[of junk xs]
      by (cases "y1_scan junk SC_query xs") (simp_all add: header_text_def header_tokens_def)
  qed
qed

section \<open>Properties\<close>

text \<open>
  C4: From the client's connection to the server's tokens: over any socket that obeys POSIX
  and keeps taking bytes, what scrc_connect's header (user and catalog of letters, digits and
  blanks, without blanks at their ends) and scrc_query send, each shorter than the client's 64
  KB buffer, is read by the rules of hquery.l as exactly the header's tokens, the user, the
  catalog, and the tokens that the query spells: words in any mix of cases, operators,
  numbers, names and strings between quotes with their escapes (a string does not end in a
  backslash), with any blanks, newlines and comments between them, up to the line that ends
  the query.
\<close>

theorem queries_reach_scanner:
  assumes "send_laws out patience os_send" "send_reliable os_send"
    and "header_name (conn_user c)" "\<forall>cat. conn_catalog c = Some cat \<longrightarrow> header_name cat"
    and "spelled q ts" "q \<noteq> []" "length (header_text (conn_user c) (conn_catalog c)) < BUFSZ" "length q + 4 < BUFSZ"
  shows "\<exists>w1 w2 bs. send_header os_send w c = Some (w1, code SCRC_OK) \<and> send_query os_send w1 c q = Some (w2, code SCRC_OK) \<and>
     out w2 (conn_sockfd c) = out w (conn_sockfd c) @ bs \<and>
     y1_scan junk SC_INITIAL bs = Some (header_tokens (conn_user c) (conn_catalog c) @ ts @ [TK_NL])"
proof -
  let ?h = "header_text (conn_user c) (conn_catalog c)" and ?q = "q @ [10] @ ascii ''$$'' @ [10]" and ?fd = "conn_sockfd c"
  obtain w1 where a: "send_printed os_send w ?fd ?h = Some (w1, code SCRC_OK)" "out w1 = (out w)(?fd := out w ?fd @ ?h)"
    by (rule send_printed_ok[OF assms(1,2,7)])
  have "length ?q < BUFSZ" using assms(8) by (simp add: ascii_def)
  then obtain w2 where b: "send_printed os_send w1 ?fd ?q = Some (w2, code SCRC_OK)" "out w2 = (out w1)(?fd := out w1 ?fd @ ?q)"
    by (rule send_printed_ok[OF assms(1,2)])
  have "y1_scan junk SC_query ?q = Some (ts @ [TK_NL])"
    using scan_spelled[OF spelled_query[OF assms(5) sp_end]] by simp
  then have "y1_scan junk SC_INITIAL (?h @ ?q) = Some (header_tokens (conn_user c) (conn_catalog c) @ ts @ [TK_NL])"
    unfolding scan_header[OF assms(3,4)] by simp
  moreover have "out w2 ?fd = out w ?fd @ ?h @ ?q" using a(2) b(2) by simp
  moreover have "send_header os_send w c = Some (w1, code SCRC_OK)" using a(1) by (simp add: send_header_def header_text_def)
  moreover have "send_query os_send w1 c q = Some (w2, code SCRC_OK)" using b(1) assms(6) by (simp add: send_query_def)
  ultimately show ?thesis by blast
qed

definition sample_query :: "u8 list" where
  "sample_query = ascii ''Select size FROM home.rooms where size>=-12 and name = '' @ 39 # escape 39 (ascii ''it'' @ 39 # ascii ''s'') @ [39] @ ascii '';--done''"

definition sample_query_tokens :: "y1_token list" where
  "sample_query_tokens = [TK_SELECT, TK_ID (ascii ''size''), TK_FROM, TK_ID (ascii ''home''), TK_chr CHR ''.'', TK_ID (ascii ''rooms''),
     TK_WHERE, TK_ID (ascii ''size''), TK_GE, TK_VINTEGER (- 12), TK_AND, TK_ID (ascii ''name''), TK_chr CHR ''='',
     TK_STRING (ascii ''it'' @ 39 # ascii ''s''), TK_chr CHR '';'']"

lemma sample_pieces: "sample_query = ascii ''Select'' @ 32 # ascii ''size'' @ 32 # ascii ''FROM'' @ 32 # ascii ''home'' @ ascii ''.'' @ ascii ''rooms'' @
    32 # ascii ''where'' @ 32 # ascii ''size'' @ ascii ''>='' @ print_lli (- 12) @ 32 # ascii ''and'' @ 32 # ascii ''name'' @ 32 # ascii ''='' @
    32 # (39 # escape 39 (ascii ''it'' @ 39 # ascii ''s'') @ [39]) @ ascii '';'' @ 45 # 45 # ascii ''done'' @ []"
proof -
  have "decimal 12 = [49, 50]" by (subst decimal.simps, subst decimal.simps) simp
  then have "print_lli (- 12) = ascii ''-12''" by (simp add: print_lli_def ascii_def)
  then show ?thesis by (simp add: sample_query_def ascii_def)
qed

lemma sample_names:
  "spells (ascii ''size'') (\<lambda>c. \<not> is_alnum c) (TK_ID (ascii ''size''))" "spells (ascii ''home'') (\<lambda>c. \<not> is_alnum c) (TK_ID (ascii ''home''))"
  "spells (ascii ''rooms'') (\<lambda>c. \<not> is_alnum c) (TK_ID (ascii ''rooms''))" "spells (ascii ''name'') (\<lambda>c. \<not> is_alnum c) (TK_ID (ascii ''name''))"
  by (rule sp_name; simp add: is_word_def is_alnum_def is_alpha_def isdigit_def ascii_def sql_words_def lower_def)+

lemma sample_words:
  "spells (ascii ''Select'') (\<lambda>c. \<not> is_alnum c) TK_SELECT" "spells (ascii ''FROM'') (\<lambda>c. \<not> is_alnum c) TK_FROM"
  "spells (ascii ''where'') (\<lambda>c. \<not> is_alnum c) TK_WHERE" "spells (ascii ''and'') (\<lambda>c. \<not> is_alnum c) TK_AND"
  by (rule sp_word[of "''select''"], simp_all add: sql_words_def ascii_def lower_def)
    (rule sp_word[of "''from''"] sp_word[of "''where''"] sp_word[of "''and''"], simp_all add: sql_words_def ascii_def lower_def)+

lemma sample_marks:
  "spells (ascii ''.'') (mark_ends ''.'') (TK_chr CHR ''.'')" "spells (ascii ''>='') (mark_ends ''>='') TK_GE"
  "spells (ascii ''='') (mark_ends ''='') (TK_chr CHR ''='')" "spells (ascii '';'') (mark_ends '';'') (TK_chr CHR '';'')"
  by (rule sp_mark; simp add: marks_def operators_def)+

lemma sample_spelled: "spelled sample_query sample_query_tokens"
proof -
  have q: "spells (39 # escape 39 (ascii ''it'' @ 39 # ascii ''s'') @ [39]) (\<lambda>_. True) (TK_STRING (ascii ''it'' @ 39 # ascii ''s''))"
    by (rule sp_quoted) (simp add: quotable_def ascii_def)
  show ?thesis unfolding sample_pieces sample_query_tokens_def
    by (intro sp_token[OF sample_names(1)] sp_token[OF sample_names(2)] sp_token[OF sample_names(3)] sp_token[OF sample_names(4)]
        sp_token[OF sample_words(1)] sp_token[OF sample_words(2)] sp_token[OF sample_words(3)] sp_token[OF sample_words(4)]
        sp_token[OF sample_marks(1)] sp_token[OF sample_marks(2)] sp_token[OF sample_marks(3)] sp_token[OF sample_marks(4)]
        sp_token[OF sp_integer] sp_token[OF q] sp_blank sp_comment sp_end)
      (simp_all add: ascii_def print_lli_def is_alnum_def is_alpha_def isdigit_def mark_ends_def blank_def)
qed

theorem queries_reach_scanner_witness:
  "\<exists>w1 w2. send_header slow_send (\<lambda>_. [], 0) fresh_conn = Some (w1, code SCRC_OK) \<and>
     send_query slow_send w1 fresh_conn sample_query = Some (w2, code SCRC_OK) \<and>
     y1_scan (\<lambda>_ _. 0) SC_INITIAL (fst w2 5) = Some ([TK_USER, TK_chr CHR '':'', TK_STRING [117], TK_NL,
       TK_CATALOG, TK_chr CHR '':'', TK_STRING [99], TK_NL, TK_NL] @ sample_query_tokens @ [TK_NL])"
proof -
  have n: "header_name (conn_user fresh_conn)" "\<forall>cat. conn_catalog fresh_conn = Some cat \<longrightarrow> header_name cat"
    by (simp_all add: fresh_conn_def header_name_def is_alnum_def is_alpha_def blank_def)
  have l: "length (header_text (conn_user fresh_conn) (conn_catalog fresh_conn)) < BUFSZ"
    by (simp add: fresh_conn_def header_text_def ascii_def BUFSZ_def)
  have q: "sample_query \<noteq> []" "length sample_query + 4 < BUFSZ"
    by (simp_all add: sample_query_def ascii_def escape_def BUFSZ_def)
  show ?thesis
    using queries_reach_scanner[OF slow_send_laws n sample_spelled q(1) l q(2), of "(\<lambda>_. [], 0)" "\<lambda>_ _. 0"]
    by (auto simp: fresh_conn_def header_tokens_def)
qed

text \<open>An escaped backslash at the end of a text does not end it when a quote follows later.\<close>

lemma backslash_runs_on: "y1_scan (\<lambda>_ _. 0) SC_query [39, 97, 92, 92, 39, 44, 39, 98, 39] = Some [TK_STRING [97, 92], TK_ID [98]]"
  by code_simp

end
