(* ===== verification/Scr_Sql.thy ===== *)
theory Scr_Sql
  imports Scr_Scan_Laws
begin

text \<open>
  The grammar of \<^verbatim>\<open>src/scrs/hquery.y\<close>: the tokens each production derives from
  the tree of its parts, and that no two statements have the same tokens. With the scanner
  the text of a statement stands for exactly one tree.
\<close>

section \<open>The tokens of a tree\<close>

definition y1_value_tokens :: "y1_value \<Rightarrow> y1_token list" where
  "y1_value_tokens v = (case v of VINTEGER i \<Rightarrow> [TK_VINTEGER i] | VSTRING s \<Rightarrow> [TK_STRING s] | VID s \<Rightarrow> [TK_ID s])"

text \<open>\<open>values\<close>, \<open>ids\<close> and \<open>decls\<close>: a first one and the others with their commas.\<close>

definition y1_list :: "('a \<Rightarrow> y1_token list) \<Rightarrow> 'a \<Rightarrow> 'a list \<Rightarrow> y1_token list" where
  "y1_list f x xs = f x @ concat (map (\<lambda>x. TK_chr CHR '','' # f x) xs)"

definition y1_parens :: "y1_token list \<Rightarrow> y1_token list" where
  "y1_parens ts = [TK_chr CHR ''(''] @ ts @ [TK_chr CHR '')'']"

fun y1_primary_tokens :: "y1_primary \<Rightarrow> y1_token list"
  and y1_mul_tokens :: "y1_mul \<Rightarrow> y1_token list"
  and y1_add_tokens :: "y1_add \<Rightarrow> y1_token list"
  and y1_cmp_tokens :: "y1_cmp \<Rightarrow> y1_token list"
  and y1_not_tokens :: "y1_not \<Rightarrow> y1_token list"
  and y1_and_tokens :: "y1_and \<Rightarrow> y1_token list"
  and y1_or_tokens :: "y1_or \<Rightarrow> y1_token list" where
  "y1_primary_tokens (P_value v) = y1_value_tokens v"
| "y1_primary_tokens (P_paren e) = y1_parens (y1_or_tokens e)"
| "y1_mul_tokens (M_primary p) = y1_primary_tokens p"
| "y1_mul_tokens (M_mul m p) = y1_mul_tokens m @ TK_chr CHR ''*'' # y1_primary_tokens p"
| "y1_mul_tokens (M_div m p) = y1_mul_tokens m @ TK_chr CHR ''/'' # y1_primary_tokens p"
| "y1_mul_tokens (M_mod m p) = y1_mul_tokens m @ TK_chr CHR ''%'' # y1_primary_tokens p"
| "y1_add_tokens (A_mul m) = y1_mul_tokens m"
| "y1_add_tokens (A_plus a m) = y1_add_tokens a @ TK_chr CHR ''+'' # y1_mul_tokens m"
| "y1_add_tokens (A_minus a m) = y1_add_tokens a @ TK_chr CHR ''-'' # y1_mul_tokens m"
| "y1_add_tokens (A_concat a m) = y1_add_tokens a @ TK_CONCAT # y1_mul_tokens m"
| "y1_cmp_tokens (C_add a) = y1_add_tokens a"
| "y1_cmp_tokens (C_eq a b) = y1_add_tokens a @ TK_chr CHR ''='' # y1_add_tokens b"
| "y1_cmp_tokens (C_ne a b) = y1_add_tokens a @ TK_NE # y1_add_tokens b"
| "y1_cmp_tokens (C_lt a b) = y1_add_tokens a @ TK_chr CHR ''<'' # y1_add_tokens b"
| "y1_cmp_tokens (C_le a b) = y1_add_tokens a @ TK_LE # y1_add_tokens b"
| "y1_cmp_tokens (C_gt a b) = y1_add_tokens a @ TK_chr CHR ''>'' # y1_add_tokens b"
| "y1_cmp_tokens (C_ge a b) = y1_add_tokens a @ TK_GE # y1_add_tokens b"
| "y1_cmp_tokens (C_like a b) = y1_add_tokens a @ TK_LIKE # y1_add_tokens b"
| "y1_cmp_tokens (C_in a v vs) = y1_add_tokens a @ TK_IN # y1_parens (y1_list y1_value_tokens v vs)"
| "y1_cmp_tokens (C_between a b c) = y1_add_tokens a @ TK_BETWEEN # y1_add_tokens b @ TK_AND # y1_add_tokens c"
| "y1_cmp_tokens (C_not_in a v vs) = y1_add_tokens a @ TK_NOT # TK_IN # y1_parens (y1_list y1_value_tokens v vs)"
| "y1_cmp_tokens (C_not_like a b) = y1_add_tokens a @ TK_NOT # TK_LIKE # y1_add_tokens b"
| "y1_cmp_tokens (C_not_between a b c) = y1_add_tokens a @ TK_NOT # TK_BETWEEN # y1_add_tokens b @ TK_AND # y1_add_tokens c"
| "y1_not_tokens (N_cmp c) = y1_cmp_tokens c"
| "y1_not_tokens (N_not n) = TK_NOT # y1_not_tokens n"
| "y1_and_tokens (D_not n) = y1_not_tokens n"
| "y1_and_tokens (D_and a n) = y1_and_tokens a @ TK_AND # y1_not_tokens n"
| "y1_or_tokens (O_and a) = y1_and_tokens a"
| "y1_or_tokens (O_or e a) = y1_or_tokens e @ TK_OR # y1_and_tokens a"

definition y1_type_tokens :: "y1_type \<Rightarrow> y1_token list" where
  "y1_type_tokens t = (case t of SMALLINT \<Rightarrow> [TK_SMALLINT] | INTEGER \<Rightarrow> [TK_INTEGER] | BIGINT \<Rightarrow> [TK_BIGINT]
     | CHARACTER n \<Rightarrow> TK_CHARACTER # y1_parens [TK_VINTEGER n] | K_CHAR n \<Rightarrow> TK_CHAR # y1_parens [TK_VINTEGER n])"

definition y1_decl_tokens :: "u8 list \<times> y1_type \<Rightarrow> y1_token list" where
  "y1_decl_tokens d = TK_ID (fst d) # y1_type_tokens (snd d)"

definition y1_where_tokens :: "y1_or option \<Rightarrow> y1_token list" where
  "y1_where_tokens e = (case e of None \<Rightarrow> [] | Some e \<Rightarrow> TK_WHERE # y1_or_tokens e)"

definition y1_name_tokens :: "u8 list \<Rightarrow> u8 list \<Rightarrow> y1_token list" where
  "y1_name_tokens schema name = [TK_ID schema, TK_chr CHR ''.'', TK_ID name]"

definition y1_id_tokens :: "u8 list \<Rightarrow> y1_token list" where
  "y1_id_tokens i = [TK_ID i]"

fun y1_cmd_tokens :: "y1_cmd \<Rightarrow> y1_token list" where
  "y1_cmd_tokens (CREATE_USER u) = [TK_CREATE, TK_USER, TK_ID u]"
| "y1_cmd_tokens (CREATE_CATALOG c) = [TK_CREATE, TK_CATALOG, TK_ID c]"
| "y1_cmd_tokens (CREATE_SCHEMA n) = [TK_CREATE, TK_SCHEMA, TK_ID n]"
| "y1_cmd_tokens (CREATE_TABLE n t c cs) = [TK_CREATE, TK_TABLE] @ y1_name_tokens n t @ y1_parens (y1_list y1_decl_tokens c cs)"
| "y1_cmd_tokens START_TRANSACTION = [TK_START, TK_TRANSACTION]"
| "y1_cmd_tokens COMMIT = [TK_COMMIT]"
| "y1_cmd_tokens ROLLBACK = [TK_ROLLBACK]"
| "y1_cmd_tokens (INSERT n t i ids v vs) = [TK_INSERT, TK_INTO] @ y1_name_tokens n t @ y1_parens (y1_list y1_id_tokens i ids) @
     TK_VALUES # y1_parens (y1_list y1_value_tokens v vs)"
| "y1_cmd_tokens (DELETE n t e) = [TK_DELETE, TK_FROM] @ y1_name_tokens n t @ y1_where_tokens e"
| "y1_cmd_tokens (SELECT i ids n t e) = TK_SELECT # y1_list y1_id_tokens i ids @ TK_FROM # y1_name_tokens n t @ y1_where_tokens e"

section \<open>No two trees have the same tokens\<close>

text \<open>How strongly a token binds what stands before it.\<close>

definition y1_level :: "y1_token \<Rightarrow> nat" where
  "y1_level t = (if t \<in> {TK_chr CHR ''*'', TK_chr CHR ''/'', TK_chr CHR ''%''} then 5
     else if t \<in> {TK_chr CHR ''+'', TK_chr CHR ''-'', TK_CONCAT} then 4
     else if t \<in> {TK_chr CHR ''='', TK_NE, TK_chr CHR ''<'', TK_LE, TK_chr CHR ''>'', TK_GE, TK_LIKE, TK_IN, TK_BETWEEN, TK_NOT} then 3
     else if t = TK_AND then 2 else if t = TK_OR then 1 else 0)"

lemma y1_level_simps [simp]:
  "y1_level (TK_chr CHR ''*'') = 5" "y1_level (TK_chr CHR ''/'') = 5" "y1_level (TK_chr CHR ''%'') = 5"
  "y1_level (TK_chr CHR ''+'') = 4" "y1_level (TK_chr CHR ''-'') = 4" "y1_level TK_CONCAT = 4"
  "y1_level (TK_chr CHR ''='') = 3" "y1_level TK_NE = 3" "y1_level (TK_chr CHR ''<'') = 3" "y1_level TK_LE = 3"
  "y1_level (TK_chr CHR ''>'') = 3" "y1_level TK_GE = 3" "y1_level TK_LIKE = 3" "y1_level TK_IN = 3" "y1_level TK_BETWEEN = 3"
  "y1_level TK_NOT = 3" "y1_level TK_AND = 2" "y1_level TK_OR = 1" "y1_level (TK_chr CHR '')'') = 0"
  by (simp_all add: y1_level_def)

definition y1_below :: "nat \<Rightarrow> y1_token list \<Rightarrow> bool" where
  "y1_below k r \<longleftrightarrow> r = [] \<or> y1_level (hd r) < k"

lemma y1_below_simps [simp]: "y1_below k []" "y1_below k (t # r) \<longleftrightarrow> y1_level t < k"
  by (simp_all add: y1_below_def)

lemma y1_below_mono: "y1_below k r \<Longrightarrow> k \<le> k' \<Longrightarrow> y1_below k' r"
  by (auto simp: y1_below_def)

text \<open>The tokens of \<open>x\<close> determine it and what follows, if that does not bind it further.\<close>

definition unique_at :: "nat \<Rightarrow> ('a \<Rightarrow> y1_token list) \<Rightarrow> 'a \<Rightarrow> bool" where
  "unique_at k f x \<longleftrightarrow> (\<forall>x' r r'. f x @ r = f x' @ r' \<and> y1_below k r \<and> y1_below k r' \<longrightarrow> x = x' \<and> r = r')"

lemma unique_atD: "unique_at k f x \<Longrightarrow> f x @ r = f x' @ r' \<Longrightarrow> y1_below k r \<Longrightarrow> y1_below k r' \<Longrightarrow> x = x' \<and> r = r'"
  by (auto simp: unique_at_def)

text \<open>The left recursion of an operator's level as a first operand and the others.\<close>

definition chain :: "('a \<Rightarrow> y1_token list) \<Rightarrow> (y1_token \<times> 'a) list \<Rightarrow> y1_token list" where
  "chain f ops = concat (map (\<lambda>(t, x). t # f x) ops)"

lemma chain_simps [simp]: "chain f [] = []" "chain f ((t, x) # ops) = t # f x @ chain f ops" "chain f (ops @ [(t, x)]) = chain f ops @ t # f x"
  by (simp_all add: chain_def)

lemma chain_below: "\<forall>(t, x) \<in> set ops. y1_level t = k \<Longrightarrow> y1_below k r \<Longrightarrow> y1_below (Suc k) (chain f ops @ r)"
  by (cases ops) (auto simp: y1_below_def)

lemma chain_unique:
  assumes "\<forall>(t, x) \<in> set ops. y1_level t = k \<and> unique_at (Suc k) f x" "\<forall>(t, x) \<in> set ops'. y1_level t = k"
    and "chain f ops @ r = chain f ops' @ r'" "y1_below k r" "y1_below k r'"
  shows "ops = ops' \<and> r = r'"
  using assms
proof (induction ops arbitrary: ops')
  case Nil
  then show ?case by (cases ops') (auto simp: y1_below_def)
next
  case (Cons o1 ops)
  obtain t x where o1: "o1 = (t, x)" by (cases o1)
  then have l: "y1_level t = k" using Cons.prems(1) by simp
  have e0: "t # f x @ chain f ops @ r = chain f ops' @ r'" using Cons.prems(3) o1 by simp
  have "ops' \<noteq> []"
  proof
    assume "ops' = []"
    then have "r' = t # f x @ chain f ops @ r" using e0 by simp
    then show False using Cons.prems(5) l by simp
  qed
  then obtain t' x' ops'' where "ops' = (t', x') # ops''" by (metis list.exhaust surj_pair)
  then have o2: "ops' = (t, x') # ops''" using e0 by simp
  have e: "f x @ chain f ops @ r = f x' @ chain f ops'' @ r'" using Cons.prems(3) o1 o2 by simp
  have b: "y1_below (Suc k) (chain f ops @ r)" "y1_below (Suc k) (chain f ops'' @ r')"
    using Cons.prems o2 by (auto intro!: chain_below)
  have "x = x' \<and> chain f ops @ r = chain f ops'' @ r'"
    by (rule unique_atD[of "Suc k" f]) (use Cons.prems(1) o1 e b in auto)
  then show ?case using Cons.IH[of ops''] Cons.prems o1 o2 by auto
qed

lemma chain_unique_at:
  assumes parts: "\<And>y. g y = f (fst (p y)) @ chain f (snd (p y))" "\<And>y y'. p y = p y' \<Longrightarrow> y = y'"
    "\<And>y t z. (t, z) \<in> set (snd (p y)) \<Longrightarrow> y1_level t = k"
    and u: "unique_at (Suc k) f (fst (p x))" "\<forall>(t, z) \<in> set (snd (p x)). unique_at (Suc k) f z"
  shows "unique_at k g x"
  unfolding unique_at_def
proof (intro allI impI)
  fix x' r r' assume a: "g x @ r = g x' @ r' \<and> y1_below k r \<and> y1_below k r'"
  have e: "f (fst (p x)) @ chain f (snd (p x)) @ r = f (fst (p x')) @ chain f (snd (p x')) @ r'" using a by (simp add: parts(1))
  have l: "\<forall>(t, z) \<in> set (snd (p y)). y1_level t = k" for y using parts(3) by auto
  have b: "y1_below (Suc k) (chain f (snd (p x)) @ r)" "y1_below (Suc k) (chain f (snd (p x')) @ r')"
    using a l by (auto intro!: chain_below)
  have h: "fst (p x) = fst (p x') \<and> chain f (snd (p x)) @ r = chain f (snd (p x')) @ r'" 
    by (rule unique_atD[of "Suc k" f]) (use u(1) e b in auto)
  have "snd (p x) = snd (p x') \<and> r = r'" by (rule chain_unique[of _ k f]) (use h l u(2) a in auto)
  then show "x = x' \<and> r = r'" using h parts(2) by (auto simp: prod_eq_iff)
qed

fun mul_parts :: "y1_mul \<Rightarrow> y1_primary \<times> (y1_token \<times> y1_primary) list" where
  "mul_parts (M_primary p) = (p, [])"
| "mul_parts (M_mul m p) = (fst (mul_parts m), snd (mul_parts m) @ [(TK_chr CHR ''*'', p)])"
| "mul_parts (M_div m p) = (fst (mul_parts m), snd (mul_parts m) @ [(TK_chr CHR ''/'', p)])"
| "mul_parts (M_mod m p) = (fst (mul_parts m), snd (mul_parts m) @ [(TK_chr CHR ''%'', p)])"

fun add_parts :: "y1_add \<Rightarrow> y1_mul \<times> (y1_token \<times> y1_mul) list" where
  "add_parts (A_mul m) = (m, [])"
| "add_parts (A_plus a m) = (fst (add_parts a), snd (add_parts a) @ [(TK_chr CHR ''+'', m)])"
| "add_parts (A_minus a m) = (fst (add_parts a), snd (add_parts a) @ [(TK_chr CHR ''-'', m)])"
| "add_parts (A_concat a m) = (fst (add_parts a), snd (add_parts a) @ [(TK_CONCAT, m)])"

fun and_parts :: "y1_and \<Rightarrow> y1_not \<times> (y1_token \<times> y1_not) list" where
  "and_parts (D_not n) = (n, [])"
| "and_parts (D_and a n) = (fst (and_parts a), snd (and_parts a) @ [(TK_AND, n)])"

fun or_parts :: "y1_or \<Rightarrow> y1_and \<times> (y1_token \<times> y1_and) list" where
  "or_parts (O_and a) = (a, [])"
| "or_parts (O_or e a) = (fst (or_parts e), snd (or_parts e) @ [(TK_OR, a)])"

lemma mul_parts_inj: "mul_parts m = mul_parts m' \<Longrightarrow> m = m'"
  by (induction m arbitrary: m' rule: mul_parts.induct; case_tac m') (auto simp: prod_eq_iff)

lemma add_parts_inj: "add_parts m = add_parts m' \<Longrightarrow> m = m'"
  by (induction m arbitrary: m' rule: add_parts.induct; case_tac m') (auto simp: prod_eq_iff)

lemma and_parts_inj: "and_parts m = and_parts m' \<Longrightarrow> m = m'"
  by (induction m arbitrary: m' rule: and_parts.induct; case_tac m') (auto simp: prod_eq_iff)

lemma or_parts_inj: "or_parts m = or_parts m' \<Longrightarrow> m = m'"
  by (induction m arbitrary: m' rule: or_parts.induct; case_tac m') (auto simp: prod_eq_iff)

lemma parts_tokens:
  "y1_mul_tokens m = y1_primary_tokens (fst (mul_parts m)) @ chain y1_primary_tokens (snd (mul_parts m))"
  "y1_add_tokens a = y1_mul_tokens (fst (add_parts a)) @ chain y1_mul_tokens (snd (add_parts a))"
  "y1_and_tokens d = y1_not_tokens (fst (and_parts d)) @ chain y1_not_tokens (snd (and_parts d))"
  "y1_or_tokens e = y1_and_tokens (fst (or_parts e)) @ chain y1_and_tokens (snd (or_parts e))"
proof -
  show "y1_mul_tokens m = y1_primary_tokens (fst (mul_parts m)) @ chain y1_primary_tokens (snd (mul_parts m))"
    by (induction m rule: mul_parts.induct) auto
  show "y1_add_tokens a = y1_mul_tokens (fst (add_parts a)) @ chain y1_mul_tokens (snd (add_parts a))"
    by (induction a rule: add_parts.induct) auto
  show "y1_and_tokens d = y1_not_tokens (fst (and_parts d)) @ chain y1_not_tokens (snd (and_parts d))"
    by (induction d rule: and_parts.induct) auto
  show "y1_or_tokens e = y1_and_tokens (fst (or_parts e)) @ chain y1_and_tokens (snd (or_parts e))"
    by (induction e rule: or_parts.induct) auto
qed

lemma parts_levels:
  "(t, z) \<in> set (snd (mul_parts m)) \<Longrightarrow> y1_level t = 5" "(t, z') \<in> set (snd (add_parts a)) \<Longrightarrow> y1_level t = 4"
  "(t, z'') \<in> set (snd (and_parts d)) \<Longrightarrow> y1_level t = 2" "(t, y) \<in> set (snd (or_parts e)) \<Longrightarrow> y1_level t = 1"
proof -
  show "(t, z) \<in> set (snd (mul_parts m)) \<Longrightarrow> y1_level t = 5" by (induction m rule: mul_parts.induct) auto
  show "(t, z') \<in> set (snd (add_parts a)) \<Longrightarrow> y1_level t = 4" by (induction a rule: add_parts.induct) auto
  show "(t, z'') \<in> set (snd (and_parts d)) \<Longrightarrow> y1_level t = 2" by (induction d rule: and_parts.induct) auto
  show "(t, y) \<in> set (snd (or_parts e)) \<Longrightarrow> y1_level t = 1" by (induction e rule: or_parts.induct) auto
qed

lemma chains_unique:
  "unique_at 6 y1_primary_tokens (fst (mul_parts m)) \<Longrightarrow> \<forall>(t, z) \<in> set (snd (mul_parts m)). unique_at 6 y1_primary_tokens z \<Longrightarrow>
    unique_at 5 y1_mul_tokens m"
  "unique_at 5 y1_mul_tokens (fst (add_parts a)) \<Longrightarrow> \<forall>(t, z) \<in> set (snd (add_parts a)). unique_at 5 y1_mul_tokens z \<Longrightarrow>
    unique_at 4 y1_add_tokens a"
  "unique_at 3 y1_not_tokens (fst (and_parts d)) \<Longrightarrow> \<forall>(t, z) \<in> set (snd (and_parts d)). unique_at 3 y1_not_tokens z \<Longrightarrow>
    unique_at 2 y1_and_tokens d"
  "unique_at 2 y1_and_tokens (fst (or_parts e)) \<Longrightarrow> \<forall>(t, z) \<in> set (snd (or_parts e)). unique_at 2 y1_and_tokens z \<Longrightarrow>
    unique_at 1 y1_or_tokens e"
  using chain_unique_at[of y1_mul_tokens y1_primary_tokens mul_parts 5 m, OF parts_tokens(1) mul_parts_inj parts_levels(1)]
    chain_unique_at[of y1_add_tokens y1_mul_tokens add_parts 4 a, OF parts_tokens(2) add_parts_inj parts_levels(2)]
    chain_unique_at[of y1_and_tokens y1_not_tokens and_parts 2 d, OF parts_tokens(3) and_parts_inj parts_levels(3)]
    chain_unique_at[of y1_or_tokens y1_and_tokens or_parts 1 e, OF parts_tokens(4) or_parts_inj parts_levels(4)]
  by (simp_all add: eval_nat_numeral)

text \<open>Values, names and declarations need no look at what follows.\<close>

definition prefix_free :: "('a \<Rightarrow> y1_token list) \<Rightarrow> bool" where
  "prefix_free f \<longleftrightarrow> (\<forall>x x' r r'. f x @ r = f x' @ r' \<longrightarrow> x = x' \<and> r = r')"

lemma tokens_prefix_free: "prefix_free y1_value_tokens" "prefix_free y1_id_tokens" "prefix_free y1_decl_tokens"
  by (auto simp: prefix_free_def y1_value_tokens_def y1_id_tokens_def y1_decl_tokens_def y1_type_tokens_def y1_parens_def
      split: y1_value.splits y1_type.splits)

lemma list_unique:
  assumes f: "prefix_free f" and r: "\<And>s. r \<noteq> TK_chr CHR '','' # s" "\<And>s. r' \<noteq> TK_chr CHR '','' # s"
    and e: "y1_list f x xs @ r = y1_list f x' xs' @ r'"
  shows "x = x' \<and> xs = xs' \<and> r = r'"
proof -
  have pf: "f a @ u = f b @ v \<Longrightarrow> a = b \<and> u = v" for a b u v using f unfolding prefix_free_def by blast
  have "concat (map (\<lambda>x. TK_chr CHR '','' # f x) xs) @ r = concat (map (\<lambda>x. TK_chr CHR '','' # f x) xs') @ r' \<Longrightarrow> xs = xs' \<and> r = r'"
  proof (induction xs arbitrary: xs')
    case Nil
    then show ?case using r(1) by (cases xs') auto
  next
    case (Cons y ys)
    then obtain z zs where z: "xs' = z # zs" using r(2) by (cases xs') auto
    have "f y @ concat (map (\<lambda>x. TK_chr CHR '','' # f x) ys) @ r = f z @ concat (map (\<lambda>x. TK_chr CHR '','' # f x) zs) @ r'"
      using Cons.prems z by simp
    from pf[OF this] show ?case using Cons.IH[of zs] z by blast
  qed
  then show ?thesis using e pf[of x _ x'] by (auto simp: y1_list_def)
qed

lemma parens_list_unique:
  assumes "prefix_free f" "y1_parens (y1_list f x xs) @ r = y1_parens (y1_list f x' xs') @ r'"
  shows "x = x' \<and> xs = xs' \<and> r = r'"
  using list_unique[OF assms(1), of "TK_chr CHR '')'' # r" "TK_chr CHR '')'' # r'" x xs x' xs'] assms(2) by (simp add: y1_parens_def)

text \<open>A comparison is its left operand and what is behind it.\<close>

fun cmp_left :: "y1_cmp \<Rightarrow> y1_add" where
  "cmp_left (C_add a) = a" | "cmp_left (C_eq a b) = a" | "cmp_left (C_ne a b) = a" | "cmp_left (C_lt a b) = a"
| "cmp_left (C_le a b) = a" | "cmp_left (C_gt a b) = a" | "cmp_left (C_ge a b) = a" | "cmp_left (C_like a b) = a"
| "cmp_left (C_in a v vs) = a" | "cmp_left (C_between a b c) = a" | "cmp_left (C_not_in a v vs) = a"
| "cmp_left (C_not_like a b) = a" | "cmp_left (C_not_between a b c) = a"

fun cmp_behind :: "y1_cmp \<Rightarrow> y1_token list" where
  "cmp_behind (C_add a) = []"
| "cmp_behind (C_eq a b) = TK_chr CHR ''='' # y1_add_tokens b"
| "cmp_behind (C_ne a b) = TK_NE # y1_add_tokens b"
| "cmp_behind (C_lt a b) = TK_chr CHR ''<'' # y1_add_tokens b"
| "cmp_behind (C_le a b) = TK_LE # y1_add_tokens b"
| "cmp_behind (C_gt a b) = TK_chr CHR ''>'' # y1_add_tokens b"
| "cmp_behind (C_ge a b) = TK_GE # y1_add_tokens b"
| "cmp_behind (C_like a b) = TK_LIKE # y1_add_tokens b"
| "cmp_behind (C_in a v vs) = TK_IN # y1_parens (y1_list y1_value_tokens v vs)"
| "cmp_behind (C_between a b c) = TK_BETWEEN # y1_add_tokens b @ TK_AND # y1_add_tokens c"
| "cmp_behind (C_not_in a v vs) = TK_NOT # TK_IN # y1_parens (y1_list y1_value_tokens v vs)"
| "cmp_behind (C_not_like a b) = TK_NOT # TK_LIKE # y1_add_tokens b"
| "cmp_behind (C_not_between a b c) = TK_NOT # TK_BETWEEN # y1_add_tokens b @ TK_AND # y1_add_tokens c"

fun cmp_others :: "y1_cmp \<Rightarrow> y1_add list" where
  "cmp_others (C_between a b c) = [b, c]" | "cmp_others (C_not_between a b c) = [b, c]"
| "cmp_others (C_eq a b) = [b]" | "cmp_others (C_ne a b) = [b]" | "cmp_others (C_lt a b) = [b]" | "cmp_others (C_le a b) = [b]"
| "cmp_others (C_gt a b) = [b]" | "cmp_others (C_ge a b) = [b]" | "cmp_others (C_like a b) = [b]" | "cmp_others (C_not_like a b) = [b]"
| "cmp_others (C_add a) = []" | "cmp_others (C_in a v vs) = []" | "cmp_others (C_not_in a v vs) = []"

lemma cmp_shape: "y1_cmp_tokens c = y1_add_tokens (cmp_left c) @ cmp_behind c"
  by (cases c) auto

lemma cmp_behind_below: "y1_below 3 r \<Longrightarrow> y1_below 4 (cmp_behind c @ r)"
  by (cases c) (auto intro: y1_below_mono)

lemma cmp_unique:
  assumes l: "unique_at 4 y1_add_tokens (cmp_left c)" and o: "\<forall>b \<in> set (cmp_others c). unique_at 4 y1_add_tokens b"
  shows "unique_at 3 y1_cmp_tokens c"
  unfolding unique_at_def
proof (intro allI impI)
  fix c' r r' assume a: "y1_cmp_tokens c @ r = y1_cmp_tokens c' @ r' \<and> y1_below 3 r \<and> y1_below 3 r'"
  have e: "y1_add_tokens (cmp_left c) @ cmp_behind c @ r = y1_add_tokens (cmp_left c') @ cmp_behind c' @ r'"
    using a by (simp add: cmp_shape)
  have lr: "cmp_left c = cmp_left c'" "cmp_behind c @ r = cmp_behind c' @ r'"
    using unique_atD[of 4 y1_add_tokens, OF l e cmp_behind_below cmp_behind_below] a by blast+
  have r: "y1_below 4 r" "y1_below 4 r'" using a y1_below_mono[of 3 _ 4] by simp_all
  have u: "b = x \<and> s = s'" if "y1_add_tokens b @ s = y1_add_tokens x @ s'" "b \<in> set (cmp_others c)" "y1_below 4 s" "y1_below 4 s'" for b x s s'
    using unique_atD[of 4 y1_add_tokens b s x s'] o that by blast
  note v = parens_list_unique[OF tokens_prefix_free(1)]
  show "c = c' \<and> r = r'"
    using lr a by (cases c; cases c') (auto dest!: u v simp: r)
qed

text \<open>Every operand of a level binds as strongly as the level asks.\<close>

definition parts_ok :: "nat \<Rightarrow> ('a \<Rightarrow> y1_token list) \<Rightarrow> 'a \<times> (y1_token \<times> 'a) list \<Rightarrow> bool" where
  "parts_ok k f p \<longleftrightarrow> unique_at k f (fst p) \<and> (\<forall>(t, z) \<in> set (snd p). unique_at k f z)"

lemma parts_ok_simps [simp]: "parts_ok k f (x, []) \<longleftrightarrow> unique_at k f x"
  "parts_ok k f (fst p, snd p @ [(t, x)]) \<longleftrightarrow> parts_ok k f p \<and> unique_at k f x"
  by (auto simp: parts_ok_def)

lemma parts_ok_unique:
  "parts_ok 6 y1_primary_tokens (mul_parts m) \<Longrightarrow> unique_at 5 y1_mul_tokens m"
  "parts_ok 5 y1_mul_tokens (add_parts a) \<Longrightarrow> unique_at 4 y1_add_tokens a"
  "parts_ok 3 y1_not_tokens (and_parts d) \<Longrightarrow> unique_at 2 y1_and_tokens d"
  "parts_ok 2 y1_and_tokens (or_parts e) \<Longrightarrow> unique_at 1 y1_or_tokens e"
  unfolding parts_ok_def using chains_unique by blast+

lemma value_unique: "unique_at 6 y1_primary_tokens (P_value v)"
proof -
  have "v = v' \<and> r = r'" if "y1_value_tokens v @ r = y1_value_tokens v' @ r'" for v' r r'
    using tokens_prefix_free(1) that unfolding prefix_free_def by blast
  moreover have "y1_value_tokens v @ r \<noteq> y1_parens (y1_or_tokens e) @ r'" for e r r'
    by (auto simp: y1_value_tokens_def y1_parens_def split: y1_value.splits)
  ultimately show ?thesis unfolding unique_at_def by (metis y1_primary.exhaust y1_primary_tokens.simps)
qed

lemma paren_unique:
  assumes u: "unique_at 1 y1_or_tokens e" shows "unique_at 6 y1_primary_tokens (P_paren e)"
  unfolding unique_at_def
proof (intro allI impI)
  fix x' r r' assume a: "y1_primary_tokens (P_paren e) @ r = y1_primary_tokens x' @ r' \<and> y1_below 6 r \<and> y1_below 6 r'"
  show "P_paren e = x' \<and> r = r'"
  proof (cases x')
    case (P_value v)
    then show ?thesis using a by (auto simp: y1_value_tokens_def y1_parens_def split: y1_value.splits)
  next
    case (P_paren e')
    then have "y1_or_tokens e @ TK_chr CHR '')'' # r = y1_or_tokens e' @ TK_chr CHR '')'' # r'" using a by (simp add: y1_parens_def)
    from unique_atD[OF u this] show ?thesis using P_paren by simp
  qed
qed

lemma cmp_head: "\<exists>t ts. y1_cmp_tokens c = t # ts \<and> t \<noteq> TK_NOT"
proof -
  have p: "\<exists>t ts. y1_primary_tokens x = t # ts \<and> t \<noteq> TK_NOT" for x
    by (cases x) (auto simp: y1_value_tokens_def y1_parens_def split: y1_value.splits)
  have "\<exists>t ts. y1_add_tokens a = t # ts \<and> t \<noteq> TK_NOT" for a
    using p[of "fst (mul_parts (fst (add_parts a)))"] by (auto simp: parts_tokens)
  then show ?thesis using cmp_shape[of c] by (metis append_Cons)
qed

lemma not_unique:
  "unique_at 3 y1_cmp_tokens c \<Longrightarrow> unique_at 3 y1_not_tokens (N_cmp c)"
  "unique_at 3 y1_not_tokens n \<Longrightarrow> unique_at 3 y1_not_tokens (N_not n)"
proof -
  have ne: "y1_cmp_tokens c @ r \<noteq> TK_NOT # s" for c r s using cmp_head[of c] by auto
  show "unique_at 3 y1_not_tokens (N_cmp c)" if "unique_at 3 y1_cmp_tokens c"
    unfolding unique_at_def
  proof (intro allI impI)
    fix x' r r' assume a: "y1_not_tokens (N_cmp c) @ r = y1_not_tokens x' @ r' \<and> y1_below 3 r \<and> y1_below 3 r'"
    then obtain c' where "x' = N_cmp c'" using ne by (cases x') auto
    then show "N_cmp c = x' \<and> r = r'" using unique_atD[OF that, of r c' r'] a by simp
  qed
  show "unique_at 3 y1_not_tokens (N_not n)" if "unique_at 3 y1_not_tokens n"
    unfolding unique_at_def
  proof (intro allI impI)
    fix x' r r' assume a: "y1_not_tokens (N_not n) @ r = y1_not_tokens x' @ r' \<and> y1_below 3 r \<and> y1_below 3 r'"
    then obtain n' where "x' = N_not n'" using ne[symmetric] by (cases x') auto
    then show "N_not n = x' \<and> r = r'" using unique_atD[OF that, of r n' r'] a by simp
  qed
qed

lemma trees_unique:
  "unique_at 6 y1_primary_tokens p"
  "parts_ok 6 y1_primary_tokens (mul_parts m)"
  "parts_ok 5 y1_mul_tokens (add_parts a)"
  "unique_at 4 y1_add_tokens (cmp_left c) \<and> (\<forall>b \<in> set (cmp_others c). unique_at 4 y1_add_tokens b)"
  "unique_at 3 y1_not_tokens n"
  "parts_ok 3 y1_not_tokens (and_parts d)"
  "parts_ok 2 y1_and_tokens (or_parts e)"
  by (induction p and m and a and c and n and d and e)
    (auto intro: value_unique paren_unique not_unique cmp_unique parts_ok_unique)

lemma or_unique: "unique_at 1 y1_or_tokens e"
  by (rule parts_ok_unique(4)[OF trees_unique(7)])

lemma where_tokens_unique: "y1_where_tokens e = y1_where_tokens e' \<Longrightarrow> e = e'"
  using unique_atD[OF or_unique, of _ "[]" _ "[]"] by (auto simp: y1_where_tokens_def split: option.splits)

lemma ids_from_unique:
  "y1_list y1_id_tokens i ids @ TK_FROM # r = y1_list y1_id_tokens i' ids' @ TK_FROM # r' \<Longrightarrow> i = i' \<and> ids = ids' \<and> r = r'"
  using list_unique[OF tokens_prefix_free(2), of "TK_FROM # r" "TK_FROM # r'" i ids i' ids'] by auto

lemma cmd_tokens_inj: "y1_cmd_tokens c = y1_cmd_tokens c' \<Longrightarrow> c = c'"
  by (cases c; cases c')
    (auto simp: y1_name_tokens_def dest!: parens_list_unique[OF tokens_prefix_free(1)] parens_list_unique[OF tokens_prefix_free(2)]
      parens_list_unique[OF tokens_prefix_free(3), of _ _ "[]" _ _ "[]", simplified] where_tokens_unique ids_from_unique
      parens_list_unique[OF tokens_prefix_free(1), of _ _ "[]" _ _ "[]", simplified])

text \<open>A statement has no semicolon and no end of a query in it.\<close>

definition y1_closed :: "y1_token list \<Rightarrow> bool" where
  "y1_closed ts \<longleftrightarrow> TK_chr CHR '';'' \<notin> set ts \<and> TK_NL \<notin> set ts"

lemma y1_closed_simps [simp]: "y1_closed []" "y1_closed (t # ts) \<longleftrightarrow> t \<noteq> TK_chr CHR '';'' \<and> t \<noteq> TK_NL \<and> y1_closed ts"
  "y1_closed (xs @ ys) \<longleftrightarrow> y1_closed xs \<and> y1_closed ys" "y1_closed (y1_parens ts) \<longleftrightarrow> y1_closed ts"
  by (auto simp: y1_closed_def y1_parens_def)

lemma y1_closed_list: "(\<And>x. y1_closed (f x)) \<Longrightarrow> y1_closed (y1_list f x xs)"
  by (auto simp: y1_closed_def y1_list_def)

lemma closed_small [simp]: "y1_closed (y1_value_tokens v)" "y1_closed (y1_id_tokens i)" "y1_closed (y1_decl_tokens d)" "y1_closed (y1_name_tokens n t)"
  by (auto simp: y1_value_tokens_def y1_id_tokens_def y1_decl_tokens_def y1_type_tokens_def y1_name_tokens_def split: y1_value.splits y1_type.splits)

lemma closed_trees: "y1_closed (y1_primary_tokens p)" "y1_closed (y1_mul_tokens m)" "y1_closed (y1_add_tokens a)" "y1_closed (y1_cmp_tokens c)"
  "y1_closed (y1_not_tokens n)" "y1_closed (y1_and_tokens d)" "y1_closed (y1_or_tokens e)"
  by (induction p and m and a and c and n and d and e) (auto intro: y1_closed_list)

lemma closed_cmd: "y1_closed (y1_cmd_tokens c)"
  by (cases c) (auto simp: y1_where_tokens_def closed_trees split: option.split intro: y1_closed_list)

lemma cmd_tokens_first: "\<exists>t ts. y1_cmd_tokens c = t # ts \<and> t \<noteq> TK_NL"
  by (cases c) auto

end
