(* ===== verification/Scr_Parse.thy ===== *)
theory Scr_Parse
  imports Scr_Sql Scr_Statement
begin

text \<open>
  The parser of a session, \<^verbatim>\<open>src/scrs/hquery.y\<close>: the header, the queries and
  the statements of each, with what an action that fails does to the tokens behind it. The
  tables are generated; a step of the parser is the reduction of one line of the header, of
  one statement with its semicolon or of one end of a query.
\<close>

section \<open>The state of a session\<close>

record 'w y1_state =
  ys_m :: memory
  ys_cmd :: cmd
  ys_db :: db
  ys_sess :: sess
  ys_seq :: gid
  ys_w :: 'w
  ys_s :: session

text \<open>
  What is not under \<^verbatim>\<open>src\<close>: the socket, the second generated parser, what realloc
  finds, and \<open>env_left\<close>, the tokens that the generated parser has put when it finds that the
  text before a semicolon is no statement.
\<close>

record 'w y1_env =
  env_send :: "'w os_send"
  env_y2 :: "bc \<Rightarrow> db \<Rightarrow> sess \<Rightarrow> 'w \<Rightarrow> session \<Rightarrow> 'w stmt_result"
  env_sys :: server_sys
  env_room :: "memory \<Rightarrow> u64 \<Rightarrow> bool"
  env_junk :: "nat \<Rightarrow> bc_node"
  env_left :: "u8 list option \<Rightarrow> y1_token list \<Rightarrow> bc_node list"

definition y1_send :: "'w y1_env \<Rightarrow> scrc_status \<Rightarrow> 'w y1_state \<Rightarrow> 'w y1_state option" where
  "y1_send E status st = do {
     (w, s) \<leftarrow> session_send_status (env_send E) (ys_w st) (ys_s st) status;
     Some (st\<lparr>ys_w := w, ys_s := s\<rparr>) }"

definition y1_put :: "'w y1_env \<Rightarrow> bc_node list \<Rightarrow> 'w y1_state \<Rightarrow> 'w y1_state option" where
  "y1_put E ns st = do {
     (m, bc) \<leftarrow> bc_puts (env_room E) (env_junk E) (ys_m st) (cm_bc (ys_cmd st)) ns;
     Some (st\<lparr>ys_m := m, ys_cmd := (ys_cmd st)\<lparr>cm_bc := bc\<rparr>\<rparr>) }"

text \<open>The action behind the semicolon of a statement; its \<open>ret\<close> is what execute_cmd returns.\<close>

definition y1_execute :: "'w y1_env \<Rightarrow> 'w y1_state \<Rightarrow> ('w y1_state \<times> int) option" where
  "y1_execute E st = do {
     (d, ss, w, s, ret) \<leftarrow> execute_cmd (env_send E) (env_y2 E) (cm_bc (ys_cmd st)) (ys_db st) (ys_sess st) (ys_w st) (ys_s st);
     (h, cmd) \<leftarrow> cmd_reset (m_heap (ys_m st)) (ys_cmd st);
     Some (st\<lparr>ys_m := (ys_m st)\<lparr>m_heap := h\<rparr>, ys_cmd := cmd, ys_db := d, ys_sess := ss, ys_w := w, ys_s := s\<rparr>, ret) }"

definition y1_run :: "'w y1_env \<Rightarrow> y1_cmd \<Rightarrow> 'w y1_state \<Rightarrow> ('w y1_state \<times> int) option" where
  "y1_run E c st = Option.bind (y1_put E (put_cmd (ss_catalog (ys_sess st)) c) st) (y1_execute E)"

section \<open>The header\<close>

definition y1_user :: "u8 list \<Rightarrow> 'w y1_state \<Rightarrow> 'w y1_state" where
  "y1_user v st = st\<lparr>ys_sess := header_user v (ys_sess st)\<rparr>"

definition y1_catalog :: "'w y1_env \<Rightarrow> u8 list \<Rightarrow> 'w y1_state \<Rightarrow> 'w y1_state option" where
  "y1_catalog E v st = do {
     (ss, seq, w, s) \<leftarrow> header_catalog (env_send E) (env_sys E) (Some v) (ys_db st) (ys_sess st) (ys_seq st) (ys_w st) (ys_s st);
     Some (st\<lparr>ys_sess := ss, ys_seq := seq, ys_w := w, ys_s := s\<rparr>) }"

text \<open>The end of the header, and the strings of the queries are put in a context of their own.\<close>

definition y1_header_end :: "'w y1_env \<Rightarrow> 'w y1_state \<Rightarrow> 'w y1_state option" where
  "y1_header_end E st = do {
     (w, s) \<leftarrow> header_end (env_send E) (ys_sess st) (ys_w st) (ys_s st);
     m \<leftarrow> context_push (ys_m st) (cm_str_cont (ys_cmd st));
     Some (st\<lparr>ys_m := m, ys_w := w, ys_s := s\<rparr>) }"

section \<open>Steps\<close>

text \<open>
  Where the parser stands: in the header, which needs a line, between queries, of which it
  needs one, behind a statement of a query, or behind the token \<open>error\<close>.
\<close>

datatype y1_mode = HEADER bool | QUERIES bool | BODY | RECOVER

type_synonym 'w y1_config = "y1_mode \<times> 'w y1_state \<times> y1_token list"

definition takes_statement :: "y1_mode \<Rightarrow> bool" where
  "takes_statement m \<longleftrightarrow> m = BODY \<or> (\<exists>b. m = QUERIES b)"

abbreviation TK_semicolon :: y1_token where
  "TK_semicolon \<equiv> TK_chr CHR '';''"

text \<open>
  YYERROR of a statement that fails pops the statement and shifts \<open>error\<close>, behind which only a
  semicolon may stand: every token before one is discarded, the ends of queries too. So is a
  text that is no statement, wherever in it the parser notices; nothing resets the command
  then.
\<close>

inductive y1_step :: "'w y1_env \<Rightarrow> 'w y1_config \<Rightarrow> 'w y1_config \<Rightarrow> bool" for E where
  step_user: "y1_step E (HEADER b, st, TK_USER # TK_chr CHR '':'' # TK_STRING v # TK_NL # ts) (HEADER True, y1_user v st, ts)"
| step_catalog: "y1_catalog E v st = Some st' \<Longrightarrow>
    y1_step E (HEADER b, st, TK_CATALOG # TK_chr CHR '':'' # TK_STRING v # TK_NL # ts) (HEADER True, st', ts)"
| step_header: "y1_header_end E st = Some st' \<Longrightarrow> y1_step E (HEADER True, st, TK_NL # ts) (QUERIES False, st', ts)"
| step_empty: "y1_send E SCRS_OK st = Some st' \<Longrightarrow> y1_step E (QUERIES b, st, TK_NL # ts) (QUERIES True, st', ts)"
| step_statement: "takes_statement m \<Longrightarrow> y1_run E c st = Some (st', ret) \<Longrightarrow>
    y1_step E (m, st, y1_cmd_tokens c @ TK_semicolon # ts) (if ret = 0 then BODY else RECOVER, st', ts)"
| step_query: "y1_step E (BODY, st, TK_NL # ts) (QUERIES True, st, ts)"
| step_syntax: "takes_statement m \<Longrightarrow> us = [] \<or> hd us \<noteq> TK_NL \<Longrightarrow> TK_semicolon \<notin> set us \<Longrightarrow> us \<notin> range y1_cmd_tokens \<Longrightarrow>
    y1_put E (env_left E (ss_catalog (ys_sess st)) us) st = Some st' \<Longrightarrow>
    y1_step E (m, st, us @ TK_semicolon # ts) (BODY, st', ts)"
| step_discard: "t \<noteq> TK_semicolon \<Longrightarrow> y1_step E (RECOVER, st, t # ts) (RECOVER, st, ts)"
| step_recovered: "y1_step E (RECOVER, st, TK_semicolon # ts) (BODY, st, ts)"

text \<open>
  Where it ends and what it returns: behind a query at the end of the text, or with 1 where
  the rest of the text has no semicolon to recover at.
\<close>

inductive y1_ends :: "y1_mode \<Rightarrow> y1_token list \<Rightarrow> int \<Rightarrow> bool" where
  end_accept: "y1_ends (QUERIES True) [] 0"
| end_abort: "takes_statement m \<Longrightarrow> (m, ts) \<noteq> (QUERIES True, []) \<Longrightarrow> ts = [] \<or> hd ts \<noteq> TK_NL \<Longrightarrow>
    TK_semicolon \<notin> set ts \<Longrightarrow> y1_ends m ts 1"
| end_recover: "y1_ends RECOVER [] 1"
| end_header: "ts = [] \<or> hd ts \<noteq> TK_NL \<or> \<not> b \<Longrightarrow>
    (\<And>k v us. ts = k # TK_chr CHR '':'' # TK_STRING v # TK_NL # us \<Longrightarrow> k \<noteq> TK_USER \<and> k \<noteq> TK_CATALOG) \<Longrightarrow> y1_ends (HEADER b) ts 1"

text \<open>
  y1parse on the tokens of the connection; only a session that is accepted gives its context
  back. The parser's own stack is not bounded here, so it does not return 2.
\<close>

definition y1_leave :: "int \<Rightarrow> 'w y1_state \<Rightarrow> 'w y1_state option" where
  "y1_leave ret st = (if ret = 0 then map_option (\<lambda>m. st\<lparr>ys_m := m\<rparr>) (context_pop (ys_m st)) else Some st)"

inductive y1_parse :: "'w y1_env \<Rightarrow> y1_token list \<Rightarrow> 'w y1_state \<Rightarrow> 'w y1_state \<Rightarrow> int \<Rightarrow> bool" for E where
  "(y1_step E)\<^sup>*\<^sup>* (HEADER False, st, ts) (m, st1, rest) \<Longrightarrow> y1_ends m rest ret \<Longrightarrow> y1_leave ret st1 = Some st2 \<Longrightarrow>
   y1_parse E ts st st2 ret"

inductive_cases y1_step_headerE: "y1_step E (HEADER b, st, ts) x"
inductive_cases y1_step_queriesE: "y1_step E (QUERIES b, st, ts) x"
inductive_cases y1_step_bodyE: "y1_step E (BODY, st, ts) x"
inductive_cases y1_step_recoverE: "y1_step E (RECOVER, st, ts) x"

section \<open>The session\<close>

text \<open>
  session_run: two contexts, the state of a command, the parser, the last status, and all of
  it dropped. \<open>maps\<close> are the results of mmap, one for each context.
\<close>

definition session_enter :: "u64 \<Rightarrow> (nat \<Rightarrow> cid option) \<Rightarrow> memory \<Rightarrow> (memory \<times> cid \<times> cmd) option" where
  "session_enter pagesz maps m = do {
     let (h, sc) = linear_context_create (m_heap m) (maps 0) (pagesz * 256);
     let (h, fc) = bump_context_create h (maps 1) (pagesz * 16);
     sc \<leftarrow> sc;
     fc \<leftarrow> fc;
     (h, _) \<leftarrow> bump_context_add_child h sc fc;
     cur \<leftarrow> g_context m;
     (h, _) \<leftarrow> bump_context_add_child h cur sc;
     m \<leftarrow> context_push (m\<lparr>m_heap := h\<rparr>) (Some sc);
     (m, cmd) \<leftarrow> cmd_init pagesz (maps 2) (maps 3) (maps 4) m;
     Some (m, sc, cmd) }"

definition session_end :: "'w os_send \<Rightarrow> int \<Rightarrow> 'w \<Rightarrow> session \<Rightarrow> ('w \<times> session) option" where
  "session_end os_send ret w s = session_send_status os_send w s
     (if ret = 0 then SCRS_OK else if ret = 1 then SCRS_PARSER_ERROR
      else if ret = 2 then SCRS_PARSER_MEMORY_EXHAUSTION else SCRS_UNKNOWN_PARSER_ERROR)"

definition session_leave :: "cid \<Rightarrow> 'w y1_state \<Rightarrow> memory option" where
  "session_leave sc st = do {
     h \<leftarrow> cmd_drop (m_heap (ys_m st)) (ys_cmd st);
     m \<leftarrow> context_pop ((ys_m st)\<lparr>m_heap := h\<rparr>);
     h \<leftarrow> bump_context_drop (m_heap m) (Some sc);
     Some (m\<lparr>m_heap := h\<rparr>) }"

inductive session_run ::
    "'w y1_env \<Rightarrow> u64 \<Rightarrow> (nat \<Rightarrow> cid option) \<Rightarrow> y1_token list \<Rightarrow> memory \<Rightarrow> db \<Rightarrow> sess \<Rightarrow> 'w \<Rightarrow> session \<Rightarrow>
     memory \<Rightarrow> db \<Rightarrow> 'w \<Rightarrow> session \<Rightarrow> int \<Rightarrow> bool" for E where
  "session_enter pagesz maps m = Some (m1, sc, cmd) \<Longrightarrow>
   y1_parse E ts \<lparr>ys_m = m1, ys_cmd = cmd, ys_db = d, ys_sess = ss, ys_seq = GID_UNDEF, ys_w = w, ys_s = s\<rparr> st ret \<Longrightarrow>
   session_end (env_send E) ret (ys_w st) (ys_s st) = Some (w', s') \<Longrightarrow> session_leave sc st = Some m' \<Longrightarrow>
   session_run E pagesz maps ts m d ss w s m' (ys_db st) w' s' ret"

section \<open>A list of queries\<close>

definition stmt_tokens :: "y1_cmd \<Rightarrow> y1_token list" where
  "stmt_tokens c = y1_cmd_tokens c @ [TK_semicolon]"

definition query_tokens :: "y1_cmd list \<Rightarrow> y1_token list" where
  "query_tokens cs = concat (map stmt_tokens cs) @ [TK_NL]"

definition session_tokens :: "y1_cmd list list \<Rightarrow> y1_token list" where
  "session_tokens qs = concat (map query_tokens qs)"

text \<open>What they mean: in order, but for the statement behind one that failed.\<close>

fun run_stmts :: "'w y1_env \<Rightarrow> y1_mode \<Rightarrow> y1_cmd list \<Rightarrow> 'w y1_state \<Rightarrow> (y1_mode \<times> 'w y1_state) option" where
  "run_stmts E m [] st = Some (m, st)"
| "run_stmts E m (c # cs) st = (if m = RECOVER then run_stmts E BODY cs st
     else Option.bind (y1_run E c st) (\<lambda>(st, ret). run_stmts E (if ret = 0 then BODY else RECOVER) cs st))"

definition end_query :: "'w y1_env \<Rightarrow> y1_mode \<Rightarrow> 'w y1_state \<Rightarrow> (y1_mode \<times> 'w y1_state) option" where
  "end_query E m st = (if m = RECOVER then Some (RECOVER, st) else if m = BODY then Some (QUERIES True, st)
     else map_option (Pair (QUERIES True)) (y1_send E SCRS_OK st))"

fun run_queries :: "'w y1_env \<Rightarrow> y1_mode \<Rightarrow> y1_cmd list list \<Rightarrow> 'w y1_state \<Rightarrow> (y1_mode \<times> 'w y1_state) option" where
  "run_queries E m [] st = Some (m, st)"
| "run_queries E m (cs # qs) st = Option.bind (run_stmts E m cs st) (\<lambda>(m, st). Option.bind (end_query E m st) (\<lambda>(m, st). run_queries E m qs st))"

definition run_header :: "'w y1_env \<Rightarrow> u8 list \<Rightarrow> u8 list option \<Rightarrow> 'w y1_state \<Rightarrow> 'w y1_state option" where
  "run_header E user catalog st = Option.bind (case catalog of None \<Rightarrow> Some (y1_user user st) | Some cat \<Rightarrow> y1_catalog E cat (y1_user user st))
     (y1_header_end E)"

text \<open>A session returns 0 unless it has no query or its last statement failed.\<close>

definition run_session :: "'w y1_env \<Rightarrow> u8 list \<Rightarrow> u8 list option \<Rightarrow> y1_cmd list list \<Rightarrow> 'w y1_state \<Rightarrow> ('w y1_state \<times> int) option" where
  "run_session E user catalog qs st = do {
     st \<leftarrow> run_header E user catalog st;
     (m, st) \<leftarrow> run_queries E (QUERIES False) qs st;
     let ret = (if m = QUERIES True then 0 else 1);
     st \<leftarrow> y1_leave ret st;
     Some (st, ret) }"

end
