(* ===== verification/Scr_Parse_Laws.thy ===== *)
theory Scr_Parse_Laws
  imports Scr_Parse Scr_Protocol_Laws
begin

text \<open>
  The parser of a session has one way to go, since no two statements have the same tokens:
  it runs the statements of a text in order, but for the one behind a statement that failed.
\<close>

section \<open>Single steps\<close>

lemma until_semicolon:
  "us @ TK_semicolon # r = us' @ TK_semicolon # r' \<Longrightarrow> TK_semicolon \<notin> set us \<Longrightarrow> TK_semicolon \<notin> set us' \<Longrightarrow> us = us' \<and> r = r'"
proof (induction us arbitrary: us')
  case Nil
  then show ?case by (cases us') auto
next
  case (Cons u us)
  then show ?case by (cases us') auto
qed

lemma cmd_no_semicolon: "TK_semicolon \<notin> set (y1_cmd_tokens c)"
  using closed_cmd[of c] by (simp add: y1_closed_def)

lemma cmd_then_semicolon:
  "y1_cmd_tokens c @ TK_semicolon # r = us @ TK_semicolon # r' \<Longrightarrow> TK_semicolon \<notin> set us \<Longrightarrow> us = y1_cmd_tokens c \<and> r' = r"
  using until_semicolon[of "y1_cmd_tokens c" r us r'] cmd_no_semicolon[of c] by auto

lemma cmd_semicolon_unique:
  "y1_cmd_tokens c @ TK_semicolon # r = y1_cmd_tokens c' @ TK_semicolon # r' \<Longrightarrow> c' = c \<and> r' = r"
  using cmd_then_semicolon[OF _ cmd_no_semicolon] cmd_tokens_inj by blast

lemma cmd_not_nl: "y1_cmd_tokens c @ r \<noteq> TK_NL # r'"
  using cmd_tokens_first[of c] by auto

lemma takes_statement_simps [simp]: "takes_statement BODY" "takes_statement (QUERIES b)" "\<not> takes_statement RECOVER" "\<not> takes_statement (HEADER b)"
  by (auto simp: takes_statement_def)

lemma step_takes:
  assumes "y1_step E (m, st, ts) x" "takes_statement m"
  obtains (empty) b st' us where "m = QUERIES b" "ts = TK_NL # us" "y1_send E SCRS_OK st = Some st'" "x = (QUERIES True, st', us)"
    | (query) us where "m = BODY" "ts = TK_NL # us" "x = (QUERIES True, st, us)"
    | (statement) c st' ret us where "ts = y1_cmd_tokens c @ TK_semicolon # us" "y1_run E c st = Some (st', ret)"
        "x = (if ret = 0 then BODY else RECOVER, st', us)"
    | (wrong) us r where "ts = us @ TK_semicolon # r" "us = [] \<or> hd us \<noteq> TK_NL" "TK_semicolon \<notin> set us" "us \<notin> range y1_cmd_tokens"
  using assms(1)
proof (cases rule: y1_step.cases)
  case step_statement
  then show thesis by (intro statement) simp_all
next
  case step_syntax
  then show thesis by (intro wrong) simp_all
qed (use assms(2) empty query in simp_all)

lemma step_statement_iff:
  assumes m: "takes_statement m"
  shows "y1_step E (m, st, stmt_tokens c @ r) x \<longleftrightarrow>
    (\<exists>st' ret. y1_run E c st = Some (st', ret) \<and> x = (if ret = 0 then BODY else RECOVER, st', r))"
proof
  have t: "stmt_tokens c @ r = y1_cmd_tokens c @ TK_semicolon # r" by (simp add: stmt_tokens_def)
  assume "y1_step E (m, st, stmt_tokens c @ r) x"
  from this m show "\<exists>st' ret. y1_run E c st = Some (st', ret) \<and> x = (if ret = 0 then BODY else RECOVER, st', r)"
  proof (cases rule: step_takes)
    case (statement c' st' ret us)
    have "c' = c \<and> us = r" by (rule cmd_semicolon_unique) (use t statement(1) in simp)
    then show ?thesis using statement by blast
  next
    case (wrong us r')
    have "us = y1_cmd_tokens c \<and> r' = r" by (rule cmd_then_semicolon) (use t wrong(1,3) in simp_all)
    then show ?thesis using wrong by blast
  next
    case (empty b st' us)
    then show ?thesis using t cmd_not_nl[of c "TK_semicolon # r" us] by simp
  next
    case (query us)
    then show ?thesis using t cmd_not_nl[of c "TK_semicolon # r" us] by simp
  qed
next
  assume "\<exists>st' ret. y1_run E c st = Some (st', ret) \<and> x = (if ret = 0 then BODY else RECOVER, st', r)"
  then obtain st' ret where "y1_run E c st = Some (st', ret)" "x = (if ret = 0 then BODY else RECOVER, st', r)" by blast
  then show "y1_step E (m, st, stmt_tokens c @ r) x"
    using y1_step.step_statement[OF m, of E c st st' ret r] unfolding stmt_tokens_def by simp
qed

lemma step_nl_iff:
  "y1_step E (QUERIES b, st, TK_NL # r) x \<longleftrightarrow> (\<exists>st'. y1_send E SCRS_OK st = Some st' \<and> x = (QUERIES True, st', r))"
  "y1_step E (BODY, st, TK_NL # r) x \<longleftrightarrow> x = (QUERIES True, st, r)"
proof -
  have n: "us = [] \<or> hd us \<noteq> TK_NL \<Longrightarrow> us @ TK_semicolon # r' \<noteq> TK_NL # r" for us r' by (cases us) auto
  show "y1_step E (QUERIES b, st, TK_NL # r) x \<longleftrightarrow> (\<exists>st'. y1_send E SCRS_OK st = Some st' \<and> x = (QUERIES True, st', r))"
  proof
    assume "y1_step E (QUERIES b, st, TK_NL # r) x"
    from this takes_statement_simps(2) show "\<exists>st'. y1_send E SCRS_OK st = Some st' \<and> x = (QUERIES True, st', r)"
      by (cases rule: step_takes) (use n[symmetric] cmd_not_nl[symmetric] in simp_all)
  qed (auto intro: step_empty)
  show "y1_step E (BODY, st, TK_NL # r) x \<longleftrightarrow> x = (QUERIES True, st, r)"
  proof
    assume "y1_step E (BODY, st, TK_NL # r) x"
    from this takes_statement_simps(1) show "x = (QUERIES True, st, r)"
      by (cases rule: step_takes) (use n[symmetric] cmd_not_nl[symmetric] in simp_all)
  qed (auto intro: step_query)
qed

lemma step_recover_iff:
  "y1_step E (RECOVER, st, TK_semicolon # r) x \<longleftrightarrow> x = (BODY, st, r)"
  "t \<noteq> TK_semicolon \<Longrightarrow> y1_step E (RECOVER, st, t # r) x \<longleftrightarrow> x = (RECOVER, st, r)"
  by (auto elim!: y1_step_recoverE intro: step_discard step_recovered)

lemma step_shorter: "y1_step E x y \<Longrightarrow> length (snd (snd y)) < length (snd (snd x))"
  by (erule y1_step.cases) simp_all

section \<open>Runs\<close>

abbreviation y1_steps :: "'w y1_env \<Rightarrow> 'w y1_config \<Rightarrow> 'w y1_config \<Rightarrow> bool" where
  "y1_steps E \<equiv> (y1_step E)\<^sup>*\<^sup>*"

text \<open>
  Runs to a given end: one with a text no longer than \<open>r\<close>, or one where the parser stops.
\<close>

definition ahead :: "y1_mode \<Rightarrow> y1_token list \<Rightarrow> y1_token list \<Rightarrow> bool" where
  "ahead m' ts r \<longleftrightarrow> length ts \<le> length r \<or> (\<exists>ret. y1_ends m' ts ret)"

lemma ahead_append: "ahead m' ts r \<Longrightarrow> ahead m' ts (xs @ r)" "ahead m' ts r \<Longrightarrow> ahead m' ts (t # r)"
  by (auto simp: ahead_def)

lemma ahead_differs:
  assumes "ahead m' ts r" "length r < length xs" "\<And>ret. \<not> y1_ends m xs ret"
  shows "(m, st, xs) \<noteq> (m', st', ts)"
  using assms by (auto simp: ahead_def)

lemma y1_ends_not [simp]:
  "takes_statement m \<Longrightarrow> \<not> y1_ends m (stmt_tokens c @ r) ret" "takes_statement m \<Longrightarrow> \<not> y1_ends m (TK_NL # r) ret"
  "\<not> y1_ends RECOVER (t # r) ret" "\<not> y1_ends (HEADER b) (TK_USER # TK_chr CHR '':'' # TK_STRING v # TK_NL # r) ret"
  "\<not> y1_ends (HEADER b) (TK_CATALOG # TK_chr CHR '':'' # TK_STRING v # TK_NL # r) ret" "\<not> y1_ends (HEADER True) (TK_NL # r) ret"
  by (auto elim!: y1_ends.cases simp: stmt_tokens_def)

lemma steps_first:
  assumes "x \<noteq> y" shows "y1_steps E x y \<longleftrightarrow> (\<exists>z. y1_step E x z \<and> y1_steps E z y)"
proof
  assume "y1_steps E x y"
  then show "\<exists>z. y1_step E x z \<and> y1_steps E z y" by (rule converse_rtranclpE) (use assms in auto)
qed (auto intro: converse_rtranclp_into_rtranclp)

lemma steps_after:
  assumes "\<And>z. y1_step E x z \<longleftrightarrow> z = x'" "x \<noteq> y"
  shows "y1_steps E x y \<longleftrightarrow> y1_steps E x' y"
  unfolding steps_first[OF assms(2), of E] assms(1) by simp

lemma steps_statement:
  assumes "takes_statement m" "ahead m' ts r"
  shows "y1_steps E (m, st, stmt_tokens c @ r) (m', st', ts) \<longleftrightarrow>
    (\<exists>st1 ret. y1_run E c st = Some (st1, ret) \<and> y1_steps E (if ret = 0 then BODY else RECOVER, st1, r) (m', st', ts))"
proof -
  have "(m, st, stmt_tokens c @ r) \<noteq> (m', st', ts)"
    by (rule ahead_differs[OF assms(2)]) (simp add: stmt_tokens_def, rule y1_ends_not(1)[OF assms(1)])
  from steps_first[OF this, of E] show ?thesis unfolding step_statement_iff[OF assms(1)] by blast
qed

lemma steps_discard:
  "TK_semicolon \<notin> set us \<Longrightarrow> ahead m' ts r \<Longrightarrow>
   y1_steps E (RECOVER, st, us @ r) (m', st', ts) \<longleftrightarrow> y1_steps E (RECOVER, st, r) (m', st', ts)"
proof (induction us)
  case (Cons u us)
  have "(RECOVER, st, u # us @ r) \<noteq> (m', st', ts)" by (rule ahead_differs[OF Cons.prems(2)]) auto
  moreover have "u \<noteq> TK_semicolon" using Cons.prems(1) by auto
  ultimately have "y1_steps E (RECOVER, st, u # us @ r) (m', st', ts) \<longleftrightarrow> y1_steps E (RECOVER, st, us @ r) (m', st', ts)"
    by (intro steps_after step_recover_iff)
  then show ?case using Cons by simp
qed simp

lemma steps_recover:
  assumes "ahead m' ts r"
  shows "y1_steps E (RECOVER, st, stmt_tokens c @ r) (m', st', ts) \<longleftrightarrow> y1_steps E (BODY, st, r) (m', st', ts)"
proof -
  have "y1_steps E (RECOVER, st, y1_cmd_tokens c @ TK_semicolon # r) (m', st', ts) \<longleftrightarrow>
      y1_steps E (RECOVER, st, TK_semicolon # r) (m', st', ts)"
    by (rule steps_discard) (use cmd_no_semicolon ahead_append[OF assms] in auto)
  also have "(RECOVER, st, TK_semicolon # r) \<noteq> (m', st', ts)" by (rule ahead_differs[OF assms]) auto
  then have "y1_steps E (RECOVER, st, TK_semicolon # r) (m', st', ts) \<longleftrightarrow> y1_steps E (BODY, st, r) (m', st', ts)"
    by (intro steps_after step_recover_iff)
  finally show ?thesis by (simp add: stmt_tokens_def)
qed

definition reads_query :: "y1_mode \<Rightarrow> bool" where
  "reads_query m \<longleftrightarrow> (\<forall>b. m \<noteq> HEADER b)"

lemma reads_query_simps [simp]: "reads_query BODY" "reads_query RECOVER" "reads_query (QUERIES b)" "\<not> reads_query (HEADER b)"
  by (simp_all add: reads_query_def)

lemma steps_stmts:
  "reads_query m \<Longrightarrow> ahead m' ts r \<Longrightarrow>
   y1_steps E (m, st, concat (map stmt_tokens cs) @ r) (m', st', ts) \<longleftrightarrow>
     (\<exists>m1 st1. run_stmts E m cs st = Some (m1, st1) \<and> reads_query m1 \<and> y1_steps E (m1, st1, r) (m', st', ts))"
proof (induction cs arbitrary: m st)
  case (Cons c cs)
  have l: "ahead m' ts (concat (map stmt_tokens cs) @ r)" by (rule ahead_append(1)[OF Cons.prems(2)])
  show ?case
  proof (cases "m = RECOVER")
    case True
    then show ?thesis using steps_recover[OF l, of E st c st'] Cons.IH[of BODY st] Cons.prems(2) by simp
  next
    case False
    then have m: "takes_statement m" using Cons.prems(1) by (cases m) auto
    have "y1_steps E (m, st, concat (map stmt_tokens (c # cs)) @ r) (m', st', ts) \<longleftrightarrow>
      (\<exists>st1 ret. y1_run E c st = Some (st1, ret) \<and>
        y1_steps E (if ret = 0 then BODY else RECOVER, st1, concat (map stmt_tokens cs) @ r) (m', st', ts))"
      using steps_statement[OF m l, of E st c st'] by simp
    also have "\<dots> \<longleftrightarrow> (\<exists>st1 ret. y1_run E c st = Some (st1, ret) \<and> (\<exists>m2 st2. run_stmts E (if ret = 0 then BODY else RECOVER) cs st1 = Some (m2, st2) \<and>
        reads_query m2 \<and> y1_steps E (m2, st2, r) (m', st', ts)))"
    proof -
      have "y1_steps E (if ret = 0 then BODY else RECOVER, st1, concat (map stmt_tokens cs) @ r) (m', st', ts) \<longleftrightarrow>
          (\<exists>m2 st2. run_stmts E (if ret = 0 then BODY else RECOVER) cs st1 = Some (m2, st2) \<and>
            reads_query m2 \<and> y1_steps E (m2, st2, r) (m', st', ts))" for st1 and ret :: int
        by (rule Cons.IH) (use Cons.prems(2) in auto)
      then show ?thesis by (simp only:)
    qed
    finally show ?thesis using False by (auto split: bind_splits)
  qed
qed simp

lemma steps_end_query:
  assumes "reads_query m" "ahead m' ts r"
  shows "y1_steps E (m, st, TK_NL # r) (m', st', ts) \<longleftrightarrow>
    (\<exists>m1 st1. end_query E m st = Some (m1, st1) \<and> reads_query m1 \<and> y1_steps E (m1, st1, r) (m', st', ts))"
proof -
  have e: "\<not> y1_ends m (TK_NL # r) ret" for ret using assms(1) by (cases m) auto
  have l: "(m, st, TK_NL # r) \<noteq> (m', st', ts)" by (rule ahead_differs[OF assms(2)]) (use e in auto)
  show ?thesis
  proof (cases m)
    case (QUERIES b)
    have "y1_steps E (m, st, TK_NL # r) (m', st', ts) \<longleftrightarrow> (\<exists>st1. y1_send E SCRS_OK st = Some st1 \<and> y1_steps E (QUERIES True, st1, r) (m', st', ts))"
      using steps_first[OF l, of E] unfolding QUERIES step_nl_iff by blast
    then show ?thesis using QUERIES by (simp add: end_query_def)
  next
    case BODY
    then show ?thesis using steps_after[OF step_nl_iff(2) l[unfolded BODY]] by (simp add: end_query_def)
  next
    case RECOVER
    have "TK_NL \<noteq> TK_semicolon" by simp
    from steps_after[OF step_recover_iff(2)[OF this] l[unfolded RECOVER]] show ?thesis using RECOVER by (simp add: end_query_def)
  next
    case (HEADER b)
    then show ?thesis using assms(1) by simp
  qed
qed

lemma run_stmts_reads: "reads_query m \<Longrightarrow> run_stmts E m cs st = Some (m1, st1) \<Longrightarrow> reads_query m1"
proof (induction cs arbitrary: m st)
  case (Cons c cs)
  then show ?case using Cons.IH[of BODY] Cons.IH[of RECOVER] by (auto split: if_splits bind_splits)
qed simp

lemma end_query_reads: "end_query E m st = Some (m1, st1) \<Longrightarrow> reads_query m1"
  by (auto simp: end_query_def split: if_splits)

lemma steps_queries:
  "reads_query m \<Longrightarrow> ahead m' ts r \<Longrightarrow>
   y1_steps E (m, st, session_tokens qs @ r) (m', st', ts) \<longleftrightarrow>
     (\<exists>m1 st1. run_queries E m qs st = Some (m1, st1) \<and> reads_query m1 \<and> y1_steps E (m1, st1, r) (m', st', ts))"
proof (induction qs arbitrary: m st)
  case (Cons cs qs)
  let ?r = "session_tokens qs @ r"
  have a: "ahead m' ts ?r" by (rule ahead_append(1)[OF Cons.prems(2)])
  have "y1_steps E (m, st, session_tokens (cs # qs) @ r) (m', st', ts) \<longleftrightarrow>
      (\<exists>m1 st1. run_stmts E m cs st = Some (m1, st1) \<and> reads_query m1 \<and> y1_steps E (m1, st1, TK_NL # ?r) (m', st', ts))"
    using steps_stmts[OF Cons.prems(1) ahead_append(2)[OF a, of TK_NL], of E st cs st'] by (simp add: session_tokens_def query_tokens_def)
  also have "\<dots> \<longleftrightarrow> (\<exists>m1 st1. run_stmts E m cs st = Some (m1, st1) \<and> reads_query m1 \<and>
      (\<exists>m2 st2. end_query E m1 st1 = Some (m2, st2) \<and> reads_query m2 \<and>
        (\<exists>m3 st3. run_queries E m2 qs st2 = Some (m3, st3) \<and> reads_query m3 \<and> y1_steps E (m3, st3, r) (m', st', ts))))"
    using steps_end_query[OF _ a, of _ E] Cons.IH[OF _ Cons.prems(2)] by auto
  also have "\<dots> \<longleftrightarrow> (\<exists>m3 st3. run_queries E m (cs # qs) st = Some (m3, st3) \<and> reads_query m3 \<and> y1_steps E (m3, st3, r) (m', st', ts))"
    using run_stmts_reads[OF Cons.prems(1), of E cs st] end_query_reads[of E] by (auto split: bind_splits)
  finally show ?case .
qed (simp add: session_tokens_def)

lemma steps_same: "y1_steps E (m, st, ts) (m', st', ts) \<longleftrightarrow> m' = m \<and> st' = st"
proof
  have l: "y1_steps E x y \<Longrightarrow> length (snd (snd y)) \<le> length (snd (snd x))" for x y
    by (induction rule: rtranclp_induct) (simp, meson step_shorter le_trans less_imp_le)
  assume "y1_steps E (m, st, ts) (m', st', ts)"
  then show "m' = m \<and> st' = st" by (rule converse_rtranclpE) (auto dest!: step_shorter l)
qed simp

lemma queries_reach:
  assumes "reads_query m"
  shows "y1_steps E (m, st, session_tokens qs @ ts) (m', st', ts) \<longleftrightarrow> run_queries E m qs st = Some (m', st') \<and> reads_query m'"
  using steps_queries[OF assms, of m' ts ts E st qs st'] steps_same[of E _ _ ts] by (auto simp: ahead_def)

section \<open>The text of a session\<close>

lemma query_tokens_unique: "query_tokens cs @ r = query_tokens cs' @ r' \<Longrightarrow> cs = cs' \<and> r = r'"
proof (induction cs arbitrary: cs')
  case Nil
  then show ?case using cmd_not_nl[symmetric] by (cases cs') (auto simp: query_tokens_def stmt_tokens_def)
next
  case (Cons c cs)
  have n: "stmt_tokens c @ x \<noteq> TK_NL # y" for x y using cmd_not_nl[of c] by (simp add: stmt_tokens_def)
  then obtain c' cs'' where cs': "cs' = c' # cs''" using Cons.prems by (cases cs') (auto simp: query_tokens_def)
  have "y1_cmd_tokens c @ TK_semicolon # query_tokens cs @ r = y1_cmd_tokens c' @ TK_semicolon # query_tokens cs'' @ r'"
    using Cons.prems by (simp add: cs' query_tokens_def stmt_tokens_def)
  then show ?case using cmd_semicolon_unique Cons.IH cs' by blast
qed

lemma query_tokens_ne: "query_tokens cs @ r \<noteq> []"
  by (simp add: query_tokens_def)

lemma session_tokens_inj: "session_tokens qs = session_tokens qs' \<Longrightarrow> qs' = qs"
proof (induction qs arbitrary: qs')
  case Nil
  then show ?case using query_tokens_ne by (cases qs') (auto simp: session_tokens_def)
next
  case (Cons cs qs)
  then obtain cs' qs'' where "qs' = cs' # qs''" using query_tokens_ne by (cases qs') (auto simp: session_tokens_def)
  moreover from this have "query_tokens cs @ session_tokens qs = query_tokens cs' @ session_tokens qs''"
    using Cons.prems by (simp add: session_tokens_def)
  ultimately show ?case using query_tokens_unique Cons.IH by blast
qed

section \<open>The whole session\<close>

lemma step_header_iff:
  "y1_step E (HEADER b, st, TK_USER # TK_chr CHR '':'' # TK_STRING v # TK_NL # ts) x \<longleftrightarrow> x = (HEADER True, y1_user v st, ts)"
  "y1_step E (HEADER b, st, TK_CATALOG # TK_chr CHR '':'' # TK_STRING v # TK_NL # ts) x \<longleftrightarrow>
     (\<exists>st'. y1_catalog E v st = Some st' \<and> x = (HEADER True, st', ts))"
  "y1_step E (HEADER True, st, TK_NL # ts) x \<longleftrightarrow> (\<exists>st'. y1_header_end E st = Some st' \<and> x = (QUERIES False, st', ts))"
  by (auto elim!: y1_step_headerE intro: step_user step_catalog step_header)

lemma steps_header:
  assumes "\<exists>ret. y1_ends m' ts ret"
  shows "y1_steps E (HEADER False, st, header_tokens user catalog @ r) (m', st', ts) \<longleftrightarrow>
    (\<exists>st1. run_header E user catalog st = Some st1 \<and> y1_steps E (QUERIES False, st1, r) (m', st', ts))"
proof -
  have d: "(m, s, xs) \<noteq> (m', st', ts)" if "\<And>ret. \<not> y1_ends m xs ret" for m s xs using that assms by auto
  have h: "y1_steps E (HEADER True, s, TK_NL # r) (m', st', ts) \<longleftrightarrow>
      (\<exists>st1. y1_header_end E s = Some st1 \<and> y1_steps E (QUERIES False, st1, r) (m', st', ts))" for s
    unfolding steps_first[OF d[OF y1_ends_not(6)], of E] step_header_iff(3) by blast
  have c: "y1_steps E (HEADER True, s, TK_CATALOG # TK_chr CHR '':'' # TK_STRING v # TK_NL # xs) (m', st', ts) \<longleftrightarrow>
      (\<exists>st1. y1_catalog E v s = Some st1 \<and> y1_steps E (HEADER True, st1, xs) (m', st', ts))" for s v xs
    unfolding steps_first[OF d[OF y1_ends_not(5)], of E] step_header_iff(2) by blast
  have u: "y1_steps E (HEADER False, st, TK_USER # TK_chr CHR '':'' # TK_STRING v # TK_NL # xs) (m', st', ts) \<longleftrightarrow>
      y1_steps E (HEADER True, y1_user v st, xs) (m', st', ts)" for v xs
    by (rule steps_after[OF step_header_iff(1) d]) simp
  show ?thesis by (cases catalog) (auto simp: header_tokens_def u c h run_header_def split: bind_splits)
qed

lemma ends_nothing: "reads_query m \<Longrightarrow> y1_ends m [] ret \<longleftrightarrow> ret = (if m = QUERIES True then 0 else 1)"
  by (cases m) (auto elim!: y1_ends.cases intro: y1_ends.intros)

lemma steps_nothing: "reads_query m \<Longrightarrow> y1_steps E (m, st, []) (m', st', ts) \<longleftrightarrow> m' = m \<and> st' = st \<and> ts = []"
proof
  assume "y1_steps E (m, st, []) (m', st', ts)"
  then show "m' = m \<and> st' = st \<and> ts = []" by (rule converse_rtranclpE) (auto dest: step_shorter)
qed simp

lemma run_queries_reads: "reads_query m \<Longrightarrow> run_queries E m qs st = Some (m', st') \<Longrightarrow> reads_query m'"
proof (induction qs arbitrary: m st)
  case (Cons cs qs)
  then obtain m1 st1 m2 st2 where "end_query E m1 st1 = Some (m2, st2)" "run_queries E m2 qs st2 = Some (m', st')"
    by (auto split: bind_splits)
  then show ?case using Cons.IH end_query_reads by blast
qed simp

lemma steps_session:
  "(y1_steps E (HEADER False, st, header_tokens user catalog @ session_tokens qs) (m', st1, rest) \<and> y1_ends m' rest ret) \<longleftrightarrow>
   (\<exists>st0. run_header E user catalog st = Some st0 \<and> run_queries E (QUERIES False) qs st0 = Some (m', st1) \<and>
      rest = [] \<and> ret = (if m' = QUERIES True then 0 else 1))" (is "(?s \<and> ?e) \<longleftrightarrow> ?r")
proof -
  have rd: "run_queries E (QUERIES False) qs st0 = Some (m', st1) \<Longrightarrow> reads_query m'" for st0 by (rule run_queries_reads) simp_all
  have q: "y1_steps E (QUERIES False, st0, session_tokens qs) (m', st1, rest) \<longleftrightarrow>
      run_queries E (QUERIES False) qs st0 = Some (m', st1) \<and> rest = []" if ?e for st0
  proof -
    have "ahead m' rest []" using that by (auto simp: ahead_def)
    from steps_queries[OF _ this, of "QUERIES False" E st0 qs st1] show ?thesis
      using steps_nothing[of _ E _ m' st1 rest] rd[of st0] by auto
  qed
  have h: "?s \<longleftrightarrow> (\<exists>st0. run_header E user catalog st = Some st0 \<and> y1_steps E (QUERIES False, st0, session_tokens qs) (m', st1, rest))" if ?e
    using that by (intro steps_header) blast
  show ?thesis
  proof
    assume a: "?s \<and> ?e"
    then obtain st0 where r: "run_header E user catalog st = Some st0" "run_queries E (QUERIES False) qs st0 = Some (m', st1)" "rest = []"
      using h q by blast
    moreover have "ret = (if m' = QUERIES True then 0 else 1)" using a ends_nothing[OF rd[OF r(2)]] r(3) by simp
    ultimately show ?r by blast
  next
    assume ?r
    then obtain st0 where r: "run_header E user catalog st = Some st0" "run_queries E (QUERIES False) qs st0 = Some (m', st1)"
      "rest = []" "ret = (if m' = QUERIES True then 0 else 1)" by blast
    have e: ?e using ends_nothing[OF rd[OF r(2)]] r(3,4) by simp
    then show "?s \<and> ?e" using h[OF e] q[OF e] r by blast
  qed
qed

lemma parse_runs:
  "y1_parse E (header_tokens user catalog @ session_tokens qs) st st' ret \<longleftrightarrow> run_session E user catalog qs st = Some (st', ret)"
proof -
  have "y1_parse E (header_tokens user catalog @ session_tokens qs) st st' ret \<longleftrightarrow>
    (\<exists>m' st1 rest. (y1_steps E (HEADER False, st, header_tokens user catalog @ session_tokens qs) (m', st1, rest) \<and> y1_ends m' rest ret) \<and>
      y1_leave ret st1 = Some st')"
    unfolding y1_parse.simps by blast
  also have "\<dots> \<longleftrightarrow> (\<exists>m' st1 st0. run_header E user catalog st = Some st0 \<and> run_queries E (QUERIES False) qs st0 = Some (m', st1) \<and>
      ret = (if m' = QUERIES True then 0 else 1) \<and> y1_leave ret st1 = Some st')"
    unfolding steps_session by blast
  also have "\<dots> \<longleftrightarrow> run_session E user catalog qs st = Some (st', ret)"
    by (auto simp: run_session_def Let_def split: bind_splits)
  finally show ?thesis .
qed

text \<open>
  C5: What the text of a whole connection does: the scanner and the grammar read a header and
  queries in any spelling as exactly one list of statements, no two lists having the same
  tokens, and the parser with its recovery from errors ends with a state and result exactly
  when running the header and then the statements in order ends with them, where the statement
  behind a failed one is skipped, an empty query is answered with OK, and the session returns
  0 unless it has no query or its last statement failed.
\<close>

theorem session_runs_in_order:
  assumes "header_name user" "\<forall>cat. catalog = Some cat \<longrightarrow> header_name cat" "spelled q (session_tokens qs)"
  shows "\<exists>ts. y1_scan junk SC_INITIAL (header_text user catalog @ q) = Some ts \<and>
    (\<forall>qs'. ts = header_tokens user catalog @ session_tokens qs' \<longleftrightarrow> qs' = qs) \<and>
    (y1_parse E ts st st' ret \<longleftrightarrow> run_session E user catalog qs st = Some (st', ret))"
  using scan_header[OF assms(1,2), of junk q] scan_spelled[OF assms(3), of junk] session_tokens_inj[of qs]
    parse_runs[of E user catalog qs st st' ret] by (intro exI[of _ "header_tokens user catalog @ session_tokens qs"]) auto

text \<open>
  C6: A statement that fails in a query of its own silences the next query: whatever its
  statement is, the parser discards it and comes to the end of that query in exactly the state
  the failed statement left, so that nothing of it was run and not a byte was sent for it.
\<close>

theorem failed_statement_silences_next:
  assumes "y1_run E c st = Some (st1, ret)" "ret \<noteq> 0"
  shows "y1_steps E (QUERIES b, st, session_tokens [[c], [c']] @ ts) (m', st', ts) \<longleftrightarrow> m' = QUERIES True \<and> st' = st1"
proof -
  have "reads_query (QUERIES b)" by (simp add: reads_query_def)
  from queries_reach[OF this, of E st "[[c], [c']]" ts m' st'] show ?thesis using assms by (auto simp: end_query_def)
qed

section \<open>At concrete input\<close>

definition sample_stmt :: y1_cmd where
  "sample_stmt = (let name = (\<lambda>s. A_mul (M_primary (P_value (VID (ascii s))))) in SELECT (ascii ''size'') [] (ascii ''home'') (ascii ''rooms'')
     (Some (O_and (D_and (D_not (N_cmp (C_ge (name ''size'') (A_mul (M_primary (P_value (VINTEGER (- 12))))))))
       (N_cmp (C_eq (name ''name'') (A_mul (M_primary (P_value (VSTRING (ascii ''it'' @ 39 # ascii ''s''))))))))))) "

lemma sample_stmt_spelled: "spelled (sample_query @ [10] @ ascii ''$$'' @ [10]) (session_tokens [[sample_stmt]])"
proof -
  have "session_tokens [[sample_stmt]] = sample_query_tokens @ [TK_NL]"
    by (simp add: session_tokens_def query_tokens_def stmt_tokens_def sample_stmt_def sample_query_tokens_def y1_list_def y1_id_tokens_def
        y1_name_tokens_def y1_where_tokens_def y1_value_tokens_def)
  then show ?thesis using spelled_query[OF sample_spelled sp_end] by simp
qed

text \<open>The second parser fails on every statement, as it does on one without its catalog.\<close>

definition sample_env :: "((32 word \<Rightarrow> u8 list) \<times> nat) y1_env" where
  "sample_env = \<lparr>env_send = slow_send, env_y2 = (\<lambda>bc d ss w s. Some (d, ss, w, s, 1)), env_sys = small_sys, env_room = (\<lambda>_ _. True),
     env_junk = (\<lambda>_. put BC_COMMIT), env_left = (\<lambda>_ _. [])\<rparr>"

theorem session_runs_in_order_witness:
  "y1_scan (\<lambda>_ _. 0) SC_INITIAL (header_text [117] (Some [99]) @ sample_query @ [10] @ ascii ''$$'' @ [10]) =
       Some (header_tokens [117] (Some [99]) @ session_tokens [[sample_stmt]]) \<and>
     session_tokens [[sample_stmt]] \<noteq> session_tokens [[sample_stmt], []] \<and>
     (\<forall>st st' ret. y1_parse sample_env (header_tokens [117] (Some [99]) @ session_tokens [[sample_stmt]]) st st' ret \<longleftrightarrow>
       run_session sample_env [117] (Some [99]) [[sample_stmt]] st = Some (st', ret))"
proof -
  have n: "header_name [117]" "\<forall>cat. Some [99] = Some cat \<longrightarrow> header_name cat"
    by (simp_all add: header_name_def is_alnum_def is_alpha_def blank_def)
  let ?h = "header_tokens [117] (Some [99])" and ?t = "header_text [117] (Some [99]) @ sample_query @ [10] @ ascii ''$$'' @ [10]"
  have "y1_scan (\<lambda>_ _. 0) SC_INITIAL ?t = Some (?h @ session_tokens [[sample_stmt]]) \<and>
     session_tokens [[sample_stmt]] \<noteq> session_tokens [[sample_stmt], []] \<and>
     (y1_parse sample_env (?h @ session_tokens [[sample_stmt]]) st st' ret \<longleftrightarrow>
       run_session sample_env [117] (Some [99]) [[sample_stmt]] st = Some (st', ret))" for st st' ret
  proof -
    obtain ts where t: "y1_scan (\<lambda>_ _. 0) SC_INITIAL ?t = Some ts" "\<forall>qs'. ts = ?h @ session_tokens qs' \<longleftrightarrow> qs' = [[sample_stmt]]"
      "y1_parse sample_env ts st st' ret \<longleftrightarrow> run_session sample_env [117] (Some [99]) [[sample_stmt]] st = Some (st', ret)"
      using session_runs_in_order[OF n sample_stmt_spelled, of "\<lambda>_ _. 0" sample_env st st' ret] by (elim exE conjE) (rule that)
    have e: "ts = ?h @ session_tokens [[sample_stmt]]" using spec[OF t(2), of "[[sample_stmt]]"] by blast
    have "session_tokens [[sample_stmt]] \<noteq> session_tokens [[sample_stmt], []]"
      using spec[OF t(2), of "[[sample_stmt], []]"] unfolding e by simp
    then show ?thesis using t(1,3) unfolding e by blast
  qed
  then show ?thesis by simp
qed

lemma cmd_reset_ok:
  assumes "cm_bc_cont cmd = Some c1" "cm_str_cont cmd = Some c2" "cm_current_cont cmd = Some c3" "distinct [c1, c2, c3]"
    and "childless h c1" "childless h c2" "childless h c3"
  shows "\<exists>h' cmd'. cmd_reset h cmd = Some (h', cmd')"
proof -
  obtain b1 where h1: "bump_context_reset h c1 = Some (h(c1 \<mapsto> b1))" using reset_childless[OF assms(5)] by blast
  have "childless (h(c1 \<mapsto> b1)) c2" using assms(4,6) by (simp add: childless_def)
  then obtain b2 where h2: "bump_context_reset (h(c1 \<mapsto> b1)) c2 = Some (h(c1 \<mapsto> b1, c2 \<mapsto> b2))" using reset_childless by blast
  have "childless (h(c1 \<mapsto> b1, c2 \<mapsto> b2)) c3" using assms(4,7) by (simp add: childless_def)
  then obtain h3 where "bump_context_reset (h(c1 \<mapsto> b1, c2 \<mapsto> b2)) c3 = Some h3" using reset_childless by blast
  then show ?thesis using h1 h2 assms(1-3) by (simp add: cmd_reset_def)
qed

lemma sample_failure:
  "\<exists>st st1. ss_catalog (ys_sess st) = None \<and> y1_run sample_env (CREATE_SCHEMA n) st = Some (st1, 4)"
proof -
  obtain m cmd where c: "cmd_init 4096 (Some 1) (Some 2) (Some 3) session_memory = Some (m, cmd)"
    "cm_bc_cont cmd = Some 1" "cm_str_cont cmd = Some 2" "cm_current_cont cmd = Some 3"
    "childless (m_heap m) 1" "childless (m_heap m) 2" "childless (m_heap m) 3"
    using sample_cmd by blast
  have bc: "cm_bc cmd = bc_init (Some 1)" using c(1,2) by (auto simp: cmd_init_def split: bind_splits)
  let ?ss = "small_sess\<lparr>ss_catalog := None\<rparr>"
  let ?st = "\<lparr>ys_m = m, ys_cmd = cmd, ys_db = small_db, ys_sess = ?ss, ys_seq = 0, ys_w = (\<lambda>_. [], 0), ys_s = fresh_session\<rparr>"
  have h: "bc_holds (cm_bc cmd) (code_nodes Done)"
    by (simp add: bc bc_holds_def bc_init_def array_view_def array_size_def)
  obtain a where a: "bc_prepare (cm_bc cmd) = Some ((cm_bc cmd)\<lparr>bc_tokens := a\<rparr>, 0)"
    using bc_prepare_linked[OF h] by auto
  obtain w' s' where w: "session_send_status slow_send (\<lambda>_. [], 0) fresh_session SCRS_PARSER_ERROR = Some (w', s')"
    using send_status_delivers[OF slow_send_laws fresh_session_ok(1)] by blast
  have d: "distinct [1 :: cid, 2, 3]" by simp
  obtain h' cmd' where r: "cmd_reset (m_heap m) cmd = Some (h', cmd')" using cmd_reset_ok[OF c(2-4) d c(5-7)] by blast
  have "\<exists>st1. ss_catalog (ys_sess ?st) = None \<and> y1_run sample_env (CREATE_SCHEMA n) ?st = Some (st1, 4)"
    by (simp add: y1_run_def y1_put_def y1_execute_def execute_cmd_def sample_env_def a w r)
  then show ?thesis by (rule exI)
qed

theorem failed_statement_silences_next_witness:
  "\<exists>st st1. y1_run sample_env (CREATE_SCHEMA [104]) st = Some (st1, 4) \<and>
     y1_steps sample_env (QUERIES False, st, session_tokens [[CREATE_SCHEMA [104]], [COMMIT]]) (QUERIES True, st1, [])"
proof -
  obtain st st1 where r: "y1_run sample_env (CREATE_SCHEMA [104]) st = Some (st1, 4)" using sample_failure by blast
  then show ?thesis using failed_statement_silences_next[OF r, of False COMMIT "[]" "QUERIES True" st1] by auto
qed

end
