(* ===== verification/Spec2Isabelle.thy ===== *)
theory Spec2Isabelle
  imports Scr_Align Scr_Gid Scr_Type Scr_Type_Order Scr_Like Scr_Ihash Scr_Ilist2 Scr_Icache Scr_Fdcache Scr_Pagecache_Laws Scr_Memory_Laws Scr_Sequence_Laws Scr_Tcl_Laws Scr_Ddl Scr_Statement Scr_Client_Laws Scr_Typing Scr_Init_Laws Scr_Catalog_Laws Scr_Parse_Laws
begin

text \<open>
  A verification of \<^bold>\<open>scroller\<close>, a relational database server in C. The repository has a core
  library (\<^verbatim>\<open>src/lib/core/src\<close>), a server that parses SQL and runs it over the library
  (\<^verbatim>\<open>src/src/scrs\<close>), a client (\<^verbatim>\<open>src/src/scrc\<close>) and a program that
  creates the system tables (\<^verbatim>\<open>src/src/scri\<close>).

  \<^bold>\<open>How the program is put together.\<close> Values (type.c, cell.c) live in the cells of grids, pages of
  equal rows (grid.c). Grids are chained to meshes (mesh.c), meshes whose rows carry
  transaction ids are tables (table.c), and a transaction sees the row versions that tran.c
  allows. Pages are named by global ids (gid.c) and reach memory through the page cache
  (pagecache.c), a least-recently-used cache (icache.c) made of a hash table (ihash.c) and an
  array list (ilist2.c), over a cache of file descriptors (fdcache.c). New files and
  transactions are numbered by sequences (sequence.c), grids of one row. All other memory
  comes from contexts (memory.c); growing arrays (array.c) take their blocks from them.

  A connection goes through two parsers. hquery.l and hquery.y read the header and the
  queries the client sends and put the tokens of each statement into an array of bytecode; bc.c
  links its loops; execute.y reads this array, the body of a loop once for each row of a table
  iterator, and calls the statements (ddl.c, dml.c, tcl.c), which find their tables in the
  system tables. Answers go through the send buffer of session.c and are read by the client
  library scrc.c over its receive buffer, which the console client prints.

  \<^bold>\<open>Theories.\<close> Named after the C files; a theory \<open>_Laws\<close> holds the properties
  where model and proofs would be too long for one file.
  \<^item> \<open>Scr_Prelude\<close>: machine words, chains of array indices, little-endian bytes, blocks of
    byte arrays. \<open>Scr_Contracts\<close>: the interfaces of the containers as locales.
  \<^item> \<open>Scr_Align\<close>, \<open>Scr_Gid\<close>: align.c, gid.c.
  \<^item> \<open>Scr_Type\<close>, \<open>Scr_Type_Order\<close>, \<open>Scr_Like\<close>: type.c and cell.c, its comparisons as a linear
    order, the LIKE operator.
  \<^item> \<open>Scr_Ihash\<close>, \<open>Scr_Ilist2\<close>, \<open>Scr_Icache\<close>, \<open>Scr_Fdcache\<close>, \<open>Scr_Pagecache\<close>,
    \<open>Scr_Pagecache_Laws\<close>: the caches, each proved over the contract of the one below.
  \<^item> \<open>Scr_Memory\<close>, \<open>Scr_Memory_Laws\<close>, \<open>Scr_Array\<close>: bump and linear contexts and their trees
    (the contract of an allocator is a locale with both as interpretations), growing arrays.
  \<^item> \<open>Scr_Grid\<close>, \<open>Scr_Grid_Laws\<close>, \<open>Scr_Sequence\<close>, \<open>Scr_Sequence_Laws\<close>: grids, and sequences over them.
  \<^item> \<open>Scr_Mesh\<close>, \<open>Scr_Tran\<close>, \<open>Scr_Table\<close>, \<open>Scr_Table_Laws\<close>: meshes, visibility, tables.
  \<^item> \<open>Scr_Dml\<close>, \<open>Scr_Ddl\<close>: the statements of the server over the system tables (dml.c and
    tcl.c; ddl.c). \<open>Scr_Dml_Laws\<close>, \<open>Scr_Tcl_Laws\<close>, \<open>Scr_Catalog_Laws\<close>: insertion, the life of a
    transaction, the relation table as a catalog.
  \<^item> \<open>Scr_Session\<close>, \<open>Scr_Scrc\<close> with their \<open>_Laws\<close>: the send buffer of the server and the receive
    buffer, header lines and rows of the client library, both as streams of bytes.
  \<^item> \<open>Scr_Execute\<close>, \<open>Scr_Execute_Laws\<close>, \<open>Scr_Typing\<close>: expressions, SELECT and DELETE (the actions
    of execute.y), and the types of WHERE parts. \<open>Scr_Protocol_Laws\<close>: server and client together.
  \<^item> \<open>Scr_Bc\<close>, \<open>Scr_Bc_Laws\<close>: bc.c and y2lex. \<open>Scr_Query\<close>, \<open>Scr_Query_Laws\<close>: the tokens hquery.y
    puts (cmd.c among them) and the productions of execute.y that read them.
    \<open>Scr_Statement\<close>: what each statement and the end of a header do.
  \<^item> \<open>Scr_Scan\<close>, \<open>Scr_Scan_Laws\<close>: the rules of hquery.l as regular expressions with the longest match.
    \<open>Scr_Sql\<close>, \<open>Scr_Parse\<close>, \<open>Scr_Parse_Laws\<close>: the grammar of hquery.y, the parser of a session as
    a step relation with its recovery from errors.
  \<^item> \<open>Scr_Client\<close>, \<open>Scr_Client_Laws\<close>: the console client, \<^verbatim>\<open>src/scrc/main.c\<close>.
  \<^item> \<open>Scr_Init\<close>, \<open>Scr_Init_Laws\<close>, \<open>Scr_Server\<close>, \<open>Scr_Server_Laws\<close>: init_cluster of
    \<^verbatim>\<open>src/scri/main.c\<close>, and how server.c starts and stops.

  \<^bold>\<open>How code becomes definitions.\<close> Definitions carry the names of the C functions. A struct is a
  record, an enum a datatype, an integer a word of its width, so sums wrap where the compiled
  code wraps. An operation on a struct takes and returns it. The outer \<open>None\<close> of a result
  is undefined behaviour or a failed assert: a NULL dereference, an index out of range, a
  division trap. An error the C code reports is an ordinary value: an inner \<open>None\<close> for a
  NULL result, the int for a return code. Arrays are lists; a pointer into an array is its
  index; a page of bytes is a list of bytes, or the grid it holds. Loops whose end is not
  evident are \<open>partial_function (option)\<close>, and the properties prove that they end; there is no
  fuel in the model. Macros that expand to functions (\<open>ihash_put\<close>, \<open>grid_get_row\<close> and the
  like) are definitions of their own. Productions of a grammar are functions from trees to
  tokens and inductive relations from tokens to trees; the actions are functions on the trees.

  \<^bold>\<open>What the lemmas show.\<close> For each container a representation invariant, that every operation
  keeps it, and that the operation refines a finite map, a deque, a stack or a
  least-recently-used list. For the caches over files that no descriptor leaks and no byte of
  a page is lost. For contexts where each block goes, that blocks are disjoint, that contents
  survive realloc and that dropping a tree unmaps it. For values that comparison is an order,
  arithmetic exact where it fits and LIKE what SQL says. For grids that rows form a bounded
  list, columns do not overlap and a cell reads back what was put, for sequences that they
  count, for meshes that allocation appends, and for tables that a scan ends and visits exactly
  the visible rows. For statements that an insertion appends one row version, which other
  transactions see after the commit and never after a rollback, and that a created table is
  found under its names.
  For the connection that sends and receives are streams of bytes over any socket, that a
  status and the rows of a SELECT reach the client and its terminal, that the script client
  sends each statement up to its own semicolon, and that what is sent is scanned as the tokens
  it spells. For the parsers that the tokens of a statement have one reading in either grammar,
  that a loop of bytecode runs once for each row, that the types of the header decide the
  checks on every row, and what a whole connection does, including what a failed statement does
  to the next one. For a cluster that the server reads what the init program wrote, and which
  mappings of the caches remain.
  Where the code fails the properties state how: overflow in comparison and in nextval, a
  table page without rows, a context smaller than its header, an eviction that frees nothing,
  a failed flush that repeats bytes, a WHERE part over no row.

  \<^bold>\<open>Parameters.\<close> The operating system is not part of the source. open, close, pread and pwrite
  are arguments of \<open>Scr_Fdcache\<close> and \<open>Scr_Pagecache\<close>, send and recv of \<open>Scr_Session\<close> and
  \<open>Scr_Scrc\<close>, with the laws of POSIX as hypotheses (\<open>os_laws\<close>, \<open>fs_laws\<close>, \<open>send_laws\<close>,
  \<open>recv_laws\<close>); properties that also need calls not to fail say so (\<open>fs_reliable\<close>,
  \<open>send_reliable\<close>, \<open>recv_reliable\<close>), and each has a witness on a concrete system. What mmap gives
  is an argument of \<open>context_create\<close>, of the allocators of \<open>Scr_Array\<close> and \<open>Scr_Bc\<close> and of
  the start of the server, like the results of mkdir, chdir, the socket's set-up and sigaction.
  In \<open>Scr_Parse\<close> the second parser is a parameter, and so is what a syntax error leaves in the
  array of bytecode.

  \<^bold>\<open>Bounds.\<close> The page size is the default 4096, as in \<^verbatim>\<open>grid.c\<close>; a context has the
  number of child slots of the source. The stores of \<open>Scr_Mesh\<close> give a page for a gid without
  naming the frame it is in: the code keeps pointers to pages over later page cache calls, and
  the model is faithful to runs in which such a page is not evicted meanwhile. The stack of the
  generated parsers is unbounded in the model.

  \<^bold>\<open>Not modelled.\<close> tcp.c (socket set-up), flog.c (logging) and the empty query.c; the tables
  that flex and bison generate, which the rules and productions stand for; the accept loop,
  the signal handler and the set-up of the process in the server's main; main of the init
  program, which sets up its caches; the sockets scrc_connect opens and scrc_close closes, and
  the close in session_drop; log and usage messages; failing allocations where a component's
  note says so.
\<close>

end
